(* ===== verification/C_Prelude.thy ===== *)
theory C_Prelude
  imports Main "HOL-Library.Word"
begin

text \<open>
  Shared vocabulary of the development: the C types the modules use, the search loop
  \<open>for (i = a; i < b; i++) if (p) return i;\<close> that several modules contain, and the list
  lemmas the component theories share.  The collection \<open>loop_facts\<close> gathers the
  characterisations of loops by list operations, \<open>inv_intros\<close> the preservation lemmas of
  the components' invariants.
\<close>

named_theorems loop_facts
named_theorems inv_intros

type_synonym uint8_t = "8 word"
type_synonym uint16_t = "16 word"
type_synonym uint32_t = "32 word"

subsection \<open>The linear search loop\<close>

function for_find :: "(nat \<Rightarrow> bool) \<Rightarrow> nat \<Rightarrow> nat \<Rightarrow> nat option" where
  "for_find p i n = (if i < n then (if p i then Some i else for_find p (Suc i) n) else None)"
  by pat_completeness auto
termination
  by (relation "measure (\<lambda>(p, i, n). n - i)") auto

declare for_find.simps [simp del]

lemma for_find_Some:
  "for_find p i n = Some k \<Longrightarrow> i \<le> k \<and> k < n \<and> p k \<and> (\<forall>j. i \<le> j \<and> j < k \<longrightarrow> \<not> p j)"
proof (induction p i n rule: for_find.induct)
  case (1 p i n)
  show ?case
  proof (cases "i < n \<and> \<not> p i")
    case True
    with "1.prems" have "for_find p (Suc i) n = Some k"
      by (simp add: for_find.simps [of p i n])
    with "1.IH" True have *: "Suc i \<le> k \<and> k < n \<and> p k \<and> (\<forall>j. Suc i \<le> j \<and> j < k \<longrightarrow> \<not> p j)"
      by simp
    have "\<not> p j" if "i \<le> j" "j < k" for j
      using that * True by (cases "j = i") auto
    with * show ?thesis by auto
  next
    case False
    with "1.prems" show ?thesis
      by (auto simp: for_find.simps [of p i n] split: if_splits)
  qed
qed

lemma for_find_None: "for_find p i n = None \<longleftrightarrow> (\<forall>j. i \<le> j \<and> j < n \<longrightarrow> \<not> p j)"
proof (induction p i n rule: for_find.induct)
  case (1 p i n)
  show ?case
  proof (cases "i < n \<and> \<not> p i")
    case True
    with "1.IH" have "for_find p i n = None \<longleftrightarrow> (\<forall>j. Suc i \<le> j \<and> j < n \<longrightarrow> \<not> p j)"
      by (simp add: for_find.simps [of p i n])
    also have "\<dots> \<longleftrightarrow> (\<forall>j. i \<le> j \<and> j < n \<longrightarrow> \<not> p j)"
      using True by (metis Suc_leI le_eq_less_or_eq Suc_leD)
    finally show ?thesis .
  next
    case False
    then show ?thesis by (auto simp: for_find.simps [of p i n])
  qed
qed

lemma for_find_cong:
  "(\<And>j. i \<le> j \<Longrightarrow> j < n \<Longrightarrow> p j = q j) \<Longrightarrow> for_find p i n = for_find q i n"
proof (induction p i n rule: for_find.induct)
  case (1 p i n)
  show ?case
  proof (cases "i < n \<and> \<not> p i")
    case True
    with 1 show ?thesis by (auto simp: for_find.simps [of p i n] for_find.simps [of q i n])
  next
    case False
    with "1.prems" show ?thesis
      by (auto simp: for_find.simps [of p i n] for_find.simps [of q i n])
  qed
qed

subsection \<open>Lists updated by index\<close>

lemma take_list_update_Suc:
  "i < length xs \<Longrightarrow> take (Suc i) (xs[i := x]) = take i xs @ [x]"
  by (simp add: take_Suc_conv_app_nth)

lemma drop_list_update_Suc: "drop (Suc i) (xs[i := x]) = drop (Suc i) xs"
  by simp

lemma sorted_map_take: "sorted (map f xs) \<Longrightarrow> sorted (map f (take n xs))"
  by (simp add: sorted_wrt_take take_map [symmetric])

lemma sorted_map_drop: "sorted (map f xs) \<Longrightarrow> sorted (map f (drop n xs))"
  by (simp add: sorted_wrt_drop drop_map [symmetric])

subsection \<open>Characters and strings\<close>

text \<open>
  A C string is the list of its characters before the terminating NUL.  \<open>char\<close> is signed on
  the platforms the modules are built for; \<open>char_int\<close> is its value after promotion.
\<close>

definition char_int :: "char \<Rightarrow> int" where
  "char_int c = (let n = of_char c :: int in if n < 128 then n else n - 256)"

definition digit_index :: "char \<Rightarrow> int" where
  "digit_index c = char_int c - 48"

definition is_digit_char :: "char \<Rightarrow> bool" where
  "is_digit_char c \<longleftrightarrow> 0 \<le> digit_index c \<and> digit_index c \<le> 9"

lemma of_char_int_range: "0 \<le> (of_char c :: int)" "of_char c < (256 :: int)"
proof -
  have "(of_char c :: int) = of_char c mod 256" by simp
  then show "0 \<le> (of_char c :: int)" "of_char c < (256 :: int)"
    by (metis pos_mod_sign zero_less_numeral, metis pos_mod_bound zero_less_numeral)
qed

lemma digit_index_inj:
  assumes "digit_index c = digit_index d"
  shows "c = d"
proof -
  have "of_char c = (of_char d :: int)"
    using assms of_char_int_range [of c] of_char_int_range [of d]
    by (auto simp: digit_index_def char_int_def Let_def split: if_splits)
  then show ?thesis by simp
qed

end
