(* ===== verification/Route_Array.thy ===== *)
theory Route_Array
  imports C_Prelude "HOL-Library.Multiset"
begin

text \<open>
  The bounded, cost-ordered route array of \<open>crienzo/mod_simple_lcr/route_trie.c\<close>.
  \<open>ra_route\<close> is the flexible array member: \<open>max_size\<close> slots from \<open>calloc\<close>, so an unused
  slot is \<open>zero_route\<close>, and \<open>route_array_find_by_cost\<close> recognises it by its zero value.
  \<open>ra_size\<close> is the number of slots the clients may read (the live ones); slots beyond it
  keep whatever earlier removals or a reset left there.
\<close>

type_synonym route_value_t = uint16_t
type_synonym route_type_t = uint8_t
type_synonym route_cost_t = uint16_t
type_synonym route_size_t = uint8_t

record route =
  rt_cost :: route_cost_t
  rt_value :: route_value_t
  rt_type :: route_type_t

record route_array =
  ra_max :: route_size_t
  ra_size :: route_size_t
  ra_route :: "route list"

definition zero_route :: route where
  "zero_route = \<lparr>rt_cost = 0, rt_value = 0, rt_type = 0\<rparr>"

definition route_get_value :: "route \<Rightarrow> route_value_t" where
  "route_get_value r = rt_value r"

definition route_get_type :: "route \<Rightarrow> route_type_t" where
  "route_get_type r = rt_type r"

definition route_get_cost :: "route \<Rightarrow> route_cost_t" where
  "route_get_cost r = rt_cost r"

definition route_array_create :: "route_size_t \<Rightarrow> route_array" where
  "route_array_create max_size =
     \<lparr>ra_max = max_size, ra_size = 0, ra_route = replicate (unat max_size) zero_route\<rparr>"

definition route_array_get_size :: "route_array \<Rightarrow> route_size_t" where
  "route_array_get_size a = ra_size a"

definition route_array_get_route :: "route_array \<Rightarrow> route_size_t \<Rightarrow> route option" where
  "route_array_get_route a index =
     (if index < ra_size a then Some (ra_route a ! unat index) else None)"

definition route_array_reset :: "route_array \<Rightarrow> route_array" where
  "route_array_reset a = a\<lparr>ra_size := 0\<rparr>"

definition route_array_contains :: "route_array \<Rightarrow> route_value_t \<Rightarrow> bool" where
  "route_array_contains a value1 =
     (for_find (\<lambda>i. rt_value (ra_route a ! i) = value1) 0 (unat (ra_size a)) \<noteq> None)"

definition route_array_find_by_value_and_type ::
    "route_array \<Rightarrow> route_value_t \<Rightarrow> route_type_t \<Rightarrow> nat" where
  "route_array_find_by_value_and_type a value1 type1 =
     (case for_find (\<lambda>i. rt_value (ra_route a ! i) = value1 \<and> rt_type (ra_route a ! i) = type1)
             0 (unat (ra_size a)) of
        Some i \<Rightarrow> i
      | None \<Rightarrow> unat (ra_max a))"

definition route_array_find_by_cost :: "route_array \<Rightarrow> route_cost_t \<Rightarrow> nat" where
  "route_array_find_by_cost a cost =
     (case for_find (\<lambda>i. rt_value (ra_route a ! i) = 0 \<or> rt_cost (ra_route a ! i) > cost)
             0 (unat (ra_max a)) of
        Some i \<Rightarrow> i
      | None \<Rightarrow> unat (ra_max a))"

text \<open>The shifting loop of \<open>route_array_remove\<close>; \<open>last\<close> is \<open>array->size - 1\<close>.\<close>

function remove_loop :: "route list \<Rightarrow> nat \<Rightarrow> nat \<Rightarrow> route list" where
  "remove_loop xs index last1 =
     (if index < last1 then remove_loop (xs[index := xs ! Suc index]) (Suc index) last1 else xs)"
  by pat_completeness auto
termination
  by (relation "measure (\<lambda>(xs, i, n). n - i)") auto

definition route_array_remove :: "route_array \<Rightarrow> int \<Rightarrow> route_array" where
  "route_array_remove a index =
     (if 0 \<le> index \<and> index < int (unat (ra_size a)) \<and> ra_size a > 0
      then a\<lparr>ra_route := remove_loop (ra_route a) (nat index) (unat (ra_size a) - 1),
             ra_size := ra_size a - 1\<rparr>
      else a)"

text \<open>The swapping loop of \<open>route_array_add\<close>: \<open>cur\<close> is carried to the right.\<close>

function insert_loop :: "route \<Rightarrow> route list \<Rightarrow> nat \<Rightarrow> nat \<Rightarrow> route list" where
  "insert_loop cur xs i max1 =
     (if rt_value cur \<noteq> 0 \<and> i < max1
      then insert_loop (xs ! i) (xs[i := cur]) (Suc i) max1
      else xs)"
  by pat_completeness auto
termination
  by (relation "measure (\<lambda>(cur, xs, i, n). n - i)") auto

definition route_array_insert :: "route_array \<Rightarrow> route \<Rightarrow> route_array" where
  "route_array_insert a r =
     (let i = route_array_find_by_cost a (rt_cost r);
          xs = insert_loop r (ra_route a) i (unat (ra_max a));
          n = ra_size a + 1
      in a\<lparr>ra_route := xs, ra_size := (if n > ra_max a then ra_max a else n)\<rparr>)"

definition route_array_add :: "route_array \<Rightarrow> route \<Rightarrow> route_array" where
  "route_array_add a r =
     (let i = route_array_find_by_value_and_type a (rt_value r) (rt_type r)
      in if i \<noteq> unat (ra_max a)
         then (if rt_cost (ra_route a ! i) < rt_cost r then a
               else route_array_insert (route_array_remove a (int i)) r)
         else route_array_insert a r)"

definition route_array_add_all :: "route_array \<Rightarrow> route list \<Rightarrow> route_array" where
  "route_array_add_all a rs = foldl route_array_add a rs"

declare remove_loop.simps [simp del] insert_loop.simps [simp del]

definition ra_live :: "route_array \<Rightarrow> route list" where
  "ra_live a = take (unat (ra_size a)) (ra_route a)"


subsection \<open>The loops as list operations\<close>

lemma remove_loop_stop: "\<not> i < n \<Longrightarrow> remove_loop xs i n = xs"
  by (simp add: remove_loop.simps [of xs i n])

lemma insert_loop_stop: "rt_value cur = 0 \<or> \<not> i < m \<Longrightarrow> insert_loop cur xs i m = xs"
  by (auto simp: insert_loop.simps [of cur xs i m])

lemma insert_loop_step:
  "rt_value cur \<noteq> 0 \<Longrightarrow> i < m \<Longrightarrow>
   insert_loop cur xs i m = insert_loop (xs ! i) (xs[i := cur]) (Suc i) m"
  by (simp add: insert_loop.simps [of cur xs i m])

lemma remove_loop_eq [loop_facts]:
  "i \<le> n \<Longrightarrow> n < length xs \<Longrightarrow>
   remove_loop xs i n = take i xs @ take (n - i) (drop (Suc i) xs) @ drop n xs"
proof (induction xs i n rule: remove_loop.induct)
  case (1 xs i n)
  show ?case
  proof (cases "i < n")
    case True
    then have "remove_loop xs i n = remove_loop (xs[i := xs ! Suc i]) (Suc i) n"
      by (simp add: remove_loop.simps [of xs i n])
    also have "\<dots> = take (Suc i) (xs[i := xs ! Suc i]) @
        take (n - Suc i) (drop (Suc (Suc i)) (xs[i := xs ! Suc i])) @ drop n (xs[i := xs ! Suc i])"
      using True "1.IH" "1.prems" by simp
    also have "\<dots> = take i xs @ (xs ! Suc i # take (n - Suc i) (drop (Suc (Suc i)) xs)) @ drop n xs"
      using True "1.prems" by (simp add: take_list_update_Suc)
    also have "xs ! Suc i # take (n - Suc i) (drop (Suc (Suc i)) xs) = take (n - i) (drop (Suc i) xs)"
      using True "1.prems"
      by (metis Cons_nth_drop_Suc Suc_diff_Suc Suc_lessI less_trans_Suc take_Suc_Cons)
    finally show ?thesis .
  next
    case False
    with "1.prems" show ?thesis by (simp add: remove_loop_stop)
  qed
qed

definition occupied :: "route list \<Rightarrow> bool" where
  "occupied ys \<longleftrightarrow> (\<forall>y \<in> set ys. rt_value y \<noteq> 0)"

lemma occupied_simps [simp]:
  "occupied []" "occupied (y # ys) \<longleftrightarrow> rt_value y \<noteq> 0 \<and> occupied ys"
  "occupied (xs @ ys) \<longleftrightarrow> occupied xs \<and> occupied ys"
  by (auto simp: occupied_def)

lemma occupied_take: "occupied ys \<Longrightarrow> occupied (take n ys)"
  and occupied_drop: "occupied ys \<Longrightarrow> occupied (drop n ys)"
  by (auto simp: occupied_def dest: in_set_takeD in_set_dropD)

lemma occupied_update: "occupied ys \<Longrightarrow> rt_value y \<noteq> 0 \<Longrightarrow> occupied (ys[i := y])"
  using set_update_subset_insert [of ys i y] by (auto simp: occupied_def)

lemma zero_route_value [simp]: "rt_value zero_route = 0"
  by (simp add: zero_route_def)

lemma insert_loop_eq [loop_facts]:
  "xs = ys @ replicate k zero_route \<Longrightarrow> occupied ys \<Longrightarrow> i \<le> length ys \<Longrightarrow> rt_value cur \<noteq> 0 \<Longrightarrow>
   m = length xs \<Longrightarrow>
   insert_loop cur xs i m = take m (take i ys @ cur # drop i ys @ replicate k zero_route)"
proof (induction cur xs i m arbitrary: ys k rule: insert_loop.induct)
  case (1 cur xs i m)
  note prems = "1.prems"
  consider (full) "i = m" | (inner) "i < length ys" | (free) "i = length ys" "i < m"
    using prems by fastforce
  then show ?case
  proof cases
    case full
    with prems show ?thesis by (auto simp: insert_loop_stop)
  next
    case inner
    then have at: "xs ! i = ys ! i" and upd: "xs[i := cur] = ys[i := cur] @ replicate k zero_route"
      using prems by (simp_all add: nth_append list_update_append)
    have nz: "rt_value (ys ! i) \<noteq> 0"
      using prems inner by (simp add: occupied_def)
    have "insert_loop cur xs i m = insert_loop (ys ! i) (ys[i := cur] @ replicate k zero_route) (Suc i) m"
      using inner prems at upd by (simp add: insert_loop_step)
    also have "\<dots> = take m (take (Suc i) (ys[i := cur]) @ ys ! i # drop (Suc i) (ys[i := cur]) @
        replicate k zero_route)"
      using "1.IH" [of "ys[i := cur]" k] inner prems nz at upd by (simp add: occupied_update)
    also have "\<dots> = take m (take i ys @ cur # (ys ! i # drop (Suc i) ys) @ replicate k zero_route)"
      using inner by (simp add: take_list_update_Suc)
    also have "ys ! i # drop (Suc i) ys = drop i ys"
      using inner by (simp add: Cons_nth_drop_Suc)
    finally show ?thesis .
  next
    case free
    with prems obtain k' where k: "k = Suc k'" by (cases k) auto
    have "xs ! i = zero_route" using free prems k by (simp add: nth_append)
    then have "insert_loop cur xs i m = xs[i := cur]"
      using free prems by (simp add: insert_loop_step insert_loop_stop)
    also have "\<dots> = ys @ cur # replicate k' zero_route"
      using free prems k by simp
    also have "\<dots> = take m (take i ys @ cur # drop i ys @ replicate k zero_route)"
      using free prems k by (simp flip: replicate_Suc add: replicate_append_same)
    finally show ?thesis .
  qed
qed

subsection \<open>Representation and invariant\<close>

text \<open>
  \<open>ra_rep a ys\<close>: the slots hold the routes \<open>ys\<close> in ascending cost order, followed by
  never-used slots.  \<open>ys\<close> may be longer than the live part: the slots between \<open>ra_size\<close> and
  \<open>length ys\<close> hold what removals left behind.
\<close>

definition ra_rep :: "route_array \<Rightarrow> route list \<Rightarrow> bool" where
  "ra_rep a ys \<longleftrightarrow> occupied ys \<and> length ys \<le> unat (ra_max a) \<and>
     ra_route a = ys @ replicate (unat (ra_max a) - length ys) zero_route \<and>
     unat (ra_size a) \<le> length ys \<and> sorted (map rt_cost ys)"

definition filled :: "route_array \<Rightarrow> route list" where
  "filled a = takeWhile (\<lambda>r. rt_value r \<noteq> 0) (ra_route a)"

definition ra_inv :: "route_array \<Rightarrow> bool" where
  "ra_inv a \<longleftrightarrow> ra_rep a (filled a)"

definition ins_cost :: "route \<Rightarrow> route list \<Rightarrow> route list" where
  "ins_cost r ys = takeWhile (\<lambda>x. rt_cost x \<le> rt_cost r) ys @ r #
     dropWhile (\<lambda>x. rt_cost x \<le> rt_cost r) ys"

definition shift_out :: "nat \<Rightarrow> nat \<Rightarrow> route list \<Rightarrow> route list" where
  "shift_out i n ys = map (\<lambda>j. ys ! (if i \<le> j \<and> Suc j < n then Suc j else j)) [0..<length ys]"

lemma ra_rep_filled: "ra_rep a ys \<Longrightarrow> filled a = ys"
  by (auto simp: ra_rep_def filled_def occupied_def takeWhile_append
      takeWhile_replicate simp del: replicate_0)

lemma ra_inv_iff: "ra_inv a \<longleftrightarrow> (\<exists>ys. ra_rep a ys)"
  using ra_rep_filled by (auto simp: ra_inv_def)

lemma ra_rep_length: "ra_rep a ys \<Longrightarrow> length (ra_route a) = unat (ra_max a)"
  by (simp add: ra_rep_def)

lemma ra_rep_live: "ra_rep a ys \<Longrightarrow> ra_live a = take (unat (ra_size a)) ys"
  by (simp add: ra_rep_def ra_live_def)

lemma ra_rep_nth: "ra_rep a ys \<Longrightarrow> i < length ys \<Longrightarrow> ra_route a ! i = ys ! i"
  by (simp add: ra_rep_def nth_append)

lemma ra_rep_nth_zero:
  "ra_rep a ys \<Longrightarrow> length ys \<le> i \<Longrightarrow> i < unat (ra_max a) \<Longrightarrow> ra_route a ! i = zero_route"
  by (simp add: ra_rep_def nth_append)

lemma ra_rep_create [inv_intros]: "ra_rep (route_array_create m) []"
  by (simp add: ra_rep_def route_array_create_def)

lemma ra_rep_reset: "ra_rep a ys \<Longrightarrow> ra_rep (route_array_reset a) ys"
  by (simp add: ra_rep_def route_array_reset_def)

lemma length_ins_cost [simp]: "length (ins_cost r ys) = Suc (length ys)"
  unfolding ins_cost_def by (metis add_Suc_right length_Cons length_append takeWhile_dropWhile_id)

lemma ins_cost_not_Nil [simp]: "ins_cost r ys \<noteq> []"
  by (simp add: ins_cost_def)

lemma mset_ins_cost: "mset (ins_cost r ys) = add_mset r (mset ys)"
  unfolding ins_cost_def by (metis mset.simps(2) mset_append takeWhile_dropWhile_id
      union_mset_add_mset_right)

lemma set_ins_cost [simp]: "set (ins_cost r ys) = insert r (set ys)"
  by (metis mset_ins_cost set_mset_add_mset_insert set_mset_mset)

lemma occupied_ins_cost: "occupied ys \<Longrightarrow> rt_value r \<noteq> 0 \<Longrightarrow> occupied (ins_cost r ys)"
  by (auto simp: occupied_def)

lemma sorted_ins_cost:
  assumes "sorted (map rt_cost ys)"
  shows "sorted (map rt_cost (ins_cost r ys))"
proof -
  have "rt_cost r < rt_cost x" if "x \<in> set (dropWhile (\<lambda>x. rt_cost x \<le> rt_cost r) ys)" for x
    using assms that by (induction ys) (auto split: if_splits)
  moreover have "sorted (map rt_cost (dropWhile (\<lambda>x. rt_cost x \<le> rt_cost r) ys))"
    using assms by (metis sorted_map_drop dropWhile_eq_drop)
  moreover have "sorted (map rt_cost (takeWhile (\<lambda>x. rt_cost x \<le> rt_cost r) ys))"
    using assms by (metis sorted_map_take takeWhile_eq_take)
  ultimately show ?thesis
    by (fastforce simp: ins_cost_def sorted_append dest: set_takeWhileD)
qed

lemma route_array_find_by_cost_eq:
  assumes rep: "ra_rep a ys"
  shows "route_array_find_by_cost a c = length (takeWhile (\<lambda>x. rt_cost x \<le> c) ys)"
proof -
  let ?n = "length (takeWhile (\<lambda>x. rt_cost x \<le> c) ys)"
  let ?p = "\<lambda>i. rt_value (ra_route a ! i) = 0 \<or> rt_cost (ra_route a ! i) > c"
  have n: "?n \<le> length ys" "length ys \<le> unat (ra_max a)"
    using rep by (simp_all add: ra_rep_def length_takeWhile_le)
  have before: "\<not> ?p j" if "j < ?n" for j
  proof -
    have "ys ! j = takeWhile (\<lambda>x. rt_cost x \<le> c) ys ! j" using that by (simp add: takeWhile_nth)
    then have "rt_cost (ys ! j) \<le> c" using that by (metis nth_mem set_takeWhileD)
    moreover have "rt_value (ys ! j) \<noteq> 0"
      using rep that n by (auto simp: ra_rep_def occupied_def)
    ultimately show ?thesis using rep that n by (simp add: ra_rep_nth not_less)
  qed
  have at: "?p ?n" if "?n < unat (ra_max a)"
  proof (cases "?n < length ys")
    case True
    then have "\<not> rt_cost (ys ! ?n) \<le> c" by (rule nth_length_takeWhile)
    with rep True show ?thesis by (simp add: ra_rep_nth not_le)
  next
    case False
    with rep that show ?thesis by (simp add: ra_rep_nth_zero)
  qed
  show ?thesis
  proof (cases "for_find ?p 0 (unat (ra_max a))")
    case None
    then have "\<not> ?n < unat (ra_max a)" using at by (auto simp: for_find_None)
    with None n show ?thesis by (simp add: route_array_find_by_cost_def)
  next
    case (Some k)
    have k: "?p k" "\<And>j. j < k \<Longrightarrow> \<not> ?p j" "k < unat (ra_max a)"
      using for_find_Some [OF Some] by blast+
    have "\<not> k < ?n" using before [of k] k(1) by blast
    moreover have "\<not> ?n < k"
    proof
      assume lt: "?n < k"
      then have "?n < unat (ra_max a)" using k(3) by simp
      from at [OF this] k(2) [OF lt] show False by blast
    qed
    ultimately have "k = ?n" by simp
    with Some show ?thesis by (simp add: route_array_find_by_cost_def)
  qed
qed

lemma route_array_insert_rep [inv_intros]:
  assumes rep: "ra_rep a ys" and nz: "rt_value r \<noteq> 0"
  shows "ra_rep (route_array_insert a r) (take (unat (ra_max a)) (ins_cost r ys))"
proof -
  let ?m = "unat (ra_max a)" and ?n = "length (takeWhile (\<lambda>x. rt_cost x \<le> rt_cost r) ys)"
  let ?k = "?m - length ys"
  have n: "?n \<le> length ys" "length ys \<le> ?m"
    using rep by (simp_all add: ra_rep_def length_takeWhile_le)
  have "insert_loop r (ra_route a) ?n ?m =
      take ?m (take ?n ys @ r # drop ?n ys @ replicate ?k zero_route)"
    using rep nz n by (intro insert_loop_eq) (auto simp: ra_rep_def)
  also have "take ?n ys @ r # drop ?n ys = ins_cost r ys"
    unfolding ins_cost_def by (metis dropWhile_eq_drop takeWhile_eq_take)
  then have "take ?n ys @ r # drop ?n ys @ replicate ?k zero_route =
      ins_cost r ys @ replicate ?k zero_route" by simp
  finally have slots: "insert_loop r (ra_route a) ?n ?m =
      take ?m (ins_cost r ys) @ replicate (?m - length (take ?m (ins_cost r ys))) zero_route"
    using n by (simp add: min_def)
  have size: "unat (if ra_size a + 1 > ra_max a then ra_max a else ra_size a + 1)
      \<le> length (take ?m (ins_cost r ys))"
  proof (cases "ra_size a + 1 = 0")
    case True
    then show ?thesis by simp
  next
    case False
    then have "unat (ra_size a + 1) = Suc (unat (ra_size a))"
      by (metis Suc_eq_plus1 add.commute unatSuc)
    with rep n show ?thesis by (auto simp: ra_rep_def word_less_nat_alt)
  qed
  show ?thesis
    using rep nz n slots size unfolding ra_rep_def route_array_insert_def
    by (simp add: route_array_find_by_cost_eq [OF rep] Let_def occupied_take occupied_ins_cost
        sorted_ins_cost flip: take_map)
qed

lemma length_shift_out [simp]: "length (shift_out i n ys) = length ys"
  by (simp add: shift_out_def)

lemma shift_out_nth:
  "j < length ys \<Longrightarrow> shift_out i n ys ! j = ys ! (if i \<le> j \<and> Suc j < n then Suc j else j)"
  by (simp add: shift_out_def)

lemma shift_out_eq:
  assumes "i < n" "n \<le> length ys"
  shows "take i ys @ take (n - 1 - i) (drop (Suc i) ys) @ drop (n - 1) ys = shift_out i n ys"
  using assms
proof (intro nth_equalityI)
  fix j assume "j < length (take i ys @ take (n - 1 - i) (drop (Suc i) ys) @ drop (n - 1) ys)"
  moreover have "length (take i ys @ take (n - 1 - i) (drop (Suc i) ys) @ drop (n - 1) ys) = length ys"
    using assms by (simp add: min_absorb1 min_absorb2)
  ultimately have j: "j < length ys" by simp
  consider "j < i" | "i \<le> j" "Suc j < n" | "i \<le> j" "n \<le> Suc j" by linarith
  then show "(take i ys @ take (n - 1 - i) (drop (Suc i) ys) @ drop (n - 1) ys) ! j =
      shift_out i n ys ! j"
    using assms j by cases (simp_all add: shift_out_nth nth_append min_absorb1 min_absorb2)
qed (use assms in \<open>simp add: min_absorb1 min_absorb2\<close>)

lemma set_shift_out: "n \<le> length ys \<Longrightarrow> set (shift_out i n ys) \<subseteq> set ys"
  by (auto simp: shift_out_def)

lemma sorted_shift_out:
  "sorted (map f ys) \<Longrightarrow> n \<le> length ys \<Longrightarrow> sorted (map f (shift_out i n ys))"
  by (auto simp: sorted_iff_nth_mono shift_out_nth)

lemma route_array_remove_rep [inv_intros]:
  assumes rep: "ra_rep a ys" and i: "i < unat (ra_size a)"
  shows "ra_rep (route_array_remove a (int i)) (shift_out i (unat (ra_size a)) ys)"
    and "unat (ra_size (route_array_remove a (int i))) = unat (ra_size a) - 1"
    and "ra_max (route_array_remove a (int i)) = ra_max a"
proof -
  let ?n = "unat (ra_size a)" and ?k = "unat (ra_max a) - length ys"
  have pos: "ra_size a > 0" using i by (auto simp: word_less_nat_alt)
  have n: "?n \<le> length ys" using rep by (simp add: ra_rep_def)
  have lt: "int i < int ?n" using i by (simp only: of_nat_less_iff)
  have rm: "route_array_remove a (int i) =
      a\<lparr>ra_route := remove_loop (ra_route a) i (?n - 1), ra_size := ra_size a - 1\<rparr>"
    unfolding route_array_remove_def using lt pos by (simp only: of_nat_0_le_iff nat_int simp_thms if_True)
  show sz: "unat (ra_size (route_array_remove a (int i))) = ?n - 1"
    using rm pos by (simp add: unat_minus_one word_neq_0_conv)
  have "remove_loop (ra_route a) i (?n - 1) =
      take i ys @ take (?n - 1 - i) (drop (Suc i) ys) @ drop (?n - 1) ys @ replicate ?k zero_route"
    using rep i n by (subst remove_loop_eq) (auto simp: ra_rep_def)
  also have "\<dots> = shift_out i ?n ys @ replicate ?k zero_route"
    using shift_out_eq [OF i n] by (simp flip: append_assoc)
  finally have slots: "remove_loop (ra_route a) i (?n - 1) = \<dots>" .
  have "occupied (shift_out i ?n ys)"
    using rep set_shift_out [OF n] by (auto simp: ra_rep_def occupied_def)
  with rep sz slots n show "ra_rep (route_array_remove a (int i)) (shift_out i ?n ys)"
    unfolding ra_rep_def rm by (simp add: sorted_shift_out)
  show "ra_max (route_array_remove a (int i)) = ra_max a" using rm by simp
qed

subsection \<open>Adding a route\<close>

definition route_key :: "route \<Rightarrow> route_value_t \<times> route_type_t" where
  "route_key r = (rt_value r, rt_type r)"

lemma in_set_live:
  "ra_rep a ys \<Longrightarrow> x \<in> set (ra_live a) \<longleftrightarrow> (\<exists>i < unat (ra_size a). x = ra_route a ! i)"
proof -
  assume rep: "ra_rep a ys"
  then have "unat (ra_size a) \<le> length (ra_route a)" by (simp add: ra_rep_def)
  then show ?thesis by (auto simp: ra_live_def in_set_conv_nth min_absorb2)
qed

lemma route_array_contains_iff:
  "ra_rep a ys \<Longrightarrow> route_array_contains a v \<longleftrightarrow> v \<in> rt_value ` set (ra_live a)"
  by (force simp: route_array_contains_def for_find_None in_set_live)

lemma find_by_value_and_type_cases:
  assumes rep: "ra_rep a ys"
  obtains (found) i where "route_array_find_by_value_and_type a (rt_value r) (rt_type r) = i"
      "i < unat (ra_size a)" "i < unat (ra_max a)" "route_key (ys ! i) = route_key r"
      "route_key r \<in> route_key ` set (ra_live a)"
    | (missing) "route_array_find_by_value_and_type a (rt_value r) (rt_type r) = unat (ra_max a)"
      "route_key r \<notin> route_key ` set (ra_live a)"
proof -
  let ?p = "\<lambda>i. rt_value (ra_route a ! i) = rt_value r \<and> rt_type (ra_route a ! i) = rt_type r"
  show ?thesis
  proof (cases "for_find ?p 0 (unat (ra_size a))")
    case None
    then have "route_key r \<notin> route_key ` set (ra_live a)"
      using in_set_live [OF rep] by (auto simp: for_find_None route_key_def)
    with None show ?thesis
      by (intro missing) (simp_all add: route_array_find_by_value_and_type_def)
  next
    case (Some i)
    from for_find_Some [OF Some] have i: "i < unat (ra_size a)" "?p i" by auto
    then have mem: "ra_route a ! i \<in> set (ra_live a)" using in_set_live [OF rep] by blast
    have "unat (ra_size a) \<le> length ys" "length ys \<le> unat (ra_max a)"
      using rep by (simp_all add: ra_rep_def)
    with i Some mem rep show ?thesis
      by (intro found [of i])
        (auto simp: route_array_find_by_value_and_type_def route_key_def ra_rep_nth image_iff
          intro!: bexI [OF _ mem])
  qed
qed

lemma route_array_insert_max [simp]: "ra_max (route_array_insert a r) = ra_max a"
  by (simp add: route_array_insert_def Let_def)

lemma route_array_remove_max [simp]: "ra_max (route_array_remove a i) = ra_max a"
  by (simp add: route_array_remove_def)

lemma route_array_add_max [simp]: "ra_max (route_array_add a r) = ra_max a"
  by (simp add: route_array_add_def Let_def)

lemma route_array_reset_max [simp]: "ra_max (route_array_reset a) = ra_max a"
  by (simp add: route_array_reset_def)

lemma route_array_create_max [simp]: "ra_max (route_array_create m) = m"
  by (simp add: route_array_create_def)

lemma route_array_add_all_simps [simp]:
  "route_array_add_all a [] = a"
  "route_array_add_all a (r # rs) = route_array_add_all (route_array_add a r) rs"
  "route_array_add_all a (rs @ rs') = route_array_add_all (route_array_add_all a rs) rs'"
  by (simp_all add: route_array_add_all_def)

lemma route_array_add_all_max [simp]: "ra_max (route_array_add_all a rs) = ra_max a"
  by (induction rs arbitrary: a) simp_all

text \<open>The outcome of one \<open>route_array_add\<close> on the representation, by the code's three branches.\<close>

lemma route_array_add_cases:
  assumes rep: "ra_rep a ys" and nz: "rt_value r \<noteq> 0"
  obtains (dearer) i where "i < unat (ra_size a)" "route_key (ys ! i) = route_key r"
      "rt_cost (ys ! i) < rt_cost r" "route_array_add a r = a"
    | (replaced) i where "i < unat (ra_size a)" "route_key (ys ! i) = route_key r"
      "rt_cost r \<le> rt_cost (ys ! i)"
      "route_array_add a r = route_array_insert (route_array_remove a (int i)) r"
      "ra_rep (route_array_add a r)
         (take (unat (ra_max a)) (ins_cost r (shift_out i (unat (ra_size a)) ys)))"
    | (fresh) "route_key r \<notin> route_key ` set (ra_live a)"
      "route_array_add a r = route_array_insert a r"
      "ra_rep (route_array_add a r) (take (unat (ra_max a)) (ins_cost r ys))"
  using rep
proof (cases rule: find_by_value_and_type_cases [of a ys r])
  case (found i)
  have nth: "ra_route a ! i = ys ! i"
    using rep found by (intro ra_rep_nth) (auto simp: ra_rep_def)
  show ?thesis
  proof (cases "rt_cost (ys ! i) < rt_cost r")
    case True
    with found nth show ?thesis by (intro dearer [of i]) (simp_all add: route_array_add_def)
  next
    case False
    with found nth have eq: "route_array_add a r = route_array_insert (route_array_remove a (int i)) r"
      by (simp add: route_array_add_def)
    with False found show ?thesis
      using route_array_insert_rep [OF route_array_remove_rep(1) [OF rep found(2)] nz]
      by (intro replaced [of i]) simp_all
  qed
next
  case missing
  then have eq: "route_array_add a r = route_array_insert a r"
    by (simp add: route_array_add_def)
  with missing show ?thesis
    using route_array_insert_rep [OF rep nz] by (intro fresh) simp_all
qed

lemma ra_inv_create [inv_intros]: "ra_inv (route_array_create m)"
  using ra_rep_create ra_inv_iff by blast

lemma ra_inv_add [inv_intros]: "ra_inv a \<Longrightarrow> rt_value r \<noteq> 0 \<Longrightarrow> ra_inv (route_array_add a r)"
  unfolding ra_inv_iff by (metis route_array_add_cases)

lemma ra_inv_add_all [inv_intros]:
  "ra_inv a \<Longrightarrow> occupied rs \<Longrightarrow> ra_inv (route_array_add_all a rs)"
  by (induction rs arbitrary: a) (simp_all add: ra_inv_add)

lemma ra_inv_reset [inv_intros]: "ra_inv a \<Longrightarrow> ra_inv (route_array_reset a)"
  unfolding ra_inv_iff using ra_rep_reset by blast

lemma ra_inv_remove [inv_intros]: "ra_inv a \<Longrightarrow> ra_inv (route_array_remove a i)"
proof (cases "0 \<le> i \<and> i < int (unat (ra_size a)) \<and> ra_size a > 0")
  case True
  assume "ra_inv a"
  then obtain ys where "ra_rep a ys" by (auto simp: ra_inv_iff)
  moreover have "nat i < unat (ra_size a)" using True by (simp add: nat_less_iff)
  ultimately have "ra_rep (route_array_remove a (int (nat i)))
      (shift_out (nat i) (unat (ra_size a)) ys)"
    by (rule route_array_remove_rep(1))
  with True show ?thesis by (auto simp: ra_inv_iff)
next
  case False
  assume "ra_inv a"
  with False show ?thesis unfolding route_array_remove_def by (simp only: if_False)
qed

lemma ra_inv_sorted: "ra_inv a \<Longrightarrow> sorted (map rt_cost (ra_live a))"
  by (auto simp: ra_inv_iff ra_rep_live ra_rep_def sorted_map_take)

lemma ra_inv_live_occupied: "ra_inv a \<Longrightarrow> occupied (ra_live a)"
  by (auto simp: ra_inv_iff ra_rep_live ra_rep_def occupied_take)

lemma ra_inv_live_length: "ra_inv a \<Longrightarrow> length (ra_live a) = unat (ra_size a)"
  by (auto simp: ra_inv_iff ra_rep_live ra_rep_def)

lemma filled_live: "ra_inv a \<Longrightarrow> set (ra_live a) \<subseteq> set (filled a)"
  using ra_rep_live [of a "filled a"] by (auto simp: ra_inv_def dest: in_set_takeD)

lemma filled_create [simp]: "filled (route_array_create m) = []"
  using ra_rep_filled [OF ra_rep_create] by simp

lemma filled_add:
  assumes "ra_inv a" "rt_value r \<noteq> 0"
  shows "set (filled (route_array_add a r)) \<subseteq> insert r (set (filled a))"
proof -
  have rep: "ra_rep a (filled a)" using assms(1) by (simp add: ra_inv_def)
  then have "unat (ra_size a) \<le> length (filled a)" by (simp add: ra_rep_def)
  from rep assms(2) show ?thesis
  proof (cases rule: route_array_add_cases)
    case (replaced i)
    have "set (ins_cost r (shift_out i (unat (ra_size a)) (filled a))) \<subseteq> insert r (set (filled a))"
      using set_shift_out [OF \<open>unat (ra_size a) \<le> _\<close>] by auto
    then show ?thesis
      unfolding ra_rep_filled [OF replaced(5)] using set_take_subset by (rule order_trans [rotated])
  next
    case fresh
    have "set (take (unat (ra_max a)) (ins_cost r (filled a))) \<subseteq> set (ins_cost r (filled a))"
      by (rule set_take_subset)
    then show ?thesis unfolding ra_rep_filled [OF fresh(3)] by simp
  qed auto
qed

lemma filled_add_all:
  "ra_inv a \<Longrightarrow> occupied rs \<Longrightarrow> set (filled (route_array_add_all a rs)) \<subseteq> set (filled a) \<union> set rs"
proof (induction rs arbitrary: a)
  case (Cons r rs)
  then have "set (filled (route_array_add_all (route_array_add a r) rs)) \<subseteq>
      set (filled (route_array_add a r)) \<union> set rs" by (simp add: ra_inv_add)
  with filled_add [of a r] Cons.prems show ?case by auto
qed simp

lemma ra_inv_live_bound: "ra_inv a \<Longrightarrow> length (ra_live a) \<le> unat (ra_max a)"
  by (auto simp: ra_inv_iff ra_live_def dest: ra_rep_length)

subsection \<open>The cheapest route comes first\<close>

lemma hd_ins_cost:
  "rt_cost (hd (ins_cost r ys)) =
     (if ys = [] then rt_cost r else min (rt_cost (hd ys)) (rt_cost r))"
  by (cases ys) (auto simp: ins_cost_def min_def)

lemma hd_shift_out:
  "ys \<noteq> [] \<Longrightarrow> i < n \<Longrightarrow> n \<le> length ys \<Longrightarrow>
   hd (shift_out i n ys) = ys ! (if i = 0 \<and> 1 < n then 1 else 0)"
proof -
  assume *: "ys \<noteq> []" "i < n" "n \<le> length ys"
  then have "shift_out i n ys \<noteq> []" by (simp flip: length_0_conv)
  with * show ?thesis by (auto simp: hd_conv_nth shift_out_nth)
qed

lemma hd_cost_le: "sorted (map rt_cost ys) \<Longrightarrow> x \<in> set ys \<Longrightarrow> rt_cost (hd ys) \<le> rt_cost x"
  by (cases ys) auto

lemma route_array_insert_size:
  assumes "unat (ra_size a) < 255"
  shows "unat (ra_size (route_array_insert a r)) = min (unat (ra_max a)) (Suc (unat (ra_size a)))"
proof -
  have "unat (ra_size a + 1) = Suc (unat (ra_size a))"
    using assms by (simp add: unat_word_ariths)
  then show ?thesis
    by (auto simp: route_array_insert_def Let_def word_less_nat_alt min_def)
qed

definition least_first :: "route_array \<Rightarrow> route list \<Rightarrow> bool" where
  "least_first a rs \<longleftrightarrow> (\<exists>ys. ra_rep a ys \<and> set ys \<subseteq> set rs \<and>
     (if rs = [] then ys = []
      else ys \<noteq> [] \<and> 0 < ra_size a \<and> rt_cost (hd ys) = Min (rt_cost ` set rs)))"

lemma least_firstI:
  "ra_rep a ys \<Longrightarrow> set ys \<subseteq> set rs \<Longrightarrow> rs \<noteq> [] \<Longrightarrow> ys \<noteq> [] \<Longrightarrow> 0 < ra_size a \<Longrightarrow>
   rt_cost (hd ys) = Min (rt_cost ` set rs) \<Longrightarrow> least_first a rs"
  by (auto simp: least_first_def)

lemma Min_cost_snoc:
  "rt_cost r0 = Min (rt_cost ` set rs) \<Longrightarrow> rs \<noteq> [] \<Longrightarrow>
   Min (rt_cost ` set (rs @ [r])) = min (rt_cost r0) (rt_cost r)"
  by (simp add: min.commute)

lemma least_first_add:
  assumes least: "least_first a rs" and nz: "rt_value r \<noteq> 0"
    and max1: "0 < unat (ra_max a)" "unat (ra_max a) < 255"
  shows "least_first (route_array_add a r) (rs @ [r])"
proof -
  from least obtain ys where rep: "ra_rep a ys" and sub: "set ys \<subseteq> set rs"
    and empty: "rs = [] \<Longrightarrow> ys = []"
    and ne: "rs \<noteq> [] \<Longrightarrow> ys \<noteq> [] \<and> 0 < ra_size a \<and> rt_cost (hd ys) = Min (rt_cost ` set rs)"
    unfolding least_first_def by metis
  have n: "unat (ra_size a) \<le> length ys" "length ys \<le> unat (ra_max a)" "sorted (map rt_cost ys)"
    using rep by (simp_all add: ra_rep_def)
  have hd_take: "hd (take (unat (ra_max a)) zs) = hd zs" for zs :: "route list"
    using max1(1) by (simp add: hd_take)
  from rep nz show ?thesis
  proof (cases rule: route_array_add_cases)
    case (dearer i)
    then have "i < length ys" using n by simp
    then have "ys \<noteq> []" by auto
    with empty have rs: "rs \<noteq> []" by auto
    have "rt_cost (hd ys) \<le> rt_cost (ys ! i)"
      using \<open>i < length ys\<close> n(3) by (simp add: hd_cost_le)
    with dearer(3) have "min (rt_cost (hd ys)) (rt_cost r) = rt_cost (hd ys)" by simp
    then have cost: "rt_cost (hd ys) = Min (rt_cost ` set (rs @ [r]))"
      using Min_cost_snoc [of "hd ys" rs r] ne [OF rs] rs by simp
    have "set ys \<subseteq> set (rs @ [r])" using sub by auto
    with cost ne [OF rs] rep dearer(4) show ?thesis
      unfolding least_first_def
      by (intro exI [of _ ys]) (simp del: set_append)
  next
    case (replaced i)
    then have i: "i < length ys" using n by simp
    then have yne: "ys \<noteq> []" by auto
    with empty have rs: "rs \<noteq> []" by auto
    let ?zs = "shift_out i (unat (ra_size a)) ys"
    have zne: "?zs \<noteq> []" using yne by (metis length_0_conv length_shift_out)
    have "hd ?zs = hd ys \<or> i = 0 \<and> rt_cost (hd ys) \<le> rt_cost (hd ?zs)"
    proof (cases "i = 0 \<and> 1 < unat (ra_size a)")
      case True
      with n(1) have "ys ! 1 \<in> set ys" by simp
      with hd_shift_out [OF yne replaced(1) n(1)] n(3) True show ?thesis
        by (simp add: hd_cost_le)
    next
      case False
      with hd_shift_out [OF yne replaced(1) n(1)] yne show ?thesis by (auto simp: hd_conv_nth)
    qed
    with replaced(3) have "min (rt_cost (hd ?zs)) (rt_cost r) = min (rt_cost (hd ys)) (rt_cost r)"
      using yne by (auto simp: min_def hd_conv_nth)
    then have cost: "rt_cost (hd (ins_cost r ?zs)) = Min (rt_cost ` set (rs @ [r]))"
      using zne ne [OF rs] rs by (simp add: hd_ins_cost min.commute)
    have size: "0 < ra_size (route_array_add a r)"
      using replaced(1) route_array_remove_rep(2) [OF rep replaced(1)] max1 n
      by (simp add: replaced(4) word_less_nat_alt route_array_insert_size)
    have "set (take (unat (ra_max a)) (ins_cost r ?zs)) \<subseteq> set (rs @ [r])"
      using set_shift_out [OF n(1), of i] sub by (auto dest!: in_set_takeD)
    from replaced(5) this _ _ size show ?thesis
      by (rule least_firstI) (use max1(1) cost in \<open>simp_all add: hd_take\<close>)
  next
    case fresh
    have cost: "rt_cost (hd (ins_cost r ys)) = Min (rt_cost ` set (rs @ [r]))"
      using ne empty by (cases "rs = []") (auto simp: hd_ins_cost min.commute)
    have size: "0 < ra_size (route_array_add a r)"
      using max1 n by (simp add: fresh(2) word_less_nat_alt route_array_insert_size)
    have "set (take (unat (ra_max a)) (ins_cost r ys)) \<subseteq> set (rs @ [r])"
      using sub by (auto dest!: in_set_takeD)
    from fresh(3) this _ _ size show ?thesis
      by (rule least_firstI) (use max1(1) cost in \<open>simp_all add: hd_take\<close>)
  qed
qed

lemma least_first_create: "least_first (route_array_create m) []"
  using ra_rep_create by (fastforce simp: least_first_def)

lemma least_first_add_all:
  "least_first a rs \<Longrightarrow> occupied rs' \<Longrightarrow> 0 < unat (ra_max a) \<Longrightarrow> unat (ra_max a) < 255 \<Longrightarrow>
   least_first (route_array_add_all a rs') (rs @ rs')"
proof (induction rs' arbitrary: a rs)
  case (Cons r rs')
  from Cons.prems have "least_first (route_array_add a r) (rs @ [r])"
    by (intro least_first_add) simp_all
  from Cons.IH [OF this] Cons.prems show ?case by simp
qed simp

lemma least_first_live:
  assumes "least_first a rs" "rs \<noteq> []"
  shows "ra_live a \<noteq> []" "rt_cost (hd (ra_live a)) = Min (rt_cost ` set rs)"
    "set (ra_live a) \<subseteq> set rs"
proof -
  obtain ys where ys: "ra_rep a ys" "set ys \<subseteq> set rs" "ys \<noteq> []" "0 < ra_size a"
      "rt_cost (hd ys) = Min (rt_cost ` set rs)"
    using assms by (auto simp: least_first_def)
  then show "ra_live a \<noteq> []" "rt_cost (hd (ra_live a)) = Min (rt_cost ` set rs)"
    "set (ra_live a) \<subseteq> set rs"
    by (auto simp: ra_rep_live hd_take word_less_nat_alt dest: in_set_takeD)
qed

subsection \<open>Distinct routes: the array keeps the cheapest ones\<close>

lemma ins_cost_Cons:
  "ins_cost r (y # ys) = (if rt_cost y \<le> rt_cost r then y # ins_cost r ys else r # y # ys)"
  by (simp add: ins_cost_def)

lemma ins_cost_Nil [simp]: "ins_cost r [] = [r]"
  by (simp add: ins_cost_def)

lemma take_ins_cost_take: "take m (ins_cost r (take m ys)) = take m (ins_cost r ys)"
  by (induction ys arbitrary: m) (auto simp: ins_cost_Cons take_Cons' split: nat.split)

lemma filter_ins_cost:
  "sorted (map rt_cost ys) \<Longrightarrow>
   filter (\<lambda>x. c = rt_cost x) (ins_cost r ys) =
     filter (\<lambda>x. c = rt_cost x) ys @ (if c = rt_cost r then [r] else [])"
proof (induction ys)
  case (Cons y ys)
  show ?case
  proof (cases "rt_cost y \<le> rt_cost r")
    case True
    from Cons have IH: "filter (\<lambda>x. c = rt_cost x) (ins_cost r ys) =
        filter (\<lambda>x. c = rt_cost x) ys @ (if c = rt_cost r then [r] else [])" by simp
    show ?thesis
    proof (cases "c = rt_cost y")
      case c: True
      show ?thesis using IH True by (simp add: ins_cost_Cons flip: c)
    next
      case False
      then show ?thesis using IH True by (simp add: ins_cost_Cons)
    qed
  next
    case False
    with Cons.prems have "\<forall>x \<in> set (y # ys). rt_cost r < rt_cost x" by auto
    then have "filter (\<lambda>x. rt_cost r = rt_cost x) (y # ys) = []"
      by (auto simp: filter_empty_conv)
    with False show ?thesis by (auto simp: ins_cost_Cons)
  qed
qed simp

lemma sort_key_snoc: "sort_key rt_cost (rs @ [r]) = ins_cost r (sort_key rt_cost rs)"
proof (rule properties_for_sort_key)
  show "mset (ins_cost r (sort_key rt_cost rs)) = mset (rs @ [r])"
    by (simp add: mset_ins_cost)
  show "sorted (map rt_cost (ins_cost r (sort_key rt_cost rs)))"
    by (simp add: sorted_ins_cost)
  show "filter (\<lambda>x. rt_cost k = rt_cost x) (ins_cost r (sort_key rt_cost rs)) =
      filter (\<lambda>x. rt_cost k = rt_cost x) (rs @ [r])" for k
  proof -
    have "filter (\<lambda>x. rt_cost k = rt_cost x) (sort_key rt_cost rs) =
        filter (\<lambda>x. rt_cost k = rt_cost x) rs"
      using sort_key_stable [of rt_cost "rt_cost k" rs] by (metis (mono_tags, lifting) filter_cong)
    then show ?thesis
      using filter_ins_cost [of "sort_key rt_cost rs" "rt_cost k" r] by simp
  qed
qed

definition keeps_cheapest :: "route_array \<Rightarrow> route list \<Rightarrow> bool" where
  "keeps_cheapest a rs \<longleftrightarrow> ra_rep a (take (unat (ra_max a)) (sort_key rt_cost rs)) \<and>
     unat (ra_size a) = min (unat (ra_max a)) (length rs)"

lemma keeps_cheapest_live:
  "keeps_cheapest a rs \<Longrightarrow> ra_live a = take (unat (ra_max a)) (sort_key rt_cost rs)"
  by (auto simp: keeps_cheapest_def ra_rep_live min_def)

lemma keeps_cheapest_add:
  assumes keep: "keeps_cheapest a rs" and nz: "rt_value r \<noteq> 0"
    and max1: "unat (ra_max a) < 255 \<or> length rs < 255"
    and new: "route_key r \<notin> route_key ` set rs"
  shows "keeps_cheapest (route_array_add a r) (rs @ [r])"
proof -
  let ?ys = "take (unat (ra_max a)) (sort_key rt_cost rs)"
  have rep: "ra_rep a ?ys" and size: "unat (ra_size a) = min (unat (ra_max a)) (length rs)"
    using keep by (simp_all add: keeps_cheapest_def)
  have key: "route_key r \<notin> route_key ` set (ra_live a)"
    using new keeps_cheapest_live [OF keep] by (auto dest: in_set_takeD)
  then have not: "\<not> (i < unat (ra_size a) \<and> route_key (?ys ! i) = route_key r)" for i
  proof -
    have "ra_live a ! i \<in> set (ra_live a)" if "i < unat (ra_size a)"
      using that size keeps_cheapest_live [OF keep] by (intro nth_mem) auto
    with key keeps_cheapest_live [OF keep] show ?thesis by (metis image_eqI)
  qed
  from rep nz show ?thesis
  proof (cases rule: route_array_add_cases)
    case fresh
    then show ?thesis
      using size max1 by (auto simp: keeps_cheapest_def take_ins_cost_take sort_key_snoc
          route_array_insert_size min_def)
  qed (use not in blast)+
qed

lemma keeps_cheapest_create: "keeps_cheapest (route_array_create m) []"
  by (simp add: keeps_cheapest_def ra_rep_create route_array_create_def ra_rep_def)

lemma keeps_cheapest_add_all:
  "keeps_cheapest a rs \<Longrightarrow> occupied rs' \<Longrightarrow>
   unat (ra_max a) < 255 \<or> length rs + length rs' \<le> 255 \<Longrightarrow>
   distinct (map route_key (rs @ rs')) \<Longrightarrow> keeps_cheapest (route_array_add_all a rs') (rs @ rs')"
proof (induction rs' arbitrary: a rs)
  case (Cons r rs')
  from Cons.prems have "keeps_cheapest (route_array_add a r) (rs @ [r])"
    by (intro keeps_cheapest_add) auto
  from Cons.IH [OF this] Cons.prems show ?case by auto
qed simp

subsection \<open>The contract of a route container\<close>

text \<open>
  What \<open>route_trie_node_find\<close> and \<open>lcr_find\<close> rely on when they pour the live routes of one
  array into another: adding keeps the container's invariant, and a container that keeps
  its invariant only hands out occupied routes in cost order.
\<close>

locale route_container =
  fixes inv :: "'a \<Rightarrow> bool"
    and add :: "'a \<Rightarrow> route \<Rightarrow> 'a"
    and live :: "'a \<Rightarrow> route list"
  assumes add_inv: "inv a \<Longrightarrow> rt_value r \<noteq> 0 \<Longrightarrow> inv (add a r)"
    and live_occupied: "inv a \<Longrightarrow> occupied (live a)"
    and live_sorted: "inv a \<Longrightarrow> sorted (map rt_cost (live a))"
begin

lemma add_all_inv: "inv a \<Longrightarrow> occupied rs \<Longrightarrow> inv (foldl add a rs)"
  by (induction rs arbitrary: a) (simp_all add: add_inv)

lemma merge_inv: "inv a \<Longrightarrow> inv b \<Longrightarrow> inv (foldl add a (live b))"
  by (simp add: add_all_inv live_occupied)

lemma filtered_merge_inv: "inv a \<Longrightarrow> inv b \<Longrightarrow> inv (foldl add a (filter q (live b)))"
  using live_occupied [of b] by (intro add_all_inv) (auto simp: occupied_def)

lemma head_is_least: "inv a \<Longrightarrow> live a \<noteq> [] \<Longrightarrow> r \<in> set (live a) \<Longrightarrow> rt_cost (hd (live a)) \<le> rt_cost r"
  using live_sorted [of a] by (simp add: hd_cost_le)

end

text \<open>A container that also remembers the minimum over everything that was ever added.\<close>

locale least_cost_container = route_container +
  fixes seen :: "'a \<Rightarrow> route list \<Rightarrow> bool"
    and room :: "'a \<Rightarrow> bool"
  assumes seen_add: "seen a rs \<Longrightarrow> room a \<Longrightarrow> rt_value r \<noteq> 0 \<Longrightarrow> seen (add a r) (rs @ [r])"
    and room_add: "room a \<Longrightarrow> room (add a r)"
    and seen_least: "seen a rs \<Longrightarrow> rs \<noteq> [] \<Longrightarrow>
      live a \<noteq> [] \<and> rt_cost (hd (live a)) = Min (rt_cost ` set rs) \<and> set (live a) \<subseteq> set rs"
begin

lemma seen_add_all:
  "seen a rs \<Longrightarrow> room a \<Longrightarrow> occupied rs' \<Longrightarrow> seen (foldl add a rs') (rs @ rs')"
proof (induction rs' arbitrary: a rs)
  case (Cons r rs')
  then have "seen (add a r) (rs @ [r])" by (simp add: seen_add)
  from Cons.IH [OF this] Cons.prems show ?case by (simp add: room_add)
qed simp

text \<open>
  Pouring a container into another one loses the dearer routes of the first but never its
  minimum: the target's head is the minimum of what both have seen.
\<close>

lemma merge_least:
  assumes "seen a rs" "room a" "inv b" "seen b rs'" "rs' \<noteq> []"
  shows "live (foldl add a (live b)) \<noteq> []"
    and "rt_cost (hd (live (foldl add a (live b)))) = Min (rt_cost ` (set rs \<union> set rs'))"
proof -
  have b: "live b \<noteq> []" "rt_cost (hd (live b)) = Min (rt_cost ` set rs')" "set (live b) \<subseteq> set rs'"
    using seen_least [OF assms(4,5)] by auto
  have ab: "seen (foldl add a (live b)) (rs @ live b)"
    using assms live_occupied [of b] by (intro seen_add_all) simp_all
  with b(1) show "live (foldl add a (live b)) \<noteq> []"
    using seen_least [OF ab] by simp
  have "Min (rt_cost ` set (live b)) = Min (rt_cost ` set rs')"
  proof (rule Min_eqI)
    show "Min (rt_cost ` set rs') \<in> rt_cost ` set (live b)"
      using b(1,2) by (metis image_eqI list.set_sel(1))
  qed (use b(3) in \<open>auto intro: Min_le\<close>)
  then have "Min (rt_cost ` set (rs @ live b)) = Min (rt_cost ` (set rs \<union> set rs'))"
    using b(1) assms(5) by (cases "rs = []") (auto simp: image_Un Min_Un)
  then show "rt_cost (hd (live (foldl add a (live b)))) = Min (rt_cost ` (set rs \<union> set rs'))"
    using seen_least [OF ab] b(1) by simp
qed

end

definition ra_room :: "route_array \<Rightarrow> bool" where
  "ra_room a \<longleftrightarrow> 0 < unat (ra_max a) \<and> unat (ra_max a) < 255"

interpretation rc: least_cost_container ra_inv route_array_add ra_live least_first ra_room
proof
  show "\<And>a r. ra_inv a \<Longrightarrow> rt_value r \<noteq> 0 \<Longrightarrow> ra_inv (route_array_add a r)"
    by (rule ra_inv_add)
  show "\<And>a. ra_inv a \<Longrightarrow> occupied (ra_live a)"
    by (rule ra_inv_live_occupied)
  show "\<And>a. ra_inv a \<Longrightarrow> sorted (map rt_cost (ra_live a))"
    by (rule ra_inv_sorted)
  show "\<And>a rs r. least_first a rs \<Longrightarrow> ra_room a \<Longrightarrow> rt_value r \<noteq> 0 \<Longrightarrow>
      least_first (route_array_add a r) (rs @ [r])"
    by (simp add: least_first_add ra_room_def)
  show "\<And>a r. ra_room a \<Longrightarrow> ra_room (route_array_add a r)"
    by (simp add: ra_room_def)
  show "\<And>a rs. least_first a rs \<Longrightarrow> rs \<noteq> [] \<Longrightarrow> ra_live a \<noteq> [] \<and>
      rt_cost (hd (ra_live a)) = Min (rt_cost ` set rs) \<and> set (ra_live a) \<subseteq> set rs"
    by (simp add: least_first_live)
qed

lemma least_first_inv: "least_first a rs \<Longrightarrow> ra_inv a"
  by (auto simp: least_first_def ra_inv_iff)

subsection \<open>Properties of the array\<close>

text \<open>
  C17: Routes with pairwise different keys (carrier and type) leave in the array exactly the
  \<open>max_size\<close> cheapest of them, in order of cost and, for equal costs, of arrival.
\<close>

theorem array_keeps_cheapest:
  assumes "occupied rs" "distinct (map route_key rs)" "unat m < 255 \<or> length rs \<le> 255"
  shows "ra_live (route_array_add_all (route_array_create m) rs) =
    take (unat m) (sort_key rt_cost rs)"
  using keeps_cheapest_live [OF keeps_cheapest_add_all [OF keeps_cheapest_create, of rs m]] assms
  by simp

lemma array_keeps_cheapest_witness:
  "ra_live (route_array_add_all (route_array_create 2)
     [\<lparr>rt_cost = 5, rt_value = 1, rt_type = 0\<rparr>, \<lparr>rt_cost = 4, rt_value = 2, rt_type = 0\<rparr>,
      \<lparr>rt_cost = 3, rt_value = 3, rt_type = 1\<rparr>]) =
   [\<lparr>rt_cost = 3, rt_value = 3, rt_type = 1\<rparr>, \<lparr>rt_cost = 4, rt_value = 2, rt_type = 0\<rparr>]"
  by (subst array_keeps_cheapest) (simp_all add: route_key_def)

text \<open>
  Whatever is added, repeated keys included, the array stays ordered by cost, holds at most
  \<open>max_size\<close> routes, each of them one that was added, and its first route has the least cost of
  everything that was ever added.
\<close>

theorem array_head_is_least:
  assumes "occupied rs" "rs \<noteq> []" "0 < unat m" "unat m < 255"
    and "a = route_array_add_all (route_array_create m) rs"
  shows "sorted (map rt_cost (ra_live a)) \<and> set (ra_live a) \<subseteq> set rs \<and>
    0 < length (ra_live a) \<and> length (ra_live a) \<le> unat m \<and>
    rt_cost (hd (ra_live a)) = Min (rt_cost ` set rs)"
proof -
  have least: "least_first a ([] @ rs)"
    unfolding assms(5) using assms(1,3,4) by (intro least_first_add_all least_first_create) simp_all
  show ?thesis
    using rc.seen_least [OF least] rc.live_sorted [OF least_first_inv [OF least]]
      ra_inv_live_bound [OF least_first_inv [OF least]] assms(2,5)
    by simp
qed

lemma array_head_is_least_witness:
  "rt_cost (hd (ra_live (route_array_add_all (route_array_create 2)
     [\<lparr>rt_cost = 5, rt_value = 1, rt_type = 0\<rparr>, \<lparr>rt_cost = 4, rt_value = 1, rt_type = 0\<rparr>]))) = 4"
  using array_head_is_least [OF _ _ _ _ refl, of
      "[\<lparr>rt_cost = 5, rt_value = 1, rt_type = 0\<rparr>, \<lparr>rt_cost = 4, rt_value = 1, rt_type = 0\<rparr>]" 2]
  by simp

text \<open>
  Replacing a route by a cheaper one of the same carrier leaves a copy of a removed route
  behind the live ones, which the next addition brings back: the carrier 1 occurs twice, at two
  costs, and the only route of carrier 3 is lost although the array has room for it.
\<close>

theorem replaced_route_comes_back:
  "ra_live (route_array_add_all (route_array_create 3)
     [\<lparr>rt_cost = 5, rt_value = 1, rt_type = 0\<rparr>, \<lparr>rt_cost = 4, rt_value = 2, rt_type = 0\<rparr>,
      \<lparr>rt_cost = 3, rt_value = 1, rt_type = 0\<rparr>, \<lparr>rt_cost = 7, rt_value = 3, rt_type = 0\<rparr>]) =
   [\<lparr>rt_cost = 3, rt_value = 1, rt_type = 0\<rparr>, \<lparr>rt_cost = 4, rt_value = 2, rt_type = 0\<rparr>,
    \<lparr>rt_cost = 5, rt_value = 1, rt_type = 0\<rparr>]"
  by code_simp

text \<open>
  Resetting an array forgets the size only: a dearer route added afterwards does not come
  out, the route of before the reset does.
\<close>

theorem reset_keeps_old_routes:
  "ra_live (route_array_add (route_array_reset (route_array_add (route_array_create 2)
      \<lparr>rt_cost = 5, rt_value = 1, rt_type = 0\<rparr>)) \<lparr>rt_cost = 9, rt_value = 2, rt_type = 0\<rparr>) =
    [\<lparr>rt_cost = 5, rt_value = 1, rt_type = 0\<rparr>]"
  by code_simp

end
