(* ===== verification/Route_Trie.thy ===== *)
theory Route_Trie
  imports Route_Array "HOL-Library.Sublist"
begin

text \<open>
  The uncompressed trie of \<open>crienzo/mod_simple_lcr/route_trie.c\<close>: each node has ten child
  pointers, indexed by dial string digit, and an optional route array.  A prefix that may be
  \<open>NULL\<close> in the code is a \<open>string option\<close> at the interface; the loops treat \<open>NULL\<close> and the
  empty string alike.
\<close>

datatype route_trie_node =
  Node (nd_child: "route_trie_node option list") (nd_array: "route_array option")

record route_trie =
  tr_max_routes :: int
  tr_root :: route_trie_node

definition route_trie_node_create :: route_trie_node where
  "route_trie_node_create = Node (replicate 10 None) None"

definition route_trie_node_store :: "route_trie_node \<Rightarrow> route \<Rightarrow> int \<Rightarrow> route_trie_node" where
  "route_trie_node_store node r max_routes =
     (let array = (case nd_array node of
                     None \<Rightarrow> route_array_create (word_of_int max_routes)
                   | Some a \<Rightarrow> a)
      in Node (nd_child node) (Some (route_array_add array r)))"

fun route_trie_node_add ::
    "route_trie_node \<Rightarrow> string \<Rightarrow> route \<Rightarrow> int \<Rightarrow> route_trie_node \<times> bool" where
  "route_trie_node_add node [] r max_routes = (route_trie_node_store node r max_routes, True)"
| "route_trie_node_add node (c # pfx) r max_routes =
     (let i = digit_index c
      in if 0 \<le> i \<and> i \<le> 9
         then (let child = (case nd_child node ! nat i of
                              None \<Rightarrow> route_trie_node_create
                            | Some n \<Rightarrow> n);
                   (child', ok) = route_trie_node_add child pfx r max_routes
               in (Node ((nd_child node)[nat i := Some child']) (nd_array node), ok))
         else (node, False))"

fun route_trie_node_find ::
    "route_trie_node \<Rightarrow> string \<Rightarrow> route_array \<Rightarrow> route_array \<times> route_size_t" where
  "route_trie_node_find node pfx array =
     (let array' = (case nd_array node of
                      None \<Rightarrow> array
                    | Some a \<Rightarrow> route_array_add_all array (ra_live a))
      in case pfx of
           [] \<Rightarrow> (array', ra_size array')
         | c # pfx' \<Rightarrow>
             (let i = digit_index c
              in if 0 \<le> i \<and> i \<le> 9
                 then (case nd_child node ! nat i of
                         None \<Rightarrow> (array', ra_size array')
                       | Some child \<Rightarrow> route_trie_node_find child pfx' array')
                 else (array', 0)))"

fun route_trie_node_find_count :: "route_trie_node \<Rightarrow> string \<Rightarrow> int \<Rightarrow> int" where
  "route_trie_node_find_count node pfx cnt =
     (let cnt' = (case nd_array node of None \<Rightarrow> cnt | Some a \<Rightarrow> cnt + uint (ra_size a))
      in case pfx of
           [] \<Rightarrow> cnt'
         | c # pfx' \<Rightarrow>
             (let i = digit_index c
              in if 0 \<le> i \<and> i \<le> 9
                 then (case nd_child node ! nat i of
                         None \<Rightarrow> cnt'
                       | Some child \<Rightarrow> route_trie_node_find_count child pfx' cnt')
                 else 0))"

declare route_trie_node_find.simps [simp del] route_trie_node_find_count.simps [simp del]

definition cstr_of :: "string option \<Rightarrow> string" where
  "cstr_of p = (case p of None \<Rightarrow> [] | Some s \<Rightarrow> s)"

definition route_trie_create :: "route_size_t \<Rightarrow> route_trie" where
  "route_trie_create max_routes =
     \<lparr>tr_max_routes = uint max_routes, tr_root = route_trie_node_create\<rparr>"

definition route_trie_add ::
    "route_trie \<Rightarrow> string option \<Rightarrow> route_cost_t \<Rightarrow> route_value_t \<Rightarrow> route_type_t \<Rightarrow> route_trie \<times> bool"
  where
  "route_trie_add trie pfx cost value1 type1 =
     (let r = \<lparr>rt_cost = cost, rt_value = value1, rt_type = type1\<rparr>;
          (root, ok) = route_trie_node_add (tr_root trie) (cstr_of pfx) r (tr_max_routes trie)
      in (trie\<lparr>tr_root := root\<rparr>, ok))"

definition route_trie_find ::
    "route_trie \<Rightarrow> string option \<Rightarrow> route_array \<Rightarrow> route_array \<times> route_size_t" where
  "route_trie_find trie pfx array = route_trie_node_find (tr_root trie) (cstr_of pfx) array"

definition route_trie_find_count :: "route_trie \<Rightarrow> string option \<Rightarrow> int" where
  "route_trie_find_count trie key = route_trie_node_find_count (tr_root trie) (cstr_of key) 0"

subsection \<open>Paths and the node invariant\<close>

fun node_at :: "route_trie_node \<Rightarrow> string \<Rightarrow> route_trie_node option" where
  "node_at node [] = Some node"
| "node_at node (c # p) =
     (if is_digit_char c
      then (case nd_child node ! nat (digit_index c) of None \<Rightarrow> None | Some n \<Rightarrow> node_at n p)
      else None)"

definition array_at :: "route_trie_node \<Rightarrow> string \<Rightarrow> route_array option" where
  "array_at node p = Option.bind (node_at node p) nd_array"

fun node_wf :: "nat \<Rightarrow> route_trie_node \<Rightarrow> bool" where
  "node_wf m (Node ch arr) \<longleftrightarrow>
     length ch = 10 \<and> list_all (\<lambda>c. case c of None \<Rightarrow> True | Some n \<Rightarrow> node_wf m n) ch \<and>
     (case arr of None \<Rightarrow> True | Some a \<Rightarrow> ra_inv a \<and> unat (ra_max a) = m)"

lemma node_wf_iff:
  "node_wf m node \<longleftrightarrow> length (nd_child node) = 10 \<and>
     (\<forall>n. Some n \<in> set (nd_child node) \<longrightarrow> node_wf m n) \<and>
     (\<forall>a. nd_array node = Some a \<longrightarrow> ra_inv a \<and> unat (ra_max a) = m)"
  by (cases node) (auto simp: list_all_iff split: option.splits)

declare node_wf.simps [simp del]

lemma node_wf_create [inv_intros]: "node_wf m route_trie_node_create"
  by (subst node_wf_iff) (simp add: route_trie_node_create_def)

lemma node_wf_length: "node_wf m node \<Longrightarrow> length (nd_child node) = 10"
  and node_wf_array: "node_wf m node \<Longrightarrow> nd_array node = Some a \<Longrightarrow> ra_inv a \<and> unat (ra_max a) = m"
  using node_wf_iff by blast+

lemma is_digit_index: "is_digit_char c \<Longrightarrow> nat (digit_index c) < 10"
  by (simp add: is_digit_char_def nat_less_iff)

lemma node_wf_child:
  "node_wf m node \<Longrightarrow> i < 10 \<Longrightarrow> nd_child node ! i = Some n \<Longrightarrow> node_wf m n"
  by (metis node_wf_iff nth_mem)

subsection \<open>Insertion\<close>

lemma nd_store [simp]:
  "nd_child (route_trie_node_store node r m) = nd_child node"
  "nd_array (route_trie_node_store node r m) =
     Some (route_array_add (case nd_array node of None \<Rightarrow> route_array_create (word_of_int m)
                                               | Some a \<Rightarrow> a) r)"
  by (simp_all add: route_trie_node_store_def Let_def)

lemma node_at_create [simp]: "node_at route_trie_node_create p =
    (if p = [] then Some route_trie_node_create else None)"
  by (cases p) (auto simp: route_trie_node_create_def is_digit_index)

lemma array_at_create [simp]: "array_at route_trie_node_create p = None"
  by (simp add: array_at_def) (simp add: route_trie_node_create_def)

lemma array_at_Nil [simp]: "array_at node [] = nd_array node"
  by (simp add: array_at_def)

lemma array_at_Cons: "array_at node (c # p) =
    (if is_digit_char c
     then (case nd_child node ! nat (digit_index c) of None \<Rightarrow> None | Some n \<Rightarrow> array_at n p)
     else None)"
  by (auto simp: array_at_def split: option.split)

definition child_or_new :: "route_trie_node \<Rightarrow> char \<Rightarrow> route_trie_node" where
  "child_or_new node c = (case nd_child node ! nat (digit_index c) of
     None \<Rightarrow> route_trie_node_create | Some n \<Rightarrow> n)"

lemma route_trie_node_add_bad:
  "\<not> is_digit_char c \<Longrightarrow> route_trie_node_add node (c # p) r m = (node, False)"
  by (auto simp: is_digit_char_def)

lemma route_trie_node_add_digit:
  "is_digit_char c \<Longrightarrow> route_trie_node_add node (c # p) r m =
     (Node ((nd_child node)[nat (digit_index c) :=
              Some (fst (route_trie_node_add (child_or_new node c) p r m))]) (nd_array node),
      snd (route_trie_node_add (child_or_new node c) p r m))"
  by (simp add: is_digit_char_def child_or_new_def Let_def case_prod_unfold)

declare route_trie_node_add.simps(2) [simp del]

lemma node_wf_child_or_new:
  "node_wf m node \<Longrightarrow> is_digit_char c \<Longrightarrow> node_wf m (child_or_new node c)"
  using node_wf_child [OF _ is_digit_index]
  by (simp add: child_or_new_def node_wf_create split: option.split)

lemma array_at_child_or_new:
  "is_digit_char c \<Longrightarrow> array_at (child_or_new node c) q = array_at node (c # q)"
  by (simp add: child_or_new_def array_at_Cons split: option.split)

lemma route_trie_node_add_wf [inv_intros]:
  "node_wf (nat m) node \<Longrightarrow> 0 \<le> m \<Longrightarrow> m < 256 \<Longrightarrow> rt_value r \<noteq> 0 \<Longrightarrow>
   node_wf (nat m) (fst (route_trie_node_add node p r m))"
proof (induction p arbitrary: node)
  case Nil
  have "unat (word_of_int m :: route_size_t) = nat m"
    using Nil.prems by (simp add: unat_eq_nat_uint uint_word_of_int)
  with Nil show ?case
    by (subst node_wf_iff)
      (auto simp: node_wf_iff [of _ node] ra_inv_add ra_inv_create split: option.splits)
next
  case (Cons c p)
  show ?case
  proof (cases "is_digit_char c")
    case True
    let ?n = "fst (route_trie_node_add (child_or_new node c) p r m)"
    have "node_wf (nat m) ?n"
      using Cons True by (simp add: node_wf_child_or_new)
    moreover have "set ((nd_child node)[nat (digit_index c) := Some ?n]) \<subseteq>
        insert (Some ?n) (set (nd_child node))"
      by (rule set_update_subset_insert)
    ultimately show ?thesis
      using Cons.prems(1) True
      by (subst node_wf_iff) (auto simp: node_wf_iff [of _ node] route_trie_node_add_digit)
  qed (use Cons.prems in \<open>simp add: route_trie_node_add_bad\<close>)
qed

text \<open>A prefix is accepted exactly when it consists of digits.\<close>

lemma route_trie_node_add_ok:
  "snd (route_trie_node_add node p r m) \<longleftrightarrow> list_all is_digit_char p"
proof (induction p arbitrary: node)
  case (Cons c p)
  then show ?case
    by (cases "is_digit_char c") (simp_all add: route_trie_node_add_digit route_trie_node_add_bad)
qed simp

text \<open>
  What insertion does to the array stored at each path.  A rejected prefix leaves every
  stored array as it was, although the nodes for its leading digits have been created.
\<close>

lemma array_at_add:
  "node_wf k node \<Longrightarrow>
   array_at (fst (route_trie_node_add node p r m)) q =
     (if list_all is_digit_char p \<and> q = p
      then Some (route_array_add (case array_at node p of
                                    None \<Rightarrow> route_array_create (word_of_int m)
                                  | Some a \<Rightarrow> a) r)
      else array_at node q)"
proof (induction p arbitrary: node q)
  case Nil
  then show ?case by (cases q) (auto simp: array_at_Cons)
next
  case (Cons c p)
  show ?case
  proof (cases "is_digit_char c")
    case False
    then show ?thesis by (simp add: route_trie_node_add_bad)
  next
    case True
    let ?child' = "fst (route_trie_node_add (child_or_new node c) p r m)"
    have i: "nat (digit_index c) < length (nd_child node)"
      using is_digit_index [OF True] node_wf_length [OF Cons.prems] by simp
    have IH: "array_at ?child' q' = (if list_all is_digit_char p \<and> q' = p
        then Some (route_array_add (case array_at node (c # p) of
          None \<Rightarrow> route_array_create (word_of_int m) | Some a \<Rightarrow> a) r)
        else array_at node (c # q'))" for q'
      using Cons.IH [OF node_wf_child_or_new [OF Cons.prems True]]
      by (simp only: array_at_child_or_new [OF True])
    show ?thesis
    proof (cases q)
      case Nil
      then show ?thesis using True by (simp add: route_trie_node_add_digit)
    next
      case q: (Cons d q')
      show ?thesis
      proof (cases "d = c")
        case True
        then show ?thesis
          using \<open>is_digit_char c\<close> q i IH [of q']
          by (simp add: route_trie_node_add_digit array_at_Cons [of _ c q'])
      next
        case False
        then have "nat (digit_index c) \<noteq> nat (digit_index d)" if "is_digit_char d"
          using True that digit_index_inj [of d c] by (auto simp: is_digit_char_def eq_nat_nat_iff)
        with False True q show ?thesis
          by (auto simp: route_trie_node_add_digit array_at_Cons)
      qed
    qed
  qed
qed

subsection \<open>Lookup\<close>

text \<open>The routes stored along the digits of \<open>s\<close>, shortest prefix first.\<close>

definition routes_at :: "route_trie_node \<Rightarrow> string \<Rightarrow> route list" where
  "routes_at node p = (case array_at node p of None \<Rightarrow> [] | Some a \<Rightarrow> ra_live a)"

definition matching_routes :: "route_trie_node \<Rightarrow> string \<Rightarrow> route list" where
  "matching_routes node s = concat (map (routes_at node) (prefixes s))"

lemma route_trie_node_find_Nil:
  "route_trie_node_find node [] array =
     (let a = route_array_add_all array (routes_at node []) in (a, ra_size a))"
  by (simp add: route_trie_node_find.simps [of node "[]"] routes_at_def Let_def split: option.split)

lemma route_trie_node_find_bad:
  "\<not> is_digit_char c \<Longrightarrow>
   route_trie_node_find node (c # p) array = (route_array_add_all array (routes_at node []), 0)"
  by (auto simp: route_trie_node_find.simps [of node "c # p"] routes_at_def is_digit_char_def
      Let_def split: option.split)

lemma route_trie_node_find_digit:
  "is_digit_char c \<Longrightarrow>
   route_trie_node_find node (c # p) array =
     (let a = route_array_add_all array (routes_at node [])
      in case nd_child node ! nat (digit_index c) of
           None \<Rightarrow> (a, ra_size a)
         | Some child \<Rightarrow> route_trie_node_find child p a)"
  by (auto simp: route_trie_node_find.simps [of node "c # p"] routes_at_def is_digit_char_def
      Let_def split: option.split)

lemma routes_at_Cons:
  "is_digit_char c \<Longrightarrow> routes_at node (c # p) =
     (case nd_child node ! nat (digit_index c) of None \<Rightarrow> [] | Some n \<Rightarrow> routes_at n p)"
  by (simp add: routes_at_def array_at_Cons split: option.split)

lemma matching_routes_Nil [simp]: "matching_routes node [] = routes_at node []"
  by (simp add: matching_routes_def)

lemma matching_routes_Cons:
  "is_digit_char c \<Longrightarrow> matching_routes node (c # s) = routes_at node [] @
     (case nd_child node ! nat (digit_index c) of None \<Rightarrow> [] | Some n \<Rightarrow> matching_routes n s)"
  by (auto simp: matching_routes_def routes_at_Cons comp_def split: option.split)

lemma route_trie_node_find_digits:
  "list_all is_digit_char s \<Longrightarrow>
   route_trie_node_find node s array =
     (let a = route_array_add_all array (matching_routes node s) in (a, ra_size a))"
proof (induction s arbitrary: node array)
  case Nil
  then show ?case by (simp add: route_trie_node_find_Nil)
next
  case (Cons c s)
  then show ?case
    by (auto simp: route_trie_node_find_digit matching_routes_Cons Let_def split: option.split)
qed

text \<open>
  A key with a bad character: the routes of the digits before it are still added, and
  the return value is 0 only when the trie is deep enough to reach the bad character.
\<close>

lemma route_trie_node_find_bad_key:
  "list_all is_digit_char ds \<Longrightarrow> \<not> is_digit_char c \<Longrightarrow>
   route_trie_node_find node (ds @ c # s) array =
     (let a = route_array_add_all array (matching_routes node ds)
      in (a, if node_at node ds = None then ra_size a else 0))"
proof (induction ds arbitrary: node array)
  case Nil
  then show ?case by (simp add: route_trie_node_find_bad)
next
  case (Cons d ds)
  then show ?case
    by (auto simp: route_trie_node_find_digit matching_routes_Cons Let_def split: option.split)
qed

lemma route_trie_node_find_count_Nil:
  "node_wf m node \<Longrightarrow>
   route_trie_node_find_count node [] cnt = cnt + int (length (routes_at node []))"
  by (auto simp: route_trie_node_find_count.simps [of node "[]"] routes_at_def
      ra_inv_live_length dest!: node_wf_array split: option.split)

lemma route_trie_node_find_count_digit:
  "node_wf m node \<Longrightarrow> is_digit_char c \<Longrightarrow>
   route_trie_node_find_count node (c # p) cnt =
     (case nd_child node ! nat (digit_index c) of
        None \<Rightarrow> cnt + int (length (routes_at node []))
      | Some child \<Rightarrow>
          route_trie_node_find_count child p (cnt + int (length (routes_at node []))))"
  by (auto simp: route_trie_node_find_count.simps [of node "c # p"] routes_at_def is_digit_char_def
      ra_inv_live_length dest!: node_wf_array split: option.split)

lemma route_trie_node_find_count_digits:
  "node_wf m node \<Longrightarrow> list_all is_digit_char s \<Longrightarrow>
   route_trie_node_find_count node s cnt = cnt + int (length (matching_routes node s))"
proof (induction s arbitrary: node cnt)
  case Nil
  then show ?case by (simp add: route_trie_node_find_count_Nil)
next
  case (Cons c s)
  then show ?case
    using node_wf_child [OF Cons.prems(1) is_digit_index]
    by (auto simp: route_trie_node_find_count_digit matching_routes_Cons split: option.split)
qed

lemma array_at_wf: "node_wf m node \<Longrightarrow> array_at node p = Some a \<Longrightarrow> ra_inv a \<and> unat (ra_max a) = m"
proof (induction p arbitrary: node)
  case Nil
  then show ?case by (auto dest: node_wf_array)
next
  case (Cons c p)
  then obtain n where "is_digit_char c" "nd_child node ! nat (digit_index c) = Some n"
    "array_at n p = Some a"
    by (auto simp: array_at_Cons split: if_splits option.splits)
  with Cons show ?case using node_wf_child [OF Cons.prems(1) is_digit_index] by blast
qed

lemma routes_at_occupied: "node_wf m node \<Longrightarrow> occupied (routes_at node p)"
proof (induction p arbitrary: node)
  case Nil
  then show ?case
    by (auto simp: routes_at_def ra_inv_live_occupied dest: node_wf_array split: option.split)
next
  case (Cons c p)
  show ?case
  proof (cases "is_digit_char c")
    case True
    then show ?thesis
      using Cons.IH node_wf_child [OF Cons.prems is_digit_index]
      by (simp add: routes_at_Cons split: option.split)
  next
    case False
    then show ?thesis by (simp add: routes_at_def array_at_Cons)
  qed
qed

lemma matching_routes_occupied: "node_wf m node \<Longrightarrow> occupied (matching_routes node s)"
  using routes_at_occupied by (fastforce simp: matching_routes_def occupied_def)

subsection \<open>The contract of the trie: an array per prefix\<close>

text \<open>
  The loaders only insert and the searches only read the array stored at a path.  The laws
  say what one insertion does to every path; the lemma says what a whole file of insertions
  does.
\<close>

locale prefix_store =
  fixes wf :: "'t \<Rightarrow> bool"
    and put :: "'t \<Rightarrow> string \<Rightarrow> route \<Rightarrow> 't"
    and stored :: "'t \<Rightarrow> string \<Rightarrow> route_array option"
    and fresh :: "'t \<Rightarrow> route_array"
    and legal :: "string \<Rightarrow> bool"
  assumes put_wf: "wf t \<Longrightarrow> rt_value r \<noteq> 0 \<Longrightarrow> wf (put t p r)"
    and put_fresh: "fresh (put t p r) = fresh t"
    and put_stored: "wf t \<Longrightarrow> stored (put t p r) q =
      (if legal p \<and> q = p
       then Some (route_array_add (case stored t p of None \<Rightarrow> fresh t | Some a \<Rightarrow> a) r)
       else stored t q)"
begin

lemma put_all_wf:
  "wf t \<Longrightarrow> occupied (map snd es) \<Longrightarrow> wf (foldl (\<lambda>t e. put t (fst e) (snd e)) t es)"
  by (induction es arbitrary: t) (simp_all add: put_wf)

lemma put_all_stored:
  "wf t \<Longrightarrow> occupied (map snd es) \<Longrightarrow> legal q \<Longrightarrow>
   stored (foldl (\<lambda>t e. put t (fst e) (snd e)) t es) q =
     (let rs = map snd (filter (\<lambda>e. fst e = q) es)
      in if rs = [] then stored t q
         else Some (route_array_add_all (case stored t q of None \<Rightarrow> fresh t | Some a \<Rightarrow> a) rs))"
proof (induction es arbitrary: t)
  case (Cons e es)
  then have "wf (put t (fst e) (snd e))" by (simp add: put_wf)
  from Cons.IH [OF this] Cons.prems show ?case
    by (auto simp: put_stored put_fresh Let_def split: option.split)
qed simp

lemma illegal_put: "wf t \<Longrightarrow> \<not> legal p \<Longrightarrow> stored (put t p r) q = stored t q"
  by (simp add: put_stored)

end

definition trie_put :: "route_trie \<Rightarrow> string \<Rightarrow> route \<Rightarrow> route_trie" where
  "trie_put t p r = fst (route_trie_add t (Some p) (rt_cost r) (rt_value r) (rt_type r))"

definition trie_load :: "route_trie \<Rightarrow> (string \<times> route) list \<Rightarrow> route_trie" where
  "trie_load t es = foldl (\<lambda>t e. trie_put t (fst e) (snd e)) t es"

definition trie_wf :: "route_trie \<Rightarrow> bool" where
  "trie_wf t \<longleftrightarrow> 0 \<le> tr_max_routes t \<and> tr_max_routes t < 256 \<and>
     node_wf (nat (tr_max_routes t)) (tr_root t)"

definition trie_at :: "route_trie \<Rightarrow> string \<Rightarrow> route_array option" where
  "trie_at t p = array_at (tr_root t) p"

definition trie_fresh :: "route_trie \<Rightarrow> route_array" where
  "trie_fresh t = route_array_create (word_of_int (tr_max_routes t))"

lemma trie_put_eq:
  "trie_put t p r = t\<lparr>tr_root := fst (route_trie_node_add (tr_root t) p r (tr_max_routes t))\<rparr>"
  by (cases r) (simp add: trie_put_def route_trie_add_def cstr_of_def Let_def case_prod_unfold)

lemma route_trie_add_eq:
  "route_trie_add t (Some p) c v ty =
     (trie_put t p \<lparr>rt_cost = c, rt_value = v, rt_type = ty\<rparr>, list_all is_digit_char p)"
  by (simp add: trie_put_def route_trie_add_def cstr_of_def Let_def case_prod_unfold
      route_trie_node_add_ok)

lemma trie_put_max [simp]: "tr_max_routes (trie_put t p r) = tr_max_routes t"
  by (simp add: trie_put_eq)

lemma trie_at_put:
  assumes "trie_wf t"
  shows "trie_at (trie_put t p r) q =
      (if list_all is_digit_char p \<and> q = p
       then Some (route_array_add (case trie_at t p of None \<Rightarrow> trie_fresh t | Some a \<Rightarrow> a) r)
       else trie_at t q)"
proof -
  have wf: "node_wf (nat (tr_max_routes t)) (tr_root t)" using assms by (simp add: trie_wf_def)
  have root: "tr_root (trie_put t p r) = fst (route_trie_node_add (tr_root t) p r (tr_max_routes t))"
    by (simp add: trie_put_eq)
  show ?thesis unfolding trie_at_def trie_fresh_def root by (rule array_at_add [OF wf])
qed

interpretation rt: prefix_store trie_wf trie_put trie_at trie_fresh "list_all is_digit_char"
proof
  show "\<And>t r p. trie_wf t \<Longrightarrow> rt_value r \<noteq> 0 \<Longrightarrow> trie_wf (trie_put t p r)"
    by (simp add: trie_wf_def trie_put_eq route_trie_node_add_wf)
  show "\<And>t p r. trie_fresh (trie_put t p r) = trie_fresh t"
    by (simp add: trie_fresh_def trie_put_eq)
  show "\<And>t p r q. trie_wf t \<Longrightarrow> trie_at (trie_put t p r) q =
      (if list_all is_digit_char p \<and> q = p
       then Some (route_array_add (case trie_at t p of None \<Rightarrow> trie_fresh t | Some a \<Rightarrow> a) r)
       else trie_at t q)"
    by (rule trie_at_put)
qed

lemma trie_wf_create [inv_intros]: "trie_wf (route_trie_create m)"
  using uint_lt2p [of m] by (simp add: trie_wf_def route_trie_create_def node_wf_create)

lemma trie_create_simps [simp]:
  "trie_at (route_trie_create m) p = None" "trie_fresh (route_trie_create m) = route_array_create m"
  by (simp_all add: trie_at_def trie_fresh_def route_trie_create_def)

lemma trie_load_wf [inv_intros]: "trie_wf t \<Longrightarrow> occupied (map snd es) \<Longrightarrow> trie_wf (trie_load t es)"
  unfolding trie_load_def by (rule rt.put_all_wf)

definition entries_at :: "(string \<times> route) list \<Rightarrow> string \<Rightarrow> route list" where
  "entries_at es p = map snd (filter (\<lambda>e. fst e = p) es)"

definition entries_for :: "(string \<times> route) list \<Rightarrow> string \<Rightarrow> route list" where
  "entries_for es s = map snd (filter (\<lambda>e. prefix (fst e) s) es)"

lemma trie_load_at:
  "occupied (map snd es) \<Longrightarrow> list_all is_digit_char p \<Longrightarrow>
   trie_at (trie_load (route_trie_create m) es) p =
     (if entries_at es p = [] then None
      else Some (route_array_add_all (route_array_create m) (entries_at es p)))"
  unfolding trie_load_def entries_at_def
  by (subst rt.put_all_stored) (simp_all add: trie_wf_create Let_def)

subsection \<open>Least cost first\<close>

lemma entries_at_occupied: "occupied (map snd es) \<Longrightarrow> occupied (entries_at es p)"
  by (auto simp: occupied_def entries_at_def)

lemma routes_at_load:
  assumes "occupied (map snd es)" "list_all is_digit_char p" "0 < unat m" "unat m < 255"
  shows "set (routes_at (tr_root (trie_load (route_trie_create m) es)) p) \<subseteq> set (entries_at es p)"
    and "r \<in> set (entries_at es p) \<Longrightarrow>
      \<exists>x \<in> set (routes_at (tr_root (trie_load (route_trie_create m) es)) p). rt_cost x \<le> rt_cost r"
proof -
  let ?a = "route_array_add_all (route_array_create m) (entries_at es p)"
  have at: "routes_at (tr_root (trie_load (route_trie_create m) es)) p =
      (if entries_at es p = [] then [] else ra_live ?a)"
    using trie_load_at [OF assms(1,2), of m] by (simp add: routes_at_def trie_at_def)
  have least: "least_first ?a ([] @ entries_at es p)"
    using assms by (intro least_first_add_all least_first_create) (simp_all add: entries_at_occupied)
  show "set (routes_at (tr_root (trie_load (route_trie_create m) es)) p) \<subseteq> set (entries_at es p)"
    using at rc.seen_least [OF least] by auto
  show "\<exists>x \<in> set (routes_at (tr_root (trie_load (route_trie_create m) es)) p). rt_cost x \<le> rt_cost r"
    if r: "r \<in> set (entries_at es p)"
  proof -
    from r have "entries_at es p \<noteq> []" by auto
    with rc.seen_least [OF least] have "hd (ra_live ?a) \<in> set (ra_live ?a)"
      "rt_cost (hd (ra_live ?a)) = Min (rt_cost ` set (entries_at es p))" by auto
    with r at \<open>entries_at es p \<noteq> []\<close> show ?thesis by (intro bexI [of _ "hd (ra_live ?a)"]) auto
  qed
qed

lemma prefix_digits: "prefix p s \<Longrightarrow> list_all is_digit_char s \<Longrightarrow> list_all is_digit_char p"
  by (auto elim: prefixE)

lemma set_entries_for: "set (entries_for es s) = (\<Union>p \<in> set (prefixes s). set (entries_at es p))"
  by (fastforce simp: entries_for_def entries_at_def)

lemma Min_cost_eqI:
  assumes "A \<subseteq> B" "finite B" "B \<noteq> {}" "\<And>b. b \<in> B \<Longrightarrow> \<exists>a \<in> A. rt_cost a \<le> rt_cost b"
  shows "Min (rt_cost ` A) = Min (rt_cost ` B)"
proof (rule Min_eqI)
  show "finite (rt_cost ` A)" using assms(1,2) by (simp add: finite_subset)
  show "Min (rt_cost ` B) \<le> y" if "y \<in> rt_cost ` A" for y
    using that assms(1,2) by (auto intro: Min_le)
  have "Min (rt_cost ` B) \<in> rt_cost ` B" using assms(2,3) by simp
  then obtain b where b: "b \<in> B" "Min (rt_cost ` B) = rt_cost b" by auto
  with assms(4) obtain a where a: "a \<in> A" "rt_cost a \<le> rt_cost b" by blast
  moreover have "rt_cost b \<le> rt_cost a"
    unfolding b(2) [symmetric] using a(1) assms(1,2) by (intro Min_le) auto
  ultimately show "Min (rt_cost ` B) \<in> rt_cost ` A" using b(2) by (simp add: rev_image_eqI)
qed

lemma matching_routes_load:
  assumes "occupied (map snd es)" "list_all is_digit_char s" "0 < unat m" "unat m < 255"
  shows "set (matching_routes (tr_root (trie_load (route_trie_create m) es)) s) \<subseteq>
      set (entries_for es s)"
    and "entries_for es s \<noteq> [] \<Longrightarrow>
      Min (rt_cost ` set (matching_routes (tr_root (trie_load (route_trie_create m) es)) s)) =
        Min (rt_cost ` set (entries_for es s))"
    and "entries_for es s \<noteq> [] \<Longrightarrow>
      matching_routes (tr_root (trie_load (route_trie_create m) es)) s \<noteq> []"
proof -
  let ?root = "tr_root (trie_load (route_trie_create m) es)"
  have set_m: "set (matching_routes ?root s) = (\<Union>p \<in> set (prefixes s). set (routes_at ?root p))"
    by (simp add: matching_routes_def)
  have dig: "list_all is_digit_char p" if "p \<in> set (prefixes s)" for p
    using that assms(2) by (auto intro: prefix_digits)
  show sub: "set (matching_routes ?root s) \<subseteq> set (entries_for es s)"
    unfolding set_m set_entries_for using routes_at_load(1) [OF assms(1) dig assms(3,4)] by blast
  have dom: "\<exists>a \<in> set (matching_routes ?root s). rt_cost a \<le> rt_cost b"
    if "b \<in> set (entries_for es s)" for b
    using that routes_at_load(2) [OF assms(1) dig assms(3,4)]
    unfolding set_m set_entries_for by blast
  assume ne: "entries_for es s \<noteq> []"
  then show "Min (rt_cost ` set (matching_routes ?root s)) = Min (rt_cost ` set (entries_for es s))"
    using sub dom by (intro Min_cost_eqI) auto
  show "matching_routes ?root s \<noteq> []"
    using dom ne by (metis empty_iff list.set(1) list.set_sel(1))
qed

lemma trie_least_cost:
  assumes "occupied (map snd es)" "list_all is_digit_char s" "0 < unat m" "unat m < 255"
    and "0 < unat k" "unat k < 255" "entries_for es s \<noteq> []"
    and "route_trie_find (trie_load (route_trie_create m) es) (Some s) (route_array_create k) = (a, n)"
  shows "ra_live a \<noteq> []" "rt_cost (hd (ra_live a)) = Min (rt_cost ` set (entries_for es s))"
    "set (ra_live a) \<subseteq> set (entries_for es s)" "sorted (map rt_cost (ra_live a))" "n = ra_size a"
    "length (ra_live a) \<le> unat k"
proof -
  let ?root = "tr_root (trie_load (route_trie_create m) es)"
  let ?rs = "matching_routes ?root s"
  have an: "a = route_array_add_all (route_array_create k) ?rs" "n = ra_size a"
    using assms(2,8)
    by (auto simp: route_trie_find_def cstr_of_def route_trie_node_find_digits Let_def)
  have "trie_wf (trie_load (route_trie_create m) es)"
    by (intro trie_load_wf trie_wf_create assms(1))
  then have occ: "occupied ?rs"
    unfolding trie_wf_def using matching_routes_occupied by blast
  have least: "least_first a ([] @ ?rs)"
    unfolding an(1) using occ assms(5,6) by (intro least_first_add_all least_first_create) simp_all
  note load = matching_routes_load [OF assms(1-4)]
  show "ra_live a \<noteq> []" "rt_cost (hd (ra_live a)) = Min (rt_cost ` set (entries_for es s))"
    "set (ra_live a) \<subseteq> set (entries_for es s)"
    using rc.seen_least [OF least] load assms(7) by auto
  show "sorted (map rt_cost (ra_live a))"
    using least by (intro rc.live_sorted least_first_inv)
  show "length (ra_live a) \<le> unat k"
    using ra_inv_live_bound [OF least_first_inv [OF least]] by (simp add: an(1))
  show "n = ra_size a" by (rule an(2))
qed

subsection \<open>Where the routes of a search come from\<close>

definition trie_routes_in :: "route set \<Rightarrow> route_trie \<Rightarrow> bool" where
  "trie_routes_in R t \<longleftrightarrow> (\<forall>p a. trie_at t p = Some a \<longrightarrow> ra_inv a \<and> set (filled a) \<subseteq> R)"

lemma trie_routes_in_create: "trie_routes_in R (route_trie_create m)"
  by (simp add: trie_routes_in_def)

lemma trie_routes_in_mono: "trie_routes_in R t \<Longrightarrow> R \<subseteq> R' \<Longrightarrow> trie_routes_in R' t"
  by (fastforce simp: trie_routes_in_def)

lemma trie_routes_in_put:
  assumes "trie_wf t" "trie_routes_in R t" "r \<in> R" "rt_value r \<noteq> 0"
  shows "trie_routes_in R (trie_put t p r)"
proof -
  have "ra_inv (route_array_add b r) \<and> set (filled (route_array_add b r)) \<subseteq> R"
    if "b = (case trie_at t p of None \<Rightarrow> trie_fresh t | Some a \<Rightarrow> a)" for b
  proof -
    have "ra_inv b \<and> set (filled b) \<subseteq> R"
      using that assms(2) by (auto simp: trie_routes_in_def trie_fresh_def ra_inv_create split: option.splits)
    then show ?thesis using filled_add [of b r] assms(3,4) by (auto simp: ra_inv_add)
  qed
  then show ?thesis
    using assms(2) unfolding trie_routes_in_def trie_at_put [OF assms(1)] by auto
qed

text \<open>Whatever key is searched, the routes poured into the result are stored on its leading digits.\<close>

lemma trie_find_leading:
  "\<exists>ds. list_all is_digit_char ds \<and>
    fst (route_trie_find t key a) = route_array_add_all a (matching_routes (tr_root t) ds) \<and>
    (snd (route_trie_find t key a) = ra_size (fst (route_trie_find t key a)) \<or>
     snd (route_trie_find t key a) = 0)"
proof -
  let ?s = "cstr_of key"
  let ?ds = "takeWhile is_digit_char ?s"
  have ds: "list_all is_digit_char ?ds" by (auto simp: list_all_iff dest: set_takeWhileD)
  show ?thesis
  proof (cases "dropWhile is_digit_char ?s")
    case Nil
    then have "?s = ?ds" by (metis takeWhile_dropWhile_id append_Nil2)
    with ds have "list_all is_digit_char ?s" by simp
    from route_trie_node_find_digits [OF this] this show ?thesis
      by (intro exI [of _ ?s]) (simp add: route_trie_find_def Let_def)
  next
    case (Cons c s')
    then have s: "?s = ?ds @ c # s'" by (metis takeWhile_dropWhile_id)
    have "\<not> is_digit_char c" using Cons by (simp add: dropWhile_eq_Cons_conv)
    from route_trie_node_find_bad_key [OF ds this, of "tr_root t" s' a]
    have "route_trie_node_find (tr_root t) ?s a =
        (let b = route_array_add_all a (matching_routes (tr_root t) ?ds)
         in (b, if node_at (tr_root t) ?ds = None then ra_size b else 0))"
      using s by metis
    with ds show ?thesis by (intro exI [of _ ?ds]) (simp add: route_trie_find_def Let_def)
  qed
qed

lemma trie_find_snd:
  "unat (snd (route_trie_find t key a)) \<le> unat (ra_size (fst (route_trie_find t key a)))"
  using trie_find_leading [of t key a] by auto

lemma trie_find_within:
  assumes "trie_wf t" "trie_routes_in R t" "ra_inv a" "set (filled a) \<subseteq> R"
  shows "ra_inv (fst (route_trie_find t key a)) \<and> set (filled (fst (route_trie_find t key a))) \<subseteq> R"
proof -
  obtain ds where ds: "fst (route_trie_find t key a) =
      route_array_add_all a (matching_routes (tr_root t) ds)"
    using trie_find_leading by blast
  have occ: "occupied (matching_routes (tr_root t) ds)"
    using assms(1) matching_routes_occupied by (auto simp: trie_wf_def)
  have "set (matching_routes (tr_root t) ds) \<subseteq> R"
  proof
    fix r assume "r \<in> set (matching_routes (tr_root t) ds)"
    then obtain p b where "trie_at t p = Some b" "r \<in> set (ra_live b)"
      by (auto simp: matching_routes_def routes_at_def trie_at_def split: option.splits) metis
    with assms(2) filled_live [of b] show "r \<in> R" by (auto simp: trie_routes_in_def)
  qed
  then show ?thesis
    using ds occ assms(3,4) filled_add_all [OF assms(3) occ] by (auto simp: ra_inv_add_all)
qed

text \<open>A trie whose arrays have no slots stores nothing.\<close>

lemma trie_find_no_slots:
  assumes "trie_wf t" "tr_max_routes t = 0" "ra_inv a"
  shows "fst (route_trie_find t key a) = a"
proof -
  obtain ds where ds: "fst (route_trie_find t key a) =
      route_array_add_all a (matching_routes (tr_root t) ds)"
    using trie_find_leading by blast
  have "routes_at (tr_root t) p = []" for p
  proof -
    have "ra_inv b \<and> unat (ra_max b) = 0" if "array_at (tr_root t) p = Some b" for b
      using assms(1,2) that by (simp add: trie_wf_def array_at_wf)
    then show ?thesis using ra_inv_live_bound
      by (fastforce simp: routes_at_def split: option.split)
  qed
  then have "matching_routes (tr_root t) ds = []" by (simp add: matching_routes_def)
  then show ?thesis by (simp add: ds)
qed

subsection \<open>Properties of the trie\<close>

text \<open>
  C16: Adding a route accepts exactly the prefixes made of digits, keeps the trie well-formed,
  and changes the array stored at that prefix only: the route joins the routes of its prefix,
  and a rejected prefix changes no stored array.
\<close>

theorem trie_add_exact:
  assumes "trie_wf t" "rt_value r \<noteq> 0"
    and "(t', ok) = route_trie_add t (Some p) (rt_cost r) (rt_value r) (rt_type r)"
  shows "trie_wf t' \<and> ok = list_all is_digit_char p \<and>
    (\<forall>q. trie_at t' q =
      (if ok \<and> q = p
       then Some (route_array_add (case trie_at t p of None \<Rightarrow> trie_fresh t | Some a \<Rightarrow> a) r)
       else trie_at t q))"
proof -
  have t': "t' = trie_put t p r" and "ok = snd (route_trie_add t (Some p) (rt_cost r) (rt_value r) (rt_type r))"
    using assms(3) by (auto simp: trie_put_def dest: arg_cong [where f = fst] arg_cong [where f = snd])
  then have ok: "ok = list_all is_digit_char p"
    by (simp add: route_trie_add_def cstr_of_def Let_def case_prod_unfold route_trie_node_add_ok)
  show ?thesis
    using rt.put_wf [OF assms(1,2)] trie_at_put [OF assms(1)] by (simp add: t' ok)
qed

definition sample_route :: route where
  "sample_route = \<lparr>rt_cost = 5, rt_value = 1, rt_type = 0\<rparr>"

lemma trie_add_exact_witness:
  "trie_at (fst (route_trie_add (route_trie_create 2) (Some ''12'') 5 1 0)) ''12'' =
    Some (route_array_add (route_array_create 2) sample_route) \<and>
   \<not> snd (route_trie_add (route_trie_create 2) (Some ''1*'') 5 1 0)"
proof -
  have r: "rt_value sample_route \<noteq> 0" "rt_cost sample_route = 5" "rt_value sample_route = 1"
    "rt_type sample_route = 0"
    by (simp_all add: sample_route_def)
  show ?thesis
    using trie_add_exact [OF trie_wf_create r(1) surjective_pairing [symmetric], of 2 "''12''"]
      trie_add_exact [OF trie_wf_create r(1) surjective_pairing [symmetric], of 2 "''1*''"]
    by (simp add: r is_digit_char_def digit_index_def char_int_def)
qed

text \<open>
  C15: Searching a number of digits pours into the result the routes of every stored prefix of
  the number, from the shortest to the longest, and the count of a search is the number of
  those routes.
\<close>

theorem trie_search_all_prefixes:
  assumes "trie_wf t" "list_all is_digit_char s"
  shows "fst (route_trie_find t (Some s) a) = route_array_add_all a
      (concat (map (\<lambda>p. case trie_at t p of None \<Rightarrow> [] | Some b \<Rightarrow> ra_live b) (prefixes s))) \<and>
    snd (route_trie_find t (Some s) a) = ra_size (fst (route_trie_find t (Some s) a)) \<and>
    route_trie_find_count t (Some s) = int (length
      (concat (map (\<lambda>p. case trie_at t p of None \<Rightarrow> [] | Some b \<Rightarrow> ra_live b) (prefixes s))))"
proof -
  have rs: "concat (map (\<lambda>p. case trie_at t p of None \<Rightarrow> [] | Some b \<Rightarrow> ra_live b) (prefixes s)) =
      matching_routes (tr_root t) s"
    unfolding matching_routes_def
    by (intro arg_cong [where f = concat] map_cong refl) (simp add: routes_at_def trie_at_def)
  have wf: "node_wf (nat (tr_max_routes t)) (tr_root t)" using assms(1) by (simp add: trie_wf_def)
  show ?thesis
    unfolding rs route_trie_find_def route_trie_find_count_def
    using assms(2) route_trie_node_find_count_digits [OF wf assms(2)]
    by (simp add: cstr_of_def route_trie_node_find_digits Let_def)
qed

lemma trie_search_all_prefixes_witness:
  "route_trie_find_count (trie_load (route_trie_create 2) [(''1'', sample_route), (''12'', sample_route)])
    (Some ''123'') = 2"
proof -
  have wf: "trie_wf (trie_load (route_trie_create 2) [(''1'', sample_route), (''12'', sample_route)])"
    by (intro trie_load_wf trie_wf_create) (simp add: sample_route_def)
  have d: "list_all is_digit_char ''123''" by (simp add: is_digit_char_def digit_index_def char_int_def)
  have "trie_at (trie_load (route_trie_create 2) [(''1'', sample_route), (''12'', sample_route)]) p =
      (if p = ''1'' \<or> p = ''12'' then Some (route_array_add (route_array_create 2) sample_route) else None)"
    if "p \<in> set (prefixes ''123'')" for p
    using that by (subst trie_load_at)
      (auto simp: sample_route_def is_digit_char_def digit_index_def char_int_def entries_at_def)
  moreover have "length (ra_live (route_array_add (route_array_create 2) sample_route)) = 1"
    unfolding sample_route_def by code_simp
  ultimately show ?thesis
    using trie_search_all_prefixes [OF wf d] by simp
qed

text \<open>
  A search for a key with a bad character after its leading digits still adds the routes of
  those digits to the result; the number it returns is 0, as if nothing had been found, when the
  trie has a node for them, and the size of the result when it has not.
\<close>

theorem trie_search_bad_key:
  assumes "list_all is_digit_char ds" "\<not> is_digit_char c"
  shows "route_trie_find t (Some (ds @ c # s)) a =
    (route_array_add_all a (matching_routes (tr_root t) ds),
     if node_at (tr_root t) ds = None
     then ra_size (route_array_add_all a (matching_routes (tr_root t) ds)) else 0)"
  unfolding route_trie_find_def using route_trie_node_find_bad_key [OF assms]
  by (simp add: cstr_of_def Let_def)

lemma trie_search_bad_key_witness:
  "route_trie_find (route_trie_create 2) (Some ''1a'') (route_array_create 2) =
    (route_array_create 2, 0)"
proof -
  have "route_trie_find (route_trie_create 2) (Some (''1'' @ CHR ''a'' # [])) (route_array_create 2) =
    (route_array_create 2, 0)"
    by (subst trie_search_bad_key)
      (auto simp: is_digit_char_def digit_index_def char_int_def matching_routes_def routes_at_def
        route_trie_create_def route_array_create_def route_trie_node_create_def array_at_Cons)
  then show ?thesis by simp
qed

end
