(* ===== verification/C_Library.thy ===== *)
theory C_Library
  imports C_Prelude
begin

text \<open>
  The parts of the C library the modules rely on, on strings without their NUL and on
  buffers (lists of characters of fixed length, in which a NUL ends the string).
  The C locale is assumed for the character classes.
\<close>

text \<open>What undefined behaviour a definition makes visible instead of a result.\<close>

datatype crash = Null_Deref | Out_Of_Bounds | Use_After_Free | Wild_Pointer

definition NUL :: char where
  "NUL = CHR 0x00"

definition CR :: char where "CR = CHR 0x0D"
definition LF :: char where "LF = CHR 0x0A"

text \<open>Reading a character of a C string; behind its last one is the NUL.\<close>

definition c_at :: "string \<Rightarrow> nat \<Rightarrow> char" where
  "c_at s j = (if j < length s then s ! j else NUL)"

definition buf_strlen :: "char list \<Rightarrow> nat \<Rightarrow> nat" where
  "buf_strlen buf off = length (takeWhile (\<lambda>c. c \<noteq> NUL) (drop off buf))"

definition buf_string :: "char list \<Rightarrow> nat \<Rightarrow> string" where
  "buf_string buf off = takeWhile (\<lambda>c. c \<noteq> NUL) (drop off buf)"

definition buf_write :: "char list \<Rightarrow> nat \<Rightarrow> char list \<Rightarrow> char list" where
  "buf_write buf off bytes = take off buf @ bytes @ drop (off + length bytes) buf"

text \<open>
  \<open>snprintf(buf + off, n, "%s...", ...)\<close> for a formatted text \<open>s\<close>: at most \<open>n - 1\<close>
  characters and a NUL are written, the length of the whole text is returned.
\<close>

definition c_snprintf :: "char list \<Rightarrow> nat \<Rightarrow> nat \<Rightarrow> string \<Rightarrow> char list \<times> nat" where
  "c_snprintf buf off n s =
     (if n = 0 then buf else buf_write buf off (take (n - 1) s @ [NUL]), length s)"

text \<open>\<open>a - b\<close> on \<open>size_t\<close>.\<close>

definition size_t_minus :: "nat \<Rightarrow> nat \<Rightarrow> nat" where
  "size_t_minus a b = unat (of_nat a - of_nat b :: 64 word)"

definition c_isdigit :: "char \<Rightarrow> bool" where
  "c_isdigit c \<longleftrightarrow> 48 \<le> char_int c \<and> char_int c \<le> 57"

definition c_isupper :: "char \<Rightarrow> bool" where
  "c_isupper c \<longleftrightarrow> 65 \<le> char_int c \<and> char_int c \<le> 90"

definition c_islower :: "char \<Rightarrow> bool" where
  "c_islower c \<longleftrightarrow> 97 \<le> char_int c \<and> char_int c \<le> 122"

definition c_isalpha :: "char \<Rightarrow> bool" where
  "c_isalpha c \<longleftrightarrow> c_isupper c \<or> c_islower c"

definition c_isprint :: "char \<Rightarrow> bool" where
  "c_isprint c \<longleftrightarrow> 32 \<le> char_int c \<and> char_int c \<le> 126"

definition c_isblank :: "char \<Rightarrow> bool" where
  "c_isblank c \<longleftrightarrow> char_int c = 32 \<or> char_int c = 9"

definition c_isspace :: "char \<Rightarrow> bool" where
  "c_isspace c \<longleftrightarrow> char_int c = 32 \<or> 9 \<le> char_int c \<and> char_int c \<le> 13"

definition c_toupper :: "char \<Rightarrow> char" where
  "c_toupper c = (if c_islower c then char_of (of_char c - 32 :: nat) else c)"

definition c_tolower :: "char \<Rightarrow> char" where
  "c_tolower c = (if c_isupper c then char_of (of_char c + 32 :: nat) else c)"

definition c_strcaseeq :: "string \<Rightarrow> string \<Rightarrow> bool" where
  "c_strcaseeq s t \<longleftrightarrow> map c_tolower s = map c_tolower t"

definition digits_value :: "string \<Rightarrow> nat" where
  "digits_value ds = foldl (\<lambda>n c. 10 * n + nat (digit_index c)) 0 ds"

text \<open>
  \<open>atoi\<close> as glibc implements it: \<open>strtol\<close> in base 10, which saturates at the bounds of
  \<open>long\<close>, then the conversion to \<open>int\<close>.
\<close>

definition c_strtol :: "string \<Rightarrow> int" where
  "c_strtol s =
     (let t = dropWhile c_isspace s;
          (neg, u) = (case t of [] \<Rightarrow> (False, [])
                      | c # cs \<Rightarrow> if c = CHR ''-'' then (True, cs)
                                  else if c = CHR ''+'' then (False, cs) else (False, t));
          v = int (digits_value (takeWhile c_isdigit u))
      in max (- (2 ^ 63)) (min (2 ^ 63 - 1) (if neg then - v else v)))"

definition c_atoi :: "string \<Rightarrow> int" where
  "c_atoi s = sint (word_of_int (c_strtol s) :: 32 word)"

text \<open>\<open>fgets\<close> into a buffer of \<open>n\<close> characters: what is read and what remains of the stream.\<close>

fun read_upto :: "nat \<Rightarrow> string \<Rightarrow> string \<times> string" where
  "read_upto 0 s = ([], s)"
| "read_upto (Suc n) [] = ([], [])"
| "read_upto (Suc n) (c # s) =
     (if c = CHR 0x0A then ([c], s)
      else let (l, rest) = read_upto n s in (c # l, rest))"

definition c_fgets :: "nat \<Rightarrow> string \<Rightarrow> (string \<times> string) option" where
  "c_fgets n s = (if s = [] then None else Some (read_upto (n - 1) s))"

lemma read_upto_append: "read_upto n s = (l, rest) \<Longrightarrow> s = l @ rest"
  by (induction n s arbitrary: l rest rule: read_upto.induct)
    (auto split: if_splits prod.splits)

lemma read_upto_progress: "read_upto (Suc n) s = (l, rest) \<Longrightarrow> s \<noteq> [] \<Longrightarrow> l \<noteq> []"
  by (cases s) (auto split: if_splits prod.splits)

lemma c_fgets_shorter:
  assumes "c_fgets n s = Some (l, rest)" "2 \<le> n"
  shows "length rest < length s"
proof -
  from assms obtain m where m: "n - 1 = Suc m" "s \<noteq> []" "read_upto (Suc m) s = (l, rest)"
    by (cases "n - 1") (auto simp: c_fgets_def split: if_splits)
  with read_upto_append [OF m(3)] read_upto_progress [OF m(3,2)] show ?thesis by auto
qed

lemma c_isdigit_iff: "c_isdigit c \<longleftrightarrow> is_digit_char c"
  by (auto simp: c_isdigit_def is_digit_char_def digit_index_def)

lemma size_t_minus_le: "b \<le> a \<Longrightarrow> a < 2 ^ 64 \<Longrightarrow> size_t_minus a b = a - b"
  by (simp add: size_t_minus_def unat_of_nat take_bit_nat_eq_self flip: of_nat_diff)

lemma length_buf_write: "off + length bytes \<le> length buf \<Longrightarrow> length (buf_write buf off bytes) = length buf"
  by (simp add: buf_write_def)

lemma buf_write_nth:
  "off + length bytes \<le> length buf \<Longrightarrow> i < length buf \<Longrightarrow>
   buf_write buf off bytes ! i =
     (if i < off then buf ! i else if i < off + length bytes then bytes ! (i - off) else buf ! i)"
  by (auto simp: buf_write_def nth_append min_def)

lemma buf_strlen_string: "buf_strlen buf off = length (buf_string buf off)"
  by (simp add: buf_strlen_def buf_string_def)

end
