(* ===== verification/Fs_Api.thy ===== *)
theory Fs_Api
  imports C_Library
begin

text \<open>
  The operations of the FreeSWITCH core the modules call.  Their code is not part of the
  repository: they are fields of a record that the definitions take as an argument, and
  what a theorem relies on is a named hypothesis that states their documented behaviour.
  A \<open>const char *\<close> that may be \<open>NULL\<close> is a \<open>string option\<close>.
\<close>

datatype switch_status = SWITCH_STATUS_SUCCESS | SWITCH_STATUS_FALSE | SWITCH_STATUS_TERM

record fs_api =
  fs_zstr :: "string option \<Rightarrow> bool"
  fs_separate_string :: "string \<Rightarrow> char \<Rightarrow> nat \<Rightarrow> string list"
  fs_is_number :: "string \<Rightarrow> bool"
  fs_status_num :: "switch_status \<Rightarrow> nat"

text \<open>\<open>zstr\<close> holds of \<open>NULL\<close> and of the empty string.\<close>

definition zstr_documented :: "fs_api \<Rightarrow> bool" where
  "zstr_documented api \<longleftrightarrow> (\<forall>s. fs_zstr api s \<longleftrightarrow> s = None \<or> s = Some [])"

text \<open>\<open>SWITCH_STATUS_SUCCESS\<close> is 0, \<open>SWITCH_STATUS_FALSE\<close> is 1.\<close>

definition status_documented :: "fs_api \<Rightarrow> bool" where
  "status_documented api \<longleftrightarrow>
     fs_status_num api SWITCH_STATUS_SUCCESS = 0 \<and> fs_status_num api SWITCH_STATUS_FALSE = 1"

text \<open>
  \<open>switch_is_number\<close> accepts digits and decimal points after an optional sign, and nothing
  else; \<open>switch_separate_string\<close> fills at most the given number of array elements.
\<close>

definition is_number_documented :: "fs_api \<Rightarrow> bool" where
  "is_number_documented api \<longleftrightarrow>
     (\<forall>s. fs_is_number api s \<longrightarrow>
       list_all (\<lambda>c. c_isdigit c \<or> c = CHR ''.'')
         (case s of [] \<Rightarrow> [] | c # cs \<Rightarrow> if c = CHR ''-'' \<or> c = CHR ''+'' then cs else s))"

definition separate_documented :: "fs_api \<Rightarrow> bool" where
  "separate_documented api \<longleftrightarrow> (\<forall>s c n. length (fs_separate_string api s c n) \<le> n)"

text \<open>
  A \<open>switch_hash_t\<close> with string keys: the operations, and the law that a search after an
  insertion finds what was inserted last under the key.
\<close>

record ('h, 'v) fs_hash =
  hash_new :: 'h
  hash_find :: "'h \<Rightarrow> string \<Rightarrow> 'v option"
  hash_insert :: "'h \<Rightarrow> string \<Rightarrow> 'v \<Rightarrow> 'h"

definition hash_documented :: "('h, 'v) fs_hash \<Rightarrow> bool" where
  "hash_documented ops \<longleftrightarrow>
     (\<forall>k. hash_find ops (hash_new ops) k = None) \<and>
     (\<forall>h k v k'. hash_find ops (hash_insert ops h k v) k' =
        (if k' = k then Some v else hash_find ops h k'))"

text \<open>
  The same table where entries are also deleted and walked through, and a pointer stored in it may be
  \<open>NULL\<close>: \<open>tab_first\<close> is \<open>switch_hash_first\<close> with \<open>switch_hash_this\<close>.  The documentation speaks of the keys
  that are stored, \<open>ks\<close>.
\<close>

record ('h, 'v) fs_table =
  tab_new :: 'h
  tab_find :: "'h \<Rightarrow> string \<Rightarrow> 'v option"
  tab_insert :: "'h \<Rightarrow> string \<Rightarrow> 'v option \<Rightarrow> 'h"
  tab_delete :: "'h \<Rightarrow> string \<Rightarrow> 'h"
  tab_first :: "'h \<Rightarrow> (string \<times> 'v option) option"

definition table_documented :: "('h, 'v) fs_table \<Rightarrow> ('h \<Rightarrow> string set) \<Rightarrow> bool" where
  "table_documented ops ks \<longleftrightarrow>
     ks (tab_new ops) = {} \<and>
     (\<forall>h. finite (ks h)) \<and>
     (\<forall>h k. k \<notin> ks h \<longrightarrow> tab_find ops h k = None) \<and>
     (\<forall>h k v. ks (tab_insert ops h k v) = insert k (ks h)) \<and>
     (\<forall>h k v k'. tab_find ops (tab_insert ops h k v) k' = (if k' = k then v else tab_find ops h k')) \<and>
     (\<forall>h k. ks (tab_delete ops h k) = ks h - {k}) \<and>
     (\<forall>h k k'. k' \<noteq> k \<longrightarrow> tab_find ops (tab_delete ops h k) k' = tab_find ops h k') \<and>
     (\<forall>h. tab_first ops h = None \<longleftrightarrow> ks h = {}) \<and>
     (\<forall>h k v. tab_first ops h = Some (k, v) \<longrightarrow> k \<in> ks h \<and> tab_find ops h k = v)"

lemma table_documentedD:
  assumes "table_documented ops ks"
  shows "ks (tab_new ops) = {}" "finite (ks h)" "k \<notin> ks h \<Longrightarrow> tab_find ops h k = None"
    "ks (tab_insert ops h k v) = insert k (ks h)"
    "tab_find ops (tab_insert ops h k v) k' = (if k' = k then v else tab_find ops h k')"
    "ks (tab_delete ops h k) = ks h - {k}"
    "k' \<noteq> k \<Longrightarrow> tab_find ops (tab_delete ops h k) k' = tab_find ops h k'"
    "tab_first ops h = None \<longleftrightarrow> ks h = {}"
    "tab_first ops h = Some (k, v) \<Longrightarrow> k \<in> ks h \<and> tab_find ops h k = v"
  using assms by (simp_all add: table_documented_def)

lemma table_find_new: "table_documented ops ks \<Longrightarrow> tab_find ops (tab_new ops) k = None"
  by (simp add: table_documentedD(1,3))

text \<open>An instance for the witnesses: each operation as documented.\<close>

fun split_on :: "char \<Rightarrow> string \<Rightarrow> string \<Rightarrow> string list" where
  "split_on d acc [] = [acc]"
| "split_on d acc (c # cs) = (if c = d then acc # split_on d [] cs else split_on d (acc @ [c]) cs)"

definition documented_api :: fs_api where
  "documented_api =
     \<lparr>fs_zstr = (\<lambda>s. s = None \<or> s = Some []),
      fs_separate_string = (\<lambda>s d n. if s = [] then [] else take n (split_on d [] s)),
      fs_is_number = (\<lambda>s. s \<noteq> [] \<and> list_all (\<lambda>c. c_isdigit c \<or> c = CHR ''.'') s),
      fs_status_num = (\<lambda>s. case s of SWITCH_STATUS_SUCCESS \<Rightarrow> 0 | SWITCH_STATUS_FALSE \<Rightarrow> 1 | SWITCH_STATUS_TERM \<Rightarrow> 21)\<rparr>"

definition documented_hash :: "(string \<Rightarrow> 'v option, 'v) fs_hash" where
  "documented_hash = \<lparr>hash_new = Map.empty, hash_find = (\<lambda>h k. h k), hash_insert = (\<lambda>h k v. h(k \<mapsto> v))\<rparr>"

definition documented_table :: "((string \<times> 'v option) list, 'v) fs_table" where
  "documented_table =
     \<lparr>tab_new = [],
      tab_find = (\<lambda>h k. case map_of h k of None \<Rightarrow> None | Some v \<Rightarrow> v),
      tab_insert = (\<lambda>h k v. (k, v) # filter (\<lambda>p. fst p \<noteq> k) h),
      tab_delete = (\<lambda>h k. filter (\<lambda>p. fst p \<noteq> k) h),
      tab_first = (\<lambda>h. case h of [] \<Rightarrow> None | p # _ \<Rightarrow> Some p)\<rparr>"

lemma map_of_without: "map_of (filter (\<lambda>p. fst p \<noteq> k) h) k' = (if k' = k then None else map_of h k')"
  by (induction h) auto

lemma documented_table_ok: "table_documented documented_table (\<lambda>h. fst ` set h)"
proof -
  have none: "map_of h k = None" if "k \<notin> fst ` set h" for h :: "(string \<times> 'v option) list" and k
    using that by (simp only: map_of_eq_None_iff not_False_eq_True)
  show ?thesis
    unfolding table_documented_def documented_table_def
    by (auto simp: map_of_without none split: list.splits)
qed

lemma documented_api_zstr: "zstr_documented documented_api"
  and documented_api_status: "status_documented documented_api"
  and documented_api_is_number: "is_number_documented documented_api"
  and documented_api_separate: "separate_documented documented_api"
  by (auto simp: zstr_documented_def status_documented_def is_number_documented_def
      separate_documented_def documented_api_def split: list.split)

lemma documented_hash_ok: "hash_documented documented_hash"
  by (auto simp: hash_documented_def documented_hash_def)

lemmas api_documented = zstr_documented_def status_documented_def is_number_documented_def
  separate_documented_def hash_documented_def

end
