(* ===== verification/Lcr_Database.thy ===== *)
theory Lcr_Database
  imports Route_Trie Fs_Api
begin

text \<open>
  Gateways, carriers and the LCR database of \<open>crienzo/mod_simple_lcr/mod_simple_lcr.c\<close>:
  round-robin gateway selection, area lookup, the route search with its three routing
  modes, and the assembly of the dial string in a bounded buffer.
\<close>

definition MAX_CARRIERS :: nat where "MAX_CARRIERS = 256"
definition MAX_GATEWAYS :: nat where "MAX_GATEWAYS = 8"
definition MAX_ROUTES :: int where "MAX_ROUTES = 8"
definition MAX_INTER_AREAS :: nat where "MAX_INTER_AREAS = 16"
definition DEFAULT_MAX_ROUTES :: int where "DEFAULT_MAX_ROUTES = 3"

record gateway =
  gw_prefix :: string
  gw_suffix :: string

record carrier =
  cr_id :: route_value_t
  cr_name :: string
  cr_num_gateways :: nat
  cr_gateway :: "gateway option list"
  cr_next_gateway :: nat

record lcr =
  lcr_inter_trie :: route_trie
  lcr_intra_trie :: route_trie
  lcr_areas :: route_trie
  lcr_inter_areas :: route_trie
  lcr_carriers :: "carrier option list"
  lcr_num_carriers :: int
  lcr_max_routes :: int
  lcr_areas_caller_id_strip :: int
  lcr_areas_caller_id_prefix :: string
  lcr_areas_dest_strip :: int
  lcr_areas_dest_prefix :: string

subsection \<open>Gateways and carriers\<close>

definition gateway_create :: "string \<Rightarrow> string \<Rightarrow> gateway" where
  "gateway_create pfx suffix1 = \<lparr>gw_prefix = pfx, gw_suffix = suffix1\<rparr>"

definition gateway_get_dialstring ::
    "gateway \<Rightarrow> char list \<Rightarrow> nat \<Rightarrow> nat \<Rightarrow> string \<Rightarrow> char list \<times> switch_status" where
  "gateway_get_dialstring g buf off max_len dial_digits =
     (let (buf', n) = c_snprintf buf off max_len (gw_prefix g @ dial_digits @ gw_suffix g)
      in (buf', if n > max_len then SWITCH_STATUS_FALSE else SWITCH_STATUS_SUCCESS))"

definition carrier_create :: "string \<Rightarrow> route_value_t \<Rightarrow> bool \<Rightarrow> carrier option" where
  "carrier_create name id1 mutex_ok =
     (if \<not> mutex_ok then None
      else Some \<lparr>cr_id = id1, cr_name = name, cr_num_gateways = 0,
                 cr_gateway = replicate MAX_GATEWAYS None, cr_next_gateway = 0\<rparr>)"

definition carrier_add_gateway ::
    "carrier \<Rightarrow> string \<Rightarrow> string \<Rightarrow> carrier \<times> switch_status" where
  "carrier_add_gateway c pfx suffix1 =
     (if cr_num_gateways c < MAX_GATEWAYS
      then (c\<lparr>cr_gateway := (cr_gateway c)[cr_num_gateways c := Some (gateway_create pfx suffix1)],
              cr_num_gateways := cr_num_gateways c + 1\<rparr>, SWITCH_STATUS_SUCCESS)
      else (c, SWITCH_STATUS_FALSE))"

definition carrier_select_gateway :: "carrier \<Rightarrow> carrier \<times> gateway option" where
  "carrier_select_gateway c =
     (if cr_num_gateways c > 0
      then (c\<lparr>cr_next_gateway := (cr_next_gateway c + 1) mod cr_num_gateways c\<rparr>,
            cr_gateway c ! cr_next_gateway c)
      else (c, None))"

definition carrier_get_dialstring ::
    "carrier \<Rightarrow> char list \<Rightarrow> nat \<Rightarrow> nat \<Rightarrow> string \<Rightarrow> carrier \<times> char list \<times> switch_status" where
  "carrier_get_dialstring c buf off max_len dial_digits =
     (let (c', gw) = carrier_select_gateway c
      in case gw of
           Some g \<Rightarrow>
             (let (buf', st) = gateway_get_dialstring g buf off max_len dial_digits in (c', buf', st))
         | None \<Rightarrow> (c', buf, SWITCH_STATUS_FALSE))"

subsection \<open>The database\<close>

definition lcr_create :: "int \<Rightarrow> bool \<Rightarrow> bool \<Rightarrow> lcr option" where
  "lcr_create num_carriers pool_ok rwlock_ok =
     (if \<not> pool_ok then None
      else if \<not> rwlock_ok then None
      else Some \<lparr>lcr_inter_trie = route_trie_create (word_of_int num_carriers),
                 lcr_intra_trie = route_trie_create (word_of_int num_carriers),
                 lcr_areas = route_trie_create 1,
                 lcr_inter_areas = route_trie_create (word_of_int num_carriers),
                 lcr_carriers = replicate (MAX_CARRIERS + 1) None,
                 lcr_num_carriers = num_carriers,
                 lcr_max_routes = DEFAULT_MAX_ROUTES,
                 lcr_areas_caller_id_strip = 0,
                 lcr_areas_caller_id_prefix = [],
                 lcr_areas_dest_strip = 1,
                 lcr_areas_dest_prefix = []\<rparr>)"

definition lcr_set_max_routes :: "lcr \<Rightarrow> int \<Rightarrow> lcr" where
  "lcr_set_max_routes db max_routes =
     (if max_routes \<ge> MAX_ROUTES then db\<lparr>lcr_max_routes := MAX_ROUTES\<rparr>
      else if max_routes \<ge> 1 then db\<lparr>lcr_max_routes := max_routes\<rparr>
      else db)"

definition lcr_find_area :: "fs_api \<Rightarrow> lcr \<Rightarrow> string option \<Rightarrow> int" where
  "lcr_find_area api db lookup_number =
     (if fs_zstr api lookup_number then - 1
      else let (result, n) = route_trie_find (lcr_areas db) lookup_number (route_array_create 1)
           in if n \<noteq> 0
              then (case route_array_get_route result 0 of
                      None \<Rightarrow> - 1
                    | Some r \<Rightarrow> uint (route_get_value r))
              else - 1)"

text \<open>
  The comparison \<open>strip >= strlen(s)\<close> is made on \<open>size_t\<close>, where a negative strip is larger
  than every length; the disjunct \<open>strip < 0\<close> that follows therefore changes nothing.
\<close>

definition lcr_strippable :: "fs_api \<Rightarrow> string option \<Rightarrow> int \<Rightarrow> bool" where
  "lcr_strippable api s strip \<longleftrightarrow>
     \<not> (fs_zstr api s \<or> strip < 0 \<or> strip \<ge> int (length (cstr_of s)))"

definition lcr_rewrite :: "fs_api \<Rightarrow> string \<Rightarrow> int \<Rightarrow> string \<Rightarrow> string" where
  "lcr_rewrite api s strip pfx =
     (let t = drop (nat strip) s in if \<not> fs_zstr api (Some pfx) then pfx @ t else t)"

definition lcr_is_inter_area :: "fs_api \<Rightarrow> lcr \<Rightarrow> string option \<Rightarrow> string option \<Rightarrow> bool" where
  "lcr_is_inter_area api db caller_id dest_number =
     (if \<not> lcr_strippable api caller_id (lcr_areas_caller_id_strip db) then False
      else if \<not> lcr_strippable api dest_number (lcr_areas_dest_strip db) then False
      else let cid = lcr_rewrite api (cstr_of caller_id) (lcr_areas_caller_id_strip db)
                       (lcr_areas_caller_id_prefix db);
               dst = lcr_rewrite api (cstr_of dest_number) (lcr_areas_dest_strip db)
                       (lcr_areas_dest_prefix db);
               src_area = lcr_find_area api db (Some cid);
               dest_area = lcr_find_area api db (Some dst)
           in src_area \<ge> 0 \<and> dest_area \<ge> 0 \<and> src_area \<noteq> dest_area)"

definition strip_plus :: "string \<Rightarrow> string" where
  "strip_plus s = (case s of c # cs \<Rightarrow> if c = CHR ''+'' then cs else s | [] \<Rightarrow> [])"

text \<open>The mixed case of \<open>lcr_find\<close>: some of the carriers treat the caller as inter-area.\<close>

definition lcr_find_mixed ::
    "lcr \<Rightarrow> string option \<Rightarrow> string \<Rightarrow> int \<Rightarrow> route_array \<Rightarrow> route_array" where
  "lcr_find_mixed db caller_id dest_number num_inter_carriers results =
     (let inter_carriers = fst (route_trie_find (lcr_inter_areas db) caller_id
            (route_array_create (word_of_int num_inter_carriers)));
          (intra_results, n1) = route_trie_find (lcr_intra_trie db) (Some dest_number)
            (route_array_create (word_of_int (lcr_num_carriers db)));
          results1 = route_array_add_all results
            (filter (\<lambda>r. route_get_type r = 0 \<and>
                         \<not> route_array_contains inter_carriers (route_get_value r))
               (take (unat n1) (ra_route intra_results)));
          (inter_results, n2) = route_trie_find (lcr_inter_trie db) (Some dest_number)
            (route_array_create (word_of_int (lcr_num_carriers db)))
      in route_array_add_all results1
            (filter (\<lambda>r. route_get_type r \<noteq> 0 \<and>
                         route_array_contains inter_carriers (route_get_value r))
               (take (unat n2) (ra_route inter_results))))"

definition lcr_find ::
    "fs_api \<Rightarrow> lcr \<Rightarrow> string option \<Rightarrow> string option \<Rightarrow> route_array \<Rightarrow> route_array \<times> route_size_t"
  where
  "lcr_find api db caller_id dest_number results =
     (if fs_zstr api dest_number then (results, 0)
      else let dest = strip_plus (cstr_of dest_number);
               cid = (if fs_zstr api caller_id then caller_id
                      else Some (strip_plus (cstr_of caller_id)));
               num_inter_carriers = route_trie_find_count (lcr_inter_areas db) cid;
               results' =
                 (if lcr_is_inter_area api db cid (Some dest)
                  then fst (route_trie_find (lcr_inter_trie db) (Some dest) results)
                  else if num_inter_carriers \<ge> lcr_num_carriers db
                  then fst (route_trie_find (lcr_inter_trie db) (Some dest) results)
                  else if num_inter_carriers = 0
                  then fst (route_trie_find (lcr_intra_trie db) (Some dest) results)
                  else lcr_find_mixed db cid dest num_inter_carriers results)
           in (results', route_array_get_size results'))"

subsection \<open>The dial string list\<close>

text \<open>
  \<open>carrier_get_dialstring(lcr->carriers[id], ...)\<close>, with the carrier's round-robin position
  updated in the database.
\<close>

definition lcr_carrier_dialstring ::
    "lcr \<Rightarrow> route_value_t \<Rightarrow> char list \<Rightarrow> nat \<Rightarrow> nat \<Rightarrow> string \<Rightarrow> crash + lcr \<times> char list \<times> switch_status"
  where
  "lcr_carrier_dialstring db carrier_id buf off max_len dial_digits =
     (if length (lcr_carriers db) \<le> unat carrier_id then Inl Out_Of_Bounds
      else case lcr_carriers db ! unat carrier_id of
             None \<Rightarrow> Inl Null_Deref
           | Some c \<Rightarrow>
               (let (c', buf', st) = carrier_get_dialstring c buf off max_len dial_digits
                in Inr (db\<lparr>lcr_carriers := (lcr_carriers db)[unat carrier_id := Some c']\<rparr>, buf', st)))"

fun build_dialstring_rest ::
    "fs_api \<Rightarrow> char list \<Rightarrow> nat \<Rightarrow> char \<Rightarrow> lcr \<Rightarrow> nat \<Rightarrow> route list \<Rightarrow> string
      \<Rightarrow> crash + lcr \<times> char list \<times> switch_status" where
  "build_dialstring_rest api buf buf_len sep db offset [] dial_digits =
     Inr (db, buf, SWITCH_STATUS_SUCCESS)"
| "build_dialstring_rest api buf buf_len sep db offset (r # rs) dial_digits =
     (let offset1 = offset + buf_strlen buf offset
      in if size_t_minus buf_len offset1 > 0
         then (let buf1 = buf[offset1 := sep];
                   offset2 = offset1 + 1
               in case lcr_carrier_dialstring db (route_get_value r) buf1 offset2
                         (size_t_minus buf_len offset2) dial_digits of
                    Inl e \<Rightarrow> Inl e
                  | Inr (db', buf2, st) \<Rightarrow>
                      (if fs_status_num api st > size_t_minus buf_len offset2
                       then Inr (db', buf2, SWITCH_STATUS_FALSE)
                       else build_dialstring_rest api buf2 buf_len sep db' offset2 rs dial_digits))
         else Inr (db, buf, SWITCH_STATUS_FALSE))"

definition build_dialstring_list ::
    "fs_api \<Rightarrow> char list \<Rightarrow> nat \<Rightarrow> char \<Rightarrow> lcr \<Rightarrow> route_array \<Rightarrow> string
      \<Rightarrow> crash + lcr \<times> char list \<times> switch_status" where
  "build_dialstring_list api buf buf_len sep db routes dial_digits =
     (case route_array_get_route routes 0 of
        None \<Rightarrow> Inl Null_Deref
      | Some r \<Rightarrow>
          (case lcr_carrier_dialstring db (route_get_value r) buf 0 buf_len dial_digits of
             Inl e \<Rightarrow> Inl e
           | Inr (db', buf', st) \<Rightarrow>
               (if fs_status_num api st > buf_len then Inr (db', buf', SWITCH_STATUS_FALSE)
                else build_dialstring_rest api buf' buf_len sep db' 0 (drop 1 (ra_live routes))
                       dial_digits)))"

subsection \<open>Looking up a call\<close>

datatype dialplan_action = Redirect string | Respond string

text \<open>
  \<open>simple_lcr_dialplan_redirect\<close>: \<open>ext_ok\<close> says whether the extension could be allocated,
  \<open>stack\<close> is the content of the uninitialised buffer \<open>routes_str\<close>, and \<open>None\<close> as the action
  is a \<open>NULL\<close> extension.  The database pointer is \<open>NULL\<close> when no configuration was ever
  loaded.
\<close>

definition simple_lcr_dialplan_redirect ::
    "fs_api \<Rightarrow> lcr option \<Rightarrow> string option \<Rightarrow> string option \<Rightarrow> bool \<Rightarrow> char list
      \<Rightarrow> crash + lcr option \<times> dialplan_action option" where
  "simple_lcr_dialplan_redirect api globals_lcr destination_number caller_id_number ext_ok stack =
     (if \<not> ext_ok then Inr (globals_lcr, None)
      else let lookup_number = (if fs_zstr api destination_number then []
                                else strip_plus (cstr_of destination_number));
               caller_id = (if fs_zstr api caller_id_number then []
                            else strip_plus (cstr_of caller_id_number))
           in case globals_lcr of
                None \<Rightarrow> Inl Null_Deref
              | Some db \<Rightarrow>
                  (let (results, n) = lcr_find api db (Some caller_id) (Some lookup_number)
                         (route_array_create (word_of_int (lcr_max_routes db)))
                   in if n \<noteq> 0
                      then (case build_dialstring_list api (stack[1023 := NUL]) 1023 CHR '','' db results
                                   (cstr_of destination_number) of
                              Inl e \<Rightarrow> Inl e
                            | Inr (db', routes_str, st) \<Rightarrow>
                                (if st \<noteq> SWITCH_STATUS_SUCCESS then Inr (Some db', None)
                                 else Inr (Some db', Some (Redirect (buf_string routes_str 0)))))
                      else Inr (Some db, Some (Respond ''404 No route found''))))"

text \<open>
  The rows \<open>simple_lcr_function\<close> prints for the routes of a successful search: carrier name,
  type, cost and dial string (cut at 254 characters by the buffer of 255) of every gateway.
  The loop reads \<open>gateway[MAX_GATEWAYS]\<close>, one element past the array, before it compares the
  index with the bound; whatever it reads there, the loop ends.
\<close>

fun gateway_rows :: "carrier \<Rightarrow> route \<Rightarrow> string \<Rightarrow> gateway option list
    \<Rightarrow> (string \<times> string \<times> route_cost_t \<times> string) list" where
  "gateway_rows c r dest (Some g # gs) =
     (cr_name c, if route_get_type r \<noteq> 0 then ''inter'' else ''intra'', route_get_cost r,
      buf_string (fst (gateway_get_dialstring g (replicate 256 NUL) 0 255 dest)) 0)
     # gateway_rows c r dest gs"
| "gateway_rows c r dest _ = []"

fun route_rows :: "lcr \<Rightarrow> string \<Rightarrow> route list
    \<Rightarrow> crash + (string \<times> string \<times> route_cost_t \<times> string) list" where
  "route_rows db dest [] = Inr []"
| "route_rows db dest (r # rs) =
     (if length (lcr_carriers db) \<le> unat (route_get_value r) then Inl Out_Of_Bounds
      else case lcr_carriers db ! unat (route_get_value r) of
             None \<Rightarrow> Inl Null_Deref
           | Some c \<Rightarrow>
               (case route_rows db dest rs of
                  Inl e \<Rightarrow> Inl e
                | Inr rows \<Rightarrow> Inr (gateway_rows c r dest (cr_gateway c) @ rows)))"

datatype api_reply = Not_From_Dialplan | Usage | Memory_Error | No_Match
  | Routes bool "(string \<times> string \<times> route_cost_t \<times> string) list"

definition simple_lcr_function ::
    "fs_api \<Rightarrow> lcr option \<Rightarrow> bool \<Rightarrow> bool \<Rightarrow> string option \<Rightarrow> crash + api_reply" where
  "simple_lcr_function api globals_lcr in_session strdup_ok cmd =
     (if in_session then Inr Not_From_Dialplan
      else if fs_zstr api cmd then Inr Usage
      else if \<not> strdup_ok then Inr Memory_Error
      else let argv = fs_separate_string api (cstr_of cmd) CHR '' '' 4
           in if length argv > 1
              then (case globals_lcr of
                      None \<Rightarrow> Inl Null_Deref
                    | Some db \<Rightarrow>
                        (let csv = (length argv > 2 \<and> c_strcaseeq ''csv'' (argv ! 2));
                             (results, n) = lcr_find api db (Some (argv ! 0)) (Some (argv ! 1))
                               (route_array_create (word_of_int (lcr_num_carriers db)))
                         in if n = 0 then Inr No_Match
                            else (case route_rows db (argv ! 1) (take (unat n) (ra_route results)) of
                                    Inl e \<Rightarrow> Inl e
                                  | Inr rows \<Rightarrow> Inr (Routes csv rows))))
              else Inr Usage)"

subsection \<open>Round robin\<close>

definition carrier_inv :: "carrier \<Rightarrow> bool" where
  "carrier_inv c \<longleftrightarrow> length (cr_gateway c) = MAX_GATEWAYS \<and> cr_num_gateways c \<le> MAX_GATEWAYS \<and>
     (\<forall>i < MAX_GATEWAYS. (cr_gateway c ! i \<noteq> None) = (i < cr_num_gateways c)) \<and>
     (if cr_num_gateways c = 0 then cr_next_gateway c = 0
      else cr_next_gateway c < cr_num_gateways c)"

lemma carrier_inv_create [inv_intros]: "carrier_create name i ok = Some c \<Longrightarrow> carrier_inv c"
  by (auto simp: carrier_create_def carrier_inv_def MAX_GATEWAYS_def split: if_splits)

lemma carrier_inv_add_gateway [inv_intros]:
  "carrier_inv c \<Longrightarrow> carrier_inv (fst (carrier_add_gateway c p s))"
  by (auto simp: carrier_add_gateway_def carrier_inv_def nth_list_update less_Suc_eq)

lemma carrier_inv_select [inv_intros]:
  "carrier_inv c \<Longrightarrow> carrier_inv (fst (carrier_select_gateway c))"
  by (auto simp: carrier_select_gateway_def carrier_inv_def)

lemma carrier_select_frame [simp]:
  "cr_num_gateways (fst (carrier_select_gateway c)) = cr_num_gateways c"
  "cr_gateway (fst (carrier_select_gateway c)) = cr_gateway c"
  by (simp_all add: carrier_select_gateway_def)

lemma carrier_select_some:
  "carrier_inv c \<Longrightarrow> 0 < cr_num_gateways c \<Longrightarrow>
   \<exists>g. snd (carrier_select_gateway c) = Some g \<and> Some g \<in> set (take (cr_num_gateways c) (cr_gateway c))"
proof -
  assume inv: "carrier_inv c" and pos: "0 < cr_num_gateways c"
  then have n: "cr_next_gateway c < cr_num_gateways c" "cr_num_gateways c \<le> length (cr_gateway c)"
    by (auto simp: carrier_inv_def)
  with inv have "cr_gateway c ! cr_next_gateway c \<noteq> None"
    by (auto simp: carrier_inv_def)
  then obtain g where g: "cr_gateway c ! cr_next_gateway c = Some g" by auto
  moreover have "cr_gateway c ! cr_next_gateway c \<in> set (take (cr_num_gateways c) (cr_gateway c))"
    using n by (metis in_set_conv_nth length_take min_absorb2 nth_take)
  ultimately show ?thesis using pos by (auto simp: carrier_select_gateway_def)
qed

fun select_many :: "nat \<Rightarrow> carrier \<Rightarrow> gateway option list" where
  "select_many 0 c = []"
| "select_many (Suc k) c =
     (let (c', g) = carrier_select_gateway c in g # select_many k c')"

lemma select_many_eq:
  assumes "0 < cr_num_gateways c" "cr_next_gateway c < cr_num_gateways c"
  shows "select_many k c =
    map (\<lambda>j. cr_gateway c ! ((cr_next_gateway c + j) mod cr_num_gateways c)) [0..<k]"
  using assms
proof (induction k arbitrary: c)
  case (Suc k)
  let ?c = "fst (carrier_select_gateway c)"
  have c: "cr_next_gateway ?c = (cr_next_gateway c + 1) mod cr_num_gateways c"
    "cr_num_gateways ?c = cr_num_gateways c" "cr_gateway ?c = cr_gateway c"
    "snd (carrier_select_gateway c) = cr_gateway c ! cr_next_gateway c"
    using Suc.prems by (simp_all add: carrier_select_gateway_def)
  have "select_many k ?c = map (\<lambda>j. cr_gateway c !
      (((cr_next_gateway c + 1) mod cr_num_gateways c + j) mod cr_num_gateways c)) [0..<k]"
    using Suc.IH [of ?c] Suc.prems c by simp
  also have "\<dots> = map (\<lambda>j. cr_gateway c ! ((cr_next_gateway c + Suc j) mod cr_num_gateways c)) [0..<k]"
    by (simp add: mod_add_left_eq)
  also have "\<dots> = map (\<lambda>j. cr_gateway c ! ((cr_next_gateway c + j) mod cr_num_gateways c))
      (map Suc [0..<k])"
    by (simp add: comp_def)
  also have "map Suc [0..<k] = [1..<Suc k]"
    by (simp add: map_Suc_upt del: upt_Suc)
  finally show ?case
    using Suc.prems c by (simp add: case_prod_unfold upt_conv_Cons del: upt_Suc)
qed simp

lemma rotation_bij:
  assumes "0 < (n::nat)"
  shows "bij_betw (\<lambda>j. (a + j) mod n) {..<n} {..<n}"
proof -
  have "inj_on (\<lambda>j. (a + j) mod n) {..<n}"
  proof (rule inj_onI)
    have le: "j \<le> i" if "j < n" "(a + i) mod n = (a + j) mod n" for i j
    proof (rule ccontr)
      assume "\<not> j \<le> i"
      then have "n dvd a + j - (a + i)" 
        using that(2) mod_eq_dvd_iff_nat [of "a + i" "a + j" n] by simp
      with \<open>\<not> j \<le> i\<close> that(1) show False by (auto dest: dvd_imp_le)
    qed
    fix i j assume "i \<in> {..<n}" "j \<in> {..<n}" "(a + i) mod n = (a + j) mod n"
    then show "i = j" using le [of i j] le [of j i] by simp
  qed
  moreover have "(\<lambda>j. (a + j) mod n) ` {..<n} \<subseteq> {..<n}" using assms by auto
  ultimately show ?thesis
    by (simp add: bij_betw_def endo_inj_surj)
qed

lemma select_many_round:
  assumes inv: "carrier_inv c" and pos: "0 < cr_num_gateways c"
  shows "set (select_many (cr_num_gateways c) c) = set (take (cr_num_gateways c) (cr_gateway c))"
proof -
  let ?n = "cr_num_gateways c" and ?g = "\<lambda>j. cr_gateway c ! j"
  have n: "cr_next_gateway c < ?n" "?n \<le> length (cr_gateway c)"
    using inv pos by (auto simp: carrier_inv_def)
  have "set (select_many ?n c) = ?g ` ((\<lambda>j. (cr_next_gateway c + j) mod ?n) ` {..<?n})"
    using select_many_eq [OF pos n(1)] by (auto simp: image_image lessThan_atLeast0)
  also have "(\<lambda>j. (cr_next_gateway c + j) mod ?n) ` {..<?n} = {..<?n}"
    using rotation_bij [OF pos] by (simp add: bij_betw_def)
  also have "?g ` {..<?n} = set (take ?n (cr_gateway c))"
    using n(2) by (simp add: lessThan_atLeast0 nth_image)
  finally show ?thesis .
qed

subsection \<open>The area of a number\<close>

definition zero_cost :: "route list \<Rightarrow> bool" where
  "zero_cost rs \<longleftrightarrow> (\<forall>r \<in> set rs. rt_cost r = 0)"

lemma single_slot_add:
  assumes rep: "ra_rep a [r0]" and size: "ra_max a = 1" "ra_size a = 1"
    and r: "rt_cost r0 = 0" "rt_cost r = 0" "rt_value r \<noteq> 0"
  shows "ra_rep (route_array_add a r) [r0] \<and> ra_size (route_array_add a r) = 1"
  using rep r(3)
proof (cases rule: route_array_add_cases)
  case (dearer i)
  with size r show ?thesis by simp
next
  case (replaced i)
  then have i: "i = 0" using size by simp
  have "unat (ra_size (route_array_remove a (int i))) = 0"
    using route_array_remove_rep(2) [OF rep replaced(1)] size by simp
  then have "ra_size (route_array_add a r) = 1"
    using size by (simp add: replaced(4) route_array_insert_def Let_def unat_eq_zero)
  moreover have "shift_out i (unat (ra_size a)) [r0] = [r0]"
    using i size by (simp add: shift_out_def)
  ultimately show ?thesis using replaced(5) size r by (simp add: ins_cost_Cons)
next
  case fresh
  have "ra_size (route_array_add a r) = 1"
    using size by (simp add: fresh(2) route_array_insert_def Let_def)
  with fresh(3) size r show ?thesis by (simp add: ins_cost_Cons)
qed

lemma single_slot_add_all:
  "ra_rep a [r0] \<Longrightarrow> ra_max a = 1 \<Longrightarrow> ra_size a = 1 \<Longrightarrow> rt_cost r0 = 0 \<Longrightarrow>
   zero_cost rs \<Longrightarrow> occupied rs \<Longrightarrow>
   ra_rep (route_array_add_all a rs) [r0] \<and> ra_size (route_array_add_all a rs) = 1"
proof (induction rs arbitrary: a)
  case (Cons r rs)
  then have "ra_rep (route_array_add a r) [r0] \<and> ra_size (route_array_add a r) = 1"
    by (intro single_slot_add) (auto simp: zero_cost_def)
  with Cons show ?case by (simp add: zero_cost_def)
qed simp

text \<open>With a single slot and equal costs, the route that came first stays.\<close>

lemma single_slot_first:
  assumes "zero_cost rs" "occupied rs"
  shows "ra_live (route_array_add_all (route_array_create 1) rs) = take 1 rs"
    and "ra_size (route_array_add_all (route_array_create 1) rs) = (if rs = [] then 0 else 1)"
proof -
  have *: "ra_rep (route_array_add_all (route_array_create 1) (r # rs')) [r] \<and>
      ra_size (route_array_add_all (route_array_create 1) (r # rs')) = 1"
    if rs: "rs = r # rs'" for r rs'
  proof -
    have kc: "keeps_cheapest (route_array_add (route_array_create 1) r) ([] @ [r])"
      using assms rs by (intro keeps_cheapest_add keeps_cheapest_create) simp_all
    then have "ra_rep (route_array_add (route_array_create 1) r) [r]"
      "ra_size (route_array_add (route_array_create 1) r) = 1"
      by (simp_all add: keeps_cheapest_def word_unat_eq_iff)
    with assms rs show ?thesis
      using single_slot_add_all [of "route_array_add (route_array_create 1) r" r rs']
      by (simp add: zero_cost_def)
  qed
  show "ra_live (route_array_add_all (route_array_create 1) rs) = take 1 rs"
  proof (cases rs)
    case (Cons r rs')
    then have "ra_rep (route_array_add_all (route_array_create 1) rs) [r]"
      "ra_size (route_array_add_all (route_array_create 1) rs) = 1" using * by blast+
    with ra_rep_live [OF this(1)] show ?thesis by (simp add: Cons del: route_array_add_all_simps)
  qed (simp add: ra_live_def route_array_create_def)
  show "ra_size (route_array_add_all (route_array_create 1) rs) = (if rs = [] then 0 else 1)"
    using * by (cases rs) (auto simp: route_array_create_def)
qed

definition first_area :: "(string \<times> route) list \<Rightarrow> string \<Rightarrow> int" where
  "first_area es s = (case concat (map (entries_at es) (prefixes s)) of
     [] \<Rightarrow> - 1 | r # _ \<Rightarrow> uint (rt_value r))"

lemma concat_take_1:
  "take 1 (concat (map (\<lambda>x. take 1 (f x)) xs)) = take 1 (concat (map f xs))"
proof (induction xs)
  case (Cons x xs)
  then show ?case by (cases "f x") auto
qed simp

lemma routes_at_area:
  assumes "occupied (map snd es)" "zero_cost (map snd es)" "list_all is_digit_char p"
  shows "routes_at (tr_root (trie_load (route_trie_create 1) es)) p = take 1 (entries_at es p)"
proof -
  have "zero_cost (entries_at es p)" "occupied (entries_at es p)"
    using assms by (auto simp: zero_cost_def entries_at_def occupied_def)
  with trie_load_at [OF assms(1,3), of 1] show ?thesis
    by (simp add: routes_at_def trie_at_def single_slot_first)
qed

text \<open>
  An area file gives a number the area of its shortest matching prefix, and of the first
  line with that prefix; longer prefixes are not preferred.
\<close>

lemma lcr_find_area_first:
  assumes "zstr_documented api" "s \<noteq> []" "list_all is_digit_char s"
    and "occupied (map snd es)" "zero_cost (map snd es)"
    and "lcr_areas db = trie_load (route_trie_create 1) es"
  shows "lcr_find_area api db (Some s) = first_area es s"
proof -
  let ?root = "tr_root (trie_load (route_trie_create 1) es)"
  let ?rs = "matching_routes ?root s"
  let ?a = "route_array_add_all (route_array_create 1) ?rs"
  have at: "routes_at ?root p = take 1 (entries_at es p)" if "p \<in> set (prefixes s)" for p
    using that prefix_digits assms(3) by (intro routes_at_area assms(4,5)) auto
  have rs: "?rs = concat (map (\<lambda>p. take 1 (entries_at es p)) (prefixes s))"
    unfolding matching_routes_def by (intro arg_cong [where f = concat] map_cong refl at)
  then have "set ?rs \<subseteq> snd ` set es"
    by (auto simp: entries_at_def dest!: in_set_takeD)
  with assms(4,5) have "zero_cost ?rs" "occupied ?rs"
    by (auto simp: zero_cost_def occupied_def)
  note single = single_slot_first [OF this]
  have find: "route_trie_find (lcr_areas db) (Some s) (route_array_create 1) = (?a, ra_size ?a)"
    using assms(3,6) by (simp add: route_trie_find_def cstr_of_def route_trie_node_find_digits Let_def)
  have get: "route_array_get_route ?a 0 = (if ?rs = [] then None else Some (hd ?rs))"
  proof (cases ?rs)
    case (Cons r rs')
    with single have live: "ra_live ?a = [r]" "ra_size ?a = 1" by auto
    then have "ra_route ?a ! 0 = r" by (cases "ra_route ?a") (auto simp: ra_live_def)
    with live(2) Cons show ?thesis by (simp add: route_array_get_route_def)
  qed (use single(2) in \<open>simp add: route_array_get_route_def\<close>)
  have "take 1 ?rs = take 1 (concat (map (entries_at es) (prefixes s)))"
    unfolding rs by (rule concat_take_1)
  then have "first_area es s = (case ?rs of [] \<Rightarrow> - 1 | r # _ \<Rightarrow> uint (rt_value r))"
    unfolding first_area_def
    by (cases ?rs; cases "concat (map (entries_at es) (prefixes s))")
      (simp_all del: concat_eq_Nil_conv)
  with assms(1,2) find get single(2) show ?thesis
    by (cases ?rs) (auto simp: lcr_find_area_def zstr_documented_def route_get_value_def)
qed

subsection \<open>The three routing modes\<close>

lemma lcr_set_max_routes_range:
  "1 \<le> lcr_max_routes db \<Longrightarrow> lcr_max_routes db \<le> MAX_ROUTES \<Longrightarrow>
   1 \<le> lcr_max_routes (lcr_set_max_routes db n) \<and>
   lcr_max_routes (lcr_set_max_routes db n) \<le> MAX_ROUTES"
  by (simp add: lcr_set_max_routes_def MAX_ROUTES_def)

lemma strip_plus_digits: "list_all is_digit_char s \<Longrightarrow> strip_plus s = s"
  by (cases s) (auto simp: strip_plus_def is_digit_char_def digit_index_def char_int_def)

lemma lcr_find_intra:
  assumes "\<not> fs_zstr api (Some dest)" "\<not> fs_zstr api (Some cid)"
    and "\<not> lcr_is_inter_area api db (Some (strip_plus cid)) (Some (strip_plus dest))"
    and "route_trie_find_count (lcr_inter_areas db) (Some (strip_plus cid)) = 0"
    and "0 < lcr_num_carriers db"
  shows "lcr_find api db (Some cid) (Some dest) results =
    (let a = fst (route_trie_find (lcr_intra_trie db) (Some (strip_plus dest)) results)
     in (a, ra_size a))"
  using assms by (simp add: lcr_find_def cstr_of_def route_array_get_size_def Let_def)

lemma lcr_find_inter:
  assumes "\<not> fs_zstr api (Some dest)" "\<not> fs_zstr api (Some cid)"
    and "lcr_is_inter_area api db (Some (strip_plus cid)) (Some (strip_plus dest)) \<or>
      route_trie_find_count (lcr_inter_areas db) (Some (strip_plus cid)) \<ge> lcr_num_carriers db"
  shows "lcr_find api db (Some cid) (Some dest) results =
    (let a = fst (route_trie_find (lcr_inter_trie db) (Some (strip_plus dest)) results)
     in (a, ra_size a))"
  using assms by (auto simp: lcr_find_def cstr_of_def route_array_get_size_def Let_def)

subsection \<open>Assembling the dial string\<close>

text \<open>
  What the dial string should be: for every route in turn, the number wrapped by the next
  gateway of the route's carrier.
\<close>

fun dial_strings :: "lcr \<Rightarrow> route list \<Rightarrow> string \<Rightarrow> lcr \<times> string list" where
  "dial_strings db [] dial_digits = (db, [])"
| "dial_strings db (r # rs) dial_digits =
     (case lcr_carriers db ! unat (rt_value r) of
        None \<Rightarrow> (db, [])
      | Some c \<Rightarrow>
          (let (c', gw) = carrier_select_gateway c;
               g = the gw;
               db1 = db\<lparr>lcr_carriers := (lcr_carriers db)[unat (rt_value r) := Some c']\<rparr>;
               (db', ss) = dial_strings db1 rs dial_digits
           in (db', (gw_prefix g @ dial_digits @ gw_suffix g) # ss)))"

definition dialable :: "carrier option list \<Rightarrow> route \<Rightarrow> bool" where
  "dialable cs r \<longleftrightarrow> unat (rt_value r) < length cs \<and>
     (case cs ! unat (rt_value r) of None \<Rightarrow> False
      | Some c \<Rightarrow> carrier_inv c \<and> 0 < cr_num_gateways c)"

lemma dialable_select:
  "dialable cs r' \<Longrightarrow> carrier_inv c \<Longrightarrow> 0 < cr_num_gateways c \<Longrightarrow>
   dialable (cs[i := Some (fst (carrier_select_gateway c))]) r'"
  by (cases "i = unat (rt_value r')")
    (auto simp: dialable_def inv_intros split: option.split_asm)

text \<open>A dial string that fits is written whole, NUL included, and reported as a success.\<close>

lemma c_snprintf_fits:
  "length s < n \<Longrightarrow> c_snprintf buf off n s = (buf_write buf off (s @ [NUL]), length s)"
  by (simp add: c_snprintf_def)

lemma buf_string_write:
  "off \<le> length buf \<Longrightarrow> NUL \<notin> set s \<Longrightarrow> buf_string (buf_write buf off (s @ [NUL])) off = s"
  by (subst buf_string_def, subst buf_write_def)
    (simp, subst takeWhile_append2, auto)

lemma carrier_dialstring_fits:
  assumes "dialable (lcr_carriers db) r"
    and "dial_strings db [r] dial_digits = (db', [s])" "length s < max_len"
  shows "lcr_carrier_dialstring db (rt_value r) buf off max_len dial_digits =
    Inr (db', buf_write buf off (s @ [NUL]), SWITCH_STATUS_SUCCESS)"
proof -
  obtain c where c: "lcr_carriers db ! unat (rt_value r) = Some c" "carrier_inv c"
    "0 < cr_num_gateways c" "unat (rt_value r) < length (lcr_carriers db)"
    using assms(1) by (auto simp: dialable_def split: option.splits)
  obtain c' g where g: "carrier_select_gateway c = (c', Some g)"
    using carrier_select_some [OF c(2,3)] by (metis prod.collapse)
  with assms(2) c(1) have s: "s = gw_prefix g @ dial_digits @ gw_suffix g"
    "db' = db\<lparr>lcr_carriers := (lcr_carriers db)[unat (rt_value r) := Some c']\<rparr>"
    by simp_all
  have "gateway_get_dialstring g buf off max_len dial_digits =
      (buf_write buf off (s @ [NUL]), SWITCH_STATUS_SUCCESS)"
    using assms(3) s(1) by (simp add: gateway_get_dialstring_def c_snprintf_def)
  with c(1,4) g s(2) show ?thesis
    by (simp add: lcr_carrier_dialstring_def carrier_get_dialstring_def)
qed

lemma dial_strings_Cons:
  assumes "dialable (lcr_carriers db) r" "dial_strings db (r # rs) d = (db', ss)"
  obtains s ss' db1 where "ss = s # ss'" "dial_strings db [r] d = (db1, [s])"
    "dial_strings db1 rs d = (db', ss')"
    "\<And>r'. dialable (lcr_carriers db) r' \<Longrightarrow> dialable (lcr_carriers db1) r'"
proof -
  obtain c where c: "lcr_carriers db ! unat (rt_value r) = Some c" "carrier_inv c"
    "0 < cr_num_gateways c"
    using assms(1) by (auto simp: dialable_def split: option.splits)
  obtain c' gw where g: "carrier_select_gateway c = (c', gw)" by fastforce
  then have "dialable ((lcr_carriers db)[unat (rt_value r) := Some c']) r'"
    if "dialable (lcr_carriers db) r'" for r'
    using dialable_select [OF that c(2,3), of "unat (rt_value r)"] by simp
  with assms(2) c(1) g that show thesis by (auto simp: Let_def split: prod.splits)
qed

lemma build_dialstring_rest_fits:
  assumes "\<forall>r \<in> set rs. dialable (lcr_carriers db) r"
    and "dial_strings db rs dial_digits = (db', ss)"
    and "\<forall>s \<in> set ss. NUL \<notin> set s" "sep \<noteq> NUL" "status_documented api"
    and "offset + length (s0 @ concat (map ((#) sep) ss)) < buf_len"
    and "buf_len \<le> length buf" "buf_len < 2 ^ 64" "buf_string buf offset = s0"
  shows "\<exists>buf'. build_dialstring_rest api buf buf_len sep db offset rs dial_digits =
      Inr (db', buf', SWITCH_STATUS_SUCCESS) \<and> length buf' = length buf \<and>
    take (offset + length s0) buf' = take (offset + length s0) buf \<and>
    buf_string buf' offset = s0 @ concat (map ((#) sep) ss)"
  using assms
proof (induction rs arbitrary: db ss buf offset s0)
  case (Cons r rs)
  from Cons.prems(1) have r: "dialable (lcr_carriers db) r" by simp
  obtain s ss' db1 where ss: "ss = s # ss'" and one: "dial_strings db [r] dial_digits = (db1, [s])"
    and rest: "dial_strings db1 rs dial_digits = (db', ss')"
    and keep: "\<And>r'. dialable (lcr_carriers db) r' \<Longrightarrow> dialable (lcr_carriers db1) r'"
    using dial_strings_Cons [OF r Cons.prems(2)] by metis
  let ?o1 = "offset + length s0"
  let ?o2 = "Suc ?o1"
  let ?buf1 = "buf[?o1 := sep]"
  let ?buf2 = "buf_write ?buf1 ?o2 (s @ [NUL])"
  have room: "?o2 + length s + length (concat (map ((#) sep) ss')) < buf_len"
    using Cons.prems(6) ss by simp
  have o1: "offset + buf_strlen buf offset = ?o1"
    using Cons.prems(9) by (simp add: buf_strlen_string)
  have len1: "size_t_minus buf_len ?o1 = buf_len - ?o1" "size_t_minus buf_len ?o2 = buf_len - ?o2"
    using room Cons.prems(8) by (simp_all add: size_t_minus_le)
  have dial: "lcr_carrier_dialstring db (rt_value r) ?buf1 ?o2 (buf_len - ?o2) dial_digits =
      Inr (db1, ?buf2, SWITCH_STATUS_SUCCESS)"
    using room by (intro carrier_dialstring_fits [OF r one]) simp
  have length2: "length ?buf2 = length buf"
    using room Cons.prems(7) by (subst length_buf_write) simp_all
  have str2: "buf_string ?buf2 ?o2 = s"
    using room Cons.prems(3,7) ss by (intro buf_string_write) simp_all
  have "\<exists>buf'. build_dialstring_rest api ?buf2 buf_len sep db1 ?o2 rs dial_digits =
      Inr (db', buf', SWITCH_STATUS_SUCCESS) \<and> length buf' = length ?buf2 \<and>
    take (?o2 + length s) buf' = take (?o2 + length s) ?buf2 \<and>
    buf_string buf' ?o2 = s @ concat (map ((#) sep) ss')"
    using Cons.prems(1,3,4,5,7,8) ss rest keep room length2 str2
    by (intro Cons.IH) auto
  then obtain buf' where buf': "build_dialstring_rest api ?buf2 buf_len sep db1 ?o2 rs dial_digits =
      Inr (db', buf', SWITCH_STATUS_SUCCESS)" "length buf' = length ?buf2"
    "take (?o2 + length s) buf' = take (?o2 + length s) ?buf2"
    "buf_string buf' ?o2 = s @ concat (map ((#) sep) ss')" by blast
  have pre: "take ?o2 buf' = take ?o1 buf @ [sep]"
  proof -
    have "take ?o2 buf' = take ?o2 (take (?o2 + length s) buf')" by simp
    also have "\<dots> = take ?o2 ?buf2" by (simp only: buf'(3) take_take) simp
    also have "\<dots> = take ?o2 ?buf1"
      using room Cons.prems(7) by (simp add: buf_write_def)
    also have "\<dots> = take ?o1 buf @ [sep]"
      using room Cons.prems(7) by (simp add: take_Suc_conv_app_nth)
    finally show ?thesis .
  qed
  have "drop offset buf' = drop offset (take ?o2 buf') @ drop ?o2 buf'"
    by (metis add_Suc_right append_take_drop_id drop_append drop_eq_Nil diff_is_0_eq' drop0
        length_take min.absorb2 le_add1 length2 buf'(2) room Cons.prems(7) order.strict_implies_order
        add_leD1 order.trans)
  also have "drop offset (take ?o2 buf') = s0 @ [sep]"
  proof -
    have "take (length s0) (drop offset buf) = s0"
      using Cons.prems(9) unfolding buf_string_def by (metis takeWhile_eq_take)
    then show ?thesis using room Cons.prems(7) by (simp add: pre drop_take)
  qed
  finally have split: "drop offset buf' = (s0 @ [sep]) @ drop ?o2 buf'" .
  have "NUL \<notin> set s0" using Cons.prems(9) unfolding buf_string_def by (auto dest: set_takeWhileD)
  then have "buf_string buf' offset = (s0 @ [sep]) @ buf_string buf' ?o2"
    unfolding buf_string_def split using Cons.prems(4) by (subst takeWhile_append2) auto
  then have "buf_string buf' offset = s0 @ concat (map ((#) sep) ss)"
    using buf'(4) ss by simp
  moreover have "take ?o1 buf' = take ?o1 buf"
  proof -
    have "take ?o1 buf' = take ?o1 (take ?o2 buf')" by simp
    then show ?thesis using room Cons.prems(7) by (simp add: pre)
  qed
  ultimately show ?case
    using buf'(1,2) dial room Cons.prems(5) length2
    by (auto simp: Let_def o1 len1 route_get_value_def status_documented_def)
qed simp

text \<open>
  The strings fit when every gateway wraps the number in at most 126 characters, none of
  them NUL: eight of them and their separators stay below the 1023 of \<open>routes_str\<close>.
\<close>

definition short_gateway :: "string \<Rightarrow> gateway \<Rightarrow> bool" where
  "short_gateway d g \<longleftrightarrow> length (gw_prefix g @ d @ gw_suffix g) \<le> 126 \<and>
     NUL \<notin> set (gw_prefix g @ d @ gw_suffix g)"

definition short_gateways :: "string \<Rightarrow> carrier option list \<Rightarrow> bool" where
  "short_gateways d cs \<longleftrightarrow>
     (\<forall>c. Some c \<in> set cs \<longrightarrow> (\<forall>g. Some g \<in> set (cr_gateway c) \<longrightarrow> short_gateway d g))"

lemma short_gateways_select:
  assumes "short_gateways d cs" "Some c \<in> set cs"
  shows "short_gateways d (cs[i := Some (fst (carrier_select_gateway c))])"
  unfolding short_gateways_def
proof (intro allI impI)
  fix c' g assume "Some c' \<in> set (cs[i := Some (fst (carrier_select_gateway c))])"
    and g: "Some g \<in> set (cr_gateway c')"
  then consider "Some c' \<in> set cs" | "c' = fst (carrier_select_gateway c)"
    using set_update_subset_insert by fastforce
  then show "short_gateway d g"
    using assms g by cases (auto simp: short_gateways_def)
qed

lemma dial_strings_short:
  assumes "\<forall>r \<in> set rs. dialable (lcr_carriers db) r" "short_gateways d (lcr_carriers db)"
    and "dial_strings db rs d = (db', ss)"
  shows "length ss = length rs" "\<forall>s \<in> set ss. NUL \<notin> set s \<and> length s \<le> 126"
proof -
  have "length ss = length rs \<and> (\<forall>s \<in> set ss. NUL \<notin> set s \<and> length s \<le> 126)"
    using assms
  proof (induction rs arbitrary: db db' ss)
    case (Cons r rs)
    obtain c where c: "lcr_carriers db ! unat (rt_value r) = Some c" "carrier_inv c"
      "0 < cr_num_gateways c" "unat (rt_value r) < length (lcr_carriers db)"
      using Cons.prems(1) by (auto simp: dialable_def split: option.splits)
    obtain c' g where g: "carrier_select_gateway c = (c', Some g)"
      "Some g \<in> set (take (cr_num_gateways c) (cr_gateway c))"
      using carrier_select_some [OF c(2,3)] by (metis prod.collapse)
    have mem: "Some c \<in> set (lcr_carriers db)" using c(1,4) by (metis nth_mem)
    let ?db1 = "db\<lparr>lcr_carriers := (lcr_carriers db)[unat (rt_value r) := Some c']\<rparr>"
    obtain db2 ss' where rest: "dial_strings ?db1 rs d = (db2, ss')" by fastforce
    have keep: "\<forall>r' \<in> set rs. dialable (lcr_carriers ?db1) r'"
      using Cons.prems(1) dialable_select [OF _ c(2,3)] g(1) by simp
    have "short_gateways d (lcr_carriers ?db1)"
      using short_gateways_select [OF Cons.prems(2) mem] g(1) by simp
    from Cons.IH [OF keep this rest]
    have "length ss' = length rs" "\<forall>s \<in> set ss'. NUL \<notin> set s \<and> length s \<le> 126" by auto
    moreover have "short_gateway d g"
      using Cons.prems(2) mem g(2) by (auto simp: short_gateways_def dest: in_set_takeD)
    moreover have "ss = (gw_prefix g @ d @ gw_suffix g) # ss'"
      using Cons.prems(3) c(1) g(1) rest by simp
    ultimately show ?case by (simp add: short_gateway_def)
  qed simp
  then show "length ss = length rs" "\<forall>s \<in> set ss. NUL \<notin> set s \<and> length s \<le> 126" by auto
qed

definition join_strings :: "char \<Rightarrow> string list \<Rightarrow> string" where
  "join_strings sep ss = (case ss of [] \<Rightarrow> [] | s # ss' \<Rightarrow> s @ concat (map ((#) sep) ss'))"

lemma dialstring_list_ok:
  assumes "ra_live routes \<noteq> []" "\<forall>r \<in> set (ra_live routes). dialable (lcr_carriers db) r"
    and "dial_strings db (ra_live routes) d = (db', ss)"
    and "\<forall>s \<in> set ss. NUL \<notin> set s" "sep \<noteq> NUL" "status_documented api"
    and "length (join_strings sep ss) < buf_len" "buf_len \<le> length buf" "buf_len < 2 ^ 64"
  shows "\<exists>buf'. build_dialstring_list api buf buf_len sep db routes d =
      Inr (db', buf', SWITCH_STATUS_SUCCESS) \<and> buf_string buf' 0 = join_strings sep ss"
proof -
  obtain r rs where live: "ra_live routes = r # rs" using assms(1) by (cases "ra_live routes") auto
  then have get: "route_array_get_route routes 0 = Some r"
    by (cases "ra_route routes"; cases "unat (ra_size routes)")
      (auto simp: ra_live_def route_array_get_route_def word_less_nat_alt)
  have r: "dialable (lcr_carriers db) r" using assms(2) live by simp
  obtain s ss' db1 where ss: "ss = s # ss'" and one: "dial_strings db [r] d = (db1, [s])"
    and rest: "dial_strings db1 rs d = (db', ss')"
    and keep: "\<And>r'. dialable (lcr_carriers db) r' \<Longrightarrow> dialable (lcr_carriers db1) r'"
    using dial_strings_Cons [OF r] assms(3) live by metis
  let ?buf = "buf_write buf 0 (s @ [NUL])"
  have len: "length s + length (concat (map ((#) sep) ss')) < buf_len"
    using assms(7) ss by (simp add: join_strings_def)
  have dial: "lcr_carrier_dialstring db (rt_value r) buf 0 buf_len d =
      Inr (db1, ?buf, SWITCH_STATUS_SUCCESS)"
    using len by (intro carrier_dialstring_fits [OF r one]) simp
  have "\<exists>buf'. build_dialstring_rest api ?buf buf_len sep db1 0 rs d =
      Inr (db', buf', SWITCH_STATUS_SUCCESS) \<and> length buf' = length ?buf \<and>
    take (0 + length s) buf' = take (0 + length s) ?buf \<and>
    buf_string buf' 0 = s @ concat (map ((#) sep) ss')"
    using assms(2,4,5,6,8,9) live ss rest keep len
    by (intro build_dialstring_rest_fits) (auto simp: length_buf_write buf_string_write)
  with get dial live ss assms(6) show ?thesis
    by (auto simp: build_dialstring_list_def route_get_value_def status_documented_def
        join_strings_def)
qed

lemma length_concat_le:
  "\<forall>s \<in> set ss. length s \<le> m \<Longrightarrow> length (concat (map ((#) sep) ss)) \<le> Suc m * length ss"
  by (induction ss) auto

lemma short_dialstring_list_ok:
  assumes "ra_live routes \<noteq> []" "length (ra_live routes) \<le> 8"
    and "\<forall>r \<in> set (ra_live routes). dialable (lcr_carriers db) r"
    and "short_gateways d (lcr_carriers db)" "status_documented api"
    and "dial_strings db (ra_live routes) d = (db', ss)" "length buf = 1024"
  shows "\<exists>buf'. build_dialstring_list api buf 1023 CHR '','' db routes d =
      Inr (db', buf', SWITCH_STATUS_SUCCESS) \<and> buf_string buf' 0 = join_strings CHR '','' ss"
proof -
  note short = dial_strings_short [OF assms(3,4,6)]
  have "length (join_strings CHR '','' ss) < 1023"
    using short assms(2) length_concat_le [of "tl ss" 126 "CHR '',''"]
    by (cases ss) (auto simp: join_strings_def)
  then show ?thesis
    using short assms by (intro dialstring_list_ok) (auto simp: NUL_def)
qed

text \<open>A single dial string is never rejected: when it is too long it is cut.\<close>

lemma single_dialstring_cut:
  assumes "ra_live routes = [r]" "dialable (lcr_carriers db) r"
    and "dial_strings db [r] d = (db', [s])" "NUL \<notin> set s" "status_documented api"
    and "0 < buf_len" "buf_len \<le> length buf"
  shows "\<exists>buf'. build_dialstring_list api buf buf_len sep db routes d =
      Inr (db', buf', SWITCH_STATUS_SUCCESS) \<and> buf_string buf' 0 = take (buf_len - 1) s"
proof -
  have get: "route_array_get_route routes 0 = Some r"
    using assms(1) by (cases "ra_route routes"; cases "unat (ra_size routes)")
      (auto simp: ra_live_def route_array_get_route_def word_less_nat_alt)
  obtain c where c: "lcr_carriers db ! unat (rt_value r) = Some c" "carrier_inv c"
    "0 < cr_num_gateways c" "unat (rt_value r) < length (lcr_carriers db)"
    using assms(2) by (auto simp: dialable_def split: option.splits)
  obtain c' g where g: "carrier_select_gateway c = (c', Some g)"
    using carrier_select_some [OF c(2,3)] by (metis prod.collapse)
  let ?buf = "buf_write buf 0 (take (buf_len - 1) s @ [NUL])"
  from assms(3) c(1) g have s: "s = gw_prefix g @ d @ gw_suffix g"
    "db' = db\<lparr>lcr_carriers := (lcr_carriers db)[unat (rt_value r) := Some c']\<rparr>"
    by simp_all
  then have "\<exists>st. lcr_carrier_dialstring db (rt_value r) buf 0 buf_len d = Inr (db', ?buf, st) \<and>
      fs_status_num api st \<le> buf_len"
    using c(1,4) g assms(5,6)
    by (auto simp: lcr_carrier_dialstring_def carrier_get_dialstring_def c_snprintf_def
        gateway_get_dialstring_def status_documented_def)
  moreover have "NUL \<notin> set (take (buf_len - 1) s)" using assms(4) by (auto dest: in_set_takeD)
  then have "buf_string ?buf 0 = take (buf_len - 1) s" by (intro buf_string_write) simp
  ultimately show ?thesis
    using get assms(1) by (auto simp: build_dialstring_list_def route_get_value_def)
qed

subsection \<open>A database that the module can use\<close>

text \<open>
  The first \<open>n\<close> carriers are loaded, and every route stored anywhere names one of them.
\<close>

definition routes_upto :: "nat \<Rightarrow> route set" where
  "routes_upto n = {r. rt_value r \<noteq> 0 \<and> unat (rt_value r) \<le> n}"

definition carriers_upto :: "nat \<Rightarrow> carrier option list \<Rightarrow> bool" where
  "carriers_upto n cs \<longleftrightarrow> length cs = MAX_CARRIERS + 1 \<and> n \<le> MAX_CARRIERS \<and>
     (\<forall>i. 0 < i \<and> i \<le> n \<longrightarrow> (\<exists>c. cs ! i = Some c \<and> carrier_inv c \<and> unat (cr_id c) = i))"

definition lcr_loaded :: "nat \<Rightarrow> lcr \<Rightarrow> bool" where
  "lcr_loaded n db \<longleftrightarrow> carriers_upto n (lcr_carriers db) \<and>
     trie_wf (lcr_inter_trie db) \<and> trie_routes_in (routes_upto n) (lcr_inter_trie db) \<and>
     trie_wf (lcr_intra_trie db) \<and> trie_routes_in (routes_upto n) (lcr_intra_trie db) \<and>
     1 \<le> lcr_max_routes db \<and> lcr_max_routes db \<le> MAX_ROUTES"

lemma carriers_upto_nth:
  "carriers_upto n cs \<Longrightarrow> r \<in> routes_upto n \<Longrightarrow>
   \<exists>c. unat (rt_value r) < length cs \<and> cs ! unat (rt_value r) = Some c \<and> carrier_inv c \<and>
     cr_id c = rt_value r"
proof -
  assume cs: "carriers_upto n cs" and "r \<in> routes_upto n"
  then have r: "0 < unat (rt_value r)" "unat (rt_value r) \<le> n"
    by (simp_all add: routes_upto_def word_neq_0_conv unat_gt_0)
  with cs obtain c where "cs ! unat (rt_value r) = Some c" "carrier_inv c"
    "unat (cr_id c) = unat (rt_value r)"
    unfolding carriers_upto_def by blast
  moreover have "unat (rt_value r) < length cs"
    using cs r unfolding carriers_upto_def by linarith
  ultimately show ?thesis by (metis word_unat_eq_iff)
qed

lemma carrier_select_id [simp]: "cr_id (fst (carrier_select_gateway c)) = cr_id c"
  by (simp add: carrier_select_gateway_def)

lemma carrier_get_dialstring_carrier:
  "fst (carrier_get_dialstring c buf off n d) = fst (carrier_select_gateway c)"
  by (simp add: carrier_get_dialstring_def case_prod_unfold Let_def split: option.split)

lemma carriers_upto_update:
  "carriers_upto n cs \<Longrightarrow> carrier_inv c \<Longrightarrow> unat (cr_id c) = i \<Longrightarrow> carriers_upto n (cs[i := Some c])"
  unfolding carriers_upto_def by (metis length_list_update nth_list_update_eq nth_list_update_neq
      less_add_one order_le_less_trans)

lemma carrier_dialstring_safe:
  assumes "carriers_upto n (lcr_carriers db)" "r \<in> routes_upto n"
  shows "\<exists>cs buf' st. lcr_carrier_dialstring db (rt_value r) buf off max_len d =
    Inr (db\<lparr>lcr_carriers := cs\<rparr>, buf', st) \<and> carriers_upto n cs"
proof -
  obtain c where c: "unat (rt_value r) < length (lcr_carriers db)"
    "lcr_carriers db ! unat (rt_value r) = Some c" "carrier_inv c" "cr_id c = rt_value r"
    using carriers_upto_nth [OF assms] by blast
  obtain c' buf' st where dial: "carrier_get_dialstring c buf off max_len d = (c', buf', st)"
    by (metis surj_pair)
  then have "c' = fst (carrier_select_gateway c)"
    using carrier_get_dialstring_carrier [of c buf off max_len d] by simp
  then have "carriers_upto n ((lcr_carriers db)[unat (rt_value r) := Some c'])"
    using assms(1) c(3,4) by (intro carriers_upto_update) (simp_all add: carrier_inv_select)
  with c(1,2) dial show ?thesis by (auto simp: lcr_carrier_dialstring_def)
qed

lemma build_dialstring_rest_safe:
  "carriers_upto n (lcr_carriers db) \<Longrightarrow> set rs \<subseteq> routes_upto n \<Longrightarrow>
   \<exists>cs buf' st. build_dialstring_rest api buf buf_len sep db offset rs d =
     Inr (db\<lparr>lcr_carriers := cs\<rparr>, buf', st) \<and> carriers_upto n cs"
proof (induction rs arbitrary: db buf offset)
  case Nil
  then show ?case by (intro exI [of _ "lcr_carriers db"]) simp
next
  case (Cons r rs)
  let ?o = "offset + buf_strlen buf offset"
  have r: "r \<in> routes_upto n" using Cons.prems(2) by simp
  obtain cs1 buf1 st1 where
    dial: "lcr_carrier_dialstring db (rt_value r) (buf[?o := sep]) (Suc ?o)
      (size_t_minus buf_len (Suc ?o)) d = Inr (db\<lparr>lcr_carriers := cs1\<rparr>, buf1, st1)"
      "carriers_upto n cs1"
    using carrier_dialstring_safe [OF Cons.prems(1) r, of "buf[?o := sep]" "Suc ?o"] by blast
  let ?db1 = "db\<lparr>lcr_carriers := cs1\<rparr>"
  have "carriers_upto n (lcr_carriers ?db1)" "set rs \<subseteq> routes_upto n"
    using dial(2) Cons.prems(2) by simp_all
  from Cons.IH [OF this, of buf1 "Suc ?o"] obtain cs buf' st where
    "build_dialstring_rest api buf1 buf_len sep ?db1 (Suc ?o) rs d =
      Inr (?db1\<lparr>lcr_carriers := cs\<rparr>, buf', st)"
    "carriers_upto n cs" by blast
  moreover have "\<exists>cs. db = db\<lparr>lcr_carriers := cs\<rparr> \<and> carriers_upto n cs"
    using Cons.prems(1) by (intro exI [of _ "lcr_carriers db"]) simp
  ultimately show ?case
    using dial Cons.prems(1) by (auto simp: Let_def route_get_value_def)
qed

lemma build_dialstring_list_safe:
  assumes "carriers_upto n (lcr_carriers db)" "set (ra_live routes) \<subseteq> routes_upto n"
    and "ra_live routes \<noteq> []"
  shows "\<exists>cs buf' st. build_dialstring_list api buf buf_len sep db routes d =
    Inr (db\<lparr>lcr_carriers := cs\<rparr>, buf', st) \<and> carriers_upto n cs"
proof -
  obtain r rs where live: "ra_live routes = r # rs" using assms(3) by (cases "ra_live routes") auto
  then have get: "route_array_get_route routes 0 = Some r"
    by (cases "ra_route routes"; cases "unat (ra_size routes)")
      (auto simp: ra_live_def route_array_get_route_def word_less_nat_alt)
  have r: "r \<in> routes_upto n" using assms(2) live by simp
  obtain cs1 buf1 st1 where dial: "lcr_carrier_dialstring db (rt_value r) buf 0 buf_len d =
      Inr (db\<lparr>lcr_carriers := cs1\<rparr>, buf1, st1)" "carriers_upto n cs1"
    using carrier_dialstring_safe [OF assms(1) r, of buf 0] by blast
  let ?db1 = "db\<lparr>lcr_carriers := cs1\<rparr>"
  have "carriers_upto n (lcr_carriers ?db1)" "set rs \<subseteq> routes_upto n"
    using dial(2) assms(2) live by simp_all
  from build_dialstring_rest_safe [OF this, of api buf1 buf_len sep 0 d] obtain cs buf' st where
    "build_dialstring_rest api buf1 buf_len sep ?db1 0 rs d =
      Inr (?db1\<lparr>lcr_carriers := cs\<rparr>, buf', st)" "carriers_upto n cs" by blast
  with get dial live show ?thesis
    by (auto simp: build_dialstring_list_def route_get_value_def)
qed

text \<open>The routes a search returns are routes of the two rate tries, whatever it is asked.\<close>

lemma lcr_find_routes:
  assumes "trie_wf (lcr_intra_trie db)" "trie_routes_in R (lcr_intra_trie db)"
    and "trie_wf (lcr_inter_trie db)" "trie_routes_in R (lcr_inter_trie db)"
    and "0 \<notin> rt_value ` R" "ra_inv a" "set (filled a) \<subseteq> R"
  shows "ra_inv (fst (lcr_find api db cid dest a)) \<and>
    set (filled (fst (lcr_find api db cid dest a))) \<subseteq> R"
proof -
  note intra = trie_find_within [OF assms(1,2,6,7)] trie_find_within [OF assms(1,2) ra_inv_create]
  note inter = trie_find_within [OF assms(3,4,6,7)] trie_find_within [OF assms(3,4) ra_inv_create]
  have within: "set (take k (ra_route b)) \<subseteq> R \<and> occupied (take k (ra_route b))"
    if "ra_inv b \<and> set (filled b) \<subseteq> R" "k \<le> unat (ra_size b)" for k b
  proof -
    have "set (take k (ra_route b)) \<subseteq> set (ra_live b)"
      using that(2) by (simp add: ra_live_def set_take_subset_set_take)
    moreover have "set (ra_live b) \<subseteq> R" "occupied (ra_live b)"
      using that(1) filled_live [of b] by (auto intro: ra_inv_live_occupied)
    ultimately show ?thesis by (auto simp: occupied_def)
  qed
  have add: "ra_inv (route_array_add_all b (filter P rs)) \<and>
      set (filled (route_array_add_all b (filter P rs))) \<subseteq> R"
    if "ra_inv b \<and> set (filled b) \<subseteq> R" "set rs \<subseteq> R \<and> occupied rs" for b P rs
  proof -
    have occ: "occupied (filter P rs)" using that(2) by (auto simp: occupied_def)
    then show ?thesis
      using that filled_add_all [of b "filter P rs"] by (auto simp: ra_inv_add_all)
  qed
  have mixed: "ra_inv (lcr_find_mixed db c d num a) \<and> set (filled (lcr_find_mixed db c d num a)) \<subseteq> R"
    for c d num
  proof -
    let ?n = "word_of_int (lcr_num_carriers db)"
    obtain b1 n1 where f1: "route_trie_find (lcr_intra_trie db) (Some d) (route_array_create ?n) = (b1, n1)"
      by fastforce
    obtain b2 n2 where f2: "route_trie_find (lcr_inter_trie db) (Some d) (route_array_create ?n) = (b2, n2)"
      by fastforce
    have "ra_inv b1 \<and> set (filled b1) \<subseteq> R" using intra(2) [of ?n "Some d"] by (simp add: f1)
    moreover have "unat n1 \<le> unat (ra_size b1)" using trie_find_snd by (metis f1 fst_conv snd_conv)
    ultimately have w1: "set (take (unat n1) (ra_route b1)) \<subseteq> R \<and> occupied (take (unat n1) (ra_route b1))"
      by (rule within)
    have "ra_inv b2 \<and> set (filled b2) \<subseteq> R" using inter(2) [of ?n "Some d"] by (simp add: f2)
    moreover have "unat n2 \<le> unat (ra_size b2)" using trie_find_snd by (metis f2 fst_conv snd_conv)
    ultimately have w2: "set (take (unat n2) (ra_route b2)) \<subseteq> R \<and> occupied (take (unat n2) (ra_route b2))"
      by (rule within)
    show ?thesis
      unfolding lcr_find_mixed_def Let_def f1 f2 prod.case
      by (intro add w1 w2 conjI assms(6,7))
  qed
  show ?thesis
    using intra inter mixed assms(6,7) by (simp add: lcr_find_def Let_def)
qed

lemma lcr_find_size:
  "snd (lcr_find api db cid dest a) \<noteq> 0 \<Longrightarrow>
   snd (lcr_find api db cid dest a) = ra_size (fst (lcr_find api db cid dest a))"
  by (cases "fs_zstr api dest") (simp_all add: lcr_find_def Let_def route_array_get_size_def)

lemma lcr_find_loaded:
  assumes "lcr_loaded n db" "lcr_find api db cid dest (route_array_create k) = (a, m)" "m \<noteq> 0"
  shows "set (ra_live a) \<subseteq> routes_upto n" "ra_live a \<noteq> []" "m = ra_size a"
    "ra_inv a"
proof -
  have "0 \<notin> rt_value ` routes_upto n" by (auto simp: routes_upto_def)
  then have "ra_inv a \<and> set (filled a) \<subseteq> routes_upto n"
    using lcr_find_routes [of db "routes_upto n" "route_array_create k" api cid dest] assms(1,2)
    by (simp add: lcr_loaded_def ra_inv_create)
  then show "set (ra_live a) \<subseteq> routes_upto n" "ra_inv a" using filled_live by auto
  show m: "m = ra_size a" using lcr_find_size [of api db cid dest "route_array_create k"] assms(2,3) by simp
  have "length (ra_live a) = unat (ra_size a)" using \<open>ra_inv a\<close> by (rule ra_inv_live_length)
  with m assms(3) show "ra_live a \<noteq> []" by (auto simp: unat_eq_zero)
qed

subsection \<open>The redirect as a whole\<close>


definition sample_carrier :: carrier where
  "sample_carrier = fst (carrier_add_gateway (the (carrier_create ''acme'' 1 True)) ''sofia/a/'' ''@x'')"

definition sample_rates :: "(string \<times> route) list" where
  "sample_rates = [(''1'', \<lparr>rt_cost = 5, rt_value = 1, rt_type = 0\<rparr>),
                   (''12'', \<lparr>rt_cost = 3, rt_value = 1, rt_type = 0\<rparr>)]"

definition sample_lcr :: lcr where
  "sample_lcr = (the (lcr_create 1 True True))
     \<lparr>lcr_intra_trie := trie_load (route_trie_create 1) sample_rates,
      lcr_carriers := (replicate 257 None)[1 := Some sample_carrier]\<rparr>"

lemma sample_lcr_fields:
  "lcr_intra_trie sample_lcr = trie_load (route_trie_create 1) sample_rates"
  "lcr_carriers sample_lcr = (replicate 257 None)[1 := Some sample_carrier]"
  "lcr_num_carriers sample_lcr = 1" "lcr_max_routes sample_lcr = 3"
  "lcr_areas_caller_id_strip sample_lcr = 0" "lcr_areas_dest_strip sample_lcr = 1"
  "lcr_areas_caller_id_prefix sample_lcr = []" "lcr_areas_dest_prefix sample_lcr = []"
  "lcr_areas sample_lcr = route_trie_create 1"
  "lcr_inter_areas sample_lcr = route_trie_create 1"
  by (simp_all add: sample_lcr_def lcr_create_def DEFAULT_MAX_ROUTES_def)

lemma sample_intra:
  "\<not> lcr_is_inter_area documented_api sample_lcr (Some ''5'') (Some ''123'')"
  "route_trie_find_count (lcr_inter_areas sample_lcr) (Some ''5'') = 0"
  "entries_for sample_rates ''123'' = map snd sample_rates"
  unfolding sample_lcr_fields
  by code_simp+

lemma sample_carriers:
  "short_gateways ''123'' (lcr_carriers sample_lcr)"
  "dialable (lcr_carriers sample_lcr) \<lparr>rt_cost = k, rt_value = 1, rt_type = 0\<rparr>"
proof -
  have c: "cr_gateway sample_carrier =
      (replicate 8 None)[0 := Some \<lparr>gw_prefix = ''sofia/a/'', gw_suffix = ''@x''\<rparr>]"
    "cr_num_gateways sample_carrier = 1" "cr_next_gateway sample_carrier = 0"
    by (simp_all add: sample_carrier_def carrier_add_gateway_def carrier_create_def
        MAX_GATEWAYS_def gateway_create_def)
  show "short_gateways ''123'' (lcr_carriers sample_lcr)"
    by (auto simp: short_gateways_def short_gateway_def sample_lcr_fields c NUL_def
        dest!: set_update_subset_insert [THEN subsetD])
  show "dialable (lcr_carriers sample_lcr) \<lparr>rt_cost = k, rt_value = 1, rt_type = 0\<rparr>"
    by (auto simp: dialable_def sample_lcr_fields carrier_inv_def c MAX_GATEWAYS_def
        nth_list_update)
qed



text \<open>
  The area of a number is the area of its shortest matching prefix in the area file, and of
  the first line with that prefix; the longer prefixes that match are not preferred.
\<close>

theorem lcr_find_area_shortest:
  assumes "zstr_documented api" "s \<noteq> []" "list_all is_digit_char s"
    and "occupied (map snd es)" "zero_cost (map snd es)"
    and "lcr_areas db = trie_load (route_trie_create 1) es"
    and "prefix p s" "entries_at es p = r # rs" "\<forall>q. prefix q p \<and> q \<noteq> p \<longrightarrow> entries_at es q = []"
  shows "lcr_find_area api db (Some s) = uint (rt_value r)"
proof -
  obtain t where s: "s = p @ t" using assms(7) by (auto elim: prefixE)
  have "concat (map (entries_at es) (prefixes p)) = entries_at es p"
  proof (cases p rule: rev_cases)
    case (snoc p' c)
    have "entries_at es q = []" if "q \<in> set (prefixes p')" for q
    proof -
      have "prefix q p'" using that by simp
      then have "prefix q p" "length q < length p"
        using prefix_length_le by (fastforce simp: snoc)+
      then show ?thesis using assms(9) by auto
    qed
    then have "concat (map (entries_at es) (prefixes p')) = []" by simp
    then show ?thesis using snoc by (simp add: prefixes_snoc)
  qed simp
  then have "concat (map (entries_at es) (prefixes s)) =
      r # rs @ concat (map (entries_at es) (map ((@) p) (tl (prefixes t))))"
    by (simp add: s prefixes_append assms(8))
  with lcr_find_area_first [OF assms(1-6)] show ?thesis
    by (simp add: first_area_def)
qed

text \<open>
  In as many calls as a carrier has gateways, the round robin serves every gateway of the
  carrier, whatever position it starts from; the invariant of the carrier is kept.
\<close>

theorem gateways_in_turn:
  assumes "carrier_inv c" "0 < cr_num_gateways c"
  shows "set (select_many (cr_num_gateways c) c) = set (take (cr_num_gateways c) (cr_gateway c)) \<and>
    None \<notin> set (select_many (cr_num_gateways c) c) \<and>
    carrier_inv (fst (carrier_select_gateway c))"
proof -
  have "None \<notin> set (take (cr_num_gateways c) (cr_gateway c))"
    using assms(1) by (auto simp: carrier_inv_def in_set_conv_nth)
  then show ?thesis using select_many_round [OF assms] carrier_inv_select [OF assms(1)] by simp
qed

text \<open>
  A single dial string is never rejected for its length: when it does not fit the buffer, the
  call is sent to its first \<open>buf_len - 1\<close> characters and the result is still a success.
\<close>

theorem dialstring_silently_cut:
  assumes "ra_live routes = [r]" "dialable (lcr_carriers db) r"
    and "dial_strings db [r] d = (db', [s])" "NUL \<notin> set s" "status_documented api"
    and "0 < buf_len" "buf_len \<le> length buf" "buf_len \<le> length s"
  shows "\<exists>buf'. build_dialstring_list api buf buf_len sep db routes d =
      Inr (db', buf', SWITCH_STATUS_SUCCESS) \<and> buf_string buf' 0 = take (buf_len - 1) s \<and>
    buf_string buf' 0 \<noteq> s"
proof -
  have "take (buf_len - 1) s \<noteq> s" using assms(6,8) by (metis diff_less length_take
        less_le_trans min.absorb2 nat_less_le zero_less_one diff_le_self le_trans)
  with single_dialstring_cut [OF assms(1-7), of sep] show ?thesis by auto
qed


definition sample_areas :: "(string \<times> route) list" where
  "sample_areas = [(''12'', \<lparr>rt_cost = 0, rt_value = 9, rt_type = 0\<rparr>),
                   (''1'', \<lparr>rt_cost = 0, rt_value = 7, rt_type = 0\<rparr>)]"

lemma lcr_find_area_shortest_witness:
  "lcr_find_area documented_api
     (sample_lcr\<lparr>lcr_areas := trie_load (route_trie_create 1) sample_areas\<rparr>) (Some ''123'') = 7"
  by (subst lcr_find_area_shortest [of _ _ sample_areas _ "''1''" "\<lparr>rt_cost = 0, rt_value = 7, rt_type = 0\<rparr>" "[]"])
    (auto simp: documented_api_zstr sample_areas_def is_digit_char_def digit_index_def char_int_def
      zero_cost_def entries_at_def prefix_Cons)

lemma gateways_in_turn_witness:
  "set (select_many 2 (fst (carrier_add_gateway sample_carrier ''p'' ''s''))) =
    {Some \<lparr>gw_prefix = ''sofia/a/'', gw_suffix = ''@x''\<rparr>, Some \<lparr>gw_prefix = ''p'', gw_suffix = ''s''\<rparr>}"
proof -
  let ?c = "fst (carrier_add_gateway sample_carrier ''p'' ''s'')"
  have "carrier_inv ?c"
    unfolding sample_carrier_def
    by (intro carrier_inv_add_gateway carrier_inv_create [of "''acme''" 1 True])
      (simp add: carrier_create_def)
  moreover have "cr_num_gateways ?c = 2" "take 2 (cr_gateway ?c) =
      [Some \<lparr>gw_prefix = ''sofia/a/'', gw_suffix = ''@x''\<rparr>, Some \<lparr>gw_prefix = ''p'', gw_suffix = ''s''\<rparr>]"
    by (simp_all add: sample_carrier_def carrier_create_def carrier_add_gateway_def MAX_GATEWAYS_def
        gateway_create_def numeral_eq_Suc)
  ultimately show ?thesis using gateways_in_turn [of ?c] by auto
qed

lemma dialstring_silently_cut_witness:
  "\<exists>db' buf'. build_dialstring_list documented_api (replicate 8 NUL) 8 CHR '','' sample_lcr
      (route_array_add (route_array_create 1) \<lparr>rt_cost = 5, rt_value = 1, rt_type = 0\<rparr>) ''123'' =
      Inr (db', buf', SWITCH_STATUS_SUCCESS) \<and> buf_string buf' 0 = ''sofia/a''"
proof -
  let ?r = "\<lparr>rt_cost = 5, rt_value = 1, rt_type = 0\<rparr>"
  have live: "ra_live (route_array_add (route_array_create 1) ?r) = [?r]" by code_simp
  obtain db' where one: "dial_strings sample_lcr [?r] ''123'' = (db', [''sofia/a/123@x''])"
    by (simp add: sample_lcr_fields sample_carrier_def carrier_create_def carrier_add_gateway_def
        MAX_GATEWAYS_def gateway_create_def carrier_select_gateway_def)
  show ?thesis
    using dialstring_silently_cut [OF live sample_carriers(2) one, of documented_api 8
        "replicate 8 NUL" "CHR '',''"] documented_api_status
    by (auto simp: NUL_def)
qed


lemma route_rows_safe:
  "carriers_upto n (lcr_carriers db) \<Longrightarrow> set rs \<subseteq> routes_upto n \<Longrightarrow>
   \<exists>rows. route_rows db d rs = Inr rows"
proof (induction rs)
  case (Cons r rs)
  then obtain c where "unat (rt_value r) < length (lcr_carriers db)"
    "lcr_carriers db ! unat (rt_value r) = Some c"
    using carriers_upto_nth [OF Cons.prems(1), of r] by auto
  with Cons show ?case by (auto simp: route_get_value_def)
qed simp

text \<open>
  Neither does the API command on a loaded database, whatever its argument is.
\<close>

theorem api_never_crashes:
  assumes "lcr_loaded n db"
  shows "\<exists>reply. simple_lcr_function api (Some db) in_session strdup_ok cmd = Inr reply"
proof -
  let ?argv = "fs_separate_string api (cstr_of cmd) CHR '' '' 4"
  obtain a m where find: "lcr_find api db (Some (?argv ! 0)) (Some (?argv ! 1))
      (route_array_create (word_of_int (lcr_num_carriers db))) = (a, m)" by fastforce
  have "\<exists>rows. route_rows db (?argv ! 1) (take (unat m) (ra_route a)) = Inr rows" if "m \<noteq> 0"
    using route_rows_safe [of n db "ra_live a"] lcr_find_loaded [OF assms find that] assms
    by (simp add: ra_live_def lcr_loaded_def)
  with find show ?thesis by (auto simp: simple_lcr_function_def Let_def)
qed

end
