(* ===== verification/C_Double.thy ===== *)
theory C_Double
  imports C_Library Complex_Main
begin

text \<open>
  The IEEE 754 double arithmetic the modules use, on finite numbers that are not subnormal:
  a pair \<open>(m, e)\<close> stands for \<open>m * 2 ^ e\<close>, an operation rounds its exact result to 53 bits,
  ties to even.  \<open>c_atof\<close> reads decimal numbers without exponent.
\<close>

type_synonym c_double = "nat \<times> int"

fun bit_count :: "nat \<Rightarrow> nat" where
  "bit_count n = (if n = 0 then 0 else Suc (bit_count (n div 2)))"

declare bit_count.simps [simp del]

text \<open>The fraction \<open>num / den\<close> divided by \<open>2 ^ e\<close>.\<close>

definition scaled :: "nat \<Rightarrow> nat \<Rightarrow> int \<Rightarrow> nat \<times> nat" where
  "scaled num den e = (if e \<ge> 0 then (num, den * 2 ^ nat e) else (num * 2 ^ nat (- e), den))"

definition round_even :: "nat \<Rightarrow> nat \<Rightarrow> nat" where
  "round_even n d =
     (let q = n div d; r = n mod d
      in if 2 * r < d \<or> (2 * r = d \<and> even q) then q else q + 1)"

definition double_exponent :: "nat \<Rightarrow> nat \<Rightarrow> int" where
  "double_exponent num den =
     (let e = int (bit_count num) - int (bit_count den) - 53;
          (n, d) = scaled num den e
      in if n div d \<ge> 2 ^ 53 then e + 1 else e)"

definition round_ratio :: "nat \<Rightarrow> nat \<Rightarrow> c_double" where
  "round_ratio num den =
     (if num = 0 then (0, 0)
      else let e = double_exponent num den; (n, d) = scaled num den e in (round_even n d, e))"

definition double_less :: "c_double \<Rightarrow> c_double \<Rightarrow> bool" where
  "double_less x y =
     (let e = min (snd x) (snd y)
      in fst x * 2 ^ nat (snd x - e) < fst y * 2 ^ nat (snd y - e))"

definition double_times :: "c_double \<Rightarrow> nat \<Rightarrow> c_double" where
  "double_times x k =
     (if snd x \<ge> 0 then round_ratio (fst x * k * 2 ^ nat (snd x)) 1
      else round_ratio (fst x * k) (2 ^ nat (- snd x)))"

definition double_trunc :: "c_double \<Rightarrow> int" where
  "double_trunc x =
     int (if snd x \<ge> 0 then fst x * 2 ^ nat (snd x) else fst x div 2 ^ nat (- snd x))"

text \<open>\<open>atof\<close>: a sign bit and the magnitude.\<close>

definition c_atof :: "string \<Rightarrow> bool \<times> c_double" where
  "c_atof s =
     (let t = dropWhile c_isspace s;
          (neg, u) = (case t of [] \<Rightarrow> (False, [])
                      | c # cs \<Rightarrow> if c = CHR ''-'' then (True, cs)
                                  else if c = CHR ''+'' then (False, cs) else (False, t));
          whole = takeWhile c_isdigit u;
          frac = (case dropWhile c_isdigit u of
                    [] \<Rightarrow> [] | c # cs \<Rightarrow> if c = CHR ''.'' then takeWhile c_isdigit cs else [])
      in (neg, round_ratio (digits_value (whole @ frac)) (10 ^ length frac)))"

lemma bit_count_simps [simp]:
  "bit_count 0 = 0" "bit_count (Suc 0) = 1"
  "bit_count (numeral k) = Suc (bit_count (numeral k div 2))"
  by (subst bit_count.simps, simp)+

lemmas double_eval = round_ratio_def double_exponent_def scaled_def round_even_def double_less_def
  double_times_def double_trunc_def

subsection \<open>Rounding\<close>

definition double_value :: "c_double \<Rightarrow> real" where
  "double_value x = real (fst x) * 2 powi snd x"

lemma real_div_le: "real (n div d) \<le> real n / real d"
proof (cases "d = 0")
  case False
  have "real (n div d * d) \<le> real n" by (simp only: of_nat_le_iff) simp
  with False show ?thesis by (simp add: field_simps)
qed simp

lemma bit_count_upper: "n < 2 ^ bit_count n"
proof (induction n rule: bit_count.induct)
  case (1 n)
  show ?case
  proof (cases "n = 0")
    case False
    with 1 have "n div 2 < 2 ^ bit_count (n div 2)" by simp
    then have "n < 2 * 2 ^ bit_count (n div 2)" by linarith
    then show ?thesis using False by (subst bit_count.simps) simp
  qed (simp add: bit_count.simps)
qed

lemma bit_count_lower: "0 < n \<Longrightarrow> 2 ^ bit_count n \<le> 2 * n"
proof (induction n rule: bit_count.induct)
  case (1 n)
  show ?case
  proof (cases "n div 2 = 0")
    case True
    with 1(2) have "n = 1" by linarith
    then show ?thesis by (simp add: bit_count.simps)
  next
    case False
    with 1 have "2 ^ bit_count (n div 2) \<le> 2 * (n div 2)" by simp
    then have "2 * 2 ^ bit_count (n div 2) \<le> 2 * n" by linarith
    then show ?thesis using 1(2) by (subst bit_count.simps) simp
  qed
qed

lemma scaled_value:
  "0 < den \<Longrightarrow> scaled num den e = (n, d) \<Longrightarrow>
   0 < d \<and> real n / real d = real num / real den * 2 powi (- e)"
  by (auto simp: scaled_def power_int_def field_simps split: if_splits)

lemma scaled_large:
  assumes "0 < num" "0 < den"
    and "scaled num den (int (bit_count num) - int (bit_count den) - 53) = (n, d)"
  shows "2 ^ 52 \<le> real n / real d"
proof -
  let ?a = "int (bit_count num)" and ?b = "int (bit_count den)"
  have "real (2 ^ bit_count num) \<le> real (2 * num)"
    using bit_count_lower [OF assms(1)] by (simp only: of_nat_le_iff)
  then have num: "2 powi ?a \<le> 2 * real num" by (simp add: power_int_def)
  have "real den \<le> real (2 ^ bit_count den)"
    using bit_count_upper [of den] by (simp only: of_nat_le_iff)
  then have den: "real den \<le> 2 powi ?b" by (simp add: power_int_def)
  have "2 powi (?a - 1) / 2 powi ?b \<le> real num / real den"
    using num den assms(2) by (intro frac_le) (simp_all add: power_int_diff)
  then have "2 powi (?a - 1) / 2 powi ?b * 2 powi (- (?a - ?b - 53)) \<le>
      real num / real den * 2 powi (- (?a - ?b - 53))"
    by (rule mult_right_mono) simp
  also have "\<dots> = real n / real d" using scaled_value [OF assms(2,3)] by metis
  finally have "2 powi (?a - 1) / 2 powi ?b * 2 powi (- (?a - ?b - 53)) \<le> real n / real d" .
  also have "2 powi (?a - 1) / 2 powi ?b * 2 powi (- (?a - ?b - 53)) =
      (2::real) powi (?a - 1 - ?b + (- (?a - ?b - 53)))"
    by (subst power_int_add, simp, subst (2) power_int_diff, simp_all)
  also have "?a - 1 - ?b + (- (?a - ?b - 53)) = 52" by simp
  finally show ?thesis by simp
qed

lemma round_even_le: "0 < d \<Longrightarrow> real (round_even n d) \<le> real n / real d + 1"
  by (simp add: round_even_def Let_def real_div_le add_increasing2)

lemma double_exponent_large:
  assumes "0 < num" "0 < den" "scaled num den (double_exponent num den) = (n, d)"
  shows "2 ^ 52 \<le> real n / real d"
proof -
  let ?e = "int (bit_count num) - int (bit_count den) - 53"
  obtain n0 d0 where s: "scaled num den ?e = (n0, d0)" by fastforce
  show ?thesis
  proof (cases "2 ^ 53 \<le> n0 div d0")
    case True
    then have e: "double_exponent num den = ?e + 1"
      using s by (simp add: double_exponent_def Let_def)
    have "real n / real d = real num / real den * 2 powi (- (?e + 1))"
      using scaled_value [OF assms(2)] assms(3) e by metis
    also have "\<dots> = real num / real den * 2 powi (- ?e) / 2"
      by (simp add: power_int_diff power_int_minus field_simps power_int_add)
    also have "real num / real den * 2 powi (- ?e) = real n0 / real d0"
      using scaled_value [OF assms(2) s] by simp
    finally have half: "real n / real d = real n0 / real d0 / 2" .
    have "real (2 ^ 53) \<le> real (n0 div d0)" using True by (simp only: of_nat_le_iff)
    also have "\<dots> \<le> real n0 / real d0" by (rule real_div_le)
    finally show ?thesis using half by simp
  next
    case False
    then have "double_exponent num den = ?e"
      using s by (simp add: double_exponent_def Let_def)
    with assms(3) show ?thesis using scaled_large [OF assms(1,2)] by simp
  qed
qed

text \<open>Rounding never raises a number by more than one part in \<open>2 ^ 52\<close>.\<close>

lemma round_ratio_upper:
  assumes "0 < den"
  shows "double_value (round_ratio num den) \<le> real num / real den * (1 + 1 / 2 ^ 52)"
proof (cases "num = 0")
  case False
  let ?e = "double_exponent num den"
  obtain n d where s: "scaled num den ?e = (n, d)" by fastforce
  have sv: "0 < d" "real n / real d = real num / real den * 2 powi (- ?e)"
    using scaled_value [OF assms s] by auto
  have large: "2 ^ 52 \<le> real n / real d"
    using double_exponent_large [OF _ assms s] False by simp
  have "real (round_even n d) \<le> real n / real d + 1" using sv(1) by (rule round_even_le)
  also have "\<dots> \<le> real n / real d * (1 + 1 / 2 ^ 52)" using large by (simp add: field_simps)
  finally have "real (round_even n d) * 2 powi ?e \<le>
      real n / real d * (1 + 1 / 2 ^ 52) * 2 powi ?e"
    by (rule mult_right_mono) simp
  also have "\<dots> = real num / real den * (1 + 1 / 2 ^ 52) * (2 powi (- ?e) * 2 powi ?e)"
    by (simp only: sv(2) mult_ac)
  also have "(2::real) powi (- ?e) * 2 powi ?e = 1"
    by (simp add: power_int_minus)
  finally show ?thesis using False s by (simp add: round_ratio_def double_value_def Let_def)
qed (simp add: round_ratio_def double_value_def)

lemma double_times_upper:
  "double_value (double_times x k) \<le> double_value x * real k * (1 + 1 / 2 ^ 52)"
proof (cases "snd x \<ge> 0")
  case True
  then show ?thesis
    using round_ratio_upper [of 1 "fst x * k * 2 ^ nat (snd x)"]
    by (simp add: double_times_def double_value_def power_int_def mult_ac)
next
  case False
  then show ?thesis
    using round_ratio_upper [of "2 ^ nat (- snd x)" "fst x * k"]
    by (simp add: double_times_def double_value_def power_int_def field_simps)
qed

lemma double_trunc_le: "real_of_int (double_trunc x) \<le> double_value x"
proof (cases "snd x \<ge> 0")
  case False
  have "real (fst x div 2 ^ nat (- snd x)) \<le> real (fst x) / real (2 ^ nat (- snd x))"
    by (rule real_div_le)
  with False show ?thesis
    by (simp add: double_trunc_def double_value_def power_int_def field_simps)
qed (simp add: double_trunc_def double_value_def power_int_def)

lemma double_trunc_nonneg: "0 \<le> double_trunc x"
  by (simp add: double_trunc_def)

lemma double_less_value: "double_less x y \<longleftrightarrow> double_value x < double_value y"
proof -
  let ?e = "min (snd x) (snd y)"
  have *: "double_value z = real (fst z * 2 ^ nat (snd z - ?e)) * 2 powi ?e"
    if "?e \<le> snd z" for z
  proof -
    have "(2::real) powi snd z = 2 powi (snd z - ?e) * 2 powi ?e"
      by (simp flip: power_int_add)
    then show ?thesis using that by (simp add: double_value_def power_int_def [of 2 "snd z - ?e"])
  qed
  have "double_value x < double_value y \<longleftrightarrow>
      real (fst x * 2 ^ nat (snd x - ?e)) < real (fst y * 2 ^ nat (snd y - ?e))"
    by (subst * [of x], simp, subst * [of y], simp) (simp add: mult_less_cancel_right_pos)
  then show ?thesis by (simp only: double_less_def Let_def of_nat_less_iff)
qed

end
