(* ===== verification/Lcr_Config.thy ===== *)
theory Lcr_Config
  imports Lcr_Database C_Double
begin

text \<open>
  The configuration of \<open>crienzo/mod_simple_lcr/mod_simple_lcr.c\<close>: costs, area files, rate
  decks, and \<open>load_config\<close>, which builds a new database and swaps it in when everything
  could be read.  The XML tree, the files and the outcomes of the allocations are the fields
  of an environment record.
\<close>

subsection \<open>Costs and lines\<close>

definition COST_NO_INPUT :: int where "COST_NO_INPUT = - 1"
definition COST_BAD_INPUT :: int where "COST_BAD_INPUT = - 2"

text \<open>The \<open>float\<close> constant \<open>6.5535f\<close>, and what \<open>atof\<close> returns compared with it.\<close>

definition float_6_5535 :: c_double where
  "float_6_5535 = (6871843, - 20)"

definition to_route_cost :: "fs_api \<Rightarrow> string option \<Rightarrow> int" where
  "to_route_cost api cost =
     (if fs_zstr api cost then COST_NO_INPUT
      else if fs_is_number api (cstr_of cost)
      then let (neg, costf) = c_atof (cstr_of cost);
               nonneg = (\<not> neg \<or> fst costf = 0)
           in if nonneg \<and> double_less costf float_6_5535 then double_trunc (double_times costf 10000)
              else if nonneg \<and> \<not> double_less costf float_6_5535 then 65535
              else COST_BAD_INPUT
      else COST_BAD_INPUT)"

text \<open>
  \<open>fgets_trimmed\<close> reads at most 254 characters, whatever the size it is given, and cuts at the
  newline; what the rest of the code sees of a line ends at a NUL.
\<close>

definition fgets_trimmed :: "string \<Rightarrow> (string \<times> string) option" where
  "fgets_trimmed stream =
     (case c_fgets 255 stream of
        None \<Rightarrow> None
      | Some (l, rest) \<Rightarrow> Some (takeWhile (\<lambda>c. c \<noteq> CHR 0x0A) (takeWhile (\<lambda>c. c \<noteq> NUL) l), rest))"

function file_lines :: "string \<Rightarrow> string list" where
  "file_lines stream =
     (case fgets_trimmed stream of None \<Rightarrow> [] | Some (l, rest) \<Rightarrow> l # file_lines rest)"
  by pat_completeness auto

termination file_lines
  by (relation "measure length")
    (auto simp: fgets_trimmed_def dest: c_fgets_shorter split: option.splits)

declare file_lines.simps [simp del]

subsection \<open>Area files and rate decks\<close>

fun load_area_lines ::
    "fs_api \<Rightarrow> ('h, route_value_t) fs_hash \<Rightarrow> route_trie \<Rightarrow> 'h \<Rightarrow> route_value_t \<Rightarrow> string list
      \<Rightarrow> route_trie \<times> switch_status" where
  "load_area_lines api ops area_trie area_hash next_id [] = (area_trie, SWITCH_STATUS_SUCCESS)"
| "load_area_lines api ops area_trie area_hash next_id (line # rest) =
     (let field = fs_separate_string api line CHR '','' 3
      in if length field \<ge> 2
         then let digits = field ! 0; ext_id = field ! 1;
                  (id1, hash1, next1) =
                    (case hash_find ops area_hash ext_id of
                       Some i \<Rightarrow> (i, area_hash, next_id)
                     | None \<Rightarrow> (next_id + 1, hash_insert ops area_hash ext_id (next_id + 1), next_id + 1));
                  (trie1, ok) = route_trie_add area_trie (Some digits) 0 id1 0
              in if \<not> ok then (trie1, SWITCH_STATUS_FALSE)
                 else load_area_lines api ops trie1 hash1 next1 rest
         else (area_trie, SWITCH_STATUS_FALSE))"

definition load_area_file ::
    "fs_api \<Rightarrow> ('h, route_value_t) fs_hash \<Rightarrow> (string \<Rightarrow> string option) \<Rightarrow> bool \<Rightarrow> route_trie \<Rightarrow> string
      \<Rightarrow> route_trie \<times> switch_status" where
  "load_area_file api ops fopen pool_ok area_trie area =
     (case fopen area of
        None \<Rightarrow> (area_trie, SWITCH_STATUS_FALSE)
      | Some stream \<Rightarrow>
          (if \<not> pool_ok then (area_trie, SWITCH_STATUS_FALSE)
           else load_area_lines api ops area_trie (hash_new ops) 0 (file_lines stream)))"

text \<open>
  One cost column of a rate deck line: \<open>cost == COST_BAD_INPUT || (cost >= 0 &&
  !route_trie_add(...))\<close>, where the arguments of the call read \<open>carrier->id\<close>.
\<close>

definition add_cost ::
    "route_trie \<Rightarrow> carrier option \<Rightarrow> string \<Rightarrow> int \<Rightarrow> route_type_t \<Rightarrow> crash + route_trie \<times> bool" where
  "add_cost trie cr digits cost type1 =
     (if cost = COST_BAD_INPUT then Inr (trie, False)
      else if cost \<ge> 0
      then (case cr of
              None \<Rightarrow> Inl Null_Deref
            | Some c \<Rightarrow> Inr (route_trie_add trie (Some digits) (word_of_int cost) (cr_id c) type1))
      else Inr (trie, True))"

fun load_ratedeck_lines ::
    "fs_api \<Rightarrow> route_trie \<Rightarrow> route_trie \<Rightarrow> carrier option \<Rightarrow> string list
      \<Rightarrow> crash + route_trie \<times> route_trie \<times> switch_status" where
  "load_ratedeck_lines api inter_trie intra_trie cr [] =
     Inr (inter_trie, intra_trie, SWITCH_STATUS_SUCCESS)"
| "load_ratedeck_lines api inter_trie intra_trie cr (line # rest) =
     (let field = fs_separate_string api line CHR '','' 4
      in if length field > 2
         then let digits = field ! 0;
                  inter_cost = to_route_cost api (Some (field ! 1));
                  intra_cost = to_route_cost api (Some (field ! 2))
              in case add_cost inter_trie cr digits inter_cost 1 of
                   Inl e \<Rightarrow> Inl e
                 | Inr (inter1, ok1) \<Rightarrow>
                     (if \<not> ok1 then Inr (inter1, intra_trie, SWITCH_STATUS_FALSE)
                      else case add_cost intra_trie cr digits intra_cost 0 of
                             Inl e \<Rightarrow> Inl e
                           | Inr (intra1, ok2) \<Rightarrow>
                               (if \<not> ok2 then Inr (inter1, intra1, SWITCH_STATUS_FALSE)
                                else load_ratedeck_lines api inter1 intra1 cr rest))
         else Inr (inter_trie, intra_trie, SWITCH_STATUS_FALSE))"

definition load_ratedeck_file ::
    "fs_api \<Rightarrow> (string \<Rightarrow> string option) \<Rightarrow> route_trie \<Rightarrow> route_trie \<Rightarrow> carrier option \<Rightarrow> string
      \<Rightarrow> crash + route_trie \<times> route_trie \<times> switch_status" where
  "load_ratedeck_file api fopen inter_trie intra_trie cr ratedeck =
     (case fopen ratedeck of
        None \<Rightarrow> Inr (inter_trie, intra_trie, SWITCH_STATUS_FALSE)
      | Some stream \<Rightarrow> load_ratedeck_lines api inter_trie intra_trie cr (file_lines stream))"

subsection \<open>The configuration file\<close>

record carrier_conf =
  cc_name :: string
  cc_ratedeck :: string
  cc_inter_areas :: string
  cc_gateways :: "(string \<times> string) list"

record simple_lcr_conf =
  cf_settings :: "(string \<times> string) list option"
  cf_carriers :: "carrier_conf list"

record config_env =
  ce_conf :: "simple_lcr_conf option"
  ce_file :: "string \<Rightarrow> string option"
  ce_pool_ok :: bool
  ce_rwlock_ok :: bool
  ce_area_pool_ok :: bool
  ce_mutex_ok :: "route_value_t \<Rightarrow> bool"
  ce_strdup_ok :: "route_value_t \<Rightarrow> bool"

definition on_lcr :: "lcr option \<Rightarrow> (lcr \<Rightarrow> lcr) \<Rightarrow> crash + lcr option \<times> switch_status" where
  "on_lcr new_lcr f =
     (case new_lcr of None \<Rightarrow> Inl Null_Deref
      | Some db \<Rightarrow> Inr (Some (f db), SWITCH_STATUS_SUCCESS))"

definition load_param ::
    "fs_api \<Rightarrow> ('h, route_value_t) fs_hash \<Rightarrow> config_env \<Rightarrow> lcr option \<Rightarrow> string \<Rightarrow> string
      \<Rightarrow> crash + lcr option \<times> switch_status" where
  "load_param api ops env new_lcr name v =
     (let unchanged = Inr (new_lcr, SWITCH_STATUS_SUCCESS);
          val = c_atoi v
      in if fs_zstr api (Some name) then Inr (new_lcr, SWITCH_STATUS_FALSE)
         else if c_strcaseeq ''max-routes'' name
         then if fs_is_number api v \<and> val > 0
              then on_lcr new_lcr (\<lambda>db. lcr_set_max_routes db (if val > MAX_ROUTES then MAX_ROUTES else val))
              else unchanged
         else if c_strcaseeq ''areas'' name
         then if \<not> fs_zstr api (Some v)
              then (case new_lcr of
                      None \<Rightarrow> Inl Null_Deref
                    | Some db \<Rightarrow>
                        (let (t, st) = load_area_file api ops (ce_file env) (ce_area_pool_ok env) (lcr_areas db) v
                         in Inr (Some (db\<lparr>lcr_areas := t\<rparr>), st)))
              else unchanged
         else if c_strcaseeq ''areas-cid-strip'' name
         then if fs_is_number api v \<and> val \<ge> 0
              then on_lcr new_lcr (\<lambda>db. db\<lparr>lcr_areas_caller_id_strip := val\<rparr>)
              else unchanged
         else if c_strcaseeq ''areas-cid-prefix'' name
         then if \<not> fs_zstr api (Some v)
              then on_lcr new_lcr (\<lambda>db. db\<lparr>lcr_areas_caller_id_prefix := v\<rparr>)
              else unchanged
         else if c_strcaseeq ''areas-dest-strip'' name
         then if fs_is_number api v \<and> val \<ge> 0
              then on_lcr new_lcr (\<lambda>db. db\<lparr>lcr_areas_dest_strip := val\<rparr>)
              else unchanged
         else if c_strcaseeq ''areas-dest-prefix'' name
         then if \<not> fs_zstr api (Some v)
              then on_lcr new_lcr (\<lambda>db. db\<lparr>lcr_areas_dest_prefix := v\<rparr>)
              else unchanged
         else unchanged)"

fun load_settings ::
    "fs_api \<Rightarrow> ('h, route_value_t) fs_hash \<Rightarrow> config_env \<Rightarrow> lcr option \<Rightarrow> (string \<times> string) list
      \<Rightarrow> crash + lcr option \<times> switch_status" where
  "load_settings api ops env new_lcr [] = Inr (new_lcr, SWITCH_STATUS_SUCCESS)"
| "load_settings api ops env new_lcr ((name, v) # params) =
     (case load_param api ops env new_lcr name v of
        Inl e \<Rightarrow> Inl e
      | Inr (new_lcr', st) \<Rightarrow>
          (if st = SWITCH_STATUS_SUCCESS then load_settings api ops env new_lcr' params
           else Inr (new_lcr', st)))"

fun load_inter_areas :: "route_trie \<Rightarrow> route_value_t \<Rightarrow> string list \<Rightarrow> route_trie \<times> switch_status" where
  "load_inter_areas trie carrier_id [] = (trie, SWITCH_STATUS_SUCCESS)"
| "load_inter_areas trie carrier_id (a # argv) =
     (let (trie1, ok) = route_trie_add trie (Some a) 0 carrier_id 0
      in if \<not> ok then (trie1, SWITCH_STATUS_FALSE) else load_inter_areas trie1 carrier_id argv)"

fun load_gateways ::
    "fs_api \<Rightarrow> carrier option \<Rightarrow> (string \<times> string) list \<Rightarrow> crash + carrier option \<times> switch_status" where
  "load_gateways api cr [] = Inr (cr, SWITCH_STATUS_SUCCESS)"
| "load_gateways api cr ((gateway_prefix, gateway_suffix) # gws) =
     (if fs_zstr api (Some gateway_prefix) \<and> fs_zstr api (Some gateway_suffix)
      then Inr (cr, SWITCH_STATUS_FALSE)
      else case cr of
             None \<Rightarrow> Inl Null_Deref
           | Some c \<Rightarrow>
               (let (c', st) = carrier_add_gateway c gateway_prefix gateway_suffix
                in if st \<noteq> SWITCH_STATUS_SUCCESS then Inr (Some c', SWITCH_STATUS_FALSE)
                   else load_gateways api (Some c') gws))"

definition set_carrier :: "lcr \<Rightarrow> route_value_t \<Rightarrow> carrier option \<Rightarrow> lcr" where
  "set_carrier db carrier_id cr =
     db\<lparr>lcr_carriers := (lcr_carriers db)[unat carrier_id := cr]\<rparr>"

text \<open>
  One \<open>carrier\<close> element; \<open>carrier_id\<close> is the number it gets.  The carrier list has 257
  elements, and the loop before has refused more than 256 carriers.
\<close>

definition load_carrier ::
    "fs_api \<Rightarrow> config_env \<Rightarrow> lcr option \<Rightarrow> route_value_t \<Rightarrow> carrier_conf
      \<Rightarrow> crash + lcr option \<times> switch_status" where
  "load_carrier api env new_lcr carrier_id conf =
     (if fs_zstr api (Some (cc_name conf)) \<or> fs_zstr api (Some (cc_ratedeck conf))
      then Inr (new_lcr, SWITCH_STATUS_FALSE)
      else case new_lcr of
        None \<Rightarrow> Inl Null_Deref
      | Some db0 \<Rightarrow>
         (if length (lcr_carriers db0) \<le> unat carrier_id then Inl Out_Of_Bounds
          else
          let cr = carrier_create (cc_name conf) carrier_id (ce_mutex_ok env carrier_id);
              db = set_carrier db0 carrier_id cr;
              wanted = \<not> fs_zstr api (Some (cc_inter_areas conf));
              argv = fs_separate_string api (cc_inter_areas conf) CHR '','' MAX_INTER_AREAS;
              (inter_areas, st1) =
                (if wanted \<and> \<not> ce_strdup_ok env carrier_id
                 then (lcr_inter_areas db, SWITCH_STATUS_FALSE)
                 else if wanted \<and> length argv > 1
                 then load_inter_areas (lcr_inter_areas db) carrier_id argv
                 else (lcr_inter_areas db, SWITCH_STATUS_SUCCESS));
              db1 = db\<lparr>lcr_inter_areas := inter_areas\<rparr>
          in if st1 \<noteq> SWITCH_STATUS_SUCCESS then Inr (Some db1, SWITCH_STATUS_FALSE)
             else case load_gateways api cr (cc_gateways conf) of
               Inl e \<Rightarrow> Inl e
             | Inr (cr1, st2) \<Rightarrow>
                (let db2 = set_carrier db1 carrier_id cr1
                 in if st2 \<noteq> SWITCH_STATUS_SUCCESS then Inr (Some db2, SWITCH_STATUS_FALSE)
                    else case load_ratedeck_file api (ce_file env) (lcr_inter_trie db2)
                                (lcr_intra_trie db2) cr1 (cc_ratedeck conf) of
                      Inl e \<Rightarrow> Inl e
                    | Inr (inter1, intra1, st3) \<Rightarrow>
                        Inr (Some (db2\<lparr>lcr_inter_trie := inter1, lcr_intra_trie := intra1\<rparr>), st3))))"

fun load_carriers ::
    "fs_api \<Rightarrow> config_env \<Rightarrow> lcr option \<Rightarrow> route_value_t \<Rightarrow> carrier_conf list
      \<Rightarrow> crash + lcr option \<times> switch_status" where
  "load_carriers api env new_lcr carrier_id [] = Inr (new_lcr, SWITCH_STATUS_SUCCESS)"
| "load_carriers api env new_lcr carrier_id (conf # confs) =
     (case load_carrier api env new_lcr (carrier_id + 1) conf of
        Inl e \<Rightarrow> Inl e
      | Inr (new_lcr', st) \<Rightarrow>
          (if st = SWITCH_STATUS_SUCCESS then load_carriers api env new_lcr' (carrier_id + 1) confs
           else Inr (new_lcr', st)))"

text \<open>
  The part of \<open>load_config\<close> before the label \<open>done\<close>: the new database, if it got so far, and
  the status.
\<close>

definition build_config ::
    "fs_api \<Rightarrow> ('h, route_value_t) fs_hash \<Rightarrow> config_env \<Rightarrow> crash + lcr option \<times> switch_status" where
  "build_config api ops env =
     (case ce_conf env of
        None \<Rightarrow> Inr (None, SWITCH_STATUS_FALSE)
      | Some conf \<Rightarrow>
          (if length (cf_carriers conf) > MAX_CARRIERS then Inr (None, SWITCH_STATUS_FALSE)
           else let new_lcr = lcr_create (int (length (cf_carriers conf))) (ce_pool_ok env) (ce_rwlock_ok env)
                in case (case cf_settings conf of
                           None \<Rightarrow> Inr (new_lcr, SWITCH_STATUS_SUCCESS)
                         | Some params \<Rightarrow> load_settings api ops env new_lcr params) of
                     Inl e \<Rightarrow> Inl e
                   | Inr (new_lcr', st) \<Rightarrow>
                       (if st = SWITCH_STATUS_SUCCESS
                        then load_carriers api env new_lcr' 0 (cf_carriers conf)
                        else Inr (new_lcr', st))))"

text \<open>
  \<open>load_config\<close> itself: the database pointer of the module before and after, and the status.
\<close>

definition load_config ::
    "fs_api \<Rightarrow> ('h, route_value_t) fs_hash \<Rightarrow> config_env \<Rightarrow> lcr option
      \<Rightarrow> crash + lcr option \<times> switch_status" where
  "load_config api ops env globals_lcr =
     (case build_config api ops env of
        Inl e \<Rightarrow> Inl e
      | Inr (new_lcr, st) \<Rightarrow>
          Inr (if st \<noteq> SWITCH_STATUS_SUCCESS then globals_lcr else new_lcr, st))"

definition reloadxml_event_handler ::
    "fs_api \<Rightarrow> ('h, route_value_t) fs_hash \<Rightarrow> config_env \<Rightarrow> lcr option \<Rightarrow> crash + lcr option" where
  "reloadxml_event_handler api ops env globals_lcr =
     (case load_config api ops env globals_lcr of Inl e \<Rightarrow> Inl e | Inr (g, st) \<Rightarrow> Inr g)"

definition mod_simple_lcr_load ::
    "fs_api \<Rightarrow> ('h, route_value_t) fs_hash \<Rightarrow> config_env \<Rightarrow> bool \<Rightarrow> bool
      \<Rightarrow> crash + lcr option \<times> switch_status" where
  "mod_simple_lcr_load api ops env mutex_ok bind_ok =
     (if \<not> mutex_ok then Inr (None, SWITCH_STATUS_FALSE)
      else case load_config api ops env None of
             Inl e \<Rightarrow> Inl e
           | Inr (globals_lcr, st) \<Rightarrow>
               Inr (globals_lcr, if \<not> bind_ok then SWITCH_STATUS_FALSE else SWITCH_STATUS_SUCCESS))"

subsection \<open>Costs\<close>

lemma cost_of_small_double:
  assumes "double_less x float_6_5535"
  shows "double_trunc (double_times x 10000) \<le> 65535"
proof -
  have "double_value x < double_value float_6_5535" using assms by (simp add: double_less_value)
  moreover have "double_value float_6_5535 = 6871843 / 2 ^ 20"
    by (simp add: float_6_5535_def double_value_def power_int_def power_divide)
  ultimately have x: "double_value x < 6871843 / 2 ^ 20" by simp
  have "real_of_int (double_trunc (double_times x 10000)) \<le> double_value (double_times x 10000)"
    by (rule double_trunc_le)
  also have "\<dots> \<le> double_value x * real 10000 * (1 + 1 / 2 ^ 52)" by (rule double_times_upper)
  also have "\<dots> < 6871843 / 2 ^ 20 * 10000 * (1 + 1 / 2 ^ 52)"
    using x by (simp add: field_simps)
  also have "\<dots> < 65536" by simp
  finally show ?thesis by linarith
qed

text \<open>
  A cost is converted to one of the two error codes or to a value that fits the 16 bits of
  \<open>route_cost_t\<close>: the conversion of the callers from \<open>int\<close> never wraps.
\<close>

theorem to_route_cost_fits:
  "to_route_cost api s = COST_NO_INPUT \<or> to_route_cost api s = COST_BAD_INPUT \<or>
   0 \<le> to_route_cost api s \<and>
   uint (word_of_int (to_route_cost api s) :: route_cost_t) = to_route_cost api s"
proof -
  have "0 \<le> double_trunc (double_times x 10000) \<and> double_trunc (double_times x 10000) \<le> 65535"
    if "double_less x float_6_5535" for x
    using cost_of_small_double [OF that] double_trunc_nonneg by blast
  then have "to_route_cost api s \<in> {COST_NO_INPUT, COST_BAD_INPUT} \<union> {0..65535}"
    by (auto simp: to_route_cost_def Let_def split: prod.split)
  then show ?thesis by (auto simp: uint_word_of_int)
qed

text \<open>
  The cost is the product with 10000 cut, not rounded, to an integer, and the product of the
  nearest double can lie below the exact one: 0.0003 costs 2 and 0.0006 costs 5.
\<close>

theorem cost_cut_below:
  "to_route_cost documented_api (Some ''0.0003'') = 2 \<and>
   to_route_cost documented_api (Some ''0.0006'') = 5 \<and>
   to_route_cost documented_api (Some ''0.0005'') = 5"
  by (simp add: to_route_cost_def documented_api_def cstr_of_def c_atof_def c_isdigit_def
      c_isspace_def char_int_def digits_value_def digit_index_def float_6_5535_def double_eval)

subsection \<open>What an area file loads\<close>

definition area_fields :: "fs_api \<Rightarrow> string \<Rightarrow> string list" where
  "area_fields api line = fs_separate_string api line CHR '','' 3"

text \<open>The identifiers given so far: positive, bounded by \<open>n\<close> and different for different names.\<close>

definition ids_inv :: "('h, route_value_t) fs_hash \<Rightarrow> 'h \<Rightarrow> route_value_t \<Rightarrow> bool" where
  "ids_inv ops h n \<longleftrightarrow>
     (\<forall>k v. hash_find ops h k = Some v \<longrightarrow> v \<noteq> 0 \<and> unat v \<le> unat n) \<and>
     (\<forall>k k' v. hash_find ops h k = Some v \<and> hash_find ops h k' = Some v \<longrightarrow> k = k')"

lemma ids_inv_new: "hash_documented ops \<Longrightarrow> ids_inv ops (hash_new ops) n"
  by (simp add: ids_inv_def hash_documented_def)

lemma ids_inv_insert:
  assumes "hash_documented ops" "ids_inv ops h n" "hash_find ops h k = None" "unat n < 2 ^ 16 - 1"
  shows "ids_inv ops (hash_insert ops h k (n + 1)) (n + 1)"
proof -
  have n1: "unat (n + 1) = unat n + 1"
    using assms(4) by (simp add: unat_word_ariths)
  then have "n + 1 \<noteq> 0" by (metis add_is_0 unat_0 zero_neq_one)
  moreover have "v \<noteq> n + 1" if "hash_find ops h k' = Some v" for k' v
  proof -
    have "unat v \<le> unat n" using assms(2) that unfolding ids_inv_def by blast
    with n1 show ?thesis by auto
  qed
  ultimately show ?thesis
    using assms(1,2) n1 unfolding ids_inv_def hash_documented_def
    by (auto split: if_splits) (metis le_SucI)+
qed

lemma load_area_lines_Cons:
  "load_area_lines api ops t h n (l # lines) =
     (if 2 \<le> length (area_fields api l)
      then case (case hash_find ops h (area_fields api l ! 1) of Some i \<Rightarrow> (i, h, n)
             | None \<Rightarrow> (n + 1, hash_insert ops h (area_fields api l ! 1) (n + 1), n + 1)) of
           (id1, h1, n1) \<Rightarrow>
             (let t1 = trie_put t (area_fields api l ! 0)
                    \<lparr>rt_cost = 0, rt_value = id1, rt_type = 0\<rparr>
              in if list_all is_digit_char (area_fields api l ! 0)
                 then load_area_lines api ops t1 h1 n1 lines else (t1, SWITCH_STATUS_FALSE))
      else (t, SWITCH_STATUS_FALSE))"
  by (simp add: area_fields_def Let_def route_trie_add_eq split: option.split)

declare load_area_lines.simps(2) [simp del]

lemma load_area_lines_ids:
  assumes "hash_documented ops"
  shows "load_area_lines api ops t h n lines = (t', SWITCH_STATUS_SUCCESS) \<Longrightarrow> ids_inv ops h n \<Longrightarrow>
    unat n + length lines < 2 ^ 16 \<Longrightarrow>
    \<exists>h' n'. ids_inv ops h' n' \<and>
      (\<forall>k v. hash_find ops h k = Some v \<longrightarrow> hash_find ops h' k = Some v) \<and>
      (\<forall>l \<in> set lines. 2 \<le> length (area_fields api l) \<and>
        list_all is_digit_char (area_fields api l ! 0) \<and>
        hash_find ops h' (area_fields api l ! 1) \<noteq> None) \<and>
      t' = trie_load t (map (\<lambda>l. (area_fields api l ! 0,
        \<lparr>rt_cost = 0, rt_value = the (hash_find ops h' (area_fields api l ! 1)), rt_type = 0\<rparr>)) lines)"
proof (induction lines arbitrary: t h n)
  case Nil
  then show ?case by (auto simp: trie_load_def)
next
  case (Cons l lines)
  let ?f = "area_fields api l"
  have f: "2 \<le> length ?f"
    using Cons.prems(1) by (auto simp: load_area_lines_Cons split: if_splits)
  obtain id1 h1 n1 where new: "(id1, h1, n1) = (case hash_find ops h (?f ! 1) of
      Some i \<Rightarrow> (i, h, n) | None \<Rightarrow> (n + 1, hash_insert ops h (?f ! 1) (n + 1), n + 1))"
    by (metis surj_pair)
  let ?r = "\<lparr>rt_cost = 0, rt_value = id1, rt_type = 0\<rparr>"
  have step: "list_all is_digit_char (?f ! 0)"
    "load_area_lines api ops (trie_put t (?f ! 0) ?r) h1 n1 lines = (t', SWITCH_STATUS_SUCCESS)"
    using Cons.prems(1) unfolding load_area_lines_Cons new [symmetric]
    by (simp_all add: f Let_def split: if_splits)
  have inv: "ids_inv ops h1 n1" "hash_find ops h1 (?f ! 1) = Some id1"
    "\<forall>k v. hash_find ops h k = Some v \<longrightarrow> hash_find ops h1 k = Some v"
    "unat n1 + length lines < 2 ^ 16"
  proof -
    have "unat (n + 1) = unat n + 1" using Cons.prems(3) by (simp add: unat_word_ariths)
    then have "ids_inv ops h1 n1 \<and> hash_find ops h1 (?f ! 1) = Some id1 \<and>
        (\<forall>k v. hash_find ops h k = Some v \<longrightarrow> hash_find ops h1 k = Some v) \<and>
        unat n1 + length lines < 2 ^ 16"
      using new Cons.prems(2,3) assms ids_inv_insert [OF assms Cons.prems(2)]
      by (auto simp: hash_documented_def split: option.splits)
    then show "ids_inv ops h1 n1" "hash_find ops h1 (?f ! 1) = Some id1"
      "\<forall>k v. hash_find ops h k = Some v \<longrightarrow> hash_find ops h1 k = Some v"
      "unat n1 + length lines < 2 ^ 16" by auto
  qed
  from Cons.IH [OF step(2) inv(1,4)] obtain h' n' where h': "ids_inv ops h' n'"
    "\<forall>k v. hash_find ops h1 k = Some v \<longrightarrow> hash_find ops h' k = Some v"
    "\<forall>l \<in> set lines. 2 \<le> length (area_fields api l) \<and>
        list_all is_digit_char (area_fields api l ! 0) \<and>
        hash_find ops h' (area_fields api l ! 1) \<noteq> None"
    "t' = trie_load (trie_put t (?f ! 0) ?r) (map (\<lambda>l. (area_fields api l ! 0,
        \<lparr>rt_cost = 0, rt_value = the (hash_find ops h' (area_fields api l ! 1)), rt_type = 0\<rparr>)) lines)"
    by blast
  have "hash_find ops h' (?f ! 1) = Some id1" using h'(2) inv(2) by blast
  then show ?case
    using h' f step(1) inv(3)
    by (intro exI [of _ h'] exI [of _ n']) (auto simp: trie_load_def)
qed

text \<open>
  An area file of fewer than 65536 lines that is accepted loads, for every line, its digits
  with an identifier that is not 0 and that two lines share exactly when they name the same area.
\<close>

theorem area_file_ids:
  assumes "hash_documented ops" "fopen area = Some stream"
    and "load_area_file api ops fopen True t area = (t', SWITCH_STATUS_SUCCESS)"
    and "length (file_lines stream) < 2 ^ 16"
  shows "\<exists>id_of :: string \<Rightarrow> route_value_t.
    t' = trie_load t (map (\<lambda>l. (area_fields api l ! 0,
      \<lparr>rt_cost = 0, rt_value = id_of (area_fields api l ! 1), rt_type = 0\<rparr>)) (file_lines stream)) \<and>
    (\<forall>l \<in> set (file_lines stream). id_of (area_fields api l ! 1) \<noteq> 0 \<and>
      list_all is_digit_char (area_fields api l ! 0) \<and>
      (\<forall>l' \<in> set (file_lines stream).
        (id_of (area_fields api l ! 1) = id_of (area_fields api l' ! 1)) =
        (area_fields api l ! 1 = area_fields api l' ! 1)))"
proof -
  have "load_area_lines api ops t (hash_new ops) 0 (file_lines stream) = (t', SWITCH_STATUS_SUCCESS)"
    using assms(2,3) by (simp add: load_area_file_def)
  from load_area_lines_ids [OF assms(1) this ids_inv_new [OF assms(1)]] assms(4)
  obtain h' n' where h': "ids_inv ops h' n'"
    "\<forall>l \<in> set (file_lines stream). 2 \<le> length (area_fields api l) \<and>
      list_all is_digit_char (area_fields api l ! 0) \<and>
      hash_find ops h' (area_fields api l ! 1) \<noteq> None"
    "t' = trie_load t (map (\<lambda>l. (area_fields api l ! 0,
      \<lparr>rt_cost = 0, rt_value = the (hash_find ops h' (area_fields api l ! 1)), rt_type = 0\<rparr>))
      (file_lines stream))"
    by auto
  have found: "\<exists>v. hash_find ops h' (area_fields api l ! 1) = Some v \<and> v \<noteq> 0"
    if "l \<in> set (file_lines stream)" for l
    using h'(1,2) that unfolding ids_inv_def by blast
  have same: "k = k'" if "hash_find ops h' k = Some v" "hash_find ops h' k' = Some v" for k k' v
    using h'(1) that unfolding ids_inv_def by blast
  show ?thesis
  proof (intro exI [of _ "\<lambda>k. the (hash_find ops h' k)"] conjI ballI)
    show "t' = trie_load t (map (\<lambda>l. (area_fields api l ! 0,
      \<lparr>rt_cost = 0, rt_value = the (hash_find ops h' (area_fields api l ! 1)), rt_type = 0\<rparr>))
      (file_lines stream))" by (rule h'(3))
  next
    fix l assume l: "l \<in> set (file_lines stream)"
    then show "the (hash_find ops h' (area_fields api l ! 1)) \<noteq> 0" using found by force
    show "list_all is_digit_char (area_fields api l ! 0)" using h'(2) l by blast
    fix l' assume "l' \<in> set (file_lines stream)"
    with l found obtain v v' where "hash_find ops h' (area_fields api l ! 1) = Some v"
      "hash_find ops h' (area_fields api l' ! 1) = Some v'" by blast
    with same show "(the (hash_find ops h' (area_fields api l ! 1)) =
        the (hash_find ops h' (area_fields api l' ! 1))) =
      (area_fields api l ! 1 = area_fields api l' ! 1)" by auto
  qed
qed

subsection \<open>What a rate deck loads\<close>

definition deck_fields :: "fs_api \<Rightarrow> string \<Rightarrow> string list" where
  "deck_fields api line = fs_separate_string api line CHR '','' 4"

text \<open>The entries of one cost column: a line without a cost in it has none.\<close>

definition deck_entries ::
    "fs_api \<Rightarrow> route_value_t \<Rightarrow> nat \<Rightarrow> route_type_t \<Rightarrow> string list \<Rightarrow> (string \<times> route) list" where
  "deck_entries api id1 col type1 lines = concat (map (\<lambda>l.
     let cost = to_route_cost api (Some (deck_fields api l ! col))
     in if cost \<ge> 0
        then [(deck_fields api l ! 0,
               \<lparr>rt_cost = word_of_int cost, rt_value = id1, rt_type = type1\<rparr>)]
        else []) lines)"

definition deck_line_ok :: "fs_api \<Rightarrow> string \<Rightarrow> bool" where
  "deck_line_ok api l \<longleftrightarrow> 2 < length (deck_fields api l) \<and>
     to_route_cost api (Some (deck_fields api l ! 1)) \<noteq> COST_BAD_INPUT \<and>
     to_route_cost api (Some (deck_fields api l ! 2)) \<noteq> COST_BAD_INPUT \<and>
     (list_all is_digit_char (deck_fields api l ! 0) \<or>
      to_route_cost api (Some (deck_fields api l ! 1)) < 0 \<and>
      to_route_cost api (Some (deck_fields api l ! 2)) < 0)"

lemma add_cost_Some:
  "add_cost t (Some c) d cost ty = Inr
     (if 0 \<le> cost
      then (trie_put t d \<lparr>rt_cost = word_of_int cost, rt_value = cr_id c, rt_type = ty\<rparr>,
            list_all is_digit_char d)
      else (t, cost \<noteq> COST_BAD_INPUT))"
  by (simp add: add_cost_def COST_BAD_INPUT_def route_trie_add_eq)

lemma load_ratedeck_lines_Cons:
  "load_ratedeck_lines api inter1 intra1 (Some c) (l # lines) =
     (if deck_line_ok api l
      then load_ratedeck_lines api (trie_load inter1 (deck_entries api (cr_id c) 1 1 [l]))
             (trie_load intra1 (deck_entries api (cr_id c) 2 0 [l])) (Some c) lines
      else Inr (if 2 < length (deck_fields api l)
                then trie_load inter1 (deck_entries api (cr_id c) 1 1 [l]) else inter1,
            if 2 < length (deck_fields api l) \<and>
               to_route_cost api (Some (deck_fields api l ! 1)) \<noteq> COST_BAD_INPUT \<and>
               (to_route_cost api (Some (deck_fields api l ! 1)) \<ge> 0 \<longrightarrow>
                list_all is_digit_char (deck_fields api l ! 0))
            then trie_load intra1 (deck_entries api (cr_id c) 2 0 [l]) else intra1,
            SWITCH_STATUS_FALSE))"
  by (auto simp: deck_fields_def deck_line_ok_def add_cost_Some deck_entries_def trie_load_def
      Let_def COST_BAD_INPUT_def)

lemma deck_entries_Cons:
  "deck_entries api i col ty (l # lines) = deck_entries api i col ty [l] @ deck_entries api i col ty lines"
  by (simp add: deck_entries_def)

lemma trie_load_append: "trie_load t (es @ fs) = trie_load (trie_load t es) fs"
  by (simp add: trie_load_def)

declare load_ratedeck_lines.simps(2) [simp del]

lemma load_ratedeck_lines_ok:
  "\<exists>inter' intra' st. load_ratedeck_lines api inter1 intra1 (Some c) lines = Inr (inter', intra', st) \<and>
     (st = SWITCH_STATUS_SUCCESS) = list_all (deck_line_ok api) lines \<and>
     (st = SWITCH_STATUS_SUCCESS \<longrightarrow>
        inter' = trie_load inter1 (deck_entries api (cr_id c) 1 1 lines) \<and>
        intra' = trie_load intra1 (deck_entries api (cr_id c) 2 0 lines))"
proof (induction lines arbitrary: inter1 intra1)
  case Nil
  then show ?case by (simp add: deck_entries_def trie_load_def)
next
  case (Cons l lines)
  show ?case
  proof (cases "deck_line_ok api l")
    case True
    then show ?thesis
      using Cons [of "trie_load inter1 (deck_entries api (cr_id c) 1 1 [l])"
          "trie_load intra1 (deck_entries api (cr_id c) 2 0 [l])"]
      by (simp add: load_ratedeck_lines_Cons deck_entries_Cons [of _ _ _ _ l lines] trie_load_append)
  qed (simp add: load_ratedeck_lines_Cons)
qed

text \<open>
  A rate deck is accepted exactly when each of its lines has its fields, readable costs and,
  if it has a cost at all, a prefix of digits; an accepted deck adds to the inter trie the second
  column and to the intra trie the third one, under the carrier's identifier, and a line without
  a cost in a column adds nothing to that trie.
\<close>

theorem ratedeck_loaded:
  assumes "fopen ratedeck = Some stream"
  shows "\<exists>inter' intra' st.
    load_ratedeck_file api fopen inter1 intra1 (Some c) ratedeck = Inr (inter', intra', st) \<and>
    (st = SWITCH_STATUS_SUCCESS) = list_all (deck_line_ok api) (file_lines stream) \<and>
    (st = SWITCH_STATUS_SUCCESS \<longrightarrow>
       inter' = trie_load inter1 (deck_entries api (cr_id c) 1 1 (file_lines stream)) \<and>
       intra' = trie_load intra1 (deck_entries api (cr_id c) 2 0 (file_lines stream)))"
  using load_ratedeck_lines_ok [of api inter1 intra1 c "file_lines stream"] assms
  by (simp add: load_ratedeck_file_def)

subsection \<open>A configuration is installed whole or not at all\<close>

lemma trie_load_within:
  assumes "trie_wf t" "trie_routes_in R t" "snd ` set es \<subseteq> R" "0 \<notin> rt_value ` R"
  shows "trie_wf (trie_load t es) \<and> trie_routes_in R (trie_load t es) \<and>
    tr_max_routes (trie_load t es) = tr_max_routes t"
  using assms(1-3)
proof (induction es arbitrary: t)
  case (Cons e es)
  have r: "snd e \<in> R" "rt_value (snd e) \<noteq> 0" using Cons.prems(3) assms(4) by force+
  have "trie_wf (trie_put t (fst e) (snd e))" "trie_routes_in R (trie_put t (fst e) (snd e))"
    using Cons.prems r by (simp_all add: rt.put_wf trie_routes_in_put)
  from Cons.IH [OF this] Cons.prems(3) show ?case by (simp add: trie_load_def)
qed (simp add: trie_load_def)

lemma deck_entries_upto:
  "0 < unat i \<Longrightarrow> unat i \<le> n \<Longrightarrow> snd ` set (deck_entries api i col ty lines) \<subseteq> routes_upto n"
  by (auto simp: deck_entries_def routes_upto_def Let_def unat_gt_0 split: if_splits)

lemma deck_tries_within:
  assumes "load_ratedeck_file api fopen inter1 intra1 (Some c) deck = Inr (inter', intra', SWITCH_STATUS_SUCCESS)"
    and "0 < unat (cr_id c)" "unat (cr_id c) \<le> n"
    and "trie_wf inter1" "trie_routes_in (routes_upto n) inter1"
    and "trie_wf intra1" "trie_routes_in (routes_upto n) intra1"
  shows "trie_wf inter' \<and> trie_routes_in (routes_upto n) inter' \<and>
    tr_max_routes inter' = tr_max_routes inter1 \<and>
    trie_wf intra' \<and> trie_routes_in (routes_upto n) intra' \<and>
    tr_max_routes intra' = tr_max_routes intra1"
proof -
  obtain stream where s: "fopen deck = Some stream"
    using assms(1) by (auto simp: load_ratedeck_file_def split: option.splits)
  have z: "0 \<notin> rt_value ` routes_upto n" by (auto simp: routes_upto_def)
  have "inter' = trie_load inter1 (deck_entries api (cr_id c) 1 1 (file_lines stream))"
    "intra' = trie_load intra1 (deck_entries api (cr_id c) 2 0 (file_lines stream))"
    using load_ratedeck_lines_ok [of api inter1 intra1 c "file_lines stream"] assms(1) s
    by (auto simp: load_ratedeck_file_def)
  then show ?thesis
    using trie_load_within [OF assms(4,5) deck_entries_upto [OF assms(2,3)] z]
      trie_load_within [OF assms(6,7) deck_entries_upto [OF assms(2,3)] z]
    by simp
qed

text \<open>The sizes of the tries: the number of carriers modulo 256, the width of \<open>route_size_t\<close>.\<close>

definition lcr_sizes :: "int \<Rightarrow> lcr \<Rightarrow> bool" where
  "lcr_sizes n db \<longleftrightarrow> lcr_num_carriers db = n \<and> trie_wf (lcr_inter_areas db) \<and>
     tr_max_routes (lcr_inter_trie db) = n mod 256 \<and> tr_max_routes (lcr_intra_trie db) = n mod 256 \<and>
     tr_max_routes (lcr_inter_areas db) = n mod 256"

lemma route_trie_create_max: "tr_max_routes (route_trie_create m) = uint m"
  by (simp add: route_trie_create_def)

lemma lcr_create_loaded:
  "\<exists>db. lcr_create n True True = Some db \<and> lcr_loaded 0 db \<and> lcr_sizes n db"
  by (simp add: lcr_create_def lcr_loaded_def lcr_sizes_def carriers_upto_def trie_wf_create
      trie_routes_in_create DEFAULT_MAX_ROUTES_def MAX_ROUTES_def route_trie_create_max
      uint_word_of_int)

lemma lcr_loaded_update [simp]:
  "lcr_loaded k (db\<lparr>lcr_areas := t\<rparr>) = lcr_loaded k db"
  "lcr_loaded k (db\<lparr>lcr_areas_caller_id_strip := i\<rparr>) = lcr_loaded k db"
  "lcr_loaded k (db\<lparr>lcr_areas_caller_id_prefix := s\<rparr>) = lcr_loaded k db"
  "lcr_loaded k (db\<lparr>lcr_areas_dest_strip := i\<rparr>) = lcr_loaded k db"
  "lcr_loaded k (db\<lparr>lcr_areas_dest_prefix := s\<rparr>) = lcr_loaded k db"
  by (simp_all add: lcr_loaded_def)

lemma lcr_sizes_update [simp]:
  "lcr_sizes n (db\<lparr>lcr_areas := t\<rparr>) = lcr_sizes n db"
  "lcr_sizes n (db\<lparr>lcr_areas_caller_id_strip := i\<rparr>) = lcr_sizes n db"
  "lcr_sizes n (db\<lparr>lcr_areas_caller_id_prefix := s\<rparr>) = lcr_sizes n db"
  "lcr_sizes n (db\<lparr>lcr_areas_dest_strip := i\<rparr>) = lcr_sizes n db"
  "lcr_sizes n (db\<lparr>lcr_areas_dest_prefix := s\<rparr>) = lcr_sizes n db"
  by (simp_all add: lcr_sizes_def)

lemma lcr_set_max_routes_loaded:
  "lcr_loaded k db \<Longrightarrow> lcr_loaded k (lcr_set_max_routes db n)"
  using lcr_set_max_routes_range [of db n] by (auto simp: lcr_loaded_def lcr_set_max_routes_def)

lemma lcr_set_max_routes_sizes: "lcr_sizes m db \<Longrightarrow> lcr_sizes m (lcr_set_max_routes db n)"
  by (simp add: lcr_sizes_def lcr_set_max_routes_def)

lemma load_param_loaded:
  assumes "lcr_loaded k db" "lcr_sizes n db"
  shows "\<exists>db' st. load_param api ops env (Some db) name v = Inr (Some db', st) \<and>
    lcr_loaded k db' \<and> lcr_sizes n db'"
  using assms
  by (simp add: load_param_def on_lcr_def Let_def case_prod_unfold lcr_set_max_routes_loaded
      lcr_set_max_routes_sizes)

lemma load_settings_loaded:
  "lcr_loaded k db \<Longrightarrow> lcr_sizes n db \<Longrightarrow>
   \<exists>db' st. load_settings api ops env (Some db) params = Inr (Some db', st) \<and>
     lcr_loaded k db' \<and> lcr_sizes n db'"
proof (induction params arbitrary: db)
  case (Cons p params)
  obtain name v where p: "p = (name, v)" by fastforce
  obtain db' st where db': "load_param api ops env (Some db) name v = Inr (Some db', st)"
    "lcr_loaded k db'" "lcr_sizes n db'"
    using load_param_loaded [OF Cons.prems] by blast
  with p Cons.IH [OF db'(2,3)] show ?case by auto
qed auto

lemma load_gateways_inv:
  "carrier_inv c \<Longrightarrow> \<exists>c' st. load_gateways api (Some c) gws = Inr (Some c', st) \<and>
     carrier_inv c' \<and> cr_id c' = cr_id c"
proof (induction gws arbitrary: c)
  case (Cons g gws)
  obtain p s where g: "g = (p, s)" by fastforce
  obtain c' st where add: "carrier_add_gateway c p s = (c', st)" by fastforce
  then have "carrier_inv c'" using carrier_inv_add_gateway [OF Cons.prems, of p s] by simp
  moreover have "cr_id c' = cr_id c" using add by (auto simp: carrier_add_gateway_def split: if_splits)
  ultimately show ?case using g add Cons.IH [of c'] Cons.prems by auto
qed auto

lemma load_inter_areas_wf:
  "trie_wf t \<Longrightarrow> i \<noteq> 0 \<Longrightarrow> trie_wf (fst (load_inter_areas t i argv)) \<and>
     tr_max_routes (fst (load_inter_areas t i argv)) = tr_max_routes t"
proof (induction argv arbitrary: t)
  case (Cons a argv)
  have "trie_wf (trie_put t a \<lparr>rt_cost = 0, rt_value = i, rt_type = 0\<rparr>)"
    using Cons.prems by (intro rt.put_wf) simp_all
  with Cons.IH [OF this] Cons.prems show ?case by (simp add: route_trie_add_eq)
qed simp

lemma routes_upto_mono: "k \<le> n \<Longrightarrow> routes_upto k \<subseteq> routes_upto n"
  by (auto simp: routes_upto_def)

lemma carriers_upto_Suc:
  assumes "carriers_upto k cs" "k < MAX_CARRIERS" "carrier_inv c" "unat (cr_id c) = Suc k"
  shows "carriers_upto (Suc k) (cs[Suc k := Some c])"
  unfolding carriers_upto_def
proof (intro conjI allI impI)
  show "length (cs[Suc k := Some c]) = MAX_CARRIERS + 1" "Suc k \<le> MAX_CARRIERS"
    using assms(1,2) by (simp_all add: carriers_upto_def)
  fix i assume i: "0 < i \<and> i \<le> Suc k"
  show "\<exists>c'. cs[Suc k := Some c] ! i = Some c' \<and> carrier_inv c' \<and> unat (cr_id c') = i"
  proof (cases "i = Suc k")
    case True
    with assms show ?thesis by (simp add: carriers_upto_def)
  next
    case False
    with i assms(1) show ?thesis by (simp add: carriers_upto_def)
  qed
qed

lemma load_carrier_loaded:
  assumes "lcr_loaded k db" "lcr_sizes n db" "k < MAX_CARRIERS" "unat cid = Suc k"
    and "ce_mutex_ok env cid"
  shows "\<exists>db' st. load_carrier api env (Some db) cid conf = Inr (Some db', st) \<and>
    (st = SWITCH_STATUS_SUCCESS \<longrightarrow> lcr_loaded (Suc k) db' \<and> lcr_sizes n db')"
proof -
  have len: "\<not> length (lcr_carriers db) \<le> unat cid"
    using assms(1,3,4) by (simp add: lcr_loaded_def carriers_upto_def)
  obtain c where c: "carrier_create (cc_name conf) cid True = Some c" "cr_id c = cid"
    by (simp add: carrier_create_def)
  then have inv: "carrier_inv c" by (rule_tac carrier_inv_create)
  have cid: "cid \<noteq> 0" using assms(4) by auto
  let ?db = "set_carrier db cid (Some c)"
  let ?argv = "fs_separate_string api (cc_inter_areas conf) CHR '','' MAX_INTER_AREAS"
  let ?wanted = "\<not> fs_zstr api (Some (cc_inter_areas conf))"
  obtain areas st1 where a: "(if ?wanted \<and> \<not> ce_strdup_ok env cid
      then (lcr_inter_areas ?db, SWITCH_STATUS_FALSE)
      else if ?wanted \<and> length ?argv > 1 then load_inter_areas (lcr_inter_areas ?db) cid ?argv
      else (lcr_inter_areas ?db, SWITCH_STATUS_SUCCESS)) = (areas, st1)" by fastforce
  have areas: "trie_wf areas \<and> tr_max_routes areas = n mod 256"
    using a load_inter_areas_wf [OF _ cid, of "lcr_inter_areas db" ?argv] assms(2)
    by (auto simp: lcr_sizes_def set_carrier_def split: if_splits)
  let ?db1 = "?db\<lparr>lcr_inter_areas := areas\<rparr>"
  obtain c' st2 where g: "load_gateways api (Some c) (cc_gateways conf) = Inr (Some c', st2)"
    "carrier_inv c'" "cr_id c' = cid"
    using load_gateways_inv [OF inv] c(2) by metis
  let ?db2 = "set_carrier ?db1 cid (Some c')"
  have same: "lcr_inter_trie ?db2 = lcr_inter_trie db" "lcr_intra_trie ?db2 = lcr_intra_trie db"
    by (simp_all add: set_carrier_def)
  obtain inter1 intra1 st3 where d: "load_ratedeck_file api (ce_file env) (lcr_inter_trie db)
      (lcr_intra_trie db) (Some c') (cc_ratedeck conf) = Inr (inter1, intra1, st3)"
    using load_ratedeck_lines_ok [of api "lcr_inter_trie db" "lcr_intra_trie db" c']
    unfolding load_ratedeck_file_def by (cases "ce_file env (cc_ratedeck conf)") force+
  let ?db3 = "?db2\<lparr>lcr_inter_trie := inter1, lcr_intra_trie := intra1\<rparr>"
  have "lcr_loaded (Suc k) ?db3 \<and> lcr_sizes n ?db3" if "st3 = SWITCH_STATUS_SUCCESS"
  proof -
    have sub: "routes_upto k \<subseteq> routes_upto (Suc k)" by (rule routes_upto_mono) simp
    then have "trie_wf inter1 \<and> trie_routes_in (routes_upto (Suc k)) inter1 \<and>
        tr_max_routes inter1 = tr_max_routes (lcr_inter_trie db) \<and>
        trie_wf intra1 \<and> trie_routes_in (routes_upto (Suc k)) intra1 \<and>
        tr_max_routes intra1 = tr_max_routes (lcr_intra_trie db)"
      using assms(1,4) g(3) that
      by (intro deck_tries_within [OF d [unfolded that]])
        (auto simp: lcr_loaded_def intro: trie_routes_in_mono)
    moreover have "carriers_upto (Suc k) (lcr_carriers ?db3)"
      using carriers_upto_Suc [of k "lcr_carriers db" c'] assms(1,3,4) g(2,3)
      by (simp add: lcr_loaded_def set_carrier_def)
    ultimately show ?thesis
      using assms(1,2) areas by (simp add: lcr_loaded_def lcr_sizes_def set_carrier_def)
  qed
  then show ?thesis
    using len c(1) a g(1) d same assms(5)
    by (cases "st1 = SWITCH_STATUS_SUCCESS"; cases "st2 = SWITCH_STATUS_SUCCESS")
      (auto simp: load_carrier_def Let_def)
qed

lemma load_carriers_loaded:
  assumes "\<forall>i. ce_mutex_ok env i"
  shows "lcr_loaded k db \<Longrightarrow> lcr_sizes n db \<Longrightarrow> unat cid = k \<Longrightarrow> k + length confs \<le> MAX_CARRIERS \<Longrightarrow>
    \<exists>db' st. load_carriers api env (Some db) cid confs = Inr (Some db', st) \<and>
      (st = SWITCH_STATUS_SUCCESS \<longrightarrow> lcr_loaded (k + length confs) db' \<and> lcr_sizes n db')"
proof (induction confs arbitrary: db cid k)
  case (Cons conf confs)
  have cid: "unat (cid + 1) = Suc k"
    using Cons.prems(3,4) by (simp add: MAX_CARRIERS_def unat_word_ariths)
  obtain db1 st1 where db1: "load_carrier api env (Some db) (cid + 1) conf = Inr (Some db1, st1)"
    "st1 = SWITCH_STATUS_SUCCESS \<longrightarrow> lcr_loaded (Suc k) db1 \<and> lcr_sizes n db1"
    using load_carrier_loaded [OF Cons.prems(1,2) _ cid, of env api conf] Cons.prems(4) assms
    by auto
  show ?case
  proof (cases "st1 = SWITCH_STATUS_SUCCESS")
    case True
    with db1 Cons.IH [of "Suc k" db1 "cid + 1"] cid Cons.prems(4) show ?thesis by auto
  qed (use db1 in simp)
qed auto

lemma build_config_loaded:
  assumes "ce_pool_ok env" "ce_rwlock_ok env" "\<forall>i. ce_mutex_ok env i"
  shows "\<exists>new_lcr st. build_config api ops env = Inr (new_lcr, st) \<and>
    (st = SWITCH_STATUS_SUCCESS \<longrightarrow>
      (\<exists>conf db. ce_conf env = Some conf \<and> length (cf_carriers conf) \<le> MAX_CARRIERS \<and>
        new_lcr = Some db \<and> lcr_loaded (length (cf_carriers conf)) db \<and>
        lcr_sizes (int (length (cf_carriers conf))) db))"
proof (cases "ce_conf env")
  case (Some conf)
  show ?thesis
  proof (cases "length (cf_carriers conf) > MAX_CARRIERS")
    case False
    let ?n = "length (cf_carriers conf)"
    obtain db0 where db0: "lcr_create (int ?n) True True = Some db0" "lcr_loaded 0 db0"
      "lcr_sizes (int ?n) db0"
      using lcr_create_loaded by metis
    let ?settings = "case cf_settings conf of None \<Rightarrow> Inr (Some db0, SWITCH_STATUS_SUCCESS)
        | Some params \<Rightarrow> load_settings api ops env (Some db0) params"
    have "\<exists>db1 st. ?settings = Inr (Some db1, st) \<and> lcr_loaded 0 db1 \<and> lcr_sizes (int ?n) db1"
      using db0(2,3) load_settings_loaded [OF db0(2,3), of api ops env]
      by (cases "cf_settings conf") auto
    then obtain db1 st1 where s: "?settings = Inr (Some db1, st1)" "lcr_loaded 0 db1"
      "lcr_sizes (int ?n) db1" by blast
    obtain db2 st2 where c: "load_carriers api env (Some db1) 0 (cf_carriers conf) = Inr (Some db2, st2)"
      "st2 = SWITCH_STATUS_SUCCESS \<longrightarrow> lcr_loaded ?n db2 \<and> lcr_sizes (int ?n) db2"
      using load_carriers_loaded [OF assms(3) s(2,3), of 0 "cf_carriers conf" api] False by auto
    have "build_config api ops env = (if st1 = SWITCH_STATUS_SUCCESS then Inr (Some db2, st2)
        else Inr (Some db1, st1))"
      using Some False assms(1,2) db0(1) s(1) c(1) by (simp add: build_config_def Let_def)
    with c(2) Some False show ?thesis by auto
  qed (simp add: build_config_def Some)
qed (simp add: build_config_def)

text \<open>
  C14: Loading the configuration always returns when the allocations succeed; a load that fails
  leaves the database of the module as it was, and a load that succeeds replaces it by one in
  which every carrier of the file is present and every stored route names one of them.
\<close>

theorem load_config_atomic:
  assumes "ce_pool_ok env" "ce_rwlock_ok env" "\<forall>i. ce_mutex_ok env i"
  shows "\<exists>g st. load_config api ops env globals_lcr = Inr (g, st) \<and>
    (st \<noteq> SWITCH_STATUS_SUCCESS \<longrightarrow> g = globals_lcr) \<and>
    (st = SWITCH_STATUS_SUCCESS \<longrightarrow>
      (\<exists>conf db. ce_conf env = Some conf \<and> g = Some db \<and>
        lcr_loaded (length (cf_carriers conf)) db \<and>
        lcr_num_carriers db = int (length (cf_carriers conf))))"
  using build_config_loaded [OF assms, of api ops]
  by (auto simp: load_config_def lcr_sizes_def)

definition empty_env :: config_env where
  "empty_env = \<lparr>ce_conf = Some \<lparr>cf_settings = Some [(''max-routes'', ''5'')], cf_carriers = []\<rparr>,
     ce_file = (\<lambda>_. None), ce_pool_ok = True, ce_rwlock_ok = True, ce_area_pool_ok = True,
     ce_mutex_ok = (\<lambda>_. True), ce_strdup_ok = (\<lambda>_. True)\<rparr>"

lemma load_config_atomic_witness:
  "\<exists>g st. load_config documented_api documented_hash empty_env None = Inr (g, st) \<and>
    (st \<noteq> SWITCH_STATUS_SUCCESS \<longrightarrow> g = None)"
  using load_config_atomic [of empty_env documented_api documented_hash None]
  by (auto simp: empty_env_def)


lemma api_never_crashes_witness:
  "\<exists>reply. simple_lcr_function documented_api (lcr_create 1 True True) False True (Some ''5 123'') =
    Inr reply"
proof -
  obtain db where "lcr_create 1 True True = Some db" "lcr_loaded 0 db"
    using lcr_create_loaded by metis
  then show ?thesis using api_never_crashes [of 0 db] by metis
qed

text \<open>
  When the first load of the configuration fails, loading the module still succeeds, and the
  first call, whatever its numbers, dereferences the null database pointer.
\<close>

theorem failed_first_load_crashes_calls:
  assumes "ce_conf env = None"
  shows "mod_simple_lcr_load api ops env True True = Inr (None, SWITCH_STATUS_SUCCESS) \<and>
    simple_lcr_dialplan_redirect api None dest cid True stack = Inl Null_Deref"
  using assms
  by (simp add: mod_simple_lcr_load_def load_config_def build_config_def
      simple_lcr_dialplan_redirect_def Let_def)

lemma failed_first_load_crashes_calls_witness:
  "mod_simple_lcr_load documented_api documented_hash (empty_env\<lparr>ce_conf := None\<rparr>) True True =
    Inr (None, SWITCH_STATUS_SUCCESS)"
  by (rule failed_first_load_crashes_calls [THEN conjunct1]) simp

text \<open>
  A carrier with exactly one inter-area prefix gets none: the only element of \<open>interAreas\<close> is
  neither stored nor checked, and the carrier is never treated as inter-area because of it.
\<close>

theorem single_inter_area_ignored:
  assumes "length (fs_separate_string api (cc_inter_areas conf) CHR '','' MAX_INTER_AREAS) = 1"
    and "load_carrier api env (Some db) cid conf = Inr (Some db', SWITCH_STATUS_SUCCESS)"
  shows "lcr_inter_areas db' = lcr_inter_areas db"
  using assms
  by (auto simp: load_carrier_def Let_def set_carrier_def split: if_splits sum.splits prod.splits)

definition one_area_conf :: carrier_conf where
  "one_area_conf = \<lparr>cc_name = ''acme'', cc_ratedeck = ''deck'', cc_inter_areas = ''44'',
     cc_gateways = []\<rparr>"

lemma single_inter_area_ignored_witness:
  "\<exists>db'. load_carrier documented_api (empty_env\<lparr>ce_file := \<lambda>_. Some []\<rparr>) (lcr_create 1 True True) 1
      one_area_conf = Inr (Some db', SWITCH_STATUS_SUCCESS) \<and>
    lcr_inter_areas db' = route_trie_create 1"
proof -
  let ?env = "empty_env\<lparr>ce_file := \<lambda>_. Some []\<rparr>"
  obtain db where db: "lcr_create 1 True True = Some db" "length (lcr_carriers db) = 257"
    "lcr_inter_areas db = route_trie_create 1"
    by (auto simp: lcr_create_def MAX_CARRIERS_def)
  have lines: "file_lines [] = []"
    by (subst file_lines.simps) (simp add: fgets_trimmed_def c_fgets_def)
  have one: "length (fs_separate_string documented_api (cc_inter_areas one_area_conf)
      CHR '','' MAX_INTER_AREAS) = 1"
    by (simp add: one_area_conf_def documented_api_def MAX_INTER_AREAS_def)
  obtain db' where "load_carrier documented_api ?env (Some db) 1 one_area_conf =
      Inr (Some db', SWITCH_STATUS_SUCCESS)"
    using db one by (auto simp: load_carrier_def Let_def one_area_conf_def empty_env_def
        carrier_create_def load_ratedeck_file_def lines documented_api_def)
  with single_inter_area_ignored [OF one this] db show ?thesis by auto
qed

text \<open>
  The largest number of carriers that is accepted, 256, is 0 in the 8 bits of
  \<open>route_size_t\<close>: the configuration is installed, and then no search ever finds a route.
\<close>

theorem carriers_256_find_nothing:
  assumes "ce_pool_ok env" "ce_rwlock_ok env" "\<forall>i. ce_mutex_ok env i"
    and "ce_conf env = Some conf" "length (cf_carriers conf) = 256"
    and "load_config api ops env globals_lcr = Inr (Some db, SWITCH_STATUS_SUCCESS)"
  shows "snd (lcr_find api db cid dest (route_array_create k)) = 0"
proof -
  have db: "lcr_loaded 256 db" "lcr_sizes 256 db"
    using build_config_loaded [OF assms(1-3), of api ops] assms(4-6)
    by (auto simp: load_config_def split: if_splits)
  have keep: "fst (route_trie_find t key a) = a"
    if "t \<in> {lcr_inter_trie db, lcr_intra_trie db, lcr_inter_areas db}" "ra_inv a" for t key a
    using that db by (intro trie_find_no_slots) (auto simp: lcr_loaded_def lcr_sizes_def)
  have sizes: "ra_size (route_array_create k) = 0" for k
    by (simp add: route_array_create_def)
  have count: "route_trie_find_count (lcr_inter_areas db) key < lcr_num_carriers db" 
    if "route_trie_find_count (lcr_inter_areas db) key = 0" for key
    using that db by (simp add: lcr_sizes_def)
  have mixed: "ra_size (lcr_find_mixed db c d num (route_array_create k)) = 0" for c d num
  proof -
    have z: "snd (route_trie_find t (Some d) (route_array_create m)) = 0"
      if "t \<in> {lcr_inter_trie db, lcr_intra_trie db}" for t m
    proof -
      have f: "fst (route_trie_find t (Some d) (route_array_create m)) = route_array_create m"
        using that by (intro keep ra_inv_create) auto
      show ?thesis
        using trie_find_snd [of t "Some d" "route_array_create m"] unfolding f
        by (simp add: sizes unat_eq_zero)
    qed
    show ?thesis
      by (simp add: lcr_find_mixed_def case_prod_unfold Let_def z sizes)
  qed
  show ?thesis
    using keep [OF _ ra_inv_create] sizes mixed
    by (simp add: lcr_find_def Let_def route_array_get_size_def)
qed

definition plain_conf :: carrier_conf where
  "plain_conf = one_area_conf\<lparr>cc_inter_areas := []\<rparr>"

lemma load_plain_carriers:
  assumes "ce_file env = (\<lambda>_. Some [])" "ce_mutex_ok env = (\<lambda>_. True)"
  shows "length (lcr_carriers db) = 257 \<Longrightarrow> unat cid + m \<le> 256 \<Longrightarrow>
    \<exists>db'. load_carriers documented_api env (Some db) cid (replicate m plain_conf) =
      Inr (Some db', SWITCH_STATUS_SUCCESS)"
proof (induction m arbitrary: db cid)
  case (Suc m)
  have cid: "unat (cid + 1) = Suc (unat cid)" using Suc.prems(2) by (simp add: unat_word_ariths)
  have lines: "file_lines [] = []"
    by (subst file_lines.simps) (simp add: fgets_trimmed_def c_fgets_def)
  obtain db1 where "load_carrier documented_api env (Some db) (cid + 1) plain_conf =
      Inr (Some db1, SWITCH_STATUS_SUCCESS)" "length (lcr_carriers db1) = 257"
    using Suc.prems cid
    by (auto simp: assms load_carrier_def Let_def one_area_conf_def plain_conf_def
        carrier_create_def load_ratedeck_file_def lines documented_api_def set_carrier_def)
  with Suc.IH [of db1 "cid + 1"] Suc.prems(2) cid show ?case by auto
qed simp

lemma carriers_256_find_nothing_witness:
  "\<exists>db. load_config documented_api documented_hash (empty_env\<lparr>ce_file := \<lambda>_. Some [],
      ce_conf := Some \<lparr>cf_settings = None, cf_carriers = replicate 256 plain_conf\<rparr>\<rparr>) None =
      Inr (Some db, SWITCH_STATUS_SUCCESS) \<and>
    snd (lcr_find documented_api db None (Some ''123'') (route_array_create 3)) = 0"
proof -
  let ?env = "empty_env\<lparr>ce_file := \<lambda>_. Some [],
      ce_conf := Some \<lparr>cf_settings = None, cf_carriers = replicate 256 plain_conf\<rparr>\<rparr>"
  obtain db0 where db0: "lcr_create 256 True True = Some db0" "length (lcr_carriers db0) = 257"
    by (auto simp: lcr_create_def MAX_CARRIERS_def)
  obtain db where "load_carriers documented_api ?env (Some db0) 0 (replicate 256 plain_conf) =
      Inr (Some db, SWITCH_STATUS_SUCCESS)"
    using load_plain_carriers [of ?env db0 0 256] db0(2) by (auto simp: empty_env_def)
  then have load: "load_config documented_api documented_hash ?env None =
      Inr (Some db, SWITCH_STATUS_SUCCESS)"
    using db0(1) by (simp add: load_config_def build_config_def MAX_CARRIERS_def empty_env_def)
  show ?thesis
    using carriers_256_find_nothing [OF _ _ _ _ _ load] load by (auto simp: empty_env_def)
qed

lemma area_file_ids_witness:
  "\<exists>t'. load_area_file documented_api documented_hash (\<lambda>_. Some ''1,de'') True
      (route_trie_create 1) ''areas'' = (t', SWITCH_STATUS_SUCCESS) \<and>
    (\<exists>id_of :: string \<Rightarrow> route_value_t. id_of ''de'' \<noteq> 0 \<and>
      t' = trie_load (route_trie_create 1) [(''1'', \<lparr>rt_cost = 0, rt_value = id_of ''de'', rt_type = 0\<rparr>)])"
proof -
  have lines: "file_lines ''1,de'' = [''1,de'']"
    by (simp add: file_lines.simps fgets_trimmed_def c_fgets_def numeral_eq_Suc NUL_def)
  have fields: "area_fields documented_api ''1,de'' = [''1'', ''de'']"
    by (simp add: area_fields_def documented_api_def)
  obtain t' where t': "load_area_file documented_api documented_hash (\<lambda>_. Some ''1,de'') True
      (route_trie_create 1) ''areas'' = (t', SWITCH_STATUS_SUCCESS)"
    by (simp add: load_area_file_def lines load_area_lines_Cons fields Let_def is_digit_char_def
        digit_index_def char_int_def documented_hash_def)
  with area_file_ids [OF documented_hash_ok _ t'] lines fields show ?thesis by auto
qed

lemma ratedeck_loaded_witness:
  "\<exists>inter' intra'. load_ratedeck_file documented_api (\<lambda>_. Some ''1,,'') (route_trie_create 1)
      (route_trie_create 1) (Some sample_carrier) ''deck'' = Inr (inter', intra', SWITCH_STATUS_SUCCESS)"
proof -
  have lines: "file_lines ''1,,'' = [''1,,'']"
    by (simp add: file_lines.simps fgets_trimmed_def c_fgets_def numeral_eq_Suc NUL_def)
  have "deck_line_ok documented_api ''1,,''"
    by (simp add: deck_line_ok_def deck_fields_def documented_api_def to_route_cost_def
        COST_NO_INPUT_def COST_BAD_INPUT_def is_digit_char_def digit_index_def char_int_def
        numeral_eq_Suc)
  then show ?thesis
    using ratedeck_loaded [of "\<lambda>_. Some ''1,,''" "''deck''" "''1,,''" documented_api
        "route_trie_create 1" "route_trie_create 1" sample_carrier] lines
    by auto
qed

end
