(* ===== verification/Lcr_Locking.thy ===== *)
theory Lcr_Locking
  imports C_Prelude
begin

text \<open>
  How calls and reloads of \<open>crienzo/mod_simple_lcr/mod_simple_lcr.c\<close> share the database
  pointer: \<open>lcr_rdlock\<close>, \<open>lcr_unlock\<close>, \<open>lcr_replace\<close> and \<open>lcr_destroy\<close> as the atomic steps of
  any number of threads.  A database is a number; its contents are in the theory
  \<open>Lcr_Database\<close>.  The mutex \<open>update_lock\<close> is its owner; the read locks held on a database
  are the threads that hold it, and \<open>lcr_destroy\<close> takes its write lock, which waits for them,
  and never releases it.
\<close>

type_synonym thread_id = nat
type_synonym db_id = nat

datatype thread_pc =
    Idle
  | Rd_Mutex              \<comment> \<open>\<open>lcr_rdlock\<close> owns \<open>update_lock\<close>\<close>
  | Rd_Pointer db_id      \<comment> \<open>it has read \<open>globals.lcr\<close>\<close>
  | Rd_Locked db_id       \<comment> \<open>it has the read lock and still owns \<open>update_lock\<close>\<close>
  | Reading db_id         \<comment> \<open>between \<open>lcr_rdlock\<close> and \<open>lcr_unlock\<close>\<close>
  | Built db_id           \<comment> \<open>\<open>load_config\<close> has built a new database\<close>
  | Wr_Mutex db_id        \<comment> \<open>\<open>lcr_replace\<close> owns \<open>update_lock\<close>\<close>
  | Wr_Swapped "db_id option"  \<comment> \<open>it has stored the new pointer\<close>
  | Destroying db_id      \<comment> \<open>\<open>lcr_destroy\<close> waits for the write lock\<close>
  | Crashed

record lcr_globals =
  g_update_lock :: "thread_id option"
  g_lcr :: "db_id option"
  g_pc :: "thread_id \<Rightarrow> thread_pc"
  g_freed :: "db_id set"
  g_next :: db_id

definition goto :: "thread_id \<Rightarrow> thread_pc \<Rightarrow> lcr_globals \<Rightarrow> lcr_globals" where
  "goto t pc s = s\<lparr>g_pc := (g_pc s)(t := pc)\<rparr>"

definition read_locked :: "lcr_globals \<Rightarrow> db_id \<Rightarrow> bool" where
  "read_locked s d \<longleftrightarrow> (\<exists>t. g_pc s t = Rd_Locked d \<or> g_pc s t = Reading d)"

inductive lcr_step :: "lcr_globals \<Rightarrow> lcr_globals \<Rightarrow> bool" where
  rd_mutex: "g_pc s t = Idle \<Longrightarrow> g_update_lock s = None \<Longrightarrow>
    lcr_step s (goto t Rd_Mutex (s\<lparr>g_update_lock := Some t\<rparr>))"
| rd_pointer: "g_pc s t = Rd_Mutex \<Longrightarrow> g_lcr s = Some d \<Longrightarrow> lcr_step s (goto t (Rd_Pointer d) s)"
| rd_null: "g_pc s t = Rd_Mutex \<Longrightarrow> g_lcr s = None \<Longrightarrow> lcr_step s (goto t Crashed s)"
| rd_lock: "g_pc s t = Rd_Pointer d \<Longrightarrow> d \<notin> g_freed s \<Longrightarrow> lcr_step s (goto t (Rd_Locked d) s)"
| rd_use_after_free: "g_pc s t = Rd_Pointer d \<Longrightarrow> d \<in> g_freed s \<Longrightarrow> lcr_step s (goto t Crashed s)"
| rd_release: "g_pc s t = Rd_Locked d \<Longrightarrow>
    lcr_step s (goto t (Reading d) (s\<lparr>g_update_lock := None\<rparr>))"
| lcr_unlock: "g_pc s t = Reading d \<Longrightarrow> lcr_step s (goto t Idle s)"
| lcr_build: "g_pc s t = Idle \<Longrightarrow>
    lcr_step s (goto t (Built (g_next s)) (s\<lparr>g_next := g_next s + 1\<rparr>))"
| load_failed: "g_pc s t = Built d \<Longrightarrow> lcr_step s (goto t (Destroying d) s)"
| wr_mutex: "g_pc s t = Built d \<Longrightarrow> g_update_lock s = None \<Longrightarrow>
    lcr_step s (goto t (Wr_Mutex d) (s\<lparr>g_update_lock := Some t\<rparr>))"
| wr_swap: "g_pc s t = Wr_Mutex d \<Longrightarrow>
    lcr_step s (goto t (Wr_Swapped (g_lcr s)) (s\<lparr>g_lcr := Some d\<rparr>))"
| wr_release: "g_pc s t = Wr_Swapped old \<Longrightarrow>
    lcr_step s (goto t (case old of None \<Rightarrow> Idle | Some d \<Rightarrow> Destroying d)
      (s\<lparr>g_update_lock := None\<rparr>))"
| lcr_destroy: "g_pc s t = Destroying d \<Longrightarrow> \<not> read_locked s d \<Longrightarrow>
    lcr_step s (goto t Idle (s\<lparr>g_freed := insert d (g_freed s)\<rparr>))"

inductive_cases lcr_stepE: "lcr_step s s'"

definition lcr_boot :: "lcr_globals" where
  "lcr_boot = \<lparr>g_update_lock = None, g_lcr = None, g_pc = (\<lambda>_. Idle), g_freed = {}, g_next = 0\<rparr>"

subsection \<open>The invariant\<close>

text \<open>The database a loading thread owns: built and not yet installed, or replaced and not yet freed.\<close>

fun owned_db :: "thread_pc \<Rightarrow> db_id option" where
  "owned_db (Built d) = Some d"
| "owned_db (Wr_Mutex d) = Some d"
| "owned_db (Wr_Swapped old) = old"
| "owned_db (Destroying d) = Some d"
| "owned_db _ = None"

text \<open>The program points at which a thread owns \<open>update_lock\<close>.\<close>

fun in_mutex :: "thread_pc \<Rightarrow> bool" where
  "in_mutex Rd_Mutex = True"
| "in_mutex (Rd_Pointer d) = True"
| "in_mutex (Rd_Locked d) = True"
| "in_mutex (Wr_Mutex d) = True"
| "in_mutex (Wr_Swapped old) = True"
| "in_mutex _ = False"

fun pointed_db :: "thread_pc \<Rightarrow> db_id option" where
  "pointed_db (Rd_Pointer d) = Some d"
| "pointed_db (Rd_Locked d) = Some d"
| "pointed_db _ = None"

definition lock_inv :: "lcr_globals \<Rightarrow> bool" where
  "lock_inv s \<longleftrightarrow>
     (\<forall>t. in_mutex (g_pc s t) \<longrightarrow> g_update_lock s = Some t) \<and>
     (\<forall>t d. pointed_db (g_pc s t) = Some d \<longrightarrow> g_lcr s = Some d) \<and>
     (\<forall>t d. g_pc s t = Reading d \<longrightarrow> d \<notin> g_freed s \<and> d < g_next s) \<and>
     (\<forall>t d. owned_db (g_pc s t) = Some d \<longrightarrow> d \<notin> g_freed s \<and> d < g_next s \<and> g_lcr s \<noteq> Some d) \<and>
     (\<forall>t t' d. owned_db (g_pc s t) = Some d \<and> owned_db (g_pc s t') = Some d \<longrightarrow> t = t') \<and>
     (\<forall>d. g_lcr s = Some d \<longrightarrow> d \<notin> g_freed s \<and> d < g_next s) \<and>
     (\<forall>d \<in> g_freed s. d < g_next s)"

lemma lock_inv_boot: "lock_inv lcr_boot"
  by (simp add: lock_inv_def lcr_boot_def)

lemma goto_simps [simp]:
  "g_pc (goto t pc s) = (g_pc s)(t := pc)" "g_update_lock (goto t pc s) = g_update_lock s"
  "g_lcr (goto t pc s) = g_lcr s" "g_freed (goto t pc s) = g_freed s" "g_next (goto t pc s) = g_next s"
  by (simp_all add: goto_def)

lemma lock_invD:
  assumes "lock_inv s"
  shows "in_mutex (g_pc s t) \<Longrightarrow> g_update_lock s = Some t"
    and "pointed_db (g_pc s t) = Some d \<Longrightarrow> g_lcr s = Some d"
    and "g_pc s t = Reading d \<Longrightarrow> d \<notin> g_freed s \<and> d < g_next s"
    and "owned_db (g_pc s t) = Some d \<Longrightarrow> d \<notin> g_freed s \<and> d < g_next s \<and> g_lcr s \<noteq> Some d"
    and "owned_db (g_pc s t) = Some d \<Longrightarrow> owned_db (g_pc s t') = Some d \<Longrightarrow> t = t'"
    and "g_lcr s = Some d \<Longrightarrow> d \<notin> g_freed s \<and> d < g_next s"
    and "d \<in> g_freed s \<Longrightarrow> d < g_next s"
  using assms unfolding lock_inv_def by blast+

text \<open>One thread moves: what has to be checked of it and of the others.\<close>

lemma lock_inv_move:
  assumes "lock_inv s" "g_pc s' = (g_pc s)(t := pc)" "g_next s \<le> g_next s'"
    and "in_mutex pc \<Longrightarrow> g_update_lock s' = Some t"
    and "\<And>t'. t' \<noteq> t \<Longrightarrow> in_mutex (g_pc s t') \<Longrightarrow> g_update_lock s' = Some t'"
    and "\<And>d. pointed_db pc = Some d \<Longrightarrow> g_lcr s' = Some d"
    and "\<And>t' d. t' \<noteq> t \<Longrightarrow> pointed_db (g_pc s t') = Some d \<Longrightarrow> g_lcr s' = Some d"
    and "\<And>d. pc = Reading d \<Longrightarrow> d \<notin> g_freed s' \<and> d < g_next s'"
    and "\<And>t' d. t' \<noteq> t \<Longrightarrow> g_pc s t' = Reading d \<Longrightarrow> d \<notin> g_freed s'"
    and "\<And>d. owned_db pc = Some d \<Longrightarrow> d \<notin> g_freed s' \<and> d < g_next s' \<and> g_lcr s' \<noteq> Some d \<and>
      (\<forall>t'. t' \<noteq> t \<longrightarrow> owned_db (g_pc s t') \<noteq> Some d)"
    and "\<And>t' d. t' \<noteq> t \<Longrightarrow> owned_db (g_pc s t') = Some d \<Longrightarrow> d \<notin> g_freed s' \<and> g_lcr s' \<noteq> Some d"
    and "\<And>d. g_lcr s' = Some d \<Longrightarrow> d \<notin> g_freed s' \<and> d < g_next s'"
    and "\<And>d. d \<in> g_freed s' \<Longrightarrow> d < g_next s'"
  shows "lock_inv s'"
  unfolding lock_inv_def
proof (intro conjI allI impI ballI)
  fix t1 t2 d
  note old = lock_invD [OF assms(1)]
  show "in_mutex (g_pc s' t1) \<Longrightarrow> g_update_lock s' = Some t1"
    using assms(2,4,5) by (cases "t1 = t") auto
  show "pointed_db (g_pc s' t1) = Some d \<Longrightarrow> g_lcr s' = Some d"
    using assms(2,6,7) by (cases "t1 = t") auto
  show "g_pc s' t1 = Reading d \<Longrightarrow> d \<notin> g_freed s'"
    using assms(2,8,9) by (cases "t1 = t") auto
  show "g_pc s' t1 = Reading d \<Longrightarrow> d < g_next s'"
    using assms(2,3,8) old(3) [of t1 d] by (cases "t1 = t") auto
  show "owned_db (g_pc s' t1) = Some d \<Longrightarrow> d \<notin> g_freed s'"
    "owned_db (g_pc s' t1) = Some d \<Longrightarrow> g_lcr s' \<noteq> Some d"
    using assms(2,10,11) by (cases "t1 = t", auto)+
  show "owned_db (g_pc s' t1) = Some d \<Longrightarrow> d < g_next s'"
    using assms(2,3,10) old(4) [of t1 d] by (cases "t1 = t") auto
  show "t1 = t2" if "owned_db (g_pc s' t1) = Some d \<and> owned_db (g_pc s' t2) = Some d"
    using that assms(2) assms(10) [of d] old(5) [of t1 d t2]
    by (cases "t1 = t"; cases "t2 = t") auto
  show "g_lcr s' = Some d \<Longrightarrow> d \<notin> g_freed s'" "g_lcr s' = Some d \<Longrightarrow> d < g_next s'"
    using assms(12) by auto
  show "d \<in> g_freed s' \<Longrightarrow> d < g_next s'" by (rule assms(13))
qed

lemma mutex_excludes:
  "lock_inv s \<Longrightarrow> in_mutex (g_pc s t) \<Longrightarrow> t' \<noteq> t \<Longrightarrow> \<not> in_mutex (g_pc s t')"
  using lock_invD(1) [of s t] lock_invD(1) [of s t'] by auto

lemma pointed_in_mutex: "pointed_db pc = Some d \<Longrightarrow> in_mutex pc"
  by (cases pc) auto

lemma lock_inv_step:
  assumes "lcr_step s s'" "lock_inv s"
  shows "lock_inv s'"
proof -
  note old = lock_invD [OF assms(2)]
  note others = mutex_excludes [OF assms(2)]
  have one_owner: "t' = t" if "owned_db (g_pc s t) = Some d" "owned_db (g_pc s t') = Some d" for t t' d
    using old(5) [OF that] by simp
  from assms(1) show ?thesis
  proof (cases rule: lcr_step.cases)
    case (rd_mutex t)
    show ?thesis unfolding rd_mutex(1)
      by (rule lock_inv_move [OF assms(2), of _ t "Rd_Mutex"])
        (use rd_mutex(2-) old in \<open>auto\<close>)
  next
    case (rd_pointer t d)
    show ?thesis unfolding rd_pointer(1)
      by (rule lock_inv_move [OF assms(2), of _ t "Rd_Pointer d"])
        (use rd_pointer(2-) old in \<open>auto\<close>)
  next
    case (rd_null t)
    show ?thesis unfolding rd_null(1)
      by (rule lock_inv_move [OF assms(2), of _ t "Crashed"])
        (use rd_null(2-) old in \<open>auto\<close>)
  next
    case (rd_lock t d)
    show ?thesis unfolding rd_lock(1)
      by (rule lock_inv_move [OF assms(2), of _ t "Rd_Locked d"])
        (use rd_lock(2-) old old(2) [of t d] in \<open>auto\<close>)
  next
    case (rd_use_after_free t d)
    show ?thesis unfolding rd_use_after_free(1)
      by (rule lock_inv_move [OF assms(2), of _ t "Crashed"])
        (use rd_use_after_free(2-) old in \<open>auto\<close>)
  next
    case (rd_release t d)
    show ?thesis unfolding rd_release(1)
      by (rule lock_inv_move [OF assms(2), of _ t "Reading d"])
        (use rd_release(2-) old old(2) [of t d] others [of t] pointed_in_mutex in \<open>auto\<close>)
  next
    case (lcr_unlock t d)
    show ?thesis unfolding lcr_unlock(1)
      by (rule lock_inv_move [OF assms(2), of _ t "Idle"])
        (use lcr_unlock(2-) old in \<open>auto\<close>)
  next
    case (lcr_build t)
    show ?thesis unfolding lcr_build(1)
      by (rule lock_inv_move [OF assms(2), of _ t "Built (g_next s)"])
        (use lcr_build(2-) old old(7) [of "g_next s"] old(4) [of _ "g_next s"]
         in \<open>auto intro: less_SucI\<close>)
  next
    case (load_failed t d)
    show ?thesis unfolding load_failed(1)
      by (rule lock_inv_move [OF assms(2), of _ t "Destroying d"])
        (use load_failed(2-) old one_owner [of t d] old(4) [of t d] in \<open>auto\<close>)
  next
    case (wr_mutex t d)
    show ?thesis unfolding wr_mutex(1)
      by (rule lock_inv_move [OF assms(2), of _ t "Wr_Mutex d"])
        (use wr_mutex(2-) old one_owner [of t d] old(4) [of t d] in \<open>auto\<close>)
  next
    case (wr_swap t d)
    have no_pointer: "pointed_db (g_pc s t') = None" if "t' \<noteq> t" for t'
      using others [of t t'] that wr_swap(2) pointed_in_mutex by (metis in_mutex.simps(4) option.exhaust)
    have not_owned: "owned_db (g_pc s t') \<noteq> Some d'" if "g_lcr s = Some d'" for t' d'
      using old(4) [of t' d'] that by auto
    have d: "owned_db (g_pc s t) = Some d" "in_mutex (g_pc s t)" using wr_swap(2) by simp_all
    have others_owned: "d' \<notin> g_freed s \<and> d \<noteq> d'" if "t' \<noteq> t" "owned_db (g_pc s t') = Some d'" for t' d'
      using old(4) [OF that(2)] one_owner [OF d(1), of t'] that by auto
    show ?thesis unfolding wr_swap(1)
    proof (rule lock_inv_move [OF assms(2), of _ t "Wr_Swapped (g_lcr s)"], goal_cases)
      case 4
      then show ?case using others [OF d(2)] by simp
    next
      case (9 d')
      then show ?case using old(6) [of d'] old(4) [OF d(1)] not_owned by auto
    qed (use old(1) [OF d(2)] no_pointer old(3) others_owned old(4) [OF d(1)] old(7) in simp_all)
  next
    case (wr_release t old)
    have crit: "in_mutex (g_pc s t)" using wr_release(2) by simp
    have no_pointer: "pointed_db (g_pc s t') = None" if "t' \<noteq> t" for t'
      using others [OF crit that] pointed_in_mutex by (metis option.exhaust)
    have others_owned: "owned_db (g_pc s t') \<noteq> old" if "t' \<noteq> t" "old = Some d'" for t' d'
      using one_owner [of t d' t'] wr_release(2) that by auto
    show ?thesis unfolding wr_release(1)
    proof (rule lock_inv_move [OF assms(2), of _ t "case old of None \<Rightarrow> Idle | Some d \<Rightarrow> Destroying d"],
        goal_cases)
      case 4
      then show ?case using others [OF crit] by simp
    next
      case (9 d')
      then show ?case using old(4) [of t d'] wr_release(2) others_owned by (auto split: option.splits)
    qed (use old no_pointer in \<open>auto split: option.splits\<close>)
  next
    case (lcr_destroy t d)
    show ?thesis unfolding lcr_destroy(1)
      by (rule lock_inv_move [OF assms(2), of _ t "Idle"])
        (use lcr_destroy(2-) old one_owner [of t d] old(4) [of t d] in \<open>auto simp: read_locked_def\<close>)
  qed
qed

lemma lock_inv_reachable: "lcr_step\<^sup>*\<^sup>* s s' \<Longrightarrow> lock_inv s \<Longrightarrow> lock_inv s'"
  by (induction rule: rtranclp_induct) (auto intro: lock_inv_step)

subsection \<open>Properties of the sharing\<close>

text \<open>
  C18: However calls and reloads interleave, a database that a call has the pointer of or is
  reading has not been freed and is not being freed by a thread that no longer waits for
  it; so the read lock is never taken on freed memory.
\<close>

theorem reader_keeps_database:
  assumes "lcr_step\<^sup>*\<^sup>* lcr_boot s"
    and "g_pc s t = Rd_Pointer d \<or> g_pc s t = Rd_Locked d \<or> g_pc s t = Reading d"
  shows "d \<notin> g_freed s \<and> (g_pc s t \<noteq> Reading d \<longrightarrow> (\<forall>t'. g_pc s t' \<noteq> Destroying d))"
proof -
  have inv: "lock_inv s" using lock_inv_reachable [OF assms(1) lock_inv_boot] .
  show ?thesis
  proof (cases "g_pc s t = Reading d")
    case True
    then show ?thesis using lock_invD(3) [OF inv] by blast
  next
    case False
    then have "g_lcr s = Some d" using assms(2) lock_invD(2) [OF inv, of t d] by auto
    moreover from this have "g_pc s t' \<noteq> Destroying d" for t'
      using lock_invD(4) [OF inv, of t' d] by auto
    ultimately show ?thesis using lock_invD(6) [OF inv] by auto
  qed
qed

text \<open>A run in which one thread installs a database and then reads it.\<close>

definition sample_reading :: lcr_globals where
  "sample_reading = \<lparr>g_update_lock = None, g_lcr = Some 0, g_pc = (\<lambda>_. Idle)(0 := Reading 0),
     g_freed = {}, g_next = 1\<rparr>"

lemma sample_reading_run: "lcr_step\<^sup>*\<^sup>* lcr_boot sample_reading"
proof -
  let ?st = "\<lambda>lock g pc. \<lparr>g_update_lock = lock, g_lcr = g, g_pc = (\<lambda>_. Idle)(0 := pc),
     g_freed = {}, g_next = 1\<rparr>"
  have s0: "lcr_step lcr_boot (?st None None (Built 0))"
    using lcr_build [of lcr_boot 0] by (simp add: lcr_boot_def goto_def)
  have s1: "lcr_step (?st None None (Built 0)) (?st (Some 0) None (Wr_Mutex 0))"
    using wr_mutex [of "?st None None (Built 0)" 0 0] by (simp add: goto_def)
  have s2: "lcr_step (?st (Some 0) None (Wr_Mutex 0)) (?st (Some 0) (Some 0) (Wr_Swapped None))"
    using wr_swap [of "?st (Some 0) None (Wr_Mutex 0)" 0 0] by (simp add: goto_def)
  have s3: "lcr_step (?st (Some 0) (Some 0) (Wr_Swapped None)) (?st None (Some 0) Idle)"
    using wr_release [of "?st (Some 0) (Some 0) (Wr_Swapped None)" 0 None] by (simp add: goto_def)
  have s4: "lcr_step (?st None (Some 0) Idle) (?st (Some 0) (Some 0) Rd_Mutex)"
    using rd_mutex [of "?st None (Some 0) Idle" 0] by (simp add: goto_def)
  have s5: "lcr_step (?st (Some 0) (Some 0) Rd_Mutex) (?st (Some 0) (Some 0) (Rd_Pointer 0))"
    using rd_pointer [of "?st (Some 0) (Some 0) Rd_Mutex" 0 0] by (simp add: goto_def)
  have s6: "lcr_step (?st (Some 0) (Some 0) (Rd_Pointer 0)) (?st (Some 0) (Some 0) (Rd_Locked 0))"
    using rd_lock [of "?st (Some 0) (Some 0) (Rd_Pointer 0)" 0 0] by (simp add: goto_def)
  have s7: "lcr_step (?st (Some 0) (Some 0) (Rd_Locked 0)) (?st None (Some 0) (Reading 0))"
    using rd_release [of "?st (Some 0) (Some 0) (Rd_Locked 0)" 0 0] by (simp add: goto_def)
  note run = converse_rtranclp_into_rtranclp [where r = lcr_step]
  show ?thesis
    unfolding sample_reading_def
    by (rule run [OF s0], rule run [OF s1], rule run [OF s2], rule run [OF s3], rule run [OF s4],
        rule run [OF s5], rule run [OF s6], rule run [OF s7 rtranclp.rtrancl_refl])
qed

lemma reader_keeps_database_witness: "0 \<notin> g_freed sample_reading"
  using reader_keeps_database [OF sample_reading_run, of 0 0] by (simp add: sample_reading_def)

text \<open>
  Once a database is installed there is always one: no later call crashes, neither on a null
  pointer nor on a freed database.
\<close>

theorem no_crash_after_load:
  assumes "lcr_step\<^sup>*\<^sup>* lcr_boot s" "g_lcr s \<noteq> None" "\<forall>t. g_pc s t \<noteq> Crashed"
    and "lcr_step\<^sup>*\<^sup>* s s'"
  shows "g_lcr s' \<noteq> None \<and> (\<forall>t. g_pc s' t \<noteq> Crashed)"
  using assms(4)
proof (induction rule: rtranclp_induct)
  case base
  show ?case using assms(2,3) by simp
next
  case (step s1 s2)
  have inv: "lock_inv s1"
    using lock_inv_reachable [OF step(1) lock_inv_reachable [OF assms(1) lock_inv_boot]] .
  from step(2) show ?case
  proof (cases rule: lcr_step.cases)
    case (rd_use_after_free t d)
    then show ?thesis using lock_invD(2) [OF inv, of t d] lock_invD(6) [OF inv] by simp
  qed (use step.IH in \<open>auto split: option.splits\<close>)
qed

lemma no_crash_after_load_witness: "g_lcr (goto 0 Idle sample_reading) \<noteq> None"
proof -
  have "lcr_step sample_reading (goto 0 Idle sample_reading)"
    by (rule lcr_unlock [of _ _ 0]) (simp add: sample_reading_def)
  from no_crash_after_load [OF sample_reading_run _ _ r_into_rtranclp [of lcr_step, OF this]] show ?thesis
    by (simp add: sample_reading_def)
qed



end
