(* ===== verification/Url_Encoding.thy ===== *)
theory Url_Encoding
  imports C_Library
begin

text \<open>
  \<open>mod/applications/mod_http/url_encoding.c\<close>: percent-encoding and its inverse.  The argument
  \<open>url\<close> is the memory the pointer refers to, its NUL included; \<open>l\<close> is the length passed with
  it.  Reading past that memory is a crash.
\<close>

definition url_reserved :: "char \<Rightarrow> bool" where
  "url_reserved c \<longleftrightarrow> (let n = of_char c :: nat in n \<le> 31 \<or> n \<ge> 127) \<or>
     c \<in> set ''$&+,/:;=?@ '' \<or> c = CHR 0x22 \<or> c \<in> set ''<>#%{}|'' \<or> c = CHR 0x5C \<or>
     c \<in> set ''^~[]'' \<or> c = CHR 0x60"

text \<open>\<open>%X\<close> of a value below 16.\<close>

definition hex_digit :: "nat \<Rightarrow> char" where
  "hex_digit n = ''0123456789ABCDEF'' ! n"

fun url_encode_loop :: "string \<Rightarrow> string" where
  "url_encode_loop [] = []"
| "url_encode_loop (c # cs) =
     (if url_reserved c
      then CHR ''%'' # hex_digit (of_char c div 16) # hex_digit (of_char c mod 16) # url_encode_loop cs
      else c # url_encode_loop cs)"

definition url_encode :: "bool \<Rightarrow> string \<Rightarrow> nat \<Rightarrow> crash + string option" where
  "url_encode malloc_ok url l =
     (if \<not> malloc_ok then Inr None
      else if length url < l then Inl Out_Of_Bounds
      else Inr (Some (url_encode_loop (take l url))))"

text \<open>One of the two characters after a percent sign, in upper case already.\<close>

definition hex_value :: "char \<Rightarrow> nat" where
  "hex_value c =
     (let n = of_char c :: nat
      in if 65 \<le> n \<and> n \<le> 70 then n - 65 + 10 else if 48 \<le> n \<and> n \<le> 57 then n - 48 else n)"

text \<open>\<open>(d1 << 4) + d0\<close>, stored in a \<open>char\<close>.\<close>

definition url_decode_pair :: "char \<Rightarrow> char \<Rightarrow> char" where
  "url_decode_pair d1 d0 = char_of ((hex_value (c_toupper d1) * 16 + hex_value (c_toupper d0)) mod 256)"

function url_decode_loop :: "string \<Rightarrow> nat \<Rightarrow> nat \<Rightarrow> crash + string" where
  "url_decode_loop url l i =
     (if i < l
      then if length url \<le> i then Inl Out_Of_Bounds
           else if url ! i = CHR ''%''
           then if length url \<le> i + 2 then Inl Out_Of_Bounds
                else case url_decode_loop url l (i + 3) of
                       Inl e \<Rightarrow> Inl e
                     | Inr s \<Rightarrow> Inr (url_decode_pair (url ! (i + 1)) (url ! (i + 2)) # s)
           else case url_decode_loop url l (i + 1) of
                  Inl e \<Rightarrow> Inl e
                | Inr s \<Rightarrow> Inr (url ! i # s)
      else Inr [])"
  by pat_completeness auto

termination url_decode_loop
  by (relation "measure (\<lambda>(url, l, i). l - i)") auto

declare url_decode_loop.simps [simp del]

definition url_decode :: "bool \<Rightarrow> string \<Rightarrow> nat \<Rightarrow> crash + string option" where
  "url_decode malloc_ok url l =
     (if \<not> malloc_ok then Inr None
      else case url_decode_loop url l 0 of Inl e \<Rightarrow> Inl e | Inr s \<Rightarrow> Inr (Some s))"

subsection \<open>Hexadecimal digits\<close>

lemma of_char_less: "(of_char c :: nat) < 256"
  by (metis mod_less_divisor of_char_mod_256 zero_less_numeral)

lemma below_16:
  assumes "n < 16"
  shows "n \<in> set [0::nat, 1, 2, 3, 4, 5, 6, 7, 8, 9, 10, 11, 12, 13, 14, 15]"
proof -
  have "n \<in> set [0..<16]" using assms by simp
  also have "[0..<16] = [0, 1, 2, 3, 4, 5, 6, 7, 8, 9, 10, 11, 12, 13, 14, 15]"
    by code_simp
  finally show ?thesis .
qed

lemma of_char_div_16: "(of_char c :: nat) div 16 < 16"
  using of_char_less [of c] by (simp add: less_mult_imp_div_less)

lemma hex_value_digit: "n < 16 \<Longrightarrow> hex_value (c_toupper (hex_digit n)) = n"
  by (drule below_16)
    (auto simp: hex_digit_def hex_value_def c_toupper_def c_islower_def char_int_def)

lemma hex_digit_safe: "n < 16 \<Longrightarrow> \<not> url_reserved (hex_digit n)"
  by (drule below_16) (auto simp: hex_digit_def url_reserved_def)

lemma url_decode_pair_encode:
  "url_decode_pair (hex_digit (of_char c div 16)) (hex_digit (of_char c mod 16)) = c"
proof -
  have "url_decode_pair (hex_digit (of_char c div 16)) (hex_digit (of_char c mod 16)) =
      char_of (of_char c mod 256 :: nat)"
    by (simp add: url_decode_pair_def hex_value_digit of_char_div_16)
  then show ?thesis by simp
qed

subsection \<open>Encoding\<close>

lemma length_url_encode_loop: "length (url_encode_loop s) \<le> 3 * length s"
  by (induction s) auto

lemma set_url_encode_loop:
  "c \<in> set (url_encode_loop s) \<Longrightarrow> c = CHR ''%'' \<or> \<not> url_reserved c"
proof (induction s)
  case (Cons x xs)
  then show ?case using hex_digit_safe of_char_div_16 by (auto split: if_splits)
qed simp

lemma percent_reserved: "url_reserved CHR ''%''"
  by (simp add: url_reserved_def)

lemma url_decode_loop_encode:
  "url_decode_loop (pre @ url_encode_loop s @ rest) (length pre + length (url_encode_loop s)) (length pre) =
   Inr s"
proof (induction s arbitrary: pre)
  case Nil
  then show ?case by (simp add: url_decode_loop.simps)
next
  case (Cons c s)
  show ?case
  proof (cases "url_reserved c")
    case True
    let ?hex = "[CHR ''%'', hex_digit (of_char c div 16), hex_digit (of_char c mod 16)]"
    have IH: "url_decode_loop (pre @ ?hex @ url_encode_loop s @ rest)
        (length pre + length (url_encode_loop (c # s))) (length pre + 3) = Inr s"
      using Cons.IH [of "pre @ ?hex"] True by (simp add: numeral_3_eq_3)
    show ?thesis
      using True IH url_decode_pair_encode [of c]
      by (subst url_decode_loop.simps) (simp add: nth_append)
  next
    case False
    then have "c \<noteq> CHR ''%''" using percent_reserved by auto
    moreover have "url_decode_loop (pre @ c # url_encode_loop s @ rest)
        (length pre + length (url_encode_loop (c # s))) (length pre + 1) = Inr s"
      using Cons.IH [of "pre @ [c]"] False by (simp add: add_ac)
    ultimately show ?thesis
      using False by (subst url_decode_loop.simps) simp
  qed
qed

lemma url_decode_loop_length:
  "url_decode_loop url l i = Inr s \<Longrightarrow> length s \<le> l - i"
proof (induction url l i arbitrary: s rule: url_decode_loop.induct)
  case (1 url l i)
  note eq = 1(3) [unfolded url_decode_loop.simps [of url l i]]
  show ?case
  proof (cases "i < l \<and> i < length url")
    case True
    show ?thesis
    proof (cases "url ! i = CHR ''%''")
      case True': True
      then obtain t where "url_decode_loop url l (i + 3) = Inr t" "length s = Suc (length t)"
        "i + 2 < length url"
        using eq True by (auto split: if_splits sum.splits)
      with 1(1) [of t] True True' show ?thesis by fastforce
    next
      case False
      then obtain t where "url_decode_loop url l (i + 1) = Inr t" "length s = Suc (length t)"
        using eq True by (auto split: if_splits sum.splits)
      with 1(2) [of t] True False show ?thesis by fastforce
    qed
  qed (use eq in \<open>auto split: if_splits\<close>)
qed

lemma url_decode_loop_total:
  "l + 2 \<le> length url \<Longrightarrow> \<exists>s. url_decode_loop url l i = Inr s"
proof (induction url l i rule: url_decode_loop.induct)
  case (1 url l i)
  show ?case
  proof (cases "i < l")
    case True
    show ?thesis
    proof (cases "url ! i = CHR ''%''")
      case True': True
      with 1(1) True 1(3) obtain s where "url_decode_loop url l (i + 3) = Inr s" by auto
      with True True' 1(3) show ?thesis by (subst url_decode_loop.simps) simp
    next
      case False
      with 1(2) True 1(3) obtain s where "url_decode_loop url l (i + 1) = Inr s" by auto
      with True False 1(3) show ?thesis by (subst url_decode_loop.simps) simp
    qed
  qed (simp add: url_decode_loop.simps)
qed

lemma url_decode_loop_plain:
  "CHR ''%'' \<notin> set s \<Longrightarrow> i \<le> length s \<Longrightarrow>
   url_decode_loop (s @ [CHR ''%'', NUL]) (length s + 1) i = Inl Out_Of_Bounds"
proof (induction "length s - i" arbitrary: i)
  case 0
  then have "i = length s" by simp
  then show ?case by (subst url_decode_loop.simps) simp
next
  case (Suc k)
  then have i: "i < length s" by simp
  with Suc.prems(1) have "s ! i \<noteq> CHR ''%''" by (metis nth_mem)
  moreover have "url_decode_loop (s @ [CHR ''%'', NUL]) (length s + 1) (i + 1) = Inl Out_Of_Bounds"
    using Suc i by simp
  ultimately show ?case
    using i by (subst url_decode_loop.simps) (simp add: nth_append)
qed

subsection \<open>Properties of the encoding\<close>

text \<open>
  C21: Decoding an encoded text, read as the C string the encoder returns, gives the text back,
  whatever bytes it consists of.
\<close>

theorem url_roundtrip:
  "\<exists>enc. url_encode True s (length s) = Inr (Some enc) \<and>
    url_decode True (enc @ [NUL]) (length enc) = Inr (Some s)"
  using url_decode_loop_encode [of "[]" s "[NUL]"]
  by (simp add: url_encode_def url_decode_def)

text \<open>
  The encoded text fits the buffer of three times the length and is made of percent signs and
  unreserved characters only; in particular it holds no NUL, blank or separator.
\<close>

theorem url_encode_safe:
  assumes "l \<le> length url" "url_encode True url l = Inr (Some enc)"
  shows "length enc \<le> 3 * l \<and> (\<forall>c \<in> set enc. c = CHR ''%'' \<or> \<not> url_reserved c) \<and> NUL \<notin> set enc"
proof -
  have enc: "enc = url_encode_loop (take l url)" using assms by (simp add: url_encode_def split: if_splits)
  have "url_reserved NUL" "NUL \<noteq> CHR ''%''" by (simp_all add: url_reserved_def NUL_def)
  then show ?thesis
    using set_url_encode_loop length_url_encode_loop [of "take l url"] assms(1) unfolding enc by fastforce
qed

lemma url_encode_safe_witness: "NUL \<notin> set ''a%20b'' \<and> length ''a%20b'' \<le> 9"
proof -
  have "url_encode True ''a b'' 3 = Inr (Some ''a%20b'')"
    by (simp add: url_encode_def url_reserved_def hex_digit_def)
  from url_encode_safe [OF _ this] show ?thesis by simp
qed

text \<open>
  Decoding never returns more than \<open>l\<close> characters and never fails when two characters follow
  the text, but a text that ends with a percent sign makes it read past the NUL.
\<close>

theorem url_decode_bounds:
  "(l + 2 \<le> length url \<longrightarrow> (\<exists>s. url_decode True url l = Inr (Some s))) \<and>
   (url_decode True url l = Inr (Some s) \<longrightarrow> length s \<le> l) \<and>
   (CHR ''%'' \<notin> set t \<longrightarrow>
     url_decode True (t @ [CHR ''%'', NUL]) (length t + 1) = Inl Out_Of_Bounds)"
  using url_decode_loop_total [of l url 0] url_decode_loop_length [of url l 0 s]
    url_decode_loop_plain [of t 0]
  by (auto simp: url_decode_def split: sum.splits)

lemma url_decode_bounds_witness:
  "(\<exists>s. url_decode True ''a%2'' 1 = Inr (Some s)) \<and>
   url_decode True [CHR ''a'', CHR ''%'', NUL] 2 = Inl Out_Of_Bounds"
  using url_decode_bounds [of 1 "''a%2''" "[]" "''a''"] by (simp add: numeral_2_eq_2)

end
