(* ===== verification/Http_Response.thy ===== *)
theory Http_Response
  imports C_Library
begin

text \<open>
  The response parser of \<open>mod/applications/mod_http/http_req.c\<close>: the scanner with its state
  functions, \<open>get_next_token\<close>, and \<open>http_parse_response\<close>, which reads the status line, counts
  the headers in a first pass and copies them in a second one.  The buffer is the memory the
  parser may read; reading past it, or copying a negative number of characters, is a crash.
\<close>

datatype token_t = VERSION | STATUS_CODE | PHRASE | HEADER | NEWLINE | SYNTAX_ERROR

datatype accept_state_t = ASWR | ASNR | NOAS

datatype scan_state = State_Start | State_Shp | State_N
  | State_Vhp_A | State_Vhp_B | State_Vhp_C | State_Vhp_D
  | State_Vhp_E | State_Vhp_F | State_Vhp_G | State_Vhp_H
  | State_Hp_A | State_Hp_B | State_P | State_Error

record state_machine =
  sm_state :: scan_state
  sm_pos :: nat
  sm_buf :: string
  sm_buf_len :: nat
  sm_stop :: bool
  sm_token :: token_t

definition init_state_machine :: "string \<Rightarrow> nat \<Rightarrow> state_machine" where
  "init_state_machine buf buf_len =
     \<lparr>sm_state = State_Start, sm_pos = 0, sm_buf = buf, sm_buf_len = buf_len,
      sm_stop = False, sm_token = SYNTAX_ERROR\<rparr>"

definition is_eol :: "char \<Rightarrow> bool" where
  "is_eol c \<longleftrightarrow> c = CR \<or> c = LF"

subsection \<open>The state functions\<close>

text \<open>A state function sets the next state, or the token and accepts.\<close>

definition go_on :: "scan_state \<Rightarrow> state_machine \<Rightarrow> accept_state_t \<times> state_machine" where
  "go_on st sm = (NOAS, sm\<lparr>sm_state := st\<rparr>)"

definition accept_token :: "token_t \<Rightarrow> state_machine \<Rightarrow> accept_state_t \<times> state_machine" where
  "accept_token t sm = (ASNR, sm\<lparr>sm_token := t\<rparr>)"

definition state_start :: "char \<Rightarrow> state_machine \<Rightarrow> accept_state_t \<times> state_machine" where
  "state_start c sm =
     (if c_toupper c = CHR ''H'' then go_on State_Vhp_A sm
      else if c_isdigit c then go_on State_Shp sm
      else if is_eol c then go_on State_N sm
      else if c_isprint c then go_on State_Hp_A sm
      else go_on State_Error sm)"

definition state_shp :: "char \<Rightarrow> state_machine \<Rightarrow> accept_state_t \<times> state_machine" where
  "state_shp c sm =
     (if c_isdigit c then go_on State_Shp sm
      else if c_isblank c then accept_token STATUS_CODE sm
      else if c = CHR '':'' then go_on State_Hp_B sm
      else if is_eol c then go_on State_P sm
      else if c_isprint c then go_on State_Hp_A sm
      else go_on State_Error sm)"

definition state_n :: "char \<Rightarrow> state_machine \<Rightarrow> accept_state_t \<times> state_machine" where
  "state_n c sm =
     (if is_eol c then accept_token NEWLINE sm
      else if c = CHR '':'' then go_on State_Hp_B sm
      else if c_isprint c then go_on State_Hp_A sm
      else go_on State_Error sm)"

text \<open>
  The states A to G of the version have the same shape: the expected character leads on, any
  other printable one to a header or phrase.
\<close>

definition state_vhp :: "bool \<Rightarrow> scan_state \<Rightarrow> char \<Rightarrow> state_machine \<Rightarrow> accept_state_t \<times> state_machine" where
  "state_vhp expected next_state c sm =
     (if expected then go_on next_state sm
      else if c_isprint c then go_on State_Hp_A sm
      else if is_eol c then go_on State_P sm
      else go_on State_Error sm)"

definition state_vhp_A :: "char \<Rightarrow> state_machine \<Rightarrow> accept_state_t \<times> state_machine" where
  "state_vhp_A c = state_vhp (c_toupper c = CHR ''T'') State_Vhp_B c"

definition state_vhp_B :: "char \<Rightarrow> state_machine \<Rightarrow> accept_state_t \<times> state_machine" where
  "state_vhp_B c = state_vhp (c_toupper c = CHR ''T'') State_Vhp_C c"

definition state_vhp_C :: "char \<Rightarrow> state_machine \<Rightarrow> accept_state_t \<times> state_machine" where
  "state_vhp_C c = state_vhp (c_toupper c = CHR ''P'') State_Vhp_D c"

definition state_vhp_D :: "char \<Rightarrow> state_machine \<Rightarrow> accept_state_t \<times> state_machine" where
  "state_vhp_D c = state_vhp (c_toupper c = CHR ''/'') State_Vhp_E c"

definition state_vhp_E :: "char \<Rightarrow> state_machine \<Rightarrow> accept_state_t \<times> state_machine" where
  "state_vhp_E c = state_vhp (c_isdigit c) State_Vhp_F c"

definition state_vhp_F :: "char \<Rightarrow> state_machine \<Rightarrow> accept_state_t \<times> state_machine" where
  "state_vhp_F c sm =
     (if c_isdigit c then go_on State_Vhp_F sm
      else state_vhp (c = CHR ''.'') State_Vhp_G c sm)"

definition state_vhp_G :: "char \<Rightarrow> state_machine \<Rightarrow> accept_state_t \<times> state_machine" where
  "state_vhp_G c = state_vhp (c_isdigit c) State_Vhp_H c"

definition state_vhp_H :: "char \<Rightarrow> state_machine \<Rightarrow> accept_state_t \<times> state_machine" where
  "state_vhp_H c sm =
     (if c_isdigit c then go_on State_Vhp_H sm
      else if c_isblank c then accept_token VERSION sm
      else if c_isprint c then go_on State_Hp_A sm
      else (NOAS, sm))"

definition state_hp_A :: "char \<Rightarrow> state_machine \<Rightarrow> accept_state_t \<times> state_machine" where
  "state_hp_A c sm =
     (if c = CHR '':'' then go_on State_Hp_B sm
      else if is_eol c then go_on State_P sm
      else if c_isprint c then go_on State_Hp_A sm
      else go_on State_Error sm)"

definition state_hp_B :: "char \<Rightarrow> state_machine \<Rightarrow> accept_state_t \<times> state_machine" where
  "state_hp_B c sm =
     (if c_isblank c then accept_token HEADER sm
      else if is_eol c then go_on State_P sm
      else if c = CHR '':'' then go_on State_Hp_B sm
      else if c_isprint c then go_on State_Hp_A sm
      else go_on State_Error sm)"

definition state_p :: "char \<Rightarrow> state_machine \<Rightarrow> accept_state_t \<times> state_machine" where
  "state_p c sm =
     (if is_eol c then accept_token PHRASE sm
      else if c = CHR '':'' then go_on State_Hp_B sm
      else if c_isprint c then go_on State_Hp_A sm
      else go_on State_Error sm)"

definition state_error :: "char \<Rightarrow> state_machine \<Rightarrow> accept_state_t \<times> state_machine" where
  "state_error c sm = accept_token SYNTAX_ERROR sm"

text \<open>The call through the function pointer \<open>sm->state\<close>.\<close>

definition call_state :: "char \<Rightarrow> state_machine \<Rightarrow> accept_state_t \<times> state_machine" where
  "call_state c sm =
     (case sm_state sm of
        State_Start \<Rightarrow> state_start c sm | State_Shp \<Rightarrow> state_shp c sm | State_N \<Rightarrow> state_n c sm
      | State_Vhp_A \<Rightarrow> state_vhp_A c sm | State_Vhp_B \<Rightarrow> state_vhp_B c sm
      | State_Vhp_C \<Rightarrow> state_vhp_C c sm | State_Vhp_D \<Rightarrow> state_vhp_D c sm
      | State_Vhp_E \<Rightarrow> state_vhp_E c sm | State_Vhp_F \<Rightarrow> state_vhp_F c sm
      | State_Vhp_G \<Rightarrow> state_vhp_G c sm | State_Vhp_H \<Rightarrow> state_vhp_H c sm
      | State_Hp_A \<Rightarrow> state_hp_A c sm | State_Hp_B \<Rightarrow> state_hp_B c sm
      | State_P \<Rightarrow> state_p c sm | State_Error \<Rightarrow> state_error c sm)"

lemmas state_defs = state_start_def state_shp_def state_n_def state_vhp_def state_vhp_A_def
  state_vhp_B_def state_vhp_C_def state_vhp_D_def state_vhp_E_def state_vhp_F_def state_vhp_G_def
  state_vhp_H_def state_hp_A_def state_hp_B_def state_p_def state_error_def go_on_def accept_token_def

text \<open>A state function touches the state and the token only, and never asks for a character again.\<close>

lemma call_state_frame:
  "(a, sm') = call_state c sm \<Longrightarrow> a \<noteq> ASWR \<and> sm_pos sm' = sm_pos sm \<and> sm_buf sm' = sm_buf sm \<and>
     sm_buf_len sm' = sm_buf_len sm \<and> sm_stop sm' = sm_stop sm"
  by (cases "sm_state sm") (auto simp: call_state_def state_defs split: if_splits)

subsection \<open>Tokens\<close>

function get_next_token :: "state_machine \<Rightarrow> crash + state_machine \<times> token_t" where
  "get_next_token sm =
     (if sm_stop sm then Inr (sm, SYNTAX_ERROR)
      else if length (sm_buf sm) \<le> sm_pos sm then Inl Out_Of_Bounds
      else case call_state (sm_buf sm ! sm_pos sm) sm of
             (accept, sm1) \<Rightarrow>
               (let sm2 = (if accept = ASWR then sm1 else sm1\<lparr>sm_pos := sm_pos sm1 + 1\<rparr>)
                in if accept \<noteq> NOAS then Inr (sm2\<lparr>sm_state := State_Start\<rparr>, sm_token sm2)
                   else if sm_pos sm2 \<ge> sm_buf_len sm2 then Inr (sm2\<lparr>sm_stop := True\<rparr>, SYNTAX_ERROR)
                   else get_next_token sm2))"
  by pat_completeness auto

termination get_next_token
  by (relation "measure (\<lambda>sm. length (sm_buf sm) - sm_pos sm)")
    (auto dest!: call_state_frame)

declare get_next_token.simps [simp del]

lemma get_next_token_frame:
  "get_next_token sm = Inr (sm', t) \<Longrightarrow> sm_buf sm' = sm_buf sm \<and> sm_buf_len sm' = sm_buf_len sm \<and>
     (\<not> sm_stop sm \<longrightarrow> sm_pos sm < sm_pos sm') \<and>
     (\<not> sm_stop sm' \<longrightarrow> \<not> sm_stop sm \<and> sm_state sm' = State_Start \<and> sm_pos sm' \<le> length (sm_buf sm)) \<and>
     (sm_stop sm' \<longrightarrow> t = SYNTAX_ERROR)"
proof (induction sm arbitrary: sm' t rule: get_next_token.induct)
  case (1 sm)
  note eq = 1(2) [unfolded get_next_token.simps [of sm]]
  show ?case
  proof (cases "sm_stop sm \<or> length (sm_buf sm) \<le> sm_pos sm")
    case False
    obtain a sm1 where call: "call_state (sm_buf sm ! sm_pos sm) sm = (a, sm1)" by fastforce
    note frame = call_state_frame [OF call [symmetric]]
    let ?sm2 = "sm1\<lparr>sm_pos := sm_pos sm1 + 1\<rparr>"
    consider "a = ASNR" | "a = NOAS" "sm_pos ?sm2 \<ge> sm_buf_len ?sm2"
      | "a = NOAS" "\<not> sm_pos ?sm2 \<ge> sm_buf_len ?sm2"
      using frame by (cases a) auto
    then show ?thesis
    proof cases
      case 3
      then have next_token: "get_next_token ?sm2 = Inr (sm', t)"
        using eq False call by (simp add: Let_def)
      have "sm_buf sm' = sm_buf ?sm2 \<and> sm_buf_len sm' = sm_buf_len ?sm2 \<and>
          (\<not> sm_stop ?sm2 \<longrightarrow> sm_pos ?sm2 < sm_pos sm') \<and>
          (\<not> sm_stop sm' \<longrightarrow> \<not> sm_stop ?sm2 \<and> sm_state sm' = State_Start \<and>
            sm_pos sm' \<le> length (sm_buf ?sm2)) \<and>
          (sm_stop sm' \<longrightarrow> t = SYNTAX_ERROR)"
      proof (rule 1(1) [OF _ _ call [symmetric]])
        show "?sm2 = (if a = ASWR then sm1 else sm1\<lparr>sm_pos := sm_pos sm1 + 1\<rparr>)" using 3 by simp
      qed (use 3 False next_token in auto)
      then show ?thesis using frame False by auto
    qed (use eq False call frame in \<open>auto simp: Let_def\<close>)
  qed (use eq in \<open>auto split: if_splits\<close>)
qed

subsection \<open>The response\<close>

record http_header =
  hdr_field_name :: string
  hdr_value :: string

record http_response =
  res_version :: string
  res_status_code :: int
  res_phrase :: string
  res_headers :: "http_header list"
  res_body :: string

definition STATUS_CODE_LEN :: nat where "STATUS_CODE_LEN = 4"

text \<open>
  \<open>strncpy\<close> of \<open>size\<close> characters and the NUL put after them, as the C string that results.
\<close>

definition c_strncpy :: "string \<Rightarrow> nat \<Rightarrow> nat \<Rightarrow> crash + string" where
  "c_strncpy mem pos size1 =
     (let t = take size1 (drop pos mem)
      in if length t < size1 \<and> NUL \<notin> set t then Inl Out_Of_Bounds
         else Inr (takeWhile (\<lambda>c. c \<noteq> NUL) t))"

text \<open>The copies into fresh memory: \<open>None\<close> when \<open>malloc\<close> fails.\<close>

definition copy_text :: "(nat \<Rightarrow> bool) \<Rightarrow> string \<Rightarrow> nat \<Rightarrow> int \<Rightarrow> crash + string option" where
  "copy_text malloc mem pos size1 =
     (if size1 < 0 then Inl Out_Of_Bounds
      else if \<not> malloc (nat size1 + 1) then Inr None
      else case c_strncpy mem pos (nat size1) of Inl e \<Rightarrow> Inl e | Inr s \<Rightarrow> Inr (Some s))"

text \<open>The first pass over the headers; \<open>None\<close> is the return value \<open>ERROR\<close>.\<close>

function count_headers :: "state_machine \<Rightarrow> nat \<Rightarrow> bool \<Rightarrow> crash + (state_machine \<times> nat) option" where
  "count_headers sm nt f =
     (case get_next_token sm of
        Inl e \<Rightarrow> Inl e
      | Inr (sm', token) \<Rightarrow>
          (if token = SYNTAX_ERROR then Inr None
           else if token = HEADER then count_headers sm' (if \<not> f then nt + 1 else nt) (\<not> f)
           else if token = PHRASE \<or> token = STATUS_CODE then count_headers sm' nt False
           else Inr (Some (sm', nt))))"
  by pat_completeness auto

lemma get_next_token_less:
  "get_next_token sm = Inr (sm', t) \<Longrightarrow> t \<noteq> SYNTAX_ERROR \<Longrightarrow>
   length (sm_buf sm') - sm_pos sm' < length (sm_buf sm) - sm_pos sm"
  using get_next_token_frame [of sm sm' t] by auto

termination count_headers
  by (relation "measure (\<lambda>(sm, nt, f). length (sm_buf sm) - sm_pos sm)")
    (auto dest: get_next_token_less)

declare count_headers.simps [simp del]

text \<open>The index of the next CR LF.\<close>

fun find_crlf :: "string \<Rightarrow> nat option" where
  "find_crlf (c # d # cs) =
     (if c = CR \<and> d = LF then Some 0 else map_option Suc (find_crlf (d # cs)))"
| "find_crlf _ = None"

text \<open>
  The second pass.  A value in which a header or a number was seen is taken up to the end of its
  line; the position is then set to \<open>j + 2\<close>, which leaves out the start of the value.
\<close>

definition read_value :: "nat \<Rightarrow> state_machine \<Rightarrow> token_t \<Rightarrow> crash + state_machine \<times> int" where
  "read_value pos sm token =
     (if token = HEADER \<or> token = STATUS_CODE
      then (case find_crlf (drop pos (sm_buf sm)) of
              None \<Rightarrow> Inl Out_Of_Bounds
            | Some j \<Rightarrow> Inr (sm\<lparr>sm_pos := j + 2\<rparr>, int j))
      else Inr (sm, int (sm_pos sm) - int pos - 2))"

fun read_headers ::
    "(nat \<Rightarrow> bool) \<Rightarrow> nat \<Rightarrow> state_machine \<Rightarrow> crash + (http_header list \<times> state_machine) option" where
  "read_headers malloc 0 sm = Inr (Some ([], sm))"
| "read_headers malloc (Suc n) sm =
     (case get_next_token (sm\<lparr>sm_state := State_Start, sm_stop := False\<rparr>) of
        Inl e \<Rightarrow> Inl e
      | Inr (sm1, token1) \<Rightarrow>
     (case copy_text malloc (sm_buf sm1) (sm_pos sm) (int (sm_pos sm1) - int (sm_pos sm) - 2) of
        Inl e \<Rightarrow> Inl e
      | Inr None \<Rightarrow> Inr None
      | Inr (Some name) \<Rightarrow>
     (case get_next_token sm1 of
        Inl e \<Rightarrow> Inl e
      | Inr (sm2, token2) \<Rightarrow>
     (case read_value (sm_pos sm1) sm2 token2 of
        Inl e \<Rightarrow> Inl e
      | Inr (sm3, size1) \<Rightarrow>
     (case copy_text malloc (sm_buf sm3) (sm_pos sm1) size1 of
        Inl e \<Rightarrow> Inl e
      | Inr None \<Rightarrow> Inr None
      | Inr (Some val) \<Rightarrow>
     (case read_headers malloc n sm3 of
        Inl e \<Rightarrow> Inl e
      | Inr None \<Rightarrow> Inr None
      | Inr (Some (hs, sm4)) \<Rightarrow>
          Inr (Some (\<lparr>hdr_field_name = name, hdr_value = val\<rparr> # hs, sm4))))))))"

text \<open>A token of the status line that must have a given kind, and the text it covers.\<close>

definition expect_token ::
    "token_t \<Rightarrow> state_machine \<Rightarrow> crash + state_machine option" where
  "expect_token token sm =
     (case get_next_token sm of
        Inl e \<Rightarrow> Inl e
      | Inr (sm1, t) \<Rightarrow> (if t = token then Inr (Some sm1) else Inr None))"

definition http_parse_body ::
    "(nat \<Rightarrow> bool) \<Rightarrow> string \<Rightarrow> nat \<Rightarrow> state_machine \<Rightarrow> crash + string option" where
  "http_parse_body malloc buf buf_len sm =
     (case expect_token NEWLINE sm of
        Inl e \<Rightarrow> Inl e
      | Inr None \<Rightarrow> Inr None
      | Inr (Some sm1) \<Rightarrow>
          (if buf_len < sm_pos sm1 then Inl Out_Of_Bounds
           else if \<not> malloc (buf_len - sm_pos sm1 + 1) then Inr None
           else Inr (Some (take (buf_len - sm_pos sm1) (drop (sm_pos sm1) buf)))))"

definition http_parse_response ::
    "(nat \<Rightarrow> bool) \<Rightarrow> string \<Rightarrow> nat \<Rightarrow> crash + http_response option" where
  "http_parse_response malloc buf buf_len =
     (let sm0 = init_state_machine buf buf_len
      in case expect_token VERSION sm0 of Inl e \<Rightarrow> Inl e | Inr None \<Rightarrow> Inr None
       | Inr (Some sm1) \<Rightarrow>
     (case copy_text malloc buf 0 (int (sm_pos sm1)) of Inl e \<Rightarrow> Inl e | Inr None \<Rightarrow> Inr None
       | Inr (Some version) \<Rightarrow>
     (case expect_token STATUS_CODE sm1 of Inl e \<Rightarrow> Inl e | Inr None \<Rightarrow> Inr None
       | Inr (Some sm2) \<Rightarrow>
     (case c_strncpy buf (sm_pos sm1) (STATUS_CODE_LEN - 1) of Inl e \<Rightarrow> Inl e
       | Inr buff \<Rightarrow>
     (case expect_token PHRASE sm2 of Inl e \<Rightarrow> Inl e | Inr None \<Rightarrow> Inr None
       | Inr (Some sm3) \<Rightarrow>
     (case copy_text malloc buf (sm_pos sm2) (int (sm_pos sm3) - int (sm_pos sm2) - 2) of
         Inl e \<Rightarrow> Inl e | Inr None \<Rightarrow> Inr None
       | Inr (Some phrase) \<Rightarrow>
     (case count_headers sm3 0 False of Inl e \<Rightarrow> Inl e | Inr None \<Rightarrow> Inr None
       | Inr (Some (sm4, nt)) \<Rightarrow>
          (if nt \<noteq> 0 \<and> \<not> malloc (16 * nt) then Inr None
           else case read_headers malloc nt (sm4\<lparr>sm_pos := sm_pos sm3\<rparr>) of
                  Inl e \<Rightarrow> Inl e | Inr None \<Rightarrow> Inr None
                | Inr (Some (headers, sm5)) \<Rightarrow>
          (case http_parse_body malloc buf buf_len sm5 of Inl e \<Rightarrow> Inl e | Inr None \<Rightarrow> Inr None
           | Inr (Some body) \<Rightarrow>
               Inr (Some \<lparr>res_version = version, res_status_code = c_atoi buff,
                          res_phrase = phrase, res_headers = headers, res_body = body\<rparr>))))))))))"

subsection \<open>The scanner as an automaton\<close>

text \<open>One step of the scanner on its state alone: the next state or the token accepted.\<close>

definition scan_step :: "scan_state \<Rightarrow> char \<Rightarrow> scan_state + token_t" where
  "scan_step st c =
     (let (a, sm) = call_state c ((init_state_machine [] 0)\<lparr>sm_state := st\<rparr>)
      in if a = NOAS then Inl (sm_state sm) else Inr (sm_token sm))"

fun scan :: "scan_state \<Rightarrow> string \<Rightarrow> (token_t \<times> nat) option" where
  "scan st [] = None"
| "scan st (c # cs) =
     (case scan_step st c of
        Inr t \<Rightarrow> Some (t, 1)
      | Inl st' \<Rightarrow> (case scan st' cs of None \<Rightarrow> None | Some (t, n) \<Rightarrow> Some (t, Suc n)))"

lemma call_state_scan:
  "call_state c sm = (case scan_step (sm_state sm) c of
     Inl st \<Rightarrow> (NOAS, sm\<lparr>sm_state := st\<rparr>) | Inr t \<Rightarrow> (ASNR, sm\<lparr>sm_token := t\<rparr>))"
  by (cases sm; cases "sm_state sm")
    (simp_all add: scan_step_def call_state_def state_defs init_state_machine_def)

definition sm_at :: "string \<Rightarrow> nat \<Rightarrow> nat \<Rightarrow> state_machine \<Rightarrow> bool" where
  "sm_at mem len p sm \<longleftrightarrow> sm_buf sm = mem \<and> sm_buf_len sm = len \<and> sm_pos sm = p \<and>
     \<not> sm_stop sm \<and> sm_state sm = State_Start"

lemma get_next_token_scan:
  "scan (sm_state sm) (drop (sm_pos sm) (sm_buf sm)) = Some (t, n) \<Longrightarrow> \<not> sm_stop sm \<Longrightarrow>
   sm_pos sm + n \<le> sm_buf_len sm \<Longrightarrow>
   \<exists>sm'. get_next_token sm = Inr (sm', t) \<and> sm_at (sm_buf sm) (sm_buf_len sm) (sm_pos sm + n) sm'"
proof (induction n arbitrary: sm)
  case 0
  then show ?case by (cases "drop (sm_pos sm) (sm_buf sm)") (auto split: sum.splits option.splits)
next
  case (Suc n)
  have lt: "sm_pos sm < length (sm_buf sm)"
    using Suc.prems(1) by (intro ccontr [of "sm_pos sm < length (sm_buf sm)"]) simp
  then have drop: "drop (sm_pos sm) (sm_buf sm) =
      sm_buf sm ! sm_pos sm # drop (Suc (sm_pos sm)) (sm_buf sm)"
    by (simp add: Cons_nth_drop_Suc)
  show ?case
  proof (cases "scan_step (sm_state sm) (sm_buf sm ! sm_pos sm)")
    case (Inr t')
    then have "t' = t" "n = 0" using Suc.prems(1) by (simp_all add: drop)
    with Inr lt Suc.prems(2) show ?thesis
      by (subst get_next_token.simps) (simp add: call_state_scan Let_def sm_at_def)
  next
    case (Inl st)
    let ?sm = "sm\<lparr>sm_state := st, sm_pos := Suc (sm_pos sm)\<rparr>"
    from Inl Suc.prems(1) have rest: "scan st (drop (Suc (sm_pos sm)) (sm_buf sm)) = Some (t, n)"
      by (auto simp: drop split: option.splits)
    then have "0 < n" by (cases "drop (Suc (sm_pos sm)) (sm_buf sm)") (auto split: sum.splits option.splits)
    then have "get_next_token sm = get_next_token ?sm"
      using Inl lt Suc.prems(2,3) by (subst get_next_token.simps) (simp add: call_state_scan Let_def)
    with Suc.IH [of ?sm] rest Suc.prems(2,3) show ?thesis by simp
  qed
qed

lemma next_token_at:
  assumes "sm_at mem len p sm" "drop p mem = tok @ rest" "scan State_Start (tok @ rest) = Some (t, length tok)"
    and "p + length tok \<le> len"
  obtains sm' where "get_next_token sm = Inr (sm', t)" "sm_at mem len (p + length tok) sm'"
    "drop (p + length tok) mem = rest"
proof -
  have "drop (p + length tok) mem = drop (length tok) (drop p mem)" by (simp add: add.commute)
  then have "drop (p + length tok) mem = rest" by (simp add: assms(2))
  with get_next_token_scan [of sm t "length tok"] assms that show thesis
    by (auto simp: sm_at_def)
qed

subsection \<open>Well-formed responses\<close>

text \<open>
  A text the scanner takes for a phrase or a header name: printable, no colon, not starting with
  a digit or an H, with which a number or a version could start.  A value may also be a number.
\<close>

definition text_char :: "char \<Rightarrow> bool" where
  "text_char c \<longleftrightarrow> c_isprint c \<and> c \<noteq> CHR '':''"

definition plain_text :: "string \<Rightarrow> bool" where
  "plain_text s \<longleftrightarrow> s \<noteq> [] \<and> list_all text_char s \<and> \<not> c_isdigit (hd s) \<and> c_toupper (hd s) \<noteq> CHR ''H''"

definition digits :: "string \<Rightarrow> bool" where
  "digits s \<longleftrightarrow> s \<noteq> [] \<and> list_all c_isdigit s"

definition crlf :: string where "crlf = [CR, LF]"

lemma eol_simps [simp]: "is_eol CR" "is_eol LF"
  by (simp_all add: is_eol_def)

lemma not_print_eol: "is_eol c \<Longrightarrow> \<not> c_isprint c \<and> \<not> c_isdigit c \<and> \<not> c_isblank c \<and> c \<noteq> CHR '':'' \<and>
    c_toupper c \<noteq> CHR ''H''"
  by (auto simp: is_eol_def CR_def LF_def c_isprint_def c_isdigit_def c_isblank_def char_int_def
      c_toupper_def c_islower_def)

lemma digit_facts: "c_isdigit c \<Longrightarrow> \<not> is_eol c \<and> \<not> c_isblank c \<and> c \<noteq> CHR '':'' \<and> c \<noteq> CHR ''.'' \<and> c_isprint c \<and>
    c_toupper c \<noteq> CHR ''H''"
proof -
  assume d: "c_isdigit c"
  then have "c_toupper c = c" "c \<noteq> CHR ''H''" "c \<noteq> CHR '':''" "c \<noteq> CHR ''.''"
    by (auto simp: c_toupper_def c_islower_def c_isdigit_def char_int_def)
  with d not_print_eol [of c] show ?thesis
    by (auto simp: c_isdigit_def c_isblank_def c_isprint_def)
qed

lemma text_char_facts: "text_char c \<Longrightarrow> \<not> is_eol c \<and> c_isprint c \<and> c \<noteq> CHR '':''"
  using not_print_eol by (auto simp: text_char_def)

text \<open>The steps on these characters.\<close>

lemma scan_step_text: "text_char c \<Longrightarrow> scan_step State_Hp_A c = Inl State_Hp_A"
  using text_char_facts [of c]
  by (simp add: scan_step_def call_state_def state_defs init_state_machine_def)

lemma scan_step_start_text:
  "text_char c \<Longrightarrow> \<not> c_isdigit c \<Longrightarrow> c_toupper c \<noteq> CHR ''H'' \<Longrightarrow> scan_step State_Start c = Inl State_Hp_A"
  using text_char_facts [of c]
  by (simp add: scan_step_def call_state_def state_defs init_state_machine_def)

lemma scan_step_digit:
  "c_isdigit c \<Longrightarrow> scan_step State_Start c = Inl State_Shp"
  "c_isdigit c \<Longrightarrow> scan_step State_Shp c = Inl State_Shp"
  "c_isdigit c \<Longrightarrow> scan_step State_Vhp_E c = Inl State_Vhp_F"
  "c_isdigit c \<Longrightarrow> scan_step State_Vhp_F c = Inl State_Vhp_F"
  "c_isdigit c \<Longrightarrow> scan_step State_Vhp_G c = Inl State_Vhp_H"
  "c_isdigit c \<Longrightarrow> scan_step State_Vhp_H c = Inl State_Vhp_H"
  using digit_facts [of c]
  by (simp_all add: scan_step_def call_state_def state_defs init_state_machine_def)

lemma scan_step_end:
  "scan_step State_Hp_A CR = Inl State_P" "scan_step State_Shp CR = Inl State_P"
  "scan_step State_P LF = Inr PHRASE" "scan_step State_Start CR = Inl State_N"
  "scan_step State_N LF = Inr NEWLINE"
  "scan_step State_Hp_A CHR '':'' = Inl State_Hp_B" "scan_step State_Hp_B CHR '' '' = Inr HEADER"
  "scan_step State_Shp CHR '' '' = Inr STATUS_CODE" "scan_step State_Vhp_H CHR '' '' = Inr VERSION"
  "scan_step State_Vhp_F CHR ''.'' = Inl State_Vhp_G"
  using not_print_eol [of CR] not_print_eol [of LF]
  by (simp_all add: scan_step_def call_state_def state_defs init_state_machine_def c_isblank_def
      c_isdigit_def char_int_def is_eol_def CR_def LF_def)

lemma scan_step_http:
  "scan_step State_Start CHR ''H'' = Inl State_Vhp_A" "scan_step State_Vhp_A CHR ''T'' = Inl State_Vhp_B"
  "scan_step State_Vhp_B CHR ''T'' = Inl State_Vhp_C" "scan_step State_Vhp_C CHR ''P'' = Inl State_Vhp_D"
  "scan_step State_Vhp_D CHR ''/'' = Inl State_Vhp_E"
  by (simp_all add: scan_step_def call_state_def state_defs init_state_machine_def c_toupper_def
      c_islower_def char_int_def)

lemma scan_loop:
  assumes "\<And>c. P c \<Longrightarrow> scan_step st c = Inl st"
  shows "list_all P s \<Longrightarrow> scan st (s @ rest) =
    (case scan st rest of None \<Rightarrow> None | Some (t, n) \<Rightarrow> Some (t, length s + n))"
  by (induction s) (auto simp: assms split: option.splits)

text \<open>The tokens of a well-formed response.\<close>

lemma scan_phrase:
  assumes "plain_text s"
  shows "scan State_Start ((s @ crlf) @ rest) = Some (PHRASE, length (s @ crlf))"
proof -
  obtain c cs where s: "s = c # cs" using assms by (cases s) (auto simp: plain_text_def)
  have "scan State_Hp_A (cs @ CR # LF # rest) = Some (PHRASE, length cs + 2)"
    using assms s by (subst scan_loop [of text_char]) (simp_all add: plain_text_def scan_step_text scan_step_end)
  with assms s show ?thesis
    by (simp add: plain_text_def crlf_def scan_step_start_text)
qed

lemma scan_number:
  assumes "digits s"
  shows "scan State_Start ((s @ crlf) @ rest) = Some (PHRASE, length (s @ crlf))"
    and "scan State_Start ((s @ '' '') @ rest) = Some (STATUS_CODE, length (s @ '' ''))"
proof -
  obtain c cs where s: "s = c # cs" using assms by (cases s) (auto simp: digits_def)
  have "scan State_Shp (cs @ CR # LF # rest) = Some (PHRASE, length cs + 2)"
    "scan State_Shp (cs @ CHR '' '' # rest) = Some (STATUS_CODE, length cs + 1)"
    using assms s by (subst scan_loop [of c_isdigit];
        simp add: digits_def scan_step_digit scan_step_end)+
  with assms s show "scan State_Start ((s @ crlf) @ rest) = Some (PHRASE, length (s @ crlf))"
    "scan State_Start ((s @ '' '') @ rest) = Some (STATUS_CODE, length (s @ '' ''))"
    by (simp_all add: digits_def crlf_def scan_step_digit)
qed

lemma scan_header_name:
  assumes "plain_text s"
  shows "scan State_Start ((s @ '': '') @ rest) = Some (HEADER, length (s @ '': ''))"
proof -
  obtain c cs where s: "s = c # cs" using assms by (cases s) (auto simp: plain_text_def)
  have "scan State_Hp_A (cs @ CHR '':'' # CHR '' '' # rest) = Some (HEADER, length cs + 2)"
    using assms s by (subst scan_loop [of text_char]) (simp_all add: plain_text_def scan_step_text scan_step_end)
  with assms s show ?thesis
    by (simp add: plain_text_def scan_step_start_text)
qed

lemma scan_newline: "scan State_Start (crlf @ rest) = Some (NEWLINE, length crlf)"
  by (simp add: crlf_def scan_step_end)

lemma scan_version:
  assumes "digits d" "digits e"
  shows "scan State_Start ((''HTTP/'' @ d @ ''.'' @ e @ '' '') @ rest) =
    Some (VERSION, length (''HTTP/'' @ d @ ''.'' @ e @ '' ''))"
proof -
  obtain c cs where d: "d = c # cs" using assms by (cases d) (auto simp: digits_def)
  obtain c' cs' where e: "e = c' # cs'" using assms by (cases e) (auto simp: digits_def)
  have "scan State_Vhp_H (cs' @ CHR '' '' # rest) = Some (VERSION, length cs' + 1)"
    using assms e by (subst scan_loop [of c_isdigit]) (simp_all add: digits_def scan_step_digit scan_step_end)
  then have "scan State_Vhp_G (e @ CHR '' '' # rest) = Some (VERSION, length e + 1)"
    using assms e by (simp add: digits_def scan_step_digit)
  then have "scan State_Vhp_F (cs @ CHR ''.'' # e @ CHR '' '' # rest) =
      Some (VERSION, length cs + length e + 2)"
    using assms d by (subst scan_loop [of c_isdigit]) (simp_all add: digits_def scan_step_digit scan_step_end)
  with assms d show ?thesis by (simp add: digits_def scan_step_digit scan_step_http)
qed

definition good_header :: "http_header \<Rightarrow> bool" where
  "good_header h \<longleftrightarrow> plain_text (hdr_field_name h) \<and>
     (plain_text (hdr_value h) \<or> digits (hdr_value h))"

definition header_line :: "http_header \<Rightarrow> string" where
  "header_line h = hdr_field_name h @ '': '' @ hdr_value h @ crlf"

lemma scan_value:
  "good_header h \<Longrightarrow>
   scan State_Start ((hdr_value h @ crlf) @ rest) = Some (PHRASE, length (hdr_value h @ crlf))"
  using scan_phrase scan_number(1) by (auto simp: good_header_def)

lemma count_headers_good:
  "sm_at mem len p sm \<Longrightarrow> drop p mem = concat (map header_line hs) @ crlf @ rest \<Longrightarrow>
   p + length (concat (map header_line hs)) + 2 \<le> len \<Longrightarrow> list_all good_header hs \<Longrightarrow>
   \<exists>sm'. count_headers sm nt False = Inr (Some (sm', nt + length hs)) \<and>
     (\<exists>p'. sm_at mem len p' sm')"
proof (induction hs arbitrary: p sm nt)
  case Nil
  obtain sm' where "get_next_token sm = Inr (sm', NEWLINE)" "sm_at mem len (p + length crlf) sm'"
    by (rule next_token_at [OF Nil(1), of crlf rest NEWLINE])
      (use Nil in \<open>simp_all add: scan_step_end crlf_def\<close>)
  moreover from this have "count_headers sm nt False = Inr (Some (sm', nt + length []))"
    by (subst count_headers.simps) simp
  ultimately show ?case by blast
next
  case (Cons h hs)
  let ?more = "concat (map header_line hs) @ crlf @ rest"
  have good: "good_header h" using Cons.prems(4) by simp
  have len: "length (header_line h) = length (hdr_field_name h @ '': '') + length (hdr_value h @ crlf)"
    by (simp add: header_line_def [of h] crlf_def)
  obtain sm1 where sm1: "get_next_token sm = Inr (sm1, HEADER)"
    "sm_at mem len (p + length (hdr_field_name h @ '': '')) sm1"
    "drop (p + length (hdr_field_name h @ '': '')) mem = (hdr_value h @ crlf) @ ?more"
    by (rule next_token_at [OF Cons.prems(1), of "hdr_field_name h @ '': ''" "(hdr_value h @ crlf) @ ?more" HEADER])
      (use Cons.prems good len in \<open>simp_all add: header_line_def [of h] good_header_def
        scan_header_name [of "hdr_field_name h", simplified]\<close>)
  obtain sm2 where sm2: "get_next_token sm1 = Inr (sm2, PHRASE)"
    "sm_at mem len (p + length (header_line h)) sm2"
    "drop (p + length (header_line h)) mem = ?more"
    by (rule next_token_at [OF sm1(2), of "hdr_value h @ crlf" ?more PHRASE])
      (use Cons.prems sm1(3) len scan_value [OF good] in \<open>simp_all add: add_ac\<close>)
  have "\<exists>sm'. count_headers sm2 (nt + 1) False = Inr (Some (sm', nt + 1 + length hs)) \<and>
      (\<exists>p'. sm_at mem len p' sm')"
    by (rule Cons.IH [OF sm2(2,3)]) (use Cons.prems(3,4) in \<open>simp_all\<close>)
  moreover have "count_headers sm nt False = count_headers sm1 (nt + 1) True"
    by (subst count_headers.simps) (simp add: sm1(1))
  moreover have "count_headers sm1 (nt + 1) True = count_headers sm2 (nt + 1) False"
    by (subst count_headers.simps) (simp add: sm2(1))
  ultimately show ?case by simp
qed

lemma copy_text_good:
  "drop p mem = s @ rest \<Longrightarrow> NUL \<notin> set s \<Longrightarrow> n = int (length s) \<Longrightarrow>
   copy_text (\<lambda>_. True) mem p n = Inr (Some s)"
  by (auto simp: copy_text_def c_strncpy_def Let_def takeWhile_eq_all_conv)

lemma NUL_no_class: "\<not> c_isprint NUL" "\<not> c_isdigit NUL"
  by (simp_all add: c_isprint_def c_isdigit_def NUL_def char_int_def)

lemma plain_text_no_NUL: "plain_text s \<Longrightarrow> NUL \<notin> set s"
  using NUL_no_class(1) by (auto simp: plain_text_def list_all_iff text_char_def)

lemma digits_no_NUL: "digits s \<Longrightarrow> NUL \<notin> set s"
  using NUL_no_class(2) by (auto simp: digits_def list_all_iff)

lemma sm_at_reset: "sm_at mem len p sm \<Longrightarrow> sm\<lparr>sm_state := State_Start, sm_stop := False\<rparr> = sm"
  by (cases sm) (simp add: sm_at_def)

lemma read_headers_good:
  "sm_at mem len p sm \<Longrightarrow> drop p mem = concat (map header_line hs) @ rest \<Longrightarrow>
   p + length (concat (map header_line hs)) \<le> len \<Longrightarrow> list_all good_header hs \<Longrightarrow>
   \<exists>sm'. read_headers (\<lambda>_. True) (length hs) sm = Inr (Some (hs, sm')) \<and>
     sm_at mem len (p + length (concat (map header_line hs))) sm'"
proof (induction hs arbitrary: p sm)
  case (Cons h hs)
  let ?more = "concat (map header_line hs) @ rest"
  have good: "good_header h" using Cons.prems(4) by simp
  have len: "length (header_line h) = length (hdr_field_name h @ '': '') + length (hdr_value h @ crlf)"
    by (simp add: header_line_def [of h] crlf_def)
  have at: "drop p mem = hdr_field_name h @ '': '' @ (hdr_value h @ crlf) @ ?more"
    using Cons.prems(2) by (simp add: header_line_def [of h])
  obtain sm1 where sm1: "get_next_token sm = Inr (sm1, HEADER)"
    "sm_at mem len (p + length (hdr_field_name h @ '': '')) sm1"
    "drop (p + length (hdr_field_name h @ '': '')) mem = (hdr_value h @ crlf) @ ?more"
    by (rule next_token_at [OF Cons.prems(1), of "hdr_field_name h @ '': ''" "(hdr_value h @ crlf) @ ?more" HEADER])
      (use Cons.prems good len in \<open>simp_all add: header_line_def [of h] good_header_def
        scan_header_name [of "hdr_field_name h", simplified]\<close>)
  obtain sm2 where sm2: "get_next_token sm1 = Inr (sm2, PHRASE)"
    "sm_at mem len (p + length (header_line h)) sm2"
    "drop (p + length (header_line h)) mem = ?more"
    by (rule next_token_at [OF sm1(2), of "hdr_value h @ crlf" ?more PHRASE])
      (use Cons.prems sm1(3) len scan_value [OF good] in \<open>simp_all add: add_ac\<close>)
  have "NUL \<notin> set (hdr_field_name h)" "NUL \<notin> set (hdr_value h)"
    using good plain_text_no_NUL digits_no_NUL by (auto simp: good_header_def)
  then have name: "copy_text (\<lambda>_. True) mem p (int (length (hdr_field_name h))) =
      Inr (Some (hdr_field_name h))"
    and val: "copy_text (\<lambda>_. True) mem (p + length (hdr_field_name h @ '': ''))
      (int (length (hdr_value h))) = Inr (Some (hdr_value h))"
    using at sm1(3) by (auto intro!: copy_text_good)
  have pos: "sm_pos sm = p" "sm_pos sm1 = p + length (hdr_field_name h @ '': '')" "sm_buf sm1 = mem"
    "sm_pos sm2 = p + length (header_line h)" "sm_buf sm2 = mem"
    using Cons.prems(1) sm1(2) sm2(2) by (simp_all add: sm_at_def)
  have sizes: "int (sm_pos sm1) - int (sm_pos sm) - 2 = int (length (hdr_field_name h))"
    "int (sm_pos sm2) - int (sm_pos sm1) - 2 = int (length (hdr_value h))"
    using len unfolding pos by (simp_all add: crlf_def)
  have step1: "copy_text (\<lambda>_. True) (sm_buf sm1) (sm_pos sm)
      (int (sm_pos sm1) - int (sm_pos sm) - 2) = Inr (Some (hdr_field_name h))"
    unfolding sizes(1) unfolding pos by (rule name)
  have step2: "read_value (sm_pos sm1) sm2 PHRASE = Inr (sm2, int (length (hdr_value h)))"
    by (simp add: read_value_def sizes(2))
  have step3: "copy_text (\<lambda>_. True) (sm_buf sm2) (sm_pos sm1) (int (length (hdr_value h))) =
      Inr (Some (hdr_value h))"
    unfolding pos by (rule val)
  obtain sm' where sm': "read_headers (\<lambda>_. True) (length hs) sm2 = Inr (Some (hs, sm'))"
    "sm_at mem len (p + length (header_line h) + length (concat (map header_line hs))) sm'"
    using Cons.IH [OF sm2(2,3)] Cons.prems(3,4) by auto
  show ?case
    using sm' by (simp add: sm_at_reset [OF Cons.prems(1)] sm1(1) sm2(1) step1 step2 step3 add.assoc)
qed (simp add: sm_at_def)

definition response_text ::
    "string \<Rightarrow> string \<Rightarrow> string \<Rightarrow> string \<Rightarrow> http_header list \<Rightarrow> string \<Rightarrow> string" where
  "response_text major minor code phrase hs body =
     (''HTTP/'' @ major @ ''.'' @ minor @ '' '') @ (code @ '' '') @ (phrase @ crlf) @
     concat (map header_line hs) @ crlf @ body"

lemma parse_good_response:
  assumes "digits major" "digits minor" "digits code" "length code = 3" "plain_text phrase"
    and "list_all good_header hs"
  shows "http_parse_response (\<lambda>_. True) (response_text major minor code phrase hs body @ NUL # junk)
      (length (response_text major minor code phrase hs body)) =
    Inr (Some \<lparr>res_version = ''HTTP/'' @ major @ ''.'' @ minor @ '' '',
               res_status_code = c_atoi code, res_phrase = phrase,
               res_headers = hs, res_body = body\<rparr>)"
proof -
  define v where "v = ''HTTP/'' @ major @ ''.'' @ minor @ '' ''"
  define h where "h = concat (map header_line hs)"
  define mem where "mem = response_text major minor code phrase hs body @ NUL # junk"
  define len where "len = length (response_text major minor code phrase hs body)"
  define tl1 where "tl1 = (phrase @ crlf) @ h @ crlf @ body @ NUL # junk"
  have mem: "mem = v @ (code @ '' '') @ tl1"
    by (simp add: mem_def response_text_def v_def tl1_def h_def)
  have len: "len = length v + length (code @ '' '') + length (phrase @ crlf) + length h + 2 + length body"
    by (simp add: len_def response_text_def v_def h_def crlf_def)
  have sm0: "sm_at mem len 0 (init_state_machine mem len)"
    by (simp add: sm_at_def init_state_machine_def)
  have scan_v: "scan State_Start (v @ rest) = Some (VERSION, length v)" for rest
    unfolding v_def by (rule scan_version [OF assms(1,2)])
  obtain sm1 where sm1: "get_next_token (init_state_machine mem len) = Inr (sm1, VERSION)"
    "sm_at mem len (length v) sm1" "drop (length v) mem = (code @ '' '') @ tl1"
    by (rule next_token_at [OF sm0, of v "(code @ '' '') @ tl1" VERSION])
      (simp_all add: mem len scan_v)
  obtain sm2 where sm2: "get_next_token sm1 = Inr (sm2, STATUS_CODE)"
    "sm_at mem len (length v + 4) sm2" "drop (length v + 4) mem = tl1"
    by (rule next_token_at [OF sm1(2), of "code @ '' ''" tl1 STATUS_CODE])
      (use sm1(3) scan_number(2) [OF assms(3), of tl1] assms(4) in \<open>simp_all add: len\<close>)
  let ?p3 = "length v + 4 + length (phrase @ crlf)"
  obtain sm3 where sm3: "get_next_token sm2 = Inr (sm3, PHRASE)"
    "sm_at mem len ?p3 sm3" "drop ?p3 mem = h @ crlf @ body @ NUL # junk"
    by (rule next_token_at [OF sm2(2), of "phrase @ crlf" "h @ crlf @ body @ NUL # junk" PHRASE])
      (use sm2(3) scan_phrase [OF assms(5)] assms(4) in \<open>simp_all add: len tl1_def\<close>)
  obtain sm4 p4 where sm4: "count_headers sm3 0 False = Inr (Some (sm4, length hs))" "sm_at mem len p4 sm4"
    using count_headers_good [OF sm3(2), of hs "body @ NUL # junk" 0] sm3(3) assms(4,6)
    by (auto simp: len h_def)
  let ?sm5 = "sm4\<lparr>sm_pos := sm_pos sm3\<rparr>"
  have sm5: "sm_at mem len ?p3 ?sm5" using sm3(2) sm4(2) by (simp add: sm_at_def)
  obtain sm6 where sm6: "read_headers (\<lambda>_. True) (length hs) ?sm5 = Inr (Some (hs, sm6))"
    "sm_at mem len (?p3 + length h) sm6"
    using read_headers_good [OF sm5, of hs "crlf @ body @ NUL # junk"] sm3(3) assms(4,6)
    by (auto simp: len h_def)
  have "drop (?p3 + length h) mem = drop (length h) (drop ?p3 mem)"
    by (metis add.commute drop_drop)
  also have "\<dots> = crlf @ body @ NUL # junk" unfolding sm3(3) by simp
  finally have at6: "drop (?p3 + length h) mem = crlf @ body @ NUL # junk" .
  obtain sm7 where sm7: "get_next_token sm6 = Inr (sm7, NEWLINE)"
    "sm_at mem len (?p3 + length h + length crlf) sm7"
    "drop (?p3 + length h + length crlf) mem = body @ NUL # junk"
    by (rule next_token_at [OF sm6(2), of crlf "body @ NUL # junk" NEWLINE])
      (use at6 assms(4) in \<open>simp_all add: len scan_newline, simp add: crlf_def\<close>)
  have body: "http_parse_body (\<lambda>_. True) mem len sm6 = Inr (Some body)"
    using sm7 assms(4) by (simp add: http_parse_body_def expect_token_def sm_at_def len crlf_def)
  have pos: "sm_pos sm1 = length v" "sm_pos sm2 = length v + 4" "sm_pos sm3 = ?p3"
    using sm1(2) sm2(2) sm3(2) by (simp_all add: sm_at_def)
  have "NUL \<notin> set v"
    using digits_no_NUL [OF assms(1)] digits_no_NUL [OF assms(2)] by (auto simp: v_def NUL_def)
  then have version: "copy_text (\<lambda>_. True) mem 0 (int (length v)) = Inr (Some v)"
    by (intro copy_text_good [of _ _ _ "(code @ '' '') @ tl1"]) (simp_all add: mem)
  have "takeWhile (\<lambda>c. c \<noteq> NUL) code = code"
    using digits_no_NUL [OF assms(3)] by (auto simp: takeWhile_eq_all_conv)
  then have code: "c_strncpy mem (length v) (STATUS_CODE_LEN - 1) = Inr code"
    using sm1(3) assms(4) by (simp add: c_strncpy_def STATUS_CODE_LEN_def)
  have phrase: "copy_text (\<lambda>_. True) mem (length v + 4) (int ?p3 - int (length v + 4) - 2) =
      Inr (Some phrase)"
    using sm2(3) plain_text_no_NUL [OF assms(5)]
    by (intro copy_text_good) (auto simp: tl1_def crlf_def)
  show ?thesis
    unfolding mem_def [symmetric] len_def [symmetric] http_parse_response_def Let_def
    by (simp only: expect_token_def sm1(1) sm2(1) sm3(1) sm4(1) sm6(1) [unfolded pos] version code
        phrase body pos sum.case option.case prod.case if_True refl simp_thms) (simp add: v_def)
qed

subsection \<open>The scanner stays in the buffer\<close>

text \<open>
  The buffer \<open>http_req\<close> passes holds \<open>buf_len\<close> characters and a NUL, so the scanner may read at
  position \<open>buf_len\<close>; it stops there.
\<close>

lemma call_state_NUL: "sm_state sm = State_Start \<Longrightarrow> call_state NUL sm = (NOAS, sm\<lparr>sm_state := State_Error\<rparr>)"
  using NUL_no_class
  by (simp add: call_state_def state_defs is_eol_def CR_def LF_def NUL_def c_toupper_def
      c_islower_def char_int_def)

definition scanner_inside :: "state_machine \<Rightarrow> bool" where
  "scanner_inside sm \<longleftrightarrow> sm_buf_len sm < length (sm_buf sm) \<and> sm_buf sm ! sm_buf_len sm = NUL \<and>
     (sm_stop sm \<or> sm_pos sm < sm_buf_len sm \<or> sm_pos sm = sm_buf_len sm \<and> sm_state sm = State_Start)"

lemma get_next_token_inside:
  "scanner_inside sm \<Longrightarrow> \<exists>sm' t. get_next_token sm = Inr (sm', t) \<and> scanner_inside sm'"
proof (induction sm rule: get_next_token.induct)
  case (1 sm)
  show ?case
  proof (cases "sm_stop sm \<or> sm_pos sm = sm_buf_len sm")
    case True
    with "1.prems" show ?thesis
      by (subst get_next_token.simps)
        (auto simp: scanner_inside_def call_state_NUL Let_def)
  next
    case False
    with "1.prems" have pos: "sm_pos sm < sm_buf_len sm" "\<not> sm_stop sm"
        "sm_buf_len sm < length (sm_buf sm)" "sm_buf sm ! sm_buf_len sm = NUL"
      by (auto simp: scanner_inside_def)
    obtain a sm1 where call: "call_state (sm_buf sm ! sm_pos sm) sm = (a, sm1)" by fastforce
    note frame = call_state_frame [OF call [symmetric]]
    let ?sm2 = "sm1\<lparr>sm_pos := sm_pos sm1 + 1\<rparr>"
    consider "a = ASNR" | "a = NOAS" "sm_pos ?sm2 \<ge> sm_buf_len ?sm2"
      | "a = NOAS" "\<not> sm_pos ?sm2 \<ge> sm_buf_len ?sm2"
      using frame by (cases a) auto
    then show ?thesis
    proof cases
      case 3
      then have "get_next_token sm = get_next_token ?sm2"
        using pos call by (subst get_next_token.simps) (simp add: Let_def)
      moreover have "\<exists>sm' t. get_next_token ?sm2 = Inr (sm', t) \<and> scanner_inside sm'"
      proof (rule 1(1) [OF _ _ call [symmetric]])
        show "?sm2 = (if a = ASWR then sm1 else sm1\<lparr>sm_pos := sm_pos sm1 + 1\<rparr>)" using 3 by simp
      qed (use 3 pos frame in \<open>auto simp: scanner_inside_def\<close>)
      ultimately show ?thesis by simp
    qed (use pos call frame in
      \<open>subst get_next_token.simps, auto simp: Let_def scanner_inside_def\<close>)+
  qed
qed

lemma count_headers_inside:
  "scanner_inside sm \<Longrightarrow> \<exists>r. count_headers sm nt f = Inr r"
proof (induction sm nt f rule: count_headers.induct)
  case (1 sm nt f)
  obtain sm' t where next_token: "get_next_token sm = Inr (sm', t)" "scanner_inside sm'"
    using get_next_token_inside [OF "1.prems"] by blast
  consider "t = SYNTAX_ERROR \<or> t = VERSION \<or> t = NEWLINE" | "t = HEADER" | "t = PHRASE \<or> t = STATUS_CODE"
    by (cases t) auto
  then show ?case
  proof cases
    case 2
    have "\<exists>r. count_headers sm' (if \<not> f then nt + 1 else nt) (\<not> f) = Inr r"
      by (rule 1(1) [OF next_token(1) refl]) (use 2 next_token(2) in auto)
    with 2 next_token(1) show ?thesis by (subst count_headers.simps) simp
  next
    case 3
    have "\<exists>r. count_headers sm' nt False = Inr r"
      by (rule 1(2) [OF next_token(1) refl]) (use 3 next_token(2) in auto)
    with 3 next_token(1) show ?thesis by (subst count_headers.simps) auto
  qed (subst count_headers.simps, auto simp: next_token(1))
qed

text \<open>
The first pass of the response parser terminates without reading outside the buffer, whatever
  a server sends: on the \<open>buf_len\<close> characters received and the NUL after them, from every position
  a token can end at, the header count is a value or the parse error, never a crash.
\<close>

theorem header_count_in_bounds:
  assumes "sm_at (received @ NUL # junk) (length received) p sm" "p \<le> length received"
  shows "\<exists>r. count_headers sm nt f = Inr r"
  by (rule count_headers_inside)
    (use assms in \<open>auto simp: scanner_inside_def sm_at_def nth_append\<close>)

lemma header_count_in_bounds_witness:
  "\<exists>r. count_headers (init_state_machine (''A: b'' @ NUL # []) 4) 0 False = Inr r"
  by (rule header_count_in_bounds [of "''A: b''" "[]" 0])
    (simp_all add: sm_at_def init_state_machine_def)



subsection \<open>Values with a number and a blank\<close>

text \<open>A value the scanner ends at the blank after a number, for instance \<open>5 seconds\<close>.\<close>

definition number_value :: "string \<Rightarrow> bool" where
  "number_value s \<longleftrightarrow> (\<exists>d rest. digits d \<and> s = d @ '' '' @ rest \<and> list_all text_char rest)"

lemma find_crlf_line:
  "CR \<notin> set s \<Longrightarrow> find_crlf (s @ CR # LF # rest) = Some (length s)"
proof (induction s)
  case (Cons c s)
  then show ?case by (cases "s @ CR # LF # rest") auto
qed simp

lemma find_crlf_none: "CR \<notin> set s \<Longrightarrow> find_crlf s = None"
  by (induction s rule: find_crlf.induct) auto

lemma text_char_no_eol: "list_all text_char s \<Longrightarrow> CR \<notin> set s \<and> NUL \<notin> set s"
  using text_char_facts [of CR] NUL_no_class(1) by (auto simp: list_all_iff text_char_def)

lemma digits_no_CR: "digits s \<Longrightarrow> CR \<notin> set s"
  using digit_facts [of CR] by (auto simp: digits_def list_all_iff)

lemma number_value_chars: "number_value s \<Longrightarrow> CR \<notin> set s \<and> NUL \<notin> set s"
  using text_char_no_eol digits_no_CR digits_no_NUL
  by (auto simp: number_value_def) (auto simp: CR_def NUL_def)

lemma number_header_tokens:
  assumes "sm_at mem len p sm" "plain_text name" "digits d"
    and "drop p mem = (name @ '': '') @ (d @ '' '') @ rest"
    and "p + length name + 2 + length d + 1 \<le> len"
  obtains sm1 sm2 where
    "get_next_token sm = Inr (sm1, HEADER)" "sm_at mem len (p + length name + 2) sm1"
    "get_next_token sm1 = Inr (sm2, STATUS_CODE)" "sm_buf sm2 = mem"
    "drop (p + length name + 2) mem = d @ '' '' @ rest"
    "copy_text (\<lambda>_. True) mem p (int (length name)) = Inr (Some name)"
proof -
  obtain sm1 where sm1: "get_next_token sm = Inr (sm1, HEADER)"
    "sm_at mem len (p + length (name @ '': '')) sm1"
    "drop (p + length (name @ '': '')) mem = (d @ '' '') @ rest"
    by (rule next_token_at [OF assms(1,4), of HEADER])
      (use assms scan_header_name [OF assms(2), of "d @ '' '' @ rest"] in simp_all)
  obtain sm2 where "get_next_token sm1 = Inr (sm2, STATUS_CODE)"
    "sm_at mem len (p + length (name @ '': '') + length (d @ '' '')) sm2"
    by (rule next_token_at [OF sm1(2,3), of STATUS_CODE])
      (use assms(5) scan_number(2) [OF assms(3), of rest] in simp_all)
  moreover have "copy_text (\<lambda>_. True) mem p (int (length name)) = Inr (Some name)"
    using assms(4) plain_text_no_NUL [OF assms(2)] by (intro copy_text_good) auto
  ultimately show thesis
    using sm1 that by (auto simp: sm_at_def add.assoc)
qed

text \<open>
A header value that starts with a number and a blank is copied correctly, but the parser then
  goes on at offset \<open>j + 2\<close> of the buffer, where \<open>j\<close> is the length of the value, instead of \<open>j + 2\<close>
  characters after the start of the value: whatever precedes the header is forgotten, and the next
  header is read from inside the status line.
\<close>

theorem number_value_loses_position:
  assumes "sm_at mem len p sm" "plain_text name" "number_value val"
    and "drop p mem = header_line \<lparr>hdr_field_name = name, hdr_value = val\<rparr> @ rest"
    and "p + length (header_line \<lparr>hdr_field_name = name, hdr_value = val\<rparr>) \<le> len"
  shows "\<exists>sm'. read_headers (\<lambda>_. True) 1 sm =
      Inr (Some ([\<lparr>hdr_field_name = name, hdr_value = val\<rparr>], sm')) \<and> sm_pos sm' = length val + 2"
proof -
  obtain d more where val: "digits d" "val = d @ '' '' @ more"
    using assms(3) by (auto simp: number_value_def)
  obtain sm1 sm2 where tokens: "get_next_token sm = Inr (sm1, HEADER)"
    "sm_at mem len (p + length name + 2) sm1" "get_next_token sm1 = Inr (sm2, STATUS_CODE)"
    "sm_buf sm2 = mem" "drop (p + length name + 2) mem = d @ '' '' @ more @ crlf @ rest"
    "copy_text (\<lambda>_. True) mem p (int (length name)) = Inr (Some name)"
    by (rule number_header_tokens [OF assms(1,2) val(1), of "more @ crlf @ rest"])
      (use assms(4,5) val(2) in \<open>simp_all add: header_line_def crlf_def\<close>)
  then have at: "drop (p + length name + 2) mem = val @ crlf @ rest" by (simp add: val(2))
  have pos: "sm_pos sm = p" "sm_pos sm1 = p + length name + 2" "sm_buf sm1 = mem"
    using assms(1) tokens(2) by (simp_all add: sm_at_def)
  have line: "read_value (sm_pos sm1) sm2 STATUS_CODE =
      Inr (sm2\<lparr>sm_pos := length val + 2\<rparr>, int (length val))"
    using number_value_chars [OF assms(3)]
    unfolding read_value_def tokens(4) pos at by (simp add: crlf_def find_crlf_line)
  have "copy_text (\<lambda>_. True) mem (p + length name + 2) (int (length val)) = Inr (Some val)"
    using at number_value_chars [OF assms(3)] by (intro copy_text_good) auto
  moreover have "int (sm_pos sm1) - int (sm_pos sm) - 2 = int (length name)" by (simp add: pos)
  ultimately show ?thesis
    using tokens(1,3,4,6) line unfolding One_nat_def
    by (simp add: sm_at_reset [OF assms(1)] pos)
qed

lemma number_value_loses_position_witness:
  "\<exists>sm'. read_headers (\<lambda>_. True) 1 (init_state_machine (''Age: 5 s'' @ crlf @ ''X: y'' @ [NUL]) 14) =
     Inr (Some ([\<lparr>hdr_field_name = ''Age'', hdr_value = ''5 s''\<rparr>], sm')) \<and> sm_pos sm' = length ''5 s'' + 2"
  by (rule number_value_loses_position [of _ 14 0 _ "''Age''" "''5 s''" "''X: y'' @ [NUL]"])
    (simp_all add: sm_at_def init_state_machine_def plain_text_def text_char_def number_value_def
      c_isprint_def c_isdigit_def char_int_def c_toupper_def c_islower_def header_line_def crlf_def
      digits_def exI [of _ "''5''"])

text \<open>
A server can make the parser read past its buffer: when a value starts with a number and a
  blank and no carriage return follows, the search for the end of the line does not stop at the
  NUL, although the first pass accepts two line feeds as the end of a header.
\<close>

theorem value_without_cr_overruns:
  assumes "sm_at mem len p sm" "plain_text name" "digits d" "CR \<notin> set rest"
    and "drop p mem = (name @ '': '') @ (d @ '' '') @ rest"
    and "p + length name + 2 + length d + 1 \<le> len"
  shows "read_headers (\<lambda>_. True) (Suc n) sm = Inl Out_Of_Bounds"
proof -
  obtain sm1 sm2 where tokens: "get_next_token sm = Inr (sm1, HEADER)"
    "sm_at mem len (p + length name + 2) sm1" "get_next_token sm1 = Inr (sm2, STATUS_CODE)"
    "sm_buf sm2 = mem" "drop (p + length name + 2) mem = d @ '' '' @ rest"
    "copy_text (\<lambda>_. True) mem p (int (length name)) = Inr (Some name)"
    using number_header_tokens [OF assms(1-3,5,6)] by blast
  have pos: "sm_pos sm = p" "sm_pos sm1 = p + length name + 2" "sm_buf sm1 = mem"
    using assms(1) tokens(2) by (simp_all add: sm_at_def)
  have "CR \<notin> set (d @ '' '' @ rest)"
    using digits_no_CR [OF assms(3)] assms(4) by (auto simp: CR_def)
  then have "read_value (sm_pos sm1) sm2 STATUS_CODE = Inl Out_Of_Bounds"
    unfolding read_value_def tokens(4) pos tokens(5) by (simp add: find_crlf_none del: append.simps)
  moreover have "int (sm_pos sm1) - int (sm_pos sm) - 2 = int (length name)" by (simp add: pos)
  ultimately show ?thesis
    using tokens(1,3,6) by (simp add: sm_at_reset [OF assms(1)] pos)
qed

lemma value_without_cr_overruns_witness:
  "read_headers (\<lambda>_. True) (Suc 0) (init_state_machine (''Age: 5 s'' @ [LF, LF, LF, LF, NUL]) 12) =
     Inl Out_Of_Bounds \<and>
   (\<exists>sm'. count_headers (init_state_machine (''Age: 5 s'' @ [LF, LF, LF, LF, NUL]) 12) 0 False =
     Inr (Some (sm', 1)))"
proof
  show "read_headers (\<lambda>_. True) (Suc 0) (init_state_machine (''Age: 5 s'' @ [LF, LF, LF, LF, NUL]) 12) =
     Inl Out_Of_Bounds"
    by (rule value_without_cr_overruns [of _ 12 0 _ "''Age''" "''5''" "''s'' @ [LF, LF, LF, LF, NUL]"])
      (simp_all add: sm_at_def init_state_machine_def plain_text_def text_char_def CR_def LF_def NUL_def
        c_isprint_def c_isdigit_def char_int_def c_toupper_def c_islower_def digits_def)
qed (simp add: count_headers.simps get_next_token.simps call_state_def init_state_machine_def Let_def
    state_defs is_eol_def CR_def LF_def NUL_def c_isprint_def c_isdigit_def c_isblank_def char_int_def
    c_toupper_def c_islower_def)

text \<open>
A response without a reason phrase, which HTTP allows, is rejected whatever its headers and
  body are: the line end after the status code is a newline token, not an empty phrase.
\<close>

theorem empty_phrase_rejected:
  assumes "digits major" "digits minor" "digits code" "length code = 3"
    and "mem = ''HTTP/'' @ major @ ''.'' @ minor @ '' '' @ code @ '' '' @ crlf @ rest"
    and "length mem - length rest \<le> len"
  shows "http_parse_response (\<lambda>_. True) mem len = Inr None"
proof -
  define v where "v = ''HTTP/'' @ major @ ''.'' @ minor @ '' ''"
  have mem: "mem = v @ (code @ '' '') @ crlf @ rest" by (simp add: assms(5) v_def)
  then have len: "length v + 4 + 2 \<le> len" using assms(4,6) by (simp add: crlf_def)
  have scan_v: "scan State_Start (v @ more) = Some (VERSION, length v)" for more
    unfolding v_def by (rule scan_version [OF assms(1,2)])
  have sm0: "sm_at mem len 0 (init_state_machine mem len)"
    by (simp add: sm_at_def init_state_machine_def)
  obtain sm1 where sm1: "get_next_token (init_state_machine mem len) = Inr (sm1, VERSION)"
    "sm_at mem len (length v) sm1" "drop (length v) mem = (code @ '' '') @ crlf @ rest"
    by (rule next_token_at [OF sm0, of v "(code @ '' '') @ crlf @ rest" VERSION])
      (use len in \<open>simp_all add: mem scan_v\<close>)
  obtain sm2 where sm2: "get_next_token sm1 = Inr (sm2, STATUS_CODE)"
    "sm_at mem len (length v + 4) sm2" "drop (length v + 4) mem = crlf @ rest"
    by (rule next_token_at [OF sm1(2), of "code @ '' ''" "crlf @ rest" STATUS_CODE])
      (use sm1(3) scan_number(2) [OF assms(3), of "crlf @ rest"] assms(4) len in simp_all)
  obtain sm3 where sm3: "get_next_token sm2 = Inr (sm3, NEWLINE)"
    by (rule next_token_at [OF sm2(2), of crlf rest NEWLINE])
      (use sm2(3) scan_newline len in \<open>simp_all add: crlf_def\<close>)
  have "NUL \<notin> set v"
    using digits_no_NUL [OF assms(1)] digits_no_NUL [OF assms(2)] by (auto simp: v_def NUL_def)
  then have version: "copy_text (\<lambda>_. True) mem 0 (int (length v)) = Inr (Some v)"
    by (intro copy_text_good [of _ _ _ "(code @ '' '') @ crlf @ rest"]) (simp_all add: mem)
  have code: "c_strncpy mem (length v) (STATUS_CODE_LEN - 1) = Inr code"
    using sm1(3) assms(4) digits_no_NUL [OF assms(3)]
    by (auto simp: c_strncpy_def STATUS_CODE_LEN_def takeWhile_eq_all_conv)
  have pos: "sm_pos sm1 = length v" using sm1(2) by (simp add: sm_at_def)
  show ?thesis
    unfolding http_parse_response_def Let_def
    by (simp only: expect_token_def sm1(1) sm2(1) sm3 version code pos sum.case option.case prod.case
        if_True refl simp_thms) simp
qed

lemma empty_phrase_rejected_witness:
  "http_parse_response (\<lambda>_. True) (''HTTP/1.1 200 '' @ crlf @ crlf @ [NUL]) 17 = Inr None"
  by (rule empty_phrase_rejected [of "''1''" "''1''" "''200''" _ "crlf @ [NUL]"])
    (simp_all add: digits_def c_isdigit_def char_int_def crlf_def)

end
