(* ===== verification/C_Float.thy ===== *)
theory C_Float
  imports C_Double
begin

text \<open>
  Signed floating point arithmetic of the two C types: a number is a mantissa and a binary
  exponent, and every operation is the exact result rounded to the nearest number of \<open>p\<close>
  significant bits, ties to even, with \<open>p = 24\<close> for \<open>float\<close> and \<open>p = 53\<close> for \<open>double\<close>.  The
  exponent is unbounded: overflow to infinity and the gradual loss of bits below the smallest
  normal number are outside the model.
\<close>

type_synonym c_float = "int \<times> int"

definition FLT_MANT_DIG :: nat where "FLT_MANT_DIG = 24"
definition DBL_MANT_DIG :: nat where "DBL_MANT_DIG = 53"

definition nearest_even :: "int \<Rightarrow> int \<Rightarrow> int" where
  "nearest_even n d =
     (let q = n div d; r = n mod d
      in if 2 * r < d \<or> (2 * r = d \<and> even q) then q else q + 1)"

text \<open>The fraction \<open>num / den\<close> divided by \<open>2 ^ e\<close>.\<close>

definition fl_scaled :: "int \<Rightarrow> int \<Rightarrow> int \<Rightarrow> int \<times> int" where
  "fl_scaled num den e = (if e \<ge> 0 then (num, den * 2 ^ nat e) else (num * 2 ^ nat (- e), den))"

definition fl_exponent :: "nat \<Rightarrow> int \<Rightarrow> int \<Rightarrow> int" where
  "fl_exponent p num den =
     (let e = int (bit_count (nat \<bar>num\<bar>)) - int (bit_count (nat den)) - int p;
          (n, d) = fl_scaled num den e
      in if \<bar>n\<bar> div d \<ge> 2 ^ p then e + 1 else e)"

definition fl_ratio :: "nat \<Rightarrow> int \<Rightarrow> int \<Rightarrow> c_float" where
  "fl_ratio p num den =
     (if num = 0 then (0, 0)
      else let e = fl_exponent p num den; (n, d) = fl_scaled num den e in (nearest_even n d, e))"

definition fl_round :: "nat \<Rightarrow> int \<Rightarrow> int \<Rightarrow> c_float" where
  "fl_round p m e = (if e \<ge> 0 then fl_ratio p (m * 2 ^ nat e) 1 else fl_ratio p m (2 ^ nat (- e)))"

subsection \<open>The operations\<close>

definition fl_of_int :: "nat \<Rightarrow> int \<Rightarrow> c_float" where
  "fl_of_int p k = fl_round p k 0"

text \<open>The conversion between the two types.\<close>

definition fl_cast :: "nat \<Rightarrow> c_float \<Rightarrow> c_float" where
  "fl_cast p x = fl_round p (fst x) (snd x)"

definition fl_neg :: "c_float \<Rightarrow> c_float" where
  "fl_neg x = (- fst x, snd x)"

definition fl_add :: "nat \<Rightarrow> c_float \<Rightarrow> c_float \<Rightarrow> c_float" where
  "fl_add p x y =
     (let e = min (snd x) (snd y)
      in fl_round p (fst x * 2 ^ nat (snd x - e) + fst y * 2 ^ nat (snd y - e)) e)"

definition fl_sub :: "nat \<Rightarrow> c_float \<Rightarrow> c_float \<Rightarrow> c_float" where
  "fl_sub p x y = fl_add p x (fl_neg y)"

definition fl_mul :: "nat \<Rightarrow> c_float \<Rightarrow> c_float \<Rightarrow> c_float" where
  "fl_mul p x y = fl_round p (fst x * fst y) (snd x + snd y)"

text \<open>Division by a positive integer constant.\<close>

definition fl_div_int :: "nat \<Rightarrow> c_float \<Rightarrow> int \<Rightarrow> c_float" where
  "fl_div_int p x k =
     (if snd x \<ge> 0 then fl_ratio p (fst x * 2 ^ nat (snd x)) k
      else fl_ratio p (fst x) (k * 2 ^ nat (- snd x)))"

definition fl_less :: "c_float \<Rightarrow> c_float \<Rightarrow> bool" where
  "fl_less x y =
     (let e = min (snd x) (snd y)
      in fst x * 2 ^ nat (snd x - e) < fst y * 2 ^ nat (snd y - e))"

text \<open>\<open>atof\<close>.\<close>

definition fl_atof :: "string \<Rightarrow> c_float" where
  "fl_atof s = (let (neg, x) = c_atof s in (if neg then - int (fst x) else int (fst x), snd x))"

text \<open>The text of the conversion \<open>%f\<close>: six digits after the point, rounded to the nearest.\<close>

fun dec_digits :: "nat \<Rightarrow> string" where
  "dec_digits n = (if n < 10 then [''0123456789'' ! n] else dec_digits (n div 10) @ [''0123456789'' ! (n mod 10)])"

declare dec_digits.simps [simp del]

definition fl_micros :: "c_float \<Rightarrow> nat" where
  "fl_micros x =
     nat (if snd x \<ge> 0 then \<bar>fst x\<bar> * 2 ^ nat (snd x) * 1000000
          else nearest_even (\<bar>fst x\<bar> * 1000000) (2 ^ nat (- snd x)))"

definition format_f :: "c_float \<Rightarrow> string" where
  "format_f x =
     (let n = fl_micros x; frac = dec_digits (n mod 1000000)
      in (if fst x < 0 then ''-'' else []) @ dec_digits (n div 1000000) @ ''.'' @
         replicate (6 - length frac) CHR ''0'' @ frac)"

lemmas fl_eval = fl_round_def fl_ratio_def fl_exponent_def fl_scaled_def nearest_even_def fl_less_def
  fl_of_int_def fl_cast_def fl_neg_def fl_add_def fl_sub_def fl_mul_def fl_div_int_def
  FLT_MANT_DIG_def DBL_MANT_DIG_def

subsection \<open>The value and the error of an operation\<close>

definition fl_value :: "c_float \<Rightarrow> real" where
  "fl_value x = real_of_int (fst x) * 2 powi snd x"

lemma fl_scaled_value:
  "0 < den \<Longrightarrow> fl_scaled num den e = (n, d) \<Longrightarrow>
   0 < d \<and> real_of_int n / real_of_int d = real_of_int num / real_of_int den * 2 powi (- e)"
  by (auto simp: fl_scaled_def power_int_def field_simps split: if_splits)

lemma fl_scaled_large:
  assumes "num \<noteq> 0" "0 < den"
    and "fl_scaled num den (int (bit_count (nat \<bar>num\<bar>)) - int (bit_count (nat den)) - int p) = (n, d)"
  shows "2 powi (int p - 1) \<le> \<bar>real_of_int n / real_of_int d\<bar>"
proof -
  let ?a = "int (bit_count (nat \<bar>num\<bar>))" and ?b = "int (bit_count (nat den))"
  let ?e = "?a - ?b - int p"
  have "real (2 ^ bit_count (nat \<bar>num\<bar>)) \<le> real (2 * nat \<bar>num\<bar>)"
    using bit_count_lower [of "nat \<bar>num\<bar>"] assms(1) by (simp only: of_nat_le_iff)
  then have num: "2 powi ?a \<le> 2 * \<bar>real_of_int num\<bar>" by (simp add: power_int_def)
  have "real (nat den) \<le> real (2 ^ bit_count (nat den))"
    using bit_count_upper [of "nat den"] by (simp only: of_nat_le_iff)
  then have den: "real_of_int den \<le> 2 powi ?b" using assms(2) by (simp add: power_int_def)
  have "2 powi (?a - 1) / 2 powi ?b \<le> \<bar>real_of_int num\<bar> / real_of_int den"
    using num den assms(2) by (intro frac_le) (simp_all add: power_int_diff)
  then have "2 powi (?a - 1) / 2 powi ?b * 2 powi (- ?e) \<le>
      \<bar>real_of_int num\<bar> / real_of_int den * 2 powi (- ?e)"
    by (rule mult_right_mono) simp
  also have "\<dots> = \<bar>real_of_int num / real_of_int den * 2 powi (- ?e)\<bar>"
    using assms(2) by (simp add: abs_mult abs_divide)
  also have "\<dots> = \<bar>real_of_int n / real_of_int d\<bar>"
    using fl_scaled_value [OF assms(2,3)] by simp
  finally have "2 powi (?a - 1) / 2 powi ?b * 2 powi (- ?e) \<le> \<bar>real_of_int n / real_of_int d\<bar>" .
  moreover have "2 powi (?a - 1) / 2 powi ?b * 2 powi (- ?e) = (2::real) powi ((?a - 1 - ?b) + (- ?e))"
    by (subst power_int_add, simp, subst (2) power_int_diff, simp_all)
  moreover have "(?a - 1 - ?b) + (- ?e) = int p - 1" by simp
  ultimately show ?thesis by metis
qed

lemma fl_exponent_large:
  assumes "num \<noteq> 0" "0 < den" "fl_scaled num den (fl_exponent p num den) = (n, d)"
  shows "2 powi (int p - 1) \<le> \<bar>real_of_int n / real_of_int d\<bar>"
proof -
  let ?e = "int (bit_count (nat \<bar>num\<bar>)) - int (bit_count (nat den)) - int p"
  obtain n0 d0 where s: "fl_scaled num den ?e = (n0, d0)" by fastforce
  note v0 = fl_scaled_value [OF assms(2) s]
  show ?thesis
  proof (cases "2 ^ p \<le> \<bar>n0\<bar> div d0")
    case True
    then have e: "fl_exponent p num den = ?e + 1" using s by (simp add: fl_exponent_def Let_def)
    have "2 ^ p * d0 \<le> \<bar>n0\<bar> div d0 * d0" using True v0 by (intro mult_right_mono) auto
    also have "\<dots> \<le> \<bar>n0\<bar>" using v0 by (simp flip: minus_mod_eq_div_mult)
    finally have "real_of_int (2 ^ p * d0) \<le> real_of_int \<bar>n0\<bar>" by (simp only: of_int_le_iff)
    then have big: "2 ^ p \<le> \<bar>real_of_int n0 / real_of_int d0\<bar>"
      using conjunct1 [OF v0] by (simp add: abs_divide pos_le_divide_eq mult.commute)
    have "real_of_int n / real_of_int d = real_of_int num / real_of_int den * 2 powi (- (?e + 1))"
      using fl_scaled_value [OF assms(2,3)] e by simp
    also have "\<dots> = real_of_int num / real_of_int den * 2 powi (- ?e) / 2"
      by (simp add: power_int_diff power_int_minus_divide [symmetric] flip: power_int_minus)
    also have "\<dots> = real_of_int n0 / real_of_int d0 / 2" using v0 by simp
    finally have "\<bar>real_of_int n / real_of_int d\<bar> = \<bar>real_of_int n0 / real_of_int d0\<bar> / 2"
      by (simp add: abs_divide abs_mult)
    with big show ?thesis by (simp add: power_int_diff)
  next
    case False
    then have e: "fl_exponent p num den = ?e" using s by (simp add: fl_exponent_def Let_def)
    show ?thesis
      by (rule fl_scaled_large [OF assms(1,2)]) (use assms(3) e in simp)
  qed
qed

lemma nearest_even_error:
  assumes "0 < d"
  shows "\<bar>real_of_int (nearest_even n d) - real_of_int n / real_of_int d\<bar> \<le> 1 / 2"
proof -
  have n: "real_of_int n = real_of_int (n div d) * real_of_int d + real_of_int (n mod d)"
    by (metis of_int_add of_int_mult div_mult_mod_eq)
  have ratio: "real_of_int n / real_of_int d = real_of_int (n div d) + real_of_int (n mod d) / real_of_int d"
    using assms by (simp add: n field_simps)
  have r: "0 \<le> n mod d" "n mod d < d" using assms by simp_all
  show ?thesis
  proof (cases "2 * (n mod d) < d \<or> (2 * (n mod d) = d \<and> even (n div d))")
    case True
    then have "2 * (n mod d) \<le> d" by auto
    then have "real_of_int (n mod d) / real_of_int d \<le> 1 / 2" using assms by (simp add: field_simps)
    moreover have "0 \<le> real_of_int (n mod d) / real_of_int d" using r(1) assms by simp
    moreover have "nearest_even n d = n div d" using True by (simp only: nearest_even_def Let_def if_True)
    ultimately show ?thesis unfolding ratio by linarith
  next
    case False
    then have "d \<le> 2 * (n mod d)" by auto
    then have "1 / 2 \<le> real_of_int (n mod d) / real_of_int d" using assms by (simp add: field_simps)
    moreover have "real_of_int (n mod d) / real_of_int d \<le> 1" using r(2) assms by (simp add: less_imp_le)
    moreover have "nearest_even n d = n div d + 1" using False by (simp only: nearest_even_def Let_def if_False)
    ultimately show ?thesis unfolding ratio by linarith
  qed
qed

lemma fl_ratio_error:
  assumes "0 < den"
  shows "\<bar>fl_value (fl_ratio p num den) - real_of_int num / real_of_int den\<bar> \<le>
    \<bar>real_of_int num / real_of_int den\<bar> / 2 ^ p"
proof (cases "num = 0")
  case False
  let ?e = "fl_exponent p num den"
  obtain n d where s: "fl_scaled num den ?e = (n, d)" by fastforce
  note v = fl_scaled_value [OF assms s]
  let ?q = "real_of_int n / real_of_int d" and ?r = "real_of_int (nearest_even n d)"
  have num_den: "real_of_int num / real_of_int den = ?q * 2 powi ?e"
    using v by (simp add: power_int_minus field_simps)
  have "fl_value (fl_ratio p num den) = ?r * 2 powi ?e"
    using False s by (simp add: fl_ratio_def fl_value_def Let_def)
  then have "\<bar>fl_value (fl_ratio p num den) - real_of_int num / real_of_int den\<bar> = \<bar>?r - ?q\<bar> * 2 powi ?e"
    unfolding num_den by (metis abs_mult abs_of_pos left_diff_distrib zero_less_numeral zero_less_power_int)
  also have "\<dots> \<le> 1 / 2 * 2 powi ?e"
    using nearest_even_error [of d n] v by (intro mult_right_mono) simp_all
  also have "\<dots> \<le> (\<bar>?q\<bar> / 2 ^ p) * 2 powi ?e"
  proof (rule mult_right_mono)
    have "2 powi (int p - 1) \<le> \<bar>?q\<bar>" by (rule fl_exponent_large [OF False assms s])
    then have "2 ^ p / 2 \<le> \<bar>?q\<bar>" by (simp add: power_int_diff)
    then have "2 ^ p \<le> 2 * \<bar>?q\<bar>" by linarith
    moreover have "(2::real) ^ p \<le> 2 * y \<Longrightarrow> 1 / 2 \<le> y / 2 ^ p" for y by (simp add: field_simps)
    ultimately show "1 / 2 \<le> \<bar>?q\<bar> / 2 ^ p" by blast
  qed simp
  also have "\<dots> = \<bar>real_of_int num / real_of_int den\<bar> / 2 ^ p"
    unfolding num_den by (simp add: abs_mult)
  finally show ?thesis .
qed (simp add: fl_ratio_def fl_value_def)

lemma fl_round_error: "\<bar>fl_value (fl_round p m e) - real_of_int m * 2 powi e\<bar> \<le> \<bar>real_of_int m * 2 powi e\<bar> / 2 ^ p"
proof (cases "e \<ge> 0")
  case True
  then show ?thesis
    using fl_ratio_error [of 1 p "m * 2 ^ nat e"] by (simp add: fl_round_def power_int_def)
next
  case False
  then show ?thesis
    using fl_ratio_error [of "2 ^ nat (- e)" p m]
    by (simp add: fl_round_def power_int_def field_simps)
qed

lemma fl_scale_value: "e \<le> snd x \<Longrightarrow> real_of_int (fst x * 2 ^ nat (snd x - e)) * 2 powi e = fl_value x"
proof -
  assume "e \<le> snd x"
  then have "(2::real) ^ nat (snd x - e) * 2 powi e = 2 powi (snd x - e) * 2 powi e"
    by (simp add: power_int_def [of 2 "snd x - e"])
  also have "\<dots> = 2 powi snd x" by (simp flip: power_int_add)
  finally show ?thesis by (simp add: fl_value_def)
qed

lemma fl_neg_value [simp]: "fl_value (fl_neg x) = - fl_value x"
  by (simp add: fl_value_def fl_neg_def)

lemma fl_of_int_error: "\<bar>fl_value (fl_of_int p k) - real_of_int k\<bar> \<le> \<bar>real_of_int k\<bar> / 2 ^ p"
  using fl_round_error [of p k 0] by (simp add: fl_of_int_def)

lemma fl_cast_error: "\<bar>fl_value (fl_cast p x) - fl_value x\<bar> \<le> \<bar>fl_value x\<bar> / 2 ^ p"
  using fl_round_error [of p "fst x" "snd x"] by (simp add: fl_cast_def fl_value_def)

lemma fl_mul_error: "\<bar>fl_value (fl_mul p x y) - fl_value x * fl_value y\<bar> \<le> \<bar>fl_value x * fl_value y\<bar> / 2 ^ p"
  using fl_round_error [of p "fst x * fst y" "snd x + snd y"]
  by (simp add: fl_mul_def fl_value_def power_int_add mult_ac)

lemma fl_add_error: "\<bar>fl_value (fl_add p x y) - (fl_value x + fl_value y)\<bar> \<le> \<bar>fl_value x + fl_value y\<bar> / 2 ^ p"
proof -
  let ?e = "min (snd x) (snd y)"
  let ?m = "fst x * 2 ^ nat (snd x - ?e) + fst y * 2 ^ nat (snd y - ?e)"
  have "real_of_int ?m * 2 powi ?e = fl_value x + fl_value y"
    using fl_scale_value [of ?e x] fl_scale_value [of ?e y] by (simp add: distrib_right)
  then show ?thesis
    using fl_round_error [of p ?m ?e] by (simp add: fl_add_def Let_def)
qed

lemma fl_sub_error: "\<bar>fl_value (fl_sub p x y) - (fl_value x - fl_value y)\<bar> \<le> \<bar>fl_value x - fl_value y\<bar> / 2 ^ p"
  using fl_add_error [of p x "fl_neg y"] by (simp add: fl_sub_def)

lemma fl_div_int_error:
  assumes "0 < k"
  shows "\<bar>fl_value (fl_div_int p x k) - fl_value x / real_of_int k\<bar> \<le> \<bar>fl_value x / real_of_int k\<bar> / 2 ^ p"
proof (cases "snd x \<ge> 0")
  case True
  then show ?thesis
    using fl_ratio_error [OF assms, of p "fst x * 2 ^ nat (snd x)"]
    by (simp add: fl_div_int_def fl_value_def power_int_def)
next
  case False
  then show ?thesis
    using fl_ratio_error [of "k * 2 ^ nat (- snd x)" p "fst x"] assms
    by (simp add: fl_div_int_def fl_value_def power_int_def field_simps)
qed

lemma fl_less_value: "fl_less x y \<longleftrightarrow> fl_value x < fl_value y"
proof -
  let ?e = "min (snd x) (snd y)"
  have "fl_value x < fl_value y \<longleftrightarrow>
      real_of_int (fst x * 2 ^ nat (snd x - ?e)) * 2 powi ?e < real_of_int (fst y * 2 ^ nat (snd y - ?e)) * 2 powi ?e"
    using fl_scale_value [of ?e x] fl_scale_value [of ?e y] by simp
  also have "\<dots> \<longleftrightarrow> real_of_int (fst x * 2 ^ nat (snd x - ?e)) < real_of_int (fst y * 2 ^ nat (snd y - ?e))"
    by (rule mult_less_cancel_right_pos) simp
  also have "\<dots> \<longleftrightarrow> fl_less x y" unfolding fl_less_def Let_def of_int_less_iff ..
  finally show ?thesis ..
qed

end
