(* ===== verification/Nibblebill.thy ===== *)
theory Nibblebill
  imports C_Float Fs_Api
begin

text \<open>
  \<open>dschreiber/mod_nibblebill/mod_nibblebill.c\<close>: billing of calls while they last.  The data the
  module keeps per call is \<open>nibble_data\<close>; a call is an \<open>nb_session\<close>, the module's globals, the
  statements sent to the database, the transfers started and the depth to which the running
  thread holds \<open>globals.mutex\<close> are the \<open>nb_world\<close>.  Times are microseconds; amounts are \<open>float\<close>
  values computed as the code computes them, in \<open>double\<close> and rounded when they are stored.
  The database is an argument: what it answers to a statement after those sent before.
\<close>

record nibble_data =
  nd_lastts :: int
  nd_total :: c_float
  nd_pausets :: int
  nd_bill_adjustments :: c_float

record nb_globals =
  g_percall_max_amt :: c_float
  g_percall_action :: "string option"
  g_lowbal_amt :: c_float
  g_lowbal_action :: "string option"
  g_nobal_amt :: c_float
  g_nobal_action :: "string option"
  g_global_heartbeat :: int
  g_db_username :: "string option"
  g_db_password :: "string option"
  g_db_dsn :: "string option"
  g_db_table :: "string option"
  g_db_column_cash :: "string option"
  g_db_column_account :: "string option"
  g_master_odbc :: bool
  g_mutex :: bool

record nb_session =
  ses_channel :: bool
  ses_var :: "string \<Rightarrow> string option"
  ses_answered :: "int option"   \<comment> \<open>\<open>profile->times->answered\<close>, \<open>None\<close> without a profile\<close>
  ses_hungup :: bool
  ses_nibble_data :: "nibble_data option"
  ses_heartbeat :: "uint32_t option"

record nb_world =
  w_globals :: nb_globals
  w_depth :: nat
  w_sql :: "string list"
  w_transfers :: "(string option \<times> string option \<times> string option) list"

text \<open>
  The services the module calls: the database, and what \<open>switch_separate_string\<close> leaves in the
  buffer it takes apart.
\<close>

record nb_env =
  env_api :: fs_api
  env_separated :: "string \<Rightarrow> char \<Rightarrow> nat \<Rightarrow> string"
  env_odbc_available :: bool
  env_odbc_new :: bool
  env_odbc_connect :: bool
  env_odbc_exec :: "string list \<Rightarrow> string \<Rightarrow> bool"
  env_odbc_query :: "string list \<Rightarrow> string \<Rightarrow> string option list option"

subsection \<open>Configuration\<close>

definition zero_globals :: nb_globals where
  "zero_globals =
     \<lparr>g_percall_max_amt = (0, 0), g_percall_action = None, g_lowbal_amt = (0, 0), g_lowbal_action = None,
      g_nobal_amt = (0, 0), g_nobal_action = None, g_global_heartbeat = 0, g_db_username = None,
      g_db_password = None, g_db_dsn = None, g_db_table = None, g_db_column_cash = None,
      g_db_column_account = None, g_master_odbc = False, g_mutex = False\<rparr>"

definition nb_load_param :: "string \<Rightarrow> string \<Rightarrow> nb_globals \<Rightarrow> nb_globals" where
  "nb_load_param var val g =
     (if c_strcaseeq var ''db_username'' then g\<lparr>g_db_username := Some val\<rparr>
      else if c_strcaseeq var ''db_password'' then g\<lparr>g_db_password := Some val\<rparr>
      else if c_strcaseeq var ''db_dsn'' then g\<lparr>g_db_dsn := Some val\<rparr>
      else if c_strcaseeq var ''db_table'' then g\<lparr>g_db_table := Some val\<rparr>
      else if c_strcaseeq var ''db_column_cash'' then g\<lparr>g_db_column_cash := Some val\<rparr>
      else if c_strcaseeq var ''db_column_account'' then g\<lparr>g_db_column_account := Some val\<rparr>
      else if c_strcaseeq var ''percall_action'' then g\<lparr>g_percall_action := Some val\<rparr>
      else if c_strcaseeq var ''percall_max_amt''
      then g\<lparr>g_percall_max_amt := fl_cast FLT_MANT_DIG (fl_atof val)\<rparr>
      else if c_strcaseeq var ''lowbal_action'' then g\<lparr>g_lowbal_action := Some val\<rparr>
      else if c_strcaseeq var ''lowbal_amt'' then g\<lparr>g_lowbal_amt := fl_cast FLT_MANT_DIG (fl_atof val)\<rparr>
      else if c_strcaseeq var ''nobal_action'' then g\<lparr>g_nobal_action := Some val\<rparr>
      else if c_strcaseeq var ''nobal_amt'' then g\<lparr>g_nobal_amt := fl_cast FLT_MANT_DIG (fl_atof val)\<rparr>
      else if c_strcaseeq var ''global_heartbeat'' then g\<lparr>g_global_heartbeat := c_atoi val\<rparr>
      else g)"

definition or_default :: "fs_api \<Rightarrow> string option \<Rightarrow> string \<Rightarrow> string option" where
  "or_default api cur val = (if fs_zstr api cur then Some val else cur)"

definition nb_set_defaults :: "fs_api \<Rightarrow> nb_globals \<Rightarrow> nb_globals" where
  "nb_set_defaults api g =
     g\<lparr>g_db_username := or_default api (g_db_username g) ''bandwidth.com'',
       g_db_password := or_default api (g_db_password g) ''dev'',
       g_db_dsn := or_default api (g_db_dsn g) ''bandwidth.com'',
       g_percall_action := or_default api (g_percall_action g) ''hangup'',
       g_lowbal_action := or_default api (g_lowbal_action g) ''play ding'',
       g_nobal_action := or_default api (g_nobal_action g) ''hangup''\<rparr>"

text \<open>
  The configuration is \<open>None\<close> when the file cannot be opened; the second level is the
  \<open>settings\<close> element.
\<close>

definition nb_load_config ::
    "nb_env \<Rightarrow> (string \<times> string) list option option \<Rightarrow> nb_globals \<Rightarrow> nb_globals \<times> switch_status" where
  "nb_load_config env cfg g =
     (let g1 = (case cfg of
                  Some (Some params) \<Rightarrow> fold (\<lambda>(var, val). nb_load_param var val) params g
                | _ \<Rightarrow> g);
          g2 = nb_set_defaults (env_api env) g1
      in if env_odbc_available env \<and> g_db_dsn g2 \<noteq> None
         then (let g3 = g2\<lparr>g_master_odbc := env_odbc_new env\<rparr>
               in if \<not> env_odbc_new env then (g3, SWITCH_STATUS_FALSE)
                  else if \<not> env_odbc_connect env then (g3, SWITCH_STATUS_FALSE)
                  else (g3, SWITCH_STATUS_SUCCESS))
         else (g2, SWITCH_STATUS_SUCCESS))"

text \<open>The result of \<open>load_config\<close> is not looked at.\<close>

definition mod_nibblebill_load ::
    "nb_env \<Rightarrow> (string \<times> string) list option option \<Rightarrow> bool \<Rightarrow> bool \<Rightarrow> nb_globals \<times> bool" where
  "mod_nibblebill_load env cfg mutex_ok bind_ok =
     (fst (nb_load_config env cfg (zero_globals\<lparr>g_mutex := mutex_ok\<rparr>)), bind_ok)"

subsection \<open>The database\<close>

text \<open>\<open>%s\<close> of a null pointer.\<close>

definition print_s :: "string option \<Rightarrow> string" where
  "print_s p = (case p of None \<Rightarrow> ''(null)'' | Some s \<Rightarrow> s)"

definition sql_buffer :: "string \<Rightarrow> string" where
  "sql_buffer s = take 1023 s"

definition quoted :: "string \<Rightarrow> string" where
  "quoted s = CHR 0x27 # s @ [CHR 0x27]"

definition SQL_SAVE :: "nb_globals \<Rightarrow> c_float \<Rightarrow> string \<Rightarrow> string" where
  "SQL_SAVE g amount account =
     ''UPDATE '' @ print_s (g_db_table g) @ '' SET '' @ print_s (g_db_column_cash g) @ ''='' @
     print_s (g_db_column_cash g) @ ''-'' @ format_f amount @ '' WHERE '' @
     print_s (g_db_column_account g) @ ''='' @ quoted account"

definition SQL_LOOKUP :: "nb_globals \<Rightarrow> string \<Rightarrow> string" where
  "SQL_LOOKUP g account =
     ''SELECT '' @ print_s (g_db_column_cash g) @ '' FROM '' @ print_s (g_db_table g) @ '' WHERE '' @
     print_s (g_db_column_account g) @ ''='' @ quoted account"
text \<open>\<open>bill_event\<close> reports a success whatever the database answers.\<close>

definition bill_event ::
    "nb_env \<Rightarrow> c_float \<Rightarrow> string \<Rightarrow> nb_world \<Rightarrow> nb_world \<times> switch_status" where
  "bill_event env billamount billaccount w =
     (if \<not> env_odbc_available env then (w, SWITCH_STATUS_SUCCESS)
      else let sql = sql_buffer (SQL_SAVE (w_globals w) billamount billaccount);
               w1 = w\<lparr>w_sql := w_sql w @ [sql]\<rparr>
           in if \<not> env_odbc_exec env (w_sql w) sql then (w1, SWITCH_STATUS_SUCCESS)
              else (w1, SWITCH_STATUS_SUCCESS))"

text \<open>The callback, called for every row with its first column.\<close>

definition nibblebill_callback :: "string option \<Rightarrow> crash + c_float" where
  "nibblebill_callback argv0 =
     (case argv0 of None \<Rightarrow> Inl Null_Deref | Some s \<Rightarrow> Inr (fl_cast FLT_MANT_DIG (fl_atof s)))"

fun callback_rows :: "string option list \<Rightarrow> c_float \<Rightarrow> crash + c_float" where
  "callback_rows [] balance = Inr balance"
| "callback_rows (r # rs) balance =
     (case nibblebill_callback r of Inl e \<Rightarrow> Inl e | Inr b \<Rightarrow> callback_rows rs b)"

definition get_balance :: "nb_env \<Rightarrow> string \<Rightarrow> nb_world \<Rightarrow> crash + c_float" where
  "get_balance env billaccount w =
     (if \<not> env_odbc_available env then Inr (- 1, 0)
      else case env_odbc_query env (w_sql w) (sql_buffer (SQL_LOOKUP (w_globals w) billaccount)) of
             None \<Rightarrow> Inr (- 1, 0)
           | Some rows \<Rightarrow> callback_rows rows (0, 0))"

subsection \<open>Pause, resume, reset, check and adjust\<close>

definition mutex_lock :: "nb_world \<Rightarrow> nb_world" where
  "mutex_lock w = (if g_mutex (w_globals w) then w\<lparr>w_depth := w_depth w + 1\<rparr> else w)"

definition mutex_unlock :: "nb_world \<Rightarrow> nb_world" where
  "mutex_unlock w = (if g_mutex (w_globals w) then w\<lparr>w_depth := w_depth w - 1\<rparr> else w)"

text \<open>\<open>ts\<close> is the time \<open>switch_micro_time_now\<close> returns in the operation.\<close>

definition nibblebill_pause :: "int \<Rightarrow> nb_session \<Rightarrow> nb_world \<Rightarrow> nb_session \<times> nb_world" where
  "nibblebill_pause ts ses w =
     (if \<not> ses_channel ses then (ses, w)
      else let w1 = mutex_lock w
           in case ses_nibble_data ses of
                None \<Rightarrow> (ses, w1)
              | Some nd \<Rightarrow>
                  (ses\<lparr>ses_nibble_data := Some (if nd_pausets nd = 0 then nd\<lparr>nd_pausets := ts\<rparr> else nd)\<rparr>,
                   mutex_unlock w1))"

text \<open>The cost of a time at a rate per minute: \<open>atof(billrate) / 1000000 / 60 * time\<close>.\<close>

definition billrate_cost :: "string \<Rightarrow> int \<Rightarrow> c_float" where
  "billrate_cost billrate time =
     fl_mul DBL_MANT_DIG
       (fl_div_int DBL_MANT_DIG (fl_div_int DBL_MANT_DIG (fl_atof billrate) 1000000) 60)
       (fl_of_int DBL_MANT_DIG time)"

definition nibblebill_resume :: "int \<Rightarrow> nb_session \<Rightarrow> nb_world \<Rightarrow> crash + nb_session \<times> nb_world" where
  "nibblebill_resume ts ses w =
     (if \<not> ses_channel ses then Inr (ses, w)
      else case ses_nibble_data ses of
             None \<Rightarrow> Inr (ses, w)
           | Some nd \<Rightarrow>
               (if nd_pausets nd = 0 then Inr (ses, w)
                else case ses_var ses ''nibble_rate'' of
                       None \<Rightarrow> Inl Null_Deref
                     | Some billrate \<Rightarrow>
                         (let adj = fl_cast FLT_MANT_DIG
                                (fl_add DBL_MANT_DIG (nd_bill_adjustments nd)
                                   (billrate_cost billrate (ts - nd_pausets nd)))
                          in Inr (ses\<lparr>ses_nibble_data :=
                                   Some (nd\<lparr>nd_bill_adjustments := adj, nd_pausets := 0\<rparr>)\<rparr>,
                                  mutex_unlock (mutex_lock w)))))"

definition nibblebill_reset :: "int \<Rightarrow> nb_session \<Rightarrow> nb_world \<Rightarrow> nb_session \<times> nb_world" where
  "nibblebill_reset ts ses w =
     (if \<not> ses_channel ses then (ses, w)
      else case ses_nibble_data ses of
             None \<Rightarrow> (ses, w)
           | Some nd \<Rightarrow> (ses\<lparr>ses_nibble_data := Some (nd\<lparr>nd_lastts := ts\<rparr>)\<rparr>, mutex_unlock (mutex_lock w)))"

definition nibblebill_check :: "nb_session \<Rightarrow> nb_world \<Rightarrow> c_float \<times> nb_world" where
  "nibblebill_check ses w =
     (if \<not> ses_channel ses then ((- 99999, 0), w)
      else case ses_nibble_data ses of
             None \<Rightarrow> ((- 99999, 0), w)
           | Some nd \<Rightarrow> (nd_total nd, mutex_unlock (mutex_lock w)))"

definition nibblebill_adjust :: "nb_env \<Rightarrow> c_float \<Rightarrow> nb_session \<Rightarrow> nb_world \<Rightarrow> nb_world" where
  "nibblebill_adjust env amount ses w =
     (if \<not> ses_channel ses then w
      else case ses_var ses ''nibble_account'' of
             None \<Rightarrow> w
           | Some billaccount \<Rightarrow> fst (bill_event env (fl_neg amount) billaccount w))"

subsection \<open>Billing\<close>

text \<open>
  \<open>switch_separate_string\<close> works in the buffer it is given, here the module's own copy of the
  action.  The B leg, if there is one, is transferred to the same place before the A leg.
\<close>

definition arg :: "string list \<Rightarrow> nat \<Rightarrow> string option" where
  "arg argv i = (if i < length argv then Some (argv ! i) else None)"

definition transfer_call :: "nb_env \<Rightarrow> bool \<Rightarrow> nb_session \<Rightarrow> nb_world \<Rightarrow> crash + nb_world" where
  "transfer_call env b_leg ses w =
     (case g_nobal_action (w_globals w) of
        None \<Rightarrow> Inl Null_Deref
      | Some destination \<Rightarrow>
          (let argv = fs_separate_string (env_api env) destination CHR '' '' 4;
               call = (arg argv 0, arg argv 1, arg argv 2);
               legs = (if ses_var ses ''signal_bond'' \<noteq> None \<and> b_leg then [call, call] else [call])
           in Inr (w\<lparr>w_globals := (w_globals w)\<lparr>g_nobal_action :=
                       Some (env_separated env destination CHR '' '' 4)\<rparr>,
                     w_transfers := w_transfers w @ legs\<rparr>)))"

definition new_nibble_data :: "int \<Rightarrow> nibble_data" where
  "new_nibble_data answered =
     \<lparr>nd_lastts = answered, nd_total = (0, 0), nd_pausets = 0, nd_bill_adjustments = (0, 0)\<rparr>"

text \<open>One billing of the time since the last one.\<close>

definition bill_amount :: "string \<Rightarrow> int \<Rightarrow> nibble_data \<Rightarrow> c_float" where
  "bill_amount billrate ts nd =
     fl_cast FLT_MANT_DIG
       (fl_sub DBL_MANT_DIG (billrate_cost billrate (ts - nd_lastts nd)) (nd_bill_adjustments nd))"

definition bill_interval ::
    "nb_env \<Rightarrow> int \<Rightarrow> string \<Rightarrow> string \<Rightarrow> nibble_data \<Rightarrow> nb_session \<Rightarrow> nb_world
      \<Rightarrow> nibble_data \<times> nb_session \<times> nb_world" where
  "bill_interval env ts billrate billaccount nd ses w =
     (if ts - nd_lastts nd \<ge> 0
      then let billamount = bill_amount billrate ts nd;
               (w1, st) = bill_event env billamount billaccount w
           in if st = SWITCH_STATUS_SUCCESS
              then let total = fl_add FLT_MANT_DIG (nd_total nd) billamount
                   in (nd\<lparr>nd_total := total, nd_bill_adjustments := (0, 0), nd_lastts := ts\<rparr>,
                       ses\<lparr>ses_var := (ses_var ses)(''nibble_total_billed'' \<mapsto> format_f total)\<rparr>, w1)
              else (nd\<lparr>nd_lastts := ts\<rparr>, ses, w1)
      else (nd\<lparr>nd_lastts := ts\<rparr>, ses, w))"

text \<open>The end of \<open>do_billing\<close>, with the lock: the balance, and the action when it is too low.\<close>

definition check_balance ::
    "nb_env \<Rightarrow> bool \<Rightarrow> int \<Rightarrow> string \<Rightarrow> nb_session \<Rightarrow> nb_world \<Rightarrow> crash + nb_session \<times> nb_world" where
  "check_balance env b_leg ts billaccount ses w =
     (case get_balance env billaccount w of
        Inl e \<Rightarrow> Inl e
      | Inr balance \<Rightarrow>
          (if fl_less balance (g_nobal_amt (w_globals w))
           then (let (ses1, w1) = nibblebill_pause ts ses w
                 in case transfer_call env b_leg ses1 w1 of
                      Inl e \<Rightarrow> Inl e
                    | Inr w2 \<Rightarrow> Inr (ses1, w2))
           else Inr (ses, w)))"

text \<open>
  \<open>do_billing\<close>.  The data of a call billed for the first time is only kept when the call has
  not ended; data that exists is updated in place.  \<open>ts2\<close> is the time of a pause at the end.
\<close>

definition do_billing ::
    "nb_env \<Rightarrow> bool \<Rightarrow> int \<Rightarrow> int \<Rightarrow> nb_session \<Rightarrow> nb_world \<Rightarrow> crash + nb_session \<times> nb_world" where
  "do_billing env b_leg ts ts2 ses w =
     (if \<not> ses_channel ses then Inr (ses, w)
      else case (ses_var ses ''nibble_rate'', ses_var ses ''nibble_account'', ses_answered ses) of
             (Some billrate, Some billaccount, Some answered) \<Rightarrow>
               (if answered < 1 then Inr (ses, w)
                else let w1 = mutex_lock w
                     in if (case ses_nibble_data ses of None \<Rightarrow> False | Some nd \<Rightarrow> nd_pausets nd > 0)
                        then Inr (ses, mutex_unlock w1)
                        else let nd = (case ses_nibble_data ses of
                                         None \<Rightarrow> new_nibble_data answered
                                       | Some nd \<Rightarrow> nd);
                                 (nd1, ses1, w2) = bill_interval env ts billrate billaccount nd ses w1;
                                 in_place = (ses_nibble_data ses \<noteq> None);
                                 ses2 = (if in_place \<or> \<not> ses_hungup ses1
                                         then ses1\<lparr>ses_nibble_data := Some nd1\<rparr> else ses1)
                             in if \<not> ses_hungup ses1
                                then (case check_balance env b_leg ts2 billaccount ses2 w2 of
                                        Inl e \<Rightarrow> Inl e
                                      | Inr (ses3, w3) \<Rightarrow> Inr (ses3, mutex_unlock w3))
                                else Inr (ses2, mutex_unlock w2))
           | _ \<Rightarrow> Inr (ses, w))"
subsection \<open>Commands and events\<close>

definition sched_billing :: "nb_session \<Rightarrow> nb_world \<Rightarrow> nb_session" where
  "sched_billing ses w =
     (if g_global_heartbeat (w_globals w) > 0
      then ses\<lparr>ses_heartbeat := Some (word_of_int (g_global_heartbeat (w_globals w)))\<rparr> else ses)"

definition process_hangup ::
    "nb_env \<Rightarrow> bool \<Rightarrow> int \<Rightarrow> int \<Rightarrow> nb_session \<Rightarrow> nb_world \<Rightarrow> crash + nb_session \<times> nb_world" where
  "process_hangup env b_leg ts ts2 ses w = do_billing env b_leg ts ts2 ses w"

text \<open>The commands, with their arguments: of the application and, after the UUID, of the API.\<close>

definition nb_command ::
    "nb_env \<Rightarrow> bool \<Rightarrow> int \<Rightarrow> int \<Rightarrow> string list \<Rightarrow> nb_session \<Rightarrow> nb_world
      \<Rightarrow> crash + nb_session \<times> nb_world" where
  "nb_command env b_leg ts ts2 argv ses w =
     (case argv of
        [] \<Rightarrow> Inr (ses, w)
      | cmd # args \<Rightarrow>
          (if c_strcaseeq cmd ''adjust'' \<and> length args = 1
           then Inr (ses, nibblebill_adjust env (fl_cast FLT_MANT_DIG (fl_atof (args ! 0))) ses w)
           else if c_strcaseeq cmd ''flush'' then do_billing env b_leg ts ts2 ses w
           else if c_strcaseeq cmd ''pause'' then Inr (nibblebill_pause ts ses w)
           else if c_strcaseeq cmd ''resume'' then nibblebill_resume ts ses w
           else if c_strcaseeq cmd ''check'' then Inr (ses, snd (nibblebill_check ses w))
           else if c_strcaseeq cmd ''reset'' then Inr (nibblebill_reset ts ses w)
           else if c_strcaseeq cmd ''heartbeat'' \<and> length args = 1
           then Inr (ses\<lparr>ses_heartbeat := Some (word_of_int (c_atoi (args ! 0)))\<rparr>, w)
           else Inr (ses, w)))"

definition nibblebill_app_function ::
    "nb_env \<Rightarrow> bool \<Rightarrow> int \<Rightarrow> int \<Rightarrow> bool \<Rightarrow> string option \<Rightarrow> nb_session \<Rightarrow> nb_world
      \<Rightarrow> crash + nb_session \<times> nb_world" where
  "nibblebill_app_function env b_leg ts ts2 strdup_ok data ses w =
     (if \<not> fs_zstr (env_api env) data \<and> strdup_ok
      then nb_command env b_leg ts ts2 (fs_separate_string (env_api env) (the data) CHR '' '' 3) ses w
      else Inr (ses, w))"

text \<open>The calls in progress, by UUID, and the reply of the API.\<close>

datatype nb_reply = No_Reply | No_Such_Channel | Nb_Usage

definition nibblebill_api_function ::
    "nb_env \<Rightarrow> bool \<Rightarrow> int \<Rightarrow> int \<Rightarrow> bool \<Rightarrow> string option \<Rightarrow> (string \<Rightarrow> nb_session option) \<Rightarrow> nb_world
      \<Rightarrow> crash + (string \<Rightarrow> nb_session option) \<times> nb_world \<times> nb_reply" where
  "nibblebill_api_function env b_leg ts ts2 strdup_ok cmd calls w =
     (if \<not> fs_zstr (env_api env) cmd \<and> strdup_ok
      then let argv = fs_separate_string (env_api env) (the cmd) CHR '' '' 3
           in if (length argv = 2 \<or> length argv = 3) \<and> \<not> fs_zstr (env_api env) (Some (argv ! 0))
              then (case calls (argv ! 0) of
                      Some ses \<Rightarrow>
                        (case nb_command env b_leg ts ts2 (drop 1 argv) ses w of
                           Inl e \<Rightarrow> Inl e
                         | Inr (ses', w') \<Rightarrow> Inr (calls(argv ! 0 \<mapsto> ses'), w', No_Reply))
                    | None \<Rightarrow> Inr (calls, w, No_Such_Channel))
              else Inr (calls, w, Nb_Usage)
      else Inr (calls, w, No_Reply))"

text \<open>A heartbeat event, with its \<open>Unique-ID\<close> header.\<close>

definition event_handler ::
    "nb_env \<Rightarrow> bool \<Rightarrow> int \<Rightarrow> int \<Rightarrow> string option \<Rightarrow> (string \<Rightarrow> nb_session option) \<Rightarrow> nb_world
      \<Rightarrow> crash + (string \<Rightarrow> nb_session option) \<times> nb_world" where
  "event_handler env b_leg ts ts2 uuid calls w =
     (case uuid of
        None \<Rightarrow> Inr (calls, w)
      | Some u \<Rightarrow>
          (case calls u of
             None \<Rightarrow> Inr (calls, w)
           | Some ses \<Rightarrow>
               (case do_billing env b_leg ts ts2 ses w of
                  Inl e \<Rightarrow> Inl e
                | Inr (ses', w') \<Rightarrow> Inr (calls(u \<mapsto> ses'), w'))))"

subsection \<open>The lock\<close>

lemma unlock_lock [simp]: "mutex_unlock (mutex_lock w) = w"
  by (simp add: mutex_unlock_def mutex_lock_def)

lemma depth_lock [simp]:
  "w_globals (mutex_lock w) = w_globals w" "w_sql (mutex_lock w) = w_sql w"
  "w_transfers (mutex_lock w) = w_transfers w"
  "w_globals (mutex_unlock w) = w_globals w" "w_sql (mutex_unlock w) = w_sql w"
  "w_transfers (mutex_unlock w) = w_transfers w"
  by (simp_all add: mutex_unlock_def mutex_lock_def)

text \<open>What an operation may change of the world besides the lock: it keeps the depth and the mutex.\<close>

definition keeps_lock :: "nb_world \<Rightarrow> nb_world \<Rightarrow> bool" where
  "keeps_lock w w' \<longleftrightarrow> w_depth w' = w_depth w \<and> g_mutex (w_globals w') = g_mutex (w_globals w)"

lemma keeps_lock_refl [simp]: "keeps_lock w w"
  by (simp add: keeps_lock_def)

lemma keeps_lock_trans: "keeps_lock w w1 \<Longrightarrow> keeps_lock w1 w2 \<Longrightarrow> keeps_lock w w2"
  by (simp add: keeps_lock_def)

lemma keeps_lock_unlock: "keeps_lock (mutex_lock w) w' \<Longrightarrow> keeps_lock w (mutex_unlock w')"
  by (auto simp: keeps_lock_def mutex_lock_def mutex_unlock_def split: if_splits)

lemma keeps_lock_bill_event: "keeps_lock w (fst (bill_event env b acc w))"
  by (simp add: bill_event_def keeps_lock_def Let_def)

lemma keeps_lock_transfer: "transfer_call env b ses w = Inr w' \<Longrightarrow> keeps_lock w w'"
  by (auto simp: transfer_call_def keeps_lock_def Let_def split: option.splits)

lemma keeps_lock_pause:
  "nibblebill_pause ts ses w = (ses', w') \<Longrightarrow> ses_nibble_data ses \<noteq> None \<Longrightarrow>
   w' = w \<and> ses_nibble_data ses' \<noteq> None"
  by (auto simp: nibblebill_pause_def Let_def split: if_splits)

lemma keeps_lock_interval:
  "bill_interval env ts r acc nd ses w = (nd', ses', w') \<Longrightarrow> keeps_lock w w'"
  using keeps_lock_bill_event [of w env "bill_amount r ts nd" acc]
  by (auto simp: bill_interval_def Let_def split: if_splits prod.splits)

lemma keeps_lock_balance:
  "check_balance env b ts acc ses w = Inr (ses', w') \<Longrightarrow> ses_nibble_data ses \<noteq> None \<Longrightarrow> keeps_lock w w'"
  using keeps_lock_pause [of ts ses w] keeps_lock_transfer
  by (fastforce simp: check_balance_def Let_def split: sum.splits if_splits prod.splits)

lemma keeps_lock_billing:
  assumes "do_billing env b ts ts2 ses w = Inr (ses', w')"
  shows "keeps_lock w w'"
proof (cases "w' = w")
  case False
  with assms obtain r acc answered where vars:
      "ses_channel ses" "ses_var ses ''nibble_rate'' = Some r" "ses_var ses ''nibble_account'' = Some acc"
      "ses_answered ses = Some answered" "\<not> answered < 1"
      "\<not> (case ses_nibble_data ses of None \<Rightarrow> False | Some nd \<Rightarrow> nd_pausets nd > 0)"
    by (auto simp: do_billing_def Let_def split: if_splits option.splits)
  let ?nd = "case ses_nibble_data ses of None \<Rightarrow> new_nibble_data answered | Some nd \<Rightarrow> nd"
  obtain nd1 ses1 w2 where bi: "bill_interval env ts r acc ?nd ses (mutex_lock w) = (nd1, ses1, w2)"
    by (metis prod_cases3)
  note k = keeps_lock_interval [OF bi]
  let ?ses2 = "if ses_nibble_data ses \<noteq> None \<or> \<not> ses_hungup ses1
    then ses1\<lparr>ses_nibble_data := Some nd1\<rparr> else ses1"
  have unf: "do_billing env b ts ts2 ses w =
      (if \<not> ses_hungup ses1
       then (case check_balance env b ts2 acc ?ses2 w2 of
               Inl e \<Rightarrow> Inl e | Inr (ses3, w3) \<Rightarrow> Inr (ses3, mutex_unlock w3))
       else Inr (?ses2, mutex_unlock w2))"
    using vars by (simp add: do_billing_def Let_def bi)
  show ?thesis
  proof (cases "ses_hungup ses1")
    case True
    with assms have "w' = mutex_unlock w2" by (simp add: unf)
    with k show ?thesis by (simp add: keeps_lock_unlock)
  next
    case hung: False
    then obtain w3 where "check_balance env b ts2 acc ?ses2 w2 = Inr (ses', w3)" "w' = mutex_unlock w3"
      using assms by (auto simp: unf split: sum.splits)
    then show ?thesis
      using keeps_lock_unlock [OF keeps_lock_trans [OF k keeps_lock_balance]] hung by simp
  qed
qed simp

subsection \<open>Amounts\<close>

text \<open>\<open>x\<close> differs from \<open>y\<close> by the fraction \<open>e\<close> of \<open>y\<close> at most.\<close>

definition near :: "real \<Rightarrow> real \<Rightarrow> real \<Rightarrow> bool" where
  "near e x y \<longleftrightarrow> \<bar>x - y\<bar> \<le> e * \<bar>y\<bar>"

lemma near_weaken: "near e x y \<Longrightarrow> e \<le> e' \<Longrightarrow> near e' x y"
  using mult_right_mono [of e e' "\<bar>y\<bar>"] by (auto simp: near_def)

lemma near_trans:
  assumes "near e1 x y" "near e2 y z" "0 \<le> e1"
  shows "near (e1 + e2 + e1 * e2) x z"
proof -
  have "\<bar>y\<bar> \<le> \<bar>z\<bar> + e2 * \<bar>z\<bar>" using assms(2) by (simp add: near_def)
  then have "e1 * \<bar>y\<bar> \<le> e1 * (\<bar>z\<bar> + e2 * \<bar>z\<bar>)" using assms(3) by (rule mult_left_mono)
  then show ?thesis using assms(1,2) unfolding near_def by (simp add: algebra_simps) linarith
qed

lemma near_scale: "near e x y \<Longrightarrow> near e (x * c) (y * c)"
proof -
  assume "near e x y"
  then have "\<bar>x - y\<bar> * \<bar>c\<bar> \<le> e * \<bar>y\<bar> * \<bar>c\<bar>" unfolding near_def by (rule mult_right_mono) simp
  moreover have "\<bar>x * c - y * c\<bar> = \<bar>x - y\<bar> * \<bar>c\<bar>" by (metis abs_mult left_diff_distrib)
  ultimately show ?thesis by (simp add: near_def abs_mult mult.assoc)
qed

lemma near_mult:
  assumes "near e1 x x'" "near e2 y y'" "0 \<le> e1"
  shows "near (e1 + e2 + e1 * e2) (x * y) (x' * y')"
proof (rule near_trans [OF _ _ assms(3)])
  show "near e1 (x * y) (x' * y)" by (rule near_scale [OF assms(1)])
  show "near e2 (x' * y) (x' * y')" using near_scale [OF assms(2), of x'] by (simp add: mult.commute)
qed

lemma fl_near:
  "near (1 / 2 ^ p) (fl_value (fl_of_int p k)) (real_of_int k)"
  "near (1 / 2 ^ p) (fl_value (fl_cast p x)) (fl_value x)"
  "near (1 / 2 ^ p) (fl_value (fl_mul p x y)) (fl_value x * fl_value y)"
  "near (1 / 2 ^ p) (fl_value (fl_add p x y)) (fl_value x + fl_value y)"
  "near (1 / 2 ^ p) (fl_value (fl_sub p x y)) (fl_value x - fl_value y)"
  "0 < k \<Longrightarrow> near (1 / 2 ^ p) (fl_value (fl_div_int p x k)) (fl_value x / real_of_int k)"
  using fl_of_int_error [of p k] by (simp add: near_def,
    use fl_cast_error [of p x] in \<open>simp add: near_def\<close>,
    use fl_mul_error [of p x y] in \<open>simp add: near_def\<close>,
    use fl_add_error [of p x y] in \<open>simp add: near_def\<close>,
    use fl_sub_error [of p x y] in \<open>simp add: near_def\<close>,
    use fl_div_int_error [of k p x] in \<open>simp add: near_def mult.commute\<close>)

text \<open>The exact cost of a time at a rate per minute.\<close>

definition exact_cost :: "string \<Rightarrow> int \<Rightarrow> real" where
  "exact_cost billrate time = fl_value (fl_atof billrate) * real_of_int time / 60000000"

lemma billrate_cost_near: "near (1 / 2 ^ 50) (fl_value (billrate_cost r time)) (exact_cost r time)"
proof -
  let ?u = "1 / 2 ^ DBL_MANT_DIG :: real"
  let ?d1 = "fl_div_int DBL_MANT_DIG (fl_atof r) 1000000"
  let ?d2 = "fl_div_int DBL_MANT_DIG ?d1 60"
  have "near ?u (fl_value ?d2) (fl_value ?d1 / 60)"
    using fl_near(6) [of 60 DBL_MANT_DIG ?d1] by simp
  moreover have "near ?u (fl_value ?d1 / 60) (fl_value (fl_atof r) / 60000000)"
    using near_scale [OF fl_near(6) [of 1000000 DBL_MANT_DIG "fl_atof r"], of "1 / 60"] by simp
  ultimately have rate: "near (?u + ?u + ?u * ?u) (fl_value ?d2) (fl_value (fl_atof r) / 60000000)"
    by (rule near_trans) simp
  have "near ?u (fl_value (billrate_cost r time))
      (fl_value ?d2 * fl_value (fl_of_int DBL_MANT_DIG time))"
    unfolding billrate_cost_def by (rule fl_near(3))
  moreover have "near ((?u + ?u + ?u * ?u) + ?u + (?u + ?u + ?u * ?u) * ?u)
      (fl_value ?d2 * fl_value (fl_of_int DBL_MANT_DIG time))
      (fl_value (fl_atof r) / 60000000 * real_of_int time)"
    by (rule near_mult [OF rate fl_near(1)]) simp
  ultimately have "near (?u + ((?u + ?u + ?u * ?u) + ?u + (?u + ?u + ?u * ?u) * ?u) +
      ?u * ((?u + ?u + ?u * ?u) + ?u + (?u + ?u + ?u * ?u) * ?u))
      (fl_value (billrate_cost r time)) (fl_value (fl_atof r) / 60000000 * real_of_int time)"
    by (rule near_trans) simp
  then have "near (1 / 2 ^ 50) (fl_value (billrate_cost r time)) (fl_value (fl_atof r) / 60000000 * real_of_int time)"
    by (rule near_weaken) (simp add: DBL_MANT_DIG_def)
  then show ?thesis by (simp add: exact_cost_def)
qed

lemma adjustment_near:
  "near (1 / 2 ^ 22) (fl_value (fl_cast FLT_MANT_DIG (fl_add DBL_MANT_DIG (0, 0) (billrate_cost r time))))
     (exact_cost r time)"
proof -
  let ?c = "billrate_cost r time"
  have "near (1 / 2 ^ DBL_MANT_DIG) (fl_value (fl_add DBL_MANT_DIG (0, 0) ?c)) (fl_value ?c)"
    using fl_near(4) [of DBL_MANT_DIG "(0, 0)" ?c] by (simp add: fl_value_def)
  from near_trans [OF this billrate_cost_near]
  have "near (1 / 2 ^ DBL_MANT_DIG + 1 / 2 ^ 50 + 1 / 2 ^ DBL_MANT_DIG * (1 / 2 ^ 50))
      (fl_value (fl_add DBL_MANT_DIG (0, 0) ?c)) (exact_cost r time)" by simp
  note cast = near_trans [OF fl_near(2) [of FLT_MANT_DIG] this]
  show ?thesis by (rule near_weaken [OF cast]) (simp_all add: DBL_MANT_DIG_def FLT_MANT_DIG_def)
qed

text \<open>One billing with an adjustment that is exact up to a fraction.\<close>

lemma bill_amount_error:
  assumes "near (1 / 2 ^ 22) (fl_value (nd_bill_adjustments nd)) adj"
  shows "\<bar>fl_value (bill_amount r ts nd) - (exact_cost r (ts - nd_lastts nd) - adj)\<bar> \<le>
    (\<bar>exact_cost r (ts - nd_lastts nd)\<bar> + \<bar>adj\<bar>) / 2 ^ 21"
proof -
  let ?c = "fl_value (billrate_cost r (ts - nd_lastts nd))" and ?a = "fl_value (nd_bill_adjustments nd)"
  let ?C = "exact_cost r (ts - nd_lastts nd)"
  have "near (1 / 2 ^ FLT_MANT_DIG + 1 / 2 ^ DBL_MANT_DIG + 1 / 2 ^ FLT_MANT_DIG * (1 / 2 ^ DBL_MANT_DIG))
      (fl_value (bill_amount r ts nd)) (?c - ?a)"
    unfolding bill_amount_def by (rule near_trans [OF fl_near(2) fl_near(5)]) simp
  then have "near (1 / 2 ^ 23) (fl_value (bill_amount r ts nd)) (?c - ?a)"
    by (rule near_weaken) (simp add: DBL_MANT_DIG_def FLT_MANT_DIG_def)
  then have 1: "\<bar>fl_value (bill_amount r ts nd) - (?c - ?a)\<bar> \<le> (\<bar>?c\<bar> + \<bar>?a\<bar>) / 2 ^ 23"
    by (simp add: near_def)
  have 2: "\<bar>?c - ?C\<bar> \<le> \<bar>?C\<bar> / 2 ^ 50" using billrate_cost_near by (simp add: near_def)
  have 3: "\<bar>?a - adj\<bar> \<le> \<bar>adj\<bar> / 2 ^ 22" using assms by (simp add: near_def)
  let ?b = "fl_value (bill_amount r ts nd)"
  have tri: "\<bar>?b - (?C - adj)\<bar> \<le> \<bar>?b - (?c - ?a)\<bar> + \<bar>?c - ?C\<bar> + \<bar>?a - adj\<bar>"
    "\<bar>?c\<bar> \<le> \<bar>?C\<bar> + \<bar>?c - ?C\<bar>" "\<bar>?a\<bar> \<le> \<bar>adj\<bar> + \<bar>?a - adj\<bar>" by arith+
  have lin: "D * 2097152 \<le> C + A"
    if "D \<le> E + F + G" "c \<le> C + F" "a \<le> A + G" "E * 8388608 \<le> c + a"
      "F * 1125899906842624 \<le> C" "G * 4194304 \<le> A" "0 \<le> C" "0 \<le> A"
    for A C D E F G a c :: real
    using that by linarith
  have "\<bar>?b - (?C - adj)\<bar> * 2097152 \<le> \<bar>?C\<bar> + \<bar>adj\<bar>"
    by (rule lin [OF tri]) (use 1 2 3 in \<open>simp_all\<close>)
  then show ?thesis by simp
qed

subsection \<open>Properties of the billing\<close>

text \<open>An answered call with billing data and a database, at a rate and for an account.\<close>

definition billed_call :: "string \<Rightarrow> string \<Rightarrow> nibble_data \<Rightarrow> nb_session \<Rightarrow> bool" where
  "billed_call rate account nd ses \<longleftrightarrow>
     ses_channel ses \<and> ses_var ses ''nibble_rate'' = Some rate \<and>
     ses_var ses ''nibble_account'' = Some account \<and> (\<exists>a \<ge> 1. ses_answered ses = Some a) \<and>
     \<not> ses_hungup ses \<and> ses_nibble_data ses = Some nd"

definition odbc_answers :: "nb_env \<Rightarrow> bool" where
  "odbc_answers env \<longleftrightarrow> env_odbc_available env \<and>
     (\<forall>log sql rows. env_odbc_query env log sql = Some rows \<longrightarrow> None \<notin> set rows)"

lemma callback_rows_total: "None \<notin> set rows \<Longrightarrow> \<exists>b'. callback_rows rows b = Inr b'"
proof (induction rows arbitrary: b)
  case (Cons r rows)
  then obtain s where "r = Some s" by (cases r) auto
  with Cons show ?case by (auto simp: nibblebill_callback_def)
qed simp

lemma get_balance_total: "odbc_answers env \<Longrightarrow> \<exists>b. get_balance env acc w = Inr b"
  using callback_rows_total [of _ "(0, 0)"]
  by (cases "env_odbc_query env (w_sql w) (sql_buffer (SQL_LOOKUP (w_globals w) acc))")
    (auto simp: odbc_answers_def get_balance_def simp del: split_paired_Ex)

lemma check_balance_result:
  assumes "odbc_answers env" "ses_nibble_data ses = Some nd" "g_nobal_action (w_globals w) \<noteq> None"
  shows "\<exists>ses' w' nd'. check_balance env b ts acc ses w = Inr (ses', w') \<and> w_sql w' = w_sql w \<and>
    ses_nibble_data ses' = Some nd' \<and> nd_total nd' = nd_total nd \<and> nd_lastts nd' = nd_lastts nd \<and>
    nd_bill_adjustments nd' = nd_bill_adjustments nd \<and> ses_channel ses' = ses_channel ses"
proof -
  obtain bal where bal: "get_balance env acc w = Inr bal" using get_balance_total [OF assms(1)] by blast
  obtain dest where dest: "g_nobal_action (w_globals w) = Some dest" using assms(3) by blast
  show ?thesis
  proof (cases "fl_less bal (g_nobal_amt (w_globals w))")
    case True
    then show ?thesis
      using bal dest assms(2)
      by (simp add: check_balance_def nibblebill_pause_def transfer_call_def Let_def)
  next
    case False
    then show ?thesis using bal assms(2) by (simp add: check_balance_def)
  qed
qed

lemma bill_interval_result:
  "env_odbc_available env \<Longrightarrow> nd_lastts nd \<le> ts \<Longrightarrow>
   bill_interval env ts r acc nd ses w =
     (nd\<lparr>nd_total := fl_add FLT_MANT_DIG (nd_total nd) (bill_amount r ts nd),
         nd_bill_adjustments := (0, 0), nd_lastts := ts\<rparr>,
      ses\<lparr>ses_var := (ses_var ses)(''nibble_total_billed'' \<mapsto>
        format_f (fl_add FLT_MANT_DIG (nd_total nd) (bill_amount r ts nd)))\<rparr>,
      w\<lparr>w_sql := w_sql w @ [sql_buffer (SQL_SAVE (w_globals w) (bill_amount r ts nd) acc)]\<rparr>)"
  by (simp add: bill_interval_def bill_event_def Let_def)

lemma do_billing_result:
  assumes "billed_call r acc nd ses" "odbc_answers env" "g_nobal_action (w_globals w) \<noteq> None"
    and "nd_pausets nd \<le> 0" "nd_lastts nd \<le> ts"
  shows "\<exists>ses' w' nd'. do_billing env b ts ts2 ses w = Inr (ses', w') \<and>
    w_sql w' = w_sql w @ [sql_buffer (SQL_SAVE (w_globals w) (bill_amount r ts nd) acc)] \<and>
    ses_nibble_data ses' = Some nd' \<and> nd_total nd' = fl_add FLT_MANT_DIG (nd_total nd) (bill_amount r ts nd) \<and>
    nd_lastts nd' = ts \<and> nd_bill_adjustments nd' = (0, 0) \<and> ses_channel ses'"
proof -
  obtain a where call: "ses_channel ses" "ses_var ses ''nibble_rate'' = Some r"
    "ses_var ses ''nibble_account'' = Some acc" "1 \<le> a" "ses_answered ses = Some a"
    "\<not> ses_hungup ses" "ses_nibble_data ses = Some nd"
    using assms(1) by (auto simp: billed_call_def)
  have odbc: "env_odbc_available env" using assms(2) by (simp add: odbc_answers_def)
  obtain nd1 ses1 w1 where bi: "bill_interval env ts r acc nd ses (mutex_lock w) = (nd1, ses1, w1)"
    by (metis prod_cases3)
  note res = bi [unfolded bill_interval_result [OF odbc assms(5)], symmetric]
  let ?ses2 = "ses1\<lparr>ses_nibble_data := Some nd1\<rparr>"
  obtain ses' w' nd' where cb: "check_balance env b ts2 acc ?ses2 w1 = Inr (ses', w')" "w_sql w' = w_sql w1"
    "ses_nibble_data ses' = Some nd'" "nd_total nd' = nd_total nd1" "nd_lastts nd' = nd_lastts nd1"
    "nd_bill_adjustments nd' = nd_bill_adjustments nd1" "ses_channel ses' = ses_channel ?ses2"
    using check_balance_result [OF assms(2), of ?ses2 nd1 w1 b ts2 acc] assms(3) res by auto
  have "do_billing env b ts ts2 ses w = Inr (ses', mutex_unlock w')"
    using call assms(4) cb(1) res by (simp add: do_billing_def Let_def bi)
  then show ?thesis using cb res call(1) by simp
qed

lemma exact_cost_diff: "exact_cost r a - exact_cost r b = exact_cost r (a - b)"
  by (simp add: exact_cost_def diff_divide_distrib [symmetric] algebra_simps)

lemma exact_cost_sum:
  "0 \<le> a \<Longrightarrow> 0 \<le> b \<Longrightarrow> \<bar>exact_cost r a\<bar> + \<bar>exact_cost r b\<bar> = \<bar>exact_cost r (a + b)\<bar>"
  by (simp add: exact_cost_def abs_mult add_divide_distrib [symmetric] distrib_left [symmetric])

text \<open>
C22: A call billed at \<open>t1\<close>, paused at \<open>t2\<close>, resumed at \<open>t3\<close> and billed again at \<open>t4\<close> is
  charged for the time that was not paused: the amount the \<open>UPDATE\<close> statement takes from the
  account is the rate times \<open>(t2 - t1) + (t4 - t3)\<close>, up to the rounding of \<open>float\<close>, less than one
  part in two million of the cost of the whole time; no other statement is sent, and the running
  total grows by the same amount.
\<close>

theorem pause_is_not_billed:
  assumes call: "billed_call rate account nd ses" and odbc: "odbc_answers env"
    and action: "g_nobal_action (w_globals w) \<noteq> None"
    and nd: "nd_pausets nd = 0" "nd_bill_adjustments nd = (0, 0)" "nd_lastts nd = t1"
    and times: "t1 \<le> t2" "t2 \<le> t3" "t3 \<le> t4" "0 < t2"
  shows "\<exists>ses1 w1 ses2 w2 ses3 w3 amount total.
    nibblebill_pause t2 ses w = (ses1, w1) \<and>
    nibblebill_resume t3 ses1 w1 = Inr (ses2, w2) \<and>
    do_billing env b t4 t4' ses2 w2 = Inr (ses3, w3) \<and>
    w_sql w3 = w_sql w @ [sql_buffer (SQL_SAVE (w_globals w) amount account)] \<and>
    \<bar>fl_value amount - exact_cost rate ((t2 - t1) + (t4 - t3))\<bar> \<le>
      \<bar>exact_cost rate ((t4 - t1) + (t3 - t2))\<bar> / 2 ^ 21 \<and>
    nibblebill_check ses3 w3 = (total, w3) \<and> total = fl_add FLT_MANT_DIG (nd_total nd) amount"
proof -
  let ?ses1 = "ses\<lparr>ses_nibble_data := Some (nd\<lparr>nd_pausets := t2\<rparr>)\<rparr>"
  have 1: "nibblebill_pause t2 ses w = (?ses1, w)"
    using call nd(1) by (simp add: nibblebill_pause_def billed_call_def Let_def)
  define adj where "adj = fl_cast FLT_MANT_DIG (fl_add DBL_MANT_DIG (0, 0) (billrate_cost rate (t3 - t2)))"
  define nd2 where "nd2 = nd\<lparr>nd_bill_adjustments := adj, nd_pausets := 0\<rparr>"
  let ?ses2 = "ses\<lparr>ses_nibble_data := Some nd2\<rparr>"
  have 2: "nibblebill_resume t3 ?ses1 w = Inr (?ses2, w)"
    using call times(4) nd(2) by (simp add: nibblebill_resume_def billed_call_def Let_def adj_def nd2_def)
  have nd2: "nd_lastts nd2 = t1" "nd_pausets nd2 = 0" "nd_total nd2 = nd_total nd"
    "nd_bill_adjustments nd2 = adj" using nd by (simp_all add: nd2_def)
  have "billed_call rate account nd2 ?ses2" using call by (simp add: billed_call_def)
  from do_billing_result [OF this odbc action, of t4 b t4'] nd2(1,2) times
  obtain ses3 w3 nd3 where 3: "do_billing env b t4 t4' ?ses2 w = Inr (ses3, w3)"
    "w_sql w3 = w_sql w @ [sql_buffer (SQL_SAVE (w_globals w) (bill_amount rate t4 nd2) account)]"
    "ses_nibble_data ses3 = Some nd3"
    "nd_total nd3 = fl_add FLT_MANT_DIG (nd_total nd2) (bill_amount rate t4 nd2)" "ses_channel ses3"
    by auto
  have "near (1 / 2 ^ 22) (fl_value (nd_bill_adjustments nd2)) (exact_cost rate (t3 - t2))"
    unfolding nd2(4) adj_def by (rule adjustment_near)
  from bill_amount_error [OF this, of rate t4]
  have "\<bar>fl_value (bill_amount rate t4 nd2) - exact_cost rate ((t2 - t1) + (t4 - t3))\<bar> \<le>
      \<bar>exact_cost rate ((t4 - t1) + (t3 - t2))\<bar> / 2 ^ 21"
    unfolding nd2(1) using exact_cost_sum [of "t4 - t1" "t3 - t2" rate] times
    by (simp add: exact_cost_diff algebra_simps)
  moreover have "nibblebill_check ses3 w3 =
      (fl_add FLT_MANT_DIG (nd_total nd) (bill_amount rate t4 nd2), w3)"
    using 3(3,4,5) nd2(3) by (simp add: nibblebill_check_def)
  ultimately show ?thesis
    using 1 2 3(1,2) by blast
qed

text \<open>An environment in which the database accepts everything and every account holds 10.\<close>

definition sample_env :: nb_env where
  "sample_env = \<lparr>env_api = documented_api, env_separated = (\<lambda>s d n. takeWhile (\<lambda>c. c \<noteq> d) s),
     env_odbc_available = True, env_odbc_new = True, env_odbc_connect = True,
     env_odbc_exec = (\<lambda>_ _. True), env_odbc_query = (\<lambda>_ _. Some [Some ''10''])\<rparr>"

definition sample_world :: nb_world where
  "sample_world = \<lparr>w_globals = zero_globals\<lparr>g_mutex := True, g_nobal_action := Some ''1001 XML default'',
       g_nobal_amt := (20, 0)\<rparr>,
     w_depth = 0, w_sql = [], w_transfers = []\<rparr>"

definition sample_call :: "nibble_data option \<Rightarrow> nb_session" where
  "sample_call nd = \<lparr>ses_channel = True,
     ses_var = [''nibble_rate'' \<mapsto> ''0.05'', ''nibble_account'' \<mapsto> ''acme''],
     ses_answered = Some 1000000, ses_hungup = False, ses_nibble_data = nd, ses_heartbeat = None\<rparr>"

lemma sample_env_answers: "odbc_answers sample_env"
  by (simp add: odbc_answers_def sample_env_def)

lemma sample_billed: "billed_call ''0.05'' ''acme'' nd (sample_call (Some nd))"
  by (auto simp: billed_call_def sample_call_def)

lemma pause_is_not_billed_witness:
  "\<exists>ses1 w1 ses2 w2 ses3 w3 amount total.
    nibblebill_pause 61000000 (sample_call (Some (new_nibble_data 1000000))) sample_world = (ses1, w1) \<and>
    nibblebill_resume 121000000 ses1 w1 = Inr (ses2, w2) \<and>
    do_billing sample_env False 181000000 181000001 ses2 w2 = Inr (ses3, w3) \<and>
    w_sql w3 = w_sql sample_world @ [sql_buffer (SQL_SAVE (w_globals sample_world) amount ''acme'')] \<and>
    \<bar>fl_value amount - exact_cost ''0.05'' ((61000000 - 1000000) + (181000000 - 121000000))\<bar> \<le>
      \<bar>exact_cost ''0.05'' ((181000000 - 1000000) + (121000000 - 61000000))\<bar> / 2 ^ 21 \<and>
    nibblebill_check ses3 w3 = (total, w3) \<and>
    total = fl_add FLT_MANT_DIG (nd_total (new_nibble_data 1000000)) amount"
  by (rule pause_is_not_billed [OF sample_billed sample_env_answers])
    (simp_all add: sample_world_def new_nibble_data_def)

fun heartbeats ::
    "nb_env \<Rightarrow> bool \<Rightarrow> (int \<times> int) list \<Rightarrow> nb_session \<Rightarrow> nb_world \<Rightarrow> crash + nb_session \<times> nb_world" where
  "heartbeats env b [] ses w = Inr (ses, w)"
| "heartbeats env b ((ts, ts2) # beats) ses w =
     (case do_billing env b ts ts2 ses w of
        Inl e \<Rightarrow> Inl e
      | Inr (ses', w') \<Rightarrow> heartbeats env b beats ses' w')"

lemma paused_no_billing:
  "ses_nibble_data ses = Some nd \<Longrightarrow> 0 < nd_pausets nd \<Longrightarrow> do_billing env b ts ts2 ses w = Inr (ses, w)"
  by (auto simp: do_billing_def Let_def split: option.splits)

lemma paused_heartbeats:
  "ses_nibble_data ses = Some nd \<Longrightarrow> 0 < nd_pausets nd \<Longrightarrow> heartbeats env b beats ses w = Inr (ses, w)"
  by (induction beats) (auto simp: paused_no_billing)

text \<open>
While a call is paused nothing is billed, and since the resume at hangup is commented out
  nothing is billed at its end either: whatever heartbeats come after a pause at \<open>t2\<close>, and even
  when the call ends, no statement reaches the database, so the time between the last billing and
  the pause is never charged.
\<close>

theorem paused_call_never_billed:
  assumes "nibblebill_pause t2 ses w = (ses1, w1)" "billed_call rate account nd ses" "0 < t2"
    and "0 \<le> nd_pausets nd"
  shows "heartbeats env b beats ses1 w1 = Inr (ses1, w1) \<and>
    process_hangup env b ts ts2 (ses1\<lparr>ses_hungup := True\<rparr>) w1 = Inr (ses1\<lparr>ses_hungup := True\<rparr>, w1) \<and>
    w_sql w1 = w_sql w"
proof -
  obtain nd1 where "ses_nibble_data ses1 = Some nd1" "0 < nd_pausets nd1" "w1 = w"
    using assms by (auto simp: nibblebill_pause_def billed_call_def Let_def)
  then show ?thesis by (simp add: process_hangup_def paused_heartbeats paused_no_billing)
qed

lemma paused_call_never_billed_witness:
  "process_hangup sample_env False 181000000 181000000
     ((fst (nibblebill_pause 61000000 (sample_call (Some (new_nibble_data 1000000))) sample_world))\<lparr>ses_hungup := True\<rparr>)
     (snd (nibblebill_pause 61000000 (sample_call (Some (new_nibble_data 1000000))) sample_world)) =
   Inr ((fst (nibblebill_pause 61000000 (sample_call (Some (new_nibble_data 1000000))) sample_world))\<lparr>ses_hungup := True\<rparr>,
        snd (nibblebill_pause 61000000 (sample_call (Some (new_nibble_data 1000000))) sample_world))"
  by (rule paused_call_never_billed [OF prod.collapse [symmetric] sample_billed, THEN conjunct2, THEN conjunct1])
    (simp_all add: new_nibble_data_def)

lemma depth_mutex_lock: "w_depth (mutex_lock w) = w_depth w + (if g_mutex (w_globals w) then 1 else 0)"
  by (simp add: mutex_lock_def)

text \<open>
C23: Every command gives back the mutex it takes, with one exception: \<open>pause\<close> on a call that has
  not been billed yet returns with the mutex held, and no other thread can bill any call after it.
\<close>

theorem command_lock_balance:
  assumes "nb_command env b ts ts2 argv ses w = Inr (ses', w')"
  shows "w_depth w' = w_depth w +
    (if argv \<noteq> [] \<and> c_strcaseeq (hd argv) ''pause'' \<and> ses_channel ses \<and> ses_nibble_data ses = None \<and>
        g_mutex (w_globals w) then 1 else 0)"
proof (cases argv)
  case (Cons cmd args)
  have pause: "c_strcaseeq cmd v \<Longrightarrow> \<not> c_strcaseeq v ''pause'' \<Longrightarrow> \<not> c_strcaseeq cmd ''pause''" for v
    by (simp add: c_strcaseeq_def)
  have words: "\<not> c_strcaseeq ''adjust'' ''pause''" "\<not> c_strcaseeq ''flush'' ''pause''"
    "\<not> c_strcaseeq ''resume'' ''pause''" "\<not> c_strcaseeq ''check'' ''pause''"
    "\<not> c_strcaseeq ''reset'' ''pause''" "\<not> c_strcaseeq ''heartbeat'' ''pause''"
    by (simp_all add: c_strcaseeq_def c_tolower_def c_isupper_def char_int_def)
  note not_pause = pause [OF _ words(1)] pause [OF _ words(2)] pause [OF _ words(3)]
    pause [OF _ words(4)] pause [OF _ words(5)] pause [OF _ words(6)]
  have adjust: "w_depth (nibblebill_adjust env a c w) = w_depth w" for a c
    by (simp add: nibblebill_adjust_def bill_event_def Let_def split: option.split)
  have other: "nibblebill_pause ts ses w = (ses', w') \<Longrightarrow> w_depth w' = w_depth w +
      (if ses_channel ses \<and> ses_nibble_data ses = None \<and> g_mutex (w_globals w) then 1 else 0)"
    "nibblebill_resume ts ses w = Inr (ses', w') \<Longrightarrow> w' = w"
    "nibblebill_reset ts ses w = (ses', w') \<Longrightarrow> w' = w" "snd (nibblebill_check ses w) = w"
    by (auto simp: nibblebill_pause_def nibblebill_resume_def nibblebill_reset_def nibblebill_check_def
        depth_mutex_lock Let_def split: if_splits option.splits)
  have bill: "do_billing env b ts ts2 ses w = Inr (ses', w') \<Longrightarrow> w_depth w' = w_depth w"
    using keeps_lock_billing by (simp add: keeps_lock_def)
  from assms show ?thesis
    unfolding Cons nb_command_def list.case
    by (auto split: if_splits simp: adjust other(4) dest: not_pause other(1-3) bill)
qed (use assms in \<open>simp add: nb_command_def\<close>)

lemma command_lock_balance_witness:
  "w_depth (snd (nibblebill_pause 5 (sample_call None) sample_world)) = w_depth sample_world + 1"
proof -
  have "nb_command sample_env False 5 5 [''pause''] (sample_call None) sample_world =
      Inr (sample_call None, mutex_lock sample_world)"
    by (simp add: nb_command_def nibblebill_pause_def sample_call_def Let_def c_strcaseeq_def
        c_tolower_def c_isupper_def char_int_def)
  from command_lock_balance [OF this] show ?thesis
    by (simp add: nibblebill_pause_def sample_call_def sample_world_def Let_def c_strcaseeq_def)
qed

text \<open>
A reset forgets the time since the last billing but not the adjustment of a pause before it:
  after a pause from \<open>t2\<close> to \<open>t3\<close> and a reset at \<open>t4\<close>, a billing at \<open>t4\<close> takes the negated cost of
  the pause, up to rounding, from the account, that is, it gives the caller money.
\<close>

theorem reset_credits_pause:
  assumes call: "billed_call rate account nd ses" and odbc: "odbc_answers env"
    and action: "g_nobal_action (w_globals w) \<noteq> None"
    and nd: "nd_pausets nd = 0" "nd_bill_adjustments nd = (0, 0)"
    and "0 < t2" "t2 \<le> t3" "t3 \<le> t4"
  shows "\<exists>ses1 w1 ses2 w2 ses3 w3 ses4 w4 amount.
    nibblebill_pause t2 ses w = (ses1, w1) \<and>
    nibblebill_resume t3 ses1 w1 = Inr (ses2, w2) \<and>
    nibblebill_reset t4 ses2 w2 = (ses3, w3) \<and>
    do_billing env b t4 t4' ses3 w3 = Inr (ses4, w4) \<and>
    w_sql w4 = w_sql w @ [sql_buffer (SQL_SAVE (w_globals w) amount account)] \<and>
    \<bar>fl_value amount + exact_cost rate (t3 - t2)\<bar> \<le> \<bar>exact_cost rate (t3 - t2)\<bar> / 2 ^ 21"
proof -
  let ?ses1 = "ses\<lparr>ses_nibble_data := Some (nd\<lparr>nd_pausets := t2\<rparr>)\<rparr>"
  define adj where "adj = fl_cast FLT_MANT_DIG (fl_add DBL_MANT_DIG (0, 0) (billrate_cost rate (t3 - t2)))"
  define nd2 where "nd2 = nd\<lparr>nd_bill_adjustments := adj, nd_pausets := 0\<rparr>"
  define nd3 where "nd3 = nd2\<lparr>nd_lastts := t4\<rparr>"
  let ?ses2 = "ses\<lparr>ses_nibble_data := Some nd2\<rparr>" and ?ses3 = "ses\<lparr>ses_nibble_data := Some nd3\<rparr>"
  have 1: "nibblebill_pause t2 ses w = (?ses1, w)"
    using call nd(1) by (simp add: nibblebill_pause_def billed_call_def Let_def)
  have 2: "nibblebill_resume t3 ?ses1 w = Inr (?ses2, w)"
    using call assms(6) nd(2)
    by (simp add: nibblebill_resume_def billed_call_def Let_def adj_def nd2_def)
  have 3: "nibblebill_reset t4 ?ses2 w = (?ses3, w)"
    using call by (simp add: nibblebill_reset_def billed_call_def nd3_def)
  have nd3: "nd_lastts nd3 = t4" "nd_pausets nd3 = 0" "nd_bill_adjustments nd3 = adj"
    by (simp_all add: nd3_def nd2_def)
  have "billed_call rate account nd3 ?ses3" using call by (simp add: billed_call_def)
  from do_billing_result [OF this odbc action, of t4 b t4'] nd3(1,2)
  obtain ses4 w4 where 4: "do_billing env b t4 t4' ?ses3 w = Inr (ses4, w4)"
    "w_sql w4 = w_sql w @ [sql_buffer (SQL_SAVE (w_globals w) (bill_amount rate t4 nd3) account)]"
    by auto
  have "near (1 / 2 ^ 22) (fl_value (nd_bill_adjustments nd3)) (exact_cost rate (t3 - t2))"
    unfolding nd3(3) adj_def by (rule adjustment_near)
  from bill_amount_error [OF this, of rate t4]
  have "\<bar>fl_value (bill_amount rate t4 nd3) + exact_cost rate (t3 - t2)\<bar> \<le>
      \<bar>exact_cost rate (t3 - t2)\<bar> / 2 ^ 21"
    by (simp add: nd3(1) exact_cost_def)
  then show ?thesis using 1 2 3 4 by blast
qed

lemma reset_credits_pause_witness:
  "\<exists>ses1 w1 ses2 w2 ses3 w3 ses4 w4 amount.
    nibblebill_pause 61000000 (sample_call (Some (new_nibble_data 1000000))) sample_world = (ses1, w1) \<and>
    nibblebill_resume 121000000 ses1 w1 = Inr (ses2, w2) \<and>
    nibblebill_reset 181000000 ses2 w2 = (ses3, w3) \<and>
    do_billing sample_env False 181000000 181000001 ses3 w3 = Inr (ses4, w4) \<and>
    w_sql w4 = w_sql sample_world @ [sql_buffer (SQL_SAVE (w_globals sample_world) amount ''acme'')] \<and>
    \<bar>fl_value amount + exact_cost ''0.05'' (121000000 - 61000000)\<bar> \<le>
      \<bar>exact_cost ''0.05'' (121000000 - 61000000)\<bar> / 2 ^ 21"
  by (rule reset_credits_pause [OF sample_billed sample_env_answers])
    (simp_all add: sample_world_def new_nibble_data_def)

text \<open>What \<open>switch_separate_string\<close> leaves in its buffer: a string that ends after the first word.\<close>

definition separated_documented :: "nb_env \<Rightarrow> bool" where
  "separated_documented env \<longleftrightarrow>
     (\<forall>s n. s \<noteq> [] \<and> hd s \<noteq> CHR '' '' \<and> 2 \<le> n \<longrightarrow>
        env_separated env s CHR '' '' n = takeWhile (\<lambda>c. c \<noteq> CHR '' '') s \<and>
        arg (fs_separate_string (env_api env) s CHR '' '' n) 0 = Some (takeWhile (\<lambda>c. c \<noteq> CHR '' '') s)) \<and>
     (\<forall>s n. CHR '' '' \<notin> set s \<and> s \<noteq> [] \<and> 2 \<le> n \<longrightarrow> fs_separate_string (env_api env) s CHR '' '' n = [s])"

text \<open>
The action for an empty account works with all its arguments for the first call only: the
  module takes its own configuration string apart in place, so every later call whose balance is
  too low is transferred to the first word of it, without dialplan and context.
\<close>

theorem second_transfer_loses_arguments:
  assumes "separated_documented env" "g_nobal_action (w_globals w) = Some dest"
    and "dest \<noteq> []" "hd dest \<noteq> CHR '' ''"
    and "transfer_call env b1 ses1 w = Inr w1" "transfer_call env b2 ses2 w1 = Inr w2"
  shows "last (w_transfers w2) = (Some (takeWhile (\<lambda>c. c \<noteq> CHR '' '') dest), None, None)"
proof -
  let ?word = "takeWhile (\<lambda>c. c \<noteq> CHR '' '') dest"
  have word: "?word \<noteq> []" "CHR '' '' \<notin> set ?word"
    using assms(3,4) by (cases dest; auto dest: set_takeWhileD)+
  have "env_separated env dest CHR '' '' 4 = ?word"
    using assms(1,3,4) by (simp add: separated_documented_def)
  then have "g_nobal_action (w_globals w1) = Some ?word"
    using assms(2,5) by (auto simp: transfer_call_def Let_def)
  moreover have "fs_separate_string (env_api env) ?word CHR '' '' 4 = [?word]"
    using assms(1) word by (simp add: separated_documented_def)
  ultimately show ?thesis using assms(6) by (auto simp: transfer_call_def Let_def arg_def)
qed

lemma split_on_first: "\<exists>rest. split_on d acc s = (acc @ takeWhile (\<lambda>c. c \<noteq> d) s) # rest"
proof (induction s arbitrary: acc)
  case (Cons c s)
  then show ?case using Cons.IH [of "acc @ [c]"] by auto
qed simp

lemma split_on_none: "d \<notin> set s \<Longrightarrow> split_on d acc s = [acc @ s]"
  by (induction s arbitrary: acc) auto

lemma sample_env_separated: "separated_documented sample_env"
  unfolding separated_documented_def
proof (intro conjI allI impI)
  fix s :: string and n :: nat
  assume s: "s \<noteq> [] \<and> hd s \<noteq> CHR '' '' \<and> 2 \<le> n"
  obtain rest where "split_on CHR '' '' [] s = takeWhile (\<lambda>c. c \<noteq> CHR '' '') s # rest"
    using split_on_first [of "CHR '' ''" "[]" s] by auto
  then show "arg (fs_separate_string (env_api sample_env) s CHR '' '' n) 0 =
      Some (takeWhile (\<lambda>c. c \<noteq> CHR '' '') s)"
    using s by (cases n) (simp_all add: sample_env_def documented_api_def arg_def)
next
  fix s :: string and n :: nat
  assume "CHR '' '' \<notin> set s \<and> s \<noteq> [] \<and> 2 \<le> n"
  then show "fs_separate_string (env_api sample_env) s CHR '' '' n = [s]"
    by (cases n) (simp_all add: sample_env_def documented_api_def split_on_none)
qed (simp add: sample_env_def)

lemma second_transfer_loses_arguments_witness:
  "last (w_transfers (projr (transfer_call sample_env False (sample_call None)
     (projr (transfer_call sample_env False (sample_call None) sample_world))))) =
   (Some ''1001'', None, None) \<and>
   w_transfers (projr (transfer_call sample_env False (sample_call None) sample_world)) =
     [(Some ''1001'', Some ''XML'', Some ''default'')]"
proof
  let ?w1 = "projr (transfer_call sample_env False (sample_call None) sample_world)"
  have 1: "transfer_call sample_env False (sample_call None) sample_world = Inr ?w1"
    by (simp add: transfer_call_def sample_world_def Let_def)
  have 2: "transfer_call sample_env False (sample_call None) ?w1 =
      Inr (projr (transfer_call sample_env False (sample_call None) ?w1))"
    by (simp add: transfer_call_def sample_world_def Let_def)
  have "last (w_transfers (projr (transfer_call sample_env False (sample_call None) ?w1))) =
      (Some (takeWhile (\<lambda>c. c \<noteq> CHR '' '') ''1001 XML default''), None, None)"
    by (rule second_transfer_loses_arguments [OF sample_env_separated _ _ _ 1 2])
      (simp_all add: sample_world_def)
  then show "last (w_transfers (projr (transfer_call sample_env False (sample_call None) ?w1))) =
      (Some ''1001'', None, None)" by simp
  have words: "split_on CHR '' '' [] ''1001 XML default'' = [''1001'', ''XML'', ''default'']" by code_simp
  have "fs_separate_string documented_api ''1001 XML default'' CHR '' '' 4 = [''1001'', ''XML'', ''default'']"
    unfolding documented_api_def by (simp add: words del: split_on.simps)
  then show "w_transfers ?w1 = [(Some ''1001'', Some ''XML'', Some ''default'')]"
    by (simp add: transfer_call_def sample_world_def sample_env_def sample_call_def arg_def Let_def)
qed

end
