(* ===== verification/Link_Hash.thy ===== *)
theory Link_Hash
  imports C_Library
begin

text \<open>
  \<open>mod/applications/mod_http/linkhash.c\<close>: a hash table with open addressing whose entries are
  also a doubly linked list in the order of insertion.  A pointer to an entry is its index in the
  table; the keys \<open>LH_EMPTY\<close> and \<open>LH_FREED\<close> of unused slots are constructors of their own.  A
  loop over the slots may not end: it is a partial function, and \<open>None\<close> says that it does not
  return.  The entries passed to the callback \<open>free_fn\<close> are listed in \<open>lh_released\<close>.
\<close>

datatype 'k lh_key = LH_EMPTY | LH_FREED | LH_KEY (key_of: 'k)

record ('k, 'v) lh_entry =
  le_k :: "'k lh_key"
  le_v :: "'v option"
  le_next :: "nat option"
  le_prev :: "nat option"

record ('k, 'v) lh_table =
  lh_size :: nat
  lh_count :: nat
  lh_collisions :: nat
  lh_resizes :: nat
  lh_lookups :: nat
  lh_inserts :: nat
  lh_head :: "nat option"
  lh_tail :: "nat option"
  lh_slots :: "('k, 'v) lh_entry list"
  lh_free_fn :: bool
  lh_hash_fn :: "'k \<Rightarrow> uint32_t"
  lh_equal_fn :: "'k \<Rightarrow> 'k \<Rightarrow> bool"
  lh_released :: "('k \<times> 'v option) list"

definition LH_PRIME :: "64 word" where "LH_PRIME = 0x9e370001"

definition lh_ptr_hash :: "64 word \<Rightarrow> uint32_t" where
  "lh_ptr_hash k = ucast (drop_bit 4 (k * LH_PRIME))"

definition lh_ptr_equal :: "64 word \<Rightarrow> 64 word \<Rightarrow> bool" where
  "lh_ptr_equal k1 k2 \<longleftrightarrow> k1 = k2"

definition lh_char_hash :: "string \<Rightarrow> uint32_t" where
  "lh_char_hash data = foldl (\<lambda>h c. ucast (ucast (h * 129 + word_of_int (char_int c)) + LH_PRIME)) 0 data"

definition lh_char_equal :: "string \<Rightarrow> string \<Rightarrow> bool" where
  "lh_char_equal k1 k2 \<longleftrightarrow> k1 = k2"

definition empty_entry :: "('k, 'v) lh_entry" where
  "empty_entry = \<lparr>le_k = LH_EMPTY, le_v = None, le_next = None, le_prev = None\<rparr>"

definition lh_table_new ::
    "nat \<Rightarrow> bool \<Rightarrow> ('k \<Rightarrow> uint32_t) \<Rightarrow> ('k \<Rightarrow> 'k \<Rightarrow> bool) \<Rightarrow> ('k, 'v) lh_table" where
  "lh_table_new size1 free_fn hash_fn equal_fn =
     \<lparr>lh_size = size1, lh_count = 0, lh_collisions = 0, lh_resizes = 0, lh_lookups = 0, lh_inserts = 0,
      lh_head = None, lh_tail = None, lh_slots = replicate size1 empty_entry, lh_free_fn = free_fn,
      lh_hash_fn = hash_fn, lh_equal_fn = equal_fn, lh_released = []\<rparr>"

definition lh_kchar_table_new :: "nat \<Rightarrow> bool \<Rightarrow> (string, 'v) lh_table" where
  "lh_kchar_table_new size1 free_fn = lh_table_new size1 free_fn lh_char_hash lh_char_equal"

definition lh_kptr_table_new :: "nat \<Rightarrow> bool \<Rightarrow> (64 word, 'v) lh_table" where
  "lh_kptr_table_new size1 free_fn = lh_table_new size1 free_fn lh_ptr_hash lh_ptr_equal"

text \<open>The slot a key starts at, and \<open>if (++n == t->size) n = 0;\<close>.\<close>

definition lh_start :: "('k, 'v) lh_table \<Rightarrow> 'k \<Rightarrow> nat" where
  "lh_start t k = unat (lh_hash_fn t k) mod lh_size t"

definition next_slot :: "nat \<Rightarrow> nat \<Rightarrow> nat" where
  "next_slot size1 n = (if Suc n = size1 then 0 else Suc n)"

text \<open>The search of an insertion for an unused slot, with the collisions it counts.\<close>

partial_function (option) lh_find_unused :: "('k, 'v) lh_entry list \<Rightarrow> nat \<Rightarrow> nat \<Rightarrow> (nat \<times> nat) option" where
  "lh_find_unused tab collisions n =
     (if le_k (tab ! n) = LH_EMPTY \<or> le_k (tab ! n) = LH_FREED then Some (n, collisions)
      else lh_find_unused tab (collisions + 1) (next_slot (length tab) n))"

text \<open>The entry is written and appended to the list.\<close>

definition lh_link_last :: "('k, 'v) lh_table \<Rightarrow> nat \<Rightarrow> 'k \<Rightarrow> 'v \<Rightarrow> crash + ('k, 'v) lh_table" where
  "lh_link_last t n k v =
     (let e = (lh_slots t ! n)\<lparr>le_k := LH_KEY k, le_v := Some v\<rparr>;
          t1 = t\<lparr>lh_count := lh_count t + 1\<rparr>
      in case lh_head t of
           None \<Rightarrow> Inr (t1\<lparr>lh_slots := (lh_slots t)[n := e\<lparr>le_next := None, le_prev := None\<rparr>],
                          lh_head := Some n, lh_tail := Some n\<rparr>)
         | Some _ \<Rightarrow>
             (case lh_tail t of
                None \<Rightarrow> Inl Null_Deref
              | Some l \<Rightarrow>
                  (let tab1 = (lh_slots t)[n := e];
                       tab2 = tab1[l := (tab1 ! l)\<lparr>le_next := Some n\<rparr>]
                   in Inr (t1\<lparr>lh_slots := tab2[n := (tab2 ! n)\<lparr>le_prev := Some l, le_next := None\<rparr>],
                              lh_tail := Some n\<rparr>))))"

definition lh_place :: "('k, 'v) lh_table \<Rightarrow> 'k \<Rightarrow> 'v \<Rightarrow> (crash + ('k, 'v) lh_table) option" where
  "lh_place t k v =
     (case lh_find_unused (lh_slots t) (lh_collisions t) (lh_start t k) of
        None \<Rightarrow> None
      | Some (n, collisions) \<Rightarrow> Some (lh_link_last (t\<lparr>lh_collisions := collisions\<rparr>) n k v))"

text \<open>The walk along the list; the loop of \<open>lh_table_resize\<close> inserts what it meets.\<close>

partial_function (option) lh_walk :: "('k, 'v) lh_entry list \<Rightarrow> nat option \<Rightarrow> nat list option" where
  "lh_walk tab ent =
     (case ent of
        None \<Rightarrow> Some []
      | Some i \<Rightarrow> Option.bind (lh_walk tab (le_next (tab ! i))) (\<lambda>is. Some (i # is)))"

fun insert_entries ::
    "(('k, 'v) lh_table \<Rightarrow> 'k \<Rightarrow> 'v \<Rightarrow> (crash + ('k, 'v) lh_table) option) \<Rightarrow> ('k, 'v) lh_entry list
      \<Rightarrow> ('k, 'v) lh_table \<Rightarrow> (crash + ('k, 'v) lh_table) option" where
  "insert_entries ins [] t = Some (Inr t)"
| "insert_entries ins (e # es) t =
     (case ins t (key_of (le_k e)) (the (le_v e)) of
        None \<Rightarrow> None
      | Some (Inl c) \<Rightarrow> Some (Inl c)
      | Some (Inr t') \<Rightarrow> insert_entries ins es t')"

definition lh_table_resize ::
    "(('k, 'v) lh_table \<Rightarrow> 'k \<Rightarrow> 'v \<Rightarrow> (crash + ('k, 'v) lh_table) option) \<Rightarrow> ('k, 'v) lh_table \<Rightarrow> nat
      \<Rightarrow> (crash + ('k, 'v) lh_table) option" where
  "lh_table_resize ins t new_size =
     (case lh_walk (lh_slots t) (lh_head t) of
        None \<Rightarrow> None
      | Some is \<Rightarrow>
          (case insert_entries ins (map ((!) (lh_slots t)) is)
                  (lh_table_new new_size False (lh_hash_fn t) (lh_equal_fn t)) of
             None \<Rightarrow> None
           | Some (Inl c) \<Rightarrow> Some (Inl c)
           | Some (Inr new_t) \<Rightarrow>
               Some (Inr (t\<lparr>lh_slots := lh_slots new_t, lh_size := new_size, lh_head := lh_head new_t,
                            lh_tail := lh_tail new_t, lh_resizes := lh_resizes t + 1\<rparr>))))"

text \<open>
  \<open>t->count > t->size * 0.66\<close>: the product is rounded to a \<open>double\<close>, which for sizes of 31 bits
  is exact enough to decide the comparison as on the integers.
\<close>

definition lh_overfull :: "('k, 'v) lh_table \<Rightarrow> bool" where
  "lh_overfull t \<longleftrightarrow> 100 * lh_count t > 66 * lh_size t"

text \<open>
  \<open>lh_table_insert\<close> and \<open>lh_table_resize\<close> call each other; \<open>d\<close> bounds the depth of these calls.
  Two levels are always enough for a table that is not empty, since the new table is twice as
  large (\<open>lh_insert_depth\<close> below).
\<close>

fun lh_insert_within :: "nat \<Rightarrow> ('k, 'v) lh_table \<Rightarrow> 'k \<Rightarrow> 'v \<Rightarrow> (crash + ('k, 'v) lh_table) option" where
  "lh_insert_within 0 t k v = None"
| "lh_insert_within (Suc d) t k v =
     (let t1 = t\<lparr>lh_inserts := lh_inserts t + 1\<rparr>
      in if lh_overfull t1
         then (case lh_table_resize (lh_insert_within d) t1 (lh_size t1 * 2) of
                 None \<Rightarrow> None
               | Some (Inl c) \<Rightarrow> Some (Inl c)
               | Some (Inr t2) \<Rightarrow> lh_place t2 k v)
         else lh_place t1 k v)"

definition lh_table_insert :: "('k, 'v) lh_table \<Rightarrow> 'k \<Rightarrow> 'v \<Rightarrow> (crash + ('k, 'v) lh_table) option" where
  "lh_table_insert = lh_insert_within 2"

text \<open>The lookup: the slot of the entry, \<open>Some None\<close> for the result \<open>NULL\<close>.\<close>

partial_function (option) lh_probe ::
    "('k \<Rightarrow> 'k \<Rightarrow> bool) \<Rightarrow> ('k, 'v) lh_entry list \<Rightarrow> 'k \<Rightarrow> nat \<Rightarrow> nat option option" where
  "lh_probe equal_fn tab k n =
     (case le_k (tab ! n) of
        LH_EMPTY \<Rightarrow> Some None
      | LH_FREED \<Rightarrow> lh_probe equal_fn tab k (next_slot (length tab) n)
      | LH_KEY k' \<Rightarrow> if equal_fn k' k then Some (Some n)
                     else lh_probe equal_fn tab k (next_slot (length tab) n))"

definition lh_table_lookup_entry ::
    "('k, 'v) lh_table \<Rightarrow> 'k \<Rightarrow> (('k, 'v) lh_table \<times> nat option) option" where
  "lh_table_lookup_entry t k =
     (case lh_probe (lh_equal_fn t) (lh_slots t) k (lh_start t k) of
        None \<Rightarrow> None
      | Some e \<Rightarrow> Some (t\<lparr>lh_lookups := lh_lookups t + 1\<rparr>, e))"

definition lh_table_lookup :: "('k, 'v) lh_table \<Rightarrow> 'k \<Rightarrow> (('k, 'v) lh_table \<times> 'v option) option" where
  "lh_table_lookup t k =
     (case lh_table_lookup_entry t k of
        None \<Rightarrow> None
      | Some (t', None) \<Rightarrow> Some (t', None)
      | Some (t', Some i) \<Rightarrow> Some (t', le_v (lh_slots t' ! i)))"

text \<open>Writing through a link that may be null.\<close>

definition set_next :: "('k, 'v) lh_entry list \<Rightarrow> nat option \<Rightarrow> nat option \<Rightarrow> crash + ('k, 'v) lh_entry list" where
  "set_next tab p q = (case p of None \<Rightarrow> Inl Null_Deref | Some i \<Rightarrow> Inr (tab[i := (tab ! i)\<lparr>le_next := q\<rparr>]))"

definition set_prev :: "('k, 'v) lh_entry list \<Rightarrow> nat option \<Rightarrow> nat option \<Rightarrow> crash + ('k, 'v) lh_entry list" where
  "set_prev tab p q = (case p of None \<Rightarrow> Inl Null_Deref | Some i \<Rightarrow> Inr (tab[i := (tab ! i)\<lparr>le_prev := q\<rparr>]))"

text \<open>The four cases of the removal from the list.\<close>

definition lh_unlink :: "('k, 'v) lh_table \<Rightarrow> nat \<Rightarrow> crash + ('k, 'v) lh_table" where
  "lh_unlink t n =
     (let e = lh_slots t ! n
      in if lh_tail t = Some n \<and> lh_head t = Some n then Inr (t\<lparr>lh_head := None, lh_tail := None\<rparr>)
         else if lh_head t = Some n
         then (case set_prev (lh_slots t) (le_next e) None of
                 Inl c \<Rightarrow> Inl c
               | Inr tab \<Rightarrow> Inr (t\<lparr>lh_slots := tab, lh_head := le_next e\<rparr>))
         else if lh_tail t = Some n
         then (case set_next (lh_slots t) (le_prev e) None of
                 Inl c \<Rightarrow> Inl c
               | Inr tab \<Rightarrow> Inr (t\<lparr>lh_slots := tab, lh_tail := le_prev e\<rparr>))
         else (case set_next (lh_slots t) (le_prev e) (le_next e) of
                 Inl c \<Rightarrow> Inl c
               | Inr tab \<Rightarrow>
                   (case set_prev tab (le_next e) (le_prev e) of
                      Inl c \<Rightarrow> Inl c
                    | Inr tab' \<Rightarrow> Inr (t\<lparr>lh_slots := tab'\<rparr>))))"

text \<open>An entry of the table is never at a negative offset, so the result \<open>-2\<close> does not occur.\<close>

definition lh_table_delete_entry :: "('k, 'v) lh_table \<Rightarrow> nat \<Rightarrow> crash + ('k, 'v) lh_table \<times> int" where
  "lh_table_delete_entry t n =
     (case le_k (lh_slots t ! n) of
        LH_EMPTY \<Rightarrow> Inr (t, - 1)
      | LH_FREED \<Rightarrow> Inr (t, - 1)
      | LH_KEY k \<Rightarrow>
          (let e = lh_slots t ! n;
               t1 = t\<lparr>lh_count := lh_count t - 1,
                      lh_released := (if lh_free_fn t then lh_released t @ [(k, le_v e)] else lh_released t),
                      lh_slots := (lh_slots t)[n := e\<lparr>le_v := None, le_k := LH_FREED\<rparr>]\<rparr>
           in case lh_unlink t1 n of
                Inl c \<Rightarrow> Inl c
              | Inr t2 \<Rightarrow>
                  Inr (t2\<lparr>lh_slots := (lh_slots t2)[n :=
                         (lh_slots t2 ! n)\<lparr>le_next := None, le_prev := None\<rparr>]\<rparr>, 0)))"

definition lh_table_delete :: "('k, 'v) lh_table \<Rightarrow> 'k \<Rightarrow> (crash + ('k, 'v) lh_table \<times> int) option" where
  "lh_table_delete t k =
     (case lh_table_lookup_entry t k of
        None \<Rightarrow> None
      | Some (t', None) \<Rightarrow> Some (Inr (t', - 1))
      | Some (t', Some i) \<Rightarrow> Some (lh_table_delete_entry t' i))"

text \<open>\<open>lh_table_free\<close>: the entries the callback is called for.\<close>

definition lh_table_free :: "('k, 'v) lh_table \<Rightarrow> ('k \<times> 'v option) list option" where
  "lh_table_free t =
     (case lh_walk (lh_slots t) (lh_head t) of
        None \<Rightarrow> None
      | Some is \<Rightarrow>
          Some (if lh_free_fn t
                then map (\<lambda>i. (key_of (le_k (lh_slots t ! i)), le_v (lh_slots t ! i))) is else []))"

subsection \<open>The list of the entries\<close>

definition first :: "nat list \<Rightarrow> nat option \<Rightarrow> nat option" where
  "first xs q = (case xs of [] \<Rightarrow> q | x # _ \<Rightarrow> Some x)"

definition final :: "nat list \<Rightarrow> nat option \<Rightarrow> nat option" where
  "final xs p = (if xs = [] then p else Some (last xs))"

lemma first_final_simps [simp]:
  "first [] q = q" "first (x # xs) q = Some x" "final [] p = p" "final (xs @ [x]) p = Some x"
  by (simp_all add: first_def final_def)

text \<open>The slots \<open>xs\<close> are linked both ways, from \<open>p\<close> before them to \<open>q\<close> behind them.\<close>

fun dll_seg :: "('k, 'v) lh_entry list \<Rightarrow> nat option \<Rightarrow> nat list \<Rightarrow> nat option \<Rightarrow> bool" where
  "dll_seg tab p [] q = True"
| "dll_seg tab p (x # xs) q \<longleftrightarrow> x < length tab \<and> le_prev (tab ! x) = p \<and> le_next (tab ! x) = first xs q \<and>
     dll_seg tab (Some x) xs q"

lemma dll_seg_append:
  "dll_seg tab p (ys @ zs) q \<longleftrightarrow> dll_seg tab p ys (first zs q) \<and> dll_seg tab (final ys p) zs q"
proof (induction ys arbitrary: p)
  case (Cons y ys)
  have "first (ys @ zs) q = first ys (first zs q)" by (cases ys) (simp_all add: first_def)
  moreover have "final (y # ys) p = final ys (Some y)" by (simp add: final_def)
  ultimately show ?case by (simp add: Cons.IH)
qed simp

lemma dll_seg_bound: "dll_seg tab p xs q \<Longrightarrow> x \<in> set xs \<Longrightarrow> x < length tab"
  by (induction xs arbitrary: p) auto

lemma dll_seg_cong:
  "length tab' = length tab \<Longrightarrow>
   \<forall>i \<in> set xs. le_prev (tab' ! i) = le_prev (tab ! i) \<and> le_next (tab' ! i) = le_next (tab ! i) \<Longrightarrow>
   dll_seg tab' p xs q = dll_seg tab p xs q"
  by (induction xs arbitrary: p) auto

lemma dll_seg_other: "i \<notin> set xs \<Longrightarrow> dll_seg (tab[i := e]) p xs q = dll_seg tab p xs q"
  by (rule dll_seg_cong) (simp, metis nth_list_update_neq)

lemma dll_set_prev:
  assumes "dll_seg tab p (x # xs) q" "x \<notin> set xs"
  shows "dll_seg (tab[x := (tab ! x)\<lparr>le_prev := p'\<rparr>]) p' (x # xs) q"
  using assms by (simp add: dll_seg_other)

lemma dll_set_next:
  assumes "dll_seg tab p (xs @ [x]) q" "x \<notin> set xs"
  shows "dll_seg (tab[x := (tab ! x)\<lparr>le_next := q'\<rparr>]) p (xs @ [x]) q'"
  using assms by (simp add: dll_seg_append dll_seg_other)

lemma lh_walk_seg: "dll_seg tab p xs None \<Longrightarrow> lh_walk tab (first xs None) = Some xs"
proof (induction xs arbitrary: p)
  case (Cons x xs)
  then have "lh_walk tab (le_next (tab ! x)) = Some xs" by auto
  then show ?case by (subst lh_walk.simps) simp
qed (subst lh_walk.simps, simp)

definition linked :: "('k, 'v) lh_table \<Rightarrow> nat list \<Rightarrow> bool" where
  "linked t xs \<longleftrightarrow> dll_seg (lh_slots t) None xs None \<and> distinct xs \<and>
     lh_head t = first xs None \<and> lh_tail t = final xs None"

text \<open>Same keys and values, whatever the links are.\<close>

definition same_data :: "('k, 'v) lh_entry list \<Rightarrow> ('k, 'v) lh_entry list \<Rightarrow> bool" where
  "same_data tab tab' \<longleftrightarrow> length tab' = length tab \<and>
     (\<forall>i < length tab. le_k (tab' ! i) = le_k (tab ! i) \<and> le_v (tab' ! i) = le_v (tab ! i))"

lemma same_data_update:
  assumes "le_k e = le_k (tab ! i)" "le_v e = le_v (tab ! i)"
  shows "same_data tab (tab[i := e])"
  unfolding same_data_def
proof (intro conjI allI impI)
  fix j assume "j < length tab"
  then show "le_k (tab[i := e] ! j) = le_k (tab ! j)" "le_v (tab[i := e] ! j) = le_v (tab ! j)"
    using assms by (cases "i = j"; simp)+
qed simp

lemma same_data_links:
  "same_data tab (tab[i := (tab ! i)\<lparr>le_next := q\<rparr>])" "same_data tab (tab[i := (tab ! i)\<lparr>le_prev := q\<rparr>])"
  "same_data tab (tab[i := (tab ! i)\<lparr>le_prev := q, le_next := q'\<rparr>])"
  "same_data tab (tab[i := (tab ! i)\<lparr>le_next := q, le_prev := q'\<rparr>])"
  by (rule same_data_update; simp)+

lemma same_data_trans: "same_data t1 t2 \<Longrightarrow> same_data t2 t3 \<Longrightarrow> same_data t1 t3"
  by (simp add: same_data_def)

lemma same_data_refl [simp]: "same_data t t"
  by (simp add: same_data_def)

lemma link_last_linked:
  assumes "linked t xs" "n \<notin> set xs" "n < length (lh_slots t)"
  obtains tab where "lh_link_last t n k v = Inr (t\<lparr>lh_count := lh_count t + 1, lh_slots := tab,
      lh_head := first (xs @ [n]) None, lh_tail := Some n\<rparr>)"
    "dll_seg tab None (xs @ [n]) None"
    "same_data ((lh_slots t)[n := (lh_slots t ! n)\<lparr>le_k := LH_KEY k, le_v := Some v\<rparr>]) tab"
proof (cases "xs = []")
  case True
  let ?e = "(lh_slots t ! n)\<lparr>le_k := LH_KEY k, le_v := Some v\<rparr>"
  let ?tab = "(lh_slots t)[n := ?e\<lparr>le_next := None, le_prev := None\<rparr>]"
  have "lh_link_last t n k v = Inr (t\<lparr>lh_count := lh_count t + 1, lh_slots := ?tab,
      lh_head := first (xs @ [n]) None, lh_tail := Some n\<rparr>)"
    using True assms(1) by (simp add: lh_link_last_def linked_def)
  moreover have "dll_seg ?tab None (xs @ [n]) None" using True assms(3) by simp
  moreover have "same_data ((lh_slots t)[n := ?e]) ((lh_slots t)[n := ?e, n := ?e\<lparr>le_next := None, le_prev := None\<rparr>])"
    by (rule same_data_update) (use assms(3) in simp_all)
  then have "same_data ((lh_slots t)[n := ?e]) ?tab" by simp
  ultimately show thesis by (rule that)
next
  case False
  then obtain ys l where xs: "xs = ys @ [l]" by (metis rev_exhaust)
  let ?e = "(lh_slots t ! n)\<lparr>le_k := LH_KEY k, le_v := Some v\<rparr>"
  let ?tab1 = "(lh_slots t)[n := ?e]"
  let ?tab2 = "?tab1[l := (?tab1 ! l)\<lparr>le_next := Some n\<rparr>]"
  let ?tab = "?tab2[n := (?tab2 ! n)\<lparr>le_prev := Some l, le_next := None\<rparr>]"
  have "lh_head t = first (ys @ [l]) None" "lh_tail t = Some l"
    using assms(1) by (simp_all add: linked_def xs)
  then have head: "lh_head t \<noteq> None" "lh_tail t = Some l" "first (xs @ [n]) None = lh_head t"
    unfolding xs by (cases ys; simp)+
  then have "lh_link_last t n k v = Inr (t\<lparr>lh_count := lh_count t + 1, lh_slots := ?tab,
      lh_head := first (xs @ [n]) None, lh_tail := Some n\<rparr>)"
    by (auto simp: lh_link_last_def Let_def)
  moreover have "dll_seg ?tab None (xs @ [n]) None"
  proof -
    have "dll_seg ?tab1 None (ys @ [l]) None"
      using assms(1,2) xs by (simp add: linked_def dll_seg_other)
    then have "dll_seg ?tab2 None (ys @ [l]) (Some n)"
      using assms(1) xs by (intro dll_set_next) (auto simp: linked_def)
    then have "dll_seg ?tab None (ys @ [l]) (Some n)" using assms(2) xs by (simp add: dll_seg_other)
    then show ?thesis using assms(3) unfolding xs dll_seg_append [of _ _ "ys @ [l]" "[n]"] by simp
  qed
  moreover have "same_data ?tab1 ?tab"
    using same_data_trans [OF same_data_links(1) same_data_links(3)] by blast
  ultimately show thesis by (rule that)
qed

lemma unlink_linked:
  assumes "linked t (ys @ n # zs)"
  obtains tab where "lh_unlink t n = Inr (t\<lparr>lh_slots := tab, lh_head := first (ys @ zs) None,
      lh_tail := final (ys @ zs) None\<rparr>)"
    "dll_seg tab None (ys @ zs) None" "same_data (lh_slots t) tab"
proof -
  let ?tab = "lh_slots t"
  have seg: "dll_seg ?tab None ys (Some n)" "le_prev (?tab ! n) = final ys None"
    "le_next (?tab ! n) = first zs None" "dll_seg ?tab (Some n) zs None"
    and dist: "distinct (ys @ n # zs)" and ends: "lh_head t = first (ys @ [n]) None"
    "lh_tail t = final (n # zs) None"
  proof -
    have l: "dll_seg ?tab None (ys @ n # zs) None" "distinct (ys @ n # zs)"
      "lh_head t = first (ys @ n # zs) None" "lh_tail t = final (ys @ n # zs) None"
      using assms by (simp_all add: linked_def)
    then show "dll_seg ?tab None ys (Some n)" "le_prev (?tab ! n) = final ys None"
      "le_next (?tab ! n) = first zs None" "dll_seg ?tab (Some n) zs None" "distinct (ys @ n # zs)"
      by (simp_all add: dll_seg_append)
    show "lh_head t = first (ys @ [n]) None" using l(3) by (cases ys) simp_all
    show "lh_tail t = final (n # zs) None" using l(4) by (simp add: final_def)
  qed
  consider "ys = []" "zs = []" | z zs' where "ys = []" "zs = z # zs'"
    | ys' y where "ys = ys' @ [y]" "zs = []" | ys' y z zs' where "ys = ys' @ [y]" "zs = z # zs'"
    by (metis list.exhaust rev_exhaust)
  then show thesis
  proof cases
    case 1
    show thesis
      by (rule that [of ?tab]) (use 1 ends in \<open>simp_all add: lh_unlink_def final_def\<close>)
  next
    case 2
    have "final zs None \<noteq> Some n" using 2 dist by (auto simp: final_def)
    moreover have "dll_seg (?tab[z := (?tab ! z)\<lparr>le_prev := None\<rparr>]) None (z # zs') None"
      using seg(4) 2 dist by (intro dll_set_prev) auto
    ultimately show thesis
      using 2 ends seg(3) same_data_links(2)
      by (intro that [of "?tab[z := (?tab ! z)\<lparr>le_prev := None\<rparr>]"])
        (simp_all add: lh_unlink_def set_prev_def final_def del: dll_seg.simps)
  next
    case 3
    have "first (ys @ [n]) None \<noteq> Some n" using 3 dist by (cases ys') auto
    moreover have "dll_seg (?tab[y := (?tab ! y)\<lparr>le_next := None\<rparr>]) None (ys' @ [y]) None"
      using seg(1) 3 dist by (intro dll_set_next) auto
    moreover have "first (ys @ [n]) None = first ys None" using 3 by (cases ys') simp_all
    ultimately show thesis
      using 3 ends seg(2) same_data_links(1)
      by (intro that [of "?tab[y := (?tab ! y)\<lparr>le_next := None\<rparr>]"])
        (simp_all add: lh_unlink_def set_next_def final_def)
  next
    case 4
    let ?tab1 = "?tab[y := (?tab ! y)\<lparr>le_next := Some z\<rparr>]"
    let ?tab2 = "?tab1[z := (?tab1 ! z)\<lparr>le_prev := Some y\<rparr>]"
    have "first (ys @ [n]) None \<noteq> Some n" "first (ys @ [n]) None = first (ys @ zs) None"
      using 4 dist by (cases ys'; auto)+
    moreover have "final (n # zs) None \<noteq> Some n" "final (n # zs) None = final (ys @ zs) None"
      using 4 dist by (auto simp: final_def)
    moreover have "dll_seg ?tab2 None (ys @ zs) None"
    proof -
      have "dll_seg ?tab1 None (ys' @ [y]) (Some z)"
        using seg(1) 4 dist by (intro dll_set_next) auto
      then have "dll_seg ?tab2 None ys (Some z)" using 4 dist by (simp add: dll_seg_other)
      moreover have "dll_seg ?tab1 (Some n) (z # zs') None"
        using seg(4) 4 dist by (simp add: dll_seg_other)
      then have "dll_seg ?tab2 (Some y) (z # zs') None"
        using 4 dist by (intro dll_set_prev) auto
      moreover have "first zs None = Some z" "final ys None = Some y" using 4 by simp_all
      ultimately show ?thesis unfolding dll_seg_append using 4(2) by metis
    qed
    moreover have "same_data ?tab ?tab2"
      using same_data_trans [OF same_data_links(1) same_data_links(2)] by blast
    ultimately show thesis
      using 4 ends seg(2,3)
      by (intro that [of ?tab2]) (simp_all add: lh_unlink_def set_next_def set_prev_def)
  qed
qed

subsection \<open>Probing\<close>

lemma next_slot_mod: "0 < s \<Longrightarrow> next_slot s (x mod s) = Suc x mod s"
  by (simp add: next_slot_def mod_Suc)

lemma slot_exists:
  fixes i s h :: nat
  assumes "i < s"
  shows "\<exists>d < s. i = (h + d) mod s"
proof -
  have "h mod s < s" using assms by simp
  then have "h mod s \<le> i + s" by linarith
  moreover have "h + (i + s - r) = i + s * (q + 1)" if "h = q * s + r" "r \<le> i + s" for q r
    using that by (simp add: algebra_simps)
  ultimately have "h + (i + s - h mod s) = i + s * (h div s + 1)" by (metis div_mult_mod_eq)
  then have "(h + (i + s - h mod s)) mod s = i" using assms by (metis mod_less mod_mult_self2)
  then have "(h + (i + s - h mod s) mod s) mod s = i" by (simp add: mod_add_right_eq)
  then show ?thesis using assms by (intro exI [of _ "(i + s - h mod s) mod s"]) simp
qed

definition unused_slot :: "('k, 'v) lh_entry list \<Rightarrow> nat \<Rightarrow> bool" where
  "unused_slot tab i \<longleftrightarrow> le_k (tab ! i) = LH_EMPTY \<or> le_k (tab ! i) = LH_FREED"

definition skipped_slot :: "('k \<Rightarrow> 'k \<Rightarrow> bool) \<Rightarrow> ('k, 'v) lh_entry list \<Rightarrow> 'k \<Rightarrow> nat \<Rightarrow> bool" where
  "skipped_slot equal_fn tab k i \<longleftrightarrow>
     (case le_k (tab ! i) of LH_EMPTY \<Rightarrow> False | LH_FREED \<Rightarrow> True | LH_KEY k' \<Rightarrow> \<not> equal_fn k' k)"

lemma lh_probe_step:
  "skipped_slot equal_fn tab k n \<Longrightarrow>
   lh_probe equal_fn tab k n = lh_probe equal_fn tab k (next_slot (length tab) n)"
  by (subst lh_probe.simps) (simp add: skipped_slot_def split: lh_key.splits)

lemma lh_probe_run:
  "0 < length tab \<Longrightarrow> \<forall>d < m. skipped_slot equal_fn tab k ((h + d) mod length tab) \<Longrightarrow>
   lh_probe equal_fn tab k (h mod length tab) = lh_probe equal_fn tab k ((h + m) mod length tab)"
proof (induction m)
  case (Suc m)
  then have "lh_probe equal_fn tab k ((h + m) mod length tab) =
      lh_probe equal_fn tab k (next_slot (length tab) ((h + m) mod length tab))"
    by (intro lh_probe_step) simp
  with Suc show ?case by (simp add: next_slot_mod)
qed simp

lemma lh_probe_returns:
  assumes "lh_probe equal_fn tab k n = Some y"
  shows "n < length tab \<longrightarrow> (\<exists>i < length tab. \<not> skipped_slot equal_fn tab k i)"
proof (rule lh_probe.raw_induct [where P = "\<lambda>equal_fn tab k n y.
    n < length tab \<longrightarrow> (\<exists>i < length tab. \<not> skipped_slot equal_fn tab k i)", OF _ assms])
  fix probe :: "('a \<Rightarrow> 'a \<Rightarrow> bool) \<Rightarrow> ('a, 'b) lh_entry list \<Rightarrow> 'a \<Rightarrow> nat \<Rightarrow> nat option option"
    and equal_fn :: "'a \<Rightarrow> 'a \<Rightarrow> bool" and tab :: "('a, 'b) lh_entry list" and k n y
  assume IH: "\<And>equal_fn tab k n y. probe equal_fn tab k n = Some y \<Longrightarrow>
      n < length tab \<longrightarrow> (\<exists>i < length tab. \<not> skipped_slot equal_fn tab k i)"
    and eq: "(case le_k (tab ! n) of LH_EMPTY \<Rightarrow> Some None
      | LH_FREED \<Rightarrow> probe equal_fn tab k (next_slot (length tab) n)
      | LH_KEY k' \<Rightarrow> if equal_fn k' k then Some (Some n)
                     else probe equal_fn tab k (next_slot (length tab) n)) = Some y"
  show "n < length tab \<longrightarrow> (\<exists>i < length tab. \<not> skipped_slot equal_fn tab k i)"
  proof (cases "skipped_slot equal_fn tab k n")
    case True
    then have "probe equal_fn tab k (next_slot (length tab) n) = Some y"
      using eq by (auto simp: skipped_slot_def split: lh_key.splits if_splits)
    from IH [OF this] show ?thesis by (auto simp: next_slot_def split: if_splits)
  qed blast
qed

lemma lh_probe_hangs:
  "\<forall>i < length tab. skipped_slot equal_fn tab k i \<Longrightarrow> n < length tab \<Longrightarrow> lh_probe equal_fn tab k n = None"
  using lh_probe_returns [of equal_fn tab k n] by (cases "lh_probe equal_fn tab k n") auto

lemma lh_find_run:
  "0 < length tab \<Longrightarrow> \<forall>d < m. \<not> unused_slot tab ((h + d) mod length tab) \<Longrightarrow>
   lh_find_unused tab c (h mod length tab) = lh_find_unused tab (c + m) ((h + m) mod length tab)"
proof (induction m)
  case (Suc m)
  then have "lh_find_unused tab (c + m) ((h + m) mod length tab) =
      lh_find_unused tab (c + m + 1) (next_slot (length tab) ((h + m) mod length tab))"
    by (subst lh_find_unused.simps) (simp add: unused_slot_def)
  with Suc show ?case by (simp add: next_slot_mod)
qed simp

lemma lh_find_first:
  assumes "i < length tab" "unused_slot tab i"
  obtains d where "d < length tab" "unused_slot tab ((h + d) mod length tab)"
    "\<forall>d' < d. \<not> unused_slot tab ((h + d') mod length tab)"
    "lh_find_unused tab c (h mod length tab) = Some ((h + d) mod length tab, c + d)"
proof -
  let ?P = "\<lambda>d. unused_slot tab ((h + d) mod length tab)"
  obtain d0 where d0: "d0 < length tab" "?P d0" using slot_exists [OF assms(1), of h] assms(2) by metis
  define d where "d = (LEAST d. ?P d)"
  have d: "?P d" "\<forall>d' < d. \<not> ?P d'" unfolding d_def using d0(2) by (auto intro: LeastI dest: not_less_Least)
  moreover have "d < length tab" using d0 Least_le [of ?P d0] unfolding d_def by linarith
  moreover have "lh_find_unused tab c (h mod length tab) = lh_find_unused tab (c + d) ((h + d) mod length tab)"
    using d0(1) d(2) by (intro lh_find_run) auto
  moreover have "lh_find_unused tab (c + d) ((h + d) mod length tab) = Some ((h + d) mod length tab, c + d)"
    using d(1) by (subst lh_find_unused.simps) (simp add: unused_slot_def)
  ultimately show thesis using that by metis
qed

subsection \<open>The invariant and the abstract list\<close>

text \<open>
  No slot on the way from the start of a key to its entry is empty, or the lookup would stop
  before it.
\<close>

definition reached :: "('k \<Rightarrow> uint32_t) \<Rightarrow> ('k, 'v) lh_entry list \<Rightarrow> 'k \<Rightarrow> nat \<Rightarrow> bool" where
  "reached hash_fn tab k i \<longleftrightarrow> (\<exists>d < length tab. i = (unat (hash_fn k) + d) mod length tab \<and>
     (\<forall>d' < d. le_k (tab ! ((unat (hash_fn k) + d') mod length tab)) \<noteq> LH_EMPTY))"

definition lh_inv :: "('k, 'v) lh_table \<Rightarrow> nat list \<Rightarrow> bool" where
  "lh_inv t xs \<longleftrightarrow> 0 < lh_size t \<and> length (lh_slots t) = lh_size t \<and> lh_equal_fn t = (=) \<and>
     linked t xs \<and> lh_count t = length xs \<and>
     (\<forall>i < lh_size t. i \<in> set xs \<longleftrightarrow> \<not> unused_slot (lh_slots t) i) \<and>
     (\<forall>i \<in> set xs. le_v (lh_slots t ! i) \<noteq> None \<and>
        reached (lh_hash_fn t) (lh_slots t) (key_of (le_k (lh_slots t ! i))) i) \<and>
     distinct (map (\<lambda>i. key_of (le_k (lh_slots t ! i))) xs)"

definition entry_pair :: "('k, 'v) lh_entry \<Rightarrow> 'k \<times> 'v" where
  "entry_pair e = (key_of (le_k e), the (le_v e))"

definition lh_pairs :: "('k, 'v) lh_entry list \<Rightarrow> nat list \<Rightarrow> ('k \<times> 'v) list" where
  "lh_pairs tab xs = map (\<lambda>i. entry_pair (tab ! i)) xs"

text \<open>A table represents an association list: its pairs in the order of insertion.\<close>

definition lh_rep :: "('k, 'v) lh_table \<Rightarrow> ('k \<times> 'v) list \<Rightarrow> bool" where
  "lh_rep t al \<longleftrightarrow> (\<exists>xs. lh_inv t xs \<and> al = lh_pairs (lh_slots t) xs)"

definition has_empty :: "('k, 'v) lh_table \<Rightarrow> bool" where
  "has_empty t \<longleftrightarrow> (\<exists>i < lh_size t. le_k (lh_slots t ! i) = LH_EMPTY)"

lemma linked_bound: "linked t xs \<Longrightarrow> x \<in> set xs \<Longrightarrow> x < length (lh_slots t)"
  by (auto simp: linked_def dest: dll_seg_bound)

lemma used_key: "\<not> unused_slot tab i \<Longrightarrow> le_k (tab ! i) = LH_KEY (key_of (le_k (tab ! i)))"
  by (cases "le_k (tab ! i)") (auto simp: unused_slot_def)

lemma lh_rep_new: "0 < s \<Longrightarrow> lh_rep (lh_table_new s f h (=)) []"
  by (auto simp: lh_rep_def lh_inv_def lh_table_new_def linked_def unused_slot_def empty_entry_def
      lh_pairs_def intro!: exI [of _ "[]"])

lemma lh_rep_distinct: "lh_rep t al \<Longrightarrow> distinct (map fst al)"
  by (auto simp: lh_rep_def lh_inv_def lh_pairs_def entry_pair_def comp_def)

lemma reached_mono:
  assumes "reached h tab k i" "length tab' = length tab"
    and "\<And>j. j < length tab \<Longrightarrow> le_k (tab ! j) \<noteq> LH_EMPTY \<Longrightarrow> le_k (tab' ! j) \<noteq> LH_EMPTY"
  shows "reached h tab' k i"
proof -
  obtain d where d: "d < length tab" "i = (unat (h k) + d) mod length tab"
    "\<forall>d' < d. le_k (tab ! ((unat (h k) + d') mod length tab)) \<noteq> LH_EMPTY"
    using assms(1) by (auto simp: reached_def)
  then have "(unat (h k) + d') mod length tab < length tab" for d' by (cases tab) simp_all
  with d show ?thesis unfolding reached_def assms(2) using assms(3) by blast
qed

subsection \<open>Insertion\<close>

definition fresh_key :: "('k, 'v) lh_table \<Rightarrow> nat list \<Rightarrow> 'k \<Rightarrow> bool" where
  "fresh_key t xs k \<longleftrightarrow> (\<forall>i \<in> set xs. key_of (le_k (lh_slots t ! i)) \<noteq> k)"

lemma fresh_key_pairs: "fresh_key t xs k \<longleftrightarrow> k \<notin> fst ` set (lh_pairs (lh_slots t) xs)"
  by (auto simp: fresh_key_def lh_pairs_def entry_pair_def image_image)

lemma room_for_entry:
  assumes "lh_inv t xs" "lh_count t < lh_size t"
  shows "\<exists>i < length (lh_slots t). unused_slot (lh_slots t) i"
proof (rule ccontr)
  assume "\<not> ?thesis"
  then have "{..<lh_size t} \<subseteq> set xs" using assms(1) by (auto simp: lh_inv_def)
  from card_mono [OF _ this] have "lh_size t \<le> card (set xs)" by simp
  also have "\<dots> \<le> lh_count t" using assms(1) card_length [of xs] by (simp add: lh_inv_def)
  finally show False using assms(2) by simp
qed

text \<open>What an insertion does not touch.\<close>

definition same_setup :: "('k, 'v) lh_table \<Rightarrow> ('k, 'v) lh_table \<Rightarrow> bool" where
  "same_setup t t' \<longleftrightarrow> lh_hash_fn t' = lh_hash_fn t \<and> lh_equal_fn t' = lh_equal_fn t \<and>
     lh_free_fn t' = lh_free_fn t \<and> lh_released t' = lh_released t"

lemma lh_place_inv:
  assumes inv: "lh_inv t xs" and room: "lh_count t < lh_size t" and fresh: "fresh_key t xs k"
  obtains t' n where "lh_place t k v = Some (Inr t')" "lh_inv t' (xs @ [n])"
    "lh_pairs (lh_slots t') (xs @ [n]) = lh_pairs (lh_slots t) xs @ [(k, v)]"
    "same_setup t t'" "lh_size t' = lh_size t" "lh_count t' = lh_count t + 1"
    "\<forall>i < lh_size t. le_k (lh_slots t' ! i) = LH_FREED \<longrightarrow> le_k (lh_slots t ! i) = LH_FREED"
    "\<exists>d. n = (unat (lh_hash_fn t k) + d) mod lh_size t \<and> unused_slot (lh_slots t) n \<and>
       (\<forall>d' < d. \<not> unused_slot (lh_slots t) ((unat (lh_hash_fn t k) + d') mod lh_size t))"
proof -
  let ?tab = "lh_slots t" and ?h = "unat (lh_hash_fn t k)"
  have I: "0 < lh_size t" "length ?tab = lh_size t" "lh_equal_fn t = (=)" "linked t xs" "lh_count t = length xs"
    "\<And>i. i < lh_size t \<Longrightarrow> i \<in> set xs \<longleftrightarrow> \<not> unused_slot ?tab i"
    "\<And>i. i \<in> set xs \<Longrightarrow> le_v (?tab ! i) \<noteq> None"
    "\<And>i. i \<in> set xs \<Longrightarrow> reached (lh_hash_fn t) ?tab (key_of (le_k (?tab ! i))) i"
    "distinct (map (\<lambda>i. key_of (le_k (?tab ! i))) xs)"
    using inv by (auto simp: lh_inv_def)
  obtain i0 where "i0 < length ?tab" "unused_slot ?tab i0" using room_for_entry [OF inv room] by blast
  then obtain d where d: "d < length ?tab" "unused_slot ?tab ((?h + d) mod length ?tab)"
    "\<forall>d' < d. \<not> unused_slot ?tab ((?h + d') mod length ?tab)"
    "lh_find_unused ?tab (lh_collisions t) (?h mod length ?tab) =
       Some ((?h + d) mod length ?tab, lh_collisions t + d)"
    by (rule lh_find_first)
  define n where "n = (?h + d) mod length ?tab"
  have n: "n < lh_size t" using I(1,2) by (simp add: n_def)
  then have n_xs: "n \<notin> set xs" using I(6) d(2) by (simp add: n_def)
  let ?t1 = "t\<lparr>lh_collisions := lh_collisions t + d\<rparr>"
  have "linked ?t1 xs" using I(4) by (simp add: linked_def)
  from link_last_linked [OF this n_xs] n I(2)
  obtain tab where tab: "lh_link_last ?t1 n k v = Inr (?t1\<lparr>lh_count := lh_count t + 1, lh_slots := tab,
      lh_head := first (xs @ [n]) None, lh_tail := Some n\<rparr>)" "dll_seg tab None (xs @ [n]) None"
    "same_data (?tab[n := (?tab ! n)\<lparr>le_k := LH_KEY k, le_v := Some v\<rparr>]) tab"
    by auto
  let ?t' = "?t1\<lparr>lh_count := lh_count t + 1, lh_slots := tab,
      lh_head := first (xs @ [n]) None, lh_tail := Some n\<rparr>"
  have len: "length tab = lh_size t" using tab(3) I(2) by (simp add: same_data_def)
  have at_n: "le_k (tab ! n) = LH_KEY k" "le_v (tab ! n) = Some v"
    using tab(3) n I(2) by (simp_all add: same_data_def)
  have other: "le_k (tab ! i) = le_k (?tab ! i)" "le_v (tab ! i) = le_v (?tab ! i)"
    if "i < lh_size t" "i \<noteq> n" for i
    using tab(3) that I(2) by (simp_all add: same_data_def)
  have bound: "i < lh_size t \<and> i \<noteq> n" if "i \<in> set xs" for i
    using that n_xs linked_bound [OF I(4)] I(2) by auto
  have mono: "le_k (tab ! j) \<noteq> LH_EMPTY" if "j < length ?tab" "le_k (?tab ! j) \<noteq> LH_EMPTY" for j
    using that at_n(1) other(1) [of j] I(2) by (cases "j = n") auto
  have pairs: "entry_pair (tab ! i) = entry_pair (?tab ! i)" if "i \<in> set xs" for i
    using bound [OF that] other by (simp add: entry_pair_def)
  have keys: "key_of (le_k (tab ! i)) = key_of (le_k (?tab ! i))" if "i \<in> set xs" for i
    using bound [OF that] other by simp
  have "linked ?t' (xs @ [n])"
    using tab(2) I(4) n_xs by (simp add: linked_def)
  moreover have "i \<in> set (xs @ [n]) \<longleftrightarrow> \<not> unused_slot tab i" if "i < lh_size t" for i
    using I(6) [OF that] at_n(1) other(1) [OF that] by (cases "i = n") (auto simp: unused_slot_def)
  moreover have "le_v (tab ! i) \<noteq> None" if "i \<in> set (xs @ [n])" for i
    using that I(7) bound other(2) at_n(2) by (cases "i = n") auto
  moreover have "reached (lh_hash_fn t) tab (key_of (le_k (tab ! i))) i" if "i \<in> set (xs @ [n])" for i
  proof (cases "i = n")
    case True
    have "le_k (tab ! ((?h + d') mod length tab)) \<noteq> LH_EMPTY" if "d' < d" for d'
      using that d(3) mono [of "(?h + d') mod length ?tab"] I(1,2) len by (auto simp: unused_slot_def)
    then show ?thesis
      using True d(1) at_n(1) I(2) len unfolding reached_def n_def by auto
  next
    case False
    then have i: "i \<in> set xs" using that by simp
    show ?thesis unfolding keys [OF i] by (rule reached_mono [OF I(8) [OF i]]) (use len I(2) mono in auto)
  qed
  moreover have "distinct (map (\<lambda>i. key_of (le_k (tab ! i))) (xs @ [n]))"
    using I(9) fresh at_n(1) keys by (auto simp: fresh_key_def distinct_map inj_on_def)
  ultimately have "lh_inv ?t' (xs @ [n])" using I len by (simp add: lh_inv_def)
  moreover have "lh_place t k v = Some (Inr ?t')"
    using d(4) tab(1) I(2) by (simp add: lh_place_def lh_start_def n_def)
  moreover have "lh_pairs tab (xs @ [n]) = lh_pairs ?tab xs @ [(k, v)]"
    using pairs at_n by (simp add: lh_pairs_def entry_pair_def)
  moreover have "\<forall>i < lh_size t. le_k (tab ! i) = LH_FREED \<longrightarrow> le_k (?tab ! i) = LH_FREED"
    using at_n(1) other(1) by (metis lh_key.distinct(5))
  moreover have "\<exists>d. n = (?h + d) mod lh_size t \<and> unused_slot ?tab n \<and>
      (\<forall>d' < d. \<not> unused_slot ?tab ((?h + d') mod lh_size t))"
    using d(2,3) I(2) unfolding n_def by auto
  ultimately show thesis
    by (intro that [of ?t' n]) (simp_all add: same_setup_def)
qed

text \<open>No entry has been freed since the table was made or resized.\<close>

definition never_freed :: "('k, 'v) lh_table \<Rightarrow> bool" where
  "never_freed t \<longleftrightarrow> (\<forall>i < lh_size t. le_k (lh_slots t ! i) \<noteq> LH_FREED)"

lemma lh_place_rep:
  assumes "lh_rep t al" "length al < lh_size t" "k \<notin> fst ` set al"
  obtains t' where "lh_place t k v = Some (Inr t')" "lh_rep t' (al @ [(k, v)])" "same_setup t t'"
    "lh_size t' = lh_size t" "never_freed t \<Longrightarrow> never_freed t'"
proof -
  obtain xs where xs: "lh_inv t xs" "al = lh_pairs (lh_slots t) xs" using assms(1) by (auto simp: lh_rep_def)
  have room: "lh_count t < lh_size t" using xs assms(2) by (simp add: lh_inv_def lh_pairs_def)
  have "fresh_key t xs k" using assms(3) xs(2) by (simp add: fresh_key_pairs)
  from lh_place_inv [OF xs(1) room this, of v]
  obtain t' n where "lh_place t k v = Some (Inr t')" "lh_inv t' (xs @ [n])"
    "lh_pairs (lh_slots t') (xs @ [n]) = lh_pairs (lh_slots t) xs @ [(k, v)]"
    "same_setup t t'" "lh_size t' = lh_size t"
    "\<forall>i < lh_size t. le_k (lh_slots t' ! i) = LH_FREED \<longrightarrow> le_k (lh_slots t ! i) = LH_FREED"
    by metis
  moreover from calculation have "lh_rep t' (al @ [(k, v)])" using xs(2) unfolding lh_rep_def by metis
  moreover from calculation have "never_freed t \<Longrightarrow> never_freed t'" by (simp add: never_freed_def)
  ultimately show thesis using that by blast
qed

lemma lh_rep_count: "lh_rep t al \<Longrightarrow> lh_count t = length al \<and> 0 < lh_size t \<and> lh_equal_fn t = (=)"
  by (auto simp: lh_rep_def lh_inv_def lh_pairs_def)

lemma lh_rep_cong:
  "lh_rep t al \<Longrightarrow> lh_slots t' = lh_slots t \<Longrightarrow> lh_size t' = lh_size t \<Longrightarrow> lh_count t' = lh_count t \<Longrightarrow>
   lh_head t' = lh_head t \<Longrightarrow> lh_tail t' = lh_tail t \<Longrightarrow> lh_hash_fn t' = lh_hash_fn t \<Longrightarrow>
   lh_equal_fn t' = lh_equal_fn t \<Longrightarrow> lh_rep t' al"
  by (auto simp: lh_rep_def lh_inv_def linked_def)

lemma lh_insert_no_resize:
  "\<not> lh_overfull t \<Longrightarrow> lh_insert_within (Suc d) t k v = lh_place (t\<lparr>lh_inserts := lh_inserts t + 1\<rparr>) k v"
  by (simp add: lh_overfull_def Let_def)

declare lh_insert_within.simps(2) [simp del]

text \<open>The new table of a resize takes all entries without growing.\<close>

lemma insert_entries_rep:
  "lh_rep t al \<Longrightarrow> never_freed t \<Longrightarrow> distinct (map fst (al @ map entry_pair es)) \<Longrightarrow>
   2 * length (al @ map entry_pair es) \<le> lh_size t \<Longrightarrow>
   \<exists>t'. insert_entries (lh_insert_within (Suc d)) es t = Some (Inr t') \<and>
     lh_rep t' (al @ map entry_pair es) \<and> never_freed t' \<and> lh_size t' = lh_size t \<and>
     lh_hash_fn t' = lh_hash_fn t"
proof (induction es arbitrary: t al)
  case (Cons e es)
  let ?k = "key_of (le_k e)" and ?v = "the (le_v e)" and ?t = "t\<lparr>lh_inserts := lh_inserts t + 1\<rparr>"
  have cnt: "lh_count t = length al" using lh_rep_count [OF Cons.prems(1)] by simp
  have ins: "lh_insert_within (Suc d) t ?k ?v = lh_place ?t ?k ?v"
    using Cons.prems(4) cnt by (intro lh_insert_no_resize) (simp add: lh_overfull_def)
  have "lh_rep ?t al" by (rule lh_rep_cong [OF Cons.prems(1)]) simp_all
  moreover have "length al < lh_size ?t" "?k \<notin> fst ` set al"
    using Cons.prems(3,4) by (auto simp: entry_pair_def image_iff)
  moreover have "never_freed ?t" using Cons.prems(2) by (simp add: never_freed_def)
  ultimately obtain t' where t': "lh_place ?t ?k ?v = Some (Inr t')" "lh_rep t' (al @ [(?k, ?v)])"
    "same_setup ?t t'" "lh_size t' = lh_size ?t" "never_freed t'"
    using lh_place_rep [of ?t al ?k] by metis
  have "\<exists>t''. insert_entries (lh_insert_within (Suc d)) es t' = Some (Inr t'') \<and>
     lh_rep t'' ((al @ [(?k, ?v)]) @ map entry_pair es) \<and> never_freed t'' \<and> lh_size t'' = lh_size t' \<and>
     lh_hash_fn t'' = lh_hash_fn t'"
    by (rule Cons.IH [OF t'(2,5)]) (use Cons.prems(3,4) t'(4) in \<open>simp_all add: entry_pair_def\<close>)
  then show ?case
    using ins t'(1,3,4) by (simp add: same_setup_def entry_pair_def [of e])
qed simp

lemma lh_resize_rep:
  assumes rep: "lh_rep t al" and small: "length al \<le> lh_size t"
  obtains t' where "lh_table_resize (lh_insert_within (Suc d)) t (lh_size t * 2) = Some (Inr t')"
    "lh_rep t' al" "same_setup t t'" "lh_size t' = lh_size t * 2" "never_freed t'"
proof -
  obtain xs where xs: "lh_inv t xs" "al = lh_pairs (lh_slots t) xs" using rep by (auto simp: lh_rep_def)
  let ?new = "lh_table_new (lh_size t * 2) False (lh_hash_fn t) (lh_equal_fn t) :: ('a, 'b) lh_table"
  have walk: "lh_walk (lh_slots t) (lh_head t) = Some xs"
    using xs(1) lh_walk_seg [of "lh_slots t" None xs] by (simp add: lh_inv_def linked_def)
  have new: "lh_rep ?new []" using lh_rep_new [of "lh_size t * 2"] lh_rep_count [OF rep] by simp
  have fresh: "never_freed ?new" by (simp add: never_freed_def lh_table_new_def empty_entry_def)
  have al: "map entry_pair (map ((!) (lh_slots t)) xs) = al" using xs(2) by (simp add: lh_pairs_def comp_def)
  have size: "lh_size ?new = lh_size t * 2" "lh_hash_fn ?new = lh_hash_fn t"
    by (simp_all add: lh_table_new_def)
  obtain nt where nt: "insert_entries (lh_insert_within (Suc d)) (map ((!) (lh_slots t)) xs) ?new = Some (Inr nt)"
    "lh_rep nt al" "never_freed nt" "lh_size nt = lh_size t * 2" "lh_hash_fn nt = lh_hash_fn t"
    using insert_entries_rep [OF new fresh, of "map ((!) (lh_slots t)) xs" d] lh_rep_distinct [OF rep] small size
    unfolding al append_Nil by auto
  let ?t' = "t\<lparr>lh_slots := lh_slots nt, lh_size := lh_size t * 2, lh_head := lh_head nt,
      lh_tail := lh_tail nt, lh_resizes := lh_resizes t + 1\<rparr>"
  have "lh_rep ?t' al"
    by (rule lh_rep_cong [OF nt(2)]) (use nt(4,5) lh_rep_count [OF rep] lh_rep_count [OF nt(2)] in simp_all)
  moreover have "never_freed ?t'" using nt(3,4) by (simp add: never_freed_def)
  moreover have "lh_table_resize (lh_insert_within (Suc d)) t (lh_size t * 2) = Some (Inr ?t')"
    using walk nt(1) by (simp add: lh_table_resize_def)
  ultimately show thesis by (intro that [of ?t']) (simp_all add: same_setup_def)
qed

lemma lh_insert_depth:
  assumes rep: "lh_rep t al" and fresh: "k \<notin> fst ` set al" and small: "length al \<le> lh_size t"
  obtains t' where "lh_insert_within (Suc (Suc d)) t k v = Some (Inr t')" "lh_rep t' (al @ [(k, v)])"
    "same_setup t t'" "lh_size t \<le> lh_size t'" "length (al @ [(k, v)]) \<le> lh_size t'"
    "never_freed t \<Longrightarrow> never_freed t'" "3 \<le> lh_size t \<Longrightarrow> length (al @ [(k, v)]) < lh_size t'"
proof -
  let ?t = "t\<lparr>lh_inserts := lh_inserts t + 1\<rparr>"
  have rep1: "lh_rep ?t al" by (rule lh_rep_cong [OF rep]) simp_all
  note cnt = lh_rep_count [OF rep]
  show thesis
  proof (cases "lh_overfull ?t")
    case True
    obtain t2 where t2: "lh_table_resize (lh_insert_within (Suc d)) ?t (lh_size ?t * 2) = Some (Inr t2)"
      "lh_rep t2 al" "same_setup ?t t2" "lh_size t2 = lh_size ?t * 2" "never_freed t2"
      using lh_resize_rep [OF rep1, of d] small by auto
    have "length al < lh_size t2" using t2(4) small cnt by simp
    from lh_place_rep [OF t2(2) this fresh, of v]
    obtain t' where t': "lh_place t2 k v = Some (Inr t')" "lh_rep t' (al @ [(k, v)])" "same_setup t2 t'"
      "lh_size t' = lh_size t2" "never_freed t'"
      using t2(5) by blast
    show thesis
      by (rule that [of t'])
        (use True t2 t' small cnt in \<open>simp_all add: lh_insert_within.simps(2) Let_def same_setup_def\<close>)
  next
    case False
    have lt: "length al < lh_size ?t" using False cnt by (simp add: lh_overfull_def)
    from lh_place_rep [OF rep1 this fresh, of v]
    obtain t' where t': "lh_place ?t k v = Some (Inr t')" "lh_rep t' (al @ [(k, v)])" "same_setup ?t t'"
      "lh_size t' = lh_size ?t" "never_freed ?t \<Longrightarrow> never_freed t'"
      by blast
    show thesis
      by (rule that [of t'])
        (use False t' lt cnt in \<open>auto simp: lh_insert_within.simps(2) Let_def same_setup_def never_freed_def
          lh_overfull_def\<close>)
  qed
qed

subsection \<open>Lookup and deletion\<close>

lemma probe_present:
  assumes inv: "lh_inv t xs" and i: "i \<in> set xs" "key_of (le_k (lh_slots t ! i)) = k"
  shows "lh_probe (lh_equal_fn t) (lh_slots t) k (lh_start t k) = Some (Some i)"
proof -
  let ?tab = "lh_slots t" and ?h = "unat (lh_hash_fn t k)"
  have I: "length ?tab = lh_size t" "0 < lh_size t" "lh_equal_fn t = (=)"
    "\<And>j. j < lh_size t \<Longrightarrow> j \<in> set xs \<longleftrightarrow> \<not> unused_slot ?tab j"
    "inj_on (\<lambda>j. key_of (le_k (?tab ! j))) (set xs)" "linked t xs"
    using inv by (auto simp: lh_inv_def distinct_map)
  have "reached (lh_hash_fn t) ?tab k i" using inv i by (auto simp: lh_inv_def)
  then obtain d0 where d0: "i = (?h + d0) mod length ?tab"
    "\<forall>d' < d0. le_k (?tab ! ((?h + d') mod length ?tab)) \<noteq> LH_EMPTY"
    by (auto simp: reached_def)
  define d where "d = (LEAST d. i = (?h + d) mod length ?tab)"
  have d: "i = (?h + d) mod length ?tab" unfolding d_def by (rule LeastI, rule d0(1))
  have before: "d' < d \<Longrightarrow> i \<noteq> (?h + d') mod length ?tab" for d'
    unfolding d_def by (rule not_less_Least)
  have "d \<le> d0" unfolding d_def by (rule Least_le, rule d0(1))
  have "skipped_slot (lh_equal_fn t) ?tab k ((?h + d') mod length ?tab)" if "d' < d" for d'
  proof -
    let ?j = "(?h + d') mod length ?tab"
    have j: "?j < lh_size t" using I(1,2) by simp
    have "le_k (?tab ! ?j) \<noteq> LH_EMPTY" using d0(2) that \<open>d \<le> d0\<close> by simp
    moreover have "k' \<noteq> k" if key: "le_k (?tab ! ?j) = LH_KEY k'" for k'
    proof
      assume "k' = k"
      moreover have "?j \<in> set xs" using I(4) [OF j] key by (simp add: unused_slot_def)
      ultimately have "?j = i" using inj_onD [OF I(5)] i key by (metis lh_key.sel)
      then show False using before [OF \<open>d' < d\<close>] by simp
    qed
    ultimately show ?thesis by (auto simp: skipped_slot_def I(3) split: lh_key.splits)
  qed
  then have "lh_probe (lh_equal_fn t) ?tab k (?h mod length ?tab) =
      lh_probe (lh_equal_fn t) ?tab k ((?h + d) mod length ?tab)"
    by (intro lh_probe_run) (use I(1,2) in simp_all)
  then have "lh_probe (lh_equal_fn t) ?tab k (?h mod length ?tab) = lh_probe (lh_equal_fn t) ?tab k i"
    by (simp flip: d)
  moreover have "le_k (?tab ! i) = LH_KEY k"
    using i used_key [of ?tab i] I(1,4,6) linked_bound by metis
  then have "lh_probe (lh_equal_fn t) ?tab k i = Some (Some i)"
    by (subst lh_probe.simps) (simp add: I(3))
  ultimately show ?thesis by (simp add: lh_start_def I(1))
qed

lemma skipped_iff:
  assumes "lh_inv t xs" "fresh_key t xs k" "j < lh_size t"
  shows "skipped_slot (lh_equal_fn t) (lh_slots t) k j \<longleftrightarrow> le_k (lh_slots t ! j) \<noteq> LH_EMPTY"
proof (cases "le_k (lh_slots t ! j)")
  case (LH_KEY k')
  then have "j \<in> set xs" using assms(1,3) by (auto simp: lh_inv_def unused_slot_def)
  then have "k' \<noteq> k" using assms(2) LH_KEY by (auto simp: fresh_key_def)
  then show ?thesis using assms(1) LH_KEY by (simp add: skipped_slot_def lh_inv_def)
qed (simp_all add: skipped_slot_def)

lemma probe_absent:
  assumes inv: "lh_inv t xs" and fresh: "fresh_key t xs k" and empty: "has_empty t"
  shows "lh_probe (lh_equal_fn t) (lh_slots t) k (lh_start t k) = Some None"
proof -
  let ?tab = "lh_slots t" and ?h = "unat (lh_hash_fn t k)"
  let ?P = "\<lambda>d. le_k (?tab ! ((?h + d) mod length ?tab)) = LH_EMPTY"
  have len: "length ?tab = lh_size t" "0 < lh_size t" using inv by (simp_all add: lh_inv_def)
  obtain i where "i < lh_size t" "le_k (?tab ! i) = LH_EMPTY" using empty by (auto simp: has_empty_def)
  then obtain d0 where "?P d0" using slot_exists [of i "length ?tab" ?h] len(1) by auto
  define d where "d = (LEAST d. ?P d)"
  have d: "?P d" "\<forall>d' < d. \<not> ?P d'" unfolding d_def using \<open>?P d0\<close> by (auto intro: LeastI dest: not_less_Least)
  have "skipped_slot (lh_equal_fn t) ?tab k ((?h + d') mod length ?tab)" if "d' < d" for d'
    using d(2) that skipped_iff [OF inv fresh, of "(?h + d') mod length ?tab"] len by simp
  then have "lh_probe (lh_equal_fn t) ?tab k (?h mod length ?tab) =
      lh_probe (lh_equal_fn t) ?tab k ((?h + d) mod length ?tab)"
    using len by (intro lh_probe_run) auto
  also have "\<dots> = Some None" using d(1) by (subst lh_probe.simps) simp
  finally show ?thesis by (simp add: lh_start_def len(1))
qed

lemma lookup_rep:
  assumes "lh_rep t al" "k \<in> fst ` set al \<or> has_empty t"
  shows "lh_table_lookup t k = Some (t\<lparr>lh_lookups := lh_lookups t + 1\<rparr>, map_of al k)"
proof -
  obtain xs where xs: "lh_inv t xs" "al = lh_pairs (lh_slots t) xs" using assms(1) by (auto simp: lh_rep_def)
  show ?thesis
  proof (cases "k \<in> fst ` set al")
    case True
    then obtain i where i: "i \<in> set xs" "key_of (le_k (lh_slots t ! i)) = k"
      using xs(2) by (auto simp: lh_pairs_def entry_pair_def)
    then obtain v where v: "le_v (lh_slots t ! i) = Some v" using xs(1) by (auto simp: lh_inv_def)
    have "(k, v) \<in> set al" using i v xs(2) by (auto simp: lh_pairs_def entry_pair_def)
    then have "map_of al k = Some v" using lh_rep_distinct [OF assms(1)] by simp
    then show ?thesis
      using probe_present [OF xs(1) i] v by (simp add: lh_table_lookup_def lh_table_lookup_entry_def)
  next
    case False
    then have "map_of al k = None" by (simp add: map_of_eq_None_iff)
    moreover have "fresh_key t xs k" using False xs(2) by (simp add: fresh_key_pairs)
    ultimately show ?thesis
      using probe_absent [OF xs(1)] False assms(2)
      by (simp add: lh_table_lookup_def lh_table_lookup_entry_def)
  qed
qed

lemma lookup_hangs:
  assumes "lh_rep t al" "k \<notin> fst ` set al" "\<not> has_empty t"
  shows "lh_table_lookup t k = None" "lh_table_delete t k = None"
proof -
  obtain xs where xs: "lh_inv t xs" "al = lh_pairs (lh_slots t) xs" using assms(1) by (auto simp: lh_rep_def)
  have fresh: "fresh_key t xs k" using assms(2) xs(2) by (simp add: fresh_key_pairs)
  have len: "length (lh_slots t) = lh_size t" "0 < lh_size t" using xs(1) by (simp_all add: lh_inv_def)
  have "lh_probe (lh_equal_fn t) (lh_slots t) k (lh_start t k) = None"
    using skipped_iff [OF xs(1) fresh] assms(3) len
    by (intro lh_probe_hangs) (auto simp: has_empty_def lh_start_def)
  then show "lh_table_lookup t k = None" "lh_table_delete t k = None"
    by (simp_all add: lh_table_lookup_def lh_table_delete_def lh_table_lookup_entry_def)
qed

lemma delete_entry_inv:
  assumes inv: "lh_inv t (ys @ n # zs)"
  obtains t' where "lh_table_delete_entry t n = Inr (t', 0)" "lh_inv t' (ys @ zs)"
    "lh_pairs (lh_slots t') (ys @ zs) = lh_pairs (lh_slots t) (ys @ zs)" "lh_size t' = lh_size t"
    "lh_hash_fn t' = lh_hash_fn t" "lh_free_fn t' = lh_free_fn t"
    "lh_released t' = (if lh_free_fn t
       then lh_released t @ [(key_of (le_k (lh_slots t ! n)), le_v (lh_slots t ! n))] else lh_released t)"
    "\<forall>i < lh_size t. le_k (lh_slots t' ! i) = LH_EMPTY \<longleftrightarrow> le_k (lh_slots t ! i) = LH_EMPTY"
proof -
  let ?tab = "lh_slots t" and ?xs = "ys @ n # zs"
  define k where "k = key_of (le_k (?tab ! n))"
  have I: "0 < lh_size t" "length ?tab = lh_size t" "lh_equal_fn t = (=)" "linked t ?xs"
    "lh_count t = length ?xs" "\<And>i. i < lh_size t \<Longrightarrow> i \<in> set ?xs \<longleftrightarrow> \<not> unused_slot ?tab i"
    "\<And>i. i \<in> set ?xs \<Longrightarrow> le_v (?tab ! i) \<noteq> None"
    "\<And>i. i \<in> set ?xs \<Longrightarrow> reached (lh_hash_fn t) ?tab (key_of (le_k (?tab ! i))) i"
    "distinct (map (\<lambda>i. key_of (le_k (?tab ! i))) ?xs)"
    using inv unfolding lh_inv_def by blast+
  have dist: "distinct ?xs" using I(4) by (simp add: linked_def)
  have bound: "i < lh_size t" if "i \<in> set ?xs" for i using linked_bound [OF I(4) that] I(2) by simp
  have n: "n < lh_size t" "le_k (?tab ! n) = LH_KEY k"
    using bound [of n] I(6) [of n] used_key [of ?tab n] by (simp_all add: k_def)
  let ?tab1 = "?tab[n := (?tab ! n)\<lparr>le_v := None, le_k := LH_FREED\<rparr>]"
  let ?rel = "if lh_free_fn t then lh_released t @ [(k, le_v (?tab ! n))] else lh_released t"
  let ?t1 = "t\<lparr>lh_count := lh_count t - 1, lh_released := ?rel, lh_slots := ?tab1\<rparr>"
  have "dll_seg ?tab1 None ?xs None = dll_seg ?tab None ?xs None"
    using n(1) I(2) by (intro dll_seg_cong) (simp_all add: nth_list_update)
  then have "linked ?t1 ?xs" using I(4) by (simp add: linked_def)
  then obtain tab where tab: "lh_unlink ?t1 n = Inr (?t1\<lparr>lh_slots := tab, lh_head := first (ys @ zs) None,
      lh_tail := final (ys @ zs) None\<rparr>)" "dll_seg tab None (ys @ zs) None" "same_data ?tab1 tab"
    by (rule unlink_linked) auto
  define tab' where "tab' = tab[n := (tab ! n)\<lparr>le_next := None, le_prev := None\<rparr>]"
  let ?t' = "?t1\<lparr>lh_slots := tab', lh_head := first (ys @ zs) None, lh_tail := final (ys @ zs) None\<rparr>"
  have same: "same_data ?tab1 tab'"
    unfolding tab'_def by (rule same_data_trans [OF tab(3) same_data_links(4)])
  have len: "length tab' = lh_size t" using same I(2) by (simp add: same_data_def)
  have at_n: "le_k (tab' ! n) = LH_FREED" using same n(1) I(2) by (simp add: same_data_def)
  have other: "le_k (tab' ! i) = le_k (?tab ! i)" "le_v (tab' ! i) = le_v (?tab ! i)"
    if "i < lh_size t" "i \<noteq> n" for i
    using same that I(2) by (simp_all add: same_data_def)
  have rest: "i < lh_size t \<and> i \<noteq> n \<and> i \<in> set ?xs" if "i \<in> set (ys @ zs)" for i
    using that dist bound [of i] by auto
  have mono: "le_k (tab' ! j) = LH_EMPTY \<longleftrightarrow> le_k (?tab ! j) = LH_EMPTY" if "j < lh_size t" for j
    using that at_n n(2) other(1) [of j] by (cases "j = n") auto
  have "linked ?t' (ys @ zs)"
    using tab(2) dist by (simp add: linked_def tab'_def dll_seg_other)
  moreover have "i \<in> set (ys @ zs) \<longleftrightarrow> \<not> unused_slot tab' i" if "i < lh_size t" for i
    using I(6) [OF that] dist at_n other(1) [OF that] by (cases "i = n") (auto simp: unused_slot_def)
  moreover have "le_v (tab' ! i) \<noteq> None" if "i \<in> set (ys @ zs)" for i
    using rest [OF that] other(2) [of i] I(7) [of i] by auto
  moreover have "reached (lh_hash_fn t) tab' (key_of (le_k (tab' ! i))) i" if "i \<in> set (ys @ zs)" for i
  proof -
    have "key_of (le_k (tab' ! i)) = key_of (le_k (?tab ! i))" using rest [OF that] other(1) by simp
    then show ?thesis
      using reached_mono [OF I(8), of i tab'] rest [OF that] that len I(2) mono by auto
  qed
  moreover have "distinct (map (\<lambda>i. key_of (le_k (tab' ! i))) (ys @ zs))"
  proof -
    have keys: "map (\<lambda>i. key_of (le_k (tab' ! i))) (ys @ zs) = map (\<lambda>i. key_of (le_k (?tab ! i))) (ys @ zs)"
      by (rule map_cong [OF refl]) (use rest other(1) in simp)
    show ?thesis unfolding keys using I(9) by auto
  qed
  ultimately have inv': "lh_inv ?t' (ys @ zs)" using I(1-5) len by (simp add: lh_inv_def)
  have del: "lh_table_delete_entry t n = Inr (?t', 0)"
    unfolding lh_table_delete_entry_def n(2) lh_key.case Let_def tab(1) sum.case
    by (simp add: tab'_def)
  have pairs: "lh_pairs tab' (ys @ zs) = lh_pairs ?tab (ys @ zs)"
    unfolding lh_pairs_def by (rule map_cong [OF refl]) (use rest other in \<open>simp add: entry_pair_def\<close>)
  show thesis
    by (rule that [OF del inv']) (use pairs mono in \<open>simp_all add: k_def\<close>)
qed

lemma filter_fresh:
  "k \<notin> fst ` set ps \<Longrightarrow> filter (\<lambda>p. fst p \<noteq> k) ps = ps" "k \<notin> fst ` set ps \<Longrightarrow> filter (\<lambda>p. fst p = k) ps = []"
  by (auto simp: filter_id_conv filter_empty_conv image_iff)

lemma delete_rep:
  assumes rep: "lh_rep t al" and ok: "k \<in> fst ` set al \<or> has_empty t"
  obtains t' where "lh_table_delete t k = Some (Inr (t', if k \<in> fst ` set al then 0 else - 1))"
    "lh_rep t' (filter (\<lambda>p. fst p \<noteq> k) al)" "lh_size t' = lh_size t" "lh_free_fn t' = lh_free_fn t"
    "lh_released t' = lh_released t @
       (if lh_free_fn t then map (\<lambda>p. (fst p, Some (snd p))) (filter (\<lambda>p. fst p = k) al) else [])"
    "has_empty t' \<longleftrightarrow> has_empty t"
proof -
  obtain xs where xs: "lh_inv t xs" "al = lh_pairs (lh_slots t) xs" using rep by (auto simp: lh_rep_def)
  let ?t = "t\<lparr>lh_lookups := lh_lookups t + 1\<rparr>"
  have inv: "lh_inv ?t xs" using xs(1) by (simp add: lh_inv_def linked_def)
  show thesis
  proof (cases "k \<in> fst ` set al")
    case True
    then obtain n where n: "n \<in> set xs" "key_of (le_k (lh_slots t ! n)) = k"
      using xs(2) by (auto simp: lh_pairs_def entry_pair_def)
    then obtain v where v: "le_v (lh_slots t ! n) = Some v" using xs(1) by (auto simp: lh_inv_def)
    obtain ys zs where split: "xs = ys @ n # zs" using split_list [OF n(1)] by blast
    obtain t' where t': "lh_table_delete_entry ?t n = Inr (t', 0)" "lh_inv t' (ys @ zs)"
      "lh_pairs (lh_slots t') (ys @ zs) = lh_pairs (lh_slots ?t) (ys @ zs)" "lh_size t' = lh_size ?t"
      "lh_hash_fn t' = lh_hash_fn ?t" "lh_free_fn t' = lh_free_fn ?t"
      "lh_released t' = (if lh_free_fn ?t
         then lh_released ?t @ [(key_of (le_k (lh_slots ?t ! n)), le_v (lh_slots ?t ! n))] else lh_released ?t)"
      "\<forall>i < lh_size ?t. le_k (lh_slots t' ! i) = LH_EMPTY \<longleftrightarrow> le_k (lh_slots ?t ! i) = LH_EMPTY"
      by (rule delete_entry_inv [OF inv [unfolded split]])
    have al: "al = lh_pairs (lh_slots t) ys @ (k, v) # lh_pairs (lh_slots t) zs"
      using xs(2) split n(2) v by (simp add: lh_pairs_def entry_pair_def)
    have "k \<notin> fst ` set (lh_pairs (lh_slots t) ys)" "k \<notin> fst ` set (lh_pairs (lh_slots t) zs)"
      using lh_rep_distinct [OF rep] unfolding al by auto
    then have f: "filter (\<lambda>p. fst p \<noteq> k) al = lh_pairs (lh_slots t) (ys @ zs)"
      "filter (\<lambda>p. fst p = k) al = [(k, v)]"
      unfolding al by (simp_all add: filter_fresh) (simp add: lh_pairs_def)
    have "lh_table_delete t k = Some (Inr (t', 0))"
      using probe_present [OF xs(1) n] t'(1) by (simp add: lh_table_delete_def lh_table_lookup_entry_def)
    moreover have "lh_rep t' (lh_pairs (lh_slots t) (ys @ zs))"
      unfolding lh_rep_def using t'(2,3) by auto
    ultimately show thesis
      using t'(4,6,7,8) True n(2) v f by (intro that [of t']) (auto simp: has_empty_def)
  next
    case False
    have "fresh_key t xs k" using False xs(2) by (simp add: fresh_key_pairs)
    then have "lh_table_delete t k = Some (Inr (?t, - 1))"
      using probe_absent [OF xs(1)] False ok by (simp add: lh_table_delete_def lh_table_lookup_entry_def)
    moreover have "filter (\<lambda>p. fst p \<noteq> k) al = al" "filter (\<lambda>p. fst p = k) al = []"
      using False by (auto simp: filter_id_conv filter_empty_conv image_iff)
    moreover have "lh_rep ?t al" by (rule lh_rep_cong [OF rep]) simp_all
    ultimately show thesis using False by (intro that [of ?t]) (auto simp: has_empty_def)
  qed
qed

subsection \<open>The contract of a dictionary\<close>

text \<open>
  What a client needs of a table: it represents an association list, and as long as it is
  usable each operation is the one on the list.
\<close>

locale ordered_dict =
  fixes rep :: "'t \<Rightarrow> ('k \<times> 'v) list \<Rightarrow> bool"
    and usable :: "'t \<Rightarrow> bool"
    and insert1 :: "'t \<Rightarrow> 'k \<Rightarrow> 'v \<Rightarrow> (crash + 't) option"
    and lookup1 :: "'t \<Rightarrow> 'k \<Rightarrow> ('t \<times> 'v option) option"
    and delete1 :: "'t \<Rightarrow> 'k \<Rightarrow> (crash + 't \<times> int) option"
  assumes distinct_keys: "rep t al \<Longrightarrow> distinct (map fst al)"
    and insert_law: "rep t al \<Longrightarrow> usable t \<Longrightarrow> k \<notin> fst ` set al \<Longrightarrow>
      \<exists>t'. insert1 t k v = Some (Inr t') \<and> rep t' (al @ [(k, v)])"
    and lookup_law: "rep t al \<Longrightarrow> k \<in> fst ` set al \<or> usable t \<Longrightarrow> \<exists>t'. lookup1 t k = Some (t', map_of al k)"
    and delete_law: "rep t al \<Longrightarrow> usable t \<Longrightarrow>
      \<exists>t'. delete1 t k = Some (Inr (t', if k \<in> fst ` set al then 0 else - 1)) \<and>
        rep t' (filter (\<lambda>p. fst p \<noteq> k) al) \<and> usable t'"
begin

text \<open>A replacement: the old entry is deleted, the new one inserted at the end.\<close>

lemma replace:
  assumes "rep t al" "usable t"
  shows "\<exists>t1 r t2. delete1 t k = Some (Inr (t1, r)) \<and> insert1 t1 k v = Some (Inr t2) \<and>
    rep t2 (filter (\<lambda>p. fst p \<noteq> k) al @ [(k, v)])"
proof -
  obtain t1 where t1: "delete1 t k = Some (Inr (t1, if k \<in> fst ` set al then 0 else - 1))"
    "rep t1 (filter (\<lambda>p. fst p \<noteq> k) al)" "usable t1"
    using delete_law [OF assms, of k] by blast
  moreover have "k \<notin> fst ` set (filter (\<lambda>p. fst p \<noteq> k) al)" by auto
  ultimately obtain t2 where "insert1 t1 k v = Some (Inr t2)" "rep t2 (filter (\<lambda>p. fst p \<noteq> k) al @ [(k, v)])"
    using insert_law [OF t1(2,3), of k v] by blast
  with t1(1) show ?thesis by metis
qed

lemma lookup_after_replace:
  assumes "rep t2 (filter (\<lambda>p. fst p \<noteq> k) al @ [(k, v)])" "k' \<in> fst ` set al \<or> k' = k"
  shows "\<exists>t3. lookup1 t2 k' = Some (t3, if k' = k then Some v else map_of al k')"
proof -
  let ?al = "filter (\<lambda>p. fst p \<noteq> k) al @ [(k, v)]"
  have "k' \<in> fst ` set ?al" using assms(2) by auto
  moreover have "map_of ?al k' = (if k' = k then Some v else map_of al k')"
    by (induction al) auto
  moreover obtain t3 where "lookup1 t2 k' = Some (t3, map_of ?al k')"
    using lookup_law [OF assms(1), of k'] calculation(1) by blast
  ultimately show ?thesis by simp
qed

end

lemma room_when_empty:
  assumes "lh_rep t al" "has_empty t"
  shows "length al < lh_size t"
proof -
  obtain xs where xs: "lh_inv t xs" "al = lh_pairs (lh_slots t) xs" using assms(1) by (auto simp: lh_rep_def)
  obtain i where i: "i < lh_size t" "le_k (lh_slots t ! i) = LH_EMPTY" using assms(2) by (auto simp: has_empty_def)
  then have "set xs \<subseteq> {..<lh_size t} - {i}"
    using xs(1) linked_bound [of t xs] by (auto simp: lh_inv_def unused_slot_def)
  then have "card (set xs) \<le> card ({..<lh_size t} - {i})" by (rule card_mono [rotated]) simp
  moreover have "card (set xs) = length xs" using xs(1) by (simp add: lh_inv_def linked_def distinct_card)
  ultimately show ?thesis using i(1) xs(2) by (simp add: lh_pairs_def)
qed

interpretation lh: ordered_dict lh_rep has_empty lh_table_insert lh_table_lookup lh_table_delete
proof
  show "\<And>t al. lh_rep t al \<Longrightarrow> distinct (map fst al)" by (rule lh_rep_distinct)
next
  fix t :: "('a, 'b) lh_table" and al k v
  assume a: "lh_rep t al" "has_empty t" "k \<notin> fst ` set al"
  have "length al \<le> lh_size t" using room_when_empty [OF a(1,2)] by simp
  then show "\<exists>t'. lh_table_insert t k v = Some (Inr t') \<and> lh_rep t' (al @ [(k, v)])"
    unfolding lh_table_insert_def numeral_2_eq_2 by (rule lh_insert_depth [OF a(1,3), of 0 v]) blast
next
  fix t :: "('a, 'b) lh_table" and al k
  assume "lh_rep t al" "k \<in> fst ` set al \<or> has_empty t"
  then show "\<exists>t'. lh_table_lookup t k = Some (t', map_of al k)" using lookup_rep [of t al k] by simp
next
  fix t :: "('a, 'b) lh_table" and al k
  assume a: "lh_rep t al" "has_empty t"
  obtain t' where "lh_table_delete t k = Some (Inr (t', if k \<in> fst ` set al then 0 else - 1))"
    "lh_rep t' (filter (\<lambda>p. fst p \<noteq> k) al)" "has_empty t' \<longleftrightarrow> has_empty t"
    by (rule delete_rep [OF a(1) disjI2 [OF a(2)], of k])
  then show "\<exists>t'. lh_table_delete t k = Some (Inr (t', if k \<in> fst ` set al then 0 else - 1)) \<and>
      lh_rep t' (filter (\<lambda>p. fst p \<noteq> k) al) \<and> has_empty t'"
    using a(2) by blast
qed

subsection \<open>Properties of the table\<close>

text \<open>
C24: The table refines an ordered list of pairs.  While a slot is empty, replacing a key, that is
  deleting it and inserting it again as \<open>json_object_object_add\<close> does, terminates without a
  crash, also when the table is resized, and gives the list without the old pair and with the new
  one at its end; a lookup afterwards finds the new value, and every other key its old value.
\<close>

theorem link_hash_refines_list:
  assumes "lh_rep t al" "has_empty t"
  shows "\<exists>t1 r t2. lh_table_delete t k = Some (Inr (t1, r)) \<and> lh_table_insert t1 k v = Some (Inr t2) \<and>
    lh_rep t2 (filter (\<lambda>p. fst p \<noteq> k) al @ [(k, v)]) \<and> r = (if k \<in> fst ` set al then 0 else - 1) \<and>
    (\<forall>k' \<in> fst ` set al \<union> {k}. \<exists>t3. lh_table_lookup t2 k' = Some (t3, if k' = k then Some v else map_of al k'))"
proof -
  obtain t1 r t2 where ops: "lh_table_delete t k = Some (Inr (t1, r))" "lh_table_insert t1 k v = Some (Inr t2)"
    "lh_rep t2 (filter (\<lambda>p. fst p \<noteq> k) al @ [(k, v)])"
    using lh.replace [OF assms] by blast
  moreover have "r = (if k \<in> fst ` set al then 0 else - 1)"
    using lh.delete_law [OF assms, of k] ops(1) by auto
  ultimately show ?thesis using lh.lookup_after_replace [OF ops(3)] by blast
qed

lemma link_hash_refines_list_witness:
  "\<exists>t1 r t2. lh_table_delete (lh_kchar_table_new 16 True) ''a'' = Some (Inr (t1, r)) \<and>
     lh_table_insert t1 ''a'' (7 :: nat) = Some (Inr t2) \<and> lh_rep t2 [(''a'', 7)] \<and> r = - 1"
proof -
  let ?t = "lh_kchar_table_new 16 True :: (string, nat) lh_table"
  have eq: "lh_char_equal = (=)" by (intro ext) (simp add: lh_char_equal_def)
  have "lh_rep ?t []" unfolding lh_kchar_table_new_def eq by (rule lh_rep_new) simp
  moreover have "has_empty ?t"
    unfolding has_empty_def by (rule exI [of _ 0])
      (simp add: lh_kchar_table_new_def lh_table_new_def empty_entry_def)
  ultimately obtain t1 r t2 where "lh_table_delete ?t ''a'' = Some (Inr (t1, r))"
    "lh_table_insert t1 ''a'' 7 = Some (Inr t2)" "lh_rep t2 (filter (\<lambda>p. fst p \<noteq> ''a'') [] @ [(''a'', 7)])"
    "r = (if ''a'' \<in> fst ` set ([] :: (string \<times> nat) list) then 0 else - 1)"
    using link_hash_refines_list [of ?t "[]" "''a''" 7] by metis
  then show ?thesis by simp
qed

fun lh_insert_all :: "('k, 'v) lh_table \<Rightarrow> ('k \<times> 'v) list \<Rightarrow> (crash + ('k, 'v) lh_table) option" where
  "lh_insert_all t [] = Some (Inr t)"
| "lh_insert_all t ((k, v) # al) =
     (case lh_table_insert t k v of
        None \<Rightarrow> None
      | Some (Inl c) \<Rightarrow> Some (Inl c)
      | Some (Inr t') \<Rightarrow> lh_insert_all t' al)"

lemma empty_slot_exists:
  assumes "lh_rep t al" "never_freed t" "length al < lh_size t"
  shows "has_empty t"
proof -
  obtain xs where xs: "lh_inv t xs" "al = lh_pairs (lh_slots t) xs" using assms(1) by (auto simp: lh_rep_def)
  have "lh_count t < lh_size t" using lh_rep_count [OF assms(1)] assms(3) by simp
  then obtain i where "i < lh_size t" "unused_slot (lh_slots t) i"
    using room_for_entry [OF xs(1)] xs(1) by (auto simp: lh_inv_def)
  then show ?thesis using assms(2) by (auto simp: unused_slot_def never_freed_def has_empty_def)
qed

lemma lh_insert_all_rep:
  "lh_rep t al \<Longrightarrow> never_freed t \<Longrightarrow> 3 \<le> lh_size t \<Longrightarrow> length al < lh_size t \<Longrightarrow>
   distinct (map fst (al @ kvs)) \<Longrightarrow>
   \<exists>t'. lh_insert_all t kvs = Some (Inr t') \<and> lh_rep t' (al @ kvs) \<and> has_empty t'"
proof (induction kvs arbitrary: t al)
  case Nil
  then show ?case using empty_slot_exists by auto
next
  case (Cons p kvs)
  obtain k v where p: "p = (k, v)" by fastforce
  have fresh: "k \<notin> fst ` set al" using Cons.prems(5) p by auto
  have small: "length al \<le> lh_size t" using Cons.prems(4) by simp
  obtain t' where t': "lh_table_insert t k v = Some (Inr t')" "lh_rep t' (al @ [(k, v)])" "lh_size t \<le> lh_size t'"
    "never_freed t'" "length (al @ [(k, v)]) < lh_size t'"
    using lh_insert_depth [OF Cons.prems(1) fresh small, of 0 v] Cons.prems(2,3)
    unfolding lh_table_insert_def numeral_2_eq_2 by metis
  have "\<exists>t''. lh_insert_all t' kvs = Some (Inr t'') \<and> lh_rep t'' ((al @ [(k, v)]) @ kvs) \<and> has_empty t''"
    by (rule Cons.IH [OF t'(2,4) _ t'(5)]) (use Cons.prems(3,5) t'(3) p in auto)
  then show ?case using p t'(1) by simp
qed

text \<open>
However many entries with different keys are inserted into a new table of at least three
  slots, and however often it grows, every insertion and then every lookup terminates: the
  table lists the entries in the order of their insertion, and a lookup finds the value of a key
  exactly when it was inserted.
\<close>

theorem lookups_terminate:
  assumes "3 \<le> s" "distinct (map fst kvs)"
  shows "\<exists>t. lh_insert_all (lh_table_new s f h (=)) kvs = Some (Inr t) \<and> lh_rep t kvs \<and>
    (\<forall>k. lh_table_lookup t k = Some (t\<lparr>lh_lookups := lh_lookups t + 1\<rparr>, map_of kvs k))"
proof -
  let ?t = "lh_table_new s f h (=)"
  have "lh_rep ?t []" "never_freed ?t" "3 \<le> lh_size ?t" "length [] < lh_size ?t"
    using assms(1) lh_rep_new [of s f h] by (simp_all add: lh_table_new_def never_freed_def empty_entry_def)
  from lh_insert_all_rep [OF this, of kvs] assms(2)
  obtain t where "lh_insert_all ?t kvs = Some (Inr t)" "lh_rep t kvs" "has_empty t" by auto
  moreover from calculation have "\<forall>k. lh_table_lookup t k = Some (t\<lparr>lh_lookups := lh_lookups t + 1\<rparr>, map_of kvs k)"
    by (simp add: lookup_rep)
  ultimately show ?thesis by blast
qed

lemma lookups_terminate_witness:
  "\<exists>t. lh_insert_all (lh_table_new 16 True lh_char_hash (=)) [(''a'', 1 :: nat), (''b'', 2)] = Some (Inr t) \<and>
     lh_rep t [(''a'', 1), (''b'', 2)] \<and> (\<exists>t'. lh_table_lookup t ''c'' = Some (t', None))"
proof -
  obtain t where "lh_insert_all (lh_table_new 16 True lh_char_hash (=)) [(''a'', 1 :: nat), (''b'', 2)] = Some (Inr t)"
    "lh_rep t [(''a'', 1), (''b'', 2)]"
    "\<forall>k. lh_table_lookup t k = Some (t\<lparr>lh_lookups := lh_lookups t + 1\<rparr>, map_of [(''a'', 1), (''b'', 2)] k)"
    using lookups_terminate [of 16 "[(''a'', 1 :: nat), (''b'', 2)]" True lh_char_hash] by auto
  then show ?thesis by auto
qed

subsection \<open>Replacing a key in place\<close>

text \<open>The way from the start of a key to its entry, in a table without freed slots.\<close>

lemma way_to_entry:
  assumes inv: "lh_inv t xs" and fresh: "never_freed t" and n: "n \<in> set xs"
  obtains d where "n = (unat (lh_hash_fn t (key_of (le_k (lh_slots t ! n)))) + d) mod lh_size t"
    "\<forall>d' < d. (unat (lh_hash_fn t (key_of (le_k (lh_slots t ! n)))) + d') mod lh_size t \<in> set xs - {n}"
proof -
  let ?tab = "lh_slots t" and ?h = "unat (lh_hash_fn t (key_of (le_k (lh_slots t ! n))))"
  have I: "length ?tab = lh_size t" "0 < lh_size t"
    "\<And>j. j < lh_size t \<Longrightarrow> j \<in> set xs \<longleftrightarrow> \<not> unused_slot ?tab j"
    using inv by (auto simp: lh_inv_def)
  have "reached (lh_hash_fn t) ?tab (key_of (le_k (?tab ! n))) n" using inv n by (auto simp: lh_inv_def)
  then obtain d0 where d0: "n = (?h + d0) mod lh_size t"
    "\<forall>d' < d0. le_k (?tab ! ((?h + d') mod lh_size t)) \<noteq> LH_EMPTY"
    by (auto simp: reached_def I(1))
  define d where "d = (LEAST d. n = (?h + d) mod lh_size t)"
  have d: "n = (?h + d) mod lh_size t" unfolding d_def by (rule LeastI, rule d0(1))
  have before: "d' < d \<Longrightarrow> n \<noteq> (?h + d') mod lh_size t" for d'
    unfolding d_def by (rule not_less_Least)
  have "d \<le> d0" unfolding d_def by (rule Least_le, rule d0(1))
  have "(?h + d') mod lh_size t \<in> set xs - {n}" if "d' < d" for d'
  proof -
    let ?j = "(?h + d') mod lh_size t"
    have j: "?j < lh_size t" using I(2) by simp
    have "le_k (?tab ! ?j) \<noteq> LH_EMPTY" using d0(2) that \<open>d \<le> d0\<close> by simp
    moreover have "le_k (?tab ! ?j) \<noteq> LH_FREED" using fresh j by (simp add: never_freed_def)
    ultimately have "?j \<in> set xs" using I(3) [OF j] by (simp add: unused_slot_def)
    then show ?thesis using before [OF that] by simp
  qed
  then show thesis using that [OF d] by blast
qed

lemma used_slots: "lh_inv t xs \<Longrightarrow> i < lh_size t \<Longrightarrow> i \<in> set xs \<longleftrightarrow> \<not> unused_slot (lh_slots t) i"
  by (simp add: lh_inv_def)

text \<open>A slot that is freed is the first unused one on the way of its key, and the only freed one.\<close>

lemma refill_freed:
  assumes inv: "lh_inv t (ys @ n # zs)" and fresh: "never_freed t"
    and del: "lh_inv t1 (ys @ zs)" "lh_size t1 = lh_size t" "lh_hash_fn t1 = lh_hash_fn t"
      "\<forall>i < lh_size t. le_k (lh_slots t1 ! i) = LH_EMPTY \<longleftrightarrow> le_k (lh_slots t ! i) = LH_EMPTY"
    and ins: "lh_inv t2 (ys @ zs @ [n'])" "lh_size t2 = lh_size t1"
      "\<forall>i < lh_size t1. le_k (lh_slots t2 ! i) = LH_FREED \<longrightarrow> le_k (lh_slots t1 ! i) = LH_FREED"
      "n' = (unat (lh_hash_fn t1 (key_of (le_k (lh_slots t ! n)))) + d') mod lh_size t1"
      "unused_slot (lh_slots t1) n'"
      "\<forall>d'' < d'. \<not> unused_slot (lh_slots t1)
         ((unat (lh_hash_fn t1 (key_of (le_k (lh_slots t ! n)))) + d'') mod lh_size t1)"
  shows "never_freed t2"
proof -
  let ?xs = "ys @ n # zs" and ?h = "unat (lh_hash_fn t (key_of (le_k (lh_slots t ! n))))"
  have dist: "n \<notin> set (ys @ zs)" using inv by (simp add: lh_inv_def linked_def)
  note used = used_slots [OF inv] used_slots [OF del(1), unfolded del(2)] used_slots [OF ins(1), unfolded ins(2) del(2)]
  have pos: "0 < lh_size t" using inv by (simp add: lh_inv_def)
  obtain d where d: "n = (?h + d) mod lh_size t" "\<forall>d'' < d. (?h + d'') mod lh_size t \<in> set ?xs - {n}"
    by (rule way_to_entry [OF inv fresh, of n]) simp
  have n: "n < lh_size t" using d(1) mod_less_divisor [OF pos] by metis
  have "\<not> d < d'"
    using ins(6) d(1) del(2,3) used(2) [OF n] dist by auto
  moreover have "\<not> d' < d"
  proof
    assume "d' < d"
    then have "n' \<in> set (ys @ zs)" using d(2) ins(4) del(2,3) by auto
    moreover have "n' < lh_size t" using ins(4) del(2) pos by simp
    ultimately show False using ins(5) used(2) by blast
  qed
  ultimately have "n' = n" using ins(4) d(1) del(2,3) by (metis linorder_neqE_nat)
  have "le_k (lh_slots t2 ! i) \<noteq> LH_FREED" if i: "i < lh_size t" for i
  proof
    assume freed: "le_k (lh_slots t2 ! i) = LH_FREED"
    then have "le_k (lh_slots t1 ! i) = LH_FREED" using ins(3) del(2) i by simp
    moreover have "le_k (lh_slots t1 ! i) = LH_EMPTY \<longleftrightarrow> le_k (lh_slots t ! i) = LH_EMPTY" using del(4) i by blast
    ultimately have "le_k (lh_slots t ! i) \<noteq> LH_EMPTY" by simp
    then have "i \<in> set ?xs" using used(1) [OF i] fresh i by (simp add: unused_slot_def never_freed_def)
    moreover have "i \<notin> set (ys @ zs @ [n'])" using used(3) [OF i] freed by (simp add: unused_slot_def)
    ultimately show False using \<open>n' = n\<close> by auto
  qed
  then show ?thesis using ins(2) del(2) by (simp add: never_freed_def)
qed

text \<open>
  Deleting a key and inserting it again never leaves a freed slot behind, so the table keeps
  an empty slot, however often this is done.
\<close>

lemma replace_never_freed:
  assumes rep: "lh_rep t al" and fresh: "never_freed t" and room: "3 \<le> lh_size t" "length al < lh_size t"
  obtains t1 r t2 where "lh_table_delete t k = Some (Inr (t1, r))" "lh_table_insert t1 k v = Some (Inr t2)"
    "lh_rep t2 (filter (\<lambda>p. fst p \<noteq> k) al @ [(k, v)])" "never_freed t2" "3 \<le> lh_size t2"
    "length (filter (\<lambda>p. fst p \<noteq> k) al @ [(k, v)]) < lh_size t2"
proof -
  let ?al = "filter (\<lambda>p. fst p \<noteq> k) al"
  have empty: "has_empty t" by (rule empty_slot_exists [OF rep fresh room(2)])
  obtain xs where xs: "lh_inv t xs" "al = lh_pairs (lh_slots t) xs" using rep by (auto simp: lh_rep_def)
  let ?t = "t\<lparr>lh_lookups := lh_lookups t + 1\<rparr>"
  have inv: "lh_inv ?t xs" using xs(1) by (simp add: lh_inv_def linked_def)
  have k: "k \<notin> fst ` set ?al" by auto
  show thesis
  proof (cases "k \<in> fst ` set al")
    case False
    have "fresh_key t xs k" using False xs(2) by (simp add: fresh_key_pairs)
    then have "lh_table_delete t k = Some (Inr (?t, - 1))"
      using probe_absent [OF xs(1)] empty by (simp add: lh_table_delete_def lh_table_lookup_entry_def)
    moreover have al: "?al = al" using False by (auto simp: filter_id_conv)
    moreover have rep': "lh_rep ?t al" by (rule lh_rep_cong [OF rep]) simp_all
    moreover have "never_freed ?t" "3 \<le> lh_size ?t" "length al \<le> lh_size ?t"
      using room fresh by (simp_all add: never_freed_def)
    moreover from calculation(4-6) obtain t2 where "lh_table_insert ?t k v = Some (Inr t2)"
      "lh_rep t2 (al @ [(k, v)])" "lh_size ?t \<le> lh_size t2" "never_freed t2" "length (al @ [(k, v)]) < lh_size t2"
      using lh_insert_depth [OF rep' False, of 0 v] unfolding lh_table_insert_def numeral_2_eq_2 by metis
    ultimately show thesis using room(1) by (intro that [of ?t "- 1" t2]) simp_all
  next
    case True
    then obtain n where n: "n \<in> set xs" "key_of (le_k (lh_slots t ! n)) = k"
      using xs(2) by (auto simp: lh_pairs_def entry_pair_def)
    obtain ys zs where split: "xs = ys @ n # zs" using split_list [OF n(1)] by blast
    obtain t1 where t1: "lh_table_delete_entry ?t n = Inr (t1, 0)" "lh_inv t1 (ys @ zs)"
      "lh_pairs (lh_slots t1) (ys @ zs) = lh_pairs (lh_slots ?t) (ys @ zs)" "lh_size t1 = lh_size ?t"
      "lh_hash_fn t1 = lh_hash_fn ?t"
      "\<forall>i < lh_size ?t. le_k (lh_slots t1 ! i) = LH_EMPTY \<longleftrightarrow> le_k (lh_slots ?t ! i) = LH_EMPTY"
      by (rule delete_entry_inv [OF inv [unfolded split]])
    have del: "lh_table_delete t k = Some (Inr (t1, 0))"
      using probe_present [OF xs(1) n] t1(1) by (simp add: lh_table_delete_def lh_table_lookup_entry_def)
    obtain t1' r where "lh_table_delete t k = Some (Inr (t1', r))" "lh_rep t1' ?al"
      using lh.delete_law [OF rep empty, of k] by blast
    then have rep1: "lh_rep t1 ?al" using del by simp
    have less: "length ?al < length al"
      using True by (auto simp: image_iff intro!: length_filter_less)
    then have small: "length ?al \<le> lh_size t1" using room(2) t1(4) by simp
    obtain t2 where t2: "lh_table_insert t1 k v = Some (Inr t2)" "lh_rep t2 (?al @ [(k, v)])"
      "lh_size t1 \<le> lh_size t2" "length (?al @ [(k, v)]) < lh_size t2"
      using lh_insert_depth [OF rep1 k small, of 0 v] room(1) t1(4)
      unfolding lh_table_insert_def numeral_2_eq_2 by auto
    have "never_freed t2"
    proof (cases "lh_overfull (t1\<lparr>lh_inserts := lh_inserts t1 + 1\<rparr>)")
      case over: True
      let ?t1 = "t1\<lparr>lh_inserts := lh_inserts t1 + 1\<rparr>"
      have rep1': "lh_rep ?t1 ?al" by (rule lh_rep_cong [OF rep1]) simp_all
      obtain t3 where t3: "lh_table_resize (lh_insert_within (Suc 0)) ?t1 (lh_size ?t1 * 2) = Some (Inr t3)"
        "lh_rep t3 ?al" "lh_size t3 = lh_size ?t1 * 2" "never_freed t3"
        using lh_resize_rep [OF rep1', of 0] small by auto
      have room3: "length ?al < lh_size t3" using t3(3) small room(1) t1(4) by simp
      obtain t4 where t4: "lh_place t3 k v = Some (Inr t4)" "never_freed t4"
        using lh_place_rep [OF t3(2) room3 k, of v] t3(4) by blast
      have "lh_table_insert t1 k v = lh_place t3 k v"
        using over t3(1) by (simp add: lh_table_insert_def numeral_2_eq_2 lh_insert_within.simps(2) Let_def)
      then show ?thesis using t4 t2(1) by simp
    next
      case False
      let ?t1 = "t1\<lparr>lh_inserts := lh_inserts t1 + 1\<rparr>"
      have inv1: "lh_inv ?t1 (ys @ zs)" using t1(2) by (simp add: lh_inv_def linked_def)
      have cnt: "lh_count ?t1 < lh_size ?t1"
        using lh_rep_count [OF rep1] less room(2) t1(4) by simp
      have "fresh_key ?t1 (ys @ zs) k"
        using lh_rep_distinct [OF rep] xs(2) split n(2) t1(3)
        by (auto simp: fresh_key_pairs lh_pairs_def entry_pair_def)
      from lh_place_inv [OF inv1 cnt this, of v]
      obtain t4 n' where t4: "lh_place ?t1 k v = Some (Inr t4)" "lh_inv t4 ((ys @ zs) @ [n'])"
        "lh_size t4 = lh_size ?t1"
        "\<forall>i < lh_size ?t1. le_k (lh_slots t4 ! i) = LH_FREED \<longrightarrow> le_k (lh_slots ?t1 ! i) = LH_FREED"
        "\<exists>d. n' = (unat (lh_hash_fn ?t1 k) + d) mod lh_size ?t1 \<and> unused_slot (lh_slots ?t1) n' \<and>
           (\<forall>d' < d. \<not> unused_slot (lh_slots ?t1) ((unat (lh_hash_fn ?t1 k) + d') mod lh_size ?t1))"
        by metis
      then obtain d' where d': "n' = (unat (lh_hash_fn t1 k) + d') mod lh_size t1" "unused_slot (lh_slots t1) n'"
        "\<forall>d'' < d'. \<not> unused_slot (lh_slots t1) ((unat (lh_hash_fn t1 k) + d'') mod lh_size t1)"
        by auto
      have "never_freed t4"
        by (rule refill_freed [OF xs(1) [unfolded split] fresh t1(2), of t4 n' d'])
          (use t1(4-6) t4(2-4) d' n(2) in simp_all)
      moreover have "lh_table_insert t1 k v = lh_place ?t1 k v"
        using lh_insert_no_resize [of t1 "Suc 0" k v] False
        by (simp add: lh_table_insert_def numeral_2_eq_2 lh_overfull_def)
      ultimately show ?thesis using t4(1) t2(1) by simp
    qed
    then show thesis using del t2 t1(4) room(1) by (intro that [of t1 0 t2]) simp_all
  qed
qed

lemma lh_insert_here:
  assumes "\<not> lh_overfull t" "lh_start t k = n" "unused_slot (lh_slots t) n" "lh_head t = None"
  shows "lh_table_insert t k v = Some (Inr (t\<lparr>lh_inserts := lh_inserts t + 1, lh_count := lh_count t + 1,
    lh_slots := (lh_slots t)[n := \<lparr>le_k = LH_KEY k, le_v = Some v, le_next = None, le_prev = None\<rparr>],
    lh_head := Some n, lh_tail := Some n\<rparr>))"
proof -
  have "lh_find_unused (lh_slots t) (lh_collisions t) n = Some (n, lh_collisions t)"
    using assms(3) by (subst lh_find_unused.simps) (simp add: unused_slot_def)
  moreover have "lh_start (t\<lparr>lh_inserts := lh_inserts t + 1\<rparr>) k = n" using assms(2) by (simp add: lh_start_def)
  ultimately show ?thesis
    using assms(1,4) unfolding lh_table_insert_def numeral_2_eq_2
    by (simp add: lh_insert_no_resize lh_place_def lh_link_last_def) (cases "lh_slots t ! n"; simp)
qed

lemma lh_delete_here:
  assumes "lh_start t k = n" "n < length (lh_slots t)" "lh_equal_fn t k k" "lh_head t = Some n" "lh_tail t = Some n"
    and "lh_slots t ! n = \<lparr>le_k = LH_KEY k, le_v = Some v, le_next = None, le_prev = None\<rparr>"
  shows "lh_table_delete t k = Some (Inr (t\<lparr>lh_lookups := lh_lookups t + 1, lh_count := lh_count t - 1,
    lh_released := (if lh_free_fn t then lh_released t @ [(k, Some v)] else lh_released t),
    lh_slots := (lh_slots t)[n := \<lparr>le_k = LH_FREED, le_v = None, le_next = None, le_prev = None\<rparr>],
    lh_head := None, lh_tail := None\<rparr>, 0))"
proof -
  have "lh_probe (lh_equal_fn t) (lh_slots t) k n = Some (Some n)"
    using assms(3,6) by (subst lh_probe.simps) simp
  then show ?thesis
    using assms by (simp add: lh_table_delete_def lh_table_lookup_entry_def lh_table_delete_entry_def
        lh_unlink_def Let_def)
qed



end
