(* ===== verification/Array_List.thy ===== *)
theory Array_List
  imports C_Library
begin

text \<open>
  \<open>mod/applications/mod_http/arraylist.c\<close>: an array of pointers that grows.  A null pointer is
  \<open>None\<close>; \<open>ar_released\<close> lists what was passed to \<open>free_fn\<close>.  Indices are \<open>int\<close>; that a size does
  not exceed \<open>INT_MAX\<close> is a limit of the memory, not of the model.
\<close>

record 'a array_list =
  ar_array :: "'a option list"
  ar_length :: int
  ar_size :: int
  ar_released :: "'a list"

definition ARRAY_LIST_DEFAULT_SIZE :: int where "ARRAY_LIST_DEFAULT_SIZE = 32"

definition array_list_new :: "bool \<Rightarrow> bool \<Rightarrow> 'a array_list option" where
  "array_list_new calloc_this calloc_array =
     (if \<not> calloc_this then None
      else if \<not> calloc_array then None
      else Some \<lparr>ar_array = replicate (nat ARRAY_LIST_DEFAULT_SIZE) None, ar_length = 0,
                 ar_size = ARRAY_LIST_DEFAULT_SIZE, ar_released = []\<rparr>)"

definition array_read :: "'a array_list \<Rightarrow> int \<Rightarrow> crash + 'a option" where
  "array_read a i =
     (if 0 \<le> i \<and> i < int (length (ar_array a)) then Inr (ar_array a ! nat i) else Inl Out_Of_Bounds)"

text \<open>\<open>array_list_free\<close>: what is passed to \<open>free_fn\<close>.\<close>

definition array_list_free :: "'a array_list \<Rightarrow> 'a list" where
  "array_list_free a = List.map_filter id (take (nat (ar_length a)) (ar_array a))"

definition array_list_get_idx :: "'a array_list \<Rightarrow> int \<Rightarrow> crash + 'a option" where
  "array_list_get_idx a i = (if i \<ge> ar_length a then Inr None else array_read a i)"

definition array_list_expand_internal :: "bool \<Rightarrow> 'a array_list \<Rightarrow> int \<Rightarrow> 'a array_list \<times> int" where
  "array_list_expand_internal realloc_ok a max1 =
     (if max1 < ar_size a then (a, 0)
      else let new_size = max (ar_size a * 2) max1
           in if \<not> realloc_ok then (a, - 1)
              else (a\<lparr>ar_array := ar_array a @ replicate (nat (new_size - ar_size a)) None,
                      ar_size := new_size\<rparr>, 0))"

definition array_list_put_idx :: "bool \<Rightarrow> 'a array_list \<Rightarrow> int \<Rightarrow> 'a option \<Rightarrow> crash + 'a array_list \<times> int" where
  "array_list_put_idx realloc_ok a idx data =
     (let (a1, ret) = array_list_expand_internal realloc_ok a idx
      in if ret \<noteq> 0 then Inr (a1, - 1)
         else case array_read a1 idx of
                Inl e \<Rightarrow> Inl e
              | Inr old \<Rightarrow>
                  Inr (a1\<lparr>ar_released := (case old of None \<Rightarrow> ar_released a1 | Some p \<Rightarrow> ar_released a1 @ [p]),
                          ar_array := (ar_array a1)[nat idx := data],
                          ar_length := (if ar_length a1 \<le> idx then idx + 1 else ar_length a1)\<rparr>, 0))"

definition array_list_add :: "bool \<Rightarrow> 'a array_list \<Rightarrow> 'a option \<Rightarrow> crash + 'a array_list \<times> int" where
  "array_list_add realloc_ok a data = array_list_put_idx realloc_ok a (ar_length a) data"

definition array_list_length :: "'a array_list \<Rightarrow> int" where
  "array_list_length a = ar_length a"

subsection \<open>The list an array represents\<close>

definition array_rep :: "'a array_list \<Rightarrow> 'a option list \<Rightarrow> bool" where
  "array_rep a xs \<longleftrightarrow> 0 < ar_size a \<and> int (length (ar_array a)) = ar_size a \<and>
     ar_length a = int (length xs) \<and> length xs \<le> length (ar_array a) \<and> take (length xs) (ar_array a) = xs \<and>
     (\<forall>y \<in> set (drop (length xs) (ar_array a)). y = None)"

lemma array_rep_new: "array_list_new True True = Some a \<Longrightarrow> array_rep a []"
  by (auto simp: array_list_new_def array_rep_def ARRAY_LIST_DEFAULT_SIZE_def)

lemma array_rep_expand:
  assumes "array_rep a xs" "max1 \<le> 2 * ar_size a - 1"
  shows "\<exists>a'. array_list_expand_internal True a max1 = (a', 0) \<and> array_rep a' xs \<and>
    max1 < ar_size a' \<and> ar_released a' = ar_released a \<and> ar_length a' = ar_length a"
  using assms by (auto simp: array_list_expand_internal_def array_rep_def Let_def max_def)

lemma array_put_rep:
  assumes rep: "array_rep a xs" and idx: "0 \<le> idx" "idx \<le> ar_length a"
  shows "\<exists>a'. array_list_put_idx True a idx d = Inr (a', 0) \<and>
    array_rep a' (if idx < ar_length a then xs[nat idx := d] else xs @ [d]) \<and>
    ar_released a' = ar_released a @
      (if idx < ar_length a then (case xs ! nat idx of None \<Rightarrow> [] | Some p \<Rightarrow> [p]) else [])"
proof -
  have len: "ar_length a = int (length xs)" "ar_length a \<le> ar_size a" "0 < ar_size a"
    using rep by (simp_all add: array_rep_def)
  then obtain a1 where a1: "array_list_expand_internal True a idx = (a1, 0)" "array_rep a1 xs"
    "idx < ar_size a1" "ar_released a1 = ar_released a" "ar_length a1 = ar_length a"
    using array_rep_expand [OF rep, of idx] idx by auto
  let ?arr = "ar_array a1"
  have arr: "nat idx < length ?arr" "length xs \<le> length ?arr" "take (length xs) ?arr = xs"
    "\<forall>y \<in> set (drop (length xs) ?arr). y = None"
    using a1(2,3) idx(1) by (auto simp: array_rep_def)
  have read: "array_read a1 idx = Inr (?arr ! nat idx)" using arr(1) idx(1) by (simp add: array_read_def)
  show ?thesis
  proof (cases "idx < ar_length a")
    case True
    then have i: "nat idx < length xs" using len(1) idx(1) by simp
    have "?arr ! nat idx = xs ! nat idx" using arr(3) i by (metis nth_take)
    moreover have "take (length xs) (?arr[nat idx := d]) = xs[nat idx := d]"
      using arr(3) by (simp add: take_update_swap)
    moreover have "drop (length xs) (?arr[nat idx := d]) = drop (length xs) ?arr" using i by simp
    ultimately show ?thesis
      using True a1 read arr by (auto simp: array_list_put_idx_def array_rep_def split: option.split)
  next
    case False
    then have i: "nat idx = length xs" using len(1) idx by simp
    then have old: "?arr ! nat idx = None" using arr(1,4) by (metis Cons_nth_drop_Suc list.set_intros(1))
    have "take (Suc (length xs)) (?arr[length xs := d]) = xs @ [d]"
      using arr(1,3) i by (simp add: take_list_update_Suc)
    moreover have "\<forall>y \<in> set (drop (Suc (length xs)) (?arr[length xs := d])). y = None"
      using arr(4) set_drop_subset_set_drop [of "length xs" "Suc (length xs)" ?arr]
      by (auto simp: drop_list_update_Suc)
    ultimately show ?thesis
      using False a1 read arr i old len(1) idx by (auto simp: array_list_put_idx_def array_rep_def)
  qed
qed

fun array_list_add_all :: "'a array_list \<Rightarrow> 'a option list \<Rightarrow> crash + 'a array_list \<times> int" where
  "array_list_add_all a [] = Inr (a, 0)"
| "array_list_add_all a (d # ds) =
     (case array_list_add True a d of Inl e \<Rightarrow> Inl e | Inr (a', r) \<Rightarrow> array_list_add_all a' ds)"

lemma array_add_all_rep:
  "array_rep a xs \<Longrightarrow> \<exists>a'. array_list_add_all a ds = Inr (a', 0) \<and> array_rep a' (xs @ ds) \<and>
     ar_released a' = ar_released a"
proof (induction ds arbitrary: a xs)
  case (Cons d ds)
  have "0 \<le> ar_length a" using Cons.prems by (simp add: array_rep_def)
  then obtain a' where a': "array_list_add True a d = Inr (a', 0)" "array_rep a' (xs @ [d])"
    "ar_released a' = ar_released a"
    using array_put_rep [OF Cons.prems, of "ar_length a" d] by (auto simp: array_list_add_def)
  from Cons.IH [OF a'(2)] a' show ?case by simp
qed simp

text \<open>
Whatever is added to a new array, one element after the other, it holds exactly these
  elements in order, however often it grows: reading an index gives the element added there, an
  index behind them gives a null pointer, nothing is passed to \<open>free_fn\<close> before the array is freed,
  and then every element that is not null is.
\<close>

theorem array_list_refines_list:
  assumes "array_list_new True True = Some a"
  shows "\<exists>a'. array_list_add_all a ds = Inr (a', 0) \<and> array_list_length a' = int (length ds) \<and>
    (\<forall>i. array_list_get_idx a' (int i) = Inr (if i < length ds then ds ! i else None)) \<and>
    ar_released a' = [] \<and> array_list_free a' = List.map_filter id ds"
proof -
  have "ar_released a = []" using assms by (auto simp: array_list_new_def)
  with array_add_all_rep [OF array_rep_new [OF assms], of ds]
  obtain a' where a': "array_list_add_all a ds = Inr (a', 0)" "array_rep a' ds" "ar_released a' = []"
    by auto
  then have rep: "ar_length a' = int (length ds)" "length ds \<le> length (ar_array a')"
    "take (length ds) (ar_array a') = ds"
    by (simp_all add: array_rep_def)
  then have "ar_array a' ! i = ds ! i" if "i < length ds" for i using that by (metis nth_take)
  then show ?thesis
    using a' rep by (auto simp: array_list_length_def array_list_get_idx_def array_read_def array_list_free_def)
qed

lemma array_list_refines_list_witness:
  "\<exists>a'. array_list_add_all (the (array_list_new True True)) [Some (1::nat), None, Some 3] = Inr (a', 0) \<and>
     array_list_get_idx a' 2 = Inr (Some 3) \<and> array_list_free a' = [1, 3]"
proof -
  have new: "array_list_new True True = Some (the (array_list_new True True) :: nat array_list)"
    by (simp add: array_list_new_def)
  obtain a' where "array_list_add_all (the (array_list_new True True)) [Some (1::nat), None, Some 3] = Inr (a', 0)"
    "\<forall>i. array_list_get_idx a' (int i) = Inr (if i < length [Some (1::nat), None, Some 3]
       then [Some (1::nat), None, Some 3] ! i else None)"
    "array_list_free a' = List.map_filter id [Some (1::nat), None, Some 3]"
    using array_list_refines_list [OF new, of "[Some 1, None, Some 3]"] by blast
  moreover from this(2) have "array_list_get_idx a' 2 = Inr (Some 3)"
    by (auto dest: spec [of _ 2])
  ultimately show ?thesis by (auto simp: List.map_filter_def)
qed

text \<open>
Storing at an index of twice the size or more that the array has is a write behind its end, by
  one element: the array grows to \<open>idx\<close> elements, one too few for the index \<open>idx\<close>.
\<close>

theorem put_far_behind_overruns:
  assumes "array_rep a xs" "2 * ar_size a \<le> idx"
  shows "array_list_put_idx True a idx d = Inl Out_Of_Bounds"
  using assms by (auto simp: array_list_put_idx_def array_list_expand_internal_def array_read_def array_rep_def
      Let_def max_def)

lemma put_far_behind_overruns_witness:
  "array_list_put_idx True (the (array_list_new True True)) 64 (Some (1::nat)) = Inl Out_Of_Bounds"
  by (rule put_far_behind_overruns [of _ "[]"])
    (auto simp: array_rep_def array_list_new_def ARRAY_LIST_DEFAULT_SIZE_def)

end
