(* ===== verification/C_Format.thy ===== *)
theory C_Format
  imports C_Float
begin

text \<open>
  Printing an \<open>int\<close> with the conversion \<open>%d\<close>, and that \<open>atoi\<close> reads it back.
\<close>

definition c_int_text :: "int \<Rightarrow> string" where
  "c_int_text i = (if i < 0 then CHR ''-'' # dec_digits (nat (- i)) else dec_digits (nat i))"

lemma digit_of_nth:
  assumes "d < 10"
  shows "c_isdigit (''0123456789'' ! d) \<and> nat (digit_index (''0123456789'' ! d)) = d"
proof -
  from assms have "d \<in> {0, 1, 2, 3, 4, 5, 6, 7, 8, 9}" by auto
  then show ?thesis by (auto simp: c_isdigit_def digit_index_def char_int_def)
qed

lemma dec_digits_are_digits: "c \<in> set (dec_digits n) \<Longrightarrow> c_isdigit c"
proof (induction n rule: dec_digits.induct)
  case (1 n)
  show ?case
  proof (cases "n < 10")
    case True
    with 1(2) digit_of_nth [of n] show ?thesis by (simp add: dec_digits.simps [of n])
  next
    case False
    with 1 digit_of_nth [of "n mod 10"] show ?thesis by (auto simp: dec_digits.simps [of n])
  qed
qed

lemma dec_digits_not_Nil [simp]: "dec_digits n \<noteq> []"
  by (subst dec_digits.simps) simp

lemma digits_value_snoc: "digits_value (ds @ [c]) = 10 * digits_value ds + nat (digit_index c)"
  by (simp add: digits_value_def)

lemma digits_value_dec_digits: "digits_value (dec_digits n) = n"
proof (induction n rule: dec_digits.induct)
  case (1 n)
  show ?case
  proof (cases "n < 10")
    case True
    with digit_of_nth [of n] show ?thesis by (simp add: dec_digits.simps [of n] digits_value_def)
  next
    case False
    with 1 digit_of_nth [of "n mod 10"] show ?thesis
      by (simp add: dec_digits.simps [of n] digits_value_snoc)
  qed
qed

lemma dec_digits_length_le: "0 < k \<Longrightarrow> n < 10 ^ k \<Longrightarrow> length (dec_digits n) \<le> k"
proof (induction n arbitrary: k rule: dec_digits.induct)
  case (1 n)
  show ?case
  proof (cases "n < 10")
    case True
    with 1(2) show ?thesis by (simp add: dec_digits.simps [of n])
  next
    case False
    then have "k \<noteq> 1" using 1(3) by auto
    then have "0 < k - 1" and k: "k = Suc (k - 1)" using 1(2) by simp_all
    moreover have "n div 10 < 10 ^ (k - 1)"
      using 1(3) by (subst (asm) k) (simp add: less_mult_imp_div_less mult.commute)
    ultimately have "length (dec_digits (n div 10)) \<le> k - 1" using 1(1) False by simp
    with False k show ?thesis by (simp add: dec_digits.simps [of n])
  qed
qed

lemma strtol_digits:
  assumes "ds \<noteq> []" "list_all c_isdigit ds" "rest = [] \<or> \<not> c_isdigit (hd rest)" "digits_value ds < 2 ^ 63"
  shows "c_strtol (ds @ rest) = int (digits_value ds)"
proof -
  obtain c cs where ds: "ds = c # cs" using assms(1) by (cases ds) auto
  then have c: "c_isdigit c" using assms(2) by simp
  then have "\<not> c_isspace c" "c \<noteq> CHR ''-''" "c \<noteq> CHR ''+''"
    by (auto simp: c_isdigit_def c_isspace_def char_int_def)
  moreover have "takeWhile c_isdigit (ds @ rest) = ds"
    using assms(2,3) by (cases rest) (auto simp: list_all_iff takeWhile_append)
  ultimately show ?thesis using assms(4) ds c by (simp add: c_strtol_def)
qed

lemma atoi_digits:
  assumes "ds \<noteq> []" "list_all c_isdigit ds" "rest = [] \<or> \<not> c_isdigit (hd rest)" "digits_value ds < 2 ^ 31"
  shows "c_atoi (ds @ rest) = int (digits_value ds)"
proof -
  have "c_strtol (ds @ rest) = int (digits_value ds)"
    by (rule strtol_digits) (use assms in auto)
  moreover have "sint (word_of_int (int (digits_value ds)) :: 32 word) = int (digits_value ds)"
    using assms(4) by (simp only: sint_sbintrunc') (simp add: signed_take_bit_int_eq_self)
  ultimately show ?thesis by (simp only: c_atoi_def)
qed

lemma atoi_dec_digits: "n < 2 ^ 31 \<Longrightarrow> c_atoi (dec_digits n) = int n"
  using atoi_digits [of "dec_digits n" "[]"]
  by (simp add: digits_value_dec_digits list_all_iff dec_digits_are_digits)

end
