(* ===== verification/Http_Request.thy ===== *)
theory Http_Request
  imports Http_Response C_Format
begin

text \<open>
  The request side of \<open>mod/applications/mod_http/http_req.c\<close>: taking the URL apart, the text of
  the request, \<open>read_all\<close> and \<open>http_req\<close> itself.  What the network and the memory do is the record
  \<open>http_net\<close>, an argument of the definitions; what a call leaves behind is \<open>http_effects\<close>.
\<close>

text \<open>A method variable that was never set holds \<open>Other_Method\<close>.\<close>

datatype http_method = GET | HEAD | POST | DELETE | PUT | Other_Method

record http_request =
  req_method :: http_method
  req_version :: string
  req_url :: string
  req_headers :: "http_header list"
  req_body :: "string option"
  req_body_len :: nat

definition DEFAULT_HTTP_PORT :: uint16_t where "DEFAULT_HTTP_PORT = 80"
definition DEFAULT_HTTP_VERSION :: string where "DEFAULT_HTTP_VERSION = ''1.1''"
definition MAX_PORT_LEN :: nat where "MAX_PORT_LEN = 6"
definition RECV_BUFF_SIZE :: nat where "RECV_BUFF_SIZE = 65536"

fun method_name :: "http_method \<Rightarrow> string" where
  "method_name GET = ''GET''"
| "method_name HEAD = ''HEAD''"
| "method_name POST = ''POST''"
| "method_name DELETE = ''DELETE''"
| "method_name PUT = ''PUT''"
| "method_name Other_Method = ''GET''"

subsection \<open>The URL\<close>

definition url_host :: "string \<Rightarrow> nat \<Rightarrow> string" where
  "url_host url j = take (j - length ''http://'') (drop (length ''http://'') url)"

definition url_port :: "string \<Rightarrow> nat \<Rightarrow> nat \<Rightarrow> uint16_t" where
  "url_port url p j =
     (if j - p < MAX_PORT_LEN then word_of_int (c_atoi (take (j - p) (drop (p + 1) url))) else 0)"

text \<open>
  The loop: the host name found so far, whether a colon was seen (\<open>f\<close>) and where (\<open>p\<close>).  The
  result is the host name, the port and the index \<open>q\<close> where the path starts.
\<close>

function url_loop :: "string \<Rightarrow> string \<Rightarrow> bool \<Rightarrow> nat \<Rightarrow> nat \<Rightarrow> string \<times> uint16_t \<times> nat" where
  "url_loop url hostname f p j =
     (if j < length url + 1
      then if c_at url j = CHR '':'' then url_loop url (url_host url j) True j (j + 1)
           else if (c_at url j = CHR ''/'' \<or> c_at url j = NUL) \<and> f then (hostname, url_port url p j, j)
           else if (c_at url j = CHR ''/'' \<or> c_at url j = NUL) \<and> \<not> f
                then (url_host url j, DEFAULT_HTTP_PORT, j)
           else url_loop url hostname f p (j + 1)
      else (hostname, 0, 0))"
  by pat_completeness auto
termination
  by (relation "measure (\<lambda>(url, _, _, _, j). length url + 1 - j)") auto

declare url_loop.simps [simp del]

text \<open>The host is cut at a slash; \<open>None\<close> is the message \<open>Invalid URL\<close>.\<close>

definition parse_url :: "string \<Rightarrow> (string \<times> uint16_t \<times> nat) option" where
  "parse_url url =
     (let (hostname, port, q) = url_loop url [] False 0 (length ''http://'')
      in if port = 0 \<or> hostname = [] then None
         else Some (takeWhile (\<lambda>c. c \<noteq> CHR ''/'') hostname, port, q))"

subsection \<open>The text of a request\<close>

definition request_header_line :: "http_header \<Rightarrow> string" where
  "request_header_line h = hdr_field_name h @ '': '' @ hdr_value h @ crlf"

definition request_head :: "http_request \<Rightarrow> string \<Rightarrow> uint16_t \<Rightarrow> nat \<Rightarrow> string" where
  "request_head req hostname port q =
     method_name (req_method req) @
     (if c_at (req_url req) q = CHR ''/'' then '' '' else '' /'') @ drop q (req_url req) @
     '' HTTP/'' @ req_version req @ crlf @
     (if port \<noteq> DEFAULT_HTTP_PORT then ''Host: '' @ hostname @ '':'' @ c_int_text (uint port) @ crlf
      else ''Host: '' @ hostname @ crlf) @
     ''Connection: close'' @ crlf @
     ''Content-Length: '' @ c_int_text (int (req_body_len req)) @ crlf @
     concat (map request_header_line (req_headers req)) @
     crlf"

subsection \<open>Reading the response\<close>

text \<open>
  What the peer sends, in the pieces a \<open>read\<close> gets; \<open>None\<close> is an error of \<open>read\<close>, an empty piece or
  the end of the list the end of the stream.  A \<open>read\<close> returns at most what it is asked for.
\<close>

function read_all_loop :: "string option list \<Rightarrow> string \<Rightarrow> nat \<Rightarrow> string option" where
  "read_all_loop pieces buf len1 =
     (if length buf < len1
      then (case pieces of
              [] \<Rightarrow> Some buf
            | None # _ \<Rightarrow> None
            | Some s # rest \<Rightarrow>
                (if s = [] then Some buf
                 else if length s \<le> len1 - length buf then read_all_loop rest (buf @ s) len1
                 else read_all_loop (Some (drop (len1 - length buf) s) # rest)
                        (buf @ take (len1 - length buf) s) len1))
      else Some buf)"
  by pat_completeness auto
termination
  by (relation "measure (\<lambda>(pieces, buf, len1). len1 - length buf)")
    (auto intro!: diff_less_mono2 simp flip: length_greater_0_conv)

declare read_all_loop.simps [simp del]

definition read_all :: "string option list \<Rightarrow> nat \<Rightarrow> string option" where
  "read_all pieces len1 = read_all_loop pieces [] len1"

subsection \<open>The request\<close>

record http_net =
  net_signal :: bool
  net_socket :: bool
  net_malloc :: "nat \<Rightarrow> bool"
  net_gethostbyname :: "string \<Rightarrow> uint32_t option"
  net_connect :: "uint32_t \<Rightarrow> uint16_t \<Rightarrow> bool"
  net_write :: bool
  net_pieces :: "string option list"
  net_heap :: string

text \<open>
  What a call leaves: whether the socket is open and \<open>SIGPIPE\<close> ignored, the blocks of memory not
  freed, the address connected to and the bytes sent.
\<close>

record http_effects =
  he_socket_open :: bool
  he_sigpipe_ignored :: bool
  he_blocks :: nat
  he_peer :: "(uint32_t \<times> uint16_t) option"
  he_sent :: string

definition no_effects :: http_effects where
  "no_effects = \<lparr>he_socket_open = False, he_sigpipe_ignored = False, he_blocks = 0, he_peer = None, he_sent = []\<rparr>"

text \<open>The end of the buffer is the NUL and whatever the memory held behind it.\<close>

definition received :: "http_net \<Rightarrow> string \<Rightarrow> string" where
  "received net data = data @ NUL # drop (length data + 1) (net_heap net)"

text \<open>The part behind the connection: the request is sent and the response read and parsed.\<close>

definition http_exchange ::
    "http_net \<Rightarrow> http_request \<Rightarrow> string \<Rightarrow> uint16_t \<Rightarrow> nat \<Rightarrow> http_effects
      \<Rightarrow> crash + http_response option \<times> http_effects" where
  "http_exchange net req hostname port q eff =
     (let eff1 = eff\<lparr>he_sent := he_sent eff @ request_head req hostname port q\<rparr>;
          send_body = (req_body req \<noteq> None \<and> req_body_len req \<noteq> 0);
          body = (case req_body req of None \<Rightarrow> [] | Some b \<Rightarrow> b)
      in if send_body \<and> length body < req_body_len req then Inl Out_Of_Bounds
         else if send_body \<and> \<not> net_write net
         then Inr (None, eff1\<lparr>he_blocks := he_blocks eff1 - 1\<rparr>)
         else let eff2 = (if send_body
                          then eff1\<lparr>he_sent := he_sent eff1 @ take (req_body_len req) body\<rparr> else eff1)
              in if \<not> net_malloc net RECV_BUFF_SIZE
                 then Inr (None, eff2\<lparr>he_socket_open := False, he_blocks := he_blocks eff2 - 1\<rparr>)
                 else let eff3 = eff2\<lparr>he_blocks := he_blocks eff2 + 1\<rparr>
                      in case read_all (net_pieces net) (RECV_BUFF_SIZE - 1) of
                           None \<Rightarrow> Inr (None, eff3\<lparr>he_blocks := he_blocks eff3 - 1\<rparr>)
                         | Some data \<Rightarrow>
                             (case http_parse_response (net_malloc net) (received net data) (length data) of
                                Inl e \<Rightarrow> Inl e
                              | Inr res \<Rightarrow>
                                  Inr (res, eff3\<lparr>he_socket_open := False, he_sigpipe_ignored := False,
                                                 he_blocks := he_blocks eff3 - 1\<rparr>)))"

definition http_req :: "http_net \<Rightarrow> http_request \<Rightarrow> crash + http_response option \<times> http_effects" where
  "http_req net req =
     (if \<not> net_signal net then Inr (None, no_effects)
      else let eff1 = no_effects\<lparr>he_sigpipe_ignored := True\<rparr>
           in if \<not> net_socket net then Inr (None, eff1)
              else if \<not> net_malloc net (length (req_url req) + 1) then Inr (None, eff1)
              else case parse_url (req_url req) of
                     None \<Rightarrow> Inr (None, eff1)
                   | Some (hostname, port, q) \<Rightarrow>
                       (case net_gethostbyname net hostname of
                          None \<Rightarrow> Inr (None, eff1)
                        | Some addr \<Rightarrow>
                            (if \<not> net_connect net addr port then Inr (None, eff1)
                             else http_exchange net req hostname port q
                                    (eff1\<lparr>he_socket_open := True, he_blocks := 1,
                                          he_peer := Some (addr, port)\<rparr>))))"

subsection \<open>What a URL is taken apart into\<close>

definition url_plain :: "string \<Rightarrow> bool" where
  "url_plain s = list_all (\<lambda>c. c \<noteq> CHR '':'' \<and> c \<noteq> CHR ''/'' \<and> c \<noteq> NUL) s"

lemma length_http: "length ''http://'' = 7"
  by simp

lemma parse_url_7:
  "parse_url url = (let (hostname, port, q) = url_loop url [] False 0 7
     in if port = 0 \<or> hostname = [] then None
        else Some (takeWhile (\<lambda>c. c \<noteq> CHR ''/'') hostname, port, q))"
  by (simp only: parse_url_def length_http)

lemma url_loop_skip:
  assumes "url_plain s" "url = pre @ s @ rest"
  shows "url_loop url h f p (length pre) = url_loop url h f p (length pre + length s)"
  using assms
proof (induction s arbitrary: pre)
  case (Cons c s)
  then have c: "c \<noteq> CHR '':''" "c \<noteq> CHR ''/''" "c \<noteq> NUL" and s: "url_plain s"
    by (simp_all add: url_plain_def)
  have at: "c_at url (length pre) = c" using Cons.prems(2) by (simp add: c_at_def nth_append)
  have "url_loop url h f p (length pre) = url_loop url h f p (length pre + 1)"
    using Cons.prems(2) at c by (subst url_loop.simps) simp
  also have "\<dots> = url_loop url h f p (length (pre @ [c]))" by simp
  also have "\<dots> = url_loop url h f p (length (pre @ [c]) + length s)"
    by (rule Cons.IH [OF s]) (simp add: Cons.prems(2))
  finally show ?case by simp
qed simp

definition path_start :: "string \<Rightarrow> bool" where
  "path_start path \<longleftrightarrow> path = [] \<or> hd path = CHR ''/''"

lemma c_at_path:
  "path_start path \<Longrightarrow> c_at (pre @ path) (length pre) = CHR ''/'' \<or> c_at (pre @ path) (length pre) = NUL"
  by (cases path) (auto simp: c_at_def path_start_def nth_append)

lemma c_at_path_no_colon:
  "path_start path \<Longrightarrow> c_at (pre @ path) (length pre) \<noteq> CHR '':''"
  by (cases path) (auto simp: c_at_def path_start_def nth_append NUL_def)

lemma plain_no_slash: "url_plain s \<Longrightarrow> takeWhile (\<lambda>c. c \<noteq> CHR ''/'') s = s"
  by (simp add: url_plain_def list_all_iff)

lemma dec_digits_plain: "url_plain (dec_digits n)"
proof -
  have "c \<noteq> CHR '':'' \<and> c \<noteq> CHR ''/'' \<and> c \<noteq> NUL" if "c \<in> set (dec_digits n)" for c
    using dec_digits_are_digits [OF that] by (auto simp: c_isdigit_def char_int_def NUL_def)
  then show ?thesis by (simp add: url_plain_def list_all_iff)
qed

lemma parse_url_no_port:
  assumes "length scheme = 7" "host \<noteq> []" "url_plain host" "path_start path"
  shows "parse_url (scheme @ host @ path) = Some (host, 80, 7 + length host)"
proof -
  let ?url = "scheme @ host @ path"
  have "url_loop ?url [] False 0 (length scheme) = url_loop ?url [] False 0 (length scheme + length host)"
    by (rule url_loop_skip [OF assms(3), of _ _ path]) simp
  also have "\<dots> = (url_host ?url (length scheme + length host), DEFAULT_HTTP_PORT, length scheme + length host)"
    using c_at_path [OF assms(4), of "scheme @ host"] c_at_path_no_colon [OF assms(4), of "scheme @ host"]
    by (subst url_loop.simps) auto
  finally show ?thesis
    using assms by (simp add: parse_url_7 url_host_def DEFAULT_HTTP_PORT_def plain_no_slash)
qed

lemma url_loop_port:
  assumes "length scheme = 7" "url_plain host" "url_plain digits1" "path_start path"
  shows "url_loop (scheme @ host @ '':'' @ digits1 @ path) [] False 0 7 =
    (host, url_port (scheme @ host @ '':'' @ digits1 @ path) (7 + length host) (8 + length host + length digits1),
     8 + length host + length digits1)"
proof -
  let ?url = "scheme @ host @ '':'' @ digits1 @ path" and ?p = "7 + length host" and ?q = "8 + length host + length digits1"
  have "url_loop ?url [] False 0 (length scheme) = url_loop ?url [] False 0 (length scheme + length host)"
    by (rule url_loop_skip [OF assms(2), of _ _ "'':'' @ digits1 @ path"]) simp
  also have "\<dots> = url_loop ?url (url_host ?url ?p) True ?p (?p + 1)"
    using assms(1) by (subst url_loop.simps) (simp add: c_at_def nth_append)
  also have "url_host ?url ?p = host" using assms(1) by (simp add: url_host_def)
  also have "url_loop ?url host True ?p (?p + 1) = url_loop ?url host True ?p (length (scheme @ host @ '':''))"
    using assms(1) by simp
  also have "\<dots> = url_loop ?url host True ?p (length (scheme @ host @ '':'') + length digits1)"
    by (rule url_loop_skip [OF assms(3), of _ _ path]) simp
  also have "length (scheme @ host @ '':'') + length digits1 = ?q" using assms(1) by simp
  also have "url_loop ?url host True ?p ?q = (host, url_port ?url ?p ?q, ?q)"
  proof -
    have "c_at ?url ?q = CHR ''/'' \<or> c_at ?url ?q = NUL" "c_at ?url ?q \<noteq> CHR '':''"
      using c_at_path [OF assms(4), of "scheme @ host @ '':'' @ digits1"] assms(1)
        c_at_path_no_colon [OF assms(4), of "scheme @ host @ '':'' @ digits1"]
      by (simp_all add: add.assoc)
    moreover have "?q < length ?url + 1" using assms(1) by simp
    ultimately show ?thesis by (subst url_loop.simps) presburger
  qed
  finally show ?thesis using assms(1) by simp
qed

lemma parse_url_port:
  assumes "length scheme = 7" "host \<noteq> []" "url_plain host" "path_start path" "0 < n" "n \<le> 9999"
  shows "parse_url (scheme @ host @ '':'' @ dec_digits n @ path) =
    Some (host, word_of_nat n, 8 + length host + length (dec_digits n))"
proof -
  let ?ds = "dec_digits n"
  let ?url = "scheme @ host @ '':'' @ ?ds @ path"
  have len: "length ?ds \<le> 4" using dec_digits_length_le [of 4 n] assms(6) by simp
  have "c_atoi (?ds @ take 1 path) = int (digits_value ?ds)"
  proof (rule atoi_digits)
    show "take 1 path = [] \<or> \<not> c_isdigit (hd (take 1 path))"
      using assms(4) by (cases path) (auto simp: path_start_def c_isdigit_def char_int_def)
  qed (use assms(6) in \<open>simp_all add: list_all_iff dec_digits_are_digits digits_value_dec_digits\<close>)
  then have "url_port ?url (7 + length host) (8 + length host + length ?ds) = word_of_nat n"
    using assms(1) len by (simp add: url_port_def MAX_PORT_LEN_def digits_value_dec_digits)
  moreover have "(word_of_nat n :: uint16_t) \<noteq> 0"
    using assms(5,6) by (simp add: word_of_nat_eq_0_iff nat_dvd_not_less)
  ultimately show ?thesis
    using url_loop_port [OF assms(1,3) dec_digits_plain assms(4), of n] assms(2)
    by (simp add: parse_url_7 plain_no_slash [OF assms(3)])
qed

text \<open>
A URL with a host and, behind a colon, a port from 1 to 9999 or none is taken apart into
  exactly these: the port is the number, or 80, and the index is where the path starts.
\<close>

theorem url_taken_apart:
  assumes "length scheme = 7" "host \<noteq> []" "url_plain host" "path_start path"
    and "case port of None \<Rightarrow> True | Some n \<Rightarrow> 0 < n \<and> n \<le> 9999"
  shows "\<exists>q. parse_url (scheme @ host @ (case port of None \<Rightarrow> [] | Some n \<Rightarrow> '':'' @ dec_digits n) @ path) =
      Some (host, (case port of None \<Rightarrow> 80 | Some n \<Rightarrow> word_of_nat n), q) \<and>
    drop q (scheme @ host @ (case port of None \<Rightarrow> [] | Some n \<Rightarrow> '':'' @ dec_digits n) @ path) = path"
  using assms parse_url_no_port [OF assms(1-4)] parse_url_port [OF assms(1-4)]
  by (cases port) auto

lemma url_taken_apart_witness:
  "\<exists>q. parse_url (''http://'' @ ''pbx'' @ ('':'' @ dec_digits 8080) @ ''/status'') = Some (''pbx'', word_of_nat 8080, q)"
  using url_taken_apart [of "''http://''" "''pbx''" "''/status''" "Some 8080"]
  by (auto simp: url_plain_def path_start_def NUL_def)

text \<open>
A port of five digits, which ports above 9999 are, is never accepted: the URL is invalid and
  nothing is sent, since the room for the text of a port is checked with the colon counted in.
\<close>

theorem five_digit_port_rejected:
  assumes "length scheme = 7" "url_plain host" "url_plain digits1" "5 \<le> length digits1" "path_start path"
    and "req_url req = scheme @ host @ '':'' @ digits1 @ path" "http_req net req = Inr (res, eff)"
  shows "res = None \<and> he_peer eff = None \<and> he_sent eff = []"
proof -
  have "parse_url (req_url req) = None"
    using url_loop_port [OF assms(1-3,5)] assms(1,4,6) by (simp add: parse_url_7 url_port_def MAX_PORT_LEN_def)
  then show ?thesis using assms(7) by (auto simp: http_req_def no_effects_def Let_def split: if_splits)
qed

text \<open>A network in which everything works; used by the witnesses.\<close>

definition good_net :: "string option list \<Rightarrow> http_net" where
  "good_net pieces = \<lparr>net_signal = True, net_socket = True, net_malloc = (\<lambda>_. True),
     net_gethostbyname = (\<lambda>_. Some 0x0A000001), net_connect = (\<lambda>_ _. True), net_write = True,
     net_pieces = pieces, net_heap = replicate RECV_BUFF_SIZE CHR ''?''\<rparr>"

definition plain_request :: "string \<Rightarrow> http_request" where
  "plain_request url = \<lparr>req_method = GET, req_version = DEFAULT_HTTP_VERSION, req_url = url, req_headers = [],
     req_body = None, req_body_len = 0\<rparr>"

lemma five_digit_port_rejected_witness:
  "\<exists>eff. http_req (good_net []) (plain_request ''http://pbx:10080/'') = Inr (None, eff) \<and> he_sent eff = []"
proof -
  obtain res eff where r: "http_req (good_net []) (plain_request ''http://pbx:10080/'') = Inr (res, eff)"
    by (simp add: http_req_def good_net_def plain_request_def parse_url_7 url_loop.simps c_at_def NUL_def
        url_port_def MAX_PORT_LEN_def)
  have "res = None \<and> he_peer eff = None \<and> he_sent eff = []"
    by (rule five_digit_port_rejected [of "''http://''" "''pbx''" "''10080''" "''/''" "plain_request ''http://pbx:10080/''"])
      (use r in \<open>simp_all add: url_plain_def path_start_def NUL_def plain_request_def\<close>)
  with r show ?thesis by auto
qed

subsection \<open>Sending and receiving\<close>

lemma read_all_pieces:
  assumes "list_all (\<lambda>s. s \<noteq> []) ps" "length buf \<le> len1"
  shows "read_all_loop (map Some ps) buf len1 = Some (take len1 (buf @ concat ps))"
  using assms
proof (induction ps arbitrary: buf)
  case Nil
  then show ?case by (subst read_all_loop.simps) simp
next
  case (Cons s ps)
  show ?case
  proof (cases "length s \<le> len1 - length buf")
    case True
    then have "read_all_loop (map Some ps) (buf @ s) len1 = Some (take len1 (buf @ s @ concat ps))"
      using Cons.IH [of "buf @ s"] Cons.prems by (cases "length buf < len1") auto
    then show ?thesis using Cons.prems True by (subst read_all_loop.simps) auto
  next
    case False
    have full: "read_all_loop rest b len1 = Some b" if "\<not> length b < len1" for rest b
      using that by (subst read_all_loop.simps) simp
    show ?thesis
      using Cons.prems False full by (subst read_all_loop.simps) (auto simp: full)
  qed
qed

lemma read_all_fails:
  assumes "list_all (\<lambda>s. s \<noteq> []) ps" "length buf + length (concat ps) < len1"
  shows "read_all_loop (map Some ps @ None # rest) buf len1 = None"
  using assms
proof (induction ps arbitrary: buf)
  case Nil
  then show ?case by (subst read_all_loop.simps) simp
next
  case (Cons s ps)
  have "length s \<le> len1 - length buf" using Cons.prems(2) by simp
  then show ?case using Cons by (subst read_all_loop.simps) simp
qed

text \<open>The network lets the request through to the host of the URL.\<close>

definition reaches :: "http_net \<Rightarrow> http_request \<Rightarrow> string \<Rightarrow> uint16_t \<Rightarrow> nat \<Rightarrow> uint32_t \<Rightarrow> bool" where
  "reaches net req hostname port q addr \<longleftrightarrow>
     net_signal net \<and> net_socket net \<and> net_malloc net = (\<lambda>_. True) \<and> net_write net \<and>
     parse_url (req_url req) = Some (hostname, port, q) \<and> net_gethostbyname net hostname = Some addr \<and>
     net_connect net addr port \<and>
     (case req_body req of None \<Rightarrow> req_body_len req = 0 | Some b \<Rightarrow> req_body_len req = length b)"

definition request_text :: "http_request \<Rightarrow> string \<Rightarrow> uint16_t \<Rightarrow> nat \<Rightarrow> string" where
  "request_text req hostname port q =
     request_head req hostname port q @ (case req_body req of None \<Rightarrow> [] | Some b \<Rightarrow> b)"

lemma http_req_reaches:
  assumes "reaches net req hostname port q addr"
  shows "http_req net req =
    (let eff = \<lparr>he_socket_open = True, he_sigpipe_ignored = True, he_blocks = 1,
                he_peer = Some (addr, port), he_sent = request_text req hostname port q\<rparr>
     in case read_all (net_pieces net) (RECV_BUFF_SIZE - 1) of
          None \<Rightarrow> Inr (None, eff)
        | Some data \<Rightarrow>
            (case http_parse_response (\<lambda>_. True) (received net data) (length data) of
               Inl e \<Rightarrow> Inl e
             | Inr res \<Rightarrow> Inr (res, eff\<lparr>he_socket_open := False, he_sigpipe_ignored := False\<rparr>)))"
  using assms
  by (cases "req_body req")
    (simp_all add: reaches_def http_req_def http_exchange_def request_text_def no_effects_def Let_def
      split: option.split sum.split)

lemma http_req_answered:
  assumes net: "reaches net req hostname port q addr"
    and good: "digits major" "digits minor" "digits code" "length code = 3" "plain_text phrase"
      "list_all good_header hs"
    and pieces: "net_pieces net = map Some ps" "list_all (\<lambda>s. s \<noteq> []) ps"
      "concat ps = response_text major minor code phrase hs body" "length (concat ps) < RECV_BUFF_SIZE"
  shows "http_req net req =
    Inr (Some \<lparr>res_version = ''HTTP/'' @ major @ ''.'' @ minor @ '' '', res_status_code = c_atoi code,
               res_phrase = phrase, res_headers = hs, res_body = body\<rparr>,
         \<lparr>he_socket_open = False, he_sigpipe_ignored = False, he_blocks = 1, he_peer = Some (addr, port),
          he_sent = request_text req hostname port q\<rparr>)"
proof -
  have "read_all (net_pieces net) (RECV_BUFF_SIZE - 1) = Some (take (RECV_BUFF_SIZE - 1) (concat ps))"
    using read_all_pieces [OF pieces(2), of "[]" "RECV_BUFF_SIZE - 1"] pieces(1) by (simp add: read_all_def)
  also have "take (RECV_BUFF_SIZE - 1) (concat ps) = concat ps" using pieces(4) by simp
  finally show ?thesis
    using http_req_reaches [OF net] parse_good_response [OF good, of body] pieces(3)
    by (simp add: received_def)
qed

text \<open>
When the host of the URL answers with a well-formed response of at most 65535 bytes, in
  whatever pieces they arrive, the request is sent in full, the response is taken apart into its
  parts, the socket is closed and the handling of \<open>SIGPIPE\<close> restored; one block of memory, the
  buffer, is never freed.
\<close>

theorem request_answered:
  assumes net: "reaches net req hostname port q addr"
    and good: "digits major" "digits minor" "digits code" "length code = 3" "plain_text phrase"
      "list_all good_header hs"
    and pieces: "net_pieces net = map Some ps" "list_all (\<lambda>s. s \<noteq> []) ps"
      "concat ps = response_text major minor code phrase hs body" "length (concat ps) < RECV_BUFF_SIZE"
  shows "http_req net req =
    Inr (Some \<lparr>res_version = ''HTTP/'' @ major @ ''.'' @ minor @ '' '', res_status_code = c_atoi code,
               res_phrase = phrase, res_headers = hs, res_body = body\<rparr>,
         \<lparr>he_socket_open = False, he_sigpipe_ignored = False, he_blocks = 1, he_peer = Some (addr, port),
          he_sent = request_text req hostname port q\<rparr>)"
  using net good pieces by (rule http_req_answered)

lemma request_answered_witness:
  "\<exists>res eff. http_req (good_net [Some ''HTTP/1.1 200'', Some ('' OK'' @ [CR, LF, CR, LF] @ ''up'')])
       (plain_request ''http://pbx/status'') = Inr (Some res, eff) \<and>
     res_body res = ''up'' \<and> \<not> he_socket_open eff"
proof -
  have url: "parse_url ''http://pbx/status'' = Some (''pbx'', 80, 10)"
    using parse_url_no_port [of "''http://''" "''pbx''" "''/status''"]
    by (simp add: url_plain_def path_start_def NUL_def)
  have "reaches (good_net ps) (plain_request ''http://pbx/status'') ''pbx'' 80 10 0x0A000001" for ps
    using url by (simp add: reaches_def good_net_def plain_request_def)
  note request_answered [OF this, of "''1''" "''1''" "''200''" "''OK''" "[]"
      "[Some ''HTTP/1.1 200'', Some ('' OK'' @ [CR, LF, CR, LF] @ ''up'')]"
      "[''HTTP/1.1 200'', '' OK'' @ [CR, LF, CR, LF] @ ''up'']" "''up''"]
  then show ?thesis
    by (simp add: good_net_def digits_def plain_text_def text_char_def c_isdigit_def c_isprint_def
      char_int_def c_toupper_def c_islower_def response_text_def crlf_def RECV_BUFF_SIZE_def)
qed

text \<open>
When reading the response fails, the call returns an error with the socket left open and
  \<open>SIGPIPE\<close> ignored: every such call costs the process a descriptor.
\<close>

theorem failed_read_leaks_socket:
  assumes "reaches net req hostname port q addr" "net_pieces net = map Some ps @ None # rest"
    and "list_all (\<lambda>s. s \<noteq> []) ps" "length (concat ps) < RECV_BUFF_SIZE - 1"
  shows "\<exists>eff. http_req net req = Inr (None, eff) \<and> he_socket_open eff \<and> he_sigpipe_ignored eff"
proof -
  have "read_all (net_pieces net) (RECV_BUFF_SIZE - 1) = None"
    using read_all_fails [OF assms(3), of "[]" "RECV_BUFF_SIZE - 1" rest] assms(2,4) by (simp add: read_all_def)
  then show ?thesis using http_req_reaches [OF assms(1)] by (simp add: Let_def)
qed

lemma failed_read_leaks_socket_witness:
  "\<exists>eff. http_req (good_net [None]) (plain_request ''http://pbx/status'') = Inr (None, eff) \<and> he_socket_open eff"
proof -
  have "parse_url ''http://pbx/status'' = Some (''pbx'', 80, 10)"
    using parse_url_no_port [of "''http://''" "''pbx''" "''/status''"]
    by (simp add: url_plain_def path_start_def NUL_def)
  then have "reaches (good_net [None]) (plain_request ''http://pbx/status'') ''pbx'' 80 10 0x0A000001"
    by (simp add: reaches_def good_net_def plain_request_def)
  from failed_read_leaks_socket [OF this, of "[]" "[]"] show ?thesis
    by (auto simp: good_net_def RECV_BUFF_SIZE_def)
qed

end
