(* ===== verification/Print_Buf.thy ===== *)
theory Print_Buf
  imports C_Library
begin

text \<open>
  \<open>mod/applications/mod_http/printbuf.c\<close>: a text that grows.  The memory is the list of its bytes;
  \<open>heap\<close>, an argument, says what fresh memory holds.  The format of \<open>sprintbuf\<close> is expanded by the
  caller.  Sizes are unbounded: that they fit an \<open>int\<close> is a limit of the memory.
\<close>

record printbuf =
  pb_buf :: "char list"
  pb_bpos :: nat
  pb_size :: nat

definition printbuf_new :: "(nat \<Rightarrow> char) \<Rightarrow> bool \<Rightarrow> bool \<Rightarrow> printbuf option" where
  "printbuf_new heap calloc_ok malloc_ok =
     (if \<not> calloc_ok then None
      else if \<not> malloc_ok then None
      else Some \<lparr>pb_buf = map heap [0..<32], pb_bpos = 0, pb_size = 32\<rparr>)"

text \<open>\<open>memcpy\<close> and the assignment of one byte, with the bounds of the memory.\<close>

definition pb_store :: "printbuf \<Rightarrow> nat \<Rightarrow> string \<Rightarrow> crash + printbuf" where
  "pb_store p off bytes =
     (if off + length bytes \<le> length (pb_buf p)
      then Inr (p\<lparr>pb_buf := buf_write (pb_buf p) off bytes\<rparr>) else Inl Out_Of_Bounds)"

definition pb_enlarge :: "(nat \<Rightarrow> char) \<Rightarrow> bool \<Rightarrow> printbuf \<Rightarrow> nat \<Rightarrow> printbuf option" where
  "pb_enlarge heap realloc_ok p size1 =
     (if int (pb_size p) - int (pb_bpos p) \<le> int size1
      then let new_size = max (pb_size p * 2) (pb_bpos p + size1 + 8)
           in if \<not> realloc_ok then None
              else Some (p\<lparr>pb_size := new_size,
                           pb_buf := take new_size (pb_buf p) @ map heap [length (pb_buf p)..<new_size]\<rparr>)
      else Some p)"

definition printbuf_memappend ::
    "(nat \<Rightarrow> char) \<Rightarrow> bool \<Rightarrow> printbuf \<Rightarrow> string \<Rightarrow> crash + printbuf \<times> int" where
  "printbuf_memappend heap realloc_ok p buf =
     (case pb_enlarge heap realloc_ok p (length buf) of
        None \<Rightarrow> Inr (p, - 1)
      | Some p1 \<Rightarrow>
          (case pb_store p1 (pb_bpos p1) buf of
             Inl e \<Rightarrow> Inl e
           | Inr p2 \<Rightarrow>
               let p3 = p2\<lparr>pb_bpos := pb_bpos p2 + length buf\<rparr>
               in case pb_store p3 (pb_bpos p3) [NUL] of
                    Inl e \<Rightarrow> Inl e
                  | Inr p4 \<Rightarrow> Inr (p4, int (length buf))))"

text \<open>
  \<open>sprintbuf\<close> of the expanded text: up to 127 characters go through a buffer on the stack, a
  longer text through memory of its own.
\<close>

definition sprintbuf ::
    "(nat \<Rightarrow> char) \<Rightarrow> bool \<Rightarrow> bool \<Rightarrow> printbuf \<Rightarrow> string \<Rightarrow> crash + printbuf \<times> int" where
  "sprintbuf heap vasprintf_ok realloc_ok p text1 =
     (if length text1 > 127
      then if \<not> vasprintf_ok then Inr (p, - 1) else printbuf_memappend heap realloc_ok p text1
      else printbuf_memappend heap realloc_ok p (take 127 text1))"

definition printbuf_reset :: "printbuf \<Rightarrow> crash + printbuf" where
  "printbuf_reset p =
     (case pb_store p 0 [NUL] of Inl e \<Rightarrow> Inl e | Inr p1 \<Rightarrow> Inr (p1\<lparr>pb_bpos := 0\<rparr>))"

subsection \<open>The text a buffer holds\<close>

text \<open>The buffer holds \<open>s\<close>, with a byte left behind it; after an append or a reset this is the NUL.\<close>

definition pb_rep :: "printbuf \<Rightarrow> string \<Rightarrow> bool" where
  "pb_rep p s \<longleftrightarrow> length (pb_buf p) = pb_size p \<and> pb_bpos p = length s \<and> length s < pb_size p \<and>
     take (length s) (pb_buf p) = s"

definition pb_ended :: "printbuf \<Rightarrow> bool" where
  "pb_ended p \<longleftrightarrow> pb_buf p ! pb_bpos p = NUL"

lemma pb_rep_new: "printbuf_new heap c m = Some p \<Longrightarrow> pb_rep p []"
  by (auto simp: printbuf_new_def pb_rep_def split: if_splits)

lemma pb_reset_rep:
  assumes "pb_rep p s"
  shows "\<exists>p'. printbuf_reset p = Inr p' \<and> pb_rep p' [] \<and> pb_ended p'"
  using assms by (auto simp: printbuf_reset_def pb_store_def pb_rep_def pb_ended_def buf_write_def)

lemma pb_enlarge_rep:
  assumes "pb_rep p s"
  shows "\<exists>p'. pb_enlarge heap True p n = Some p' \<and> pb_rep p' s \<and> length s + n < pb_size p'"
  using assms by (auto simp: pb_enlarge_def pb_rep_def Let_def max_def)

lemma memappend_rep:
  assumes "pb_rep p s"
  shows "\<exists>p'. printbuf_memappend heap True p buf = Inr (p', int (length buf)) \<and> pb_rep p' (s @ buf) \<and> pb_ended p'"
proof -
  obtain p1 where p1: "pb_enlarge heap True p (length buf) = Some p1" "pb_rep p1 s"
    "length s + length buf < pb_size p1"
    using pb_enlarge_rep [OF assms, of heap "length buf"] by blast
  then show ?thesis
    by (simp add: printbuf_memappend_def pb_store_def pb_rep_def pb_ended_def buf_write_def nth_append Let_def)
qed

lemma takeWhile_until_NUL:
  "takeWhile (\<lambda>c. c \<noteq> NUL) (s @ NUL # rest) = takeWhile (\<lambda>c. c \<noteq> NUL) s"
  by (induction s) auto

text \<open>Several texts appended one after the other.\<close>

fun printbuf_run :: "(nat \<Rightarrow> char) \<Rightarrow> printbuf \<Rightarrow> string list \<Rightarrow> crash + printbuf" where
  "printbuf_run heap p [] = Inr p"
| "printbuf_run heap p (t # ts) =
     (case sprintbuf heap True True p t of Inl e \<Rightarrow> Inl e | Inr (p', r) \<Rightarrow> printbuf_run heap p' ts)"

lemma sprintbuf_rep:
  assumes "pb_rep p s"
  shows "\<exists>p'. sprintbuf heap True True p t = Inr (p', int (length t)) \<and> pb_rep p' (s @ t) \<and> pb_ended p'"
  using memappend_rep [OF assms, of heap t] by (cases "length t > 127") (simp_all add: sprintbuf_def)

lemma printbuf_run_rep:
  "pb_rep p s \<Longrightarrow> (ts = [] \<Longrightarrow> pb_ended p) \<Longrightarrow>
    \<exists>p'. printbuf_run heap p ts = Inr p' \<and> pb_rep p' (s @ concat ts) \<and> pb_ended p'"
proof (induction ts arbitrary: p s)
  case (Cons t ts)
  obtain p1 where p1: "sprintbuf heap True True p t = Inr (p1, int (length t))" "pb_rep p1 (s @ t)" "pb_ended p1"
    using sprintbuf_rep [OF Cons.prems(1), of heap t] by blast
  with Cons.IH [OF p1(2)] show ?case by simp
qed simp

text \<open>
Whatever texts are appended to a new buffer, it never writes outside its memory and then holds
  their concatenation with a NUL behind it: as a C string, the concatenation up to its first NUL.
\<close>

theorem printbuf_holds_text:
  assumes "printbuf_new heap True True = Some p" "ts \<noteq> []"
  shows "\<exists>p'. printbuf_run heap p ts = Inr p' \<and> pb_bpos p' = length (concat ts) \<and>
    buf_string (pb_buf p') 0 = takeWhile (\<lambda>c. c \<noteq> NUL) (concat ts)"
proof -
  obtain p' where p': "printbuf_run heap p ts = Inr p'" "pb_rep p' (concat ts)" "pb_ended p'"
    using printbuf_run_rep [OF pb_rep_new [OF assms(1)], of ts heap] assms(2) by auto
  let ?n = "length (concat ts)"
  have buf: "pb_buf p' = concat ts @ NUL # drop (Suc ?n) (pb_buf p')"
  proof -
    have n: "?n < length (pb_buf p')" "take ?n (pb_buf p') = concat ts" "pb_buf p' ! ?n = NUL"
      using p'(2,3) by (simp_all add: pb_rep_def pb_ended_def)
    show ?thesis using id_take_nth_drop [OF n(1)] unfolding n(2,3) .
  qed
  have "takeWhile (\<lambda>c. c \<noteq> NUL) (pb_buf p') = takeWhile (\<lambda>c. c \<noteq> NUL) (concat ts)"
    by (subst buf) (rule takeWhile_until_NUL)
  then show ?thesis using p'(1,2) by (simp add: buf_string_def pb_rep_def)
qed

lemma printbuf_holds_text_witness:
  "\<exists>p'. printbuf_run (\<lambda>_. CHR ''?'') (the (printbuf_new (\<lambda>_. CHR ''?'') True True))
      [''{'', replicate 200 CHR ''x'', '' }''] = Inr p' \<and> pb_bpos p' = 203"
proof -
  have "printbuf_new (\<lambda>_. CHR ''?'') True True = Some (the (printbuf_new (\<lambda>_. CHR ''?'') True True))"
    by (simp add: printbuf_new_def)
  from printbuf_holds_text [OF this, of "[''{'', replicate 200 CHR ''x'', '' }'']"]
  obtain p' where "printbuf_run (\<lambda>_. CHR ''?'') (the (printbuf_new (\<lambda>_. CHR ''?'') True True))
      [''{'', replicate 200 CHR ''x'', '' }''] = Inr p'"
    and "pb_bpos p' = length (concat [''{'', replicate 200 CHR ''x'', '' }''])"
    by blast
  moreover from this(2) have "pb_bpos p' = 203" by simp
  ultimately show ?thesis by blast
qed

end
