(* ===== verification/Json_Object.thy ===== *)
theory Json_Object
  imports Link_Hash Array_List Print_Buf C_Format
begin

text \<open>
  \<open>mod/applications/mod_http/json_object.c\<close>: the values of JSON.  \<open>J_Null\<close> is the null pointer.
  An object is the list of pairs its hash table represents (theory \<open>Link_Hash\<close>), an array the list
  its growing array represents (theory \<open>Array_List\<close>), and what is printed into a \<open>printbuf\<close> is
  the text appended to it (theory \<open>Print_Buf\<close>).  Memory is assumed not to run out; the reference
  counts, which decide when a value is freed, are not modelled.
\<close>

datatype json_type = json_type_null | json_type_boolean | json_type_double | json_type_int
  | json_type_object | json_type_array | json_type_string

datatype json = J_Null | J_Boolean bool | J_Double c_float | J_Int int
  | J_Object "(string \<times> json) list" | J_Array "json list" | J_String string

subsection \<open>Reading numbers\<close>

text \<open>\<open>sscanf(s, "%d", &i) == 1\<close> and \<open>sscanf(s, "%lf", &d) == 1\<close>, with what is stored.\<close>

definition scan_sign :: "string \<Rightarrow> bool \<times> string" where
  "scan_sign s =
     (case dropWhile c_isspace s of [] \<Rightarrow> (False, [])
      | c # cs \<Rightarrow> if c = CHR ''-'' then (True, cs) else if c = CHR ''+'' then (False, cs) else (False, c # cs))"

definition sscanf_d :: "string \<Rightarrow> int option" where
  "sscanf_d s = (if takeWhile c_isdigit (snd (scan_sign s)) = [] then None else Some (c_atoi s))"

text \<open>
  The exponent of a \<open>double\<close> is not bounded here: a number beyond the largest one, for which C gives
  the infinity, keeps its value, rounded to 53 bits; the sign of a zero is lost.
\<close>

definition scan_exponent :: "string \<Rightarrow> int" where
  "scan_exponent s =
     (case s of [] \<Rightarrow> 0
      | c # cs \<Rightarrow>
          if c = CHR ''e'' \<or> c = CHR ''E''
          then let (neg, ds) = (case cs of [] \<Rightarrow> (False, [])
                                | d # ds \<Rightarrow> if d = CHR ''-'' then (True, ds)
                                           else if d = CHR ''+'' then (False, ds) else (False, d # ds));
                   e = int (digits_value (takeWhile c_isdigit ds))
               in if neg then - e else e
          else 0)"

definition sscanf_lf :: "string \<Rightarrow> c_float option" where
  "sscanf_lf s =
     (let (neg, u) = scan_sign s;
          whole = takeWhile c_isdigit u;
          r1 = dropWhile c_isdigit u;
          (frac, r2) = (case r1 of [] \<Rightarrow> ([], [])
                        | c # cs \<Rightarrow> if c = CHR ''.'' then (takeWhile c_isdigit cs, dropWhile c_isdigit cs)
                                   else ([], r1));
          e = scan_exponent r2 - int (length frac);
          m = (if neg then - int (digits_value (whole @ frac)) else int (digits_value (whole @ frac)))
      in if whole @ frac = [] then None
         else Some (if e \<ge> 0 then fl_ratio DBL_MANT_DIG (m * 10 ^ nat e) 1
                    else fl_ratio DBL_MANT_DIG m (10 ^ nat (- e))))"

text \<open>The conversion of a \<open>double\<close> to \<open>int\<close>, towards zero; it is undefined out of range.\<close>

definition fl_to_int :: "c_float \<Rightarrow> int" where
  "fl_to_int x =
     (if snd x \<ge> 0 then fst x * 2 ^ nat (snd x)
      else if fst x < 0 then - (- fst x div 2 ^ nat (- snd x)) else fst x div 2 ^ nat (- snd x))"

subsection \<open>Types and values\<close>

definition json_object_get_type :: "json \<Rightarrow> crash + json_type" where
  "json_object_get_type this =
     (case this of
        J_Null \<Rightarrow> Inl Null_Deref
      | J_Boolean _ \<Rightarrow> Inr json_type_boolean
      | J_Double _ \<Rightarrow> Inr json_type_double
      | J_Int _ \<Rightarrow> Inr json_type_int
      | J_Object _ \<Rightarrow> Inr json_type_object
      | J_Array _ \<Rightarrow> Inr json_type_array
      | J_String _ \<Rightarrow> Inr json_type_string)"

definition json_object_is_type :: "json \<Rightarrow> json_type \<Rightarrow> crash + bool" where
  "json_object_is_type this t =
     (case json_object_get_type this of Inl e \<Rightarrow> Inl e | Inr t' \<Rightarrow> Inr (t' = t))"

definition json_object_new_object :: json where "json_object_new_object = J_Object []"
definition json_object_new_array :: json where "json_object_new_array = J_Array []"
definition json_object_new_boolean :: "int \<Rightarrow> json" where "json_object_new_boolean b = J_Boolean (b \<noteq> 0)"
definition json_object_new_int :: "int \<Rightarrow> json" where "json_object_new_int i = J_Int i"
definition json_object_new_double :: "c_float \<Rightarrow> json" where "json_object_new_double d = J_Double d"

text \<open>The argument is a C string and ends at its first NUL.\<close>

definition json_object_new_string :: "string \<Rightarrow> json" where
  "json_object_new_string s = J_String (takeWhile (\<lambda>c. c \<noteq> NUL) s)"

definition json_object_new_string_len :: "string \<Rightarrow> nat \<Rightarrow> json" where
  "json_object_new_string_len s len1 = J_String (take len1 (takeWhile (\<lambda>c. c \<noteq> NUL) s))"

definition json_object_get_object :: "json \<Rightarrow> (string \<times> json) list option" where
  "json_object_get_object this = (case this of J_Object kvs \<Rightarrow> Some kvs | _ \<Rightarrow> None)"

definition json_object_get_array :: "json \<Rightarrow> json list option" where
  "json_object_get_array this = (case this of J_Array xs \<Rightarrow> Some xs | _ \<Rightarrow> None)"

text \<open>A string falls through to the default, also when it is empty.\<close>

definition json_object_get_boolean :: "json \<Rightarrow> bool" where
  "json_object_get_boolean this =
     (case this of
        J_Null \<Rightarrow> False
      | J_Boolean b \<Rightarrow> b
      | J_Int i \<Rightarrow> i \<noteq> 0
      | J_Double d \<Rightarrow> fst d \<noteq> 0
      | J_String s \<Rightarrow> if length s \<noteq> 0 then True else True
      | _ \<Rightarrow> True)"

definition json_object_get_int :: "json \<Rightarrow> int" where
  "json_object_get_int this =
     (case this of
        J_Null \<Rightarrow> 0
      | J_Int i \<Rightarrow> i
      | J_Double d \<Rightarrow> fl_to_int d
      | J_Boolean b \<Rightarrow> if b then 1 else 0
      | J_String s \<Rightarrow> (case sscanf_d s of Some i \<Rightarrow> i | None \<Rightarrow> 0)
      | _ \<Rightarrow> 0)"

definition json_object_get_double :: "json \<Rightarrow> c_float" where
  "json_object_get_double this =
     (case this of
        J_Double d \<Rightarrow> d
      | J_Int i \<Rightarrow> fl_of_int DBL_MANT_DIG i
      | J_Boolean b \<Rightarrow> fl_of_int DBL_MANT_DIG (if b then 1 else 0)
      | J_String s \<Rightarrow> (case sscanf_lf s of Some d \<Rightarrow> d | None \<Rightarrow> (0, 0))
      | _ \<Rightarrow> (0, 0))"

subsection \<open>Objects and arrays\<close>

text \<open>\<open>json_object_object_add\<close> on the hash table, as the code has it.\<close>

definition object_table_add :: "(string, json) lh_table \<Rightarrow> string \<Rightarrow> json \<Rightarrow> (crash + (string, json) lh_table) option" where
  "object_table_add t key val =
     (case lh_table_delete t key of
        None \<Rightarrow> None
      | Some (Inl e) \<Rightarrow> Some (Inl e)
      | Some (Inr (t', _)) \<Rightarrow> lh_table_insert t' key val)"

definition JSON_OBJECT_DEF_HASH_ENTIRES :: nat where "JSON_OBJECT_DEF_HASH_ENTIRES = 16"

definition object_table_new :: "(string, json) lh_table" where
  "object_table_new = lh_kchar_table_new JSON_OBJECT_DEF_HASH_ENTIRES True"

text \<open>The same on the list of pairs; only called with objects.\<close>

definition pairs_add :: "(string \<times> json) list \<Rightarrow> string \<Rightarrow> json \<Rightarrow> (string \<times> json) list" where
  "pairs_add kvs key val = filter (\<lambda>p. fst p \<noteq> key) kvs @ [(key, val)]"

definition json_object_object_add :: "json \<Rightarrow> string \<Rightarrow> json \<Rightarrow> json" where
  "json_object_object_add this key val =
     (case this of J_Object kvs \<Rightarrow> J_Object (pairs_add kvs key val) | _ \<Rightarrow> this)"

definition json_object_object_get :: "json \<Rightarrow> string \<Rightarrow> json" where
  "json_object_object_get this key =
     (case this of J_Object kvs \<Rightarrow> (case map_of kvs key of Some v \<Rightarrow> v | None \<Rightarrow> J_Null) | _ \<Rightarrow> J_Null)"

definition json_object_object_del :: "json \<Rightarrow> string \<Rightarrow> json" where
  "json_object_object_del this key =
     (case this of J_Object kvs \<Rightarrow> J_Object (filter (\<lambda>p. fst p \<noteq> key) kvs) | _ \<Rightarrow> this)"

definition json_object_array_length :: "json \<Rightarrow> nat" where
  "json_object_array_length this = (case this of J_Array xs \<Rightarrow> length xs | _ \<Rightarrow> 0)"

definition json_object_array_add :: "json \<Rightarrow> json \<Rightarrow> json" where
  "json_object_array_add this val = (case this of J_Array xs \<Rightarrow> J_Array (xs @ [val]) | _ \<Rightarrow> this)"

definition json_object_array_get_idx :: "json \<Rightarrow> nat \<Rightarrow> json" where
  "json_object_array_get_idx this idx =
     (case this of J_Array xs \<Rightarrow> if idx < length xs then xs ! idx else J_Null | _ \<Rightarrow> J_Null)"

subsection \<open>Printing\<close>

definition json_number_chars :: string where "json_number_chars = ''0123456789.+-e''"
definition json_hex_chars :: string where "json_hex_chars = ''0123456789abcdef''"

definition BS :: char where "BS = CHR 0x08"
definition TAB :: char where "TAB = CHR 0x09"
definition QUOTE :: char where "QUOTE = CHR 0x22"
definition BACKSLASH :: char where "BACKSLASH = CHR 0x5C"

text \<open>The escapes of \<open>json_escape_str\<close>; \<open>None\<close> for a character that is printed as it is.\<close>

definition char_escape :: "char \<Rightarrow> string option" where
  "char_escape c =
     (if c = BS then Some [BACKSLASH, CHR ''b'']
      else if c = LF then Some [BACKSLASH, CHR ''n'']
      else if c = CR then Some [BACKSLASH, CHR ''r'']
      else if c = TAB then Some [BACKSLASH, CHR ''t'']
      else if c = QUOTE then Some [BACKSLASH, QUOTE]
      else if c = BACKSLASH then Some [BACKSLASH, BACKSLASH]
      else if c = CHR ''/'' then Some [BACKSLASH, CHR ''/'']
      else if (of_char c :: nat) < 32
      then Some [BACKSLASH, CHR ''u'', CHR ''0'', CHR ''0'', json_hex_chars ! (of_char c div 16),
                 json_hex_chars ! (of_char c mod 16)]
      else None)"

text \<open>The loop: \<open>start1\<close> is where the characters not yet printed start.\<close>

definition pending :: "string \<Rightarrow> nat \<Rightarrow> nat \<Rightarrow> string" where
  "pending str start1 pos = (if pos > start1 then take (pos - start1) (drop start1 str) else [])"

function escape_loop :: "string \<Rightarrow> nat \<Rightarrow> nat \<Rightarrow> string \<Rightarrow> string" where
  "escape_loop str pos start1 out =
     (if pos < length str \<and> str ! pos \<noteq> NUL
      then (case char_escape (str ! pos) of
              Some esc \<Rightarrow> escape_loop str (pos + 1) (pos + 1) (out @ pending str start1 pos @ esc)
            | None \<Rightarrow> escape_loop str (pos + 1) start1 out)
      else out @ pending str start1 pos)"
  by pat_completeness auto
termination
  by (relation "measure (\<lambda>(str, pos, _, _). length str - pos)") auto

declare escape_loop.simps [simp del]

definition json_escape_str :: "string \<Rightarrow> string" where
  "json_escape_str str = escape_loop str 0 0 []"

text \<open>The bodies of the loops over the pairs and the elements; \<open>i\<close> says that it is not the first.\<close>

fun object_members :: "bool \<Rightarrow> (string \<times> string) list \<Rightarrow> string" where
  "object_members i [] = []"
| "object_members i ((key, val) # kvs) =
     (if i then '','' else []) @ '' '' @ [QUOTE] @ json_escape_str key @ [QUOTE] @ '': '' @ val @
     object_members True kvs"

fun array_elements :: "bool \<Rightarrow> string list \<Rightarrow> string" where
  "array_elements i [] = []"
| "array_elements i (val # vals) = (if i then '', '' else '' '') @ val @ array_elements True vals"

fun json_object_to_json_string :: "json \<Rightarrow> string" where
  "json_object_to_json_string J_Null = ''null''"
| "json_object_to_json_string (J_Boolean b) = (if b then ''true'' else ''false'')"
| "json_object_to_json_string (J_Double d) = format_f d"
| "json_object_to_json_string (J_Int i) = c_int_text i"
| "json_object_to_json_string (J_Object kvs) =
     ''{'' @ object_members False (map (\<lambda>(key, val). (key, json_object_to_json_string val)) kvs) @ '' }''"
| "json_object_to_json_string (J_Array xs) =
     ''['' @ array_elements False (map json_object_to_json_string xs) @ '' ]''"
| "json_object_to_json_string (J_String s) = [QUOTE] @ json_escape_str s @ [QUOTE]"

definition json_object_get_string :: "json \<Rightarrow> string option" where
  "json_object_get_string this =
     (case this of J_Null \<Rightarrow> None | J_String s \<Rightarrow> Some s | _ \<Rightarrow> Some (json_object_to_json_string this))"

subsection \<open>Objects on the hash table\<close>

text \<open>The state of the table of an object that only \<open>json_object_object_add\<close> has changed.\<close>

definition object_table :: "(string, json) lh_table \<Rightarrow> (string \<times> json) list \<Rightarrow> bool" where
  "object_table t kvs \<longleftrightarrow> lh_rep t kvs \<and> never_freed t \<and> 3 \<le> lh_size t \<and> length kvs < lh_size t"

lemma object_table_new_ok: "object_table object_table_new []"
proof -
  have eq: "lh_char_equal = (=)" by (intro ext) (simp add: lh_char_equal_def)
  have "lh_rep object_table_new []"
    unfolding object_table_new_def lh_kchar_table_new_def eq
    by (rule lh_rep_new) (simp add: JSON_OBJECT_DEF_HASH_ENTIRES_def)
  then show ?thesis
    by (simp add: object_table_def object_table_new_def lh_kchar_table_new_def lh_table_new_def
        JSON_OBJECT_DEF_HASH_ENTIRES_def never_freed_def empty_entry_def)
qed

lemma object_table_add_ok:
  assumes "object_table t kvs"
  obtains t' where "object_table_add t key val = Some (Inr t')" "object_table t' (pairs_add kvs key val)"
proof -
  have a: "lh_rep t kvs" "never_freed t" "3 \<le> lh_size t" "length kvs < lh_size t"
    using assms by (simp_all add: object_table_def)
  obtain t1 r t2 where "lh_table_delete t key = Some (Inr (t1, r))" "lh_table_insert t1 key val = Some (Inr t2)"
    "lh_rep t2 (filter (\<lambda>p. fst p \<noteq> key) kvs @ [(key, val)])" "never_freed t2" "3 \<le> lh_size t2"
    "length (filter (\<lambda>p. fst p \<noteq> key) kvs @ [(key, val)]) < lh_size t2"
    by (rule replace_never_freed [OF a, of key val])
  then show thesis by (intro that [of t2]) (simp_all add: object_table_add_def object_table_def pairs_add_def)
qed

fun object_table_add_all :: "(string, json) lh_table \<Rightarrow> (string \<times> json) list \<Rightarrow> (crash + (string, json) lh_table) option" where
  "object_table_add_all t [] = Some (Inr t)"
| "object_table_add_all t ((k, v) # kvs) =
     (case object_table_add t k v of
        None \<Rightarrow> None
      | Some (Inl c) \<Rightarrow> Some (Inl c)
      | Some (Inr t') \<Rightarrow> object_table_add_all t' kvs)"

lemma object_table_add_all_ok:
  "object_table t kvs \<Longrightarrow> \<exists>t'. object_table_add_all t ps = Some (Inr t') \<and>
     object_table t' (fold (\<lambda>(k, v) l. pairs_add l k v) ps kvs)"
proof (induction ps arbitrary: t kvs)
  case (Cons p ps)
  obtain k v where p: "p = (k, v)" by fastforce
  obtain t' where t': "object_table_add t k v = Some (Inr t')" "object_table t' (pairs_add kvs k v)"
    by (rule object_table_add_ok [OF Cons.prems, of k v])
  from Cons.IH [OF t'(2)] show ?case using p t'(1) by simp
qed simp

text \<open>
C26: However many pairs are added to a new object, with keys repeated at will, every addition and
  then every lookup terminates without a crash: although each addition deletes the key first, no
  freed slot is left behind.  The object lists each key once, with its last value.
\<close>

theorem object_never_hangs:
  "\<exists>t. object_table_add_all object_table_new ps = Some (Inr t) \<and>
     lh_rep t (fold (\<lambda>(k, v) l. pairs_add l k v) ps []) \<and> never_freed t \<and>
     (\<forall>key. lh_table_lookup t key = Some (t\<lparr>lh_lookups := lh_lookups t + 1\<rparr>,
        map_of (fold (\<lambda>(k, v) l. pairs_add l k v) ps []) key))"
proof -
  obtain t where t: "object_table_add_all object_table_new ps = Some (Inr t)"
    "object_table t (fold (\<lambda>(k, v) l. pairs_add l k v) ps [])"
    using object_table_add_all_ok [OF object_table_new_ok, of ps] by blast
  then have rep: "lh_rep t (fold (\<lambda>(k, v) l. pairs_add l k v) ps [])" "never_freed t"
    and "has_empty t"
    using empty_slot_exists by (auto simp: object_table_def)
  with t(1) lookup_rep [OF rep(1)] show ?thesis by blast
qed

subsection \<open>The escapes of a string\<close>

definition escaped :: "char \<Rightarrow> string" where
  "escaped c = (case char_escape c of Some esc \<Rightarrow> esc | None \<Rightarrow> [c])"

lemma escaped_plain: "\<forall>c \<in> set xs. char_escape c = None \<Longrightarrow> concat (map escaped xs) = xs"
  by (induction xs) (auto simp: escaped_def)

lemma escape_loop_map:
  assumes "NUL \<notin> set str" "start1 \<le> pos" "pos \<le> length str"
    and "\<forall>i. start1 \<le> i \<and> i < pos \<longrightarrow> char_escape (str ! i) = None"
  shows "escape_loop str pos start1 out = out @ concat (map escaped (drop start1 str))"
  using assms
proof (induction str pos start1 out rule: escape_loop.induct)
  case (1 str pos start1 out)
  have pend: "concat (map escaped (drop start1 str)) =
      pending str start1 pos @ concat (map escaped (drop pos str))"
  proof -
    let ?seg = "take (pos - start1) (drop start1 str)"
    have split: "drop start1 str = ?seg @ drop pos str"
      using "1.prems"(2) append_take_drop_id [of "pos - start1" "drop start1 str"] by simp
    have "char_escape c = None" if "c \<in> set ?seg" for c
    proof -
      obtain i where "i < length ?seg" "?seg ! i = c" using \<open>c \<in> set ?seg\<close> by (auto simp: in_set_conv_nth)
      then show ?thesis using "1.prems"(3,4) by auto
    qed
    then have "concat (map escaped ?seg) = ?seg" by (intro escaped_plain) blast
    moreover have "pending str start1 pos = ?seg" by (simp add: pending_def)
    ultimately show ?thesis by (subst split) simp
  qed
  show ?case
  proof (cases "pos < length str")
    case False
    then show ?thesis using pend "1.prems"(3) by (subst escape_loop.simps) simp
  next
    case True
    then have c: "str ! pos \<noteq> NUL" using "1.prems"(1) by (metis nth_mem)
    have d: "drop pos str = str ! pos # drop (Suc pos) str" using True by (simp add: Cons_nth_drop_Suc)
    show ?thesis
    proof (cases "char_escape (str ! pos)")
      case None
      have "escape_loop str (pos + 1) start1 out = out @ concat (map escaped (drop start1 str))"
        by (rule "1.IH"(1) [OF conjI [OF True c] None])
          (use "1.prems" True None in \<open>auto simp: less_Suc_eq\<close>)
      then show ?thesis using True c None by (subst escape_loop.simps) simp
    next
      case (Some esc)
      have "escape_loop str (pos + 1) (pos + 1) (out @ pending str start1 pos @ esc) =
          (out @ pending str start1 pos @ esc) @ concat (map escaped (drop (pos + 1) str))"
        by (rule "1.IH"(2) [OF conjI [OF True c] Some]) (use "1.prems" True in auto)
      then show ?thesis
        using True c Some pend d by (subst escape_loop.simps) (simp add: escaped_def)
    qed
  qed
qed

text \<open>
C27: The loop of \<open>json_escape_str\<close>, which copies the characters between two escapes at once, prints
  each character of a C string by itself, escaped when it has to be.
\<close>

theorem escape_by_character:
  assumes "NUL \<notin> set str"
  shows "json_escape_str str = concat (map escaped str)"
  using escape_loop_map [of str 0 0 "[]"] assms by (simp add: json_escape_str_def)

lemma escape_by_character_witness: "json_escape_str ''a/b'' = [CHR ''a'', BACKSLASH, CHR ''/'', CHR ''b'']"
  using escape_by_character [of "''a/b''"]
  by (simp add: NUL_def escaped_def char_escape_def BS_def LF_def CR_def TAB_def QUOTE_def BACKSLASH_def)

end
