(* ===== verification/Json_Tokener.thy ===== *)
theory Json_Tokener
  imports Json_Object
begin

text \<open>
  \<open>mod/applications/mod_http/json_tokener.c\<close>: the parser of JSON, an automaton with a stack.  A level
  of the stack is a \<open>json_srec\<close>; \<open>tk_level\<close> is the level \<open>depth\<close> points to and \<open>tk_below\<close> holds the
  levels under it, the innermost first, so \<open>depth\<close> is their number.  \<open>tk_pb\<close> are the bytes in the
  \<open>printbuf\<close> (theory \<open>Print_Buf\<close>).  The loop \<open>redo_char\<close> is a partial function; that it always ends
  is proved below.
\<close>

datatype tokener_state = T_eatws | T_start | T_finish | T_null | T_comment_start | T_comment
  | T_comment_eol | T_comment_end | T_string | T_string_escape | T_escape_unicode | T_boolean
  | T_number | T_array | T_array_add | T_array_sep | T_object_field_start | T_object_field
  | T_object_field_end | T_object_value | T_object_value_add | T_object_sep

datatype tokener_error = E_success | E_continue | E_depth | E_parse_eof | E_parse_unexpected
  | E_parse_null | E_parse_boolean | E_parse_number | E_parse_array | E_parse_object_key_name
  | E_parse_object_key_sep | E_parse_object_value_sep | E_parse_string | E_parse_comment

record json_srec =
  js_state :: tokener_state
  js_saved_state :: tokener_state
  js_current :: json
  js_obj_field_name :: "string option"

record tokener =
  tk_level :: json_srec
  tk_below :: "json_srec list"
  tk_pb :: string
  tk_obj :: json
  tk_is_double :: bool
  tk_st_pos :: nat
  tk_err :: tokener_error
  tk_ucs_char :: uint32_t
  tk_quote_char :: char

definition JSON_TOKENER_MAX_DEPTH :: nat where "JSON_TOKENER_MAX_DEPTH = 32"

definition reset_level :: json_srec where
  "reset_level = \<lparr>js_state = T_eatws, js_saved_state = T_start, js_current = J_Null, js_obj_field_name = None\<rparr>"

definition json_tokener_new :: tokener where
  "json_tokener_new = \<lparr>tk_level = reset_level, tk_below = [], tk_pb = [], tk_obj = J_Null, tk_is_double = False,
     tk_st_pos = 0, tk_err = E_success, tk_ucs_char = 0, tk_quote_char = NUL\<rparr>"

text \<open>Assignments to the current level.\<close>

definition set_states :: "tokener_state \<Rightarrow> tokener_state \<Rightarrow> tokener \<Rightarrow> tokener" where
  "set_states st saved tok = tok\<lparr>tk_level := (tk_level tok)\<lparr>js_state := st, js_saved_state := saved\<rparr>\<rparr>"

definition set_state :: "tokener_state \<Rightarrow> tokener \<Rightarrow> tokener" where
  "set_state st tok = tok\<lparr>tk_level := (tk_level tok)\<lparr>js_state := st\<rparr>\<rparr>"

definition set_current :: "json \<Rightarrow> tokener \<Rightarrow> tokener" where
  "set_current v tok = tok\<lparr>tk_level := (tk_level tok)\<lparr>js_current := v\<rparr>\<rparr>"

definition set_field_name :: "string option \<Rightarrow> tokener \<Rightarrow> tokener" where
  "set_field_name f tok = tok\<lparr>tk_level := (tk_level tok)\<lparr>js_obj_field_name := f\<rparr>\<rparr>"

definition pb_append :: "string \<Rightarrow> tokener \<Rightarrow> tokener" where
  "pb_append s tok = tok\<lparr>tk_pb := tk_pb tok @ s\<rparr>"

definition pb_reset :: "tokener \<Rightarrow> tokener" where
  "pb_reset tok = tok\<lparr>tk_pb := []\<rparr>"

text \<open>\<open>tok->pb->buf\<close> as a C string.\<close>

definition pb_text :: "tokener \<Rightarrow> string" where
  "pb_text tok = takeWhile (\<lambda>c. c \<noteq> NUL) (tk_pb tok)"

definition push_level :: "tokener_state \<Rightarrow> tokener \<Rightarrow> tokener" where
  "push_level st tok =
     tok\<lparr>tk_below := (tk_level tok)\<lparr>js_state := st\<rparr> # tk_below tok, tk_level := reset_level\<rparr>"

text \<open>\<open>strncasecmp(a, b, n) == 0\<close>.\<close>

definition c_strncaseeq :: "string \<Rightarrow> string \<Rightarrow> nat \<Rightarrow> bool" where
  "c_strncaseeq a b n \<longleftrightarrow> map c_tolower (take n a) = map c_tolower (take n b)"

subsection \<open>Escapes with four hexadecimal digits\<close>

definition hexdigit :: "char \<Rightarrow> uint32_t" where
  "hexdigit c = (if char_int c \<le> 57 then word_of_int (char_int c - 48)
                 else word_of_int (char_int c mod 8 + 9))"

text \<open>\<open>strchr(json_hex_chars, c)\<close>, which also finds the NUL that ends the string.\<close>

definition is_hex_char :: "char \<Rightarrow> bool" where
  "is_hex_char c \<longleftrightarrow> c \<in> set json_hex_chars \<or> c = NUL"

definition utf8_byte :: "uint32_t \<Rightarrow> char" where
  "utf8_byte w = char_of (unat w mod 256)"

definition utf_out :: "uint32_t \<Rightarrow> string" where
  "utf_out u =
     (if u < 0x80 then [utf8_byte u]
      else if u < 0x800
      then [utf8_byte (or 0xc0 (drop_bit 6 u)), utf8_byte (or 0x80 (and u 0x3f))]
      else [utf8_byte (or 0xe0 (drop_bit 12 u)), utf8_byte (or 0x80 (and (drop_bit 6 u) 0x3f)),
            utf8_byte (or 0x80 (and u 0x3f))])"

subsection \<open>One character\<close>

text \<open>What \<open>switch (state)\<close> ends with: \<open>break\<close>, \<open>goto redo_char\<close> or \<open>goto out\<close>.\<close>

datatype step_result = Break tokener | Redo_Char tokener | Out tokener

definition fail_with :: "tokener_error \<Rightarrow> tokener \<Rightarrow> step_result" where
  "fail_with e tok = Out (tok\<lparr>tk_err := e\<rparr>)"

definition finish_value :: "json \<Rightarrow> tokener \<Rightarrow> tokener" where
  "finish_value v tok = set_states T_eatws T_finish (set_current v tok)"

definition case_eatws :: "char \<Rightarrow> tokener \<Rightarrow> step_result" where
  "case_eatws c tok =
     (if c_isspace c then Break tok
      else if c = CHR ''/'' then Break (set_state T_comment_start (pb_append [c] (pb_reset tok)))
      else Redo_Char (set_state (js_saved_state (tk_level tok)) tok))"

definition case_start :: "char \<Rightarrow> tokener \<Rightarrow> step_result" where
  "case_start c tok =
     (if c = CHR ''{''
      then Break (set_current json_object_new_object (set_states T_eatws T_object_field_start tok))
      else if c = CHR ''[''
      then Break (set_current json_object_new_array (set_states T_eatws T_array tok))
      else if c = CHR ''N'' \<or> c = CHR ''n''
      then Redo_Char ((pb_reset (set_state T_null tok))\<lparr>tk_st_pos := 0\<rparr>)
      else if c = QUOTE \<or> c = CHR 0x27
      then Break ((pb_reset (set_state T_string tok))\<lparr>tk_quote_char := c\<rparr>)
      else if c = CHR ''T'' \<or> c = CHR ''t'' \<or> c = CHR ''F'' \<or> c = CHR ''f''
      then Redo_Char ((pb_reset (set_state T_boolean tok))\<lparr>tk_st_pos := 0\<rparr>)
      else if c_isdigit c \<or> c = CHR ''-''
      then Redo_Char ((pb_reset (set_state T_number tok))\<lparr>tk_is_double := False\<rparr>)
      else fail_with E_parse_unexpected tok)"

definition case_finish :: "tokener \<Rightarrow> step_result" where
  "case_finish tok =
     (case tk_below tok of
        [] \<Rightarrow> Out tok
      | level # below \<Rightarrow>
          Redo_Char (tok\<lparr>tk_obj := js_current (tk_level tok), tk_level := level, tk_below := below\<rparr>))"

definition case_null :: "char \<Rightarrow> tokener \<Rightarrow> step_result" where
  "case_null c tok0 =
     (let tok = pb_append [c] tok0
      in if c_strncaseeq ''null'' (pb_text tok) (min (tk_st_pos tok + 1) (length ''null''))
         then if tk_st_pos tok = length ''null'' then Redo_Char (finish_value J_Null tok)
              else Break (tok\<lparr>tk_st_pos := tk_st_pos tok + 1\<rparr>)
         else fail_with E_parse_null tok)"

definition case_boolean :: "char \<Rightarrow> tokener \<Rightarrow> step_result" where
  "case_boolean c tok0 =
     (let tok = pb_append [c] tok0
      in if c_strncaseeq ''true'' (pb_text tok) (min (tk_st_pos tok + 1) (length ''true''))
         then if tk_st_pos tok = length ''true'' then Redo_Char (finish_value (json_object_new_boolean 1) tok)
              else Break (tok\<lparr>tk_st_pos := tk_st_pos tok + 1\<rparr>)
         else if c_strncaseeq ''false'' (pb_text tok) (min (tk_st_pos tok + 1) (length ''false''))
         then if tk_st_pos tok = length ''false'' then Redo_Char (finish_value (json_object_new_boolean 0) tok)
              else Break (tok\<lparr>tk_st_pos := tk_st_pos tok + 1\<rparr>)
         else fail_with E_parse_boolean tok)"

definition case_comment_start :: "char \<Rightarrow> tokener \<Rightarrow> step_result" where
  "case_comment_start c tok =
     (if c = CHR ''*'' then Break (pb_append [c] (set_state T_comment tok))
      else if c = CHR ''/'' then Break (pb_append [c] (set_state T_comment_eol tok))
      else fail_with E_parse_comment tok)"

definition case_comment :: "char \<Rightarrow> tokener \<Rightarrow> step_result" where
  "case_comment c tok =
     Break (pb_append [c] (if c = CHR ''*'' then set_state T_comment_end tok else tok))"

definition case_comment_eol :: "char \<Rightarrow> tokener \<Rightarrow> step_result" where
  "case_comment_eol c tok =
     Break (if c = LF then set_state T_eatws tok else pb_append [c] tok)"

definition case_comment_end :: "char \<Rightarrow> tokener \<Rightarrow> step_result" where
  "case_comment_end c tok =
     Break (set_state (if c = CHR ''/'' then T_eatws else T_comment) (pb_append [c] tok))"

definition case_string :: "char \<Rightarrow> tokener \<Rightarrow> step_result" where
  "case_string c tok =
     (if c = tk_quote_char tok then Break (finish_value (json_object_new_string (pb_text tok)) tok)
      else if c = BACKSLASH then Break (set_states T_string_escape T_string tok)
      else Break (pb_append [c] tok))"

definition case_string_escape :: "char \<Rightarrow> tokener \<Rightarrow> step_result" where
  "case_string_escape c tok =
     (let saved = js_saved_state (tk_level tok)
      in if c = QUOTE \<or> c = BACKSLASH \<or> c = CHR ''/'' then Break (set_state saved (pb_append [c] tok))
         else if c = CHR ''b'' then Break (set_state saved (pb_append [BS] tok))
         else if c = CHR ''n'' then Break (set_state saved (pb_append [LF] tok))
         else if c = CHR ''r'' then Break (set_state saved (pb_append [CR] tok))
         else if c = CHR ''t'' then Break (set_state saved (pb_append [TAB] tok))
         else if c = CHR ''u''
         then Break (set_state T_escape_unicode (tok\<lparr>tk_ucs_char := 0, tk_st_pos := 0\<rparr>))
         else fail_with E_parse_string tok)"

definition case_escape_unicode :: "char \<Rightarrow> tokener \<Rightarrow> step_result" where
  "case_escape_unicode c tok =
     (if is_hex_char c
      then let u = tk_ucs_char tok + push_bit ((3 - tk_st_pos tok) * 4) (hexdigit c);
               tok1 = tok\<lparr>tk_ucs_char := u, tk_st_pos := tk_st_pos tok + 1\<rparr>
           in if tk_st_pos tok1 = 4
              then Break (set_state (js_saved_state (tk_level tok1)) (pb_append (utf_out u) tok1))
              else Break tok1
      else fail_with E_parse_string tok)"

definition case_number :: "char \<Rightarrow> tokener \<Rightarrow> step_result" where
  "case_number c tok =
     (if c \<in> set json_number_chars
      then Break ((pb_append [c] tok)\<lparr>tk_is_double := (if c = CHR ''.'' \<or> c = CHR ''e'' then True
                                                       else tk_is_double tok)\<rparr>)
      else if \<not> tk_is_double tok \<and> sscanf_d (pb_text tok) \<noteq> None
      then Redo_Char (finish_value (json_object_new_int (the (sscanf_d (pb_text tok)))) tok)
      else if tk_is_double tok \<and> sscanf_lf (pb_text tok) \<noteq> None
      then Redo_Char (finish_value (json_object_new_double (the (sscanf_lf (pb_text tok)))) tok)
      else fail_with E_parse_number tok)"

definition case_array :: "char \<Rightarrow> tokener \<Rightarrow> step_result" where
  "case_array c tok =
     (if c = CHR '']'' then Break (set_states T_eatws T_finish tok)
      else if length (tk_below tok) \<ge> JSON_TOKENER_MAX_DEPTH - 1 then fail_with E_depth tok
      else Redo_Char (push_level T_array_add tok))"

definition case_array_add :: "tokener \<Rightarrow> step_result" where
  "case_array_add tok =
     Redo_Char (set_states T_eatws T_array_sep
       (set_current (json_object_array_add (js_current (tk_level tok)) (tk_obj tok)) tok))"

definition case_array_sep :: "char \<Rightarrow> tokener \<Rightarrow> step_result" where
  "case_array_sep c tok =
     (if c = CHR '']'' then Break (set_states T_eatws T_finish tok)
      else if c = CHR '','' then Break (set_states T_eatws T_array tok)
      else fail_with E_parse_array tok)"

definition case_object_field_start :: "char \<Rightarrow> tokener \<Rightarrow> step_result" where
  "case_object_field_start c tok =
     (if c = CHR ''}'' then Break (set_states T_eatws T_finish tok)
      else if c = QUOTE \<or> c = CHR 0x27
      then Break (set_state T_object_field (pb_reset (tok\<lparr>tk_quote_char := c\<rparr>)))
      else fail_with E_parse_object_key_name tok)"

definition case_object_field :: "char \<Rightarrow> tokener \<Rightarrow> step_result" where
  "case_object_field c tok =
     (if c = tk_quote_char tok
      then Break (set_states T_eatws T_object_field_end (set_field_name (Some (pb_text tok)) tok))
      else if c = BACKSLASH then Break (set_states T_string_escape T_object_field tok)
      else Break (pb_append [c] tok))"

definition case_object_field_end :: "char \<Rightarrow> tokener \<Rightarrow> step_result" where
  "case_object_field_end c tok =
     (if c = CHR '':'' then Break (set_states T_eatws T_object_value tok)
      else fail_with E_parse_object_key_sep tok)"

definition case_object_value :: "tokener \<Rightarrow> step_result" where
  "case_object_value tok =
     (if length (tk_below tok) \<ge> JSON_TOKENER_MAX_DEPTH - 1 then fail_with E_depth tok
      else Redo_Char (push_level T_object_value_add tok))"

definition case_object_value_add :: "tokener \<Rightarrow> step_result" where
  "case_object_value_add tok =
     Redo_Char (set_states T_eatws T_object_sep (set_field_name None
       (set_current (json_object_object_add (js_current (tk_level tok))
          (the (js_obj_field_name (tk_level tok))) (tk_obj tok)) tok)))"

definition case_object_sep :: "char \<Rightarrow> tokener \<Rightarrow> step_result" where
  "case_object_sep c tok =
     (if c = CHR ''}'' then Break (set_states T_eatws T_finish tok)
      else if c = CHR '','' then Break (set_states T_eatws T_object_field_start tok)
      else fail_with E_parse_object_value_sep tok)"

definition tokener_step :: "char \<Rightarrow> tokener \<Rightarrow> step_result" where
  "tokener_step c tok =
     (case js_state (tk_level tok) of
        T_eatws \<Rightarrow> case_eatws c tok
      | T_start \<Rightarrow> case_start c tok
      | T_finish \<Rightarrow> case_finish tok
      | T_null \<Rightarrow> case_null c tok
      | T_comment_start \<Rightarrow> case_comment_start c tok
      | T_comment \<Rightarrow> case_comment c tok
      | T_comment_eol \<Rightarrow> case_comment_eol c tok
      | T_comment_end \<Rightarrow> case_comment_end c tok
      | T_string \<Rightarrow> case_string c tok
      | T_string_escape \<Rightarrow> case_string_escape c tok
      | T_escape_unicode \<Rightarrow> case_escape_unicode c tok
      | T_boolean \<Rightarrow> case_boolean c tok
      | T_number \<Rightarrow> case_number c tok
      | T_array \<Rightarrow> case_array c tok
      | T_array_add \<Rightarrow> case_array_add tok
      | T_array_sep \<Rightarrow> case_array_sep c tok
      | T_object_field_start \<Rightarrow> case_object_field_start c tok
      | T_object_field \<Rightarrow> case_object_field c tok
      | T_object_field_end \<Rightarrow> case_object_field_end c tok
      | T_object_value \<Rightarrow> case_object_value tok
      | T_object_value_add \<Rightarrow> case_object_value_add tok
      | T_object_sep \<Rightarrow> case_object_sep c tok)"

text \<open>\<open>redo_char\<close>: \<open>Inl\<close> for the jump to \<open>out\<close>, \<open>Inr\<close> when the next character is read.\<close>

partial_function (option) redo_char :: "char \<Rightarrow> tokener \<Rightarrow> (tokener + tokener) option" where
  "redo_char c tok =
     (case tokener_step c tok of
        Break tok' \<Rightarrow> Some (Inr tok')
      | Out tok' \<Rightarrow> Some (Inl tok')
      | Redo_Char tok' \<Rightarrow> redo_char c tok')"

subsection \<open>The loop over the text\<close>

definition at_end_of_value :: "tokener \<Rightarrow> bool" where
  "at_end_of_value tok \<longleftrightarrow> tk_below tok = [] \<and> js_state (tk_level tok) = T_eatws \<and>
     js_saved_state (tk_level tok) = T_finish"

text \<open>\<open>len1\<close> is negative when the text is only ended by its NUL.\<close>

function parse_loop :: "string \<Rightarrow> int \<Rightarrow> nat \<Rightarrow> tokener \<Rightarrow> tokener option" where
  "parse_loop str len1 i tok =
     (if int i = len1
      then Some (tok\<lparr>tk_err := (if at_end_of_value tok then E_success else E_continue)\<rparr>)
      else case redo_char (c_at str i) tok of
             None \<Rightarrow> None
           | Some (Inl tok') \<Rightarrow> Some tok'
           | Some (Inr tok') \<Rightarrow>
               if c_at str i \<noteq> NUL then parse_loop str len1 (i + 1) tok'
               else if js_state (tk_level tok') \<noteq> T_finish \<and> js_saved_state (tk_level tok') \<noteq> T_finish
               then Some (tok'\<lparr>tk_err := E_parse_eof\<rparr>) else Some tok')"
  by pat_completeness auto
termination
  by (relation "measure (\<lambda>(str, len1, i, tok). length str - i)") (auto simp: c_at_def split: if_splits)

declare parse_loop.simps [simp del]

definition json_tokener_parse_ex :: "tokener \<Rightarrow> string \<Rightarrow> int \<Rightarrow> (tokener \<times> json) option" where
  "json_tokener_parse_ex tok str len1 =
     (case parse_loop str len1 0 (tok\<lparr>tk_err := E_success, tk_obj := J_Null\<rparr>) of
        None \<Rightarrow> None
      | Some tok' \<Rightarrow>
          Some (tok', if tk_err tok' = E_success then js_current (tk_level tok') else J_Null))"

text \<open>An error is returned as a pointer made from its code.\<close>

definition json_tokener_parse :: "string \<Rightarrow> (tokener_error + json) option" where
  "json_tokener_parse str =
     (case json_tokener_parse_ex json_tokener_new str (- 1) of
        None \<Rightarrow> None
      | Some (tok, obj) \<Rightarrow> Some (if tk_err tok \<noteq> E_success then Inl (tk_err tok) else Inr obj))"

subsection \<open>The loop ends\<close>

fun state_rank :: "tokener_state \<Rightarrow> nat" where
  "state_rank T_array = 8"
| "state_rank T_object_value = 8"
| "state_rank T_start = 4"
| "state_rank T_number = 3"
| "state_rank T_null = 3"
| "state_rank T_boolean = 3"
| "state_rank T_array_add = 2"
| "state_rank T_object_value_add = 2"
| "state_rank T_finish = 1"
| "state_rank _ = 0"

definition level_rank :: "json_srec \<Rightarrow> nat" where
  "level_rank l = (if js_state l = T_eatws then 1 + state_rank (js_saved_state l) else state_rank (js_state l))"

definition tok_rank :: "tokener \<Rightarrow> nat" where
  "tok_rank tok = sum_list (map level_rank (tk_level tok # tk_below tok))"

definition saved_ok :: "json_srec \<Rightarrow> bool" where
  "saved_ok l \<longleftrightarrow> js_saved_state l \<noteq> T_eatws"

text \<open>What every step keeps: no saved state is \<open>eatws\<close>, and the stack is deep enough.\<close>

definition tok_inv :: "tokener \<Rightarrow> bool" where
  "tok_inv tok \<longleftrightarrow> list_all saved_ok (tk_level tok # tk_below tok) \<and> length (tk_below tok) < JSON_TOKENER_MAX_DEPTH"

lemmas set_level_defs = set_states_def set_state_def set_current_def set_field_name_def pb_append_def pb_reset_def
  finish_value_def push_level_def fail_with_def

lemmas case_defs = case_eatws_def case_start_def case_finish_def case_null_def case_comment_start_def
  case_comment_def case_comment_eol_def case_comment_end_def case_string_def case_string_escape_def
  case_escape_unicode_def case_boolean_def case_number_def case_array_def case_array_add_def
  case_array_sep_def case_object_field_start_def case_object_field_def case_object_field_end_def
  case_object_value_def case_object_value_add_def case_object_sep_def

lemma tok_inv_simps:
  "tok_inv (set_state st tok) = tok_inv tok"
  "sv \<noteq> T_eatws \<Longrightarrow> tok_inv tok \<Longrightarrow> tok_inv (set_states st sv tok)"
  "tok_inv (set_current v tok) = tok_inv tok"
  "tok_inv (set_field_name f tok) = tok_inv tok"
  "tok_inv (pb_append s tok) = tok_inv tok"
  "tok_inv (pb_reset tok) = tok_inv tok"
  "tok_inv tok \<Longrightarrow> tok_inv (finish_value v tok)"
  "tok_inv (tok\<lparr>tk_st_pos := n\<rparr>) = tok_inv tok"
  "tok_inv (tok\<lparr>tk_is_double := b\<rparr>) = tok_inv tok"
  "tok_inv (tok\<lparr>tk_quote_char := c\<rparr>) = tok_inv tok"
  "tok_inv (tok\<lparr>tk_ucs_char := u\<rparr>) = tok_inv tok"
  "tok_inv (tok\<lparr>tk_err := e\<rparr>) = tok_inv tok"
  by (auto simp: tok_inv_def set_level_defs saved_ok_def)

lemma tok_rank_simps:
  "tok_rank (set_state st tok) = level_rank ((tk_level tok)\<lparr>js_state := st\<rparr>) + sum_list (map level_rank (tk_below tok))"
  "tok_rank (set_states st sv tok) =
     level_rank ((tk_level tok)\<lparr>js_state := st, js_saved_state := sv\<rparr>) + sum_list (map level_rank (tk_below tok))"
  "tok_rank (pb_reset tok) = tok_rank tok"
  "tok_rank (tok\<lparr>tk_st_pos := n\<rparr>) = tok_rank tok"
  "tok_rank (tok\<lparr>tk_is_double := b\<rparr>) = tok_rank tok"
  "tk_level (set_current v tok) = (tk_level tok)\<lparr>js_current := v\<rparr>" "tk_below (set_current v tok) = tk_below tok"
  "tk_level (set_field_name f tok) = (tk_level tok)\<lparr>js_obj_field_name := f\<rparr>"
  "tk_below (set_field_name f tok) = tk_below tok"
  "tk_level (pb_append s tok) = tk_level tok" "tk_below (pb_append s tok) = tk_below tok"
  by (simp_all add: tok_rank_def set_level_defs)

definition steps_down :: "tokener \<Rightarrow> step_result \<Rightarrow> bool" where
  "steps_down tok r \<longleftrightarrow> (case r of Redo_Char t \<Rightarrow> tok_inv t \<and> tok_rank t < tok_rank tok | _ \<Rightarrow> True)"

lemma steps_down_if:
  "(b \<Longrightarrow> steps_down tok x) \<Longrightarrow> (\<not> b \<Longrightarrow> steps_down tok y) \<Longrightarrow> steps_down tok (if b then x else y)"
  by simp

lemma steps_down_simps:
  "steps_down tok (Break t)" "steps_down tok (Out t)" "steps_down tok (fail_with e t)"
  "steps_down tok (Redo_Char t) \<longleftrightarrow> tok_inv t \<and> tok_rank t < tok_rank tok"
  by (simp_all add: steps_down_def fail_with_def)

lemma push_level_down:
  assumes "tok_inv tok" "\<not> length (tk_below tok) \<ge> JSON_TOKENER_MAX_DEPTH - 1"
    and "js_state (tk_level tok) = T_array \<or> js_state (tk_level tok) = T_object_value" "st = T_array_add \<or> st = T_object_value_add"
  shows "tok_inv (push_level st tok) \<and> tok_rank (push_level st tok) < tok_rank tok"
  using assms by (auto simp: push_level_def tok_inv_def tok_rank_def level_rank_def saved_ok_def reset_level_def
      JSON_TOKENER_MAX_DEPTH_def)

lemma pop_level_down:
  assumes "tok_inv tok" "js_state (tk_level tok) = T_finish" "tk_below tok = l # ls"
  shows "tok_inv (tok\<lparr>tk_obj := v, tk_level := l, tk_below := ls\<rparr>) \<and>
    tok_rank (tok\<lparr>tk_obj := v, tk_level := l, tk_below := ls\<rparr>) < tok_rank tok"
  using assms by (auto simp: tok_inv_def tok_rank_def level_rank_def)

lemma steps_down_inv: "tok_inv tok \<Longrightarrow> steps_down tok (tokener_step c tok)"
proof -
  assume inv: "tok_inv tok"
  have saved: "js_saved_state (tk_level tok) \<noteq> T_eatws" using inv by (simp add: tok_inv_def saved_ok_def)
  have rank: "tok_rank tok = level_rank (tk_level tok) + sum_list (map level_rank (tk_below tok))"
    by (simp add: tok_rank_def)
  show ?thesis
    unfolding tokener_step_def
  proof (cases "js_state (tk_level tok)"; simp only: tokener_state.case Let_def)
    assume st: "js_state (tk_level tok) = T_finish"
    show "steps_down tok (case_finish tok)"
      using pop_level_down [OF inv st] by (auto simp: case_finish_def steps_down_simps split: list.split)
  next
    assume st: "js_state (tk_level tok) = T_array"
    show "steps_down tok (case_array c tok)"
      unfolding case_array_def using push_level_down [OF inv] st
      by (intro steps_down_if) (simp_all add: steps_down_simps)
  next
    assume st: "js_state (tk_level tok) = T_object_value"
    show "steps_down tok (case_object_value tok)"
      unfolding case_object_value_def using push_level_down [OF inv] st
      by (intro steps_down_if) (simp_all add: steps_down_simps)
  qed (simp_all add: case_defs Let_def steps_down_simps tok_inv_simps tok_rank_simps rank level_rank_def
      finish_value_def inv saved)
qed

lemma step_redo:
  "tokener_step c tok = Redo_Char tok' \<Longrightarrow> tok_inv tok \<Longrightarrow> tok_inv tok' \<and> tok_rank tok' < tok_rank tok"
  using steps_down_inv [of tok c] by (simp add: steps_down_simps)

definition step_keeps :: "step_result \<Rightarrow> bool" where
  "step_keeps r \<longleftrightarrow> (case r of Break t \<Rightarrow> tok_inv t | Out t \<Rightarrow> tok_inv t | Redo_Char _ \<Rightarrow> True)"

lemma step_keeps_if: "(b \<Longrightarrow> step_keeps x) \<Longrightarrow> (\<not> b \<Longrightarrow> step_keeps y) \<Longrightarrow> step_keeps (if b then x else y)"
  by simp

lemma step_keeps_simps:
  "step_keeps (Break t) = tok_inv t" "step_keeps (Out t) = tok_inv t" "step_keeps (Redo_Char t)"
  "step_keeps (fail_with e t) = tok_inv t"
  by (simp_all add: step_keeps_def fail_with_def tok_inv_simps)

lemma step_keeps_inv: "tok_inv tok \<Longrightarrow> step_keeps (tokener_step c tok)"
  unfolding tokener_step_def
  by (cases "js_state (tk_level tok)"; simp only: tokener_state.case case_defs Let_def)
    (intro step_keeps_if, simp_all add: step_keeps_simps tok_inv_simps split: list.split)

lemma step_break: "tokener_step c tok = Break tok' \<Longrightarrow> tok_inv tok \<Longrightarrow> tok_inv tok'"
  using step_keeps_inv [of tok c] by (simp add: step_keeps_simps)

lemma step_out: "tokener_step c tok = Out tok' \<Longrightarrow> tok_inv tok \<Longrightarrow> tok_inv tok'"
  using step_keeps_inv [of tok c] by (simp add: step_keeps_simps)

lemma redo_char_ends:
  "tok_inv tok \<Longrightarrow> \<exists>r. redo_char c tok = Some r \<and> (case r of Inl t \<Rightarrow> tok_inv t | Inr t \<Rightarrow> tok_inv t)"
proof (induction "tok_rank tok" arbitrary: tok rule: less_induct)
  case less
  show ?case
  proof (cases "tokener_step c tok")
    case (Break t)
    then show ?thesis using step_break [OF Break less.prems] by (subst redo_char.simps) simp
  next
    case (Out t)
    then show ?thesis using step_out [OF Out less.prems] by (subst redo_char.simps) simp
  next
    case (Redo_Char t)
    then have t: "tok_inv t" "tok_rank t < tok_rank tok" using step_redo [OF Redo_Char less.prems] by simp_all
    from less.hyps [OF t(2,1)] show ?thesis using Redo_Char by (subst redo_char.simps) simp
  qed
qed

lemma parse_loop_ends:
  "tok_inv tok \<Longrightarrow> \<exists>t. parse_loop str len1 i tok = Some t \<and> tok_inv t"
proof (induction str len1 i tok rule: parse_loop.induct)
  case (1 str len1 i tok)
  show ?case
  proof (cases "int i = len1")
    case True
    then show ?thesis using "1.prems" by (subst parse_loop.simps) (simp add: tok_inv_def)
  next
    case False
    obtain r where r: "redo_char (c_at str i) tok = Some r" "case r of Inl t \<Rightarrow> tok_inv t | Inr t \<Rightarrow> tok_inv t"
      using redo_char_ends [OF "1.prems"] by blast
    show ?thesis
    proof (cases r)
      case (Inl t)
      then show ?thesis using r False by (subst parse_loop.simps) simp
    next
      case (Inr t)
      then have inv: "tok_inv t" using r(2) by simp
      show ?thesis
      proof (cases "c_at str i = NUL")
        case True
        then show ?thesis using Inr r(1) False inv by (subst parse_loop.simps) (simp add: tok_inv_def)
      next
        case not_end: False
        have "\<exists>t'. parse_loop str len1 (i + 1) t = Some t' \<and> tok_inv t'"
          using "1.IH" [OF False r(1) Inr not_end inv] .
        then show ?thesis using Inr r(1) False not_end by (subst parse_loop.simps) simp
      qed
    qed
  qed
qed

lemma json_tokener_new_inv: "tok_inv json_tokener_new"
  by (simp add: tok_inv_def json_tokener_new_def saved_ok_def reset_level_def JSON_TOKENER_MAX_DEPTH_def)

text \<open>
C12: The parser ends on every text and every length given, and the level it works on is always one
  of the 32 of its stack.
\<close>

theorem json_parse_terminates:
  "\<exists>tok obj. json_tokener_parse_ex json_tokener_new str len1 = Some (tok, obj) \<and>
     length (tk_below tok) < JSON_TOKENER_MAX_DEPTH"
proof -
  have "tok_inv (json_tokener_new\<lparr>tk_err := E_success, tk_obj := J_Null\<rparr>)"
    using json_tokener_new_inv by (simp add: tok_inv_def)
  from parse_loop_ends [OF this, of str len1 0] show ?thesis
    by (auto simp: json_tokener_parse_ex_def tok_inv_def)
qed

subsection \<open>Feeding a text to the parser\<close>

abbreviation lvl :: "tokener_state \<Rightarrow> tokener_state \<Rightarrow> json \<Rightarrow> string option \<Rightarrow> json_srec" where
  "lvl st sv cur f \<equiv> \<lparr>js_state = st, js_saved_state = sv, js_current = cur, js_obj_field_name = f\<rparr>"

fun feed :: "tokener \<Rightarrow> string \<Rightarrow> tokener option" where
  "feed tok [] = Some tok"
| "feed tok (c # cs) = (case redo_char c tok of Some (Inr tok') \<Rightarrow> feed tok' cs | _ \<Rightarrow> None)"

lemma feed_append: "feed tok (s @ s') = Option.bind (feed tok s) (\<lambda>t. feed t s')"
  by (induction s arbitrary: tok) (auto split: option.split sum.split)

lemma feed_trans: "feed t s = Some t' \<Longrightarrow> feed t' s' = r \<Longrightarrow> feed t (s @ s') = r"
  by (simp add: feed_append)

lemma redo_break: "tokener_step c tok = Break tok' \<Longrightarrow> redo_char c tok = Some (Inr tok')"
  by (subst redo_char.simps) simp

lemma redo_again: "tokener_step c tok = Redo_Char tok' \<Longrightarrow> redo_char c tok = redo_char c tok'"
  by (subst redo_char.simps) simp

lemma redo_out: "tokener_step c tok = Out tok' \<Longrightarrow> redo_char c tok = Some (Inl tok')"
  by (subst redo_char.simps) simp

lemma feed_one: "tokener_step c tok = Break tok' \<Longrightarrow> feed tok (c # cs) = feed tok' cs"
  by (simp add: redo_break)

lemma feed_same: "redo_char c tok = redo_char c tok' \<Longrightarrow> feed tok (c # cs) = feed tok' (c # cs)"
  by simp

lemma parse_loop_feed:
  "feed tok cs = Some tok' \<Longrightarrow> NUL \<notin> set cs \<Longrightarrow>
    parse_loop (pre @ cs @ rest) (- 1) (length pre) tok = parse_loop (pre @ cs @ rest) (- 1) (length (pre @ cs)) tok'"
proof (induction cs arbitrary: pre tok)
  case (Cons c cs)
  then obtain t where t: "redo_char c tok = Some (Inr t)" "feed t cs = Some tok'"
    by (auto split: option.splits sum.splits)
  have at: "c_at (pre @ (c # cs) @ rest) (length pre) = c" by (simp add: c_at_def nth_append)
  have "parse_loop (pre @ (c # cs) @ rest) (- 1) (length pre) tok =
      parse_loop ((pre @ [c]) @ cs @ rest) (- 1) (length (pre @ [c])) t"
  proof -
    have "c \<noteq> NUL" using Cons.prems(2) by auto
    then show ?thesis using t(1) at by (subst parse_loop.simps) simp
  qed
  also have "\<dots> = parse_loop ((pre @ [c]) @ cs @ rest) (- 1) (length ((pre @ [c]) @ cs)) tok'"
    by (rule Cons.IH [OF t(2)]) (use Cons.prems(2) in simp)
  finally show ?case by simp
qed simp

subsection \<open>The characters of a string\<close>

text \<open>The parser is inside a string or a key; the saved state depends on the last escape.\<close>

definition inside :: "tokener_state \<Rightarrow> json \<Rightarrow> json_srec list \<Rightarrow> string \<Rightarrow> tokener_error \<Rightarrow> tokener \<Rightarrow> bool" where
  "inside st cur ls pb err t \<longleftrightarrow> (\<exists>sv. tk_level t = lvl st sv cur None) \<and> tk_below t = ls \<and> tk_pb t = pb \<and>
     tk_err t = err \<and> tk_quote_char t = QUOTE"

lemmas special_chars = BS_def LF_def CR_def TAB_def QUOTE_def BACKSLASH_def NUL_def

lemma hexdigit_hex:
  assumes "n < 16"
  shows "is_hex_char (json_hex_chars ! n) \<and> hexdigit (json_hex_chars ! n) = word_of_nat n"
proof -
  from assms have "n \<in> {0, 1, 2, 3, 4, 5, 6, 7, 8, 9, 10, 11, 12, 13, 14, 15}"
    by (simp only: insert_iff empty_iff) presburger
  then show ?thesis
    by (auto simp: json_hex_chars_def is_hex_char_def hexdigit_def char_int_def)
qed

lemma utf_out_small:
  assumes "n < 32"
  shows "utf_out (push_bit 4 (word_of_nat (n div 16)) + word_of_nat (n mod 16)) = [char_of n]"
proof -
  have "push_bit 4 (word_of_nat (n div 16)) + word_of_nat (n mod 16) = (word_of_nat n :: uint32_t)"
  proof -
    have "push_bit 4 (word_of_nat (n div 16)) + word_of_nat (n mod 16) =
        (word_of_nat (n div 16 * 16 + n mod 16) :: uint32_t)"
      by (simp only: push_bit_eq_mult of_nat_add of_nat_mult) simp
    then show ?thesis by (simp only: div_mult_mod_eq)
  qed
  moreover have "unat (word_of_nat n :: uint32_t) = n" using assms by (simp add: unat_of_nat)
  ultimately show ?thesis using assms
    by (simp add: utf_out_def utf8_byte_def word_less_nat_alt)
qed

lemma feed_unicode:
  assumes "tk_level t = lvl T_escape_unicode sv cur None" "tk_ucs_char t = 0" "tk_st_pos t = 0" "n < 32"
  shows "\<exists>t'. feed t [CHR ''0'', CHR ''0'', json_hex_chars ! (n div 16), json_hex_chars ! (n mod 16)] = Some t' \<and>
    tk_level t' = lvl sv sv cur None \<and> tk_below t' = tk_below t \<and> tk_pb t' = tk_pb t @ [char_of n] \<and>
    tk_err t' = tk_err t \<and> tk_quote_char t' = tk_quote_char t"
proof -
  have zero: "is_hex_char CHR ''0''" "hexdigit CHR ''0'' = 0"
    using hexdigit_hex [of 0] by (simp_all add: json_hex_chars_def)
  have hex: "is_hex_char (json_hex_chars ! (n div 16))" "is_hex_char (json_hex_chars ! (n mod 16))"
    "hexdigit (json_hex_chars ! (n div 16)) = word_of_nat (n div 16)"
    "hexdigit (json_hex_chars ! (n mod 16)) = word_of_nat (n mod 16)"
    using hexdigit_hex [of "n div 16"] hexdigit_hex [of "n mod 16"] assms(4) by simp_all
  show ?thesis
    using assms(1-3) zero hex utf_out_small [OF assms(4)]
    by (simp add: redo_break tokener_step_def case_escape_unicode_def set_level_defs Let_def)
qed

definition esc_letter :: "char \<Rightarrow> char" where
  "esc_letter c = (if c = BS then CHR ''b'' else if c = LF then CHR ''n'' else if c = CR then CHR ''r''
     else if c = TAB then CHR ''t'' else c)"

lemma simple_escapes:
  "c \<in> {BS, LF, CR, TAB, QUOTE, BACKSLASH, CHR ''/''} \<Longrightarrow> char_escape c = Some [BACKSLASH, esc_letter c]"
  by (elim insertE emptyE) (simp_all add: char_escape_def esc_letter_def special_chars)

lemma step_simple_escape:
  assumes "c \<in> {BS, LF, CR, TAB, QUOTE, BACKSLASH, CHR ''/''}" "tk_level t = lvl T_string_escape st cur None"
    "tk_below t = ls" "tk_pb t = pb" "tk_err t = err" "tk_quote_char t = QUOTE"
  shows "\<exists>t2. tokener_step (esc_letter c) t = Break t2 \<and> inside st cur ls (pb @ [c]) err t2"
  using assms(1)
proof (elim insertE emptyE)
qed (use assms(2-6) in \<open>simp_all add: inside_def tokener_step_def case_string_escape_def set_level_defs
    esc_letter_def special_chars\<close>)

lemma feed_escaped:
  assumes "inside st cur ls pb err t" "st = T_string \<or> st = T_object_field" "c \<noteq> NUL"
  shows "\<exists>t'. feed t (escaped c) = Some t' \<and> inside st cur ls (pb @ [c]) err t'"
proof (cases "char_escape c")
  case None
  then have c: "c \<noteq> QUOTE" "c \<noteq> BACKSLASH" by (auto simp: char_escape_def split: if_splits)
  show ?thesis
    using assms None c
    by (auto simp: inside_def escaped_def redo_break tokener_step_def case_string_def case_object_field_def
        set_level_defs)
next
  case (Some esc)
  have bslash: "\<exists>t1. tokener_step BACKSLASH t = Break t1 \<and> tk_level t1 = lvl T_string_escape st cur None \<and>
      tk_below t1 = ls \<and> tk_pb t1 = pb \<and> tk_err t1 = err \<and> tk_quote_char t1 = QUOTE"
    using assms(1,2)
    by (auto simp: inside_def tokener_step_def case_string_def case_object_field_def set_level_defs special_chars)
  then obtain t1 where t1: "tokener_step BACKSLASH t = Break t1" "tk_level t1 = lvl T_string_escape st cur None"
    "tk_below t1 = ls" "tk_pb t1 = pb" "tk_err t1 = err" "tk_quote_char t1 = QUOTE" by blast
  show ?thesis
  proof (cases "c \<in> {BS, LF, CR, TAB, QUOTE, BACKSLASH, CHR ''/''}")
    case True
    have "\<exists>t2. tokener_step (esc_letter c) t1 = Break t2 \<and> inside st cur ls (pb @ [c]) err t2"
      using True t1(2-6) by (rule step_simple_escape)
    then show ?thesis using t1(1) Some simple_escapes [OF True] by (auto simp: escaped_def redo_break)
  next
    case False
    then have n: "(of_char c :: nat) < 32" and esc: "esc = [BACKSLASH, CHR ''u'', CHR ''0'', CHR ''0'',
        json_hex_chars ! (of_char c div 16), json_hex_chars ! (of_char c mod 16)]"
      using Some by (auto simp: char_escape_def split: if_splits)
    obtain t2 where t2: "tokener_step CHR ''u'' t1 = Break t2" "tk_level t2 = lvl T_escape_unicode st cur None"
      "tk_below t2 = ls" "tk_pb t2 = pb" "tk_err t2 = err" "tk_quote_char t2 = QUOTE" "tk_ucs_char t2 = 0"
      "tk_st_pos t2 = 0"
      using t1(2-6)
      by (auto simp: tokener_step_def case_string_escape_def set_level_defs special_chars)
    obtain t3 where "feed t2 [CHR ''0'', CHR ''0'', json_hex_chars ! (of_char c div 16),
        json_hex_chars ! (of_char c mod 16)] = Some t3" "inside st cur ls (pb @ [c]) err t3"
      using feed_unicode [OF t2(2,7,8) n] t2(3-6) by (auto simp: inside_def)
    then show ?thesis using t1(1) t2(1) Some esc by (simp add: escaped_def redo_break)
  qed
qed

lemma feed_string:
  assumes "inside st cur ls pb err t" "st = T_string \<or> st = T_object_field" "NUL \<notin> set s"
  shows "\<exists>t'. feed t (concat (map escaped s)) = Some t' \<and> inside st cur ls (pb @ s) err t'"
  using assms(1,3)
proof (induction s arbitrary: t pb)
  case Nil
  then show ?case by simp
next
  case (Cons c s)
  obtain t1 where t1: "feed t (escaped c) = Some t1" "inside st cur ls (pb @ [c]) err t1"
    using feed_escaped [OF Cons.prems(1) assms(2), of c] Cons.prems(2) by auto
  with Cons.IH [OF t1(2)] Cons.prems(2) show ?case by (auto simp: feed_append)
qed

subsection \<open>What is printed is parsed back\<close>

text \<open>The values whose text is exact: no doubles, no NUL inside a string, different keys.\<close>

fun plain_json :: "json \<Rightarrow> bool" where
  "plain_json J_Null = True"
| "plain_json (J_Boolean b) = True"
| "plain_json (J_Double d) = False"
| "plain_json (J_Int i) = (- (2 ^ 31) \<le> i \<and> i < 2 ^ 31)"
| "plain_json (J_Object kvs) =
     (distinct (map fst kvs) \<and> list_all (\<lambda>(k, v). NUL \<notin> set k \<and> plain_json v) kvs)"
| "plain_json (J_Array xs) = list_all plain_json xs"
| "plain_json (J_String s) = (NUL \<notin> set s)"

fun json_depth :: "json \<Rightarrow> nat" where
  "json_depth (J_Object kvs) = foldr (\<lambda>(k, v) m. max (Suc (json_depth v)) m) kvs 0"
| "json_depth (J_Array xs) = foldr (\<lambda>v m. max (Suc (json_depth v)) m) xs 0"
| "json_depth _ = 0"

definition value_done :: "json \<Rightarrow> json_srec list \<Rightarrow> tokener_error \<Rightarrow> tokener \<Rightarrow> bool" where
  "value_done v ls err t \<longleftrightarrow> tk_level t = lvl T_eatws T_finish v None \<and> tk_below t = ls \<and> tk_err t = err"

text \<open>
  Read on a new level, the text of \<open>v\<close> leaves the parser at the end of the value, at the latest when
  it sees the next character, which is a NUL, a blank or a comma.
\<close>

definition follow :: "char \<Rightarrow> bool" where
  "follow c \<longleftrightarrow> c = NUL \<or> c = CHR '' '' \<or> c = CHR '',''"

definition reads :: "json \<Rightarrow> bool" where
  "reads v \<longleftrightarrow> (\<forall>t ls err. tk_level t = reset_level \<and> tk_below t = ls \<and> tk_err t = err \<and>
       json_depth v + length ls < JSON_TOKENER_MAX_DEPTH \<longrightarrow>
     (\<exists>t'. feed t (json_object_to_json_string v) = Some t' \<and>
        (\<forall>c. follow c \<longrightarrow> (\<exists>t''. value_done v ls err t'' \<and> redo_char c t' = redo_char c t''))))"

lemma readsI:
  assumes "\<And>t :: tokener. tk_level t = reset_level \<Longrightarrow> json_depth v + length (tk_below t) < JSON_TOKENER_MAX_DEPTH \<Longrightarrow>
    \<exists>t'. feed t (json_object_to_json_string v) = Some t' \<and>
      (\<forall>c. follow c \<longrightarrow> (\<exists>t''. value_done v (tk_below t) (tk_err t) t'' \<and> redo_char c t' = redo_char c t''))"
  shows "reads v"
  unfolding reads_def using assms by blast

lemma readsD:
  assumes "reads v" "tk_level t = reset_level" "json_depth v + length (tk_below t) < JSON_TOKENER_MAX_DEPTH"
  shows "\<exists>t'. feed t (json_object_to_json_string v) = Some t' \<and>
    (\<forall>c. follow c \<longrightarrow> (\<exists>t''. value_done v (tk_below t) (tk_err t) t'' \<and> redo_char c t' = redo_char c t''))"
  using assms unfolding reads_def by blast

text \<open>Values that end with their last character, and those the next character ends.\<close>

lemma reads_closed:
  assumes "\<And>t :: tokener. tk_level t = reset_level \<Longrightarrow> json_depth v + length (tk_below t) < JSON_TOKENER_MAX_DEPTH \<Longrightarrow>
    \<exists>t'. feed t (json_object_to_json_string v) = Some t' \<and> value_done v (tk_below t) (tk_err t) t'"
  shows "reads v"
  by (rule readsI) (use assms in blast)

lemma reads_open:
  assumes "\<And>t :: tokener. tk_level t = reset_level \<Longrightarrow>
    \<exists>t'. feed t (json_object_to_json_string v) = Some t' \<and>
      (\<forall>c. follow c \<longrightarrow> (\<exists>t''. value_done v (tk_below t) (tk_err t) t'' \<and> tokener_step c t' = Redo_Char t''))"
  shows "reads v"
  by (rule readsI) (use assms redo_again in blast)

lemma redo_reset_level:
  assumes "tk_level t = reset_level" "\<not> c_isspace c" "c \<noteq> CHR ''/''"
  shows "redo_char c t = redo_char c (t\<lparr>tk_level := lvl T_start T_start J_Null None\<rparr>)"
proof -
  have "tokener_step c t = Redo_Char (t\<lparr>tk_level := lvl T_start T_start J_Null None\<rparr>)"
    using assms by (simp add: tokener_step_def case_eatws_def set_level_defs reset_level_def)
  then show ?thesis by (rule redo_again)
qed

lemmas step_defs = tokener_step_def case_defs set_level_defs reset_level_def Let_def

lemma follow_cases: "follow c \<Longrightarrow> c \<notin> set json_number_chars \<and> (c_isspace c \<or> c = NUL \<or> c = CHR '','')"
  by (auto simp: follow_def json_number_chars_def c_isspace_def char_int_def NUL_def)

lemma feed_start:
  assumes "tk_level t = reset_level" "\<not> c_isspace c" "c \<noteq> CHR ''/''"
  shows "feed t (c # cs) = feed (t\<lparr>tk_level := lvl T_start T_start J_Null None\<rparr>) (c # cs)"
  by (rule feed_same [OF redo_reset_level [OF assms]])

lemma feed_literal_start:
  assumes "tk_level t = reset_level" "tokener_step c (t\<lparr>tk_level := lvl T_start T_start J_Null None\<rparr>) = Redo_Char t1"
    "\<not> c_isspace c" "c \<noteq> CHR ''/''"
  shows "feed t (c # cs) = feed t1 (c # cs)"
  using feed_start [OF assms(1,3,4)] redo_again [OF assms(2)] by simp

lemma reads_null: "reads J_Null"
proof (rule reads_open)
  fix t :: tokener
  assume t: "tk_level t = reset_level"
  let ?t1 = "t\<lparr>tk_level := lvl T_null T_start J_Null None, tk_pb := [], tk_st_pos := 0\<rparr>"
  let ?t2 = "?t1\<lparr>tk_pb := ''null'', tk_st_pos := 4\<rparr>"
  have "feed t ''null'' = feed ?t1 ''null''"
    by (rule feed_literal_start [OF t]) (simp_all add: step_defs c_isspace_def char_int_def QUOTE_def)
  also have "\<dots> = Some ?t2"
    by (simp add: redo_break step_defs c_strncaseeq_def pb_text_def NUL_def)
  finally have "feed t ''null'' = Some ?t2" .
  moreover have "tokener_step c ?t2 = Redo_Char (?t2\<lparr>tk_pb := ''null'' @ [c], tk_level := lvl T_eatws T_finish J_Null None\<rparr>)" for c
    by (simp add: step_defs c_strncaseeq_def pb_text_def NUL_def)
  ultimately show "\<exists>t'. feed t (json_object_to_json_string J_Null) = Some t' \<and>
      (\<forall>c. follow c \<longrightarrow> (\<exists>t''. value_done J_Null (tk_below t) (tk_err t) t'' \<and> tokener_step c t' = Redo_Char t''))"
    by (intro exI [of _ ?t2]) (auto simp: value_done_def)
qed

lemma reads_boolean: "reads (J_Boolean b)"
proof (rule reads_open)
  fix t :: tokener
  assume t: "tk_level t = reset_level"
  let ?s = "if b then ''true'' else ''false''"
  let ?t1 = "t\<lparr>tk_level := lvl T_boolean T_start J_Null None, tk_pb := [], tk_st_pos := 0\<rparr>"
  let ?t2 = "?t1\<lparr>tk_pb := ?s, tk_st_pos := length ?s\<rparr>"
  have lower: "c_tolower CHR ''t'' = CHR ''t''" "c_tolower CHR ''f'' = CHR ''f''" "c_tolower CHR ''r'' = CHR ''r''"
    "c_tolower CHR ''u'' = CHR ''u''" "c_tolower CHR ''e'' = CHR ''e''" "c_tolower CHR ''a'' = CHR ''a''"
    by (simp_all add: c_tolower_def c_isupper_def char_int_def)
  have "feed t ?s = Some ?t2"
  proof (cases b)
    case True
    have "feed t ''true'' = feed ?t1 ''true''"
      by (rule feed_literal_start [OF t]) (simp_all add: step_defs c_isspace_def char_int_def QUOTE_def)
    also have "\<dots> = Some ?t2"
      using True by (simp add: redo_break step_defs c_strncaseeq_def pb_text_def NUL_def lower)
    finally show ?thesis using True by simp
  next
    case False
    have "feed t ''false'' = feed ?t1 ''false''"
      by (rule feed_literal_start [OF t]) (simp_all add: step_defs c_isspace_def char_int_def QUOTE_def)
    also have "\<dots> = Some ?t2"
      using False by (simp add: redo_break step_defs c_strncaseeq_def pb_text_def NUL_def lower)
    finally show ?thesis using False by simp
  qed
  moreover have "tokener_step c ?t2 = Redo_Char (?t2\<lparr>tk_pb := ?s @ [c], tk_level := lvl T_eatws T_finish (J_Boolean b) None\<rparr>)" for c
    by (cases b) (simp_all add: step_defs c_strncaseeq_def pb_text_def NUL_def lower json_object_new_boolean_def)
  ultimately show "\<exists>t'. feed t (json_object_to_json_string (J_Boolean b)) = Some t' \<and>
      (\<forall>c. follow c \<longrightarrow> (\<exists>t''. value_done (J_Boolean b) (tk_below t) (tk_err t) t'' \<and> tokener_step c t' = Redo_Char t''))"
    by (intro exI [of _ ?t2]) (auto simp: value_done_def)
qed

lemma char_by_code: "(of_char c :: int) = of_char d \<Longrightarrow> c = d"
  by simp

lemma digit_by_value:
  assumes "c_isdigit c"
  obtains d where "d < 10" "c = ''0123456789'' ! d"
proof -
  have "(of_char c :: int) < 256" using pos_mod_bound [of 256 "of_char c :: int"] by simp
  then have "48 \<le> (of_char c :: int)" "(of_char c :: int) \<le> 57"
    using assms by (auto simp: c_isdigit_def char_int_def Let_def split: if_splits)
  then obtain d where d: "d < 10" "(of_char c :: int) = 48 + int d"
    by (intro that [of "nat (of_char c - 48)"]) auto
  then have "d \<in> {0, 1, 2, 3, 4, 5, 6, 7, 8, 9}" by auto
  then have "c = ''0123456789'' ! d"
    by (elim insertE emptyE) (rule char_by_code, simp add: d(2))+
  with d(1) show thesis by (rule that)
qed

lemma digit_number_char:
  assumes "c_isdigit c"
  shows "c \<in> set json_number_chars \<and> c \<noteq> CHR ''.'' \<and> c \<noteq> CHR ''e''"
proof -
  obtain d where d: "d < 10" "c = ''0123456789'' ! d" by (rule digit_by_value [OF assms])
  have "d \<in> {0, 1, 2, 3, 4, 5, 6, 7, 8, 9}" using d(1) by auto
  then show ?thesis unfolding d(2) by (elim insertE emptyE) (simp_all add: json_number_chars_def)
qed

lemma feed_number:
  assumes "list_all (\<lambda>c. c_isdigit c \<or> c = CHR ''-'') cs" "js_state (tk_level t) = T_number" "\<not> tk_is_double t"
  shows "feed t cs = Some (t\<lparr>tk_pb := tk_pb t @ cs\<rparr>)"
  using assms
proof (induction cs arbitrary: t)
  case (Cons c cs)
  have "c \<in> set json_number_chars \<and> c \<noteq> CHR ''.'' \<and> c \<noteq> CHR ''e''"
  proof (cases "c_isdigit c")
    case False
    then show ?thesis using Cons.prems(1) by (simp add: json_number_chars_def)
  qed (rule digit_number_char)
  then have "tokener_step c t = Break (t\<lparr>tk_pb := tk_pb t @ [c]\<rparr>)"
    using Cons.prems(2,3) by (simp add: tokener_step_def case_number_def set_level_defs)
  then show ?case using Cons.IH [of "t\<lparr>tk_pb := tk_pb t @ [c]\<rparr>"] Cons.prems by (simp add: redo_break)
qed simp

lemma int_text_chars: "list_all (\<lambda>c. c_isdigit c \<or> c = CHR ''-'') (c_int_text i)"
  using dec_digits_are_digits by (auto simp: c_int_text_def list_all_iff)

lemma scan_int_text:
  assumes "- (2 ^ 31) \<le> i" "i < 2 ^ 31"
  shows "sscanf_d (c_int_text i) = Some i"
proof (cases "i < 0")
  case False
  let ?ds = "dec_digits (nat i)"
  obtain d ds where ds: "?ds = d # ds" by (cases ?ds) auto
  then have d: "c_isdigit d" using dec_digits_are_digits [of d "nat i"] by simp
  then have "\<not> c_isspace d" "d \<noteq> CHR ''-''" "d \<noteq> CHR ''+''"
    by (auto simp: c_isdigit_def c_isspace_def char_int_def)
  then have "scan_sign ?ds = (False, ?ds)" using ds by (simp add: scan_sign_def)
  moreover have "takeWhile c_isdigit ?ds \<noteq> []" using ds d by simp
  moreover have "c_atoi ?ds = i" using atoi_dec_digits [of "nat i"] False assms(2) by simp
  ultimately show ?thesis using False by (simp add: sscanf_d_def c_int_text_def)
next
  case True
  let ?ds = "dec_digits (nat (- i))"
  have all: "takeWhile c_isdigit ?ds = ?ds" using dec_digits_are_digits by auto
  have "c_strtol (CHR ''-'' # ?ds) = i"
    using True assms(1) all
    by (simp add: c_strtol_def digits_value_dec_digits c_isspace_def char_int_def del: takeWhile_eq_all_conv)
  then have "c_atoi (CHR ''-'' # ?ds) = i"
    using assms by (simp only: c_atoi_def sint_sbintrunc') (simp add: signed_take_bit_int_eq_self)
  moreover have "scan_sign (CHR ''-'' # ?ds) = (True, ?ds)" by (simp add: scan_sign_def c_isspace_def char_int_def)
  moreover have "takeWhile c_isdigit ?ds \<noteq> []" unfolding all by simp
  ultimately show ?thesis using True by (simp add: sscanf_d_def c_int_text_def)
qed

lemma reads_int:
  assumes "- (2 ^ 31) \<le> i" "i < 2 ^ 31"
  shows "reads (J_Int i)"
proof (rule reads_open)
  fix t :: tokener
  assume t: "tk_level t = reset_level"
  let ?s = "c_int_text i"
  let ?t1 = "t\<lparr>tk_level := lvl T_number T_start J_Null None, tk_pb := [], tk_is_double := False\<rparr>"
  let ?t2 = "?t1\<lparr>tk_pb := ?s\<rparr>"
  obtain c cs where s: "?s = c # cs" by (cases ?s) (auto simp: c_int_text_def split: if_splits)
  then have c: "c_isdigit c \<or> c = CHR ''-''" using int_text_chars [of i] by simp
  have other: "c \<notin> {CHR ''{'', CHR ''['', CHR ''N'', CHR ''n'', QUOTE, CHR 0x27, CHR ''T'', CHR ''t'', CHR ''F'', CHR ''f''}"
    "\<not> c_isspace c" "c \<noteq> CHR ''/''"
    using c by (auto simp: c_isdigit_def c_isspace_def char_int_def QUOTE_def)
  have "feed t (c # cs) = feed ?t1 (c # cs)"
    by (rule feed_literal_start [OF t _ other(2,3)])
      (use c other(1) in \<open>simp add: tokener_step_def case_start_def set_level_defs\<close>)
  also have "\<dots> = Some ?t2" using feed_number [of "c # cs" ?t1] int_text_chars [of i] s by simp
  finally have "feed t ?s = Some ?t2" using s by simp
  moreover have "tokener_step d ?t2 = Redo_Char (?t2\<lparr>tk_level := lvl T_eatws T_finish (J_Int i) None\<rparr>)" if "follow d" for d
  proof -
    have "NUL \<notin> set ?s" using int_text_chars [of i] by (auto simp: list_all_iff c_isdigit_def char_int_def NUL_def)
    then have "takeWhile (\<lambda>c. c \<noteq> NUL) ?s = ?s" by (intro takeWhile_eq_all_conv [THEN iffD2]) auto
    moreover have "tk_pb ?t2 = ?s" by simp
    ultimately have "pb_text ?t2 = ?s" unfolding pb_text_def by metis
    then show ?thesis
      using follow_cases [OF that] scan_int_text [OF assms]
      by (simp add: tokener_step_def case_number_def set_level_defs json_object_new_int_def)
  qed
  ultimately show "\<exists>t'. feed t (json_object_to_json_string (J_Int i)) = Some t' \<and>
      (\<forall>c. follow c \<longrightarrow> (\<exists>t''. value_done (J_Int i) (tk_below t) (tk_err t) t'' \<and> tokener_step c t' = Redo_Char t''))"
    by (intro exI [of _ ?t2]) (auto simp: value_done_def)
qed

lemma inside_pb_text: "inside st cur ls pb err t \<Longrightarrow> NUL \<notin> set pb \<Longrightarrow> pb_text t = pb"
  by (auto simp: inside_def pb_text_def takeWhile_eq_all_conv)

lemma reads_string:
  assumes "NUL \<notin> set s"
  shows "reads (J_String s)"
proof (rule reads_closed)
  fix t :: tokener
  assume t: "tk_level t = reset_level"
  have esc: "json_escape_str s = concat (map escaped s)"
    using escape_loop_map [of s 0 0 "[]"] assms by (simp add: json_escape_str_def)
  let ?t1 = "t\<lparr>tk_level := lvl T_string T_start J_Null None, tk_pb := [], tk_quote_char := QUOTE\<rparr>"
  have "feed t (QUOTE # json_escape_str s @ [QUOTE]) =
      feed (t\<lparr>tk_level := lvl T_start T_start J_Null None\<rparr>) (QUOTE # json_escape_str s @ [QUOTE])"
    by (rule feed_start [OF t]) (simp_all add: c_isspace_def char_int_def QUOTE_def)
  also have "\<dots> = feed ?t1 (json_escape_str s @ [QUOTE])"
    by (rule feed_one) (simp add: step_defs QUOTE_def)
  finally have start: "feed t (QUOTE # json_escape_str s @ [QUOTE]) = feed ?t1 (json_escape_str s @ [QUOTE])" .
  have "inside T_string J_Null (tk_below t) [] (tk_err t) ?t1" by (simp add: inside_def)
  from feed_string [OF this _ assms] obtain t2 where t2: "feed ?t1 (json_escape_str s) = Some t2"
    "inside T_string J_Null (tk_below t) s (tk_err t) t2"
    unfolding esc by auto
  have text1: "pb_text t2 = s" by (rule inside_pb_text [OF t2(2) assms])
  have "tokener_step QUOTE t2 = Break (finish_value (json_object_new_string s) t2)"
    using t2(2) text1 by (auto simp: inside_def tokener_step_def case_string_def)
  moreover have "json_object_new_string s = J_String s"
    using assms by (auto simp: json_object_new_string_def takeWhile_eq_all_conv)
  moreover have "value_done (J_String s) (tk_below t) (tk_err t) (finish_value (J_String s) t2)"
    using t2(2) by (auto simp: value_done_def inside_def set_level_defs)
  ultimately show "\<exists>t'. feed t (json_object_to_json_string (J_String s)) = Some t' \<and>
      value_done (J_String s) (tk_below t) (tk_err t) t'"
    using start t2(1) by (simp add: feed_append redo_break)
qed

subsubsection \<open>Arrays\<close>

text \<open>The first character of a value; the characters that end the white space before it.\<close>

definition starts_value :: "char \<Rightarrow> bool" where
  "starts_value c \<longleftrightarrow> \<not> c_isspace c \<and> c \<noteq> CHR ''/'' \<and> c \<noteq> CHR '']''"

lemma text_starts_value: "\<exists>c cs. json_object_to_json_string v = c # cs \<and> (plain_json v \<longrightarrow> starts_value c)"
proof (cases v)
  case (J_Int i)
  obtain c cs where "c_int_text i = c # cs" by (cases "c_int_text i") (auto simp: c_int_text_def split: if_splits)
  moreover have "c_isdigit c \<or> c = CHR ''-''" using int_text_chars [of i] calculation by simp
  ultimately show ?thesis using J_Int by (auto simp: starts_value_def c_isdigit_def c_isspace_def char_int_def)
next
  case (J_Double d)
  then show ?thesis by (cases "format_f d") (auto simp: format_f_def Let_def)
qed (auto simp: starts_value_def c_isspace_def char_int_def QUOTE_def)

text \<open>A level whose value is being read on the level above it.\<close>

definition waiting :: "json_srec \<Rightarrow> json \<Rightarrow> json_srec list \<Rightarrow> tokener_error \<Rightarrow> tokener \<Rightarrow> bool" where
  "waiting l v ls err t \<longleftrightarrow> value_done v (l # ls) err t"

lemma eatws_blank:
  assumes "js_state (tk_level t) = T_eatws"
  shows "redo_char CHR '' '' t = Some (Inr t)"
  by (rule redo_break) (simp add: assms tokener_step_def case_eatws_def c_isspace_def char_int_def)

lemma eatws_redo:
  assumes "tk_level t = lvl T_eatws sv cur f" "\<not> c_isspace c" "c \<noteq> CHR ''/''"
  shows "redo_char c t = redo_char c (t\<lparr>tk_level := lvl sv sv cur f\<rparr>)"
  by (rule redo_again) (use assms in \<open>simp add: tokener_step_def case_eatws_def set_level_defs\<close>)

lemma waiting_pop:
  assumes "waiting l v ls err t" "\<not> c_isspace c" "c \<noteq> CHR ''/''"
  shows "\<exists>t'. redo_char c t = redo_char c t' \<and> tk_level t' = l \<and> tk_below t' = ls \<and> tk_err t' = err \<and> tk_obj t' = v"
proof -
  have t: "tk_level t = lvl T_eatws T_finish v None" "tk_below t = l # ls" "tk_err t = err"
    using assms(1) by (simp_all add: waiting_def value_done_def)
  let ?t1 = "t\<lparr>tk_level := lvl T_finish T_finish v None\<rparr>"
  let ?t2 = "t\<lparr>tk_obj := v, tk_level := l, tk_below := ls\<rparr>"
  have "tokener_step c ?t1 = Redo_Char ?t2" using t(2) by (simp add: tokener_step_def case_finish_def)
  then have "redo_char c t = redo_char c ?t2"
    using eatws_redo [OF t(1) assms(2,3)] redo_again by metis
  then show ?thesis using t(3) by (intro exI [of _ ?t2]) simp
qed

text \<open>Reading one value above a level that has just been left for it.\<close>

lemma reads_above:
  assumes "reads v" "json_depth v + Suc (length ls) < JSON_TOKENER_MAX_DEPTH"
    and "tk_level t = reset_level" "tk_below t = l # ls"
  shows "\<exists>t'. feed t (json_object_to_json_string v) = Some t' \<and>
    (\<forall>c. follow c \<longrightarrow> (\<exists>t''. waiting l v ls (tk_err t) t'' \<and> redo_char c t' = redo_char c t''))"
  using readsD [OF assms(1,3)] assms(2,4) by (simp add: waiting_def)

lemma feed_value:
  assumes "reads v" "json_depth v + Suc (length ls) < JSON_TOKENER_MAX_DEPTH"
    and "tk_level t = reset_level" "tk_below t = l # ls" "follow c"
  shows "\<exists>t''. waiting l v ls (tk_err t) t'' \<and>
    feed t (json_object_to_json_string v @ c # cs) = feed t'' (c # cs)"
proof -
  obtain t' t'' where "feed t (json_object_to_json_string v) = Some t'" "waiting l v ls (tk_err t) t''"
    "redo_char c t' = redo_char c t''"
    using reads_above [OF assms(1-4)] assms(5) by blast
  then show ?thesis by (intro exI [of _ t'']) (simp add: feed_append)
qed

lemma array_close_empty:
  assumes "tk_level t = lvl T_eatws T_array (J_Array acc) None"
  shows "\<exists>t'. redo_char CHR '']'' t = Some (Inr t') \<and> value_done (J_Array acc) (tk_below t) (tk_err t) t'"
proof -
  have "redo_char CHR '']'' t = redo_char CHR '']'' (t\<lparr>tk_level := lvl T_array T_array (J_Array acc) None\<rparr>)"
    by (rule eatws_redo [OF assms]) (simp_all add: c_isspace_def char_int_def)
  also have "\<dots> = Some (Inr (t\<lparr>tk_level := lvl T_eatws T_finish (J_Array acc) None\<rparr>))"
    by (rule redo_break) (simp add: tokener_step_def case_array_def set_level_defs)
  finally show ?thesis by (simp add: value_done_def)
qed

lemma array_enter:
  assumes "tk_level t = lvl T_eatws T_array (J_Array acc) None" "starts_value c"
    and "Suc (length (tk_below t)) < JSON_TOKENER_MAX_DEPTH"
  shows "redo_char c t = redo_char c (t\<lparr>tk_level := reset_level,
    tk_below := lvl T_array_add T_array (J_Array acc) None # tk_below t\<rparr>)"
proof -
  have "redo_char c t = redo_char c (t\<lparr>tk_level := lvl T_array T_array (J_Array acc) None\<rparr>)"
    by (rule eatws_redo [OF assms(1)]) (use assms(2) in \<open>simp_all add: starts_value_def\<close>)
  also have "\<dots> = redo_char c (t\<lparr>tk_level := reset_level,
      tk_below := lvl T_array_add T_array (J_Array acc) None # tk_below t\<rparr>)"
    by (rule redo_again)
      (use assms(2,3) in \<open>simp add: tokener_step_def case_array_def set_level_defs starts_value_def\<close>)
  finally show ?thesis .
qed

text \<open>At a character behind an element, the element is added to the array.\<close>

lemma array_added:
  assumes "waiting (lvl T_array_add T_array (J_Array acc) None) v ls err t" "\<not> c_isspace c" "c \<noteq> CHR ''/''"
  shows "\<exists>t'. redo_char c t = redo_char c t' \<and> tk_level t' = lvl T_array_sep T_array_sep (J_Array (acc @ [v])) None \<and>
    tk_below t' = ls \<and> tk_err t' = err"
proof -
  obtain t1 where t1: "redo_char c t = redo_char c t1" "tk_level t1 = lvl T_array_add T_array (J_Array acc) None"
    "tk_below t1 = ls" "tk_err t1 = err" "tk_obj t1 = v"
    using waiting_pop [OF assms] by blast
  let ?t2 = "t1\<lparr>tk_level := lvl T_eatws T_array_sep (J_Array (acc @ [v])) None\<rparr>"
  have "redo_char c t1 = redo_char c ?t2"
    by (rule redo_again) (use t1 in \<open>simp add: tokener_step_def case_array_add_def set_level_defs json_object_array_add_def\<close>)
  also have "\<dots> = redo_char c (?t2\<lparr>tk_level := lvl T_array_sep T_array_sep (J_Array (acc @ [v])) None\<rparr>)"
    by (rule eatws_redo [OF _ assms(2,3)]) simp
  finally have "redo_char c t1 = redo_char c (t1\<lparr>tk_level := lvl T_array_sep T_array_sep (J_Array (acc @ [v])) None\<rparr>)"
    by simp
  then show ?thesis
    using t1 by (intro exI [of _ "t1\<lparr>tk_level := lvl T_array_sep T_array_sep (J_Array (acc @ [v])) None\<rparr>"]) simp
qed

lemma array_sep_steps:
  assumes "tk_level t = lvl T_array_sep T_array_sep (J_Array acc) None"
  shows "redo_char CHR '']'' t = Some (Inr (t\<lparr>tk_level := lvl T_eatws T_finish (J_Array acc) None\<rparr>))"
    and "redo_char CHR '','' t = Some (Inr (t\<lparr>tk_level := lvl T_eatws T_array (J_Array acc) None\<rparr>))"
  by (rule redo_break, use assms in \<open>simp add: tokener_step_def case_array_sep_def set_level_defs\<close>)+

lemma array_rest:
  assumes "\<forall>x \<in> set xs. reads x \<and> plain_json x \<and> json_depth x + Suc (length ls) < JSON_TOKENER_MAX_DEPTH"
    and "waiting (lvl T_array_add T_array (J_Array acc) None) v ls err t"
  shows "\<exists>t'. feed t (array_elements True (map json_object_to_json_string xs) @ '' ]'') = Some t' \<and>
    value_done (J_Array (acc @ v # xs)) ls err t'"
  using assms
proof (induction xs arbitrary: acc v t)
  case Nil
  have eat: "js_state (tk_level t) = T_eatws" using Nil.prems(2) by (simp add: waiting_def value_done_def)
  obtain t1 where t1: "redo_char CHR '']'' t = redo_char CHR '']'' t1"
    "tk_level t1 = lvl T_array_sep T_array_sep (J_Array (acc @ [v])) None" "tk_below t1 = ls" "tk_err t1 = err"
    using array_added [OF Nil.prems(2), of "CHR '']''"] by (auto simp: c_isspace_def char_int_def)
  then show ?case using eatws_blank [OF eat] array_sep_steps(1) [OF t1(2)] by (simp add: value_done_def)
next
  case (Cons x xs)
  have x: "reads x" "plain_json x" "json_depth x + Suc (length ls) < JSON_TOKENER_MAX_DEPTH"
    using Cons.prems(1) by simp_all
  obtain t1 where t1: "redo_char CHR '','' t = redo_char CHR '','' t1"
    "tk_level t1 = lvl T_array_sep T_array_sep (J_Array (acc @ [v])) None" "tk_below t1 = ls" "tk_err t1 = err"
    using array_added [OF Cons.prems(2), of "CHR '',''"] by (auto simp: c_isspace_def char_int_def)
  let ?t2 = "t1\<lparr>tk_level := lvl T_eatws T_array (J_Array (acc @ [v])) None\<rparr>"
  let ?l = "lvl T_array_add T_array (J_Array (acc @ [v])) None"
  let ?t3 = "?t2\<lparr>tk_level := reset_level, tk_below := ?l # ls\<rparr>"
  let ?rest = "array_elements True (map json_object_to_json_string xs) @ '' ]''"
  obtain d ds where rest: "?rest = d # ds" "follow d" by (cases xs) (auto simp: follow_def)
  obtain c cs where c: "json_object_to_json_string x = c # cs" "starts_value c"
    using text_starts_value [of x] x(2) by blast
  have "feed t ('', '' @ json_object_to_json_string x @ ?rest) = feed ?t2 (json_object_to_json_string x @ ?rest)"
    using t1(1) array_sep_steps(2) [OF t1(2)] eatws_blank [of ?t2] by simp
  also have "\<dots> = feed ?t3 (json_object_to_json_string x @ ?rest)"
  proof -
    have "redo_char c ?t2 = redo_char c ?t3"
      using array_enter [of ?t2 "acc @ [v]" c] c(2) x(3) t1(3) by simp
    then show ?thesis using c(1) by simp
  qed
  finally have start: "feed t ('', '' @ json_object_to_json_string x @ ?rest) =
      feed ?t3 (json_object_to_json_string x @ ?rest)" .
  obtain t4 where t4: "waiting ?l x ls err t4" "feed ?t3 (json_object_to_json_string x @ d # ds) = feed t4 (d # ds)"
    using feed_value [OF x(1,3), of ?t3 ?l d ds] rest(2) t1(4) by auto
  have "\<exists>t'. feed t4 ?rest = Some t' \<and> value_done (J_Array ((acc @ [v]) @ x # xs)) ls err t'"
    by (rule Cons.IH [OF _ t4(1)]) (use Cons.prems(1) in simp)
  then show ?case using start t4(2) rest(1) by simp
qed

lemma reads_array:
  assumes "\<forall>x \<in> set xs. reads x \<and> plain_json x"
  shows "reads (J_Array xs)"
proof (rule reads_closed)
  fix t :: tokener
  assume t: "tk_level t = reset_level" and d: "json_depth (J_Array xs) + length (tk_below t) < JSON_TOKENER_MAX_DEPTH"
  let ?t1 = "t\<lparr>tk_level := lvl T_eatws T_array (J_Array []) None\<rparr>"
  have start: "feed t (CHR ''['' # s) = feed ?t1 s" for s
  proof -
    have "feed t (CHR ''['' # s) = feed (t\<lparr>tk_level := lvl T_start T_start J_Null None\<rparr>) (CHR ''['' # s)"
      by (rule feed_start [OF t]) (simp_all add: c_isspace_def char_int_def)
    also have "\<dots> = feed ?t1 s"
      by (rule feed_one) (simp add: tokener_step_def case_start_def set_level_defs json_object_new_array_def)
    finally show ?thesis .
  qed
  have depth: "json_depth x < json_depth (J_Array xs)" if "x \<in> set xs" for x
    using that by (induction xs) auto
  show "\<exists>t'. feed t (json_object_to_json_string (J_Array xs)) = Some t' \<and>
      value_done (J_Array xs) (tk_below t) (tk_err t) t'"
  proof (cases xs)
    case Nil
    then show ?thesis
      using start [of "'' ]''"] eatws_blank [of ?t1] array_close_empty [of ?t1 "[]"] by auto
  next
    case (Cons x ys)
    have x: "reads x" "plain_json x" "json_depth x + Suc (length (tk_below t)) < JSON_TOKENER_MAX_DEPTH"
      using assms Cons depth [of x] d by auto
    let ?l = "lvl T_array_add T_array (J_Array []) None"
    let ?t2 = "t\<lparr>tk_level := reset_level, tk_below := ?l # tk_below t\<rparr>"
    let ?rest = "array_elements True (map json_object_to_json_string ys) @ '' ]''"
    obtain e es where rest: "?rest = e # es" "follow e" by (cases ys) (auto simp: follow_def)
    obtain c cs where c: "json_object_to_json_string x = c # cs" "starts_value c"
      using text_starts_value [of x] x(2) by blast
    have "redo_char c ?t1 = redo_char c ?t2"
      using array_enter [of ?t1 "[]" c] c(2) x(3) by simp
    then have enter: "feed ?t1 (json_object_to_json_string x @ ?rest) = feed ?t2 (json_object_to_json_string x @ ?rest)"
      using c(1) by simp
    obtain t3 where t3: "waiting ?l x (tk_below t) (tk_err t) t3"
      "feed ?t2 (json_object_to_json_string x @ e # es) = feed t3 (e # es)"
      using feed_value [OF x(1,3), of ?t2 ?l e es] rest(2) by auto
    have "\<exists>t'. feed t3 ?rest = Some t' \<and> value_done (J_Array ([] @ x # ys)) (tk_below t) (tk_err t) t'"
      by (rule array_rest [OF _ t3(1)]) (use assms Cons depth d in fastforce)
    moreover have "feed t (json_object_to_json_string (J_Array xs)) = feed t3 ?rest"
      using Cons start [of "'' '' @ json_object_to_json_string x @ ?rest"] eatws_blank [of ?t1] enter t3(2) rest(1)
      by simp
    ultimately show ?thesis using Cons by simp
  qed
qed

subsubsection \<open>Objects\<close>

lemma object_close_empty:
  assumes "tk_level t = lvl T_eatws T_object_field_start (J_Object acc) None"
  shows "\<exists>t'. redo_char CHR ''}'' t = Some (Inr t') \<and> value_done (J_Object acc) (tk_below t) (tk_err t) t'"
proof -
  have "redo_char CHR ''}'' t =
      redo_char CHR ''}'' (t\<lparr>tk_level := lvl T_object_field_start T_object_field_start (J_Object acc) None\<rparr>)"
    by (rule eatws_redo [OF assms]) (simp_all add: c_isspace_def char_int_def)
  also have "\<dots> = Some (Inr (t\<lparr>tk_level := lvl T_eatws T_finish (J_Object acc) None\<rparr>))"
    by (rule redo_break) (simp add: tokener_step_def case_object_field_start_def set_level_defs)
  finally show ?thesis by (simp add: value_done_def)
qed

text \<open>The key, the colon and the blank in front of a value.\<close>

lemma object_key:
  assumes "tk_level t = lvl T_eatws T_object_field_start (J_Object acc) None" "NUL \<notin> set key"
  shows "\<exists>t'. feed t (QUOTE # json_escape_str key @ QUOTE # '': '' @ s) = feed t' s \<and>
    tk_level t' = lvl T_eatws T_object_value (J_Object acc) (Some key) \<and> tk_below t' = tk_below t \<and> tk_err t' = tk_err t"
proof -
  let ?t1 = "t\<lparr>tk_level := lvl T_object_field T_object_field_start (J_Object acc) None, tk_quote_char := QUOTE, tk_pb := []\<rparr>"
  have esc: "json_escape_str key = concat (map escaped key)"
    using escape_loop_map [of key 0 0 "[]"] assms(2) by (simp add: json_escape_str_def)
  have "redo_char QUOTE t =
      redo_char QUOTE (t\<lparr>tk_level := lvl T_object_field_start T_object_field_start (J_Object acc) None\<rparr>)"
    by (rule eatws_redo [OF assms(1)]) (simp_all add: c_isspace_def char_int_def QUOTE_def)
  also have "\<dots> = Some (Inr ?t1)"
    by (rule redo_break) (simp add: tokener_step_def case_object_field_start_def set_level_defs QUOTE_def)
  finally have open1: "redo_char QUOTE t = Some (Inr ?t1)" .
  have "inside T_object_field (J_Object acc) (tk_below t) [] (tk_err t) ?t1" by (simp add: inside_def)
  from feed_string [OF this _ assms(2)] obtain t2 where t2: "feed ?t1 (json_escape_str key) = Some t2"
    "inside T_object_field (J_Object acc) (tk_below t) key (tk_err t) t2"
    unfolding esc by auto
  have key: "pb_text t2 = key" by (rule inside_pb_text [OF t2(2) assms(2)])
  let ?t3 = "t2\<lparr>tk_level := lvl T_eatws T_object_field_end (J_Object acc) (Some key)\<rparr>"
  let ?t4 = "t2\<lparr>tk_level := lvl T_eatws T_object_value (J_Object acc) (Some key)\<rparr>"
  have close: "redo_char QUOTE t2 = Some (Inr ?t3)"
    by (rule redo_break)
      (use t2(2) key in \<open>auto simp: inside_def tokener_step_def case_object_field_def set_level_defs\<close>)
  have "redo_char CHR '':'' ?t3 =
      redo_char CHR '':'' (?t3\<lparr>tk_level := lvl T_object_field_end T_object_field_end (J_Object acc) (Some key)\<rparr>)"
    by (rule eatws_redo) (simp_all add: c_isspace_def char_int_def)
  also have "\<dots> = Some (Inr ?t4)"
    by (rule redo_break) (simp add: tokener_step_def case_object_field_end_def set_level_defs)
  finally have colon: "redo_char CHR '':'' ?t3 = Some (Inr ?t4)" .
  have "feed t (QUOTE # json_escape_str key @ QUOTE # '': '' @ s) = feed ?t4 s"
    using open1 t2(1) close colon eatws_blank [of ?t4] by (simp add: feed_append)
  then show ?thesis using t2(2) by (intro exI [of _ ?t4]) (simp add: inside_def)
qed

lemma object_enter:
  assumes "tk_level t = lvl T_eatws T_object_value (J_Object acc) (Some key)" "starts_value c"
    and "Suc (length (tk_below t)) < JSON_TOKENER_MAX_DEPTH"
  shows "redo_char c t = redo_char c (t\<lparr>tk_level := reset_level,
    tk_below := lvl T_object_value_add T_object_value (J_Object acc) (Some key) # tk_below t\<rparr>)"
proof -
  have "redo_char c t = redo_char c (t\<lparr>tk_level := lvl T_object_value T_object_value (J_Object acc) (Some key)\<rparr>)"
    by (rule eatws_redo [OF assms(1)]) (use assms(2) in \<open>simp_all add: starts_value_def\<close>)
  also have "\<dots> = redo_char c (t\<lparr>tk_level := reset_level,
      tk_below := lvl T_object_value_add T_object_value (J_Object acc) (Some key) # tk_below t\<rparr>)"
    by (rule redo_again) (use assms(3) in \<open>simp add: tokener_step_def case_object_value_def set_level_defs\<close>)
  finally show ?thesis .
qed

lemma object_added:
  assumes "waiting (lvl T_object_value_add T_object_value (J_Object acc) (Some key)) v ls err t"
    and "\<not> c_isspace c" "c \<noteq> CHR ''/''"
  shows "\<exists>t'. redo_char c t = redo_char c t' \<and>
    tk_level t' = lvl T_object_sep T_object_sep (J_Object (pairs_add acc key v)) None \<and> tk_below t' = ls \<and> tk_err t' = err"
proof -
  obtain t1 where t1: "redo_char c t = redo_char c t1"
    "tk_level t1 = lvl T_object_value_add T_object_value (J_Object acc) (Some key)"
    "tk_below t1 = ls" "tk_err t1 = err" "tk_obj t1 = v"
    using waiting_pop [OF assms] by blast
  let ?t2 = "t1\<lparr>tk_level := lvl T_eatws T_object_sep (J_Object (pairs_add acc key v)) None\<rparr>"
  have "redo_char c t1 = redo_char c ?t2"
    by (rule redo_again)
      (use t1 in \<open>simp add: tokener_step_def case_object_value_add_def set_level_defs json_object_object_add_def\<close>)
  also have "\<dots> = redo_char c (?t2\<lparr>tk_level := lvl T_object_sep T_object_sep (J_Object (pairs_add acc key v)) None\<rparr>)"
    by (rule eatws_redo [OF _ assms(2,3)]) simp
  finally have "redo_char c t1 =
      redo_char c (t1\<lparr>tk_level := lvl T_object_sep T_object_sep (J_Object (pairs_add acc key v)) None\<rparr>)"
    by simp
  then show ?thesis
    using t1 by (intro exI [of _ "t1\<lparr>tk_level := lvl T_object_sep T_object_sep (J_Object (pairs_add acc key v)) None\<rparr>"]) simp
qed

lemma object_sep_steps:
  assumes "tk_level t = lvl T_object_sep T_object_sep (J_Object acc) None"
  shows "redo_char CHR ''}'' t = Some (Inr (t\<lparr>tk_level := lvl T_eatws T_finish (J_Object acc) None\<rparr>))"
    and "redo_char CHR '','' t = Some (Inr (t\<lparr>tk_level := lvl T_eatws T_object_field_start (J_Object acc) None\<rparr>))"
  by (rule redo_break, use assms in \<open>simp add: tokener_step_def case_object_sep_def set_level_defs\<close>)+

abbreviation members_text :: "bool \<Rightarrow> (string \<times> json) list \<Rightarrow> string" where
  "members_text i kvs \<equiv> object_members i (map (\<lambda>(key, val). (key, json_object_to_json_string val)) kvs)"

text \<open>One pair, from the blank in front of the key to the end of its value.\<close>

lemma object_pair:
  assumes "tk_level t = lvl T_eatws T_object_field_start (J_Object acc) None" "NUL \<notin> set k"
    and "reads v" "plain_json v" "json_depth v + Suc (length (tk_below t)) < JSON_TOKENER_MAX_DEPTH" "follow e"
  shows "\<exists>t'. feed t ('' '' @ [QUOTE] @ json_escape_str k @ [QUOTE] @ '': '' @ json_object_to_json_string v @ e # es) =
      feed t' (e # es) \<and>
    waiting (lvl T_object_value_add T_object_value (J_Object acc) (Some k)) v (tk_below t) (tk_err t) t'"
proof -
  let ?l = "lvl T_object_value_add T_object_value (J_Object acc) (Some k)"
  obtain t1 where t1: "feed t (QUOTE # json_escape_str k @ QUOTE # '': '' @ json_object_to_json_string v @ e # es) =
      feed t1 (json_object_to_json_string v @ e # es)"
    "tk_level t1 = lvl T_eatws T_object_value (J_Object acc) (Some k)" "tk_below t1 = tk_below t" "tk_err t1 = tk_err t"
    using object_key [OF assms(1,2)] by blast
  let ?t2 = "t1\<lparr>tk_level := reset_level, tk_below := ?l # tk_below t1\<rparr>"
  obtain c cs where c: "json_object_to_json_string v = c # cs" "starts_value c"
    using text_starts_value [of v] assms(4) by blast
  have "redo_char c t1 = redo_char c ?t2"
    by (rule object_enter [OF t1(2) c(2)]) (use t1(3) assms(5) in simp)
  then have "feed t1 (json_object_to_json_string v @ e # es) = feed ?t2 (json_object_to_json_string v @ e # es)"
    using c(1) by simp
  moreover obtain t3 where "waiting ?l v (tk_below t) (tk_err t) t3"
    "feed ?t2 (json_object_to_json_string v @ e # es) = feed t3 (e # es)"
    using feed_value [OF assms(3,5), of ?t2 ?l e es] assms(6) t1(3,4) by auto
  ultimately show ?thesis using t1(1) eatws_blank [of t] assms(1) by auto
qed

lemma pairs_add_fresh: "k \<notin> fst ` set acc \<Longrightarrow> pairs_add acc k v = acc @ [(k, v)]"
  by (auto simp: pairs_add_def filter_id_conv)

lemma object_rest:
  assumes "\<forall>(k, v) \<in> set kvs. NUL \<notin> set k \<and> reads v \<and> plain_json v \<and> json_depth v + Suc (length ls) < JSON_TOKENER_MAX_DEPTH"
    and "waiting (lvl T_object_value_add T_object_value (J_Object acc) (Some k)) v ls err t"
    and "distinct (map fst (acc @ (k, v) # kvs))"
  shows "\<exists>t'. feed t (members_text True kvs @ '' }'') = Some t' \<and> value_done (J_Object (acc @ (k, v) # kvs)) ls err t'"
  using assms
proof (induction kvs arbitrary: acc k v t)
  case Nil
  have eat: "js_state (tk_level t) = T_eatws" using Nil.prems(2) by (simp add: waiting_def value_done_def)
  have acc: "pairs_add acc k v = acc @ [(k, v)]" using Nil.prems(3) by (intro pairs_add_fresh) auto
  obtain t1 where t1: "redo_char CHR ''}'' t = redo_char CHR ''}'' t1"
    "tk_level t1 = lvl T_object_sep T_object_sep (J_Object (acc @ [(k, v)])) None" "tk_below t1 = ls" "tk_err t1 = err"
    using object_added [OF Nil.prems(2), of "CHR ''}''"] acc by (auto simp: c_isspace_def char_int_def)
  then show ?case using eatws_blank [OF eat] object_sep_steps(1) [OF t1(2)] by (simp add: value_done_def)
next
  case (Cons p kvs)
  obtain k1 v1 where p: "p = (k1, v1)" by fastforce
  have x: "NUL \<notin> set k1" "reads v1" "plain_json v1" "json_depth v1 + Suc (length ls) < JSON_TOKENER_MAX_DEPTH"
    using Cons.prems(1) p by simp_all
  have acc: "pairs_add acc k v = acc @ [(k, v)]" using Cons.prems(3) by (intro pairs_add_fresh) auto
  obtain t1 where t1: "redo_char CHR '','' t = redo_char CHR '','' t1"
    "tk_level t1 = lvl T_object_sep T_object_sep (J_Object (acc @ [(k, v)])) None" "tk_below t1 = ls" "tk_err t1 = err"
    using object_added [OF Cons.prems(2), of "CHR '',''"] acc by (auto simp: c_isspace_def char_int_def)
  let ?t2 = "t1\<lparr>tk_level := lvl T_eatws T_object_field_start (J_Object (acc @ [(k, v)])) None\<rparr>"
  let ?rest = "members_text True kvs @ '' }''"
  obtain e es where rest: "?rest = e # es" "follow e" by (cases kvs) (auto simp: follow_def split: prod.splits)
  have comma: "feed t (CHR '','' # s) = feed ?t2 s" for s
    using t1(1) object_sep_steps(2) [OF t1(2)] by simp
  obtain t3 where t3: "feed ?t2 ('' '' @ [QUOTE] @ json_escape_str k1 @ [QUOTE] @ '': '' @ json_object_to_json_string v1 @ e # es) =
      feed t3 (e # es)" "waiting (lvl T_object_value_add T_object_value (J_Object (acc @ [(k, v)])) (Some k1)) v1 ls err t3"
    using object_pair [of ?t2 "acc @ [(k, v)]" k1 v1 e es] x rest(2) t1(3,4) by auto
  have "\<exists>t'. feed t3 ?rest = Some t' \<and> value_done (J_Object ((acc @ [(k, v)]) @ (k1, v1) # kvs)) ls err t'"
    by (rule Cons.IH [OF _ t3(2)]) (use Cons.prems(1,3) p in auto)
  moreover have "feed t (members_text True (p # kvs) @ '' }'') = feed t3 ?rest"
    using comma [of "'' '' @ [QUOTE] @ json_escape_str k1 @ [QUOTE] @ '': '' @ json_object_to_json_string v1 @ e # es"]
      t3(1) rest(1) p by simp
  ultimately show ?case using p by simp
qed

lemma reads_object:
  assumes "\<forall>(k, v) \<in> set kvs. NUL \<notin> set k \<and> reads v \<and> plain_json v" "distinct (map fst kvs)"
  shows "reads (J_Object kvs)"
proof (rule reads_closed)
  fix t :: tokener
  assume t: "tk_level t = reset_level" and d: "json_depth (J_Object kvs) + length (tk_below t) < JSON_TOKENER_MAX_DEPTH"
  let ?t1 = "t\<lparr>tk_level := lvl T_eatws T_object_field_start (J_Object []) None\<rparr>"
  have start: "feed t (CHR ''{'' # s) = feed ?t1 s" for s
  proof -
    have "feed t (CHR ''{'' # s) = feed (t\<lparr>tk_level := lvl T_start T_start J_Null None\<rparr>) (CHR ''{'' # s)"
      by (rule feed_start [OF t]) (simp_all add: c_isspace_def char_int_def)
    also have "\<dots> = feed ?t1 s"
      by (rule feed_one) (simp add: tokener_step_def case_start_def set_level_defs json_object_new_object_def)
    finally show ?thesis .
  qed
  have depth: "json_depth v < json_depth (J_Object kvs)" if "(k, v) \<in> set kvs" for k v
    using that by (induction kvs) auto
  have all: "\<forall>(k, v) \<in> set kvs. NUL \<notin> set k \<and> reads v \<and> plain_json v \<and>
      json_depth v + Suc (length (tk_below t)) < JSON_TOKENER_MAX_DEPTH"
    using assms(1) depth d by fastforce
  show "\<exists>t'. feed t (json_object_to_json_string (J_Object kvs)) = Some t' \<and>
      value_done (J_Object kvs) (tk_below t) (tk_err t) t'"
  proof (cases kvs)
    case Nil
    then show ?thesis
      using start [of "'' }''"] eatws_blank [of ?t1] object_close_empty [of ?t1 "[]"] by auto
  next
    case (Cons p rest)
    obtain k v where p: "p = (k, v)" by fastforce
    let ?rest = "members_text True rest @ '' }''"
    obtain e es where e: "?rest = e # es" "follow e" by (cases rest) (auto simp: follow_def split: prod.splits)
    have kv: "NUL \<notin> set k" "reads v" "plain_json v" "json_depth v + Suc (length (tk_below t)) < JSON_TOKENER_MAX_DEPTH"
      using all Cons p by simp_all
    obtain t2 where t2: "feed ?t1 ('' '' @ [QUOTE] @ json_escape_str k @ [QUOTE] @ '': '' @ json_object_to_json_string v @ e # es) =
        feed t2 (e # es)" "waiting (lvl T_object_value_add T_object_value (J_Object []) (Some k)) v (tk_below t) (tk_err t) t2"
      using object_pair [of ?t1 "[]" k v e es] kv e(2) by auto
    have "\<exists>t'. feed t2 ?rest = Some t' \<and> value_done (J_Object ([] @ (k, v) # rest)) (tk_below t) (tk_err t) t'"
      by (rule object_rest [OF _ t2(2)]) (use all assms(2) Cons p in auto)
    moreover have "feed t (json_object_to_json_string (J_Object kvs)) = feed t2 ?rest"
      using Cons p e(1) t2(1)
        start [of "'' '' @ [QUOTE] @ json_escape_str k @ [QUOTE] @ '': '' @ json_object_to_json_string v @ e # es"]
      by simp
    ultimately show ?thesis using Cons p by simp
  qed
qed

lemma plain_json_reads: "plain_json v \<Longrightarrow> reads v"
proof (induction v)
  case (J_Object kvs)
  have "\<forall>(k, v) \<in> set kvs. NUL \<notin> set k \<and> reads v \<and> plain_json v"
  proof clarify
    fix k v assume kv: "(k, v) \<in> set kvs"
    then have "NUL \<notin> set k" "plain_json v" using J_Object.prems by (auto simp: list_all_iff)
    moreover have "reads v" using J_Object.IH [OF kv, of v] calculation(2) by simp
    ultimately show "NUL \<notin> set k \<and> reads v \<and> plain_json v" by simp
  qed
  then show ?case using J_Object.prems by (intro reads_object) simp_all
next
  case (J_Array xs)
  then show ?case by (intro reads_array) (auto simp: list_all_iff)
qed (auto intro: reads_null reads_boolean reads_int reads_string)

lemma escape_no_NUL: "c \<noteq> NUL \<Longrightarrow> NUL \<notin> set (escaped c)"
proof (cases "char_escape c")
  case (Some esc)
  have hex: "json_hex_chars ! n \<noteq> NUL" if "n < 16" for n
  proof -
    from that have "n \<in> {0, 1, 2, 3, 4, 5, 6, 7, 8, 9, 10, 11, 12, 13, 14, 15}"
      by (simp only: insert_iff empty_iff) presburger
    then show ?thesis by (elim insertE emptyE) (simp_all add: json_hex_chars_def NUL_def)
  qed
  show ?thesis
  proof (cases "c \<in> {BS, LF, CR, TAB, QUOTE, BACKSLASH, CHR ''/''}")
    case True
    then show ?thesis
      by (elim insertE emptyE) (simp_all add: escaped_def char_escape_def special_chars)
  next
    case False
    then have "(of_char c :: nat) < 32" "esc = [BACKSLASH, CHR ''u'', CHR ''0'', CHR ''0'',
        json_hex_chars ! (of_char c div 16), json_hex_chars ! (of_char c mod 16)]"
      using Some by (auto simp: char_escape_def split: if_splits)
    moreover from this(1) have "of_char c div 16 < (16 :: nat)" "of_char c mod 16 < (16 :: nat)" by simp_all
    ultimately show ?thesis
      using Some hex [of "of_char c div 16"] hex [of "of_char c mod 16"]
      by (auto simp: escaped_def NUL_def BACKSLASH_def)
  qed
qed (auto simp: escaped_def)

lemma escape_str_no_NUL:
  assumes "NUL \<notin> set s"
  shows "NUL \<notin> set (json_escape_str s)"
proof -
  have "json_escape_str s = concat (map escaped s)"
    using escape_loop_map [of s 0 0 "[]"] assms by (simp add: json_escape_str_def)
  moreover have "NUL \<notin> set (escaped c)" if "c \<in> set s" for c
    using that assms by (intro escape_no_NUL) auto
  ultimately show ?thesis by auto
qed

lemma array_elements_chars: "set (array_elements i ss) \<subseteq> {CHR '','', CHR '' ''} \<union> \<Union> (set ` set ss)"
  by (induction i ss rule: array_elements.induct) auto

lemma object_members_NUL:
  "\<forall>(k, s) \<in> set kvs. NUL \<notin> set k \<and> NUL \<notin> set s \<Longrightarrow> NUL \<notin> set (object_members i kvs)"
  using escape_str_no_NUL by (induction i kvs rule: object_members.induct) (auto simp: NUL_def QUOTE_def)

lemma text_no_NUL: "plain_json v \<Longrightarrow> NUL \<notin> set (json_object_to_json_string v)"
proof (induction v)
  case (J_Int i)
  then show ?case
    using int_text_chars [of i] by (auto simp: list_all_iff c_isdigit_def char_int_def NUL_def)
next
  case (J_Object kvs)
  have "NUL \<notin> set k \<and> NUL \<notin> set (json_object_to_json_string v)" if kv: "(k, v) \<in> set kvs" for k v
    using J_Object.IH [OF kv, of v] J_Object.prems kv by (auto simp: list_all_iff)
  then have "NUL \<notin> set (members_text False kvs)"
    by (intro object_members_NUL) auto
  then show ?case by (simp add: NUL_def)
next
  case (J_Array xs)
  then have "\<forall>x \<in> set xs. NUL \<notin> set (json_object_to_json_string x)" by (auto simp: list_all_iff)
  then have "NUL \<notin> set (array_elements False (map json_object_to_json_string xs))"
    using array_elements_chars [of False "map json_object_to_json_string xs"] by (auto simp: NUL_def)
  then show ?case by (simp add: NUL_def)
next
  case (J_String s)
  then show ?case using escape_str_no_NUL [of s] by (simp add: NUL_def QUOTE_def)
qed (simp_all add: NUL_def)

lemma parse_ends_value:
  assumes "value_done v [] E_success t"
  shows "\<exists>t'. redo_char NUL t = Some (Inl t') \<and> tk_err t' = E_success \<and> js_current (tk_level t') = v"
proof -
  have t: "tk_level t = lvl T_eatws T_finish v None" "tk_below t = []" "tk_err t = E_success"
    using assms by (simp_all add: value_done_def)
  let ?t1 = "t\<lparr>tk_level := lvl T_finish T_finish v None\<rparr>"
  have "redo_char NUL t = redo_char NUL ?t1"
    by (rule eatws_redo [OF t(1)]) (simp_all add: c_isspace_def char_int_def NUL_def)
  also have "\<dots> = Some (Inl ?t1)" by (rule redo_out) (simp add: tokener_step_def case_finish_def t(2))
  finally show ?thesis using t(3) by simp
qed

abbreviation fresh_tokener :: tokener where
  "fresh_tokener \<equiv> json_tokener_new\<lparr>tk_err := E_success, tk_obj := J_Null\<rparr>"

lemma fresh_tokener_simps: "tk_level fresh_tokener = reset_level" "tk_below fresh_tokener = []"
  "tk_err fresh_tokener = E_success"
  by (simp_all add: json_tokener_new_def)

lemma parse_after_feed:
  assumes "feed fresh_tokener s = Some t" "NUL \<notin> set s"
  shows "json_tokener_parse s =
    (case redo_char NUL t of
       None \<Rightarrow> None
     | Some (Inl t') \<Rightarrow> Some (if tk_err t' \<noteq> E_success then Inl (tk_err t') else Inr (js_current (tk_level t')))
     | Some (Inr t') \<Rightarrow>
         Some (if js_state (tk_level t') \<noteq> T_finish \<and> js_saved_state (tk_level t') \<noteq> T_finish then Inl E_parse_eof
               else if tk_err t' \<noteq> E_success then Inl (tk_err t') else Inr (js_current (tk_level t'))))"
proof -
  have "parse_loop s (- 1) 0 fresh_tokener = parse_loop s (- 1) (length s) t"
    using parse_loop_feed [OF assms, of "[]" "[]"] by simp
  also have "\<dots> = (case redo_char NUL t of
       None \<Rightarrow> None
     | Some (Inl t') \<Rightarrow> Some t'
     | Some (Inr t') \<Rightarrow>
         if js_state (tk_level t') \<noteq> T_finish \<and> js_saved_state (tk_level t') \<noteq> T_finish
         then Some (t'\<lparr>tk_err := E_parse_eof\<rparr>) else Some t')"
    by (subst parse_loop.simps) (simp add: c_at_def split: option.split sum.split)
  finally show ?thesis
    by (auto simp: json_tokener_parse_def json_tokener_parse_ex_def split: option.split sum.split)
qed

lemma parse_printed:
  assumes "plain_json v" "json_depth v < JSON_TOKENER_MAX_DEPTH"
  shows "json_tokener_parse (json_object_to_json_string v) = Some (Inr v)"
proof -
  obtain t' where t': "feed fresh_tokener (json_object_to_json_string v) = Some t'"
    "\<forall>c. follow c \<longrightarrow> (\<exists>t''. value_done v [] E_success t'' \<and> redo_char c t' = redo_char c t'')"
    using readsD [OF plain_json_reads [OF assms(1)] fresh_tokener_simps(1)] assms(2) fresh_tokener_simps by auto
  have "follow NUL" by (simp add: follow_def)
  then obtain t'' where "value_done v [] E_success t''" "redo_char NUL t' = redo_char NUL t''" using t'(2) by blast
  with parse_ends_value [of v t''] parse_after_feed [OF t'(1) text_no_NUL [OF assms(1)]] show ?thesis by auto
qed



text \<open>The states of a comment.\<close>

lemma feed_comment:
  "js_state (tk_level t) = T_comment \<Longrightarrow> CHR ''*'' \<notin> set s \<Longrightarrow> feed t s = Some (t\<lparr>tk_pb := tk_pb t @ s\<rparr>)"
proof (induction s arbitrary: t)
  case (Cons c s)
  have "c \<noteq> CHR ''*''" using Cons.prems(2) by auto
  then have "tokener_step c t = Break (t\<lparr>tk_pb := tk_pb t @ [c]\<rparr>)"
    using Cons.prems by (simp add: tokener_step_def case_comment_def set_level_defs)
  then show ?case using Cons.IH [of "t\<lparr>tk_pb := tk_pb t @ [c]\<rparr>"] Cons.prems by (simp add: redo_break)
qed simp

text \<open>
A text that stops inside a comment behind a value is not an error, and at a deeper level the
  value of that level is the result: of an array that is cut off in a comment, its last element.
\<close>

theorem cut_in_comment_accepted:
  assumes "plain_json v" "json_depth v + 1 < JSON_TOKENER_MAX_DEPTH" "CHR ''*'' \<notin> set rest" "NUL \<notin> set rest"
  shows "json_tokener_parse (''[ '' @ json_object_to_json_string v @ '' /*'' @ rest) = Some (Inr v)"
proof -
  let ?v = "json_object_to_json_string v" and ?s = "''[ '' @ json_object_to_json_string v @ '' /*'' @ rest"
  let ?t1 = "fresh_tokener\<lparr>tk_level := lvl T_eatws T_array (J_Array []) None\<rparr>"
  let ?l = "lvl T_array_add T_array (J_Array []) None"
  let ?t2 = "fresh_tokener\<lparr>tk_level := reset_level, tk_below := [?l]\<rparr>"
  have "feed fresh_tokener ?s =
      feed (fresh_tokener\<lparr>tk_level := lvl T_start T_start J_Null None\<rparr>) (CHR ''['' # '' '' @ ?v @ '' /*'' @ rest)"
    using feed_start [OF fresh_tokener_simps(1), of "CHR ''[''" "'' '' @ ?v @ '' /*'' @ rest"]
    by (simp add: c_isspace_def char_int_def)
  also have "\<dots> = feed ?t1 ('' '' @ ?v @ '' /*'' @ rest)"
    by (rule feed_one) (simp add: tokener_step_def case_start_def set_level_defs json_object_new_array_def)
  also have "\<dots> = feed ?t1 (?v @ '' /*'' @ rest)" using eatws_blank [of ?t1] by simp
  also have "\<dots> = feed ?t2 (?v @ CHR '' '' # ''/*'' @ rest)"
  proof -
    obtain c cs where c: "?v = c # cs" "starts_value c" using text_starts_value [of v] assms(1) by blast
    have "redo_char c ?t1 = redo_char c ?t2"
      using array_enter [of ?t1 "[]" c] c(2) by (simp add: JSON_TOKENER_MAX_DEPTH_def json_tokener_new_def)
    then show ?thesis using c(1) by simp
  qed
  finally have start: "feed fresh_tokener ?s = feed ?t2 (?v @ CHR '' '' # ''/*'' @ rest)" .
  obtain t3 where t3: "waiting ?l v [] E_success t3"
    "feed ?t2 (?v @ CHR '' '' # ''/*'' @ rest) = feed t3 (CHR '' '' # ''/*'' @ rest)"
    using feed_value [OF plain_json_reads [OF assms(1)], of "[]" ?t2 ?l "CHR '' ''" "''/*'' @ rest"] assms(2)
    by (auto simp: follow_def fresh_tokener_simps)
  have lev: "tk_level t3 = lvl T_eatws T_finish v None" "tk_err t3 = E_success"
    using t3(1) by (simp_all add: waiting_def value_done_def)
  let ?t4 = "t3\<lparr>tk_level := lvl T_comment T_finish v None, tk_pb := ''/*''\<rparr>"
  have "feed t3 (CHR '' '' # ''/*'' @ rest) = feed ?t4 rest"
    using lev eatws_blank [of t3]
    by (simp add: redo_break tokener_step_def case_eatws_def case_comment_start_def set_level_defs c_isspace_def
        char_int_def)
  then have fed: "feed fresh_tokener ?s = Some (?t4\<lparr>tk_pb := tk_pb ?t4 @ rest\<rparr>)"
    using start t3(2) feed_comment [of ?t4 rest] assms(3) by simp
  have nul: "NUL \<notin> set ?s" using text_no_NUL [OF assms(1)] assms(4) by (simp add: NUL_def)
  show ?thesis
    using parse_after_feed [OF fed nul] lev(2)
    by (simp add: redo_break tokener_step_def case_comment_def set_level_defs NUL_def)
qed

lemma cut_in_comment_accepted_witness:
  "json_tokener_parse (''[ '' @ json_object_to_json_string (J_Int 7) @ '' /*'' @ '' never closed'') = Some (Inr (J_Int 7))"
  by (rule cut_in_comment_accepted) (simp_all add: JSON_TOKENER_MAX_DEPTH_def NUL_def)

text \<open>
An escape with upper case hexadecimal digits is an error, wherever in a string it stands:
  only the digits \<open>a\<close> to \<open>f\<close> are looked up.
\<close>

theorem upper_case_escape_rejected:
  assumes "NUL \<notin> set s" "d \<in> set ''ABCDEF''"
  shows "json_tokener_parse ([QUOTE] @ json_escape_str s @ [BACKSLASH, CHR ''u'', d] @ rest) = Some (Inl E_parse_string)"
proof -
  let ?s = "[QUOTE] @ json_escape_str s @ [BACKSLASH, CHR ''u'']"
  let ?t1 = "fresh_tokener\<lparr>tk_level := lvl T_string T_start J_Null None, tk_pb := [], tk_quote_char := QUOTE\<rparr>"
  have esc: "json_escape_str s = concat (map escaped s)"
    using escape_loop_map [of s 0 0 "[]"] assms(1) by (simp add: json_escape_str_def)
  have "feed fresh_tokener ?s =
      feed (fresh_tokener\<lparr>tk_level := lvl T_start T_start J_Null None\<rparr>) (QUOTE # json_escape_str s @ [BACKSLASH, CHR ''u''])"
    using feed_start [OF fresh_tokener_simps(1), of QUOTE "json_escape_str s @ [BACKSLASH, CHR ''u'']"]
    by (simp add: c_isspace_def char_int_def QUOTE_def)
  also have "\<dots> = feed ?t1 (json_escape_str s @ [BACKSLASH, CHR ''u''])"
    by (rule feed_one) (simp add: step_defs QUOTE_def)
  finally have start: "feed fresh_tokener ?s = feed ?t1 (json_escape_str s @ [BACKSLASH, CHR ''u''])" .
  have "inside T_string J_Null [] [] E_success ?t1" by (simp add: inside_def json_tokener_new_def)
  from feed_string [OF this _ assms(1)] obtain t2 where t2: "feed ?t1 (json_escape_str s) = Some t2"
    "inside T_string J_Null [] s E_success t2"
    unfolding esc by auto
  let ?t3 = "t2\<lparr>tk_level := lvl T_escape_unicode T_string J_Null None, tk_ucs_char := 0, tk_st_pos := 0\<rparr>"
  have "feed t2 [BACKSLASH, CHR ''u''] = Some ?t3"
    using t2(2) by (auto simp: inside_def redo_break step_defs QUOTE_def BACKSLASH_def)
  then have fed: "feed fresh_tokener ?s = Some ?t3" using start t2(1) by (simp add: feed_append)
  have nul: "NUL \<notin> set ?s" using escape_str_no_NUL [OF assms(1)] by (simp add: NUL_def QUOTE_def BACKSLASH_def)
  have "\<not> is_hex_char d" using assms(2) by (auto simp: is_hex_char_def json_hex_chars_def NUL_def)
  then have out: "redo_char d ?t3 = Some (Inl (?t3\<lparr>tk_err := E_parse_string\<rparr>))"
    by (intro redo_out) (simp add: tokener_step_def case_escape_unicode_def fail_with_def)
  have "parse_loop (?s @ d # rest) (- 1) 0 fresh_tokener = parse_loop (?s @ d # rest) (- 1) (length ?s) ?t3"
    using parse_loop_feed [OF fed nul, of "[]" "d # rest"] by simp
  also have "\<dots> = Some (?t3\<lparr>tk_err := E_parse_string\<rparr>)"
  proof -
    have at: "c_at (?s @ d # rest) (length ?s) = d" by (simp add: c_at_def nth_append)
    show ?thesis by (subst parse_loop.simps, subst at, subst out) simp
  qed
  finally show ?thesis by (simp add: json_tokener_parse_def json_tokener_parse_ex_def)
qed

lemma upper_case_escape_rejected_witness:
  "json_tokener_parse ([QUOTE] @ json_escape_str ''caf'' @ [BACKSLASH, CHR ''u'', CHR ''E''] @ ''9'') =
   Some (Inl E_parse_string)"
  by (rule upper_case_escape_rejected) (simp_all add: NUL_def)

end
