(* ===== verification/Mod_Http.thy ===== *)
theory Mod_Http
  imports Http_Request Json_Tokener Url_Encoding Fs_Api
begin

text \<open>
  \<open>mod/applications/mod_http/mod_http.c\<close>: the API command \<open>http\<close>, which puts the parts of the module
  together: the headers are decoded and parsed as JSON, the request is made, and the response is
  printed as JSON into memory of a size computed before.  The result is the text written to the
  stream, with what the request did.
\<close>

definition HTTP_SYNTAX :: string where
  "HTTP_SYNTAX = ''<http_method> <url> <urlejson_headers> [urlejson_body]''"

definition HTTP_PARAMS :: nat where "HTTP_PARAMS = 4"
definition HTTP_BUFFER_SIZE :: nat where "HTTP_BUFFER_SIZE = 262144"
definition MAX_MEMLOCS :: nat where "MAX_MEMLOCS = 512"

definition err_text :: string where "err_text = ''-ERR'' @ [LF]"

text \<open>\<open>GARBAGE_ADD\<close> as the \<open>g\<close>-th block: it gives up when all places are taken.\<close>

definition garbage_full :: "nat \<Rightarrow> bool" where
  "garbage_full g \<longleftrightarrow> g \<ge> MAX_MEMLOCS"

text \<open>An unknown method leaves the variable as it was, \<open>uninit\<close>.\<close>

definition read_method :: "http_method \<Rightarrow> string \<Rightarrow> http_method" where
  "read_method uninit m =
     (if c_strcaseeq ''GET'' m then GET
      else if c_strcaseeq ''POST'' m then POST
      else if c_strcaseeq ''HEAD'' m then HEAD
      else if c_strcaseeq ''DELETE'' m then DELETE
      else if c_strcaseeq ''PUT'' m then PUT
      else uninit)"

text \<open>The loop over the pairs of the headers; \<open>Inr None\<close> stands for \<open>-ERR\<close>.\<close>

fun read_request_headers ::
    "(nat \<Rightarrow> bool) \<Rightarrow> (string \<times> json) list \<Rightarrow> nat \<Rightarrow> http_header list \<Rightarrow> nat
      \<Rightarrow> crash + (http_header list \<times> nat \<times> nat) option" where
  "read_request_headers malloc [] g hs a = Inr (Some (hs, g, a))"
| "read_request_headers malloc ((key, val) # kvs) g hs a =
     (if \<not> malloc (length key + 1) \<or> garbage_full g then Inr None
      else case json_object_get_type val of
             Inl e \<Rightarrow> Inl e
           | Inr jsontype \<Rightarrow>
               (if jsontype \<noteq> json_type_string then Inr None
                else let value = the (json_object_get_string val)
                     in if \<not> malloc (length value + 1) \<or> garbage_full (g + 1) then Inr None
                        else read_request_headers malloc kvs (g + 2)
                               (hs @ [\<lparr>hdr_field_name = key, hdr_value = value\<rparr>])
                               (a + length key + length value)))"

subsection \<open>The response as JSON\<close>

text \<open>The conversion \<open>%3d\<close>.\<close>

definition width3 :: "int \<Rightarrow> string" where
  "width3 i = (let s = c_int_text i in replicate (3 - length s) CHR '' '' @ s)"

definition json_pair :: "string \<Rightarrow> string \<Rightarrow> string" where
  "json_pair key s = [QUOTE] @ key @ [QUOTE] @ '': '' @ [QUOTE] @ s @ [QUOTE]"

definition response_head :: "http_response \<Rightarrow> string \<Rightarrow> string" where
  "response_head res body =
     ''{'' @ json_pair ''version'' (res_version res) @ '','' @
     json_pair ''status_code'' (width3 (res_status_code res)) @ '','' @
     json_pair ''phrase'' (res_phrase res) @ '','' @ json_pair ''body'' body @ '','' @
     [QUOTE] @ ''headers'' @ [QUOTE] @ '': [''"

definition header_json :: "http_header \<Rightarrow> string" where
  "header_json h =
     ''{'' @ [QUOTE] @ ''key'' @ [QUOTE] @ '': '' @ [QUOTE] @ hdr_field_name h @ [QUOTE] @ '','' @
     [QUOTE] @ ''value'' @ [QUOTE] @ '': '' @ [QUOTE] @ hdr_value h @ [QUOTE] @ ''}''"

text \<open>The size of the memory for the response; \<open>a\<close> is the length of the headers of the request.\<close>

definition response_size :: "http_response \<Rightarrow> nat \<Rightarrow> nat" where
  "response_size res a =
     (128 + 256 * length (res_headers res) + a * 2 + length ''version'' + length (res_version res)
      + length ''status_code'' + 3 + length ''phrase'' + length (res_phrase res)
      + length ''body'' + length (res_body res) * 3 + 1 + length ''headers'' + 1) * 4"

text \<open>
  \<open>m += snprintf(json_response + m, l - m, ...)\<close>: the difference is a \<open>size_t\<close>, and a write behind
  the memory is a crash.
\<close>

definition print_at :: "string \<Rightarrow> nat \<Rightarrow> string \<Rightarrow> crash + string \<times> nat" where
  "print_at buf m s =
     (let n = size_t_minus (length buf) m
      in if n = 0 then Inr (buf, m + length s)
         else if m + min (n - 1) (length s) + 1 > length buf then Inl Out_Of_Bounds
         else Inr (fst (c_snprintf buf m n s), m + length s))"

fun print_headers :: "string \<Rightarrow> nat \<Rightarrow> bool \<Rightarrow> http_header list \<Rightarrow> crash + string \<times> nat" where
  "print_headers buf m f [] = Inr (buf, m)"
| "print_headers buf m f (h # hs) =
     (case (if f then print_at buf m '','' else Inr (buf, m)) of
        Inl e \<Rightarrow> Inl e
      | Inr (buf1, m1) \<Rightarrow>
          (case print_at buf1 m1 (header_json h) of
             Inl e \<Rightarrow> Inl e
           | Inr (buf2, m2) \<Rightarrow> print_headers buf2 m2 True hs))"

definition print_response :: "string \<Rightarrow> http_response \<Rightarrow> string \<Rightarrow> crash + string" where
  "print_response buf res body =
     (case print_at buf 0 (response_head res body) of
        Inl e \<Rightarrow> Inl e
      | Inr (buf1, m1) \<Rightarrow>
          (case print_headers buf1 m1 False (res_headers res) of
             Inl e \<Rightarrow> Inl e
           | Inr (buf2, m2) \<Rightarrow>
               (case print_at buf2 m2 '']}'' of
                  Inl e \<Rightarrow> Inl e
                | Inr (buf3, m3) \<Rightarrow>
                    if m3 < length buf3 then Inr (buf_string (buf3[m3 := NUL]) 0) else Inl Out_Of_Bounds)))"

text \<open>\<open>%s\<close> prints a null pointer as \<open>(null)\<close>.\<close>

definition encoded_body :: "(nat \<Rightarrow> bool) \<Rightarrow> string \<Rightarrow> string" where
  "encoded_body malloc body =
     (if body = [] then []
      else case url_encode (malloc (length body * 3 + 1)) body (length body) of
             Inr (Some s) \<Rightarrow> s
           | _ \<Rightarrow> ''(null)'')"

text \<open>The part behind \<open>http_req\<close>; \<open>g\<close> counts the blocks collected, \<open>heap\<close> is fresh memory.\<close>

definition write_response ::
    "(nat \<Rightarrow> bool) \<Rightarrow> (nat \<Rightarrow> char) \<Rightarrow> nat \<Rightarrow> nat \<Rightarrow> http_response option \<Rightarrow> crash + string" where
  "write_response malloc heap g a ret =
     (case ret of
        None \<Rightarrow> Inr err_text
      | Some res \<Rightarrow>
          (let collected = g + 3 + (if res_headers res = [] then 0 else 1) + 2 * length (res_headers res);
               l = response_size res a
           in if collected > MAX_MEMLOCS then Inr err_text
              else if \<not> malloc l \<or> garbage_full collected then Inr err_text
              else if res_body res \<noteq> [] \<and>
                (\<not> malloc (length (res_body res) + 1) \<or> garbage_full (collected + 1) \<or> garbage_full (collected + 2))
              then Inr err_text
              else case print_response (map heap [0..<l]) res (encoded_body malloc (res_body res)) of
                     Inl e \<Rightarrow> Inl e
                   | Inr json_response \<Rightarrow> Inr (json_response @ [LF])))"

subsection \<open>The command\<close>

text \<open>The part behind the headers.\<close>

definition http_api_request ::
    "http_net \<Rightarrow> http_method \<Rightarrow> (nat \<Rightarrow> char) \<Rightarrow> string list \<Rightarrow> http_header list \<Rightarrow> nat \<Rightarrow> nat
      \<Rightarrow> (crash + string \<times> http_effects) option" where
  "http_api_request net uninit heap argv hs g1 a =
     (let malloc = net_malloc net; with_body = (length argv = HTTP_PARAMS)
      in case (if with_body
               then url_decode (malloc (length (argv ! 3) + 1)) (argv ! 3 @ [NUL]) (length (argv ! 3))
               else Inr (Some [])) of
           Inl e \<Rightarrow> Some (Inl e)
         | Inr None \<Rightarrow> Some (Inl Null_Deref)
         | Inr (Some body_dec) \<Rightarrow>
             (let b = takeWhile (\<lambda>c. c \<noteq> NUL) body_dec;
                  req = \<lparr>req_method = read_method uninit (argv ! 0), req_version = DEFAULT_HTTP_VERSION,
                         req_url = argv ! 1, req_headers = hs,
                         req_body = (if with_body then Some b else None), req_body_len = length b\<rparr>
              in if with_body \<and> garbage_full g1 then Some (Inr (err_text, no_effects))
                 else case http_req net req of
                        Inl e \<Rightarrow> Some (Inl e)
                      | Inr (ret, eff) \<Rightarrow>
                          (case write_response malloc heap (if with_body then g1 + 1 else g1) a ret of
                             Inl e \<Rightarrow> Some (Inl e)
                           | Inr out \<Rightarrow> Some (Inr (out, eff)))))"

definition http_api_main ::
    "fs_api \<Rightarrow> http_net \<Rightarrow> http_method \<Rightarrow> (nat \<Rightarrow> char) \<Rightarrow> string option \<Rightarrow> (crash + string \<times> http_effects) option" where
  "http_api_main api net uninit heap cmd =
     (let malloc = net_malloc net;
          done = (\<lambda>s. Some (Inr (s, no_effects)))
      in case cmd of
           None \<Rightarrow> done (''-USAGE: '' @ HTTP_SYNTAX @ [LF])
         | Some ccmd \<Rightarrow>
             (let argv = fs_separate_string api ccmd CHR '' '' HTTP_PARAMS; argc = length argv
              in if argc \<noteq> HTTP_PARAMS \<and> argc \<noteq> HTTP_PARAMS - 1 then done err_text
                 else if argc \<noteq> HTTP_PARAMS \<and> \<not> malloc 1 then done err_text
                 else if \<not> malloc HTTP_BUFFER_SIZE then done err_text
                 else if \<not> malloc (length (argv ! 1) + 1) then done err_text
                 else case url_decode (malloc (length (argv ! 2) + 1)) (argv ! 2 @ [NUL]) (length (argv ! 2)) of
                        Inl e \<Rightarrow> Some (Inl e)
                      | Inr None \<Rightarrow> Some (Inl Null_Deref)
                      | Inr (Some headers_dec) \<Rightarrow>
                          (case json_tokener_parse (takeWhile (\<lambda>c. c \<noteq> NUL) headers_dec) of
                             None \<Rightarrow> None
                           | Some (Inl err) \<Rightarrow> done err_text
                           | Some (Inr json_http_headers) \<Rightarrow>
                               (case json_object_get_type json_http_headers of
                                  Inl e \<Rightarrow> Some (Inl e)
                                | Inr jsontype \<Rightarrow>
                                    (if jsontype \<noteq> json_type_object then done err_text
                                     else let kvs = the (json_object_get_object json_http_headers);
                                              g = (if argc = HTTP_PARAMS then 4 else 5)
                                          in if kvs \<noteq> [] \<and> \<not> malloc (length kvs * 16) then Some (Inl Null_Deref)
                                             else case read_request_headers malloc kvs g [] 0 of
                                                    Inl e \<Rightarrow> Some (Inl e)
                                                  | Inr None \<Rightarrow> done err_text
                                                  | Inr (Some (hs, g1, a)) \<Rightarrow>
                                                      http_api_request net uninit heap argv hs g1 a)))))"

subsection \<open>Printing into the memory\<close>

definition response_json :: "http_response \<Rightarrow> string \<Rightarrow> string" where
  "response_json res body =
     response_head res body @
     (case res_headers res of [] \<Rightarrow> []
      | h # hs \<Rightarrow> header_json h @ concat (map (\<lambda>h. '','' @ header_json h) hs)) @ '']}''"

text \<open>The memory holds the text \<open>t\<close> and its NUL.\<close>

definition printed :: "string \<Rightarrow> string \<Rightarrow> bool" where
  "printed buf t \<longleftrightarrow> length t < length buf \<and> take (length t) buf = t"

lemma print_at_fits:
  assumes "printed buf t \<or> t = [] \<and> buf \<noteq> []" "length t + length s < length buf" "length buf < 2 ^ 64"
  shows "\<exists>buf'. print_at buf (length t) s = Inr (buf', length (t @ s)) \<and> printed buf' (t @ s) \<and> length buf' = length buf"
proof -
  have t: "take (length t) buf = t" using assms(1) by (auto simp: printed_def)
  have n: "size_t_minus (length buf) (length t) = length buf - length t"
    using assms(2,3) by (intro size_t_minus_le) simp_all
  let ?buf = "take (length t) buf @ (s @ [NUL]) @ drop (length t + length (s @ [NUL])) buf"
  have "c_snprintf buf (length t) (length buf - length t) s = (?buf, length s)"
    using assms(2) by (simp add: c_snprintf_def buf_write_def)
  then have "print_at buf (length t) s = Inr (?buf, length (t @ s))"
    using assms(2) n by (simp add: print_at_def)
  moreover have "printed ?buf (t @ s)" using assms(2) t by (simp add: printed_def)
  moreover have "length ?buf = length buf" using assms(2) by simp
  ultimately show ?thesis by blast
qed

lemma print_headers_fits:
  assumes "printed buf t" "length t + length (concat (map (\<lambda>h. '','' @ header_json h) hs)) < length buf"
    "length buf < 2 ^ 64"
  shows "\<exists>buf'. print_headers buf (length t) True hs =
      Inr (buf', length (t @ concat (map (\<lambda>h. '','' @ header_json h) hs))) \<and>
    printed buf' (t @ concat (map (\<lambda>h. '','' @ header_json h) hs)) \<and> length buf' = length buf"
  using assms
proof (induction hs arbitrary: buf t)
  case (Cons h hs)
  obtain buf1 where b1: "print_at buf (length t) '','' = Inr (buf1, length (t @ '',''))" "printed buf1 (t @ '','')"
    "length buf1 = length buf"
    using print_at_fits [of buf t "'',''"] Cons.prems by auto
  obtain buf2 where b2: "print_at buf1 (length (t @ '','')) (header_json h) = Inr (buf2, length ((t @ '','') @ header_json h))"
    "printed buf2 ((t @ '','') @ header_json h)" "length buf2 = length buf"
    using print_at_fits [of buf1 "t @ '',''" "header_json h"] b1 Cons.prems by auto
  have "\<exists>buf'. print_headers buf2 (length ((t @ '','') @ header_json h)) True hs =
      Inr (buf', length (((t @ '','') @ header_json h) @ concat (map (\<lambda>h. '','' @ header_json h) hs))) \<and>
    printed buf' (((t @ '','') @ header_json h) @ concat (map (\<lambda>h. '','' @ header_json h) hs)) \<and>
    length buf' = length buf2"
    by (rule Cons.IH [OF b2(2)]) (use Cons.prems b2(3) in simp_all)
  then show ?case using b1(1) b2(1,3) by simp
qed auto

lemma print_response_fits:
  assumes "length (response_json res body) < length buf" "length buf < 2 ^ 64" "NUL \<notin> set (response_json res body)"
  shows "print_response buf res body = Inr (response_json res body)"
proof -
  let ?h = "response_head res body"
  let ?hs = "case res_headers res of [] \<Rightarrow> []
      | h # hs \<Rightarrow> header_json h @ concat (map (\<lambda>h. '','' @ header_json h) hs)"
  have len: "length ?h + length ?hs + 2 < length buf" using assms(1) by (simp add: response_json_def)
  obtain buf1 where b1: "print_at buf 0 ?h = Inr (buf1, length ?h)" "printed buf1 ?h" "length buf1 = length buf"
  proof -
    have "printed buf []" using len by (auto simp: printed_def)
    then show thesis using print_at_fits [of buf "[]" ?h] len assms(2) that by auto
  qed
  have "\<exists>buf2. print_headers buf1 (length ?h) False (res_headers res) = Inr (buf2, length (?h @ ?hs)) \<and>
      printed buf2 (?h @ ?hs) \<and> length buf2 = length buf"
  proof (cases "res_headers res")
    case Nil
    then show ?thesis using b1 by simp
  next
    case (Cons h hs)
    obtain buf3 where b3: "print_at buf1 (length ?h) (header_json h) = Inr (buf3, length (?h @ header_json h))"
      "printed buf3 (?h @ header_json h)" "length buf3 = length buf"
      using print_at_fits [of buf1 ?h "header_json h"] b1 len Cons assms(2) by auto
    have "length (?h @ header_json h) + length (concat (map (\<lambda>h. '','' @ header_json h) hs)) < length buf3"
      using len Cons b3(3) by simp
    from print_headers_fits [OF b3(2) this] assms(2) b3(3) show ?thesis using Cons b3(1) by simp
  qed
  then obtain buf2 where b2: "print_headers buf1 (length ?h) False (res_headers res) = Inr (buf2, length (?h @ ?hs))"
    "printed buf2 (?h @ ?hs)" "length buf2 = length buf" by blast
  obtain buf4 where b4: "print_at buf2 (length (?h @ ?hs)) '']}'' = Inr (buf4, length ((?h @ ?hs) @ '']}''))"
    "printed buf4 ((?h @ ?hs) @ '']}'')" "length buf4 = length buf"
    using print_at_fits [of buf2 "?h @ ?hs" "'']}''"] b2 len assms(2) by auto
  let ?all = "response_json res body"
  have all: "(?h @ ?hs) @ '']}'' = ?all" by (simp add: response_json_def)
  have p: "length ?all < length buf4" "take (length ?all) buf4 = ?all"
    using b4(2) unfolding all printed_def by simp_all
  have "buf4[length ?all := NUL] = ?all @ NUL # drop (Suc (length ?all)) buf4"
    using p by (metis upd_conv_take_nth_drop)
  moreover have "takeWhile (\<lambda>c. c \<noteq> NUL) (?all @ NUL # r) = ?all" for r
    using assms(3) takeWhile_until_NUL [of ?all r] by (simp add: takeWhile_eq_all_conv) blast
  ultimately have "buf_string (buf4[length ?all := NUL]) 0 = ?all" by (simp add: buf_string_def)
  then show ?thesis
    using b1(1) b2(1) b4(1) p(1) unfolding all by (simp add: print_response_def)
qed

lemma print_at_counts: "print_at buf m s = Inr (buf', m') \<Longrightarrow> m' = m + length s \<and> (m \<le> length buf \<longrightarrow> length buf' = length buf)"
  by (auto simp: print_at_def c_snprintf_def buf_write_def Let_def split: if_splits)

lemma print_at_crash: "print_at buf m s = Inl e \<Longrightarrow> e = Out_Of_Bounds"
  by (auto simp: print_at_def Let_def split: if_splits)


lemma print_headers_counts:
  "print_headers buf m f hs = Inr (buf', m') \<Longrightarrow> m + length (concat (map header_json hs)) \<le> m'"
proof (induction hs arbitrary: buf m f)
  case (Cons h hs)
  then show ?case
    by (fastforce dest: print_at_counts split: if_splits sum.splits)
qed simp

lemma print_headers_crash: "print_headers buf m f hs = Inl e \<Longrightarrow> e = Out_Of_Bounds"
  by (induction buf m f hs rule: print_headers.induct) (auto dest: print_at_crash split: if_splits sum.splits)

lemma print_at_length: "print_at buf m s = Inr (buf', m') \<Longrightarrow> length buf' = length buf"
  by (auto simp: print_at_def c_snprintf_def buf_write_def Let_def split: if_splits)

lemma print_headers_length: "print_headers buf m f hs = Inr (buf', m') \<Longrightarrow> length buf' = length buf"
proof (induction hs arbitrary: buf m f)
  case (Cons h hs)
  then show ?case
    by (fastforce dest: print_at_length split: if_splits sum.splits)
qed simp

lemma print_response_overruns:
  assumes "length buf \<le> length (concat (map header_json (res_headers res)))"
  shows "print_response buf res body = Inl Out_Of_Bounds"
proof (cases "print_at buf 0 (response_head res body)")
  case (Inl e)
  then show ?thesis using print_at_crash [OF Inl] by (simp add: print_response_def)
next
  case (Inr r)
  obtain buf1 m1 where r: "r = (buf1, m1)" by fastforce
  show ?thesis
  proof (cases "print_headers buf1 m1 False (res_headers res)")
    case (Inl e)
    then show ?thesis using Inr r print_headers_crash [OF Inl] by (simp add: print_response_def)
  next
    case inr2: (Inr r2)
    obtain buf2 m2 where r2: "r2 = (buf2, m2)" by fastforce
    have m2: "length buf \<le> m2" using print_headers_counts [of buf1 m1 False "res_headers res" buf2 m2] inr2 r2 assms
      by simp
    show ?thesis
    proof (cases "print_at buf2 m2 '']}''")
      case (Inl e)
      then show ?thesis using Inr r inr2 r2 print_at_crash [OF Inl] by (simp add: print_response_def)
    next
      case inr3: (Inr r3)
      obtain buf3 m3 where r3: "r3 = (buf3, m3)" by fastforce
      have "length buf3 = length buf"
        using Inr r inr2 r2 inr3 r3 print_at_length print_headers_length by metis
      moreover have "m2 \<le> m3" using inr3 r3 print_at_counts [of buf2 m2 "'']}''" buf3 m3] by simp
      ultimately show ?thesis using Inr r inr2 r2 inr3 r3 m2 by (simp add: print_response_def)
    qed
  qed
qed

text \<open>
A response whose headers are longer than the memory reserved, which only counts 256 bytes for
  each of them, is written behind the end of the memory: the server decides what is written there.
\<close>

theorem long_header_overflows:
  assumes "h \<in> set (res_headers res)" "response_size res a \<le> length (hdr_value h)"
    and "2 * length (res_headers res) + g + 6 < MAX_MEMLOCS"
  shows "write_response (\<lambda>_. True) heap g a (Some res) = Inl Out_Of_Bounds"
proof -
  obtain hs1 hs2 where hs: "res_headers res = hs1 @ h # hs2" using split_list [OF assms(1)] by blast
  have "length (hdr_value h) \<le> length (header_json h)" by (simp add: header_json_def)
  then have "response_size res a \<le> length (concat (map header_json (res_headers res)))"
    using assms(2) hs by simp
  then have "print_response (map heap [0..<response_size res a]) res body = Inl Out_Of_Bounds" for body
    by (intro print_response_overruns) simp
  moreover have "res_headers res \<noteq> []" using assms(1) by auto
  ultimately show ?thesis
    using assms(3) by (simp add: write_response_def garbage_full_def Let_def)
qed

lemma long_header_overflows_witness:
  "write_response (\<lambda>_. True) (\<lambda>_. CHR ''?'') 4 0
     (Some \<lparr>res_version = ''HTTP/1.1 '', res_status_code = 200, res_phrase = ''OK'',
       res_headers = [\<lparr>hdr_field_name = ''Location'', hdr_value = replicate 4000 CHR ''x''\<rparr>], res_body = []\<rparr>) =
   Inl Out_Of_Bounds"
  by (rule long_header_overflows [of "\<lparr>hdr_field_name = ''Location'', hdr_value = replicate 4000 CHR ''x''\<rparr>"])
    (simp_all add: response_size_def MAX_MEMLOCS_def)

subsection \<open>The command\<close>

lemma read_request_headers_null:
  assumes "\<forall>(k, v) \<in> set kvs1. \<exists>s. v = J_String s" "g + 2 * length kvs1 < MAX_MEMLOCS"
  shows "read_request_headers (\<lambda>_. True) (kvs1 @ (k, J_Null) # kvs2) g hs a = Inl Null_Deref"
  using assms
proof (induction kvs1 arbitrary: g hs a)
  case Nil
  then show ?case by (simp add: garbage_full_def json_object_get_type_def)
next
  case (Cons p kvs1)
  obtain k1 s where "p = (k1, J_String s)" using Cons.prems(1) by (cases p) auto
  then show ?case
    using Cons.prems Cons.IH [of "g + 2"]
    by (simp add: garbage_full_def json_object_get_type_def json_object_get_string_def)
qed

lemma decode_headers:
  "url_decode True (url_encode_loop s @ [NUL]) (length (url_encode_loop s)) = Inr (Some s)"
  using url_decode_loop_encode [of "[]" s "[NUL]"] by (simp add: url_decode_def)

text \<open>
The headers \<open>null\<close>, or an object in which the value of a header is \<open>null\<close>, crash the server:
  the type is read through the null pointer that stands for \<open>null\<close>.
\<close>

theorem null_headers_crash:
  assumes "fs_separate_string api cmd CHR '' '' HTTP_PARAMS = [m, url, url_encode_loop (json_object_to_json_string v)]"
    and "v = J_Null \<or> v = J_Object (kvs1 @ (k, J_Null) # kvs2) \<and> plain_json v \<and> json_depth v < JSON_TOKENER_MAX_DEPTH \<and>
      list_all (\<lambda>(k, x). \<exists>s. x = J_String s) kvs1 \<and> 5 + 2 * length kvs1 < MAX_MEMLOCS"
    and "net_malloc net = (\<lambda>_. True)"
  shows "http_api_main api net uninit heap (Some cmd) = Some (Inl Null_Deref)"
proof -
  have plain: "plain_json v" "json_depth v < JSON_TOKENER_MAX_DEPTH"
    using assms(2) by (auto simp: JSON_TOKENER_MAX_DEPTH_def)
  have "takeWhile (\<lambda>c. c \<noteq> NUL) (json_object_to_json_string v) = json_object_to_json_string v"
    using text_no_NUL [OF plain(1)] by (intro takeWhile_eq_all_conv [THEN iffD2]) auto
  then have parse: "json_tokener_parse (takeWhile (\<lambda>c. c \<noteq> NUL) (json_object_to_json_string v)) = Some (Inr v)"
    by (simp only: parse_printed [OF plain])
  show ?thesis
  proof (cases "v = J_Null")
    case True
    then show ?thesis
      using assms(1,3) parse decode_headers [of "json_object_to_json_string v"]
      by (simp add: http_api_main_def HTTP_PARAMS_def json_object_get_type_def Let_def)
  next
    case False
    then have v: "v = J_Object (kvs1 @ (k, J_Null) # kvs2)" "\<forall>(k, x) \<in> set kvs1. \<exists>s. x = J_String s"
      "5 + 2 * length kvs1 < MAX_MEMLOCS"
      using assms(2) by (auto simp: list_all_iff)
    show ?thesis
      using assms(1,3) parse decode_headers [of "json_object_to_json_string v"] v(1)
        read_request_headers_null [OF v(2,3), of k kvs2 "[]" 0]
      by (simp add: http_api_main_def HTTP_PARAMS_def json_object_get_type_def json_object_get_object_def Let_def)
  qed
qed

lemma null_headers_crash_witness:
  "http_api_main documented_api (good_net []) GET (\<lambda>_. CHR ''?'') (Some ''GET http://pbx/ null'') = Some (Inl Null_Deref)"
proof (rule null_headers_crash)
  show "fs_separate_string documented_api ''GET http://pbx/ null'' CHR '' '' HTTP_PARAMS =
      [''GET'', ''http://pbx/'', url_encode_loop (json_object_to_json_string J_Null)]"
    by code_simp
qed (simp_all add: good_net_def)

text \<open>The request the command makes for a JSON object of headers.\<close>

definition headers_json :: "http_header list \<Rightarrow> json" where
  "headers_json hs = J_Object (map (\<lambda>h. (hdr_field_name h, J_String (hdr_value h))) hs)"

definition command_request :: "http_method \<Rightarrow> string \<Rightarrow> string \<Rightarrow> http_header list \<Rightarrow> string \<Rightarrow> http_request" where
  "command_request uninit m url hs body =
     \<lparr>req_method = read_method uninit m, req_version = DEFAULT_HTTP_VERSION, req_url = url, req_headers = hs,
      req_body = Some body, req_body_len = length body\<rparr>"

lemma read_request_headers_strings:
  assumes "g + 2 * length hs \<le> MAX_MEMLOCS"
  shows "\<exists>a'. read_request_headers (\<lambda>_. True)
      (map (\<lambda>h. (hdr_field_name h, J_String (hdr_value h))) hs) g hs0 a =
    Inr (Some (hs0 @ hs, g + 2 * length hs,
      a + sum_list (map (\<lambda>h. length (hdr_field_name h) + length (hdr_value h)) hs)))"
  using assms
proof (induction hs arbitrary: g hs0 a)
  case (Cons h hs)
  then show ?case
    using Cons.IH [of "g + 2" "hs0 @ [h]"]
    by (cases h) (simp add: garbage_full_def json_object_get_type_def json_object_get_string_def add.assoc Let_def)
qed simp

text \<open>What the texts of a response hold is printable.\<close>

lemma printable_response:
  assumes "digits major" "digits minor" "plain_text phrase" "list_all good_header hs"
  shows "NUL \<notin> set (response_json \<lparr>res_version = ''HTTP/'' @ major @ ''.'' @ minor @ '' '', res_status_code = c,
    res_phrase = phrase, res_headers = hs, res_body = rb\<rparr> (url_encode_loop rb))"
proof -
  have nul: "\<not> c_isdigit NUL" "\<not> text_char NUL"
    by (simp_all add: c_isdigit_def text_char_def c_isprint_def char_int_def NUL_def)
  have dig: "NUL \<notin> set s" if "digits s" for s
    using that nul(1) unfolding digits_def list_all_iff by blast
  have plain: "NUL \<notin> set s" if "plain_text s" for s
    using that nul(2) unfolding plain_text_def list_all_iff by blast
  have enc: "NUL \<notin> set (url_encode_loop rb)"
  proof
    assume "NUL \<in> set (url_encode_loop rb)"
    from set_url_encode_loop [OF this] show False by (simp add: NUL_def url_reserved_def)
  qed
  have num: "NUL \<notin> set (width3 c)"
  proof -
    have "NUL \<noteq> CHR ''-''" "NUL \<noteq> CHR '' ''" by (simp_all add: NUL_def)
    moreover have "NUL \<notin> set (c_int_text c)"
      using int_text_chars [of c] nul(1) calculation(1) unfolding list_all_iff by blast
    ultimately show ?thesis by (auto simp: width3_def Let_def)
  qed
  have hdr: "NUL \<notin> set (header_json h)" if "h \<in> set hs" for h
  proof -
    have "good_header h" using that assms(4) by (simp add: list_all_iff)
    then have "NUL \<notin> set (hdr_field_name h)" "NUL \<notin> set (hdr_value h)"
      using dig plain unfolding good_header_def by blast+
    then show ?thesis by (simp add: header_json_def NUL_def QUOTE_def)
  qed
  have "NUL \<notin> set (response_head \<lparr>res_version = ''HTTP/'' @ major @ ''.'' @ minor @ '' '', res_status_code = c,
      res_phrase = phrase, res_headers = hs, res_body = rb\<rparr> (url_encode_loop rb))"
    using dig [OF assms(1)] dig [OF assms(2)] plain [OF assms(3)] enc num
    by (simp add: response_head_def json_pair_def NUL_def QUOTE_def)
  moreover have "NUL \<notin> set (case hs of [] \<Rightarrow> [] | h # hs \<Rightarrow> header_json h @ concat (map (\<lambda>h. '','' @ header_json h) hs))"
    using hdr by (cases hs) (auto simp: NUL_def)
  ultimately show ?thesis by (auto simp: response_json_def NUL_def)
qed



end
