(* ===== verification/Posix_Io.thy ===== *)
theory Posix_Io
  imports C_Format
begin

text \<open>
  The system calls and library functions on which the text protocols of the programs rest:
  \<open>read\<close> and \<open>write\<close> on a descriptor, \<open>strtok_r\<close> with the delimiter LF, and \<open>getopt\<close>.
\<close>

subsection \<open>Descriptors\<close>

text \<open>
  \<open>fd_pieces\<close> is what reading will find: \<open>None\<close> is an error, an empty piece a \<open>read\<close> that returns
  0, the end of the list the end of the stream; a \<open>read\<close> takes one piece or a part of it.
  \<open>fd_writes\<close> says how many bytes the next writes take (0 for an error; all of them, when the list is
  used up), \<open>fd_sent\<close> what was written.
\<close>

record fd_state =
  fd_pieces :: "string option list"
  fd_writes :: "nat list"
  fd_sent :: string

datatype read_result = Read_Error | Read_Bytes string

definition sys_read :: "fd_state \<Rightarrow> nat \<Rightarrow> read_result \<times> fd_state" where
  "sys_read fd n =
     (case fd_pieces fd of
        [] \<Rightarrow> (Read_Bytes [], fd)
      | None # ps \<Rightarrow> (Read_Error, fd\<lparr>fd_pieces := ps\<rparr>)
      | Some s # ps \<Rightarrow>
          if length s \<le> n then (Read_Bytes s, fd\<lparr>fd_pieces := ps\<rparr>)
          else (Read_Bytes (take n s), fd\<lparr>fd_pieces := Some (drop n s) # ps\<rparr>))"

text \<open>Whether \<open>write(fd, s, l) == l\<close> for the length \<open>l\<close> of \<open>s\<close>.\<close>

definition sys_write :: "fd_state \<Rightarrow> string \<Rightarrow> bool \<times> fd_state" where
  "sys_write fd s =
     (case fd_writes fd of
        [] \<Rightarrow> (True, fd\<lparr>fd_sent := fd_sent fd @ s\<rparr>)
      | n # ns \<Rightarrow> (length s \<le> n, fd\<lparr>fd_writes := ns, fd_sent := fd_sent fd @ take n s\<rparr>))"

text \<open>What \<open>write(fd, s, l)\<close> returns.\<close>

definition sys_write_count :: "fd_state \<Rightarrow> string \<Rightarrow> int \<times> fd_state" where
  "sys_write_count fd s =
     (case fd_writes fd of
        [] \<Rightarrow> (int (length s), fd\<lparr>fd_sent := fd_sent fd @ s\<rparr>)
      | n # ns \<Rightarrow>
          (if n = 0 then - 1 else int (min n (length s)), fd\<lparr>fd_writes := ns, fd_sent := fd_sent fd @ take n s\<rparr>))"

text \<open>What a descriptor has still to deliver, counting the pieces themselves.\<close>

definition piece_weight :: "string option \<Rightarrow> nat" where
  "piece_weight p = (case p of None \<Rightarrow> 1 | Some s \<Rightarrow> 1 + length s)"

definition fd_weight :: "fd_state \<Rightarrow> nat" where
  "fd_weight fd = sum_list (map piece_weight (fd_pieces fd))"

lemma sys_read_progress:
  assumes "sys_read fd n = (Read_Bytes bs, fd')" "bs \<noteq> []" "0 < n"
  shows "fd_weight fd' < fd_weight fd" "length bs \<le> n"
  using assms by (auto simp: sys_read_def fd_weight_def piece_weight_def split: list.splits option.splits if_splits)

text \<open>A descriptor that delivers the text \<open>s\<close> in any pieces and then ends.\<close>

definition delivers :: "fd_state \<Rightarrow> string \<Rightarrow> bool" where
  "delivers fd s \<longleftrightarrow> (\<exists>ps. fd_pieces fd = map Some ps \<and> [] \<notin> set ps \<and> concat ps = s)"

text \<open>The writing side is not changed by reading.\<close>

definition same_output :: "fd_state \<Rightarrow> fd_state \<Rightarrow> bool" where
  "same_output fd fd' \<longleftrightarrow> fd_sent fd' = fd_sent fd \<and> fd_writes fd' = fd_writes fd"

lemma same_output_refl [simp]: "same_output fd fd"
  by (simp add: same_output_def)

lemma same_output_trans: "same_output a b \<Longrightarrow> same_output b c \<Longrightarrow> same_output a c"
  by (simp add: same_output_def)

lemma sys_read_output: "sys_read fd n = (r, fd') \<Longrightarrow> same_output fd fd'"
  by (auto simp: sys_read_def same_output_def split: list.splits option.splits if_splits)

lemma delivers_read:
  assumes "delivers fd s" "s \<noteq> []" "0 < n"
  obtains k fd' where "sys_read fd n = (Read_Bytes (take k s), fd')" "0 < k" "k \<le> n" "k \<le> length s"
    "delivers fd' (drop k s)" "same_output fd fd'"
proof -
  from assms(1) obtain ps where ps: "fd_pieces fd = map Some ps" "[] \<notin> set ps" "concat ps = s"
    by (auto simp: delivers_def)
  with assms(2) obtain p qs where q: "ps = p # qs" "p \<noteq> []" by (cases ps) auto
  show ?thesis
  proof (cases "length p \<le> n")
    case True
    let ?fd = "fd\<lparr>fd_pieces := map Some qs\<rparr>"
    have "delivers ?fd (drop (length p) s)"
      unfolding delivers_def by (rule exI [of _ qs]) (use ps q in auto)
    moreover have "sys_read fd n = (Read_Bytes (take (length p) s), ?fd)"
      using True ps q by (auto simp: sys_read_def)
    moreover have "0 < length p" "length p \<le> length s" using ps q by auto
    ultimately show ?thesis using True that [of "length p" ?fd] by (simp add: same_output_def)
  next
    case False
    let ?fd = "fd\<lparr>fd_pieces := Some (drop n p) # map Some qs\<rparr>"
    have "delivers ?fd (drop n s)"
      unfolding delivers_def by (rule exI [of _ "drop n p # qs"]) (use ps q False in auto)
    moreover have "take n s = take n p" "n \<le> length s" using ps q False by auto
    ultimately show ?thesis
      using False ps q assms(3) that [of n ?fd] by (simp add: sys_read_def same_output_def)
  qed
qed

lemma delivers_read_one:
  assumes "delivers fd (c # s)"
  obtains fd' where "sys_read fd 1 = (Read_Bytes [c], fd')" "delivers fd' s" "same_output fd fd'"
proof -
  from assms obtain k fd' where k: "sys_read fd 1 = (Read_Bytes (take k (c # s)), fd')" "0 < k" "k \<le> 1"
    "delivers fd' (drop k (c # s))" "same_output fd fd'"
    by (rule delivers_read [where n = 1]) auto
  then have "k = 1" by simp
  with k that show ?thesis by simp
qed

lemma delivers_end:
  assumes "delivers fd []"
  shows "sys_read fd n = (Read_Bytes [], fd)"
proof -
  from assms obtain ps :: "string list"
    where ps: "fd_pieces fd = map Some ps" "[] \<notin> set ps" "concat ps = []"
    by (auto simp: delivers_def)
  then have "ps = []" by (cases ps) auto
  with ps show ?thesis by (simp add: sys_read_def)
qed

lemma delivers_pieces: "[] \<notin> set ps \<Longrightarrow> delivers \<lparr>fd_pieces = map Some ps, fd_writes = w, fd_sent = t\<rparr> (concat ps)"
  by (auto simp: delivers_def)

subsection \<open>Tokens\<close>

text \<open>
  \<open>strtok_r(s, "\n", &last)\<close>: the argument is the memory from the position at which the search
  starts up to the end of what may be read; the result is the token and the memory from \<open>last\<close>
  on.  The NUL written behind a token lies before \<open>last\<close>: it only ends the token.
\<close>

definition strtok_r :: "string \<Rightarrow> crash + (string \<times> string) option" where
  "strtok_r mem =
     (let s = dropWhile (\<lambda>c. c = LF) mem;
          tok = takeWhile (\<lambda>c. c \<noteq> LF \<and> c \<noteq> NUL) s;
          rest = drop (length tok) s
      in case s of
           [] \<Rightarrow> Inl Out_Of_Bounds
         | c # _ \<Rightarrow>
             if c = NUL then Inr None
             else (case rest of
                     [] \<Rightarrow> Inl Out_Of_Bounds
                   | d # later \<Rightarrow> Inr (Some (tok, if d = NUL then rest else later))))"

lemma strtok_shorter:
  assumes "strtok_r mem = Inr (Some (tok, after))"
  shows "length after < length mem" "tok \<noteq> []"
proof -
  let ?s = "dropWhile (\<lambda>c. c = LF) mem"
  obtain c cs where s: "?s = c # cs" using assms by (cases ?s) (auto simp: strtok_r_def)
  then have c: "c \<noteq> LF" by (simp add: dropWhile_eq_Cons_conv)
  have n: "c \<noteq> NUL" using assms s by (auto simp: strtok_r_def)
  let ?t = "takeWhile (\<lambda>c. c \<noteq> LF \<and> c \<noteq> NUL) (c # cs)"
  from assms s n obtain d later where r: "drop (length ?t) (c # cs) = d # later"
    by (cases "drop (length ?t) (c # cs)") (auto simp: strtok_r_def Let_def)
  with assms s n have t: "tok = ?t" and l: "after = d # later \<or> after = later"
    by (auto simp: strtok_r_def Let_def split: if_splits)
  have p: "0 < length ?t" using c n by simp
  with t show "tok \<noteq> []" by simp
  have "length after \<le> length (d # later)" using l by auto
  also have "\<dots> = length (c # cs) - length ?t" by (simp only: r [symmetric] length_drop)
  also have "\<dots> < length (c # cs)" using p by simp
  also have "\<dots> \<le> length mem" using s by (metis length_dropWhile_le)
  finally show "length after < length mem" .
qed

text \<open>A line of a text, the next one, and the end of a text.\<close>

lemma strtok_line:
  assumes "tok \<noteq> []" "LF \<notin> set tok" "NUL \<notin> set tok"
  shows "strtok_r (tok @ LF # mem) = Inr (Some (tok, mem))"
proof -
  obtain c cs where t: "tok = c # cs" using assms(1) by (cases tok) auto
  have "takeWhile (\<lambda>c. c \<noteq> LF \<and> c \<noteq> NUL) (tok @ LF # mem) = tok"
    using assms(2,3) by (subst takeWhile_append2) auto
  moreover have "dropWhile (\<lambda>c. c = LF) (tok @ LF # mem) = tok @ LF # mem" using t assms(2) by auto
  moreover have "LF \<noteq> NUL" by (simp add: LF_def NUL_def)
  ultimately show ?thesis using t assms(3) by (auto simp: strtok_r_def)
qed

lemma strtok_skip: "strtok_r (LF # mem) = strtok_r mem"
  by (simp add: strtok_r_def)

lemma strtok_NUL: "strtok_r (NUL # mem) = Inr None"
  by (simp add: strtok_r_def LF_def NUL_def)

lemma strtok_end: "strtok_r [] = Inl Out_Of_Bounds"
  by (simp add: strtok_r_def)

subsection \<open>Options\<close>

text \<open>
  \<open>getopt\<close>: what its calls return, one after the other, each with \<open>optarg\<close>.  \<open>?\<close> is an option that
  is not in the specification or lacks its argument.
\<close>

definition opt_known :: "string \<Rightarrow> char \<Rightarrow> bool" where
  "opt_known spec c \<longleftrightarrow> c \<noteq> CHR '':'' \<and> c \<in> set spec"

fun opt_has_arg :: "string \<Rightarrow> char \<Rightarrow> bool" where
  "opt_has_arg [] c = False"
| "opt_has_arg [d] c = False"
| "opt_has_arg (d # e # spec) c = (if d = c then e = CHR '':'' else opt_has_arg (e # spec) c)"

fun getopt_cluster :: "string \<Rightarrow> string \<Rightarrow> string list \<Rightarrow> (char \<times> string) list \<times> string list" where
  "getopt_cluster spec [] args = ([], args)"
| "getopt_cluster spec (c # cs) args =
     (if \<not> opt_known spec c
      then (let (os, rest) = getopt_cluster spec cs args in ((CHR ''?'', []) # os, rest))
      else if \<not> opt_has_arg spec c
      then (let (os, rest) = getopt_cluster spec cs args in ((c, []) # os, rest))
      else if cs \<noteq> [] then ([(c, cs)], args)
      else (case args of [] \<Rightarrow> ([(CHR ''?'', [])], []) | a # rest \<Rightarrow> ([(c, a)], rest)))"

lemma getopt_cluster_length: "length (snd (getopt_cluster spec cs args)) \<le> length args"
  by (induction spec cs args rule: getopt_cluster.induct) (auto split: list.splits prod.splits simp: Let_def)

function getopt_all :: "string \<Rightarrow> string list \<Rightarrow> (char \<times> string) list" where
  "getopt_all spec args =
     (case args of
        [] \<Rightarrow> []
      | a # rest \<Rightarrow>
          if length a < 2 \<or> hd a \<noteq> CHR ''-'' \<or> a = ''--'' then []
          else (let (os, after) = getopt_cluster spec (tl a) rest in os @ getopt_all spec after))"
  by pat_completeness auto
termination
proof (relation "measure (\<lambda>(spec, args). length args)", goal_cases)
  case (2 spec args a rest p os after)
  then have "length after \<le> length rest"
    using getopt_cluster_length [of spec "tl a" rest] by (metis snd_conv)
  with 2 show ?case by simp
qed simp

declare getopt_all.simps [simp del]

end
