(* ===== verification/Json_File.thy ===== *)
theory Json_File
  imports Json_Tokener Posix_Io
begin

text \<open>
  \<open>mod/applications/mod_http/json_util.c\<close>: JSON values read from and written to files.  A file that is opened is a
  descriptor, \<open>None\<close> when \<open>open\<close> fails.  Allocations are taken to succeed; \<open>heap\<close> is what fresh memory holds.
\<close>

definition JSON_FILE_BUF_SIZE :: nat where "JSON_FILE_BUF_SIZE = 4096"

text \<open>The loop that reads: the buffer, and whether the last \<open>read\<close> failed.\<close>

function read_file :: "(nat \<Rightarrow> char) \<Rightarrow> fd_state \<Rightarrow> printbuf \<Rightarrow> crash + printbuf \<times> bool" where
  "read_file heap fd pb =
     (case sys_read fd JSON_FILE_BUF_SIZE of
        (Read_Error, _) \<Rightarrow> Inr (pb, True)
      | (Read_Bytes bs, fd1) \<Rightarrow>
          if bs = [] then Inr (pb, False)
          else (case printbuf_memappend heap True pb bs of
                  Inl e \<Rightarrow> Inl e
                | Inr (pb1, _) \<Rightarrow> read_file heap fd1 pb1))"
  by pat_completeness auto
termination
  by (relation "measure (\<lambda>(heap, fd, pb). fd_weight fd)")
    (auto dest!: sym [of _ "sys_read _ _"] dest: sys_read_progress simp: JSON_FILE_BUF_SIZE_def)
declare read_file.simps [simp del]

text \<open>
  The results of \<open>json_object_from_file\<close>: an error pointer, the end of the whole process in \<open>mc_abort\<close>, or what the
  parser gives for the text in the buffer, which nothing ended when the file was empty.
\<close>

datatype file_result = File_Error | Process_Ends | Parsed "(tokener_error + json) option"

definition parse_buffer :: "printbuf \<Rightarrow> crash + file_result" where
  "parse_buffer pb =
     (if NUL \<in> set (pb_buf pb) then Inr (Parsed (json_tokener_parse (buf_string (pb_buf pb) 0))) else Inl Out_Of_Bounds)"

definition json_object_from_file :: "(nat \<Rightarrow> char) \<Rightarrow> fd_state option \<Rightarrow> crash + file_result" where
  "json_object_from_file heap file =
     (case file of
        None \<Rightarrow> Inr File_Error
      | Some fd \<Rightarrow>
          (case printbuf_new heap True True of
             None \<Rightarrow> Inr File_Error
           | Some pb \<Rightarrow>
               (case read_file heap fd pb of
                  Inl e \<Rightarrow> Inl e
                | Inr (pb1, failed) \<Rightarrow> if failed then Inr Process_Ends else parse_buffer pb1)))"

text \<open>The loop that writes; a null object is not written.\<close>

lemma some_written: "(ret, fd1) = sys_write_count fd s \<Longrightarrow> s \<noteq> [] \<Longrightarrow> \<not> ret < 0 \<Longrightarrow> 0 < ret"
  by (auto simp: sys_write_count_def split: list.splits if_splits)

function write_file :: "fd_state \<Rightarrow> string \<Rightarrow> int \<times> fd_state" where
  "write_file fd s =
     (if s = [] then (0, fd)
      else (case sys_write_count fd s of
              (ret, fd1) \<Rightarrow> if ret < 0 then (- 1, fd1) else write_file fd1 (drop (nat ret) s)))"
  by pat_completeness auto
termination
  by (relation "measure (\<lambda>(fd, s). length s)") (auto dest: some_written)
declare write_file.simps [simp del]

definition json_object_to_file :: "fd_state option \<Rightarrow> json \<Rightarrow> int \<times> fd_state option" where
  "json_object_to_file file obj =
     (if obj = J_Null then (- 1, file)
      else (case file of
              None \<Rightarrow> (- 1, None)
            | Some fd \<Rightarrow>
                (let s = json_object_to_json_string obj;
                     (ret, fd1) = write_file fd (take (length s mod 2 ^ 32) s)
                 in (ret, Some fd1))))"

subsection \<open>What the loops do\<close>

lemma size_pos: "0 < JSON_FILE_BUF_SIZE"
  by (simp add: JSON_FILE_BUF_SIZE_def)

lemma file_read:
  "delivers fd s \<Longrightarrow> pb_rep pb t \<Longrightarrow> (t = [] \<or> pb_ended pb) \<Longrightarrow>
   \<exists>pb1. read_file heap fd pb = Inr (pb1, False) \<and> pb_rep pb1 (t @ s) \<and> (t @ s = [] \<or> pb_ended pb1)"
proof (induction "length s" arbitrary: s t fd pb rule: less_induct)
  case less
  show ?case
  proof (cases "s = []")
    case True
    then show ?thesis
      using less.prems delivers_end [of fd JSON_FILE_BUF_SIZE] by (subst read_file.simps) auto
  next
    case False
    obtain k fd1 where k: "sys_read fd JSON_FILE_BUF_SIZE = (Read_Bytes (take k s), fd1)" "0 < k" "k \<le> length s"
      "delivers fd1 (drop k s)"
      using delivers_read [OF less.prems(1) False size_pos] by blast
    obtain pb1 where pb1: "printbuf_memappend heap True pb (take k s) = Inr (pb1, int (length (take k s)))"
      "pb_rep pb1 (t @ take k s)" "pb_ended pb1"
      using memappend_rep [OF less.prems(2)] by blast
    have "length (drop k s) < length s" using k(2) False by simp
    then obtain pb2 where "read_file heap fd1 pb1 = Inr (pb2, False)" "pb_rep pb2 ((t @ take k s) @ drop k s)"
      "(t @ take k s) @ drop k s = [] \<or> pb_ended pb2"
      using less.hyps [OF _ k(4) pb1(2)] pb1(3) by blast
    moreover have "take k s \<noteq> []" using k(2) False by simp
    then have "read_file heap fd pb = read_file heap fd1 pb1" using k(1) pb1(1) by (subst read_file.simps) simp
    ultimately show ?thesis by simp
  qed
qed

lemma ended_text:
  assumes "pb_rep pb s" "pb_ended pb" "NUL \<notin> set s"
  shows "NUL \<in> set (pb_buf pb)" "buf_string (pb_buf pb) 0 = s"
proof -
  have l: "length s < length (pb_buf pb)" "pb_buf pb ! length s = NUL" "take (length s) (pb_buf pb) = s"
    using assms(1,2) by (auto simp: pb_rep_def pb_ended_def)
  then show "NUL \<in> set (pb_buf pb)" by (metis nth_mem)
  have "pb_buf pb = s @ NUL # drop (Suc (length s)) (pb_buf pb)"
    using l id_take_nth_drop [of "length s" "pb_buf pb"] by simp
  then have "takeWhile (\<lambda>c. c \<noteq> NUL) (pb_buf pb) = takeWhile (\<lambda>c. c \<noteq> NUL) s" by (metis takeWhile_until_NUL)
  moreover have "takeWhile (\<lambda>c. c \<noteq> NUL) s = s" using assms(3) by (auto simp: takeWhile_eq_all_conv)
  ultimately show "buf_string (pb_buf pb) 0 = s" by (simp add: buf_string_def)
qed

lemma text_parsed:
  assumes "delivers fd s" "s \<noteq> []" "NUL \<notin> set s"
  shows "json_object_from_file heap (Some fd) = Inr (Parsed (json_tokener_parse s))"
proof -
  obtain pb where pb: "printbuf_new heap True True = Some pb" "pb_rep pb []"
    using pb_rep_new [of heap True True] by (auto simp: printbuf_new_def)
  obtain pb1 where pb1: "read_file heap fd pb = Inr (pb1, False)" "pb_rep pb1 s" "pb_ended pb1"
    using file_read [OF assms(1) pb(2), of heap] assms(2) by auto
  show ?thesis using ended_text [OF pb1(2,3) assms(3)] by (simp add: json_object_from_file_def pb(1) pb1(1) parse_buffer_def)
qed

lemma file_written:
  "list_all (\<lambda>n. 0 < n) (fd_writes fd) \<Longrightarrow> \<exists>fd1. write_file fd s = (0, fd1) \<and> fd_sent fd1 = fd_sent fd @ s"
proof (induction "length s" arbitrary: s fd rule: less_induct)
  case less
  show ?case
  proof (cases "s = []")
    case True
    then show ?thesis by (subst write_file.simps) simp
  next
    case False
    show ?thesis
    proof (cases "fd_writes fd")
      case Nil
      then have "write_file fd s = write_file (fd\<lparr>fd_sent := fd_sent fd @ s\<rparr>) []"
        using False by (subst write_file.simps) (simp add: sys_write_count_def)
      then show ?thesis by (simp add: write_file.simps)
    next
      case (Cons n ns)
      let ?fd = "fd\<lparr>fd_writes := ns, fd_sent := fd_sent fd @ take n s\<rparr>"
      have n: "0 < n" "list_all (\<lambda>n. 0 < n) (fd_writes ?fd)" using less.prems Cons by simp_all
      have "write_file fd s = write_file ?fd (drop (min n (length s)) s)"
        using False n(1) by (subst write_file.simps) (simp add: sys_write_count_def Cons)
      moreover have "drop (min n (length s)) s = drop n s" by (simp add: min_def)
      moreover obtain fd1 where "write_file ?fd (drop n s) = (0, fd1)" "fd_sent fd1 = fd_sent ?fd @ drop n s"
        using less.hyps [OF _ n(2), of "drop n s"] n(1) False by auto
      ultimately show ?thesis by simp
    qed
  qed
qed

lemma value_text_nonempty: "json_object_to_json_string v \<noteq> []"
  using text_starts_value [of v] by auto

lemma stored:
  assumes "v \<noteq> J_Null" "plain_json v" "json_depth v < JSON_TOKENER_MAX_DEPTH" "length (json_object_to_json_string v) < 2 ^ 32"
    "list_all (\<lambda>n. 0 < n) (fd_writes fd)" "fd_sent fd = []"
  shows "\<exists>fd1. json_object_to_file (Some fd) v = (0, Some fd1) \<and> fd_sent fd1 = json_object_to_json_string v \<and>
    (\<forall>fd2. delivers fd2 (fd_sent fd1) \<longrightarrow> json_object_from_file heap (Some fd2) = Inr (Parsed (Some (Inr v))))"
proof -
  obtain fd1 where "write_file fd (json_object_to_json_string v) = (0, fd1)" "fd_sent fd1 = json_object_to_json_string v"
    using file_written [OF assms(5), of "json_object_to_json_string v"] assms(6) by auto
  moreover have "json_object_from_file heap (Some fd2) = Inr (Parsed (Some (Inr v)))" if "delivers fd2 (json_object_to_json_string v)" for fd2
    using text_parsed [OF that value_text_nonempty text_no_NUL [OF assms(2)]] parse_printed [OF assms(2,3)] by simp
  ultimately show ?thesis using assms(1,4) by (simp add: json_object_to_file_def)
qed

subsection \<open>The properties\<close>

text \<open>
  A value that is written to a file and read again is the same value, however the file takes and gives the bytes in
  pieces.
\<close>

theorem json_file_roundtrip:
  assumes "v \<noteq> J_Null" "plain_json v" "json_depth v < JSON_TOKENER_MAX_DEPTH" "length (json_object_to_json_string v) < 2 ^ 32"
    "list_all (\<lambda>n. 0 < n) (fd_writes fd)" "fd_sent fd = []"
  shows "\<exists>fd1. json_object_to_file (Some fd) v = (0, Some fd1) \<and> fd_sent fd1 = json_object_to_json_string v \<and>
    (\<forall>fd2. delivers fd2 (fd_sent fd1) \<longrightarrow> json_object_from_file heap (Some fd2) = Inr (Parsed (Some (Inr v))))"
  by (rule stored [OF assms])

theorem json_file_roundtrip_witness:
  "json_object_from_file (\<lambda>i. CHR ''x'') (Some \<lparr>fd_pieces = [Some ''[ 1'', Some '', 2 ]''], fd_writes = [], fd_sent = []\<rparr>) =
     Inr (Parsed (Some (Inr (J_Array [J_Int 1, J_Int 2]))))"
proof -
  let ?v = "J_Array [J_Int 1, J_Int 2]"
  have t: "json_object_to_json_string ?v = concat [''[ 1'', '', 2 ]'']" by code_simp
  have h: "?v \<noteq> J_Null" "plain_json ?v" "json_depth ?v < JSON_TOKENER_MAX_DEPTH" "length (json_object_to_json_string ?v) < 2 ^ 32"
    by (simp_all only: t) (simp_all add: JSON_TOKENER_MAX_DEPTH_def)
  have w: "list_all (\<lambda>n. 0 < n) (fd_writes \<lparr>fd_pieces = [], fd_writes = [3, 2], fd_sent = []\<rparr>)"
    "fd_sent \<lparr>fd_pieces = [], fd_writes = [3, 2], fd_sent = []\<rparr> = []" by simp_all
  obtain fd1 :: fd_state where fd1: "fd_sent fd1 = json_object_to_json_string ?v"
    "\<forall>fd2. delivers fd2 (fd_sent fd1) \<longrightarrow> json_object_from_file (\<lambda>i. CHR ''x'') (Some fd2) = Inr (Parsed (Some (Inr ?v)))"
    using json_file_roundtrip [OF h w, of "\<lambda>i. CHR ''x''"] by blast
  have "delivers \<lparr>fd_pieces = map Some [''[ 1'', '', 2 ]''], fd_writes = [], fd_sent = []\<rparr> (concat [''[ 1'', '', 2 ]''])"
    by (rule delivers_pieces) simp
  then show ?thesis using fd1(2) unfolding fd1(1) t by simp
qed

text \<open>An empty file is not ended by a NUL: the parser gets what the fresh memory of the buffer happens to hold.\<close>

theorem empty_file_parses_memory:
  assumes "delivers fd []"
  shows "json_object_from_file heap (Some fd) =
    (if NUL \<in> heap ` {0..<32} then Inr (Parsed (json_tokener_parse (takeWhile (\<lambda>c. c \<noteq> NUL) (map heap [0..<32])))) else Inl Out_Of_Bounds)"
proof -
  have "read_file heap fd pb = Inr (pb, False)" for pb
    by (subst read_file.simps) (simp add: delivers_end [OF assms])
  then show ?thesis
    by (simp add: json_object_from_file_def printbuf_new_def parse_buffer_def buf_string_def del: upt_rec_numeral)
qed

theorem empty_file_parses_memory_witness:
  "json_object_from_file (\<lambda>i. CHR ''7'') (Some \<lparr>fd_pieces = [], fd_writes = [], fd_sent = []\<rparr>) = Inl Out_Of_Bounds"
proof -
  have "delivers \<lparr>fd_pieces = [], fd_writes = [], fd_sent = []\<rparr> []" by (simp add: delivers_def)
  then show ?thesis by (subst empty_file_parses_memory) (auto simp: NUL_def)
qed

end
