(* ===== verification/S25_Mwi.thy ===== *)
theory S25_Mwi
  imports Posix_Io
begin

text \<open>
  \<open>jwehle/system25/vmail/s25vmail_mwi.c\<close>: a client of the event socket that switches the message
  waiting lamps of a System 25 PBX by dialling through a modem.  The loop of \<open>main\<close> connects, logs
  in, subscribes to the event and handles one event after the other.

  The outside is explicit: what a descriptor delivers (theory \<open>Posix_Io\<close>), what connecting and
  opening the modem give, \<open>malloc\<close>, and how often \<open>shutdown_server\<close> is still found to be 0, a
  number (it never becomes 0 again).  \<open>beyond\<close> is the memory behind a block, as far as it may
  be read.  Messages to the log are left out.
\<close>

definition c_starts_with :: "string \<Rightarrow> string \<Rightarrow> bool" where
  "c_starts_with h s \<longleftrightarrow> take (length h) s = h"

subsection \<open>Connecting\<close>

record mwi_net =
  mn_socket :: bool
  mn_gethostbyname :: "string \<Rightarrow> (bool \<times> uint32_t) option"
  mn_inet_addr :: "string \<Rightarrow> uint32_t"
  mn_getservbyname :: "string \<Rightarrow> uint16_t option"
  mn_connect :: "uint32_t \<Rightarrow> uint16_t \<Rightarrow> fd_state option"

text \<open>
  The number of \<open>gethostbyname\<close> is with whether its family is \<open>AF_INET\<close>.  \<open>(long)address.s_addr\<close>
  converts 32 unsigned bits to the 64 bits of a \<open>long\<close>.
\<close>

definition mwi_address :: "mwi_net \<Rightarrow> string \<Rightarrow> uint32_t option" where
  "mwi_address net hostname =
     (if c_isalpha (c_at hostname 0)
      then (case mn_gethostbyname net hostname of
              None \<Rightarrow> None
            | Some (inet, a) \<Rightarrow> if \<not> inet then None else Some a)
      else let a = mn_inet_addr net hostname
           in if (word_of_int (uint a) :: 64 word) = - 1 then None else Some a)"

definition mwi_port :: "mwi_net \<Rightarrow> string \<Rightarrow> uint16_t option" where
  "mwi_port net port =
     (if c_isalpha (c_at port 0) then mn_getservbyname net port
      else Some (word_of_int (c_atoi port)))"

definition connect_to_service :: "mwi_net \<Rightarrow> string \<Rightarrow> string \<Rightarrow> fd_state option" where
  "connect_to_service net hostname port =
     (if \<not> mn_socket net then None
      else case mwi_address net hostname of
             None \<Rightarrow> None
           | Some a \<Rightarrow>
               (case mwi_port net port of None \<Rightarrow> None | Some p \<Rightarrow> mn_connect net a p))"

subsection \<open>Lines and messages\<close>

text \<open>A negative result, 0, and a positive one with the C string in the buffer.\<close>

datatype line_result = Line_Error | Line_EOF | Line string

definition strip_cr :: "string \<Rightarrow> string" where
  "strip_cr s = rev (dropWhile (\<lambda>c. c = CR) (rev s))"

function read_line_loop :: "nat \<Rightarrow> string \<Rightarrow> fd_state \<Rightarrow> line_result \<times> fd_state" where
  "read_line_loop buf_len buf fd =
     (case sys_read fd 1 of
        (Read_Error, fd1) \<Rightarrow> (Line_Error, fd1)
      | (Read_Bytes bs, fd1) \<Rightarrow>
          (case bs of
             [] \<Rightarrow> (if buf \<noteq> [] then Line_Error else Line_EOF, fd1)
           | c # _ \<Rightarrow>
               if c = LF then (Line (buf_string (strip_cr buf) 0), fd1)
               else if length buf + 1 = buf_len then (Line_Error, fd1)
               else read_line_loop buf_len (buf @ [c]) fd1))"
  by pat_completeness auto
termination
  by (relation "measure (\<lambda>(n, b, fd). fd_weight fd)") (auto dest!: sys_read_progress(1) [OF sym])

declare read_line_loop.simps [simp del]

definition read_line :: "fd_state \<Rightarrow> nat \<Rightarrow> line_result \<times> fd_state" where
  "read_line fd buf_len = read_line_loop buf_len [] fd"

definition read_trailing_newline :: "fd_state \<Rightarrow> int \<times> fd_state" where
  "read_trailing_newline fd =
     (case sys_read fd 1 of
        (Read_Error, fd1) \<Rightarrow> (- 1, fd1)
      | (Read_Bytes bs, fd1) \<Rightarrow>
          (case bs of [] \<Rightarrow> (- 1, fd1) | c # _ \<Rightarrow> if c \<noteq> LF then (- 1, fd1) else (0, fd1)))"

text \<open>The loop that reads the rest of a body of which \<open>m\<close> is there.\<close>

function read_body :: "nat \<Rightarrow> string \<Rightarrow> fd_state \<Rightarrow> string option \<times> fd_state" where
  "read_body nbytes_to_read m fd =
     (if nbytes_to_read = 0 then (Some m, fd)
      else case sys_read fd nbytes_to_read of
             (Read_Error, fd1) \<Rightarrow> (None, fd1)
           | (Read_Bytes bs, fd1) \<Rightarrow>
               if bs = [] then (None, fd1)
               else read_body (nbytes_to_read - length bs) (m @ bs) fd1)"
  by pat_completeness auto
termination
  by (relation "measure (\<lambda>(n, m, fd). n)") (auto simp: Suc_le_eq)

declare read_body.simps [simp del]

record mwi_link =
  ml_fd :: fd_state
  ml_polls :: nat

text \<open>The buffers of the two lines have 64 characters.\<close>

definition message_reply :: "(nat \<Rightarrow> bool) \<Rightarrow> string \<Rightarrow> string \<Rightarrow> fd_state \<Rightarrow> string option \<times> fd_state" where
  "message_reply malloc cl_buf ct_buf fd =
     (let l = length ''Content-Type: ''
      in if \<not> c_starts_with ''Content-Type: '' cl_buf then (None, fd)
         else if drop l cl_buf \<noteq> ''auth/request'' \<and> drop l cl_buf \<noteq> ''command/reply'' then (None, fd)
         else case (if ct_buf \<noteq> [] then read_trailing_newline fd else (0, fd)) of
                (r, fd1) \<Rightarrow>
                  if r < 0 then (None, fd1)
                  else if \<not> malloc (length cl_buf + 1 + length ct_buf + 1 + 1) then (None, fd1)
                  else (Some (cl_buf @ [LF] @ ct_buf @ [LF] @ [NUL]), fd1))"

definition message_event ::
    "(nat \<Rightarrow> bool) \<Rightarrow> string \<Rightarrow> string \<Rightarrow> fd_state \<Rightarrow> (crash + string option) \<times> fd_state" where
  "message_event malloc cl_buf ct_buf fd =
     (let cl = c_atoi (drop (length ''Content-Length: '') cl_buf);
          l = length ''Content-Type: ''
      in if cl \<le> 0 then (Inr None, fd)
         else if \<not> c_starts_with ''Content-Type: '' ct_buf then (Inr None, fd)
         else if drop l ct_buf \<noteq> ''text/event-plain'' then (Inr None, fd)
         else case read_trailing_newline fd of
                (r, fd1) \<Rightarrow>
                  if r < 0 then (Inr None, fd1)
                  else if \<not> malloc (nat cl) then (Inr None, fd1)
                  else case read_body (nat cl) [] fd1 of
                         (None, fd2) \<Rightarrow> (Inr None, fd2)
                       | (Some m, fd2) \<Rightarrow>
                           if cl < 2 then (Inl Out_Of_Bounds, fd2)
                           else if m ! nat (cl - 2) \<noteq> LF \<or> m ! nat (cl - 1) \<noteq> LF then (Inr None, fd2)
                           else (Inr (Some m), fd2))"

definition retrieve_message :: "(nat \<Rightarrow> bool) \<Rightarrow> mwi_link \<Rightarrow> crash + string option \<times> mwi_link" where
  "retrieve_message malloc lk =
     (if ml_polls lk = 0 then Inr (None, lk)
      else let polls = ml_polls lk - 1
           in case read_line (ml_fd lk) 64 of
                (Line_Error, fd1) \<Rightarrow> Inr (None, \<lparr>ml_fd = fd1, ml_polls = polls\<rparr>)
              | (Line_EOF, fd1) \<Rightarrow> Inr (None, \<lparr>ml_fd = fd1, ml_polls = polls\<rparr>)
              | (Line cl_buf, fd1) \<Rightarrow>
                  (case read_line fd1 64 of
                     (Line_Error, fd2) \<Rightarrow> Inr (None, \<lparr>ml_fd = fd2, ml_polls = polls\<rparr>)
                   | (Line_EOF, fd2) \<Rightarrow> Inr (None, \<lparr>ml_fd = fd2, ml_polls = polls\<rparr>)
                   | (Line ct_buf, fd2) \<Rightarrow>
                       if \<not> c_starts_with ''Content-Length: '' cl_buf
                       then (case message_reply malloc cl_buf ct_buf fd2 of
                               (m, fd3) \<Rightarrow> Inr (m, \<lparr>ml_fd = fd3, ml_polls = polls\<rparr>))
                       else (case message_event malloc cl_buf ct_buf fd2 of
                               (Inl e, fd3) \<Rightarrow> Inl e
                             | (Inr m, fd3) \<Rightarrow> Inr (m, \<lparr>ml_fd = fd3, ml_polls = polls\<rparr>))))"

subsection \<open>Logging in\<close>

definition mwi_write :: "mwi_link \<Rightarrow> string \<Rightarrow> bool \<times> mwi_link" where
  "mwi_write lk s = (let (ok, fd1) = sys_write (ml_fd lk) s in (ok, lk\<lparr>ml_fd := fd1\<rparr>))"

text \<open>A reply is accepted when its first line is the type and the second one the text \<open>t\<close>.\<close>

definition expect_reply ::
    "(nat \<Rightarrow> bool) \<Rightarrow> string \<Rightarrow> string \<Rightarrow> mwi_link \<Rightarrow> crash + int \<times> mwi_link" where
  "expect_reply malloc beyond t lk =
     (case retrieve_message malloc lk of
        Inl e \<Rightarrow> Inl e
      | Inr (None, lk1) \<Rightarrow> Inr (- 1, lk1)
      | Inr (Some m, lk1) \<Rightarrow>
          (case strtok_r (m @ beyond) of
             Inl e \<Rightarrow> Inl e
           | Inr None \<Rightarrow> Inr (- 1, lk1)
           | Inr (Some (p, later)) \<Rightarrow>
               if p \<noteq> ''Content-Type: command/reply'' then Inr (- 1, lk1)
               else (case strtok_r later of
                       Inl e \<Rightarrow> Inl e
                     | Inr None \<Rightarrow> Inr (- 1, lk1)
                     | Inr (Some (p2, _)) \<Rightarrow> if p2 \<noteq> t then Inr (- 1, lk1) else Inr (0, lk1))))"

definition send_password ::
    "(nat \<Rightarrow> bool) \<Rightarrow> string \<Rightarrow> string \<Rightarrow> mwi_link \<Rightarrow> crash + int \<times> mwi_link" where
  "send_password malloc beyond passwd lk =
     (case retrieve_message malloc lk of
        Inl e \<Rightarrow> Inl e
      | Inr (None, lk1) \<Rightarrow> Inr (- 1, lk1)
      | Inr (Some m, lk1) \<Rightarrow>
          (case strtok_r (m @ beyond) of
             Inl e \<Rightarrow> Inl e
           | Inr None \<Rightarrow> Inl Null_Deref
           | Inr (Some (p, _)) \<Rightarrow>
               if p \<noteq> ''Content-Type: auth/request'' then Inr (- 1, lk1)
               else let text = ''auth '' @ passwd @ [LF, LF]
                    in if \<not> malloc (length text + 1) then Inr (- 1, lk1)
                       else (case mwi_write lk1 text of
                               (ok, lk2) \<Rightarrow>
                                 if \<not> ok then Inr (- 1, lk2)
                                 else expect_reply malloc beyond ''Reply-Text: +OK accepted'' lk2)))"

definition enable_mwi_event :: "(nat \<Rightarrow> bool) \<Rightarrow> string \<Rightarrow> mwi_link \<Rightarrow> crash + int \<times> mwi_link" where
  "enable_mwi_event malloc beyond lk =
     (case mwi_write lk (''event plain MESSAGE_WAITING'' @ [LF, LF]) of
        (ok, lk1) \<Rightarrow>
          if \<not> ok then Inr (- 1, lk1)
          else expect_reply malloc beyond ''Reply-Text: +OK event listener enabled plain'' lk1)"

subsection \<open>The modem\<close>

text \<open>
  What the attempts to open the device give: \<open>None\<close>, or the descriptor and whether \<open>tcsetattr\<close>
  succeeds on it; and what was sent in each session, the oldest first.
\<close>

record modem_state =
  md_opens :: "(fd_state \<times> bool) option list"
  md_sent :: "string list"

datatype attempt = Return int | Try_Again

definition write_line :: "fd_state \<Rightarrow> string \<Rightarrow> bool \<times> fd_state" where
  "write_line fd m =
     (let (ok, fd1) = sys_write fd m
      in if \<not> ok then (False, fd1) else sys_write fd1 [CR, LF])"

text \<open>\<open>for (w = 0; w < 2; w++)\<close>: an empty line and the echo of \<open>m\<close> are skipped.\<close>

fun read_answer :: "nat \<Rightarrow> string \<Rightarrow> line_result \<Rightarrow> fd_state \<Rightarrow> line_result \<times> fd_state" where
  "read_answer 0 m r fd = (r, fd)"
| "read_answer (Suc w) m r fd =
     (case read_line fd 64 of
        (Line rbuf, fd1) \<Rightarrow>
          if rbuf = [] \<or> rbuf = m then read_answer w m (Line rbuf) fd1 else (Line rbuf, fd1)
      | (r1, fd1) \<Rightarrow> (r1, fd1))"

definition dial_command :: "bool \<Rightarrow> string \<Rightarrow> string" where
  "dial_command mwi_on ma = ''ATDT'' @ (if mwi_on then ''#90'' else ''#91'') @ ma"

definition modem_dial :: "bool \<Rightarrow> string \<Rightarrow> fd_state \<Rightarrow> attempt \<times> fd_state" where
  "modem_dial mwi_on ma fd =
     (let m = dial_command mwi_on ma
      in if length m \<ge> 64 then (Return (- 1), fd)
         else case write_line fd m of
                (ok, fd1) \<Rightarrow>
                  if \<not> ok then (Return (- 1), fd1)
                  else (case sys_write fd1 [CR, LF] of
                          (ok2, fd2) \<Rightarrow>
                            if \<not> ok2 then (Return (- 1), fd2)
                            else (case read_answer 2 m Line_EOF fd2 of
                                    (Line_Error, fd3) \<Rightarrow> (Return (- 1), fd3)
                                  | (Line_EOF, fd3) \<Rightarrow> (Try_Again, fd3)
                                  | (Line rbuf, fd3) \<Rightarrow>
                                      if rbuf = ''NO DIALTONE'' then (Return (- 1), fd3)
                                      else if rbuf \<noteq> ''NO CARRIER'' then (Try_Again, fd3)
                                      else (Return 0, fd3))))"

definition modem_session :: "bool \<Rightarrow> string \<Rightarrow> fd_state \<Rightarrow> bool \<Rightarrow> attempt \<times> fd_state" where
  "modem_session mwi_on ma fd tcsetattr =
     (if \<not> tcsetattr then (Return (- 1), fd)
      else case write_line fd ''AT'' of
             (ok, fd1) \<Rightarrow>
               if \<not> ok then (Return (- 1), fd1)
               else (case read_answer 2 ''AT'' Line_EOF fd1 of
                       (Line_Error, fd2) \<Rightarrow> (Return (- 1), fd2)
                     | (Line_EOF, fd2) \<Rightarrow> (Try_Again, fd2)
                     | (Line rbuf, fd2) \<Rightarrow>
                         if rbuf \<noteq> ''OK'' then (Try_Again, fd2) else modem_dial mwi_on ma fd2))"

text \<open>\<open>for (r = 0; r < 3; r++)\<close>.\<close>

fun modem_attempts :: "nat \<Rightarrow> bool \<Rightarrow> string \<Rightarrow> modem_state \<Rightarrow> int \<times> modem_state" where
  "modem_attempts 0 mwi_on ma md = (- 1, md)"
| "modem_attempts (Suc r) mwi_on ma md =
     (case md_opens md of
        [] \<Rightarrow> (- 1, md)
      | None # os \<Rightarrow> (- 1, md\<lparr>md_opens := os\<rparr>)
      | Some (fd, tcsetattr) # os \<Rightarrow>
          (case modem_session mwi_on ma fd tcsetattr of
             (res, fd1) \<Rightarrow>
               let md1 = md\<lparr>md_opens := os, md_sent := md_sent md @ [fd_sent fd1]\<rparr>
               in case res of Return x \<Rightarrow> (x, md1) | Try_Again \<Rightarrow> modem_attempts r mwi_on ma md1))"

subsection \<open>Events\<close>

text \<open>
  The loop over the lines of an event, with \<open>ma\<close> and \<open>mw\<close>.  The writes \<open>*p = '\n'\<close> behind it store
  the character that is there.
\<close>

function mwi_scan ::
    "string \<Rightarrow> string option \<Rightarrow> string option \<Rightarrow> crash + string option \<times> string option" where
  "mwi_scan mem ma mw =
     (case strtok_r mem of
        Inl e \<Rightarrow> Inl e
      | Inr None \<Rightarrow> Inr (ma, mw)
      | Inr (Some (p, later)) \<Rightarrow>
          mwi_scan later
            (if c_starts_with ''MWI-Message-Account: '' p
             then Some (drop (length ''MWI-Message-Account: '') p) else ma)
            (if c_starts_with ''MWI-Messages-Waiting: '' p
             then Some (drop (length ''MWI-Messages-Waiting: '') p) else mw))"
  by pat_completeness auto
termination
  by (relation "measure (\<lambda>(mem, ma, mw). length mem)") (auto dest: strtok_shorter(1))

declare mwi_scan.simps [simp del]

text \<open>The account up to the percent sign, or up to the at sign when there is none.\<close>

definition account_extension :: "string \<Rightarrow> string option" where
  "account_extension ma =
     (let d = (if CHR ''%'' \<in> set ma then CHR ''%'' else CHR ''@'');
          p = dropWhile (\<lambda>c. c \<noteq> d) ma;
          e = takeWhile (\<lambda>c. c \<noteq> d) ma
      in if p = [] \<or> \<not> c_starts_with ''%40'' p \<and> \<not> c_starts_with ''@'' p then None
         else if list_all c_isdigit e then Some e else None)"

definition process_mwi_event :: "string \<Rightarrow> modem_state \<Rightarrow> crash + int \<times> modem_state" where
  "process_mwi_event mem md =
     (case mwi_scan mem None None of
        Inl e \<Rightarrow> Inl e
      | Inr (Some ma, Some mw) \<Rightarrow>
          (case account_extension ma of
             None \<Rightarrow> Inr (0, md)
           | Some ext \<Rightarrow>
               let mwi_off = c_strcaseeq mw ''no''; mwi_on = c_strcaseeq mw ''yes''
               in if mwi_off = mwi_on then Inr (0, md) else Inr (modem_attempts 3 mwi_on ext md))
      | Inr _ \<Rightarrow> Inr (- 1, md))"

subsection \<open>The program\<close>

record mwi_options =
  mo_debug :: bool
  mo_machine :: string
  mo_port :: string
  mo_passwd :: string
  mo_device :: string

definition default_options :: mwi_options where
  "default_options = \<lparr>mo_debug = False, mo_machine = ''localhost'', mo_port = ''8021'',
     mo_passwd = ''ClueCon'', mo_device = ''/dev/cuad0''\<rparr>"

text \<open>The loop over \<open>getopt\<close>; \<open>None\<close> is the exit with the usage text.\<close>

fun take_options :: "(char \<times> string) list \<Rightarrow> mwi_options \<Rightarrow> mwi_options option" where
  "take_options [] opts = Some opts"
| "take_options ((c, optarg) # os) opts =
     (if c = CHR ''d'' then take_options os (opts\<lparr>mo_debug := True\<rparr>)
      else if c = CHR ''m'' then take_options os (opts\<lparr>mo_machine := optarg\<rparr>)
      else if c = CHR ''p'' then take_options os (opts\<lparr>mo_port := optarg\<rparr>)
      else if c = CHR ''w'' then take_options os (opts\<lparr>mo_passwd := optarg\<rparr>)
      else if c = CHR ''l'' then take_options os (opts\<lparr>mo_device := optarg\<rparr>)
      else None)"

definition mwi_getopt :: "string list \<Rightarrow> mwi_options option" where
  "mwi_getopt args = take_options (getopt_all ''dm:p:w:'' args) default_options"

text \<open>\<open>ms_closed\<close> is what was sent on every connection that is closed again.\<close>

record mwi_state =
  ms_polls :: nat
  ms_nets :: "mwi_net list"
  ms_modem :: modem_state
  ms_closed :: "string list"
  ms_throttle :: bool

lemma retrieve_polls: "retrieve_message malloc lk = Inr (r, lk1) \<Longrightarrow> ml_polls lk1 \<le> ml_polls lk"
  by (auto simp: retrieve_message_def Let_def split: prod.splits line_result.splits sum.splits if_splits)

lemma retrieve_polls_less:
  "retrieve_message malloc lk = Inr (Some m, lk1) \<Longrightarrow> ml_polls lk1 < ml_polls lk"
  by (auto simp: retrieve_message_def Let_def split: prod.splits line_result.splits sum.splits if_splits)

text \<open>\<open>while (m = retrieve_message (fd))\<close>.\<close>

function mwi_events ::
    "(nat \<Rightarrow> bool) \<Rightarrow> string \<Rightarrow> mwi_link \<Rightarrow> modem_state \<Rightarrow> crash + mwi_link \<times> modem_state" where
  "mwi_events malloc beyond lk md =
     (case retrieve_message malloc lk of
        Inl e \<Rightarrow> Inl e
      | Inr (None, lk1) \<Rightarrow> Inr (lk1, md)
      | Inr (Some m, lk1) \<Rightarrow>
          (case process_mwi_event (m @ beyond) md of
             Inl e \<Rightarrow> Inl e
           | Inr (_, md1) \<Rightarrow> mwi_events malloc beyond lk1 md1))"
  by pat_completeness auto
termination
  by (relation "measure (\<lambda>(malloc, beyond, lk, md). ml_polls lk)")
    (auto dest: retrieve_polls_less)

declare mwi_events.simps [simp del]

text \<open>
  One round of the loop of \<open>main\<close> behind the test of \<open>shutdown_server\<close>; \<open>main_loop\<close> takes the answers
  of the network round by round, and the connection fails when there are none left.
\<close>

definition main_round ::
    "(nat \<Rightarrow> bool) \<Rightarrow> string \<Rightarrow> mwi_options \<Rightarrow> fd_state option \<Rightarrow> mwi_state \<Rightarrow> crash + mwi_state" where
  "main_round malloc beyond opts conn st =
     (case conn of
        None \<Rightarrow> Inr (st\<lparr>ms_throttle := True\<rparr>)
      | Some fd \<Rightarrow>
          (case send_password malloc beyond (mo_passwd opts) \<lparr>ml_fd = fd, ml_polls = ms_polls st\<rparr> of
             Inl e \<Rightarrow> Inl e
           | Inr (r1, lk1) \<Rightarrow>
               (case (if r1 < 0 then Inr (- 1, lk1) else enable_mwi_event malloc beyond lk1) of
                  Inl e \<Rightarrow> Inl e
                | Inr (r2, lk2) \<Rightarrow>
                    if r2 < 0
                    then Inr (st\<lparr>ms_throttle := True, ms_polls := ml_polls lk2,
                                 ms_closed := ms_closed st @ [fd_sent (ml_fd lk2)]\<rparr>)
                    else (case mwi_events malloc beyond lk2 (ms_modem st) of
                            Inl e \<Rightarrow> Inl e
                          | Inr (lk3, md) \<Rightarrow>
                              Inr (st\<lparr>ms_throttle := False, ms_polls := ml_polls lk3, ms_modem := md,
                                      ms_closed := ms_closed st @ [fd_sent (ml_fd lk3)]\<rparr>)))))"

definition next_conn :: "mwi_options \<Rightarrow> mwi_state \<Rightarrow> fd_state option" where
  "next_conn opts st =
     (case ms_nets st of [] \<Rightarrow> None | net # _ \<Rightarrow> connect_to_service net (mo_machine opts) (mo_port opts))"

lemma mwi_write_polls: "mwi_write lk s = (ok, lk1) \<Longrightarrow> ml_polls lk1 = ml_polls lk"
  by (auto simp: mwi_write_def split: prod.splits)

lemma expect_polls: "expect_reply malloc beyond t lk = Inr (r, lk1) \<Longrightarrow> ml_polls lk1 \<le> ml_polls lk"
  by (auto simp: expect_reply_def dest!: retrieve_polls split: sum.splits option.splits prod.splits if_splits)

lemma password_polls:
  assumes "send_password malloc beyond p lk = Inr (r, lk')"
  shows "ml_polls lk' \<le> ml_polls lk"
  using assms
  by (auto simp: send_password_def Let_def dest!: retrieve_polls expect_polls mwi_write_polls
      split: sum.splits option.splits prod.splits if_splits intro: le_trans)

lemma enable_polls: "enable_mwi_event malloc beyond lk = Inr (r, lk') \<Longrightarrow> ml_polls lk' \<le> ml_polls lk"
  by (auto simp: enable_mwi_event_def dest!: expect_polls mwi_write_polls split: prod.splits if_splits)

lemma events_polls: "mwi_events malloc beyond lk md = Inr (lk', md') \<Longrightarrow> ml_polls lk' \<le> ml_polls lk"
proof (induction malloc beyond lk md rule: mwi_events.induct)
  case (1 malloc beyond lk md)
  show ?case
  proof (cases "retrieve_message malloc lk")
    case (Inr a)
    obtain r lk1 where a: "a = (r, lk1)" by (cases a)
    show ?thesis
    proof (cases r)
      case None
      with 1(2) Inr a retrieve_polls show ?thesis by (auto simp: mwi_events.simps [of malloc])
    next
      case (Some m)
      with 1(2) Inr a obtain x md1 where p: "process_mwi_event (m @ beyond) md = Inr (x, md1)"
        "mwi_events malloc beyond lk1 md1 = Inr (lk', md')"
        by (auto simp: mwi_events.simps [of malloc beyond lk] split: sum.splits)
      from 1(1) [OF Inr a [symmetric] Some p(1) refl p(2)] retrieve_polls [of malloc lk r lk1] Inr a show ?thesis by simp
    qed
  qed (use 1(2) in \<open>simp add: mwi_events.simps [of malloc]\<close>)
qed

lemma round_polls:
  assumes "main_round malloc beyond opts conn st = Inr st'"
  shows "ms_polls st' \<le> ms_polls st"
proof (cases conn)
  case None
  with assms show ?thesis by (auto simp: main_round_def)
next
  case (Some fd)
  let ?lk = "\<lparr>ml_fd = fd, ml_polls = ms_polls st\<rparr>"
  from assms Some obtain r1 lk1 where p: "send_password malloc beyond (mo_passwd opts) ?lk = Inr (r1, lk1)"
    by (auto simp: main_round_def split: sum.splits)
  show ?thesis
  proof (cases "r1 < 0")
    case True
    with assms Some p password_polls [OF p] show ?thesis by (auto simp: main_round_def)
  next
    case False
    with assms Some p obtain r2 lk2 where e: "enable_mwi_event malloc beyond lk1 = Inr (r2, lk2)"
      by (auto simp: main_round_def split: sum.splits)
    show ?thesis
      using assms Some p False e password_polls [OF p] enable_polls [OF e]
      by (auto simp: main_round_def split: sum.splits if_splits dest!: events_polls)
  qed
qed

text \<open>\<open>while (! shutdown_server)\<close>.\<close>

function main_loop ::
    "(nat \<Rightarrow> bool) \<Rightarrow> string \<Rightarrow> mwi_options \<Rightarrow> mwi_state \<Rightarrow> crash + mwi_state" where
  "main_loop malloc beyond opts st =
     (if ms_polls st = 0 then Inr st
      else case main_round malloc beyond opts (next_conn opts st)
                  (st\<lparr>ms_polls := ms_polls st - 1, ms_nets := tl (ms_nets st)\<rparr>) of
             Inl e \<Rightarrow> Inl e
           | Inr st1 \<Rightarrow> main_loop malloc beyond opts st1)"
  by pat_completeness auto
termination
  by (relation "measure (\<lambda>(malloc, beyond, opts, st). ms_polls st)") (auto dest!: round_polls)

declare main_loop.simps [simp del]

text \<open>The exit code, when the program ends, with the state; \<open>chr_device\<close> is what \<open>stat\<close> says.\<close>

definition mwi_main ::
    "(nat \<Rightarrow> bool) \<Rightarrow> string \<Rightarrow> (string \<Rightarrow> bool) \<Rightarrow> string list \<Rightarrow> mwi_state \<Rightarrow> crash + int \<times> mwi_state" where
  "mwi_main malloc beyond chr_device args st =
     (case mwi_getopt args of
        None \<Rightarrow> Inr (1, st)
      | Some opts \<Rightarrow>
          if \<not> chr_device (mo_device opts) then Inr (1, st)
          else (case main_loop malloc beyond opts st of Inl e \<Rightarrow> Inl e | Inr st1 \<Rightarrow> Inr (0, st1)))"
subsection \<open>Reading lines and bodies from any pieces\<close>

definition clean :: "string \<Rightarrow> bool" where
  "clean l \<longleftrightarrow> LF \<notin> set l \<and> CR \<notin> set l \<and> NUL \<notin> set l"

lemma clean_simps [simp]:
  "clean []"
  "clean (c # l) \<longleftrightarrow> c \<noteq> LF \<and> c \<noteq> CR \<and> c \<noteq> NUL \<and> clean l"
  "clean (l @ l') \<longleftrightarrow> clean l \<and> clean l'"
  by (auto simp: clean_def)

lemma clean_string: "clean l \<Longrightarrow> buf_string (strip_cr (l @ replicate k CR)) 0 = l"
proof -
  assume l: "clean l"
  have "dropWhile (\<lambda>c. c = CR) (replicate k CR @ rev l) = rev l"
    using l by (induction k) (cases l rule: rev_cases, auto simp: clean_def)
  then have "strip_cr (l @ replicate k CR) = l" by (simp add: strip_cr_def)
  moreover have "takeWhile (\<lambda>c. c \<noteq> NUL) l = l"
    using l by (simp add: takeWhile_eq_all_conv clean_def) (metis)
  ultimately show ?thesis by (simp add: buf_string_def)
qed

lemma read_line_loop_delivers:
  assumes "delivers fd (line @ LF # s)" "LF \<notin> set line" "length buf + length line < n"
  shows "\<exists>fd'. read_line_loop n buf fd = (Line (buf_string (strip_cr (buf @ line)) 0), fd')
    \<and> delivers fd' s \<and> same_output fd fd'"
  using assms
proof (induction line arbitrary: buf fd)
  case Nil
  then have "delivers fd (LF # s)" by simp
  then obtain fd' where fd: "sys_read fd 1 = (Read_Bytes [LF], fd')" "delivers fd' s" "same_output fd fd'"
    by (rule delivers_read_one)
  show ?case
    by (rule exI [of _ fd']) (subst read_line_loop.simps, use fd in simp)
next
  case (Cons c line)
  then have "delivers fd (c # line @ LF # s)" by simp
  then obtain fd1 where fd1: "sys_read fd 1 = (Read_Bytes [c], fd1)" "delivers fd1 (line @ LF # s)"
    "same_output fd fd1"
    by (rule delivers_read_one)
  from Cons.IH [OF fd1(2), of "buf @ [c]"] Cons.prems obtain fd' where
    fd': "read_line_loop n (buf @ [c]) fd1 = (Line (buf_string (strip_cr ((buf @ [c]) @ line)) 0), fd')"
      "delivers fd' s" "same_output fd1 fd'"
    by auto
  show ?case
    by (rule exI [of _ fd'])
      (subst read_line_loop.simps, use fd1 fd' Cons.prems same_output_trans [OF fd1(3) fd'(3)] in auto)
qed

lemma read_line_clean:
  assumes "delivers fd (l @ replicate k CR @ LF # s)" "clean l" "length l + k < n"
  obtains fd' where "read_line fd n = (Line l, fd')" "delivers fd' s" "same_output fd fd'"
proof -
  have "\<exists>fd'. read_line_loop n [] fd = (Line (buf_string (strip_cr ([] @ (l @ replicate k CR))) 0), fd')
    \<and> delivers fd' s \<and> same_output fd fd'"
    by (rule read_line_loop_delivers)
      (use assms in \<open>auto simp: clean_def LF_def CR_def\<close>)
  with that assms(2) show ?thesis by (auto simp: read_line_def clean_string)
qed

lemma read_line_lf:
  assumes "delivers fd (l @ LF # s)" "clean l" "length l < n"
  obtains fd' where "read_line fd n = (Line l, fd')" "delivers fd' s" "same_output fd fd'"
  using assms read_line_clean [of fd l 0 s n] by auto

lemma read_line_crlf:
  assumes "delivers fd (l @ CR # LF # s)" "clean l" "length l + 1 < n"
  obtains fd' where "read_line fd n = (Line l, fd')" "delivers fd' s" "same_output fd fd'"
  using assms read_line_clean [of fd l 1 s n] by auto

lemma read_line_end: "delivers fd [] \<Longrightarrow> read_line fd n = (Line_EOF, fd)"
  by (simp add: read_line_def read_line_loop.simps [of n "[]" fd] delivers_end)

lemma trailing_newline:
  assumes "delivers fd (LF # s)"
  obtains fd' where "read_trailing_newline fd = (0, fd')" "delivers fd' s" "same_output fd fd'"
proof -
  obtain fd' where "sys_read fd 1 = (Read_Bytes [LF], fd')" "delivers fd' s" "same_output fd fd'"
    by (rule delivers_read_one [OF assms])
  with that show ?thesis by (simp add: read_trailing_newline_def)
qed

lemma read_body_delivers:
  assumes "delivers fd (b @ s)" "length b = n"
  shows "\<exists>fd'. read_body n m fd = (Some (m @ b), fd') \<and> delivers fd' s \<and> same_output fd fd'"
  using assms
proof (induction n arbitrary: m b fd rule: less_induct)
  case (less n)
  show ?case
  proof (cases "n = 0")
    case True
    with less.prems show ?thesis by (intro exI [of _ fd]) (simp add: read_body.simps [of 0])
  next
    case False
    then have "b @ s \<noteq> []" "0 < n" using less.prems by auto
    with less.prems(1) obtain k fd1 where r: "sys_read fd n = (Read_Bytes (take k (b @ s)), fd1)"
      "0 < k" "k \<le> n" "k \<le> length (b @ s)" "delivers fd1 (drop k (b @ s))" "same_output fd fd1"
      by (rule delivers_read)
    have t: "take k (b @ s) = take k b" "drop k (b @ s) = drop k b @ s" "take k b \<noteq> []"
      using r(2,3) less.prems(2) by auto
    have "n - k < n" using r(2) False by simp
    from less.IH [OF this, of fd1 "drop k b" "m @ take k b"] r t less.prems(2) obtain fd' where
      fd': "read_body (n - k) (m @ take k b) fd1 = (Some ((m @ take k b) @ drop k b), fd')"
        "delivers fd' s" "same_output fd1 fd'"
      by auto
    have "length (take k b) = k" using r(3) less.prems(2) by simp
    with False r t fd' have "read_body n m fd = (Some (m @ b), fd')"
      by (subst read_body.simps) simp
    with fd' same_output_trans [OF r(6) fd'(3)] show ?thesis by auto
  qed
qed
subsection \<open>The messages of the server\<close>

definition reply_text :: "string \<Rightarrow> string \<Rightarrow> string" where
  "reply_text h t = h @ [LF] @ t @ [LF] @ (if t = [] then [] else [LF])"

definition event_text :: "string \<Rightarrow> string" where
  "event_text body = ''Content-Length: '' @ dec_digits (length body) @ [LF] @
     ''Content-Type: text/event-plain'' @ [LF, LF] @ body"

lemma digit_clean: "c_isdigit c \<Longrightarrow> c \<noteq> LF \<and> c \<noteq> CR \<and> c \<noteq> NUL"
  by (auto simp: c_isdigit_def char_int_def LF_def CR_def NUL_def)

lemma digits_clean: "list_all c_isdigit s \<Longrightarrow> clean s"
  by (induction s) (auto simp: digit_clean)

lemma dec_digits_clean: "clean (dec_digits n)"
  by (rule digits_clean) (simp add: list_all_iff dec_digits_are_digits)

lemma starts_with_append: "c_starts_with h (h @ t)"
  by (simp add: c_starts_with_def)

lemma retrieve_reply:
  assumes "delivers fd (reply_text h t @ s)" "h = ''Content-Type: auth/request'' \<or> h = ''Content-Type: command/reply''"
    "clean t" "length t < 64" "\<forall>n. malloc n"
  obtains fd' where
    "retrieve_message malloc \<lparr>ml_fd = fd, ml_polls = Suc n\<rparr> =
       Inr (Some (h @ [LF] @ t @ [LF, NUL]), \<lparr>ml_fd = fd', ml_polls = n\<rparr>)"
    "delivers fd' s" "same_output fd fd'"
proof -
  have h: "clean h" "length h < 64" using assms(2) by (auto simp: LF_def CR_def NUL_def)
  have "delivers fd (h @ LF # (t @ LF # ((if t = [] then [] else [LF]) @ s)))"
    using assms(1) by (simp add: reply_text_def)
  then obtain fd1 where fd1: "read_line fd 64 = (Line h, fd1)"
    "delivers fd1 (t @ LF # ((if t = [] then [] else [LF]) @ s))" "same_output fd fd1"
    using h by (rule read_line_lf)
  obtain fd2 where fd2: "read_line fd1 64 = (Line t, fd2)"
    "delivers fd2 ((if t = [] then [] else [LF]) @ s)" "same_output fd1 fd2"
    by (rule read_line_lf [OF fd1(2) assms(3,4)])
  obtain fd3 where fd3: "(if t \<noteq> [] then read_trailing_newline fd2 else (0, fd2)) = (0, fd3)"
    "delivers fd3 s" "same_output fd2 fd3"
  proof (cases "t = []")
    case True
    with fd2 that show ?thesis by simp
  next
    case False
    with fd2 have "delivers fd2 (LF # s)" by simp
    with that False show ?thesis by (elim trailing_newline) simp
  qed
  have "message_reply malloc h t fd2 = (Some (h @ [LF] @ t @ [LF] @ [NUL]), fd3)"
    using assms(2,5) fd3(1) by (auto simp: message_reply_def c_starts_with_def Let_def)
  moreover have "\<not> c_starts_with ''Content-Length: '' h" using assms(2) by (auto simp: c_starts_with_def)
  ultimately show ?thesis
    using that [of fd3] fd1 fd2 fd3 same_output_trans [OF same_output_trans [OF fd1(3) fd2(3)] fd3(3)]
    by (simp add: retrieve_message_def)
qed

lemma message_event_ok:
  assumes "c_atoi (drop (length ''Content-Length: '') h) = int n" "2 \<le> n" "\<forall>n. malloc n"
    "read_trailing_newline fd = (0, fd1)" "read_body n [] fd1 = (Some body, fd2)"
    "body ! (n - 2) = LF" "body ! (n - 1) = LF"
  shows "message_event malloc h ''Content-Type: text/event-plain'' fd = (Inr (Some body), fd2)"
proof -
  have "nat (int n - 2) = n - 2" "nat (int n - 1) = n - 1" using assms(2) by simp_all
  with assms show ?thesis by (simp add: message_event_def c_starts_with_def Let_def)
qed

lemma retrieve_event:
  assumes "delivers fd (event_text body @ s)" "body = b @ [LF, LF]" "length body < 2 ^ 31" "\<forall>n. malloc n"
  obtains fd' where
    "retrieve_message malloc \<lparr>ml_fd = fd, ml_polls = Suc n\<rparr> =
       Inr (Some body, \<lparr>ml_fd = fd', ml_polls = n\<rparr>)"
    "delivers fd' s" "same_output fd fd'"
proof -
  let ?h = "''Content-Length: '' @ dec_digits (length body)"
  let ?t = "''Content-Type: text/event-plain''"
  have h: "clean ?h" "clean ?t" "length ?t < 64"
    by (simp_all add: dec_digits_clean) (simp_all add: LF_def CR_def NUL_def)
  have l: "length ?h < 64"
    using dec_digits_length_le [of 10 "length body"] assms(3) by simp
  have "delivers fd (?h @ LF # (?t @ LF # (LF # body @ s)))"
    using assms(1) by (simp add: event_text_def)
  then obtain fd1 where fd1: "read_line fd 64 = (Line ?h, fd1)"
    "delivers fd1 (?t @ LF # (LF # body @ s))" "same_output fd fd1"
    using h(1) l by (rule read_line_lf)
  obtain fd2 where fd2: "read_line fd1 64 = (Line ?t, fd2)" "delivers fd2 (LF # body @ s)" "same_output fd1 fd2"
    by (rule read_line_lf [OF fd1(2) h(2,3)])
  obtain fd3 where fd3: "read_trailing_newline fd2 = (0, fd3)" "delivers fd3 (body @ s)" "same_output fd2 fd3"
    by (rule trailing_newline [OF fd2(2)])
  obtain fd4 where fd4: "read_body (length body) [] fd3 = (Some body, fd4)" "delivers fd4 s" "same_output fd3 fd4"
    using read_body_delivers [OF fd3(2) refl, of "[]"] by auto
  have "c_atoi (drop (length ''Content-Length: '') ?h) = int (length body)"
    using assms(3) by (simp add: atoi_dec_digits)
  moreover have "2 \<le> length body" "body ! (length body - 2) = LF" "body ! (length body - 1) = LF"
    using assms(2) by (simp_all add: nth_append)
  ultimately have "message_event malloc ?h ?t fd2 = (Inr (Some body), fd4)"
    using assms(4) fd3(1) fd4(1) by (intro message_event_ok) auto
  moreover have "c_starts_with ''Content-Length: '' ?h" by (rule starts_with_append)
  ultimately show ?thesis
    using that [of fd4] fd1 fd2 fd4
      same_output_trans [OF same_output_trans [OF fd1(3) fd2(3)] same_output_trans [OF fd3(3) fd4(3)]]
    by (simp add: retrieve_message_def)
qed
lemma write_all:
  "fd_writes (ml_fd lk) = [] \<Longrightarrow>
   mwi_write lk s = (True, lk\<lparr>ml_fd := (ml_fd lk)\<lparr>fd_sent := fd_sent (ml_fd lk) @ s\<rparr>\<rparr>)"
  by (simp add: mwi_write_def sys_write_def)

lemma delivers_sent: "delivers (fd\<lparr>fd_sent := t\<rparr>) s \<longleftrightarrow> delivers fd s"
  by (simp add: delivers_def)

lemma strtok_reply:
  assumes "h = ''Content-Type: auth/request'' \<or> h = ''Content-Type: command/reply''"
  shows "strtok_r (h @ [LF] @ t @ [LF, NUL] @ beyond) = Inr (Some (h, t @ [LF, NUL] @ beyond))"
  using strtok_line [of h "t @ [LF, NUL] @ beyond"] assms by (auto simp: LF_def NUL_def)

lemma expect_reply_ok:
  assumes "delivers fd (reply_text ''Content-Type: command/reply'' t @ s)" "clean t" "length t < 64" "t \<noteq> []"
    "\<forall>n. malloc n"
  obtains fd' where
    "expect_reply malloc beyond t \<lparr>ml_fd = fd, ml_polls = Suc n\<rparr> = Inr (0, \<lparr>ml_fd = fd', ml_polls = n\<rparr>)"
    "delivers fd' s" "same_output fd fd'"
proof -
  let ?h = "''Content-Type: command/reply''"
  obtain fd' where fd': "retrieve_message malloc \<lparr>ml_fd = fd, ml_polls = Suc n\<rparr> =
      Inr (Some (?h @ [LF] @ t @ [LF, NUL]), \<lparr>ml_fd = fd', ml_polls = n\<rparr>)"
    "delivers fd' s" "same_output fd fd'"
    using retrieve_reply [OF assms(1) _ assms(2,3,5), of n] by auto
  have "strtok_r ((?h @ [LF] @ t @ [LF, NUL]) @ beyond) = Inr (Some (?h, t @ [LF, NUL] @ beyond))"
    using strtok_reply [of ?h t beyond] by simp
  moreover have "strtok_r (t @ [LF, NUL] @ beyond) = Inr (Some (t, NUL # beyond))"
    using strtok_line [of t "NUL # beyond"] assms(2,4) by (simp add: clean_def)
  ultimately have "expect_reply malloc beyond t \<lparr>ml_fd = fd, ml_polls = Suc n\<rparr> =
      Inr (0, \<lparr>ml_fd = fd', ml_polls = n\<rparr>)"
    unfolding expect_reply_def fd'(1) by simp
  with fd' that show ?thesis by blast
qed

lemma send_password_ok:
  assumes "delivers fd (reply_text ''Content-Type: auth/request'' [] @
      reply_text ''Content-Type: command/reply'' ''Reply-Text: +OK accepted'' @ s)"
    "\<forall>n. malloc n" "fd_writes fd = []"
  obtains fd' where
    "send_password malloc beyond passwd \<lparr>ml_fd = fd, ml_polls = Suc (Suc n)\<rparr> =
       Inr (0, \<lparr>ml_fd = fd', ml_polls = n\<rparr>)"
    "delivers fd' s" "fd_writes fd' = []" "fd_sent fd' = fd_sent fd @ ''auth '' @ passwd @ [LF, LF]"
proof -
  let ?h = "''Content-Type: auth/request''"
  obtain fd1 where fd1: "retrieve_message malloc \<lparr>ml_fd = fd, ml_polls = Suc (Suc n)\<rparr> =
      Inr (Some (?h @ [LF] @ [] @ [LF, NUL]), \<lparr>ml_fd = fd1, ml_polls = Suc n\<rparr>)"
    "delivers fd1 (reply_text ''Content-Type: command/reply'' ''Reply-Text: +OK accepted'' @ s)" "same_output fd fd1"
    using retrieve_reply [OF assms(1) _ _ _ assms(2), of "Suc n"] by auto
  let ?fd2 = "fd1\<lparr>fd_sent := fd_sent fd1 @ ''auth '' @ passwd @ [LF, LF]\<rparr>"
  have d: "delivers ?fd2 (reply_text ''Content-Type: command/reply'' ''Reply-Text: +OK accepted'' @ s)"
    using fd1(2) by (simp add: delivers_sent)
  obtain fd' where fd': "expect_reply malloc beyond ''Reply-Text: +OK accepted''
       \<lparr>ml_fd = ?fd2, ml_polls = Suc n\<rparr> = Inr (0, \<lparr>ml_fd = fd', ml_polls = n\<rparr>)"
    "delivers fd' s" "same_output ?fd2 fd'"
    by (rule expect_reply_ok [OF d _ _ _ assms(2)]) (simp_all add: LF_def CR_def NUL_def)
  have w: "mwi_write \<lparr>ml_fd = fd1, ml_polls = Suc n\<rparr> (''auth '' @ passwd @ [LF, LF]) =
      (True, \<lparr>ml_fd = ?fd2, ml_polls = Suc n\<rparr>)"
    using fd1(3) assms(3) by (simp add: write_all same_output_def)
  have k: "strtok_r ((?h @ [LF] @ [] @ [LF, NUL]) @ beyond) = Inr (Some (?h, [LF, NUL] @ beyond))"
    using strtok_reply [of ?h "[]" beyond] by simp
  have "send_password malloc beyond passwd \<lparr>ml_fd = fd, ml_polls = Suc (Suc n)\<rparr> =
      Inr (0, \<lparr>ml_fd = fd', ml_polls = n\<rparr>)"
    unfolding send_password_def fd1(1) sum.case prod.case option.case k Let_def w
    using assms(2) fd'(1) by simp
  with fd' fd1(3) assms(3) that show ?thesis by (simp add: same_output_def)
qed

lemma enable_event_ok:
  assumes "delivers fd (reply_text ''Content-Type: command/reply'' ''Reply-Text: +OK event listener enabled plain'' @ s)"
    "\<forall>n. malloc n" "fd_writes fd = []"
  obtains fd' where
    "enable_mwi_event malloc beyond \<lparr>ml_fd = fd, ml_polls = Suc n\<rparr> = Inr (0, \<lparr>ml_fd = fd', ml_polls = n\<rparr>)"
    "delivers fd' s" "fd_writes fd' = []"
    "fd_sent fd' = fd_sent fd @ ''event plain MESSAGE_WAITING'' @ [LF, LF]"
proof -
  let ?fd1 = "fd\<lparr>fd_sent := fd_sent fd @ ''event plain MESSAGE_WAITING'' @ [LF, LF]\<rparr>"
  have d: "delivers ?fd1 (reply_text ''Content-Type: command/reply'' ''Reply-Text: +OK event listener enabled plain'' @ s)"
    using assms(1) by (simp add: delivers_sent)
  obtain fd' where fd': "expect_reply malloc beyond ''Reply-Text: +OK event listener enabled plain''
       \<lparr>ml_fd = ?fd1, ml_polls = Suc n\<rparr> = Inr (0, \<lparr>ml_fd = fd', ml_polls = n\<rparr>)"
    "delivers fd' s" "same_output ?fd1 fd'"
    by (rule expect_reply_ok [OF d _ _ _ assms(2)]) (simp_all add: LF_def CR_def NUL_def)
  have w: "mwi_write \<lparr>ml_fd = fd, ml_polls = Suc n\<rparr> (''event plain MESSAGE_WAITING'' @ [LF, LF]) =
      (True, \<lparr>ml_fd = ?fd1, ml_polls = Suc n\<rparr>)"
    using assms(3) by (simp add: write_all)
  have "enable_mwi_event malloc beyond \<lparr>ml_fd = fd, ml_polls = Suc n\<rparr> = Inr (0, \<lparr>ml_fd = fd', ml_polls = n\<rparr>)"
    unfolding enable_mwi_event_def w using fd'(1) by simp
  with fd' assms(3) that show ?thesis by (simp add: same_output_def)
qed
subsection \<open>The lines of an event\<close>

definition event_body :: "string list \<Rightarrow> string" where
  "event_body ls = concat (map (\<lambda>l. l @ [LF]) ls) @ [LF]"

text \<open>What the last line with the name \<open>h\<close> says, \<open>x\<close> when there is none.\<close>

definition field_from :: "string \<Rightarrow> string option \<Rightarrow> string list \<Rightarrow> string option" where
  "field_from h = foldl (\<lambda>v l. if c_starts_with h l then Some (drop (length h) l) else v)"

lemma field_from_simps:
  "field_from h v [] = v"
  "field_from h v (l # ls) = field_from h (if c_starts_with h l then Some (drop (length h) l) else v) ls"
  by (simp_all add: field_from_def)

lemma mwi_scan_body:
  assumes "list_all (\<lambda>l. clean l \<and> l \<noteq> []) ls"
  shows "mwi_scan (event_body ls @ NUL # beyond) ma mw =
    Inr (field_from ''MWI-Message-Account: '' ma ls, field_from ''MWI-Messages-Waiting: '' mw ls)"
  using assms
proof (induction ls arbitrary: ma mw)
  case Nil
  have "strtok_r (event_body [] @ NUL # beyond) = Inr None"
    by (simp add: event_body_def strtok_skip strtok_NUL)
  then show ?case by (simp add: mwi_scan.simps [of "event_body [] @ NUL # beyond"] field_from_simps)
next
  case (Cons l ls)
  then have "strtok_r (l @ LF # (event_body ls @ NUL # beyond)) = Inr (Some (l, event_body ls @ NUL # beyond))"
    by (intro strtok_line) (auto simp: clean_def)
  moreover have "event_body (l # ls) @ NUL # beyond = l @ LF # (event_body ls @ NUL # beyond)"
    by (simp add: event_body_def)
  ultimately have "mwi_scan (event_body (l # ls) @ NUL # beyond) ma mw = mwi_scan (event_body ls @ NUL # beyond)
      (if c_starts_with ''MWI-Message-Account: '' l then Some (drop (length ''MWI-Message-Account: '') l) else ma)
      (if c_starts_with ''MWI-Messages-Waiting: '' l then Some (drop (length ''MWI-Messages-Waiting: '') l) else mw)"
    by (subst mwi_scan.simps) simp
  with Cons show ?case by (simp add: field_from_simps)
qed

lemma strtok_no_NUL:
  assumes "NUL \<notin> set mem"
  shows "strtok_r mem \<noteq> Inr None"
    "strtok_r mem = Inl e \<Longrightarrow> e = Out_Of_Bounds"
    "strtok_r mem = Inr (Some (tok, rest)) \<Longrightarrow> NUL \<notin> set rest"
proof -
  let ?s = "dropWhile (\<lambda>c. c = LF) mem"
  have s: "NUL \<notin> set ?s" using assms set_dropWhileD by fastforce
  then show "strtok_r mem \<noteq> Inr None" "strtok_r mem = Inl e \<Longrightarrow> e = Out_Of_Bounds"
    by (auto simp: strtok_r_def Let_def split: list.splits if_splits)
  assume a: "strtok_r mem = Inr (Some (tok, rest))"
  let ?t = "takeWhile (\<lambda>c. c \<noteq> LF \<and> c \<noteq> NUL) ?s"
  have "set rest \<subseteq> set (drop (length ?t) ?s)"
    using a by (auto simp: strtok_r_def Let_def split: list.splits if_splits)
  with s show "NUL \<notin> set rest" by (meson in_mono set_drop_subset)
qed

lemma mwi_scan_overruns:
  assumes "NUL \<notin> set mem"
  shows "mwi_scan mem ma mw = Inl Out_Of_Bounds"
  using assms
proof (induction mem ma mw rule: mwi_scan.induct)
  case (1 mem ma mw)
  show ?case
  proof (cases "strtok_r mem")
    case (Inl e)
    with strtok_no_NUL(2) [OF 1(2)] show ?thesis by (simp add: mwi_scan.simps [of mem])
  next
    case (Inr r)
    then obtain tok rest where r: "r = Some (tok, rest)"
      using strtok_no_NUL(1) [OF 1(2)] by (cases r) auto
    with Inr have s: "strtok_r mem = Inr (Some (tok, rest))" by simp
    show ?thesis
      using 1(1) [OF Inr r refl strtok_no_NUL(3) [OF 1(2) s]] s by (simp add: mwi_scan.simps [of mem])
  qed
qed

subsection \<open>The modem\<close>

text \<open>
  What a modem sends when it answers \<open>ans\<close> to \<open>cmd\<close>: alone, behind an empty line, or with the
  echo of the command before it.
\<close>

definition answers :: "string \<Rightarrow> string \<Rightarrow> string \<Rightarrow> bool" where
  "answers cmd ans t \<longleftrightarrow> t = ans @ [CR, LF] \<or> t = [CR, LF] @ ans @ [CR, LF] \<or>
     t = cmd @ [CR, CR, LF] @ ans @ [CR, LF]"

lemma read_answer_ok:
  assumes "delivers fd (t @ s)" "answers cmd ans t" "clean ans" "clean cmd" "length ans < 60" "length cmd < 60"
    "ans \<noteq> []" "ans \<noteq> cmd"
  obtains fd' where "read_answer 2 cmd r fd = (Line ans, fd')" "delivers fd' s" "same_output fd fd'"
proof -
  have two: "read_answer 2 cmd r fd = read_answer (Suc 1) cmd r fd" by (simp add: numeral_2_eq_2)
  have last_line: "\<exists>fd'. read_answer (Suc k) cmd r1 fd1 = (Line ans, fd') \<and> delivers fd' s \<and> same_output fd1 fd'"
    if "delivers fd1 (ans @ CR # LF # s)" for fd1 k r1
  proof -
    have "length ans + 1 < 64" using assms(5) by simp
    with that assms(3) obtain fd' where "read_line fd1 64 = (Line ans, fd')" "delivers fd' s" "same_output fd1 fd'"
      by (rule read_line_crlf)
    with assms(7,8) show ?thesis by simp
  qed
  have skipped: "\<exists>fd'. read_answer (Suc 1) cmd r fd = (Line ans, fd') \<and> delivers fd' s \<and> same_output fd fd'"
    if l: "read_line fd 64 = (Line l, fd1)" "delivers fd1 (ans @ CR # LF # s)" "same_output fd fd1" "l = [] \<or> l = cmd"
    for l fd1
    using last_line [OF l(2), of 0 "Line l"] l(1,3,4) same_output_trans by (auto simp del: read_answer.simps(1))
  consider "t = ans @ [CR, LF]" | "t = [CR, LF] @ ans @ [CR, LF]" | "t = cmd @ [CR, CR, LF] @ ans @ [CR, LF]"
    using assms(2) by (auto simp: answers_def)
  then have "\<exists>fd'. read_answer (Suc 1) cmd r fd = (Line ans, fd') \<and> delivers fd' s \<and> same_output fd fd'"
  proof cases
    case 1
    with assms(1) last_line [of fd 1 r] show ?thesis by simp
  next
    case 2
    then have "delivers fd ([] @ CR # LF # (ans @ CR # LF # s))" using assms(1) by simp
    then obtain fd1 where "read_line fd 64 = (Line [], fd1)" "delivers fd1 (ans @ CR # LF # s)" "same_output fd fd1"
      by (rule read_line_crlf [where n = 64]) auto
    then show ?thesis by (rule skipped) simp
  next
    case 3
    then have "delivers fd (cmd @ replicate 2 CR @ LF # (ans @ CR # LF # s))"
      using assms(1) by (simp add: numeral_2_eq_2)
    then obtain fd1 where "read_line fd 64 = (Line cmd, fd1)" "delivers fd1 (ans @ CR # LF # s)" "same_output fd fd1"
      using assms(4,6) by (elim read_line_clean [where n = 64]) auto
    then show ?thesis by (rule skipped) simp
  qed
  with two that show ?thesis by auto
qed

text \<open>
  The command for a lamp as the System 25 wants it: the code 90 switches it on, the code 91 off.
\<close>

definition lamp_command :: "bool \<Rightarrow> string \<Rightarrow> string" where
  "lamp_command on ext = (if on then ''ATDT#90'' @ ext else ''ATDT#91'' @ ext)"

lemma lamp_command_dial: "lamp_command on ext = dial_command on ext"
  by (simp add: lamp_command_def dial_command_def)

text \<open>A modem that takes the command and reports that the call was not answered, and what it is sent.\<close>

definition willing :: "bool \<Rightarrow> string \<Rightarrow> fd_state \<Rightarrow> bool" where
  "willing on ext fd \<longleftrightarrow> fd_writes fd = [] \<and> fd_sent fd = [] \<and>
     (\<exists>t1 t2. answers ''AT'' ''OK'' t1 \<and> answers (lamp_command on ext) ''NO CARRIER'' t2 \<and> delivers fd (t1 @ t2))"

definition dialogue :: "bool \<Rightarrow> string \<Rightarrow> string" where
  "dialogue on ext = ''AT'' @ [CR, LF] @ lamp_command on ext @ [CR, LF] @ [CR, LF]"

lemma write_line_all:
  "fd_writes fd = [] \<Longrightarrow> write_line fd m = (True, fd\<lparr>fd_sent := fd_sent fd @ m @ [CR, LF]\<rparr>)"
  by (simp add: write_line_def sys_write_def)

lemma dial_command_ok:
  assumes "list_all c_isdigit ext" "length ext < 53"
  shows "clean (dial_command on ext)" "length (dial_command on ext) < 60" "dial_command on ext \<noteq> ''NO CARRIER''"
proof -
  show "clean (dial_command on ext)"
    unfolding dial_command_def by (simp add: digits_clean assms(1)) (simp add: LF_def CR_def NUL_def)
  show "length (dial_command on ext) < 60" "dial_command on ext \<noteq> ''NO CARRIER''"
    using assms(2) by (simp_all add: dial_command_def)
qed

lemma modem_session_ok:
  assumes "willing on ext fd" "list_all c_isdigit ext" "length ext < 53"
  shows "\<exists>fd'. modem_session on ext fd True = (Return 0, fd') \<and> fd_sent fd' = dialogue on ext"
proof -
  let ?m = "dial_command on ext"
  from assms(1) obtain t1 t2 where t: "answers ''AT'' ''OK'' t1" "answers ?m ''NO CARRIER'' t2"
    "delivers fd (t1 @ t2)" and w: "fd_writes fd = []" "fd_sent fd = []"
    by (auto simp: willing_def lamp_command_dial)
  let ?fd1 = "fd\<lparr>fd_sent := ''AT'' @ [CR, LF]\<rparr>"
  have "delivers ?fd1 (t1 @ t2)" using t(3) by (simp add: delivers_sent)
  then obtain fd2 where fd2: "read_answer 2 ''AT'' Line_EOF ?fd1 = (Line ''OK'', fd2)" "delivers fd2 t2"
    "same_output ?fd1 fd2"
    using t(1) by (elim read_answer_ok) (simp_all, simp_all add: LF_def CR_def NUL_def)
  let ?fd3 = "fd2\<lparr>fd_sent := dialogue on ext\<rparr>"
  have "delivers ?fd3 (t2 @ [])" using fd2(2) by (simp add: delivers_sent)
  then obtain fd4 where fd4: "read_answer 2 ?m Line_EOF ?fd3 = (Line ''NO CARRIER'', fd4)"
    "delivers fd4 []" "same_output ?fd3 fd4"
    using dial_command_ok [OF assms(2,3), of on]
    by (elim read_answer_ok [OF _ t(2)]) (simp_all add: LF_def CR_def NUL_def not_sym)
  have "write_line fd2 ?m = (True, fd2\<lparr>fd_sent := ''AT'' @ [CR, LF] @ ?m @ [CR, LF]\<rparr>)"
    using fd2(3) w by (simp add: write_line_all same_output_def)
  moreover have "sys_write (fd2\<lparr>fd_sent := ''AT'' @ [CR, LF] @ ?m @ [CR, LF]\<rparr>) [CR, LF] = (True, ?fd3)"
    using fd2(3) w by (simp add: sys_write_def same_output_def dialogue_def lamp_command_dial)
  ultimately have "modem_dial on ext fd2 = (Return 0, fd4)"
    using fd4(1) dial_command_ok(2) [OF assms(2,3), of on] by (simp add: modem_dial_def)
  then have "modem_session on ext fd True = (Return 0, fd4)"
    using fd2(1) w by (simp add: modem_session_def write_line_all)
  with fd4(3) show ?thesis by (simp add: same_output_def)
qed
subsection \<open>The whole run\<close>

text \<open>An event that switches the lamp of the extension \<open>ext\<close>.\<close>

definition lamp_event :: "string list \<Rightarrow> bool \<Rightarrow> string \<Rightarrow> bool" where
  "lamp_event ls on ext \<longleftrightarrow>
     list_all (\<lambda>l. clean l \<and> l \<noteq> []) ls \<and> length (event_body ls) < 2 ^ 31 \<and>
     list_all c_isdigit ext \<and> length ext < 53 \<and>
     (\<exists>host. field_from ''MWI-Message-Account: '' None ls = Some (ext @ ''%40'' @ host)) \<and>
     (\<exists>w. field_from ''MWI-Messages-Waiting: '' None ls = Some w \<and> c_strcaseeq w (if on then ''yes'' else ''no''))"

lemma account_of_extension:
  assumes "list_all c_isdigit ext"
  shows "account_extension (ext @ ''%40'' @ host) = Some ext"
proof -
  have d: "c \<noteq> CHR ''%''" if "c \<in> set ext" for c
    using that assms by (auto simp: list_all_iff c_isdigit_def char_int_def)
  then have "takeWhile (\<lambda>c. c \<noteq> CHR ''%'') (ext @ ''%40'' @ host) = ext"
    "dropWhile (\<lambda>c. c \<noteq> CHR ''%'') (ext @ ''%40'' @ host) = ''%40'' @ host"
    by (simp_all add: takeWhile_append2 dropWhile_append2)
  with assms show ?thesis by (simp add: account_extension_def c_starts_with_def Let_def)
qed

lemma yes_or_no: "c_strcaseeq w (if on then ''yes'' else ''no'') \<Longrightarrow>
    c_strcaseeq w ''yes'' = on \<and> c_strcaseeq w ''no'' = (\<not> on)"
  by (cases on) (auto simp: c_strcaseeq_def dest!: arg_cong [where f = length])

lemma process_lamp_event:
  assumes "lamp_event ls on ext" "willing on ext fd"
  shows "process_mwi_event (event_body ls @ NUL # beyond) \<lparr>md_opens = Some (fd, True) # os, md_sent = t\<rparr> =
    Inr (0, \<lparr>md_opens = os, md_sent = t @ [dialogue on ext]\<rparr>)"
proof -
  from assms(1) obtain host w where f: "field_from ''MWI-Message-Account: '' None ls = Some (ext @ ''%40'' @ host)"
      "field_from ''MWI-Messages-Waiting: '' None ls = Some w"
    and w: "c_strcaseeq w (if on then ''yes'' else ''no'')"
    and e: "list_all c_isdigit ext" "length ext < 53" "list_all (\<lambda>l. clean l \<and> l \<noteq> []) ls"
    by (auto simp: lamp_event_def)
  obtain fd' where s: "modem_session on ext fd True = (Return 0, fd')" "fd_sent fd' = dialogue on ext"
    using modem_session_ok [OF assms(2) e(1,2)] by auto
  then have "modem_attempts 3 on ext \<lparr>md_opens = Some (fd, True) # os, md_sent = t\<rparr> =
      (0, \<lparr>md_opens = os, md_sent = t @ [dialogue on ext]\<rparr>)"
    by (simp add: numeral_3_eq_3)
  moreover have "mwi_scan (event_body ls @ NUL # beyond) None None = Inr (Some (ext @ ''%40'' @ host), Some w)"
    using mwi_scan_body [OF e(3)] f by simp
  moreover have "account_extension (ext @ ''%40'' @ host) = Some ext"
    by (rule account_of_extension [OF e(1)])
  ultimately show ?thesis
    unfolding process_mwi_event_def using yes_or_no [OF w] by simp
qed

lemma event_body_ends: "ls \<noteq> [] \<Longrightarrow> \<exists>b. event_body ls = b @ [LF, LF]"
  by (cases ls rule: rev_cases) (auto simp: event_body_def)

lemma retrieve_end:
  "delivers fd [] \<Longrightarrow>
   retrieve_message malloc \<lparr>ml_fd = fd, ml_polls = Suc n\<rparr> = Inr (None, \<lparr>ml_fd = fd, ml_polls = n\<rparr>)"
  by (simp add: retrieve_message_def read_line_end)

definition events_text :: "(string list \<times> bool \<times> string) list \<Rightarrow> string" where
  "events_text evs = concat (map (\<lambda>(ls, on, ext). event_text (event_body ls)) evs)"

lemma mwi_events_ok:
  assumes "delivers fd (events_text evs)" "\<forall>n. malloc n"
    "list_all (\<lambda>(ls, on, ext). lamp_event ls on ext) evs"
    "list_all2 (\<lambda>(ls, on, ext) fd. willing on ext fd) evs fds"
  shows "\<exists>fd'. mwi_events malloc (NUL # beyond) \<lparr>ml_fd = fd, ml_polls = length evs + Suc k\<rparr>
      \<lparr>md_opens = map (\<lambda>fd. Some (fd, True)) fds, md_sent = t\<rparr> =
    Inr (\<lparr>ml_fd = fd', ml_polls = k\<rparr>,
      \<lparr>md_opens = [], md_sent = t @ map (\<lambda>(ls, on, ext). dialogue on ext) evs\<rparr>) \<and> same_output fd fd'"
  using assms
proof (induction evs arbitrary: fd fds t)
  case Nil
  then show ?case
    by (intro exI [of _ fd]) (subst mwi_events.simps, simp add: events_text_def retrieve_end)
next
  case (Cons ev evs)
  obtain ls on ext where ev: "ev = (ls, on, ext)" by (cases ev)
  from Cons.prems(4) ev obtain m ms where fds: "fds = m # ms" "willing on ext m"
    "list_all2 (\<lambda>(ls, on, ext) fd. willing on ext fd) evs ms"
    by (auto simp: list_all2_Cons1)
  have l: "lamp_event ls on ext" "list_all (\<lambda>(ls, on, ext). lamp_event ls on ext) evs"
    using Cons.prems(3) ev by auto
  then have "ls \<noteq> []" by (auto simp: lamp_event_def field_from_simps)
  then obtain b where b: "event_body ls = b @ [LF, LF]" using event_body_ends by blast
  have "delivers fd (event_text (event_body ls) @ events_text evs)"
    using Cons.prems(1) ev by (simp add: events_text_def)
  moreover have "length (event_body ls) < 2 ^ 31" using l(1) by (simp add: lamp_event_def)
  ultimately obtain fd1 where fd1:
    "retrieve_message malloc \<lparr>ml_fd = fd, ml_polls = Suc (length evs + Suc k)\<rparr> =
       Inr (Some (event_body ls), \<lparr>ml_fd = fd1, ml_polls = length evs + Suc k\<rparr>)"
    "delivers fd1 (events_text evs)" "same_output fd fd1"
    using b Cons.prems(2) by (elim retrieve_event)
  from Cons.IH [OF fd1(2) Cons.prems(2) l(2) fds(3), of "t @ [dialogue on ext]"]
  obtain fd' where ih: "mwi_events malloc (NUL # beyond) \<lparr>ml_fd = fd1, ml_polls = length evs + Suc k\<rparr>
      \<lparr>md_opens = map (\<lambda>fd. Some (fd, True)) ms, md_sent = t @ [dialogue on ext]\<rparr> =
    Inr (\<lparr>ml_fd = fd', ml_polls = k\<rparr>, \<lparr>md_opens = [],
      md_sent = (t @ [dialogue on ext]) @ map (\<lambda>(ls, on, ext). dialogue on ext) evs\<rparr>)" "same_output fd1 fd'"
    by blast
  have "mwi_events malloc (NUL # beyond) \<lparr>ml_fd = fd, ml_polls = length (ev # evs) + Suc k\<rparr>
      \<lparr>md_opens = map (\<lambda>fd. Some (fd, True)) fds, md_sent = t\<rparr> =
    mwi_events malloc (NUL # beyond) \<lparr>ml_fd = fd1, ml_polls = length evs + Suc k\<rparr>
      \<lparr>md_opens = map (\<lambda>fd. Some (fd, True)) ms, md_sent = t @ [dialogue on ext]\<rparr>"
    using fd1(1) fds(1) process_lamp_event [OF l(1) fds(2)] by (subst mwi_events.simps) simp
  with ih same_output_trans [OF fd1(3) ih(2)] ev show ?case by auto
qed

definition login_text :: string where
  "login_text = reply_text ''Content-Type: auth/request'' [] @
     reply_text ''Content-Type: command/reply'' ''Reply-Text: +OK accepted'' @
     reply_text ''Content-Type: command/reply'' ''Reply-Text: +OK event listener enabled plain''"

lemma main_loop_done: "ms_polls st = 0 \<Longrightarrow> main_loop malloc beyond opts st = Inr st"
  by (simp add: main_loop.simps [of malloc beyond opts st])

lemma main_loop_serves:
  assumes "ms_polls st = length evs + 5" "next_conn opts st = Some fd" "fd_writes fd = []" "fd_sent fd = []"
    "delivers fd (login_text @ events_text evs)" "\<forall>n. malloc n"
    "list_all (\<lambda>(ls, on, ext). lamp_event ls on ext) evs"
    "list_all2 (\<lambda>(ls, on, ext) fd. willing on ext fd) evs fds"
    "ms_modem st = \<lparr>md_opens = map (\<lambda>fd. Some (fd, True)) fds, md_sent = t\<rparr>"
  shows "main_loop malloc (NUL # beyond) opts st = Inr (st\<lparr>ms_polls := 0, ms_nets := tl (ms_nets st),
     ms_throttle := False,
     ms_closed := ms_closed st @ [''auth '' @ mo_passwd opts @ [LF, LF] @ ''event plain MESSAGE_WAITING'' @ [LF, LF]],
     ms_modem := \<lparr>md_opens = [], md_sent = t @ map (\<lambda>(ls, on, ext). dialogue on ext) evs\<rparr>\<rparr>)"
proof -
  let ?n = "length evs"
  let ?st = "st\<lparr>ms_polls := ms_polls st - 1, ms_nets := tl (ms_nets st)\<rparr>"
  have polls: "ms_polls st - 1 = Suc (Suc (Suc (?n + Suc 0)))" using assms(1) by simp
  obtain fd1 where fd1: "send_password malloc (NUL # beyond) (mo_passwd opts) \<lparr>ml_fd = fd, ml_polls = ms_polls st - 1\<rparr> =
      Inr (0, \<lparr>ml_fd = fd1, ml_polls = Suc (?n + Suc 0)\<rparr>)"
    "delivers fd1 (reply_text ''Content-Type: command/reply'' ''Reply-Text: +OK event listener enabled plain'' @ events_text evs)"
    "fd_writes fd1 = []" "fd_sent fd1 = ''auth '' @ mo_passwd opts @ [LF, LF]"
    using send_password_ok [of fd _ malloc "NUL # beyond" "mo_passwd opts" "Suc (?n + Suc 0)"] assms(3-6)
    unfolding polls login_text_def append_assoc by (metis append_Nil)
  obtain fd2 where fd2: "enable_mwi_event malloc (NUL # beyond) \<lparr>ml_fd = fd1, ml_polls = Suc (?n + Suc 0)\<rparr> =
      Inr (0, \<lparr>ml_fd = fd2, ml_polls = ?n + Suc 0\<rparr>)"
    "delivers fd2 (events_text evs)" "fd_writes fd2 = []"
    "fd_sent fd2 = fd_sent fd1 @ ''event plain MESSAGE_WAITING'' @ [LF, LF]"
    by (rule enable_event_ok [OF fd1(2) assms(6) fd1(3)])
  obtain fd3 where fd3: "mwi_events malloc (NUL # beyond) \<lparr>ml_fd = fd2, ml_polls = ?n + Suc 0\<rparr> (ms_modem st) =
      Inr (\<lparr>ml_fd = fd3, ml_polls = 0\<rparr>,
        \<lparr>md_opens = [], md_sent = t @ map (\<lambda>(ls, on, ext). dialogue on ext) evs\<rparr>)" "same_output fd2 fd3"
    using mwi_events_ok [OF fd2(2) assms(6-8), of beyond 0 t] assms(9) by auto
  have "main_round malloc (NUL # beyond) opts (Some fd) ?st =
      Inr (?st\<lparr>ms_throttle := False, ms_polls := 0,
        ms_modem := \<lparr>md_opens = [], md_sent = t @ map (\<lambda>(ls, on, ext). dialogue on ext) evs\<rparr>,
        ms_closed := ms_closed st @ [fd_sent fd3]\<rparr>)"
    unfolding main_round_def option.case using fd1(1) fd2(1) fd3(1) by simp
  moreover have "fd_sent fd3 = ''auth '' @ mo_passwd opts @ [LF, LF] @ ''event plain MESSAGE_WAITING'' @ [LF, LF]"
    using fd3(2) fd2(4) fd1(4) by (simp add: same_output_def)
  ultimately show ?thesis
    using assms(1,2)
    by (subst main_loop.simps) (simp add: main_loop_done)
qed
subsection \<open>Properties\<close>


text \<open>
  An event without a NUL, as every server sends it, is not ended by one in memory: scanning it
  always reads behind the block.
\<close>
theorem event_read_past_end:
  assumes "NUL \<notin> set m"
  shows "process_mwi_event m md = Inl Out_Of_Bounds"
  using mwi_scan_overruns [OF assms] by (simp add: process_mwi_event_def)

definition dial_chars :: "char set" where
  "dial_chars = set ''ATD#0123456789'' \<union> {CR, LF}"

definition dial_only :: "modem_state \<Rightarrow> bool" where
  "dial_only md \<longleftrightarrow> (\<forall>s\<in>set (md_sent md). set s \<subseteq> dial_chars) \<and>
     (\<forall>fd ok. Some (fd, ok) \<in> set (md_opens md) \<longrightarrow> set (fd_sent fd) \<subseteq> dial_chars)"

lemma digit_dial_char: "c_isdigit c \<Longrightarrow> c \<in> dial_chars"
proof -
  assume c: "c_isdigit c"
  let ?d = "''0123456789'' ! nat (digit_index c)"
  have k: "nat (digit_index c) < 10" "0 \<le> digit_index c"
    using c unfolding c_isdigit_def digit_index_def by linarith+
  have "0 \<le> digit_index ?d" "nat (digit_index ?d) = nat (digit_index c)"
    using digit_of_nth [OF k(1)] by (simp_all add: c_isdigit_def digit_index_def)
  with k(2) have "?d = c" by (intro digit_index_inj) linarith
  moreover have "?d \<in> set ''0123456789''" using k(1) by (intro nth_mem) simp
  ultimately have "c \<in> set ''0123456789''" by (simp only:)
  then show "c \<in> dial_chars" by (auto simp: dial_chars_def)
qed

lemma sys_write_dial:
  "sys_write fd s = (ok, fd') \<Longrightarrow> set s \<subseteq> dial_chars \<Longrightarrow> set (fd_sent fd) \<subseteq> dial_chars \<Longrightarrow>
   set (fd_sent fd') \<subseteq> dial_chars"
  by (auto simp: sys_write_def split: list.splits dest!: in_set_takeD dest: subsetD)

lemma write_line_dial:
  assumes "write_line fd s = (ok, fd')" "set s \<subseteq> dial_chars" "set (fd_sent fd) \<subseteq> dial_chars"
  shows "set (fd_sent fd') \<subseteq> dial_chars"
proof -
  have "set [CR, LF] \<subseteq> dial_chars" by (simp add: dial_chars_def)
  with assms show ?thesis
    by (auto simp: write_line_def split: prod.splits if_splits dest!: sys_write_dial)
qed

lemma read_line_output: "read_line fd n = (r, fd') \<Longrightarrow> same_output fd fd'"
proof -
  have "read_line_loop n buf fd = (r, fd') \<Longrightarrow> same_output fd fd'" for buf
  proof (induction n buf fd rule: read_line_loop.induct)
    case (1 n buf fd)
    obtain x fd1 where x: "sys_read fd 1 = (x, fd1)" by (cases "sys_read fd 1")
    note o = sys_read_output [OF x]
    show ?case
    proof (cases x)
      case Read_Error
      with 1(2) x o show ?thesis by (simp add: read_line_loop.simps [of n buf fd])
    next
      case (Read_Bytes bs)
      with 1(2) x o 1(1) [OF x [symmetric] Read_Bytes] show ?thesis
        by (cases bs) (auto simp: read_line_loop.simps [of n buf fd] intro: same_output_trans split: if_splits)
    qed
  qed
  then show "read_line fd n = (r, fd') \<Longrightarrow> same_output fd fd'" by (simp add: read_line_def)
qed

lemma read_answer_output: "read_answer w m r fd = (r', fd') \<Longrightarrow> same_output fd fd'"
  by (induction w m r fd rule: read_answer.induct)
    (auto split: prod.splits line_result.splits if_splits dest!: read_line_output intro: same_output_trans)
lemma dial_command_dial: "list_all c_isdigit ext \<Longrightarrow> set (dial_command on ext) \<subseteq> dial_chars"
  by (auto simp: dial_command_def list_all_iff dest: digit_dial_char) (simp_all add: dial_chars_def)

lemma modem_dial_dial:
  assumes "modem_dial on ext fd = (a, fd')" "list_all c_isdigit ext" "set (fd_sent fd) \<subseteq> dial_chars"
  shows "set (fd_sent fd') \<subseteq> dial_chars"
proof -
  let ?m = "dial_command on ext"
  obtain ok fd1 where w1: "write_line fd ?m = (ok, fd1)" by (cases "write_line fd ?m")
  note s1 = write_line_dial [OF w1 dial_command_dial [OF assms(2)] assms(3)]
  obtain ok2 fd2 where w2: "sys_write fd1 [CR, LF] = (ok2, fd2)" by (cases "sys_write fd1 [CR, LF]")
  have s2: "set (fd_sent fd2) \<subseteq> dial_chars"
    by (rule sys_write_dial [OF w2 _ s1]) (simp add: dial_chars_def)
  obtain r fd3 where r: "read_answer 2 ?m Line_EOF fd2 = (r, fd3)" by (cases "read_answer 2 ?m Line_EOF fd2")
  then have "fd_sent fd3 = fd_sent fd2" by (simp add: read_answer_output [unfolded same_output_def])
  then have s3: "set (fd_sent fd3) \<subseteq> dial_chars" using s2 by simp
  from assms(1) w1 w2 r have "fd' \<in> {fd, fd1, fd2, fd3}"
    by (simp add: modem_dial_def Let_def split: if_splits line_result.splits)
  with assms(3) s1 s2 s3 show ?thesis by blast
qed

lemma modem_session_dial:
  assumes "modem_session on ext fd tc = (a, fd')" "list_all c_isdigit ext" "set (fd_sent fd) \<subseteq> dial_chars"
  shows "set (fd_sent fd') \<subseteq> dial_chars"
proof -
  obtain ok fd1 where w1: "write_line fd ''AT'' = (ok, fd1)" by (cases "write_line fd ''AT''")
  have s1: "set (fd_sent fd1) \<subseteq> dial_chars"
    by (rule write_line_dial [OF w1 _ assms(3)]) (simp add: dial_chars_def)
  obtain r fd2 where r: "read_answer 2 ''AT'' Line_EOF fd1 = (r, fd2)" by (cases "read_answer 2 ''AT'' Line_EOF fd1")
  then have "fd_sent fd2 = fd_sent fd1" by (simp add: read_answer_output [unfolded same_output_def])
  then have s2: "set (fd_sent fd2) \<subseteq> dial_chars" using s1 by simp
  from assms(1) w1 r have "fd' \<in> {fd, fd1, fd2} \<or> modem_dial on ext fd2 = (a, fd')"
    by (simp add: modem_session_def split: if_splits line_result.splits)
  with assms(2,3) s1 s2 modem_dial_dial show ?thesis by blast
qed

lemma modem_attempts_dial:
  "modem_attempts r on ext md = (x, md') \<Longrightarrow> list_all c_isdigit ext \<Longrightarrow> dial_only md \<Longrightarrow> dial_only md'"
proof (induction r on ext md rule: modem_attempts.induct)
  case (2 r on ext md)
  show ?case
  proof (cases "md_opens md")
    case Nil
    with 2 show ?thesis by simp
  next
    case (Cons p os)
    show ?thesis
    proof (cases p)
      case None
      with 2(2) Cons have "md' = md\<lparr>md_opens := os\<rparr>" by simp
      with 2(4) Cons show ?thesis by (simp add: dial_only_def)
    next
      case (Some q)
      obtain fd tc where q: "q = (fd, tc)" by (cases q)
      obtain a fd1 where a: "modem_session on ext fd tc = (a, fd1)" by (cases "modem_session on ext fd tc")
      let ?md = "md\<lparr>md_opens := os, md_sent := md_sent md @ [fd_sent fd1]\<rparr>"
      have "set (fd_sent fd) \<subseteq> dial_chars" using 2(4) Cons Some q by (auto simp: dial_only_def)
      then have s: "set (fd_sent fd1) \<subseteq> dial_chars" using modem_session_dial [OF a 2(3)] by simp
      have d: "dial_only ?md" using 2(4) Cons s by (auto simp: dial_only_def)
      show ?thesis
      proof (cases a)
        case (Return y)
        with 2(2) Cons Some q a d show ?thesis by simp
      next
        case Try_Again
        with 2(2) Cons Some q a have "modem_attempts r on ext ?md = (x, md')" by simp
        from 2(1) [OF Cons Some q [symmetric] a [symmetric] refl Try_Again this 2(3) d] show ?thesis .
      qed
    qed
  qed
qed simp

text \<open>
  C28:No event, however malformed or hostile, makes the modem see anything but its commands: what is
  sent to it consists of digits, the characters of the dial command and line ends only.
\<close>
theorem only_dial_characters:
  assumes "process_mwi_event mem md = Inr (r, md')" "dial_only md"
  shows "dial_only md'"
proof -
  have ext: "account_extension ma = Some ext \<Longrightarrow> list_all c_isdigit ext" for ma ext
    by (auto simp: account_extension_def Let_def split: if_splits)
  obtain ma mw where s: "mwi_scan mem None None = Inr (ma, mw)"
    using assms(1) by (auto simp: process_mwi_event_def split: sum.splits)
  show ?thesis
  proof (cases "ma = None \<or> mw = None \<or> account_extension (the ma) = None")
    case True
    with assms s show ?thesis by (auto simp: process_mwi_event_def split: option.splits if_splits)
  next
    case False
    then obtain a w e where e: "ma = Some a" "mw = Some w" "account_extension a = Some e" by auto
    show ?thesis
      using assms s e modem_attempts_dial [OF _ ext [OF e(3)] assms(2)]
      by (auto simp: process_mwi_event_def Let_def split: if_splits)
  qed
qed

text \<open>An event of one byte makes the program read in front of the block.\<close>
theorem one_byte_event_crashes:
  assumes "delivers fd (''Content-Length: 1'' @ [LF] @ ''Content-Type: text/event-plain'' @ [LF, LF] @ [c] @ s)"
    "\<forall>n. malloc n" "0 < polls"
  shows "retrieve_message malloc \<lparr>ml_fd = fd, ml_polls = polls\<rparr> = Inl Out_Of_Bounds"
proof -
  let ?h = "''Content-Length: 1''" and ?t = "''Content-Type: text/event-plain''"
  have h: "clean ?h" "clean ?t" by (simp_all add: LF_def CR_def NUL_def)
  have l: "length ?h < 64" "length ?t < 64" by simp_all
  have "delivers fd (?h @ LF # (?t @ LF # (LF # [c] @ s)))" using assms(1) by simp
  then obtain fd1 where fd1: "read_line fd 64 = (Line ?h, fd1)" "delivers fd1 (?t @ LF # (LF # [c] @ s))"
    using h(1) l(1) by (rule read_line_lf)
  obtain fd2 where fd2: "read_line fd1 64 = (Line ?t, fd2)" "delivers fd2 (LF # [c] @ s)"
    by (rule read_line_lf [OF fd1(2) h(2) l(2)])
  obtain fd3 where fd3: "read_trailing_newline fd2 = (0, fd3)" "delivers fd3 ([c] @ s)"
    by (rule trailing_newline [OF fd2(2)])
  obtain fd4 where fd4: "read_body 1 [] fd3 = (Some [c], fd4)"
    using read_body_delivers [OF fd3(2), of 1 "[]"] by auto
  have "c_atoi ''1'' = 1" by code_simp
  then have "message_event malloc ?h ?t fd2 = (Inl Out_Of_Bounds, fd4)"
    using assms(2) fd3(1) fd4 by (simp add: message_event_def c_starts_with_def Let_def)
  with assms(3) fd1(1) fd2(1) show ?thesis by (simp add: retrieve_message_def c_starts_with_def)
qed

text \<open>
  The test for a malformed address never fires: \<open>INADDR_NONE\<close>, converted to the 64 bits of a \<open>long\<close>,
  is not -1, and the connection is made to the broadcast address instead.
\<close>
theorem bad_address_unnoticed:
  assumes "\<not> c_isalpha (c_at hostname 0)" "mn_socket net" "\<not> c_isalpha (c_at port 0)"
    "mn_inet_addr net hostname = 0xFFFFFFFF"
  shows "connect_to_service net hostname port = mn_connect net 0xFFFFFFFF (word_of_int (c_atoi port))"
  using assms by (simp add: connect_to_service_def mwi_address_def mwi_port_def)

text \<open>The option \<open>-l\<close> of the usage text is always refused: it is missing in the argument of \<open>getopt\<close>.\<close>
theorem device_option_refused:
  "mwi_main malloc beyond chr_device (''-l'' # device # args) st = Inr (1, st)"
proof -
  obtain os rest where "getopt_cluster ''dm:p:w:'' ''l'' (device # args) = ((CHR ''?'', []) # os, rest)"
    by (simp add: opt_known_def)
  then have "getopt_all ''dm:p:w:'' (''-l'' # device # args) = (CHR ''?'', []) # os @ getopt_all ''dm:p:w:'' rest"
    by (subst getopt_all.simps) simp
  then show ?thesis by (simp add: mwi_main_def mwi_getopt_def)
qed
subsection \<open>Witnesses\<close>

definition sample_lines :: "string list" where
  "sample_lines = [''Event-Name: MESSAGE_WAITING'', ''MWI-Messages-Waiting: yes'', ''MWI-Message-Account: 204%40pbx'']"

definition sample_modem :: fd_state where
  "sample_modem = \<lparr>fd_pieces = map Some [''AT'' @ [CR], [CR, LF], ''OK'', [CR, LF], [CR, LF] @ ''NO '', ''CARRIER'' @ [CR, LF]],
     fd_writes = [], fd_sent = []\<rparr>"

lemma sample_lines_lamp: "lamp_event sample_lines True ''204''"
proof -
  have "list_all (\<lambda>l. clean l \<and> l \<noteq> []) sample_lines"
    by (simp add: sample_lines_def LF_def CR_def NUL_def)
  moreover have "field_from ''MWI-Message-Account: '' None sample_lines = Some (''204'' @ ''%40'' @ ''pbx'')"
    "field_from ''MWI-Messages-Waiting: '' None sample_lines = Some ''yes''"
    by (simp_all add: sample_lines_def field_from_simps c_starts_with_def)
  moreover have "length (event_body sample_lines) < 2 ^ 31"
    by (simp add: sample_lines_def event_body_def)
  moreover have "list_all c_isdigit ''204''" by (simp add: c_isdigit_def char_int_def)
  moreover have "c_strcaseeq ''yes'' ''yes''" by (simp add: c_strcaseeq_def)
  ultimately show ?thesis unfolding lamp_event_def by auto
qed

lemma sample_modem_willing: "willing True ''204'' sample_modem"
proof -
  have "delivers sample_modem ((''AT'' @ [CR, CR, LF] @ ''OK'' @ [CR, LF]) @ ([CR, LF] @ ''NO CARRIER'' @ [CR, LF]))"
    unfolding sample_modem_def delivers_def
    by (rule exI [of _ "[''AT'' @ [CR], [CR, LF], ''OK'', [CR, LF], [CR, LF] @ ''NO '', ''CARRIER'' @ [CR, LF]]"]) simp
  moreover have "answers ''AT'' ''OK'' (''AT'' @ [CR, CR, LF] @ ''OK'' @ [CR, LF])"
    "answers (dial_command True ''204'') ''NO CARRIER'' ([CR, LF] @ ''NO CARRIER'' @ [CR, LF])"
    by (auto simp: answers_def)
  moreover have "fd_writes sample_modem = []" "fd_sent sample_modem = []" by (simp_all add: sample_modem_def)
  ultimately show ?thesis unfolding willing_def lamp_command_dial by blast
qed

definition sample_server :: "(string list \<times> bool \<times> string) list \<Rightarrow> fd_state" where
  "sample_server evs = \<lparr>fd_pieces = map Some [login_text, events_text evs], fd_writes = [], fd_sent = []\<rparr>"

definition sample_mwi_net :: "fd_state \<Rightarrow> mwi_net" where
  "sample_mwi_net fd = \<lparr>mn_socket = True, mn_gethostbyname = (\<lambda>h. Some (True, 0x7F000001)),
     mn_inet_addr = (\<lambda>h. 0xFFFFFFFF), mn_getservbyname = (\<lambda>p. None), mn_connect = (\<lambda>a p. Some fd)\<rparr>"

definition sample_state :: "(string list \<times> bool \<times> string) list \<Rightarrow> fd_state list \<Rightarrow> mwi_state" where
  "sample_state evs fds = \<lparr>ms_polls = length evs + 5, ms_nets = [sample_mwi_net (sample_server evs)],
     ms_modem = \<lparr>md_opens = map (\<lambda>fd. Some (fd, True)) fds, md_sent = []\<rparr>, ms_closed = [], ms_throttle = False\<rparr>"

lemma sample_no_options: "mwi_getopt [] = Some default_options"
  by (simp add: mwi_getopt_def getopt_all.simps)

lemma sample_connects: "next_conn default_options (sample_state evs fds) = Some (sample_server evs)"
  by (simp add: next_conn_def sample_state_def connect_to_service_def mwi_address_def mwi_port_def sample_mwi_net_def
      default_options_def c_at_def c_isalpha_def c_isupper_def c_islower_def char_int_def)

lemma login_text_not_Nil: "login_text \<noteq> []"
  by (simp add: login_text_def reply_text_def)

lemma sample_server_delivers:
  "events_text evs \<noteq> [] \<Longrightarrow> delivers (sample_server evs) (login_text @ events_text evs)"
  unfolding sample_server_def delivers_def
  by (rule exI [of _ "[login_text, events_text evs]"]) (use login_text_not_Nil in auto)


theorem event_read_past_end_witness:
  "process_mwi_event (event_body [''MWI-Messages-Waiting: yes'', ''MWI-Message-Account: 204%40pbx''])
     \<lparr>md_opens = [], md_sent = []\<rparr> = Inl Out_Of_Bounds"
  by (rule event_read_past_end) (simp add: event_body_def NUL_def LF_def)

lemma sample_modem_dial_only: "dial_only \<lparr>md_opens = [Some (sample_modem, True)], md_sent = []\<rparr>"
  by (simp add: dial_only_def sample_modem_def)

theorem only_dial_characters_witness:
  "dial_only \<lparr>md_opens = [], md_sent = [dialogue True ''204'']\<rparr>"
  by (rule only_dial_characters [OF _ sample_modem_dial_only])
    (use process_lamp_event [OF sample_lines_lamp sample_modem_willing, of "[]" "[]" "[]"] in simp)

theorem one_byte_event_crashes_witness:
  "retrieve_message (\<lambda>n. True) \<lparr>ml_fd = \<lparr>fd_pieces = [Some (''Content-Length: 1'' @ [LF] @
     ''Content-Type: text/event-plain'' @ [LF, LF, LF])], fd_writes = [], fd_sent = []\<rparr>, ml_polls = 1\<rparr> = Inl Out_Of_Bounds"
  by (rule one_byte_event_crashes [where c = LF and s = "[]"])
    (auto simp: delivers_def intro!: exI [of _ "[''Content-Length: 1'' @ [LF] @ ''Content-Type: text/event-plain'' @ [LF, LF, LF]]"])

theorem bad_address_unnoticed_witness:
  "connect_to_service (sample_mwi_net sample_modem) ''999.1.1.1'' ''8021'' = Some sample_modem"
proof -
  have "connect_to_service (sample_mwi_net sample_modem) ''999.1.1.1'' ''8021'' =
      mn_connect (sample_mwi_net sample_modem) 0xFFFFFFFF (word_of_int (c_atoi ''8021''))"
    by (rule bad_address_unnoticed)
      (simp_all add: sample_mwi_net_def c_at_def c_isalpha_def c_isupper_def c_islower_def char_int_def)
  then show ?thesis by (simp add: sample_mwi_net_def)
qed

end
