(* ===== verification/Esl2agi.thy ===== *)
theory Esl2agi
  imports Posix_Io
begin

text \<open>
  \<open>gled/esl2agi/esl2agi.c\<close>: runs an AGI script for a call that FreeSWITCH hands over its event
  socket.  A line of the script is taken apart into words, the words select a handler, the handler
  executes an application on the call, waits until it is complete and answers the script.

  The library \<open>esl\<close> is not part of the repository: what \<open>esl_execute\<close> returns and the events that
  \<open>esl_recv_event\<close> brings are fields of the handle, and so is what was executed.  The connection
  fails when there are no more events.  Allocations succeed.
\<close>

subsection \<open>Taking a line apart\<close>

text \<open>
  \<open>parse_args\<close> writes into the memory it reads: \<open>pa_out\<close> is what stands before \<open>cur\<close>, and \<open>pa_argv\<close> are
  the offsets stored in \<open>argv\<close>.
\<close>

record parse_state =
  pa_out :: string
  pa_argv :: "nat list"
  pa_quote :: bool
  pa_escaped :: bool
  pa_space :: bool

definition parse_start :: parse_state where
  "parse_start = \<lparr>pa_out = [], pa_argv = [], pa_quote = False, pa_escaped = False, pa_space = True\<rparr>"

text \<open>\<open>if (space) { argv[x++] = cur; space = 0; }\<close>\<close>

definition parse_open :: "parse_state \<Rightarrow> parse_state" where
  "parse_open st =
     (if pa_space st then st\<lparr>pa_argv := pa_argv st @ [length (pa_out st)], pa_space := False\<rparr> else st)"

text \<open>The label \<open>ok\<close>.\<close>

definition parse_char :: "char \<Rightarrow> parse_state \<Rightarrow> parse_state" where
  "parse_char c st =
     (let st1 = parse_open st in st1\<lparr>pa_out := pa_out st1 @ [c], pa_escaped := False\<rparr>)"

definition parse_step :: "char \<Rightarrow> parse_state \<Rightarrow> parse_state" where
  "parse_step c st =
     (if c = CHR 0x22
      then (if pa_escaped st then parse_char c st
            else let st1 = st\<lparr>pa_quote := \<not> pa_quote st\<rparr>;
                     st2 = (if pa_quote st1 then parse_open st1 else st1)
                 in st2\<lparr>pa_escaped := False\<rparr>)
      else if c = CHR '' '' \<or> c = CHR 0x09
      then (if \<not> pa_quote st \<and> \<not> pa_escaped st
            then st\<lparr>pa_space := True, pa_out := pa_out st @ [NUL]\<rparr>
            else parse_char c st)
      else if c = CHR 0x5C
      then (if pa_escaped st then parse_char c st else st\<lparr>pa_escaped := True\<rparr>)
      else parse_char c st)"

definition parse_run :: "string \<Rightarrow> parse_state" where
  "parse_run buf = fold parse_step buf parse_start"

text \<open>The words \<open>argv\<close> points to, and \<open>argc\<close> is their number.\<close>

definition parse_args :: "string \<Rightarrow> string list" where
  "parse_args buf =
     (let st = parse_run buf in map (buf_string (pa_out st @ [NUL])) (pa_argv st))"

subsection \<open>The call\<close>

record esl_event =
  ev_execute_complete :: bool
  ev_header :: "string \<Rightarrow> string option"

text \<open>What a receive brings: an event may be missing, and the connection may be gone after it.\<close>

datatype esl_recv = Recv_Fail | Recv "esl_event option" bool

record esl_handle =
  eh_connected :: bool
  eh_info :: esl_event
  eh_execute :: "bool list"
  eh_recv :: "esl_recv list"
  eh_last :: "esl_event option"
  eh_executed :: "(string \<times> string option) list"

text \<open>\<open>esl_execute\<close>; it succeeds when \<open>eh_execute\<close> says nothing.\<close>

definition esl_execute :: "esl_handle \<Rightarrow> string \<Rightarrow> string option \<Rightarrow> bool \<times> esl_handle" where
  "esl_execute eslC cmd args =
     (let e1 = eslC\<lparr>eh_executed := eh_executed eslC @ [(cmd, args)]\<rparr>
      in case eh_execute eslC of [] \<Rightarrow> (True, e1) | b # bs \<Rightarrow> (b, e1\<lparr>eh_execute := bs\<rparr>))"

text \<open>
  The loop of \<open>do_execute\<close> over the events: the result, \<open>last_ievent\<close>, and the events and the
  connection left.
\<close>

fun wait_complete ::
    "string \<Rightarrow> esl_event option \<Rightarrow> bool \<Rightarrow> esl_recv list \<Rightarrow> crash + int \<times> esl_event option \<times> bool \<times> esl_recv list" where
  "wait_complete cmd ev False rs = Inr (0, ev, False, rs)"
| "wait_complete cmd ev True [] = Inr (- 1, ev, True, [])"
| "wait_complete cmd ev True (Recv_Fail # rs) = Inr (- 1, ev, True, rs)"
| "wait_complete cmd ev True (Recv None conn # rs) = wait_complete cmd None conn rs"
| "wait_complete cmd ev True (Recv (Some e) conn # rs) =
     (if ev_execute_complete e
      then (case ev_header e ''Application'' of
              None \<Rightarrow> Inl Null_Deref
            | Some a \<Rightarrow>
                if c_strcaseeq cmd a then Inr (1, Some e, conn, rs) else wait_complete cmd (Some e) conn rs)
      else wait_complete cmd (Some e) conn rs)"

text \<open>The result, what is stored in \<open>*save_reply\<close>, and the call.\<close>

definition do_execute ::
    "esl_handle \<Rightarrow> string \<Rightarrow> string option \<Rightarrow> crash + int \<times> esl_event option \<times> esl_handle" where
  "do_execute eslC cmd args =
     (case esl_execute eslC cmd args of
        (False, e1) \<Rightarrow> Inr (- 1, None, e1)
      | (True, e1) \<Rightarrow>
          (case wait_complete cmd (eh_last e1) (eh_connected e1) (eh_recv e1) of
             Inl e \<Rightarrow> Inl e
           | Inr (done, ev, conn, rs) \<Rightarrow>
               Inr (done, if done < 0 then None else ev, e1\<lparr>eh_connected := conn, eh_recv := rs, eh_last := ev\<rparr>)))"

subsection \<open>Answers\<close>

text \<open>\<open>write(fd, buf, size)\<close> of the memory \<open>buf\<close>.\<close>

definition agi_write :: "fd_state \<Rightarrow> string \<Rightarrow> nat \<Rightarrow> crash + int \<times> fd_state" where
  "agi_write fd buf size1 =
     (if size1 > length buf then Inl Out_Of_Bounds else Inr (sys_write_count fd (take size1 buf)))"

definition result_text :: "int \<Rightarrow> string" where
  "result_text res = ''200 result='' @ c_int_text res @ [LF, LF]"

text \<open>\<open>safe_int_snprintf_buffer\<close> and the write of what it returns; two digits always fit.\<close>

definition answer_result :: "fd_state \<Rightarrow> int \<Rightarrow> crash + int \<times> fd_state" where
  "answer_result fd res =
     (let t = result_text res in agi_write fd (t @ [NUL]) (length t))"

text \<open>The text for the header, with its length, which is 0 when there is no header.\<close>

definition fill_buffer_from_header :: "esl_event \<Rightarrow> string \<Rightarrow> string \<Rightarrow> string \<Rightarrow> string option" where
  "fill_buffer_from_header event header before behind =
     (case ev_header event header of None \<Rightarrow> None | Some s \<Rightarrow> Some (before @ s @ behind))"

datatype setup_step = From_Header string string | Fixed string

definition setup_steps :: "setup_step list" where
  "setup_steps =
     [From_Header ''variable_ivr_path'' ''agi_request: '',
      From_Header ''variable_channel_name'' ''agi_channel: '',
      Fixed (''agi_language: en'' @ [LF]),
      From_Header ''Channel-Source'' ''agi_type: '',
      From_Header ''Channel-Unique-ID'' ''agi_uniqueid: '',
      From_Header ''Channel-Caller-ID-Number'' ''agi_callerid: '',
      From_Header ''Channel-Caller-ID-Name'' ''agi_calleridname: '',
      From_Header ''Channel-Screen-Bit'' ''agi_callingpres: '',
      From_Header ''Caller-Destination-Number'' ''agi_dnid: '',
      From_Header ''Channel-Context'' ''agi_context: '',
      From_Header ''Channel-Destination-Number'' ''agi_extension: '',
      Fixed (''agi_enhanced: 0.0'' @ [LF]),
      Fixed (''agi_accountcode: '' @ [LF]),
      Fixed [LF, LF]]"

fun run_setup :: "setup_step list \<Rightarrow> fd_state \<Rightarrow> esl_event \<Rightarrow> int \<times> fd_state" where
  "run_setup [] fd info = (0, fd)"
| "run_setup (From_Header h p # ss) fd info =
     (case fill_buffer_from_header info h p [LF] of
        None \<Rightarrow> (- 1, fd)
      | Some t \<Rightarrow>
          (case sys_write_count fd t of (r, fd1) \<Rightarrow> if r < 0 then (- 1, fd1) else run_setup ss fd1 info))"
| "run_setup (Fixed t # ss) fd info =
     (case sys_write_count fd t of (r, fd1) \<Rightarrow> if r < 0 then (- 1, fd1) else run_setup ss fd1 info)"

definition handle_setup_env :: "fd_state \<Rightarrow> esl_handle \<Rightarrow> int \<times> fd_state" where
  "handle_setup_env fd eslC = run_setup setup_steps fd (eh_info eslC)"

subsection \<open>The commands\<close>

text \<open>
  \<open>argv[i]\<close>: a word, the NULL behind them, or what the array holds where nothing was stored, which
  \<open>junk\<close> says.
\<close>

definition argv_at :: "(nat \<Rightarrow> string option) \<Rightarrow> string list \<Rightarrow> nat \<Rightarrow> string option" where
  "argv_at junk argv i =
     (if i < length argv then Some (argv ! i) else if i = length argv then None else junk i)"

text \<open>What a handler returns: its result, the call and the pipe to the script.\<close>

type_synonym handled = "crash + int \<times> esl_handle \<times> fd_state"

definition answer_with :: "esl_handle \<Rightarrow> fd_state \<Rightarrow> int \<Rightarrow> handled" where
  "answer_with eslC fd res =
     (case answer_result fd res of Inl e \<Rightarrow> Inl e | Inr (r, fd1) \<Rightarrow> Inr (r, eslC, fd1))"

text \<open>Executing an application and answering with the result.\<close>

definition execute_and_answer :: "esl_handle \<Rightarrow> fd_state \<Rightarrow> string \<Rightarrow> string option \<Rightarrow> handled" where
  "execute_and_answer eslC fd cmd args =
     (case do_execute eslC cmd args of
        Inl e \<Rightarrow> Inl e
      | Inr (res, _, e1) \<Rightarrow> answer_with e1 fd res)"

definition handle_answer :: "esl_handle \<Rightarrow> fd_state \<Rightarrow> handled" where
  "handle_answer eslC fd = execute_and_answer eslC fd ''answer'' None"

definition handle_hangup :: "esl_handle \<Rightarrow> fd_state \<Rightarrow> handled" where
  "handle_hangup eslC fd = execute_and_answer eslC fd ''hangup'' None"

definition handle_sipaddheader :: "esl_handle \<Rightarrow> fd_state \<Rightarrow> handled" where
  "handle_sipaddheader eslC fd = answer_with eslC fd (- 1)"

definition handle_dial :: "esl_handle \<Rightarrow> fd_state \<Rightarrow> handled" where
  "handle_dial eslC fd = Inr (0, eslC, fd)"

text \<open>\<open>*argc < 3 && *argc > 4\<close> is never true.\<close>

definition handle_set_caller_id ::
    "(nat \<Rightarrow> string option) \<Rightarrow> esl_handle \<Rightarrow> fd_state \<Rightarrow> nat \<Rightarrow> string list \<Rightarrow> handled" where
  "handle_set_caller_id junk eslC fd argc argv =
     (if argc < 3 \<and> argc > 4 then answer_with eslC fd (- 1)
      else case argv_at junk argv 2 of
             None \<Rightarrow> answer_with eslC fd (- 1)
           | Some n \<Rightarrow> execute_and_answer eslC fd ''set'' (Some (''origination_caller_id_number='' @ n)))"

text \<open>\<open>strstr(hay, needle) != NULL\<close>\<close>

definition c_contains :: "string \<Rightarrow> string \<Rightarrow> bool" where
  "c_contains hay needle \<longleftrightarrow>
     list_ex (\<lambda>i. take (length needle) (drop i hay) = needle) [0..<Suc (length hay)]"

definition handle_set_variable ::
    "(nat \<Rightarrow> string option) \<Rightarrow> esl_handle \<Rightarrow> fd_state \<Rightarrow> nat \<Rightarrow> string list \<Rightarrow> handled" where
  "handle_set_variable junk eslC fd argc argv =
     (if argc < 2 \<and> argc > 3 then answer_with eslC fd (- 1)
      else case argv_at junk argv 1 of
             None \<Rightarrow> Inl Null_Deref
           | Some a1 \<Rightarrow>
               if c_contains ''='' a1
               then (if c_contains ''('' a1 \<and> c_contains '')'' a1 then answer_with eslC fd (- 1)
                     else execute_and_answer eslC fd ''set'' (Some a1))
               else (case argv_at junk argv 2 of
                       None \<Rightarrow> answer_with eslC fd (- 1)
                     | Some a2 \<Rightarrow>
                         (case argv_at junk argv 3 of
                            None \<Rightarrow> answer_with eslC fd (- 1)
                          | Some a3 \<Rightarrow> execute_and_answer eslC fd ''set'' (Some (a2 @ ''='' @ a3)))))"

text \<open>
  \<open>GET DATA\<close>: \<open>buf\<close> has no value when the result is negative, so \<open>realloc\<close> gets a wild pointer; and
  otherwise the text is read from \<open>args\<close> after that was freed.
\<close>

definition handle_getdata ::
    "(nat \<Rightarrow> string option) \<Rightarrow> esl_handle \<Rightarrow> fd_state \<Rightarrow> nat \<Rightarrow> string list \<Rightarrow> handled" where
  "handle_getdata junk eslC fd argc argv =
     (if argc > 5 \<and> argc < 3 then Inl Wild_Pointer
      else case argv_at junk argv 2 of
             None \<Rightarrow> Inl Null_Deref
           | Some a2 \<Rightarrow>
               (let a3 = (case argv_at junk argv 3 of Some s \<Rightarrow> s | None \<Rightarrow> ''2000'');
                    a4 = (case argv_at junk argv 4 of Some s \<Rightarrow> s | None \<Rightarrow> ''9999'');
                    args = ''1 '' @ a4 @ '' 1 '' @ a3 @ '' # '' @ a2 @ '' invalid.wav play_get_digits_values '' @
                      [CHR 0x5C] @ ''d+*''
                in case do_execute eslC ''play_and_get_digits'' (Some args) of
                     Inl e \<Rightarrow> Inl e
                   | Inr (r, reply, e1) \<Rightarrow>
                       if r < 0 \<or> reply = None then Inl Wild_Pointer else Inl Use_After_Free))"

text \<open>\<open>STREAM FILE\<close>: the part behind the playback, with the answers of 128 and of 64 bytes.\<close>

definition stream_answer :: "esl_handle \<Rightarrow> fd_state \<Rightarrow> int \<Rightarrow> string \<Rightarrow> handled" where
  "stream_answer eslC fd offset dtmf =
     (if offset < 0
      then (case agi_write fd (''200 result=-1 endpos=0'' @ [LF, LF, NUL]) 128 of
              Inl e \<Rightarrow> Inl e
            | Inr (r, fd1) \<Rightarrow> Inr (if r < 0 then - 1 else 0, eslC, fd1))
      else let t = ''200 result='' @ dtmf @ '' endpos='' @ c_int_text offset @ [LF, LF]
           in case agi_write fd (fst (c_snprintf (replicate 65 NUL) 0 64 t)) 64 of
                Inl e \<Rightarrow> Inl e
              | Inr (r, fd1) \<Rightarrow> Inr (if r < 0 then - 1 else 0, eslC, fd1))"

definition stream_result :: "esl_event \<Rightarrow> int \<times> string" where
  "stream_result reply =
     (let samples = fill_buffer_from_header reply ''variable_playback_samples'' [] [];
          term = fill_buffer_from_header reply ''variable_playback_terminator_used'' [] []
      in (case samples of None \<Rightarrow> 0 | Some s \<Rightarrow> if s = [] then 0 else c_atoi s,
          case term of None \<Rightarrow> ''0'' | Some s \<Rightarrow> if s = [] then ''0'' else take 1 s))"

text \<open>The \<open>snprintf\<close> into 22 characters; the result of setting the terminators is not looked at.\<close>

definition set_terminators :: "esl_handle \<Rightarrow> string \<Rightarrow> crash + esl_handle" where
  "set_terminators eslC a3 =
     (let buf = fst (c_snprintf (replicate (length a3 + 22) NUL) 0 22 (''playback_terminators='' @ a3))
      in case do_execute eslC ''set'' (Some (buf_string buf 0)) of
           Inl e \<Rightarrow> Inl e
         | Inr (_, _, e1) \<Rightarrow> Inr e1)"

definition handle_streamfile ::
    "(nat \<Rightarrow> string option) \<Rightarrow> esl_handle \<Rightarrow> fd_state \<Rightarrow> nat \<Rightarrow> string list \<Rightarrow> handled" where
  "handle_streamfile junk eslC fd argc argv =
     (if argc < 3 \<or> argc > 5 then stream_answer eslC fd (- 1) ''0''
      else case (case argv_at junk argv 3 of
                   Some a3 \<Rightarrow>
                     if map c_tolower (take 2 a3) \<noteq> [CHR 0x22, CHR 0x22] then set_terminators eslC a3 else Inr eslC
                 | None \<Rightarrow> Inr eslC) of
             Inl e \<Rightarrow> Inl e
           | Inr e1 \<Rightarrow>
               (let offset = (case argv_at junk argv 4 of Some a4 \<Rightarrow> c_atoi a4 | None \<Rightarrow> 0)
                in case argv_at junk argv 2 of
                     None \<Rightarrow> Inl Null_Deref
                   | Some a2 \<Rightarrow>
                       (case do_execute e1 ''playback''
                               (Some (if offset > 0 then a2 @ ''@@'' @ c_int_text offset else a2)) of
                          Inl e \<Rightarrow> Inl e
                        | Inr (r, reply, e2) \<Rightarrow>
                            if r < 0 then stream_answer e2 fd (- 1) ''0''
                            else (case reply of
                                    None \<Rightarrow> stream_answer e2 fd (- 1) ''0''
                                  | Some rp \<Rightarrow>
                                      (case stream_result rp of (off1, dtmf) \<Rightarrow> stream_answer e2 fd off1 dtmf)))))"

subsection \<open>Bindings\<close>

datatype agi_handler = H_answer | H_hangup | H_streamfile | H_set_caller_id | H_set_variable | H_exec | H_getdata
  | H_dial | H_sipaddheader

definition bindings :: "(string list \<times> agi_handler) list" where
  "bindings =
     [([''ANSWER''], H_answer), ([''HANGUP''], H_hangup), ([''STREAM'', ''FILE''], H_streamfile),
      ([''SET'', ''CALLERID''], H_set_caller_id), ([''SET'', ''VARIABLE''], H_set_variable),
      ([''EXEC''], H_exec), ([''GET'', ''DATA''], H_getdata)]"

definition exec_bindings :: "(string list \<times> agi_handler) list" where
  "exec_bindings = [([''DIAL''], H_dial), ([''SET''], H_set_variable), ([''SIPADDHEADER''], H_sipaddheader)]"

text \<open>The loop over the words of one binding.\<close>

fun binding_matches :: "string list \<Rightarrow> string list \<Rightarrow> bool" where
  "binding_matches [] cmd = True"
| "binding_matches (b # bs) [] = False"
| "binding_matches (b # bs) (c # cs) \<longleftrightarrow> c_strcaseeq b c \<and> binding_matches bs cs"

definition find_in :: "(string list \<times> agi_handler) list \<Rightarrow> string list \<Rightarrow> agi_handler option" where
  "find_in bs cmd = map_option snd (find (\<lambda>(ws, h). binding_matches ws cmd) bs)"

definition find_binding :: "string list \<Rightarrow> agi_handler option" where
  "find_binding cmd = find_in bindings cmd"

definition find_app_binding :: "string list \<Rightarrow> agi_handler option" where
  "find_app_binding cmd = find_in exec_bindings cmd"

definition find_and_exec_app ::
    "(nat \<Rightarrow> string option) \<Rightarrow> esl_handle \<Rightarrow> fd_state \<Rightarrow> nat \<Rightarrow> string list \<Rightarrow> handled" where
  "find_and_exec_app junk eslC fd argc argv =
     (case find_app_binding argv of
        Some H_dial \<Rightarrow> handle_dial eslC fd
      | Some H_set_variable \<Rightarrow> handle_set_variable junk eslC fd argc argv
      | Some H_sipaddheader \<Rightarrow> handle_sipaddheader eslC fd
      | _ \<Rightarrow> Inr (- 1, eslC, fd))"

definition MAX_CMD_ARGS :: nat where "MAX_CMD_ARGS = 128"

text \<open>\<open>argc\<close> words, without the first one but with the NULL, are copied to an array of \<open>_MAX_CMD_ARGS\<close>.\<close>

definition handle_exec ::
    "(nat \<Rightarrow> string option) \<Rightarrow> esl_handle \<Rightarrow> fd_state \<Rightarrow> nat \<Rightarrow> string list \<Rightarrow> handled" where
  "handle_exec junk eslC fd argc args =
     (if argc > MAX_CMD_ARGS then Inl Out_Of_Bounds else find_and_exec_app junk eslC fd argc (tl args))"

definition find_and_exec_command ::
    "(nat \<Rightarrow> string option) \<Rightarrow> esl_handle \<Rightarrow> fd_state \<Rightarrow> string \<Rightarrow> handled" where
  "find_and_exec_command junk eslC fd buf =
     (let argv = parse_args buf; argc = length argv
      in if argc + 1 > 1024 then Inl Out_Of_Bounds
         else case find_binding argv of
                None \<Rightarrow> Inr (- 1, eslC, fd)
              | Some H_answer \<Rightarrow> handle_answer eslC fd
              | Some H_hangup \<Rightarrow> handle_hangup eslC fd
              | Some H_streamfile \<Rightarrow> handle_streamfile junk eslC fd argc argv
              | Some H_set_caller_id \<Rightarrow> handle_set_caller_id junk eslC fd argc argv
              | Some H_set_variable \<Rightarrow> handle_set_variable junk eslC fd argc argv
              | Some H_exec \<Rightarrow> handle_exec junk eslC fd argc argv
              | Some H_getdata \<Rightarrow> handle_getdata junk eslC fd argc argv
              | Some _ \<Rightarrow> Inr (- 1, eslC, fd))"

subsection \<open>The conversation with the script\<close>

text \<open>
  The loop of \<open>esl2agi_thread\<close> over what the script writes: a piece is what one \<open>read\<close> of up to 2047
  bytes gets, \<open>None\<close> an error of \<open>select\<close> or \<open>read\<close>, both of which leave the loop, and the end of the
  list the end of the script's output, for which \<open>read\<close> returns 0 and the byte before \<open>sbuf\<close> is
  written.
\<close>

fun agi_loop ::
    "(nat \<Rightarrow> string option) \<Rightarrow> esl_handle \<Rightarrow> fd_state \<Rightarrow> string option list \<Rightarrow> crash + esl_handle \<times> fd_state" where
  "agi_loop junk eslC fd [] = (if \<not> eh_connected eslC then Inr (eslC, fd) else Inl Out_Of_Bounds)"
| "agi_loop junk eslC fd (None # ps) = Inr (eslC, fd)"
| "agi_loop junk eslC fd (Some sbuf # ps) =
     (if \<not> eh_connected eslC then Inr (eslC, fd)
      else if sbuf = [] then Inl Out_Of_Bounds
      else case find_and_exec_command junk eslC fd (buf_string (butlast sbuf) 0) of
             Inl e \<Rightarrow> Inl e
           | Inr (r, e1, fd1) \<Rightarrow> if r < 0 then Inr (e1, fd1) else agi_loop junk e1 fd1 ps)"

text \<open>The thread, once its pipes and the script are there; without \<open>ivr_path\<close> it does nothing.\<close>

definition esl2agi_thread ::
    "(nat \<Rightarrow> string option) \<Rightarrow> esl_handle \<Rightarrow> fd_state \<Rightarrow> string option list \<Rightarrow> crash + esl_handle \<times> fd_state" where
  "esl2agi_thread junk eslC fd pieces =
     (if ev_header (eh_info eslC) ''variable_ivr_path'' = None then Inr (eslC, fd)
      else case agi_loop junk eslC (snd (handle_setup_env fd eslC)) pieces of
             Inl e \<Rightarrow> Inl e
           | Inr (e1, fd1) \<Rightarrow>
               Inr (if eh_connected e1 then snd (esl_execute e1 ''hangup'' None) else e1, fd1))"

text \<open>The options of \<open>main\<close>; a value is looked at once more as an option.\<close>

fun agi_options :: "string list \<Rightarrow> string option \<Rightarrow> int \<Rightarrow> string option \<times> int" where
  "agi_options (a # b # args) ip port =
     (if c_strcaseeq a ''-h'' then agi_options (b # args) (Some b) port
      else if c_strcaseeq a ''-p'' then agi_options (b # args) ip (c_atoi b)
      else agi_options (b # args) ip port)"
| "agi_options _ ip port = (ip, port)"

text \<open>What \<open>main\<close> listens on, or \<open>None\<close> when it returns at once.\<close>

definition agi_main :: "string list \<Rightarrow> (string \<times> int) option" where
  "agi_main args =
     (case agi_options args None 0 of
        (Some ip, port) \<Rightarrow> if port \<noteq> 0 then Some (ip, port) else None
      | (None, port) \<Rightarrow> None)"
subsection \<open>Words are read back\<close>

definition quote_char :: "char \<Rightarrow> string" where
  "quote_char c = (if c = CHR 0x22 \<or> c = CHR 0x5C then [CHR 0x5C, c] else [c])"

definition quote_word :: "string \<Rightarrow> string" where
  "quote_word a = CHR 0x22 # concat (map quote_char a) @ [CHR 0x22]"

definition plain_char :: "char \<Rightarrow> bool" where
  "plain_char c \<longleftrightarrow> c \<noteq> CHR 0x22 \<and> c \<noteq> CHR 0x5C \<and> c \<noteq> CHR '' '' \<and> c \<noteq> CHR 0x09"

text \<open>How a word may be written: quoted, or as it is when it is plain.\<close>

definition written_as :: "string \<Rightarrow> string \<Rightarrow> bool" where
  "written_as r a \<longleftrightarrow> NUL \<notin> set a \<and> (r = quote_word a \<or> r = a \<and> a \<noteq> [] \<and> list_all plain_char a)"

fun agi_line :: "string list \<Rightarrow> string" where
  "agi_line [] = []"
| "agi_line [r] = r"
| "agi_line (r # rs) = r @ CHR '' '' # agi_line rs"

text \<open>Between two words, and behind one.\<close>

definition between :: "parse_state \<Rightarrow> bool" where
  "between st \<longleftrightarrow> \<not> pa_quote st \<and> \<not> pa_escaped st \<and> pa_space st"

lemma fold_quoted:
  assumes "pa_quote st" "\<not> pa_escaped st" "\<not> pa_space st"
  shows "fold parse_step (concat (map quote_char a)) st = st\<lparr>pa_out := pa_out st @ a\<rparr>"
  using assms
proof (induction a arbitrary: st)
  case (Cons c a)
  have "fold parse_step (quote_char c) st = st\<lparr>pa_out := pa_out st @ [c]\<rparr>"
    using Cons.prems by (cases st) (auto simp: quote_char_def parse_step_def parse_char_def parse_open_def Let_def)
  with Cons show ?case by simp
qed simp

lemma fold_plain:
  assumes "\<not> pa_quote st" "\<not> pa_escaped st" "\<not> pa_space st" "list_all plain_char a"
  shows "fold parse_step a st = st\<lparr>pa_out := pa_out st @ a\<rparr>"
  using assms
proof (induction a arbitrary: st)
  case (Cons c a)
  have "parse_step c st = st\<lparr>pa_out := pa_out st @ [c]\<rparr>"
    using Cons.prems by (cases st) (auto simp: plain_char_def parse_step_def parse_char_def parse_open_def Let_def)
  with Cons show ?case by simp
qed simp

lemma fold_word:
  assumes "between st" "written_as r a"
  shows "fold parse_step r st =
    st\<lparr>pa_out := pa_out st @ a, pa_argv := pa_argv st @ [length (pa_out st)], pa_space := False\<rparr>"
proof (cases "r = quote_word a")
  case True
  let ?st = "st\<lparr>pa_quote := True, pa_argv := pa_argv st @ [length (pa_out st)], pa_space := False, pa_escaped := False\<rparr>"
  have "parse_step (CHR 0x22) st = ?st"
    using assms(1) by (simp add: between_def parse_step_def parse_open_def)
  moreover have "fold parse_step (concat (map quote_char a)) ?st = ?st\<lparr>pa_out := pa_out ?st @ a\<rparr>"
    by (rule fold_quoted) simp_all
  moreover have "parse_step (CHR 0x22) (?st\<lparr>pa_out := pa_out ?st @ a\<rparr>) = ?st\<lparr>pa_out := pa_out ?st @ a, pa_quote := False\<rparr>"
    by (simp add: parse_step_def)
  ultimately show ?thesis
    using assms(1) True by (cases st) (simp add: quote_word_def between_def)
next
  case False
  with assms(2) obtain c b where a: "r = a" "a = c # b" "list_all plain_char b" "plain_char c"
    by (cases a) (auto simp: written_as_def)
  let ?st = "st\<lparr>pa_out := pa_out st @ [c], pa_argv := pa_argv st @ [length (pa_out st)], pa_space := False, pa_escaped := False\<rparr>"
  have "parse_step c st = ?st"
    using assms(1) a(4) by (auto simp: between_def plain_char_def parse_step_def parse_char_def parse_open_def Let_def)
  moreover have "fold parse_step b ?st = ?st\<lparr>pa_out := pa_out ?st @ b\<rparr>"
    by (rule fold_plain) (use assms(1) a in \<open>simp_all add: between_def\<close>)
  ultimately show ?thesis
    using assms(1) a(1,2) by (cases st) (simp add: between_def)
qed

lemma buf_string_word: "NUL \<notin> set a \<Longrightarrow> buf_string (out @ a @ NUL # rest) (length out) = a"
proof -
  assume "NUL \<notin> set a"
  then have "takeWhile (\<lambda>c. c \<noteq> NUL) (a @ NUL # rest) = a" by (subst takeWhile_append2) auto
  then show ?thesis by (simp add: buf_string_def)
qed

lemma fold_line:
  assumes "list_all2 written_as rs as" "between st"
  shows "\<exists>out offs. pa_out (fold parse_step (agi_line rs) st) = pa_out st @ out \<and>
    pa_argv (fold parse_step (agi_line rs) st) = pa_argv st @ offs \<and>
    (\<forall>rest. map (buf_string (pa_out st @ out @ NUL # rest)) offs = as)"
  using assms
proof (induction rs arbitrary: as st rule: agi_line.induct)
  case 1
  then show ?case by (intro exI [of _ "[]"]) simp
next
  case (2 r)
  then obtain a where a: "as = [a]" "written_as r a" by (auto simp: list_all2_Cons1)
  with fold_word [OF 2(2) a(2)] show ?case
    by (intro exI [of _ a] exI [of _ "[length (pa_out st)]"])
      (simp add: buf_string_word written_as_def)
next
  case (3 r r' rs)
  then obtain a bs where a: "as = a # bs" "written_as r a" "list_all2 written_as (r' # rs) bs"
    by (auto simp: list_all2_Cons1)
  let ?st = "st\<lparr>pa_out := pa_out st @ a @ [NUL], pa_argv := pa_argv st @ [length (pa_out st)], pa_space := True\<rparr>"
  have "parse_step (CHR '' '') (fold parse_step r st) = ?st"
    using 3(3) by (simp add: fold_word [OF 3(3) a(2)] parse_step_def between_def)
  then have f: "fold parse_step (agi_line (r # r' # rs)) st = fold parse_step (agi_line (r' # rs)) ?st" by simp
  have "between ?st" using 3(3) by (simp add: between_def)
  from 3(1) [OF a(3) this] obtain out offs where
    o: "pa_out (fold parse_step (agi_line (r' # rs)) ?st) = (pa_out st @ a @ [NUL]) @ out"
      "pa_argv (fold parse_step (agi_line (r' # rs)) ?st) = (pa_argv st @ [length (pa_out st)]) @ offs"
      "\<forall>rest. map (buf_string ((pa_out st @ a @ [NUL]) @ out @ NUL # rest)) offs = bs"
    by auto
  have "buf_string (pa_out st @ a @ NUL # out @ NUL # rest) (length (pa_out st)) = a" for rest
    using a(2) by (intro buf_string_word) (simp add: written_as_def)
  with o a(1) f show ?case
    by (intro exI [of _ "a @ [NUL] @ out"] exI [of _ "length (pa_out st) # offs"]) simp
qed

lemma parse_line:
  assumes "list_all2 written_as rs as"
  shows "parse_args (agi_line rs) = as"
proof -
  have "between parse_start" by (simp add: between_def parse_start_def)
  from fold_line [OF assms this] obtain out offs where
    "pa_out (parse_run (agi_line rs)) = out" "pa_argv (parse_run (agi_line rs)) = offs"
    "map (buf_string (out @ NUL # [])) offs = as"
    by (auto simp: parse_run_def parse_start_def)
  then show ?thesis by (simp add: parse_args_def)
qed

text \<open>
  C7:A line of words, each quoted or plain, is taken apart into exactly those words, whatever
  characters but NUL a quoted word holds.
\<close>
theorem agi_words_roundtrip:
  assumes "list_all2 written_as rs as"
  shows "parse_args (agi_line rs) = as"
  by (rule parse_line [OF assms])

subsection \<open>The bounds of the arrays\<close>

lemma parse_run_snoc: "parse_run (buf @ [c]) = parse_step c (parse_run buf)"
  by (simp add: parse_run_def)

lemma parse_run_bounds:
  "length (pa_out (parse_run buf)) \<le> length buf \<and>
   2 * length (pa_argv (parse_run buf)) \<le> length buf + (if pa_space (parse_run buf) then 0 else 1)"
proof (induction buf rule: rev_induct)
  case Nil
  show ?case by (simp add: parse_run_def parse_start_def)
next
  case (snoc c buf)
  then show ?case
    by (auto simp: parse_run_snoc parse_step_def parse_char_def parse_open_def Let_def)
qed

text \<open>
  C30:Whatever a script writes in one read of at most 2047 bytes, the words and the NULL behind them
  fit the array of 1024 pointers, and the memory written is behind what was read already: the
  check of the model for the array never fires.
\<close>
theorem agi_words_in_bounds:
  assumes "length sbuf \<le> 2047"
  shows "length (parse_args (buf_string (butlast sbuf) 0)) + 1 \<le> 1024 \<and>
    length (pa_out (parse_run (buf_string (butlast sbuf) 0))) + 1 \<le> length (buf_string (butlast sbuf) 0) + 1"
proof -
  have "length (buf_string (butlast sbuf) 0) \<le> length (butlast sbuf)"
    unfolding buf_string_def drop_0 by (rule length_takeWhile_le)
  also have "\<dots> \<le> 2046" using assms by simp
  finally have "length (buf_string (butlast sbuf) 0) \<le> 2046" .
  with parse_run_bounds [of "buf_string (butlast sbuf) 0"] show ?thesis
    by (auto simp: parse_args_def Let_def split: if_splits)
qed
subsection \<open>Setting variables\<close>

definition completes :: "string \<Rightarrow> esl_recv \<Rightarrow> bool" where
  "completes cmd r \<longleftrightarrow> (\<exists>e a. r = Recv (Some e) True \<and> ev_execute_complete e \<and>
     ev_header e ''Application'' = Some a \<and> c_strcaseeq cmd a)"

lemma do_execute_completes:
  assumes "eh_connected eslC" "eh_execute eslC = []" "eh_recv eslC = r # rs" "completes cmd r"
  shows "\<exists>e. do_execute eslC cmd args =
    Inr (1, Some e, eslC\<lparr>eh_executed := eh_executed eslC @ [(cmd, args)], eh_recv := rs, eh_last := Some e\<rparr>)"
  using assms by (cases eslC) (auto simp: do_execute_def esl_execute_def completes_def)

lemma answer_all:
  "fd_writes fd = [] \<Longrightarrow>
   answer_with eslC fd res = Inr (int (length (result_text res)), eslC, fd\<lparr>fd_sent := fd_sent fd @ result_text res\<rparr>)"
  by (simp add: answer_with_def answer_result_def agi_write_def sys_write_count_def Let_def)

lemma variable_no_equals: "\<not> c_contains ''='' ''VARIABLE''"
  by (simp add: c_contains_def upt_rec)

lemma set_variable_binding: "find_binding [''SET'', ''VARIABLE'', n, v] = Some H_set_variable"
  by (simp add: find_binding_def find_in_def bindings_def c_strcaseeq_def c_tolower_def c_isupper_def char_int_def)

lemma set_variable_argv:
  "argv_at junk [''SET'', ''VARIABLE'', n, v] 1 = Some ''VARIABLE''"
  "argv_at junk [''SET'', ''VARIABLE'', n, v] 2 = Some n"
  "argv_at junk [''SET'', ''VARIABLE'', n, v] 3 = Some v"
  by (simp_all add: argv_at_def)

text \<open>A line of the script that sets \<open>n\<close> to \<open>v\<close>, in any way to write the words.\<close>

definition sets_variable :: "string \<Rightarrow> string \<Rightarrow> string option \<Rightarrow> bool" where
  "sets_variable n v p \<longleftrightarrow>
     (\<exists>rs. list_all2 written_as rs [''SET'', ''VARIABLE'', n, v] \<and> NUL \<notin> set (agi_line rs) \<and>
       p = Some (agi_line rs @ [LF]))"

lemma exec_set_variable:
  assumes "list_all2 written_as rs [''SET'', ''VARIABLE'', n, v]"
    "eh_connected eslC" "eh_execute eslC = []" "eh_recv eslC = r # evs" "completes ''set'' r" "fd_writes fd = []"
  shows "\<exists>e. find_and_exec_command junk eslC fd (agi_line rs) =
    Inr (int (length (result_text 1)),
      eslC\<lparr>eh_executed := eh_executed eslC @ [(''set'', Some (n @ ''='' @ v))], eh_recv := evs, eh_last := Some e\<rparr>,
      fd\<lparr>fd_sent := fd_sent fd @ result_text 1\<rparr>)"
proof -
  obtain e where e: "do_execute eslC ''set'' (Some (n @ ''='' @ v)) =
      Inr (1, Some e, eslC\<lparr>eh_executed := eh_executed eslC @ [(''set'', Some (n @ ''='' @ v))],
        eh_recv := evs, eh_last := Some e\<rparr>)"
    using do_execute_completes [OF assms(2-5)] by blast
  have "handle_set_variable junk eslC fd 4 [''SET'', ''VARIABLE'', n, v] =
      execute_and_answer eslC fd ''set'' (Some (n @ ''='' @ v))"
    unfolding handle_set_variable_def set_variable_argv by (simp add: variable_no_equals)
  also have "\<dots> = Inr (int (length (result_text 1)),
      eslC\<lparr>eh_executed := eh_executed eslC @ [(''set'', Some (n @ ''='' @ v))], eh_recv := evs, eh_last := Some e\<rparr>,
      fd\<lparr>fd_sent := fd_sent fd @ result_text 1\<rparr>)"
    unfolding execute_and_answer_def e using answer_all [OF assms(6)] by simp
  finally have h: "handle_set_variable junk eslC fd 4 [''SET'', ''VARIABLE'', n, v] = \<dots>" .
  have "find_and_exec_command junk eslC fd (agi_line rs) =
      handle_set_variable junk eslC fd 4 [''SET'', ''VARIABLE'', n, v]"
    unfolding find_and_exec_command_def parse_line [OF assms(1)] Let_def set_variable_binding
    by (simp add: numeral_eq_Suc)
  with h show ?thesis by auto
qed

lemma agi_loop_sets:
  assumes "list_all2 (\<lambda>(n, v) p. sets_variable n v p) nvs ps" "eh_connected eslC" "eh_execute eslC = []"
    "eh_recv eslC = evs" "list_all2 (\<lambda>nv r. completes ''set'' r) nvs evs" "fd_writes fd = []"
  shows "\<exists>e. agi_loop junk eslC fd (ps @ [None]) =
    Inr (eslC\<lparr>eh_executed := eh_executed eslC @ map (\<lambda>(n, v). (''set'', Some (n @ ''='' @ v))) nvs,
           eh_recv := [], eh_last := e\<rparr>,
      fd\<lparr>fd_sent := fd_sent fd @ concat (map (\<lambda>nv. result_text 1) nvs)\<rparr>)"
  using assms
proof (induction nvs arbitrary: ps eslC fd evs)
  case Nil
  then show ?case by (intro exI [of _ "eh_last eslC"]) (cases eslC, cases fd, simp)
next
  case (Cons nv nvs)
  obtain n v where nv: "nv = (n, v)" by (cases nv)
  from Cons.prems(1) nv obtain p ps1 where ps: "ps = p # ps1" "sets_variable n v p"
    "list_all2 (\<lambda>(n, v) p. sets_variable n v p) nvs ps1"
    by (auto simp: list_all2_Cons1)
  from Cons.prems(5) obtain r evs1 where r: "evs = r # evs1" "completes ''set'' r"
    "list_all2 (\<lambda>nv r. completes ''set'' r) nvs evs1"
    by (auto simp: list_all2_Cons1)
  from ps(2) obtain rs where rs: "list_all2 written_as rs [''SET'', ''VARIABLE'', n, v]"
    "NUL \<notin> set (agi_line rs)" "p = Some (agi_line rs @ [LF])"
    by (auto simp: sets_variable_def)
  have t: "takeWhile (\<lambda>c. c \<noteq> NUL) (agi_line rs) = agi_line rs"
    using rs(2) by (intro takeWhile_eq_all_conv [THEN iffD2]) auto
  have b: "buf_string (butlast (agi_line rs @ [LF])) 0 = agi_line rs"
    unfolding buf_string_def drop_0 butlast_snoc by (rule t)
  obtain e where e: "find_and_exec_command junk eslC fd (agi_line rs) =
    Inr (int (length (result_text 1)),
      eslC\<lparr>eh_executed := eh_executed eslC @ [(''set'', Some (n @ ''='' @ v))], eh_recv := evs1, eh_last := Some e\<rparr>,
      fd\<lparr>fd_sent := fd_sent fd @ result_text 1\<rparr>)"
    using exec_set_variable [OF rs(1) Cons.prems(2,3) _ r(2) Cons.prems(6)] Cons.prems(4) r(1) by blast
  let ?e1 = "eslC\<lparr>eh_executed := eh_executed eslC @ [(''set'', Some (n @ ''='' @ v))], eh_recv := evs1, eh_last := Some e\<rparr>"
  let ?fd1 = "fd\<lparr>fd_sent := fd_sent fd @ result_text 1\<rparr>"
  have "agi_loop junk eslC fd (ps @ [None]) = agi_loop junk ?e1 ?fd1 (ps1 @ [None])"
    using Cons.prems(2) b e by (simp add: ps(1) rs(3))
  moreover have "\<exists>e'. agi_loop junk ?e1 ?fd1 (ps1 @ [None]) =
    Inr (?e1\<lparr>eh_executed := eh_executed ?e1 @ map (\<lambda>(n, v). (''set'', Some (n @ ''='' @ v))) nvs,
           eh_recv := [], eh_last := e'\<rparr>,
      ?fd1\<lparr>fd_sent := fd_sent ?fd1 @ concat (map (\<lambda>nv. result_text 1) nvs)\<rparr>)"
    by (rule Cons.IH [OF ps(3) _ _ _ r(3)]) (use Cons.prems(2,3,6) in simp_all)
  ultimately show ?case by (auto simp: nv)
qed

text \<open>
  C29:A script that sets any number of variables, each in a line of its own whose words are written
  quoted or plain: the application \<open>set\<close> is executed for each of them in their order, with exactly
  the name and the value, and each line is answered.
\<close>
theorem agi_sets_variables:
  assumes "list_all2 (\<lambda>(n, v) p. sets_variable n v p) nvs ps" "eh_connected eslC" "eh_execute eslC = []"
    "list_all2 (\<lambda>nv r. completes ''set'' r) nvs (eh_recv eslC)" "fd_writes fd = []"
  shows "\<exists>e1 fd1. agi_loop junk eslC fd (ps @ [None]) = Inr (e1, fd1) \<and>
    eh_executed e1 = eh_executed eslC @ map (\<lambda>(n, v). (''set'', Some (n @ ''='' @ v))) nvs \<and>
    fd_sent fd1 = fd_sent fd @ concat (map (\<lambda>nv. ''200 result=1'' @ [LF, LF]) nvs)"
proof -
  have "result_text 1 = ''200 result=1'' @ [LF, LF]" unfolding result_text_def by code_simp
  with agi_loop_sets [OF assms(1-3) refl assms(4,5), of junk] show ?thesis by auto
qed

subsection \<open>Errors\<close>

text \<open>A line of the script that no command is bound to ends the call: nothing is answered, the loop is
  left, and the thread hangs up.\<close>
theorem unknown_command_hangs_up:
  assumes "find_binding (parse_args (buf_string (butlast sbuf) 0)) = None" "sbuf \<noteq> []" "length sbuf \<le> 2047"
    "eh_connected eslC" "ev_header (eh_info eslC) ''variable_ivr_path'' \<noteq> None" "eh_execute eslC = []"
  shows "\<exists>fd1. esl2agi_thread junk eslC fd (Some sbuf # ps) =
    Inr (eslC\<lparr>eh_executed := eh_executed eslC @ [(''hangup'', None)]\<rparr>, fd1)"
proof -
  have "length (parse_args (buf_string (butlast sbuf) 0)) + 1 \<le> 1024"
  proof -
    have "length (buf_string (butlast sbuf) 0) \<le> length (butlast sbuf)"
      unfolding buf_string_def drop_0 by (rule length_takeWhile_le)
    with parse_run_bounds [of "buf_string (butlast sbuf) 0"] assms(3) show ?thesis
      by (auto simp: parse_args_def Let_def split: if_splits)
  qed
  with assms have "find_and_exec_command junk eslC fd' (buf_string (butlast sbuf) 0) = Inr (- 1, eslC, fd')" for fd'
    by (simp add: find_and_exec_command_def Let_def)
  with assms show ?thesis by (auto simp: esl2agi_thread_def esl_execute_def Let_def)
qed

text \<open>\<open>GET DATA\<close> never answers: in every case the handler uses memory that is freed or was never set.\<close>
theorem get_data_never_answers:
  assumes "find_binding (parse_args buf) = Some H_getdata"
  shows "\<exists>e. find_and_exec_command junk eslC fd buf = Inl e"
proof -
  have "\<exists>e. handle_getdata junk eslC fd argc argv = Inl e" for argc argv
    by (auto simp: handle_getdata_def Let_def split: option.split sum.split)
  then show ?thesis using assms by (simp add: find_and_exec_command_def Let_def)
qed

text \<open>The terminators of \<open>STREAM FILE\<close> are lost: whatever they are, the variable is set to an empty text.\<close>
theorem terminators_lost:
  "set_terminators eslC a3 =
    (case do_execute eslC ''set'' (Some ''playback_terminators='') of
       Inl e \<Rightarrow> Inl e
     | Inr (_, _, e1) \<Rightarrow> Inr e1)"
proof -
  have t: "take 21 (''playback_terminators='' @ a3) = ''playback_terminators=''" by simp
  have "buf_string (fst (c_snprintf (replicate (length a3 + 22) NUL) 0 22 (''playback_terminators='' @ a3))) 0 =
      ''playback_terminators=''"
    unfolding c_snprintf_def buf_write_def buf_string_def using t by (simp add: NUL_def)
  then show ?thesis unfolding set_terminators_def Let_def by (simp only:)
qed
subsection \<open>Witnesses\<close>

lemma sample_words: "list_all2 written_as [''SET'', ''VARIABLE'', ''name'', quote_word ''a b''] [''SET'', ''VARIABLE'', ''name'', ''a b'']"
  by (simp add: written_as_def plain_char_def NUL_def)

theorem agi_words_roundtrip_witness:
  "parse_args (agi_line [''SET'', ''VARIABLE'', ''name'', quote_word ''a b'']) = [''SET'', ''VARIABLE'', ''name'', ''a b'']"
  by (rule agi_words_roundtrip [OF sample_words])

theorem agi_words_in_bounds_witness:
  "length (parse_args (buf_string (butlast (''ANSWER'' @ [LF])) 0)) + 1 \<le> 1024"
  using agi_words_in_bounds [of "''ANSWER'' @ [LF]"] by simp

definition set_complete :: esl_event where
  "set_complete = \<lparr>ev_execute_complete = True, ev_header = [''Application'' \<mapsto> ''set'']\<rparr>"

definition sample_call :: esl_handle where
  "sample_call = \<lparr>eh_connected = True, eh_info = \<lparr>ev_execute_complete = False,
     ev_header = [''variable_ivr_path'' \<mapsto> ''/agi'']\<rparr>, eh_execute = [], eh_recv = [Recv (Some set_complete) True],
     eh_last = None, eh_executed = []\<rparr>"

lemma sample_sets: "sets_variable ''name'' ''a b'' (Some (agi_line [''SET'', ''VARIABLE'', ''name'', quote_word ''a b''] @ [LF]))"
  unfolding sets_variable_def
  by (rule exI [of _ "[''SET'', ''VARIABLE'', ''name'', quote_word ''a b'']"])
    (use sample_words in \<open>simp add: quote_word_def quote_char_def NUL_def\<close>)

theorem agi_sets_variables_witness:
  "\<exists>e1 fd1. agi_loop (\<lambda>i. None) sample_call \<lparr>fd_pieces = [], fd_writes = [], fd_sent = []\<rparr>
      [Some (agi_line [''SET'', ''VARIABLE'', ''name'', quote_word ''a b''] @ [LF]), None] = Inr (e1, fd1) \<and>
    eh_executed e1 = [(''set'', Some ''name=a b'')] \<and> fd_sent fd1 = ''200 result=1'' @ [LF, LF]"
proof -
  have c: "completes ''set'' (Recv (Some set_complete) True)"
    by (simp add: completes_def set_complete_def c_strcaseeq_def)
  have "\<exists>e1 fd1. agi_loop (\<lambda>i. None) sample_call \<lparr>fd_pieces = [], fd_writes = [], fd_sent = []\<rparr>
      ([Some (agi_line [''SET'', ''VARIABLE'', ''name'', quote_word ''a b''] @ [LF])] @ [None]) = Inr (e1, fd1) \<and>
    eh_executed e1 = eh_executed sample_call @ map (\<lambda>(n, v). (''set'', Some (n @ ''='' @ v))) [(''name'', ''a b'')] \<and>
    fd_sent fd1 = fd_sent \<lparr>fd_pieces = [], fd_writes = [], fd_sent = []\<rparr> @
      concat (map (\<lambda>nv. ''200 result=1'' @ [LF, LF]) [(''name'', ''a b'')])"
    by (rule agi_sets_variables) (simp_all add: sample_sets c sample_call_def del: agi_line.simps)
  then show ?thesis by (simp add: sample_call_def del: agi_line.simps)
qed

lemma sample_verbose: "find_binding (parse_args ''VERBOSE'') = None"
  using parse_line [of "[''VERBOSE'']" "[''VERBOSE'']"]
  by (simp add: written_as_def plain_char_def NUL_def find_binding_def find_in_def bindings_def c_strcaseeq_def
      c_tolower_def c_isupper_def char_int_def)

theorem unknown_command_hangs_up_witness:
  "\<exists>fd1. esl2agi_thread (\<lambda>i. None) sample_call \<lparr>fd_pieces = [], fd_writes = [], fd_sent = []\<rparr> [Some (''VERBOSE'' @ [LF])] =
    Inr (sample_call\<lparr>eh_executed := [(''hangup'', None)]\<rparr>, fd1)"
proof -
  have b: "buf_string (butlast (''VERBOSE'' @ [LF])) 0 = ''VERBOSE''"
    by (simp add: buf_string_def NUL_def)
  have "\<exists>fd1. esl2agi_thread (\<lambda>i. None) sample_call \<lparr>fd_pieces = [], fd_writes = [], fd_sent = []\<rparr> (Some (''VERBOSE'' @ [LF]) # []) =
    Inr (sample_call\<lparr>eh_executed := eh_executed sample_call @ [(''hangup'', None)]\<rparr>, fd1)"
    by (rule unknown_command_hangs_up) (simp_all only: b sample_verbose, simp_all add: sample_call_def)
  then show ?thesis by (simp add: sample_call_def)
qed

theorem get_data_never_answers_witness:
  "\<exists>e. find_and_exec_command (\<lambda>i. None) sample_call \<lparr>fd_pieces = [], fd_writes = [], fd_sent = []\<rparr>
     (agi_line [''GET'', ''DATA'', ''hello'']) = Inl e"
proof -
  have "parse_args (agi_line [''GET'', ''DATA'', ''hello'']) = [''GET'', ''DATA'', ''hello'']"
    by (rule parse_line) (simp add: written_as_def plain_char_def NUL_def)
  then show ?thesis
    by (intro get_data_never_answers)
      (simp add: find_binding_def find_in_def bindings_def c_strcaseeq_def c_tolower_def c_isupper_def char_int_def
        del: agi_line.simps)
qed

end
