(* ===== verification/Radius.thy ===== *)
theory Radius
  imports C_Library "HOL-Library.Monad_Syntax"
begin

text \<open>
  What \<open>mod_xml_radius\<close> and the plugin \<open>radcdr\<close> of \<open>xmlcdrd\<close> share: the client library for RADIUS, whose
  functions are the fields of a record, the attributes by their names in its header file, and the loop
  over the configured servers.
\<close>

datatype rad_attr =
  PW_USER_NAME | PW_ACCT_STATUS_TYPE | PW_ACCT_SESSION_ID | PW_DIGEST_RESPONSE | PW_DIGEST_REALM | PW_DIGEST_NONCE |
  PW_DIGEST_CNONCE | PW_DIGEST_METHOD | PW_DIGEST_URI | PW_DIGEST_ALGORITHM | PW_DIGEST_USER_NAME | PW_DIGEST_QOP |
  PW_DIGEST_NONCE_COUNT | Numbered_Attr int

text \<open>The value \<open>rc_avpair_add\<close> is given: a pointer to a text, which may be \<open>NULL\<close>, or to a number.\<close>

datatype avp_value = Avp_Text "string option" | Avp_Number int

text \<open>
  A handle \<open>'h\<close> holds the configuration, \<open>'p\<close> is a list of attributes.  An operation that fails gives
  \<open>None\<close>.  \<open>rc_destroy_null\<close> is what \<open>rc_destroy\<close> of a null pointer runs into.
\<close>

record ('h, 'p) rc_client =
  rc_new :: "'h option"
  rc_config_init :: "'h \<Rightarrow> 'h option"
  rc_destroy_null :: "crash option"
  rc_add_config :: "'h \<Rightarrow> string \<Rightarrow> string \<Rightarrow> string \<Rightarrow> 'h option"
  rc_conf_str :: "'h \<Rightarrow> string \<Rightarrow> string option"
  rc_read_dictionary :: "'h \<Rightarrow> string option \<Rightarrow> 'h option"
  rc_no_pairs :: 'p
  rc_avpair_add :: "'h \<Rightarrow> 'p \<Rightarrow> rad_attr \<Rightarrow> avp_value \<Rightarrow> int \<Rightarrow> crash + 'p option"
  rc_acct :: "'h \<Rightarrow> 'p \<Rightarrow> bool"
  rc_auth :: "'h \<Rightarrow> 'p \<Rightarrow> (string \<times> string) list option"

text \<open>The loop over the servers ends at the first one that is not set.\<close>

fun add_servers :: "('h, 'p) rc_client \<Rightarrow> string \<Rightarrow> string \<Rightarrow> string list \<Rightarrow> 'h \<Rightarrow> 'h option" where
  "add_servers lib kind source [] h = Some h"
| "add_servers lib kind source (s # ss) h =
     (if s = [] then Some h
      else do { h1 \<leftarrow> rc_add_config lib h kind s source; add_servers lib kind source ss h1 })"

subsection \<open>What the library documents\<close>

text \<open>
  Options are recorded with their values in the order in which they are added, and reading the dictionary
  leaves them; attributes are added at the end of the list.
\<close>

definition options_recorded :: "('h, 'p) rc_client \<Rightarrow> ('h \<Rightarrow> (string \<times> string) list) \<Rightarrow> bool" where
  "options_recorded lib opts \<longleftrightarrow>
     (\<forall>h. rc_new lib = Some h \<longrightarrow> opts h = []) \<and>
     (\<forall>h h1. rc_config_init lib h = Some h1 \<longrightarrow> opts h1 = opts h) \<and>
     (\<forall>h n v s h1. rc_add_config lib h n v s = Some h1 \<longrightarrow> opts h1 = opts h @ [(n, v)]) \<and>
     (\<forall>h d h1. rc_read_dictionary lib h d = Some h1 \<longrightarrow> opts h1 = opts h)"

definition pairs_recorded :: "('h, 'p) rc_client \<Rightarrow> ('p \<Rightarrow> (rad_attr \<times> int \<times> avp_value) list) \<Rightarrow> bool" where
  "pairs_recorded lib pairs \<longleftrightarrow>
     pairs (rc_no_pairs lib) = [] \<and>
     (\<forall>h p a v n p1. rc_avpair_add lib h p a v n = Inr (Some p1) \<longrightarrow> pairs p1 = pairs p @ [(a, n, v)])"

text \<open>A handle that accepts every attribute with a value.\<close>

definition accepts_pairs :: "('h, 'p) rc_client \<Rightarrow> 'h \<Rightarrow> bool" where
  "accepts_pairs lib h \<longleftrightarrow> (\<forall>p a v n. v \<noteq> Avp_Text None \<longrightarrow> (\<exists>p1. rc_avpair_add lib h p a v n = Inr (Some p1)))"

lemma options_recordedD:
  assumes "options_recorded lib opts"
  shows "rc_new lib = Some h \<Longrightarrow> opts h = []"
    "rc_config_init lib h = Some h1 \<Longrightarrow> opts h1 = opts h"
    "rc_add_config lib h n v s = Some h1 \<Longrightarrow> opts h1 = opts h @ [(n, v)]"
    "rc_read_dictionary lib h d = Some h1 \<Longrightarrow> opts h1 = opts h"
  using assms unfolding options_recorded_def by blast+

lemma pairs_recordedD:
  assumes "pairs_recorded lib pairs"
  shows "pairs (rc_no_pairs lib) = []"
    "rc_avpair_add lib h p a v n = Inr (Some p1) \<Longrightarrow> pairs p1 = pairs p @ [(a, n, v)]"
  using assms unfolding pairs_recorded_def by blast+

lemma servers_added:
  assumes "options_recorded lib opts" "add_servers lib kind source ss h = Some h1"
  shows "opts h1 = opts h @ map (\<lambda>s. (kind, s)) (takeWhile (\<lambda>s. s \<noteq> []) ss)"
  using assms(2)
  by (induction ss arbitrary: h) (auto simp: options_recordedD(3) [OF assms(1)] split: if_splits bind_splits)

text \<open>An instance for the witnesses: a client that accepts all options, whose handle is the list of them.\<close>

definition documented_client ::
    "((string \<times> string) list, (rad_attr \<times> int \<times> avp_value) list) rc_client" where
  "documented_client =
     \<lparr>rc_new = Some [], rc_config_init = Some, rc_destroy_null = Some Null_Deref,
      rc_add_config = (\<lambda>h n v s. Some (h @ [(n, v)])), rc_conf_str = map_of,
      rc_read_dictionary = (\<lambda>h d. Some h), rc_no_pairs = [],
      rc_avpair_add = (\<lambda>h p a v n. if v = Avp_Text None then Inl Null_Deref else Inr (Some (p @ [(a, n, v)]))),
      rc_acct = (\<lambda>h p. True), rc_auth = (\<lambda>h p. Some [])\<rparr>"

lemma documented_client_options: "options_recorded documented_client id"
  and documented_client_pairs: "pairs_recorded documented_client id"
  and documented_client_accepts: "accepts_pairs documented_client h"
  by (auto simp: options_recorded_def pairs_recorded_def accepts_pairs_def documented_client_def)

end
