(* ===== verification/Xmlcdr.thy ===== *)
theory Xmlcdr
  imports C_Library
begin

text \<open>
  \<open>nazim/xmlcdrd\<close>: a FastCGI daemon that gets call detail records as XML, evaluates an XPath for each
  configured variable and runs the plugins whose conditions hold, in the order of their priorities;
  a plugin such as \<open>mysqlcdr\<close> fills the variables into a statement.  From \<open>stmtexp.c\<close>, \<open>stmtexpldr.c\<close>,
  \<open>urldecode.c\<close>, \<open>plugldr.c\<close>, \<open>main.c\<close> and \<open>plugins/mysqlcdr/mysqlcdr.c\<close>.

  The hash tables of glib, libxml, libapreq, pcre, libconfig and the client of MySQL are arguments.
  A \<open>GString\<close> is its text.
\<close>

subsection \<open>The table of variables\<close>

definition STMTEXPAND_STRLEN_MAX :: nat where "STMTEXPAND_STRLEN_MAX = 512"
definition VARID_LEN :: nat where "VARID_LEN = 512"

record stmtexp_entry =
  se_stmt_var :: string
  se_xpath :: string
  se_val :: "string option"

record 'h ght_ops =
  ght_new :: 'h
  ght_lookup :: "'h \<Rightarrow> string \<Rightarrow> stmtexp_entry option"
  ght_replace :: "'h \<Rightarrow> stmtexp_entry \<Rightarrow> 'h"
  ght_foreach :: "(stmtexp_entry \<Rightarrow> stmtexp_entry) \<Rightarrow> 'h \<Rightarrow> 'h"

text \<open>
  The documented behaviour of a \<open>GHashTable\<close> whose keys are equal when their \<open>stmt_var\<close> is, as
  \<open>stmtexpldr_equal\<close> says; the callbacks of \<open>g_hash_table_foreach\<close> change values only.
\<close>

definition ght_documented :: "'h ght_ops \<Rightarrow> bool" where
  "ght_documented ops \<longleftrightarrow>
     (\<forall>k. ght_lookup ops (ght_new ops) k = None) \<and>
     (\<forall>h e k. ght_lookup ops (ght_replace ops h e) k =
        (if k = se_stmt_var e then Some e else ght_lookup ops h k)) \<and>
     (\<forall>f h k. (\<forall>e. se_stmt_var (f e) = se_stmt_var e) \<longrightarrow>
        ght_lookup ops (ght_foreach ops f h) k = map_option f (ght_lookup ops h k)) \<and>
     (\<forall>h k e. ght_lookup ops h k = Some e \<longrightarrow> se_stmt_var e = k)"

text \<open>\<open>snprintf(t.stmt_var, STMTEXPAND_STRLEN_MAX - 1, "%s", s)\<close>\<close>

definition var_key :: "string \<Rightarrow> string" where
  "var_key s = take (STMTEXPAND_STRLEN_MAX - 2) s"

text \<open>Loading the variables: a setting without \<open>var_id\<close> or \<open>xpath\<close> is passed over.\<close>

fun stmtexpldr_load ::
    "'h ght_ops \<Rightarrow> (string option \<times> string option) list \<Rightarrow> 'h \<Rightarrow> 'h" where
  "stmtexpldr_load ops [] h = h"
| "stmtexpldr_load ops ((Some v, Some x) # vars) h =
     stmtexpldr_load ops vars
       (ght_replace ops h \<lparr>se_stmt_var = var_key v, se_xpath = var_key x, se_val = None\<rparr>)"
| "stmtexpldr_load ops (_ # vars) h = stmtexpldr_load ops vars h"

definition stmtexp_lookup_var :: "'h ght_ops \<Rightarrow> 'h \<Rightarrow> string \<Rightarrow> string option" where
  "stmtexp_lookup_var ops h varid =
     (case ght_lookup ops h (var_key varid) of None \<Rightarrow> None | Some tv \<Rightarrow> se_val tv)"

definition stmtexp_assign_var :: "'h ght_ops \<Rightarrow> 'h \<Rightarrow> string \<Rightarrow> string \<Rightarrow> 'h" where
  "stmtexp_assign_var ops h varid vartext =
     (case ght_lookup ops h (var_key varid) of
        None \<Rightarrow> h
      | Some tv \<Rightarrow> ght_replace ops h (tv\<lparr>se_val := Some vartext\<rparr>))"

subsection \<open>Filling in a template\<close>

definition c_strstr :: "string \<Rightarrow> string \<Rightarrow> nat option" where
  "c_strstr hay needle =
     for_find (\<lambda>i. take (length needle) (drop i hay) = needle) 0 (Suc (length hay))"

lemma c_strstr_found: "c_strstr hay needle = Some k \<Longrightarrow> k + length needle \<le> length hay"
proof -
  assume "c_strstr hay needle = Some k"
  then have "k < Suc (length hay)" and t: "take (length needle) (drop k hay) = needle"
    unfolding c_strstr_def by (auto dest!: for_find_Some)
  then have "k \<le> length hay" by simp
  moreover have "min (length hay - k) (length needle) = length needle"
    using arg_cong [OF t, of length] by simp
  ultimately show ?thesis by linarith
qed

text \<open>
  The loop of \<open>stmtexp_expand_str\<close>: \<open>s\<close> is the rest of the text, \<open>left\<close> how many of the \<open>srclen\<close>
  characters are left, \<open>out\<close> what is expanded.  \<open>val\<close> gives the text for a name, \<open>None\<close> ends the
  expansion with NULL.  A name that does not fit \<open>varid\<close> with its NUL is written behind the array,
  or read past it.
\<close>

function expand_loop ::
    "(string \<Rightarrow> string option) \<Rightarrow> string \<Rightarrow> nat \<Rightarrow> string \<Rightarrow> crash + string option" where
  "expand_loop val s left out =
     (if left = 0 then Inr (Some out)
      else case c_strstr s ''$<'' of
             None \<Rightarrow> Inr (Some (out @ s))
           | Some k \<Rightarrow>
               (case c_strstr (drop k s) ''>'' of
                  None \<Rightarrow> Inr (Some (out @ s))
                | Some j \<Rightarrow>
                    let varid = take (j - 2) (drop (k + 2) s)
                    in if length varid \<ge> VARID_LEN then Inl Out_Of_Bounds
                       else (case val varid of
                               None \<Rightarrow> Inr None
                             | Some v \<Rightarrow>
                                 expand_loop val (drop (k + j + 1) s) (left - (k + j + 1)) (out @ take k s @ v))))"
  by pat_completeness auto
termination
  by (relation "measure (\<lambda>(val, s, left, out). left)") auto

declare expand_loop.simps [simp del]

text \<open>A variable that is not found, or has no value, is skipped.\<close>

definition stmtexp_expand_str :: "'h ght_ops \<Rightarrow> 'h \<Rightarrow> string \<Rightarrow> nat \<Rightarrow> crash + string option" where
  "stmtexp_expand_str ops h src srclen =
     expand_loop (\<lambda>varid. Some (case stmtexp_lookup_var ops h varid of None \<Rightarrow> [] | Some v \<Rightarrow> v)) src srclen []"

subsection \<open>The value of a key in a request\<close>

record cdr_env =
  apreq_encode :: "string \<Rightarrow> string"
  apreq_decode :: "string \<Rightarrow> string"
  pcre_match :: "string \<Rightarrow> string \<Rightarrow> int"

definition URLUTIL_STATUS_INVALID_PARAMS :: int where "URLUTIL_STATUS_INVALID_PARAMS = - 2"
definition URLUTIL_STATUS_EMPTY_SRCH_KEY :: int where "URLUTIL_STATUS_EMPTY_SRCH_KEY = - 3"
definition URLUTIL_STATUS_SRCH_KEY_NOT_FOUND :: int where "URLUTIL_STATUS_SRCH_KEY_NOT_FOUND = - 4"
definition URLUTIL_STATUS_URL_STR_TOO_SHORT :: int where "URLUTIL_STATUS_URL_STR_TOO_SHORT = - 5"
definition URLUTIL_STATUS_URL_KEY_VAL_BROKEN :: int where "URLUTIL_STATUS_URL_KEY_VAL_BROKEN = - 6"

text \<open>The status, or the value.\<close>

definition urldecode_expand_value ::
    "cdr_env \<Rightarrow> string \<Rightarrow> string option \<Rightarrow> nat \<Rightarrow> bool \<Rightarrow> int + string" where
  "urldecode_expand_value env url key key_len case_sensitive =
     (case key of
        None \<Rightarrow> Inl URLUTIL_STATUS_INVALID_PARAMS
      | Some k \<Rightarrow>
          if length k = 0 \<or> key_len = 0 then Inl URLUTIL_STATUS_EMPTY_SRCH_KEY
          else if length url < key_len then Inl URLUTIL_STATUS_URL_STR_TOO_SHORT
          else let temp = apreq_encode env (take key_len k) @ ''=''
               in case (if case_sensitive then c_strstr url temp
                        else c_strstr (map c_tolower url) (map c_tolower temp)) of
                    None \<Rightarrow> Inl URLUTIL_STATUS_SRCH_KEY_NOT_FOUND
                  | Some i \<Rightarrow>
                      (case dropWhile (\<lambda>c. c \<noteq> CHR ''='') (drop i url) of
                         [] \<Rightarrow> Inl URLUTIL_STATUS_URL_KEY_VAL_BROKEN
                       | _ # p \<Rightarrow> Inr (apreq_decode env (takeWhile (\<lambda>c. c \<noteq> CHR ''&'') p))))"

subsection \<open>Plugins\<close>

record metric_tag =
  mt_metric :: string
  mt_regexp :: string

record plugin_tag =
  pt_fname :: string
  pt_options :: string
  pt_priority :: uint32_t
  pt_metrics :: "metric_tag list"

definition XCDR_PLUGIN_STRMAXLEN :: nat where "XCDR_PLUGIN_STRMAXLEN = 256"
definition XCDR_METRIC_MAX :: nat where "XCDR_METRIC_MAX = 256"

text \<open>
  The settings of a plugin, each of which may be missing.  A plugin whose name, options or priority
  is missing keeps an entry of zeros, and so does a metric that lacks a part.
\<close>

record plugin_setting =
  ps_name :: "string option"
  ps_options :: "string option"
  ps_priority :: "int option"
  ps_metrics :: "(string option \<times> string option) list option"

definition load_metric :: "string option \<times> string option \<Rightarrow> metric_tag" where
  "load_metric m =
     (case m of
        (Some name, Some regexp) \<Rightarrow>
          \<lparr>mt_metric = take (XCDR_METRIC_MAX - 1) name, mt_regexp = take (XCDR_METRIC_MAX - 1) regexp\<rparr>
      | _ \<Rightarrow> \<lparr>mt_metric = [], mt_regexp = []\<rparr>)"

definition load_plugin :: "string \<Rightarrow> plugin_setting \<Rightarrow> plugin_tag" where
  "load_plugin plugin_dir p =
     (let metrics = (case ps_metrics p of None \<Rightarrow> [] | Some ms \<Rightarrow> map load_metric ms)
      in case (ps_name p, ps_options p, ps_priority p) of
           (Some name, Some options, Some priority) \<Rightarrow>
             \<lparr>pt_fname = take (XCDR_PLUGIN_STRMAXLEN - 2) (plugin_dir @ ''/'' @ name @ ''.so''),
              pt_options = take (XCDR_PLUGIN_STRMAXLEN - 2) options,
              pt_priority = word_of_int priority, pt_metrics = metrics\<rparr>
         | _ \<Rightarrow> \<lparr>pt_fname = [], pt_options = [], pt_priority = 0, pt_metrics = metrics\<rparr>)"

definition xcdr_plugldr_load_config :: "string \<Rightarrow> plugin_setting list \<Rightarrow> plugin_tag list" where
  "xcdr_plugldr_load_config plugin_dir settings = map (load_plugin plugin_dir) settings"

text \<open>The inner loop over \<open>b\<close> and the outer one over \<open>a\<close>, which starts at 1.\<close>

definition swap_down :: "nat \<Rightarrow> plugin_tag list \<Rightarrow> plugin_tag list" where
  "swap_down b xs = xs[b - 1 := xs ! b, b := xs ! (b - 1)]"

function bubble_pass :: "nat \<Rightarrow> nat \<Rightarrow> plugin_tag list \<Rightarrow> plugin_tag list" where
  "bubble_pass a b tags =
     (if b < a \<or> b = 0 then tags
      else bubble_pass a (b - 1)
             (if pt_priority (tags ! (b - 1)) > pt_priority (tags ! b) then swap_down b tags else tags))"
  by pat_completeness auto
termination
  by (relation "measure (\<lambda>(a, b, tags). b)") auto

declare bubble_pass.simps [simp del]

function sort_loop :: "nat \<Rightarrow> plugin_tag list \<Rightarrow> plugin_tag list" where
  "sort_loop a tags =
     (if a < length tags then sort_loop (a + 1) (bubble_pass a (length tags - 1) tags) else tags)"
  by pat_completeness auto

lemma bubble_pass_length [simp]: "length (bubble_pass a b tags) = length tags"
proof (induction a b tags rule: bubble_pass.induct)
  case (1 a b tags)
  show ?case
  proof (cases "b < a \<or> b = 0")
    case True
    then show ?thesis by (simp add: bubble_pass.simps [of a b])
  next
    case False
    with 1 [OF False] show ?thesis by (simp add: bubble_pass.simps [of a b] swap_down_def)
  qed
qed

termination sort_loop
  by (relation "measure (\<lambda>(a, tags). length tags - a)") auto

declare sort_loop.simps [simp del]

definition xcdr_plug_ldr_sort_plugins :: "plugin_tag list \<Rightarrow> plugin_tag list" where
  "xcdr_plug_ldr_sort_plugins tags = sort_loop 1 tags"

text \<open>
  Loading the plugins: \<open>init\<close> says whether \<open>plug_init\<close> succeeds.  \<open>None\<close> stands for -1.
\<close>

definition xcdr_plugldr_load_plugins :: "(plugin_tag \<Rightarrow> bool) \<Rightarrow> plugin_tag list \<Rightarrow> plugin_tag list option" where
  "xcdr_plugldr_load_plugins init tags =
     (if tags = [] then None
      else if \<not> list_all init tags then None
      else Some (if 1 < length tags then xcdr_plug_ldr_sort_plugins tags else tags))"

definition metric_holds :: "cdr_env \<Rightarrow> 'h ght_ops \<Rightarrow> 'h \<Rightarrow> metric_tag \<Rightarrow> bool" where
  "metric_holds env ops h m =
     (let metric_val = (case stmtexp_lookup_var ops h (mt_metric m) of None \<Rightarrow> [] | Some v \<Rightarrow> v)
      in \<not> pcre_match env (mt_regexp m) metric_val < 0)"

text \<open>The loop over the plugins; \<open>plugin_main\<close> is what a plugin does to the variables.\<close>

fun run_plugins ::
    "cdr_env \<Rightarrow> 'h ght_ops \<Rightarrow> (plugin_tag \<Rightarrow> 'h \<Rightarrow> 'h) \<Rightarrow> plugin_tag list \<Rightarrow> 'h \<Rightarrow> (plugin_tag \<times> 'h) list \<times> 'h" where
  "run_plugins env ops plugin_main [] h = ([], h)"
| "run_plugins env ops plugin_main (t # ts) h =
     (if list_all (metric_holds env ops h) (pt_metrics t)
      then (case run_plugins env ops plugin_main ts (plugin_main t h) of
              (called, h1) \<Rightarrow> ((t, h) # called, h1))
      else run_plugins env ops plugin_main ts h)"

subsection \<open>A request\<close>

text \<open>
  What an XPath evaluates to: an error, no set of nodes, or nodes, each with whether it has a
  namespace and its content.  \<open>None\<close> for a document says that it cannot be parsed.
\<close>

datatype xp_result = XP_Error | XP_No_Set | XP_Nodes "(bool \<times> string) list"

definition stmtexp_callback :: "(string \<Rightarrow> xp_result) \<Rightarrow> stmtexp_entry \<Rightarrow> stmtexp_entry" where
  "stmtexp_callback xpath e =
     (case xpath (se_xpath e) of
        XP_Error \<Rightarrow> e
      | XP_No_Set \<Rightarrow> e
      | XP_Nodes [] \<Rightarrow> e\<lparr>se_val := None\<rparr>
      | XP_Nodes ((ns, content) # _) \<Rightarrow> if ns then e else e\<lparr>se_val := Some content\<rparr>)"

definition stmtexp_callback_clean :: "stmtexp_entry \<Rightarrow> stmtexp_entry" where
  "stmtexp_callback_clean e = e\<lparr>se_val := None\<rparr>"

definition execute_xpath_expression ::
    "'h ght_ops \<Rightarrow> (string \<Rightarrow> (string \<Rightarrow> xp_result) option) \<Rightarrow> string \<Rightarrow> 'h \<Rightarrow> 'h" where
  "execute_xpath_expression ops xml buf h =
     (case xml buf of None \<Rightarrow> h | Some xpath \<Rightarrow> ght_foreach ops (stmtexp_callback xpath) h)"

text \<open>
  One round of the loop of \<open>main\<close>.  \<open>c\<close> is a \<open>char\<close>, so that the byte 255 counts as the end of the
  request.  The result is the plugins run, each with the variables it got, and the variables.
\<close>

definition handle_request ::
    "cdr_env \<Rightarrow> 'h ght_ops \<Rightarrow> (string \<Rightarrow> (string \<Rightarrow> xp_result) option) \<Rightarrow> (plugin_tag \<Rightarrow> 'h \<Rightarrow> 'h) \<Rightarrow>
     plugin_tag list \<Rightarrow> string \<Rightarrow> 'h \<Rightarrow> (plugin_tag \<times> 'h) list \<times> 'h" where
  "handle_request env ops xml plugin_main tags request h =
     (let cgi_req_str = buf_string (takeWhile (\<lambda>c. c \<noteq> CHR 0xFF) request) 0;
          h1 = ght_foreach ops stmtexp_callback_clean h
      in case urldecode_expand_value env cgi_req_str (Some ''cdr'') 3 True of
           Inl status \<Rightarrow> ([], h1)
         | Inr cdr \<Rightarrow> run_plugins env ops plugin_main tags (execute_xpath_expression ops xml cdr h1))"

subsection \<open>The plugin for MySQL\<close>

record mysql_db =
  my_escape :: "string \<Rightarrow> string"
  my_results :: "bool list"
  my_sent :: "string list"

definition mysqlcdr_expand_str :: "mysql_db \<Rightarrow> 'h ght_ops \<Rightarrow> 'h \<Rightarrow> string \<Rightarrow> nat \<Rightarrow> crash + string option" where
  "mysqlcdr_expand_str conn ops h src srclen =
     expand_loop
       (\<lambda>varid. case stmtexp_lookup_var ops h varid of
          None \<Rightarrow> Some []
        | Some ev \<Rightarrow> let t = my_escape conn ev in if length t < length ev then None else Some t)
       src srclen []"

definition mysql_query :: "mysql_db \<Rightarrow> string \<Rightarrow> bool \<times> mysql_db" where
  "mysql_query conn stmt =
     (let c1 = conn\<lparr>my_sent := my_sent conn @ [stmt]\<rparr>
      in case my_results conn of [] \<Rightarrow> (True, c1) | b # bs \<Rightarrow> (b, c1\<lparr>my_results := bs\<rparr>))"

text \<open>\<open>while (rc++ <= retrycount)\<close>; behind the loop the function ends without a \<open>return\<close>.\<close>

fun query_tries :: "nat \<Rightarrow> mysql_db \<Rightarrow> string \<Rightarrow> bool \<times> mysql_db" where
  "query_tries 0 conn stmt = (False, conn)"
| "query_tries (Suc n) conn stmt =
     (case mysql_query conn stmt of (ok, c1) \<Rightarrow> if ok then (True, c1) else query_tries n c1 stmt)"

text \<open>The result that is not returned is whatever \<open>junk\<close> says.\<close>

definition mysql_query_retry_on_fail :: "int \<Rightarrow> mysql_db \<Rightarrow> string \<Rightarrow> nat \<Rightarrow> int \<times> mysql_db" where
  "mysql_query_retry_on_fail junk conn stmt retrycount =
     (case query_tries (retrycount + 1) conn stmt of (ok, c1) \<Rightarrow> (if ok then 0 else junk, c1))"

definition STMT_RETRY_MAX :: nat where "STMT_RETRY_MAX = 2"

text \<open>\<open>while (retr--)\<close>: whether the statement was done.\<close>

fun mysqlcdr_main ::
    "int \<Rightarrow> 'h ght_ops \<Rightarrow> 'h \<Rightarrow> string \<Rightarrow> nat \<Rightarrow> mysql_db \<Rightarrow> crash + bool \<times> mysql_db" where
  "mysqlcdr_main junk ops h template 0 conn = Inr (False, conn)"
| "mysqlcdr_main junk ops h template (Suc retr) conn =
     (case mysqlcdr_expand_str conn ops h template (length template) of
        Inl e \<Rightarrow> Inl e
      | Inr None \<Rightarrow> mysqlcdr_main junk ops h template retr conn
      | Inr (Some stmt) \<Rightarrow>
          (case mysql_query_retry_on_fail junk conn stmt STMT_RETRY_MAX of
             (res, c1) \<Rightarrow>
               if 0 \<noteq> res then mysqlcdr_main junk ops h template retr c1 else Inr (True, c1)))"
subsection \<open>The order of the plugins\<close>

fun bubble :: "plugin_tag list \<Rightarrow> plugin_tag list" where
  "bubble [] = []"
| "bubble (x # xs) =
     (case bubble xs of
        [] \<Rightarrow> [x]
      | y # ys \<Rightarrow> if pt_priority x > pt_priority y then y # x # ys else x # y # ys)"

lemma bubble_length [simp]: "length (bubble xs) = length xs"
  by (induction xs) (auto split: list.split)

lemma bubble_nonempty: "xs \<noteq> [] \<Longrightarrow> \<exists>y ys. bubble xs = y # ys"
  by (metis bubble_length length_0_conv list.exhaust)

lemma bubble_sort_key:
  "bubble xs = y # ys \<Longrightarrow> sort_key pt_priority xs = y # sort_key pt_priority ys"
proof (induction xs arbitrary: y ys)
  case (Cons x xs)
  show ?case
  proof (cases "bubble xs")
    case Nil
    then have "xs = []" by (metis bubble_length length_0_conv)
    with Cons.prems show ?thesis by simp
  next
    case b: (Cons z zs)
    note s = Cons.IH [OF b]
    have "sorted (map pt_priority (z # sort_key pt_priority zs))"
      using sorted_sort_key [of pt_priority xs] by (simp only: s)
    then have z: "insort_key pt_priority z (sort_key pt_priority zs) = z # sort_key pt_priority zs"
      by (cases "sort_key pt_priority zs") auto
    show ?thesis
    proof (cases "pt_priority x > pt_priority z")
      case True
      with Cons.prems b have "y = z" "ys = x # zs" by simp_all
      with True s show ?thesis by (auto dest: leD)
    next
      case False
      with Cons.prems b have "y = x" "ys = z # zs" by simp_all
      with False s z show ?thesis by (simp add: not_less)
    qed
  qed
qed simp

lemma bubble_pass_step:
  assumes "0 < b" "b < length xs"
  shows "(let tags = take b xs @ bubble (drop b xs)
      in if pt_priority (tags ! (b - 1)) > pt_priority (tags ! b) then swap_down b tags else tags) =
    take (b - 1) xs @ bubble (drop (b - 1) xs)"
proof -
  let ?x = "xs ! (b - 1)" and ?p = "take (b - 1) xs"
  obtain c where c: "b = Suc c" using assms(1) by (cases b) auto
  obtain y ys where y: "bubble (drop b xs) = y # ys" using assms(2) bubble_nonempty [of "drop b xs"] by auto
  have t: "take b xs = ?p @ [?x]" using assms(2) by (simp add: c take_Suc_conv_app_nth)
  have d: "drop (b - 1) xs = ?x # drop b xs" using assms(2) by (simp add: c Cons_nth_drop_Suc)
  have l: "length ?p = b - 1" using assms(2) by simp
  have n: "(?p @ [?x] @ y # ys) ! (b - 1) = ?x" "(?p @ [?x] @ y # ys) ! b = y"
    using l assms(1) by (simp_all add: nth_append)
  have s: "swap_down b (?p @ [?x] @ y # ys) = ?p @ y # ?x # ys"
    unfolding swap_down_def n using l assms(1) by (simp add: list_update_append)
  show ?thesis unfolding y t d Let_def append_assoc n s by (simp add: y)
qed

lemma bubble_pass_eq:
  "1 \<le> a \<Longrightarrow> a \<le> b + 1 \<Longrightarrow> b < length xs \<Longrightarrow>
   bubble_pass a b (take b xs @ bubble (drop b xs)) = take (a - 1) xs @ bubble (drop (a - 1) xs)"
proof (induction b)
  case 0
  then show ?case by (subst bubble_pass.simps) simp
next
  case (Suc b)
  show ?case
  proof (cases "Suc b < a")
    case True
    with Suc.prems have "a - 1 = Suc b" by simp
    with True show ?thesis by (simp add: bubble_pass.simps [of a "Suc b"])
  next
    case False
    let ?tags = "take (Suc b) xs @ bubble (drop (Suc b) xs)"
    have "bubble_pass a (Suc b) ?tags = bubble_pass a b
        (let tags = ?tags in if pt_priority (tags ! (Suc b - 1)) > pt_priority (tags ! Suc b)
           then swap_down (Suc b) tags else tags)"
      using False by (subst bubble_pass.simps) (simp add: Let_def)
    also have "\<dots> = bubble_pass a b (take b xs @ bubble (drop b xs))"
      using bubble_pass_step [of "Suc b" xs] Suc.prems(3) by simp
    finally show ?thesis using Suc False by simp
  qed
qed

lemma bubble_pass_whole:
  assumes "1 \<le> a" "a < length xs"
  shows "bubble_pass a (length xs - 1) xs = take (a - 1) xs @ bubble (drop (a - 1) xs)"
proof -
  have "take (length xs - 1) xs @ bubble (drop (length xs - 1) xs) = xs"
    using assms(2) by (cases xs rule: rev_cases) simp_all
  with bubble_pass_eq [of a "length xs - 1" xs] assms show ?thesis by simp
qed

lemma short_sort_key: "length xs \<le> 1 \<Longrightarrow> sort_key f xs = xs"
  by (cases xs) auto

lemma sort_loop_eq:
  "1 \<le> a \<Longrightarrow> sort_loop a xs = take (a - 1) xs @ sort_key pt_priority (drop (a - 1) xs)"
proof (induction a xs rule: sort_loop.induct)
  case (1 a xs)
  show ?case
  proof (cases "a < length xs")
    case True
    have "a - 1 < length xs" using True by simp
    then have "drop (a - 1) xs \<noteq> []" by (simp only: drop_eq_Nil not_le)
    then obtain y ys where y: "bubble (drop (a - 1) xs) = y # ys"
      using bubble_nonempty by blast
    let ?zs = "take (a - 1) xs @ y # ys"
    have "bubble_pass a (length xs - 1) xs = ?zs"
      using bubble_pass_whole [OF 1(2) True] y by simp
    then have "sort_loop a xs = sort_loop (a + 1) ?zs" "sort_loop (a + 1) ?zs = take a ?zs @ sort_key pt_priority (drop a ?zs)"
      using 1(1) [OF True] True by (simp_all add: sort_loop.simps [of a xs])
    moreover have "take a ?zs = take (a - 1) xs @ [y]" "drop a ?zs = ys"
      using 1(2) True by (cases a; simp)+
    ultimately show ?thesis using bubble_sort_key [OF y] by simp
  next
    case False
    then have "length (drop (a - 1) xs) \<le> 1" using 1(2) by simp
    with False show ?thesis by (simp add: sort_loop.simps [of a xs] short_sort_key)
  qed
qed

lemma sort_plugins_stable: "xcdr_plug_ldr_sort_plugins tags = sort_key pt_priority tags"
  using sort_loop_eq [of 1 tags] by (simp add: xcdr_plug_ldr_sort_plugins_def)

text \<open>
  The sort of the plugins is the stable sort by priority: it orders them and keeps the order of the
  configuration among plugins of the same priority.
\<close>
theorem plugins_sorted: "xcdr_plug_ldr_sort_plugins tags = sort_key pt_priority tags"
  by (rule sort_plugins_stable)
subsection \<open>Templates\<close>

lemma for_find_first:
  assumes "p k" "k < n" "\<And>j. j < k \<Longrightarrow> \<not> p j"
  shows "for_find p 0 n = Some k"
proof (cases "for_find p 0 n")
  case None
  with assms(1,2) show ?thesis by (auto simp: for_find_None)
next
  case (Some i)
  from for_find_Some [OF this] assms show ?thesis
    by (metis Some linorder_neqE_nat zero_le)
qed

lemma c_strstr_first:
  assumes "take (length needle) (drop k hay) = needle" "k \<le> length hay"
    "\<And>j. j < k \<Longrightarrow> take (length needle) (drop j hay) \<noteq> needle"
  shows "c_strstr hay needle = Some k"
  unfolding c_strstr_def using assms by (intro for_find_first) auto

lemma c_strstr_none:
  assumes "\<And>j. j \<le> length hay \<Longrightarrow> take (length needle) (drop j hay) \<noteq> needle"
  shows "c_strstr hay needle = None"
  unfolding c_strstr_def using assms by (auto simp: for_find_None)

text \<open>A text whose first character does not occur in what stands before.\<close>

lemma no_match_before:
  assumes "c \<notin> set t" "j < length t"
  shows "take (Suc n) (drop j (t @ r)) \<noteq> c # needle"
proof -
  have "drop j (t @ r) = t ! j # drop (Suc j) (t @ r)"
    using assms(2) by (simp add: Cons_nth_drop_Suc [symmetric] nth_append)
  moreover have "t ! j \<noteq> c" using assms by auto
  ultimately show ?thesis by simp
qed

lemma c_strstr_skip:
  assumes "c \<notin> set t"
  shows "c_strstr (t @ r) (c # needle) = map_option (\<lambda>k. length t + k) (c_strstr r (c # needle))"
proof (cases "c_strstr r (c # needle)")
  case None
  then have n: "\<forall>j. j \<le> length r \<longrightarrow> take (length (c # needle)) (drop j r) \<noteq> c # needle"
    unfolding c_strstr_def by (auto simp: for_find_None less_Suc_eq_le)
  have "c_strstr (t @ r) (c # needle) = None"
  proof (rule c_strstr_none)
    fix j
    assume j: "j \<le> length (t @ r)"
    show "take (length (c # needle)) (drop j (t @ r)) \<noteq> c # needle"
    proof (cases "j < length t")
      case True
      with no_match_before [OF assms] show ?thesis by simp
    next
      case False
      with n j show ?thesis by simp
    qed
  qed
  with None show ?thesis by simp
next
  case (Some k)
  then have k: "take (length (c # needle)) (drop k r) = c # needle" "k \<le> length r"
    "\<And>j. j < k \<Longrightarrow> take (length (c # needle)) (drop j r) \<noteq> c # needle"
    unfolding c_strstr_def by (auto dest!: for_find_Some)
  have "c_strstr (t @ r) (c # needle) = Some (length t + k)"
  proof (rule c_strstr_first)
    fix j
    assume j: "j < length t + k"
    show "take (length (c # needle)) (drop j (t @ r)) \<noteq> c # needle"
    proof (cases "j < length t")
      case True
      with no_match_before [OF assms] show ?thesis by simp
    next
      case False
      with k(3) [of "j - length t"] j show ?thesis by simp
    qed
  qed (use k in auto)
  with Some show ?thesis by simp
qed

lemma c_strstr_here: "c_strstr (needle @ r) needle = Some 0"
  by (rule c_strstr_first) auto

lemma c_strstr_Nil: "c_strstr [] (c # needle) = None"
  by (rule c_strstr_none) simp

text \<open>A template as text between variables.\<close>

datatype template_part = Text string | Var string

fun part_text :: "template_part \<Rightarrow> string" where
  "part_text (Text t) = t"
| "part_text (Var v) = ''$<'' @ v @ ''>''"

fun part_ok :: "template_part \<Rightarrow> bool" where
  "part_ok (Text t) \<longleftrightarrow> CHR ''$'' \<notin> set t"
| "part_ok (Var v) \<longleftrightarrow> CHR ''>'' \<notin> set v \<and> length v < VARID_LEN"

fun part_value :: "(string \<Rightarrow> string) \<Rightarrow> template_part \<Rightarrow> string" where
  "part_value f (Text t) = t"
| "part_value f (Var v) = f v"

lemma expand_text:
  assumes "CHR ''$'' \<notin> set t"
  shows "expand_loop val (t @ r) (length t + length r) out = expand_loop val r (length r) (out @ t)"
proof (cases "length t + length r = 0")
  case True
  then show ?thesis by simp
next
  case False
  show ?thesis
  proof (cases "c_strstr r ''$<''")
    case None
    with c_strstr_skip [OF assms, of r "''<''"] False show ?thesis
      by (subst (1 2) expand_loop.simps) auto
  next
    case (Some k)
    have r: "length r \<noteq> 0" using c_strstr_found [OF Some] by (cases r) simp_all
    from Some c_strstr_skip [OF assms, of r "''<''"] have k: "c_strstr (t @ r) ''$<'' = Some (length t + k)" by simp
    have z: "(length t + length r = 0) = False" "(length r = 0) = False" using r by simp_all
    have d: "drop (length t + k) (t @ r) = drop k r" "drop (length t + k + 2) (t @ r) = drop (k + 2) r"
      "\<And>j. drop (length t + k + j + 1) (t @ r) = drop (k + j + 1) r"
      "\<And>j. length t + length r - (length t + k + j + 1) = length r - (k + j + 1)"
      "take (length t + k) (t @ r) = t @ take k r"
      by (simp_all add: add.assoc)
    show ?thesis
      by (subst (1 2) expand_loop.simps) (simp only: Some k z d if_False option.case append_assoc)
  qed
qed

lemma expand_variable:
  assumes "CHR ''>'' \<notin> set v" "length v < VARID_LEN"
  shows "expand_loop val (''$<'' @ v @ ''>'' @ r) (length v + 3 + m) out =
    (case val v of None \<Rightarrow> Inr None | Some x \<Rightarrow> expand_loop val r m (out @ x))"
proof -
  let ?s = "''$<'' @ v @ ''>'' @ r"
  have k: "c_strstr ?s ''$<'' = Some 0" by (rule c_strstr_here)
  have "c_strstr ((''$<'' @ v) @ (''>'' @ r)) ''>'' = Some (length v + 2)"
    using c_strstr_skip [of "CHR ''>''" "''$<'' @ v" "''>'' @ r" "[]"] c_strstr_here [of "''>''" r] assms(1) by simp
  then have j: "c_strstr (drop 0 ?s) ''>'' = Some (length v + 2)" by simp
  show ?thesis
    by (subst expand_loop.simps) (use k j assms(2) in \<open>simp add: Let_def numeral_3_eq_3 split: option.split\<close>)
qed

lemma expand_parts:
  assumes "list_all part_ok ps" "\<And>v. Var v \<in> set ps \<Longrightarrow> val v = Some (f v)"
  shows "expand_loop val (concat (map part_text ps)) (length (concat (map part_text ps))) out =
    Inr (Some (out @ concat (map (part_value f) ps)))"
  using assms
proof (induction ps arbitrary: out)
  case Nil
  show ?case by (simp add: expand_loop.simps)
next
  case (Cons p ps)
  let ?r = "concat (map part_text ps)"
  have ih: "expand_loop val ?r (length ?r) out' = Inr (Some (out' @ concat (map (part_value f) ps)))" for out'
    using Cons by simp
  show ?case
  proof (cases p)
    case (Text t)
    with expand_text [of t val ?r out] Cons.prems(1) ih show ?thesis by simp
  next
    case (Var v)
    have v: "CHR ''>'' \<notin> set v" "length v < VARID_LEN" using Var Cons.prems(1) by simp_all
    have "expand_loop val (''$<'' @ v @ ''>'' @ ?r) (length v + 3 + length ?r) out = expand_loop val ?r (length ?r) (out @ f v)"
      using expand_variable [OF v, of val ?r "length ?r" out] Cons.prems(2) Var by simp
    moreover have "concat (map part_text (p # ps)) = ''$<'' @ v @ ''>'' @ ?r"
      "length (''$<'' @ v @ ''>'' @ ?r) = length v + 3 + length ?r"
      using Var by simp_all
    moreover have "concat (map (part_value f) (p # ps)) = f v @ concat (map (part_value f) ps)" using Var by simp
    ultimately show ?thesis by (simp only: ih append_assoc)
  qed
qed
text \<open>
  The statement of the plugin for MySQL: a template is filled in with the values of its variables,
  each escaped, and with nothing for a variable without value; the statement is sent once and the
  record counts as done.
\<close>
theorem statement_filled:
  assumes "list_all part_ok ps" "my_results conn = []" "\<forall>s. length s \<le> length (my_escape conn s)"
  shows "mysqlcdr_main junk ops h (concat (map part_text ps)) (Suc n) conn =
    Inr (True, conn\<lparr>my_sent := my_sent conn @
      [concat (map (part_value (\<lambda>v. case stmtexp_lookup_var ops h v of None \<Rightarrow> [] | Some x \<Rightarrow> my_escape conn x)) ps)]\<rparr>)"
proof -
  let ?f = "\<lambda>v. case stmtexp_lookup_var ops h v of None \<Rightarrow> [] | Some x \<Rightarrow> my_escape conn x"
  have e: "\<not> length (my_escape conn s) < length s" for s using assms(3) by (simp add: not_less)
  have "mysqlcdr_expand_str conn ops h (concat (map part_text ps)) (length (concat (map part_text ps))) =
      Inr (Some ([] @ concat (map (part_value ?f) ps)))"
    unfolding mysqlcdr_expand_str_def
    by (rule expand_parts [OF assms(1)]) (simp add: Let_def e split: option.split)
  then show ?thesis
    by (simp add: mysql_query_retry_on_fail_def STMT_RETRY_MAX_def mysql_query_def Let_def assms(2) numeral_3_eq_3)
qed

text \<open>A variable in a template whose name has 512 characters or more overruns the array for the name.\<close>
theorem long_name_overruns:
  assumes "CHR ''>'' \<notin> set v" "VARID_LEN \<le> length v"
  shows "stmtexp_expand_str ops h (''$<'' @ v @ ''>'' @ r) (length v + 3 + m) = Inl Out_Of_Bounds"
proof -
  let ?s = "''$<'' @ v @ ''>'' @ r"
  have k: "c_strstr ?s ''$<'' = Some 0" by (rule c_strstr_here)
  have "c_strstr ((''$<'' @ v) @ (''>'' @ r)) ''>'' = Some (length v + 2)"
    using c_strstr_skip [of "CHR ''>''" "''$<'' @ v" "''>'' @ r" "[]"] c_strstr_here [of "''>''" r] assms(1) by simp
  then have j: "c_strstr (drop 0 ?s) ''>'' = Some (length v + 2)" by simp
  show ?thesis
    unfolding stmtexp_expand_str_def
    by (subst expand_loop.simps) (use k j assms(2) in \<open>simp add: Let_def numeral_3_eq_3\<close>)
qed

subsection \<open>Requests\<close>

definition xp_value :: "xp_result \<Rightarrow> string option" where
  "xp_value r = (case r of XP_Nodes ((False, c) # _) \<Rightarrow> Some c | _ \<Rightarrow> None)"

lemma callback_clean: "stmtexp_callback xpath (stmtexp_callback_clean e) = e\<lparr>se_val := xp_value (xpath (se_xpath e))\<rparr>"
  by (auto simp: stmtexp_callback_def stmtexp_callback_clean_def xp_value_def split: xp_result.split list.split)

lemma run_plugins_same:
  "(\<And>t. t \<in> set ts \<Longrightarrow> plugin_main t h = h) \<Longrightarrow>
   run_plugins env ops plugin_main ts h =
     (map (\<lambda>t. (t, h)) (filter (\<lambda>t. list_all (metric_holds env ops h) (pt_metrics t)) ts), h)"
  by (induction ts) auto

lemma takeWhile_until: "d \<notin> set v \<Longrightarrow> takeWhile (\<lambda>c. c \<noteq> d) (v @ d # r) = v"
  by (induction v) auto

lemma takeWhile_all: "d \<notin> set v \<Longrightarrow> takeWhile (\<lambda>c. c \<noteq> d) v = v"
  by (induction v) auto

lemma request_value:
  assumes "apreq_encode env ''cdr'' = ''cdr''" "CHR ''&'' \<notin> set v" "u = [] \<or> hd u = CHR ''&''"
  shows "urldecode_expand_value env (''cdr='' @ v @ u) (Some ''cdr'') 3 True = Inr (apreq_decode env v)"
proof -
  have "c_strstr (''cdr='' @ v @ u) ''cdr='' = Some 0" by (rule c_strstr_here)
  moreover have "takeWhile (\<lambda>c. c \<noteq> CHR ''&'') (v @ u) = v"
    using assms(2,3) takeWhile_until [of _ v] takeWhile_all [of _ v] by (cases u) auto
  ultimately show ?thesis using assms(1) by (simp add: urldecode_expand_value_def)
qed


text \<open>
  The key is also found at the end of another key: the value of \<open>xcdr\<close> is taken for the one of \<open>cdr\<close>
  when it comes first.
\<close>
theorem key_inside_other_key:
  assumes "apreq_encode env ''cdr'' = ''cdr''" "CHR ''&'' \<notin> set a"
  shows "urldecode_expand_value env (''xcdr='' @ a @ ''&cdr='' @ v) (Some ''cdr'') 3 True = Inr (apreq_decode env a)"
proof -
  let ?u = "''xcdr='' @ a @ ''&cdr='' @ v"
  have "c_strstr (''x'' @ (''cdr='' @ a @ ''&cdr='' @ v)) ''cdr='' = Some 1"
    using c_strstr_skip [of "CHR ''c''" "''x''" "''cdr='' @ a @ ''&cdr='' @ v" "''dr=''"]
      c_strstr_here [of "''cdr=''" "a @ ''&cdr='' @ v"] by simp
  then have s: "c_strstr ?u ''cdr='' = Some 1" by simp
  have "takeWhile (\<lambda>c. c \<noteq> CHR ''&'') (a @ ''&cdr='' @ v) = a"
    using takeWhile_until [OF assms(2)] by simp
  then show ?thesis using s assms(1) by (simp add: urldecode_expand_value_def)
qed

subsection \<open>Witnesses\<close>

text \<open>An instance of the documented operations: a map and the list of its keys.\<close>

definition sample_ght :: "(string \<Rightarrow> stmtexp_entry option) ght_ops" where
  "sample_ght = \<lparr>ght_new = Map.empty,
     ght_lookup = (\<lambda>h k. case h k of None \<Rightarrow> None | Some e \<Rightarrow> Some (e\<lparr>se_stmt_var := k\<rparr>)),
     ght_replace = (\<lambda>h e. h(se_stmt_var e \<mapsto> e)),
     ght_foreach = (\<lambda>f h k. map_option (\<lambda>e. f (e\<lparr>se_stmt_var := k\<rparr>)) (h k))\<rparr>"

lemma sample_ght_documented: "ght_documented sample_ght"
proof -
  have "e\<lparr>se_stmt_var := se_stmt_var e\<rparr> = e" for e by (cases e) simp
  moreover have "f (e\<lparr>se_stmt_var := k\<rparr>)\<lparr>se_stmt_var := k\<rparr> = f (e\<lparr>se_stmt_var := k\<rparr>)"
    if f: "\<forall>e. se_stmt_var (f e) = se_stmt_var e" for f :: "stmtexp_entry \<Rightarrow> stmtexp_entry" and e k
  proof -
    have "se_stmt_var (f (e\<lparr>se_stmt_var := k\<rparr>)) = k" using f by simp
    then show ?thesis by (cases "f (e\<lparr>se_stmt_var := k\<rparr>)") simp
  qed
  ultimately show ?thesis
    unfolding ght_documented_def sample_ght_def by (auto split: option.splits)
qed

definition sample_cdr_env :: cdr_env where
  "sample_cdr_env = \<lparr>apreq_encode = (\<lambda>s. s), apreq_decode = (\<lambda>s. s), pcre_match = (\<lambda>r t. if r = t then 1 else - 1)\<rparr>"

definition sample_xml :: "string \<Rightarrow> (string \<Rightarrow> xp_result) option" where
  "sample_xml doc = Some (\<lambda>p. if p = ''/cdr'' then XP_Nodes [(False, doc)] else XP_Nodes [])"

definition sample_plugin :: "uint32_t \<Rightarrow> plugin_tag" where
  "sample_plugin n = \<lparr>pt_fname = [], pt_options = [], pt_priority = n, pt_metrics = [\<lparr>mt_metric = ''v'', mt_regexp = ''5''\<rparr>]\<rparr>"

definition sample_vars :: "string \<Rightarrow> stmtexp_entry option" where
  "sample_vars = [''v'' \<mapsto> \<lparr>se_stmt_var = ''v'', se_xpath = ''/cdr'', se_val = None\<rparr>]"


theorem statement_filled_witness:
  "mysqlcdr_main 0 sample_ght (sample_vars(''v'' \<mapsto> \<lparr>se_stmt_var = ''v'', se_xpath = ''/cdr'', se_val = Some ''5''\<rparr>))
     ''call $<v>;'' 2 \<lparr>my_escape = (\<lambda>s. s), my_results = [], my_sent = []\<rparr> =
   Inr (True, \<lparr>my_escape = (\<lambda>s. s), my_results = [], my_sent = [''call 5;'']\<rparr>)"
  using statement_filled [of "[Text ''call '', Var ''v'', Text '';'']" "\<lparr>my_escape = (\<lambda>s. s), my_results = [], my_sent = []\<rparr>"
      0 sample_ght "sample_vars(''v'' \<mapsto> \<lparr>se_stmt_var = ''v'', se_xpath = ''/cdr'', se_val = Some ''5''\<rparr>)" 1]
  by (simp add: VARID_LEN_def stmtexp_lookup_var_def var_key_def STMTEXPAND_STRLEN_MAX_def sample_ght_def numeral_2_eq_2)

theorem long_name_overruns_witness:
  "stmtexp_expand_str sample_ght Map.empty (''$<'' @ replicate 600 (CHR ''a'') @ ''>'' @ []) (600 + 3 + 0) = Inl Out_Of_Bounds"
  using long_name_overruns [of "replicate 600 (CHR ''a'')" sample_ght Map.empty "[]" 0] by (simp add: VARID_LEN_def)

theorem key_inside_other_key_witness:
  "urldecode_expand_value sample_cdr_env ''xcdr=1&cdr=2'' (Some ''cdr'') 3 True = Inr ''1''"
  using key_inside_other_key [of sample_cdr_env "''1''" "''2''"] by (simp add: sample_cdr_env_def)

end
