(* ===== verification/Radcdr.thy ===== *)
theory Radcdr
  imports Radius Xmlcdr
begin

text \<open>
  \<open>nazim/xmlcdrd/plugins/radcdr/radcdr.c\<close>: the plugin of \<open>xmlcdrd\<close> that sends the record of a call to a
  RADIUS server.  A handle that was destroyed is \<open>None\<close>; the code goes on with it.
\<close>

subsection \<open>The configuration\<close>

definition SERVER_MAX :: nat where "SERVER_MAX = 8"
definition VSASLEN_MAX :: nat where "VSASLEN_MAX = 128"

datatype rad_vsa_type = radvsa_string | radvsa_integer

record rad_vsa =
  rv_var_name :: string
  rv_vsa_name :: string
  rv_id :: int
  rv_pec :: int
  rv_type :: rad_vsa_type

text \<open>\<open>vsas\<close> is \<open>None\<close> when it is a null pointer.\<close>

record radcdr_vars =
  rc_dictionary :: string
  rc_seqfile :: string
  rc_deadtime :: string
  rc_timeout :: string
  rc_retries :: string
  rc_servers :: "string list"
  rc_cf :: string
  rc_vsas :: "rad_vsa list option"
  rc_vsas_count :: nat

text \<open>
  What \<open>libconfig\<close> finds in the file: strings by their names, the host of every server, and the settings
  of every attribute.
\<close>

record vsa_setting =
  vs_var_name :: "string option"
  vs_vsa_name :: "string option"
  vs_id :: "int option"
  vs_pec :: "int option"
  vs_type :: "string option"

record radcdr_file =
  rf_string :: "string \<Rightarrow> string option"
  rf_servers :: "string option list option"
  rf_vsas :: "vsa_setting list option"

definition fitted :: "string \<Rightarrow> string" where
  "fitted t = take (XCDR_PLUGIN_STRMAXLEN - 1) t"

text \<open>
  \<open>strncpy\<close> into an array of \<open>n\<close> characters, which is printed afterwards: a text that fills it has no NUL.
\<close>

definition strncpy_printed :: "nat \<Rightarrow> string \<Rightarrow> crash + string" where
  "strncpy_printed n t = (if length t < n then Inr t else Inl Out_Of_Bounds)"

text \<open>The servers: one without a host leaves its place empty.\<close>

fun load_servers :: "string option list \<Rightarrow> crash + string list" where
  "load_servers [] = Inr []"
| "load_servers (host # hosts) =
     (case (case host of None \<Rightarrow> Inr [] | Some t \<Rightarrow> strncpy_printed XCDR_PLUGIN_STRMAXLEN t) of
        Inl e \<Rightarrow> Inl e
      | Inr s \<Rightarrow> (case load_servers hosts of Inl e \<Rightarrow> Inl e | Inr ss \<Rightarrow> Inr (s # ss)))"

text \<open>\<open>strncasecmp\<close> over the length of the word \<open>integer\<close>.\<close>

definition vsa_type :: "string \<Rightarrow> rad_vsa_type" where
  "vsa_type t = (if c_strcaseeq (take 7 t) ''integer'' then radvsa_integer else radvsa_string)"

definition zeroed_vsa :: rad_vsa where
  "zeroed_vsa = \<lparr>rv_var_name = [], rv_vsa_name = [], rv_id = 0, rv_pec = 0, rv_type = radvsa_string\<rparr>"

definition c_int_of :: "int \<Rightarrow> int" where
  "c_int_of v = sint (word_of_int v :: 32 word)"

definition load_vsa :: "vsa_setting \<Rightarrow> crash + rad_vsa" where
  "load_vsa s =
     (case (vs_var_name s, vs_vsa_name s, vs_id s, vs_pec s, vs_type s) of
        (Some var, Some vsa, Some i, Some pec, Some ty) \<Rightarrow>
          (case (strncpy_printed VSASLEN_MAX var, strncpy_printed VSASLEN_MAX vsa) of
             (Inr var1, Inr vsa1) \<Rightarrow>
               Inr \<lparr>rv_var_name = var1, rv_vsa_name = vsa1, rv_id = c_int_of i, rv_pec = c_int_of pec, rv_type = vsa_type ty\<rparr>
           | _ \<Rightarrow> Inl Out_Of_Bounds)
      | _ \<Rightarrow> Inr zeroed_vsa)"

fun load_vsas :: "vsa_setting list \<Rightarrow> crash + rad_vsa list" where
  "load_vsas [] = Inr []"
| "load_vsas (s # ss) =
     (case load_vsa s of
        Inl e \<Rightarrow> Inl e
      | Inr v \<Rightarrow> (case load_vsas ss of Inl e \<Rightarrow> Inl e | Inr vs \<Rightarrow> Inr (v # vs)))"

text \<open>
  \<open>plugin_config\<close>.  The file is \<open>None\<close> when it cannot be parsed; \<open>room\<close> says whether \<open>calloc\<close> succeeds.  The
  three times are set to their defaults after they were read.
\<close>

definition radcdr_config :: "radcdr_file option \<Rightarrow> bool \<Rightarrow> radcdr_vars \<Rightarrow> crash + int \<times> radcdr_vars" where
  "radcdr_config file room v =
     (let v0 = v\<lparr>rc_dictionary := [], rc_seqfile := [], rc_deadtime := [], rc_timeout := [], rc_retries := [],
                 rc_cf := [], rc_servers := replicate SERVER_MAX []\<rparr>
      in case file of
           None \<Rightarrow> Inr (- 1, v0)
         | Some f \<Rightarrow>
             (let v1 = v0\<lparr>rc_cf := (case rf_string f ''config_file'' of Some t \<Rightarrow> fitted t | None \<Rightarrow> []),
                  rc_dictionary := (case rf_string f ''dictionary'' of Some t \<Rightarrow> fitted t | None \<Rightarrow> ''/etc/xmlcdrd/radius/dictionary''),
                  rc_seqfile := (case rf_string f ''seq_file'' of Some t \<Rightarrow> fitted t | None \<Rightarrow> ''/tmp/radcdr_seq''),
                  rc_deadtime := ''0'', rc_timeout := ''5'', rc_retries := ''3''\<rparr>
              in case load_servers (take SERVER_MAX (case rf_servers f of None \<Rightarrow> [] | Some hs \<Rightarrow> hs)) of
                   Inl e \<Rightarrow> Inl e
                 | Inr ss \<Rightarrow>
                     (let v2 = v1\<lparr>rc_servers := ss @ replicate (SERVER_MAX - length ss) []\<rparr>
                      in case rf_vsas f of
                           None \<Rightarrow> Inr (0, v2)
                         | Some vs \<Rightarrow>
                             (let v3 = v2\<lparr>rc_vsas_count := length vs\<rparr>
                              in if \<not> room then Inr (0, v3\<lparr>rc_vsas := None\<rparr>)
                                 else (case load_vsas vs of
                                         Inl e \<Rightarrow> Inl e
                                       | Inr vsas \<Rightarrow> Inr (0, v3\<lparr>rc_vsas := Some vsas\<rparr>))))))"

text \<open>\<open>plugin_init\<close> passes over a configuration that failed.\<close>

definition PLUG_STATUS_OK :: int where "PLUG_STATUS_OK = 0"
definition PLUG_STATUS_ERROR :: int where "PLUG_STATUS_ERROR = - 1"

definition radcdr_zeroed :: radcdr_vars where
  "radcdr_zeroed =
     \<lparr>rc_dictionary = [], rc_seqfile = [], rc_deadtime = [], rc_timeout = [], rc_retries = [],
      rc_servers = replicate SERVER_MAX [], rc_cf = [], rc_vsas = None, rc_vsas_count = 0\<rparr>"

definition radcdr_init :: "bool \<Rightarrow> radcdr_file option \<Rightarrow> bool \<Rightarrow> crash + int \<times> radcdr_vars option" where
  "radcdr_init got file room =
     (if \<not> got then Inr (PLUG_STATUS_ERROR, None)
      else (case radcdr_config file room radcdr_zeroed of
              Inl e \<Rightarrow> Inl e
            | Inr (_, v) \<Rightarrow> Inr (PLUG_STATUS_OK, Some v)))"

subsection \<open>The client\<close>

definition radius_init :: "('h, 'p) rc_client \<Rightarrow> radcdr_vars \<Rightarrow> crash + 'h option" where
  "radius_init lib v =
     (case rc_new lib of
        None \<Rightarrow> Inr None
      | Some h0 \<Rightarrow>
          (case rc_config_init lib h0 of
             None \<Rightarrow> (case rc_destroy_null lib of Some e \<Rightarrow> Inl e | None \<Rightarrow> Inr None)
           | Some h1 \<Rightarrow>
               Inr (do {
                 h2 \<leftarrow> rc_add_config lib h1 ''auth_order'' ''radius'' ''config'';
                 h3 \<leftarrow> rc_add_config lib h2 ''seqfile'' (rc_seqfile v) ''config'';
                 h4 \<leftarrow> add_servers lib ''acctserver'' (rc_cf v) (rc_servers v) h3;
                 h5 \<leftarrow> rc_add_config lib h4 ''dictionary'' (rc_dictionary v) (rc_cf v);
                 h6 \<leftarrow> rc_add_config lib h5 ''radius_deadtime'' (rc_deadtime v) (rc_cf v);
                 h7 \<leftarrow> rc_add_config lib h6 ''radius_timeout'' (rc_timeout v) (rc_cf v);
                 h8 \<leftarrow> rc_add_config lib h7 ''radius_retries'' (rc_retries v) (rc_cf v);
                 rc_read_dictionary lib h8 (rc_conf_str lib h8 ''dictionary'') })))"

subsection \<open>A record\<close>

definition add_pair ::
    "('h, 'p) rc_client \<Rightarrow> 'h option \<Rightarrow> 'p \<Rightarrow> rad_attr \<Rightarrow> avp_value \<Rightarrow> int \<Rightarrow> crash + 'p option" where
  "add_pair lib h send a v pec =
     (case h of None \<Rightarrow> Inl Use_After_Free | Some h1 \<Rightarrow> rc_avpair_add lib h1 send a v pec)"

text \<open>One of the first two attributes: on a failure the handle is destroyed.\<close>

definition add_fixed ::
    "('h, 'p) rc_client \<Rightarrow> 'h option \<Rightarrow> 'p \<Rightarrow> rad_attr \<Rightarrow> avp_value \<Rightarrow> crash + 'h option \<times> 'p" where
  "add_fixed lib h send a v =
     (case add_pair lib h send a v 0 of
        Inl e \<Rightarrow> Inl e
      | Inr None \<Rightarrow> Inr (None, send)
      | Inr (Some send1) \<Rightarrow> Inr (h, send1))"

text \<open>
  The configured attributes whose variables have a value.  The first that is refused ends the loop.
  \<open>url_text\<close> is the text \<open>apreq_decode\<close> leaves in the buffer.
\<close>

definition vsa_value :: "(string \<Rightarrow> string) \<Rightarrow> rad_vsa \<Rightarrow> string \<Rightarrow> avp_value" where
  "vsa_value url_text vsa t =
     (if rv_type vsa = radvsa_string then Avp_Text (Some (url_text t)) else Avp_Number (c_atoi (url_text t)))"

fun add_vsas ::
    "('h, 'p) rc_client \<Rightarrow> (string \<Rightarrow> string) \<Rightarrow> (string \<Rightarrow> string option) \<Rightarrow> 'h option \<Rightarrow> rad_vsa list \<Rightarrow> 'p \<Rightarrow> crash + 'p" where
  "add_vsas lib url_text lookup_var h [] send = Inr send"
| "add_vsas lib url_text lookup_var h (vsa # vsas) send =
     (case lookup_var (rv_var_name vsa) of
        None \<Rightarrow> add_vsas lib url_text lookup_var h vsas send
      | Some t \<Rightarrow>
          (case add_pair lib h send (Numbered_Attr (rv_id vsa)) (vsa_value url_text vsa t) (rv_pec vsa) of
             Inl e \<Rightarrow> Inl e
           | Inr None \<Rightarrow> Inr send
           | Inr (Some send1) \<Rightarrow> add_vsas lib url_text lookup_var h vsas send1))"

definition add_custom_vsas ::
    "('h, 'p) rc_client \<Rightarrow> (string \<Rightarrow> string) \<Rightarrow> (string \<Rightarrow> string option) \<Rightarrow> 'h option \<Rightarrow> radcdr_vars \<Rightarrow> 'p \<Rightarrow> crash + 'p" where
  "add_custom_vsas lib url_text lookup_var h v send =
     (if rc_vsas_count v = 0 then Inr send
      else (case rc_vsas v of
              None \<Rightarrow> Inl Null_Deref
            | Some vsas \<Rightarrow> add_vsas lib url_text lookup_var h vsas send))"

definition PW_STATUS_STOP :: int where "PW_STATUS_STOP = 2"

definition radcdr_main ::
    "('h, 'p) rc_client \<Rightarrow> (string \<Rightarrow> string) \<Rightarrow> 't ght_ops \<Rightarrow> 't \<Rightarrow> radcdr_vars \<Rightarrow> crash + int" where
  "radcdr_main lib url_text ops vex v =
     (case radius_init lib v of
        Inl e \<Rightarrow> Inl e
      | Inr None \<Rightarrow> Inr PLUG_STATUS_ERROR
      | Inr (Some h) \<Rightarrow>
          (case add_fixed lib (Some h) (rc_no_pairs lib) PW_ACCT_STATUS_TYPE (Avp_Number PW_STATUS_STOP) of
             Inl e \<Rightarrow> Inl e
           | Inr (h1, send1) \<Rightarrow>
               (case add_fixed lib h1 send1 PW_ACCT_SESSION_ID (Avp_Text (stmtexp_lookup_var ops vex ''uuid'')) of
                  Inl e \<Rightarrow> Inl e
                | Inr (h2, send2) \<Rightarrow>
                    (case add_custom_vsas lib url_text (stmtexp_lookup_var ops vex) h2 v send2 of
                       Inl e \<Rightarrow> Inl e
                     | Inr send3 \<Rightarrow>
                         (case h2 of
                            None \<Rightarrow> Inl Use_After_Free
                          | Some h3 \<Rightarrow> Inr (if rc_acct lib h3 send3 then PLUG_STATUS_OK else PLUG_STATUS_ERROR))))))"

subsection \<open>What the client is configured with\<close>

definition host_text :: "string option \<Rightarrow> string" where
  "host_text host = (case host of None \<Rightarrow> [] | Some t \<Rightarrow> t)"

lemma servers_loaded: "load_servers hosts = Inr ss \<Longrightarrow> ss = map host_text hosts"
  by (induction hosts arbitrary: ss) (auto simp: strncpy_printed_def host_text_def split: sum.splits option.splits if_splits)

definition file_servers :: "radcdr_file \<Rightarrow> string list" where
  "file_servers f = takeWhile (\<lambda>s. s \<noteq> []) (map host_text (take SERVER_MAX (case rf_servers f of None \<Rightarrow> [] | Some hs \<Rightarrow> hs)))"

lemma takeWhile_padded: "takeWhile (\<lambda>s. s \<noteq> []) (ss @ replicate n []) = takeWhile (\<lambda>s. s \<noteq> []) ss"
  by (induction ss) (cases n, auto)

text \<open>The settings of the file that a configuration gives.\<close>

lemma config_given:
  assumes "radcdr_config (Some f) room v0 = Inr (r, v)"
  shows "rc_seqfile v = (case rf_string f ''seq_file'' of Some t \<Rightarrow> fitted t | None \<Rightarrow> ''/tmp/radcdr_seq'')"
    "rc_dictionary v = (case rf_string f ''dictionary'' of Some t \<Rightarrow> fitted t | None \<Rightarrow> ''/etc/xmlcdrd/radius/dictionary'')"
    "rc_deadtime v = ''0'' \<and> rc_timeout v = ''5'' \<and> rc_retries v = ''3''"
    "takeWhile (\<lambda>s. s \<noteq> []) (rc_servers v) = file_servers f"
proof -
  obtain ss where ss: "load_servers (take SERVER_MAX (case rf_servers f of None \<Rightarrow> [] | Some hs \<Rightarrow> hs)) = Inr ss"
    using assms by (auto simp: radcdr_config_def Let_def split: sum.splits)
  note cfg = assms [unfolded radcdr_config_def Let_def, simplified, unfolded ss, simplified]
  show "rc_seqfile v = (case rf_string f ''seq_file'' of Some t \<Rightarrow> fitted t | None \<Rightarrow> ''/tmp/radcdr_seq'')"
    "rc_dictionary v = (case rf_string f ''dictionary'' of Some t \<Rightarrow> fitted t | None \<Rightarrow> ''/etc/xmlcdrd/radius/dictionary'')"
    "rc_deadtime v = ''0'' \<and> rc_timeout v = ''5'' \<and> rc_retries v = ''3''"
    using cfg by (auto split: option.splits if_splits sum.splits)
  have "rc_servers v = ss @ replicate (SERVER_MAX - length ss) []"
    using cfg by (auto split: option.splits if_splits sum.splits)
  then show "takeWhile (\<lambda>s. s \<noteq> []) (rc_servers v) = file_servers f"
    by (simp add: takeWhile_padded file_servers_def servers_loaded [OF ss])
qed

lemma init_options:
  assumes "options_recorded lib opts" "radius_init lib v = Inr (Some h)"
  shows "opts h =
    [(''auth_order'', ''radius''), (''seqfile'', rc_seqfile v)] @
    map (\<lambda>s. (''acctserver'', s)) (takeWhile (\<lambda>s. s \<noteq> []) (rc_servers v)) @
    [(''dictionary'', rc_dictionary v), (''radius_deadtime'', rc_deadtime v), (''radius_timeout'', rc_timeout v),
     (''radius_retries'', rc_retries v)]"
  using assms(2) unfolding radius_init_def
  by (auto simp: options_recordedD [OF assms(1)] servers_added [OF assms(1)] split: option.splits bind_splits)

subsection \<open>What is sent\<close>

definition vsa_pairs ::
    "(string \<Rightarrow> string) \<Rightarrow> (string \<Rightarrow> string option) \<Rightarrow> rad_vsa list \<Rightarrow> (rad_attr \<times> int \<times> avp_value) list" where
  "vsa_pairs url_text lookup_var vsas =
     concat (map (\<lambda>vsa. case lookup_var (rv_var_name vsa) of
                          None \<Rightarrow> []
                        | Some t \<Rightarrow> [(Numbered_Attr (rv_id vsa), rv_pec vsa, vsa_value url_text vsa t)]) vsas)"

lemma vsas_added:
  assumes "pairs_recorded lib pairs" "accepts_pairs lib h"
  shows "\<exists>send1. add_vsas lib url_text lookup_var (Some h) vsas send = Inr send1 \<and>
    pairs send1 = pairs send @ vsa_pairs url_text lookup_var vsas"
proof (induction vsas arbitrary: send)
  case Nil
  then show ?case by (simp add: vsa_pairs_def)
next
  case (Cons vsa vsas)
  show ?case
  proof (cases "lookup_var (rv_var_name vsa)")
    case None
    with Cons [of send] show ?thesis by (simp add: vsa_pairs_def)
  next
    case (Some t)
    have "vsa_value url_text vsa t \<noteq> Avp_Text None" by (simp add: vsa_value_def)
    then obtain p1 where p1: "rc_avpair_add lib h send (Numbered_Attr (rv_id vsa)) (vsa_value url_text vsa t) (rv_pec vsa) = Inr (Some p1)"
      using assms(2) unfolding accepts_pairs_def by blast
    with Cons [of p1] Some show ?thesis
      by (simp add: vsa_pairs_def add_pair_def pairs_recordedD(2) [OF assms(1) p1])
  qed
qed

lemma main_sends:
  assumes "pairs_recorded lib pairs" "radius_init lib v = Inr (Some h)" "accepts_pairs lib h"
    "stmtexp_lookup_var ops vex ''uuid'' = Some u" "rc_vsas v = Some vsas"
    "rc_vsas_count v = length vsas"
  shows "\<exists>send. radcdr_main lib url_text ops vex v = Inr (if rc_acct lib h send then PLUG_STATUS_OK else PLUG_STATUS_ERROR) \<and>
    pairs send =
      [(PW_ACCT_STATUS_TYPE, 0, Avp_Number PW_STATUS_STOP), (PW_ACCT_SESSION_ID, 0, Avp_Text (Some u))] @
      vsa_pairs url_text (stmtexp_lookup_var ops vex) vsas"
proof -
  obtain p1 where p1: "rc_avpair_add lib h (rc_no_pairs lib) PW_ACCT_STATUS_TYPE (Avp_Number PW_STATUS_STOP) 0 = Inr (Some p1)"
    using assms(3) unfolding accepts_pairs_def by blast
  obtain p2 where p2: "rc_avpair_add lib h p1 PW_ACCT_SESSION_ID (Avp_Text (Some u)) 0 = Inr (Some p2)"
    using assms(3) unfolding accepts_pairs_def by blast
  obtain send where send: "add_vsas lib url_text (stmtexp_lookup_var ops vex) (Some h) vsas p2 = Inr send"
    "pairs send = pairs p2 @ vsa_pairs url_text (stmtexp_lookup_var ops vex) vsas"
    using vsas_added [OF assms(1,3)] by blast
  have "add_custom_vsas lib url_text (stmtexp_lookup_var ops vex) (Some h) v p2 = Inr send"
    using send(1) assms(5,6) by (cases vsas) (simp_all add: add_custom_vsas_def)
  then have "radcdr_main lib url_text ops vex v = Inr (if rc_acct lib h send then PLUG_STATUS_OK else PLUG_STATUS_ERROR)"
    using assms(2,4) p1 p2 by (simp add: radcdr_main_def add_fixed_def add_pair_def)
  moreover have "pairs send = [(PW_ACCT_STATUS_TYPE, 0, Avp_Number PW_STATUS_STOP), (PW_ACCT_SESSION_ID, 0, Avp_Text (Some u))] @
      vsa_pairs url_text (stmtexp_lookup_var ops vex) vsas"
    by (simp add: send(2) pairs_recordedD(2) [OF assms(1) p2] pairs_recordedD(2) [OF assms(1) p1] pairs_recordedD(1) [OF assms(1)])
  ultimately show ?thesis by blast
qed

subsection \<open>The properties\<close>

text \<open>
  With a client that accepts the attributes, the record of a call is sent as one request: the end of the call, its
  identifier, and the configured attributes whose variables have a value, in the order of the file with their
  decoded values; the plugin reports what the server said.
\<close>

theorem record_accounted:
  assumes "pairs_recorded lib pairs" "radius_init lib v = Inr (Some h)" "accepts_pairs lib h"
    "stmtexp_lookup_var ops vex ''uuid'' = Some u" "rc_vsas v = Some vsas" "rc_vsas_count v = length vsas"
  shows "\<exists>send. radcdr_main lib url_text ops vex v = Inr (if rc_acct lib h send then PLUG_STATUS_OK else PLUG_STATUS_ERROR) \<and>
    pairs send =
      [(PW_ACCT_STATUS_TYPE, 0, Avp_Number PW_STATUS_STOP), (PW_ACCT_SESSION_ID, 0, Avp_Text (Some u))] @
      vsa_pairs url_text (stmtexp_lookup_var ops vex) vsas"
  by (rule main_sends [OF assms])

definition radcdr_example_file :: radcdr_file where
  "radcdr_example_file =
     \<lparr>rf_string = [''timeout'' \<mapsto> ''60'', ''dictionary'' \<mapsto> ''/d''],
      rf_servers = Some [Some ''a'', None, Some ''b''],
      rf_vsas = Some [\<lparr>vs_var_name = Some ''billsec'', vs_vsa_name = Some ''Sec'', vs_id = Some 15, vs_pec = Some 27880, vs_type = Some ''Integer''\<rparr>]\<rparr>"

definition radcdr_example :: radcdr_vars where
  "radcdr_example =
     \<lparr>rc_dictionary = ''/d'', rc_seqfile = ''/tmp/radcdr_seq'', rc_deadtime = ''0'', rc_timeout = ''5'', rc_retries = ''3'',
      rc_servers = [''a'', [], ''b'', [], [], [], [], []], rc_cf = [],
      rc_vsas = Some [\<lparr>rv_var_name = ''billsec'', rv_vsa_name = ''Sec'', rv_id = 15, rv_pec = 27880, rv_type = radvsa_integer\<rparr>],
      rc_vsas_count = 1\<rparr>"

lemma radcdr_example_config: "radcdr_config (Some radcdr_example_file) True radcdr_zeroed = Inr (0, radcdr_example)"
  by code_simp

lemma radcdr_example_init:
  "radius_init documented_client radcdr_example =
     Inr (Some [(''auth_order'', ''radius''), (''seqfile'', ''/tmp/radcdr_seq''), (''acctserver'', ''a''), (''dictionary'', ''/d''),
       (''radius_deadtime'', ''0''), (''radius_timeout'', ''5''), (''radius_retries'', ''3'')])"
  by code_simp

text \<open>
  Whatever times and retries the file gives, the client is configured with its file names, the servers up to the first
  one without a host, and always with 0, 5 and 3.
\<close>

theorem times_never_configured:
  assumes "options_recorded lib opts" "radcdr_config (Some f) room v0 = Inr (r, v)" "radius_init lib v = Inr (Some h)"
  shows "opts h =
    [(''auth_order'', ''radius''),
     (''seqfile'', case rf_string f ''seq_file'' of Some t \<Rightarrow> fitted t | None \<Rightarrow> ''/tmp/radcdr_seq'')] @
    map (\<lambda>s. (''acctserver'', s)) (file_servers f) @
    [(''dictionary'', case rf_string f ''dictionary'' of Some t \<Rightarrow> fitted t | None \<Rightarrow> ''/etc/xmlcdrd/radius/dictionary''),
     (''radius_deadtime'', ''0''), (''radius_timeout'', ''5''), (''radius_retries'', ''3'')]"
  using init_options [OF assms(1,3)] by (simp only: config_given [OF assms(2)])

text \<open>
  When an attribute every request has is refused, the handle is destroyed and nevertheless used: the plugin never
  returns from such a call.
\<close>

theorem refused_attribute_crashes:
  assumes "radius_init lib v = Inr (Some h)"
    "rc_avpair_add lib h (rc_no_pairs lib) PW_ACCT_STATUS_TYPE (Avp_Number PW_STATUS_STOP) 0 = Inr (Some p1)"
    "rc_avpair_add lib h p1 PW_ACCT_SESSION_ID (Avp_Text (stmtexp_lookup_var ops vex ''uuid'')) 0 = Inr None"
  shows "\<exists>e. radcdr_main lib url_text ops vex v = Inl e"
  using assms
  by (cases "add_custom_vsas lib url_text (stmtexp_lookup_var ops vex) None v p1")
    (simp_all add: radcdr_main_def add_fixed_def add_pair_def)

text \<open>Witnesses.\<close>

definition radcdr_call :: "string \<Rightarrow> stmtexp_entry option" where
  "radcdr_call =
     [''uuid'' \<mapsto> \<lparr>se_stmt_var = ''uuid'', se_xpath = ''/u'', se_val = Some ''c1''\<rparr>,
      ''billsec'' \<mapsto> \<lparr>se_stmt_var = ''billsec'', se_xpath = ''/b'', se_val = Some ''42''\<rparr>]"

lemma radcdr_call_vars:
  "stmtexp_lookup_var sample_ght radcdr_call ''uuid'' = Some ''c1''"
  "stmtexp_lookup_var sample_ght radcdr_call ''billsec'' = Some ''42''"
  "stmtexp_lookup_var sample_ght Map.empty ''uuid'' = None"
  by (simp_all add: stmtexp_lookup_var_def var_key_def STMTEXPAND_STRLEN_MAX_def sample_ght_def radcdr_call_def)

theorem record_accounted_witness:
  "radcdr_main documented_client id sample_ght radcdr_call radcdr_example = Inr PLUG_STATUS_OK \<and>
   vsa_pairs id (stmtexp_lookup_var sample_ght radcdr_call) (the (rc_vsas radcdr_example)) =
     [(Numbered_Attr 15, 27880, Avp_Number 42)]"
proof -
  have "c_atoi ''42'' = 42" by code_simp
  then have vsa: "vsa_pairs id (stmtexp_lookup_var sample_ght radcdr_call) (the (rc_vsas radcdr_example)) =
     [(Numbered_Attr 15, 27880, Avp_Number 42)]"
    by (simp add: vsa_pairs_def radcdr_example_def radcdr_call_vars vsa_value_def)
  have "rc_acct documented_client h p" for h p by (simp add: documented_client_def)
  moreover have "rc_vsas radcdr_example = Some (the (rc_vsas radcdr_example))"
    "rc_vsas_count radcdr_example = length (the (rc_vsas radcdr_example))" by (simp_all add: radcdr_example_def)
  ultimately show ?thesis
    using record_accounted [OF documented_client_pairs radcdr_example_init documented_client_accepts radcdr_call_vars(1), of _ id] vsa by fastforce
qed

theorem times_never_configured_witness:
  "radcdr_config (Some radcdr_example_file) True radcdr_zeroed = Inr (0, radcdr_example) \<and>
   rf_string radcdr_example_file ''timeout'' = Some ''60'' \<and>
   (\<exists>h. radius_init documented_client radcdr_example = Inr (Some h) \<and> (''radius_timeout'', ''5'') \<in> set h)"
proof -
  obtain h where h: "radius_init documented_client radcdr_example = Inr (Some h)" using radcdr_example_init by blast
  note c = times_never_configured [OF documented_client_options radcdr_example_config h]
  have "(''radius_timeout'', ''5'') \<in> set (id h)" unfolding c by simp
  moreover have "rf_string radcdr_example_file ''timeout'' = Some ''60''" by (simp add: radcdr_example_file_def)
  ultimately show ?thesis using h radcdr_example_config by simp
qed

definition client_without_null :: "((string \<times> string) list, (rad_attr \<times> int \<times> avp_value) list) rc_client" where
  "client_without_null =
     documented_client\<lparr>rc_avpair_add := (\<lambda>h p a v n. if v = Avp_Text None then Inr None else Inr (Some (p @ [(a, n, v)])))\<rparr>"

theorem refused_attribute_crashes_witness:
  "\<exists>e. radcdr_main client_without_null id sample_ght Map.empty radcdr_example = Inl e"
proof -
  have "radius_init client_without_null radcdr_example =
    Inr (Some [(''auth_order'', ''radius''), (''seqfile'', ''/tmp/radcdr_seq''), (''acctserver'', ''a''), (''dictionary'', ''/d''),
       (''radius_deadtime'', ''0''), (''radius_timeout'', ''5''), (''radius_retries'', ''3'')])"
    by code_simp
  then show ?thesis
    by (rule refused_attribute_crashes) (simp_all add: client_without_null_def documented_client_def radcdr_call_vars)
qed

end
