(* ===== verification/Xmlcdr_Daemon.thy ===== *)
theory Xmlcdr_Daemon
  imports Radcdr
begin

text \<open>
  The daemon \<open>xmlcdrd\<close> as a whole (\<open>nazim/xmlcdrd\<close>): loading and freeing plugins (\<open>plug.c\<close>, \<open>plugldr.c\<close>), the loop
  over the requests (\<open>main.c\<close>), messages (\<open>log.c\<close>) and the plugin \<open>luaexec\<close>.
\<close>

subsection \<open>A library with a plugin\<close>

text \<open>
  What \<open>dlopen\<close> finds: the symbols, the name the plugin gives, whether its \<open>plugin_init\<close> succeeds with the options, and
  what its \<open>plugin_free\<close> runs into, when \<open>plugin_init\<close> succeeded and when it did not.
\<close>

record plugin_lib =
  lb_symbols :: "string list"
  lb_name :: string
  lb_init :: "string \<Rightarrow> string \<Rightarrow> bool"
  lb_free :: "bool \<Rightarrow> crash option"

text \<open>The entry of a plugin: the library when its handle is not null, whether the pointer to \<open>plugin_free\<close> is set, and its state.\<close>

record plug_info =
  pi_lib :: "plugin_lib option"
  pi_free :: bool
  pi_ready :: bool

definition zeroed_plug :: plug_info where
  "zeroed_plug = \<lparr>pi_lib = None, pi_free = False, pi_ready = False\<rparr>"

definition plugin_symbols :: "string list" where
  "plugin_symbols = [''plugin_get_name'', ''plugin_get_description'', ''plugin_init'', ''plugin_free'', ''plugin_main'']"

definition XCDR_PLUGIN_NAME_LEN_MAX :: nat where "XCDR_PLUGIN_NAME_LEN_MAX = 64"

text \<open>\<open>plug_init\<close>: whether it succeeds.  A name that fills its array is printed when \<open>plugin_init\<close> fails.\<close>

definition plug_init :: "plugin_lib option \<Rightarrow> string \<Rightarrow> string \<Rightarrow> crash + bool \<times> plug_info" where
  "plug_init lib filename options =
     (case lib of
        None \<Rightarrow> Inr (False, zeroed_plug)
      | Some l \<Rightarrow>
          (let found = takeWhile (\<lambda>s. s \<in> set (lb_symbols l)) plugin_symbols;
               p = \<lparr>pi_lib = Some l, pi_free = (''plugin_free'' \<in> set found), pi_ready = False\<rparr>
           in if length found < length plugin_symbols then Inr (False, p)
              else if lb_init l filename options then Inr (True, p\<lparr>pi_ready := True\<rparr>)
              else if XCDR_PLUGIN_NAME_LEN_MAX \<le> length (lb_name l) then Inl Out_Of_Bounds
              else Inr (False, p)))"

definition plug_free :: "plug_info \<Rightarrow> crash option" where
  "plug_free p =
     (case pi_lib p of
        None \<Rightarrow> None
      | Some l \<Rightarrow> if pi_free p then lb_free l (pi_ready p) else Some Null_Deref)"

text \<open>The loop of \<open>xcdr_plugldr_load_plugins\<close>: the entries behind one that fails stay zero.\<close>

fun load_plugs :: "(string \<Rightarrow> plugin_lib option) \<Rightarrow> plugin_tag list \<Rightarrow> crash + bool \<times> plug_info list" where
  "load_plugs libs [] = Inr (True, [])"
| "load_plugs libs (t # ts) =
     (case plug_init (libs (pt_fname t)) (pt_fname t) (pt_options t) of
        Inl e \<Rightarrow> Inl e
      | Inr (False, p) \<Rightarrow> Inr (False, p # map (\<lambda>_. zeroed_plug) ts)
      | Inr (True, p) \<Rightarrow>
          (case load_plugs libs ts of Inl e \<Rightarrow> Inl e | Inr (ok, ps) \<Rightarrow> Inr (ok, p # ps)))"

fun xcdr_plugldr_free_plugins :: "plug_info list \<Rightarrow> crash option" where
  "xcdr_plugldr_free_plugins [] = None"
| "xcdr_plugldr_free_plugins (p # ps) =
     (case plug_free p of Some e \<Rightarrow> Some e | None \<Rightarrow> xcdr_plugldr_free_plugins ps)"

subsection \<open>The loop over the requests\<close>

fun serve ::
    "cdr_env \<Rightarrow> 'h ght_ops \<Rightarrow> (string \<Rightarrow> (string \<Rightarrow> xp_result) option) \<Rightarrow> (plugin_tag \<Rightarrow> 'h \<Rightarrow> 'h) \<Rightarrow>
     plugin_tag list \<Rightarrow> string list \<Rightarrow> 'h \<Rightarrow> (plugin_tag \<times> 'h) list list" where
  "serve env ops xml plugin_main tags [] h = []"
| "serve env ops xml plugin_main tags (r # rs) h =
     (let (calls, h1) = handle_request env ops xml plugin_main tags r h in calls # serve env ops xml plugin_main tags rs h1)"

text \<open>
  What the daemon starts with: the plugins of the configuration and their directory, the libraries, and the variables of
  the configuration; \<open>None\<close> says that the file cannot be read.
\<close>

record xcdr_start =
  xs_plugins :: "plugin_setting list option"
  xs_dir :: string
  xs_libs :: "string \<Rightarrow> plugin_lib option"
  xs_vars :: "(string option \<times> string option) list option"

definition freed_then :: "plug_info list \<Rightarrow> 'a \<Rightarrow> crash + 'a" where
  "freed_then ps r = (case xcdr_plugldr_free_plugins ps of Some e \<Rightarrow> Inl e | None \<Rightarrow> Inr r)"

text \<open>\<open>main\<close>: its result, and for each request the plugins that were run with the variables they got.\<close>

definition xmlcdrd_main ::
    "cdr_env \<Rightarrow> 'h ght_ops \<Rightarrow> (string \<Rightarrow> (string \<Rightarrow> xp_result) option) \<Rightarrow> (plugin_tag \<Rightarrow> 'h \<Rightarrow> 'h) \<Rightarrow>
     xcdr_start \<Rightarrow> string list \<Rightarrow> crash + int \<times> (plugin_tag \<times> 'h) list list" where
  "xmlcdrd_main env ops xml plugin_main start requests =
     (case xs_plugins start of
        None \<Rightarrow> Inr (- 1, [])
      | Some settings \<Rightarrow>
          (let tags = xcdr_plugldr_load_config (xs_dir start) settings
           in if tags = [] then Inr (- 1, [])
              else (case load_plugs (xs_libs start) tags of
                      Inl e \<Rightarrow> Inl e
                    | Inr (False, ps) \<Rightarrow> freed_then ps (- 1, [])
                    | Inr (True, ps) \<Rightarrow>
                        (case xs_vars start of
                           None \<Rightarrow> freed_then ps (- 1, [])
                         | Some vars \<Rightarrow>
                             freed_then ps
                               (0, serve env ops xml plugin_main
                                     (if 1 < length tags then xcdr_plug_ldr_sort_plugins tags else tags)
                                     requests (stmtexpldr_load ops vars (ght_new ops)))))))"

subsection \<open>Messages\<close>

text \<open>\<open>syslog_msg\<close>: \<open>vsnprintf\<close> gives the length of the whole text, and the buffer grows until it fits.\<close>

function syslog_loop :: "string \<Rightarrow> nat \<Rightarrow> string" where
  "syslog_loop text' buf_size =
     (if length text' < buf_size then take (buf_size - 1) text' else syslog_loop text' (length text' + 1))"
  by pat_completeness auto
termination
  by (relation "measure (\<lambda>(t, n). length t + 1 - n)") auto
declare syslog_loop.simps [simp del]

definition syslog_msg :: "string \<Rightarrow> string" where
  "syslog_msg text' = syslog_loop text' 100"

lemma syslog_whole: "syslog_msg t = t"
proof -
  have "syslog_loop t n = t" for n
    by (subst syslog_loop.simps, subst syslog_loop.simps) auto
  then show ?thesis by (simp add: syslog_msg_def)
qed

subsection \<open>The plugin for Lua\<close>

text \<open>
  A run of a Lua function, as far as the plugin has a part in it: it ends, with an error or not, it asks for a variable
  and goes on with its value, or it prints a message.
\<close>

datatype lua_run = Lua_Ends bool | Lua_Get string "string option \<Rightarrow> lua_run" | Lua_Debug string lua_run

text \<open>\<open>lua_pcall\<close>: whether it succeeds, and the messages.  \<open>vars->vex\<close> is null before the first record.\<close>

primrec lua_pcall :: "'h ght_ops \<Rightarrow> 'h option \<Rightarrow> lua_run \<Rightarrow> crash + bool \<times> string list" where
  "lua_pcall ops vex (Lua_Ends ok) = Inr (ok, [])"
| "lua_pcall ops vex (Lua_Get varid k) =
     (case vex of
        None \<Rightarrow> Inl Null_Deref
      | Some h \<Rightarrow> lua_pcall ops vex (k (stmtexp_lookup_var ops h varid)))"
| "lua_pcall ops vex (Lua_Debug msg r) =
     (case lua_pcall ops vex r of Inl e \<Rightarrow> Inl e | Inr (ok, msgs) \<Rightarrow> Inr (ok, msg # msgs))"

definition FILENAME_LEN_MAX :: nat where "FILENAME_LEN_MAX = 512"

record 'h luaexec_vars =
  lv_script :: string
  lv_lua :: "(string \<Rightarrow> lua_run) option"
  lv_vex :: "'h option"

text \<open>
  \<open>plugin_init\<close>: the file is \<open>None\<close> when it cannot be read, and otherwise gives the name of the script.  \<open>lua\<close> gives
  the functions a script defines; the script itself runs when it is loaded.
\<close>

definition luaexec_init ::
    "'h ght_ops \<Rightarrow> (string \<Rightarrow> string \<Rightarrow> lua_run) \<Rightarrow> string option option \<Rightarrow> crash + int \<times> 'h luaexec_vars" where
  "luaexec_init ops lua file =
     (case file of
        None \<Rightarrow> Inr (PLUG_STATUS_ERROR, \<lparr>lv_script = [], lv_lua = None, lv_vex = None\<rparr>)
      | Some name \<Rightarrow>
          (let script = (case name of None \<Rightarrow> [] | Some n \<Rightarrow> take (FILENAME_LEN_MAX - 2) n)
           in case lua_pcall ops None (lua script []) of
                Inl e \<Rightarrow> Inl e
              | Inr _ \<Rightarrow>
                  (case lua_pcall ops None (lua script ''luaexec_init'') of
                     Inl e \<Rightarrow> Inl e
                   | Inr _ \<Rightarrow> Inr (PLUG_STATUS_OK, \<lparr>lv_script = script, lv_lua = Some (lua script), lv_vex = None\<rparr>))))"

definition luaexec_main :: "'h ght_ops \<Rightarrow> 'h \<Rightarrow> 'h luaexec_vars \<Rightarrow> crash + int \<times> 'h luaexec_vars" where
  "luaexec_main ops vex v =
     (let v1 = v\<lparr>lv_vex := Some vex\<rparr>
      in case lv_lua v of
           None \<Rightarrow> Inl Null_Deref
         | Some funs \<Rightarrow>
             (case lua_pcall ops (lv_vex v1) (funs ''luaexec_main'') of
                Inl e \<Rightarrow> Inl e
              | Inr (ok, _) \<Rightarrow> Inr (if ok then PLUG_STATUS_OK else PLUG_STATUS_ERROR, v1)))"

definition luaexec_free :: "'h ght_ops \<Rightarrow> 'h luaexec_vars \<Rightarrow> crash + int" where
  "luaexec_free ops v =
     (case lv_lua v of
        None \<Rightarrow> Inl Null_Deref
      | Some funs \<Rightarrow>
          (case lua_pcall ops (lv_vex v) (funs ''luaexec_free'') of Inl e \<Rightarrow> Inl e | Inr _ \<Rightarrow> Inr PLUG_STATUS_OK))"

subsection \<open>Requests do not depend on each other\<close>

definition same_values :: "'h ght_ops \<Rightarrow> 'h \<Rightarrow> 'h \<Rightarrow> bool" where
  "same_values ops h h' \<longleftrightarrow> (\<forall>k. ght_lookup ops h k = ght_lookup ops h' k)"

definition same_variables :: "'h ght_ops \<Rightarrow> 'h \<Rightarrow> 'h \<Rightarrow> bool" where
  "same_variables ops h h' \<longleftrightarrow> (\<forall>k. map_option se_xpath (ght_lookup ops h k) = map_option se_xpath (ght_lookup ops h' k))"

text \<open>
  What a plugin does depends on the values it finds, and it may change values and not which variables there are.
\<close>

definition respects_table :: "'h ght_ops \<Rightarrow> (plugin_tag \<Rightarrow> 'h \<Rightarrow> 'h) \<Rightarrow> bool" where
  "respects_table ops plugin_main \<longleftrightarrow>
     (\<forall>t h h'. same_values ops h h' \<longrightarrow> same_values ops (plugin_main t h) (plugin_main t h')) \<and>
     (\<forall>t h. same_variables ops (plugin_main t h) h)"

definition observed :: "'h ght_ops \<Rightarrow> (plugin_tag \<times> 'h) list \<Rightarrow> (plugin_tag \<times> (string \<Rightarrow> string option)) list" where
  "observed ops calls = map (\<lambda>(t, h). (t, stmtexp_lookup_var ops h)) calls"

lemma same_variables_trans: "same_variables ops h g \<Longrightarrow> same_variables ops g k \<Longrightarrow> same_variables ops h k"
  by (simp add: same_variables_def)

lemma same_lookups: "same_values ops h h' \<Longrightarrow> stmtexp_lookup_var ops h = stmtexp_lookup_var ops h'"
  by (simp add: fun_eq_iff stmtexp_lookup_var_def same_values_def)

lemma foreach_lookup:
  assumes "ght_documented ops" "\<And>e. se_stmt_var (f e) = se_stmt_var e"
  shows "ght_lookup ops (ght_foreach ops f h) k = map_option f (ght_lookup ops h k)"
  using assms unfolding ght_documented_def by blast

lemma callbacks_keep [simp]:
  "se_stmt_var (stmtexp_callback_clean e) = se_stmt_var e" "se_stmt_var (stmtexp_callback xpath e) = se_stmt_var e"
  "se_xpath (stmtexp_callback_clean e) = se_xpath e" "se_xpath (stmtexp_callback xpath e) = se_xpath e"
  by (auto simp: stmtexp_callback_clean_def stmtexp_callback_def split: xp_result.split list.split)

lemma foreach_same:
  assumes "ght_documented ops" "\<And>e. se_stmt_var (f e) = se_stmt_var e" "same_values ops h h'"
  shows "same_values ops (ght_foreach ops f h) (ght_foreach ops f h')"
  using assms(3) by (simp add: same_values_def foreach_lookup [OF assms(1,2)])

lemma foreach_variables:
  assumes "ght_documented ops" "\<And>e. se_stmt_var (f e) = se_stmt_var e" "\<And>e. se_xpath (f e) = se_xpath e"
  shows "same_variables ops (ght_foreach ops f h) h"
  by (simp add: same_variables_def foreach_lookup [OF assms(1,2)] option.map_comp comp_def assms(3))

lemma cleaned_same:
  assumes "ght_documented ops" "same_variables ops h h'"
  shows "same_values ops (ght_foreach ops stmtexp_callback_clean h) (ght_foreach ops stmtexp_callback_clean h')"
  unfolding same_values_def
proof
  fix k
  have key: "se_stmt_var e = k" if "ght_lookup ops g k = Some e" for g e
    using assms(1) that unfolding ght_documented_def by blast
  have x: "map_option se_xpath (ght_lookup ops h k) = map_option se_xpath (ght_lookup ops h' k)"
    using assms(2) unfolding same_variables_def by (rule spec)
  have "map_option stmtexp_callback_clean (ght_lookup ops h k) = map_option stmtexp_callback_clean (ght_lookup ops h' k)"
  proof (cases "ght_lookup ops h k")
    case None
    with x show ?thesis by (cases "ght_lookup ops h' k") simp_all
  next
    case (Some e)
    with x obtain e' where e': "ght_lookup ops h' k = Some e'" "se_xpath e = se_xpath e'"
      by (cases "ght_lookup ops h' k") simp_all
    have "se_stmt_var e = se_stmt_var e'" by (rule trans [OF key [OF Some] key [OF e'(1), symmetric]])
    with e'(2) have "stmtexp_callback_clean e = stmtexp_callback_clean e'"
      by (cases e; cases e') (simp add: stmtexp_callback_clean_def)
    with Some e'(1) show ?thesis by simp
  qed
  then show "ght_lookup ops (ght_foreach ops stmtexp_callback_clean h) k = ght_lookup ops (ght_foreach ops stmtexp_callback_clean h') k"
    by (simp add: foreach_lookup [OF assms(1)])
qed

lemma run_same:
  assumes "respects_table ops pm"
  shows "same_values ops h h' \<Longrightarrow>
    observed ops (fst (run_plugins env ops pm ts h)) = observed ops (fst (run_plugins env ops pm ts h')) \<and>
    same_variables ops (snd (run_plugins env ops pm ts h)) h"
proof (induction ts arbitrary: h h')
  case Nil
  then show ?case by (simp add: observed_def same_variables_def)
next
  case (Cons t ts)
  have l: "stmtexp_lookup_var ops h = stmtexp_lookup_var ops h'" using Cons(2) by (rule same_lookups)
  have "metric_holds env ops h = metric_holds env ops h'" unfolding metric_holds_def l by (rule refl)
  then have m: "list_all (metric_holds env ops h) (pt_metrics t) = list_all (metric_holds env ops h') (pt_metrics t)"
    by (rule arg_cong)
  have next': "same_values ops (pm t h) (pm t h')" "same_variables ops (pm t h) h"
    using assms Cons(2) by (simp_all add: respects_table_def)
  show ?case
  proof (cases "list_all (metric_holds env ops h) (pt_metrics t)")
    case False
    then have r: "run_plugins env ops pm (t # ts) h = run_plugins env ops pm ts h"
      "run_plugins env ops pm (t # ts) h' = run_plugins env ops pm ts h'"
      unfolding run_plugins.simps m by (simp_all only: if_False)
    show ?thesis unfolding r by (rule Cons(1) [OF Cons(2)])
  next
    case True
    let ?r = "run_plugins env ops pm ts (pm t h)" and ?r' = "run_plugins env ops pm ts (pm t h')"
    from True have "list_all (metric_holds env ops h') (pt_metrics t)" by (simp only: m)
    with True have r: "run_plugins env ops pm (t # ts) h = ((t, h) # fst ?r, snd ?r)"
      "run_plugins env ops pm (t # ts) h' = ((t, h') # fst ?r', snd ?r')"
      by (simp_all add: split_beta)
    note ih = Cons(1) [OF next'(1)]
    have "same_variables ops (snd ?r) h"
      by (rule same_variables_trans [OF conjunct2 [OF ih] next'(2)])
    moreover have "observed ops ((t, h) # fst ?r) = observed ops ((t, h') # fst ?r')"
      using conjunct1 [OF ih] by (simp only: observed_def list.map prod.case l)
    ultimately show ?thesis unfolding r by simp
  qed
qed

lemma handle_same:
  assumes "ght_documented ops" "respects_table ops pm" "same_variables ops h h'"
  shows "observed ops (fst (handle_request env ops xml pm tags r h)) = observed ops (fst (handle_request env ops xml pm tags r h')) \<and>
    same_variables ops (snd (handle_request env ops xml pm tags r h)) h"
proof -
  let ?c = "ght_foreach ops stmtexp_callback_clean"
  have c: "same_values ops (?c h) (?c h')" by (rule cleaned_same [OF assms(1,3)])
  have cv: "same_variables ops (?c h) h" by (rule foreach_variables [OF assms(1)]) simp_all
  have x: "same_values ops (execute_xpath_expression ops xml b (?c h)) (execute_xpath_expression ops xml b (?c h'))" for b
    using c foreach_same [OF assms(1) _ c] by (cases "xml b") (simp_all add: execute_xpath_expression_def)
  have xv: "same_variables ops (execute_xpath_expression ops xml b (?c h)) h" for b
  proof (cases "xml b")
    case None
    then show ?thesis using cv by (simp add: execute_xpath_expression_def)
  next
    case (Some xpath)
    have "same_variables ops (ght_foreach ops (stmtexp_callback xpath) (?c h)) (?c h)"
      by (rule foreach_variables [OF assms(1)]) simp_all
    from same_variables_trans [OF this cv] Some show ?thesis by (simp add: execute_xpath_expression_def)
  qed
  show ?thesis
  proof (cases "urldecode_expand_value env (buf_string (takeWhile (\<lambda>c. c \<noteq> CHR 0xFF) r) 0) (Some ''cdr'') 3 True")
    case (Inl status)
    then show ?thesis using cv by (simp add: handle_request_def observed_def)
  next
    case (Inr cdr)
    then have h: "handle_request env ops xml pm tags r g = run_plugins env ops pm tags (execute_xpath_expression ops xml cdr (?c g))" for g
      by (simp add: handle_request_def)
    show ?thesis unfolding h
      using run_same [OF assms(2) x] same_variables_trans [OF conjunct2 [OF run_same [OF assms(2) x]] xv] by blast
  qed
qed

lemma serve_same:
  assumes "ght_documented ops" "respects_table ops pm"
  shows "same_variables ops h h0 \<Longrightarrow>
    map (observed ops) (serve env ops xml pm tags rs h) =
    map (\<lambda>r. observed ops (fst (handle_request env ops xml pm tags r h0))) rs"
proof (induction rs arbitrary: h)
  case Nil
  then show ?case by simp
next
  case (Cons r rs)
  note s = handle_same [OF assms Cons(2), of env xml tags r]
  have "same_variables ops (snd (handle_request env ops xml pm tags r h)) h0"
    by (rule same_variables_trans [OF conjunct2 [OF s] Cons(2)])
  from Cons(1) [OF this] conjunct1 [OF s] show ?case
    by (cases "handle_request env ops xml pm tags r h") simp
qed

lemma served:
  assumes "ght_documented ops" "respects_table ops pm" "xs_plugins start = Some settings" "settings \<noteq> []"
    "load_plugs (xs_libs start) tags = Inr (True, ps)" "xcdr_plugldr_free_plugins ps = None" "xs_vars start = Some vars"
    "tags = xcdr_plugldr_load_config (xs_dir start) settings"
  shows "\<exists>calls. xmlcdrd_main env ops xml pm start requests = Inr (0, calls) \<and>
    map (observed ops) calls =
      map (\<lambda>r. observed ops (fst (handle_request env ops xml pm (sort_key pt_priority tags) r (stmtexpldr_load ops vars (ght_new ops))))) requests"
proof -
  have "tags \<noteq> []" using assms(4,8) by (simp add: xcdr_plugldr_load_config_def)
  moreover have "(if 1 < length tags then xcdr_plug_ldr_sort_plugins tags else tags) = sort_key pt_priority tags"
    using short_sort_key [of tags pt_priority] by (auto simp: sort_plugins_stable not_less)
  ultimately have "xmlcdrd_main env ops xml pm start requests =
    Inr (0, serve env ops xml pm (sort_key pt_priority tags) requests (stmtexpldr_load ops vars (ght_new ops)))"
    using assms(3,5-7) by (simp add: xmlcdrd_main_def Let_def freed_then_def assms(8) [symmetric])
  then show ?thesis using serve_same [OF assms(1,2)] by (simp add: same_variables_def)
qed

subsection \<open>Scripts\<close>

primrec lua_result :: "(string \<Rightarrow> string option) \<Rightarrow> lua_run \<Rightarrow> bool \<times> string list" where
  "lua_result lookup_var (Lua_Ends ok) = (ok, [])"
| "lua_result lookup_var (Lua_Get varid k) = lua_result lookup_var (k (lookup_var varid))"
| "lua_result lookup_var (Lua_Debug msg r) = (let (ok, msgs) = lua_result lookup_var r in (ok, msg # msgs))"

lemma lua_pcall_result: "lua_pcall ops (Some h) r = Inr (lua_result (stmtexp_lookup_var ops h) r)"
  by (induction r) (simp_all add: split_beta)

lemma main_result:
  assumes "lv_lua v = Some funs"
  shows "luaexec_main ops vex v =
    Inr (if fst (lua_result (stmtexp_lookup_var ops vex) (funs ''luaexec_main'')) then PLUG_STATUS_OK else PLUG_STATUS_ERROR,
         v\<lparr>lv_vex := Some vex\<rparr>)"
  by (cases "lua_result (stmtexp_lookup_var ops vex) (funs ''luaexec_main'')") (simp add: luaexec_main_def assms lua_pcall_result)

text \<open>The plugin as a library of the daemon, with the configuration files it may be given.\<close>

definition luaexec_lib :: "'h ght_ops \<Rightarrow> (string \<Rightarrow> string \<Rightarrow> lua_run) \<Rightarrow> (string \<Rightarrow> string option option) \<Rightarrow> plugin_lib" where
  "luaexec_lib ops lua files =
     \<lparr>lb_symbols = plugin_symbols, lb_name = ''lua exec'',
      lb_init = (\<lambda>fname options. case luaexec_init ops lua (files options) of Inr (st, _) \<Rightarrow> st \<noteq> PLUG_STATUS_ERROR | Inl _ \<Rightarrow> False),
      lb_free = (\<lambda>ready. if ready then None
        else (case luaexec_init ops lua None of
                Inl e \<Rightarrow> Some e
              | Inr (_, v) \<Rightarrow> (case luaexec_free ops v of Inl e \<Rightarrow> Some e | Inr _ \<Rightarrow> None)))\<rparr>"

lemma unready_freed:
  assumes "xs_plugins start = Some settings" "xcdr_plugldr_load_config (xs_dir start) settings = t # ts"
    "xs_libs start (pt_fname t) = Some l" "set plugin_symbols \<subseteq> set (lb_symbols l)"
    "\<not> lb_init l (pt_fname t) (pt_options t)" "length (lb_name l) < XCDR_PLUGIN_NAME_LEN_MAX" "lb_free l False = Some e"
  shows "xmlcdrd_main env ops xml pm start requests = Inl e"
proof -
  have f: "takeWhile (\<lambda>s. s \<in> set (lb_symbols l)) plugin_symbols = plugin_symbols"
    using assms(4) by (intro takeWhile_eq_all_conv [THEN iffD2]) blast
  have "plug_init (Some l) (pt_fname t) (pt_options t) = Inr (False, \<lparr>pi_lib = Some l, pi_free = True, pi_ready = False\<rparr>)"
    unfolding plug_init_def option.case Let_def f using assms(5,6) by (simp add: plugin_symbols_def)
  then show ?thesis
    using assms(1-3,7) by (simp add: xmlcdrd_main_def Let_def freed_then_def plug_free_def)
qed

subsection \<open>The properties\<close>

text \<open>
  The daemon as a whole.  Once it has loaded its plugins it serves the requests one after the other; for every one of them
  the plugins run, in the order of their priorities, and the values they find are those a fresh daemon would give: nothing
  of an earlier record is left, whatever the plugins did to the values.
\<close>

theorem requests_independent:
  assumes "ght_documented ops" "respects_table ops pm" "xs_plugins start = Some settings" "settings \<noteq> []"
    "load_plugs (xs_libs start) tags = Inr (True, ps)" "xcdr_plugldr_free_plugins ps = None" "xs_vars start = Some vars"
    "tags = xcdr_plugldr_load_config (xs_dir start) settings"
  shows "\<exists>calls. xmlcdrd_main env ops xml pm start requests = Inr (0, calls) \<and>
    map (observed ops) calls =
      map (\<lambda>r. observed ops (fst (handle_request env ops xml pm (sort_key pt_priority tags) r (stmtexpldr_load ops vars (ght_new ops))))) requests"
  by (rule served [OF assms])

definition daemon_lib :: plugin_lib where
  "daemon_lib = \<lparr>lb_symbols = plugin_symbols, lb_name = ''rad cdr'', lb_init = (\<lambda>f o'. True), lb_free = (\<lambda>r. None)\<rparr>"

definition daemon_start :: xcdr_start where
  "daemon_start =
     \<lparr>xs_plugins = Some [\<lparr>ps_name = Some ''radcdr'', ps_options = Some [], ps_priority = Some 1, ps_metrics = None\<rparr>],
      xs_dir = ''/p'', xs_libs = (\<lambda>f. Some daemon_lib), xs_vars = Some [(Some ''v'', Some ''/cdr'')]\<rparr>"

definition daemon_tag :: plugin_tag where
  "daemon_tag = \<lparr>pt_fname = ''/p/radcdr.so'', pt_options = [], pt_priority = 1, pt_metrics = []\<rparr>"

theorem requests_independent_witness:
  "\<exists>calls. xmlcdrd_main sample_cdr_env sample_ght sample_xml (\<lambda>t h. h) daemon_start [''cdr=5'', ''x=1'', ''cdr=7''] = Inr (0, calls) \<and>
    map (map (\<lambda>(t, h). (pt_fname t, stmtexp_lookup_var sample_ght h ''v''))) calls =
      [[(''/p/radcdr.so'', Some ''5'')], [], [(''/p/radcdr.so'', Some ''7'')]]"
proof -
  let ?view = "map (\<lambda>(t, f). (pt_fname t, f ''v''))"
  have tags: "xcdr_plugldr_load_config (xs_dir daemon_start) (the (xs_plugins daemon_start)) = [daemon_tag]" by code_simp
  have load: "load_plugs (xs_libs daemon_start) [daemon_tag] = Inr (True, [\<lparr>pi_lib = Some daemon_lib, pi_free = True, pi_ready = True\<rparr>])"
    by (simp add: daemon_start_def plug_init_def daemon_lib_def plugin_symbols_def)
  have free: "xcdr_plugldr_free_plugins [\<lparr>pi_lib = Some daemon_lib, pi_free = True, pi_ready = True\<rparr>] = None"
    by (simp add: plug_free_def daemon_lib_def)
  have "respects_table sample_ght (\<lambda>t h. h)" by (simp add: respects_table_def same_variables_def)
  moreover have "xs_plugins daemon_start = Some (the (xs_plugins daemon_start))" "the (xs_plugins daemon_start) \<noteq> []"
    "xs_vars daemon_start = Some [(Some ''v'', Some ''/cdr'')]" by (simp_all add: daemon_start_def)
  ultimately obtain calls where calls: "xmlcdrd_main sample_cdr_env sample_ght sample_xml (\<lambda>t h. h) daemon_start [''cdr=5'', ''x=1'', ''cdr=7''] = Inr (0, calls)"
    "map (observed sample_ght) calls =
      map (\<lambda>r. observed sample_ght (fst (handle_request sample_cdr_env sample_ght sample_xml (\<lambda>t h. h) (sort_key pt_priority [daemon_tag]) r
        (stmtexpldr_load sample_ght [(Some ''v'', Some ''/cdr'')] (ght_new sample_ght))))) [''cdr=5'', ''x=1'', ''cdr=7'']"
    using requests_independent [OF sample_ght_documented _ _ _ load free _ tags [symmetric]] by blast
  have "map ?view (map (observed sample_ght) calls) = [[(''/p/radcdr.so'', Some ''5'')], [], [(''/p/radcdr.so'', Some ''7'')]]"
    unfolding calls(2) by code_simp
  moreover have "?view (observed sample_ght c) = map (\<lambda>(t, h). (pt_fname t, stmtexp_lookup_var sample_ght h ''v'')) c" for c
    by (simp add: observed_def split_beta comp_def)
  ultimately show ?thesis using calls(1) by (auto simp: comp_def)
qed

text \<open>
  A plugin that was opened is freed also when its initialization failed: when the configuration of \<open>luaexec\<close> cannot be
  read, the daemon does not end with an error but closes a Lua state that is null.
\<close>

theorem unread_configuration_crashes:
  assumes "xs_plugins start = Some settings" "xcdr_plugldr_load_config (xs_dir start) settings = t # ts"
    "xs_libs start (pt_fname t) = Some (luaexec_lib lops lua files)" "files (pt_options t) = None"
  shows "xmlcdrd_main env ops xml pm start requests = Inl Null_Deref"
  by (rule unready_freed [OF assms(1-3)])
    (simp_all add: luaexec_lib_def luaexec_init_def luaexec_free_def assms(4) XCDR_PLUGIN_NAME_LEN_MAX_def)

theorem unread_configuration_crashes_witness:
  "xmlcdrd_main sample_cdr_env sample_ght sample_xml (\<lambda>t h. h)
     (daemon_start\<lparr>xs_libs := (\<lambda>f. Some (luaexec_lib sample_ght (\<lambda>s f. Lua_Ends True) Map.empty))\<rparr>) [] = Inl Null_Deref"
proof (rule unread_configuration_crashes)
  show "xcdr_plugldr_load_config (xs_dir (daemon_start\<lparr>xs_libs := (\<lambda>f. Some (luaexec_lib sample_ght (\<lambda>s f. Lua_Ends True) Map.empty))\<rparr>))
    [\<lparr>ps_name = Some ''radcdr'', ps_options = Some [], ps_priority = Some 1, ps_metrics = None\<rparr>] = [daemon_tag]"
    by (simp add: daemon_start_def daemon_tag_def xcdr_plugldr_load_config_def load_plugin_def XCDR_PLUGIN_STRMAXLEN_def)
qed (simp_all add: daemon_start_def)

text \<open>
  The script of \<open>luaexec\<close> finds the values of the record it is run for, and whether it fails is what the plugin reports.
\<close>

theorem script_gets_record:
  assumes "lv_lua v = Some funs"
  shows "luaexec_main ops vex v =
    Inr (if fst (lua_result (stmtexp_lookup_var ops vex) (funs ''luaexec_main'')) then PLUG_STATUS_OK else PLUG_STATUS_ERROR,
         v\<lparr>lv_vex := Some vex\<rparr>)"
  by (rule main_result [OF assms])

theorem script_gets_record_witness:
  "luaexec_main sample_ght radcdr_call
     \<lparr>lv_script = ''s'', lv_lua = Some (\<lambda>f. Lua_Get ''billsec'' (\<lambda>v. Lua_Ends (v = Some ''42''))), lv_vex = None\<rparr> =
   Inr (PLUG_STATUS_OK,
     \<lparr>lv_script = ''s'', lv_lua = Some (\<lambda>f. Lua_Get ''billsec'' (\<lambda>v. Lua_Ends (v = Some ''42''))), lv_vex = Some radcdr_call\<rparr>)"
proof -
  have r: "fst (lua_result (stmtexp_lookup_var sample_ght radcdr_call) (Lua_Get ''billsec'' (\<lambda>v. Lua_Ends (v = Some ''42''))))"
    by (simp add: lua_result.simps(2) radcdr_call_vars)
  show ?thesis by (subst script_gets_record) (simp, simp only: r if_True, simp)
qed

text \<open>A script that asks for a variable while it is loaded or initialized dereferences a null pointer.\<close>

theorem script_asks_too_early:
  assumes "lua (take (FILENAME_LEN_MAX - 2) name) [] = Lua_Ends ok"
    "lua (take (FILENAME_LEN_MAX - 2) name) ''luaexec_init'' = Lua_Get varid k"
  shows "luaexec_init ops lua (Some (Some name)) = Inl Null_Deref"
  using assms by (simp add: luaexec_init_def)

theorem script_asks_too_early_witness:
  "luaexec_init sample_ght (\<lambda>s f. if f = [] then Lua_Ends True else Lua_Get ''uuid'' (\<lambda>v. Lua_Ends True)) (Some (Some ''/s.lua'')) =
     Inl Null_Deref"
  by (rule script_asks_too_early) simp_all

text \<open>A message is logged as a whole, however long it is.\<close>

theorem message_logged_whole: "syslog_msg t = t"
  by (rule syslog_whole)

end
