(* ===== verification/Blacklist.thy ===== *)
theory Blacklist
  imports Fs_Api
begin

text \<open>
  \<open>mrene/mod_blacklist/mod_blacklist.c\<close>: named lists of numbers, loaded from files, that a command
  asks and changes.  The table of the lists is \<open>globals.lists\<close>; a list lives in a pool of its own and
  is known by the address of its structure, which is gone when the pool is destroyed.  The tables
  are those of the core (\<open>Fs_Api\<close>).
\<close>

subsection \<open>The lists\<close>

record ('l, 'h) bl_env =
  be_lists :: "('l, nat) fs_table"
  be_names :: "('h, unit) fs_table"
  be_files :: "string \<Rightarrow> string option"

text \<open>The structures in memory, and the address the next one gets: addresses are not used again.\<close>

record ('l, 'h) bl_state =
  bs_lists :: 'l
  bs_heap :: "nat \<Rightarrow> 'h option"
  bs_next :: nat

definition blacklist_create :: "('l, 'h) bl_env \<Rightarrow> ('l, 'h) bl_state \<Rightarrow> nat \<times> ('l, 'h) bl_state" where
  "blacklist_create env st =
     (bs_next st, st\<lparr>bs_heap := (bs_heap st)(bs_next st \<mapsto> tab_new (be_names env)), bs_next := bs_next st + 1\<rparr>)"

definition blacklist_free :: "nat \<Rightarrow> ('l, 'h) bl_state \<Rightarrow> crash + ('l, 'h) bl_state" where
  "blacklist_free a st =
     (case bs_heap st a of
        None \<Rightarrow> Inl Use_After_Free
      | Some _ \<Rightarrow> Inr (st\<lparr>bs_heap := (bs_heap st)(a := None)\<rparr>))"

definition bl_trim :: "string \<Rightarrow> string" where
  "bl_trim s = (let s1 = takeWhile (\<lambda>c. c \<noteq> LF) s in takeWhile (\<lambda>c. c \<noteq> CR) s1)"

subsection \<open>Loading\<close>

text \<open>The loop over the lines: a line is a C string, so that a NUL in the file ends it.\<close>

function load_lines :: "('h, unit) fs_table \<Rightarrow> string \<Rightarrow> 'h \<Rightarrow> 'h" where
  "load_lines ops f h =
     (case c_fgets 1024 f of
        None \<Rightarrow> h
      | Some (buf, rest) \<Rightarrow> load_lines ops rest (tab_insert ops h (bl_trim (buf_string buf 0)) (Some ())))"
  by pat_completeness auto
termination
  by (relation "measure (\<lambda>(ops, f, h). length f)") (auto dest: c_fgets_shorter)

declare load_lines.simps [simp del]

definition load_list ::
    "('l, 'h) bl_env \<Rightarrow> string \<Rightarrow> string \<Rightarrow> ('l, 'h) bl_state \<Rightarrow> switch_status \<times> ('l, 'h) bl_state" where
  "load_list env name filename st =
     (let (bl, st1) = blacklist_create env st
      in case be_files env filename of
           None \<Rightarrow> (SWITCH_STATUS_FALSE, st1)
         | Some text \<Rightarrow>
             (let h = load_lines (be_names env) text (tab_new (be_names env))
              in (SWITCH_STATUS_SUCCESS,
                  st1\<lparr>bs_heap := (bs_heap st1)(bl \<mapsto> h),
                      bs_lists := tab_insert (be_lists env) (bs_lists st1) name (Some bl)\<rparr>)))"

text \<open>The loop that destroys the lists; that it ends rests on what the table promises.\<close>

partial_function (option) destroy_lists ::
    "('l, 'h) bl_env \<Rightarrow> ('l, 'h) bl_state \<Rightarrow> (crash + ('l, 'h) bl_state) option" where
  "destroy_lists env st =
     (case tab_first (be_lists env) (bs_lists st) of
        None \<Rightarrow> Some (Inr st)
      | Some (key, val) \<Rightarrow>
          (case val of
             None \<Rightarrow> Some (Inl Null_Deref)
           | Some bl \<Rightarrow>
               (case blacklist_free bl st of
                  Inl e \<Rightarrow> Some (Inl e)
                | Inr st1 \<Rightarrow>
                    destroy_lists env (st1\<lparr>bs_lists := tab_delete (be_lists env) (bs_lists st1) key\<rparr>))))"

text \<open>
  The configuration: \<open>None\<close> when it cannot be opened, or the name and the file of every \<open>list\<close>.
\<close>

type_synonym bl_config = "(string option \<times> string option) list option"

definition config_list :: "('l, 'h) bl_env \<Rightarrow> string option \<times> string option \<Rightarrow> ('l, 'h) bl_state \<Rightarrow> ('l, 'h) bl_state" where
  "config_list env l st =
     (case l of (Some name, Some filename) \<Rightarrow> snd (load_list env name filename st) | _ \<Rightarrow> st)"

definition bl_do_config ::
    "('l, 'h) bl_env \<Rightarrow> bl_config \<Rightarrow> ('l, 'h) bl_state \<Rightarrow> (crash + switch_status \<times> ('l, 'h) bl_state) option" where
  "bl_do_config env cfg st =
     (case cfg of
        None \<Rightarrow> Some (Inr (SWITCH_STATUS_FALSE, st))
      | Some cfgs \<Rightarrow>
          (case destroy_lists env st of
             None \<Rightarrow> None
           | Some (Inl e) \<Rightarrow> Some (Inl e)
           | Some (Inr st1) \<Rightarrow> Some (Inr (SWITCH_STATUS_SUCCESS, fold (config_list env) cfgs st1))))"

subsection \<open>The command\<close>

datatype bl_op = Check | Add | Del

datatype bl_call = Call bl_op string string | Reload | Nothing

text \<open>
  The word \<open>argv[2]\<close> is looked at even if there are only two: \<open>junk\<close> is what the array holds behind the
  words.
\<close>

definition bl_arg :: "(nat \<Rightarrow> string option) \<Rightarrow> string list \<Rightarrow> nat \<Rightarrow> string option" where
  "bl_arg junk argv i = (if i < length argv then Some (argv ! i) else junk i)"

definition bl_words :: "fs_api \<Rightarrow> (nat \<Rightarrow> string option) \<Rightarrow> bl_op \<Rightarrow> string list \<Rightarrow> bl_call" where
  "bl_words api junk op argv =
     (if length argv < 2 \<or> fs_zstr api (bl_arg junk argv 1) \<or> fs_zstr api (bl_arg junk argv 2) then Nothing
      else case (bl_arg junk argv 1, bl_arg junk argv 2) of
             (Some name, Some key) \<Rightarrow> Call op name key
           | _ \<Rightarrow> Nothing)"

definition bl_call_of :: "fs_api \<Rightarrow> (nat \<Rightarrow> string option) \<Rightarrow> string \<Rightarrow> bl_call" where
  "bl_call_of api junk cmd =
     (case fs_separate_string api (bl_trim cmd) (CHR '' '') 3 of
        [] \<Rightarrow> Nothing
      | w # ws \<Rightarrow>
          if c_strcaseeq w ''check'' then bl_words api junk Check (w # ws)
          else if c_strcaseeq w ''add'' then bl_words api junk Add (w # ws)
          else if c_strcaseeq w ''del'' then bl_words api junk Del (w # ws)
          else if c_strcaseeq w ''reload'' then Reload
          else Nothing)"

text \<open>
  What is done once the list was found and \<open>lists_mutex\<close> given back; the list's own mutex, which is in
  the structure, makes it one step.
\<close>

definition bl_use ::
    "('l, 'h) bl_env \<Rightarrow> bl_op \<Rightarrow> nat \<Rightarrow> string \<Rightarrow> ('l, 'h) bl_state \<Rightarrow> crash + string \<times> ('l, 'h) bl_state" where
  "bl_use env op bl key st =
     (case bs_heap st bl of
        None \<Rightarrow> Inl Use_After_Free
      | Some h \<Rightarrow>
          (case op of
             Check \<Rightarrow> Inr (if tab_find (be_names env) h key \<noteq> None then ''true'' else ''false'', st)
           | Add \<Rightarrow>
               Inr (''+OK'' @ [LF],
                 st\<lparr>bs_heap := (bs_heap st)(bl \<mapsto> tab_insert (be_names env) h key (Some ()))\<rparr>)
           | Del \<Rightarrow>
               Inr (''+OK'' @ [LF],
                 st\<lparr>bs_heap := (bs_heap st)(bl \<mapsto> tab_insert (be_names env) h key None)\<rparr>)))"

definition bl_unknown :: "bl_op \<Rightarrow> string" where
  "bl_unknown op = (if op = Check then ''false'' else ''-ERR Unknown blacklist'' @ [LF])"

definition blacklist_api_function ::
    "('l, 'h) bl_env \<Rightarrow> fs_api \<Rightarrow> bl_config \<Rightarrow> (nat \<Rightarrow> string option) \<Rightarrow> string option \<Rightarrow>
     ('l, 'h) bl_state \<Rightarrow> (crash + string \<times> ('l, 'h) bl_state) option" where
  "blacklist_api_function env api cfg junk cmd st =
     (case cmd of
        None \<Rightarrow> Some (Inl Null_Deref)
      | Some c \<Rightarrow>
          (case bl_call_of api junk c of
             Nothing \<Rightarrow> Some (Inr ([], st))
           | Reload \<Rightarrow>
               (case bl_do_config env cfg st of
                  None \<Rightarrow> None
                | Some (Inl e) \<Rightarrow> Some (Inl e)
                | Some (Inr (_, st1)) \<Rightarrow> Some (Inr (''+OK'' @ [LF], st1)))
           | Call op name key \<Rightarrow>
               (case tab_find (be_lists env) (bs_lists st) name of
                  None \<Rightarrow> Some (Inr (bl_unknown op, st))
                | Some bl \<Rightarrow> Some (bl_use env op bl key st))))"

text \<open>\<open>mod_blacklist_load\<close>: the tables are new, and the result of the configuration is not looked at.\<close>

definition mod_blacklist_load ::
    "('l, 'h) bl_env \<Rightarrow> bl_config \<Rightarrow> (crash + ('l, 'h) bl_state) option" where
  "mod_blacklist_load env cfg =
     (case bl_do_config env cfg \<lparr>bs_lists = tab_new (be_lists env), bs_heap = (\<lambda>_. None), bs_next = 0\<rparr> of
        None \<Rightarrow> None
      | Some (Inl e) \<Rightarrow> Some (Inl e)
      | Some (Inr (_, st)) \<Rightarrow> Some (Inr st))"
subsection \<open>The lists as sets of names\<close>

text \<open>
  What the module promises, without memory: a list is a set of names.  \<open>bl_abs\<close> reads it off a state in
  which every list that the table names is alive, has one name, and all new addresses are free.
\<close>

type_synonym bl_sets = "string \<Rightarrow> string set option"

definition bl_spec :: "bl_op \<Rightarrow> string \<Rightarrow> string \<Rightarrow> bl_sets \<Rightarrow> string \<times> bl_sets" where
  "bl_spec op n k A =
     (case (op, A n) of
        (Check, None) \<Rightarrow> (''false'', A)
      | (Check, Some S) \<Rightarrow> (if k \<in> S then ''true'' else ''false'', A)
      | (_, None) \<Rightarrow> (''-ERR Unknown blacklist'' @ [LF], A)
      | (Add, Some S) \<Rightarrow> (''+OK'' @ [LF], A(n \<mapsto> insert k S))
      | (Del, Some S) \<Rightarrow> (''+OK'' @ [LF], A(n \<mapsto> S - {k})))"

definition bl_names :: "('h, unit) fs_table \<Rightarrow> 'h \<Rightarrow> string set" where
  "bl_names ops h = {k. tab_find ops h k \<noteq> None}"

definition bl_abs :: "('l, 'h) bl_env \<Rightarrow> ('l, 'h) bl_state \<Rightarrow> bl_sets" where
  "bl_abs env st n =
     (case tab_find (be_lists env) (bs_lists st) n of
        None \<Rightarrow> None
      | Some bl \<Rightarrow> map_option (bl_names (be_names env)) (bs_heap st bl))"

definition bl_ok :: "('l, 'h) bl_env \<Rightarrow> ('l \<Rightarrow> string set) \<Rightarrow> ('l, 'h) bl_state \<Rightarrow> bool" where
  "bl_ok env ks st \<longleftrightarrow>
     (\<forall>n a. tab_find (be_lists env) (bs_lists st) n = Some a \<longrightarrow> bs_heap st a \<noteq> None) \<and>
     (\<forall>n m a. tab_find (be_lists env) (bs_lists st) n = Some a \<longrightarrow> tab_find (be_lists env) (bs_lists st) m = Some a
        \<longrightarrow> n = m) \<and>
     (\<forall>a. bs_next st \<le> a \<longrightarrow> bs_heap st a = None) \<and>
     (\<forall>n. n \<in> ks (bs_lists st) \<longrightarrow> tab_find (be_lists env) (bs_lists st) n \<noteq> None)"

lemma bl_okD:
  assumes "bl_ok env ks st"
  shows "tab_find (be_lists env) (bs_lists st) n = Some a \<Longrightarrow> bs_heap st a \<noteq> None"
    "tab_find (be_lists env) (bs_lists st) n = Some a \<Longrightarrow> tab_find (be_lists env) (bs_lists st) m = Some a \<Longrightarrow> n = m"
    "bs_next st \<le> a \<Longrightarrow> bs_heap st a = None"
    "n \<in> ks (bs_lists st) \<Longrightarrow> tab_find (be_lists env) (bs_lists st) n \<noteq> None"
proof -
  note ok = assms [unfolded bl_ok_def]
  show "tab_find (be_lists env) (bs_lists st) n = Some a \<Longrightarrow> bs_heap st a \<noteq> None"
    using ok [THEN conjunct1, rule_format] .
  show "tab_find (be_lists env) (bs_lists st) n = Some a \<Longrightarrow> tab_find (be_lists env) (bs_lists st) m = Some a \<Longrightarrow> n = m"
    using ok [THEN conjunct2, THEN conjunct1, rule_format] .
  show "bs_next st \<le> a \<Longrightarrow> bs_heap st a = None"
    using ok [THEN conjunct2, THEN conjunct2, THEN conjunct1, rule_format] .
  show "n \<in> ks (bs_lists st) \<Longrightarrow> tab_find (be_lists env) (bs_lists st) n \<noteq> None"
    using ok [THEN conjunct2, THEN conjunct2, THEN conjunct2, rule_format] .
qed

lemma bl_names_insert:
  assumes "table_documented ops ks"
  shows "bl_names ops (tab_insert ops h k (Some ())) = insert k (bl_names ops h)"
    "bl_names ops (tab_insert ops h k None) = bl_names ops h - {k}"
  by (auto simp: bl_names_def table_documentedD(5) [OF assms])

lemma bl_names_new: "table_documented ops ks \<Longrightarrow> bl_names ops (tab_new ops) = {}"
  by (simp add: bl_names_def table_find_new)

text \<open>Storing a changed list under its address changes the set of its name only.\<close>

lemma bl_store:
  assumes "bl_ok env ks st" "tab_find (be_lists env) (bs_lists st) n = Some a"
  shows "bl_ok env ks (st\<lparr>bs_heap := (bs_heap st)(a \<mapsto> h)\<rparr>)"
    "bl_abs env (st\<lparr>bs_heap := (bs_heap st)(a \<mapsto> h)\<rparr>) = (bl_abs env st)(n \<mapsto> bl_names (be_names env) h)"
proof -
  have "a < bs_next st" using bl_okD(1) [OF assms] bl_okD(3) [OF assms(1), of a] by (meson not_le)
  then show "bl_ok env ks (st\<lparr>bs_heap := (bs_heap st)(a \<mapsto> h)\<rparr>)"
    using assms(1) unfolding bl_ok_def by auto
  show "bl_abs env (st\<lparr>bs_heap := (bs_heap st)(a \<mapsto> h)\<rparr>) = (bl_abs env st)(n \<mapsto> bl_names (be_names env) h)"
  proof
    fix m
    show "bl_abs env (st\<lparr>bs_heap := (bs_heap st)(a \<mapsto> h)\<rparr>) m = ((bl_abs env st)(n \<mapsto> bl_names (be_names env) h)) m"
    proof (cases "m = n")
      case True
      with assms(2) show ?thesis by (simp add: bl_abs_def)
    next
      case False
      then have "tab_find (be_lists env) (bs_lists st) m \<noteq> Some a" using bl_okD(2) [OF assms(1) _ assms(2)] by blast
      with False show ?thesis by (auto simp: bl_abs_def split: option.split)
    qed
  qed
qed

lemma bl_use_refines:
  assumes "table_documented (be_names env) ks'" "bl_ok env ks st"
    "tab_find (be_lists env) (bs_lists st) n = Some a"
  shows "\<exists>st'. bl_use env op a k st = Inr (fst (bl_spec op n k (bl_abs env st)), st') \<and>
    bl_ok env ks st' \<and> bl_abs env st' = snd (bl_spec op n k (bl_abs env st)) \<and> bs_lists st' = bs_lists st"
proof -
  obtain h where h: "bs_heap st a = Some h" using bl_okD(1) [OF assms(2,3)] by blast
  then have abs: "bl_abs env st n = Some (bl_names (be_names env) h)" using assms(3) by (simp add: bl_abs_def)
  show ?thesis
  proof (cases op)
    case Check
    then show ?thesis using h abs assms(2) by (auto simp: bl_use_def bl_spec_def bl_names_def)
  next
    case Add
    then show ?thesis
      using h abs bl_store [OF assms(2,3)] by (simp add: bl_use_def bl_spec_def bl_names_insert [OF assms(1)])
  next
    case Del
    then show ?thesis
      using h abs bl_store [OF assms(2,3)] by (simp add: bl_use_def bl_spec_def bl_names_insert [OF assms(1)])
  qed
qed

subsection \<open>Loading\<close>

text \<open>A file of one name per line.\<close>

definition bl_line :: "string \<Rightarrow> bool" where
  "bl_line l \<longleftrightarrow> LF \<notin> set l \<and> CR \<notin> set l \<and> NUL \<notin> set l \<and> length l < 1023"

definition bl_file :: "string list \<Rightarrow> string" where
  "bl_file ls = concat (map (\<lambda>l. l @ [LF]) ls)"

lemma read_upto_line:
  "LF \<notin> set l \<Longrightarrow> length l < n \<Longrightarrow> read_upto n (l @ LF # s) = (l @ [LF], s)"
proof (induction l arbitrary: n)
  case Nil
  then show ?case by (cases n) (simp_all add: LF_def)
next
  case (Cons c l)
  then obtain m where "n = Suc m" by (cases n) auto
  with Cons show ?case by (auto simp: LF_def)
qed

lemma takeWhile_stop: "c \<notin> set l \<Longrightarrow> takeWhile (\<lambda>x. x \<noteq> c) (l @ c # s) = l"
  by (induction l) auto

lemma takeWhile_no_stop: "c \<notin> set l \<Longrightarrow> takeWhile (\<lambda>x. x \<noteq> c) l = l"
  by (induction l) auto

lemma bl_line_read:
  assumes "bl_line l"
  shows "c_fgets 1024 (l @ LF # s) = Some (l @ [LF], s)" "bl_trim (buf_string (l @ [LF]) 0) = l"
proof -
  show "c_fgets 1024 (l @ LF # s) = Some (l @ [LF], s)"
    using assms read_upto_line [of l 1023 s] by (simp add: bl_line_def c_fgets_def)
  have "NUL \<notin> set (l @ [LF])" using assms by (simp add: bl_line_def NUL_def LF_def)
  then have "buf_string (l @ [LF]) 0 = l @ [LF]" unfolding buf_string_def drop_0 by (rule takeWhile_no_stop)
  then show "bl_trim (buf_string (l @ [LF]) 0) = l"
    using assms takeWhile_stop [of LF l "[]"] takeWhile_no_stop [of CR l] by (simp add: bl_trim_def bl_line_def)
qed

lemma load_lines_file:
  assumes "table_documented ops ks" "list_all bl_line ls"
  shows "bl_names ops (load_lines ops (bl_file ls) h) = bl_names ops h \<union> set ls"
  using assms(2)
proof (induction ls arbitrary: h)
  case Nil
  show ?case by (subst load_lines.simps) (simp add: bl_file_def c_fgets_def)
next
  case (Cons l ls)
  then have l: "bl_line l" by simp
  have "bl_file (l # ls) = l @ LF # bl_file ls" by (simp add: bl_file_def)
  then have "load_lines ops (bl_file (l # ls)) h = load_lines ops (bl_file ls) (tab_insert ops h l (Some ()))"
    by (subst load_lines.simps) (simp add: bl_line_read [OF l])
  with Cons show ?case by (simp add: bl_names_insert [OF assms(1)])
qed

definition bl_spec_config :: "(string \<Rightarrow> string list option) \<Rightarrow> (string option \<times> string option) list \<Rightarrow> bl_sets" where
  "bl_spec_config contents cfgs =
     fold (\<lambda>l A. case l of
         (Some name, Some filename) \<Rightarrow>
           (case contents filename of None \<Rightarrow> A | Some ls \<Rightarrow> A(name \<mapsto> set ls))
       | _ \<Rightarrow> A) cfgs Map.empty"

definition bl_files :: "('l, 'h) bl_env \<Rightarrow> (string \<Rightarrow> string list option) \<Rightarrow> bool" where
  "bl_files env contents \<longleftrightarrow>
     (\<forall>f. be_files env f = map_option bl_file (contents f) \<and> (\<forall>ls. contents f = Some ls \<longrightarrow> list_all bl_line ls))"

lemma load_list_refines:
  assumes "table_documented (be_lists env) ks" "table_documented (be_names env) ks'" "bl_ok env ks st" "bl_files env contents"
  shows "bl_ok env ks (config_list env l st) \<and>
    bl_abs env (config_list env l st) =
      (case l of
         (Some name, Some filename) \<Rightarrow>
           (case contents filename of None \<Rightarrow> bl_abs env st | Some ls \<Rightarrow> (bl_abs env st)(name \<mapsto> set ls))
       | _ \<Rightarrow> bl_abs env st)"
proof -
  have free: "bs_heap st (bs_next st) = None" by (rule bl_okD(3) [OF assms(3)]) simp
  have other: "tab_find (be_lists env) (bs_lists st) m \<noteq> Some (bs_next st)" for m
    using bl_okD(1) [OF assms(3)] free by blast
  have old: "bl_abs env (st\<lparr>bs_heap := (bs_heap st)(bs_next st \<mapsto> h), bs_next := n\<rparr>) = bl_abs env st" for h n
    using other by (auto simp: bl_abs_def fun_eq_iff split: option.split)
  have keep: "bl_ok env ks (st\<lparr>bs_heap := (bs_heap st)(bs_next st \<mapsto> h), bs_next := bs_next st + 1\<rparr>)" for h
    using assms(3) unfolding bl_ok_def by auto
  show ?thesis
  proof (cases l)
    case (Pair n f)
    show ?thesis
    proof (cases n; cases f)
      fix name filename
      assume nf: "n = Some name" "f = Some filename"
      show ?thesis
      proof (cases "contents filename")
        case None
        then have "be_files env filename = None" using assms(4) by (simp add: bl_files_def)
        then show ?thesis
          using None old keep Pair nf by (simp add: config_list_def load_list_def blacklist_create_def)
      next
        case (Some ls)
        let ?h = "load_lines (be_names env) (bl_file ls) (tab_new (be_names env))"
        let ?st = "st\<lparr>bs_heap := (bs_heap st)(bs_next st \<mapsto> ?h), bs_next := bs_next st + 1\<rparr>"
        let ?st' = "?st\<lparr>bs_lists := tab_insert (be_lists env) (bs_lists st) name (Some (bs_next st))\<rparr>"
        have ls: "be_files env filename = Some (bl_file ls)" "list_all bl_line ls"
          using assms(4) Some by (simp_all add: bl_files_def)
        have "config_list env l st = ?st'"
          using Pair nf ls(1) by (simp add: config_list_def load_list_def blacklist_create_def Let_def)
        moreover have "bl_ok env ks ?st'"
          using keep [of ?h] other unfolding bl_ok_def
          by (auto simp: table_documentedD(4,5) [OF assms(1)])
        moreover have "bl_abs env ?st' = (bl_abs env st)(name \<mapsto> set ls)"
        proof
          fix m
          have "bl_abs env ?st' m = (if m = name then Some (bl_names (be_names env) ?h) else bl_abs env ?st m)"
            by (auto simp: bl_abs_def table_documentedD(5) [OF assms(1)] split: option.split)
          then show "bl_abs env ?st' m = ((bl_abs env st)(name \<mapsto> set ls)) m"
            by (simp add: old load_lines_file [OF assms(2) ls(2)] bl_names_new [OF assms(2)])
        qed
        ultimately show ?thesis using Pair nf Some by simp
      qed
    qed (use assms(3) Pair in \<open>simp_all add: config_list_def\<close>)
  qed
qed
subsection \<open>Destroying and reloading\<close>

text \<open>
  The lists are destroyed one after the other; none that had a name is alive afterwards, and nothing
  comes alive.
\<close>

lemma destroy_lists_ends:
  assumes "table_documented (be_lists env) ks" "bl_ok env ks st"
  shows "\<exists>st'. destroy_lists env st = Some (Inr st') \<and> bl_ok env ks st' \<and> ks (bs_lists st') = {} \<and>
    bs_next st' = bs_next st \<and> (\<forall>a. bs_heap st a = None \<longrightarrow> bs_heap st' a = None) \<and>
    (\<forall>n a. tab_find (be_lists env) (bs_lists st) n = Some a \<longrightarrow> bs_heap st' a = None)"
  using assms(2)
proof (induction "card (ks (bs_lists st))" arbitrary: st rule: less_induct)
  case less
  note table = table_documentedD [OF assms(1)]
  show ?case
  proof (cases "tab_first (be_lists env) (bs_lists st)")
    case None
    then have "ks (bs_lists st) = {}" using table(8) by blast
    then have "tab_find (be_lists env) (bs_lists st) n = None" for n using table(3) by blast
    with None less.prems \<open>ks (bs_lists st) = {}\<close> show ?thesis by (subst destroy_lists.simps) simp
  next
    case (Some kv)
    then obtain k v where kv: "tab_first (be_lists env) (bs_lists st) = Some (k, v)" by (cases kv) simp
    then have k: "k \<in> ks (bs_lists st)" "tab_find (be_lists env) (bs_lists st) k = v" using table(9) by blast+
    then obtain a where a: "v = Some a" using bl_okD(4) [OF less.prems k(1)] by blast
    have live: "bs_heap st a \<noteq> None" by (rule bl_okD(1) [OF less.prems]) (use k(2) a in simp)
    let ?st = "st\<lparr>bs_heap := (bs_heap st)(a := None), bs_lists := tab_delete (be_lists env) (bs_lists st) k\<rparr>"
    have step: "destroy_lists env st = destroy_lists env ?st"
      using kv a live by (subst destroy_lists.simps) (auto simp: blacklist_free_def)
    have gone: "tab_find (be_lists env) (tab_delete (be_lists env) (bs_lists st) k) n = Some b \<Longrightarrow>
        n \<noteq> k \<and> b \<noteq> a \<and> tab_find (be_lists env) (bs_lists st) n = Some b" for n b
    proof -
      assume n: "tab_find (be_lists env) (tab_delete (be_lists env) (bs_lists st) k) n = Some b"
      have "tab_find (be_lists env) (tab_delete (be_lists env) (bs_lists st) k) k = None"
        by (rule table(3)) (simp only: table(6) Diff_iff insert_iff, simp)
      with n have "n \<noteq> k" by (metis option.distinct(1))
      moreover from this n have "tab_find (be_lists env) (bs_lists st) n = Some b" using table(7) by simp
      moreover from calculation have "b \<noteq> a" using bl_okD(2) [OF less.prems, of n a k] k(2) a by blast
      ultimately show ?thesis by simp
    qed
    have ok: "bl_ok env ks ?st"
    proof -
      have 1: "\<forall>n b. tab_find (be_lists env) (tab_delete (be_lists env) (bs_lists st) k) n = Some b \<longrightarrow>
          ((bs_heap st)(a := None)) b \<noteq> None"
        by (auto dest!: gone dest: bl_okD(1) [OF less.prems])
      have 2: "\<forall>n m b. tab_find (be_lists env) (tab_delete (be_lists env) (bs_lists st) k) n = Some b \<longrightarrow>
          tab_find (be_lists env) (tab_delete (be_lists env) (bs_lists st) k) m = Some b \<longrightarrow> n = m"
        using gone bl_okD(2) [OF less.prems] by blast
      have 3: "\<forall>b. bs_next st \<le> b \<longrightarrow> ((bs_heap st)(a := None)) b = None"
        using bl_okD(3) [OF less.prems] by simp
      have 4: "\<forall>n. n \<in> ks (tab_delete (be_lists env) (bs_lists st) k) \<longrightarrow>
          tab_find (be_lists env) (tab_delete (be_lists env) (bs_lists st) k) n \<noteq> None"
        using bl_okD(4) [OF less.prems] table(7) [of _ k "bs_lists st"] unfolding table(6) by (metis DiffE insertI1)
      show ?thesis unfolding bl_ok_def using 1 2 3 4 by simp
    qed
    have "card (ks (bs_lists ?st)) < card (ks (bs_lists st))"
      using card_Diff1_less [OF table(2) k(1)] by (simp add: table(6))
    from less.hyps [OF this ok] obtain st' where st': "destroy_lists env ?st = Some (Inr st')" "bl_ok env ks st'"
      "ks (bs_lists st') = {}" "bs_next st' = bs_next ?st" "\<forall>b. bs_heap ?st b = None \<longrightarrow> bs_heap st' b = None"
      "\<forall>n b. tab_find (be_lists env) (bs_lists ?st) n = Some b \<longrightarrow> bs_heap st' b = None"
      by blast
    have "bs_heap st' b = None" if "tab_find (be_lists env) (bs_lists st) n = Some b" for n b
    proof (cases "n = k")
      case True
      then have "b = a" using that k(2) a by simp
      then show ?thesis using st'(5) by simp
    next
      case False
      with that have "tab_find (be_lists env) (bs_lists ?st) n = Some b" using table(7) [OF False, of "bs_lists st"] by simp
      with st'(6) show ?thesis by blast
    qed
    with st' step show ?thesis by auto
  qed
qed

text \<open>Loading lists only writes to new addresses.\<close>

lemma config_list_next: "bs_next st \<le> bs_next (config_list env l st)"
  by (auto simp: config_list_def load_list_def blacklist_create_def Let_def split: prod.split option.split)

lemma config_list_old: "a < bs_next st \<Longrightarrow> bs_heap (config_list env l st) a = bs_heap st a"
  by (auto simp: config_list_def load_list_def blacklist_create_def Let_def split: prod.split option.split)

lemma config_lists_old:
  "a < bs_next st \<Longrightarrow> bs_heap (fold (config_list env) cfgs st) a = bs_heap st a"
proof (induction cfgs arbitrary: st)
  case (Cons l cfgs)
  then have "a < bs_next (config_list env l st)" using config_list_next [of st env l] by simp
  with Cons show ?case by (simp add: config_list_old)
qed simp

lemma config_lists_refine:
  assumes "table_documented (be_lists env) ks" "table_documented (be_names env) ks'" "bl_files env contents" "bl_ok env ks st"
  shows "bl_ok env ks (fold (config_list env) cfgs st) \<and>
    bl_abs env (fold (config_list env) cfgs st) =
      fold (\<lambda>l A. case l of
         (Some name, Some filename) \<Rightarrow>
           (case contents filename of None \<Rightarrow> A | Some ls \<Rightarrow> A(name \<mapsto> set ls))
       | _ \<Rightarrow> A) cfgs (bl_abs env st)"
  using assms(4)
proof (induction cfgs arbitrary: st)
  case (Cons l cfgs)
  note l = load_list_refines [OF assms(1,2) Cons.prems assms(3), of l]
  from Cons.IH [OF l [THEN conjunct1]] show ?case unfolding fold_simps o_apply l [THEN conjunct2] .
qed simp

lemma bl_abs_no_lists:
  assumes "table_documented (be_lists env) ks" "ks (bs_lists st) = {}"
  shows "bl_abs env st = Map.empty"
proof
  fix n
  have "tab_find (be_lists env) (bs_lists st) n = None"
    by (rule table_documentedD(3) [OF assms(1)]) (simp add: assms(2))
  then show "bl_abs env st n = None" by (simp add: bl_abs_def)
qed

definition bl_spec_reload ::
    "(string \<Rightarrow> string list option) \<Rightarrow> bl_config \<Rightarrow> bl_sets \<Rightarrow> bl_sets" where
  "bl_spec_reload contents cfg A =
     (case cfg of None \<Rightarrow> A | Some cfgs \<Rightarrow> bl_spec_config contents cfgs)"

lemma do_config_refines:
  assumes "table_documented (be_lists env) ks" "table_documented (be_names env) ks'" "bl_files env contents" "bl_ok env ks st"
  shows "\<exists>r st'. bl_do_config env cfg st = Some (Inr (r, st')) \<and> bl_ok env ks st' \<and>
    bl_abs env st' = bl_spec_reload contents cfg (bl_abs env st)"
proof (cases cfg)
  case None
  with assms(4) show ?thesis by (simp add: bl_do_config_def bl_spec_reload_def)
next
  case (Some cfgs)
  obtain st1 where st1: "destroy_lists env st = Some (Inr st1)" "bl_ok env ks st1" "ks (bs_lists st1) = {}"
    using destroy_lists_ends [OF assms(1,4)] by blast
  note c = config_lists_refine [OF assms(1-3) st1(2), of cfgs]
  show ?thesis
    using Some st1(1) c by (simp add: bl_do_config_def bl_spec_reload_def bl_spec_config_def bl_abs_no_lists [OF assms(1) st1(3)])
qed

text \<open>A list that was loaded when a reload started is gone when it is done.\<close>

lemma do_config_frees:
  assumes "table_documented (be_lists env) ks" "bl_ok env ks st" "tab_find (be_lists env) (bs_lists st) n = Some a"
  shows "\<exists>st'. bl_do_config env (Some cfgs) st = Some (Inr (SWITCH_STATUS_SUCCESS, st')) \<and> bs_heap st' a = None"
proof -
  obtain st1 where st1: "destroy_lists env st = Some (Inr st1)" "bs_next st1 = bs_next st" "bs_heap st1 a = None"
    using destroy_lists_ends [OF assms(1,2)] assms(3) by blast
  have "a < bs_next st1"
    using bl_okD(1) [OF assms(2,3)] bl_okD(3) [OF assms(2), of a] st1(2) by (metis not_le)
  with st1 show ?thesis by (simp add: bl_do_config_def config_lists_old)
qed
subsection \<open>A session\<close>

text \<open>Commands one after the other, with their answers.\<close>

fun bl_session ::
    "('l, 'h) bl_env \<Rightarrow> fs_api \<Rightarrow> bl_config \<Rightarrow> (nat \<Rightarrow> string option) \<Rightarrow> string list \<Rightarrow>
     ('l, 'h) bl_state \<Rightarrow> (crash + string list \<times> ('l, 'h) bl_state) option" where
  "bl_session env api cfg junk [] st = Some (Inr ([], st))"
| "bl_session env api cfg junk (c # cs) st =
     (case blacklist_api_function env api cfg junk (Some c) st of
        None \<Rightarrow> None
      | Some (Inl e) \<Rightarrow> Some (Inl e)
      | Some (Inr (out, st1)) \<Rightarrow>
          (case bl_session env api cfg junk cs st1 of
             None \<Rightarrow> None
           | Some (Inl e) \<Rightarrow> Some (Inl e)
           | Some (Inr (outs, st2)) \<Rightarrow> Some (Inr (out # outs, st2))))"

definition bl_spec_call ::
    "(string \<Rightarrow> string list option) \<Rightarrow> bl_config \<Rightarrow> bl_call \<Rightarrow> bl_sets \<Rightarrow> string \<times> bl_sets" where
  "bl_spec_call contents cfg call A =
     (case call of
        Nothing \<Rightarrow> ([], A)
      | Reload \<Rightarrow> (''+OK'' @ [LF], bl_spec_reload contents cfg A)
      | Call op n k \<Rightarrow> bl_spec op n k A)"

fun bl_spec_session ::
    "(string \<Rightarrow> string list option) \<Rightarrow> bl_config \<Rightarrow> bl_call list \<Rightarrow> bl_sets \<Rightarrow> string list \<times> bl_sets" where
  "bl_spec_session contents cfg [] A = ([], A)"
| "bl_spec_session contents cfg (c # cs) A =
     (let (out, A1) = bl_spec_call contents cfg c A; (outs, A2) = bl_spec_session contents cfg cs A1
      in (out # outs, A2))"

lemma bl_unknown_spec: "A n = None \<Longrightarrow> bl_spec op n k A = (bl_unknown op, A)"
  by (cases op) (simp_all add: bl_spec_def bl_unknown_def)

lemma bl_abs_None: "tab_find (be_lists env) (bs_lists st) n = None \<Longrightarrow> bl_abs env st n = None"
  by (simp add: bl_abs_def)

lemma api_refines:
  assumes "table_documented (be_lists env) ks" "table_documented (be_names env) ks'" "bl_files env contents" "bl_ok env ks st"
  shows "\<exists>st'. blacklist_api_function env api cfg junk (Some c) st =
      Some (Inr (fst (bl_spec_call contents cfg (bl_call_of api junk c) (bl_abs env st)), st')) \<and>
    bl_ok env ks st' \<and> bl_abs env st' = snd (bl_spec_call contents cfg (bl_call_of api junk c) (bl_abs env st))"
proof (cases "bl_call_of api junk c")
  case Nothing
  with assms(4) show ?thesis by (simp add: blacklist_api_function_def bl_spec_call_def)
next
  case Reload
  obtain r st' where "bl_do_config env cfg st = Some (Inr (r, st'))" "bl_ok env ks st'"
    "bl_abs env st' = bl_spec_reload contents cfg (bl_abs env st)"
    using do_config_refines [OF assms, of cfg] by blast
  with Reload show ?thesis by (simp add: blacklist_api_function_def bl_spec_call_def)
next
  case (Call op n k)
  show ?thesis
  proof (cases "tab_find (be_lists env) (bs_lists st) n")
    case None
    with Call assms(4) show ?thesis
      by (simp add: blacklist_api_function_def bl_spec_call_def bl_unknown_spec bl_abs_None)
  next
    case (Some a)
    with Call bl_use_refines [OF assms(2,4) Some, of op k] show ?thesis
      by (auto simp: blacklist_api_function_def bl_spec_call_def)
  qed
qed

lemma session_refines:
  assumes "table_documented (be_lists env) ks" "table_documented (be_names env) ks'" "bl_files env contents" "bl_ok env ks st"
  shows "\<exists>st'. bl_session env api cfg junk cmds st =
      Some (Inr (fst (bl_spec_session contents cfg (map (bl_call_of api junk) cmds) (bl_abs env st)), st')) \<and>
    bl_abs env st' = snd (bl_spec_session contents cfg (map (bl_call_of api junk) cmds) (bl_abs env st))"
  using assms(4)
proof (induction cmds arbitrary: st)
  case (Cons c cmds)
  obtain st1 where st1: "blacklist_api_function env api cfg junk (Some c) st =
      Some (Inr (fst (bl_spec_call contents cfg (bl_call_of api junk c) (bl_abs env st)), st1))"
    "bl_ok env ks st1" "bl_abs env st1 = snd (bl_spec_call contents cfg (bl_call_of api junk c) (bl_abs env st))"
    using api_refines [OF assms(1-3) Cons.prems, of api cfg junk c] by blast
  from Cons.IH [OF st1(2)] obtain st2 where "bl_session env api cfg junk cmds st1 =
      Some (Inr (fst (bl_spec_session contents cfg (map (bl_call_of api junk) cmds) (bl_abs env st1)), st2))"
    "bl_abs env st2 = snd (bl_spec_session contents cfg (map (bl_call_of api junk) cmds) (bl_abs env st1))"
    by blast
  with st1 show ?case by (simp add: Let_def split_def)
qed simp

lemma load_refines:
  assumes "table_documented (be_lists env) ks" "table_documented (be_names env) ks'" "bl_files env contents"
  shows "\<exists>st. mod_blacklist_load env cfg = Some (Inr st) \<and> bl_ok env ks st \<and>
    bl_abs env st = bl_spec_reload contents cfg Map.empty"
proof -
  let ?st = "\<lparr>bs_lists = tab_new (be_lists env), bs_heap = (\<lambda>_. None), bs_next = 0\<rparr>"
  have "bl_ok env ks ?st"
    by (simp add: bl_ok_def table_find_new [OF assms(1)] table_documentedD(1) [OF assms(1)])
  moreover have "bl_abs env ?st = Map.empty"
    by (rule bl_abs_no_lists [OF assms(1)]) (simp add: table_documentedD(1) [OF assms(1)])
  ultimately show ?thesis
    using do_config_refines [OF assms, of ?st cfg] by (auto simp: mod_blacklist_load_def)
qed


subsection \<open>Commands at the same time\<close>

text \<open>
  A thread finds its list under \<open>lists_mutex\<close>, gives the mutex back, and then uses the list under
  the mutex of the list.  A reload holds \<open>lists_mutex\<close> all the time, and looks at no other.
\<close>

datatype bl_thread = Bl_Idle | Bl_Found bl_op nat string | Bl_Crashed crash

inductive bl_step ::
    "('l, 'h) bl_env \<Rightarrow> bl_config \<Rightarrow> bool \<Rightarrow> ('l, 'h) bl_state \<times> (nat \<Rightarrow> bl_thread) \<Rightarrow>
     ('l, 'h) bl_state \<times> (nat \<Rightarrow> bl_thread) \<Rightarrow> bool"
  for env :: "('l, 'h) bl_env" and cfg :: bl_config and reloads :: bool where
  find_list: "pcs t = Bl_Idle \<Longrightarrow> tab_find (be_lists env) (bs_lists st) name = Some a \<Longrightarrow>
    bl_step env cfg reloads (st, pcs) (st, pcs(t := Bl_Found op a key))"
| use_list: "pcs t = Bl_Found op a key \<Longrightarrow> bl_use env op a key st = Inr (out, st') \<Longrightarrow>
    bl_step env cfg reloads (st, pcs) (st', pcs(t := Bl_Idle))"
| use_freed: "pcs t = Bl_Found op a key \<Longrightarrow> bl_use env op a key st = Inl e \<Longrightarrow>
    bl_step env cfg reloads (st, pcs) (st, pcs(t := Bl_Crashed e))"
| reload: "reloads \<Longrightarrow> pcs t = Bl_Idle \<Longrightarrow> bl_do_config env cfg st = Some (Inr (r, st')) \<Longrightarrow>
    bl_step env cfg reloads (st, pcs) (st', pcs)"

inductive_cases bl_stepE: "bl_step env cfg reloads s s'"

fun bl_thread_ok :: "(nat \<Rightarrow> 'h option) \<Rightarrow> bl_thread \<Rightarrow> bool" where
  "bl_thread_ok heap Bl_Idle \<longleftrightarrow> True"
| "bl_thread_ok heap (Bl_Found op a key) \<longleftrightarrow> heap a \<noteq> None"
| "bl_thread_ok heap (Bl_Crashed e) \<longleftrightarrow> False"

definition bl_steady :: "('l, 'h) bl_env \<Rightarrow> ('l, 'h) bl_state \<times> (nat \<Rightarrow> bl_thread) \<Rightarrow> bool" where
  "bl_steady env s \<longleftrightarrow>
     (\<forall>n a. tab_find (be_lists env) (bs_lists (fst s)) n = Some a \<longrightarrow> bs_heap (fst s) a \<noteq> None) \<and>
     (\<forall>t. bl_thread_ok (bs_heap (fst s)) (snd s t))"

lemma bl_thread_ok_mono:
  "bl_thread_ok heap pc \<Longrightarrow> (\<And>b. heap b \<noteq> None \<Longrightarrow> heap' b \<noteq> None) \<Longrightarrow> bl_thread_ok heap' pc"
  by (cases pc) simp_all

lemma bl_use_keeps:
  assumes "bl_use env op a key st = Inr (out, st')"
  shows "bs_lists st' = bs_lists st" "bs_heap st b \<noteq> None \<Longrightarrow> bs_heap st' b \<noteq> None"
  using assms by (auto simp: bl_use_def split: option.splits bl_op.splits)

lemma bl_use_alive: "bs_heap st a \<noteq> None \<Longrightarrow> bl_use env op a key st \<noteq> Inl e"
  by (auto simp: bl_use_def split: option.split bl_op.split)

lemma bl_steady_step:
  assumes "bl_step env cfg False s s'" "bl_steady env s"
  shows "bl_steady env s'"
  using assms(1)
proof (rule bl_stepE)
  fix pcs t st name a op key
  assume s: "s = (st, pcs)" "s' = (st, pcs(t := Bl_Found op a key))" "tab_find (be_lists env) (bs_lists st) name = Some a"
  then have "bs_heap st a \<noteq> None" using assms(2) by (auto simp: bl_steady_def)
  with s assms(2) show ?thesis by (simp add: bl_steady_def)
next
  fix pcs t op a key st out st'
  assume s: "s = (st, pcs)" "s' = (st', pcs(t := Bl_Idle))" and u: "bl_use env op a key st = Inr (out, st')"
  have "bl_thread_ok (bs_heap st') (pcs r)" for r
    by (rule bl_thread_ok_mono [OF _ bl_use_keeps(2) [OF u]]) (use assms(2) s(1) in \<open>auto simp: bl_steady_def\<close>)
  then show ?thesis
    using assms(2) s bl_use_keeps [OF u] by (simp add: bl_steady_def)
next
  fix pcs t op a key st e
  assume s: "s = (st, pcs)" "pcs t = Bl_Found op a key" and u: "bl_use env op a key st = Inl e"
  have "bl_thread_ok (bs_heap st) (pcs t)" using assms(2) s(1) by (simp add: bl_steady_def)
  then have "bs_heap st a \<noteq> None" using s(2) by simp
  from bl_use_alive [OF this, of env op key e] u show ?thesis by simp
qed simp
lemma bl_steady_reachable:
  assumes "(bl_step env cfg False)\<^sup>*\<^sup>* s s'" "bl_steady env s"
  shows "bl_steady env s'"
  using assms by (induction rule: rtranclp_induct) (auto intro: bl_steady_step)

lemma bl_steady_loaded: "bl_ok env ks st \<Longrightarrow> bl_steady env (st, \<lambda>_. Bl_Idle)"
  by (auto simp: bl_steady_def dest: bl_okD(1))

text \<open>As long as nobody reloads, commands given at the same time never use a list that is gone.\<close>
theorem commands_share_lists:
  assumes "table_documented (be_lists env) ks" "table_documented (be_names env) ks'" "bl_files env contents"
    "mod_blacklist_load env cfg = Some (Inr st)" "(bl_step env cfg False)\<^sup>*\<^sup>* (st, \<lambda>_. Bl_Idle) s'"
  shows "snd s' t \<noteq> Bl_Crashed e"
proof -
  have "bl_ok env ks st" using load_refines [OF assms(1-3), of cfg] assms(4) by auto
  then have "bl_steady env s'" by (intro bl_steady_reachable [OF assms(5)] bl_steady_loaded)
  then have "bl_thread_ok (bs_heap (fst s')) (snd s' t)" by (simp add: bl_steady_def)
  then show ?thesis by auto
qed

text \<open>
  C32:A reload while a command is between its two steps destroys the list the command has found: for
  every list that is loaded there is a run in which a thread uses it after it was freed.
\<close>
theorem reload_frees_list_in_use:
  assumes "table_documented (be_lists env) ks" "table_documented (be_names env) ks'" "bl_files env contents"
    "mod_blacklist_load env (Some cfgs) = Some (Inr st)" "bl_abs env st name \<noteq> None"
  shows "\<exists>s'. (bl_step env (Some cfgs) True)\<^sup>*\<^sup>* (st, \<lambda>_. Bl_Idle) s' \<and> snd s' t = Bl_Crashed Use_After_Free"
proof -
  have ok: "bl_ok env ks st" using load_refines [OF assms(1-3), of "Some cfgs"] assms(4) by auto
  obtain a where a: "tab_find (be_lists env) (bs_lists st) name = Some a"
    using assms(5) bl_abs_None by fastforce
  let ?pcs = "(\<lambda>_. Bl_Idle)(t := Bl_Found Check a [])"
  obtain st' where st': "bl_do_config env (Some cfgs) st = Some (Inr (SWITCH_STATUS_SUCCESS, st'))" "bs_heap st' a = None"
    using do_config_frees [OF assms(1) ok a] by blast
  have "bl_step env (Some cfgs) True (st, \<lambda>_. Bl_Idle) (st, ?pcs)"
    by (rule find_list [OF _ a]) simp
  then have "(bl_step env (Some cfgs) True)\<^sup>*\<^sup>* (st, \<lambda>_. Bl_Idle) (st, ?pcs)" ..
  moreover have "bl_step env (Some cfgs) True (st, ?pcs) (st', ?pcs)"
    by (rule reload [where t = "Suc t"]) (simp_all add: st'(1))
  ultimately have "(bl_step env (Some cfgs) True)\<^sup>*\<^sup>* (st, \<lambda>_. Bl_Idle) (st', ?pcs)" ..
  moreover have "bl_step env (Some cfgs) True (st', ?pcs) (st', ?pcs(t := Bl_Crashed Use_After_Free))"
    by (rule use_freed [where a = a and op = Check and key = "[]"]) (simp_all add: bl_use_def st'(2))
  ultimately have "(bl_step env (Some cfgs) True)\<^sup>*\<^sup>* (st, \<lambda>_. Bl_Idle) (st', ?pcs(t := Bl_Crashed Use_After_Free))"
    ..
  then show ?thesis by (intro exI conjI) (assumption, simp)
qed

subsection \<open>Witnesses\<close>

definition sample_bl_env :: "((string \<times> nat option) list, (string \<times> unit option) list) bl_env" where
  "sample_bl_env = \<lparr>be_lists = documented_table, be_names = documented_table,
     be_files = [''spam'' \<mapsto> bl_file [''100'', ''200'']]\<rparr>"

definition sample_bl_config :: "(string option \<times> string option) list" where
  "sample_bl_config = [(Some ''calls'', Some ''spam''), (Some ''none'', Some ''missing'')]"

lemma sample_bl_tables:
  "table_documented (be_lists sample_bl_env) (\<lambda>h. fst ` set h)"
  "table_documented (be_names sample_bl_env) (\<lambda>h. fst ` set h)"
  by (simp_all add: sample_bl_env_def documented_table_ok)

lemma sample_bl_files: "bl_files sample_bl_env [''spam'' \<mapsto> [''100'', ''200'']]"
  by (simp add: bl_files_def sample_bl_env_def bl_line_def LF_def CR_def NUL_def)

lemma sample_bl_sets:
  "bl_spec_reload [''spam'' \<mapsto> [''100'', ''200'']] (Some sample_bl_config) A = [''calls'' \<mapsto> {''100'', ''200''}]"
  by (simp add: bl_spec_reload_def bl_spec_config_def sample_bl_config_def)

lemma sample_bl_calls:
  "map (bl_call_of documented_api (\<lambda>_. None)) [''check calls 100'', ''del calls 100'', ''check calls 100'', ''check calls'', ''reload''] =
    [Call Check ''calls'' ''100'', Call Del ''calls'' ''100'', Call Check ''calls'' ''100'', Nothing, Reload]"
  by code_simp


lemma sample_bl_loads:
  "\<exists>st. mod_blacklist_load sample_bl_env (Some sample_bl_config) = Some (Inr st) \<and> bl_abs sample_bl_env st ''calls'' \<noteq> None"
  using load_refines [OF sample_bl_tables sample_bl_files, of "Some sample_bl_config"] by (auto simp: sample_bl_sets)

theorem commands_share_lists_witness:
  "\<exists>st. mod_blacklist_load sample_bl_env (Some sample_bl_config) = Some (Inr st) \<and>
    snd (st, \<lambda>_::nat. Bl_Idle) 0 \<noteq> Bl_Crashed Use_After_Free"
proof -
  obtain st where "mod_blacklist_load sample_bl_env (Some sample_bl_config) = Some (Inr st)" using sample_bl_loads by blast
  with commands_share_lists [OF sample_bl_tables sample_bl_files this rtranclp.rtrancl_refl] show ?thesis by blast
qed

theorem reload_frees_list_in_use_witness:
  "\<exists>st s'. mod_blacklist_load sample_bl_env (Some sample_bl_config) = Some (Inr st) \<and>
    (bl_step sample_bl_env (Some sample_bl_config) True)\<^sup>*\<^sup>* (st, \<lambda>_. Bl_Idle) s' \<and> snd s' 0 = Bl_Crashed Use_After_Free"
proof -
  obtain st where st: "mod_blacklist_load sample_bl_env (Some sample_bl_config) = Some (Inr st)"
    "bl_abs sample_bl_env st ''calls'' \<noteq> None" using sample_bl_loads by blast
  with reload_frees_list_in_use [OF sample_bl_tables sample_bl_files st, of 0] show ?thesis by blast
qed

end
