(* ===== verification/Xml_Odbc.thy ===== *)
theory Xml_Odbc
  imports Fs_Api
begin

text \<open>
  \<open>mod/xml_int/mod_xml_odbc/mod_xml_odbc.c\<close>: answers a search for configuration by rendering an XML
  template, whose \<open>xml-odbc-do\<close> tags set headers of an event, run queries and go over to other
  templates.  The tag that is rendered to, \<open>xml_out_cur\<close>, is a path in the tree \<open>xml_out\<close>.  Allocating a
  tag is taken to succeed.
\<close>

subsection \<open>Trees\<close>

datatype in_tag = In_Tag (it_name: string) (it_attrs: "(string \<times> string) list") (it_children: "in_tag list")

text \<open>A tag of the answer has the offset it was added with.\<close>

datatype out_tag =
  Out_Tag (ot_name: string) (ot_off: nat) (ot_attrs: "(string \<times> string) list") (ot_children: "out_tag list")

fun out_at :: "nat list \<Rightarrow> out_tag \<Rightarrow> out_tag option" where
  "out_at [] t = Some t"
| "out_at (i # p) t = (if i < length (ot_children t) then out_at p (ot_children t ! i) else None)"

fun out_change :: "nat list \<Rightarrow> (out_tag \<Rightarrow> out_tag) \<Rightarrow> out_tag \<Rightarrow> out_tag" where
  "out_change [] f t = f t"
| "out_change (i # p) f (Out_Tag n k as cs) =
     Out_Tag n k as (if i < length cs then cs[i := out_change p f (cs ! i)] else cs)"

text \<open>
  \<open>switch_xml_add_child_d\<close>: the children are ordered by their offsets, a new one is put behind those
  with its own.  The place it gets is the second result.
\<close>

definition add_child_d :: "string \<Rightarrow> nat \<Rightarrow> out_tag \<Rightarrow> out_tag \<times> nat" where
  "add_child_d n off t =
     (let before = takeWhile (\<lambda>c. ot_off c \<le> off) (ot_children t)
      in (Out_Tag (ot_name t) (ot_off t) (ot_attrs t)
            (before @ Out_Tag n off [] [] # drop (length before) (ot_children t)), length before))"

text \<open>\<open>switch_xml_set_attr\<close> changes the attribute when the tag has it, and adds it otherwise.\<close>

fun set_attr :: "string \<Rightarrow> string \<Rightarrow> (string \<times> string) list \<Rightarrow> (string \<times> string) list" where
  "set_attr n v [] = [(n, v)]"
| "set_attr n v (a # as) = (if fst a = n then (n, v) # as else a # set_attr n v as)"

definition set_tag_attr :: "string \<Rightarrow> string \<Rightarrow> out_tag \<Rightarrow> out_tag" where
  "set_tag_attr n v t = Out_Tag (ot_name t) (ot_off t) (set_attr n v (ot_attrs t)) (ot_children t)"

definition set_tag_name :: "string \<Rightarrow> out_tag \<Rightarrow> out_tag" where
  "set_tag_name n t = Out_Tag n (ot_off t) (ot_attrs t) (ot_children t)"

text \<open>\<open>switch_xml_attr\<close> and \<open>switch_xml_attr_soft\<close>.\<close>

definition xml_attr :: "(string \<times> string) list \<Rightarrow> string \<Rightarrow> string option" where
  "xml_attr as n = map_of as n"

definition xml_attr_soft :: "(string \<times> string) list \<Rightarrow> string \<Rightarrow> string" where
  "xml_attr_soft as n = (case map_of as n of None \<Rightarrow> [] | Some v \<Rightarrow> v)"

text \<open>Changing a child in its place, and a tree without its offsets.\<close>

definition change_child :: "nat \<Rightarrow> (out_tag \<Rightarrow> out_tag) \<Rightarrow> out_tag \<Rightarrow> out_tag" where
  "change_child i f t = Out_Tag (ot_name t) (ot_off t) (ot_attrs t) ((ot_children t)[i := f (ot_children t ! i)])"

fun plain :: "out_tag \<Rightarrow> in_tag" where
  "plain (Out_Tag n off as cs) = In_Tag n as (map plain cs)"

subsection \<open>The event, the database and the helper\<close>

text \<open>
  The operations on the event's headers, and the database with its answer to a query: \<open>None\<close> for an
  error, or the rows, each with its columns and their values, which may be \<open>NULL\<close>.
\<close>

record ('e, 'd) xo_env =
  ev_get :: "'e \<Rightarrow> string \<Rightarrow> string option"
  ev_del :: "'e \<Rightarrow> string \<Rightarrow> 'e"
  ev_add :: "'e \<Rightarrow> string \<Rightarrow> string option \<Rightarrow> 'e"
  ev_expand :: "'e \<Rightarrow> string \<Rightarrow> string"
  ev_new :: 'e
  ev_add_top :: "'e \<Rightarrow> string \<Rightarrow> string \<Rightarrow> 'e"
  xo_odbc :: "'d \<Rightarrow> string \<Rightarrow> (string \<times> string option) list list option \<times> 'd"

record ('e, 'd) xo_helper =
  xh_next :: string
  xh_event :: 'e
  xh_out :: out_tag
  xh_cur :: "nat list"
  xh_off :: nat
  xh_count :: int
  xh_rows :: nat
  xh_db :: 'd

text \<open>Storing the columns of a row in the headers.\<close>

definition row_headers :: "('e, 'd) xo_env \<Rightarrow> (string \<times> string option) list \<Rightarrow> 'e \<Rightarrow> 'e" where
  "row_headers env row e = fold (\<lambda>(c, v) e. ev_add env (ev_del env e c) c v) row e"

definition xml_odbc_do_break_to ::
    "('e, 'd) xo_env \<Rightarrow> (string \<times> string) list \<Rightarrow> ('e, 'd) xo_helper \<Rightarrow> switch_status \<times> ('e, 'd) xo_helper" where
  "xml_odbc_do_break_to env as h =
     (SWITCH_STATUS_SUCCESS, h\<lparr>xh_next := ev_expand env (xh_event h) (xml_attr_soft as ''value'')\<rparr>)"

text \<open>
  The part of \<open>xml_odbc_do_set_event_header\<close> in front of its children: \<open>Some\<close> status when they are not
  rendered.  \<open>old_value\<close> is a pointer into the header that is deleted, so when it is the value to be
  added it is used after it was freed.
\<close>

definition set_event_header ::
    "('e, 'd) xo_env \<Rightarrow> (string \<times> string) list \<Rightarrow> ('e, 'd) xo_helper \<Rightarrow>
     crash + switch_status option \<times> ('e, 'd) xo_helper" where
  "set_event_header env as h =
     (let ex = map_option (ev_expand env (xh_event h));
          if_name = ex (xml_attr as ''if-name''); if_value = ex (xml_attr as ''if-value'');
          to_name = ex (xml_attr as ''to-name''); to_value = ex (xml_attr as ''to-value'');
          old_value = (case if_name of None \<Rightarrow> None | Some n \<Rightarrow> ev_get env (xh_event h) n)
      in if if_value \<noteq> None \<and> if_name = None then Inr (Some SWITCH_STATUS_FALSE, h)
         else if if_name = None \<and> to_name = None then Inr (Some SWITCH_STATUS_FALSE, h)
         else if if_name \<noteq> None \<and> old_value = None then Inr (Some SWITCH_STATUS_SUCCESS, h)
         else if (case (if_value, old_value) of (Some v, Some w) \<Rightarrow> \<not> c_strcaseeq v w | _ \<Rightarrow> False)
         then Inr (Some SWITCH_STATUS_SUCCESS, h)
         else if to_name = None \<and> to_value = None then Inr (None, h)
         else let del = (case if_name of Some n \<Rightarrow> n | None \<Rightarrow> the to_name);
                  e1 = ev_del env (xh_event h) del;
                  add = (case to_name of Some n \<Rightarrow> n | None \<Rightarrow> the if_name)
              in (case to_value of
                    Some v \<Rightarrow> Inr (None, h\<lparr>xh_event := ev_add env e1 add (Some v)\<rparr>)
                  | None \<Rightarrow>
                      if old_value \<noteq> None then Inl Use_After_Free
                      else Inr (None, h\<lparr>xh_event := ev_add env e1 add None\<rparr>)))"

text \<open>Copying a tag with its expanded attributes: the first one gives the root its name.\<close>

definition copy_attrs ::
    "('e, 'd) xo_env \<Rightarrow> (string \<times> string) list \<Rightarrow> ('e, 'd) xo_helper \<Rightarrow> ('e, 'd) xo_helper" where
  "copy_attrs env as h =
     fold (\<lambda>(n, v) h. h\<lparr>xh_out := out_change (xh_cur h) (set_tag_attr n (ev_expand env (xh_event h) v)) (xh_out h)\<rparr>) as h"

definition open_tag :: "string \<Rightarrow> ('e, 'd) xo_helper \<Rightarrow> ('e, 'd) xo_helper" where
  "open_tag n h =
     (case out_at (xh_cur h) (xh_out h) of
        None \<Rightarrow> h
      | Some t \<Rightarrow>
          if ot_name t = [] then h\<lparr>xh_out := out_change (xh_cur h) (set_tag_name n) (xh_out h)\<rparr>
          else h\<lparr>xh_out := out_change (xh_cur h) (\<lambda>t. fst (add_child_d n (xh_off h) t)) (xh_out h),
                 xh_cur := xh_cur h @ [snd (add_child_d n (xh_off h) t)],
                 xh_off := xh_off h + 1\<rparr>)"

subsection \<open>Rendering\<close>

fun tag_weight :: "in_tag \<Rightarrow> nat" where
  "tag_weight (In_Tag n as cs) = Suc (sum_list (map tag_weight cs))"

lemma tag_weight_pos [simp]: "0 < tag_weight t"
  by (cases t) simp

definition is_do :: "string \<Rightarrow> bool" where
  "is_do n \<longleftrightarrow> c_strcaseeq n ''xml-odbc-do''"

function render_tag :: "('e, 'd) xo_env \<Rightarrow> in_tag \<Rightarrow> ('e, 'd) xo_helper \<Rightarrow> crash + switch_status \<times> ('e, 'd) xo_helper"
  and render_children ::
    "('e, 'd) xo_env \<Rightarrow> in_tag list \<Rightarrow> ('e, 'd) xo_helper \<Rightarrow> crash + switch_status \<times> ('e, 'd) xo_helper"
  and query_rows ::
    "('e, 'd) xo_env \<Rightarrow> in_tag list \<Rightarrow> (string \<times> string option) list list \<Rightarrow> ('e, 'd) xo_helper \<Rightarrow>
     crash + ('e, 'd) xo_helper" where
  "render_tag env (In_Tag n as cs) h =
     (if is_do n
      then let name = xml_attr_soft as ''name''
           in if name = [] then Inr (SWITCH_STATUS_FALSE, h)
              else if c_strcaseeq name ''break-to'' then Inr (xml_odbc_do_break_to env as h)
              else if c_strcaseeq name ''check-event-header'' \<or> c_strcaseeq name ''set-event-header''
              then (case set_event_header env as h of
                      Inl e \<Rightarrow> Inl e
                    | Inr (Some status, h1) \<Rightarrow> Inr (status, h1)
                    | Inr (None, h1) \<Rightarrow> render_children env cs h1)
              else if c_strcaseeq name ''query''
              then (case xo_odbc env (xh_db h) (ev_expand env (xh_event h) (xml_attr_soft as ''value'')) of
                      (None, d) \<Rightarrow> Inr (SWITCH_STATUS_FALSE, h\<lparr>xh_rows := 0, xh_db := d\<rparr>)
                    | (Some rows, d) \<Rightarrow>
                        (case query_rows env cs rows (h\<lparr>xh_rows := 0, xh_db := d\<rparr>) of
                           Inl e \<Rightarrow> Inl e
                         | Inr h1 \<Rightarrow>
                             Inr (SWITCH_STATUS_SUCCESS,
                               if xml_attr_soft as ''on-empty-result-break-to'' \<noteq> [] \<and> xh_rows h1 = 0
                               then h1\<lparr>xh_next := xml_attr_soft as ''on-empty-result-break-to''\<rparr> else h1)))
              else Inr (SWITCH_STATUS_FALSE, h)
      else render_children env cs (copy_attrs env as (open_tag n h)))"
| "render_children env [] h = Inr (SWITCH_STATUS_SUCCESS, h)"
| "render_children env (c # cs) h =
     (case render_tag env c h of
        Inl e \<Rightarrow> Inl e
      | Inr (_, h1) \<Rightarrow>
          if xh_next h1 \<noteq> [] then Inr (SWITCH_STATUS_FALSE, h1\<lparr>xh_cur := xh_cur h\<rparr>)
          else render_children env cs (h1\<lparr>xh_cur := xh_cur h\<rparr>))"
| "query_rows env cs [] h = Inr h"
| "query_rows env cs (row # rows) h =
     (if xh_next h \<noteq> [] then query_rows env cs rows h
      else (case render_children env cs (h\<lparr>xh_event := row_headers env row (xh_event h), xh_rows := xh_rows h + 1\<rparr>) of
              Inl e \<Rightarrow> Inl e
            | Inr (_, h1) \<Rightarrow> query_rows env cs rows (h1\<lparr>xh_rows := xh_rows h + 1\<rparr>)))"
  by pat_completeness auto
termination
  by (relation "measures
      [\<lambda>x. case x of Inl (env, t, h) \<Rightarrow> tag_weight t
         | Inr (Inl (env, ts, h)) \<Rightarrow> sum_list (map tag_weight ts)
         | Inr (Inr (env, ts, rows, h)) \<Rightarrow> sum_list (map tag_weight ts),
       \<lambda>x. case x of Inl _ \<Rightarrow> 0 | Inr (Inl _) \<Rightarrow> 1 | Inr (Inr (env, ts, rows, h)) \<Rightarrow> 2 + length rows]") auto
declare render_tag.simps [simp del]

lemma open_tag_count [simp]: "xh_count (open_tag n h) = xh_count h" "xh_next (open_tag n h) = xh_next h"
  "xh_event (open_tag n h) = xh_event h" "xh_db (open_tag n h) = xh_db h"
  by (simp_all add: open_tag_def split: option.split)

lemma copy_attrs_count [simp]: "xh_count (copy_attrs env as h) = xh_count h" "xh_next (copy_attrs env as h) = xh_next h"
  "xh_event (copy_attrs env as h) = xh_event h" "xh_db (copy_attrs env as h) = xh_db h" "xh_cur (copy_attrs env as h) = xh_cur h"
  "xh_off (copy_attrs env as h) = xh_off h"
  unfolding copy_attrs_def by (induction as arbitrary: h) auto

lemma set_event_header_event:
  assumes "set_event_header env as h = Inr (s, h1)"
  shows "\<exists>e. h1 = h\<lparr>xh_event := e\<rparr>"
proof -
  have "h1 = h \<or> (\<exists>e. h1 = h\<lparr>xh_event := e\<rparr>)"
    using assms unfolding set_event_header_def Let_def by (auto split: if_splits option.splits)
  then show ?thesis by (metis xo_helper.surjective xo_helper.update_convs(2))
qed

lemma set_event_header_stops: "set_event_header env as h = Inr (Some s, h1) \<Longrightarrow> h1 = h"
  unfolding set_event_header_def Let_def by (auto split: if_splits option.splits)

text \<open>The ways in which a tag is rendered.\<close>

lemma render_tag_cases:
  assumes "render_tag env (In_Tag n as cs) h = Inr (s, h1)"
  obtains (copied) "\<not> is_do n" "render_children env cs (copy_attrs env as (open_tag n h)) = Inr (s, h1)"
    | (nothing) "is_do n" "h1 = h"
    | (broken) "is_do n" "c_strcaseeq (xml_attr_soft as ''name'') ''break-to''" "h1 = snd (xml_odbc_do_break_to env as h)"
    | (headers) h2 where "is_do n" "set_event_header env as h = Inr (None, h2)" "render_children env cs h2 = Inr (s, h1)"
    | (failed) d where "is_do n" "h1 = h\<lparr>xh_rows := 0, xh_db := d\<rparr>"
    | (query) rows d h2 where "is_do n" "query_rows env cs rows (h\<lparr>xh_rows := 0, xh_db := d\<rparr>) = Inr h2"
        "h1 = (if xml_attr_soft as ''on-empty-result-break-to'' \<noteq> [] \<and> xh_rows h2 = 0
               then h2\<lparr>xh_next := xml_attr_soft as ''on-empty-result-break-to''\<rparr> else h2)"
proof (cases "is_do n")
  case False
  with assms copied show ?thesis by (simp add: render_tag.simps)
next
  case do: True
  let ?name = "xml_attr_soft as ''name''"
  show ?thesis
  proof (cases "?name \<noteq> [] \<and> \<not> c_strcaseeq ?name ''break-to''")
    case False
    show ?thesis
    proof (cases "?name = []")
      case True
      with assms do have "h1 = h" by (simp add: render_tag.simps)
      with do show ?thesis by (rule nothing)
    next
      case named: False
      with False have b: "c_strcaseeq ?name ''break-to''" by simp
      with assms do named have "h1 = snd (xml_odbc_do_break_to env as h)" by (simp add: render_tag.simps Let_def)
      with do b show ?thesis by (rule broken)
    qed
  next
    case other: True
    show ?thesis
    proof (cases "c_strcaseeq ?name ''check-event-header'' \<or> c_strcaseeq ?name ''set-event-header''")
      case True
      with assms do other obtain r h2 where r: "set_event_header env as h = Inr (r, h2)"
        by (auto simp: render_tag.simps Let_def split: sum.splits)
      show ?thesis
      proof (cases r)
        case None
        with assms do other True r headers show ?thesis by (auto simp: render_tag.simps Let_def)
      next
        case (Some st)
        then have "h2 = h" using r set_event_header_stops by blast
        with assms do other True r Some have "h1 = h" by (simp add: render_tag.simps Let_def)
        with do show ?thesis by (rule nothing)
      qed
    next
      case no_header: False
      show ?thesis
      proof (cases "c_strcaseeq ?name ''query''")
        case False
        with assms do other no_header have "h1 = h" by (simp add: render_tag.simps Let_def)
        with do show ?thesis by (rule nothing)
      next
        case True
        obtain res d where q: "xo_odbc env (xh_db h) (ev_expand env (xh_event h) (xml_attr_soft as ''value'')) = (res, d)"
          by fastforce
        show ?thesis
        proof (cases res)
          case None
          with assms do other no_header True q have "h1 = h\<lparr>xh_rows := 0, xh_db := d\<rparr>"
            by (simp add: render_tag.simps Let_def)
          with do show ?thesis by (rule failed)
        next
          case (Some rows)
          with assms do other no_header True q obtain h2 where
            "query_rows env cs rows (h\<lparr>xh_rows := 0, xh_db := d\<rparr>) = Inr h2"
            by (auto simp: render_tag.simps Let_def split: sum.splits)
          moreover from this assms do other no_header True q Some have
            "h1 = (if xml_attr_soft as ''on-empty-result-break-to'' \<noteq> [] \<and> xh_rows h2 = 0
               then h2\<lparr>xh_next := xml_attr_soft as ''on-empty-result-break-to''\<rparr> else h2)"
            by (simp add: render_tag.simps Let_def)
          ultimately show ?thesis using do query by blast
        qed
      qed
    qed
  qed
qed
subsection \<open>What every rendering keeps\<close>

text \<open>
  A relation between the helper before and after that holds for every single change holds for
  rendering as a whole.
\<close>

locale render_relation =
  fixes R :: "('e, 'd) xo_helper \<Rightarrow> ('e, 'd) xo_helper \<Rightarrow> bool"
  assumes refl: "R h h"
    and trans: "R h g \<Longrightarrow> R g k \<Longrightarrow> R h k"
    and to_next: "R h (h\<lparr>xh_next := x\<rparr>)"
    and to_rows: "R h (h\<lparr>xh_rows := r\<rparr>)"
    and to_db: "R h (h\<lparr>xh_db := d\<rparr>)"
    and to_cur: "R h (h\<lparr>xh_cur := p\<rparr>)"
    and to_event: "R h (h\<lparr>xh_event := e\<rparr>)"
    and opened: "R h (open_tag n h)"
    and attrs_copied: "R h (copy_attrs env as h)"
begin

declare trans [trans]

lemma rows_relate:
  assumes children: "\<And>h s h1. render_children env cs h = Inr (s, h1) \<Longrightarrow> R h h1"
  shows "query_rows env cs rows h = Inr h1 \<Longrightarrow> R h h1"
proof (induction rows arbitrary: h)
  case Nil
  then show ?case by (simp add: refl)
next
  case (Cons row rows)
  show ?case
  proof (cases "xh_next h = []")
    case False
    with Cons show ?thesis by simp
  next
    case True
    let ?g = "h\<lparr>xh_event := row_headers env row (xh_event h), xh_rows := xh_rows h + 1\<rparr>"
    obtain s g where g: "render_children env cs ?g = Inr (s, g)"
      "query_rows env cs rows (g\<lparr>xh_rows := xh_rows h + 1\<rparr>) = Inr h1"
      using Cons.prems True by (auto split: sum.splits)
    have "R h ?g" by (rule trans [OF to_event to_rows])
    also have "R ?g g" by (rule children [OF g(1)])
    also have "R g (g\<lparr>xh_rows := xh_rows h + 1\<rparr>)" by (rule to_rows)
    also have "R (g\<lparr>xh_rows := xh_rows h + 1\<rparr>) h1" by (rule Cons.IH [OF g(2)])
    finally show ?thesis .
  qed
qed

lemma children_relate:
  assumes tags: "\<And>c h s h1. c \<in> set cs \<Longrightarrow> render_tag env c h = Inr (s, h1) \<Longrightarrow> R h h1"
  shows "render_children env cs h = Inr (s, h1) \<Longrightarrow> R h h1"
  using tags
proof (induction cs arbitrary: h)
  case Nil
  then show ?case by (simp add: refl)
next
  case (Cons c cs)
  obtain s2 g where g: "render_tag env c h = Inr (s2, g)" using Cons.prems(1) by (auto split: sum.splits)
  have "R h g" by (rule Cons.prems(2) [OF _ g]) simp
  also have "R g (g\<lparr>xh_cur := xh_cur h\<rparr>)" by (rule to_cur)
  also have "R (g\<lparr>xh_cur := xh_cur h\<rparr>) h1"
  proof (cases "xh_next g = []")
    case True
    with Cons.prems(1) g have "render_children env cs (g\<lparr>xh_cur := xh_cur h\<rparr>) = Inr (s, h1)" by simp
    then show ?thesis by (rule Cons.IH) (auto intro: Cons.prems(2))
  next
    case False
    with Cons.prems(1) g show ?thesis by (simp add: refl)
  qed
  finally show ?case .
qed

lemma tag_relates: "render_tag env t h = Inr (s, h1) \<Longrightarrow> R h h1"
proof (induction t arbitrary: h s h1)
  case (In_Tag n as cs)
  have children: "render_children env cs h = Inr (s, h1) \<Longrightarrow> R h h1" for h s h1
    by (rule children_relate) (use In_Tag.IH in auto)
  from In_Tag.prems show ?case
  proof (cases rule: render_tag_cases)
    case copied
    have "R h (open_tag n h)" by (rule opened)
    also have "R (open_tag n h) (copy_attrs env as (open_tag n h))" by (rule attrs_copied)
    also have "R (copy_attrs env as (open_tag n h)) h1" by (rule children [OF copied(2)])
    finally show ?thesis .
  next
    case nothing
    then show ?thesis by (simp add: refl)
  next
    case broken
    then show ?thesis by (simp add: xml_odbc_do_break_to_def to_next)
  next
    case (headers g)
    then have "R h g" using set_event_header_event to_event by metis
    with children [OF headers(3)] show ?thesis by (blast intro: trans)
  next
    case (failed d)
    then show ?thesis using trans [OF to_rows to_db] by blast
  next
    case (query rows d g)
    have "R h (h\<lparr>xh_rows := 0, xh_db := d\<rparr>)" by (rule trans [OF to_rows to_db])
    also have "R (h\<lparr>xh_rows := 0, xh_db := d\<rparr>) g" by (rule rows_relate [OF children query(2)])
    also have "R g h1" using query(3) by (simp add: refl to_next)
    finally show ?thesis .
  qed
qed

lemma render_relates: "render_children env ts h = Inr (s, h1) \<Longrightarrow> R h h1"
  by (rule children_relate [OF tag_relates])

end

interpretation count_kept: render_relation "\<lambda>h h1. xh_count h1 = xh_count h"
  by unfold_locales simp_all

lemma open_tag_off: "xh_off h \<le> xh_off (open_tag n h)"
  by (simp add: open_tag_def split: option.split)

interpretation offset_grows: render_relation "\<lambda>h h1. xh_off h \<le> xh_off h1"
  by unfold_locales (simp_all add: open_tag_off)

subsection \<open>Templates\<close>

definition find_template :: "in_tag list \<Rightarrow> string \<Rightarrow> in_tag option" where
  "find_template templates name =
     List.find (\<lambda>t. it_name t = ''template'' \<and> map_of (it_attrs t) ''name'' = Some name) templates"

text \<open>
  \<open>xml_odbc_render_template\<close>: going over to another template starts again, until the counter is beyond
  \<open>max_render_template_count\<close>.
\<close>

definition empty_out :: out_tag where "empty_out = Out_Tag [] 0 [] []"

function render_template ::
    "('e, 'd) xo_env \<Rightarrow> in_tag list \<Rightarrow> int \<Rightarrow> ('e, 'd) xo_helper \<Rightarrow> crash + switch_status \<times> ('e, 'd) xo_helper" where
  "render_template env templates max_count h =
     (let h1 = h\<lparr>xh_count := xh_count h + 1\<rparr>
      in if xh_count h1 > max_count then Inr (SWITCH_STATUS_FALSE, h1)
         else let h2 = h1\<lparr>xh_out := empty_out, xh_cur := [], xh_off := 0\<rparr>
              in (case find_template templates (xh_next h2) of
                    None \<Rightarrow> render_template env templates max_count (h2\<lparr>xh_next := ''not-found''\<rparr>)
                  | Some t \<Rightarrow>
                      (case render_children env (it_children t) (h2\<lparr>xh_next := []\<rparr>) of
                         Inl e \<Rightarrow> Inl e
                       | Inr (status, h3) \<Rightarrow>
                           if xh_next h3 \<noteq> [] then render_template env templates max_count h3
                           else Inr (status, h3))))"
  by pat_completeness auto
termination
  by (relation "measure (\<lambda>(env, templates, max_count, h). nat (max_count - xh_count h))")
    (auto dest!: count_kept.render_relates)

declare render_template.simps [simp del]
subsection \<open>The search\<close>

text \<open>
  The tree is written to a temporary file and parsed from there: the operations of the system and of
  the XML library, and the settings of the module.
\<close>

record 'x xo_system =
  xs_toxml :: "out_tag \<Rightarrow> string"
  xs_parse :: "string \<Rightarrow> 'x option"
  xs_temp_dir :: string
  xs_uuid :: string
  xs_open :: "string \<Rightarrow> bool"
  xs_write :: "string \<Rightarrow> int"
  xs_unlink :: "string \<Rightarrow> bool"

record xo_globals =
  xg_dsn :: "string option"
  xg_templates :: "in_tag list"
  xg_handle :: bool
  xg_debug :: bool
  xg_keep :: bool
  xg_max :: int

definition switch_str_nil :: "string option \<Rightarrow> string" where
  "switch_str_nil s = (case s of None \<Rightarrow> [] | Some t \<Rightarrow> t)"

text \<open>
  The event with the parts of the search.  \<open>NULL\<close> is replaced by a new event.
\<close>

definition search_event ::
    "('e, 'd) xo_env \<Rightarrow> string option \<Rightarrow> string option \<Rightarrow> string option \<Rightarrow> string option \<Rightarrow> 'e option \<Rightarrow> 'e" where
  "search_event env section tag_name key_name key_value event =
     (let e = (case event of None \<Rightarrow> ev_new env | Some e \<Rightarrow> e);
          e = ev_add_top env e ''section'' (switch_str_nil section);
          e = ev_add_top env e ''tag_name'' (switch_str_nil tag_name);
          e = ev_add_top env e ''key_name'' (switch_str_nil key_name)
      in ev_add_top env e ''key_value'' (switch_str_nil key_value))"

text \<open>
  \<open>xml_odbc_search\<close>: the XML found, the files left behind and the database.  \<open>helper.xml_out\<close> has no
  value when it is freed first; \<open>null\<close> says whether the bytes on the stack happen to be a null
  pointer.  The other fields of the helper without a value are set before they are read.
\<close>

definition xml_odbc_search ::
    "('e, 'd) xo_env \<Rightarrow> 'x xo_system \<Rightarrow> xo_globals \<Rightarrow> bool \<Rightarrow> bool \<Rightarrow>
     string option \<Rightarrow> string option \<Rightarrow> string option \<Rightarrow> string option \<Rightarrow> 'e option \<Rightarrow> 'd \<Rightarrow>
     crash + 'x option \<times> (string \<times> string) list \<times> 'd" where
  "xml_odbc_search env sys g null binding section tag_name key_name key_value event db =
     (if \<not> binding then Inr (None, [], db)
      else if \<not> null then Inl Wild_Pointer
      else case render_template env (xg_templates g) (xg_max g)
               \<lparr>xh_next = ''default'', xh_event = search_event env section tag_name key_name key_value event,
                xh_out = empty_out, xh_cur = [], xh_off = 0, xh_count = 0, xh_rows = 0, xh_db = db\<rparr> of
             Inl e \<Rightarrow> Inl e
           | Inr (status, h) \<Rightarrow>
               if status \<noteq> SWITCH_STATUS_SUCCESS then Inr (None, [], xh_db h)
               else let xml_char = xs_toxml sys (xh_out h);
                        filename = take 511 (xs_temp_dir sys @ xs_uuid sys @ ''.tmp.xml'');
                        n = xs_write sys xml_char;
                        content = take (nat n) xml_char
                    in if \<not> xs_open sys filename then Inr (None, [], xh_db h)
                       else if n = 0 then Inr (None, [(filename, content)], xh_db h)
                       else Inr (xs_parse sys content,
                              if xg_keep g \<or> \<not> xs_unlink sys filename then [(filename, content)] else [], xh_db h))"

subsection \<open>The configuration and the command\<close>

text \<open>\<open>name:user:password\<close>, taken apart at the first two colons.\<close>

definition cut_colon :: "string \<Rightarrow> string \<times> string option" where
  "cut_colon s =
     (case dropWhile (\<lambda>c. c \<noteq> CHR '':'') s of
        [] \<Rightarrow> (s, None)
      | _ # rest \<Rightarrow> (takeWhile (\<lambda>c. c \<noteq> CHR '':'') s, Some rest))"

definition split_dsn :: "string \<Rightarrow> string \<times> string option \<times> string option" where
  "split_dsn s =
     (case cut_colon s of
        (dsn, None) \<Rightarrow> (dsn, None, None)
      | (dsn, Some rest) \<Rightarrow> (case cut_colon rest of (user, pass) \<Rightarrow> (dsn, Some user, pass)))"

definition on_value :: "string \<Rightarrow> bool" where
  "on_value val \<longleftrightarrow> c_strcaseeq val ''true'' \<or> c_strcaseeq val ''on''"

text \<open>What the loop over the parameters has gathered: the user, the password and the bindings.\<close>

record xo_params =
  xp_globals :: xo_globals
  xp_user :: "string option"
  xp_pass :: "string option"
  xp_bindings :: "string list"

definition xo_param :: "string \<times> string \<Rightarrow> xo_params \<Rightarrow> xo_params" where
  "xo_param p ps =
     (let (var, val) = p; g = xp_globals ps
      in if c_strcaseeq var ''binding'' \<and> val \<noteq> [] then ps\<lparr>xp_bindings := xp_bindings ps @ [val]\<rparr>
         else if c_strcaseeq var ''odbc-dsn'' \<and> val \<noteq> []
         then (let (dsn, user, pass) = split_dsn val
               in ps\<lparr>xp_globals := g\<lparr>xg_dsn := Some dsn\<rparr>, xp_user := user,
                     xp_pass := (if user = None then xp_pass ps else pass)\<rparr>)
         else if c_strcaseeq var ''debug'' \<and> val \<noteq> [] then ps\<lparr>xp_globals := g\<lparr>xg_debug := on_value val\<rparr>\<rparr>
         else if c_strcaseeq var ''keep-files-around'' \<and> val \<noteq> []
         then ps\<lparr>xp_globals := g\<lparr>xg_keep := on_value val\<rparr>\<rparr>
         else ps)"

text \<open>
  The configuration: the parameters and the templates, each of which may be missing.  \<open>connect\<close> says whether
  a handle can be made and connected, for the name, the user and the password; \<open>available\<close> whether
  there is ODBC at all.  The result has the bindings that were made.
\<close>

type_synonym xo_config = "((string \<times> string) list option \<times> in_tag list option) option"

definition xo_do_config ::
    "bool \<Rightarrow> (string \<Rightarrow> string option \<Rightarrow> string option \<Rightarrow> bool \<times> bool) \<Rightarrow> xo_config \<Rightarrow> xo_globals \<Rightarrow>
     switch_status \<times> xo_globals \<times> string list" where
  "xo_do_config available connect cfg g =
     (case cfg of
        None \<Rightarrow> (SWITCH_STATUS_TERM, g, [])
      | Some (None, _) \<Rightarrow> (SWITCH_STATUS_FALSE, g, [])
      | Some (Some _, None) \<Rightarrow> (SWITCH_STATUS_FALSE, g, [])
      | Some (Some params, Some templates) \<Rightarrow>
          (let ps = fold xo_param params
                      \<lparr>xp_globals = g\<lparr>xg_templates := templates, xg_max := 32\<rparr>, xp_user = None, xp_pass = None, xp_bindings = []\<rparr>;
               g1 = xp_globals ps
           in case xg_dsn g1 of
                None \<Rightarrow> (SWITCH_STATUS_FALSE, g1, xp_bindings ps)
              | Some dsn \<Rightarrow>
                  if \<not> available then (SWITCH_STATUS_SUCCESS, g1, xp_bindings ps)
                  else (case connect dsn (xp_user ps) (xp_pass ps) of
                          (made, connected) \<Rightarrow>
                            (if made \<and> connected then SWITCH_STATUS_SUCCESS else SWITCH_STATUS_FALSE,
                             g1\<lparr>xg_handle := made\<rparr>, xp_bindings ps))))"

definition xml_odbc_function :: "bool \<Rightarrow> string option \<Rightarrow> xo_globals \<Rightarrow> switch_status \<times> string \<times> xo_globals" where
  "xml_odbc_function session cmd g =
     (let usage = (SWITCH_STATUS_SUCCESS, ''USAGE: [debug_on|debug_off]'' @ [LF], g)
      in if session then (SWITCH_STATUS_FALSE, [], g)
         else if cmd = None \<or> cmd = Some [] then usage
         else if c_strcaseeq (the cmd) ''debug_on'' then (SWITCH_STATUS_SUCCESS, ''OK'' @ [LF], g\<lparr>xg_debug := True\<rparr>)
         else if c_strcaseeq (the cmd) ''debug_off'' then (SWITCH_STATUS_SUCCESS, ''OK'' @ [LF], g\<lparr>xg_debug := False\<rparr>)
         else usage)"

definition mod_xml_odbc_load ::
    "bool \<Rightarrow> (string \<Rightarrow> string option \<Rightarrow> string option \<Rightarrow> bool \<times> bool) \<Rightarrow> xo_config \<Rightarrow> bool \<Rightarrow>
     switch_status \<times> xo_globals \<times> string list" where
  "mod_xml_odbc_load available connect cfg bound =
     (let g0 = \<lparr>xg_dsn = None, xg_templates = [], xg_handle = False, xg_debug = False, xg_keep = False, xg_max = 0\<rparr>
      in if \<not> available then (SWITCH_STATUS_FALSE, g0, [])
         else case xo_do_config available connect cfg g0 of
                (status, g, bindings) \<Rightarrow>
                  (if status \<noteq> SWITCH_STATUS_SUCCESS then SWITCH_STATUS_FALSE
                   else if \<not> bound then SWITCH_STATUS_TERM else SWITCH_STATUS_SUCCESS, g, bindings))"
subsection \<open>What a template means\<close>

text \<open>
  The meaning of a template without memory, paths and offsets: the list of the nodes a tag stands for,
  and the event and the database behind it.
\<close>

datatype node = Node string "(string \<times> string) list" "node list"

definition header_change :: "('e, 'd) xo_env \<Rightarrow> (string \<times> string) list \<Rightarrow> 'e \<Rightarrow> 'e option" where
  "header_change env as e =
     (let ex = (\<lambda>n. map_option (ev_expand env e) (map_of as n))
      in case (ex ''if-name'', ex ''to-name'') of
           (None, None) \<Rightarrow> None
         | (None, Some m) \<Rightarrow>
             if ex ''if-value'' \<noteq> None then None else Some (ev_add env (ev_del env e m) m (ex ''to-value''))
         | (Some n, to) \<Rightarrow>
             (case ev_get env e n of
                None \<Rightarrow> None
              | Some old \<Rightarrow>
                  if (case ex ''if-value'' of None \<Rightarrow> False | Some v \<Rightarrow> \<not> c_strcaseeq v old) then None
                  else (case ex ''to-value'' of
                          None \<Rightarrow> Some e
                        | Some v \<Rightarrow> Some (ev_add env (ev_del env e n) (case to of None \<Rightarrow> n | Some m \<Rightarrow> m) (Some v)))))"

function denote_tag :: "('e, 'd) xo_env \<Rightarrow> in_tag \<Rightarrow> 'e \<Rightarrow> 'd \<Rightarrow> node list \<times> 'e \<times> 'd"
  and denote_children :: "('e, 'd) xo_env \<Rightarrow> in_tag list \<Rightarrow> 'e \<Rightarrow> 'd \<Rightarrow> node list \<times> 'e \<times> 'd"
  and denote_rows ::
    "('e, 'd) xo_env \<Rightarrow> in_tag list \<Rightarrow> (string \<times> string option) list list \<Rightarrow> 'e \<Rightarrow> 'd \<Rightarrow> node list \<times> 'e \<times> 'd" where
  "denote_tag env (In_Tag n as cs) e d =
     (if is_do n
      then if c_strcaseeq (xml_attr_soft as ''name'') ''check-event-header'' \<or>
              c_strcaseeq (xml_attr_soft as ''name'') ''set-event-header''
           then (case header_change env as e of None \<Rightarrow> ([], e, d) | Some e1 \<Rightarrow> denote_children env cs e1 d)
           else if c_strcaseeq (xml_attr_soft as ''name'') ''query''
           then (case xo_odbc env d (ev_expand env e (xml_attr_soft as ''value'')) of
                   (None, d1) \<Rightarrow> ([], e, d1)
                 | (Some rows, d1) \<Rightarrow> denote_rows env cs rows e d1)
           else ([], e, d)
      else (case denote_children env cs e d of
              (ns, e1, d1) \<Rightarrow> ([Node n (map (\<lambda>(a, v). (a, ev_expand env e v)) as) ns], e1, d1)))"
| "denote_children env [] e d = ([], e, d)"
| "denote_children env (c # cs) e d =
     (case denote_tag env c e d of
        (ns, e1, d1) \<Rightarrow> (case denote_children env cs e1 d1 of (ms, e2, d2) \<Rightarrow> (ns @ ms, e2, d2)))"
| "denote_rows env cs [] e d = ([], e, d)"
| "denote_rows env cs (row # rows) e d =
     (case denote_children env cs (row_headers env row e) d of
        (ns, e1, d1) \<Rightarrow> (case denote_rows env cs rows e1 d1 of (ms, e2, d2) \<Rightarrow> (ns @ ms, e2, d2)))"
  by pat_completeness auto
termination
  by (relation "measures
      [\<lambda>x. case x of Inl (env, t, e, d) \<Rightarrow> tag_weight t
         | Inr (Inl (env, ts, e, d)) \<Rightarrow> sum_list (map tag_weight ts)
         | Inr (Inr (env, ts, rows, e, d)) \<Rightarrow> sum_list (map tag_weight ts),
       \<lambda>x. case x of Inl _ \<Rightarrow> 0 | Inr (Inl _) \<Rightarrow> 1 | Inr (Inr (env, ts, rows, e, d)) \<Rightarrow> 2 + length rows]") auto

declare denote_tag.simps [simp del]

text \<open>
  The document: the first node gives its name to the root, and the nodes behind it become children
  of the root as well.
\<close>

fun put_nodes :: "node \<Rightarrow> node list \<Rightarrow> node" where
  "put_nodes t [] = t"
| "put_nodes (Node n as cs) (Node m bs ds # ns) =
     (if n = [] then Node m bs (ds @ ns) else Node n as (cs @ Node m bs ds # ns))"

fun erase :: "out_tag \<Rightarrow> node" where
  "erase (Out_Tag n k as cs) = Node n as (map erase cs)"

text \<open>
  Templates the meaning is for: every tag has a name and no attribute twice, no tag breaks to another
  template, and no header is renamed without a new value.
\<close>

fun good_tag :: "in_tag \<Rightarrow> bool" where
  "good_tag (In_Tag n as cs) \<longleftrightarrow>
     n \<noteq> [] \<and>
     (if is_do n
      then \<not> c_strcaseeq (xml_attr_soft as ''name'') ''break-to'' \<and>
           xml_attr_soft as ''on-empty-result-break-to'' = [] \<and>
           \<not> (map_of as ''if-name'' \<noteq> None \<and> map_of as ''to-name'' \<noteq> None \<and> map_of as ''to-value'' = None)
      else distinct (map fst as)) \<and>
     (\<forall>c\<in>set cs. good_tag c)"

subsection \<open>Paths\<close>

lemma out_at_append: "out_at (p @ q) t = Option.bind (out_at p t) (out_at q)"
  by (induction p arbitrary: t) auto

lemma out_change_append: "out_change (p @ q) f t = out_change p (out_change q f) t"
  by (induction p f t rule: out_change.induct) auto

lemma out_at_change: "out_at p t = Some s \<Longrightarrow> out_at p (out_change p f t) = Some (f s)"
  by (induction p f t rule: out_change.induct) (auto split: if_splits)

lemma out_change_twice: "out_change p f (out_change p g t) = out_change p (\<lambda>s. f (g s)) t"
  by (induction p g t rule: out_change.induct) auto

lemma out_change_here: "out_at p t = Some s \<Longrightarrow> f s = g s \<Longrightarrow> out_change p f t = out_change p g t"
  by (induction p f t rule: out_change.induct) (auto split: if_splits)

lemma out_change_same: "out_at p t = Some s \<Longrightarrow> f s = s \<Longrightarrow> out_change p f t = t"
  by (induction p f t rule: out_change.induct) (auto split: if_splits)

text \<open>A tag that can be rendered to: its children have older offsets, and it is named or blank.\<close>

definition slot :: "out_tag \<Rightarrow> nat \<Rightarrow> bool" where
  "slot t off \<longleftrightarrow> (\<forall>c\<in>set (ot_children t). ot_off c < off) \<and>
     (ot_name t \<noteq> [] \<or> ot_attrs t = [] \<and> ot_children t = [])"

lemma slot_mono: "slot t a \<Longrightarrow> a \<le> b \<Longrightarrow> slot t b"
  by (auto simp: slot_def)

lemma add_child_slot:
  assumes "slot t off"
  shows "add_child_d n off t =
    (Out_Tag (ot_name t) (ot_off t) (ot_attrs t) (ot_children t @ [Out_Tag n off [] []]), length (ot_children t))"
proof -
  have all: "takeWhile (\<lambda>c. ot_off c \<le> off) (ot_children t) = ot_children t"
    using assms by (simp add: slot_def less_imp_le)
  show ?thesis unfolding add_child_d_def Let_def all by simp
qed

lemma put_nodes_append:
  assumes "n \<noteq> [] \<or> as = [] \<and> cs = []" "\<forall>m bs ds. Node m bs ds \<in> set ns \<longrightarrow> m \<noteq> []"
  shows "put_nodes (put_nodes (Node n as cs) ns) ms = put_nodes (Node n as cs) (ns @ ms)"
proof (cases ns)
  case (Cons a ns')
  obtain m bs ds where a: "a = Node m bs ds" by (cases a)
  with assms(2) Cons have "m \<noteq> []" by auto
  show ?thesis
  proof (cases ms)
    case (Cons b ms')
    obtain m2 bs2 ds2 where "b = Node m2 bs2 ds2" by (cases b)
    with a \<open>ns = a # ns'\<close> Cons \<open>m \<noteq> []\<close> show ?thesis by simp
  next
    case Nil
    with a \<open>ns = a # ns'\<close> show ?thesis by simp
  qed
qed simp

text \<open>The attributes of a copied tag.\<close>

lemma set_attr_new: "n \<notin> fst ` set as \<Longrightarrow> set_attr n v as = as @ [(n, v)]"
  by (induction as) auto

lemma copy_attrs_at:
  assumes "out_at (xh_cur h) (xh_out h) = Some t" "distinct (map fst as)" "fst ` set as \<inter> fst ` set (ot_attrs t) = {}"
  shows "copy_attrs env as h = h\<lparr>xh_out := out_change (xh_cur h) (\<lambda>_.
      Out_Tag (ot_name t) (ot_off t) (ot_attrs t @ map (\<lambda>(a, v). (a, ev_expand env (xh_event h) v)) as) (ot_children t)) (xh_out h)\<rparr>"
  using assms
proof (induction as arbitrary: h t)
  case Nil
  then show ?case by (simp add: copy_attrs_def out_change_same)
next
  case (Cons a as)
  obtain n v where a: "a = (n, v)" by (cases a)
  let ?w = "ev_expand env (xh_event h) v"
  let ?t = "Out_Tag (ot_name t) (ot_off t) (ot_attrs t @ [(n, ?w)]) (ot_children t)"
  let ?h = "h\<lparr>xh_out := out_change (xh_cur h) (\<lambda>_. ?t) (xh_out h)\<rparr>"
  have "n \<notin> fst ` set (ot_attrs t)" using Cons.prems(3) a by auto
  then have "set_tag_attr n ?w t = ?t" by (simp add: set_tag_attr_def set_attr_new)
  then have "copy_attrs env (a # as) h = copy_attrs env as ?h"
    using out_change_here [OF Cons.prems(1), of "set_tag_attr n ?w" "\<lambda>_. ?t"] by (simp add: copy_attrs_def a)
  also have "\<dots> = ?h\<lparr>xh_out := out_change (xh_cur ?h) (\<lambda>_.
      Out_Tag (ot_name ?t) (ot_off ?t) (ot_attrs ?t @ map (\<lambda>(a, v). (a, ev_expand env (xh_event ?h) v)) as) (ot_children ?t)) (xh_out ?h)\<rparr>"
  proof (rule Cons.IH)
    show "out_at (xh_cur ?h) (xh_out ?h) = Some ?t" using out_at_change [OF Cons.prems(1), of "\<lambda>_. ?t"] by simp
    show "distinct (map fst as)" using Cons.prems(2) by simp
    show "fst ` set as \<inter> fst ` set (ot_attrs ?t) = {}" using Cons.prems(2,3) a by force
  qed
  also have "\<dots> = h\<lparr>xh_out := out_change (xh_cur h) (\<lambda>_.
      Out_Tag (ot_name t) (ot_off t) (ot_attrs t @ map (\<lambda>(a, v). (a, ev_expand env (xh_event h) v)) (a # as)) (ot_children t)) (xh_out h)\<rparr>"
    by (simp add: out_change_twice a)
  finally show ?case .
qed
subsection \<open>Rendering implements the meaning\<close>

lemma put_nodes_named: "n \<noteq> [] \<Longrightarrow> put_nodes (Node n as cs) ns = Node n as (cs @ ns)"
  by (cases ns) (auto, metis node.exhaust put_nodes.simps(2))

fun node_named :: "node \<Rightarrow> bool" where
  "node_named (Node n as cs) \<longleftrightarrow> n \<noteq> []"

definition renderable :: "('e, 'd) xo_helper \<Rightarrow> bool" where
  "renderable h \<longleftrightarrow> xh_next h = [] \<and> (\<exists>t. out_at (xh_cur h) (xh_out h) = Some t \<and> slot t (xh_off h))"

text \<open>The current tag was changed from \<open>t\<close> to \<open>t'\<close>, which has the nodes \<open>ns\<close> put into it.\<close>

definition rendered ::
    "('e, 'd) xo_helper \<Rightarrow> node list \<times> 'e \<times> 'd \<Rightarrow> ('e, 'd) xo_helper \<Rightarrow> bool" where
  "rendered h r h' \<longleftrightarrow>
     (\<exists>t t'. out_at (xh_cur h) (xh_out h) = Some t \<and> slot t (xh_off h) \<and> slot t' (xh_off h') \<and>
        erase t' = put_nodes (erase t) (fst r) \<and> ot_off t' = ot_off t \<and>
        xh_out h' = out_change (xh_cur h) (\<lambda>_. t') (xh_out h)) \<and>
     xh_event h' = fst (snd r) \<and> xh_db h' = snd (snd r) \<and> xh_next h' = [] \<and> xh_off h \<le> xh_off h' \<and>
     (\<forall>n\<in>set (fst r). node_named n)"

lemma rendered_refl: "renderable h \<Longrightarrow> rendered h ([], xh_event h, xh_db h) h"
proof -
  assume "renderable h"
  then obtain t where t: "xh_next h = []" "out_at (xh_cur h) (xh_out h) = Some t" "slot t (xh_off h)"
    unfolding renderable_def by blast
  moreover have "xh_out h = out_change (xh_cur h) (\<lambda>_. t) (xh_out h)"
    using out_change_same [OF t(2), of "\<lambda>_. t"] by simp
  ultimately show ?thesis unfolding rendered_def by auto
qed

lemma rendered_ready:
  assumes "rendered h r h'" "xh_cur h' = xh_cur h"
  shows "renderable h'"
  using assms by (auto simp: rendered_def renderable_def out_at_change)

lemma erase_slot: "slot t off \<Longrightarrow> \<exists>n as cs. erase t = Node n as cs \<and> (n \<noteq> [] \<or> as = [] \<and> cs = [])"
  by (cases t) (auto simp: slot_def)

lemma rendered_trans:
  assumes "rendered h (ns, e1, d1) h1" "rendered h1 (ms, e2, d2) h2" "xh_cur h1 = xh_cur h"
  shows "rendered h (ns @ ms, e2, d2) h2"
proof -
  from assms(1) obtain t t1 where t: "out_at (xh_cur h) (xh_out h) = Some t" "slot t (xh_off h)" "slot t1 (xh_off h1)"
    "erase t1 = put_nodes (erase t) ns" "ot_off t1 = ot_off t" "xh_out h1 = out_change (xh_cur h) (\<lambda>_. t1) (xh_out h)"
    "xh_off h \<le> xh_off h1" "\<forall>n\<in>set ns. node_named n"
    unfolding rendered_def by auto
  have "out_at (xh_cur h1) (xh_out h1) = Some t1" using t(1,6) assms(3) by (simp add: out_at_change)
  with assms(2) obtain t2 where t2: "slot t2 (xh_off h2)" "erase t2 = put_nodes (erase t1) ms" "ot_off t2 = ot_off t1"
    "xh_out h2 = out_change (xh_cur h) (\<lambda>_. t2) (xh_out h1)" "xh_event h2 = e2" "xh_db h2 = d2" "xh_next h2 = []"
    "xh_off h1 \<le> xh_off h2" "\<forall>n\<in>set ms. node_named n"
    unfolding rendered_def assms(3) by auto
  obtain n as cs where n: "erase t = Node n as cs" "n \<noteq> [] \<or> as = [] \<and> cs = []" using erase_slot [OF t(2)] by blast
  have "erase t2 = put_nodes (erase t) (ns @ ms)"
    unfolding t2(2) t(4) n(1) by (rule put_nodes_append [OF n(2)]) (use t(8) in force)
  moreover have "xh_out h2 = out_change (xh_cur h) (\<lambda>_. t2) (xh_out h)" unfolding t2(4) t(6) out_change_twice ..
  ultimately show ?thesis
    unfolding rendered_def using t t2 by (auto intro!: exI [of _ t] exI [of _ t2])
qed

lemma rendered_cur: "rendered h r h1 \<Longrightarrow> rendered h r (h1\<lparr>xh_cur := p\<rparr>)"
  by (simp add: rendered_def)

lemma rendered_rows: "rendered h r h1 \<Longrightarrow> rendered h r (h1\<lparr>xh_rows := n\<rparr>)"
  by (simp add: rendered_def)

lemma rendered_before:
  "rendered (h\<lparr>xh_event := e, xh_rows := n\<rparr>) r h1 \<longleftrightarrow> rendered h r h1"
  "rendered (h\<lparr>xh_rows := n, xh_db := d\<rparr>) r h1 \<longleftrightarrow> rendered h r h1"
  "rendered (h\<lparr>xh_event := e\<rparr>) r h1 \<longleftrightarrow> rendered h r h1"
  by (simp_all add: rendered_def)

text \<open>A tag is copied and its children are rendered into the copy.\<close>

lemma rendered_copy:
  assumes "renderable h" "n \<noteq> []" "distinct (map fst as)"
  shows "renderable (copy_attrs env as (open_tag n h)) \<and>
    (\<forall>ns e d h1. rendered (copy_attrs env as (open_tag n h)) (ns, e, d) h1 \<longrightarrow>
       rendered h ([Node n (map (\<lambda>(a, v). (a, ev_expand env (xh_event h) v)) as) ns], e, d) h1)"
proof -
  obtain t where t: "out_at (xh_cur h) (xh_out h) = Some t" "slot t (xh_off h)" "xh_next h = []"
    using assms(1) by (auto simp: renderable_def)
  let ?as = "map (\<lambda>(a, v). (a, ev_expand env (xh_event h) v)) as"
  show ?thesis
  proof (cases "ot_name t = []")
    case True
    then have blank: "ot_attrs t = []" "ot_children t = []" using t(2) by (auto simp: slot_def)
    let ?t1 = "Out_Tag n (ot_off t) [] []" and ?t2 = "Out_Tag n (ot_off t) ?as []"
    have "set_tag_name n t = ?t1" by (simp add: set_tag_name_def blank)
    then have o: "open_tag n h = h\<lparr>xh_out := out_change (xh_cur h) (\<lambda>_. ?t1) (xh_out h)\<rparr>"
      using t(1) True out_change_here [OF t(1), of "set_tag_name n" "\<lambda>_. ?t1"] by (simp add: open_tag_def)
    have "copy_attrs env as (open_tag n h) = (open_tag n h)\<lparr>xh_out := out_change (xh_cur (open_tag n h)) (\<lambda>_.
        Out_Tag (ot_name ?t1) (ot_off ?t1) (ot_attrs ?t1 @ map (\<lambda>(a, v). (a, ev_expand env (xh_event (open_tag n h)) v)) as)
          (ot_children ?t1)) (xh_out (open_tag n h))\<rparr>"
      by (rule copy_attrs_at) (simp_all add: o out_at_change [OF t(1)] assms(3))
    then have c: "copy_attrs env as (open_tag n h) = h\<lparr>xh_out := out_change (xh_cur h) (\<lambda>_. ?t2) (xh_out h)\<rparr>"
      by (simp add: o out_change_twice)
    have at: "out_at (xh_cur h) (out_change (xh_cur h) (\<lambda>_. ?t2) (xh_out h)) = Some ?t2"
      using t(1) by (rule out_at_change)
    have "renderable (copy_attrs env as (open_tag n h))"
      using at t(3) assms(2) by (simp add: c renderable_def slot_def)
    moreover have "rendered h ([Node n ?as ns], e, d) h1"
      if r: "rendered (copy_attrs env as (open_tag n h)) (ns, e, d) h1" for ns e d h1
    proof -
      from r at obtain t' where t': "slot t' (xh_off h1)" "erase t' = put_nodes (erase ?t2) ns" "ot_off t' = ot_off ?t2"
        "xh_out h1 = out_change (xh_cur h) (\<lambda>_. t') (xh_out h)" "xh_event h1 = e" "xh_db h1 = d" "xh_next h1 = []"
        "xh_off h \<le> xh_off h1"
        unfolding rendered_def c by (auto simp: out_change_twice)
      have "erase t = Node [] [] []" using True blank by (cases t) simp
      then have "erase t' = put_nodes (erase t) [Node n ?as ns]" using t'(2) assms(2) by (simp add: put_nodes_named)
      then show ?thesis
        unfolding rendered_def using t t' assms(2) by (auto intro!: exI [of _ t] exI [of _ t'])
    qed
    ultimately show ?thesis by blast
  next
    case False
    let ?i = "length (ot_children t)"
    let ?t1 = "Out_Tag n (xh_off h) [] []" and ?t2 = "Out_Tag n (xh_off h) ?as []"
    let ?T = "\<lambda>c. Out_Tag (ot_name t) (ot_off t) (ot_attrs t) (ot_children t @ [c])"
    have o: "open_tag n h = h\<lparr>xh_out := out_change (xh_cur h) (\<lambda>_. ?T ?t1) (xh_out h), xh_cur := xh_cur h @ [?i],
        xh_off := xh_off h + 1\<rparr>"
      using t(1) False out_change_here [OF t(1), of "\<lambda>t. fst (add_child_d n (xh_off h) t)" "\<lambda>_. ?T ?t1"]
      by (simp add: open_tag_def add_child_slot [OF t(2)])
    have at: "out_at (xh_cur h @ [?i]) (out_change (xh_cur h) (\<lambda>_. ?T c) (xh_out h)) = Some c" for c
      by (simp add: out_at_append out_at_change [OF t(1)])
    have change: "out_change (xh_cur h @ [?i]) (\<lambda>_. d) (out_change (xh_cur h) (\<lambda>_. ?T c) (xh_out h)) =
        out_change (xh_cur h) (\<lambda>_. ?T d) (xh_out h)" for c d
      by (simp add: out_change_append out_change_twice)
    have "copy_attrs env as (open_tag n h) = (open_tag n h)\<lparr>xh_out := out_change (xh_cur (open_tag n h)) (\<lambda>_.
        Out_Tag (ot_name ?t1) (ot_off ?t1) (ot_attrs ?t1 @ map (\<lambda>(a, v). (a, ev_expand env (xh_event (open_tag n h)) v)) as)
          (ot_children ?t1)) (xh_out (open_tag n h))\<rparr>"
      by (rule copy_attrs_at) (simp_all add: o at assms(3))
    then have c: "copy_attrs env as (open_tag n h) = h\<lparr>xh_out := out_change (xh_cur h) (\<lambda>_. ?T ?t2) (xh_out h),
        xh_cur := xh_cur h @ [?i], xh_off := xh_off h + 1\<rparr>"
      by (simp add: o change)
    have "renderable (copy_attrs env as (open_tag n h))"
      using at t(3) assms(2) by (simp add: c renderable_def slot_def)
    moreover have "rendered h ([Node n ?as ns], e, d) h1"
      if r: "rendered (copy_attrs env as (open_tag n h)) (ns, e, d) h1" for ns e d h1
    proof -
      from r at [of ?t2] obtain t' where t': "slot t' (xh_off h1)" "erase t' = put_nodes (erase ?t2) ns" "ot_off t' = xh_off h"
        "xh_out h1 = out_change (xh_cur h) (\<lambda>_. ?T t') (xh_out h)" "xh_event h1 = e" "xh_db h1 = d" "xh_next h1 = []"
        "xh_off h + 1 \<le> xh_off h1"
        unfolding rendered_def c by (auto simp: change)
      have "erase (?T t') = put_nodes (erase t) [Node n ?as ns]"
        using t'(2) assms(2) False by (cases t) (simp add: put_nodes_named)
      moreover have "slot (?T t') (xh_off h1)" using t(2) t'(3,8) False by (auto simp: slot_def)
      ultimately show ?thesis
        unfolding rendered_def using t t' assms(2) by (auto intro!: exI [of _ t] exI [of _ "?T t'"])
    qed
    ultimately show ?thesis by blast
  qed
qed
lemma set_event_header_change:
  assumes "\<not> (map_of as ''if-name'' \<noteq> None \<and> map_of as ''to-name'' \<noteq> None \<and> map_of as ''to-value'' = None)"
  shows "header_change env as (xh_event h) = None \<Longrightarrow> \<exists>s. set_event_header env as h = Inr (Some s, h)"
    "header_change env as (xh_event h) = Some e \<Longrightarrow> set_event_header env as h = Inr (None, h\<lparr>xh_event := e\<rparr>)"
proof -
  note defs = header_change_def set_event_header_def xml_attr_def Let_def
  show "header_change env as (xh_event h) = None \<Longrightarrow> \<exists>s. set_event_header env as h = Inr (Some s, h)"
    by (cases "map_of as ''if-name''"; cases "map_of as ''to-name''"; cases "map_of as ''if-value''")
      (simp_all add: defs split: option.splits if_splits)
  show "header_change env as (xh_event h) = Some e \<Longrightarrow> set_event_header env as h = Inr (None, h\<lparr>xh_event := e\<rparr>)"
    using assms
    by (cases "map_of as ''if-name''"; cases "map_of as ''to-name''"; cases "map_of as ''if-value''"; cases "map_of as ''to-value''")
      (auto simp: defs split: option.splits if_splits)
qed

definition renders_children :: "('e, 'd) xo_env \<Rightarrow> in_tag list \<Rightarrow> bool" where
  "renders_children env cs \<longleftrightarrow>
     (\<forall>h. renderable h \<longrightarrow> (\<exists>h1. render_children env cs h = Inr (SWITCH_STATUS_SUCCESS, h1) \<and>
        rendered h (denote_children env cs (xh_event h) (xh_db h)) h1 \<and> xh_cur h1 = xh_cur h))"

lemma children_render:
  assumes "\<And>c h. c \<in> set cs \<Longrightarrow> renderable h \<Longrightarrow>
    \<exists>s h1. render_tag env c h = Inr (s, h1) \<and> rendered h (denote_tag env c (xh_event h) (xh_db h)) h1"
  shows "renders_children env cs"
  using assms
proof (induction cs)
  case Nil
  then show ?case by (simp add: renders_children_def rendered_refl)
next
  case (Cons c cs)
  have IH: "renders_children env cs" by (rule Cons.IH) (simp add: Cons.prems)
  show ?case unfolding renders_children_def
  proof (intro allI impI)
    fix h :: "('a, 'b) xo_helper"
    assume h: "renderable h"
    obtain ns e d where c: "denote_tag env c (xh_event h) (xh_db h) = (ns, e, d)" by (metis prod_cases3)
    obtain s h1 where h1: "render_tag env c h = Inr (s, h1)" "rendered h (ns, e, d) h1"
      using Cons.prems [of c h] h c by auto
    let ?h1 = "h1\<lparr>xh_cur := xh_cur h\<rparr>"
    have r1: "rendered h (ns, e, d) ?h1" by (rule rendered_cur [OF h1(2)])
    have "renderable ?h1" by (rule rendered_ready [OF r1]) simp
    then obtain h2 where h2: "render_children env cs ?h1 = Inr (SWITCH_STATUS_SUCCESS, h2)"
      "rendered ?h1 (denote_children env cs e d) h2" "xh_cur h2 = xh_cur h"
      using IH r1 unfolding renders_children_def rendered_def by fastforce
    obtain ms e2 d2 where m: "denote_children env cs e d = (ms, e2, d2)" by (metis prod_cases3)
    have "rendered h (ns @ ms, e2, d2) h2" using rendered_trans [OF r1, of ms e2 d2 h2] h2(2) m by simp
    moreover have "xh_next h1 = []" using h1(2) by (simp add: rendered_def)
    ultimately show "\<exists>h1. render_children env (c # cs) h = Inr (SWITCH_STATUS_SUCCESS, h1) \<and>
        rendered h (denote_children env (c # cs) (xh_event h) (xh_db h)) h1 \<and> xh_cur h1 = xh_cur h"
      using h1(1) h2(1,3) c m by simp
  qed
qed

lemma rows_render:
  assumes "renders_children env cs"
  shows "renderable h \<Longrightarrow> \<exists>h1. query_rows env cs rows h = Inr h1 \<and>
    rendered h (denote_rows env cs rows (xh_event h) (xh_db h)) h1 \<and> xh_cur h1 = xh_cur h"
proof (induction rows arbitrary: h)
  case Nil
  then show ?case by (simp add: rendered_refl)
next
  case (Cons row rows)
  let ?h = "h\<lparr>xh_event := row_headers env row (xh_event h), xh_rows := xh_rows h + 1\<rparr>"
  obtain ns e d where c: "denote_children env cs (row_headers env row (xh_event h)) (xh_db h) = (ns, e, d)"
    by (metis prod_cases3)
  have "renderable ?h" using Cons.prems by (simp add: renderable_def)
  then obtain h1 where h1: "render_children env cs ?h = Inr (SWITCH_STATUS_SUCCESS, h1)" "rendered ?h (ns, e, d) h1"
    "xh_cur h1 = xh_cur h"
    using assms c unfolding renders_children_def by fastforce
  let ?h1 = "h1\<lparr>xh_rows := xh_rows h + 1\<rparr>"
  have r1: "rendered h (ns, e, d) ?h1" using h1(2) by (simp add: rendered_before rendered_rows)
  have "renderable ?h1" by (rule rendered_ready [OF r1]) (simp add: h1(3))
  from Cons.IH [OF this] r1 obtain h2 where h2: "query_rows env cs rows ?h1 = Inr h2"
    "rendered ?h1 (denote_rows env cs rows e d) h2" "xh_cur h2 = xh_cur h"
    using h1(3) unfolding rendered_def by fastforce
  obtain ms e2 d2 where m: "denote_rows env cs rows e d = (ms, e2, d2)" by (metis prod_cases3)
  have "rendered h (ns @ ms, e2, d2) h2" using rendered_trans [OF r1, of ms e2 d2 h2] h2(2) m h1(3) by simp
  moreover have "xh_next h = []" using Cons.prems by (simp add: renderable_def)
  ultimately show ?case using h1(1) h2(1,3) c m by simp
qed

lemma tag_render:
  assumes "good_tag t" "renderable h"
  shows "\<exists>s h1. render_tag env t h = Inr (s, h1) \<and> rendered h (denote_tag env t (xh_event h) (xh_db h)) h1"
  using assms
proof (induction t arbitrary: h)
  case (In_Tag n as cs)
  have children: "renders_children env cs"
    by (rule children_render) (use In_Tag in auto)
  note refl = rendered_refl [OF In_Tag.prems(2)]
  show ?case
  proof (cases "is_do n")
    case False
    let ?h = "copy_attrs env as (open_tag n h)"
    have n: "n \<noteq> []" "distinct (map fst as)" using In_Tag.prems(1) False by simp_all
    obtain ns e d where c: "denote_children env cs (xh_event h) (xh_db h) = (ns, e, d)" by (metis prod_cases3)
    note copy = rendered_copy [OF In_Tag.prems(2) n, of env]
    then obtain h1 where "render_children env cs ?h = Inr (SWITCH_STATUS_SUCCESS, h1)" "rendered ?h (ns, e, d) h1"
      using children c unfolding renders_children_def by fastforce
    with copy False c show ?thesis by (auto simp: render_tag.simps denote_tag.simps)
  next
    case do: True
    then have good: "\<not> c_strcaseeq (xml_attr_soft as ''name'') ''break-to''" "xml_attr_soft as ''on-empty-result-break-to'' = []"
      "\<not> (map_of as ''if-name'' \<noteq> None \<and> map_of as ''to-name'' \<noteq> None \<and> map_of as ''to-value'' = None)"
      using In_Tag.prems(1) by simp_all
    have unnamed: "\<not> c_strcaseeq [] ''check-event-header''" "\<not> c_strcaseeq [] ''set-event-header''" "\<not> c_strcaseeq [] ''query''"
      by (simp_all add: c_strcaseeq_def)
    show ?thesis
    proof (cases "c_strcaseeq (xml_attr_soft as ''name'') ''check-event-header'' \<or> c_strcaseeq (xml_attr_soft as ''name'') ''set-event-header''")
      case header: True
      then have named: "xml_attr_soft as ''name'' \<noteq> []" using unnamed by auto
      show ?thesis
      proof (cases "header_change env as (xh_event h)")
        case None
        then obtain s where "set_event_header env as h = Inr (Some s, h)"
          using set_event_header_change(1) [OF good(3)] by blast
        with do good(1) header named None have "render_tag env (In_Tag n as cs) h = Inr (s, h)"
          "denote_tag env (In_Tag n as cs) (xh_event h) (xh_db h) = ([], xh_event h, xh_db h)"
          by (simp_all add: render_tag.simps denote_tag.simps Let_def)
        with refl show ?thesis by simp
      next
        case (Some e)
        let ?h = "h\<lparr>xh_event := e\<rparr>"
        have "renderable ?h" using In_Tag.prems(2) by (simp add: renderable_def)
        then obtain h1 where "render_children env cs ?h = Inr (SWITCH_STATUS_SUCCESS, h1)"
          "rendered ?h (denote_children env cs e (xh_db h)) h1"
          using children unfolding renders_children_def by fastforce
        moreover have "render_tag env (In_Tag n as cs) h = render_children env cs ?h"
          "denote_tag env (In_Tag n as cs) (xh_event h) (xh_db h) = denote_children env cs e (xh_db h)"
          using set_event_header_change(2) [OF good(3) Some] do good(1) header named Some
          by (simp_all add: render_tag.simps denote_tag.simps Let_def)
        ultimately show ?thesis by (simp add: rendered_before)
      qed
    next
      case no_header: False
      show ?thesis
      proof (cases "c_strcaseeq (xml_attr_soft as ''name'') ''query''")
        case False
        with do good(1) no_header have "\<exists>s. render_tag env (In_Tag n as cs) h = Inr (s, h)"
          "denote_tag env (In_Tag n as cs) (xh_event h) (xh_db h) = ([], xh_event h, xh_db h)"
          by (simp_all add: render_tag.simps denote_tag.simps Let_def)
        with refl show ?thesis by auto
      next
        case query: True
        then have named: "xml_attr_soft as ''name'' \<noteq> []" using unnamed by auto
        obtain res d where q: "xo_odbc env (xh_db h) (ev_expand env (xh_event h) (xml_attr_soft as ''value'')) = (res, d)"
          by fastforce
        let ?h = "h\<lparr>xh_rows := 0, xh_db := d\<rparr>"
        have ready: "renderable ?h" using In_Tag.prems(2) by (simp add: renderable_def)
        show ?thesis
        proof (cases res)
          case None
          have "rendered h ([], xh_event h, d) ?h" using rendered_refl [OF ready] by (simp add: rendered_before)
          with do good no_header query named q None show ?thesis
            by (simp add: render_tag.simps denote_tag.simps Let_def)
        next
          case (Some rows)
          obtain h1 where "query_rows env cs rows ?h = Inr h1" "rendered ?h (denote_rows env cs rows (xh_event h) d) h1"
            using rows_render [OF children ready, of rows] by auto
          moreover from this have "render_tag env (In_Tag n as cs) h = Inr (SWITCH_STATUS_SUCCESS, h1)"
            "denote_tag env (In_Tag n as cs) (xh_event h) (xh_db h) = denote_rows env cs rows (xh_event h) d"
            using do good(1,2) no_header query named q Some by (simp_all add: render_tag.simps denote_tag.simps Let_def)
          ultimately show ?thesis by (simp add: rendered_before)
        qed
      qed
    qed
  qed
qed

lemma good_children_render:
  "\<forall>c\<in>set cs. good_tag c \<Longrightarrow> renders_children env cs"
  by (rule children_render) (use tag_render in blast)
subsection \<open>Properties\<close>

lemma find_template_in: "find_template templates name = Some t \<Longrightarrow> t \<in> set templates"
  unfolding find_template_def by (induction templates) (auto split: if_splits)

lemma render_template_stop:
  "max_count \<le> xh_count h \<Longrightarrow>
    render_template env templates max_count h = Inr (SWITCH_STATUS_FALSE, h\<lparr>xh_count := xh_count h + 1\<rparr>)"
  by (subst render_template.simps) (simp add: Let_def)

lemma render_template_step:
  "xh_count h < max_count \<Longrightarrow> render_template env templates max_count h =
     (case find_template templates (xh_next h) of
        None \<Rightarrow> render_template env templates max_count
          (h\<lparr>xh_count := xh_count h + 1, xh_out := empty_out, xh_cur := [], xh_off := 0, xh_next := ''not-found''\<rparr>)
      | Some t \<Rightarrow>
          (case render_children env (it_children t)
              (h\<lparr>xh_count := xh_count h + 1, xh_out := empty_out, xh_cur := [], xh_off := 0, xh_next := []\<rparr>) of
             Inl e \<Rightarrow> Inl e
           | Inr (status, h3) \<Rightarrow>
               if xh_next h3 \<noteq> [] then render_template env templates max_count h3 else Inr (status, h3)))"
  by (subst render_template.simps) (simp add: Let_def)

lemma render_template_good:
  assumes "find_template templates (xh_next h) = Some t" "\<forall>c\<in>set (it_children t). good_tag c" "xh_count h < max_count"
    "denote_children env (it_children t) (xh_event h) (xh_db h) = (ns, e, d)"
  shows "\<exists>h1. render_template env templates max_count h = Inr (SWITCH_STATUS_SUCCESS, h1) \<and>
    erase (xh_out h1) = put_nodes (Node [] [] []) ns \<and> xh_event h1 = e \<and> xh_db h1 = d"
proof -
  let ?h = "h\<lparr>xh_count := xh_count h + 1, xh_out := empty_out, xh_cur := [], xh_off := 0, xh_next := []\<rparr>"
  have "renderable ?h" by (simp add: renderable_def slot_def empty_out_def)
  then obtain h1 where h1: "render_children env (it_children t) ?h = Inr (SWITCH_STATUS_SUCCESS, h1)" "rendered ?h (ns, e, d) h1"
    using good_children_render [OF assms(2), of env] assms(4) unfolding renders_children_def by fastforce
  have "render_template env templates max_count h = Inr (SWITCH_STATUS_SUCCESS, h1)"
    using assms(1,3) h1 by (simp add: render_template_step rendered_def)
  with h1(2) show ?thesis by (auto simp: rendered_def empty_out_def)
qed


text \<open>
  A search as a whole: the answer is what the XML library reads back from the file of the
  document that the template \<open>default\<close> means for the event with the parts of the search, and the file is
  removed.
\<close>
theorem search_answered:
  assumes "find_template (xg_templates g) ''default'' = Some t" "\<forall>c\<in>set (it_children t). good_tag c" "0 < xg_max g"
    "denote_children env (it_children t) (search_event env section tag_name key_name key_value event) db = (ns, e, d)"
    "\<forall>f. xs_open sys f \<and> xs_unlink sys f" "\<forall>s. xs_write sys s = int (length s)" "\<forall>out. xs_toxml sys out \<noteq> []" "\<not> xg_keep g"
  shows "\<exists>out. erase out = put_nodes (Node [] [] []) ns \<and>
    xml_odbc_search env sys g True True section tag_name key_name key_value event db =
      Inr (xs_parse sys (xs_toxml sys out), [], d)"
proof -
  let ?h = "\<lparr>xh_next = ''default'', xh_event = search_event env section tag_name key_name key_value event,
    xh_out = empty_out, xh_cur = [], xh_off = 0, xh_count = 0, xh_rows = 0, xh_db = db\<rparr>"
  obtain h1 where h1: "render_template env (xg_templates g) (xg_max g) ?h = Inr (SWITCH_STATUS_SUCCESS, h1)"
    "erase (xh_out h1) = put_nodes (Node [] [] []) ns" "xh_db h1 = d"
    using render_template_good [of "xg_templates g" ?h t "xg_max g" env ns e d] assms(1-4) by auto
  show ?thesis
    by (rule exI [of _ "xh_out h1"]) (use h1 assms(5-8) in \<open>simp add: xml_odbc_search_def Let_def\<close>)
qed

lemma render_template_last:
  "render_template env templates max_count h = Inr (SWITCH_STATUS_SUCCESS, h1) \<Longrightarrow>
   \<exists>t\<in>set templates. \<exists>h0. xh_out h0 = empty_out \<and> xh_count h0 \<le> max_count \<and>
     render_children env (it_children t) h0 = Inr (SWITCH_STATUS_SUCCESS, h1) \<and> xh_next h1 = []"
proof (induction "nat (max_count - xh_count h)" arbitrary: h rule: less_induct)
  case less
  show ?case
  proof (cases "xh_count h < max_count")
    case False
    with less.prems show ?thesis by (simp add: render_template_stop)
  next
    case count: True
    let ?h = "h\<lparr>xh_count := xh_count h + 1, xh_out := empty_out, xh_cur := [], xh_off := 0\<rparr>"
    note step = render_template_step [OF count]
    show ?thesis
    proof (cases "find_template templates (xh_next h)")
      case None
      with less.prems have "render_template env templates max_count (?h\<lparr>xh_next := ''not-found''\<rparr>) = Inr (SWITCH_STATUS_SUCCESS, h1)"
        by (simp add: step)
      from less.hyps [OF _ this] count show ?thesis by simp
    next
      case (Some t)
      with less.prems obtain s h3 where h3: "render_children env (it_children t) (?h\<lparr>xh_next := []\<rparr>) = Inr (s, h3)"
        by (auto simp: step split: sum.splits)
      show ?thesis
      proof (cases "xh_next h3 = []")
        case True
        with less.prems Some h3 have "s = SWITCH_STATUS_SUCCESS" "h3 = h1" by (simp_all add: step)
        with h3 True count find_template_in [OF Some] show ?thesis
          by (intro bexI [of _ t] exI [of _ "?h\<lparr>xh_next := []\<rparr>"]) simp_all
      next
        case False
        with less.prems Some h3 have nxt: "render_template env templates max_count h3 = Inr (SWITCH_STATUS_SUCCESS, h1)"
          by (simp add: step)
        have "xh_count h3 = xh_count h + 1" using count_kept.render_relates [OF h3] by simp
        with less.hyps [OF _ nxt] count show ?thesis by simp
      qed
    qed
  qed
qed

text \<open>
  Whatever templates break to whatever others, an answer is the rendering of a single template from an
  empty document: nothing of the ones that were left remains in it.
\<close>
theorem answer_of_one_template:
  assumes "render_template env templates max_count h = Inr (SWITCH_STATUS_SUCCESS, h1)"
  shows "\<exists>t\<in>set templates. \<exists>h0. xh_out h0 = empty_out \<and> xh_count h0 \<le> max_count \<and>
     render_children env (it_children t) h0 = Inr (SWITCH_STATUS_SUCCESS, h1) \<and> xh_next h1 = []"
  by (rule render_template_last [OF assms])
text \<open>A template that begins with a break, to a name that is not empty whatever the headers are.\<close>

definition breaks_at_once :: "('e, 'd) xo_env \<Rightarrow> in_tag \<Rightarrow> bool" where
  "breaks_at_once env t \<longleftrightarrow>
     (\<exists>n as ds cs. it_children t = In_Tag n as ds # cs \<and> is_do n \<and>
        c_strcaseeq (xml_attr_soft as ''name'') ''break-to'' \<and>
        (\<forall>e. ev_expand env e (xml_attr_soft as ''value'') \<noteq> []))"

lemma breaks_at_once_children:
  assumes "breaks_at_once env t"
  shows "\<exists>h1. render_children env (it_children t) h = Inr (SWITCH_STATUS_FALSE, h1) \<and> xh_next h1 \<noteq> [] \<and> xh_count h1 = xh_count h"
proof -
  obtain n as ds cs where t: "it_children t = In_Tag n as ds # cs" "is_do n"
    "c_strcaseeq (xml_attr_soft as ''name'') ''break-to''"
    "ev_expand env (xh_event h) (xml_attr_soft as ''value'') \<noteq> []"
    using assms unfolding breaks_at_once_def by blast
  have "xml_attr_soft as ''name'' \<noteq> []" using t(3) by (auto simp: c_strcaseeq_def)
  with t show ?thesis by (simp add: render_tag.simps xml_odbc_do_break_to_def Let_def)
qed

text \<open>
  C31:When every template begins with a break, in whatever circles, or the template asked for is missing,
  the search gives up after the configured number of templates, no earlier and no later.
\<close>
theorem breaking_templates_stopped:
  assumes "\<forall>t\<in>set templates. breaks_at_once env t" "xh_count h \<le> max_count"
  shows "\<exists>h1. render_template env templates max_count h = Inr (SWITCH_STATUS_FALSE, h1) \<and> xh_count h1 = max_count + 1"
  using assms(2)
proof (induction "nat (max_count - xh_count h)" arbitrary: h rule: less_induct)
  case less
  show ?case
  proof (cases "xh_count h < max_count")
    case False
    with less.prems show ?thesis by (simp add: render_template_stop)
  next
    case count: True
    let ?h = "h\<lparr>xh_count := xh_count h + 1, xh_out := empty_out, xh_cur := [], xh_off := 0\<rparr>"
    note step = render_template_step [OF count]
    show ?thesis
    proof (cases "find_template templates (xh_next h)")
      case None
      with less.hyps [of "?h\<lparr>xh_next := ''not-found''\<rparr>"] count show ?thesis by (simp add: step)
    next
      case (Some t)
      then have "breaks_at_once env t" using assms(1) find_template_in by blast
      from breaks_at_once_children [OF this, of "?h\<lparr>xh_next := []\<rparr>"] obtain h1 where
        h1: "render_children env (it_children t) (?h\<lparr>xh_next := []\<rparr>) = Inr (SWITCH_STATUS_FALSE, h1)" "xh_next h1 \<noteq> []"
        "xh_count h1 = xh_count h + 1" by auto
      with less.hyps [of h1] Some count show ?thesis by (simp add: step)
    qed
  qed
qed

text \<open>
  A header that is renamed and keeps its value: the value is the one of the header that was just
  deleted, so that a search which comes to such a tag uses memory that was freed.
\<close>
theorem renamed_header_used_after_free:
  assumes "find_template templates (xh_next h) = Some t" "it_children t = In_Tag n as ds # cs" "is_do n"
    "c_strcaseeq (xml_attr_soft as ''name'') ''set-event-header''"
    "map_of as ''if-name'' = Some a" "map_of as ''if-value'' = None" "map_of as ''to-name'' = Some b" "map_of as ''to-value'' = None"
    "ev_get env (xh_event h) (ev_expand env (xh_event h) a) \<noteq> None" "xh_count h < max_count"
  shows "render_template env templates max_count h = Inl Use_After_Free"
proof -
  let ?h = "h\<lparr>xh_count := xh_count h + 1, xh_out := empty_out, xh_cur := [], xh_off := 0, xh_next := []\<rparr>"
  have name: "xml_attr_soft as ''name'' \<noteq> []" using assms(4) by (auto simp: c_strcaseeq_def)
  have "map c_tolower ''break-to'' \<noteq> map c_tolower ''set-event-header''" by code_simp
  then have "\<not> c_strcaseeq (xml_attr_soft as ''name'') ''break-to''"
    using assms(4) unfolding c_strcaseeq_def by (metis (no_types))
  moreover have "set_event_header env as ?h = Inl Use_After_Free"
    using assms(5-9) by (auto simp: set_event_header_def xml_attr_def Let_def)
  ultimately have "render_tag env (In_Tag n as ds) ?h = Inl Use_After_Free"
    using assms(3,4) name by (simp add: render_tag.simps Let_def)
  with assms(1,2,10) show ?thesis by (simp add: render_template_step)
qed

text \<open>
  The first thing every search does is to free \<open>helper.xml_out\<close>, which has no value: unless the stack
  happens to hold a null pointer there, it frees a wild pointer.
\<close>
theorem first_free_is_wild:
  "xml_odbc_search env sys g False True section tag_name key_name key_value event db = Inl Wild_Pointer"
  by (simp add: xml_odbc_search_def)

subsection \<open>Witnesses\<close>

definition sample_xo_env :: "((string \<times> string) list, nat) xo_env" where
  "sample_xo_env =
     \<lparr>ev_get = map_of, ev_del = (\<lambda>e n. filter (\<lambda>p. fst p \<noteq> n) e),
      ev_add = (\<lambda>e n v. case v of None \<Rightarrow> e | Some w \<Rightarrow> e @ [(n, w)]),
      ev_expand = (\<lambda>e s. case s of [] \<Rightarrow> [] | c # cs \<Rightarrow>
        if c = CHR ''$'' then (case map_of e cs of None \<Rightarrow> [] | Some v \<Rightarrow> v) else s),
      ev_new = [], ev_add_top = (\<lambda>e n v. (n, v) # e),
      xo_odbc = (\<lambda>d q. (Some [[(''id'', Some ''1000'')], [(''id'', Some ''1001'')]], d + 1))\<rparr>"

definition sample_template :: in_tag where
  "sample_template = In_Tag ''template'' [(''name'', ''default'')]
     [In_Tag ''section'' [(''name'', ''$section'')]
        [In_Tag ''xml-odbc-do'' [(''name'', ''query''), (''value'', ''SELECT id'')]
           [In_Tag ''user'' [(''id'', ''$id'')] []]]]"

definition loop_template :: in_tag where
  "loop_template = In_Tag ''template'' [(''name'', ''default'')]
     [In_Tag ''xml-odbc-do'' [(''name'', ''break-to''), (''value'', ''default'')] []]"

definition rename_template :: in_tag where
  "rename_template = In_Tag ''template'' [(''name'', ''default'')]
     [In_Tag ''xml-odbc-do'' [(''name'', ''set-event-header''), (''if-name'', ''user''), (''to-name'', ''id'')] []]"

definition sample_xo_helper :: "((string \<times> string) list, nat) xo_helper" where
  "sample_xo_helper =
     \<lparr>xh_next = ''default'', xh_event = [(''section'', ''directory''), (''user'', ''1'')], xh_out = empty_out, xh_cur = [],
      xh_off = 0, xh_count = 0, xh_rows = 0, xh_db = 0\<rparr>"

definition sample_xo_system :: "string xo_system" where
  "sample_xo_system =
     \<lparr>xs_toxml = (\<lambda>t. ''xml''), xs_parse = (\<lambda>s. Some s), xs_temp_dir = ''/tmp/'', xs_uuid = ''1'', xs_open = (\<lambda>f. True),
      xs_write = (\<lambda>s. int (length s)), xs_unlink = (\<lambda>f. True)\<rparr>"

definition sample_xo_globals :: xo_globals where
  "sample_xo_globals = \<lparr>xg_dsn = Some ''db'', xg_templates = [sample_template], xg_handle = True, xg_debug = False,
     xg_keep = False, xg_max = 32\<rparr>"

lemma sample_template_good: "\<forall>c\<in>set (it_children sample_template). good_tag c"
  unfolding sample_template_def by code_simp

lemma sample_meaning:
  "denote_children sample_xo_env (it_children sample_template) [(''section'', ''directory''), (''user'', ''1'')] 0 =
    ([Node ''section'' [(''name'', ''directory'')] [Node ''user'' [(''id'', ''1000'')] [], Node ''user'' [(''id'', ''1001'')] []]],
     [(''section'', ''directory''), (''user'', ''1''), (''id'', ''1001'')], 1)"
  unfolding sample_template_def sample_xo_env_def by code_simp


theorem search_answered_witness:
  "\<exists>out. erase out = Node ''section'' [(''name'', ''directory'')]
      [Node ''user'' [(''id'', ''1000'')] [], Node ''user'' [(''id'', ''1001'')] []] \<and>
    xml_odbc_search sample_xo_env sample_xo_system sample_xo_globals True True (Some ''directory'') None None None None 0 =
      Inr (Some ''xml'', [], 1)"
proof -
  have 1: "find_template (xg_templates sample_xo_globals) ''default'' = Some sample_template"
    by (simp add: find_template_def sample_xo_globals_def sample_template_def)
  have 2: "0 < xg_max sample_xo_globals" "\<not> xg_keep sample_xo_globals" by (simp_all add: sample_xo_globals_def)
  have 3: "denote_children sample_xo_env (it_children sample_template)
      (search_event sample_xo_env (Some ''directory'') None None None None) 0 =
    ([Node ''section'' [(''name'', ''directory'')] [Node ''user'' [(''id'', ''1000'')] [], Node ''user'' [(''id'', ''1001'')] []]],
     [(''key_value'', []), (''key_name'', []), (''tag_name'', []), (''section'', ''directory''), (''id'', ''1001'')], 1)"
    unfolding sample_template_def sample_xo_env_def by code_simp
  have 4: "\<forall>f. xs_open sample_xo_system f \<and> xs_unlink sample_xo_system f" "\<forall>s. xs_write sample_xo_system s = int (length s)"
    "\<forall>out. xs_toxml sample_xo_system out \<noteq> []" by (simp_all add: sample_xo_system_def)
  from search_answered [OF 1 sample_template_good 2(1) 3 4 2(2)] obtain out where
    "erase out = put_nodes (Node [] [] []) [Node ''section'' [(''name'', ''directory'')]
      [Node ''user'' [(''id'', ''1000'')] [], Node ''user'' [(''id'', ''1001'')] []]]"
    "xml_odbc_search sample_xo_env sample_xo_system sample_xo_globals True True (Some ''directory'') None None None None 0 =
      Inr (xs_parse sample_xo_system (xs_toxml sample_xo_system out), [], 1)" by blast
  then show ?thesis by (intro exI [of _ out]) (simp add: sample_xo_system_def)
qed

theorem answer_of_one_template_witness:
  "\<exists>h1 h0. render_template sample_xo_env [sample_template] 32 sample_xo_helper = Inr (SWITCH_STATUS_SUCCESS, h1) \<and>
    xh_out h0 = empty_out \<and> render_children sample_xo_env (it_children sample_template) h0 = Inr (SWITCH_STATUS_SUCCESS, h1)"
proof -
  have 1: "find_template [sample_template] (xh_next sample_xo_helper) = Some sample_template"
    by (simp add: find_template_def sample_xo_helper_def sample_template_def)
  have 2: "xh_count sample_xo_helper < 32" by (simp add: sample_xo_helper_def)
  obtain ns e d where 3: "denote_children sample_xo_env (it_children sample_template) (xh_event sample_xo_helper) (xh_db sample_xo_helper) =
    (ns, e, d)" by (metis prod_cases3)
  obtain h1 where h1: "render_template sample_xo_env [sample_template] 32 sample_xo_helper = Inr (SWITCH_STATUS_SUCCESS, h1)"
    using render_template_good [OF 1 sample_template_good 2 3] by blast
  from answer_of_one_template [OF h1] h1 show ?thesis by auto
qed

theorem breaking_templates_stopped_witness:
  "\<exists>h1. render_template sample_xo_env [loop_template] 32 sample_xo_helper = Inr (SWITCH_STATUS_FALSE, h1) \<and> xh_count h1 = 33"
proof -
  have "is_do ''xml-odbc-do''" "c_strcaseeq ''break-to'' ''break-to''" by (simp_all add: is_do_def c_strcaseeq_def)
  then have 1: "\<forall>t\<in>set [loop_template]. breaks_at_once sample_xo_env t"
    by (simp add: breaks_at_once_def loop_template_def xml_attr_soft_def sample_xo_env_def)
  have 2: "xh_count sample_xo_helper \<le> 32" by (simp add: sample_xo_helper_def)
  from breaking_templates_stopped [OF 1 2] show ?thesis by simp
qed

theorem renamed_header_used_after_free_witness:
  "render_template sample_xo_env [rename_template] 32 sample_xo_helper = Inl Use_After_Free"
proof -
  let ?as = "[(''name'', ''set-event-header''), (''if-name'', ''user''), (''to-name'', ''id'')]"
  have t: "find_template [rename_template] (xh_next sample_xo_helper) = Some rename_template"
    by (simp add: find_template_def sample_xo_helper_def rename_template_def)
  have c: "it_children rename_template = In_Tag ''xml-odbc-do'' ?as [] # []" by (simp add: rename_template_def)
  have d: "is_do ''xml-odbc-do''" "c_strcaseeq (xml_attr_soft ?as ''name'') ''set-event-header''" by code_simp+
  have m: "map_of ?as ''if-name'' = Some ''user''" "map_of ?as ''if-value'' = None" "map_of ?as ''to-name'' = Some ''id''"
    "map_of ?as ''to-value'' = None" by code_simp+
  have v: "ev_get sample_xo_env (xh_event sample_xo_helper) (ev_expand sample_xo_env (xh_event sample_xo_helper) ''user'') \<noteq> None"
    "xh_count sample_xo_helper < 32" by (simp_all add: sample_xo_env_def sample_xo_helper_def)
  show ?thesis by (rule renamed_header_used_after_free [OF t c d m v])
qed

end
