(* ===== verification/Xml_Odbc_Simple.thy ===== *)
theory Xml_Odbc_Simple
  imports Xml_Odbc
begin

text \<open>
  \<open>ledr/c/mod_xml_odbc_simple/mod_xml_odbc_simple.c\<close>: answers a search in the directory with a user for every row of a
  configured query.  The trees are those of \<open>Xml_Odbc\<close>; allocations are taken to succeed.
\<close>

subsection \<open>The configuration\<close>

text \<open>
  The strings of a query lie in the document it was read from, whose number is \<open>sq_doc\<close>.  \<open>so_released\<close> are the
  documents whose memory was given back.
\<close>

record so_query =
  sq_name :: string
  sq_dsn :: "string option"
  sq_user :: "string option"
  sq_pass :: "string option"
  sq_value :: string
  sq_doc :: nat

record 'h so_globals =
  so_dsn :: "string option"
  so_user :: "string option"
  so_pass :: "string option"
  so_attrs :: "string list"
  so_params :: "string list"
  so_variables :: "string list"
  so_queries :: 'h
  so_docs :: nat
  so_released :: "nat list"

text \<open>
  The table of the core with its keys, \<open>switch_separate_string\<close>, the database, and the expansion of a text in an event.
\<close>

record 'h so_env =
  soe_table :: "('h, so_query) fs_table"
  soe_keys :: "'h \<Rightarrow> string list"
  soe_separate :: "string \<Rightarrow> nat \<Rightarrow> string list"
  soe_accepts :: "string option \<Rightarrow> string option \<Rightarrow> string option \<Rightarrow> bool"
  soe_query :: "string \<Rightarrow> (string \<times> string option) list list"
  soe_expand :: "(string \<times> string) list \<Rightarrow> string \<Rightarrow> string"

text \<open>
  \<open>split_dsn_into_db_user_pass\<close> cuts the text at its first colon; the other two results are set in its own copies of
  the pointers, which nobody sees.
\<close>

definition split_dsn_into_db_user_pass :: "string \<Rightarrow> string" where
  "split_dsn_into_db_user_pass db = takeWhile (\<lambda>c. c \<noteq> CHR '':'') db"

definition so_callback_dsn :: "string option \<Rightarrow> bool \<Rightarrow> 'h so_globals \<Rightarrow> 'h so_globals" where
  "so_callback_dsn newvalue changed g =
     (if \<not> changed then g
      else (case newvalue of
              None \<Rightarrow> g
            | Some v \<Rightarrow> if v = [] then g else g\<lparr>so_dsn := Some (split_dsn_into_db_user_pass v)\<rparr>))"

text \<open>The settings, each with whether it changed.\<close>

record so_settings =
  ss_dsn :: "string option \<times> bool"
  ss_attrs :: "string \<times> bool"
  ss_params :: "string \<times> bool"
  ss_variables :: "string \<times> bool"

definition config_callback_separate_string :: "'h so_env \<Rightarrow> so_settings \<Rightarrow> 'h so_globals \<Rightarrow> 'h so_globals" where
  "config_callback_separate_string env s g =
     (let g1 = (if snd (ss_attrs s) then g\<lparr>so_attrs := soe_separate env (fst (ss_attrs s)) 10\<rparr> else g);
          g2 = (if snd (ss_params s) then g1\<lparr>so_params := soe_separate env (fst (ss_params s)) 30\<rparr> else g1)
      in if snd (ss_variables s) then g2\<lparr>so_variables := soe_separate env (fst (ss_variables s)) 30\<rparr> else g2)"

text \<open>A query of the file: its name, its database and its text.  Without a database of its own it gets the password twice.\<close>

definition so_add_query ::
    "'h so_env \<Rightarrow> string \<times> string option \<times> string \<Rightarrow> 'h so_globals \<Rightarrow> 'h so_globals" where
  "so_add_query env q g =
     (case q of (name, dsn, value') \<Rightarrow>
        if name = [] \<or> value' = [] then g
        else (let query = (case dsn of
                    Some d \<Rightarrow> \<lparr>sq_name = name, sq_dsn = Some (split_dsn_into_db_user_pass d), sq_user = None, sq_pass = None,
                               sq_value = value', sq_doc = so_docs g\<rparr>
                  | None \<Rightarrow> \<lparr>sq_name = name, sq_dsn = so_dsn g, sq_user = so_pass g, sq_pass = so_pass g,
                             sq_value = value', sq_doc = so_docs g\<rparr>)
              in g\<lparr>so_queries := tab_insert (soe_table env) (so_queries g) name (Some query)\<rparr>))"

text \<open>Entries that are not in the file are removed; the name of an entry is read from the document it came from.\<close>

fun remove_old :: "'h so_env \<Rightarrow> nat list \<Rightarrow> string list \<Rightarrow> string list \<Rightarrow> 'h \<Rightarrow> crash + 'h" where
  "remove_old env released names [] h = Inr h"
| "remove_old env released names (k # ks) h =
     (case tab_find (soe_table env) h k of
        None \<Rightarrow> Inl Null_Deref
      | Some q \<Rightarrow>
          if sq_doc q \<in> set released then Inl Use_After_Free
          else remove_old env released names ks (if sq_name q \<in> set names then h else tab_delete (soe_table env) h (sq_name q)))"

text \<open>
  \<open>do_config\<close>.  The settings and the document are \<open>None\<close> when they cannot be read; \<open>final\<close> says whether
  \<open>switch_xml_free\<close> gave up the last reference to the document.
\<close>

definition so_do_config ::
    "'h so_env \<Rightarrow> so_settings option \<Rightarrow> (string \<times> string option \<times> string) list option \<Rightarrow> bool \<Rightarrow>
     'h so_globals \<Rightarrow> crash + switch_status \<times> 'h so_globals" where
  "so_do_config env settings queries final g =
     (case settings of
        None \<Rightarrow> Inr (SWITCH_STATUS_FALSE, g)
      | Some s \<Rightarrow>
          (let g1 = config_callback_separate_string env s (so_callback_dsn (fst (ss_dsn s)) (snd (ss_dsn s)) g)
           in case queries of
                None \<Rightarrow> Inr (SWITCH_STATUS_FALSE, g1)
              | Some qs \<Rightarrow>
                  (let g2 = fold (so_add_query env) qs g1
                   in case remove_old env (so_released g2) (map fst qs) (soe_keys env (so_queries g2)) (so_queries g2) of
                        Inl e \<Rightarrow> Inl e
                      | Inr h \<Rightarrow>
                          Inr (SWITCH_STATUS_SUCCESS,
                            g2\<lparr>so_queries := h, so_docs := so_docs g2 + 1,
                               so_released := (if final then so_docs g2 # so_released g2 else so_released g2)\<rparr>))))"

definition so_zeroed :: "'h so_env \<Rightarrow> 'h so_globals" where
  "so_zeroed env =
     \<lparr>so_dsn = None, so_user = None, so_pass = None, so_attrs = [], so_params = [], so_variables = [],
      so_queries = tab_new (soe_table env), so_docs = 0, so_released = []\<rparr>"

definition mod_xml_odbc_simple_load ::
    "'h so_env \<Rightarrow> bool \<Rightarrow> so_settings option \<Rightarrow> (string \<times> string option \<times> string) list option \<Rightarrow> bool \<Rightarrow>
     crash + switch_status \<times> 'h so_globals" where
  "mod_xml_odbc_simple_load env available settings queries final =
     (if \<not> available then Inr (SWITCH_STATUS_FALSE, so_zeroed env)
      else so_do_config env settings queries final (so_zeroed env))"

subsection \<open>A row\<close>

text \<open>The first column of a name; a value that is null is passed to \<open>strcmp\<close>.\<close>

definition column :: "string \<Rightarrow> (string \<times> string option) list \<Rightarrow> crash + string option" where
  "column n row =
     (case List.find (\<lambda>c. fst c = n) row of
        None \<Rightarrow> Inr None
      | Some (_, None) \<Rightarrow> Inl Null_Deref
      | Some (_, Some v) \<Rightarrow> Inr (if v = [] then None else Some v))"

fun user_attrs :: "string list \<Rightarrow> (string \<times> string option) list \<Rightarrow> out_tag \<Rightarrow> crash + out_tag" where
  "user_attrs [] row u = Inr u"
| "user_attrs (n # ns) row u =
     (case column n row of
        Inl e \<Rightarrow> Inl e
      | Inr None \<Rightarrow> user_attrs ns row u
      | Inr (Some v) \<Rightarrow> user_attrs ns row (set_tag_attr n v u))"

text \<open>
  The children of a kind: the group is added with the first of them, and \<open>i\<close> is its place in the user.  \<open>off\<close> grows with
  every tag.
\<close>

fun user_children ::
    "string \<Rightarrow> string \<Rightarrow> string list \<Rightarrow> (string \<times> string option) list \<Rightarrow> nat option \<Rightarrow> out_tag \<times> nat \<Rightarrow> crash + out_tag \<times> nat" where
  "user_children kind item [] row i s = Inr s"
| "user_children kind item (n # ns) row i (u, off) =
     (case column n row of
        Inl e \<Rightarrow> Inl e
      | Inr None \<Rightarrow> user_children kind item ns row i (u, off)
      | Inr (Some v) \<Rightarrow>
          (let (u1, k, off1) = (case i of
                  Some k \<Rightarrow> (u, k, off)
                | None \<Rightarrow> (let (t, k) = add_child_d kind off u in (t, k, off + 1)));
               add = (\<lambda>p. let (p1, j) = add_child_d item off1 p
                          in change_child j (\<lambda>t. set_tag_attr ''value'' v (set_tag_attr ''name'' n t)) p1)
           in user_children kind item ns row (Some k) (change_child k add u1, off1 + 1)))"

definition build_user ::
    "'h so_globals \<Rightarrow> (string \<times> string option) list \<Rightarrow> out_tag \<times> nat \<Rightarrow> crash + out_tag \<times> nat" where
  "build_user g row s =
     (case user_attrs (so_attrs g) row (fst s) of
        Inl e \<Rightarrow> Inl e
      | Inr u1 \<Rightarrow>
          (case user_children ''params'' ''param'' (so_params g) row None (u1, snd s) of
             Inl e \<Rightarrow> Inl e
           | Inr s2 \<Rightarrow> user_children ''variables'' ''variable'' (so_variables g) row None s2))"

text \<open>\<open>lookup_callback\<close> on the tag of the domain and the offset.\<close>

definition lookup_callback ::
    "'h so_globals \<Rightarrow> (string \<times> string option) list \<Rightarrow> out_tag \<times> nat \<Rightarrow> crash + out_tag \<times> nat" where
  "lookup_callback g row s =
     (let (t, k) = add_child_d ''user'' (snd s) (fst s)
      in case build_user g row (ot_children t ! k, snd s + 1) of
           Inl e \<Rightarrow> Inl e
         | Inr (u, off) \<Rightarrow> Inr (change_child k (\<lambda>_. u) t, off))"

fun lookup_rows ::
    "'h so_globals \<Rightarrow> (string \<times> string option) list list \<Rightarrow> out_tag \<times> nat \<Rightarrow> crash + out_tag \<times> nat" where
  "lookup_rows g [] s = Inr s"
| "lookup_rows g (row # rows) s =
     (case lookup_callback g row s of Inl e \<Rightarrow> Inl e | Inr s1 \<Rightarrow> lookup_rows g rows s1)"

subsection \<open>A search\<close>

text \<open>The last header of a name.\<close>

definition last_header :: "string \<Rightarrow> (string \<times> string) list \<Rightarrow> string option" where
  "last_header n hs = map_of (rev hs) n"

text \<open>The rows the database delivers; a failing query delivers none.\<close>

definition so_rows :: "'h so_env \<Rightarrow> 'h so_globals \<Rightarrow> so_query \<Rightarrow> string \<Rightarrow> (string \<times> string option) list list" where
  "so_rows env g query sql =
     (if so_dsn g \<noteq> None \<and> soe_accepts env (sq_dsn query) (sq_user query) (sq_pass query) then soe_query env sql else [])"

definition xml_odbc_simple_search ::
    "'h so_env \<Rightarrow> 'h so_globals \<Rightarrow> bool \<Rightarrow> (string \<times> string) list option \<Rightarrow> crash + out_tag option" where
  "xml_odbc_simple_search env g binding event =
     (if \<not> binding then Inr None
      else (case event of
              None \<Rightarrow> Inr None
            | Some headers \<Rightarrow>
                (case last_header ''domain'' headers of
                   None \<Rightarrow> Inr None
                 | Some domain \<Rightarrow>
                     (let purpose = (case last_header ''purpose'' headers of None \<Rightarrow> ''default'' | Some p \<Rightarrow> p);
                          section' = Out_Tag ''section'' 0 [(''name'', ''directory'')];
                          dom = Out_Tag ''domain'' 1 [(''name'', domain)] []
                      in case tab_find (soe_table env) (so_queries g) purpose of
                           None \<Rightarrow> Inr None
                         | Some query \<Rightarrow>
                             if sq_doc query \<in> set (so_released g) then Inl Use_After_Free
                             else (let rows = so_rows env g query (soe_expand env headers (sq_value query))
                                   in case lookup_rows g rows (dom, 2) of
                                        Inl e \<Rightarrow> Inl e
                                      | Inr (dom1, off) \<Rightarrow>
                                          if rows = [] then Inr None
                                          else Inr (Some (Out_Tag ''directory'' 0 [(''type'', ''freeswitch/xml'')] [section' [dom1]])))))))"

subsection \<open>What a row stands for\<close>

definition row_values :: "string list \<Rightarrow> (string \<times> string option) list \<Rightarrow> (string \<times> string) list" where
  "row_values ns row =
     concat (map (\<lambda>n. case map_of row n of Some (Some v) \<Rightarrow> if v = [] then [] else [(n, v)] | _ \<Rightarrow> []) ns)"

definition no_null :: "string list \<Rightarrow> (string \<times> string option) list \<Rightarrow> bool" where
  "no_null ns row \<longleftrightarrow> (\<forall>n \<in> set ns. map_of row n \<noteq> Some None)"

definition named_values :: "string \<Rightarrow> string \<Rightarrow> (string \<times> string) list \<Rightarrow> in_tag list" where
  "named_values kind item nvs =
     (if nvs = [] then [] else [In_Tag kind [] (map (\<lambda>(n, v). In_Tag item [(''name'', n), (''value'', v)] []) nvs)])"

definition row_user :: "'h so_globals \<Rightarrow> (string \<times> string option) list \<Rightarrow> in_tag" where
  "row_user g row =
     In_Tag ''user'' (fold (\<lambda>(n, v) as. set_attr n v as) (row_values (so_attrs g) row) [])
       (named_values ''params'' ''param'' (row_values (so_params g) row) @
        named_values ''variables'' ''variable'' (row_values (so_variables g) row))"

lemma find_map_of: "List.find (\<lambda>c. fst c = n) row = map_option (\<lambda>v. (n, v)) (map_of row n)"
  by (induction row) auto

lemma column_given:
  assumes "no_null (n # ns) row"
  shows "(column n row = Inr None \<and> row_values (n # ns) row = row_values ns row \<or>
    (\<exists>v. column n row = Inr (Some v) \<and> row_values (n # ns) row = (n, v) # row_values ns row)) \<and> no_null ns row"
  using assms by (auto simp: column_def find_map_of row_values_def no_null_def split: option.splits)

lemma attrs_set:
  assumes "no_null ns row"
  shows "user_attrs ns row u =
    Inr (Out_Tag (ot_name u) (ot_off u) (fold (\<lambda>(n, v) as. set_attr n v as) (row_values ns row) (ot_attrs u)) (ot_children u))"
  using assms
proof (induction ns arbitrary: u)
  case Nil
  then show ?case by (cases u) (simp add: row_values_def)
next
  case (Cons n ns)
  note c = column_given [OF Cons(2)]
  from c consider "column n row = Inr None" "row_values (n # ns) row = row_values ns row"
    | v where "column n row = Inr (Some v)" "row_values (n # ns) row = (n, v) # row_values ns row" by blast
  then show ?case
  proof cases
    case 1
    with Cons(1) [OF conjunct2 [OF c]] show ?thesis by simp
  next
    case 2
    with Cons(1) [OF conjunct2 [OF c]] show ?thesis by (simp add: set_tag_attr_def)
  qed
qed

text \<open>While the offsets grow every tag is put behind the others.\<close>

definition below :: "nat \<Rightarrow> out_tag \<Rightarrow> bool" where
  "below off t \<longleftrightarrow> (\<forall>c \<in> set (ot_children t). ot_off c < off)"

lemma add_below:
  assumes "below off t"
  shows "add_child_d n off t =
    (Out_Tag (ot_name t) (ot_off t) (ot_attrs t) (ot_children t @ [Out_Tag n off [] []]), length (ot_children t))"
proof -
  have w: "takeWhile (\<lambda>c. ot_off c \<le> off) (ot_children t) = ot_children t"
    using assms by (auto simp: below_def takeWhile_eq_all_conv)
  show ?thesis by (simp only: add_child_d_def Let_def w) simp
qed

lemma change_last:
  "change_child (length cs) f (Out_Tag n k as (cs @ [c])) = Out_Tag n k as (cs @ [f c])"
  by (simp add: change_child_def)

abbreviation value_tag :: "string \<Rightarrow> nat \<Rightarrow> string \<Rightarrow> string \<Rightarrow> out_tag" where
  "value_tag item off n v \<equiv> Out_Tag item off [(''name'', n), (''value'', v)] []"

lemma item_added:
  assumes "below off p"
  shows "(case add_child_d item off p of (p1, j) \<Rightarrow> change_child j (\<lambda>t. set_tag_attr ''value'' v (set_tag_attr ''name'' n t)) p1) =
    Out_Tag (ot_name p) (ot_off p) (ot_attrs p) (ot_children p @ [value_tag item off n v])"
  by (simp add: add_below [OF assms] change_last set_tag_attr_def)

lemma more_children:
  assumes "no_null ns row" "\<forall>c \<in> set cs. ot_off c < off" "ot_off p < off" "below off p"
  shows "\<exists>xs off1. user_children kind item ns row (Some (length cs)) (Out_Tag un uo ua (cs @ [p]), off) =
      Inr (Out_Tag un uo ua (cs @ [Out_Tag (ot_name p) (ot_off p) (ot_attrs p) (ot_children p @ xs)]), off1) \<and>
    map plain xs = map (\<lambda>(n, v). In_Tag item [(''name'', n), (''value'', v)] []) (row_values ns row) \<and> off \<le> off1"
  using assms
proof (induction ns arbitrary: p off)
  case Nil
  then show ?case by (cases p) (simp add: row_values_def)
next
  case (Cons n ns)
  note c = column_given [OF Cons(2)]
  from c consider (skipped) "column n row = Inr None" "row_values (n # ns) row = row_values ns row"
    | (added) v where "column n row = Inr (Some v)" "row_values (n # ns) row = (n, v) # row_values ns row" by blast
  then show ?case
  proof cases
    case skipped
    with Cons(1) [OF conjunct2 [OF c] Cons(3-5)] show ?thesis by simp
  next
    case added
    let ?p = "Out_Tag (ot_name p) (ot_off p) (ot_attrs p) (ot_children p @ [value_tag item off n v])"
    have "\<forall>c \<in> set cs. ot_off c < off + 1" "ot_off ?p < off + 1" "below (off + 1) ?p"
      using Cons(3-5) by (auto simp: below_def)
    then obtain xs off1 where ih:
      "user_children kind item ns row (Some (length cs)) (Out_Tag un uo ua (cs @ [?p]), off + 1) =
        Inr (Out_Tag un uo ua (cs @ [Out_Tag (ot_name ?p) (ot_off ?p) (ot_attrs ?p) (ot_children ?p @ xs)]), off1)"
      "map plain xs = map (\<lambda>(n, v). In_Tag item [(''name'', n), (''value'', v)] []) (row_values ns row)" "off + 1 \<le> off1"
      using Cons(1) [OF conjunct2 [OF c]] by blast
    have "user_children kind item (n # ns) row (Some (length cs)) (Out_Tag un uo ua (cs @ [p]), off) =
      user_children kind item ns row (Some (length cs)) (Out_Tag un uo ua (cs @ [?p]), off + 1)"
      using added(1) by (simp add: change_last item_added [OF Cons(5)])
    with ih added(2) show ?thesis by (intro exI [of _ "value_tag item off n v # xs"] exI [of _ off1]) simp
  qed
qed

lemma children_added:
  assumes "no_null ns row" "\<forall>c \<in> set (ot_children u). ot_off c < off"
  shows "\<exists>xs off1. user_children kind item ns row None (u, off) =
      Inr (Out_Tag (ot_name u) (ot_off u) (ot_attrs u) (ot_children u @ xs), off1) \<and>
    map plain xs = named_values kind item (row_values ns row) \<and> off \<le> off1 \<and> (\<forall>x \<in> set xs. ot_off x < off1)"
  using assms
proof (induction ns)
  case Nil
  then show ?case by (cases u) (simp add: row_values_def named_values_def)
next
  case (Cons n ns)
  note c = column_given [OF Cons(2)]
  from c consider (skipped) "column n row = Inr None" "row_values (n # ns) row = row_values ns row"
    | (added) v where "column n row = Inr (Some v)" "row_values (n # ns) row = (n, v) # row_values ns row" by blast
  then show ?case
  proof cases
    case skipped
    with Cons(1) [OF conjunct2 [OF c] Cons(3)] show ?thesis by simp
  next
    case added
    let ?p = "Out_Tag kind off [] [value_tag item (off + 1) n v]"
    have b: "below off u" "below (off + 1) (Out_Tag kind off [] [])" using Cons(3) by (auto simp: below_def)
    have "\<forall>c \<in> set (ot_children u). ot_off c < off + 2" "ot_off ?p < off + 2" "below (off + 2) ?p"
      using Cons(3) by (auto simp: below_def)
    then obtain xs off1 where m:
      "user_children kind item ns row (Some (length (ot_children u))) (Out_Tag (ot_name u) (ot_off u) (ot_attrs u) (ot_children u @ [?p]), off + 2) =
        Inr (Out_Tag (ot_name u) (ot_off u) (ot_attrs u) (ot_children u @ [Out_Tag (ot_name ?p) (ot_off ?p) (ot_attrs ?p) (ot_children ?p @ xs)]), off1)"
      "map plain xs = map (\<lambda>(n, v). In_Tag item [(''name'', n), (''value'', v)] []) (row_values ns row)" "off + 2 \<le> off1"
      using more_children [OF conjunct2 [OF c]] by blast
    have "user_children kind item (n # ns) row None (u, off) =
      user_children kind item ns row (Some (length (ot_children u))) (Out_Tag (ot_name u) (ot_off u) (ot_attrs u) (ot_children u @ [?p]), off + 2)"
      using added(1) item_added [OF b(2), where item = item and v = v and n = n] by (simp add: add_below [OF b(1)] change_last)
    with m added(2) show ?thesis
      by (intro exI [of _ "[Out_Tag kind off [] (value_tag item (off + 1) n v # xs)]"] exI [of _ off1])
        (simp add: named_values_def)
  qed
qed

definition row_ok :: "'h so_globals \<Rightarrow> (string \<times> string option) list \<Rightarrow> bool" where
  "row_ok g row \<longleftrightarrow> no_null (so_attrs g) row \<and> no_null (so_params g) row \<and> no_null (so_variables g) row"

lemma user_built:
  assumes "row_ok g row" "ot_off u < off" "ot_name u = ''user''" "ot_attrs u = []" "ot_children u = []"
  shows "\<exists>v off1. build_user g row (u, off) = Inr (v, off1) \<and> plain v = row_user g row \<and> off \<le> off1 \<and> ot_off v = ot_off u"
proof -
  let ?u = "Out_Tag ''user'' (ot_off u) (fold (\<lambda>(n, v) as. set_attr n v as) (row_values (so_attrs g) row) []) []"
  have u: "user_attrs (so_attrs g) row u = Inr ?u" using attrs_set [of "so_attrs g" row u] assms by (simp add: row_ok_def)
  have "\<forall>c \<in> set (ot_children ?u). ot_off c < off" by simp
  then obtain xs off1 where xs: "user_children ''params'' ''param'' (so_params g) row None (?u, off) =
      Inr (Out_Tag (ot_name ?u) (ot_off ?u) (ot_attrs ?u) (ot_children ?u @ xs), off1)"
    "map plain xs = named_values ''params'' ''param'' (row_values (so_params g) row)" "off \<le> off1" "\<forall>x \<in> set xs. ot_off x < off1"
    using children_added [of "so_params g" row ?u off "''params''" "''param''"] assms(1) unfolding row_ok_def by blast
  let ?v = "Out_Tag (ot_name ?u) (ot_off ?u) (ot_attrs ?u) (ot_children ?u @ xs)"
  have "\<forall>c \<in> set (ot_children ?v). ot_off c < off1" using xs(4) by simp
  then obtain ys off2 where ys: "user_children ''variables'' ''variable'' (so_variables g) row None (?v, off1) =
      Inr (Out_Tag (ot_name ?v) (ot_off ?v) (ot_attrs ?v) (ot_children ?v @ ys), off2)"
    "map plain ys = named_values ''variables'' ''variable'' (row_values (so_variables g) row)" "off1 \<le> off2"
    using children_added [of "so_variables g" row ?v off1 "''variables''" "''variable''"] assms(1) unfolding row_ok_def by blast
  have "build_user g row (u, off) = Inr (Out_Tag (ot_name ?v) (ot_off ?v) (ot_attrs ?v) (ot_children ?v @ ys), off2)"
    by (simp only: build_user_def fst_conv snd_conv u sum.case xs(1) ys(1))
  then show ?thesis using xs ys by (simp add: row_user_def)
qed

lemma rows_added:
  assumes "list_all (row_ok g) rows" "below off t"
  shows "\<exists>xs off1. lookup_rows g rows (t, off) =
      Inr (Out_Tag (ot_name t) (ot_off t) (ot_attrs t) (ot_children t @ xs), off1) \<and> map plain xs = map (row_user g) rows"
  using assms
proof (induction rows arbitrary: t off)
  case Nil
  then show ?case by (cases t) simp
next
  case (Cons row rows)
  let ?new = "Out_Tag ''user'' off [] []"
  obtain v off1 where v: "build_user g row (?new, off + 1) = Inr (v, off1)" "plain v = row_user g row" "off + 1 \<le> off1" "ot_off v = off"
    using user_built [of g row ?new "off + 1"] Cons(2) by auto
  let ?t = "Out_Tag (ot_name t) (ot_off t) (ot_attrs t) (ot_children t @ [v])"
  have l: "lookup_callback g row (t, off) = Inr (?t, off1)"
    using v(1) by (simp add: lookup_callback_def add_below [OF Cons(3)] change_last)
  have "below off1 ?t" using Cons(3) v(3,4) by (auto simp: below_def)
  then obtain xs off2 where xs: "lookup_rows g rows (?t, off1) =
      Inr (Out_Tag (ot_name ?t) (ot_off ?t) (ot_attrs ?t) (ot_children ?t @ xs), off2)" "map plain xs = map (row_user g) rows"
    using Cons(1) [of off1 ?t] Cons(2) by auto
  then show ?case using l v(2) by (intro exI [of _ "v # xs"] exI [of _ off2]) simp
qed

definition directory_of :: "string \<Rightarrow> in_tag list \<Rightarrow> in_tag" where
  "directory_of domain users =
     In_Tag ''directory'' [(''type'', ''freeswitch/xml'')]
       [In_Tag ''section'' [(''name'', ''directory'')] [In_Tag ''domain'' [(''name'', domain)] users]]"

lemma search_built:
  assumes "last_header ''domain'' headers = Some domain"
    "tab_find (soe_table env) (so_queries g) (case last_header ''purpose'' headers of None \<Rightarrow> ''default'' | Some p \<Rightarrow> p) = Some query"
    "sq_doc query \<notin> set (so_released g)" "so_rows env g query (soe_expand env headers (sq_value query)) = rows"
    "list_all (row_ok g) rows" "rows \<noteq> []"
  shows "\<exists>out. xml_odbc_simple_search env g True (Some headers) = Inr (Some out) \<and>
    plain out = directory_of domain (map (row_user g) rows)"
proof -
  let ?dom = "Out_Tag ''domain'' 1 [(''name'', domain)] []"
  have "below 2 ?dom" by (simp add: below_def)
  then obtain xs off1 where "lookup_rows g rows (?dom, 2) = Inr (Out_Tag ''domain'' 1 [(''name'', domain)] xs, off1)"
    "map plain xs = map (row_user g) rows"
    using rows_added [OF assms(5)] by fastforce
  then show ?thesis using assms(1-3,6) by (simp add: xml_odbc_simple_search_def assms(4) directory_of_def)
qed

subsection \<open>What becomes of the credentials\<close>

definition no_login :: "'h so_env \<Rightarrow> 'h so_globals \<Rightarrow> bool" where
  "no_login env g \<longleftrightarrow> so_user g = None \<and> so_pass g = None \<and>
     (\<forall>k q. tab_find (soe_table env) (so_queries g) k = Some q \<longrightarrow> sq_user q = None \<and> sq_pass q = None)"

lemma add_query_no_login:
  assumes "table_documented (soe_table env) ks" "no_login env g"
  shows "no_login env (so_add_query env q g)"
  using assms(2) by (cases q) (auto simp: no_login_def so_add_query_def table_documentedD(5) [OF assms(1)] Let_def split: option.splits if_splits)

lemma remove_old_finds:
  assumes "table_documented (soe_table env) ks"
  shows "remove_old env released names xs h = Inr h1 \<Longrightarrow> tab_find (soe_table env) h1 k = Some q \<Longrightarrow>
    tab_find (soe_table env) h k = Some q"
proof (induction xs arbitrary: h)
  case Nil
  then show ?case by simp
next
  case (Cons x xs)
  have "tab_find (soe_table env) (tab_delete (soe_table env) h n) k = Some q \<Longrightarrow> tab_find (soe_table env) h k = Some q" for n
  proof (cases "k = n")
    case True
    have "k \<notin> ks (tab_delete (soe_table env) h n)" using table_documentedD(6) [OF assms] True by simp
    then show "tab_find (soe_table env) (tab_delete (soe_table env) h n) k = Some q \<Longrightarrow> ?thesis"
      using table_documentedD(3) [OF assms] by fastforce
  qed (simp add: table_documentedD(7) [OF assms])
  with Cons show ?case by (auto split: option.splits if_splits)
qed

lemma config_no_login:
  assumes "table_documented (soe_table env) ks" "no_login env g" "so_do_config env settings queries final g = Inr (st, g1)"
  shows "no_login env g1"
proof (cases settings)
  case None
  with assms show ?thesis by (simp add: so_do_config_def)
next
  case (Some s)
  let ?g = "config_callback_separate_string env s (so_callback_dsn (fst (ss_dsn s)) (snd (ss_dsn s)) g)"
  have g: "no_login env ?g"
    using assms(2) by (auto simp: no_login_def config_callback_separate_string_def so_callback_dsn_def Let_def split: option.splits if_splits)
  show ?thesis
  proof (cases queries)
    case None
    with Some g assms(3) show ?thesis by (simp add: so_do_config_def)
  next
    case qs: (Some qs)
    have f: "no_login env (fold (so_add_query env) qs ?g)"
      using g by (induction qs rule: rev_induct) (simp_all add: add_query_no_login [OF assms(1)])
    obtain h where h: "remove_old env (so_released (fold (so_add_query env) qs ?g)) (map fst qs)
        (soe_keys env (so_queries (fold (so_add_query env) qs ?g))) (so_queries (fold (so_add_query env) qs ?g)) = Inr h"
      "so_user g1 = so_user (fold (so_add_query env) qs ?g)" "so_pass g1 = so_pass (fold (so_add_query env) qs ?g)" "so_queries g1 = h"
      using assms(3) Some qs by (auto simp: so_do_config_def Let_def split: sum.splits)
    then show ?thesis using f remove_old_finds [OF assms(1) h(1)] unfolding no_login_def by metis
  qed
qed

lemma config_releases:
  assumes "so_do_config env (Some s) (Some qs) True g = Inr (SWITCH_STATUS_SUCCESS, g1)"
  shows "so_docs g \<in> set (so_released g1)"
proof -
  have d: "so_docs (fold (so_add_query env) xs h) = so_docs h" for xs h
    by (induction xs arbitrary: h) (auto simp: so_add_query_def Let_def split: prod.split option.split)
  have "so_docs (config_callback_separate_string env s (so_callback_dsn (fst (ss_dsn s)) (snd (ss_dsn s)) g)) = so_docs g"
    by (simp add: config_callback_separate_string_def so_callback_dsn_def Let_def split: option.split)
  with d assms show ?thesis by (auto simp: so_do_config_def Let_def split: sum.splits)
qed

subsection \<open>The properties\<close>

text \<open>
  The answer to a search is the directory of the domain with one user for every row, in order: its attributes,
  parameters and variables are the configured columns with a value that is not empty, in the order of the
  configuration, and a group without any is left out.
\<close>

theorem users_from_rows:
  assumes "last_header ''domain'' headers = Some domain"
    "tab_find (soe_table env) (so_queries g) (case last_header ''purpose'' headers of None \<Rightarrow> ''default'' | Some p \<Rightarrow> p) = Some query"
    "sq_doc query \<notin> set (so_released g)" "so_rows env g query (soe_expand env headers (sq_value query)) = rows"
    "list_all (row_ok g) rows" "rows \<noteq> []"
  shows "\<exists>out. xml_odbc_simple_search env g True (Some headers) = Inr (Some out) \<and>
    plain out = directory_of domain (map (row_user g) rows)"
  by (rule search_built [OF assms])

definition so_example :: "((string \<times> so_query option) list) so_env" where
  "so_example =
     \<lparr>soe_table = documented_table, soe_keys = map fst, soe_separate = (\<lambda>t n. split_on (CHR '','') [] t),
      soe_accepts = (\<lambda>d u p. d = Some ''db''),
      soe_query = (\<lambda>q. [[(''id'', Some ''1''), (''password'', Some ''x''), (''cidr'', Some [])], [(''id'', Some ''2''), (''password'', Some [])]]),
      soe_expand = (\<lambda>hs t. t)\<rparr>"

definition so_example_settings :: so_settings where
  "so_example_settings =
     \<lparr>ss_dsn = (Some ''db:me:secret'', True), ss_attrs = (''id,cidr'', True), ss_params = (''password'', True),
      ss_variables = (''user_context'', True)\<rparr>"

definition so_example_state :: "bool \<Rightarrow> ((string \<times> so_query option) list) so_globals" where
  "so_example_state final =
     \<lparr>so_dsn = Some ''db'', so_user = None, so_pass = None, so_attrs = [''id'', ''cidr''], so_params = [''password''],
      so_variables = [''user_context''],
      so_queries = [(''default'', Some \<lparr>sq_name = ''default'', sq_dsn = Some ''db'', sq_user = None, sq_pass = None,
        sq_value = ''SELECT'', sq_doc = 0\<rparr>)],
      so_docs = 1, so_released = (if final then [0] else [])\<rparr>"

lemma so_example_loaded:
  "mod_xml_odbc_simple_load so_example True (Some so_example_settings) (Some [(''default'', None, ''SELECT'')]) True =
     Inr (SWITCH_STATUS_SUCCESS, so_example_state True)"
  "so_do_config so_example (Some so_example_settings) (Some [(''default'', None, ''SELECT'')]) True (so_zeroed so_example) =
     Inr (SWITCH_STATUS_SUCCESS, so_example_state True)"
  by code_simp+

theorem users_from_rows_witness:
  "\<exists>out. xml_odbc_simple_search so_example (so_example_state False) True (Some [(''domain'', ''x.org'')]) = Inr (Some out) \<and>
    plain out = directory_of ''x.org''
      [In_Tag ''user'' [(''id'', ''1'')] [In_Tag ''params'' [] [In_Tag ''param'' [(''name'', ''password''), (''value'', ''x'')] []]],
       In_Tag ''user'' [(''id'', ''2'')] []]"
proof -
  let ?rows = "[[(''id'', Some ''1''), (''password'', Some ''x''), (''cidr'', Some [])], [(''id'', Some ''2''), (''password'', Some [])]]"
  let ?q = "\<lparr>sq_name = ''default'', sq_dsn = Some ''db'', sq_user = None, sq_pass = None, sq_value = ''SELECT'', sq_doc = 0\<rparr>"
  have h: "last_header ''domain'' [(''domain'', ''x.org'')] = Some ''x.org''" by code_simp
  have q: "tab_find (soe_table so_example) (so_queries (so_example_state False))
    (case last_header ''purpose'' [(''domain'', ''x.org'')] of None \<Rightarrow> ''default'' | Some p \<Rightarrow> p) = Some ?q" by code_simp
  have d: "sq_doc ?q \<notin> set (so_released (so_example_state False))" by (simp add: so_example_state_def)
  have r: "so_rows so_example (so_example_state False) ?q (soe_expand so_example [(''domain'', ''x.org'')] (sq_value ?q)) = ?rows"
    by code_simp
  have ok: "list_all (row_ok (so_example_state False)) ?rows"
    by (simp add: row_ok_def no_null_def so_example_state_def)
  have u: "map (row_user (so_example_state False)) ?rows =
    [In_Tag ''user'' [(''id'', ''1'')] [In_Tag ''params'' [] [In_Tag ''param'' [(''name'', ''password''), (''value'', ''x'')] []]],
     In_Tag ''user'' [(''id'', ''2'')] []]" by code_simp
  show ?thesis using users_from_rows [OF h q d r ok] unfolding u by simp
qed

text \<open>
  The user and the password never reach the database: no configuration, however often it is read, sets them in the
  module or in a query.
\<close>

theorem credentials_lost:
  assumes "table_documented (soe_table env) ks" "no_login env g" "so_do_config env settings queries final g = Inr (st, g1)"
  shows "no_login env g1"
  by (rule config_no_login [OF assms])

theorem credentials_lost_witness: "no_login so_example (so_example_state True)"
proof -
  have t: "table_documented (soe_table so_example) (\<lambda>h. fst ` set h)" using documented_table_ok by (simp add: so_example_def)
  have "no_login so_example (so_zeroed so_example)"
    by (simp add: no_login_def so_zeroed_def table_find_new [OF t])
  then show ?thesis by (rule credentials_lost [OF t _ so_example_loaded(2)])
qed

text \<open>
  The strings of a query lie in the document that the configuration frees: when nobody else holds it, a search that finds
  such a query uses freed memory.
\<close>

theorem freed_query_used:
  assumes "so_do_config env (Some s) (Some qs) True g = Inr (SWITCH_STATUS_SUCCESS, g1)"
    "last_header ''domain'' headers = Some domain"
    "tab_find (soe_table env) (so_queries g1) (case last_header ''purpose'' headers of None \<Rightarrow> ''default'' | Some p \<Rightarrow> p) = Some query"
    "sq_doc query = so_docs g"
  shows "xml_odbc_simple_search env g1 True (Some headers) = Inl Use_After_Free"
  using config_releases [OF assms(1)] assms(2-4) by (simp add: xml_odbc_simple_search_def)

theorem freed_query_used_witness:
  "xml_odbc_simple_search so_example (so_example_state True) True (Some [(''domain'', ''x.org'')]) = Inl Use_After_Free"
proof (rule freed_query_used [OF so_example_loaded(2)])
  show "last_header ''domain'' [(''domain'', ''x.org'')] = Some ''x.org''" by code_simp
  show "tab_find (soe_table so_example) (so_queries (so_example_state True))
    (case last_header ''purpose'' [(''domain'', ''x.org'')] of None \<Rightarrow> ''default'' | Some p \<Rightarrow> p) =
    Some \<lparr>sq_name = ''default'', sq_dsn = Some ''db'', sq_user = None, sq_pass = None, sq_value = ''SELECT'', sq_doc = 0\<rparr>"
    by code_simp
qed (simp add: so_zeroed_def)

end
