(* ===== verification/Xml_Radius.thy ===== *)
theory Xml_Radius
  imports Radius Xml_Odbc
begin

text \<open>
  \<open>cparker/mod_xml_radius/mod_xml_radius.c\<close>: a search in the directory or the dialplan is put to a RADIUS server with
  the digest of the SIP request, and the answer is a template of the configuration filled with what the server
  returned.  The trees are those of \<open>Xml_Odbc\<close>; allocations are taken to succeed.
\<close>

subsection \<open>The configuration\<close>

text \<open>
  \<open>xr_released\<close> says that the memory of the templates was freed: they are part of the document that \<open>load_config\<close>
  frees at its end.
\<close>

record xr_globals =
  xr_dictionary :: string
  xr_seqfile :: string
  xr_deadtime :: string
  xr_timeout :: string
  xr_retries :: string
  xr_servers :: "string list"
  xr_templates :: "in_tag list"
  xr_released :: bool

record xr_file =
  xf_bindings :: "string list option"
  xf_templates :: "in_tag list option"
  xf_params :: "(string \<times> string) list"

definition PATH_MAX :: nat where "PATH_MAX = 4096"

definition xr_load_param :: "string \<times> string \<Rightarrow> xr_globals \<times> nat \<Rightarrow> xr_globals \<times> nat" where
  "xr_load_param p s =
     (let (var, val) = p; (g, num_servers) = s
      in if var = ''authserver''
         then (if num_servers < length (xr_servers g)
               then (g\<lparr>xr_servers := (xr_servers g)[num_servers := take 254 val]\<rparr>, num_servers + 1) else (g, num_servers))
         else if var = ''dictionary'' then (g\<lparr>xr_dictionary := take (PATH_MAX - 1) val\<rparr>, num_servers)
         else if var = ''seqfile'' then (g\<lparr>xr_seqfile := take (PATH_MAX - 1) val\<rparr>, num_servers)
         else if var = ''radius_timeout'' then (g\<lparr>xr_timeout := val\<rparr>, num_servers)
         else if var = ''radius_retries'' then (g\<lparr>xr_retries := val\<rparr>, num_servers)
         else if var = ''radius_deadtime'' then (g\<lparr>xr_deadtime := val\<rparr>, num_servers)
         else (g, num_servers))"

text \<open>
  The status, the sections that were bound to the search, and the state.  \<open>server_max\<close> is a constant of the client
  library; \<open>final\<close> says whether \<open>switch_xml_free\<close> gave up the last reference to the document.
\<close>

definition xr_load_config ::
    "nat \<Rightarrow> bool \<Rightarrow> xr_file option \<Rightarrow> xr_globals \<Rightarrow> switch_status \<times> string list \<times> xr_globals" where
  "xr_load_config server_max final file g =
     (let g0 = g\<lparr>xr_timeout := ''5'', xr_retries := ''3'', xr_deadtime := ''0'',
                 xr_seqfile := ''/var/run/radius_auth.seq'',
                 xr_dictionary := ''/usr/local/freeswitch/conf/radius/dictionary'',
                 xr_servers := replicate server_max []\<rparr>
      in case file of
           None \<Rightarrow> (SWITCH_STATUS_TERM, [], g0)
         | Some f \<Rightarrow>
             (case (xf_bindings f, xf_templates f) of
                (None, _) \<Rightarrow> (SWITCH_STATUS_TERM, [], g0)
              | (Some _, None) \<Rightarrow> (SWITCH_STATUS_TERM, [], g0)
              | (Some names, Some templates) \<Rightarrow>
                  (let (g1, num_servers) = fold xr_load_param (xf_params f) (g0\<lparr>xr_templates := templates, xr_released := False\<rparr>, 0);
                       g2 = g1\<lparr>xr_released := final\<rparr>
                   in (if num_servers < 1 then SWITCH_STATUS_TERM else SWITCH_STATUS_SUCCESS, names, g2))))"

definition mod_xml_radius_load ::
    "nat \<Rightarrow> bool \<Rightarrow> xr_file option \<Rightarrow> xr_globals \<Rightarrow> switch_status \<times> string list \<times> xr_globals" where
  "mod_xml_radius_load server_max final file g =
     (case xr_load_config server_max final file g of
        (SWITCH_STATUS_SUCCESS, names, g1) \<Rightarrow> (SWITCH_STATUS_SUCCESS, names, g1)
      | (_, names, g1) \<Rightarrow> (SWITCH_STATUS_TERM, names, g1))"

text \<open>The command: what is written, and whether messages are logged from now on.\<close>

definition xml_radius_function :: "bool \<Rightarrow> string option \<Rightarrow> bool \<Rightarrow> switch_status \<times> string \<times> bool" where
  "xml_radius_function session cmd debug =
     (if session then (SWITCH_STATUS_FALSE, [], debug)
      else (let usage = (SWITCH_STATUS_SUCCESS, ''USAGE: [debug_on|debug_off]'' @ [LF], debug)
            in case cmd of
                 None \<Rightarrow> usage
               | Some c \<Rightarrow>
                   if c = [] then usage
                   else if c_strcaseeq c ''debug_on'' then (SWITCH_STATUS_SUCCESS, ''OK'' @ [LF], True)
                   else if c_strcaseeq c ''debug_off'' then (SWITCH_STATUS_SUCCESS, ''OK'' @ [LF], False)
                   else usage))"

subsection \<open>The client\<close>

definition my_radius_init :: "('h, 'p) rc_client \<Rightarrow> xr_globals \<Rightarrow> crash + 'h option" where
  "my_radius_init lib g =
     (case rc_new lib of
        None \<Rightarrow> Inr None
      | Some h0 \<Rightarrow>
          (case rc_config_init lib h0 of
             None \<Rightarrow> (case rc_destroy_null lib of Some e \<Rightarrow> Inl e | None \<Rightarrow> Inr None)
           | Some h1 \<Rightarrow>
               Inr (do {
                 h2 \<leftarrow> rc_add_config lib h1 ''auth_order'' ''radius'' ''mod_xml_radius.c'';
                 h3 \<leftarrow> rc_add_config lib h2 ''seqfile'' (xr_seqfile g) ''mod_xml_radius.c'';
                 h4 \<leftarrow> add_servers lib ''authserver'' ''mod_xml_radius.conf'' (xr_servers g) h3;
                 h5 \<leftarrow> rc_add_config lib h4 ''dictionary'' (xr_dictionary g) ''mod_xml_radius.conf'';
                 h6 \<leftarrow> rc_add_config lib h5 ''radius_deadtime'' (xr_deadtime g) ''mod_xml_radius.conf'';
                 h7 \<leftarrow> rc_add_config lib h6 ''radius_timeout'' (xr_timeout g) ''mod_xml_radius.conf'';
                 h8 \<leftarrow> rc_add_config lib h7 ''radius_retries'' (xr_retries g) ''mod_xml_radius.conf'';
                 rc_read_dictionary lib h8 (rc_conf_str lib h8 ''dictionary'') })))"

subsection \<open>Templates\<close>

text \<open>
  Events: a header by its name, adding one at the end, expanding a text, and \<open>switch_separate_string\<close> of a text at
  \<open>=\<close> into an array of two: the two parts, or else what is left in the text.
\<close>

record 'e xr_event =
  xe_get :: "'e \<Rightarrow> string \<Rightarrow> string option"
  xe_add :: "'e \<Rightarrow> string \<Rightarrow> string \<Rightarrow> 'e"
  xe_expand :: "'e \<Rightarrow> string \<Rightarrow> string"
  xe_separate :: "string \<Rightarrow> (string \<times> string) + string"

text \<open>
  \<open>*off++\<close> reads the offset and moves the pointer, not the number: the tags \<open>k\<close> levels below read what lies \<open>k\<close>
  numbers behind the variable.  \<open>behind\<close> is this memory, with the variable itself at 0; the offset is a \<open>size_t\<close>.
\<close>

definition off_at :: "(nat \<Rightarrow> int) \<Rightarrow> nat \<Rightarrow> nat" where
  "off_at behind k = unat (word_of_int (behind k) :: 64 word)"

definition expand_attrs :: "'e xr_event \<Rightarrow> 'e \<Rightarrow> (string \<times> string) list \<Rightarrow> out_tag \<Rightarrow> out_tag" where
  "expand_attrs ops e as t = fold (\<lambda>(n, v) t. set_tag_attr n (xe_expand ops e v) t) as t"

fun xml_radius_expand_tag :: "'e xr_event \<Rightarrow> 'e \<Rightarrow> (nat \<Rightarrow> int) \<Rightarrow> nat \<Rightarrow> in_tag \<Rightarrow> out_tag \<Rightarrow> out_tag"
  and expand_children :: "'e xr_event \<Rightarrow> 'e \<Rightarrow> (nat \<Rightarrow> int) \<Rightarrow> nat \<Rightarrow> in_tag list \<Rightarrow> out_tag \<Rightarrow> out_tag" where
  "xml_radius_expand_tag ops e behind k (In_Tag n as cs) t =
     (if ot_name t = [] then expand_children ops e behind k cs (expand_attrs ops e as (set_tag_name n t))
      else (let (t1, i) = add_child_d n (off_at behind k) t
            in change_child i (\<lambda>c. expand_children ops e behind (Suc k) cs (expand_attrs ops e as c)) t1))"
| "expand_children ops e behind k [] t = t"
| "expand_children ops e behind k (c # cs) t =
     expand_children ops e behind k cs (xml_radius_expand_tag ops e behind k c t)"

fun xml_radius_expand_template ::
    "'e xr_event \<Rightarrow> 'e \<Rightarrow> (nat \<Rightarrow> int) \<Rightarrow> string \<Rightarrow> in_tag list \<Rightarrow> out_tag \<Rightarrow> switch_status \<times> out_tag" where
  "xml_radius_expand_template ops e behind name [] t = (SWITCH_STATUS_FALSE, t)"
| "xml_radius_expand_template ops e behind name (tpl # tpls) t =
     (if xml_attr_soft (it_attrs tpl) ''name'' = name
      then (SWITCH_STATUS_SUCCESS, expand_children ops e behind 0 (it_children tpl) t)
      else xml_radius_expand_template ops e behind name tpls t)"

subsection \<open>A search\<close>

text \<open>The attributes of the request in their order; those without a value are left out.  \<open>None\<close>: headers are missing.\<close>

definition digest_request :: "'e xr_event \<Rightarrow> 'e \<Rightarrow> (rad_attr \<times> string option) list option" where
  "digest_request ops e =
     (let get = xe_get ops e;
          digest_algorithm = (case get ''sip_auth_algorithm'' of None \<Rightarrow> ''MD5'' | Some a \<Rightarrow> a)
      in case (get ''Core-UUID'', get ''sip_auth_response'', get ''sip_auth_realm'', get ''sip_auth_nonce'',
               get ''sip_auth_method'', get ''sip_auth_uri'', get ''sip_auth_username'') of
           (Some uuid_str, Some digest_response, Some digest_realm, Some digest_nonce, Some digest_method,
            Some digest_uri, Some digest_username) \<Rightarrow>
             Some [(PW_ACCT_SESSION_ID, Some uuid_str), (PW_USER_NAME, Some (digest_username @ ''@'' @ digest_realm)),
               (PW_DIGEST_RESPONSE, Some digest_response), (PW_DIGEST_REALM, Some digest_realm),
               (PW_DIGEST_NONCE, Some digest_nonce), (PW_DIGEST_CNONCE, get ''sip_auth_cnonce''),
               (PW_DIGEST_METHOD, Some digest_method), (PW_DIGEST_URI, Some digest_uri),
               (PW_DIGEST_ALGORITHM, Some digest_algorithm), (PW_DIGEST_USER_NAME, Some digest_username),
               (PW_DIGEST_QOP, get ''sip_auth_qop''), (PW_DIGEST_NONCE_COUNT, get ''sip_auth_nc'')]
         | _ \<Rightarrow> None)"

fun add_attrs :: "('h, 'p) rc_client \<Rightarrow> 'h \<Rightarrow> (rad_attr \<times> string option) list \<Rightarrow> 'p \<Rightarrow> crash + 'p option" where
  "add_attrs lib h [] send = Inr (Some send)"
| "add_attrs lib h ((a, None) # as) send = add_attrs lib h as send"
| "add_attrs lib h ((a, Some v) # as) send =
     (case rc_avpair_add lib h send a (Avp_Text (Some v)) 0 of
        Inl e \<Rightarrow> Inl e
      | Inr None \<Rightarrow> Inr None
      | Inr (Some send1) \<Rightarrow> add_attrs lib h as send1)"

text \<open>
  A pair the server returned.  \<open>strcmp\<close> is not 0 for every name, since \<open>radius_\<close> is in front of it, so each value
  with a \<open>=\<close> becomes a name and a value.  The name has room for 2041 characters with its NUL; the value is copied
  over itself, characters from the front on.
\<close>

definition received_header :: "'e xr_event \<Rightarrow> string \<times> string \<Rightarrow> crash + string \<times> string" where
  "received_header ops vp =
     (let name = ''radius_'' @ fst vp; value = snd vp
      in if name \<noteq> ''Freeradius-AVPair''
         then (case xe_separate ops value of
                 Inl (n, v) \<Rightarrow> if length n < 2041 then Inr (''radius_'' @ n, v) else Inl Out_Of_Bounds
               | Inr left \<Rightarrow> Inr (name, left))
         else Inr (name, value))"

fun add_received :: "'e xr_event \<Rightarrow> (string \<times> string) list \<Rightarrow> 'e \<Rightarrow> crash + 'e" where
  "add_received ops [] e = Inr e"
| "add_received ops (vp # vps) e =
     (case received_header ops vp of
        Inl c \<Rightarrow> Inl c
      | Inr (n, v) \<Rightarrow> add_received ops vps (xe_add ops e n v))"

text \<open>The two kinds of query have the same number.\<close>

definition XML_RADIUS_DIRECTORY :: nat where "XML_RADIUS_DIRECTORY = 0"
definition XML_RADIUS_DIALPLAN :: nat where "XML_RADIUS_DIALPLAN = 0"

definition query_type :: "string \<Rightarrow> nat option" where
  "query_type section' =
     (if section' = ''directory'' then Some XML_RADIUS_DIRECTORY
      else if section' = ''dialplan'' then Some XML_RADIUS_DIALPLAN else None)"

definition fill_template ::
    "'e xr_event \<Rightarrow> xr_globals \<Rightarrow> (nat \<Rightarrow> int) \<Rightarrow> string \<Rightarrow> 'e \<Rightarrow> crash + out_tag option" where
  "fill_template ops g behind name e =
     (if xr_released g then Inl Use_After_Free
      else Inr (Some (snd (xml_radius_expand_template ops e behind name (xr_templates g) (Out_Tag [] 0 [] [])))))"

text \<open>
  \<open>xml_radius_search\<close>.  Without parameters it goes to its end and destroys an event that was never made.
\<close>

definition xml_radius_search ::
    "('h, 'p) rc_client \<Rightarrow> 'e xr_event \<Rightarrow> (nat \<Rightarrow> int) \<Rightarrow> xr_globals \<Rightarrow> bool \<Rightarrow> string \<Rightarrow> 'e option \<Rightarrow> crash + out_tag option" where
  "xml_radius_search lib ops behind g binding section' params =
     (if \<not> binding then Inr None
      else (case query_type section' of
              None \<Rightarrow> Inr None
            | Some type' \<Rightarrow>
                (case params of
                   None \<Rightarrow> Inl Wild_Pointer
                 | Some e \<Rightarrow>
                     (case digest_request ops e of
                        None \<Rightarrow> Inr None
                      | Some as \<Rightarrow>
                          (case my_radius_init lib g of
                             Inl c \<Rightarrow> Inl c
                           | Inr None \<Rightarrow> Inr None
                           | Inr (Some h) \<Rightarrow>
                               (case add_attrs lib h as (rc_no_pairs lib) of
                                  Inl c \<Rightarrow> Inl c
                                | Inr None \<Rightarrow> Inr None
                                | Inr (Some send) \<Rightarrow>
                                    (case rc_auth lib h send of
                                       Some vps \<Rightarrow>
                                         (case add_received ops vps e of
                                            Inl c \<Rightarrow> Inl c
                                          | Inr e1 \<Rightarrow>
                                              if type' = XML_RADIUS_DIRECTORY then fill_template ops g behind ''directory'' e1
                                              else if type' = XML_RADIUS_DIALPLAN then fill_template ops g behind ''dialplan'' e1
                                              else Inr (Some (Out_Tag [] 0 [] [])))
                                     | None \<Rightarrow> fill_template ops g behind ''not_found'' e)))))))"

subsection \<open>Templates are copied\<close>

text \<open>What a tag of a template stands for.\<close>

definition copied_attrs :: "'e xr_event \<Rightarrow> 'e \<Rightarrow> (string \<times> string) list \<Rightarrow> (string \<times> string) list \<Rightarrow> (string \<times> string) list" where
  "copied_attrs ops e as old = fold (\<lambda>(n, v) l. set_attr n (xe_expand ops e v) l) as old"

fun copy_tag :: "'e xr_event \<Rightarrow> 'e \<Rightarrow> in_tag \<Rightarrow> in_tag" where
  "copy_tag ops e (In_Tag n as cs) = In_Tag n (copied_attrs ops e as []) (map (copy_tag ops e) cs)"

fun named :: "in_tag \<Rightarrow> bool" where
  "named (In_Tag n as cs) \<longleftrightarrow> n \<noteq> [] \<and> list_all named cs"

lemma expand_attrs_tag:
  "expand_attrs ops e as t = Out_Tag (ot_name t) (ot_off t) (copied_attrs ops e as (ot_attrs t)) (ot_children t)"
  by (induction as arbitrary: t) (auto simp: expand_attrs_def copied_attrs_def set_tag_attr_def)

text \<open>
  All children were added with the same offset, the one in memory at the depth, so that each goes behind the others.
\<close>

definition level :: "(nat \<Rightarrow> int) \<Rightarrow> nat \<Rightarrow> out_tag \<Rightarrow> bool" where
  "level behind k t \<longleftrightarrow> (\<forall>c \<in> set (ot_children t). ot_off c = off_at behind k)"

lemma add_at_end:
  assumes "level behind k t"
  shows "add_child_d n (off_at behind k) t =
    (Out_Tag (ot_name t) (ot_off t) (ot_attrs t) (ot_children t @ [Out_Tag n (off_at behind k) [] []]), length (ot_children t))"
proof -
  have w: "takeWhile (\<lambda>c. ot_off c \<le> off_at behind k) (ot_children t) = ot_children t"
    using assms by (simp add: level_def takeWhile_eq_all_conv)
  show ?thesis by (simp only: add_child_d_def Let_def w) simp
qed

lemma children_copied:
  "level behind k t \<Longrightarrow> ot_name t \<noteq> [] \<Longrightarrow> named c \<Longrightarrow>
   \<exists>x. xml_radius_expand_tag ops e behind k c t =
       Out_Tag (ot_name t) (ot_off t) (ot_attrs t) (ot_children t @ [x]) \<and>
     plain x = copy_tag ops e c \<and> ot_off x = off_at behind k"
  "level behind k t \<Longrightarrow> ot_name t \<noteq> [] \<Longrightarrow> list_all named cs \<Longrightarrow>
   \<exists>xs. expand_children ops e behind k cs t =
       Out_Tag (ot_name t) (ot_off t) (ot_attrs t) (ot_children t @ xs) \<and>
     map plain xs = map (copy_tag ops e) cs \<and> (\<forall>x \<in> set xs. ot_off x = off_at behind k)"
proof (induction ops e behind k c t and ops e behind k cs t rule: xml_radius_expand_tag_expand_children.induct)
  case (1 ops e behind k n as cs t)
  let ?new = "Out_Tag n (off_at behind k) [] []"
  let ?a = "expand_attrs ops e as ?new"
  have a: "level behind (Suc k) ?a" "ot_name ?a \<noteq> []" "list_all named cs"
    using 1 by (simp_all add: level_def expand_attrs_tag)
  then obtain xs where xs: "expand_children ops e behind (Suc k) cs ?a =
      Out_Tag (ot_name ?a) (ot_off ?a) (ot_attrs ?a) (ot_children ?a @ xs)" "map plain xs = map (copy_tag ops e) cs"
    using 1(2) [OF 1(4) refl prod.collapse a] by blast
  let ?x = "Out_Tag n (off_at behind k) (copied_attrs ops e as []) xs"
  have "expand_children ops e behind (Suc k) cs ?a = ?x" using xs(1) by (simp add: expand_attrs_tag)
  then have "xml_radius_expand_tag ops e behind k (In_Tag n as cs) t =
      Out_Tag (ot_name t) (ot_off t) (ot_attrs t) (ot_children t @ [?x])"
    using add_at_end [OF 1(3)] 1(4) by (simp add: change_child_def)
  then show ?case using xs(2) by auto
next
  case (2 ops e behind k t)
  then show ?case by (cases t) simp
next
  case (3 ops e behind k c cs t)
  obtain x where x: "xml_radius_expand_tag ops e behind k c t =
       Out_Tag (ot_name t) (ot_off t) (ot_attrs t) (ot_children t @ [x])"
     "plain x = copy_tag ops e c" "ot_off x = off_at behind k"
    using 3 by auto
  then have "level behind k (xml_radius_expand_tag ops e behind k c t)" "ot_name (xml_radius_expand_tag ops e behind k c t) \<noteq> []"
    using 3(3,4) by (simp_all add: level_def)
  with 3(2) 3(5) obtain xs where "expand_children ops e behind k cs (xml_radius_expand_tag ops e behind k c t) =
      Out_Tag (ot_name t) (ot_off t) (ot_attrs t) ((ot_children t @ [x]) @ xs)"
     "map plain xs = map (copy_tag ops e) cs" "\<forall>x \<in> set xs. ot_off x = off_at behind k"
    using x(1) by auto
  then show ?case using x by (intro exI [of _ "x # xs"]) simp
qed

text \<open>The tags of a template: the first one becomes the root, the others are put into it.\<close>

definition template_tree :: "'e xr_event \<Rightarrow> 'e \<Rightarrow> in_tag list \<Rightarrow> in_tag" where
  "template_tree ops e cs =
     (case cs of
        [] \<Rightarrow> In_Tag [] [] []
      | In_Tag n as sub # rest \<Rightarrow> In_Tag n (copied_attrs ops e as []) (map (copy_tag ops e) (sub @ rest)))"

lemma template_expanded:
  assumes "list_all named cs"
  shows "plain (expand_children ops e behind 0 cs (Out_Tag [] 0 [] [])) = template_tree ops e cs"
proof (cases cs)
  case Nil
  then show ?thesis by (simp add: template_tree_def)
next
  case (Cons c rest)
  obtain n as sub where c: "c = In_Tag n as sub" by (cases c)
  let ?a = "expand_attrs ops e as (set_tag_name n (Out_Tag [] 0 [] []))"
  have a: "?a = Out_Tag n 0 (copied_attrs ops e as []) []" by (simp add: expand_attrs_tag set_tag_name_def)
  have named: "n \<noteq> []" "list_all named (sub @ rest)" using assms Cons c by simp_all
  have split: "expand_children ops e behind 0 (xs @ ys) t = expand_children ops e behind 0 ys (expand_children ops e behind 0 xs t)"
    for xs ys t by (induction xs arbitrary: t) simp_all
  have "expand_children ops e behind 0 cs (Out_Tag [] 0 [] []) = expand_children ops e behind 0 (sub @ rest) ?a"
    by (simp only: split) (simp add: Cons c)
  moreover have "level behind 0 ?a" "ot_name ?a \<noteq> []" by (simp_all add: a level_def named)
  then obtain xs where "expand_children ops e behind 0 (sub @ rest) ?a = Out_Tag (ot_name ?a) (ot_off ?a) (ot_attrs ?a) (ot_children ?a @ xs)"
    "map plain xs = map (copy_tag ops e) (sub @ rest)"
    using children_copied(2) [of behind 0 ?a "sub @ rest" ops e] named(2) by blast
  ultimately show ?thesis by (simp add: a template_tree_def Cons c)
qed

lemma template_found:
  assumes "\<forall>t \<in> set tpls. list_all named (it_children t)"
  shows "plain (snd (xml_radius_expand_template ops e behind name tpls (Out_Tag [] 0 [] []))) =
    template_tree ops e (case List.find (\<lambda>t. xml_attr_soft (it_attrs t) ''name'' = name) tpls of None \<Rightarrow> [] | Some t \<Rightarrow> it_children t)"
  using assms by (induction tpls) (auto simp: template_expanded template_tree_def)

subsection \<open>What a search does\<close>

definition given_pairs :: "(rad_attr \<times> string option) list \<Rightarrow> (rad_attr \<times> int \<times> avp_value) list" where
  "given_pairs as = concat (map (\<lambda>(a, v). case v of None \<Rightarrow> [] | Some t \<Rightarrow> [(a, 0, Avp_Text (Some t))]) as)"

lemma attrs_added:
  assumes "pairs_recorded lib pairs" "accepts_pairs lib h"
  shows "\<exists>send1. add_attrs lib h as send = Inr (Some send1) \<and> pairs send1 = pairs send @ given_pairs as"
proof (induction as arbitrary: send)
  case Nil
  then show ?case by (simp add: given_pairs_def)
next
  case (Cons av as)
  obtain a v where av: "av = (a, v)" by fastforce
  show ?case
  proof (cases v)
    case None
    with Cons [of send] show ?thesis by (simp add: av given_pairs_def)
  next
    case (Some t)
    obtain p1 where p1: "rc_avpair_add lib h send a (Avp_Text (Some t)) 0 = Inr (Some p1)"
      using assms(2) unfolding accepts_pairs_def by blast
    with Cons [of p1] Some show ?thesis
      by (simp add: av given_pairs_def pairs_recordedD(2) [OF assms(1) p1])
  qed
qed

definition short_name :: "'e xr_event \<Rightarrow> string \<times> string \<Rightarrow> bool" where
  "short_name ops vp \<longleftrightarrow> (case xe_separate ops (snd vp) of Inl (n, v) \<Rightarrow> length n < 2041 | Inr _ \<Rightarrow> True)"

definition short_names :: "('h, 'p) rc_client \<Rightarrow> 'e xr_event \<Rightarrow> 'h \<Rightarrow> bool" where
  "short_names lib ops h \<longleftrightarrow> (\<forall>send vps. rc_auth lib h send = Some vps \<longrightarrow> list_all (short_name ops) vps)"

definition received_event :: "'e xr_event \<Rightarrow> (string \<times> string) list \<Rightarrow> 'e \<Rightarrow> 'e" where
  "received_event ops vps e =
     fold (\<lambda>vp e. case xe_separate ops (snd vp) of
                    Inl (n, v) \<Rightarrow> xe_add ops e (''radius_'' @ n) v
                  | Inr left \<Rightarrow> xe_add ops e (''radius_'' @ fst vp) left) vps e"

lemma received_added:
  assumes "list_all (short_name ops) vps"
  shows "add_received ops vps e = Inr (received_event ops vps e)"
  using assms
  by (induction vps arbitrary: e) (auto simp: received_header_def short_name_def received_event_def Let_def split: sum.splits)

definition template_tags :: "xr_globals \<Rightarrow> string \<Rightarrow> in_tag list" where
  "template_tags g name =
     (case List.find (\<lambda>t. xml_attr_soft (it_attrs t) ''name'' = name) (xr_templates g) of None \<Rightarrow> [] | Some t \<Rightarrow> it_children t)"

lemma query_type_0: "query_type s = Some k \<Longrightarrow> k = XML_RADIUS_DIRECTORY"
  by (auto simp: query_type_def XML_RADIUS_DIRECTORY_def XML_RADIUS_DIALPLAN_def split: if_splits)

text \<open>A search that reaches the server: up to the template that is filled.\<close>

lemma search_sent:
  assumes "query_type section' \<noteq> None" "digest_request ops e = Some as" "my_radius_init lib g = Inr (Some h)"
    "pairs_recorded lib pairs" "accepts_pairs lib h"
    "short_names lib ops h"
  shows "\<exists>send. pairs send = given_pairs as \<and>
    xml_radius_search lib ops behind g True section' (Some e) =
      (case rc_auth lib h send of
         Some vps \<Rightarrow> fill_template ops g behind ''directory'' (received_event ops vps e)
       | None \<Rightarrow> fill_template ops g behind ''not_found'' e)"
proof -
  have short: "list_all (short_name ops) vps" if "rc_auth lib h send = Some vps" for send vps
    using assms(6) that by (simp add: short_names_def)
  obtain send where send: "add_attrs lib h as (rc_no_pairs lib) = Inr (Some send)" "pairs send = given_pairs as"
    using attrs_added [OF assms(4,5), of as "rc_no_pairs lib"] pairs_recordedD(1) [OF assms(4)] by auto
  obtain k where k: "query_type section' = Some k" "k = XML_RADIUS_DIRECTORY" using assms(1) query_type_0 by blast
  show ?thesis
    by (rule exI [of _ send])
      (auto simp: xml_radius_search_def k assms(2,3) send received_added short split: option.split)
qed

lemma filled:
  assumes "\<not> xr_released g" "\<forall>t \<in> set (xr_templates g). list_all named (it_children t)"
  shows "\<exists>out. fill_template ops g behind name e = Inr (Some out) \<and> plain out = template_tree ops e (template_tags g name)"
  using assms by (simp add: fill_template_def template_tags_def template_found)

lemma search_filled:
  assumes "query_type section' \<noteq> None" "digest_request ops e = Some as" "my_radius_init lib g = Inr (Some h)"
    "pairs_recorded lib pairs" "accepts_pairs lib h"
    "short_names lib ops h"
    "\<not> xr_released g" "\<forall>t \<in> set (xr_templates g). list_all named (it_children t)"
  shows "\<exists>send out. pairs send = given_pairs as \<and>
    xml_radius_search lib ops behind g True section' (Some e) = Inr (Some out) \<and>
    plain out = (case rc_auth lib h send of
         Some vps \<Rightarrow> template_tree ops (received_event ops vps e) (template_tags g ''directory'')
       | None \<Rightarrow> template_tree ops e (template_tags g ''not_found''))"
proof -
  obtain send where send: "pairs send = given_pairs as"
    "xml_radius_search lib ops behind g True section' (Some e) =
      (case rc_auth lib h send of
         Some vps \<Rightarrow> fill_template ops g behind ''directory'' (received_event ops vps e)
       | None \<Rightarrow> fill_template ops g behind ''not_found'' e)"
    using search_sent [where behind = behind, OF assms(1-6)] by blast
  show ?thesis
  proof (cases "rc_auth lib h send")
    case None
    with send filled [OF assms(7,8), of ops behind "''not_found''" e] show ?thesis
      by (intro exI [of _ send]) auto
  next
    case (Some vps)
    with send filled [OF assms(7,8), of ops behind "''directory''" "received_event ops vps e"] show ?thesis
      by (intro exI [of _ send]) auto
  qed
qed

lemma loaded_released: "xr_load_config server_max final (Some f) g = (SWITCH_STATUS_SUCCESS, names, g1) \<Longrightarrow> xr_released g1 = final"
  by (auto simp: xr_load_config_def Let_def split: option.splits prod.splits)

subsection \<open>The properties\<close>

text \<open>
  A search whose headers suffice is answered: the server gets exactly the attributes of the digest in their order; the
  answer is the template for what it says, copied tag by tag in order with its attributes expanded in the event that
  has the values returned, each under its name with radius in front, a value of the form name=value under
  that name.  What lies in memory behind the variable with the offset has no influence.
\<close>

theorem radius_search_answered:
  assumes "query_type section' \<noteq> None" "digest_request ops e = Some as" "my_radius_init lib g = Inr (Some h)"
    "pairs_recorded lib pairs" "accepts_pairs lib h"
    "short_names lib ops h"
    "\<not> xr_released g" "\<forall>t \<in> set (xr_templates g). list_all named (it_children t)"
  shows "\<exists>send out. pairs send = given_pairs as \<and>
    xml_radius_search lib ops behind g True section' (Some e) = Inr (Some out) \<and>
    plain out = (case rc_auth lib h send of
         Some vps \<Rightarrow> template_tree ops (received_event ops vps e) (template_tags g ''directory'')
       | None \<Rightarrow> template_tree ops e (template_tags g ''not_found''))"
  by (rule search_filled [OF assms])

text \<open>A search in the dialplan is answered from the template for the directory: the two kinds have the same number.\<close>

theorem dialplan_answered_from_directory:
  "xml_radius_search lib ops behind g binding ''dialplan'' params = xml_radius_search lib ops behind g binding ''directory'' params"
  by (simp add: xml_radius_search_def query_type_def XML_RADIUS_DIRECTORY_def XML_RADIUS_DIALPLAN_def)

text \<open>
  \<open>load_config\<close> keeps a pointer into the document it frees: if that was the last reference, every search that reaches
  the server uses freed memory.
\<close>

theorem freed_templates_used:
  assumes "xr_load_config server_max True (Some f) g0 = (SWITCH_STATUS_SUCCESS, names, g)"
    "query_type section' \<noteq> None" "digest_request ops e = Some as" "my_radius_init lib g = Inr (Some h)"
    "pairs_recorded lib pairs" "accepts_pairs lib h"
    "short_names lib ops h"
  shows "xml_radius_search lib ops behind g True section' (Some e) = Inl Use_After_Free"
proof -
  obtain send where "xml_radius_search lib ops behind g True section' (Some e) =
      (case rc_auth lib h send of
         Some vps \<Rightarrow> fill_template ops g behind ''directory'' (received_event ops vps e)
       | None \<Rightarrow> fill_template ops g behind ''not_found'' e)"
    using search_sent [where behind = behind, OF assms(2-7)] by blast
  then show ?thesis
    by (simp add: fill_template_def loaded_released [OF assms(1)] split: option.split)
qed

text \<open>
  A configuration with bindings and templates and without a server: the searches are bound, and then the module
  refuses to load, which takes away the code they would call.
\<close>

theorem bound_then_refused:
  assumes "list_all (\<lambda>p. fst p \<noteq> ''authserver'') ps"
  shows "\<exists>g1. mod_xml_radius_load server_max final (Some \<lparr>xf_bindings = Some names, xf_templates = Some tpls, xf_params = ps\<rparr>) g =
    (SWITCH_STATUS_TERM, names, g1)"
proof -
  have "snd (fold xr_load_param ps s) = snd s" for s
    using assms by (induction ps arbitrary: s) (auto simp: xr_load_param_def split: prod.splits)
  then have "\<exists>g1. fold xr_load_param ps (g0, 0) = (g1, 0)" for g0
    by (metis prod.collapse snd_conv)
  then obtain f where "fold xr_load_param ps (g0, 0) = (f g0, 0)" for g0 by metis
  then show ?thesis by (simp add: mod_xml_radius_load_def xr_load_config_def Let_def)
qed

text \<open>Witnesses.\<close>

definition xr_example_event :: "((string \<times> string) list) xr_event" where
  "xr_example_event =
     \<lparr>xe_get = map_of, xe_add = (\<lambda>e n v. e @ [(n, v)]),
      xe_expand = (\<lambda>e t. if t = ''$ip'' then (case map_of e ''radius_ip'' of None \<Rightarrow> [] | Some v \<Rightarrow> v) else t),
      xe_separate = (\<lambda>t. if CHR ''='' \<in> set t
        then Inl (takeWhile (\<lambda>c. c \<noteq> CHR ''='') t, tl (dropWhile (\<lambda>c. c \<noteq> CHR ''='') t)) else Inr t)\<rparr>"

definition xr_example_request :: "(string \<times> string) list" where
  "xr_example_request =
     [(''Core-UUID'', ''u''), (''sip_auth_response'', ''r''), (''sip_auth_realm'', ''x.org''), (''sip_auth_nonce'', ''n''),
      (''sip_auth_method'', ''REGISTER''), (''sip_auth_uri'', ''sip:x.org''), (''sip_auth_username'', ''1000'')]"

definition xr_example_file :: xr_file where
  "xr_example_file =
     \<lparr>xf_bindings = Some [''directory''],
      xf_templates = Some [In_Tag ''template'' [(''name'', ''not_found'')] [],
        In_Tag ''template'' [(''name'', ''directory'')]
          [In_Tag ''section'' [] [In_Tag ''user'' [(''ip'', ''$ip'')] [], In_Tag ''group'' [] []]]],
      xf_params = [(''authserver'', ''radius1''), (''radius_timeout'', ''9'')]\<rparr>"

definition xr_example :: "bool \<Rightarrow> xr_globals" where
  "xr_example released =
     \<lparr>xr_dictionary = ''/usr/local/freeswitch/conf/radius/dictionary'', xr_seqfile = ''/var/run/radius_auth.seq'',
      xr_deadtime = ''0'', xr_timeout = ''9'', xr_retries = ''3'', xr_servers = [''radius1'', []],
      xr_templates = the (xf_templates xr_example_file), xr_released = released\<rparr>"

definition xr_client :: "((string \<times> string) list, (rad_attr \<times> int \<times> avp_value) list) rc_client" where
  "xr_client = documented_client\<lparr>rc_auth := (\<lambda>h p. Some [(''AVPair'', ''ip=1.2.3.4'')])\<rparr>"

definition xr_handle :: "(string \<times> string) list" where
  "xr_handle =
     [(''auth_order'', ''radius''), (''seqfile'', ''/var/run/radius_auth.seq''), (''authserver'', ''radius1''),
      (''dictionary'', ''/usr/local/freeswitch/conf/radius/dictionary''), (''radius_deadtime'', ''0''),
      (''radius_timeout'', ''9''), (''radius_retries'', ''3'')]"

definition xr_sent :: "(rad_attr \<times> string option) list" where
  "xr_sent = the (digest_request xr_example_event xr_example_request)"

lemma xr_example_facts:
  "xr_load_config 2 released (Some xr_example_file) (xr_example False) = (SWITCH_STATUS_SUCCESS, [''directory''], xr_example released)"
  "my_radius_init xr_client (xr_example released) = Inr (Some xr_handle)"
  "digest_request xr_example_event xr_example_request = Some xr_sent"
  "pairs_recorded xr_client id" "accepts_pairs xr_client xr_handle" "short_names xr_client xr_example_event xr_handle"
proof -
  show "xr_load_config 2 released (Some xr_example_file) (xr_example False) = (SWITCH_STATUS_SUCCESS, [''directory''], xr_example released)"
    by (cases released) (simp_all only: , code_simp+)
  show "my_radius_init xr_client (xr_example released) = Inr (Some xr_handle)"
    by (cases released) (simp_all only: , code_simp+)
  have "digest_request xr_example_event xr_example_request \<noteq> None" by code_simp
  then show "digest_request xr_example_event xr_example_request = Some xr_sent" by (simp add: xr_sent_def)
  show "pairs_recorded xr_client id" "accepts_pairs xr_client xr_handle"
    by (auto simp: pairs_recorded_def accepts_pairs_def xr_client_def documented_client_def)
  show "short_names xr_client xr_example_event xr_handle"
    by (simp add: short_names_def short_name_def xr_client_def xr_example_event_def)
qed

theorem radius_search_answered_witness:
  "\<exists>out. xml_radius_search xr_client xr_example_event (\<lambda>k. - int k) (xr_example False) True ''dialplan'' (Some xr_example_request) =
      Inr (Some out) \<and>
    plain out = In_Tag ''section'' [] [In_Tag ''user'' [(''ip'', ''1.2.3.4'')] [], In_Tag ''group'' [] []]"
proof -
  have tree: "template_tree xr_example_event (received_event xr_example_event [(''AVPair'', ''ip=1.2.3.4'')] xr_example_request)
      (template_tags (xr_example False) ''directory'') =
      In_Tag ''section'' [] [In_Tag ''user'' [(''ip'', ''1.2.3.4'')] [], In_Tag ''group'' [] []]"
    by code_simp
  have auth: "rc_auth xr_client h p = Some [(''AVPair'', ''ip=1.2.3.4'')]" for h p by (simp add: xr_client_def)
  have q: "query_type ''dialplan'' \<noteq> None" by code_simp
  have n: "\<forall>t \<in> set (xr_templates (xr_example False)). list_all named (it_children t)" by code_simp
  have "\<not> xr_released (xr_example False)" by (simp add: xr_example_def)
  from radius_search_answered [OF q xr_example_facts(3,2,4-6) this n, of "\<lambda>k. - int k"]
  show ?thesis unfolding auth option.case tree by blast
qed

theorem freed_templates_used_witness:
  "xml_radius_search xr_client xr_example_event (\<lambda>k. 0) (xr_example True) True ''directory'' (Some xr_example_request) =
     Inl Use_After_Free"
proof -
  have q: "query_type ''directory'' \<noteq> None" by code_simp
  show ?thesis by (rule freed_templates_used [OF xr_example_facts(1) q xr_example_facts(3,2,4-6)])
qed

theorem bound_then_refused_witness:
  "\<exists>g1. mod_xml_radius_load 2 False (Some \<lparr>xf_bindings = Some [''directory''], xf_templates = Some [], xf_params = [(''seqfile'', ''/s'')]\<rparr>)
     (xr_example False) = (SWITCH_STATUS_TERM, [''directory''], g1)"
  by (rule bound_then_refused) simp

end
