(* ===== verification/Vm_Originate.thy ===== *)
theory Vm_Originate
  imports Fs_Api C_Format
begin

text \<open>
  \<open>eschmidbauer/mod_voicemail_originate/mod_voicemail_originate.c\<close>: calls a user when a voice message
  was left, again and again until somebody answers or the attempts are used up.  The queue is a table
  of a database; a thread polls it, every call has a thread of its own, and a hook follows the states
  of an answered call.  What these do between two operations others can see is one action; a run is a
  sequence of actions.
\<close>

subsection \<open>The profiles\<close>

record config_profile =
  cp_enabled :: bool
  cp_first_wait :: uint32_t
  cp_wait :: uint32_t
  cp_timeout :: uint32_t
  cp_attempts :: uint32_t
  cp_transfer :: "string option"
  cp_caller_name :: "string option"
  cp_caller_number :: "string option"
  cp_enable_confirm :: bool
  cp_confirm_digits :: "string option"
  cp_confirm_wait :: int
  cp_confirm_play_file :: "string option"
  cp_user_variables :: "string option"
  cp_dial_string :: "string option"

datatype vm_cause = Cause_Success | Cause_Normal_Clearing | Cause_No_Answer | Cause_Originator_Cancel | Cause_Other nat

record user_profile =
  up_confirmed :: bool
  up_cause :: vm_cause
  up_enabled :: bool
  up_first_wait :: int
  up_wait :: int
  up_timeout :: int
  up_attempts :: int
  up_transfer :: "string option"
  up_caller_name :: string
  up_caller_number :: string
  up_enable_confirm :: bool
  up_confirm_digits :: string
  up_confirm_wait :: int
  up_confirm_play_file :: string
  up_dial_string :: "string option"

text \<open>The new profile of a user: zeros from the pool, then the default values.\<close>

definition default_profile :: user_profile where
  "default_profile =
     \<lparr>up_confirmed = True, up_cause = Cause_Other 0, up_enabled = False, up_first_wait = 1, up_wait = 30, up_timeout = 20,
      up_attempts = 1, up_transfer = None, up_caller_name = ''0000000000'', up_caller_number = ''0000000000'',
      up_enable_confirm = False, up_confirm_digits = ''0'', up_confirm_wait = 5000, up_confirm_play_file = [],
      up_dial_string = None\<rparr>"

definition or_else :: "'a option \<Rightarrow> 'a \<Rightarrow> 'a" where
  "or_else x y = (case x of None \<Rightarrow> y | Some z \<Rightarrow> z)"

definition nonzero_or :: "uint32_t \<Rightarrow> int \<Rightarrow> int" where
  "nonzero_or w y = (if w \<noteq> 0 then sint w else y)"

text \<open>What a configured profile gives to the one of the user; its number goes to the name.\<close>

definition apply_config :: "config_profile \<Rightarrow> user_profile \<Rightarrow> user_profile" where
  "apply_config c p =
     p\<lparr>up_enabled := cp_enabled c, up_enable_confirm := cp_enable_confirm c,
       up_caller_name := or_else (cp_caller_number c) (or_else (cp_caller_name c) (up_caller_name p)),
       up_timeout := nonzero_or (cp_timeout c) (up_timeout p),
       up_attempts := nonzero_or (cp_attempts c) (up_attempts p),
       up_wait := nonzero_or (cp_wait c) (up_wait p),
       up_first_wait := nonzero_or (cp_first_wait c) (up_first_wait p),
       up_confirm_digits := or_else (cp_confirm_digits c) (up_confirm_digits p),
       up_confirm_wait := (if cp_confirm_wait c \<noteq> 0 then cp_confirm_wait c else up_confirm_wait p),
       up_confirm_play_file := or_else (cp_confirm_play_file c) (up_confirm_play_file p),
       up_dial_string := (if cp_dial_string c \<noteq> None then cp_dial_string c else up_dial_string p),
       up_transfer := (if cp_transfer c \<noteq> None then cp_transfer c else up_transfer p)\<rparr>"

text \<open>One parameter of the user in the second loop; the variables to pass on are beside the profile.\<close>

definition user_param :: "string \<times> string \<Rightarrow> user_profile \<times> string option \<Rightarrow> user_profile \<times> string option" where
  "user_param v pu =
     (let (var, val) = v; (p, u) = pu; is = c_strcaseeq var
      in if var = [] \<or> val = [] then (p, u)
         else if is ''vm-originate-enabled'' then (p\<lparr>up_enabled := \<not> c_strcaseeq val ''false''\<rparr>, u)
         else if is ''vm-originate-enable-confirm'' then (p\<lparr>up_enable_confirm := c_strcaseeq val ''true''\<rparr>, u)
         else if is ''vm-originate-timeout'' then (p\<lparr>up_timeout := c_atoi val\<rparr>, u)
         else if is ''vm-originate-wait'' then (p\<lparr>up_wait := c_atoi val\<rparr>, u)
         else if is ''vm-originate-first-wait'' then (p\<lparr>up_first_wait := c_atoi val\<rparr>, u)
         else if is ''vm-originate-caller-name'' then (p\<lparr>up_caller_name := val\<rparr>, u)
         else if is ''vm-originate-caller-number'' then (p\<lparr>up_caller_number := val\<rparr>, u)
         else if is ''vm-originate-dial-string'' then (p\<lparr>up_dial_string := Some val\<rparr>, u)
         else if is ''vm-originate-transfer'' then (p\<lparr>up_transfer := Some val\<rparr>, u)
         else if is ''vm-originate-user-variables'' then (p, Some val)
         else if is ''vm-originate-attempts'' then (p\<lparr>up_attempts := c_atoi val\<rparr>, u)
         else if is ''vm-originate-confirm-digits'' then (p\<lparr>up_confirm_digits := val\<rparr>, u)
         else if is ''vm-originate-confirm-wait'' then (p\<lparr>up_confirm_wait := c_atoi val\<rparr>, u)
         else if is ''vm-originate-confirm-play-file'' then (p\<lparr>up_confirm_play_file := val\<rparr>, u)
         else (p, u))"

text \<open>
  A user of the directory: the parameters and the variables.  The configuration file is what
  \<open>load_profile\<close> makes of a profile of that name, and the table of the profiles is the core's.
\<close>

record vm_user =
  vu_params :: "(string \<times> string) list"
  vu_variables :: "(string \<times> string) list"

record 'h vm_env =
  ve_api :: fs_api
  ve_user :: "string \<Rightarrow> string \<Rightarrow> vm_user option"
  ve_config :: "string \<Rightarrow> config_profile option"
  ve_table :: "('h, config_profile) fs_table"
  ve_false :: "string \<Rightarrow> bool"

definition load_profile :: "'h vm_env \<Rightarrow> string \<Rightarrow> 'h \<Rightarrow> config_profile option \<times> 'h" where
  "load_profile env name h =
     (case ve_config env name of
        None \<Rightarrow> (None, h)
      | Some c \<Rightarrow> (Some c, tab_insert (ve_table env) h name (Some c)))"

definition get_profile :: "'h vm_env \<Rightarrow> string \<Rightarrow> 'h \<Rightarrow> config_profile option \<times> 'h" where
  "get_profile env name h =
     (case tab_find (ve_table env) h name of
        Some c \<Rightarrow> (Some c, h)
      | None \<Rightarrow> load_profile env name h)"

text \<open>One parameter of the user in the first loop.\<close>

definition profile_param ::
    "'h vm_env \<Rightarrow> string \<times> string \<Rightarrow> user_profile \<times> string option \<times> 'h \<Rightarrow> user_profile \<times> string option \<times> 'h" where
  "profile_param env v puh =
     (let (var, val) = v; (p, u, h) = puh
      in if var = [] \<or> val = [] \<or> \<not> c_strcaseeq var ''vm-originate-profile'' then (p, u, h)
         else (case get_profile env val h of
                 (None, h1) \<Rightarrow> (p, u, h1)
               | (Some c, h1) \<Rightarrow> (apply_config c p, if cp_user_variables c \<noteq> None then cp_user_variables c else u, h1)))"

text \<open>\<open>set_user_profile\<close>: the profile, the headers for the call and the table of the profiles.\<close>

definition set_user_profile ::
    "'h vm_env \<Rightarrow> string \<Rightarrow> string \<Rightarrow> bool \<Rightarrow> 'h \<Rightarrow> (user_profile \<times> (string \<times> string) list) option \<times> 'h" where
  "set_user_profile env user domain event h =
     (case ve_user env user domain of
        None \<Rightarrow> (None, h)
      | Some x \<Rightarrow>
          (case fold (profile_param env) (vu_params x) (default_profile, None, h) of
             (p1, u1, h1) \<Rightarrow>
               (case fold user_param (vu_params x) (p1, u1) of
                  (p, u) \<Rightarrow>
                    let vars = (case u of
                          None \<Rightarrow> []
                        | Some s \<Rightarrow>
                            if event
                            then concat (map (\<lambda>(var, val).
                                if var = [] \<or> val = [] then []
                                else map (\<lambda>_. (var, val)) (filter (c_strcaseeq var) (fs_separate_string (ve_api env) s (CHR '','') 256)))
                              (vu_variables x))
                            else [])
                    in (Some (p, vars), h1))))"

subsection \<open>The queue\<close>

text \<open>The rows of the table, the statements of the module and what they do by the rules of SQL.\<close>

datatype originate_state = WAIT_FOR_NEXT_ATTEMPT | CALL_IN_PROGRESS

record vm_row =
  vr_user :: string
  vr_domain :: string
  vr_state :: originate_state
  vr_created :: int
  vr_next :: int
  vr_count :: int

datatype vm_sql =
    Sql_Delete string string
  | Sql_Progress string string
  | Sql_Wait int string string
  | Sql_Insert string string int int

definition of_user :: "string \<Rightarrow> string \<Rightarrow> vm_row \<Rightarrow> bool" where
  "of_user user domain r \<longleftrightarrow> vr_user r = user \<and> vr_domain r = domain"

fun vm_exec :: "vm_sql \<Rightarrow> vm_row list \<Rightarrow> vm_row list" where
  "vm_exec (Sql_Delete u d) rows = filter (\<lambda>r. \<not> of_user u d r) rows"
| "vm_exec (Sql_Progress u d) rows =
     map (\<lambda>r. if of_user u d r then r\<lparr>vr_state := CALL_IN_PROGRESS, vr_count := vr_count r + 1\<rparr> else r) rows"
| "vm_exec (Sql_Wait next u d) rows =
     map (\<lambda>r. if of_user u d r then r\<lparr>vr_state := WAIT_FOR_NEXT_ATTEMPT, vr_next := next\<rparr> else r) rows"
| "vm_exec (Sql_Insert u d created next) rows =
     rows @ [\<lparr>vr_user = u, vr_domain = d, vr_state = WAIT_FOR_NEXT_ATTEMPT, vr_created = created, vr_next = next, vr_count = 0\<rparr>]"

text \<open>Whether the next accesses to the database succeed; when the list is used up, they do.\<close>

record vm_db =
  vd_rows :: "vm_row list"
  vd_results :: "bool list"

definition vm_access :: "vm_db \<Rightarrow> bool \<times> vm_db" where
  "vm_access db = (case vd_results db of [] \<Rightarrow> (True, db) | b # bs \<Rightarrow> (b, db\<lparr>vd_results := bs\<rparr>))"

definition vm_originate_execute_sql :: "vm_sql \<Rightarrow> vm_db \<Rightarrow> bool \<times> vm_db" where
  "vm_originate_execute_sql sql db =
     (let (ok, db1) = vm_access db
      in (ok, if ok then db1\<lparr>vd_rows := vm_exec sql (vd_rows db1)\<rparr> else db1))"

text \<open>The number of rows of a user as \<open>atoi\<close> reads it; \<open>junk\<close> is read from the buffer when the query fails.\<close>

definition vm_originate_execute_sql2str :: "int \<Rightarrow> string \<Rightarrow> string \<Rightarrow> vm_db \<Rightarrow> int \<times> vm_db" where
  "vm_originate_execute_sql2str junk user domain db =
     (let (ok, db1) = vm_access db
      in (if ok then int (length (filter (of_user user domain) (vd_rows db1))) else junk, db1))"

definition vm_delete :: "string \<Rightarrow> string \<Rightarrow> vm_db \<Rightarrow> vm_db" where
  "vm_delete u d db = snd (vm_originate_execute_sql (Sql_Delete u d) db)"
subsection \<open>Threads, calls and hooks\<close>

text \<open>
  What a thread of a call has done: it is about to look up the user, has started the call with the
  profile at an address and the words of the transfer, has an answered call, or is done.
\<close>

record vm_helper =
  vh_user :: string
  vh_domain :: string
  vh_attempt :: int

datatype vm_pc = Starting | Originating nat "string list" | Confirming nat "string list" | Finished

record vm_call =
  vc_dial_string :: string
  vc_timeout :: int
  vc_caller_name :: string
  vc_user :: string
  vc_headers :: "(string \<times> string) list"

record vm_session =
  vx_user :: string
  vx_domain :: string
  vx_attempts :: int
  vx_profile :: nat
  vx_hooked :: bool

text \<open>
  The state: the queue, the table of the profiles, the profiles of users in memory, the threads, the
  sessions with the hook, and what went out: the calls started, the transfers and the hangups.
\<close>

record 'h vm_state =
  vs_db :: vm_db
  vs_table :: 'h
  vs_heap :: "nat \<Rightarrow> user_profile option"
  vs_next :: nat
  vs_threads :: "(vm_helper \<times> vm_pc) list"
  vs_sessions :: "vm_session list"
  vs_calls :: "vm_call list"
  vs_transfers :: "string list list"
  vs_hangups :: "string list"

text \<open>\<open>mod_voicemail_originate_runtime\<close>, one round, with \<open>originate_callback\<close>.\<close>

definition due :: "int \<Rightarrow> vm_row \<Rightarrow> bool" where
  "due now r \<longleftrightarrow> vr_next r \<le> now \<and> vr_state r = WAIT_FOR_NEXT_ATTEMPT"

definition originate_callback :: "vm_row \<Rightarrow> vm_helper \<times> vm_pc" where
  "originate_callback r = (\<lparr>vh_user = vr_user r, vh_domain = vr_domain r, vh_attempt = vr_count r\<rparr>, Starting)"

definition vm_poll :: "int \<Rightarrow> 'h vm_state \<Rightarrow> 'h vm_state" where
  "vm_poll now st =
     (let (ok, db1) = vm_access (vs_db st)
      in st\<lparr>vs_db := db1,
            vs_threads := vs_threads st @
              (if ok then map originate_callback (filter (due now) (vd_rows db1)) else [])\<rparr>)"

text \<open>\<open>originate_call_thread_run\<close> up to the call.\<close>

definition originate_headers :: "vm_helper \<Rightarrow> (string \<times> string) list \<Rightarrow> (string \<times> string) list" where
  "originate_headers h vars =
     vars @ [(''ignore_early_media'', ''true''), (''vm_originate_account'', vh_user h @ ''@'' @ vh_domain h),
       (''vm_originate_user'', vh_user h), (''vm_originate_domain'', vh_domain h),
       (''vm_originate_attempts'', c_int_text (vh_attempt h))]"

definition given :: "string option \<Rightarrow> bool" where
  "given s \<longleftrightarrow> s \<noteq> None \<and> s \<noteq> Some []"

definition originate_begin :: "'h vm_env \<Rightarrow> vm_helper \<Rightarrow> 'h vm_state \<Rightarrow> vm_pc \<times> 'h vm_state" where
  "originate_begin env h st =
     (case set_user_profile env (vh_user h) (vh_domain h) True (vs_table st) of
        (None, t) \<Rightarrow> (Finished, st\<lparr>vs_table := t, vs_db := vm_delete (vh_user h) (vh_domain h) (vs_db st)\<rparr>)
      | (Some (p, vars), t) \<Rightarrow>
          (let a = vs_next st;
               st1 = st\<lparr>vs_table := t, vs_heap := (vs_heap st)(a \<mapsto> p), vs_next := a + 1\<rparr>
           in if \<not> up_enabled p \<or> up_attempts p \<le> vh_attempt h
              then (Finished, st1\<lparr>vs_db := vm_delete (vh_user h) (vh_domain h) (vs_db st1)\<rparr>)
              else if given (up_dial_string p) \<and> given (up_transfer p)
              then (case vm_originate_execute_sql (Sql_Progress (vh_user h) (vh_domain h)) (vs_db st1) of
                      (ok, db1) \<Rightarrow>
                        if \<not> ok then (Finished, st1\<lparr>vs_db := db1\<rparr>)
                        else (Originating a (fs_separate_string (ve_api env) (the (up_transfer p)) (CHR '' '') 3),
                          st1\<lparr>vs_db := db1,
                              vs_heap := (vs_heap st1)(a \<mapsto> p\<lparr>up_cause := Cause_Normal_Clearing, up_confirmed := \<not> up_enable_confirm p\<rparr>),
                              vs_calls := vs_calls st1 @
                                [\<lparr>vc_dial_string = the (up_dial_string p), vc_timeout = up_timeout p,
                                  vc_caller_name = up_caller_name p, vc_user = vh_user h,
                                  vc_headers = originate_headers h vars\<rparr>]\<rparr>))
              else (Finished, st1)))"

text \<open>The call failed with a cause: only two causes are handled.\<close>

definition originate_failed :: "vm_helper \<Rightarrow> nat \<Rightarrow> vm_cause \<Rightarrow> int \<Rightarrow> 'h vm_state \<Rightarrow> crash + 'h vm_state" where
  "originate_failed h a cause now st =
     (case vs_heap st a of
        None \<Rightarrow> Inl Use_After_Free
      | Some p \<Rightarrow>
          (let st1 = st\<lparr>vs_heap := (vs_heap st)(a \<mapsto> p\<lparr>up_cause := cause\<rparr>)\<rparr>
           in Inr (if cause = Cause_Originator_Cancel \<or> cause = Cause_No_Answer \<and> up_attempts p \<le> vh_attempt h + 1
                   then st1\<lparr>vs_db := vm_delete (vh_user h) (vh_domain h) (vs_db st1)\<rparr>
                   else if cause = Cause_No_Answer
                   then st1\<lparr>vs_db := snd (vm_originate_execute_sql (Sql_Wait (now + up_wait p) (vh_user h) (vh_domain h)) (vs_db st1))\<rparr>
                   else st1)))"

text \<open>The call was answered: the hook is there from now on, and runs in the thread of the session.\<close>

definition originate_answered :: "vm_helper \<Rightarrow> nat \<Rightarrow> 'h vm_state \<Rightarrow> crash + 'h vm_state" where
  "originate_answered h a st =
     (case vs_heap st a of
        None \<Rightarrow> Inl Use_After_Free
      | Some p \<Rightarrow>
          Inr (st\<lparr>vs_heap := (vs_heap st)(a \<mapsto> p\<lparr>up_cause := Cause_Success\<rparr>),
                  vs_sessions := vs_sessions st @
                    [\<lparr>vx_user = vh_user h, vx_domain = vh_domain h, vx_attempts = vh_attempt h, vx_profile = a, vx_hooked = True\<rparr>]\<rparr>))"

text \<open>Asking for the confirmation, of which \<open>digits\<close> are entered, and the transfer.\<close>

definition originate_confirm :: "nat \<Rightarrow> string list \<Rightarrow> string \<Rightarrow> bool \<Rightarrow> 'h vm_state \<Rightarrow> crash + 'h vm_state" where
  "originate_confirm a words digits collected st =
     (case vs_heap st a of
        None \<Rightarrow> Inl Use_After_Free
      | Some p \<Rightarrow>
          Inr (st\<lparr>vs_heap := (vs_heap st)(a \<mapsto>
                    (if up_enable_confirm p then p\<lparr>up_confirmed := (collected \<and> digits = up_confirm_digits p)\<rparr> else p)),
                  vs_transfers := vs_transfers st @ [words]\<rparr>))"

text \<open>\<open>state_handler\<close>, called for every change of the state of the channel.\<close>

definition state_handler :: "nat \<Rightarrow> bool \<Rightarrow> int \<Rightarrow> 'h vm_state \<Rightarrow> crash + 'h vm_state" where
  "state_handler k hangup now st =
     (let s = vs_sessions st ! k
      in case vs_heap st (vx_profile s) of
           None \<Rightarrow> Inl Use_After_Free
         | Some p \<Rightarrow>
             (let removed = st\<lparr>vs_sessions := (vs_sessions st)[k := s\<lparr>vx_hooked := False\<rparr>],
                               vs_heap := (vs_heap st)(vx_profile s := None)\<rparr>
              in Inr (if up_attempts p \<le> vx_attempts s + 1 \<or> up_confirmed p \<and> up_cause p = Cause_Success
                      then removed\<lparr>vs_db := vm_delete (vx_user s) (vx_domain s) (vs_db st)\<rparr>
                      else if hangup
                      then removed\<lparr>vs_db := snd (vm_originate_execute_sql
                             (Sql_Wait (now + up_wait p) (vx_user s) (vx_domain s)) (vs_db st))\<rparr>
                      else st)))"

text \<open>\<open>queue_originate_event\<close>, for the events of both handlers.\<close>

definition queue_originate_event ::
    "'h vm_env \<Rightarrow> int \<Rightarrow> string option \<Rightarrow> string option \<Rightarrow> string option \<Rightarrow> int \<Rightarrow> 'h vm_state \<Rightarrow> 'h vm_state" where
  "queue_originate_event env junk account action status now st =
     (case (account, action, status) of
        (Some acc, Some act, Some sta) \<Rightarrow>
          (case fs_separate_string (ve_api env) acc (CHR ''@'') 2 of
             [user, domain] \<Rightarrow>
               (case set_user_profile env user domain False (vs_table st) of
                  (None, t) \<Rightarrow> st\<lparr>vs_table := t\<rparr>
                | (Some (p, _), t) \<Rightarrow>
                    (let st1 = st\<lparr>vs_table := t\<rparr>
                     in if ve_false env sta then st1\<lparr>vs_hangups := vs_hangups st1 @ [acc]\<rparr>
                        else if c_strcaseeq act ''NEW''
                        then (case vm_originate_execute_sql2str junk user domain (vs_db st1) of
                                (n, db1) \<Rightarrow>
                                  st1\<lparr>vs_db := snd (vm_originate_execute_sql (Sql_Insert user domain now (now + up_first_wait p))
                                    (if n > 0 then vm_delete user domain db1 else db1))\<rparr>)
                        else st1))
           | _ \<Rightarrow> st)
      | _ \<Rightarrow> st)"

subsection \<open>Runs\<close>

datatype vm_action =
    Poll int
  | Begin nat
  | Failed nat vm_cause int
  | Answered nat
  | Confirm nat string bool
  | State nat bool int
  | Event "string option" "string option" "string option" int

definition set_pc :: "nat \<Rightarrow> vm_pc \<Rightarrow> 'h vm_state \<Rightarrow> 'h vm_state" where
  "set_pc i pc st = st\<lparr>vs_threads := (vs_threads st)[i := (fst (vs_threads st ! i), pc)]\<rparr>"

text \<open>An action of a thread that is not there, or not at this point, does nothing.\<close>

fun vm_act :: "'h vm_env \<Rightarrow> int \<Rightarrow> vm_action \<Rightarrow> 'h vm_state \<Rightarrow> crash + 'h vm_state" where
  "vm_act env junk (Poll now) st = Inr (vm_poll now st)"
| "vm_act env junk (Begin i) st =
     (if i < length (vs_threads st) \<and> snd (vs_threads st ! i) = Starting
      then (case originate_begin env (fst (vs_threads st ! i)) st of (pc, st1) \<Rightarrow> Inr (set_pc i pc st1))
      else Inr st)"
| "vm_act env junk (Failed i cause now) st =
     (if i < length (vs_threads st)
      then (case snd (vs_threads st ! i) of
              Originating a words \<Rightarrow> map_sum id (set_pc i Finished) (originate_failed (fst (vs_threads st ! i)) a cause now st)
            | _ \<Rightarrow> Inr st)
      else Inr st)"
| "vm_act env junk (Answered i) st =
     (if i < length (vs_threads st)
      then (case snd (vs_threads st ! i) of
              Originating a words \<Rightarrow> map_sum id (set_pc i (Confirming a words)) (originate_answered (fst (vs_threads st ! i)) a st)
            | _ \<Rightarrow> Inr st)
      else Inr st)"
| "vm_act env junk (Confirm i digits collected) st =
     (if i < length (vs_threads st)
      then (case snd (vs_threads st ! i) of
              Confirming a words \<Rightarrow> map_sum id (set_pc i Finished) (originate_confirm a words digits collected st)
            | _ \<Rightarrow> Inr st)
      else Inr st)"
| "vm_act env junk (State k hangup now) st =
     (if k < length (vs_sessions st) \<and> vx_hooked (vs_sessions st ! k) then state_handler k hangup now st else Inr st)"
| "vm_act env junk (Event account action status now) st =
     Inr (queue_originate_event env junk account action status now st)"

fun vm_run :: "'h vm_env \<Rightarrow> int \<Rightarrow> vm_action list \<Rightarrow> 'h vm_state \<Rightarrow> crash + 'h vm_state" where
  "vm_run env junk [] st = Inr st"
| "vm_run env junk (a # as) st =
     (case vm_act env junk a st of Inl e \<Rightarrow> Inl e | Inr st1 \<Rightarrow> vm_run env junk as st1)"

lemma vm_run_append:
  "vm_run env junk (as @ bs) st = (case vm_run env junk as st of Inl e \<Rightarrow> Inl e | Inr st1 \<Rightarrow> vm_run env junk bs st1)"
  by (induction as arbitrary: st) (auto split: sum.split)
subsection \<open>What a user's profile is\<close>

text \<open>
  The profile without the table of the core: each configured profile is taken from the configuration.
  It is the same as long as the table holds what the configuration gives.
\<close>

definition config_param :: "'h vm_env \<Rightarrow> string \<times> string \<Rightarrow> user_profile \<times> string option \<Rightarrow> user_profile \<times> string option" where
  "config_param env v pu =
     (if fst v = [] \<or> snd v = [] \<or> \<not> c_strcaseeq (fst v) ''vm-originate-profile'' then pu
      else (case ve_config env (snd v) of
              None \<Rightarrow> pu
            | Some c \<Rightarrow> (apply_config c (fst pu), if cp_user_variables c \<noteq> None then cp_user_variables c else snd pu)))"

definition user_result :: "'h vm_env \<Rightarrow> string \<Rightarrow> string \<Rightarrow> bool \<Rightarrow> (user_profile \<times> (string \<times> string) list) option" where
  "user_result env user domain event =
     (case ve_user env user domain of
        None \<Rightarrow> None
      | Some x \<Rightarrow>
          (case fold user_param (vu_params x) (fold (config_param env) (vu_params x) (default_profile, None)) of
             (p, u) \<Rightarrow>
               Some (p, (case u of
                    None \<Rightarrow> []
                  | Some s \<Rightarrow>
                      if event
                      then concat (map (\<lambda>(var, val).
                          if var = [] \<or> val = [] then []
                          else map (\<lambda>_. (var, val)) (filter (c_strcaseeq var) (fs_separate_string (ve_api env) s (CHR '','') 256)))
                        (vu_variables x))
                      else []))))"

definition agrees :: "'h vm_env \<Rightarrow> 'h \<Rightarrow> bool" where
  "agrees env t \<longleftrightarrow> (\<forall>name c. tab_find (ve_table env) t name = Some c \<longrightarrow> ve_config env name = Some c)"

lemma get_profile_agrees:
  assumes "table_documented (ve_table env) ks" "agrees env t"
  shows "\<exists>t'. get_profile env name t = (ve_config env name, t') \<and> agrees env t'"
  using assms(2) unfolding get_profile_def load_profile_def agrees_def
  by (auto simp: table_documentedD(5) [OF assms(1)] split: option.split)

lemma profile_params_agree:
  assumes "table_documented (ve_table env) ks" "agrees env t"
  shows "\<exists>t'. fold (profile_param env) vs (p, u, t) =
    (fst (fold (config_param env) vs (p, u)), snd (fold (config_param env) vs (p, u)), t') \<and> agrees env t'"
  using assms(2)
proof (induction vs arbitrary: p u t)
  case (Cons v vs)
  obtain var val where v: "v = (var, val)" by (cases v)
  obtain t1 where t1: "get_profile env val t = (ve_config env val, t1)" "agrees env t1"
    using get_profile_agrees [OF assms(1) Cons.prems] by blast
  have "profile_param env v (p, u, t) = (fst (config_param env v (p, u)), snd (config_param env v (p, u)),
      if var = [] \<or> val = [] \<or> \<not> c_strcaseeq var ''vm-originate-profile'' then t else t1)"
    using t1 by (cases "ve_config env val") (simp_all add: profile_param_def config_param_def v Let_def)
  moreover have "agrees env (if var = [] \<or> val = [] \<or> \<not> c_strcaseeq var ''vm-originate-profile'' then t else t1)"
    using t1(2) Cons.prems by (simp split: if_split)
  ultimately obtain t2 where
    "profile_param env v (p, u, t) = (fst (config_param env v (p, u)), snd (config_param env v (p, u)), t2)" "agrees env t2"
    by blast
  with Cons.IH [of t2 "fst (config_param env v (p, u))" "snd (config_param env v (p, u))"] show ?case by simp
qed simp

lemma set_user_profile_result:
  assumes "table_documented (ve_table env) ks" "agrees env t"
  shows "\<exists>t'. set_user_profile env user domain event t = (user_result env user domain event, t') \<and> agrees env t'"
proof (cases "ve_user env user domain")
  case None
  with assms(2) show ?thesis by (simp add: set_user_profile_def user_result_def)
next
  case (Some x)
  obtain t1 where "fold (profile_param env) (vu_params x) (default_profile, None, t) =
      (fst (fold (config_param env) (vu_params x) (default_profile, None)),
       snd (fold (config_param env) (vu_params x) (default_profile, None)), t1)" "agrees env t1"
    using profile_params_agree [OF assms] by blast
  with Some show ?thesis
    by (auto simp: set_user_profile_def user_result_def Let_def split: prod.split)
qed

lemma user_result_event:
  "user_result env user domain True = Some (p, vars) \<Longrightarrow> \<exists>vars'. user_result env user domain False = Some (p, vars')"
  by (auto simp: user_result_def split: option.splits prod.splits)

subsection \<open>One round of a call\<close>

lemma db_ready: "vd_results db = [] \<Longrightarrow> vm_access db = (True, db)"
  by (simp add: vm_access_def)

lemma execute_ready:
  "vd_results db = [] \<Longrightarrow> vm_originate_execute_sql sql db = (True, db\<lparr>vd_rows := vm_exec sql (vd_rows db)\<rparr>)"
  by (simp add: vm_originate_execute_sql_def db_ready)

lemma delete_ready: "vd_results db = [] \<Longrightarrow> vm_delete u d db = db\<lparr>vd_rows := filter (\<lambda>r. \<not> of_user u d r) (vd_rows db)\<rparr>"
  by (simp add: vm_delete_def execute_ready)

definition waiting_row :: "string \<Rightarrow> string \<Rightarrow> int \<Rightarrow> int \<Rightarrow> int \<Rightarrow> vm_row" where
  "waiting_row u d created next n =
     \<lparr>vr_user = u, vr_domain = d, vr_state = WAIT_FOR_NEXT_ATTEMPT, vr_created = created, vr_next = next, vr_count = n\<rparr>"

definition placed_call :: "string \<Rightarrow> string \<Rightarrow> user_profile \<Rightarrow> (string \<times> string) list \<Rightarrow> int \<Rightarrow> vm_call" where
  "placed_call u d p vars n =
     \<lparr>vc_dial_string = the (up_dial_string p), vc_timeout = up_timeout p, vc_caller_name = up_caller_name p, vc_user = u,
      vc_headers = vars @ [(''ignore_early_media'', ''true''), (''vm_originate_account'', u @ ''@'' @ d),
        (''vm_originate_user'', u), (''vm_originate_domain'', d), (''vm_originate_attempts'', c_int_text n)]\<rparr>"

text \<open>A user whose calls can be made.\<close>

definition callable :: "user_profile \<Rightarrow> bool" where
  "callable p \<longleftrightarrow> up_enabled p \<and> given (up_dial_string p) \<and> given (up_transfer p)"

definition calling_row :: "string \<Rightarrow> string \<Rightarrow> int \<Rightarrow> int \<Rightarrow> int \<Rightarrow> vm_row" where
  "calling_row u d created next n = (waiting_row u d created next n)\<lparr>vr_state := CALL_IN_PROGRESS, vr_count := n + 1\<rparr>"

definition vm_waiting :: "'h vm_env \<Rightarrow> string \<Rightarrow> string \<Rightarrow> int \<Rightarrow> int \<Rightarrow> int \<Rightarrow> 'h vm_state \<Rightarrow> bool" where
  "vm_waiting env u d created next n st \<longleftrightarrow>
     agrees env (vs_table st) \<and> vd_results (vs_db st) = [] \<and> vd_rows (vs_db st) = [waiting_row u d created next n]"

definition helper :: "string \<Rightarrow> string \<Rightarrow> int \<Rightarrow> vm_helper" where
  "helper u d n = \<lparr>vh_user = u, vh_domain = d, vh_attempt = n\<rparr>"

definition called_profile :: "user_profile \<Rightarrow> user_profile" where
  "called_profile p = p\<lparr>up_cause := Cause_Normal_Clearing, up_confirmed := \<not> up_enable_confirm p\<rparr>"

text \<open>The state after a row was polled and its thread made the call.\<close>

definition call_made :: "'h vm_env \<Rightarrow> string \<Rightarrow> string \<Rightarrow> int \<Rightarrow> int \<Rightarrow> int \<Rightarrow> user_profile \<Rightarrow> (string \<times> string) list \<Rightarrow>
    'h vm_state \<Rightarrow> 'h vm_state \<Rightarrow> bool" where
  "call_made env u d created next n p vars st st2 \<longleftrightarrow>
     agrees env (vs_table st2) \<and> vd_results (vs_db st2) = [] \<and> vd_rows (vs_db st2) = [calling_row u d created next n] \<and>
     vs_threads st2 = vs_threads st @
       [(helper u d n, Originating (vs_next st) (fs_separate_string (ve_api env) (the (up_transfer p)) (CHR '' '') 3))] \<and>
     vs_heap st2 (vs_next st) = Some (called_profile p) \<and> vs_sessions st2 = vs_sessions st \<and>
     vs_calls st2 = vs_calls st @ [placed_call u d p vars n] \<and> vs_transfers st2 = vs_transfers st"

lemma polled:
  "vm_waiting env u d created next n st \<Longrightarrow> next \<le> t \<Longrightarrow>
   vm_poll t st = st\<lparr>vs_threads := vs_threads st @ [(helper u d n, Starting)]\<rparr>"
  by (simp add: vm_waiting_def vm_poll_def db_ready due_def originate_callback_def waiting_row_def helper_def)

lemma begun:
  assumes "table_documented (ve_table env) ks" "vm_waiting env u d created next n st"
    "user_result env u d True = Some (p, vars)" "callable p" "n < up_attempts p"
  shows "\<exists>t'. agrees env t' \<and> originate_begin env (helper u d n) (st\<lparr>vs_threads := ths\<rparr>) =
    (Originating (vs_next st) (fs_separate_string (ve_api env) (the (up_transfer p)) (CHR '' '') 3),
     st\<lparr>vs_threads := ths, vs_table := t', vs_heap := (vs_heap st)(vs_next st \<mapsto> called_profile p), vs_next := vs_next st + 1,
        vs_db := (vs_db st)\<lparr>vd_rows := [calling_row u d created next n]\<rparr>, vs_calls := vs_calls st @ [placed_call u d p vars n]\<rparr>)"
proof -
  obtain t' where t': "set_user_profile env u d True (vs_table st) = (Some (p, vars), t')" "agrees env t'"
    using set_user_profile_result [OF assms(1), of "vs_table st" u d True] assms(2,3) by (auto simp: vm_waiting_def)
  with assms(2,4,5) show ?thesis
    by (intro exI [of _ t'])
      (simp add: originate_begin_def vm_waiting_def helper_def callable_def execute_ready Let_def of_user_def waiting_row_def
        placed_call_def originate_headers_def calling_row_def called_profile_def)
qed

lemma call_made_by_round:
  assumes "table_documented (ve_table env) ks" "vm_waiting env u d created next n st"
    "user_result env u d True = Some (p, vars)" "callable p" "n < up_attempts p" "next \<le> t"
  shows "\<exists>st2. vm_run env junk [Poll t, Begin (length (vs_threads st))] st = Inr st2 \<and> call_made env u d created next n p vars st st2"
proof -
  obtain t' where t': "agrees env t'" "originate_begin env (helper u d n) (st\<lparr>vs_threads := vs_threads st @ [(helper u d n, Starting)]\<rparr>) =
    (Originating (vs_next st) (fs_separate_string (ve_api env) (the (up_transfer p)) (CHR '' '') 3),
     st\<lparr>vs_threads := vs_threads st @ [(helper u d n, Starting)], vs_table := t',
        vs_heap := (vs_heap st)(vs_next st \<mapsto> called_profile p), vs_next := vs_next st + 1,
        vs_db := (vs_db st)\<lparr>vd_rows := [calling_row u d created next n]\<rparr>, vs_calls := vs_calls st @ [placed_call u d p vars n]\<rparr>)"
    using begun [OF assms(1-5), of "vs_threads st @ [(helper u d n, Starting)]"] by blast
  then show ?thesis
    using assms(2) by (simp add: polled [OF assms(2,6)] set_pc_def call_made_def vm_waiting_def)
qed

lemma vm_run_after: "vm_run env junk as st = Inr st1 \<Longrightarrow> vm_run env junk (as @ [a]) st = vm_act env junk a st1"
  by (simp add: vm_run_append split: sum.split)

definition unanswered_round :: "nat \<Rightarrow> int \<times> int \<Rightarrow> vm_action list" where
  "unanswered_round i t = [Poll (fst t), Begin i] @ [Failed i Cause_No_Answer (snd t)]"

lemma unanswered_round_step:
  assumes "table_documented (ve_table env) ks" "vm_waiting env u d created next n st"
    "user_result env u d True = Some (p, vars)" "callable p" "n < up_attempts p" "next \<le> fst t"
  shows "\<exists>st'. vm_run env junk (unanswered_round (length (vs_threads st)) t) st = Inr st' \<and> agrees env (vs_table st') \<and>
    vd_results (vs_db st') = [] \<and> length (vs_threads st') = Suc (length (vs_threads st)) \<and>
    vs_calls st' = vs_calls st @ [placed_call u d p vars n] \<and>
    vd_rows (vs_db st') = (if n + 1 < up_attempts p then [waiting_row u d created (snd t + up_wait p) (n + 1)] else [])"
proof -
  obtain st2 where st2: "vm_run env junk [Poll (fst t), Begin (length (vs_threads st))] st = Inr st2"
    "call_made env u d created next n p vars st st2"
    using call_made_by_round [OF assms] by blast
  have "\<exists>st'. vm_act env junk (Failed (length (vs_threads st)) Cause_No_Answer (snd t)) st2 = Inr st' \<and> agrees env (vs_table st') \<and>
    vd_results (vs_db st') = [] \<and> length (vs_threads st') = Suc (length (vs_threads st)) \<and>
    vs_calls st' = vs_calls st @ [placed_call u d p vars n] \<and>
    vd_rows (vs_db st') = (if n + 1 < up_attempts p then [waiting_row u d created (snd t + up_wait p) (n + 1)] else [])"
    using st2(2)
    by (simp add: call_made_def originate_failed_def set_pc_def nth_append helper_def
        called_profile_def delete_ready execute_ready of_user_def calling_row_def waiting_row_def Let_def)
  then show ?thesis unfolding unanswered_round_def vm_run_after [OF st2(1)] .
qed

text \<open>The rounds of a call that is never answered, by the times of the poll and of the failure.\<close>

fun unanswered_rounds :: "nat \<Rightarrow> (int \<times> int) list \<Rightarrow> vm_action list" where
  "unanswered_rounds i [] = []"
| "unanswered_rounds i (t # ts) = unanswered_round i t @ unanswered_rounds (Suc i) ts"

fun in_time :: "int \<Rightarrow> int \<Rightarrow> (int \<times> int) list \<Rightarrow> bool" where
  "in_time wait next [] = True"
| "in_time wait next (t # ts) \<longleftrightarrow> next \<le> fst t \<and> in_time wait (snd t + wait) ts"

lemma unanswered_rounds_run:
  assumes "table_documented (ve_table env) ks" "user_result env u d True = Some (p, vars)" "callable p"
    "vm_waiting env u d created next n st" "in_time (up_wait p) next ts" "int (length ts) = up_attempts p - n" "ts \<noteq> []"
  shows "\<exists>st'. vm_run env junk (unanswered_rounds (length (vs_threads st)) ts) st = Inr st' \<and> vd_rows (vs_db st') = [] \<and>
    vs_calls st' = vs_calls st @ map (\<lambda>k. placed_call u d p vars (n + int k)) [0..<length ts]"
  using assms(4-7)
proof (induction ts arbitrary: st n "next")
  case (Cons t ts)
  obtain st1 where st1: "vm_run env junk (unanswered_round (length (vs_threads st)) t) st = Inr st1"
    "agrees env (vs_table st1)" "vd_results (vs_db st1) = []" "length (vs_threads st1) = Suc (length (vs_threads st))"
    "vs_calls st1 = vs_calls st @ [placed_call u d p vars n]"
    "vd_rows (vs_db st1) = (if n + 1 < up_attempts p then [waiting_row u d created (snd t + up_wait p) (n + 1)] else [])"
    using unanswered_round_step [OF assms(1) Cons.prems(1) assms(2,3), of t junk] Cons.prems(2,3) by force
  show ?case
  proof (cases "ts = []")
    case True
    with st1 Cons.prems(3) show ?thesis by (simp add: vm_run_append)
  next
    case False
    with Cons.prems(3) have more: "n + 1 < up_attempts p" by (cases ts) auto
    with st1 have "vm_waiting env u d created (snd t + up_wait p) (n + 1) st1" by (simp add: vm_waiting_def)
    from Cons.IH [OF this] Cons.prems(2,3) False obtain st' where
      "vm_run env junk (unanswered_rounds (Suc (length (vs_threads st))) ts) st1 = Inr st'" "vd_rows (vs_db st') = []"
      "vs_calls st' = vs_calls st1 @ map (\<lambda>k. placed_call u d p vars (n + 1 + int k)) [0..<length ts]"
      by (auto simp: st1(4))
    with st1(1,5) show ?thesis
      by (simp add: vm_run_append upt_conv_Cons map_Suc_upt [symmetric] comp_def ac_simps del: upt_Suc)
  qed
qed simp

lemma queue_new_event:
  assumes "table_documented (ve_table env) ks" "agrees env (vs_table st)" "vd_results (vs_db st) = []"
    "list_all (of_user u d) (vd_rows (vs_db st))" "fs_separate_string (ve_api env) acc (CHR ''@'') 2 = [u, d]"
    "user_result env u d True = Some (p, vars)" "\<not> ve_false env sta" "c_strcaseeq act ''NEW''"
  shows "\<exists>st1. queue_originate_event env junk (Some acc) (Some act) (Some sta) now st = st1 \<and>
    vm_waiting env u d now (now + up_first_wait p) 0 st1 \<and> vs_threads st1 = vs_threads st \<and> vs_calls st1 = vs_calls st"
proof -
  obtain vars' where "user_result env u d False = Some (p, vars')" using user_result_event [OF assms(6)] by blast
  then obtain t' where t': "set_user_profile env u d False (vs_table st) = (Some (p, vars'), t')" "agrees env t'"
    using set_user_profile_result [OF assms(1,2), of u d False] by auto
  have all: "filter (of_user u d) (vd_rows (vs_db st)) = vd_rows (vs_db st)"
    "filter (\<lambda>r. \<not> of_user u d r) (vd_rows (vs_db st)) = []"
    using assms(4) by (auto simp: filter_id_conv list_all_iff)
  show ?thesis
    using t' assms(3,5,7,8) all
    by (simp add: queue_originate_event_def vm_originate_execute_sql2str_def db_ready delete_ready execute_ready Let_def
        vm_waiting_def waiting_row_def)
qed

lemma unanswered_run:
  assumes "table_documented (ve_table env) ks" "agrees env (vs_table st)" "vd_results (vs_db st) = []"
    "list_all (of_user u d) (vd_rows (vs_db st))" "fs_separate_string (ve_api env) acc (CHR ''@'') 2 = [u, d]"
    "user_result env u d True = Some (p, vars)" "\<not> ve_false env sta" "c_strcaseeq act ''NEW''"
    "callable p" "0 < up_attempts p" "int (length ts) = up_attempts p" "in_time (up_wait p) (now + up_first_wait p) ts"
  shows "\<exists>st'. vm_run env junk (Event (Some acc) (Some act) (Some sta) now # unanswered_rounds (length (vs_threads st)) ts) st = Inr st' \<and>
    vd_rows (vs_db st') = [] \<and>
    vs_calls st' = vs_calls st @ map (\<lambda>k. placed_call u d p vars (int k)) [0..<nat (up_attempts p)]"
proof -
  obtain st1 where st1: "queue_originate_event env junk (Some acc) (Some act) (Some sta) now st = st1"
    "vm_waiting env u d now (now + up_first_wait p) 0 st1" "vs_threads st1 = vs_threads st" "vs_calls st1 = vs_calls st"
    using queue_new_event [OF assms(1-8)] by blast
  have "int (length ts) = up_attempts p - 0" "ts \<noteq> []" using assms(10,11) by auto
  from unanswered_rounds_run [OF assms(1,6,9) st1(2) assms(12) this] st1 assms(11)
  show ?thesis by simp (metis add_0 nat_int)
qed

subsection \<open>Calls that are answered\<close>

lemma call_answered:
  assumes "table_documented (ve_table env) ks" "vm_waiting env u d created next n st"
    "user_result env u d True = Some (p, vars)" "callable p" "n < up_attempts p" "next \<le> t"
  shows "\<exists>st3. vm_run env junk ([Poll t, Begin (length (vs_threads st))] @ [Answered (length (vs_threads st))]) st = Inr st3 \<and>
    vd_results (vs_db st3) = [] \<and> vd_rows (vs_db st3) = [calling_row u d created next n] \<and>
    vs_threads st3 = vs_threads st @
       [(helper u d n, Confirming (vs_next st) (fs_separate_string (ve_api env) (the (up_transfer p)) (CHR '' '') 3))] \<and>
    vs_heap st3 (vs_next st) = Some (called_profile p\<lparr>up_cause := Cause_Success\<rparr>) \<and>
    vs_sessions st3 = vs_sessions st @
       [\<lparr>vx_user = u, vx_domain = d, vx_attempts = n, vx_profile = vs_next st, vx_hooked = True\<rparr>] \<and>
    vs_calls st3 = vs_calls st @ [placed_call u d p vars n] \<and> vs_transfers st3 = vs_transfers st"
proof -
  obtain st2 where st2: "vm_run env junk [Poll t, Begin (length (vs_threads st))] st = Inr st2"
    "call_made env u d created next n p vars st st2"
    using call_made_by_round [OF assms] by blast
  then show ?thesis
    unfolding vm_run_after [OF st2(1)]
    by (simp add: call_made_def originate_answered_def set_pc_def nth_append helper_def)
qed

lemma call_answered_confirmed:
  assumes "table_documented (ve_table env) ks" "vm_waiting env u d created next n st"
    "user_result env u d True = Some (p, vars)" "callable p" "n < up_attempts p" "next \<le> t"
    "m = length (vs_threads st)" "k = length (vs_sessions st)"
  shows "\<exists>st'. vm_run env junk ((([Poll t, Begin m] @ [Answered m]) @ [Confirm m digits collected]) @ [State k hangup now]) st = Inr st' \<and>
    vs_transfers st' = vs_transfers st @ [fs_separate_string (ve_api env) (the (up_transfer p)) (CHR '' '') 3] \<and>
    vs_calls st' = vs_calls st @ [placed_call u d p vars n] \<and>
    vd_rows (vs_db st') =
      (if up_attempts p \<le> n + 1 \<or> \<not> up_enable_confirm p \<or> collected \<and> digits = up_confirm_digits p then []
       else if hangup then [waiting_row u d created (now + up_wait p) (n + 1)]
       else [calling_row u d created next n])"
proof -
  obtain st3 where st3: "vm_run env junk ([Poll t, Begin m] @ [Answered m]) st = Inr st3"
    "vd_results (vs_db st3) = []" "vd_rows (vs_db st3) = [calling_row u d created next n]"
    "vs_threads st3 = vs_threads st @
       [(helper u d n, Confirming (vs_next st) (fs_separate_string (ve_api env) (the (up_transfer p)) (CHR '' '') 3))]"
    "vs_heap st3 (vs_next st) = Some (called_profile p\<lparr>up_cause := Cause_Success\<rparr>)"
    "vs_sessions st3 = vs_sessions st @
       [\<lparr>vx_user = u, vx_domain = d, vx_attempts = n, vx_profile = vs_next st, vx_hooked = True\<rparr>]"
    "vs_calls st3 = vs_calls st @ [placed_call u d p vars n]" "vs_transfers st3 = vs_transfers st"
    using call_answered [OF assms(1-6), of junk, folded assms(7)] by blast
  let ?p = "called_profile p\<lparr>up_cause := Cause_Success\<rparr>"
  let ?st4 = "set_pc m Finished (st3\<lparr>vs_heap := (vs_heap st3)(vs_next st \<mapsto>
       (if up_enable_confirm p then ?p\<lparr>up_confirmed := (collected \<and> digits = up_confirm_digits p)\<rparr> else ?p)),
     vs_transfers := vs_transfers st3 @ [fs_separate_string (ve_api env) (the (up_transfer p)) (CHR '' '') 3]\<rparr>)"
  have st4: "vm_run env junk (([Poll t, Begin m] @ [Answered m]) @ [Confirm m digits collected]) st = Inr ?st4"
    unfolding vm_run_after [OF st3(1)]
    by (simp add: st3(4,5) assms(7) nth_append originate_confirm_def called_profile_def)
  show ?thesis
    unfolding vm_run_after [OF st4]
    by (simp add: st3 assms(8) nth_append state_handler_def set_pc_def called_profile_def delete_ready execute_ready of_user_def
        calling_row_def waiting_row_def Let_def)
qed

lemma hook_frees_profile:
  assumes "table_documented (ve_table env) ks" "vm_waiting env u d created next n st"
    "user_result env u d True = Some (p, vars)" "callable p" "n < up_attempts p" "next \<le> t"
    "m = length (vs_threads st)" "k = length (vs_sessions st)" "up_attempts p = n + 1 \<or> \<not> up_enable_confirm p"
  shows "vm_run env junk ((([Poll t, Begin m] @ [Answered m]) @ [State k hangup now]) @ [Confirm m digits collected]) st = Inl Use_After_Free"
proof -
  obtain st3 where st3: "vm_run env junk ([Poll t, Begin m] @ [Answered m]) st = Inr st3"
    "vs_threads st3 = vs_threads st @
       [(helper u d n, Confirming (vs_next st) (fs_separate_string (ve_api env) (the (up_transfer p)) (CHR '' '') 3))]"
    "vs_heap st3 (vs_next st) = Some (called_profile p\<lparr>up_cause := Cause_Success\<rparr>)"
    "vs_sessions st3 = vs_sessions st @
       [\<lparr>vx_user = u, vx_domain = d, vx_attempts = n, vx_profile = vs_next st, vx_hooked = True\<rparr>]"
    using call_answered [OF assms(1-6), of junk, folded assms(7)] by blast
  have "\<exists>st4. vm_act env junk (State k hangup now) st3 = Inr st4 \<and> vs_threads st4 = vs_threads st3 \<and> vs_heap st4 (vs_next st) = None"
    using assms(9) by (auto simp: st3 assms(8) nth_append state_handler_def Let_def called_profile_def)
  then obtain st4 where st4: "vm_run env junk (([Poll t, Begin m] @ [Answered m]) @ [State k hangup now]) st = Inr st4"
    "vs_threads st4 = vs_threads st3" "vs_heap st4 (vs_next st) = None"
    unfolding vm_run_after [OF st3(1)] by blast
  show ?thesis
    unfolding vm_run_after [OF st4(1)] by (simp add: st4 st3 assms(7) nth_append originate_confirm_def)
qed

subsection \<open>What goes wrong in the queue\<close>

lemma polled_again:
  assumes "table_documented (ve_table env) ks" "vm_waiting env u d created next n st"
    "user_result env u d True = Some (p, vars)" "callable p" "n < up_attempts p" "next \<le> t" "next \<le> t'"
    "m = length (vs_threads st)"
  shows "\<exists>st'. vm_run env junk [Poll t, Poll t', Begin m, Begin (Suc m)] st = Inr st' \<and>
    vs_calls st' = vs_calls st @ [placed_call u d p vars n, placed_call u d p vars n] \<and>
    map vr_count (vd_rows (vs_db st')) = [n + 2]"
proof -
  let ?h = "(helper u d n, Starting)" and ?o = "\<lambda>a. Originating a (fs_separate_string (ve_api env) (the (up_transfer p)) (CHR '' '') 3)"
  have twice: "vm_poll t' (vm_poll t st) = st\<lparr>vs_threads := vs_threads st @ [?h, ?h]\<rparr>"
    using polled [OF assms(2,6)] assms(2,7)
    by (simp add: vm_waiting_def vm_poll_def db_ready due_def originate_callback_def waiting_row_def helper_def)
  obtain t1 where t1: "agrees env t1" "originate_begin env (helper u d n) (st\<lparr>vs_threads := vs_threads st @ [?h, ?h]\<rparr>) =
      (?o (vs_next st), st\<lparr>vs_threads := vs_threads st @ [?h, ?h], vs_table := t1,
        vs_heap := (vs_heap st)(vs_next st \<mapsto> called_profile p), vs_next := vs_next st + 1,
        vs_db := (vs_db st)\<lparr>vd_rows := [calling_row u d created next n]\<rparr>, vs_calls := vs_calls st @ [placed_call u d p vars n]\<rparr>)"
    (is "_ = (_, ?st1)")
    using begun [OF assms(1-5), of "vs_threads st @ [?h, ?h]"] by blast
  have st2: "vm_run env junk [Poll t, Poll t', Begin m] st = Inr (set_pc m (?o (vs_next st)) ?st1)"
    using t1(2) by (simp add: twice assms(8) nth_append)
  let ?st2 = "set_pc m (?o (vs_next st)) ?st1"
  obtain t2 where t2: "set_user_profile env u d True t1 = (Some (p, vars), t2)"
    using set_user_profile_result [OF assms(1) t1(1), of u d True] assms(3) by auto
  have started: "originate_begin env (helper u d n) ?st2 = (?o (vs_next st + 1),
      ?st2\<lparr>vs_table := t2, vs_heap := (vs_heap ?st2)(vs_next st + 1 \<mapsto> called_profile p), vs_next := vs_next st + 2,
        vs_db := (vs_db st)\<lparr>vd_rows := [(calling_row u d created next n)\<lparr>vr_count := n + 2\<rparr>]\<rparr>,
        vs_calls := vs_calls st @ [placed_call u d p vars n, placed_call u d p vars n]\<rparr>)" (is "_ = (_, ?st3)")
    using assms(2,4,5) t2
    by (simp add: originate_begin_def vm_waiting_def set_pc_def helper_def callable_def execute_ready Let_def of_user_def
        waiting_row_def calling_row_def placed_call_def originate_headers_def called_profile_def)
  have "vs_threads ?st2 ! Suc m = ?h" "length (vs_threads ?st2) = Suc (Suc m)"
    by (simp_all add: set_pc_def assms(8) nth_append)
  then have "vm_act env junk (Begin (Suc m)) ?st2 = Inr (set_pc (Suc m) (?o (vs_next st + 1)) ?st3)" using started by simp
  with vm_run_after [OF st2, of "Begin (Suc m)"] show ?thesis by (simp add: set_pc_def calling_row_def)
qed

lemma poll_calling: "vd_results (vs_db st) = [] \<Longrightarrow> vd_rows (vs_db st) = [calling_row u d created next n] \<Longrightarrow> vm_poll t st = st"
  by (simp add: vm_poll_def db_ready due_def calling_row_def)

lemma polls_calling:
  "vd_results (vs_db st) = [] \<Longrightarrow> vd_rows (vs_db st) = [calling_row u d created next n] \<Longrightarrow> vm_run env junk (map Poll ts) st = Inr st"
  by (induction ts) (simp_all add: poll_calling)

lemma busy_stays:
  assumes "table_documented (ve_table env) ks" "vm_waiting env u d created next n st"
    "user_result env u d True = Some (p, vars)" "callable p" "n < up_attempts p" "next \<le> t" "m = length (vs_threads st)"
    "cause \<noteq> Cause_No_Answer" "cause \<noteq> Cause_Originator_Cancel"
  shows "\<exists>st'. vm_run env junk (([Poll t, Begin m] @ [Failed m cause now]) @ map Poll ts) st = Inr st' \<and>
    vd_rows (vs_db st') = [calling_row u d created next n] \<and> vs_calls st' = vs_calls st @ [placed_call u d p vars n] \<and>
    length (vs_threads st') = Suc m"
proof -
  obtain st2 where st2: "vm_run env junk [Poll t, Begin m] st = Inr st2" "call_made env u d created next n p vars st st2"
    using call_made_by_round [OF assms(1-6), of junk, folded assms(7)] by blast
  let ?st3 = "set_pc m Finished (st2\<lparr>vs_heap := (vs_heap st2)(vs_next st \<mapsto> called_profile p\<lparr>up_cause := cause\<rparr>)\<rparr>)"
  have st3: "vm_run env junk ([Poll t, Begin m] @ [Failed m cause now]) st = Inr ?st3"
    unfolding vm_run_after [OF st2(1)] using st2(2) assms(7-9)
    by (simp add: call_made_def originate_failed_def nth_append)
  have ready: "vd_results (vs_db ?st3) = []" "vd_rows (vs_db ?st3) = [calling_row u d created next n]"
    using st2(2) by (simp_all add: call_made_def set_pc_def)
  show ?thesis
    unfolding vm_run_append [of env junk "[Poll t, Begin m] @ [Failed m cause now]"] st3 sum.case polls_calling [OF ready]
    using st2(2) assms(7) by (simp add: call_made_def set_pc_def)
qed

text \<open>A user without a dial string or a transfer.\<close>

fun idle_rounds :: "nat \<Rightarrow> int list \<Rightarrow> vm_action list" where
  "idle_rounds i [] = []"
| "idle_rounds i (t # ts) = Poll t # Begin i # idle_rounds (Suc i) ts"

lemma idle_rounds_run:
  assumes "table_documented (ve_table env) ks" "user_result env u d True = Some (p, vars)" "up_enabled p" "n < up_attempts p"
    "\<not> (given (up_dial_string p) \<and> given (up_transfer p))" "vm_waiting env u d created next n st" "\<forall>t\<in>set ts. next \<le> t"
  shows "\<exists>st'. vm_run env junk (idle_rounds (length (vs_threads st)) ts) st = Inr st' \<and> vm_waiting env u d created next n st' \<and>
    vs_calls st' = vs_calls st \<and> length (vs_threads st') = length (vs_threads st) + length ts"
  using assms(6,7)
proof (induction ts arbitrary: st)
  case (Cons t ts)
  let ?m = "length (vs_threads st)" and ?h = "(helper u d n, Starting)"
  obtain t' where t': "set_user_profile env u d True (vs_table st) = (Some (p, vars), t')" "agrees env t'"
    using set_user_profile_result [OF assms(1), of "vs_table st" u d True] Cons.prems(1) assms(2) by (auto simp: vm_waiting_def)
  let ?st1 = "st\<lparr>vs_threads := vs_threads st @ [?h], vs_table := t', vs_heap := (vs_heap st)(vs_next st \<mapsto> p), vs_next := vs_next st + 1\<rparr>"
  have "originate_begin env (helper u d n) (st\<lparr>vs_threads := vs_threads st @ [?h]\<rparr>) = (Finished, ?st1)"
    using t'(1) assms(3-5) by (auto simp add: originate_begin_def helper_def Let_def)
  then have round: "vm_run env junk (idle_rounds ?m (t # ts)) st = vm_run env junk (idle_rounds (Suc ?m) ts) (set_pc ?m Finished ?st1)"
    using polled [OF Cons.prems(1), of t] Cons.prems(2) by simp
  have "vm_waiting env u d created next n (set_pc ?m Finished ?st1)" "length (vs_threads (set_pc ?m Finished ?st1)) = Suc ?m"
    "vs_calls (set_pc ?m Finished ?st1) = vs_calls st"
    using Cons.prems(1) t'(2) by (simp_all add: vm_waiting_def set_pc_def)
  with Cons.IH [of "set_pc ?m Finished ?st1"] Cons.prems(2) show ?case unfolding round by simp
qed simp

subsection \<open>The properties\<close>

text \<open>A user with a profile, whose parameters override it, for the concrete inputs below.\<close>

definition bob_config :: config_profile where
  "bob_config =
     \<lparr>cp_enabled = True, cp_first_wait = 5, cp_wait = 60, cp_timeout = 0, cp_attempts = 3, cp_transfer = Some ''4000 XML default'',
      cp_caller_name = Some ''Voicemail'', cp_caller_number = None, cp_enable_confirm = True, cp_confirm_digits = Some ''1'',
      cp_confirm_wait = 0, cp_confirm_play_file = None, cp_user_variables = None, cp_dial_string = None\<rparr>"

definition bob_env :: "((string \<times> config_profile option) list) vm_env" where
  "bob_env =
     \<lparr>ve_api = documented_api,
      ve_user = (\<lambda>u d. if u = ''bob'' \<and> d = ''x'' then
        Some \<lparr>vu_params = [(''vm-originate-profile'', ''p''), (''vm-originate-attempts'', ''2''), (''vm-originate-dial-string'', ''user/bob'')],
              vu_variables = []\<rparr> else None),
      ve_config = (\<lambda>n. if n = ''p'' then Some bob_config else None), ve_table = documented_table, ve_false = (\<lambda>s. s = ''false'')\<rparr>"

definition bob_profile :: user_profile where
  "bob_profile =
     \<lparr>up_confirmed = True, up_cause = Cause_Other 0, up_enabled = True, up_first_wait = 5, up_wait = 60, up_timeout = 20,
      up_attempts = 2, up_transfer = Some ''4000 XML default'', up_caller_name = ''Voicemail'', up_caller_number = ''0000000000'',
      up_enable_confirm = True, up_confirm_digits = ''1'', up_confirm_wait = 5000, up_confirm_play_file = [],
      up_dial_string = Some ''user/bob''\<rparr>"

definition vm_start :: "vm_row list \<Rightarrow> ((string \<times> config_profile option) list) vm_state" where
  "vm_start rows =
     \<lparr>vs_db = \<lparr>vd_rows = rows, vd_results = []\<rparr>, vs_table = [], vs_heap = Map.empty, vs_next = 0, vs_threads = [], vs_sessions = [],
      vs_calls = [], vs_transfers = [], vs_hangups = []\<rparr>"

lemma bob_result: "user_result bob_env ''bob'' ''x'' True = Some (bob_profile, [])"
  by code_simp

lemma bob_table: "table_documented (ve_table bob_env) (\<lambda>h. fst ` set h)"
  using documented_table_ok by (simp add: bob_env_def)

lemma bob_agrees: "agrees bob_env (vs_table (vm_start rows))"
  by (simp add: agrees_def bob_env_def vm_start_def documented_table_def)

lemma bob_waiting: "vm_waiting bob_env u d c t n (vm_start [waiting_row u d c t n])"
  using bob_agrees by (simp add: vm_waiting_def) (simp add: vm_start_def)

lemma bob_callable: "callable bob_profile"
  by code_simp

lemmas bob_facts = bob_table bob_waiting bob_result bob_callable



text \<open>
  C33:An answered call: the caller is transferred, and afterwards the message leaves the queue when it was
  the last attempt, when no confirmation is asked for, or when the digits were entered; otherwise the
  hangup schedules the next attempt, and other changes of the state leave the call in progress.
\<close>

theorem answered_call_leaves_queue:
  assumes "table_documented (ve_table env) ks" "vm_waiting env u d created next n st"
    "user_result env u d True = Some (p, vars)" "callable p" "n < up_attempts p" "next \<le> t"
    "m = length (vs_threads st)" "k = length (vs_sessions st)"
  shows "\<exists>st'. vm_run env junk ((([Poll t, Begin m] @ [Answered m]) @ [Confirm m digits collected]) @ [State k hangup now]) st = Inr st' \<and>
    vs_transfers st' = vs_transfers st @ [fs_separate_string (ve_api env) (the (up_transfer p)) (CHR '' '') 3] \<and>
    vs_calls st' = vs_calls st @ [placed_call u d p vars n] \<and>
    vd_rows (vs_db st') =
      (if up_attempts p \<le> n + 1 \<or> \<not> up_enable_confirm p \<or> collected \<and> digits = up_confirm_digits p then []
       else if hangup then [waiting_row u d created (now + up_wait p) (n + 1)]
       else [calling_row u d created next n])"
  by (rule call_answered_confirmed [OF assms])

theorem answered_call_leaves_queue_witness:
  "\<exists>st'. vm_run bob_env 0 ((([Poll 105, Begin 0] @ [Answered 0]) @ [Confirm 0 ''7'' True]) @ [State 0 True 120])
      (vm_start [waiting_row ''bob'' ''x'' 100 105 0]) = Inr st' \<and>
    vd_rows (vs_db st') = [waiting_row ''bob'' ''x'' 100 180 1]"
proof -
  have "0 < up_attempts bob_profile" "(105::int) \<le> 105" "0 = length (vs_threads (vm_start [waiting_row ''bob'' ''x'' 100 105 0]))"
    "0 = length (vs_sessions (vm_start [waiting_row ''bob'' ''x'' 100 105 0]))"
    by (simp_all add: bob_profile_def vm_start_def)
  from answered_call_leaves_queue [OF bob_facts this, of 0 "''7''" True True 120] show ?thesis
    by (auto simp: bob_profile_def)
qed

text \<open>
  The hook of an answered call frees the profile while the thread of the call still uses it: when a
  change of the state is handled before the confirmation, on the last attempt or without confirmation.
\<close>

theorem hook_frees_profile_in_use:
  assumes "table_documented (ve_table env) ks" "vm_waiting env u d created next n st"
    "user_result env u d True = Some (p, vars)" "callable p" "n < up_attempts p" "next \<le> t"
    "m = length (vs_threads st)" "k = length (vs_sessions st)" "up_attempts p = n + 1 \<or> \<not> up_enable_confirm p"
  shows "vm_run env junk ((([Poll t, Begin m] @ [Answered m]) @ [State k hangup now]) @ [Confirm m digits collected]) st = Inl Use_After_Free"
  by (rule hook_frees_profile [OF assms])

theorem hook_frees_profile_in_use_witness:
  "vm_run bob_env 0 ((([Poll 190, Begin 0] @ [Answered 0]) @ [State 0 False 200]) @ [Confirm 0 ''1'' True])
     (vm_start [waiting_row ''bob'' ''x'' 100 180 1]) = Inl Use_After_Free"
proof -
  have "1 < up_attempts bob_profile" "(180::int) \<le> 190" "0 = length (vs_threads (vm_start [waiting_row ''bob'' ''x'' 100 180 1]))"
    "0 = length (vs_sessions (vm_start [waiting_row ''bob'' ''x'' 100 180 1]))"
    "up_attempts bob_profile = 1 + 1 \<or> \<not> up_enable_confirm bob_profile"
    by (simp_all add: bob_profile_def vm_start_def)
  from hook_frees_profile_in_use [OF bob_facts this] show ?thesis .
qed

text \<open>
  C35:The row is marked by the thread of the call and not by the poll: polled again before the thread runs,
  the user is called twice at the same time, even when the profile allows a single attempt.
\<close>

theorem row_polled_twice_called_twice:
  assumes "table_documented (ve_table env) ks" "vm_waiting env u d created next n st"
    "user_result env u d True = Some (p, vars)" "callable p" "n < up_attempts p" "next \<le> t" "next \<le> t'"
    "m = length (vs_threads st)"
  shows "\<exists>st'. vm_run env junk [Poll t, Poll t', Begin m, Begin (Suc m)] st = Inr st' \<and>
    vs_calls st' = vs_calls st @ [placed_call u d p vars n, placed_call u d p vars n] \<and>
    map vr_count (vd_rows (vs_db st')) = [n + 2]"
  by (rule polled_again [OF assms])

theorem row_polled_twice_called_twice_witness:
  "\<exists>st'. vm_run bob_env 0 [Poll 190, Poll 191, Begin 0, Begin (Suc 0)] (vm_start [waiting_row ''bob'' ''x'' 100 180 1]) = Inr st' \<and>
    map vr_count (vd_rows (vs_db st')) = [3] \<and> length (vs_calls st') = 2 \<and> up_attempts bob_profile = 2"
proof -
  have "1 < up_attempts bob_profile" "(180::int) \<le> 190" "(180::int) \<le> 191"
    "0 = length (vs_threads (vm_start [waiting_row ''bob'' ''x'' 100 180 1]))"
    "vs_calls (vm_start [waiting_row ''bob'' ''x'' 100 180 1]) = []" "up_attempts bob_profile = 2"
    by (simp_all add: bob_profile_def vm_start_def)
  with row_polled_twice_called_twice [OF bob_facts this(1-4), of 0] show ?thesis by auto
qed

text \<open>
  A call that fails for another reason than no answer or a cancel, a busy line for one, stays in progress:
  however often the queue is polled, the user is not called again and the row is not removed.
\<close>

theorem busy_call_never_retried:
  assumes "table_documented (ve_table env) ks" "vm_waiting env u d created next n st"
    "user_result env u d True = Some (p, vars)" "callable p" "n < up_attempts p" "next \<le> t" "m = length (vs_threads st)"
    "cause \<noteq> Cause_No_Answer" "cause \<noteq> Cause_Originator_Cancel"
  shows "\<exists>st'. vm_run env junk (([Poll t, Begin m] @ [Failed m cause now]) @ map Poll ts) st = Inr st' \<and>
    vd_rows (vs_db st') = [calling_row u d created next n] \<and> vs_calls st' = vs_calls st @ [placed_call u d p vars n] \<and>
    length (vs_threads st') = Suc m"
  by (rule busy_stays [OF assms])

theorem busy_call_never_retried_witness:
  "\<exists>st'. vm_run bob_env 0 (([Poll 105, Begin 0] @ [Failed 0 (Cause_Other 17) 106]) @ map Poll [1000, 2000])
      (vm_start [waiting_row ''bob'' ''x'' 100 105 0]) = Inr st' \<and> map vr_state (vd_rows (vs_db st')) = [CALL_IN_PROGRESS]"
proof -
  have "0 < up_attempts bob_profile" "(105::int) \<le> 105" "0 = length (vs_threads (vm_start [waiting_row ''bob'' ''x'' 100 105 0]))"
    "Cause_Other 17 \<noteq> Cause_No_Answer" "Cause_Other 17 \<noteq> Cause_Originator_Cancel"
    by (simp_all add: bob_profile_def vm_start_def)
  from busy_call_never_retried [OF bob_facts this, of 0 106 "[1000, 2000]"] show ?thesis
    by (auto simp: calling_row_def)
qed

text \<open>
  A user who is enabled but has no dial string or no transfer is not called, and is not removed from
  the queue either: each poll starts another thread for nothing.
\<close>

theorem unreachable_user_polled_forever:
  assumes "table_documented (ve_table env) ks" "user_result env u d True = Some (p, vars)" "up_enabled p" "n < up_attempts p"
    "\<not> (given (up_dial_string p) \<and> given (up_transfer p))" "vm_waiting env u d created next n st" "\<forall>t\<in>set ts. next \<le> t"
  shows "\<exists>st'. vm_run env junk (idle_rounds (length (vs_threads st)) ts) st = Inr st' \<and> vm_waiting env u d created next n st' \<and>
    vs_calls st' = vs_calls st \<and> length (vs_threads st') = length (vs_threads st) + length ts"
  by (rule idle_rounds_run [OF assms])

theorem unreachable_user_polled_forever_witness:
  "\<exists>st'. vm_run (bob_env\<lparr>ve_user := (\<lambda>u d. Some \<lparr>vu_params = [(''vm-originate-enabled'', ''true'')], vu_variables = []\<rparr>)\<rparr>) 0
      (idle_rounds 0 [200, 201, 202]) (vm_start [waiting_row ''eve'' ''x'' 100 101 0]) = Inr st' \<and>
    vs_calls st' = [] \<and> length (vs_threads st') = 3"
proof -
  let ?env = "bob_env\<lparr>ve_user := (\<lambda>u d. Some \<lparr>vu_params = [(''vm-originate-enabled'', ''true'')], vu_variables = []\<rparr>)\<rparr>"
  let ?p = "default_profile\<lparr>up_enabled := True\<rparr>" and ?st = "vm_start [waiting_row ''eve'' ''x'' 100 101 0]"
  have table: "table_documented (ve_table ?env) (\<lambda>h. fst ` set h)" using bob_table by simp
  have user: "user_result ?env ''eve'' ''x'' True = Some (?p, [])" by code_simp
  have profile: "up_enabled ?p" "0 < up_attempts ?p" "\<not> (given (up_dial_string ?p) \<and> given (up_transfer ?p))"
    by (simp_all add: default_profile_def given_def)
  have "vm_waiting ?env ''eve'' ''x'' 100 101 0 ?st"
    using bob_waiting [of "''eve''" "''x''" 100 101 0] by (simp add: vm_waiting_def agrees_def)
  moreover have "\<forall>t\<in>set [200, 201, 202]. (101::int) \<le> t" by simp
  ultimately show ?thesis
    using unreachable_user_polled_forever [OF table user profile, of 100 101 ?st "[200, 201, 202]" 0]
    by (auto simp: vm_start_def)
qed

end
