(* ===== verification/Vm_Profiles.thy ===== *)
theory Vm_Profiles
  imports Vm_Originate
begin

text \<open>
  The configured profiles of \<open>mod_voicemail_originate\<close> with their locks: objects in memory that readers
  lock, that the command unloads, and that the last reader frees.  \<open>Vm_Originate\<close> has what a reader
  takes from a profile; here is when the memory of a profile is there.
\<close>

record profile_object =
  po_config :: config_profile
  po_readers :: nat
  po_destroy :: bool

record 'h profile_env =
  pe_api :: fs_api
  pe_config :: "string \<Rightarrow> config_profile option"
  pe_table :: "('h, nat) fs_table"

record 'h profile_state =
  ps_table :: 'h
  ps_objects :: "nat \<Rightarrow> profile_object option"
  ps_next :: nat

subsection \<open>Loading and locking\<close>

definition add_profile :: "'h profile_env \<Rightarrow> string \<Rightarrow> 'h profile_state \<Rightarrow> nat option \<times> 'h profile_state" where
  "add_profile env name st =
     (case pe_config env name of
        None \<Rightarrow> (None, st)
      | Some c \<Rightarrow>
          (Some (ps_next st),
           st\<lparr>ps_objects := (ps_objects st)(ps_next st \<mapsto> \<lparr>po_config = c, po_readers = 0, po_destroy = False\<rparr>),
              ps_table := tab_insert (pe_table env) (ps_table st) name (Some (ps_next st)), ps_next := ps_next st + 1\<rparr>))"

text \<open>\<open>get_profile\<close>: the mutex is held until the reader has its lock.\<close>

definition lock_profile :: "'h profile_env \<Rightarrow> string \<Rightarrow> 'h profile_state \<Rightarrow> crash + nat option \<times> 'h profile_state" where
  "lock_profile env name st =
     (case (case tab_find (pe_table env) (ps_table st) name of None \<Rightarrow> add_profile env name st | Some a \<Rightarrow> (Some a, st)) of
        (None, st1) \<Rightarrow> Inr (None, st1)
      | (Some a, st1) \<Rightarrow>
          (case ps_objects st1 a of
             None \<Rightarrow> Inl Use_After_Free
           | Some o1 \<Rightarrow> Inr (Some a, st1\<lparr>ps_objects := (ps_objects st1)(a \<mapsto> o1\<lparr>po_readers := po_readers o1 + 1\<rparr>)\<rparr>)))"

text \<open>\<open>profile_rwunlock\<close> in two parts: between them the reader holds no lock.\<close>

definition release_lock :: "nat \<Rightarrow> 'h profile_state \<Rightarrow> crash + 'h profile_state" where
  "release_lock a st =
     (case ps_objects st a of
        None \<Rightarrow> Inl Use_After_Free
      | Some o1 \<Rightarrow> Inr (st\<lparr>ps_objects := (ps_objects st)(a \<mapsto> o1\<lparr>po_readers := po_readers o1 - 1\<rparr>)\<rparr>))"

definition free_if_last :: "nat \<Rightarrow> 'h profile_state \<Rightarrow> crash + 'h profile_state" where
  "free_if_last a st =
     (case ps_objects st a of
        None \<Rightarrow> Inl Use_After_Free
      | Some o1 \<Rightarrow> Inr (if po_destroy o1 \<and> po_readers o1 = 0 then st\<lparr>ps_objects := (ps_objects st)(a := None)\<rparr> else st))"

definition profile_rwunlock :: "nat \<Rightarrow> 'h profile_state \<Rightarrow> crash + 'h profile_state" where
  "profile_rwunlock a st = (case release_lock a st of Inl e \<Rightarrow> Inl e | Inr st1 \<Rightarrow> free_if_last a st1)"

text \<open>\<open>destroy_profile\<close> without waiting, in three parts: the entry, the attempt to lock, the flag.\<close>

definition remove_entry :: "'h profile_env \<Rightarrow> string \<Rightarrow> 'h profile_state \<Rightarrow> nat option \<times> 'h profile_state" where
  "remove_entry env name st =
     (case tab_find (pe_table env) (ps_table st) name of
        None \<Rightarrow> (None, st)
      | Some a \<Rightarrow> (Some a, st\<lparr>ps_table := tab_delete (pe_table env) (ps_table st) name\<rparr>))"

definition try_free :: "nat \<Rightarrow> 'h profile_state \<Rightarrow> crash + bool \<times> 'h profile_state" where
  "try_free a st =
     (case ps_objects st a of
        None \<Rightarrow> Inl Use_After_Free
      | Some o1 \<Rightarrow> Inr (if po_readers o1 = 0 then (True, st\<lparr>ps_objects := (ps_objects st)(a := None)\<rparr>) else (False, st)))"

definition flag_profile :: "nat \<Rightarrow> 'h profile_state \<Rightarrow> crash + 'h profile_state" where
  "flag_profile a st =
     (case ps_objects st a of
        None \<Rightarrow> Inl Use_After_Free
      | Some o1 \<Rightarrow> Inr (st\<lparr>ps_objects := (ps_objects st)(a \<mapsto> o1\<lparr>po_destroy := True\<rparr>)\<rparr>))"

datatype profile_status = PROFILE_STATUS_SUCCESS | PROFILE_STATUS_FAIL_INUSE | PROFILE_STATUS_INVALID | PROFILE_STATUS_INVALID_NOT_FOUND

definition destroy_profile :: "'h profile_env \<Rightarrow> string \<Rightarrow> 'h profile_state \<Rightarrow> crash + profile_status \<times> 'h profile_state" where
  "destroy_profile env name st =
     (case remove_entry env name st of
        (None, st1) \<Rightarrow> Inr (PROFILE_STATUS_INVALID, st1)
      | (Some a, st1) \<Rightarrow>
          (case try_free a st1 of
             Inl e \<Rightarrow> Inl e
           | Inr (True, st2) \<Rightarrow> Inr (PROFILE_STATUS_SUCCESS, st2)
           | Inr (False, st2) \<Rightarrow> (case flag_profile a st2 of Inl e \<Rightarrow> Inl e | Inr st3 \<Rightarrow> Inr (PROFILE_STATUS_FAIL_INUSE, st3))))"

subsection \<open>The command\<close>

definition profile_syntax :: string where
  "profile_syntax = ''vm_originate load|unload|reload [profile_name]'' @ [CHR 0x0A] @ ''vm_originate init [user@domain]'' @ [CHR 0x0A]"

definition profile_answer :: "profile_status \<Rightarrow> string \<Rightarrow> string" where
  "profile_answer s account =
     (case s of
        PROFILE_STATUS_SUCCESS \<Rightarrow> ''+OK''
      | PROFILE_STATUS_INVALID \<Rightarrow> ''['' @ account @ ''] -ERR Invalid profile''
      | PROFILE_STATUS_FAIL_INUSE \<Rightarrow>
          ''['' @ account @ ''] -ERR Profile is in use, memory will be freed whenever its no longer in use''
      | PROFILE_STATUS_INVALID_NOT_FOUND \<Rightarrow> ''['' @ account @ ''] -ERR Invalid, profile not found!'') @ [CHR 0x0A]"

definition touch_profile :: "'h profile_env \<Rightarrow> string \<Rightarrow> 'h profile_state \<Rightarrow> crash + profile_status \<times> 'h profile_state" where
  "touch_profile env name st =
     (case lock_profile env name st of
        Inl e \<Rightarrow> Inl e
      | Inr (None, st1) \<Rightarrow> Inr (PROFILE_STATUS_INVALID_NOT_FOUND, st1)
      | Inr (Some a, st1) \<Rightarrow> (case profile_rwunlock a st1 of Inl e \<Rightarrow> Inl e | Inr st2 \<Rightarrow> Inr (PROFILE_STATUS_SUCCESS, st2)))"

text \<open>The result: the status, the answer, the account of the event that is fired, and the state.\<close>

definition vm_originate_function ::
    "'h profile_env \<Rightarrow> bool \<Rightarrow> string option \<Rightarrow> 'h profile_state \<Rightarrow> crash + switch_status \<times> string \<times> string option \<times> 'h profile_state" where
  "vm_originate_function env running cmd st =
     (if \<not> running then Inr (SWITCH_STATUS_FALSE, [], None, st)
      else if fs_zstr (pe_api env) cmd
      then Inr (SWITCH_STATUS_SUCCESS, ''-USAGE: '' @ [CHR 0x0A] @ profile_syntax @ [CHR 0x0A], None, st)
      else (case fs_separate_string (pe_api env) (the cmd) (CHR '' '') 2 of
              action # account # _ \<Rightarrow>
                (if c_strcaseeq action ''init''
                 then Inr (SWITCH_STATUS_SUCCESS, profile_answer PROFILE_STATUS_SUCCESS account, Some account, st)
                 else if c_strcaseeq action ''load''
                 then map_sum id (\<lambda>(s, st1). (SWITCH_STATUS_SUCCESS, profile_answer s account, None, st1)) (touch_profile env account st)
                 else if c_strcaseeq action ''unload''
                 then map_sum id (\<lambda>(s, st1). (SWITCH_STATUS_SUCCESS, profile_answer s account, None, st1)) (destroy_profile env account st)
                 else if c_strcaseeq action ''reload''
                 then (case destroy_profile env account st of
                         Inl e \<Rightarrow> Inl e
                       | Inr (_, st1) \<Rightarrow>
                           map_sum id (\<lambda>(s, st2). (SWITCH_STATUS_SUCCESS, profile_answer s account, None, st2)) (touch_profile env account st1))
                 else Inr (SWITCH_STATUS_SUCCESS, profile_answer PROFILE_STATUS_SUCCESS account, None, st))
            | _ \<Rightarrow> Inr (SWITCH_STATUS_SUCCESS, ''-ERR Invalid!'' @ [CHR 0x0A], None, st)))"

text \<open>\<open>load_config\<close>: the settings, all profiles, the name of the database, whether it can be opened.\<close>

record vm_settings =
  vg_dbname :: "string option"
  vg_odbc_dsn :: "string option"

definition vm_setting :: "string \<times> string \<Rightarrow> vm_settings \<Rightarrow> vm_settings" where
  "vm_setting v g =
     (let (var, val) = v
      in if var = [] \<or> val = [] then g
         else if c_strcaseeq var ''dbname'' then g\<lparr>vg_dbname := Some val\<rparr>
         else if c_strcaseeq var ''odbc-dsn'' then g\<lparr>vg_odbc_dsn := Some val\<rparr>
         else g)"

definition get_db_handle :: "vm_settings \<Rightarrow> string option" where
  "get_db_handle g = (if vg_odbc_dsn g \<noteq> None \<and> vg_odbc_dsn g \<noteq> Some [] then vg_odbc_dsn g else vg_dbname g)"

definition vm_load_config ::
    "'h profile_env \<Rightarrow> ((string \<times> string) list \<times> string list) option \<Rightarrow> (string option \<Rightarrow> bool) \<Rightarrow> vm_settings \<Rightarrow> 'h profile_state \<Rightarrow>
     switch_status \<times> vm_settings \<times> 'h profile_state" where
  "vm_load_config env cfg db_opens g st =
     (case cfg of
        None \<Rightarrow> (SWITCH_STATUS_TERM, g, st)
      | Some (settings, profiles) \<Rightarrow>
          (let g1 = fold vm_setting settings g;
               st1 = fold (\<lambda>name s. snd (add_profile env name s)) profiles st;
               g2 = (if vg_dbname g1 = None then g1\<lparr>vg_dbname := Some ''voicemail_originate''\<rparr> else g1)
           in (if db_opens (get_db_handle g2) then SWITCH_STATUS_SUCCESS else SWITCH_STATUS_TERM, g2, st1)))"

subsection \<open>What the command keeps\<close>

text \<open>Every entry leads to an object that is there and not to be destroyed, and no two entries to the same.\<close>

definition entries :: "'h profile_env \<Rightarrow> 'h profile_state \<Rightarrow> string \<Rightarrow> nat option" where
  "entries env st name = tab_find (pe_table env) (ps_table st) name"

definition profiles_ok :: "'h profile_env \<Rightarrow> 'h profile_state \<Rightarrow> bool" where
  "profiles_ok env st \<longleftrightarrow>
     (\<forall>name a. entries env st name = Some a \<longrightarrow> a < ps_next st \<and> (\<exists>o1. ps_objects st a = Some o1 \<and> \<not> po_destroy o1)) \<and>
     inj_on (entries env st) {name. entries env st name \<noteq> None}"

lemma profiles_okD:
  assumes "profiles_ok env st" "entries env st name = Some a"
  shows "a < ps_next st" "\<exists>o1. ps_objects st a = Some o1 \<and> \<not> po_destroy o1"
    "entries env st name' = Some a \<Longrightarrow> name' = name"
  using assms by (auto simp: profiles_ok_def inj_on_def)

lemma entries_added:
  assumes "table_documented (pe_table env) ks" "pe_config env name = Some c"
  shows "entries env (snd (add_profile env name st)) = (entries env st)(name \<mapsto> ps_next st)"
  using assms by (auto simp: add_profile_def entries_def table_documentedD(5) fun_eq_iff)

lemma entries_removed:
  assumes "table_documented (pe_table env) ks"
  shows "entries env (snd (remove_entry env name st)) = (entries env st)(name := None)"
proof -
  have "tab_find (pe_table env) (tab_delete (pe_table env) h name) name = None" for h
    by (rule table_documentedD(3) [OF assms]) (simp add: table_documentedD(6) [OF assms])
  then show ?thesis
    by (auto simp: remove_entry_def entries_def table_documentedD(7) [OF assms] fun_eq_iff split: option.split)
qed

lemma profiles_ok_change:
  assumes "profiles_ok env st" "entries env st' = (entries env st)(name := new)" "ps_next st \<le> ps_next st'"
    "\<And>a. new = Some a \<Longrightarrow> a < ps_next st' \<and> (\<exists>o1. ps_objects st' a = Some o1 \<and> \<not> po_destroy o1) \<and> (\<forall>k. k \<noteq> name \<longrightarrow> entries env st k \<noteq> Some a)"
    "\<And>k a. k \<noteq> name \<Longrightarrow> entries env st k = Some a \<Longrightarrow> ps_objects st' a = ps_objects st a"
  shows "profiles_ok env st'"
  unfolding profiles_ok_def
proof (intro conjI allI impI)
  fix k a
  assume k: "entries env st' k = Some a"
  show "a < ps_next st'"
    using k assms(2-4) profiles_okD(1) [OF assms(1), of k a] by (cases "k = name") auto
  show "\<exists>o1. ps_objects st' a = Some o1 \<and> \<not> po_destroy o1"
    using k assms(2,4,5) profiles_okD(2) [OF assms(1), of k a] by (cases "k = name") auto
next
  show "inj_on (entries env st') {k. entries env st' k \<noteq> None}"
    using assms(2,4) profiles_okD(3) [OF assms(1)] by (fastforce simp: inj_on_def split: if_splits)
qed

lemma table_same: "ps_table st' = ps_table st \<Longrightarrow> entries env st' = entries env st"
  by (simp add: entries_def fun_eq_iff)

definition unloaded :: "profile_object \<Rightarrow> profile_object option" where
  "unloaded o1 = (if po_readers o1 = 0 then None else Some (o1\<lparr>po_destroy := True\<rparr>))"

lemma destroy_profile_spec:
  assumes "table_documented (pe_table env) ks" "profiles_ok env st"
  shows "\<exists>s st'. destroy_profile env name st = Inr (s, st') \<and> profiles_ok env st' \<and>
    entries env st' = (entries env st)(name := None) \<and> ps_next st' = ps_next st \<and>
    ps_objects st' = (case entries env st name of None \<Rightarrow> ps_objects st
      | Some a \<Rightarrow> (ps_objects st)(a := unloaded (the (ps_objects st a)))) \<and>
    s = (case entries env st name of None \<Rightarrow> PROFILE_STATUS_INVALID
      | Some a \<Rightarrow> if po_readers (the (ps_objects st a)) = 0 then PROFILE_STATUS_SUCCESS else PROFILE_STATUS_FAIL_INUSE)"
proof (cases "entries env st name")
  case None
  then have "(entries env st)(name := None) = entries env st" by auto
  with None assms(2) show ?thesis by (simp add: destroy_profile_def remove_entry_def entries_def [symmetric])
next
  case (Some a)
  from profiles_okD(2) [OF assms(2) Some] obtain o1 where o1: "ps_objects st a = Some o1" by blast
  let ?st = "st\<lparr>ps_table := tab_delete (pe_table env) (ps_table st) name, ps_objects := (ps_objects st)(a := unloaded o1)\<rparr>"
  have run: "destroy_profile env name st =
      Inr (if po_readers o1 = 0 then PROFILE_STATUS_SUCCESS else PROFILE_STATUS_FAIL_INUSE, ?st)"
    using Some o1 by (simp add: destroy_profile_def remove_entry_def entries_def try_free_def flag_profile_def unloaded_def)
  have gone: "entries env ?st = (entries env st)(name := None)"
    using entries_removed [OF assms(1), of name st] Some by (simp add: remove_entry_def entries_def fun_eq_iff)
  have "profiles_ok env ?st"
    by (rule profiles_ok_change [OF assms(2) gone]) (use profiles_okD(3) [OF assms(2) Some] in auto)
  with run gone Some o1 show ?thesis by simp
qed

lemma touch_profile_spec:
  assumes "table_documented (pe_table env) ks" "profiles_ok env st"
  shows "\<exists>s st'. touch_profile env name st = Inr (s, st') \<and> profiles_ok env st' \<and>
    st' = (if entries env st name = None then snd (add_profile env name st) else st) \<and>
    s = (if entries env st name = None \<and> pe_config env name = None then PROFILE_STATUS_INVALID_NOT_FOUND else PROFILE_STATUS_SUCCESS)"
proof (cases "entries env st name")
  case (Some a)
  from profiles_okD(2) [OF assms(2) Some] obtain o1 where o1: "ps_objects st a = Some o1" "\<not> po_destroy o1" by blast
  have "st\<lparr>ps_objects := (ps_objects st)(a \<mapsto> o1)\<rparr> = st" using o1(1) by (simp add: fun_upd_idem)
  with Some o1 assms(2) show ?thesis
    by (simp add: touch_profile_def lock_profile_def entries_def profile_rwunlock_def release_lock_def free_if_last_def)
next
  case None
  show ?thesis
  proof (cases "pe_config env name")
    case None
    with \<open>entries env st name = None\<close> assms(2) show ?thesis
      by (simp add: touch_profile_def lock_profile_def entries_def add_profile_def)
  next
    case (Some c)
    let ?st = "snd (add_profile env name st)"
    have "touch_profile env name st = Inr (PROFILE_STATUS_SUCCESS, ?st)"
      using None Some
      by (simp add: touch_profile_def lock_profile_def entries_def add_profile_def profile_rwunlock_def release_lock_def free_if_last_def)
    moreover have "profiles_ok env ?st"
    proof (rule profiles_ok_change [OF assms(2) entries_added [OF assms(1) Some]])
      show "ps_next st \<le> ps_next ?st" using Some by (simp add: add_profile_def)
      show "a < ps_next ?st \<and> (\<exists>o1. ps_objects ?st a = Some o1 \<and> \<not> po_destroy o1) \<and> (\<forall>k. k \<noteq> name \<longrightarrow> entries env st k \<noteq> Some a)"
        if "Some (ps_next st) = Some a" for a
        using that Some profiles_okD(1) [OF assms(2)] by (fastforce simp: add_profile_def)
      show "ps_objects ?st a = ps_objects st a" if "entries env st k = Some a" for k a
        using profiles_okD(1) [OF assms(2) that] Some by (simp add: add_profile_def)
    qed
    ultimately show ?thesis using None Some by simp
  qed
qed

text \<open>The configuration a reader finds under a name.\<close>

definition held_config :: "'h profile_env \<Rightarrow> 'h profile_state \<Rightarrow> string \<Rightarrow> config_profile option" where
  "held_config env st name = (case entries env st name of None \<Rightarrow> None | Some a \<Rightarrow> map_option po_config (ps_objects st a))"

lemma reload_words: "\<not> c_strcaseeq ''reload'' ''init'' \<and> \<not> c_strcaseeq ''reload'' ''load'' \<and> \<not> c_strcaseeq ''reload'' ''unload''"
  by code_simp

lemma reload_spec:
  assumes "table_documented (pe_table env) ks" "profiles_ok env st" "zstr_documented (pe_api env)" "cmd \<noteq> []"
    "fs_separate_string (pe_api env) cmd (CHR '' '') 2 = [action, name]" "c_strcaseeq action ''reload''"
  shows "\<exists>st'. vm_originate_function env True (Some cmd) st =
      Inr (SWITCH_STATUS_SUCCESS,
        profile_answer (if pe_config env name = None then PROFILE_STATUS_INVALID_NOT_FOUND else PROFILE_STATUS_SUCCESS) name, None, st') \<and>
    profiles_ok env st' \<and> held_config env st' name = pe_config env name \<and>
    (\<forall>k. k \<noteq> name \<longrightarrow> held_config env st' k = held_config env st k) \<and>
    (\<forall>a. entries env st name = Some a \<longrightarrow> ps_objects st' a = unloaded (the (ps_objects st a)))"
proof -
  have words: "\<not> c_strcaseeq action ''init''" "\<not> c_strcaseeq action ''load''" "\<not> c_strcaseeq action ''unload''"
    using reload_words assms(6) by (auto simp: c_strcaseeq_def)
  obtain s st1 where st1: "destroy_profile env name st = Inr (s, st1)" "profiles_ok env st1"
    "entries env st1 = (entries env st)(name := None)" "ps_next st1 = ps_next st"
    "ps_objects st1 = (case entries env st name of None \<Rightarrow> ps_objects st
      | Some a \<Rightarrow> (ps_objects st)(a := unloaded (the (ps_objects st a))))"
    using destroy_profile_spec [OF assms(1,2), of name] by blast
  let ?st2 = "snd (add_profile env name st1)"
  have st2: "touch_profile env name st1 =
      Inr (if pe_config env name = None then PROFILE_STATUS_INVALID_NOT_FOUND else PROFILE_STATUS_SUCCESS, ?st2)"
    "profiles_ok env ?st2"
    using touch_profile_spec [OF assms(1) st1(2), of name] by (simp_all add: st1(3))
  have run: "vm_originate_function env True (Some cmd) st =
      Inr (SWITCH_STATUS_SUCCESS,
        profile_answer (if pe_config env name = None then PROFILE_STATUS_INVALID_NOT_FOUND else PROFILE_STATUS_SUCCESS) name, None, ?st2)"
    using assms(3-6) words st1(1) st2(1) by (simp add: vm_originate_function_def zstr_documented_def)
  have new: "held_config env ?st2 name = pe_config env name"
  proof (cases "pe_config env name")
    case None
    then show ?thesis using st1(3) by (simp add: held_config_def add_profile_def)
  next
    case (Some c)
    then show ?thesis unfolding held_config_def entries_added [OF assms(1) Some] by (simp add: add_profile_def)
  qed
  have other: "held_config env ?st2 k = held_config env st k" if "k \<noteq> name" for k
  proof (cases "entries env st k")
    case None
    then show ?thesis using that st1(3) entries_added [OF assms(1), of name _ st1]
      by (cases "pe_config env name") (simp_all add: held_config_def add_profile_def)
  next
    case (Some a)
    then have a: "a < ps_next st" "entries env st name \<noteq> Some a"
      using profiles_okD(1,3) [OF assms(2) Some] that by blast+
    then have "ps_objects ?st2 a = ps_objects st a"
      by (cases "pe_config env name") (auto simp: add_profile_def st1(4,5) split: option.split)
    moreover have "entries env ?st2 k = Some a"
      using that Some st1(3) entries_added [OF assms(1), of name _ st1]
      by (cases "pe_config env name") (simp_all add: add_profile_def)
    ultimately show ?thesis using Some by (simp add: held_config_def)
  qed
  have old: "ps_objects ?st2 a = unloaded (the (ps_objects st a))" if "entries env st name = Some a" for a
    using that profiles_okD(1) [OF assms(2) that]
    by (cases "pe_config env name") (simp_all add: add_profile_def st1(4,5))
  show ?thesis using run st2(2) new other old by blast
qed

subsection \<open>Readers and unloading at the same time\<close>

text \<open>
  A thread reads a profile, or has released its lock and looks at the flag next, or unloads a profile and
  tries to lock it, or has failed to and sets the flag.  A thread starts with the part that holds the mutex.
\<close>

datatype profile_pc = Reading nat | Releasing nat | Unloading nat | Flagging nat | Ended

datatype profile_action = Lock string | Unload string | Step nat

definition profile_step :: "profile_pc \<Rightarrow> 'h profile_state \<Rightarrow> crash + profile_pc \<times> 'h profile_state" where
  "profile_step pc st =
     (case pc of
        Reading a \<Rightarrow> map_sum id (Pair (Releasing a)) (release_lock a st)
      | Releasing a \<Rightarrow> map_sum id (Pair Ended) (free_if_last a st)
      | Unloading a \<Rightarrow> map_sum id (\<lambda>(freed, st1). (if freed then Ended else Flagging a, st1)) (try_free a st)
      | Flagging a \<Rightarrow> map_sum id (Pair Ended) (flag_profile a st)
      | Ended \<Rightarrow> Inr (Ended, st))"

fun profile_act ::
    "'h profile_env \<Rightarrow> profile_action \<Rightarrow> profile_pc list \<times> 'h profile_state \<Rightarrow> crash + profile_pc list \<times> 'h profile_state" where
  "profile_act env (Lock name) (ths, st) =
     (case lock_profile env name st of
        Inl e \<Rightarrow> Inl e
      | Inr (None, st1) \<Rightarrow> Inr (ths @ [Ended], st1)
      | Inr (Some a, st1) \<Rightarrow> Inr (ths @ [Reading a], st1))"
| "profile_act env (Unload name) (ths, st) =
     (case remove_entry env name st of
        (None, st1) \<Rightarrow> Inr (ths @ [Ended], st1)
      | (Some a, st1) \<Rightarrow> Inr (ths @ [Unloading a], st1))"
| "profile_act env (Step i) (ths, st) =
     (if i < length ths then map_sum id (\<lambda>(pc, st1). (ths[i := pc], st1)) (profile_step (ths ! i) st) else Inr (ths, st))"

fun profile_run ::
    "'h profile_env \<Rightarrow> profile_action list \<Rightarrow> profile_pc list \<times> 'h profile_state \<Rightarrow> crash + profile_pc list \<times> 'h profile_state" where
  "profile_run env [] s = Inr s"
| "profile_run env (a # as) s = (case profile_act env a s of Inl e \<Rightarrow> Inl e | Inr s1 \<Rightarrow> profile_run env as s1)"

lemma unload_before_check:
  assumes "profiles_ok env st" "entries env st name = Some a" "ps_objects st a = Some \<lparr>po_config = c, po_readers = 0, po_destroy = False\<rparr>"
  shows "profile_run env [Lock name, Unload name, Step 0, Step 1, Step 0] ([], st) = Inl Use_After_Free"
  using assms
  by (simp add: entries_def lock_profile_def remove_entry_def profile_step_def release_lock_def try_free_def free_if_last_def)

lemma flag_after_check:
  assumes "table_documented (pe_table env) ks" "profiles_ok env st" "entries env st name = Some a"
    "ps_objects st a = Some \<lparr>po_config = c, po_readers = 0, po_destroy = False\<rparr>"
  shows "\<exists>st'. profile_run env [Lock name, Unload name, Step 1, Step 0, Step 0, Step 1] ([], st) = Inr ([Ended, Ended], st') \<and>
    (\<forall>k. entries env st' k \<noteq> Some a) \<and> ps_objects st' a = Some \<lparr>po_config = c, po_readers = 0, po_destroy = True\<rparr>"
proof -
  have gone: "tab_find (pe_table env) (tab_delete (pe_table env) (ps_table st) name) k \<noteq> Some a" for k
    using entries_removed [OF assms(1), of name st] profiles_okD(3) [OF assms(2,3), of k] assms(3)
    by (auto simp: remove_entry_def entries_def fun_eq_iff split: if_splits)
  show ?thesis
    using assms(3,4) gone
    by (simp add: entries_def lock_profile_def remove_entry_def profile_step_def release_lock_def try_free_def free_if_last_def
        flag_profile_def)
qed

subsection \<open>The properties\<close>

definition example_config :: config_profile where
  "example_config =
     \<lparr>cp_enabled = True, cp_first_wait = 5, cp_wait = 60, cp_timeout = 0, cp_attempts = 3, cp_transfer = None,
      cp_caller_name = None, cp_caller_number = None, cp_enable_confirm = True, cp_confirm_digits = Some ''1'',
      cp_confirm_wait = 0, cp_confirm_play_file = None, cp_user_variables = None, cp_dial_string = None\<rparr>"

definition example_profiles :: "((string \<times> nat option) list) profile_env" where
  "example_profiles =
     \<lparr>pe_api = documented_api, pe_config = (\<lambda>n. if n = ''p'' then Some (example_config\<lparr>cp_attempts := 4\<rparr>) else None),
      pe_table = documented_table\<rparr>"

definition one_profile :: "nat \<Rightarrow> ((string \<times> nat option) list) profile_state" where
  "one_profile readers =
     \<lparr>ps_table = [(''p'', Some 0)], ps_objects = [0 \<mapsto> \<lparr>po_config = example_config, po_readers = readers, po_destroy = False\<rparr>], ps_next = 1\<rparr>"

lemma example_table: "table_documented (pe_table example_profiles) (\<lambda>h. fst ` set h)"
  using documented_table_ok by (simp add: example_profiles_def)

lemma example_entries: "entries example_profiles (one_profile r) = (\<lambda>k. if k = ''p'' then Some 0 else None)"
  by (simp add: entries_def example_profiles_def one_profile_def documented_table_def fun_eq_iff)

lemma example_ok: "profiles_ok example_profiles (one_profile r)"
  unfolding profiles_ok_def example_entries by (auto simp: one_profile_def inj_on_def split: if_splits)



text \<open>
  A reader looks at the flag of a profile after it gave its lock back: when the profile is unloaded in
  between, the reader looks at freed memory.
\<close>

theorem unload_frees_under_reader:
  assumes "profiles_ok env st" "entries env st name = Some a" "ps_objects st a = Some \<lparr>po_config = c, po_readers = 0, po_destroy = False\<rparr>"
  shows "profile_run env [Lock name, Unload name, Step 0, Step 1, Step 0] ([], st) = Inl Use_After_Free"
  by (rule unload_before_check [OF assms])

theorem unload_frees_under_reader_witness:
  "profile_run example_profiles [Lock ''p'', Unload ''p'', Step 0, Step 1, Step 0] ([], one_profile 0) = Inl Use_After_Free"
  by (rule unload_frees_under_reader [OF example_ok, where c = example_config and a = 0]) (simp add: example_entries, simp add: one_profile_def)

end
