(* ===== verification/Amqp.thy ===== *)
theory Amqp
  imports Fs_Api C_Format "HOL-Library.Sublist"
begin

text \<open>
  \<open>aeriandi/mod_amqp/mod_amqp.c\<close>: sends the events of the switch to an AMQP broker.  The handler of an
  event formats a routing key and puts a message into a bounded queue; a thread takes the messages from
  there and sends them, with a new connection whenever there is none.  The library of the broker is an
  argument: which hosts answer, whether a login succeeds, whether a message is sent.
\<close>

subsection \<open>The names of the events\<close>

definition event_names :: "string list" where
  "event_names = map ((@) ''SWITCH_EVENT_'')
    [''CUSTOM'', ''CLONE'', ''CHANNEL_CREATE'', ''CHANNEL_DESTROY'', ''CHANNEL_STATE'', ''CHANNEL_CALLSTATE'',
     ''CHANNEL_ANSWER'', ''CHANNEL_HANGUP'', ''CHANNEL_HANGUP_COMPLETE'', ''CHANNEL_EXECUTE'',
     ''CHANNEL_EXECUTE_COMPLETE'', ''CHANNEL_HOLD'', ''CHANNEL_UNHOLD'', ''CHANNEL_BRIDGE'', ''CHANNEL_UNBRIDGE'',
     ''CHANNEL_PROGRESS'', ''CHANNEL_PROGRESS_MEDIA'', ''CHANNEL_OUTGOING'', ''CHANNEL_PARK'', ''CHANNEL_UNPARK'',
     ''CHANNEL_APPLICATION'', ''CHANNEL_ORIGINATE'', ''CHANNEL_UUID'', ''API'', ''LOG'', ''INBOUND_CHAN'',
     ''OUTBOUND_CHAN'', ''STARTUP'', ''SHUTDOWN'', ''PUBLISH'', ''UNPUBLISH'', ''TALK'', ''NOTALK'',
     ''SESSION_CRASH'', ''MODULE_LOAD'', ''MODULE_UNLOAD'', ''DTMF'', ''MESSAGE'', ''PRESENCE_IN'', ''NOTIFY_IN'',
     ''PRESENCE_OUT'', ''PRESENCE_PROBE'', ''MESSAGE_WAITING'', ''MESSAGE_QUERY'', ''ROSTER'', ''CODEC'',
     ''BACKGROUND_JOB'', ''DETECTED_SPEECH'', ''DETECTED_TONE'', ''PRIVATE_COMMAND'', ''HEARTBEAT'', ''TRAP'',
     ''ADD_SCHEDULE'', ''DEL_SCHEDULE'', ''EXE_SCHEDULE'', ''RE_SCHEDULE'', ''RELOADXML'', ''NOTIFY'',
     ''SEND_MESSAGE'', ''RECV_MESSAGE'', ''REQUEST_PARAMS'', ''CHANNEL_DATA'', ''GENERAL'', ''COMMAND'',
     ''SESSION_HEARTBEAT'', ''CLIENT_DISCONNECTED'', ''SERVER_DISCONNECTED'', ''SEND_INFO'', ''RECV_INFO'',
     ''RECV_RTCP_MESSAGE'', ''CALL_SECURE'', ''NAT'', ''RECORD_START'', ''RECORD_STOP'', ''PLAYBACK_START'',
     ''PLAYBACK_STOP'', ''CALL_UPDATE'', ''FAILURE'', ''SOCKET_DATA'', ''MEDIA_BUG_START'', ''MEDIA_BUG_STOP'',
     ''CONFERENCE_DATA_QUERY'', ''CONFERENCE_DATA'', ''CALL_SETUP_REQ'', ''CALL_SETUP_RESULT'', ''ALL'']"

text \<open>The values of the enumeration of the core are an argument; it is unsigned, and so is -1 in it.\<close>

definition parse_fs_event_name :: "(string \<Rightarrow> uint32_t) \<Rightarrow> string \<Rightarrow> uint32_t" where
  "parse_fs_event_name ids s = (case find (c_strcaseeq s) event_names of Some n \<Rightarrow> ids n | None \<Rightarrow> -1)"

definition fs_event_get_name :: "(string \<Rightarrow> uint32_t) \<Rightarrow> uint32_t \<Rightarrow> string" where
  "fs_event_get_name ids e = (case find (\<lambda>n. ids n = e) event_names of Some n \<Rightarrow> n | None \<Rightarrow> ''<unknown event type>'')"

subsection \<open>Words between commas\<close>

text \<open>
  The words \<open>strtok_r(s, ",", &p)\<close> returns one after the other, and what is left at \<open>s\<close>: the first word
  now ends with a NUL.
\<close>

definition is_comma :: "char \<Rightarrow> bool" where
  "is_comma c \<longleftrightarrow> c = CHR '',''"

function comma_words :: "string \<Rightarrow> string list" where
  "comma_words s =
     (case dropWhile is_comma s of
        [] \<Rightarrow> []
      | c # cs \<Rightarrow> takeWhile (\<lambda>x. \<not> is_comma x) (c # cs) # comma_words (dropWhile (\<lambda>x. \<not> is_comma x) cs))"
  by pat_completeness auto
termination
proof (relation "measure length", simp)
  fix s c cs
  assume s: "dropWhile is_comma s = c # cs"
  have "length (dropWhile (\<lambda>x. \<not> is_comma x) cs) \<le> length cs" by (rule length_dropWhile_le)
  also have "length cs < length s" using length_dropWhile_le [of is_comma s] s by simp
  finally show "(dropWhile (\<lambda>x. \<not> is_comma x) cs, s) \<in> measure length" by simp
qed

declare comma_words.simps [simp del]

definition strtok_cut :: "string \<Rightarrow> string" where
  "strtok_cut s = takeWhile is_comma s @ takeWhile (\<lambda>x. \<not> is_comma x) (dropWhile is_comma s)"

subsection \<open>The settings and the state\<close>

record amqp_settings =
  as_hostnames :: string
  as_virtual_host :: string
  as_port :: int
  as_username :: string
  as_password :: string
  as_heartbeat :: int
  as_event_exchange :: string
  as_event_exchange_type :: string
  as_key_format :: string
  as_key_fields :: string
  as_command_exchange :: string
  as_command_exchange_type :: string
  as_command_binding :: string
  as_queue_size :: int
  as_breaker_ms :: int
  as_reconnect_ms :: int
  as_filter :: string

record amqp_message =
  am_routing_key :: string
  am_json :: string

text \<open>
  Of the connections, the one for events and the one for commands have a number, and \<open>ag_live\<close> holds the
  numbers that are not destroyed yet.
\<close>

record amqp_globals =
  ag_settings :: amqp_settings
  ag_fields :: "string option list"
  ag_ids :: "uint32_t list"
  ag_bound :: "uint32_t list"
  ag_running :: bool
  ag_reset_time :: int
  ag_write_log :: bool
  ag_queue :: "amqp_message list"
  ag_capacity :: int
  ag_event_conn :: "nat option"
  ag_command_conn :: "nat option"
  ag_live :: "nat set"
  ag_next :: nat

text \<open>An event: what a header of it is, and its text as JSON.\<close>

record fs_event =
  ev_header :: "string \<Rightarrow> string option"
  ev_json :: string

record amqp_env =
  ae_ids :: "string \<Rightarrow> uint32_t"
  ae_all :: nat
  ae_parse :: "bool \<Rightarrow> amqp_settings \<Rightarrow> amqp_settings option"
  ae_bind :: "uint32_t \<Rightarrow> bool"

subsection \<open>Logging the configuration\<close>

definition log_head :: "amqp_settings \<Rightarrow> string" where
  "log_head s =
     ''Amqp Settings:-'' @ [LF] @ '' amqpHostnames: '' @ as_hostnames s @ [LF] @ '' amqpVirtualHost: '' @ as_virtual_host s @ [LF] @
     '' amqpPort: '' @ c_int_text (as_port s) @ [LF] @ '' amqpUsername: '' @ as_username s @ [LF] @
     '' amqpHeartbeatSeconds: '' @ c_int_text (as_heartbeat s) @ [LF] @ '' eventExchange: '' @ as_event_exchange s @ [LF] @
     '' eventExchangeType: '' @ as_event_exchange_type s @ [LF] @ '' commandExchange: '' @ as_command_exchange s @ [LF] @
     '' commandExchangeType: '' @ as_command_exchange_type s @ [LF] @ '' commandBindingKey: '' @ as_command_binding s @ [LF] @
     '' amqpSendQueueSize: '' @ c_int_text (as_queue_size s) @ [LF] @ '' circuit_breaker_ms: '' @ c_int_text (as_breaker_ms s) @ [LF] @
     '' reconnect_interval_ms: '' @ c_int_text (as_reconnect_ms s) @ [LF] @ '' eventFilter: ''"

text \<open>
  The names are printed behind the head, with the room computed from the cursor as a \<open>size_t\<close>; the cursor
  advances by the length of the whole text.
\<close>

fun log_filters :: "nat \<Rightarrow> string list \<Rightarrow> crash + nat" where
  "log_filters off [] = Inr off"
| "log_filters off (t # ts) =
     (let n = size_t_minus 1022 off
      in if n \<noteq> 0 \<and> off + min (length t) (n - 1) + 1 > 1024 then Inl Out_Of_Bounds else log_filters (off + length t) ts)"

definition filter_text :: "(string \<Rightarrow> uint32_t) \<Rightarrow> uint32_t \<Rightarrow> string" where
  "filter_text ids e = fs_event_get_name ids e @ ''('' @ c_int_text (sint e) @ '') ''"

definition log_config_values :: "amqp_env \<Rightarrow> amqp_globals \<Rightarrow> crash + nat" where
  "log_config_values env g =
     log_filters (min (length (log_head (ag_settings g))) 1023) (map (filter_text (ae_ids env)) (ag_ids g))"

subsection \<open>\<open>do_config\<close>\<close>

definition default_settings :: "amqp_settings \<Rightarrow> amqp_settings" where
  "default_settings s =
     s\<lparr>as_hostnames := ''localhost'', as_virtual_host := ''/'', as_port := 5672, as_username := ''guest'', as_password := ''guest'',
       as_heartbeat := 0, as_event_exchange := ''TAP.Events'', as_event_exchange_type := ''topic'',
       as_key_format := ''NoRoutingKeySpecified'', as_key_fields := [], as_command_exchange := ''TAP.Commands'',
       as_command_exchange_type := ''topic'', as_command_binding := ''#'', as_queue_size := 500, as_breaker_ms := 10000,
       as_reconnect_ms := 1000\<rparr>"

definition close_connection :: "nat option \<Rightarrow> amqp_globals \<Rightarrow> amqp_globals" where
  "close_connection c g = (case c of None \<Rightarrow> g | Some k \<Rightarrow> g\<lparr>ag_live := ag_live g - {k}\<rparr>)"

definition close_event_conn :: "amqp_globals \<Rightarrow> amqp_globals" where
  "close_event_conn g = (close_connection (ag_event_conn g) g)\<lparr>ag_event_conn := None\<rparr>"

definition close_command_conn :: "amqp_globals \<Rightarrow> amqp_globals" where
  "close_command_conn g = (close_connection (ag_command_conn g) g)\<lparr>ag_command_conn := None\<rparr>"

fun bind_events :: "(uint32_t \<Rightarrow> bool) \<Rightarrow> uint32_t list \<Rightarrow> bool \<times> uint32_t list" where
  "bind_events ok [] = (True, [])"
| "bind_events ok (e # es) = (if ok e then (case bind_events ok es of (b, bs) \<Rightarrow> (b, e # bs)) else (False, []))"

definition amqp_do_config :: "amqp_env \<Rightarrow> bool \<Rightarrow> amqp_globals \<Rightarrow> crash + switch_status \<times> amqp_globals" where
  "amqp_do_config env reload g =
     (case ae_parse env reload (ag_settings g) of
        None \<Rightarrow>
          (let g1 = g\<lparr>ag_settings := default_settings (ag_settings g), ag_ids := [ae_ids env ''SWITCH_EVENT_ALL''],
                      ag_fields := replicate 10 None\<rparr>
           in case log_config_values env g1 of Inl e \<Rightarrow> Inl e | Inr _ \<Rightarrow> Inr (SWITCH_STATUS_FALSE, g1))
      | Some s \<Rightarrow>
          (let fields = comma_words (as_key_fields s);
               g1 = g\<lparr>ag_settings := s\<lparr>as_key_fields := strtok_cut (as_key_fields s)\<rparr>,
                      ag_fields := map Some (take 10 fields) @ replicate (10 - length fields) None\<rparr>
           in if length fields > 10 then Inr (SWITCH_STATUS_FALSE, g1)
              else let g2 = g1\<lparr>ag_settings := (ag_settings g1)\<lparr>as_filter := strtok_cut (as_filter s)\<rparr>,
                               ag_ids := map (parse_fs_event_name (ae_ids env)) (take (ae_all env) (comma_words (as_filter s)))\<rparr>
                   in case log_config_values env g2 of
                        Inl e \<Rightarrow> Inl e
                      | Inr _ \<Rightarrow>
                          let g3 = (if reload then close_command_conn (close_event_conn g2) else g2);
                              (ok, bound) = bind_events (ae_bind env) (ag_ids g3)
                          in Inr (if ok then SWITCH_STATUS_SUCCESS else SWITCH_STATUS_FALSE, g3\<lparr>ag_bound := bound\<rparr>)))"

subsection \<open>\<open>makeRoutingKey\<close>\<close>

text \<open>
  \<open>fieldValues\<close> is 10 times 128 characters one behind the other.  \<open>strncpy\<close> fills the 128 of a field, with
  no NUL when the value is longer; the loop that replaces dots runs to the next NUL.
\<close>

definition no_dot :: "char \<Rightarrow> char" where
  "no_dot c = (if c = CHR ''.'' then CHR ''_'' else c)"

definition field_value :: "fs_event \<Rightarrow> string \<Rightarrow> string" where
  "field_value evt name = (case ev_header evt name of None \<Rightarrow> [] | Some v \<Rightarrow> v)"

definition strncpy_128 :: "string \<Rightarrow> char list" where
  "strncpy_128 v = take 128 v @ replicate (128 - length v) NUL"

definition replace_dots :: "nat \<Rightarrow> char list \<Rightarrow> crash + char list" where
  "replace_dots off buf =
     (if NUL \<in> set (drop off buf)
      then Inr (take off buf @ map no_dot (buf_string buf off) @ dropWhile (\<lambda>c. c \<noteq> NUL) (drop off buf))
      else Inl Out_Of_Bounds)"

fun fill_fields :: "fs_event \<Rightarrow> nat \<Rightarrow> string option list \<Rightarrow> char list \<Rightarrow> crash + char list" where
  "fill_fields evt i [] buf = Inr buf"
| "fill_fields evt i (None # fs) buf = fill_fields evt (Suc i) fs (buf[i * 128 := NUL])"
| "fill_fields evt i (Some name # fs) buf =
     (case replace_dots (i * 128) (buf_write buf (i * 128) (strncpy_128 (field_value evt name))) of
        Inl e \<Rightarrow> Inl e
      | Inr buf1 \<Rightarrow> fill_fields evt (Suc i) fs buf1)"

text \<open>\<open>printf\<close> with strings for arguments; any other conversion, and one for which no argument is left, is undefined.\<close>

fun format_strings :: "string \<Rightarrow> string list \<Rightarrow> crash + string" where
  "format_strings [] args = Inr []"
| "format_strings (c # cs) args =
     (if c \<noteq> CHR ''%'' then map_sum id ((#) c) (format_strings cs args)
      else (case cs of
              [] \<Rightarrow> Inl Wild_Pointer
            | d # ds \<Rightarrow>
                if d = CHR ''%'' then map_sum id ((#) c) (format_strings ds args)
                else if d = CHR ''s''
                then (case args of [] \<Rightarrow> Inl Wild_Pointer | a # rest \<Rightarrow> map_sum id ((@) a) (format_strings ds rest))
                else Inl Wild_Pointer))"

definition make_routing_key :: "char list \<Rightarrow> fs_event \<Rightarrow> string \<Rightarrow> string option list \<Rightarrow> crash + string" where
  "make_routing_key junk evt fmt names =
     (case fill_fields evt 0 names junk of
        Inl e \<Rightarrow> Inl e
      | Inr buf \<Rightarrow> map_sum id (take 254) (format_strings fmt (map (\<lambda>i. buf_string buf (i * 128)) [0..<10])))"

subsection \<open>\<open>mod_AMQP_event_handler\<close>\<close>

text \<open>The product with 1000 is of type \<open>int\<close>.\<close>

definition breaker_time :: "int \<Rightarrow> int \<Rightarrow> int" where
  "breaker_time now ms = now + sint (word_of_int (ms * 1000) :: 32 word)"

definition event_handler :: "char list \<Rightarrow> int \<Rightarrow> fs_event \<Rightarrow> amqp_globals \<Rightarrow> crash + amqp_globals" where
  "event_handler junk now evt g =
     (if \<not> ag_running g \<or> now < ag_reset_time g then Inr g
      else let half = as_queue_size (ag_settings g) div 2;
               g1 = (if ag_write_log g = (int (length (ag_queue g)) > half) then g\<lparr>ag_write_log := \<not> ag_write_log g\<rparr> else g)
           in (case make_routing_key junk evt (as_key_format (ag_settings g)) (ag_fields g) of
                 Inl e \<Rightarrow> Inl e
               | Inr key \<Rightarrow>
                   Inr (if int (length (ag_queue g)) < ag_capacity g
                        then g1\<lparr>ag_queue := ag_queue g @ [\<lparr>am_routing_key = key, am_json = ev_json evt\<rparr>]\<rparr>
                        else g1\<lparr>ag_reset_time := breaker_time now (as_breaker_ms (ag_settings g))\<rparr>)))"

subsection \<open>Connections\<close>

text \<open>
  What the broker does with an attempt: which hosts answer, and whether the login, the channel and the
  exchange are accepted.  \<open>amqpHostnames\<close> is split in place, up to the host that answers.
\<close>

record amqp_broker =
  br_answers :: "string \<Rightarrow> bool"
  br_accepts :: bool

definition open_connection :: "amqp_broker \<Rightarrow> nat option \<Rightarrow> amqp_globals \<Rightarrow> nat option \<times> amqp_globals" where
  "open_connection br old g =
     (let hosts = as_hostnames (ag_settings g); k = ag_next g;
          g1 = g\<lparr>ag_next := k + 1, ag_live := insert k (ag_live g),
                 ag_settings := (ag_settings g)\<lparr>as_hostnames := strtok_cut hosts\<rparr>\<rparr>
      in if find (br_answers br) (comma_words hosts) \<noteq> None \<and> br_accepts br
         then (Some k, close_connection old g1) else (old, g1))"

definition bounce_connection :: "amqp_broker \<Rightarrow> amqp_globals \<Rightarrow> amqp_globals" where
  "bounce_connection br g =
     (let g1 = close_event_conn g; (c, g2) = open_connection br None g1 in g2\<lparr>ag_event_conn := c\<rparr>)"

subsection \<open>The thread that sends\<close>

text \<open>
  One round of the main loop, with the message in hand and those sent so far; \<open>sends\<close> is whether
  \<open>amqp_basic_publish\<close> succeeds.  An empty queue is waited for, or the wait is interrupted.
\<close>

record amqp_sender =
  sn_message :: "amqp_message option"
  sn_sent :: "amqp_message list"

definition amqp_send :: "bool \<Rightarrow> amqp_message \<Rightarrow> amqp_sender \<Rightarrow> amqp_globals \<Rightarrow> amqp_sender \<times> amqp_globals" where
  "amqp_send sends m sn g =
     (if sends then (sn\<lparr>sn_message := None, sn_sent := sn_sent sn @ [m]\<rparr>, g)
      else (sn\<lparr>sn_message := Some m\<rparr>, close_event_conn g))"

definition consumer_round :: "amqp_broker \<Rightarrow> bool \<Rightarrow> amqp_sender \<Rightarrow> amqp_globals \<Rightarrow> amqp_sender \<times> amqp_globals" where
  "consumer_round br sends sn g =
     (if \<not> ag_running g then (sn, g)
      else if ag_event_conn g = None then (sn, bounce_connection br g)
      else (case sn_message sn of
              Some m \<Rightarrow> amqp_send sends m sn g
            | None \<Rightarrow>
                (case ag_queue g of
                   [] \<Rightarrow> (sn, g)
                 | m # ms \<Rightarrow> amqp_send sends m sn (g\<lparr>ag_queue := ms\<rparr>))))"

text \<open>What the thread does when the module stops: at most as many messages as the queue holds are dropped.\<close>

definition consumer_stop :: "amqp_globals \<Rightarrow> amqp_globals" where
  "consumer_stop g = (close_event_conn g)\<lparr>ag_queue := drop (nat (as_queue_size (ag_settings g))) (ag_queue g)\<rparr>"

subsection \<open>The module\<close>

datatype amqp_action =
    Happens int fs_event
  | Round amqp_broker bool
  | Amqp_Reload

definition amqp_act :: "amqp_env \<Rightarrow> char list \<Rightarrow> amqp_action \<Rightarrow> amqp_sender \<times> amqp_globals \<Rightarrow> crash + amqp_sender \<times> amqp_globals" where
  "amqp_act env junk a s =
     (case a of
        Happens now evt \<Rightarrow> map_sum id (Pair (fst s)) (event_handler junk now evt (snd s))
      | Round br sends \<Rightarrow> Inr (consumer_round br sends (fst s) (snd s))
      | Amqp_Reload \<Rightarrow> map_sum id (\<lambda>r. (fst s, snd r)) (amqp_do_config env True (snd s)))"

fun amqp_run :: "amqp_env \<Rightarrow> char list \<Rightarrow> amqp_action list \<Rightarrow> amqp_sender \<times> amqp_globals \<Rightarrow> crash + amqp_sender \<times> amqp_globals" where
  "amqp_run env junk [] s = Inr s"
| "amqp_run env junk (a # as) s = (case amqp_act env junk a s of Inl e \<Rightarrow> Inl e | Inr s1 \<Rightarrow> amqp_run env junk as s1)"

definition empty_settings :: amqp_settings where
  "empty_settings =
     \<lparr>as_hostnames = [], as_virtual_host = [], as_port = 0, as_username = [], as_password = [], as_heartbeat = 0,
      as_event_exchange = [], as_event_exchange_type = [], as_key_format = [], as_key_fields = [], as_command_exchange = [],
      as_command_exchange_type = [], as_command_binding = [], as_queue_size = 0, as_breaker_ms = 0, as_reconnect_ms = 0, as_filter = []\<rparr>"

definition mod_amqp_load :: "amqp_env \<Rightarrow> crash + amqp_globals" where
  "mod_amqp_load env =
     (case amqp_do_config env False
        \<lparr>ag_settings = empty_settings, ag_fields = replicate 10 None, ag_ids = [], ag_bound = [], ag_running = False,
         ag_reset_time = 0, ag_write_log = True, ag_queue = [], ag_capacity = 0, ag_event_conn = None, ag_command_conn = None,
         ag_live = {}, ag_next = 0\<rparr> of
        Inl e \<Rightarrow> Inl e
      | Inr (_, g) \<Rightarrow> Inr (g\<lparr>ag_capacity := as_queue_size (ag_settings g), ag_running := True\<rparr>))"

subsection \<open>Names and words\<close>

lemma find_in_list: "find P xs = Some x \<Longrightarrow> x \<in> set xs \<and> P x"
  by (induction xs) (auto split: if_splits)

lemma find_distinct_image:
  "x \<in> set xs \<Longrightarrow> inj_on f (set xs) \<Longrightarrow> find (\<lambda>y. f y = f x) xs = Some x"
  by (induction xs) (auto simp: inj_on_def)

definition name_char :: "char \<Rightarrow> bool" where
  "name_char c \<longleftrightarrow> c_isupper c \<or> c = CHR ''_''"

lemma event_names_chars: "list_all (list_all name_char) event_names"
  by code_simp

lemma upper_code: "c_isupper c \<Longrightarrow> 65 \<le> (of_char c :: nat) \<and> of_char c \<le> (90 :: nat)"
proof -
  assume "c_isupper c"
  then have "65 \<le> (of_char c :: int)" "of_char c \<le> (90 :: int)"
    using of_char_int_range [of c] by (simp_all add: c_isupper_def char_int_def Let_def split: if_splits)
  moreover have "int (of_char c) = of_char c" by (rule of_nat_of_char)
  ultimately show ?thesis by linarith
qed

lemma name_char_code:
  assumes "name_char c"
  shows "of_char (c_tolower c) = (if c_isupper c then of_char c + 32 else of_char c :: nat)"
  using upper_code [of c] by (auto simp: c_tolower_def)

lemma name_char_case:
  assumes "name_char c" "name_char d" "c_tolower c = c_tolower d"
  shows "c = d"
proof -
  have u: "\<not> c_isupper e \<Longrightarrow> name_char e \<Longrightarrow> of_char e = (95 :: nat)" for e by (auto simp: name_char_def)
  have "(if c_isupper c then of_char c + 32 else of_char c :: nat) = (if c_isupper d then of_char d + 32 else of_char d)"
    using name_char_code [OF assms(1)] name_char_code [OF assms(2)] assms(3) by metis
  then have "of_char c = (of_char d :: nat)"
    using upper_code [of c] upper_code [of d] u [of c, OF _ assms(1)] u [of d, OF _ assms(2)]
    by (cases "c_isupper c"; cases "c_isupper d") (simp_all only: if_True if_False, linarith+)
  then show ?thesis by (simp only: of_char_eq_iff)
qed

lemma event_names_caseless: "inj_on (map c_tolower) (set event_names)"
proof (rule inj_onI)
  fix s t
  assume "s \<in> set event_names" "t \<in> set event_names" and eq: "map c_tolower s = map c_tolower t"
  then have "list_all name_char s" "list_all name_char t" using event_names_chars by (auto simp: list_all_iff)
  then show "s = t" using eq
  proof (induction s arbitrary: t)
    case (Cons c s)
    then obtain d t' where t: "t = d # t'" "c_tolower c = c_tolower d" by auto
    with Cons.prems name_char_case [of c d] have "c = d" by simp
    with Cons t show ?case by auto
  qed simp
qed

text \<open>
  The names of the events and the numbers of the enumeration are translated into each other: a name,
  in any case of its letters, gives the number of its event, and a number the name it came from.
\<close>

lemma event_name_translated:
  assumes "inj_on ids (set event_names)" "n \<in> set event_names" "map c_tolower s = map c_tolower n"
  shows "parse_fs_event_name ids s = ids n \<and> fs_event_get_name ids (parse_fs_event_name ids s) = n"
proof -
  have "find (c_strcaseeq s) event_names = find (\<lambda>y. map c_tolower y = map c_tolower n) event_names"
    by (rule find_cong) (auto simp: c_strcaseeq_def assms(3))
  also have "\<dots> = Some n" by (rule find_distinct_image [OF assms(2) event_names_caseless])
  finally have "parse_fs_event_name ids s = ids n" by (simp add: parse_fs_event_name_def)
  then show ?thesis using find_distinct_image [OF assms(2,1)] by (simp add: fs_event_get_name_def)
qed

lemma comma_words_none: "dropWhile is_comma s = [] \<Longrightarrow> comma_words s = []"
  by (subst comma_words.simps) (simp only: list.case)

lemma comma_words_cut: "comma_words (strtok_cut s) = take 1 (comma_words s)"
proof (cases "dropWhile is_comma s")
  case Nil
  then have "strtok_cut s = takeWhile is_comma s" unfolding strtok_cut_def Nil by simp
  moreover have "dropWhile is_comma (takeWhile is_comma s) = []" by (simp add: dropWhile_eq_Nil_conv) (metis set_takeWhileD)
  ultimately have "comma_words (strtok_cut s) = []" by (simp only: comma_words_none)
  then show ?thesis by (simp only: comma_words_none [OF Nil] take_Nil)
next
  case (Cons c cs)
  have c: "\<not> is_comma c" using Cons by (metis dropWhile_eq_Cons_conv)
  let ?w = "takeWhile (\<lambda>x. \<not> is_comma x) cs"
  have cut: "strtok_cut s = takeWhile is_comma s @ c # ?w" using Cons c by (simp add: strtok_cut_def)
  have rest: "dropWhile is_comma (strtok_cut s) = c # ?w"
    unfolding cut using c by (subst dropWhile_append2) (auto dest: set_takeWhileD)
  have "dropWhile (\<lambda>x. \<not> is_comma x) ?w = []" by (simp add: dropWhile_eq_Nil_conv) (metis set_takeWhileD)
  then have none: "comma_words (dropWhile (\<lambda>x. \<not> is_comma x) ?w) = []"
    by (simp only: comma_words_none dropWhile.simps)
  have "takeWhile (\<lambda>x. \<not> is_comma x) (c # ?w) = c # ?w" using c by (simp only: takeWhile.simps takeWhile_idem if_True not_False_eq_True)
  then have "comma_words (strtok_cut s) = [c # ?w]"
    by (subst comma_words.simps) (simp only: rest list.case none)
  with Cons c show ?thesis by (simp add: comma_words.simps [of s])
qed

subsection \<open>The routing key\<close>

text \<open>A format of plain characters and fields, and the text it stands for.\<close>

datatype key_part = Plain char | Field

fun part_format :: "key_part \<Rightarrow> string" where
  "part_format (Plain c) = (if c = CHR ''%'' then ''%%'' else [c])"
| "part_format Field = ''%s''"

fun parts_text :: "key_part list \<Rightarrow> string list \<Rightarrow> string" where
  "parts_text [] vs = []"
| "parts_text (Plain c # ps) vs = c # parts_text ps vs"
| "parts_text (Field # ps) vs = hd vs @ parts_text ps (tl vs)"

lemma format_parts:
  "length (filter ((=) Field) ps) \<le> length vs \<Longrightarrow> format_strings (concat (map part_format ps)) vs = Inr (parts_text ps vs)"
proof (induction ps arbitrary: vs)
  case (Cons p ps)
  then show ?case by (cases p; cases vs) auto
qed simp

text \<open>After \<open>i\<close> fields with values that fit, the buffer holds them, one at every 128 characters.\<close>

definition field_text :: "fs_event \<Rightarrow> string option \<Rightarrow> string" where
  "field_text evt f = (case f of None \<Rightarrow> [] | Some name \<Rightarrow> map no_dot (field_value evt name))"

definition clean_value :: "string \<Rightarrow> bool" where
  "clean_value v \<longleftrightarrow> length v < 128 \<and> NUL \<notin> set v"

lemma no_dot_NUL: "no_dot c = NUL \<longleftrightarrow> c = NUL"
  by (simp add: no_dot_def NUL_def)

lemma takeWhile_NUL: "NUL \<notin> set v \<Longrightarrow> takeWhile (\<lambda>c. c \<noteq> NUL) (v @ NUL # r) = v"
  by (induction v) auto

lemma dropWhile_NUL: "NUL \<notin> set v \<Longrightarrow> dropWhile (\<lambda>c. c \<noteq> NUL) (v @ NUL # r) = NUL # r"
  by (induction v) auto

lemma replace_dots_clean:
  assumes "clean_value v" "off + 128 \<le> length buf"
  shows "\<exists>pad. replace_dots off (buf_write buf off (strncpy_128 v)) =
    Inr (take off buf @ map no_dot v @ NUL # pad @ drop (off + 128) buf) \<and> length pad = 127 - length v"
proof -
  let ?pad = "replicate (127 - length v) NUL"
  have "strncpy_128 v = v @ replicate (Suc (127 - length v)) NUL"
    using assms(1) by (simp add: strncpy_128_def clean_value_def Suc_diff_le [symmetric])
  then have w: "strncpy_128 v = v @ NUL # ?pad" by simp
  have "length (strncpy_128 v) = 128" using assms(1) by (simp add: w clean_value_def)
  then have buf: "buf_write buf off (strncpy_128 v) = take off buf @ v @ NUL # ?pad @ drop (off + 128) buf"
    by (simp add: buf_write_def w)
  have off: "length (take off buf) = off" using assms(2) by simp
  have d: "drop off (take off buf @ v @ NUL # ?pad @ drop (off + 128) buf) = v @ NUL # ?pad @ drop (off + 128) buf"
    "take off (take off buf @ v @ NUL # ?pad @ drop (off + 128) buf) = take off buf"
    using off by simp_all
  have n: "NUL \<notin> set v" using assms(1) by (simp add: clean_value_def)
  have "replace_dots off (buf_write buf off (strncpy_128 v)) = Inr (take off buf @ map no_dot v @ NUL # ?pad @ drop (off + 128) buf)"
    unfolding buf replace_dots_def buf_string_def d takeWhile_NUL [OF n] dropWhile_NUL [OF n] by simp
  then show ?thesis by (intro exI [of _ ?pad]) simp
qed

definition field_at :: "char list \<Rightarrow> nat \<Rightarrow> string \<Rightarrow> bool" where
  "field_at buf off t \<longleftrightarrow> NUL \<notin> set t \<and> (\<exists>pad. drop off (take (off + 128) buf) = t @ NUL # pad)"

lemma field_at_string:
  assumes "field_at buf off t"
  shows "buf_string buf off = t"
proof -
  from assms obtain pad where pad: "drop off (take (off + 128) buf) = t @ NUL # pad" "NUL \<notin> set t" by (auto simp: field_at_def)
  have "drop off (take (off + 128) buf) = take 128 (drop off buf)" by (simp add: drop_take)
  then have "drop off buf = drop off (take (off + 128) buf) @ drop 128 (drop off buf)" by (simp only: append_take_drop_id)
  with pad show ?thesis by (simp add: buf_string_def takeWhile_NUL)
qed

lemma field_at_cong: "take off' buf' = take off' buf \<Longrightarrow> off + 128 \<le> off' \<Longrightarrow> field_at buf' off t \<longleftrightarrow> field_at buf off t"
  unfolding field_at_def by (metis min.absorb2 min.commute take_take)

definition holds_fields :: "fs_event \<Rightarrow> string option list \<Rightarrow> char list \<Rightarrow> bool" where
  "holds_fields evt set_fields buf \<longleftrightarrow> (\<forall>j < length set_fields. field_at buf (j * 128) (field_text evt (set_fields ! j)))"

lemma holds_fields_next:
  assumes "holds_fields evt fs buf" "take (length fs * 128) buf' = take (length fs * 128) buf" "field_at buf' (length fs * 128) (field_text evt f)"
  shows "holds_fields evt (fs @ [f]) buf'"
proof -
  have "field_at buf' (j * 128) (field_text evt (fs ! j))" if "j < length fs" for j
  proof -
    have "j * 128 + 128 \<le> length fs * 128" using that by simp
    then have "field_at buf' (j * 128) (field_text evt (fs ! j)) \<longleftrightarrow> field_at buf (j * 128) (field_text evt (fs ! j))"
      by (rule field_at_cong [OF assms(2)])
    then show ?thesis using assms(1) that by (simp add: holds_fields_def)
  qed
  with assms(3) show ?thesis by (auto simp: holds_fields_def nth_append less_Suc_eq)
qed

lemma one_field_filled:
  assumes "length buf = 1280" "length fs < 10" "holds_fields evt fs buf" "\<And>name. f = Some name \<Longrightarrow> clean_value (field_value evt name)"
  shows "\<exists>buf1. fill_fields evt (length fs) (f # rest) buf = fill_fields evt (Suc (length fs)) rest buf1 \<and>
    length buf1 = 1280 \<and> holds_fields evt (fs @ [f]) buf1"
proof -
  let ?off = "length fs * 128"
  have off: "?off + 128 \<le> length buf" using assms(1,2) by simp
  show ?thesis
  proof (cases f)
    case None
    let ?buf = "buf[?off := NUL]"
    have "drop ?off (take (?off + 128) ?buf) = [] @ NUL # drop (Suc ?off) (take (?off + 128) buf)"
      using off by (simp add: take_update_swap drop_update_swap flip: Cons_nth_drop_Suc)
    then have "field_at ?buf ?off []" unfolding field_at_def by auto
    then have "holds_fields evt (fs @ [f]) ?buf"
      using None by (intro holds_fields_next [OF assms(3)]) (simp_all add: field_text_def)
    with None assms(1) show ?thesis by auto
  next
    case (Some name)
    let ?v = "field_value evt name"
    obtain pad where r: "replace_dots ?off (buf_write buf ?off (strncpy_128 ?v)) =
        Inr (take ?off buf @ map no_dot ?v @ NUL # pad @ drop (?off + 128) buf)" "length pad = 127 - length ?v"
      using replace_dots_clean [OF assms(4) [OF Some] off] by blast
    let ?buf = "take ?off buf @ map no_dot ?v @ NUL # pad @ drop (?off + 128) buf"
    have v: "length ?v < 128" "NUL \<notin> set ?v" using assms(4) [OF Some] by (simp_all add: clean_value_def)
    have len: "length ?buf = 1280" using off r(2) v(1) assms(1) by simp
    have "length (take ?off buf @ map no_dot ?v @ NUL # pad) = ?off + 128" using off r(2) v(1) by simp
    moreover have "?buf = (take ?off buf @ map no_dot ?v @ NUL # pad) @ drop (?off + 128) buf" by simp
    ultimately have "take (?off + 128) ?buf = take ?off buf @ map no_dot ?v @ NUL # pad" by (metis append_eq_conv_conj)
    then have "drop ?off (take (?off + 128) ?buf) = map no_dot ?v @ NUL # pad" using off by simp
    moreover have "NUL \<notin> set (map no_dot ?v)" using v(2) no_dot_NUL by (metis image_iff image_set)
    ultimately have "field_at ?buf ?off (field_text evt f)" unfolding field_at_def by (simp add: Some field_text_def)
    moreover have "take ?off ?buf = take ?off buf" using off by simp
    ultimately have "holds_fields evt (fs @ [f]) ?buf" by (intro holds_fields_next [OF assms(3)])
    with Some r(1) len show ?thesis by auto
  qed
qed

lemma fields_filled:
  assumes "length buf = 1280" "length fs + length rest \<le> 10" "holds_fields evt fs buf"
    "\<And>name. Some name \<in> set rest \<Longrightarrow> clean_value (field_value evt name)"
  shows "\<exists>buf1. fill_fields evt (length fs) rest buf = Inr buf1 \<and> holds_fields evt (fs @ rest) buf1"
  using assms
proof (induction rest arbitrary: fs buf)
  case (Cons f rest)
  have "length fs < 10" "\<And>name. f = Some name \<Longrightarrow> clean_value (field_value evt name)" using Cons.prems(2,4) by auto
  from one_field_filled [OF Cons.prems(1) this(1) Cons.prems(3) this(2)] obtain buf1 where
    buf1: "fill_fields evt (length fs) (f # rest) buf = fill_fields evt (Suc (length fs)) rest buf1" "length buf1 = 1280"
      "holds_fields evt (fs @ [f]) buf1" by blast
  with Cons.IH [of buf1 "fs @ [f]"] Cons.prems(2,4) show ?case by simp
qed simp

lemma key_made:
  assumes "length junk = 1280" "length names = 10" "\<And>name. Some name \<in> set names \<Longrightarrow> clean_value (field_value evt name)"
    "length (filter ((=) Field) ps) \<le> 10"
  shows "make_routing_key junk evt (concat (map part_format ps)) names = Inr (take 254 (parts_text ps (map (field_text evt) names)))"
proof -
  have "holds_fields evt [] junk" by (simp add: holds_fields_def)
  with fields_filled [of junk "[]" names evt] assms(1-3) obtain buf where
    buf: "fill_fields evt 0 names junk = Inr buf" "holds_fields evt names buf" by auto
  have "map (\<lambda>i. buf_string buf (i * 128)) [0..<10] = map (field_text evt) names"
    using buf(2) assms(2) by - (rule nth_equalityI, simp_all add: holds_fields_def field_at_string)
  with buf(1) format_parts [of ps "map (field_text evt) names"] assms(2,4) show ?thesis by (simp add: make_routing_key_def)
qed

text \<open>A value of 128 characters or more for the last field leaves no NUL behind it.\<close>

lemma last_field_overruns:
  assumes "length junk = 1280" "length fs = 9" "list_all ((=) None) fs" "field_value evt name = v" "128 \<le> length v" "NUL \<notin> set (take 128 v)"
  shows "make_routing_key junk evt fmt (fs @ [Some name]) = Inl Out_Of_Bounds"
proof -
  have nones: "fill_fields evt i (ns @ r) buf = fill_fields evt (i + length ns) r (fold (\<lambda>k b. b[k * 128 := NUL]) [i..<i + length ns] buf)"
    if "list_all ((=) None) ns" for ns i r buf
    using that
  proof (induction ns arbitrary: i buf)
    case (Cons n ns)
    then show ?case by (simp add: upt_conv_Cons del: upt_Suc)
  qed simp
  let ?buf = "fold (\<lambda>k b. b[k * 128 := NUL]) [0..<9] junk"
  have keep: "length (fold (\<lambda>k b. b[k * 128 := NUL]) ks b) = length b" for ks and b :: "char list"
    by (induction ks arbitrary: b) simp_all
  have "drop 1152 (buf_write ?buf 1152 (strncpy_128 v)) = take 128 v"
    using assms(1,5) by (simp add: buf_write_def strncpy_128_def keep)
  then have "replace_dots (9 * 128) (buf_write ?buf (9 * 128) (strncpy_128 v)) = Inl Out_Of_Bounds"
    using assms(6) by (simp add: replace_dots_def)
  then show ?thesis using nones [OF assms(3), of 0 "[Some name]" junk] assms(2,4)
    by (simp add: make_routing_key_def)
qed

subsection \<open>The queue and the messages sent\<close>

text \<open>The messages taken over from the handler, in their order: sent, in the hand of the thread, waiting.\<close>

definition taken :: "amqp_sender \<times> amqp_globals \<Rightarrow> amqp_message list" where
  "taken s = sn_sent (fst s) @ (case sn_message (fst s) of None \<Rightarrow> [] | Some m \<Rightarrow> [m]) @ ag_queue (snd s)"

definition steady :: "amqp_globals \<Rightarrow> amqp_globals \<Rightarrow> bool" where
  "steady g g' \<longleftrightarrow> ag_queue g' = ag_queue g \<and> ag_capacity g' = ag_capacity g \<and> ag_running g' = ag_running g"

lemma close_steady [simp]: "steady g (close_event_conn g)" "steady g (close_command_conn g)" "steady g (close_connection c g)"
  by (auto simp: steady_def close_event_conn_def close_command_conn_def close_connection_def split: option.split)

lemma steady_refl [simp]: "steady g g"
  by (simp add: steady_def)

lemma steady_trans: "steady a b \<Longrightarrow> steady b c \<Longrightarrow> steady a c"
  by (simp add: steady_def)

lemma bounce_steady: "steady g (bounce_connection br g)"
  by (auto simp: steady_def bounce_connection_def open_connection_def close_event_conn_def close_connection_def Let_def split: option.split)

lemma config_steady: "amqp_do_config env reload g = Inr (s, g') \<Longrightarrow> steady g g'"
  by (cases "ae_parse env reload (ag_settings g)")
    (auto simp: amqp_do_config_def Let_def steady_def close_event_conn_def close_command_conn_def close_connection_def
      split: if_splits sum.splits option.splits prod.splits)

definition event_texts :: "amqp_action list \<Rightarrow> string list" where
  "event_texts as = concat (map (\<lambda>a. case a of Happens now evt \<Rightarrow> [ev_json evt] | _ \<Rightarrow> []) as)"

lemma round_taken:
  "taken (consumer_round br sends sn g) = taken (sn, g) \<and> ag_capacity (snd (consumer_round br sends sn g)) = ag_capacity g \<and>
   length (ag_queue (snd (consumer_round br sends sn g))) \<le> length (ag_queue g)"
  using bounce_steady [of g br] close_steady(1) [of g]
  by (cases "sn_message sn"; cases "ag_queue g")
    (auto simp: consumer_round_def taken_def amqp_send_def steady_def close_event_conn_def close_connection_def split: option.split)

lemma handler_taken:
  assumes "event_handler junk now evt g = Inr g'" "int (length (ag_queue g)) \<le> ag_capacity g"
  shows "\<exists>ms. ag_queue g' = ag_queue g @ ms \<and> subseq (map am_json ms) [ev_json evt] \<and> ag_capacity g' = ag_capacity g \<and>
    int (length (ag_queue g')) \<le> ag_capacity g'"
  using assms by (auto simp: event_handler_def Let_def split: if_splits sum.splits)

lemma act_taken:
  assumes "amqp_act env junk a s = Inr s'" "int (length (ag_queue (snd s))) \<le> ag_capacity (snd s)"
  shows "\<exists>ms. taken s' = taken s @ ms \<and> subseq (map am_json ms) (event_texts [a]) \<and>
    int (length (ag_queue (snd s'))) \<le> ag_capacity (snd s')"
proof (cases a)
  case (Happens now evt)
  then obtain g' where g': "event_handler junk now evt (snd s) = Inr g'" "s' = (fst s, g')"
    using assms(1) by (cases "event_handler junk now evt (snd s)") (auto simp: amqp_act_def)
  from handler_taken [OF g'(1) assms(2)] obtain ms where "ag_queue g' = ag_queue (snd s) @ ms"
    "subseq (map am_json ms) [ev_json evt]" "int (length (ag_queue g')) \<le> ag_capacity g'" by blast
  with g'(2) Happens show ?thesis by (auto simp: taken_def event_texts_def)
next
  case (Round br sends)
  with assms round_taken [of br sends "fst s" "snd s"] show ?thesis by (auto simp: amqp_act_def event_texts_def)
next
  case Amqp_Reload
  then obtain st g' where g': "amqp_do_config env True (snd s) = Inr (st, g')" "s' = (fst s, g')"
    using assms(1) by (cases "amqp_do_config env True (snd s)") (auto simp: amqp_act_def)
  with config_steady [OF g'(1)] assms(2) Amqp_Reload show ?thesis by (auto simp: steady_def taken_def event_texts_def)
qed

lemma run_taken:
  assumes "amqp_run env junk as s = Inr s'" "int (length (ag_queue (snd s))) \<le> ag_capacity (snd s)"
  shows "\<exists>ms. taken s' = taken s @ ms \<and> subseq (map am_json ms) (event_texts as) \<and>
    int (length (ag_queue (snd s'))) \<le> ag_capacity (snd s')"
  using assms
proof (induction as arbitrary: s)
  case (Cons a as)
  then obtain s1 where s1: "amqp_act env junk a s = Inr s1" "amqp_run env junk as s1 = Inr s'" by (auto split: sum.splits)
  from act_taken [OF s1(1) Cons.prems(2)] obtain ms1 where ms1: "taken s1 = taken s @ ms1"
    "subseq (map am_json ms1) (event_texts [a])" "int (length (ag_queue (snd s1))) \<le> ag_capacity (snd s1)" by blast
  from Cons.IH [OF s1(2) ms1(3)] obtain ms2 where ms2: "taken s' = taken s1 @ ms2"
    "subseq (map am_json ms2) (event_texts as)" "int (length (ag_queue (snd s'))) \<le> ag_capacity (snd s')" by blast
  have "subseq (map am_json (ms1 @ ms2)) (event_texts [a] @ event_texts as)"
    unfolding map_append by (rule list_emb_append_mono [OF ms1(2) ms2(2)])
  then have "subseq (map am_json (ms1 @ ms2)) (event_texts (a # as))" by (simp add: event_texts_def)
  with ms1(1) ms2(1,3) show ?case by (intro exI [of _ "ms1 @ ms2"]) simp
qed (auto simp: event_texts_def)

text \<open>A thread that is connected, or can connect, and a broker that takes the messages.\<close>

lemma rounds_connected:
  assumes "ag_running g" "ag_event_conn g \<noteq> None" "length (ag_queue g) + (if sn_message sn = None then 0 else 1) \<le> n"
  shows "\<exists>g'. amqp_run env junk (replicate n (Round br True)) (sn, g) =
    Inr (\<lparr>sn_message = None, sn_sent = taken (sn, g)\<rparr>, g') \<and> ag_queue g' = []"
  using assms
proof (induction n arbitrary: sn g)
  case 0
  then show ?case by (cases sn) (auto simp: taken_def split: if_splits)
next
  case (Suc n)
  show ?case
  proof (cases "sn_message sn")
    case (Some m)
    let ?sn = "sn\<lparr>sn_message := None, sn_sent := sn_sent sn @ [m]\<rparr>"
    have "consumer_round br True sn g = (?sn, g)" using Suc.prems(1,2) Some by (auto simp: consumer_round_def amqp_send_def)
    moreover have "taken (?sn, g) = taken (sn, g)" using Some by (simp add: taken_def)
    ultimately show ?thesis using Suc.IH [of g ?sn] Suc.prems Some by (simp add: amqp_act_def)
  next
    case None
    show ?thesis
    proof (cases "ag_queue g")
      case Nil
      then have "consumer_round br True sn g = (sn, g)" using Suc.prems(1,2) None by (auto simp: consumer_round_def)
      with Suc.IH [of g sn] Suc.prems None Nil show ?thesis by (simp add: amqp_act_def)
    next
      case (Cons m ms)
      let ?sn = "sn\<lparr>sn_message := None, sn_sent := sn_sent sn @ [m]\<rparr>" and ?g = "g\<lparr>ag_queue := ms\<rparr>"
      have "consumer_round br True sn g = (?sn, ?g)"
        using Suc.prems(1,2) None Cons by (auto simp: consumer_round_def amqp_send_def)
      moreover have "taken (?sn, ?g) = taken (sn, g)" using None Cons by (simp add: taken_def)
      ultimately show ?thesis using Suc.IH [of ?g ?sn] Suc.prems None Cons by (simp add: amqp_act_def)
    qed
  qed
qed

lemma rounds_deliver:
  assumes "ag_running g" "ag_event_conn g = None" "\<exists>h\<in>set (comma_words (as_hostnames (ag_settings g))). br_answers br h" "br_accepts br"
    "length (ag_queue g) + (if sn_message sn = None then 0 else 1) \<le> n"
  shows "\<exists>g'. amqp_run env junk (replicate (Suc n) (Round br True)) (sn, g) =
    Inr (\<lparr>sn_message = None, sn_sent = taken (sn, g)\<rparr>, g') \<and> ag_queue g' = []"
proof -
  let ?g = "bounce_connection br g"
  have "find (br_answers br) (comma_words (as_hostnames (ag_settings g))) \<noteq> None"
    using assms(3) by (auto simp: find_None_iff)
  then have "ag_event_conn ?g \<noteq> None"
    using assms(2,4) by (auto simp: bounce_connection_def open_connection_def close_event_conn_def close_connection_def Let_def)
  moreover have "consumer_round br True sn g = (sn, ?g)" using assms(1,2) by (simp add: consumer_round_def)
  moreover have "ag_running ?g" "ag_queue ?g = ag_queue g" using bounce_steady [of g br] assms(1) by (simp_all add: steady_def)
  moreover have "taken (sn, ?g) = taken (sn, g)" using \<open>ag_queue ?g = ag_queue g\<close> by (simp add: taken_def)
  ultimately show ?thesis using rounds_connected [of ?g sn n env junk br] assms(5) by (simp add: amqp_act_def)
qed

subsection \<open>What goes wrong\<close>

lemma size_t_minus_below:
  assumes "a < b" "b < 2 ^ 63"
  shows "size_t_minus a b = 2 ^ 64 - (b - a)"
proof -
  have "of_nat (2 ^ 64 - (b - a)) = (of_nat (2 ^ 64) - of_nat (b - a) :: 64 word)"
    using assms by (intro of_nat_diff) simp
  also have "(of_nat (2 ^ 64) :: 64 word) = 0" by simp
  also have "0 - of_nat (b - a) = (of_nat a - of_nat b :: 64 word)" using assms by (simp add: of_nat_diff)
  finally have "size_t_minus a b = unat (of_nat (2 ^ 64 - (b - a)) :: 64 word)" by (simp only: size_t_minus_def)
  then show ?thesis using assms by (simp only: unat_of_nat) (simp add: take_bit_nat_eq_self)
qed

lemma log_filters_overrun:
  assumes "ts \<noteq> []" "\<forall>t\<in>set ts. 1 < length t" "off + sum_list (map length ts) < 2 ^ 63" "1022 < off + sum_list (map length (butlast ts))"
  shows "log_filters off ts = Inl Out_Of_Bounds"
  using assms
proof (induction ts arbitrary: off)
  case (Cons t ts)
  show ?case
  proof (cases "1022 < off")
    case True
    with Cons.prems have "size_t_minus 1022 off = 2 ^ 64 - (off - 1022)" by (intro size_t_minus_below) simp_all
    moreover have "length t < 2 ^ 64 - (off - 1022) - 1" using Cons.prems(3) by simp
    ultimately show ?thesis using True Cons.prems(2,3) by (simp add: Let_def)
  next
    case False
    with Cons.prems have ts: "ts \<noteq> []" by auto
    have "log_filters (off + length t) ts = Inl Out_Of_Bounds"
      using Cons.prems ts by (intro Cons.IH) (auto simp: add.assoc)
    then show ?thesis by (simp add: Let_def)
  qed
qed simp

lemma log_filters_fit:
  assumes "off + sum_list (map length (butlast ts)) \<le> 1022"
  shows "\<exists>n. log_filters off ts = Inr n"
  using assms
proof (induction ts arbitrary: off)
  case (Cons t ts)
  have off: "off \<le> 1022" using Cons.prems by (cases ts) auto
  then have n: "size_t_minus 1022 off = 1022 - off" by (intro size_t_minus_le) simp_all
  show ?case
  proof (cases "ts = []")
    case True
    have "off + min (length t) (1021 - off) \<le> 1023" using off min.cobounded2 [of "length t" "1021 - off"] by linarith
    with True n off show ?thesis by (simp add: Let_def)
  next
    case False
    have "off + min (length t) (1021 - off) \<le> 1023" using off min.cobounded2 [of "length t" "1021 - off"] by linarith
    with False Cons.prems Cons.IH [of "off + length t"] n off show ?thesis by (simp add: Let_def)
  qed
qed simp

text \<open>The words of a filter are printed with their numbers.\<close>

lemma filter_text_length: "3 \<le> length (filter_text ids e)"
  by (simp add: filter_text_def)

lemma config_log:
  assumes "ae_parse env reload (ag_settings g) = Some s" "length (comma_words (as_key_fields s)) \<le> 10"
    "ts = map (\<lambda>w. filter_text (ae_ids env) (parse_fs_event_name (ae_ids env) w)) (take (ae_all env) (comma_words (as_filter s)))"
    "log_filters (min (length (log_head s)) 1023) ts = Inl e"
  shows "amqp_do_config env reload g = Inl e"
  using assms by (simp add: amqp_do_config_def log_config_values_def log_head_def Let_def comp_def)

lemma config_log_overrun:
  assumes "ae_parse env reload (ag_settings g) = Some s" "length (comma_words (as_key_fields s)) \<le> 10"
    "ts = map (\<lambda>w. filter_text (ae_ids env) (parse_fs_event_name (ae_ids env) w)) (take (ae_all env) (comma_words (as_filter s)))"
    "ts \<noteq> []" "1022 < min (length (log_head s)) 1023 + sum_list (map length (butlast ts))" "sum_list (map length ts) < 2 ^ 62"
  shows "amqp_do_config env reload g = Inl Out_Of_Bounds"
proof (rule config_log [OF assms(1-3) log_filters_overrun])
  show "\<forall>t\<in>set ts. 1 < length t"
  proof
    fix t
    assume "t \<in> set ts"
    then obtain e where "t = filter_text (ae_ids env) e" using assms(3) by auto
    then show "1 < length t" using filter_text_length [of "ae_ids env" e] by simp
  qed
qed (use assms(4-6) in auto)

text \<open>After one attempt to connect only the first host is left.\<close>

lemma hosts_forgotten:
  "comma_words (as_hostnames (ag_settings (snd (open_connection br old g)))) = take 1 (comma_words (as_hostnames (ag_settings g)))"
  by (auto simp: open_connection_def Let_def comma_words_cut close_connection_def split: option.split)

lemma bounce_forgets:
  "comma_words (as_hostnames (ag_settings (bounce_connection br g))) = take 1 (comma_words (as_hostnames (ag_settings g)))"
  using hosts_forgotten [of br None "close_event_conn g"]
  by (auto simp: bounce_connection_def close_event_conn_def close_connection_def Let_def split: option.splits prod.split)

lemma other_hosts_unused:
  assumes "comma_words (as_hostnames (ag_settings g)) = h # hs" "\<not> br_answers br2 h"
  shows "ag_event_conn (bounce_connection br2 (bounce_connection br1 g)) = None"
proof -
  let ?g = "close_event_conn (bounce_connection br1 g)"
  have "comma_words (as_hostnames (ag_settings ?g)) = [h]"
    using bounce_forgets [of br1 g] assms(1) by (simp add: close_event_conn_def close_connection_def split: option.split)
  with assms(2) show ?thesis
    by (simp add: bounce_connection_def [of br2] open_connection_def [of br2] Let_def)
qed

text \<open>A full queue: the events of the next interval are dropped.\<close>

lemma full_queue_trips:
  assumes "ag_running g" "ag_reset_time g \<le> now" "int (length (ag_queue g)) = ag_capacity g"
    "make_routing_key junk evt (as_key_format (ag_settings g)) (ag_fields g) = Inr key"
    "0 \<le> as_breaker_ms (ag_settings g)" "as_breaker_ms (ag_settings g) \<le> 2147483"
  shows "\<exists>g'. event_handler junk now evt g = Inr g' \<and> ag_queue g' = ag_queue g \<and>
    (\<forall>later evt'. later < now + 1000 * as_breaker_ms (ag_settings g) \<longrightarrow> event_handler junk later evt' g' = Inr g')"
proof -
  have "sint (word_of_int (as_breaker_ms (ag_settings g) * 1000) :: 32 word) = as_breaker_ms (ag_settings g) * 1000"
    using assms(5,6) unfolding sint_sbintrunc' by (intro signed_take_bit_int_eq_self) simp_all
  with assms show ?thesis by (simp add: event_handler_def breaker_time_def Let_def)
qed

subsection \<open>The properties\<close>

text \<open>
  The names of the events and the numbers of the enumeration are translated into each other: a name,
  in any case of its letters, gives the number of its event, and the number gives the name back.
\<close>

theorem event_names_roundtrip:
  assumes "inj_on ids (set event_names)" "n \<in> set event_names" "map c_tolower s = map c_tolower n"
  shows "parse_fs_event_name ids s = ids n \<and> fs_event_get_name ids (parse_fs_event_name ids s) = n"
  by (rule event_name_translated [OF assms])

definition example_ids :: "string \<Rightarrow> uint32_t" where
  "example_ids s = of_nat (length (takeWhile (\<lambda>n. n \<noteq> s) event_names))"

lemma takeWhile_other_inj:
  "inj_on (\<lambda>s. length (takeWhile (\<lambda>n. n \<noteq> s) xs)) (set xs)"
proof (rule inj_onI)
  fix s t
  assume "s \<in> set xs" "t \<in> set xs" "length (takeWhile (\<lambda>n. n \<noteq> s) xs) = length (takeWhile (\<lambda>n. n \<noteq> t) xs)"
  then show "s = t" by (induction xs) (auto split: if_splits)
qed

lemma example_ids_inj: "inj_on example_ids (set event_names)"
proof (rule inj_onI)
  fix s t
  assume st: "s \<in> set event_names" "t \<in> set event_names" and eq: "example_ids s = example_ids t"
  have small: "length (takeWhile (\<lambda>n. n \<noteq> u) event_names) < 2 ^ 32" for u
  proof -
    have "length event_names = 86" by (simp add: event_names_def)
    with length_takeWhile_le [of "\<lambda>n. n \<noteq> u" event_names] show ?thesis by simp
  qed
  have "unat (of_nat (length (takeWhile (\<lambda>n. n \<noteq> u) event_names)) :: 32 word) = length (takeWhile (\<lambda>n. n \<noteq> u) event_names)" for u
    using small [of u] by (simp add: unat_of_nat take_bit_nat_eq_self)
  with eq have "length (takeWhile (\<lambda>n. n \<noteq> s) event_names) = length (takeWhile (\<lambda>n. n \<noteq> t) event_names)"
    unfolding example_ids_def by metis
  with st takeWhile_other_inj [of event_names] show "s = t" by (auto simp: inj_on_def)
qed

theorem event_names_roundtrip_witness:
  "fs_event_get_name example_ids (parse_fs_event_name example_ids ''Switch_Event_Channel_Park'') = ''SWITCH_EVENT_CHANNEL_PARK''"
proof -
  have "''SWITCH_EVENT_CHANNEL_PARK'' \<in> set event_names" by (simp add: event_names_def)
  moreover have "map c_tolower ''Switch_Event_Channel_Park'' = map c_tolower ''SWITCH_EVENT_CHANNEL_PARK''" by code_simp
  ultimately show ?thesis using event_names_roundtrip [OF example_ids_inj] by blast
qed

text \<open>
  C37:Values shorter than 128 characters and a format with at most 10 fields: whatever the buffer held, the
  routing key is the format filled with the values, a dot in a value as an underscore, cut to 254 characters.
\<close>

theorem routing_key_filled:
  assumes "length junk = 1280" "length names = 10" "\<And>name. Some name \<in> set names \<Longrightarrow> clean_value (field_value evt name)"
    "length (filter ((=) Field) ps) \<le> 10"
  shows "make_routing_key junk evt (concat (map part_format ps)) names = Inr (take 254 (parts_text ps (map (field_text evt) names)))"
  by (rule key_made [OF assms])

definition example_event :: fs_event where
  "example_event = \<lparr>ev_header = [''Event-Name'' \<mapsto> ''PARK'', ''Host'' \<mapsto> ''a.b''], ev_json = ''{}''\<rparr>"

definition example_names :: "string option list" where
  "example_names = [Some ''Host'', Some ''Event-Name'', Some ''None''] @ replicate 7 None"

lemma example_fields: "Some name \<in> set example_names \<Longrightarrow> clean_value (field_value example_event name)"
  by (auto simp: example_names_def example_event_def field_value_def clean_value_def NUL_def)

theorem routing_key_filled_witness:
  "make_routing_key (replicate 1280 CHR ''x'') example_event ''%s.%s/%s'' example_names = Inr ''a_b.PARK/''"
proof -
  have "make_routing_key (replicate 1280 CHR ''x'') example_event
      (concat (map part_format [Field, Plain CHR ''.'', Field, Plain CHR ''/'', Field])) example_names =
    Inr (take 254 (parts_text [Field, Plain CHR ''.'', Field, Plain CHR ''/'', Field] (map (field_text example_event) example_names)))"
    by (rule routing_key_filled) (simp_all add: example_fields, simp add: example_names_def)
  then show ?thesis
    by (simp add: example_names_def field_text_def field_value_def example_event_def no_dot_def)
qed

text \<open>
  C6:Whatever happens in whatever order, events, rounds of the thread with a broker that answers or fails,
  reloads: the messages sent, the one in hand and those waiting are together the ones taken over before and
  messages of the events in their order, none twice and none lost, and the queue stays within its capacity.
\<close>

theorem messages_kept_in_order:
  assumes "amqp_run env junk as s = Inr s'" "int (length (ag_queue (snd s))) \<le> ag_capacity (snd s)"
  shows "\<exists>ms. taken s' = taken s @ ms \<and> subseq (map am_json ms) (event_texts as) \<and>
    int (length (ag_queue (snd s'))) \<le> ag_capacity (snd s')"
  by (rule run_taken [OF assms])

definition example_amqp :: amqp_env where
  "example_amqp =
     \<lparr>ae_ids = example_ids, ae_all = 85, ae_parse = (\<lambda>reload s. Some
        (empty_settings\<lparr>as_hostnames := ''a,b'', as_key_format := ''%s'', as_key_fields := ''Event-Name'', as_queue_size := 2,
           as_breaker_ms := 10000, as_filter := ''SWITCH_EVENT_CHANNEL_PARK''\<rparr>)), ae_bind = (\<lambda>e. True)\<rparr>"

definition loaded_amqp :: amqp_globals where
  "loaded_amqp =
     \<lparr>ag_settings = empty_settings\<lparr>as_hostnames := ''a,b'', as_key_format := ''%s'', as_key_fields := ''Event-Name'', as_queue_size := 2,
           as_breaker_ms := 10000, as_filter := ''SWITCH_EVENT_CHANNEL_PARK''\<rparr>,
      ag_fields = Some ''Event-Name'' # replicate 9 None, ag_ids = [example_ids ''SWITCH_EVENT_CHANNEL_PARK''],
      ag_bound = [example_ids ''SWITCH_EVENT_CHANNEL_PARK''], ag_running = True,
      ag_reset_time = 0, ag_write_log = True, ag_queue = [], ag_capacity = 2, ag_event_conn = None, ag_command_conn = None,
      ag_live = {}, ag_next = 0\<rparr>"

definition idle_sender :: amqp_sender where
  "idle_sender = \<lparr>sn_message = None, sn_sent = []\<rparr>"

definition broker_at :: "string \<Rightarrow> amqp_broker" where
  "broker_at h = \<lparr>br_answers = (=) h, br_accepts = True\<rparr>"

definition example_run :: "amqp_action list" where
  "example_run =
     [Happens 5 example_event, Round (broker_at ''b'') True, Round (broker_at ''b'') False, Happens 6 (example_event\<lparr>ev_json := ''[]''\<rparr>)]"

lemma example_key: "make_routing_key (replicate 1280 CHR ''x'') (example_event\<lparr>ev_json := j\<rparr>) ''%s'' (Some ''Event-Name'' # replicate 9 None) = Inr ''PARK''"
proof -
  have "make_routing_key (replicate 1280 CHR ''x'') (example_event\<lparr>ev_json := j\<rparr>) (concat (map part_format [Field])) (Some ''Event-Name'' # replicate 9 None) =
    Inr (take 254 (parts_text [Field] (map (field_text (example_event\<lparr>ev_json := j\<rparr>)) (Some ''Event-Name'' # replicate 9 None))))"
    by (rule key_made) (auto simp: clean_value_def field_value_def example_event_def NUL_def)
  then show ?thesis by (simp add: field_text_def field_value_def example_event_def no_dot_def)
qed

lemma example_comma: "comma_words ''a,b'' = [''a'', ''b'']"
  by (simp add: comma_words.simps is_comma_def)

lemma example_runs:
  "\<exists>g. amqp_run example_amqp (replicate 1280 CHR ''x'') example_run (idle_sender, loaded_amqp) =
    Inr (idle_sender\<lparr>sn_message := Some \<lparr>am_routing_key = ''PARK'', am_json = ''{}''\<rparr>\<rparr>, g) \<and>
    ag_queue g = [\<lparr>am_routing_key = ''PARK'', am_json = ''[]''\<rparr>] \<and> ag_capacity g = 2 \<and> ag_event_conn g = None"
  using example_key [of "''{}''"] example_key [of "''[]''"] example_comma
  by (simp add: example_run_def amqp_act_def event_handler_def loaded_amqp_def idle_sender_def consumer_round_def bounce_connection_def
      open_connection_def close_event_conn_def close_connection_def amqp_send_def broker_at_def Let_def example_event_def)

theorem messages_kept_in_order_witness:
  "\<exists>s' ms. amqp_run example_amqp (replicate 1280 CHR ''x'') example_run (idle_sender, loaded_amqp) = Inr s' \<and>
    taken s' = ms \<and> subseq (map am_json ms) [''{}'', ''[]''] \<and> length ms = 2"
proof -
  obtain g where g: "amqp_run example_amqp (replicate 1280 CHR ''x'') example_run (idle_sender, loaded_amqp) =
    Inr (idle_sender\<lparr>sn_message := Some \<lparr>am_routing_key = ''PARK'', am_json = ''{}''\<rparr>\<rparr>, g)"
    "ag_queue g = [\<lparr>am_routing_key = ''PARK'', am_json = ''[]''\<rparr>]" using example_runs by blast
  have start: "taken (idle_sender, loaded_amqp) = []" "event_texts example_run = [''{}'', ''[]'']"
    by (simp_all add: taken_def idle_sender_def loaded_amqp_def event_texts_def example_run_def example_event_def)
  have "int (length (ag_queue (snd (idle_sender, loaded_amqp)))) \<le> ag_capacity (snd (idle_sender, loaded_amqp))"
    by (simp add: loaded_amqp_def)
  from messages_kept_in_order [OF g(1) this] show ?thesis
    unfolding start using g by (auto simp: taken_def idle_sender_def)
qed

text \<open>
  C36:The thread delivers: without a connection, with a host that answers and a broker that accepts, one round
  connects, and one more for every message sends all that was taken over, in its order.
\<close>

theorem reachable_broker_gets_all:
  assumes "ag_running g" "ag_event_conn g = None" "\<exists>h\<in>set (comma_words (as_hostnames (ag_settings g))). br_answers br h" "br_accepts br"
    "length (ag_queue g) + (if sn_message sn = None then 0 else 1) \<le> n"
  shows "\<exists>g'. amqp_run env junk (replicate (Suc n) (Round br True)) (sn, g) =
    Inr (\<lparr>sn_message = None, sn_sent = taken (sn, g)\<rparr>, g') \<and> ag_queue g' = []"
  by (rule rounds_deliver [OF assms])

theorem reachable_broker_gets_all_witness:
  "\<exists>g'. amqp_run example_amqp [] (replicate 3 (Round (broker_at ''b'') True))
      (idle_sender, loaded_amqp\<lparr>ag_queue := [\<lparr>am_routing_key = ''k'', am_json = ''1''\<rparr>, \<lparr>am_routing_key = ''l'', am_json = ''2''\<rparr>]\<rparr>) =
    Inr (\<lparr>sn_message = None, sn_sent = [\<lparr>am_routing_key = ''k'', am_json = ''1''\<rparr>, \<lparr>am_routing_key = ''l'', am_json = ''2''\<rparr>]\<rparr>, g')"
proof -
  let ?g = "loaded_amqp\<lparr>ag_queue := [\<lparr>am_routing_key = ''k'', am_json = ''1''\<rparr>, \<lparr>am_routing_key = ''l'', am_json = ''2''\<rparr>]\<rparr>"
  have "ag_running ?g" "ag_event_conn ?g = None" "\<exists>h\<in>set (comma_words (as_hostnames (ag_settings ?g))). br_answers (broker_at ''b'') h"
    "br_accepts (broker_at ''b'')" "length (ag_queue ?g) + (if sn_message idle_sender = None then 0 else 1) \<le> 2"
    by (simp_all add: loaded_amqp_def example_comma broker_at_def idle_sender_def)
  from reachable_broker_gets_all [OF this, of example_amqp "[]"] show ?thesis
    by (auto simp: taken_def idle_sender_def numeral_3_eq_3 numeral_2_eq_2)
qed

text \<open>
  C39:The list of hosts is split in place: after the first attempt to connect, its first host is the only one
  left, and when that one does not answer there is no connection, whoever else would.
\<close>

theorem other_hosts_never_tried_again:
  assumes "comma_words (as_hostnames (ag_settings g)) = h # hs" "\<not> br_answers br2 h"
  shows "ag_event_conn (bounce_connection br2 (bounce_connection br1 g)) = None"
  by (rule other_hosts_unused [OF assms])

theorem other_hosts_never_tried_again_witness:
  "ag_event_conn (bounce_connection (broker_at ''b'') loaded_amqp) = Some 0 \<and>
   ag_event_conn (bounce_connection (broker_at ''b'') (bounce_connection (broker_at ''b'') loaded_amqp)) = None"
proof
  show "ag_event_conn (bounce_connection (broker_at ''b'') loaded_amqp) = Some 0"
    by (simp add: bounce_connection_def open_connection_def close_event_conn_def close_connection_def loaded_amqp_def
        example_comma broker_at_def Let_def)
  show "ag_event_conn (bounce_connection (broker_at ''b'') (bounce_connection (broker_at ''b'') loaded_amqp)) = None"
    by (rule other_hosts_never_tried_again [where h = "''a''" and hs = "[''b'']"])
      (simp_all add: loaded_amqp_def example_comma broker_at_def)
qed

text \<open>
  A filter of many events: when the head of the text to log and the names of the events, but for the last, are
  longer than 1022 characters together, the configuration is not loaded but writes behind the buffer of 1024.
\<close>

theorem long_filter_overruns_log:
  assumes "ae_parse env reload (ag_settings g) = Some s" "length (comma_words (as_key_fields s)) \<le> 10"
    "ts = map (\<lambda>w. filter_text (ae_ids env) (parse_fs_event_name (ae_ids env) w)) (take (ae_all env) (comma_words (as_filter s)))"
    "ts \<noteq> []" "1022 < min (length (log_head s)) 1023 + sum_list (map length (butlast ts))" "sum_list (map length ts) < 2 ^ 62"
  shows "amqp_do_config env reload g = Inl Out_Of_Bounds"
  by (rule config_log_overrun [OF assms])

lemma long_name_words: "comma_words ''x'' = [''x'']"
  by (simp add: comma_words.simps is_comma_def)

theorem long_filter_overruns_log_witness:
  "amqp_do_config (example_amqp\<lparr>ae_parse := (\<lambda>r s. Some (empty_settings\<lparr>as_hostnames := replicate 1024 CHR ''h'', as_filter := ''x''\<rparr>))\<rparr>)
     False loaded_amqp = Inl Out_Of_Bounds"
proof -
  let ?s = "empty_settings\<lparr>as_hostnames := replicate 1024 CHR ''h'', as_filter := ''x''\<rparr>"
  let ?env = "example_amqp\<lparr>ae_parse := (\<lambda>r s. Some ?s)\<rparr>"
  let ?t = "filter_text example_ids (parse_fs_event_name example_ids ''x'')"
  have "comma_words [] = []" by (simp add: comma_words.simps)
  moreover have "1024 \<le> length (log_head ?s)" by (simp add: log_head_def)
  moreover have "length ?t < 2 ^ 62"
  proof -
    have "find (c_strcaseeq ''x'') event_names = None"
      by (simp add: find_None_iff event_names_def c_strcaseeq_def)
    then have "parse_fs_event_name example_ids ''x'' = -1" by (simp add: parse_fs_event_name_def)
    moreover have "length (c_int_text (-1)) = 2" by code_simp
    moreover have "length (fs_event_get_name example_ids (-1)) \<le> 1000"
    proof -
      have "\<forall>n\<in>set event_names. length n \<le> 1000" by (simp add: event_names_def)
      then show ?thesis by (auto simp: fs_event_get_name_def dest!: find_in_list split: option.split)
    qed
    ultimately show ?thesis by (simp add: filter_text_def)
  qed
  ultimately show ?thesis
    by (intro long_filter_overruns_log [where s = ?s and ts = "[?t]"])
      (simp_all add: long_name_words example_amqp_def empty_settings_def)
qed

end
