(* ===== verification/Amqp_Listener.thy ===== *)
theory Amqp_Listener
  imports Amqp
begin

text \<open>
  The other thread of \<open>mod_amqp\<close>: it listens for commands on a connection of its own and executes those
  that come as plain text.  What the library returns in one round of its main loop is a script.
\<close>

datatype consume_result = Library_Exception | Other_Reply | Delivery "string option" string

record listener_script =
  ls_broker :: amqp_broker
  ls_declares :: bool
  ls_binds :: bool
  ls_consumes :: bool
  ls_results :: "consume_result list"
  ls_channel_closes :: bool
  ls_connection_closes :: bool

text \<open>\<open>strncasecmp("text/plain", bytes, 10)\<close> on bytes without a NUL behind them.\<close>

fun same_bytes :: "string \<Rightarrow> string \<Rightarrow> crash + bool" where
  "same_bytes [] bs = Inr True"
| "same_bytes (c # cs) [] = Inl Out_Of_Bounds"
| "same_bytes (c # cs) (b # bs) = (if c_tolower c = c_tolower b then same_bytes cs bs else Inr False)"

definition is_plain_text :: "string option \<Rightarrow> crash + bool" where
  "is_plain_text t = (case t of None \<Rightarrow> Inr True | Some bs \<Rightarrow> same_bytes ''text/plain'' bs)"

text \<open>The command of a body: up to a NUL, and at most 1023 characters.\<close>

definition command_text :: "string \<Rightarrow> string" where
  "command_text body = take 1023 (takeWhile (\<lambda>c. c \<noteq> NUL) body)"

text \<open>The inner loop; when the results end, the module was stopped.\<close>

fun listen :: "consume_result list \<Rightarrow> string list \<Rightarrow> crash + string list" where
  "listen [] executed = Inr executed"
| "listen (Library_Exception # rs) executed = listen rs executed"
| "listen (Other_Reply # rs) executed = Inr executed"
| "listen (Delivery t body # rs) executed =
     (case is_plain_text t of
        Inl e \<Rightarrow> Inl e
      | Inr plain \<Rightarrow> listen rs (if plain then executed @ [command_text body] else executed))"

definition use_connection :: "amqp_globals \<Rightarrow> crash + nat" where
  "use_connection g =
     (case ag_command_conn g of
        None \<Rightarrow> Inl Null_Deref
      | Some k \<Rightarrow> if k \<in> ag_live g then Inr k else Inl Use_After_Free)"

definition ensure_connection :: "amqp_broker \<Rightarrow> amqp_globals \<Rightarrow> amqp_globals" where
  "ensure_connection br g =
     (if ag_command_conn g = None then (case open_connection br None g of (c, g1) \<Rightarrow> g1\<lparr>ag_command_conn := c\<rparr>) else g)"

text \<open>One round of the main loop, and whether there is another.\<close>

definition listener_round :: "listener_script \<Rightarrow> amqp_globals \<Rightarrow> string list \<Rightarrow> crash + bool \<times> amqp_globals \<times> string list" where
  "listener_round ls g executed =
     (let g1 = ensure_connection (ls_broker ls) g
      in case use_connection g1 of
           Inl e \<Rightarrow> Inl e
         | Inr k \<Rightarrow>
             if \<not> (ls_declares ls \<and> ls_binds ls \<and> ls_consumes ls) then Inr (False, g1, executed)
             else (case listen (ls_results ls) executed of
                     Inl e \<Rightarrow> Inl e
                   | Inr executed1 \<Rightarrow>
                       Inr (True, if ls_channel_closes ls \<and> ls_connection_closes ls then g1\<lparr>ag_live := ag_live g1 - {k}\<rparr> else g1,
                         executed1)))"

fun listener_run :: "listener_script list \<Rightarrow> amqp_globals \<Rightarrow> string list \<Rightarrow> crash + amqp_globals \<times> string list" where
  "listener_run [] g executed = Inr (g, executed)"
| "listener_run (ls # lss) g executed =
     (case listener_round ls g executed of
        Inl e \<Rightarrow> Inl e
      | Inr (again, g1, executed1) \<Rightarrow> if again then listener_run lss g1 executed1 else Inr (g1, executed1))"

subsection \<open>The commands executed\<close>

text \<open>A delivery whose type is not given, or can be told from plain text; and the commands of a list of results.\<close>

fun good_result :: "consume_result \<Rightarrow> bool" where
  "good_result (Delivery t body) \<longleftrightarrow> \<not> isl (is_plain_text t)"
| "good_result r \<longleftrightarrow> r = Library_Exception"

fun result_commands :: "consume_result \<Rightarrow> string list" where
  "result_commands (Delivery t body) = (if is_plain_text t = Inr True then [command_text body] else [])"
| "result_commands r = []"

lemma listen_commands:
  "list_all good_result rs \<Longrightarrow> listen rs executed = Inr (executed @ concat (map result_commands rs))"
proof (induction rs arbitrary: executed)
  case (Cons r rs)
  then show ?case by (cases r) (auto simp: isl_def split: sum.splits)
qed simp

lemma ensure_connected:
  assumes "ag_command_conn g = None" "\<exists>h\<in>set (comma_words (as_hostnames (ag_settings g))). br_answers br h" "br_accepts br"
  shows "ag_command_conn (ensure_connection br g) = Some (ag_next g) \<and> ag_next g \<in> ag_live (ensure_connection br g)"
proof -
  have "find (br_answers br) (comma_words (as_hostnames (ag_settings g))) \<noteq> None" using assms(2) by (auto simp: find_None_iff)
  with assms(1,3) show ?thesis by (auto simp: ensure_connection_def open_connection_def close_connection_def Let_def)
qed

lemma round_executes:
  assumes "ag_command_conn g = None" "\<exists>h\<in>set (comma_words (as_hostnames (ag_settings g))). br_answers (ls_broker ls) h"
    "br_accepts (ls_broker ls)" "ls_declares ls" "ls_binds ls" "ls_consumes ls" "list_all good_result (ls_results ls)"
  shows "\<exists>g'. listener_run [ls] g executed = Inr (g', executed @ concat (map result_commands (ls_results ls)))"
  using ensure_connected [OF assms(1-3)] assms(4-6) listen_commands [OF assms(7)]
  by (simp add: listener_round_def use_connection_def Let_def)

text \<open>No broker at the start: the result of \<open>openAmqpConnection\<close> is not looked at.\<close>

lemma round_without_broker:
  assumes "ag_command_conn g = None" "\<not> (br_accepts (ls_broker ls) \<and> (\<exists>h\<in>set (comma_words (as_hostnames (ag_settings g))). br_answers (ls_broker ls) h))"
  shows "listener_run (ls # lss) g executed = Inl Null_Deref"
proof -
  have "ag_command_conn (ensure_connection (ls_broker ls) g) = None"
    using assms by (auto simp: ensure_connection_def open_connection_def close_connection_def Let_def find_None_iff)
  then show ?thesis by (simp add: listener_round_def use_connection_def Let_def)
qed

text \<open>The connection is destroyed at the end of a round, but still the one of the next.\<close>

lemma round_after_close:
  assumes "ag_command_conn g = None" "\<exists>h\<in>set (comma_words (as_hostnames (ag_settings g))). br_answers (ls_broker ls) h"
    "br_accepts (ls_broker ls)" "ls_declares ls" "ls_binds ls" "ls_consumes ls" "list_all good_result rs"
    "ls_results ls = rs @ [Other_Reply]" "ls_channel_closes ls" "ls_connection_closes ls"
  shows "listener_run (ls # next_ls # lss) g executed = Inl Use_After_Free"
proof -
  have "listen (rs @ [Other_Reply]) ex = Inr (ex @ concat (map result_commands rs))" for ex
    using assms(7)
  proof (induction rs arbitrary: ex)
    case (Cons r rs)
    then show ?case by (cases r) (auto simp: isl_def split: sum.splits)
  qed simp
  with ensure_connected [OF assms(1-3)] assms(4-6,8-10) show ?thesis
    by (simp add: listener_round_def use_connection_def ensure_connection_def [of "ls_broker next_ls"] Let_def)
qed

subsection \<open>The properties\<close>


definition example_script :: "consume_result list \<Rightarrow> listener_script" where
  "example_script rs =
     \<lparr>ls_broker = broker_at ''b'', ls_declares = True, ls_binds = True, ls_consumes = True, ls_results = rs,
      ls_channel_closes = True, ls_connection_closes = True\<rparr>"

definition example_results :: "consume_result list" where
  "example_results =
     [Library_Exception, Delivery (Some ''TEXT/plain; x'') ''status'', Delivery (Some ''text/json'') ''{}'', Delivery None (''load'' @ [NUL] @ ''x'')]"

lemma example_good:
  "ag_command_conn loaded_amqp = None" "\<exists>h\<in>set (comma_words (as_hostnames (ag_settings loaded_amqp))). br_answers (ls_broker (example_script rs)) h"
  "br_accepts (ls_broker (example_script rs))" "ls_declares (example_script rs)" "ls_binds (example_script rs)" "ls_consumes (example_script rs)"
  by (simp_all add: loaded_amqp_def example_script_def example_comma broker_at_def)

lemma example_plain: "is_plain_text (Some ''TEXT/plain; x'') = Inr True" "is_plain_text (Some ''text/json'') = Inr False"
  by code_simp+

lemma example_results_good: "list_all good_result example_results"
  by (simp add: example_results_def example_plain) (simp add: is_plain_text_def)


text \<open>
  When the broker ends the session, the thread closes and destroys its connection and goes on with it in
  the next round.
\<close>

theorem closed_connection_used_again:
  assumes "ag_command_conn g = None" "\<exists>h\<in>set (comma_words (as_hostnames (ag_settings g))). br_answers (ls_broker ls) h"
    "br_accepts (ls_broker ls)" "ls_declares ls" "ls_binds ls" "ls_consumes ls" "list_all good_result rs"
    "ls_results ls = rs @ [Other_Reply]" "ls_channel_closes ls" "ls_connection_closes ls"
  shows "listener_run (ls # next_ls # lss) g executed = Inl Use_After_Free"
  by (rule round_after_close [OF assms])

theorem closed_connection_used_again_witness:
  "listener_run [example_script (example_results @ [Other_Reply]), example_script []] loaded_amqp [] = Inl Use_After_Free"
  by (rule closed_connection_used_again [OF example_good example_results_good]) (simp_all add: example_script_def)

text \<open>When no broker can be reached at the start, the thread hands a null pointer to the library.\<close>

theorem listener_needs_broker:
  assumes "ag_command_conn g = None" "\<not> (br_accepts (ls_broker ls) \<and> (\<exists>h\<in>set (comma_words (as_hostnames (ag_settings g))). br_answers (ls_broker ls) h))"
  shows "listener_run (ls # lss) g executed = Inl Null_Deref"
  by (rule round_without_broker [OF assms])

theorem listener_needs_broker_witness:
  "listener_run [(example_script [])\<lparr>ls_broker := broker_at ''c''\<rparr>] loaded_amqp [] = Inl Null_Deref"
  by (rule listener_needs_broker) (simp_all add: loaded_amqp_def example_comma broker_at_def)

end
