(* ===== verification/Odbc_Query.thy ===== *)
theory Odbc_Query
  imports Fs_Api C_Format
begin

text \<open>
  \<open>ledr/c/mod_odbc_query/mod_odbc_query.c\<close>: queries from the dialplan, whose rows become variables of the
  channel, and from the command line, whose rows are printed in one of three formats.  The database is an
  argument: which names, users and passwords it accepts, and the rows and the error of a query.
\<close>

subsection \<open>The configuration\<close>

record 'h oq_globals =
  oq_dsn :: "string option"
  oq_user :: "string option"
  oq_pass :: "string option"
  oq_queries :: 'h

text \<open>\<open>strchr\<close> splits a string before a character; the part behind it is none when it is not there.\<close>

definition split_at :: "char \<Rightarrow> string \<Rightarrow> string \<times> string option" where
  "split_at c s =
     (takeWhile (\<lambda>x. x \<noteq> c) s, case dropWhile (\<lambda>x. x \<noteq> c) s of [] \<Rightarrow> None | _ # r \<Rightarrow> Some r)"

definition config_callback_dsn :: "string option \<Rightarrow> bool \<Rightarrow> 'h oq_globals \<Rightarrow> 'h oq_globals" where
  "config_callback_dsn newvalue changed g =
     (if \<not> changed then g
      else (case newvalue of
              None \<Rightarrow> g
            | Some v \<Rightarrow>
                if v = [] then g
                else (let (dsn, r) = split_at (CHR '':'') v
                      in case r of
                           None \<Rightarrow> g\<lparr>oq_dsn := Some dsn, oq_user := None\<rparr>
                         | Some u \<Rightarrow>
                             (let (user, p) = split_at (CHR '':'') u
                              in g\<lparr>oq_dsn := Some dsn, oq_user := Some user, oq_pass := p\<rparr>))))"

text \<open>The table of the core with its keys, through which a configuration is removed.\<close>

record 'h oq_env =
  oe_table :: "('h, string) fs_table"
  oe_keys :: "'h \<Rightarrow> string list"
  oe_accepts :: "string \<Rightarrow> string \<Rightarrow> string \<Rightarrow> bool"
  oe_query :: "string \<Rightarrow> string \<Rightarrow> (string \<times> string option) list list \<times> string option"
  oe_null :: string

definition empty_queries :: "'h oq_env \<Rightarrow> 'h \<Rightarrow> 'h" where
  "empty_queries env h = fold (\<lambda>k t. tab_delete (oe_table env) t k) (oe_keys env h) h"

definition add_query :: "'h oq_env \<Rightarrow> string \<times> string \<Rightarrow> 'h \<Rightarrow> 'h" where
  "add_query env q h = (if fst q = [] \<or> snd q = [] then h else tab_insert (oe_table env) h (fst q) (Some (snd q)))"

text \<open>The settings and the queries of the file, each \<open>None\<close> when it cannot be read.\<close>

definition oq_do_config ::
    "'h oq_env \<Rightarrow> (string option \<times> bool) option \<Rightarrow> (string \<times> string) list option \<Rightarrow> 'h oq_globals \<Rightarrow> switch_status \<times> 'h oq_globals" where
  "oq_do_config env settings queries g =
     (case settings of
        None \<Rightarrow> (SWITCH_STATUS_FALSE, g)
      | Some (v, changed) \<Rightarrow>
          (let g1 = config_callback_dsn v changed g
           in case queries of
                None \<Rightarrow> (SWITCH_STATUS_FALSE, g1)
              | Some qs \<Rightarrow>
                  (SWITCH_STATUS_SUCCESS, g1\<lparr>oq_queries := fold (add_query env) qs (empty_queries env (oq_queries g1))\<rparr>)))"

subsection \<open>A query\<close>

text \<open>
  The first word of a query may hold the name, the user and the password.  The positions of the first
  space and the first two colons are those \<open>strchr\<close> finds.
\<close>

definition position :: "char \<Rightarrow> nat \<Rightarrow> string \<Rightarrow> nat option" where
  "position c from s = for_find (\<lambda>i. s ! i = c) from (length s)"

definition dsn_prefix :: "string \<Rightarrow> (string \<times> string \<times> string \<times> string) option" where
  "dsn_prefix q =
     (case position (CHR '' '') 0 q of
        None \<Rightarrow> None
      | Some sp \<Rightarrow>
          (case position (CHR '':'') 0 q of
             None \<Rightarrow> None
           | Some c1 \<Rightarrow>
               (case position (CHR '':'') (c1 + 1) q of
                  None \<Rightarrow> None
                | Some c2 \<Rightarrow>
                    if c1 > 0 \<and> c2 + 1 < sp
                    then Some (take c1 q, take (c2 - c1 - 1) (drop (c1 + 1) q), take (sp - c2 - 1) (drop (c2 + 1) q), drop (sp + 1) q)
                    else None)))"

text \<open>The rows and the error; a user or a password that is not configured is a null pointer to \<open>switch_core_strdup\<close>.\<close>

definition execute_sql_callback ::
    "'h oq_env \<Rightarrow> 'h oq_globals \<Rightarrow> string \<Rightarrow> crash + (string \<times> string option) list list \<times> string option" where
  "execute_sql_callback env g query =
     (case (case dsn_prefix query of
              Some (dsn, user, pass, q) \<Rightarrow> Inr (Some (dsn, user, pass, q))
            | None \<Rightarrow>
                (case oq_dsn g of
                   None \<Rightarrow> Inr None
                 | Some dsn \<Rightarrow>
                     (case (oq_user g, oq_pass g) of (Some user, Some pass) \<Rightarrow> Inr (Some (dsn, user, pass, query)) | _ \<Rightarrow> Inl Null_Deref))) of
        Inl e \<Rightarrow> Inl e
      | Inr None \<Rightarrow> Inr ([], None)
      | Inr (Some (dsn, user, pass, q)) \<Rightarrow>
          if \<not> oe_accepts env dsn user pass
          then Inr ([], Some (''Unable to get ODBC handle.  dsn: '' @ dsn @ '':'' @ user @ '':'' @ pass @ '', dbh is null'' @ [LF]))
          else Inr (oe_query env dsn q))"

subsection \<open>The application\<close>

definition str_nil :: "string option \<Rightarrow> string" where
  "str_nil v = (case v of None \<Rightarrow> [] | Some s \<Rightarrow> s)"

definition set_column :: "string \<times> string option \<Rightarrow> (string \<rightharpoonup> string) \<Rightarrow> (string \<rightharpoonup> string)" where
  "set_column c vars = (if str_nil (snd c) = [] then vars else vars(fst c \<mapsto> str_nil (snd c)))"

definition odbc_query_callback_channel :: "(string \<times> string option) list \<Rightarrow> (string \<rightharpoonup> string) \<Rightarrow> (string \<rightharpoonup> string)" where
  "odbc_query_callback_channel row vars =
     (if map fst row = [''name'', ''value'']
      then (if str_nil (snd (row ! 1)) = [] then vars else vars(str_nil (snd (row ! 0)) \<mapsto> str_nil (snd (row ! 1))))
      else fold set_column row vars)"

definition odbc_query_app_function ::
    "'h oq_env \<Rightarrow> 'h oq_globals \<Rightarrow> (string \<Rightarrow> string) \<Rightarrow> string \<Rightarrow> (string \<rightharpoonup> string) \<Rightarrow> crash + (string \<rightharpoonup> string)" where
  "odbc_query_app_function env g expand data vars =
     (if data = [] then Inr vars
      else (case (if CHR '' '' \<in> set data then Some data else tab_find (oe_table env) (oq_queries g) data) of
              None \<Rightarrow> Inr vars
            | Some q \<Rightarrow>
                (case execute_sql_callback env g (expand q) of
                   Inl e \<Rightarrow> Inl e
                 | Inr (rows, _) \<Rightarrow> Inr (fold odbc_query_callback_channel rows vars))))"

subsection \<open>The command\<close>

definition pad_left :: "nat \<Rightarrow> string \<Rightarrow> string" where
  "pad_left n s = replicate (n - length s) (CHR '' '') @ s"

definition pad_right :: "nat \<Rightarrow> string \<Rightarrow> string" where
  "pad_right n s = s @ replicate (n - length s) (CHR '' '')"

definition odbc_query_callback_txt :: "(string \<times> string option) list \<Rightarrow> string" where
  "odbc_query_callback_txt row = concat (map (\<lambda>(c, v). pad_left 25 c @ '' : '' @ str_nil v @ [LF]) row) @ [LF]"

definition odbc_query_callback_tab :: "nat \<Rightarrow> (string \<times> string option) list \<Rightarrow> string" where
  "odbc_query_callback_tab rowcount row =
     (if rowcount = 1
      then concat (map (pad_right 20 \<circ> fst) row) @ [LF] @ concat (map (\<lambda>_. replicate 20 (CHR ''='')) row) @ [LF] else []) @
     concat (map (pad_right 20 \<circ> str_nil \<circ> snd) row) @ [LF]"

definition xml_column :: "string \<times> string option \<Rightarrow> string" where
  "xml_column c = ''      <column name='' @ [CHR 0x22] @ fst c @ [CHR 0x22] @ '' value='' @ [CHR 0x22] @ str_nil (snd c) @ [CHR 0x22] @ ''/>'' @ [LF]"

definition odbc_query_callback_xml :: "(string \<times> string option) list \<Rightarrow> string" where
  "odbc_query_callback_xml row = ''    <row>'' @ [LF] @ concat (map xml_column row) @ ''    </row>'' @ [LF]"

datatype oq_format = Txt | Tab | Xml

definition oq_format :: "string \<Rightarrow> oq_format \<times> string" where
  "oq_format cmd =
     (if take 4 cmd = ''txt '' then (Txt, drop 4 cmd)
      else if take 4 cmd = ''tab '' then (Tab, drop 4 cmd)
      else if take 4 cmd = ''xml '' then (Xml, drop 4 cmd)
      else (Txt, cmd))"

fun format_rows :: "oq_format \<Rightarrow> nat \<Rightarrow> (string \<times> string option) list list \<Rightarrow> string" where
  "format_rows f n [] = []"
| "format_rows f n (row # rows) =
     (case f of
        Txt \<Rightarrow> odbc_query_callback_txt row
      | Tab \<Rightarrow> odbc_query_callback_tab (Suc n) row
      | Xml \<Rightarrow> odbc_query_callback_xml row) @ format_rows f (Suc n) rows"

definition oq_trailer :: "'h oq_env \<Rightarrow> oq_format \<Rightarrow> string option \<Rightarrow> nat \<Rightarrow> int \<Rightarrow> string" where
  "oq_trailer env f err n ms =
     (if f = Xml
      then ''  </rows>'' @ [LF] @ ''  <meta>'' @ [LF] @ ''    <error>'' @ (case err of None \<Rightarrow> oe_null env | Some e \<Rightarrow> e) @ ''</error>'' @ [LF] @
        ''    <rowcount>'' @ c_int_text (int n) @ ''</rowcount>'' @ [LF] @ ''    <elapsed_ms>'' @ c_int_text ms @ ''</elapsed_ms>'' @ [LF] @
        ''  </meta>'' @ [LF] @ ''</result>'' @ [LF]
      else [LF] @ ''Got '' @ c_int_text (int n) @ '' rows returned in '' @ c_int_text ms @ '' ms.'')"

definition oq_syntax :: string where
  "oq_syntax = ''[txt|tab|xml] [db:user:pass] <SELECT * FROM foo WHERE true;>''"

definition odbc_query_api_function :: "'h oq_env \<Rightarrow> 'h oq_globals \<Rightarrow> int \<Rightarrow> string \<Rightarrow> crash + string" where
  "odbc_query_api_function env g ms cmd =
     (if cmd = [] then Inr (''-USAGE: '' @ oq_syntax @ [LF])
      else (let (f, query) = oq_format cmd
            in case execute_sql_callback env g query of
                 Inl e \<Rightarrow> Inl e
               | Inr (rows, err) \<Rightarrow>
                   Inr ((if f = Xml then ''<result>'' @ [LF] @ ''  <rows>'' @ [LF] else []) @ format_rows f 0 rows @
                     oq_trailer env f err (length rows) ms)))"

text \<open>Loading and unloading.\<close>

definition mod_odbc_query_load ::
    "'h oq_env \<Rightarrow> bool \<Rightarrow> (string option \<times> bool) option \<Rightarrow> (string \<times> string) list option \<Rightarrow> switch_status \<times> 'h oq_globals option" where
  "mod_odbc_query_load env available settings queries =
     (if \<not> available then (SWITCH_STATUS_FALSE, None)
      else (case oq_do_config env settings queries \<lparr>oq_dsn = None, oq_user = None, oq_pass = None, oq_queries = tab_new (oe_table env)\<rparr> of
              (SWITCH_STATUS_SUCCESS, g) \<Rightarrow> (SWITCH_STATUS_SUCCESS, Some g)
            | (_, g) \<Rightarrow> (SWITCH_STATUS_FALSE, Some g)))"

definition mod_odbc_query_shutdown :: "'h oq_env \<Rightarrow> 'h oq_globals \<Rightarrow> 'h oq_globals" where
  "mod_odbc_query_shutdown env g = g\<lparr>oq_queries := empty_queries env (oq_queries g), oq_dsn := None\<rparr>"

subsection \<open>The first word of a query\<close>

lemma position_Some:
  assumes "c \<notin> set a"
  shows "position c (length p) (p @ a @ c # b) = Some (length p + length a)"
proof -
  let ?s = "p @ a @ c # b"
  have at: "?s ! (length p + length a) = c" by (simp add: nth_append)
  have before: "?s ! j \<noteq> c" if "length p \<le> j" "j < length p + length a" for j
    using that assms by (auto simp: nth_append in_set_conv_nth)
  have "\<not> for_find (\<lambda>i. ?s ! i = c) (length p) (length ?s) = None"
    unfolding for_find_None using at by (intro notI, elim allE [of _ "length p + length a"]) simp
  then obtain k where k: "for_find (\<lambda>i. ?s ! i = c) (length p) (length ?s) = Some k" by blast
  from for_find_Some [OF this] at before have "k = length p + length a"
    by (metis le_add1 linorder_neqE_nat)
  with k show ?thesis by (simp add: position_def)
qed

lemma positionD:
  assumes "position c from s = Some k"
  shows "from \<le> k" "k < length s" "s ! k = c" "\<And>j. from \<le> j \<Longrightarrow> j < k \<Longrightarrow> s ! j \<noteq> c"
  using for_find_Some [of "\<lambda>i. s ! i = c" "from" "length s" k] assms by (auto simp: position_def)

lemma dsn_prefix_given:
  assumes "db \<noteq> []" "pass \<noteq> []" "CHR '':'' \<notin> set db" "CHR '':'' \<notin> set user" "CHR '' '' \<notin> set db" "CHR '' '' \<notin> set user" "CHR '' '' \<notin> set pass"
  shows "dsn_prefix (db @ '':'' @ user @ '':'' @ pass @ '' '' @ q) = Some (db, user, pass, q)"
proof -
  let ?s = "db @ '':'' @ user @ '':'' @ pass @ '' '' @ q"
  have sp: "position (CHR '' '') 0 ?s = Some (length db + length user + length pass + 2)"
    using position_Some [of "CHR '' ''" "db @ '':'' @ user @ '':'' @ pass" "[]" q] assms(5-7) by simp
  have c1: "position (CHR '':'') 0 ?s = Some (length db)"
    using position_Some [of "CHR '':''" db "[]" "user @ '':'' @ pass @ '' '' @ q"] assms(3) by simp
  have c2: "position (CHR '':'') (length db + 1) ?s = Some (length db + 1 + length user)"
    using position_Some [of "CHR '':''" user "db @ '':''" "pass @ '' '' @ q"] assms(4) by simp
  have pos: "length db > 0" "length pass > 0" using assms(1,2) by simp_all
  show ?thesis unfolding dsn_prefix_def sp c1 option.case c2 using pos by (simp add: eval_nat_numeral)
qed

lemma dsn_prefix_found:
  assumes "dsn_prefix s = Some (db, user, pass, q)"
  shows "s = db @ '':'' @ user @ '':'' @ pass @ '' '' @ q" "db \<noteq> []" "pass \<noteq> []" "CHR '' '' \<notin> set (db @ user @ pass)"
    "CHR '':'' \<notin> set (db @ user)"
proof -
  obtain sp c1 c2 where p: "position (CHR '' '') 0 s = Some sp" "position (CHR '':'') 0 s = Some c1"
    "position (CHR '':'') (c1 + 1) s = Some c2" "c1 > 0" "c2 + 1 < sp"
    and r: "db = take c1 s" "user = take (c2 - c1 - 1) (drop (c1 + 1) s)" "pass = take (sp - c2 - 1) (drop (c2 + 1) s)" "q = drop (sp + 1) s"
    using assms by (auto simp: dsn_prefix_def split: option.splits if_splits)
  note d = positionD [OF p(1)] positionD [OF p(2)] positionD [OF p(3)]
  have ord: "c1 < c2" "c2 < sp" "sp < length s" using d p(4,5) by simp_all
  have "drop sp s = CHR '' '' # q" using Cons_nth_drop_Suc [of sp s] d(2,3) r(4) by simp
  moreover have "drop (c2 + 1) s = pass @ drop sp s"
    using ord r(3) append_take_drop_id [of "sp - c2 - 1" "drop (c2 + 1) s"] by simp
  moreover have "drop c2 s = CHR '':'' # drop (c2 + 1) s" using Cons_nth_drop_Suc [of c2 s] d(10,11) by simp
  moreover have "drop (c1 + 1) s = user @ drop c2 s"
    using ord r(2) append_take_drop_id [of "c2 - c1 - 1" "drop (c1 + 1) s"] by simp
  moreover have "drop c1 s = CHR '':'' # drop (c1 + 1) s" using Cons_nth_drop_Suc [of c1 s] d(6,7) by simp
  moreover have "s = db @ drop c1 s" using r(1) by simp
  ultimately show s: "s = db @ '':'' @ user @ '':'' @ pass @ '' '' @ q" by (metis append_Cons append_Nil)
  show "db \<noteq> []" "pass \<noteq> []" using r(1,3) p(4,5) ord by auto
  have "CHR '' '' \<notin> set (take sp s)" using d(4) ord by (auto simp: in_set_conv_nth)
  moreover have "take sp s = db @ '':'' @ user @ '':'' @ pass"
  proof -
    have "take sp s @ drop sp s = s" by (rule append_take_drop_id)
    also have "s = (db @ '':'' @ user @ '':'' @ pass) @ drop sp s" unfolding \<open>drop sp s = CHR '' '' # q\<close> using s by simp
    finally have "take sp s @ drop sp s = (db @ '':'' @ user @ '':'' @ pass) @ drop sp s" .
    then show ?thesis by (simp only: append_same_eq)
  qed
  ultimately show "CHR '' '' \<notin> set (db @ user @ pass)" by auto
  have "CHR '':'' \<notin> set db" using d(8) ord r(1) by (auto simp: in_set_conv_nth)
  moreover have "CHR '':'' \<notin> set user"
  proof
    assume "CHR '':'' \<in> set user"
    then obtain i where "i < c2 - c1 - 1" "s ! (c1 + 1 + i) = CHR '':''" using ord r(2) by (auto simp: in_set_conv_nth)
    with d(12) [of "c1 + 1 + i"] show False by simp
  qed
  ultimately show "CHR '':'' \<notin> set (db @ user)" by simp
qed

subsection \<open>The variables of a channel\<close>

definition row_assignments :: "(string \<times> string option) list \<Rightarrow> (string \<times> string) list" where
  "row_assignments row =
     filter (\<lambda>p. snd p \<noteq> [])
       (if map fst row = [''name'', ''value''] then [(str_nil (snd (row ! 0)), str_nil (snd (row ! 1)))]
        else map (\<lambda>c. (fst c, str_nil (snd c))) row)"

lemma set_columns:
  "fold set_column row vars = vars ++ map_of (rev (filter (\<lambda>p. snd p \<noteq> []) (map (\<lambda>c. (fst c, str_nil (snd c))) row)))"
  by (induction row arbitrary: vars) (auto simp: set_column_def map_add_def fun_eq_iff split: option.split)

lemma callback_assigns: "odbc_query_callback_channel row vars = vars ++ map_of (rev (row_assignments row))"
  by (auto simp: odbc_query_callback_channel_def row_assignments_def set_columns)

lemma rows_assign: "fold odbc_query_callback_channel rows vars = vars ++ map_of (rev (concat (map row_assignments rows)))"
  by (induction rows arbitrary: vars) (simp_all add: callback_assigns)

lemma app_assigns:
  assumes "data \<noteq> []" "(if CHR '' '' \<in> set data then Some data else tab_find (oe_table env) (oq_queries g) data) = Some q"
    "expand q = db @ '':'' @ user @ '':'' @ pass @ '' '' @ sql" "db \<noteq> []" "pass \<noteq> []" "CHR '':'' \<notin> set (db @ user)"
    "CHR '' '' \<notin> set (db @ user @ pass)" "oe_accepts env db user pass"
  shows "odbc_query_app_function env g expand data vars =
    Inr (vars ++ map_of (rev (concat (map row_assignments (fst (oe_query env db sql))))))"
proof -
  have "dsn_prefix (expand q) = Some (db, user, pass, sql)"
    unfolding assms(3) using assms(4-7) by (intro dsn_prefix_given) auto
  then show ?thesis using assms(1,2,8)
    by (cases "oe_query env db sql") (simp add: odbc_query_app_function_def execute_sql_callback_def rows_assign)
qed

subsection \<open>The queries of the configuration\<close>

lemma emptied:
  assumes "table_documented (oe_table env) ks" "set (oe_keys env h) = ks h"
  shows "ks (empty_queries env h) = {}"
proof -
  have "ks (fold (\<lambda>k t. tab_delete (oe_table env) t k) xs t) = ks t - set xs" for xs t
    by (induction xs arbitrary: t) (auto simp: table_documentedD(6) [OF assms(1)])
  then show ?thesis by (simp add: empty_queries_def assms(2))
qed

lemma queries_added:
  assumes "table_documented (oe_table env) ks"
  shows "tab_find (oe_table env) (fold (add_query env) qs h) k =
    (case map_of (rev (filter (\<lambda>q. fst q \<noteq> [] \<and> snd q \<noteq> []) qs)) k of None \<Rightarrow> tab_find (oe_table env) h k | Some v \<Rightarrow> Some v)"
  by (induction qs arbitrary: h)
    (auto simp: add_query_def table_documentedD(5) [OF assms] map_add_def split: option.split)

lemma config_queries:
  assumes "table_documented (oe_table env) ks" "set (oe_keys env (oq_queries g)) = ks (oq_queries g)"
  shows "\<exists>g'. oq_do_config env (Some (v, changed)) (Some qs) g = (SWITCH_STATUS_SUCCESS, g') \<and>
    (\<forall>k. tab_find (oe_table env) (oq_queries g') k = map_of (rev (filter (\<lambda>q. fst q \<noteq> [] \<and> snd q \<noteq> []) qs)) k)"
proof -
  have q: "oq_queries (config_callback_dsn v changed g) = oq_queries g"
    by (auto simp: config_callback_dsn_def Let_def split: option.split prod.split)
  have "tab_find (oe_table env) (empty_queries env (oq_queries g)) k = None" for k
    using table_documentedD(3) [OF assms(1)] emptied [OF assms] by auto
  then show ?thesis by (auto simp: oq_do_config_def q queries_added [OF assms(1)] split: option.split)
qed

subsection \<open>The properties\<close>

text \<open>
  A query begins with a name, a user and a password exactly when its first word is \<open>db:user:pass\<close> with a
  name and a password that are not empty; what is behind the space is the query that is executed.
\<close>

theorem dsn_prefix_roundtrip:
  "dsn_prefix s = Some (db, user, pass, q) \<longleftrightarrow>
   s = db @ '':'' @ user @ '':'' @ pass @ '' '' @ q \<and> db \<noteq> [] \<and> pass \<noteq> [] \<and>
   CHR '' '' \<notin> set (db @ user @ pass) \<and> CHR '':'' \<notin> set (db @ user)"
  using dsn_prefix_found [of s db user pass q] dsn_prefix_given [of db pass user q] by auto

definition oq_example :: "((string \<times> string option) list) oq_env" where
  "oq_example =
     \<lparr>oe_table = documented_table, oe_keys = map fst, oe_accepts = (\<lambda>d u p. d = ''db''),
      oe_query = (\<lambda>d q. if q = ''SELECT a'' then ([[(''a'', Some ''1''), (''b'', None)], [(''a'', Some ''2''), (''b'', Some ''3'')]], None) else ([], None)),
      oe_null = []\<rparr>"

definition oq_loaded :: "((string \<times> string option) list) oq_globals" where
  "oq_loaded = \<lparr>oq_dsn = None, oq_user = None, oq_pass = None, oq_queries = [(''q1'', Some ''db:me:x:y SELECT a'')]\<rparr>"



text \<open>
  A configuration replaces the queries: afterwards a name finds the last query of the file with that name,
  a name and a query that are not empty, and nothing of what was configured before.
\<close>

theorem queries_replaced:
  assumes "table_documented (oe_table env) ks" "set (oe_keys env (oq_queries g)) = ks (oq_queries g)"
  shows "\<exists>g'. oq_do_config env (Some (v, changed)) (Some qs) g = (SWITCH_STATUS_SUCCESS, g') \<and>
    (\<forall>k. tab_find (oe_table env) (oq_queries g') k = map_of (rev (filter (\<lambda>q. fst q \<noteq> [] \<and> snd q \<noteq> []) qs)) k)"
  by (rule config_queries [OF assms])

theorem queries_replaced_witness:
  "\<exists>g'. oq_do_config oq_example (Some (Some ''db:u:p'', True)) (Some [(''q2'', ''x''), (''q2'', ''y''), (''q3'', [])]) oq_loaded =
      (SWITCH_STATUS_SUCCESS, g') \<and> tab_find (oe_table oq_example) (oq_queries g') ''q2'' = Some ''y'' \<and>
    tab_find (oe_table oq_example) (oq_queries g') ''q1'' = None"
proof -
  have "table_documented (oe_table oq_example) (\<lambda>h. fst ` set h)" using documented_table_ok by (simp add: oq_example_def)
  moreover have "set (oe_keys oq_example (oq_queries oq_loaded)) = fst ` set (oq_queries oq_loaded)"
    by (simp add: oq_example_def oq_loaded_def)
  ultimately show ?thesis
    using queries_replaced [of oq_example "\<lambda>h. fst ` set h" oq_loaded "Some ''db:u:p''" True "[(''q2'', ''x''), (''q2'', ''y''), (''q3'', [])]"]
    by auto
qed

end
