(* ===== verification/Translate.thy ===== *)
theory Translate
  imports Fs_Api
begin

text \<open>
  \<open>mod/applications/mod_translate/mod_translate.c\<close>: rewrites numbers by the first rule of a profile whose
  pattern matches.  The matching of patterns is an argument.  The buffer of the result is allocated with
  \<open>len\<close> bytes, which is 0, so that the result is read and written behind it.
\<close>

record translate_rule =
  tr_regex :: string
  tr_replace :: string

record 'h translate_env =
  te_table :: "('h, translate_rule list) fs_table"
  te_matches :: "string \<Rightarrow> string \<Rightarrow> bool"
  te_malloc_0 :: bool
  te_null :: string

subsection \<open>Loading and unloading\<close>

text \<open>A profile without rules is stored as a null pointer.\<close>

definition add_translate_profile :: "'h translate_env \<Rightarrow> string \<times> (string \<times> string) list \<Rightarrow> 'h \<Rightarrow> 'h" where
  "add_translate_profile env p h =
     tab_insert (te_table env) h (fst p)
       (if snd p = [] then None else Some (map (\<lambda>r. \<lparr>tr_regex = fst r, tr_replace = snd r\<rparr>) (snd p)))"

definition translate_load_config :: "'h translate_env \<Rightarrow> (string \<times> (string \<times> string) list) list option \<Rightarrow> 'h \<Rightarrow> switch_status \<times> 'h" where
  "translate_load_config env cfg h =
     (case cfg of
        None \<Rightarrow> (SWITCH_STATUS_FALSE, h)
      | Some ps \<Rightarrow> (SWITCH_STATUS_SUCCESS, fold (add_translate_profile env) ps h))"

text \<open>\<open>do_load\<close>: a new table.\<close>

definition do_load :: "'h translate_env \<Rightarrow> (string \<times> (string \<times> string) list) list option \<Rightarrow> 'h" where
  "do_load env cfg = snd (translate_load_config env cfg (tab_new (te_table env)))"

text \<open>
  \<open>do_unload\<close>: the loop over the rules of a profile tests a pointer that was not set before.  When it is not
  null by chance, the first rule is read, and its strings, which belong to a pool, are given to \<open>free\<close>.
\<close>

definition unload_rules :: "bool \<Rightarrow> translate_rule list option \<Rightarrow> crash + unit" where
  "unload_rules junk val = (if \<not> junk then Inr () else case val of None \<Rightarrow> Inl Null_Deref | Some _ \<Rightarrow> Inl Wild_Pointer)"

partial_function (option) do_unload :: "'h translate_env \<Rightarrow> bool list \<Rightarrow> 'h \<Rightarrow> (crash + 'h) option" where
  "do_unload env junk h =
     (case tab_first (te_table env) h of
        None \<Rightarrow> Some (Inr h)
      | Some (k, val) \<Rightarrow>
          (case unload_rules (junk \<noteq> [] \<and> hd junk) val of
             Inl e \<Rightarrow> Some (Inl e)
           | Inr _ \<Rightarrow> do_unload env (tl junk) (tab_delete (te_table env) h k)))"

definition translate_event_handler ::
    "'h translate_env \<Rightarrow> bool list \<Rightarrow> (string \<times> (string \<times> string) list) list option \<Rightarrow> 'h \<Rightarrow> (crash + 'h) option" where
  "translate_event_handler env junk cfg h =
     map_option (map_sum id (\<lambda>_. do_load env cfg)) (do_unload env junk h)"

subsection \<open>Translating\<close>

definition translate_number :: "'h translate_env \<Rightarrow> 'h \<Rightarrow> string \<Rightarrow> string option \<Rightarrow> crash + string option" where
  "translate_number env h number profile =
     (case tab_find (te_table env) h (case profile of None \<Rightarrow> ''US'' | Some p \<Rightarrow> p) of
        None \<Rightarrow> Inr None
      | Some rules \<Rightarrow>
          (case find (\<lambda>r. te_matches env number (tr_regex r)) rules of
             None \<Rightarrow> Inr None
           | Some r \<Rightarrow> if te_malloc_0 env then Inl Out_Of_Bounds else Inr None))"

text \<open>The application sets the variable \<open>translated\<close>, or removes it; the command prints the result.\<close>

definition translate_app_function :: "'h translate_env \<Rightarrow> 'h \<Rightarrow> string list \<Rightarrow> (string \<rightharpoonup> string) \<Rightarrow> crash + (string \<rightharpoonup> string)" where
  "translate_app_function env h argv vars =
     (case argv of
        [] \<Rightarrow> Inr vars
      | number # rest \<Rightarrow>
          map_sum id (\<lambda>t. vars(''translated'' := t)) (translate_number env h number (case rest of [] \<Rightarrow> None | p # _ \<Rightarrow> Some p)))"

definition translate_function :: "'h translate_env \<Rightarrow> 'h \<Rightarrow> string option \<Rightarrow> string list \<Rightarrow> crash + string" where
  "translate_function env h cmd argv =
     (if cmd = None \<or> cmd = Some [] then Inr (''USAGE: translate <number> [<profile>]'' @ [LF])
      else (case argv of
              [] \<Rightarrow> Inr []
            | number # rest \<Rightarrow>
                map_sum id (\<lambda>t. case t of None \<Rightarrow> te_null env | Some s \<Rightarrow> s)
                  (translate_number env h number (case rest of [] \<Rightarrow> None | p # _ \<Rightarrow> Some p))))"

record translate_caller =
  tc_destination :: string
  tc_caller_id :: string

definition translate_profile :: "(string \<rightharpoonup> string) \<Rightarrow> string" where
  "translate_profile vars =
     (case vars ''translate_profile'' of
        Some p \<Rightarrow> p
      | None \<Rightarrow>
          (case vars ''country'' of
             Some p \<Rightarrow> p
           | None \<Rightarrow> (case vars ''default_country'' of Some p \<Rightarrow> p | None \<Rightarrow> ''US'')))"

definition areacode_set :: "(string \<rightharpoonup> string) \<Rightarrow> (string \<rightharpoonup> string)" where
  "areacode_set vars =
     (if vars ''areacode'' \<noteq> None \<and> vars ''areacode'' \<noteq> Some [] then vars
      else if vars ''default_areacode'' \<noteq> None \<and> vars ''default_areacode'' \<noteq> Some [] then vars(''areacode'' := vars ''default_areacode'')
      else vars)"

definition replaced :: "string option \<Rightarrow> string \<Rightarrow> string" where
  "replaced t old = (case t of None \<Rightarrow> old | Some s \<Rightarrow> if s = [] then old else s)"

definition translate_dialplan_hunt ::
    "'h translate_env \<Rightarrow> 'h \<Rightarrow> (string \<rightharpoonup> string) \<Rightarrow> translate_caller \<Rightarrow> crash + translate_caller \<times> (string \<rightharpoonup> string)" where
  "translate_dialplan_hunt env h vars c =
     (case translate_number env h (tc_destination c) (Some (translate_profile vars)) of
        Inl e \<Rightarrow> Inl e
      | Inr d \<Rightarrow>
          (case translate_number env h (tc_caller_id c) (Some (translate_profile vars)) of
             Inl e \<Rightarrow> Inl e
           | Inr i \<Rightarrow>
               Inr (c\<lparr>tc_destination := replaced d (tc_destination c), tc_caller_id := replaced i (tc_caller_id c)\<rparr>, areacode_set vars)))"

subsection \<open>What comes of it\<close>

definition some_rule_matches :: "'h translate_env \<Rightarrow> 'h \<Rightarrow> string \<Rightarrow> string \<Rightarrow> bool" where
  "some_rule_matches env h number p =
     (case tab_find (te_table env) h p of None \<Rightarrow> False | Some rules \<Rightarrow> list_ex (\<lambda>r. te_matches env number (tr_regex r)) rules)"

lemma number_translated:
  "translate_number env h number (Some p) =
     (if some_rule_matches env h number p \<and> te_malloc_0 env then Inl Out_Of_Bounds else Inr None)"
  by (auto simp: translate_number_def some_rule_matches_def list_ex_iff find_None_iff find_Some_iff split: option.split)

lemma hunt_result:
  "translate_dialplan_hunt env h vars c =
     (if te_malloc_0 env \<and> (some_rule_matches env h (tc_destination c) (translate_profile vars) \<or>
          some_rule_matches env h (tc_caller_id c) (translate_profile vars))
      then Inl Out_Of_Bounds else Inr (c, areacode_set vars))"
  by (auto simp: translate_dialplan_hunt_def number_translated replaced_def)

lemma unload_removes:
  assumes "table_documented (te_table env) ks" "list_all Not junk"
  shows "\<exists>h'. do_unload env junk h = Some (Inr h') \<and> ks h' = {}"
  using assms(2)
proof (induction "card (ks h)" arbitrary: h junk rule: less_induct)
  case less
  show ?case
  proof (cases "tab_first (te_table env) h")
    case None
    then show ?thesis using table_documentedD(8) [OF assms(1), of h] by (simp add: do_unload.simps)
  next
    case (Some kv)
    obtain k v where kv: "kv = (k, v)" by (cases kv)
    have k: "k \<in> ks h" using table_documentedD(9) [OF assms(1)] Some kv by blast
    let ?h = "tab_delete (te_table env) h k"
    have "card (ks ?h) < card (ks h)"
      using k table_documentedD(2) [OF assms(1), of h] unfolding table_documentedD(6) [OF assms(1)] by (rule card_Diff1_less [rotated])
    moreover have "list_all Not (tl junk)" using less.prems by (cases junk) simp_all
    ultimately obtain h' where h': "do_unload env (tl junk) ?h = Some (Inr h')" "ks h' = {}" using less.hyps by blast
    have "\<not> (junk \<noteq> [] \<and> hd junk)" using less.prems by (cases junk) simp_all
    with h' Some kv show ?thesis by (simp add: do_unload.simps [of env junk h] unload_rules_def)
  qed
qed

lemma profiles_loaded:
  assumes "table_documented (te_table env) ks"
  shows "tab_find (te_table env) (do_load env (Some ps)) name =
    (case map_of (rev ps) name of
       None \<Rightarrow> None
     | Some rs \<Rightarrow> if rs = [] then None else Some (map (\<lambda>r. \<lparr>tr_regex = fst r, tr_replace = snd r\<rparr>) rs))"
proof -
  have "tab_find (te_table env) (fold (add_translate_profile env) ps h) name =
    (case map_of (rev ps) name of
       None \<Rightarrow> tab_find (te_table env) h name
     | Some rs \<Rightarrow> if rs = [] then None else Some (map (\<lambda>r. \<lparr>tr_regex = fst r, tr_replace = snd r\<rparr>) rs))" for h
    by (induction ps arbitrary: h)
      (auto simp: add_translate_profile_def table_documentedD(5) [OF assms] map_add_def split: option.split)
  then show ?thesis by (auto simp: do_load_def translate_load_config_def table_find_new [OF assms] split: option.split)
qed

lemma unload_junk:
  assumes "tab_first (te_table env) h = Some (k, v)"
  shows "do_unload env (True # junk) h = Some (Inl (if v = None then Null_Deref else Wild_Pointer))"
  using assms by (cases v) (simp_all add: do_unload.simps [of env "True # junk" h] unload_rules_def)

subsection \<open>The properties\<close>

definition translate_example :: "((string \<times> translate_rule list option) list) translate_env" where
  "translate_example =
     \<lparr>te_table = documented_table, te_matches = (\<lambda>n r. take (length r) n = r), te_malloc_0 = True, te_null = []\<rparr>"

text \<open>
  The module never translates a number: with an allocator that returns a block for 0 bytes, the dialplan
  reads behind it as soon as a rule matches one of the two numbers, and changes neither of them otherwise.
\<close>

theorem no_number_is_translated:
  "translate_dialplan_hunt env h vars c =
     (if te_malloc_0 env \<and> (some_rule_matches env h (tc_destination c) (translate_profile vars) \<or>
          some_rule_matches env h (tc_caller_id c) (translate_profile vars))
      then Inl Out_Of_Bounds else Inr (c, areacode_set vars))"
  by (rule hunt_result)

text \<open>
  A reload ends, and when the pointer that was not set is null each time, it leaves exactly the profiles of
  the file, of two with the same name the second, and a profile without rules as none.
\<close>

theorem translate_reloaded:
  assumes "table_documented (te_table env) ks" "list_all Not junk"
  shows "\<exists>h'. translate_event_handler env junk (Some ps) h = Some (Inr h') \<and>
    (\<forall>name. tab_find (te_table env) h' name =
      (case map_of (rev ps) name of
         None \<Rightarrow> None
       | Some rs \<Rightarrow> if rs = [] then None else Some (map (\<lambda>r. \<lparr>tr_regex = fst r, tr_replace = snd r\<rparr>) rs)))"
  using unload_removes [OF assms, of h] profiles_loaded [OF assms(1), of ps] by (auto simp: translate_event_handler_def)

theorem translate_reloaded_witness:
  "\<exists>h'. translate_event_handler translate_example [False] (Some [(''US'', [(''1'', ''2'')]), (''US'', [(''3'', ''4'')])])
      [(''UK'', None)] = Some (Inr h') \<and>
    tab_find documented_table h' ''US'' = Some [\<lparr>tr_regex = ''3'', tr_replace = ''4''\<rparr>]"
proof -
  have "table_documented (te_table translate_example) (\<lambda>h. fst ` set h)" using documented_table_ok by (simp add: translate_example_def)
  from translate_reloaded [OF this, of "[False]" "[(''US'', [(''1'', ''2'')]), (''US'', [(''3'', ''4'')])]" "[(''UK'', None)]"]
  show ?thesis by (auto simp: translate_example_def)
qed

end
