(* ===== verification/Fsconsole.thy ===== *)
theory Fsconsole
  imports C_Library C_Format
begin

text \<open>
  \<open>vile/fsconsole.c\<close>: a console for the event socket.  A round of its loop takes what \<open>recv\<close> and \<open>fgets\<close> deliver,
  both without waiting, and gives what is sent and printed.  A buffer that is overrun is a \<open>crash\<close>.
\<close>

subsection \<open>Options\<close>

text \<open>The three tests are tied by \<open>else\<close>, so that only the first argument is ever taken.\<close>

record fsc_options =
  fo_hostname :: string
  fo_port :: int
  fo_secret :: string

definition fsc_defaults :: fsc_options where
  "fsc_defaults = \<lparr>fo_hostname = ''localhost'', fo_port = 8021, fo_secret = ''ClueCon''\<rparr>"

definition fsc_arguments :: "string list \<Rightarrow> fsc_options" where
  "fsc_arguments argv =
     (let argc = length argv
      in if argc > 1 then fsc_defaults\<lparr>fo_hostname := argv ! 1\<rparr>
         else if argc > 2 then fsc_defaults\<lparr>fo_port := c_atoi (argv ! 2) mod 65536\<rparr>
         else if argc > 3 then fsc_defaults\<lparr>fo_secret := argv ! 3\<rparr>
         else fsc_defaults)"

subsection \<open>Words\<close>

text \<open>\<open>strtok\<close> on the text at which it goes on: the token and what is behind it.\<close>

definition c_strtok :: "string \<Rightarrow> string \<Rightarrow> string option \<times> string" where
  "c_strtok delims s =
     (let t = dropWhile (\<lambda>c. c \<in> set delims) s
      in if t = [] then (None, [])
         else (Some (takeWhile (\<lambda>c. c \<notin> set delims) t), tl (dropWhile (\<lambda>c. c \<notin> set delims) t)))"

text \<open>\<open>sprintf(buf, "%s", s)\<close> into a buffer of \<open>n\<close> characters; a null pointer is printed as a word.\<close>

definition sprintf_into :: "nat \<Rightarrow> string option \<Rightarrow> crash + string" where
  "sprintf_into n s =
     (let t = (case s of None \<Rightarrow> ''(null)'' | Some t \<Rightarrow> t) in if length t < n then Inr t else Inl Out_Of_Bounds)"

text \<open>
  \<open>trim\<close> in a buffer of \<open>n\<close> characters: \<open>memmove\<close> copies as many characters as there are spaces in front from behind
  them, which may be more than the buffer has; the text is then moved character by character.
\<close>

fun collapse :: "bool \<Rightarrow> string \<Rightarrow> string" where
  "collapse cnt [] = []"
| "collapse cnt (c # s) =
     (if c_isspace c \<and> cnt then collapse cnt s
      else if \<not> c_isspace c then c # collapse False s
      else CHR '' '' # collapse True s)"

definition trim :: "nat \<Rightarrow> string \<Rightarrow> crash + string" where
  "trim n s =
     (let k = length (takeWhile c_isspace s)
      in if n < 2 * k then Inl Out_Of_Bounds
         else Inr (rev (dropWhile c_isspace (rev (collapse False (dropWhile c_isspace s))))))"

subsection \<open>What the server sends\<close>

datatype fsc_output = Send string | Print string

record fsc_state =
  fs_command :: "string option"
  fs_prompt :: bool
  fs_display :: bool
  fs_whitespace :: string

definition LF2 :: string where "LF2 = [LF, LF]"

text \<open>The header in a token: the first two pieces and the two behind them, and where \<open>strtok\<close> goes on.\<close>

definition header_of ::
    "string \<Rightarrow> crash + string \<times> string \<times> string option \<times> string" where
  "header_of token =
     (let (k, r1) = c_strtok '':'' token;
          (v, r2) = c_strtok [LF] r1;
          (split, r3) = c_strtok [LF] r2;
          (_, r4) = c_strtok [LF] r3
      in case (sprintf_into 32 k, sprintf_into 32 v) of
           (Inr key, Inr val) \<Rightarrow>
             (case trim 32 val of
                Inl e \<Rightarrow> Inl e
              | Inr val1 \<Rightarrow> Inr (key, val1, split, r4))
         | _ \<Rightarrow> Inl Out_Of_Bounds)"

text \<open>The reply to a command; the last result is where \<open>strtok\<close> goes on.\<close>

definition command_reply ::
    "string option \<Rightarrow> fsc_state \<Rightarrow> crash + fsc_state \<times> fsc_output list \<times> string" where
  "command_reply split st =
     (let sub = (case split of None \<Rightarrow> ''(null)'' | Some t \<Rightarrow> t);
          (k, r1) = c_strtok '':'' sub;
          (v, r2) = c_strtok [LF] r1;
          (_, r3) = c_strtok [LF] r2
      in case (sprintf_into 32 k, sprintf_into 32 v) of
           (Inr key, Inr val0) \<Rightarrow>
             (case trim 32 val0 of
                Inl e \<Rightarrow> Inl e
              | Inr val \<Rightarrow>
                  if key = ''Reply-Text''
                  then (if val = ''+OK accepted''
                        then (case fs_command st of
                                None \<Rightarrow> Inl Null_Deref
                              | Some c \<Rightarrow>
                                  if c = ''auth''
                                  then Inr (st\<lparr>fs_command := Some ''authenticated'', fs_prompt := False, fs_display := False,
                                               fs_whitespace := [LF]\<rparr>,
                                            [Print (''Authentication Successful'' @ [LF])], r3)
                                  else Inr (st, [], r3))
                        else if take 1 val = ''-'' \<or> take 1 val = ''+''
                        then Inr (st\<lparr>fs_prompt := True\<rparr>, [Print ([LF] @ val @ [LF])], r3)
                        else Inr (st, [], r3))
                  else if key = [] \<or> key = ''ts''
                  then Inr (st\<lparr>fs_prompt := True\<rparr>, [Print ([LF] @ val @ [LF])], r3)
                  else Inr (st, [], r3))
         | _ \<Rightarrow> Inl Out_Of_Bounds)"

text \<open>The body of the loop over the tokens.\<close>

definition one_token ::
    "string \<Rightarrow> string \<Rightarrow> fsc_state \<Rightarrow> crash + fsc_state \<times> fsc_output list \<times> string" where
  "one_token secret token st =
     (let st0 = st\<lparr>fs_whitespace := [CR]\<rparr>
      in case header_of token of
           Inl e \<Rightarrow> Inl e
         | Inr (key, val, split, rest) \<Rightarrow>
             if key = ''Content-Type''
             then (let st1 = st0\<lparr>fs_display := True\<rparr>
                   in if val = ''auth/request''
                      then Inr (st1\<lparr>fs_command := Some ''auth'', fs_display := False\<rparr>,
                                [Print ([LF] @ ''Authenticating...'' @ [LF]), Send (''auth '' @ secret @ LF2)], rest)
                      else if val = ''command/reply'' then command_reply split st1
                      else Inr (st1, [], rest))
             else Inr (st0, [], rest))"

lemma token_shorter: "c_strtok d s = (Some t, r) \<Longrightarrow> length t + length r \<le> length s \<and> t \<noteq> [] \<and> length r < length s"
proof -
  assume a: "c_strtok d s = (Some t, r)"
  let ?t = "dropWhile (\<lambda>c. c \<in> set d) s"
  have ne: "?t \<noteq> []" and t: "t = takeWhile (\<lambda>c. c \<notin> set d) ?t" and r: "r = tl (dropWhile (\<lambda>c. c \<notin> set d) ?t)"
    using a by (auto simp: c_strtok_def Let_def split: if_splits)
  have "length ?t = length t + length (dropWhile (\<lambda>c. c \<notin> set d) ?t)"
    unfolding t by (metis length_append takeWhile_dropWhile_id)
  moreover have "length ?t \<le> length s" by (rule length_dropWhile_le)
  moreover have "t \<noteq> []"
    using ne hd_dropWhile [of "\<lambda>c. c \<in> set d" s] unfolding t by (cases ?t) auto
  ultimately show ?thesis unfolding r by (cases t) auto
qed

lemma strtok_rest: "length (snd (c_strtok d s)) \<le> length s"
proof (cases "c_strtok d s")
  case (Pair a r)
  then show ?thesis using token_shorter [of d s _ r] by (cases a) (auto simp: c_strtok_def Let_def split: if_splits)
qed

lemma strtok_less: "s \<noteq> [] \<Longrightarrow> length (snd (c_strtok d s)) < length s"
proof (cases "c_strtok d s")
  case (Pair a r)
  then show "s \<noteq> [] \<Longrightarrow> ?thesis" using token_shorter [of d s _ r] by (cases a) (auto simp: c_strtok_def Let_def split: if_splits)
qed

lemma header_rest: "header_of token = Inr (key, val, split, rest) \<Longrightarrow>
    (rest = [] \<or> length rest < length token) \<and> (case split of None \<Rightarrow> True | Some t \<Rightarrow> length t < length token)"
proof -
  assume h: "header_of token = Inr (key, val, split, rest)"
  obtain k r1 v r2 sp r3 w r4 where p: "c_strtok '':'' token = (k, r1)" "c_strtok [LF] r1 = (v, r2)" "c_strtok [LF] r2 = (sp, r3)"
    "c_strtok [LF] r3 = (w, r4)" by fastforce
  have q: "split = sp" "rest = r4" using h by (auto simp: header_of_def p split: sum.splits)
  have l: "length r2 \<le> length r1" "length r3 \<le> length r2" "length r4 \<le> length r3"
    using strtok_rest [of "[LF]" r1] strtok_rest [of "[LF]" r2] strtok_rest [of "[LF]" r3] p by simp_all
  show ?thesis
  proof (cases token)
    case Nil
    then show ?thesis using p by (auto simp: c_strtok_def q)
  next
    case (Cons c cs)
    then have "length r1 < length token" using strtok_less [of token "'':''"] p(1) by simp
    then show ?thesis using l token_shorter [of "[LF]" r2 _ r3] p(3) by (auto simp: q split: option.split)
  qed
qed

lemma reply_rest: "command_reply split st = Inr (st1, out, rest) \<Longrightarrow>
    case split of None \<Rightarrow> rest = [] | Some t \<Rightarrow> length rest \<le> length t"
proof -
  assume h: "command_reply split st = Inr (st1, out, rest)"
  define sub where "sub = (case split of None \<Rightarrow> ''(null)'' | Some t \<Rightarrow> t)"
  obtain k r1 v r2 w r3 where p: "c_strtok '':'' sub = (k, r1)" "c_strtok [LF] r1 = (v, r2)" "c_strtok [LF] r2 = (w, r3)" by fastforce
  have "rest = r3"
    using h by (auto simp: command_reply_def sub_def [symmetric] p split: sum.splits if_splits option.splits)
  moreover have "length r1 \<le> length sub" "length r2 \<le> length r1" "length r3 \<le> length r2"
    using strtok_rest [of "'':''" sub] strtok_rest [of "[LF]" r1] strtok_rest [of "[LF]" r2] p by simp_all
  moreover have "split = None \<Longrightarrow> r1 = []" using p(1) by (auto simp: sub_def c_strtok_def)
  ultimately show ?thesis by (auto simp: sub_def split: option.split)
qed

lemma token_rest: "one_token secret token st = Inr (st1, out, rest) \<Longrightarrow> rest = [] \<or> length rest < length token"
proof -
  assume h: "one_token secret token st = Inr (st1, out, rest)"
  obtain b where "header_of token = Inr b" using h by (cases "header_of token") (simp_all add: one_token_def)
  moreover obtain key val split r where "b = (key, val, split, r)" by (cases b)
  ultimately have hd: "header_of token = Inr (key, val, split, r)" by simp
  note l = header_rest [OF hd]
  show ?thesis
  proof (cases "key = ''Content-Type'' \<and> val = ''command/reply''")
    case True
    with h hd have "command_reply split (st\<lparr>fs_whitespace := [CR], fs_display := True\<rparr>) = Inr (st1, out, rest)"
      by (simp add: one_token_def)
    from reply_rest [OF this] l show ?thesis by (cases split) auto
  next
    case False
    then have "rest = r" using h hd by (auto simp: one_token_def Let_def split: if_splits)
    with l show ?thesis by simp
  qed
qed

lemma next_token_shorter:
  assumes "one_token secret token st = Inr (st1, out, rest)" "(Some token1, w) = c_strtok ws rest"
  shows "length token1 < length token"
  using token_rest [OF assms(1)] token_shorter [OF assms(2) [symmetric]] by auto

function token_loop :: "string \<Rightarrow> string \<Rightarrow> fsc_state \<Rightarrow> crash + fsc_state \<times> fsc_output list" where
  "token_loop secret token st =
     (case one_token secret token st of
        Inl e \<Rightarrow> Inl e
      | Inr (st1, out, rest) \<Rightarrow>
          (case c_strtok (fs_whitespace st1) rest of
             (None, _) \<Rightarrow> Inr (st1, out)
           | (Some token1, _) \<Rightarrow>
               (case token_loop secret token1 st1 of
                  Inl e \<Rightarrow> Inl e
                | Inr (st2, out2) \<Rightarrow> Inr (st2, out @ out2))))"
  by pat_completeness auto
termination
  by (relation "measure (\<lambda>(secret, token, st). length token)") (auto dest: next_token_shorter)
declare token_loop.simps [simp del]

text \<open>What \<open>recv\<close> delivered; the text is printed when a header asked for it the last time.\<close>

definition server_input :: "string \<Rightarrow> string \<Rightarrow> fsc_state \<Rightarrow> crash + fsc_state \<times> fsc_output list" where
  "server_input secret bytes st =
     (if bytes = [] then Inr (st, [])
      else (let contents = takeWhile (\<lambda>c. c \<noteq> NUL) bytes;
                (st0, out0) = (if fs_display st then (st\<lparr>fs_display := False, fs_prompt := True\<rparr>, [Print bytes]) else (st, []))
            in if 4096 \<le> length contents then Inl Out_Of_Bounds
               else (case c_strtok (fs_whitespace st0) contents of
                       (None, _) \<Rightarrow> Inr (st0, out0)
                     | (Some token, _) \<Rightarrow>
                         (case token_loop secret token st0 of
                            Inl e \<Rightarrow> Inl e
                          | Inr (st1, out) \<Rightarrow> Inr (st1, out0 @ out)))))"

subsection \<open>What the user enters\<close>

definition sent_as_it_is :: "string \<Rightarrow> bool" where
  "sent_as_it_is cmd \<longleftrightarrow>
     take 5 cmd = ''event'' \<or> cmd = ''noevents'' \<or> take 3 cmd = ''log'' \<or> cmd = ''nolog'' \<or> take 3 cmd = ''api'' \<or>
     take 5 cmd = ''bgapi'' \<or> take 9 cmd = ''sendevent'' \<or> take 7 cmd = ''sendmsg''"

definition fsc_help :: "string list" where
  "fsc_help =
     [[LF] @ ''-  Console  -'' @ [LF], ''Valid Commands:'' @ LF2,
      ''event [xml|plain] <list of events to log or all for all> - enable or disable events by class or all'' @ [LF],
      ''noevents - disable all events that were previously enabled w/ event'' @ [LF],
      ''nixevent <some_event> - command to allow '' @ [CHR 0x27] @ ''events all'' @ [CHR 0x27] @ '' followed by '' @ [CHR 0x27] @
        ''nixevent <some_event>'' @ [CHR 0x27] @ '' to do all but <some_event>'' @ [LF],
      ''log <level> - enable log output.  Levels same as the console.conf values'' @ [LF],
      ''nolog - disable log output previously enabled by the log command'' @ [LF],
      ''api <command> <arg> - send an api command (blocking mode)'' @ [LF],
      ''bgapi <command> <arg> - send an api command (non-blocking mode) this will let you execute a job in the background'' @ [LF],
      ''sendevent <event-name> - send an event into the event system (multi line input for headers)'' @ [LF],
      ''exit - close the fsconsole'' @ [LF], [LF] @ ''-    API    - '']"

text \<open>A line; \<open>None\<close> for the state when the program ends.  Its last character is taken for the line end.\<close>

definition user_command :: "string \<Rightarrow> fsc_state \<Rightarrow> fsc_state option \<times> fsc_output list" where
  "user_command line st =
     (if line = [] then (Some st, [])
      else (let st0 = (if line = [LF] then st\<lparr>fs_prompt := True\<rparr> else st)\<lparr>fs_display := False\<rparr>;
                cmd = butlast line
            in if cmd = ''exit'' \<or> cmd = ''quit'' then (None, [Print (''Exiting.. goodbye.'' @ [LF])])
               else if sent_as_it_is cmd then (Some st0, [Send (cmd @ LF2)])
               else if take 4 cmd = ''help'' \<or> take 1 cmd = ''?'' then (Some st0, map Print fsc_help @ [Send (''api help'' @ LF2)])
               else (Some st0, [Send (''api '' @ cmd @ LF2), Print [LF]])))"

subsection \<open>The loop\<close>

text \<open>What a round does before it looks for input: it asks for the version after a login, and prints the prompt.\<close>

definition round_start :: "string \<Rightarrow> fsc_state \<Rightarrow> fsc_state \<times> fsc_output list" where
  "round_start hostname st =
     (let (st0, out0) =
            (if fs_command st = Some ''authenticated''
             then (st\<lparr>fs_command := Some []\<rparr>, [Print ([LF] @ ''Running Version:'' @ [LF]), Send (''api version'' @ LF2)])
             else (st, []))
      in if fs_prompt st0 then (st0\<lparr>fs_prompt := False\<rparr>, out0 @ [Print ([LF] @ ''fsconsole@'' @ hostname @ ''> '')])
         else (st0, out0))"

definition fsc_round ::
    "fsc_options \<Rightarrow> string \<times> string \<Rightarrow> fsc_state \<Rightarrow> crash + fsc_state option \<times> fsc_output list" where
  "fsc_round opts inp st =
     (let (st0, out0) = round_start (fo_hostname opts) st
      in case server_input (fo_secret opts) (fst inp) st0 of
           Inl e \<Rightarrow> Inl e
         | Inr (st1, out1) \<Rightarrow>
             (let (st2, out2) = user_command (snd inp) st1 in Inr (st2, out0 @ out1 @ out2)))"

fun fsc_run :: "fsc_options \<Rightarrow> (string \<times> string) list \<Rightarrow> fsc_state \<Rightarrow> crash + fsc_state option \<times> fsc_output list" where
  "fsc_run opts [] st = Inr (Some st, [])"
| "fsc_run opts (inp # inps) st =
     (case fsc_round opts inp st of
        Inl e \<Rightarrow> Inl e
      | Inr (None, out) \<Rightarrow> Inr (None, out)
      | Inr (Some st1, out) \<Rightarrow>
          (case fsc_run opts inps st1 of
             Inl e \<Rightarrow> Inl e
           | Inr (st2, out2) \<Rightarrow> Inr (st2, out @ out2)))"

definition fsc_start :: fsc_state where
  "fsc_start = \<lparr>fs_command = None, fs_prompt = False, fs_display = False, fs_whitespace = [CR]\<rparr>"

subsection \<open>Trimming\<close>

fun split_words :: "string \<Rightarrow> string \<Rightarrow> string list" where
  "split_words acc [] = (if acc = [] then [] else [acc])"
| "split_words acc (c # s) =
     (if c_isspace c then (if acc = [] then split_words [] s else acc # split_words [] s)
      else split_words (acc @ [c]) s)"

fun join_space :: "string list \<Rightarrow> string" where
  "join_space [] = []"
| "join_space [w] = w"
| "join_space (w # ws) = w @ CHR '' '' # join_space ws"

definition strip_end :: "string \<Rightarrow> string" where
  "strip_end t = rev (dropWhile c_isspace (rev t))"

lemma space_is_space [simp]: "c_isspace (CHR '' '')"
  by code_simp

lemma strip_end_Nil [simp]: "strip_end [] = []"
  by (simp add: strip_end_def)

lemma strip_end_none: "list_all (\<lambda>c. \<not> c_isspace c) t \<Longrightarrow> strip_end t = t"
  by (cases t rule: rev_cases) (simp_all add: strip_end_def)

lemma strip_end_append:
  assumes "w \<noteq> []" "list_all (\<lambda>c. \<not> c_isspace c) w"
  shows "strip_end (w @ CHR '' '' # t) = (if strip_end t = [] then w else w @ CHR '' '' # strip_end t)"
proof (cases "strip_end t = []")
  case True
  then have "dropWhile c_isspace (rev t) = []" by (simp add: strip_end_def)
  then have "dropWhile c_isspace (rev t @ CHR '' '' # rev w) = dropWhile c_isspace (rev w)"
    by (simp add: dropWhile_append)
  with True strip_end_none [OF assms(2)] show ?thesis by (simp add: strip_end_def)
next
  case False
  then have "dropWhile c_isspace (rev t) \<noteq> []" by (simp add: strip_end_def)
  then have "\<exists>x \<in> set (rev t). \<not> c_isspace x" by (metis dropWhile_eq_Nil_conv)
  then have "dropWhile c_isspace (rev t @ CHR '' '' # rev w) = dropWhile c_isspace (rev t) @ CHR '' '' # rev w"
    using dropWhile_append1 by fastforce
  with False show ?thesis by (simp add: strip_end_def)
qed

lemma split_words_nonempty: "[] \<notin> set (split_words acc s)"
  by (induction acc s rule: split_words.induct) auto

lemma join_Nil: "[] \<notin> set ws \<Longrightarrow> join_space ws = [] \<longleftrightarrow> ws = []"
  by (cases ws rule: join_space.cases) auto

lemma join_Cons: "join_space (w # ws) = (if ws = [] then w else w @ CHR '' '' # join_space ws)"
  by (cases ws) auto

lemma collapse_words:
  "(\<forall>acc. acc \<noteq> [] \<longrightarrow> list_all (\<lambda>c. \<not> c_isspace c) acc \<longrightarrow>
      strip_end (acc @ collapse False s) = join_space (split_words acc s)) \<and>
   strip_end (collapse True s) = join_space (split_words [] s)"
proof (induction s)
  case Nil
  then show ?case by (auto simp: strip_end_none)
next
  case (Cons c s)
  show ?case
  proof (cases "c_isspace c")
    case True
    have "strip_end (acc @ collapse False (c # s)) = join_space (split_words acc (c # s))"
      if acc: "acc \<noteq> []" "list_all (\<lambda>c. \<not> c_isspace c) acc" for acc
    proof -
      have "strip_end (acc @ collapse False (c # s)) = strip_end (acc @ CHR '' '' # collapse True s)"
        using True by simp
      also have "\<dots> = (if strip_end (collapse True s) = [] then acc else acc @ CHR '' '' # strip_end (collapse True s))"
        by (rule strip_end_append [OF acc])
      also have "\<dots> = join_space (acc # split_words [] s)"
        using Cons join_Nil [OF split_words_nonempty, of "[]" s] by (simp add: join_Cons)
      finally show ?thesis using True acc(1) by simp
    qed
    then show ?thesis using Cons True by simp
  next
    case False
    have "strip_end (acc @ c # collapse False s) = join_space (split_words (acc @ [c]) s)"
      if "list_all (\<lambda>c. \<not> c_isspace c) acc" for acc
      using Cons that False by (auto dest: spec [of _ "acc @ [c]"])
    from this this [of "[]"] show ?thesis using False by simp
  qed
qed

lemma collapse_leading: "collapse False (dropWhile c_isspace s) = collapse True s"
  by (induction s) auto

lemma trim_eq:
  assumes "2 * length (takeWhile c_isspace s) \<le> n"
  shows "trim n s = Inr (join_space (split_words [] s))"
  using assms collapse_words [of s] by (simp add: trim_def collapse_leading strip_end_def)

subsection \<open>Tokens of a text that is known\<close>

lemma takeWhile_free: "set a \<inter> set d = {} \<Longrightarrow> c \<in> set d \<Longrightarrow> takeWhile (\<lambda>x. x \<notin> set d) (a @ c # r) = a"
  by (induction a) auto

lemma dropWhile_free: "set a \<inter> set d = {} \<Longrightarrow> c \<in> set d \<Longrightarrow> dropWhile (\<lambda>x. x \<notin> set d) (a @ c # r) = c # r"
  by (induction a) auto

lemma strtok_piece:
  assumes "a \<noteq> []" "set a \<inter> set d = {}" "c \<in> set d"
  shows "c_strtok d (a @ c # r) = (Some a, r)"
proof -
  have "dropWhile (\<lambda>x. x \<in> set d) (a @ c # r) = a @ c # r" using assms(1,2) by (cases a) auto
  then show ?thesis by (simp add: c_strtok_def takeWhile_free [OF assms(2,3)] dropWhile_free [OF assms(2,3)] assms(1))
qed

definition reply_head :: string where
  "reply_head = ''Content-Type: command/reply''"

lemma reply_header:
  assumes "sub \<noteq> []" "LF \<notin> set sub"
  shows "\<exists>rest. header_of (reply_head @ [LF] @ sub @ [LF] @ behind) = Inr (''Content-Type'', ''command/reply'', Some sub, rest)"
proof -
  let ?t = "reply_head @ [LF] @ sub @ [LF] @ behind"
  have k: "c_strtok '':'' ?t = (Some ''Content-Type'', '' command/reply'' @ LF # sub @ [LF] @ behind)"
    using strtok_piece [of "''Content-Type''" "'':''" "CHR '':''" "'' command/reply'' @ LF # sub @ [LF] @ behind"]
    by (simp add: reply_head_def)
  have v: "c_strtok [LF] ('' command/reply'' @ LF # sub @ [LF] @ behind) = (Some '' command/reply'', sub @ [LF] @ behind)"
    by (rule strtok_piece) (simp_all add: LF_def)
  have s: "c_strtok [LF] (sub @ [LF] @ behind) = (Some sub, behind)"
    using strtok_piece [of sub "[LF]" LF behind] assms by simp
  have t: "trim 32 '' command/reply'' = Inr ''command/reply''" by code_simp
  obtain w r4 where r4: "c_strtok [LF] behind = (w, r4)" by fastforce
  show ?thesis unfolding header_of_def k prod.case Let_def v s r4 by (simp add: sprintf_into_def t)
qed

lemma long_reply:
  assumes "fs_whitespace st = [CR]" "32 \<le> length v" "LF \<notin> set v" "CR \<notin> set v" "NUL \<notin> set v"
  shows "server_input secret (reply_head @ [LF] @ ''Reply-Text:'' @ v @ [LF, LF]) st = Inl Out_Of_Bounds"
proof -
  let ?b = "reply_head @ [LF] @ (''Reply-Text:'' @ v) @ [LF] @ [LF]"
  have free: "NUL \<notin> set ?b" "CR \<notin> set ?b"
    using assms(4,5) by (auto simp: reply_head_def NUL_def CR_def LF_def)
  have nul: "takeWhile (\<lambda>c. c \<noteq> NUL) ?b = ?b" using free(1) by (auto simp: takeWhile_eq_all_conv)
  have sub: "''Reply-Text:'' @ v \<noteq> []" "LF \<notin> set (''Reply-Text:'' @ v)" using assms(3) by (auto simp: LF_def)
  obtain rest where hd: "header_of ?b = Inr (''Content-Type'', ''command/reply'', Some (''Reply-Text:'' @ v), rest)"
    using reply_header [OF sub, of "[LF]"] by auto
  have "c_strtok '':'' (''Reply-Text:'' @ v) = (Some ''Reply-Text'', v)"
    using strtok_piece [of "''Reply-Text''" "'':''" "CHR '':''" v] by simp
  moreover obtain w where "c_strtok [LF] v = (Some v, w)"
  proof -
    have d: "dropWhile (\<lambda>c. c \<in> set [LF]) v = v" using assms(2,3) by (cases v) auto
    have t: "takeWhile (\<lambda>c. c \<notin> set [LF]) v = v" using assms(3) by (auto simp: takeWhile_eq_all_conv)
    have "v \<noteq> []" using assms(2) by auto
    then have "c_strtok [LF] v = (Some v, tl (dropWhile (\<lambda>c. c \<notin> set [LF]) v))"
      unfolding c_strtok_def Let_def d t by simp
    then show ?thesis by (rule that)
  qed
  ultimately have reply: "command_reply (Some (''Reply-Text:'' @ v)) st1 = Inl Out_Of_Bounds" for st1
    using assms(2) by (simp add: command_reply_def sprintf_into_def split: prod.split)
  have tok: "c_strtok [CR] ?b = (Some ?b, [])"
  proof -
    have d: "dropWhile (\<lambda>c. c \<in> set [CR]) ?b = ?b" by (simp add: reply_head_def CR_def)
    have t: "takeWhile (\<lambda>c. c \<notin> set [CR]) ?b = ?b" using free(2) by (auto simp: takeWhile_eq_all_conv)
    have t2: "dropWhile (\<lambda>c. c \<notin> set [CR]) ?b = []" using free(2) by (auto simp: dropWhile_eq_Nil_conv)
    show ?thesis unfolding c_strtok_def Let_def d t t2 by (simp add: reply_head_def)
  qed
  have loop: "token_loop secret ?b st1 = Inl Out_Of_Bounds" for st1
    by (subst token_loop.simps) (simp only: one_token_def Let_def hd sum.case prod.case, simp add: reply [simplified])
  have "?b \<noteq> []" by (simp add: reply_head_def)
  have "server_input secret ?b st = Inl Out_Of_Bounds"
  proof (cases "4096 \<le> length ?b")
    case True
    then show ?thesis unfolding server_input_def Let_def nul using \<open>?b \<noteq> []\<close> by (auto split: prod.split)
  next
    case False
    obtain st0 out0 where s: "(if fs_display st then (st\<lparr>fs_display := False, fs_prompt := True\<rparr>, [Print ?b]) else (st, [])) = (st0, out0)"
      "fs_whitespace st0 = [CR]" using assms(1) by (cases "fs_display st") auto
    show ?thesis unfolding server_input_def Let_def nul s(1) prod.case s(2) tok option.case loop using False \<open>?b \<noteq> []\<close> by simp
  qed
  then show ?thesis by simp
qed

subsection \<open>What is sent\<close>

definition sends :: "fsc_output list \<Rightarrow> string list" where
  "sends outs = concat (map (\<lambda>x. case x of Send s \<Rightarrow> [s] | Print s \<Rightarrow> []) outs)"

definition command_sent :: "string \<Rightarrow> string list" where
  "command_sent cmd =
     (if sent_as_it_is cmd then [cmd @ LF2]
      else if take 4 cmd = ''help'' \<or> take 1 cmd = ''?'' then [''api help'' @ LF2]
      else [''api '' @ cmd @ LF2])"

lemma sends_append [simp]: "sends (a @ b) = sends a @ sends b"
  by (simp add: sends_def)

lemma sends_simps [simp]: "sends (map Print xs) = []" "sends [] = []"
    "sends (Send y # z) = y # sends z" "sends (Print x # z) = sends z"
  by (simp_all add: sends_def)

lemma user_sends:
  assumes "cmd \<noteq> ''exit''" "cmd \<noteq> ''quit''"
  shows "\<exists>st1. user_command (cmd @ [LF]) st = (Some st1, snd (user_command (cmd @ [LF]) st)) \<and>
    sends (snd (user_command (cmd @ [LF]) st)) = command_sent cmd \<and> fs_command st1 = fs_command st"
  using assms by (auto simp: user_command_def command_sent_def Let_def)

lemma silent_round:
  assumes "cmd \<noteq> ''exit''" "cmd \<noteq> ''quit''" "fs_command st \<noteq> Some ''authenticated''"
  shows "\<exists>st1 out. fsc_round opts ([], cmd @ [LF]) st = Inr (Some st1, out) \<and> sends out = command_sent cmd \<and>
    fs_command st1 = fs_command st"
proof -
  obtain st0 out0 where s: "round_start (fo_hostname opts) st = (st0, out0)" by fastforce
  then have "sends out0 = []" "fs_command st0 = fs_command st"
    using assms(3) by (auto simp: round_start_def Let_def split: if_splits)
  moreover obtain st1 out1 where "user_command (cmd @ [LF]) st0 = (Some st1, out1)"
    "sends out1 = command_sent cmd" "fs_command st1 = fs_command st0"
    using user_sends [OF assms(1,2), of st0] by (metis snd_conv)
  ultimately show ?thesis by (simp add: fsc_round_def s server_input_def)
qed

lemma silent_run:
  assumes "''exit'' \<notin> set cmds" "''quit'' \<notin> set cmds" "fs_command st \<noteq> Some ''authenticated''"
  shows "\<exists>st1 out. fsc_run opts (map (\<lambda>cmd. ([], cmd @ [LF])) cmds) st = Inr (Some st1, out) \<and>
    sends out = concat (map command_sent cmds)"
  using assms
proof (induction cmds arbitrary: st)
  case Nil
  then show ?case by simp
next
  case (Cons cmd cmds)
  obtain st1 out where r: "fsc_round opts ([], cmd @ [LF]) st = Inr (Some st1, out)" "sends out = command_sent cmd"
    "fs_command st1 = fs_command st"
    using silent_round [of cmd st opts] Cons(2-4) by auto
  have "fs_command st1 \<noteq> Some ''authenticated''" "''exit'' \<notin> set cmds" "''quit'' \<notin> set cmds" using Cons(2-4) r(3) by auto
  then obtain st2 out2 where "fsc_run opts (map (\<lambda>cmd. ([], cmd @ [LF])) cmds) st1 = Inr (Some st2, out2)"
    "sends out2 = concat (map command_sent cmds)" using Cons(1) by blast
  with r show ?case by simp
qed

subsection \<open>A login\<close>

lemma login_tokens:
  "header_of (''Content-Type: auth/request'' @ LF2) = Inr (''Content-Type'', ''auth/request'', None, [])"
  "header_of (reply_head @ [LF] @ ''Reply-Text: +OK accepted'' @ LF2) =
     Inr (''Content-Type'', ''command/reply'', Some ''Reply-Text: +OK accepted'', [])"
  "c_strtok [CR] (''Content-Type: auth/request'' @ LF2) = (Some (''Content-Type: auth/request'' @ LF2), [])"
  "c_strtok [CR] (reply_head @ [LF] @ ''Reply-Text: +OK accepted'' @ LF2) =
     (Some (reply_head @ [LF] @ ''Reply-Text: +OK accepted'' @ LF2), [])"
  "takeWhile (\<lambda>c. c \<noteq> NUL) (''Content-Type: auth/request'' @ LF2) = ''Content-Type: auth/request'' @ LF2"
  "takeWhile (\<lambda>c. c \<noteq> NUL) (reply_head @ [LF] @ ''Reply-Text: +OK accepted'' @ LF2) = reply_head @ [LF] @ ''Reply-Text: +OK accepted'' @ LF2"
  "c_strtok s [] = (None, [])"
  "length (''Content-Type: auth/request'' @ LF2) < 4096"
  "length (reply_head @ [LF] @ ''Reply-Text: +OK accepted'' @ LF2) < 4096"
  by (code_simp, code_simp, code_simp, code_simp, code_simp, code_simp, simp add: c_strtok_def, code_simp, code_simp)

lemma server_token:
  assumes "fs_display st = False" "bytes \<noteq> []" "takeWhile (\<lambda>c. c \<noteq> NUL) bytes = bytes" "length bytes < 4096"
    "c_strtok (fs_whitespace st) bytes = (Some token, r)" "token_loop secret token st = Inr (st1, out)"
  shows "server_input secret bytes st = Inr (st1, out)"
  using assms(4) by (simp add: server_input_def assms(1-3,5,6) Let_def)

lemma asked:
  "server_input secret (''Content-Type: auth/request'' @ LF2) fsc_start =
     Inr (fsc_start\<lparr>fs_command := Some ''auth''\<rparr>, [Print ([LF] @ ''Authenticating...'' @ [LF]), Send (''auth '' @ secret @ LF2)])"
  by (simp only: server_input_def login_tokens Let_def fsc_start_def fsc_state.simps if_False prod.case option.case)
    (subst token_loop.simps, simp only: one_token_def login_tokens Let_def, simp add: login_tokens LF2_def)

lemma accepted:
  "server_input secret (reply_head @ [LF] @ ''Reply-Text: +OK accepted'' @ LF2) (fsc_start\<lparr>fs_command := Some ''auth''\<rparr>) =
     Inr (fsc_start\<lparr>fs_command := Some ''authenticated'', fs_whitespace := [LF]\<rparr>, [Print (''Authentication Successful'' @ [LF])])"
proof -
  have r: "command_reply (Some ''Reply-Text: +OK accepted'') (fsc_start\<lparr>fs_command := Some ''auth'', fs_display := True\<rparr>) =
    Inr (fsc_start\<lparr>fs_command := Some ''authenticated'', fs_whitespace := [LF]\<rparr>, [Print (''Authentication Successful'' @ [LF])], [])"
    by code_simp
  have l: "one_token secret (reply_head @ [LF] @ ''Reply-Text: +OK accepted'' @ LF2) (fsc_start\<lparr>fs_command := Some ''auth''\<rparr>) =
    Inr (fsc_start\<lparr>fs_command := Some ''authenticated'', fs_whitespace := [LF]\<rparr>, [Print (''Authentication Successful'' @ [LF])], [])"
    using r by (simp only: one_token_def login_tokens Let_def) (simp add: fsc_start_def)
  have "token_loop secret (reply_head @ [LF] @ ''Reply-Text: +OK accepted'' @ LF2) (fsc_start\<lparr>fs_command := Some ''auth''\<rparr>) =
    Inr (fsc_start\<lparr>fs_command := Some ''authenticated'', fs_whitespace := [LF]\<rparr>, [Print (''Authentication Successful'' @ [LF])])"
    by (subst token_loop.simps) (simp only: l sum.case prod.case login_tokens option.case)
  moreover have "c_strtok (fs_whitespace (fsc_start\<lparr>fs_command := Some ''auth''\<rparr>)) (reply_head @ [LF] @ ''Reply-Text: +OK accepted'' @ LF2) =
    (Some (reply_head @ [LF] @ ''Reply-Text: +OK accepted'' @ LF2), [])"
    unfolding fsc_start_def fsc_state.simps by (rule login_tokens(4))
  moreover have "reply_head @ [LF] @ ''Reply-Text: +OK accepted'' @ LF2 \<noteq> []" by (simp add: reply_head_def)
  moreover have "fs_display (fsc_start\<lparr>fs_command := Some ''auth''\<rparr>) = False" by (simp add: fsc_start_def)
  ultimately show ?thesis using server_token login_tokens(6,9) by blast
qed

lemma login_run:
  "\<exists>st out. fsc_run opts [(''Content-Type: auth/request'' @ LF2, []), (reply_head @ [LF] @ ''Reply-Text: +OK accepted'' @ LF2, []), ([], [])] fsc_start =
      Inr (Some st, out) \<and> sends out = [''auth '' @ fo_secret opts @ LF2, ''api version'' @ LF2] \<and> fs_command st = Some []"
proof -
  let ?a = "fsc_start\<lparr>fs_command := Some ''auth''\<rparr>"
  let ?c = "fsc_start\<lparr>fs_command := Some ''authenticated'', fs_whitespace := [LF]\<rparr>"
  have start: "round_start h fsc_start = (fsc_start, [])" "round_start h ?a = (?a, [])" for h
    by (simp_all add: round_start_def fsc_start_def)
  have "fsc_round opts (''Content-Type: auth/request'' @ LF2, []) fsc_start =
      Inr (Some ?a, [Print ([LF] @ ''Authenticating...'' @ [LF]), Send (''auth '' @ fo_secret opts @ LF2)])"
    unfolding fsc_round_def start Let_def prod.case fst_conv asked sum.case by (simp add: user_command_def)
  moreover have "fsc_round opts (reply_head @ [LF] @ ''Reply-Text: +OK accepted'' @ LF2, []) ?a =
      Inr (Some ?c, [Print (''Authentication Successful'' @ [LF])])"
    unfolding fsc_round_def start Let_def prod.case fst_conv accepted sum.case by (simp add: user_command_def)
  moreover have "fsc_round opts ([], []) ?c =
      Inr (Some (?c\<lparr>fs_command := Some []\<rparr>), [Print ([LF] @ ''Running Version:'' @ [LF]), Send (''api version'' @ LF2)])"
    by (simp add: fsc_round_def round_start_def server_input_def user_command_def fsc_start_def)
  ultimately show ?thesis
    by (simp only: fsc_run.simps sum.case prod.case option.case) simp
qed

subsection \<open>The properties\<close>

text \<open>
  \<open>trim\<close> gives the words of a text with one space between them, when the spaces in front of them fill at most half
  of the buffer.
\<close>

theorem trim_joins_words:
  assumes "2 * length (takeWhile c_isspace s) \<le> n"
  shows "trim n s = Inr (join_space (split_words [] s))"
  by (rule trim_eq [OF assms])

theorem trim_joins_words_witness: "trim 32 ''  +OK   accepted '' = Inr ''+OK accepted''"
proof -
  have "2 * length (takeWhile c_isspace ''  +OK   accepted '') \<le> 32" by code_simp
  moreover have "join_space (split_words [] ''  +OK   accepted '') = ''+OK accepted''" by code_simp
  ultimately show ?thesis using trim_joins_words by metis
qed

text \<open>
  A login: the server asks for it and accepts it; the secret is sent, then the command for the version, and nothing
  else.
\<close>

theorem login:
  "\<exists>st out. fsc_run opts [(''Content-Type: auth/request'' @ LF2, []), (reply_head @ [LF] @ ''Reply-Text: +OK accepted'' @ LF2, []), ([], [])] fsc_start =
      Inr (Some st, out) \<and> sends out = [''auth '' @ fo_secret opts @ LF2, ''api version'' @ LF2] \<and> fs_command st = Some []"
  by (rule login_run)

text \<open>
  While the server is silent every line of the user is sent once and in order: as it is when it begins with one of the
  commands, and as the argument of \<open>api\<close> otherwise, also an empty line and the command \<open>nixevent\<close> of the help.
\<close>

theorem lines_sent_in_order:
  assumes "''exit'' \<notin> set cmds" "''quit'' \<notin> set cmds" "fs_command st \<noteq> Some ''authenticated''"
  shows "\<exists>st1 out. fsc_run opts (map (\<lambda>cmd. ([], cmd @ [LF])) cmds) st = Inr (Some st1, out) \<and>
    sends out = concat (map command_sent cmds)"
  by (rule silent_run [OF assms])

theorem lines_sent_in_order_witness:
  "\<exists>st1 out. fsc_run fsc_defaults (map (\<lambda>cmd. ([], cmd @ [LF])) [''log 7'', [], ''nixevent DTMF'']) fsc_start = Inr (Some st1, out) \<and>
    sends out = [''log 7'' @ LF2, ''api '' @ LF2, ''api nixevent DTMF'' @ LF2]"
  using lines_sent_in_order [of "[''log 7'', [], ''nixevent DTMF'']" fsc_start fsc_defaults]
  by (simp add: fsc_start_def command_sent_def sent_as_it_is_def)

text \<open>A reply of 32 characters or more overruns the buffer for it, as the answer to an ordinary command does.\<close>

theorem long_reply_overruns:
  assumes "fs_whitespace st = [CR]" "32 \<le> length v" "LF \<notin> set v" "CR \<notin> set v" "NUL \<notin> set v"
  shows "server_input secret (reply_head @ [LF] @ ''Reply-Text:'' @ v @ [LF, LF]) st = Inl Out_Of_Bounds"
  by (rule long_reply [OF assms])

theorem long_reply_overruns_witness:
  "server_input ''ClueCon'' (reply_head @ [LF] @ ''Reply-Text: +OK event listener enabled plain'' @ [LF, LF]) fsc_start = Inl Out_Of_Bounds"
  using long_reply_overruns [of fsc_start "'' +OK event listener enabled plain''" "''ClueCon''"]
  by (simp add: fsc_start_def LF_def CR_def NUL_def)

text \<open>The port and the secret on the command line are never taken.\<close>

theorem only_host_taken: "fo_port (fsc_arguments argv) = 8021 \<and> fo_secret (fsc_arguments argv) = ''ClueCon''"
  by (simp add: fsc_arguments_def fsc_defaults_def Let_def)

end
