(* ===== verification/Fs_Eventsd.thy ===== *)
theory Fs_Eventsd
  imports C_Library
begin

text \<open>
  \<open>jmesquita/fs_eventsd/eventsd.c\<close>: a daemon that starts a program for every event of the event socket that fits one of
  the configured profiles.  The event socket, the reading of the configuration and \<open>esl_set_string\<close>, which copies a
  text into an array of 128 characters, are the library's.
\<close>

subsection \<open>Options\<close>

record esd_options =
  eo_host :: string
  eo_pass :: string
  eo_port :: int
  eo_conf :: string
  eo_log :: int
  eo_error :: bool

definition esd_defaults :: esd_options where
  "esd_defaults = \<lparr>eo_host = ''127.0.0.1'', eo_pass = ''ClueCon'', eo_port = 8021, eo_conf = ''/etc/fs_eventsd.conf'', eo_log = 6, eo_error = False\<rparr>"

text \<open>What \<open>getopt_long\<close> gives, one option after the other; \<open>None\<close> when the usage is printed and the program ends.\<close>

fun esd_getopt :: "(string \<Rightarrow> string) \<Rightarrow> (char \<times> string) list \<Rightarrow> esd_options \<Rightarrow> esd_options option" where
  "esd_getopt set_string [] o1 = Some o1"
| "esd_getopt set_string ((opt, optarg) # os) o1 =
     (if opt = CHR ''H'' then esd_getopt set_string os (o1\<lparr>eo_host := set_string optarg\<rparr>)
      else if opt = CHR ''c'' then esd_getopt set_string os (o1\<lparr>eo_conf := set_string optarg\<rparr>)
      else if opt = CHR ''P''
      then esd_getopt set_string os
             (if c_atoi optarg > 0 \<and> c_atoi optarg < 65536 then o1\<lparr>eo_port := c_atoi optarg\<rparr> else o1\<lparr>eo_error := True\<rparr>)
      else if opt = CHR ''p'' then esd_getopt set_string os (o1\<lparr>eo_pass := set_string optarg\<rparr>)
      else if opt = CHR ''d''
      then esd_getopt set_string os
             (if c_atoi optarg < 0 \<or> c_atoi optarg > 7 then o1\<lparr>eo_error := True\<rparr> else o1\<lparr>eo_log := c_atoi optarg\<rparr>)
      else if opt = CHR ''h'' \<or> opt = CHR ''?'' then None
      else esd_getopt set_string os o1)"

subsection \<open>Profiles\<close>

record event_profile =
  ep_name :: string
  ep_header :: string
  ep_action :: string

definition PROFILES_MAX :: nat where "PROFILES_MAX = 128"

text \<open>The array of the profiles up to \<open>pcount\<close>, and \<open>cur_cat\<close>.\<close>

type_synonym esd_profile_state = "event_profile list \<times> string"

text \<open>The last profile is changed; without one it is the element before the array.\<close>

definition change_profile :: "(event_profile \<Rightarrow> event_profile) \<Rightarrow> esd_profile_state \<Rightarrow> crash + esd_profile_state" where
  "change_profile f s =
     (let (ps, cur) = s in if ps = [] then Inl Out_Of_Bounds else Inr (butlast ps @ [f (last ps)], cur))"

definition config_pair ::
    "(string \<Rightarrow> string) \<Rightarrow> string \<times> string \<times> string \<Rightarrow> esd_profile_state \<Rightarrow> crash + esd_profile_state" where
  "config_pair set_string c s =
     (let (category, var, val) = c; (ps, cur_cat) = s
      in if cur_cat \<noteq> category \<and> length ps = PROFILES_MAX then Inl Out_Of_Bounds
         else (let s1 = (if cur_cat \<noteq> category
                         then (ps @ [\<lparr>ep_name = set_string (set_string category), ep_header = [], ep_action = []\<rparr>], set_string category)
                         else s)
               in if c_strcaseeq var ''action'' then change_profile (\<lambda>p. p\<lparr>ep_action := set_string val\<rparr>) s1
                  else if c_strcaseeq var ''header'' then change_profile (\<lambda>p. p\<lparr>ep_header := set_string val\<rparr>) s1
                  else Inr s1))"

fun read_profiles :: "(string \<Rightarrow> string) \<Rightarrow> (string \<times> string \<times> string) list \<Rightarrow> esd_profile_state \<Rightarrow> crash + esd_profile_state" where
  "read_profiles set_string [] s = Inr s"
| "read_profiles set_string (c # cs) s =
     (case config_pair set_string c s of Inl e \<Rightarrow> Inl e | Inr s1 \<Rightarrow> read_profiles set_string cs s1)"

subsection \<open>Events\<close>

text \<open>
  The loop over the profiles: the programs \<open>mycallback\<close> starts.  A header an event does not have is a null pointer for
  \<open>strcasecmp\<close>.
\<close>

fun event_actions :: "('e \<Rightarrow> string \<Rightarrow> string option) \<Rightarrow> 'e \<Rightarrow> event_profile list \<Rightarrow> crash + string list" where
  "event_actions get_header e [] = Inr []"
| "event_actions get_header e (p # ps) =
     (case get_header e (ep_header p) of
        None \<Rightarrow> Inl Null_Deref
      | Some v \<Rightarrow>
          (case event_actions get_header e ps of
             Inl c \<Rightarrow> Inl c
           | Inr as \<Rightarrow> Inr (if c_strcaseeq (ep_name p) v then ep_action p # as else as)))"

text \<open>The main loop over what \<open>esl_recv_event\<close> gives while the connection lasts; \<open>None\<close> is a failed call.\<close>

fun esd_loop :: "('e \<Rightarrow> string \<Rightarrow> string option) \<Rightarrow> event_profile list \<Rightarrow> 'e option list \<Rightarrow> crash + (string \<times> 'e) list" where
  "esd_loop get_header ps [] = Inr []"
| "esd_loop get_header ps (None # es) = esd_loop get_header ps es"
| "esd_loop get_header ps (Some e # es) =
     (case event_actions get_header e ps of
        Inl c \<Rightarrow> Inl c
      | Inr as \<Rightarrow>
          (case esd_loop get_header ps es of Inl c \<Rightarrow> Inl c | Inr started \<Rightarrow> Inr (map (\<lambda>a. (a, e)) as @ started)))"

text \<open>
  \<open>main\<close>: what it returns and the programs started, each with the event it gets.  The configuration is \<open>None\<close> when the
  file cannot be opened; \<open>connects\<close> says whether \<open>esl_connect\<close> succeeds with the host, the port and the password.
\<close>

definition esd_main ::
    "(string \<Rightarrow> string) \<Rightarrow> ('e \<Rightarrow> string \<Rightarrow> string option) \<Rightarrow> (char \<times> string) list \<Rightarrow>
     (string \<Rightarrow> (string \<times> string \<times> string) list option) \<Rightarrow> (string \<Rightarrow> int \<Rightarrow> string \<Rightarrow> bool) \<Rightarrow> 'e option list \<Rightarrow>
     crash + int \<times> (string \<times> 'e) list" where
  "esd_main set_string get_header argv files connects received =
     (case esd_getopt set_string argv esd_defaults of
        None \<Rightarrow> Inr (0, [])
      | Some o1 \<Rightarrow>
          if eo_error o1 then Inr (1, [])
          else (case files (eo_conf o1) of
                  None \<Rightarrow> Inr (- 1, [])
                | Some pairs \<Rightarrow>
                    (case read_profiles set_string pairs ([], []) of
                       Inl c \<Rightarrow> Inl c
                     | Inr (ps, _) \<Rightarrow>
                         if \<not> connects (eo_host o1) (eo_port o1) (eo_pass o1) then Inr (- 1, [])
                         else (case esd_loop get_header ps received of
                                 Inl c \<Rightarrow> Inl c
                               | Inr started \<Rightarrow> Inr (0, started)))))"

subsection \<open>Configurations by sections\<close>

definition keeps_short :: "(string \<Rightarrow> string) \<Rightarrow> bool" where
  "keeps_short set_string \<longleftrightarrow> (\<forall>s. length s < 128 \<longrightarrow> set_string s = s)"

definition short_profile :: "event_profile \<Rightarrow> bool" where
  "short_profile p \<longleftrightarrow> ep_name p \<noteq> [] \<and> length (ep_name p) < 128 \<and> length (ep_header p) < 128 \<and> length (ep_action p) < 128"

definition profile_pairs :: "event_profile \<Rightarrow> (string \<times> string \<times> string) list" where
  "profile_pairs p = [(ep_name p, ''header'', ep_header p), (ep_name p, ''action'', ep_action p)]"

lemma pair_words: "\<not> c_strcaseeq ''header'' ''action''" "c_strcaseeq ''header'' ''header''" "c_strcaseeq ''action'' ''action''"
  by code_simp+

lemma profile_read:
  assumes "keeps_short f" "short_profile p" "cur \<noteq> ep_name p" "length ps < PROFILES_MAX"
  shows "read_profiles f (profile_pairs p @ cs) (ps, cur) = read_profiles f cs (ps @ [p], ep_name p)"
proof -
  have l: "f (ep_name p) = ep_name p" "f (ep_header p) = ep_header p" "f (ep_action p) = ep_action p"
    using assms(1,2) by (simp_all add: keeps_short_def short_profile_def)
  have "config_pair f (ep_name p, ''header'', ep_header p) (ps, cur) =
    Inr (ps @ [\<lparr>ep_name = ep_name p, ep_header = ep_header p, ep_action = []\<rparr>], ep_name p)"
    using assms(3,4) by (simp add: config_pair_def change_profile_def l pair_words)
  moreover have "config_pair f (ep_name p, ''action'', ep_action p) (ps @ [\<lparr>ep_name = ep_name p, ep_header = ep_header p, ep_action = []\<rparr>], ep_name p) =
    Inr (ps @ [p], ep_name p)"
    by (simp add: config_pair_def change_profile_def l pair_words)
  ultimately show ?thesis by (simp add: profile_pairs_def)
qed

lemma profiles_read:
  assumes "keeps_short f"
  shows "list_all short_profile qs \<Longrightarrow> distinct (cur # map ep_name qs) \<Longrightarrow> length ps + length qs \<le> PROFILES_MAX \<Longrightarrow>
    \<exists>cur1. read_profiles f (concat (map profile_pairs qs)) (ps, cur) = Inr (ps @ qs, cur1)"
proof (induction qs arbitrary: ps cur)
  case Nil
  then show ?case by simp
next
  case (Cons q qs)
  have "read_profiles f (profile_pairs q @ concat (map profile_pairs qs)) (ps, cur) =
      read_profiles f (concat (map profile_pairs qs)) (ps @ [q], ep_name q)"
    using Cons(2-4) by (intro profile_read [OF assms]) auto
  moreover have "\<exists>cur1. read_profiles f (concat (map profile_pairs qs)) (ps @ [q], ep_name q) = Inr ((ps @ [q]) @ qs, cur1)"
    using Cons(2-4) by (intro Cons(1)) auto
  ultimately show ?case by simp
qed

definition matching :: "('e \<Rightarrow> string \<Rightarrow> string option) \<Rightarrow> event_profile list \<Rightarrow> 'e \<Rightarrow> string list" where
  "matching get_header ps e = map ep_action (filter (\<lambda>p. c_strcaseeq (ep_name p) (the (get_header e (ep_header p)))) ps)"

lemma actions_match:
  assumes "\<forall>p \<in> set ps. get_header e (ep_header p) \<noteq> None"
  shows "event_actions get_header e ps = Inr (matching get_header ps e)"
  using assms by (induction ps) (auto simp: matching_def)

lemma loop_matches:
  assumes "\<forall>e. Some e \<in> set es \<longrightarrow> (\<forall>p \<in> set ps. get_header e (ep_header p) \<noteq> None)"
  shows "esd_loop get_header ps es =
    Inr (concat (map (\<lambda>r. case r of None \<Rightarrow> [] | Some e \<Rightarrow> map (\<lambda>a. (a, e)) (matching get_header ps e)) es))"
  using assms
proof (induction es)
  case Nil
  then show ?case by simp
next
  case (Cons r es)
  have ih: "esd_loop get_header ps es =
    Inr (concat (map (\<lambda>r. case r of None \<Rightarrow> [] | Some e \<Rightarrow> map (\<lambda>a. (a, e)) (matching get_header ps e)) es))"
    using Cons by simp
  show ?case
  proof (cases r)
    case None
    then show ?thesis by (simp add: ih)
  next
    case (Some e)
    then have "event_actions get_header e ps = Inr (matching get_header ps e)" using Cons(2) by (intro actions_match) simp
    then show ?thesis by (simp add: Some ih)
  qed
qed

lemma actions_missing: "\<exists>p \<in> set ps. get_header e (ep_header p) = None \<Longrightarrow> event_actions get_header e ps = Inl Null_Deref"
proof (induction ps)
  case Nil
  then show ?case by simp
next
  case (Cons p ps)
  show ?case
  proof (cases "get_header e (ep_header p)")
    case None
    then show ?thesis by simp
  next
    case (Some v)
    with Cons(2) have "\<exists>p \<in> set ps. get_header e (ep_header p) = None" by auto
    from Cons(1) [OF this] Some show ?thesis by simp
  qed
qed

lemma config_read:
  assumes "keeps_short f" "list_all short_profile qs" "distinct (map ep_name qs)" "length qs \<le> PROFILES_MAX"
  shows "\<exists>cur1. read_profiles f (concat (map profile_pairs qs)) ([], []) = Inr (qs, cur1)"
proof -
  have "[] \<notin> set (map ep_name qs)" using assms(2) by (auto simp: short_profile_def list_all_iff)
  then show ?thesis using profiles_read [OF assms(1,2), of "[]" "[]"] assms(3,4) by auto
qed

subsection \<open>The properties\<close>

text \<open>
  With a configuration of at most 128 sections, each with its header and its action, every event starts the actions of
  the sections whose name its header has, in the order of the configuration, and nothing else is started.
\<close>

theorem matching_programs_started:
  assumes "keeps_short f" "esd_getopt f argv esd_defaults = Some o1" "\<not> eo_error o1"
    "files (eo_conf o1) = Some (concat (map profile_pairs qs))"
    "list_all short_profile qs" "distinct (map ep_name qs)" "length qs \<le> PROFILES_MAX"
    "connects (eo_host o1) (eo_port o1) (eo_pass o1)"
    "\<forall>e. Some e \<in> set received \<longrightarrow> (\<forall>p \<in> set qs. get_header e (ep_header p) \<noteq> None)"
  shows "esd_main f get_header argv files connects received =
    Inr (0, concat (map (\<lambda>r. case r of None \<Rightarrow> [] | Some e \<Rightarrow> map (\<lambda>a. (a, e)) (matching get_header qs e)) received))"
proof -
  obtain cur1 where "read_profiles f (concat (map profile_pairs qs)) ([], []) = Inr (qs, cur1)"
    using config_read [OF assms(1,5-7)] by blast
  with assms(2-4,8) show ?thesis by (simp add: esd_main_def loop_matches [OF assms(9)])
qed

definition esd_example :: "event_profile list" where
  "esd_example =
     [\<lparr>ep_name = ''CHANNEL_ANSWER'', ep_header = ''Event-Name'', ep_action = ''/a''\<rparr>,
      \<lparr>ep_name = ''heartbeat'', ep_header = ''Event-Name'', ep_action = ''/h''\<rparr>]"

definition esd_header :: "string \<Rightarrow> string \<Rightarrow> string option" where
  "esd_header e h = (if h = ''Event-Name'' then Some e else None)"

definition esd_files :: "string \<Rightarrow> (string \<times> string \<times> string) list option" where
  "esd_files f = (if f = ''/etc/fs_eventsd.conf'' then Some (concat (map profile_pairs esd_example)) else None)"

definition esd_connects :: "string \<Rightarrow> int \<Rightarrow> string \<Rightarrow> bool" where
  "esd_connects h p s = (h = ''fs1'')"

theorem matching_programs_started_witness:
  "esd_main (take 127) esd_header [(CHR ''H'', ''fs1'')] esd_files esd_connects [Some ''HEARTBEAT'', None, Some ''DTMF''] =
   Inr (0, [(''/h'', ''HEARTBEAT'')])"
proof -
  let ?o = "esd_defaults\<lparr>eo_host := ''fs1''\<rparr>"
  have o1: "esd_getopt (take 127) [(CHR ''H'', ''fs1'')] esd_defaults = Some ?o" by code_simp
  have m: "concat (map (\<lambda>r. case r of None \<Rightarrow> [] | Some e \<Rightarrow> map (\<lambda>a. (a, e)) (matching esd_header esd_example e)) [Some ''HEARTBEAT'', None, Some ''DTMF'']) =
    [(''/h'', ''HEARTBEAT'')]" by code_simp
  have k: "keeps_short (take 127)" by (simp add: keeps_short_def)
  have e: "\<not> eo_error ?o" by (simp add: esd_defaults_def)
  have c: "esd_files (eo_conf ?o) = Some (concat (map profile_pairs esd_example))" by (simp add: esd_defaults_def esd_files_def)
  have q: "list_all short_profile esd_example" "distinct (map ep_name esd_example)" "length esd_example \<le> PROFILES_MAX"
    by (simp_all add: short_profile_def esd_example_def PROFILES_MAX_def)
  have p: "esd_connects (eo_host ?o) (eo_port ?o) (eo_pass ?o)" by (simp add: esd_defaults_def esd_connects_def)
  have g: "\<forall>e. Some e \<in> set [Some ''HEARTBEAT'', None, Some ''DTMF''] \<longrightarrow> (\<forall>p \<in> set esd_example. esd_header e (ep_header p) \<noteq> None)"
    by (simp add: esd_example_def esd_header_def)
  have "esd_main (take 127) esd_header [(CHR ''H'', ''fs1'')] esd_files esd_connects [Some ''HEARTBEAT'', None, Some ''DTMF''] =
    Inr (0, concat (map (\<lambda>r. case r of None \<Rightarrow> [] | Some e \<Rightarrow> map (\<lambda>a. (a, e)) (matching esd_header esd_example e)) [Some ''HEARTBEAT'', None, Some ''DTMF'']))"
    by (rule matching_programs_started [where f = "take 127" and argv = "[(CHR ''H'', ''fs1'')]" and ?o1.0 = ?o and files = esd_files and
        qs = esd_example and connects = esd_connects and get_header = esd_header]) (fact k o1 e c q p g)+
  then show ?thesis unfolding m .
qed

text \<open>An event without the header of one of the profiles ends the daemon.\<close>

theorem missing_header_ends_daemon:
  assumes "\<exists>p \<in> set ps. get_header e (ep_header p) = None"
  shows "esd_loop get_header ps (Some e # es) = Inl Null_Deref"
  by (simp add: actions_missing [of ps get_header e] assms)

theorem missing_header_ends_daemon_witness:
  "esd_loop (\<lambda>e h. if h = ''Event-Name'' then Some e else None) [\<lparr>ep_name = ''x'', ep_header = [], ep_action = ''/a''\<rparr>] [Some ''DTMF''] =
     Inl Null_Deref"
  by (rule missing_header_ends_daemon) simp

text \<open>One section more than the array has room for is written behind it.\<close>

theorem too_many_sections:
  assumes "keeps_short f" "list_all short_profile (qs @ [q])" "distinct (map ep_name (qs @ [q]))" "length qs = PROFILES_MAX"
  shows "read_profiles f (concat (map profile_pairs (qs @ [q]))) ([], []) = Inl Out_Of_Bounds"
proof -
  have app: "read_profiles f (cs @ ds) s = (case read_profiles f cs s of Inl e \<Rightarrow> Inl e | Inr s1 \<Rightarrow> read_profiles f ds s1)" for cs ds s
    by (induction cs arbitrary: s) (auto split: sum.split)
  obtain cur1 where r: "read_profiles f (concat (map profile_pairs qs)) ([], []) = Inr (qs, cur1)"
    using config_read [OF assms(1), of qs] assms(2-4) by auto
  have "cur1 = ep_name (last qs)"
  proof -
    obtain ps p where qs: "qs = ps @ [p]" using assms(4) by (cases qs rule: rev_cases) (auto simp: PROFILES_MAX_def)
    obtain cur0 where r0: "read_profiles f (concat (map profile_pairs ps)) ([], []) = Inr (ps, cur0)"
      using config_read [OF assms(1), of ps] assms(2-4) by (auto simp: qs)
    have "read_profiles f (profile_pairs p) (ps, cur0) = Inr (qs, cur1)" using r by (simp add: qs app r0)
    moreover have "config_pair f (ep_name p, ''action'', ep_action p) s = Inr (t, c) \<Longrightarrow> c = ep_name p" for s t c
      using assms(1,2) by (cases s) (auto simp: config_pair_def change_profile_def keeps_short_def short_profile_def qs pair_words Let_def split: if_splits)
    ultimately show ?thesis by (auto simp: profile_pairs_def qs split: sum.splits)
  qed
  moreover have "ep_name (last qs) \<noteq> ep_name q"
    using assms(3,4) by (cases qs rule: rev_cases) (auto simp: PROFILES_MAX_def)
  ultimately have "config_pair f (ep_name q, ''header'', ep_header q) (qs, cur1) = Inl Out_Of_Bounds"
    using assms(4) by (simp add: config_pair_def)
  then show ?thesis by (simp add: app r profile_pairs_def)
qed

definition numbered :: "nat \<Rightarrow> event_profile" where
  "numbered k = \<lparr>ep_name = [char_of k], ep_header = ''Event-Name'', ep_action = ''/a''\<rparr>"

theorem too_many_sections_witness:
  "read_profiles id (concat (map profile_pairs (map numbered [1..<130]))) ([], []) = Inl Out_Of_Bounds"
proof -
  have "inj_on (\<lambda>k. [char_of k :: char]) {1..<130 :: nat}"
    by (rule inj_onI, drule arg_cong [where f = "\<lambda>s. of_char (hd s) :: nat"]) simp
  then have d: "distinct (map (\<lambda>k. [char_of k :: char]) [1..<130 :: nat])" by (simp add: distinct_map del: upt_rec_numeral)
  have s: "[1..<130] = [1..<129] @ [129::nat]" using upt_Suc_append [of 1 129] by (simp del: upt_rec_numeral)
  have "list_all short_profile (map numbered [1..<129] @ [numbered 129])"
    by (simp add: list_all_iff short_profile_def numbered_def del: upt_rec_numeral)
  moreover have "distinct (map ep_name (map numbered [1..<129] @ [numbered 129]))"
    using d unfolding s by (simp add: numbered_def comp_def del: upt_rec_numeral)
  moreover have "length (map numbered [1..<129]) = PROFILES_MAX" by (simp add: PROFILES_MAX_def del: upt_rec_numeral)
  ultimately have "read_profiles id (concat (map profile_pairs (map numbered [1..<129] @ [numbered 129]))) ([], []) = Inl Out_Of_Bounds"
    by (intro too_many_sections) (simp_all add: keeps_short_def del: upt_rec_numeral)
  then show ?thesis unfolding s by (simp only: map_append list.map)
qed

end
