(* ===== verification/Spec2Isabelle.thy ===== *)
theory Spec2Isabelle
  imports Lcr_Config Lcr_Locking Url_Encoding Http_Response Nibblebill Link_Hash Array_List Mod_Http Json_File S25_Mwi Esl2agi Xmlcdr_Daemon Blacklist Xml_Odbc_Simple Xml_Radius Vm_Profiles Amqp_Listener Odbc_Query Translate Fsconsole Fs_Eventsd
begin

text \<open>
  A verification development for the C modules and daemons of freeswitch-contrib.

  \<^bold>\<open>The repository.\<close>  Every directory under \<open>src/\<close> is the work of one contributor; there is no common
  program.  What the parts share is the environment: FreeSWITCH loads the modules and calls their
  applications, commands and event handlers; the daemons talk to it over its event socket or are
  called by it with a record of a call.  The development follows this: every module or daemon is a
  group of theories of its own, over theories for the C language, the C library, the operating
  system and the core of FreeSWITCH that all of them use.

  \<^bold>\<open>Common ground.\<close>
  \<^item> \<open>C_Prelude\<close>: the names of the C types (words of their width), search loops, list lemmas and the
    collections of rules \<open>loop_facts\<close> and \<open>inv_intros\<close>.
  \<^item> \<open>C_Library\<close>: strings without their NUL, buffers in which a NUL ends the string, the character
    classes of the C locale, \<open>atoi\<close>, \<open>snprintf\<close> and the type \<open>crash\<close> of what undefined behaviour the
    code runs into: a null pointer, an index out of bounds, memory used after it was freed, a wild
    pointer.  A function that may crash returns \<open>crash + result\<close>.
  \<^item> \<open>C_Double\<close> and \<open>C_Float\<close>: floating point as mantissa and exponent with rounding to nearest, even on
    ties, for numbers in the normal range.  \<open>C_Format\<close>: printing an \<open>int\<close> and reading it back.
  \<^item> \<open>Posix_Io\<close>: a descriptor is the list of the pieces \<open>read\<close> will deliver, of the results \<open>write\<close>
    will have, and what was written so far; \<open>strtok_r\<close> and \<open>getopt\<close>.
  \<^item> \<open>Fs_Api\<close>: the functions of the core of FreeSWITCH that the modules call.  Their code is not in
    the repository, so they are the fields of a record every definition takes as an argument.

  \<^bold>\<open>mod_simple_lcr\<close> (\<open>crienzo/mod_simple_lcr\<close>), least cost routing.
  \<^item> \<open>Route_Array\<close>: the array of at most \<open>max_size\<close> routes ordered by cost (\<open>route_trie.c\<close>), with 8 and 16
    bit indices kept at their width.  A locale states what a bounded container of routes promises and
    a second one, extending it, what its head is; both are interpreted on the array.
  \<^item> \<open>Route_Trie\<close>: the trie of prefixes, and the locale of a store of prefixes interpreted on it.
  \<^item> \<open>Lcr_Database\<close>: carriers, gateways, \<open>lcr_find\<close> in its modes, dial strings, the dialplan and the
    command of the module; \<open>Lcr_Config\<close>: costs as double, area files, rate decks and \<open>load_config\<close>.
  \<^item> \<open>Lcr_Locking\<close>: calls, reloads and the destruction of an old database as an inductive step relation
    over the two locks and the reference to the database, with an invariant by rule induction.
  The lemmas show that the head of the array is the cheapest route ever added, that a search pours
  out the routes of every prefix of the number, which routes a call is sent to, that a
  configuration is installed as a whole or not at all, and that no call works on a freed database.

  \<^bold>\<open>mod_http\<close> (\<open>mod/applications/mod_http\<close>), the command \<open>http\<close>.
  \<^item> \<open>Link_Hash\<close>: the hash table with open addressing whose entries are linked in their order, refined to
    an association list through the locale of an ordered dictionary; a lookup in a table without an
    empty slot is \<open>None\<close>, and deletions lead there.  The growth of the table inside an insertion is
    bounded by the depth 2: a table that has grown has room.
  \<^item> \<open>Array_List\<close>, \<open>Print_Buf\<close>: the growing array and the growing text.
  \<^item> \<open>Json_Object\<close>, \<open>Json_Tokener\<close>: the values, their text, and the parser as the automaton with a stack
    of levels that the code is.  Its inner loop handles one character again and again
    (\<open>goto redo_char\<close>); it is a \<open>partial_function\<close>, and a measure on the states shows that it always
    returns.  What is printed is parsed back.
  \<^item> \<open>Url_Encoding\<close>, \<open>Http_Response\<close>, \<open>Http_Request\<close>, \<open>Mod_Http\<close>: percent encoding, the scanner and the
    parser of a response, the request with its socket, and the whole command.

  \<^bold>\<open>mod_nibblebill\<close> (\<open>dschreiber/mod_nibblebill\<close>): \<open>Nibblebill\<close> has the state of a call, the commands
  pause, resume, reset, check, adjust, the billing and the configuration, with the mutex as part of
  the state and the amounts in the precision of their C types.

  \<^bold>\<open>s25vmail_mwi\<close> (\<open>jwehle/system25/vmail\<close>): \<open>S25_Mwi\<close> is the daemon that switches message lamps by
  dialling codes with a modem.  Its main loop runs while \<open>terminate\<close> is not set; the environment
  grants it a number of tests of this flag (\<open>ms_polls\<close>), and the measure is this number.  Memory behind a
  block is an argument (\<open>beyond\<close>), since the code reads there.

  \<^bold>\<open>esl2agi\<close> (\<open>gled/esl2agi\<close>): \<open>Esl2agi\<close> runs an AGI script for a call: the command lines of the script
  are split in place, dispatched over the tables of handlers and turned into applications on the
  event socket.  Memory behind an array of words is an argument (\<open>junk\<close>).

  \<^bold>\<open>xmlcdrd\<close> (\<open>nazim/xmlcdrd\<close>): \<open>Xmlcdr\<close> has the table of statement variables (the hash table of GLib is
  a record of operations with its documented laws as a hypothesis), the templates, the decoding of
  the request, the configuration and the order of the plugins, one request, and the MySQL plugin.

  \<^bold>\<open>What is not modelled.\<close>  Logging, freeing of memory that only returns it, the registration of
  modules, forking and daemonizing, the code of libraries (GLib, libxml2, PCRE, MySQL, libesl, the
  core of FreeSWITCH), which are arguments.  Of the repository's other C code: the speech synthesis
  under \<open>grmt/svox pico\<close> and \<open>popt\<close> are vendored copies of other projects, \<open>shahzad/libmsn\<close> is C++, and
  the remaining modules are listed with the reason in the manifest.  Scripts in other languages are
  no part of the C programs.
\<close>

end
